(* ===== verification/Prelude.thy ===== *)
theory Prelude
  imports Main "HOL-Library.Sublist"
begin

text \<open>
  Shared vocabulary of the development: the Go values every component uses (errors and
  their chains, clock instants, the context), the collections of rewrite rules that carry
  the component proofs, and the list, map and prefix lemmas more than one component needs.

  Times (\<^verbatim>\<open>time.Time\<close>, \<^verbatim>\<open>time.Duration\<close>) are integers in nanoseconds. A
  \<^verbatim>\<open>time.Time\<close> field whose zero value the code tests with \<^verbatim>\<open>IsZero\<close> is an option,
  \<^verbatim>\<open>None\<close> being the zero time.
\<close>

section \<open>Rule collections\<close>

named_theorems stage_simps
  \<open>unfolding rules of the stage loops\<close>

named_theorems store_simps
  \<open>unfolding rules of the stores, caches and key sets\<close>

section \<open>Go values\<close>

type_synonym time = int
type_synonym duration = int
type_synonym stage_id = int

text \<open>
  Go errors as the code distinguishes them: the sentinels it compares with \<^verbatim>\<open>==\<close>,
  errors of user functions (\<^verbatim>\<open>Plain\<close>), \<^verbatim>\<open>fmt.Errorf\<close> with \<^verbatim>\<open>%w\<close> (\<^verbatim>\<open>Wrap\<close>),
  \<^verbatim>\<open>*StageError\<close> (stage, attempt, cause) and the error \<^verbatim>\<open>Supervise\<close> makes of a panic.
\<close>

datatype go_error =
    Canceled
  | DeadlineExceeded
  | ErrSkipped
  | ErrDrained
  | ErrCircuitOpen
  | ErrNoRunners
  | ErrChannelClosed
  | Plain string
  | Wrap string go_error
  | StageError string nat go_error
  | PanicError string string

text \<open>\<^verbatim>\<open>Unwrap\<close> of the two error types that have one.\<close>

fun unwrap :: "go_error \<Rightarrow> go_error option" where
  "unwrap (Wrap _ e) = Some e"
| "unwrap (StageError _ _ e) = Some e"
| "unwrap _ = None"

text \<open>\<^verbatim>\<open>errors.Is\<close>: the target occurs in the chain.\<close>

fun errors_is :: "go_error \<Rightarrow> go_error \<Rightarrow> bool" where
  "errors_is (Wrap m e) t = (Wrap m e = t \<or> errors_is e t)"
| "errors_is (StageError s n e) t = (StageError s n e = t \<or> errors_is e t)"
| "errors_is e t = (e = t)"

text \<open>\<^verbatim>\<open>errors.As(err, *StageError)\<close>: the first stage error of the chain.\<close>

fun as_stage_error :: "go_error \<Rightarrow> go_error option" where
  "as_stage_error (StageError s n e) = Some (StageError s n e)"
| "as_stage_error (Wrap _ e) = as_stage_error e"
| "as_stage_error _ = None"

lemma errors_is_refl [simp]: "errors_is e e"
  by (cases e) auto

text \<open>The result of a fallible Go function: an error, or a value.\<close>

type_synonym 'a result = "go_error + 'a"

section \<open>Generic lemmas\<close>

lemma prefix_appendI [intro]: "prefix xs ys \<Longrightarrow> prefix xs (ys @ zs)"
  by (auto simp: prefix_def)

lemma prefix_append_self [simp]: "prefix xs (xs @ ys)"
  by (auto simp: prefix_def)

lemma prefix_fstI: "p = (xs @ ys, n) \<Longrightarrow> prefix xs (fst p)"
  by auto

lemma length_filter_le_length: "length (filter P xs) \<le> length xs"
  by simp

lemma concat_map_singleton [simp]: "concat (map (\<lambda>x. [f x]) xs) = map f xs"
  by (induction xs) auto

lemma set_dropWhile_keep: "x \<in> set xs \<Longrightarrow> \<not> P x \<Longrightarrow> x \<in> set (dropWhile P xs)"
  by (induction xs) auto

lemma sorted_map_dropWhile: "sorted (map f xs) \<Longrightarrow> sorted (map f (dropWhile P xs))"
  by (induction xs) auto

lemma map_add_restrict_remove: "(m(k := None)) j = (if j = k then None else m j)"
  by simp

lemma finite_dom_upd [simp]: "finite (dom m) \<Longrightarrow> finite (dom (m(k := v)))"
proof -
  assume fin: "finite (dom m)"
  have "dom (m(k := v)) \<subseteq> insert k (dom m)"
    by (auto simp: dom_def split: if_splits)
  with fin show ?thesis
    by (meson finite_insert finite_subset)
qed

lemma card_dom_upd_new:
  "finite (dom m) \<Longrightarrow> k \<notin> dom m \<Longrightarrow> card (dom (m(k \<mapsto> v))) = Suc (card (dom m))"
  by simp

lemma card_dom_upd_old: "k \<in> dom m \<Longrightarrow> card (dom (m(k \<mapsto> v))) = card (dom m)"
  by (simp add: insert_absorb)

lemma card_dom_remove:
  "finite (dom m) \<Longrightarrow> k \<in> dom m \<Longrightarrow> card (dom (m(k := None))) = card (dom m) - 1"
  by simp

text \<open>\<^verbatim>\<open>%d\<close> of a natural number.\<close>

fun show_nat :: "nat \<Rightarrow> string" where
  "show_nat n = (if n < 10 then [char_of (48 + n)] else show_nat (n div 10) @ [char_of (48 + n mod 10)])"

declare show_nat.simps [simp del]

end
