(* ===== verification/Stage_Kernel.thy ===== *)
theory Stage_Kernel
  imports Prelude
begin

text \<open>
  The stage loop. Almost every operator of the repository is one goroutine running

  \<^verbatim>\<open>for { select { case item, ok := <-inCh: ... case <-ctx.Done(): return ctx.Err()
        case <-drainCh: cooperativeDrain = true; return nil } }\<close>

  with blocking sends inside the item arm and the same deferred clean-up. This theory
  states that shape once: a \<^verbatim>\<open>loop\<close> record holds what differs between operators (the
  local variables, the arm that runs for an event, which arms are armed, how a send
  blocks), \<^verbatim>\<open>step\<close> is one observable step of the goroutine, \<^verbatim>\<open>run\<close> a whole schedule and
  \<^verbatim>\<open>exec\<close> the functional reading of the same loop (events in, sends out, return value).

  The main lemmas relate the two: every schedule, with cancellation, draining and
  blocked sends at any point, has sent a prefix of what \<^verbatim>\<open>exec\<close> computes, and one that was
  not interrupted has sent exactly that. The locale \<^verbatim>\<open>stream_stage\<close> is the interface
  between this kernel and the operators.
\<close>

section \<open>Loops\<close>

text \<open>What an arm of the select does next: go round the loop, or return.\<close>

datatype 's outcome = Continue 's | Return "go_error option"

text \<open>An arm's effect: the sends it makes, in order, then the outcome.\<close>

datatype ('s, 'o) act = Act "'o list" "'s outcome"

text \<open>
  The select around a send: \<^verbatim>\<open>ch <- x\<close> alone, with \<^verbatim>\<open>ctx.Done()\<close> (a blocking outbox), with
  \<^verbatim>\<open>drainCh\<close>, or with both.
\<close>

datatype send_mode = SendBare | SendCtx | SendDrain | SendCtxDrain

text \<open>Events of a loop with one input channel: an item, or the channel found closed.\<close>

datatype 'a recv = Item 'a | Closed

record ('s, 'e, 'o) loop =
  loop_init :: 's
  loop_head :: "'s \<Rightarrow> go_error option option"
  loop_listens :: "'s \<Rightarrow> 'e \<Rightarrow> bool"
  loop_step :: "'s \<Rightarrow> 'e \<Rightarrow> ('s, 'o) act"
  loop_sel_ctx :: bool
  loop_sel_drain :: bool
  loop_send :: send_mode

text \<open>
  The usual loop: no check at the loop head, all arms armed in every state, cancellation
  and drain arms present, sends through a blocking outbox.
\<close>

definition select_loop :: "'s \<Rightarrow> ('s \<Rightarrow> 'e \<Rightarrow> ('s, 'o) act) \<Rightarrow> ('s, 'e, 'o) loop" where
  "select_loop s f =
     \<lparr>loop_init = s, loop_head = (\<lambda>_. None), loop_listens = (\<lambda>_ _. True), loop_step = f,
      loop_sel_ctx = True, loop_sel_drain = True, loop_send = SendCtx\<rparr>"

lemma select_loop_sel [simp]:
  "loop_init (select_loop s f) = s"
  "loop_head (select_loop s f) = (\<lambda>_. None)"
  "loop_listens (select_loop s f) = (\<lambda>_ _. True)"
  "loop_step (select_loop s f) = f"
  "loop_sel_ctx (select_loop s f)"
  "loop_sel_drain (select_loop s f)"
  "loop_send (select_loop s f) = SendCtx"
  by (simp_all add: select_loop_def)

section \<open>Functional reading\<close>

definition settle :: "('s, 'e, 'o) loop \<Rightarrow> 's \<Rightarrow> 's outcome" where
  "settle m s = (case loop_head m s of Some r \<Rightarrow> Return r | None \<Rightarrow> Continue s)"

fun exec :: "('s, 'e, 'o) loop \<Rightarrow> 's \<Rightarrow> 'e list \<Rightarrow> 'o list \<times> 's outcome" where
  "exec m s [] = ([], settle m s)"
| "exec m s (e # es) =
     (case loop_head m s of
        Some r \<Rightarrow> ([], Return r)
      | None \<Rightarrow>
          (case loop_step m s e of
             Act os (Return r) \<Rightarrow> (os, Return r)
           | Act os (Continue s') \<Rightarrow>
               (case exec m s' es of (os', n) \<Rightarrow> (os @ os', n))))"

text \<open>A whole run: from the initial variables.\<close>

definition outputs :: "('s, 'e, 'o) loop \<Rightarrow> 'e list \<Rightarrow> 'o list" where
  "outputs m es = fst (exec m (loop_init m) es)"

definition returns :: "('s, 'e, 'o) loop \<Rightarrow> 'e list \<Rightarrow> 's outcome" where
  "returns m es = snd (exec m (loop_init m) es)"

text \<open>The input of a stage whose upstream sends \<^verbatim>\<open>xs\<close> and closes the channel.\<close>

definition items :: "'a list \<Rightarrow> 'a recv list" where
  "items xs = map Item xs"

definition closing :: "'a list \<Rightarrow> 'a recv list" where
  "closing xs = map Item xs @ [Closed]"

lemma items_simps [simp]:
  "items [] = []" "items (x # xs) = Item x # items xs" "items (xs @ ys) = items xs @ items ys"
  by (simp_all add: items_def)

lemma closing_simps [simp]:
  "closing [] = [Closed]" "closing (x # xs) = Item x # closing xs"
  by (simp_all add: closing_def)

lemma closing_items: "closing xs = items xs @ [Closed]"
  by (simp add: closing_def items_def)

text \<open>Running on from where a first part of the events left off.\<close>

definition resume :: "('s, 'e, 'o) loop \<Rightarrow> 'o list \<times> 's outcome \<Rightarrow> 'e list \<Rightarrow> 'o list \<times> 's outcome" where
  "resume m p es =
     (case snd p of
        Continue s \<Rightarrow> (fst p @ fst (exec m s es), snd (exec m s es))
      | Return r \<Rightarrow> p)"

lemma exec_append: "exec m s (es @ es') = resume m (exec m s es) es'"
proof (induction es arbitrary: s)
  case Nil
  then show ?case
    by (cases es') (auto simp: resume_def settle_def split: option.splits)
next
  case (Cons e es)
  then show ?case
    by (auto simp: resume_def split: option.splits act.splits outcome.splits prod.splits)
qed

lemma exec_append_Continue:
  "exec m s es = (os, Continue s') \<Longrightarrow>
   exec m s (es @ es') = (os @ fst (exec m s' es'), snd (exec m s' es'))"
  by (simp add: exec_append resume_def)

lemma exec_append_Return:
  "exec m s es = (os, Return r) \<Longrightarrow> exec m s (es @ es') = (os, Return r)"
  by (simp add: exec_append resume_def)

lemma exec_prefix: "prefix (fst (exec m s es)) (fst (exec m s (es @ es')))"
  by (auto simp: exec_append resume_def split: outcome.splits)

section \<open>Schedules\<close>

text \<open>
  One step of the goroutine is a label: an event taken from a select arm, a send that
  went through, the context found cancelled, or the drain channel found closed.
\<close>

datatype ('e, 'o) label = Ev 'e | Sent 'o | CtxDone go_error | DrainSig

text \<open>
  Where the goroutine is: waiting in its select, blocked in the first of the sends it
  still has to make, or finished with a return value and the \<^verbatim>\<open>cooperativeDrain\<close> flag.
\<close>

datatype ('s, 'o) status =
    Looping 's
  | Sending "'o list" "'s outcome"
  | Exited "go_error option" bool

fun enter :: "('s, 'e, 'o) loop \<Rightarrow> 'o list \<Rightarrow> 's outcome \<Rightarrow> ('s, 'o) status" where
  "enter m [] (Return r) = Exited r False"
| "enter m [] (Continue s) =
     (case loop_head m s of Some r \<Rightarrow> Exited r False | None \<Rightarrow> Looping s)"
| "enter m (x # xs) n = Sending (x # xs) n"

declare enter.simps(2) [simp del]

lemma enter_Continue:
  "enter m [] (Continue s) =
     (case loop_head m s of Some r \<Rightarrow> Exited r False | None \<Rightarrow> Looping s)"
  by (rule enter.simps)

lemma enter_Continue_None [simp]:
  "loop_head m s = None \<Longrightarrow> enter m [] (Continue s) = Looping s"
  by (simp add: enter_Continue)

definition start :: "('s, 'e, 'o) loop \<Rightarrow> ('s, 'o) status" where
  "start m = enter m [] (Continue (loop_init m))"

fun step :: "('s, 'e, 'o) loop \<Rightarrow> ('s, 'o) status \<Rightarrow> ('e, 'o) label \<Rightarrow> ('s, 'o) status option" where
  "step m (Looping s) (Ev e) =
     (if loop_listens m s e
      then Some (case loop_step m s e of Act os n \<Rightarrow> enter m os n) else None)"
| "step m (Looping s) (CtxDone er) =
     (if loop_sel_ctx m then Some (Exited (Some er) False) else None)"
| "step m (Looping s) DrainSig =
     (if loop_sel_drain m then Some (Exited None True) else None)"
| "step m (Sending (x # xs) n) (Sent y) = (if x = y then Some (enter m xs n) else None)"
| "step m (Sending (x # xs) n) (CtxDone er) =
     (if loop_send m \<in> {SendCtx, SendCtxDrain} then Some (Exited (Some er) False) else None)"
| "step m (Sending (x # xs) n) DrainSig =
     (if loop_send m \<in> {SendDrain, SendCtxDrain} then Some (Exited None True) else None)"
| "step m _ _ = None"

fun_cases step_EvE: "step m st (Ev e) = Some st'"
fun_cases step_SentE: "step m st (Sent x) = Some st'"
fun_cases step_CtxE: "step m st (CtxDone er) = Some st'"
fun_cases step_DrainE: "step m st DrainSig = Some st'"

fun run :: "('s, 'e, 'o) loop \<Rightarrow> ('s, 'o) status \<Rightarrow> ('e, 'o) label list \<Rightarrow> ('s, 'o) status option" where
  "run m st [] = Some st"
| "run m st (l # ls) = (case step m st l of None \<Rightarrow> None | Some st' \<Rightarrow> run m st' ls)"

fun received :: "('e, 'o) label list \<Rightarrow> 'e list" where
  "received [] = []"
| "received (Ev e # ls) = e # received ls"
| "received (_ # ls) = received ls"

fun sent :: "('e, 'o) label list \<Rightarrow> 'o list" where
  "sent [] = []"
| "sent (Sent x # ls) = x # sent ls"
| "sent (_ # ls) = sent ls"

text \<open>A schedule in which neither cancellation nor draining was observed.\<close>

fun undisturbed :: "('e, 'o) label list \<Rightarrow> bool" where
  "undisturbed [] = True"
| "undisturbed (CtxDone _ # _) = False"
| "undisturbed (DrainSig # _) = False"
| "undisturbed (_ # ls) = undisturbed ls"

lemma received_append [simp]: "received (ls @ ls') = received ls @ received ls'"
  by (induction ls rule: received.induct) auto

lemma sent_append [simp]: "sent (ls @ ls') = sent ls @ sent ls'"
  by (induction ls rule: sent.induct) auto

lemma sent_map_Sent [simp]: "sent (map Sent os) = os"
  by (induction os) auto

lemma received_map_Sent [simp]: "received (map Sent os) = []"
  by (induction os) auto

lemma undisturbed_append [simp]: "undisturbed (ls @ ls') \<longleftrightarrow> undisturbed ls \<and> undisturbed ls'"
  by (induction ls rule: undisturbed.induct) auto

lemma undisturbed_map_Sent [simp]: "undisturbed (map Sent os)"
  by (induction os) auto

lemma run_append: "run m st (ls @ ls') = (case run m st ls of None \<Rightarrow> None | Some st' \<Rightarrow> run m st' ls')"
  by (induction ls arbitrary: st) (auto split: option.splits)

section \<open>Schedules against the functional reading\<close>

text \<open>What the loop will still send and return from a given point.\<close>

fun exec_from :: "('s, 'e, 'o) loop \<Rightarrow> ('s, 'o) status \<Rightarrow> 'e list \<Rightarrow> 'o list \<times> 's outcome" where
  "exec_from m (Looping s) es = exec m s es"
| "exec_from m (Sending os n) es = resume m (os, n) es"
| "exec_from m (Exited r c) es = ([], Return r)"

text \<open>A point of the loop as the code can reach it.\<close>

fun status_ok :: "('s, 'e, 'o) loop \<Rightarrow> ('s, 'o) status \<Rightarrow> bool" where
  "status_ok m (Looping s) = (loop_head m s = None)"
| "status_ok m (Sending os n) = (os \<noteq> [])"
| "status_ok m (Exited r c) = True"

lemma enter_ok [simp]: "status_ok m (enter m os n)"
  by (cases "(m, os, n)" rule: enter.cases) (auto simp: enter_Continue split: option.splits)

lemma start_ok [simp]: "status_ok m (start m)"
  by (simp add: start_def)

lemma step_ok: "step m st l = Some st' \<Longrightarrow> status_ok m st'"
  by (cases "(m, st, l)" rule: step.cases) (auto split: if_splits act.splits)

lemma exec_head: "loop_head m s = Some r \<Longrightarrow> exec m s es = ([], Return r)"
  by (cases es) (auto simp: settle_def)

lemma exec_from_enter: "exec_from m (enter m os n) es = resume m (os, n) es"
  by (cases "(m, os, n)" rule: enter.cases)
    (auto simp: enter_Continue resume_def exec_head split: option.splits)

lemma exec_from_start: "exec_from m (start m) es = exec m (loop_init m) es"
  by (simp add: start_def exec_from_enter resume_def)

lemma exec_Cons:
  "loop_head m s = None \<Longrightarrow> loop_step m s e = Act os n \<Longrightarrow>
   exec m s (e # es) = resume m (os, n) es"
  by (auto simp: resume_def split: outcome.splits prod.splits)

lemma step_Ev:
  "status_ok m st \<Longrightarrow> step m st (Ev e) = Some st' \<Longrightarrow>
   exec_from m st (e # es) = exec_from m st' es"
  by (erule step_EvE)
    (auto simp: exec_from_enter exec_Cons simp del: exec.simps split: if_splits act.splits)

lemma resume_Cons: "resume m (x # xs, n) es = (x # fst (resume m (xs, n) es), snd (resume m (xs, n) es))"
  by (auto simp: resume_def split: outcome.splits)

lemma step_Sent:
  "step m st (Sent x) = Some st' \<Longrightarrow>
   exec_from m st es = (x # fst (exec_from m st' es), snd (exec_from m st' es))"
  by (erule step_SentE) (auto simp: exec_from_enter resume_Cons split: if_splits)

text \<open>
  The central equation: an undisturbed schedule computes the functional reading, cut at
  the point it has reached.
\<close>

lemma run_exec_from:
  assumes "status_ok m st" and "run m st ls = Some st'" and "undisturbed ls"
  shows "exec_from m st (received ls @ es) =
           (sent ls @ fst (exec_from m st' es), snd (exec_from m st' es))"
  using assms
proof (induction ls arbitrary: st)
  case Nil
  then show ?case by simp
next
  case (Cons l ls)
  then obtain st1 where st1: "step m st l = Some st1" "run m st1 ls = Some st'"
    by (auto split: option.splits)
  then have ok: "status_ok m st1" by (auto dest: step_ok)
  show ?case
  proof (cases l)
    case (Ev e)
    with Cons.IH [OF ok st1(2)] Cons.prems st1 show ?thesis by (simp add: step_Ev)
  next
    case (Sent x)
    with Cons.IH [OF ok st1(2)] Cons.prems st1 show ?thesis by (simp add: step_Sent)
  qed (use Cons.prems in auto)
qed

lemma run_Exited: "run m (Exited r c) ls = Some st \<Longrightarrow> ls = [] \<and> st = Exited r c"
  by (cases ls) auto

lemma run_sent_prefix_from:
  assumes "status_ok m st" and "run m st ls = Some st'"
  shows "prefix (sent ls) (fst (exec_from m st (received ls)))"
  using assms
proof (induction ls arbitrary: st)
  case Nil
  then show ?case by simp
next
  case (Cons l ls)
  then obtain st1 where st1: "step m st l = Some st1" "run m st1 ls = Some st'"
    by (auto split: option.splits)
  then have IH: "prefix (sent ls) (fst (exec_from m st1 (received ls)))"
    using Cons.IH step_ok by blast
  show ?case
  proof (cases l)
    case (Ev e)
    with IH Cons.prems st1 show ?thesis by (simp add: step_Ev)
  next
    case (Sent x)
    with IH st1 show ?thesis by (simp add: step_Sent)
  next
    case (CtxDone er)
    with st1 have "\<exists>r c. st1 = Exited r c"
      by (auto elim!: step_CtxE split: if_splits)
    with st1 CtxDone show ?thesis by (auto dest: run_Exited)
  next
    case DrainSig
    with st1 have "\<exists>r c. st1 = Exited r c"
      by (auto elim!: step_DrainE split: if_splits)
    with st1 DrainSig show ?thesis by (auto dest: run_Exited)
  qed
qed

text \<open>Safety: whatever happens, a stage has sent a prefix of the functional result.\<close>

lemma run_sent_prefix:
  "run m (start m) ls = Some st \<Longrightarrow> prefix (sent ls) (outputs m (received ls))"
  using run_sent_prefix_from [of m "start m" ls st] by (simp add: exec_from_start outputs_def)

text \<open>Completion: a stage that returned undisturbed sent the functional result, whole.\<close>

lemma run_complete:
  assumes "run m (start m) ls = Some (Exited r c)" and "undisturbed ls"
  shows "outputs m (received ls @ es) = sent ls \<and> returns m (received ls @ es) = Return r"
  using run_exec_from [OF start_ok assms, of es]
  by (simp add: exec_from_start outputs_def returns_def)

lemma run_idle:
  assumes "run m (start m) ls = Some (Looping s)" and "undisturbed ls"
  shows "outputs m (received ls) = sent ls"
  using run_exec_from [OF start_ok assms, of "[]"]
  by (simp add: exec_from_start outputs_def)

text \<open>The flag \<^verbatim>\<open>cooperativeDrain\<close> is set exactly by the drain arm.\<close>

lemma run_not_cooperative:
  assumes "run m st ls = Some (Exited r True)" and "undisturbed ls" and "st \<noteq> Exited r True"
  shows False
  using assms
proof (induction ls arbitrary: st)
  case Nil
  then show ?case by simp
next
  case (Cons l ls)
  then obtain st1 where st1: "step m st l = Some st1" "run m st1 ls = Some (Exited r True)"
    by (auto split: option.splits)
  have enter_False: "enter m os n \<noteq> Exited r True" for os n
    by (cases "(m, os, n)" rule: enter.cases) (auto simp: enter_Continue split: option.splits)
  have "st1 \<noteq> Exited r True"
    using st1(1) Cons.prems(2) enter_False
    by (cases "(m, st, l)" rule: step.cases) (auto split: if_splits act.splits)
  moreover have "undisturbed ls" using Cons.prems(2) by (cases l) auto
  ultimately show ?case using Cons.IH st1(2) by blast
qed

section \<open>Every functional run has a schedule\<close>

fun schedule :: "('s, 'e, 'o) loop \<Rightarrow> 's \<Rightarrow> 'e list \<Rightarrow> ('e, 'o) label list" where
  "schedule m s [] = []"
| "schedule m s (e # es) =
     (case loop_head m s of
        Some r \<Rightarrow> []
      | None \<Rightarrow>
          (case loop_step m s e of
             Act os (Return r) \<Rightarrow> Ev e # map Sent os
           | Act os (Continue s') \<Rightarrow> Ev e # map Sent os @ schedule m s' es))"

lemma run_map_Sent: "run m (enter m os n) (map Sent os) = Some (enter m [] n)"
proof (induction os)
  case (Cons x xs)
  then show ?case by (cases xs) auto
qed simp

lemma run_schedule:
  assumes "\<And>s e. loop_listens m s e"
  shows "run m (enter m [] (Continue s)) (schedule m s es) = Some (enter m [] (snd (exec m s es)))
         \<and> sent (schedule m s es) = fst (exec m s es) \<and> undisturbed (schedule m s es)"
proof (induction es arbitrary: s)
  case Nil
  then show ?case by (auto simp: settle_def enter_Continue split: option.splits)
next
  case (Cons e es)
  show ?case
  proof (cases "loop_head m s")
    case (Some r)
    then show ?thesis by (simp add: enter_Continue)
  next
    case None
    obtain os n where act: "loop_step m s e = Act os n" by (cases "loop_step m s e")
    show ?thesis
    proof (cases n)
      case (Return r)
      with None act show ?thesis by (simp add: assms run_map_Sent)
    next
      case (Continue s')
      with None act Cons.IH [of s'] show ?thesis
        by (simp add: assms run_append run_map_Sent split: prod.splits)
    qed
  qed
qed

lemma run_schedule_start:
  assumes "\<And>s e. loop_listens m s e"
  shows "\<exists>ls. run m (start m) ls = Some (enter m [] (returns m es)) \<and> sent ls = outputs m es
              \<and> undisturbed ls"
  using run_schedule [OF assms, of "loop_init m" es]
  by (auto simp: start_def outputs_def returns_def)

section \<open>Events in the order a loop listens\<close>

text \<open>
  Which sequences of events an undisturbed run can receive: each is listened for in the state
  the loop is in, and none follows a return.
\<close>

fun heard :: "('s, 'e, 'o) loop \<Rightarrow> 's \<Rightarrow> 'e list \<Rightarrow> bool" where
  "heard m s [] = True"
| "heard m s (e # es) =
     (loop_head m s = None \<and> loop_listens m s e \<and>
      (case loop_step m s e of Act os (Continue s') \<Rightarrow> heard m s' es | Act os (Return r) \<Rightarrow> es = []))"

fun heard_from :: "('s, 'e, 'o) loop \<Rightarrow> ('s, 'o) status \<Rightarrow> 'e list \<Rightarrow> bool" where
  "heard_from m (Looping s) es = heard m s es"
| "heard_from m (Sending os (Continue s)) es = heard m s es"
| "heard_from m (Sending os (Return r)) es = (es = [])"
| "heard_from m (Exited r c) es = (es = [])"

lemma heard_from_enter:
  "heard_from m (enter m os n) es = (case n of Continue s \<Rightarrow> heard m s es | Return r \<Rightarrow> es = [])"
proof (cases n)
  case (Continue s)
  then show ?thesis by (cases os; cases es) (auto simp: enter_Continue split: option.splits)
qed (cases os; simp)

lemma heard_from_Nil [simp]: "heard_from m st []"
proof (cases st)
  case (Sending os n)
  then show ?thesis by (cases n) auto
qed auto

lemma run_heard_from:
  "run m st ls = Some st' \<Longrightarrow> status_ok m st \<Longrightarrow> undisturbed ls \<Longrightarrow> heard_from m st (received ls)"
proof (induction ls arbitrary: st)
  case Nil
  then show ?case by simp
next
  case (Cons l ls)
  then obtain st1 where st1: "step m st l = Some st1" "run m st1 ls = Some st'"
    by (auto split: option.splits)
  have IH: "undisturbed ls \<Longrightarrow> heard_from m st1 (received ls)"
    using Cons.IH [OF st1(2) step_ok [OF st1(1)]] .
  show ?case
  proof (cases l)
    case (Ev e)
    with IH st1(1) Cons.prems show ?thesis
      by (auto elim!: step_EvE simp: heard_from_enter split: if_splits act.splits outcome.splits)
  next
    case (Sent x)
    with IH st1(1) Cons.prems show ?thesis
      by (auto elim!: step_SentE simp: heard_from_enter split: if_splits outcome.splits)
  qed (use Cons.prems in auto)
qed

lemma run_heard:
  "run m (start m) ls = Some st \<Longrightarrow> undisturbed ls \<Longrightarrow> heard m (loop_init m) (received ls)"
  using run_heard_from [of m "start m" ls st] by (simp add: start_def heard_from_enter)

section \<open>The interface of a single-input operator\<close>

text \<open>
  What a component that builds a pipeline relies on: what the stage sends while its input
  is open (\<^verbatim>\<open>opened\<close>), what it has sent when the input is closed and it has returned
  (\<^verbatim>\<open>closed\<close>), and the error it returns (\<^verbatim>\<open>ret\<close>). Each operator discharges the two laws for
  its own loop by induction over the items.
\<close>

locale stream_stage =
  fixes m :: "('s, 'a recv, 'o) loop"
    and opened :: "'a list \<Rightarrow> 'o list"
    and closed :: "'a list \<Rightarrow> 'o list"
    and ret :: "'a list \<Rightarrow> go_error option"
  assumes outputs_open: "outputs m (items xs) = opened xs"
    and outputs_closed: "outputs m (closing xs) = closed xs"
    and returns_closed: "returns m (closing xs) = Return (ret xs)"
    and listens: "loop_listens m s e"
begin

lemma open_prefix_closed: "prefix (opened xs) (closed xs)"
  using exec_prefix [of m "loop_init m" "items xs" "[Closed]"]
  by (simp add: outputs_open [symmetric] outputs_closed [symmetric] outputs_def closing_items)

lemma opened_mono: "prefix (opened xs) (opened (xs @ ys))"
  using exec_prefix [of m "loop_init m" "items xs" "items ys"]
  by (simp add: outputs_open [symmetric] outputs_def)

lemma trace_open:
  assumes "run m (start m) ls = Some st" and "received ls = items xs"
  shows "prefix (sent ls) (opened xs)"
  using run_sent_prefix [OF assms(1)] by (simp add: assms(2) outputs_open)

lemma trace_any:
  assumes "run m (start m) ls = Some st" and "prefix (received ls) (closing xs)"
  shows "prefix (sent ls) (closed xs)"
proof -
  from assms(2) obtain zs where "closing xs = received ls @ zs" by (auto simp: prefix_def)
  then have "prefix (outputs m (received ls)) (closed xs)"
    by (metis exec_prefix outputs_closed outputs_def)
  with run_sent_prefix [OF assms(1)] show ?thesis by (rule prefix_order.trans)
qed

lemma trace_complete:
  assumes "run m (start m) ls = Some (Exited r c)" and "undisturbed ls"
    and "prefix (received ls) (closing xs)"
  shows "sent ls = closed xs \<and> r = ret xs \<and> \<not> c"
proof -
  from assms(3) obtain zs where zs: "closing xs = received ls @ zs" by (auto simp: prefix_def)
  have "c \<Longrightarrow> start m = Exited r c \<Longrightarrow> False"
    by (auto simp: start_def enter_Continue split: option.splits)
  then have "\<not> c"
    using run_not_cooperative [of m "start m" ls r] assms(1,2) by (cases c) auto
  with run_complete [OF assms(1,2), of zs] show ?thesis
    by (simp add: zs [symmetric] outputs_closed returns_closed)
qed

lemma trace_exists:
  "\<exists>ls. run m (start m) ls = Some (Exited (ret xs) False) \<and> undisturbed ls \<and> sent ls = closed xs"
  using run_schedule_start [OF listens, of "closing xs"]
  by (auto simp: outputs_closed returns_closed)

end

end
