(* ===== verification/Handlers.thy ===== *)
theory Handlers
  imports Prelude
begin

text \<open>
  Error routing for one item (\<^verbatim>\<open>internal/hooks.go\<close>, \<^verbatim>\<open>config.go\<close>,
  \<^verbatim>\<open>internal/process.go\<close>, \<^verbatim>\<open>internal/carrier.go\<close>, \<^verbatim>\<open>fastpath.go\<close>): the error
  handlers a user composes, the per-item retry loop \<^verbatim>\<open>ProcessItem\<close>, its buffered variant
  for \<^verbatim>\<open>FlatMap\<close>, and the wrapping of errors.

  The user function is an oracle indexed by the attempt number, since a Go function may
  answer differently each time it is called; the cancellation of a backoff wait is an
  oracle of the same kind. The retry loops take fuel, one unit per call of the user
  function; a result with some fuel is the result with all greater fuel, and
  \<^verbatim>\<open>attempts_bound\<close> says how much is enough.
\<close>

section \<open>Handlers\<close>

datatype error_action = ActionHalt | ActionSkip | ActionRetry | ActionReturn

text \<open>
  A value of static type \<^verbatim>\<open>any\<close>, read against the output type of the stage it is used in:
  either it holds a value of that type, or the type assertion \<^verbatim>\<open>val.(O)\<close> fails.
\<close>

datatype 'v dyn = DynOf 'v | DynOther

type_synonym backoff = "nat \<Rightarrow> duration"

datatype 'v handler =
    DefaultHandler
  | SkipHandler
  | ReturnHandler "'v dyn"
  | TypedReturnHandler 'v
  | RetryHandler int "backoff option" "'v handler"
  | RetryIfHandler "go_error \<Rightarrow> bool" "backoff option" "'v handler"

text \<open>\<^verbatim>\<open>Handle(err, attempt)\<close>. Both retry handlers ask their fallback with attempt 0.\<close>

fun handle :: "'v handler \<Rightarrow> go_error \<Rightarrow> nat \<Rightarrow> error_action" where
  "handle DefaultHandler _ _ = ActionHalt"
| "handle SkipHandler _ _ = ActionSkip"
| "handle (ReturnHandler _) _ _ = ActionReturn"
| "handle (TypedReturnHandler _) _ _ = ActionReturn"
| "handle (RetryHandler limit _ fallback) err attempt =
     (if int attempt < limit then ActionRetry else handle fallback err 0)"
| "handle (RetryIfHandler predicate _ fallback) err _ =
     (if predicate err then ActionRetry else handle fallback err 0)"

text \<open>\<^verbatim>\<open>Backoff()\<close>; \<^verbatim>\<open>None\<close> is the nil function.\<close>

fun handler_backoff :: "'v handler \<Rightarrow> backoff option" where
  "handler_backoff (RetryHandler _ bo _) = bo"
| "handler_backoff (RetryIfHandler _ bo _) = bo"
| "handler_backoff _ = None"

text \<open>
  The type assertion to \<^verbatim>\<open>Returner\<close> followed by \<^verbatim>\<open>ReturnValue()\<close>: \<^verbatim>\<open>None\<close> where the
  handler is no \<^verbatim>\<open>Returner\<close>. Both retry handlers are, and answer nil when their fallback is
  not.
\<close>

fun return_value :: "'v handler \<Rightarrow> 'v dyn option" where
  "return_value (ReturnHandler v) = Some v"
| "return_value (TypedReturnHandler v) = Some (DynOf v)"
| "return_value (RetryHandler _ _ fallback) =
     Some (case return_value fallback of Some v \<Rightarrow> v | None \<Rightarrow> DynOther)"
| "return_value (RetryIfHandler _ _ fallback) =
     Some (case return_value fallback of Some v \<Rightarrow> v | None \<Rightarrow> DynOther)"
| "return_value _ = None"

text \<open>The constructors of \<^verbatim>\<open>config.go\<close>.\<close>

definition Halt :: "'v handler" where "Halt = DefaultHandler"

definition ActionDrop :: "'v handler" where "ActionDrop = SkipHandler"

definition ReturnVal :: "'v dyn \<Rightarrow> 'v handler" where "ReturnVal v = ReturnHandler v"

definition TypedReturn :: "'v \<Rightarrow> 'v handler" where "TypedReturn v = TypedReturnHandler v"

definition RetryMax :: "int \<Rightarrow> backoff option \<Rightarrow> 'v handler" where
  "RetryMax n b = RetryHandler n b DefaultHandler"

definition RetryThen :: "int \<Rightarrow> backoff option \<Rightarrow> 'v handler \<Rightarrow> 'v handler" where
  "RetryThen n b fallback = RetryHandler n b fallback"

definition RetryIf :: "(go_error \<Rightarrow> bool) \<Rightarrow> backoff option \<Rightarrow> 'v handler" where
  "RetryIf p b = RetryIfHandler p b DefaultHandler"

definition RetryIfThen :: "(go_error \<Rightarrow> bool) \<Rightarrow> backoff option \<Rightarrow> 'v handler \<Rightarrow> 'v handler" where
  "RetryIfThen p b fallback = RetryIfHandler p b fallback"

definition FixedBackoff :: "duration \<Rightarrow> backoff" where
  "FixedBackoff d = (\<lambda>_. d)"

lemmas handler_defs =
  Halt_def ActionDrop_def ReturnVal_def TypedReturn_def RetryMax_def RetryThen_def
  RetryIf_def RetryIfThen_def

text \<open>\<^verbatim>\<open>IsDefaultHandler\<close> and \<^verbatim>\<open>resolveHandler\<close>; an unset handler is \<^verbatim>\<open>None\<close>.\<close>

fun IsDefaultHandler :: "'v handler option \<Rightarrow> bool" where
  "IsDefaultHandler None = True"
| "IsDefaultHandler (Some DefaultHandler) = True"
| "IsDefaultHandler (Some _) = False"

definition resolveHandler :: "'v handler option \<Rightarrow> 'v handler option \<Rightarrow> 'v handler" where
  "resolveHandler stage_handler run_default =
     (case stage_handler of
        Some h \<Rightarrow> h
      | None \<Rightarrow> (case run_default of Some h \<Rightarrow> h | None \<Rightarrow> DefaultHandler))"

section \<open>Item contexts\<close>

text \<open>
  A context as stage functions see it: its cancellation error, if any, and its values. A
  carrier context takes cancellation from the stage and values from the item first.
\<close>

record 'k go_ctx =
  ctx_err :: "go_error option"
  ctx_value :: "'k \<rightharpoonup> string"

definition carrierCtx :: "'k go_ctx \<Rightarrow> 'k go_ctx \<Rightarrow> 'k go_ctx" where
  "carrierCtx stage vals =
     \<lparr>ctx_err = ctx_err stage,
      ctx_value = (\<lambda>k. case ctx_value vals k of Some v \<Rightarrow> Some v | None \<Rightarrow> ctx_value stage k)\<rparr>"

text \<open>\<^verbatim>\<open>carried item\<close> is the result of the assertion to \<^verbatim>\<open>ContextCarrier\<close>.\<close>

definition ItemCtx :: "'k go_ctx \<Rightarrow> ('i \<Rightarrow> 'k go_ctx option) \<Rightarrow> 'i \<Rightarrow> 'k go_ctx" where
  "ItemCtx stageCtx carried item =
     (case carried item of Some c \<Rightarrow> carrierCtx stageCtx c | None \<Rightarrow> stageCtx)"

definition ItemCtxWithMapper :: "'k go_ctx \<Rightarrow> 'i \<Rightarrow> ('i \<Rightarrow> 'k go_ctx option) \<Rightarrow> 'k go_ctx" where
  "ItemCtxWithMapper stageCtx item mapper =
     (case mapper item of Some c \<Rightarrow> carrierCtx stageCtx c | None \<Rightarrow> stageCtx)"

text \<open>The context a stage function is called with, as \<^verbatim>\<open>ProcessItem\<close> chooses it.\<close>

definition fn_context ::
  "'k go_ctx \<Rightarrow> ('i \<Rightarrow> 'k go_ctx option) \<Rightarrow> ('i \<Rightarrow> 'k go_ctx option) option \<Rightarrow> 'i \<Rightarrow> 'k go_ctx" where
  "fn_context ctx carried ctxMapper item =
     (case ctxMapper of
        Some mapper \<Rightarrow> ItemCtxWithMapper ctx item mapper
      | None \<Rightarrow> ItemCtx ctx carried item)"

lemma fn_context_cancellation: "ctx_err (fn_context ctx carried mapper item) = ctx_err ctx"
  by (simp add: fn_context_def ItemCtx_def ItemCtxWithMapper_def carrierCtx_def split: option.splits)

lemma fn_context_mapper_wins:
  assumes "mapper item = Some c" and "ctx_value c k = Some v"
  shows "ctx_value (fn_context ctx carried (Some mapper) item) k = Some v"
  using assms by (simp add: fn_context_def ItemCtxWithMapper_def carrierCtx_def)

section \<open>Wrapping errors\<close>

definition WrapStageErr :: "string \<Rightarrow> go_error option \<Rightarrow> nat \<Rightarrow> go_error option" where
  "WrapStageErr name err attempt =
     (case err of
        None \<Rightarrow> None
      | Some e \<Rightarrow>
          if e = ErrSkipped \<or> e = Canceled \<or> e = DeadlineExceeded then Some e
          else if as_stage_error e \<noteq> None then Some e
          else Some (StageError name attempt e))"

lemma WrapStageErr_None [simp]: "WrapStageErr n None a = None"
  by (simp add: WrapStageErr_def)

lemma WrapStageErr_some: "\<exists>e'. WrapStageErr n (Some e) a = Some e'"
  by (simp add: WrapStageErr_def)

lemma WrapStageErr_idem: "WrapStageErr n' (WrapStageErr n e a) a' = WrapStageErr n e a"
  by (auto simp: WrapStageErr_def split: option.splits)

lemma WrapStageErr_is: "WrapStageErr n (Some e) a = Some e' \<Longrightarrow> errors_is e t \<Longrightarrow> errors_is e' t"
  by (auto simp: WrapStageErr_def split: if_splits)

section \<open>ProcessItem\<close>

text \<open>
  The loop from a given attempt on. \<^verbatim>\<open>fn k\<close> is what the user function answers at attempt
  \<^verbatim>\<open>k\<close>; \<^verbatim>\<open>cancelled k\<close> is \<^verbatim>\<open>Some e\<close> when the wait after attempt \<^verbatim>\<open>k\<close> ended with the
  context's error \<^verbatim>\<open>e\<close>. The result is the value or error, and the attempt it came from;
  \<^verbatim>\<open>Inl ErrSkipped\<close> is a dropped item.
\<close>

fun process_loop ::
  "nat \<Rightarrow> (nat \<Rightarrow> 'o result) \<Rightarrow> 'o handler \<Rightarrow> (nat \<Rightarrow> go_error option) \<Rightarrow> nat \<Rightarrow> ('o result \<times> nat) option" where
  "process_loop 0 fn h cancelled attempt = None"
| "process_loop (Suc fuel) fn h cancelled attempt =
     (case fn attempt of
        Inr result \<Rightarrow> Some (Inr result, attempt)
      | Inl err \<Rightarrow>
          (case handle h err attempt of
             ActionSkip \<Rightarrow> Some (Inl ErrSkipped, attempt)
           | ActionReturn \<Rightarrow>
               (case return_value h of
                  Some (DynOf v) \<Rightarrow> Some (Inr v, attempt)
                | _ \<Rightarrow> Some (Inl err, attempt))
           | ActionRetry \<Rightarrow>
               (case handler_backoff h of
                  None \<Rightarrow> Some (Inl err, attempt)
                | Some bo \<Rightarrow>
                    (case cancelled attempt of
                       Some e \<Rightarrow> Some (Inl e, attempt)
                     | None \<Rightarrow> process_loop fuel fn h cancelled (Suc attempt)))
           | ActionHalt \<Rightarrow> Some (Inl err, attempt)))"

definition ProcessItem ::
  "nat \<Rightarrow> (nat \<Rightarrow> 'o result) \<Rightarrow> 'o handler option \<Rightarrow> (nat \<Rightarrow> go_error option) \<Rightarrow> ('o result \<times> nat) option" where
  "ProcessItem fuel fn h cancelled =
     process_loop fuel fn (case h of None \<Rightarrow> DefaultHandler | Some h' \<Rightarrow> h') cancelled 0"

lemma process_loop_mono:
  "process_loop fuel fn h c k = Some r \<Longrightarrow> process_loop (fuel + n) fn h c k = Some r"
proof (induction fuel arbitrary: k)
  case (Suc fuel)
  then show ?case
    by (auto split: sum.splits error_action.splits option.splits dyn.splits)
qed simp

lemma process_loop_attempts:
  "process_loop fuel fn h c k = Some (r, j) \<Longrightarrow> k \<le> j \<and> j < k + fuel"
proof (induction fuel arbitrary: k)
  case (Suc fuel)
  then show ?case
    by (force split: sum.splits error_action.splits option.splits dyn.splits)
qed simp

text \<open>Every attempt before the last one failed and was retried.\<close>

lemma process_loop_failed_before:
  "process_loop fuel fn h c k = Some (r, j) \<Longrightarrow> k \<le> i \<Longrightarrow> i < j \<Longrightarrow>
   \<exists>e. fn i = Inl e \<and> handle h e i = ActionRetry \<and> c i = None"
proof (induction fuel arbitrary: k)
  case (Suc fuel)
  show ?case
  proof (cases "i = k")
    case True
    with Suc.prems show ?thesis
      by (auto split: sum.splits error_action.splits option.splits dyn.splits)
  next
    case False
    with Suc.prems have "Suc k \<le> i" by simp
    with Suc.prems show ?thesis
      by (auto intro: Suc.IH split: sum.splits error_action.splits option.splits dyn.splits)
  qed
qed simp

text \<open>A value comes from the function or is the handler's substitute.\<close>

lemma process_loop_value:
  "process_loop fuel fn h c k = Some (Inr v, j) \<Longrightarrow>
   fn j = Inr v \<or> (\<exists>e. fn j = Inl e \<and> handle h e j = ActionReturn \<and> return_value h = Some (DynOf v))"
proof (induction fuel arbitrary: k)
  case (Suc fuel)
  then show ?case
    by (auto split: sum.splits error_action.splits option.splits dyn.splits)
qed simp

lemma process_loop_first_success:
  assumes "fn k = Inr v" shows "process_loop (Suc fuel) fn h c k = Some (Inr v, k)"
  using assms by simp

lemma process_loop_retry_step:
  assumes "fn k = Inl e" and "handle h e k = ActionRetry" and "handler_backoff h = Some bo"
    and "c k = None"
  shows "process_loop (Suc fuel) fn h c k = process_loop fuel fn h c (Suc k)"
  using assms by simp

lemma process_loop_retries:
  assumes "\<And>i. k \<le> i \<Longrightarrow> i < k + n \<Longrightarrow>
      (\<exists>e. fn i = Inl e \<and> handle h e i = ActionRetry) \<and> c i = None"
    and "handler_backoff h = Some bo"
  shows "process_loop (n + fuel) fn h c k = process_loop fuel fn h c (k + n)"
  using assms
proof (induction n arbitrary: k)
  case (Suc n)
  from Suc.prems(1) [of k] obtain e where e: "fn k = Inl e" "handle h e k = ActionRetry" "c k = None"
    by auto
  have "process_loop (n + fuel) fn h c (Suc k) = process_loop fuel fn h c (Suc k + n)"
    using Suc.prems by (intro Suc.IH) auto
  with e Suc.prems(2) show ?case by simp
qed simp

section \<open>How many attempts\<close>

text \<open>
  The greatest attempt index a handler can reach: \<^verbatim>\<open>None\<close> is no bound. A retry handler
  whose fallback may itself retry has none, since the fallback is asked with attempt 0.
\<close>

fun never_retries :: "'v handler \<Rightarrow> bool" where
  "never_retries (RetryHandler limit _ fallback) = (limit \<le> 0 \<and> never_retries fallback)"
| "never_retries (RetryIfHandler _ _ _) = False"
| "never_retries _ = True"

fun attempts_bound :: "'v handler \<Rightarrow> nat option" where
  "attempts_bound (RetryHandler limit bo fallback) =
     (if bo = None then Some 1
      else if never_retries fallback then Some (Suc (nat limit)) else None)"
| "attempts_bound (RetryIfHandler _ bo _) = (if bo = None then Some 1 else None)"
| "attempts_bound _ = Some 1"

lemma never_retries_handle: "never_retries h \<Longrightarrow> handle h e n \<noteq> ActionRetry"
  by (induction h arbitrary: n) (auto simp: not_less)

lemma process_loop_halts:
  assumes "\<forall>e. handle h e k = ActionRetry \<longrightarrow> handler_backoff h = None"
  shows "process_loop (Suc fuel) fn h c k \<noteq> None"
  using assms by (auto split: sum.splits error_action.splits option.splits dyn.splits)

lemma process_loop_retry_handler_total:
  assumes "never_retries fb" and "n \<ge> Suc (nat limit - k)"
  shows "process_loop n fn (RetryHandler limit bo fb) c k \<noteq> None"
  using assms
proof (induction n arbitrary: k)
  case (Suc n)
  show ?case
  proof (cases "int k < limit")
    case True
    then have "n \<ge> Suc (nat limit - Suc k)" using Suc.prems by linarith
    then have "process_loop n fn (RetryHandler limit bo fb) c (Suc k) \<noteq> None"
      using Suc by blast
    with True show ?thesis
      by (auto split: sum.splits error_action.splits option.splits dyn.splits)
  next
    case False
    with Suc.prems(1) show ?thesis
      by (auto dest: never_retries_handle split: sum.splits error_action.splits option.splits dyn.splits)
  qed
qed simp

lemma attempts_bound_enough:
  assumes "attempts_bound h = Some n" and "n \<le> fuel"
  shows "process_loop fuel fn h c 0 \<noteq> None"
proof (cases h)
  case (RetryHandler limit bo fb)
  show ?thesis
  proof (cases "bo = None")
    case True
    with assms RetryHandler obtain f where "fuel = Suc f" by (cases fuel) auto
    with RetryHandler True process_loop_halts [of h 0 f] show ?thesis by auto
  next
    case False
    with assms RetryHandler have "never_retries fb" and "fuel \<ge> Suc (nat limit - 0)"
      by (auto split: if_splits)
    then have "process_loop fuel fn (RetryHandler limit bo fb) c 0 \<noteq> None"
      by (rule process_loop_retry_handler_total)
    with RetryHandler show ?thesis by simp
  qed
next
  case (RetryIfHandler p bo fb)
  with assms obtain f where "fuel = Suc f" by (cases fuel) (auto split: if_splits)
  with assms RetryIfHandler process_loop_halts [of h 0 f] show ?thesis by (auto split: if_splits)
qed (use assms in \<open>cases fuel; auto split: sum.splits option.splits dyn.splits\<close>)+

section \<open>ProcessFlatMapItem\<close>

text \<open>
  The flat-map variant: each attempt yields into a buffer that is flushed downstream only
  when the attempt succeeds. \<^verbatim>\<open>send k\<close> is the answer of the \<^verbatim>\<open>k\<close>-th send of the flush.
\<close>

fun flush_buf :: "(nat \<Rightarrow> go_error option) \<Rightarrow> nat \<Rightarrow> 'o list \<Rightarrow> 'o list \<times> go_error option" where
  "flush_buf send k [] = ([], None)"
| "flush_buf send k (v # buf) =
     (case send k of
        Some e \<Rightarrow> ([], Some e)
      | None \<Rightarrow> (case flush_buf send (Suc k) buf of (out, e) \<Rightarrow> (v # out, e)))"

fun flat_process_loop ::
  "nat \<Rightarrow> (nat \<Rightarrow> 'o list \<times> go_error option) \<Rightarrow> 'v handler \<Rightarrow> (nat \<Rightarrow> go_error option) \<Rightarrow>
   (nat \<Rightarrow> go_error option) \<Rightarrow> nat \<Rightarrow> ('o list \<times> go_error option \<times> nat) option" where
  "flat_process_loop 0 fn h send cancelled attempt = None"
| "flat_process_loop (Suc fuel) fn h send cancelled attempt =
     (case fn attempt of
        (buf, None) \<Rightarrow> (case flush_buf send 0 buf of (out, e) \<Rightarrow> Some (out, e, attempt))
      | (buf, Some err) \<Rightarrow>
          (case handle h err attempt of
             ActionSkip \<Rightarrow> Some ([], Some ErrSkipped, attempt)
           | ActionReturn \<Rightarrow> Some ([], Some ErrSkipped, attempt)
           | ActionRetry \<Rightarrow>
               (case handler_backoff h of
                  None \<Rightarrow> Some ([], Some err, attempt)
                | Some bo \<Rightarrow>
                    (case cancelled attempt of
                       Some e \<Rightarrow> Some ([], Some e, attempt)
                     | None \<Rightarrow> flat_process_loop fuel fn h send cancelled (Suc attempt)))
           | ActionHalt \<Rightarrow> Some ([], Some err, attempt)))"

definition ProcessFlatMapItem ::
  "nat \<Rightarrow> (nat \<Rightarrow> 'o list \<times> go_error option) \<Rightarrow> 'v handler option \<Rightarrow> (nat \<Rightarrow> go_error option) \<Rightarrow>
   (nat \<Rightarrow> go_error option) \<Rightarrow> ('o list \<times> go_error option \<times> nat) option" where
  "ProcessFlatMapItem fuel fn h send cancelled =
     flat_process_loop fuel fn (case h of None \<Rightarrow> DefaultHandler | Some h' \<Rightarrow> h') send cancelled 0"

lemma flush_buf_prefix: "prefix (fst (flush_buf send k buf)) buf"
  by (induction buf arbitrary: k) (auto split: option.splits prod.splits, metis fst_conv)

lemma flush_buf_all: "snd (flush_buf send k buf) = None \<Longrightarrow> fst (flush_buf send k buf) = buf"
  by (induction buf arbitrary: k) (auto split: option.splits prod.splits, metis fst_conv snd_conv)

lemma flat_process_loop_output:
  assumes "flat_process_loop fuel fn h send c k = Some (out, e, j)"
  shows "(snd (fn j) = None \<and> (out, e) = flush_buf send 0 (fst (fn j))) \<or>
         (snd (fn j) \<noteq> None \<and> out = [] \<and> e \<noteq> None)"
  using assms
proof (induction fuel arbitrary: k)
  case (Suc fuel)
  then show ?case
    by (auto split: prod.splits option.splits error_action.splits dest: sym [of "Some _"])
qed simp

section \<open>Properties of item processing\<close>

text \<open>
  C12: An item processed under \<^verbatim>\<open>RetryMax(n, b)\<close> without cancellation takes the first successful
  attempt among attempts 0 to \<^verbatim>\<open>n\<close>; when all of them fail the stage stops with the error of attempt
  \<^verbatim>\<open>n\<close>, after exactly \<^verbatim>\<open>n + 1\<close> calls of the function.
\<close>

theorem retry_max_attempts:
  assumes "nat n < fuel" and "\<And>i. i < k \<Longrightarrow> isl (fn i)" and "k \<le> nat n"
    and "k < nat n \<Longrightarrow> \<not> isl (fn k)"
  shows "ProcessItem fuel fn (Some (RetryMax n (Some b))) (\<lambda>_. None) = Some (fn k, k)"
proof -
  have fails: "\<exists>e. fn i = Inl e" if "i < k" for i using assms(2) [OF that] by (cases "fn i") auto
  obtain m where m: "fuel = k + Suc m" using assms(1,3) by (metis add_Suc_right le_less_trans less_imp_Suc_add)
  have "process_loop (k + Suc m) fn (RetryMax n (Some b)) (\<lambda>_. None) 0 =
        process_loop (Suc m) fn (RetryMax n (Some b)) (\<lambda>_. None) (0 + k)"
    by (rule process_loop_retries) (use fails assms(3) in \<open>force simp: RetryMax_def\<close>)+
  moreover have "process_loop (Suc m) fn (RetryMax n (Some b)) (\<lambda>_. None) k = Some (fn k, k)"
  proof (cases "fn k")
    case (Inl e)
    with assms(3,4) have "\<not> int k < n" by fastforce
    with Inl show ?thesis by (simp add: RetryMax_def)
  qed simp
  ultimately show ?thesis by (simp add: ProcessItem_def m del: process_loop.simps)
qed

theorem retry_max_attempts_witness:
  "ProcessItem 5 (\<lambda>i. if i < 2 then Inl (Plain ''down'') else Inr i) (Some (RetryMax 3 (Some (FixedBackoff 7))))
     (\<lambda>_. None) = Some (Inr (2::nat), 2)"
  using retry_max_attempts [of 3 5 2 "\<lambda>i. if i < 2 then Inl (Plain ''down'') else Inr i" "FixedBackoff 7"]
  by simp

text \<open>
  \<^verbatim>\<open>RetryThen(n, b, RetryMax(m, c))\<close> on an item that keeps failing never finishes when \<^verbatim>\<open>m\<close> is
  positive: the fallback is asked with attempt 0 each time, so it answers retry forever and the
  bound \<^verbatim>\<open>m\<close> is never reached.
\<close>

theorem retry_then_never_gives_up:
  assumes "0 < m" and "\<And>i. isl (fn i)"
  shows "ProcessItem fuel fn (Some (RetryThen n (Some b) (RetryMax m c))) (\<lambda>_. None) = None"
proof -
  have "\<exists>e. fn i = Inl e \<and> handle (RetryThen n (Some b) (RetryMax m c)) e i = ActionRetry" for i
    using assms(1) assms(2) [of i] by (cases "fn i") (simp_all add: RetryThen_def RetryMax_def)
  then have "process_loop (fuel + 0) fn (RetryThen n (Some b) (RetryMax m c)) (\<lambda>_. None) 0 =
      process_loop 0 fn (RetryThen n (Some b) (RetryMax m c)) (\<lambda>_. None) (0 + fuel)"
    by (intro process_loop_retries [where bo = b]) (blast, simp add: RetryThen_def)
  then show ?thesis by (simp add: ProcessItem_def)
qed

theorem retry_then_never_gives_up_witness:
  "ProcessItem 1000 (\<lambda>_. Inl ErrDrained :: nat result) (Some (RetryThen 2 (Some (FixedBackoff 1)) (RetryMax 3 None)))
     (\<lambda>_. None) = None"
  using retry_then_never_gives_up [of 3 "\<lambda>_. Inl ErrDrained :: nat result" 1000 2 "FixedBackoff 1" None] by simp

text \<open>
  C13: Every handler for which the number of attempts is bounded makes \<^verbatim>\<open>ProcessItem\<close> return; its
  value is the value of the last call or the handler's \<^verbatim>\<open>Return\<close> value, and every earlier call
  failed and was answered by a retry.
\<close>

theorem process_item_returns:
  assumes "attempts_bound h = Some n" and "n \<le> fuel"
  shows "\<exists>r j. ProcessItem fuel fn (Some h) cancelled = Some (r, j) \<and> j < fuel \<and>
           (\<forall>i < j. \<exists>e. fn i = Inl e \<and> handle h e i = ActionRetry) \<and>
           (\<forall>v. r = Inr v \<longrightarrow> fn j = Inr v \<or> return_value h = Some (DynOf v))"
proof -
  from attempts_bound_enough [OF assms] obtain r j where
    run: "process_loop fuel fn h cancelled 0 = Some (r, j)" by fastforce
  then show ?thesis
    using process_loop_attempts [OF run] process_loop_failed_before [OF run] process_loop_value
    by (fastforce simp: ProcessItem_def)
qed

theorem process_item_returns_witness:
  "\<exists>r j. ProcessItem 4 (\<lambda>_. Inl Canceled :: nat result) (Some (RetryThen 3 (Some (FixedBackoff 0)) (TypedReturn 9)))
     (\<lambda>_. None) = Some (r, j) \<and> j < 4"
  using process_item_returns [of "RetryThen 3 (Some (FixedBackoff 0)) (TypedReturn (9::nat))" 4 4 "\<lambda>_. Inl Canceled" "\<lambda>_. None"]
  by (auto simp: RetryThen_def TypedReturn_def)

end
