(* ===== verification/Supervision.thy ===== *)
theory Supervision
  imports Handlers
begin

text \<open>
  \<^verbatim>\<open>internal.Supervise\<close>: restart on failure and panic recovery around a stage body, with
  the policies of \<^verbatim>\<open>config.go\<close>.

  The stage body is an oracle: \<^verbatim>\<open>fn i\<close> is the outcome of its \<^verbatim>\<open>i\<close>-th invocation. The
  environment is an oracle too: \<^verbatim>\<open>env_err i\<close> is \<^verbatim>\<open>ctx.Err()\<close> read after invocation \<^verbatim>\<open>i\<close>,
  \<^verbatim>\<open>env_check i\<close> and \<^verbatim>\<open>env_mark i\<close> the clock at the window check and where the window is
  opened, and \<^verbatim>\<open>env_wait i\<close> is \<^verbatim>\<open>Some e\<close> when the backoff wait after invocation \<^verbatim>\<open>i\<close> was
  cut short. One unit of fuel is one invocation of the body.
\<close>

section \<open>Policies\<close>

datatype panic_action = PanicPropagate | PanicRestart | PanicSkip

record policy =
  MaxRestarts :: int
  Window :: duration
  Backoff :: "backoff option"
  OnPanic :: panic_action
  PanicOnly :: bool

definition HasSupervision :: "policy \<Rightarrow> bool" where
  "HasSupervision p \<longleftrightarrow> MaxRestarts p > 0 \<or> OnPanic p \<noteq> PanicPropagate"

definition no_supervision :: policy where
  "no_supervision = \<lparr>MaxRestarts = 0, Window = 0, Backoff = None, OnPanic = PanicPropagate,
     PanicOnly = False\<rparr>"

definition RestartOnError :: "int \<Rightarrow> backoff option \<Rightarrow> policy" where
  "RestartOnError n b = \<lparr>MaxRestarts = n, Window = 0, Backoff = b, OnPanic = PanicPropagate,
     PanicOnly = False\<rparr>"

definition RestartOnPanic :: "int \<Rightarrow> backoff option \<Rightarrow> policy" where
  "RestartOnPanic n b = \<lparr>MaxRestarts = n, Window = 0, Backoff = b, OnPanic = PanicRestart,
     PanicOnly = True\<rparr>"

definition RestartAlways :: "int \<Rightarrow> backoff option \<Rightarrow> policy" where
  "RestartAlways n b = \<lparr>MaxRestarts = n, Window = 0, Backoff = b, OnPanic = PanicRestart,
     PanicOnly = False\<rparr>"

section \<open>The loop\<close>

datatype body_outcome = BodyOk | BodyErr go_error | BodyPanic string

datatype sup_result = SupReturn "go_error option" | SupPanic string

record sup_env =
  env_err :: "nat \<Rightarrow> go_error option"
  env_check :: "nat \<Rightarrow> time"
  env_mark :: "nat \<Rightarrow> time"
  env_wait :: "nat \<Rightarrow> go_error option"

text \<open>
  \<^verbatim>\<open>runProtected\<close>: the error, whether it panicked, and the panic value. A panic with
  \<^verbatim>\<open>PanicPropagate\<close> is not recovered and leaves the function.
\<close>

datatype protected = Recovered "go_error option" bool string | Unrecovered string

fun runProtected :: "body_outcome \<Rightarrow> panic_action \<Rightarrow> protected" where
  "runProtected BodyOk _ = Recovered None False []"
| "runProtected (BodyErr e) _ = Recovered (Some e) False []"
| "runProtected (BodyPanic v) onPanic =
     (if onPanic = PanicPropagate then Unrecovered v else Recovered None True v)"

text \<open>
  The restart decision after the failed invocation \<^verbatim>\<open>i\<close>: the window check, the budget
  check and the new counter and window start, or the stop with the error.
\<close>

definition restart_window :: "policy \<Rightarrow> sup_env \<Rightarrow> nat \<Rightarrow> int \<Rightarrow> time option \<Rightarrow> int \<times> time option" where
  "restart_window p env i restarts windowStart =
     (if Window p > 0 \<and> windowStart \<noteq> None \<and> env_check env i - the windowStart > Window p
      then (0, None) else (restarts, windowStart))"

text \<open>
  \<^verbatim>\<open>sup_loop fuel p name env fn i restarts windowStart\<close>: the result and the restarts
  reported to the hook, each with its number and error.
\<close>

fun sup_loop ::
  "nat \<Rightarrow> policy \<Rightarrow> string \<Rightarrow> sup_env \<Rightarrow> (nat \<Rightarrow> body_outcome) \<Rightarrow> nat \<Rightarrow> int \<Rightarrow> time option \<Rightarrow>
   (sup_result \<times> (int \<times> go_error) list) option" where
  "sup_loop 0 p name env fn i restarts windowStart = None"
| "sup_loop (Suc fuel) p name env fn i restarts windowStart =
     (case runProtected (fn i) (OnPanic p) of
        Unrecovered v \<Rightarrow> Some (SupPanic v, [])
      | Recovered None False v \<Rightarrow> Some (SupReturn None, [])
      | Recovered err panicked v \<Rightarrow>
          if panicked \<and> OnPanic p = PanicPropagate then Some (SupPanic v, [])
          else if panicked \<and> OnPanic p = PanicSkip then Some (SupReturn None, [])
          else
            let err = (if panicked then PanicError name v else the err) in
            if \<not> panicked \<and> PanicOnly p then Some (SupReturn (Some err), [])
            else if env_err env i \<noteq> None then Some (SupReturn (env_err env i), [])
            else
              case restart_window p env i restarts windowStart of (restarts, windowStart) \<Rightarrow>
                if restarts \<ge> MaxRestarts p then Some (SupReturn (Some err), [])
                else
                  let restarts = restarts + 1;
                      windowStart = (if windowStart = None then Some (env_mark env i) else windowStart);
                      d = (case Backoff p of Some b \<Rightarrow> b (nat (restarts - 1)) | None \<Rightarrow> 0)
                  in if Backoff p \<noteq> None \<and> d > 0 \<and> env_wait env i \<noteq> None
                     then Some (SupReturn (env_wait env i), [(restarts, err)])
                     else map_option (\<lambda>(r, hs). (r, (restarts, err) # hs))
                            (sup_loop fuel p name env fn (Suc i) restarts windowStart))"

definition Supervise ::
  "nat \<Rightarrow> policy \<Rightarrow> string \<Rightarrow> sup_env \<Rightarrow> (nat \<Rightarrow> body_outcome) \<Rightarrow> (sup_result \<times> (int \<times> go_error) list) option" where
  "Supervise fuel p name env fn =
     (if \<not> HasSupervision p
      then (case fn 0 of
              BodyOk \<Rightarrow> Some (SupReturn None, [])
            | BodyErr e \<Rightarrow> Some (SupReturn (Some e), [])
            | BodyPanic v \<Rightarrow> Some (SupPanic v, []))
      else sup_loop fuel p name env fn 0 0 None)"

text \<open>The loop as a relation of one round: either it stops, or it goes on with a restart.\<close>

datatype sup_next = Stop sup_result | StopAfterRestart sup_result int go_error
  | Again int "time option" go_error

definition sup_round :: "policy \<Rightarrow> string \<Rightarrow> sup_env \<Rightarrow> body_outcome \<Rightarrow> nat \<Rightarrow> int \<Rightarrow> time option \<Rightarrow> sup_next" where
  "sup_round p name env b i restarts ws =
     (case b of
        BodyOk \<Rightarrow> Stop (SupReturn None)
      | BodyPanic v \<Rightarrow> if OnPanic p = PanicPropagate then Stop (SupPanic v)
          else if OnPanic p = PanicSkip then Stop (SupReturn None)
          else (case env_err env i of
            Some e \<Rightarrow> Stop (SupReturn (Some e))
          | None \<Rightarrow> (case restart_window p env i restarts ws of (r, w) \<Rightarrow>
              if r \<ge> MaxRestarts p then Stop (SupReturn (Some (PanicError name v)))
              else if (\<exists>f. Backoff p = Some f \<and> f (nat r) > 0) \<and> env_wait env i \<noteq> None
                then StopAfterRestart (SupReturn (env_wait env i)) (r + 1) (PanicError name v)
              else Again (r + 1) (if w = None then Some (env_mark env i) else w) (PanicError name v)))
      | BodyErr e \<Rightarrow> if PanicOnly p then Stop (SupReturn (Some e))
          else (case env_err env i of
            Some e' \<Rightarrow> Stop (SupReturn (Some e'))
          | None \<Rightarrow> (case restart_window p env i restarts ws of (r, w) \<Rightarrow>
              if r \<ge> MaxRestarts p then Stop (SupReturn (Some e))
              else if (\<exists>f. Backoff p = Some f \<and> f (nat r) > 0) \<and> env_wait env i \<noteq> None
                then StopAfterRestart (SupReturn (env_wait env i)) (r + 1) e
              else Again (r + 1) (if w = None then Some (env_mark env i) else w) e)))"

lemma sup_loop_round:
  "sup_loop (Suc fuel) p name env fn i r w =
     (case sup_round p name env (fn i) i r w of
        Stop res \<Rightarrow> Some (res, [])
      | StopAfterRestart res n e \<Rightarrow> Some (res, [(n, e)])
      | Again r' w' e \<Rightarrow>
          map_option (\<lambda>(res, hs). (res, (r', e) # hs)) (sup_loop fuel p name env fn (Suc i) r' w'))"
  by (cases "fn i"; cases "OnPanic p"; cases "env_err env i"; cases "Backoff p";
      cases "restart_window p env i r w"; cases "env_wait env i")
    (simp_all add: sup_round_def Let_def)

declare sup_loop.simps(2) [simp del]

section \<open>Budgets\<close>

lemma restart_window_bound:
  "restart_window p env i r w = (r', w') \<Longrightarrow> 0 \<le> r \<Longrightarrow> 0 \<le> r' \<and> r' \<le> r"
  by (auto simp: restart_window_def split: if_splits)

lemma restart_window_none: "Window p \<le> 0 \<Longrightarrow> restart_window p env i r w = (r, w)"
  by (simp add: restart_window_def)

lemma sup_round_Again:
  assumes "sup_round p name env b i r w = Again r' w' e"
  shows "r' \<le> MaxRestarts p \<and> b \<noteq> BodyOk \<and> (\<exists>r1 w1. restart_window p env i r w = (r1, w1) \<and> r' = r1 + 1)"
  using assms by (auto simp: sup_round_def split: body_outcome.splits if_splits option.splits prod.splits)

text \<open>
  With no window the counter only grows, so the body runs at most \<^verbatim>\<open>MaxRestarts + 1\<close>
  times: that much fuel is enough, and the hook sees at most \<^verbatim>\<open>MaxRestarts\<close> restarts.
\<close>

lemma sup_loop_total:
  assumes "Window p \<le> 0" and "0 \<le> r" and "nat (MaxRestarts p - r) < fuel"
  shows "\<exists>res hs. sup_loop fuel p name env fn i r w = Some (res, hs) \<and>
           int (length hs) \<le> max 0 (MaxRestarts p - r)"
  using assms
proof (induction fuel arbitrary: i r w)
  case (Suc fuel)
  show ?case
  proof (cases "sup_round p name env (fn i) i r w")
    case (Stop res)
    then show ?thesis by (simp add: sup_loop_round)
  next
    case (StopAfterRestart res n e)
    then have "r < MaxRestarts p"
      using Suc.prems(1)
      by (auto simp: sup_round_def restart_window_none split: body_outcome.splits if_splits option.splits)
    with StopAfterRestart show ?thesis by (simp add: sup_loop_round)
  next
    case (Again r' w' e)
    from sup_round_Again [OF this] Suc.prems(1) have r': "r' = r + 1" "r' \<le> MaxRestarts p"
      by (auto simp: restart_window_none)
    then have "nat (MaxRestarts p - r') < fuel" using Suc.prems by linarith
    then obtain res hs where "sup_loop fuel p name env fn (Suc i) r' w' = Some (res, hs)"
      and "int (length hs) \<le> max 0 (MaxRestarts p - r')"
      using Suc.IH [of r' "Suc i" w'] Suc.prems(1,2) r' by auto
    with Again r' show ?thesis by (auto simp: sup_loop_round)
  qed
qed simp

text \<open>An infallible body is run once, and its success is the result.\<close>

lemma Supervise_ok: "fn 0 = BodyOk \<Longrightarrow> Supervise (Suc fuel) p name env fn = Some (SupReturn None, [])"
  by (simp add: Supervise_def sup_loop_round sup_round_def)

lemma sup_loop_Again_chain:
  assumes "\<And>i. sup_round p name env (fn i) i (r i) (w i) = Again (r (Suc i)) (w (Suc i)) (e i)"
  shows "sup_loop fuel p name env fn i (r i) (w i) = None"
  using assms by (induction fuel arbitrary: i) (auto simp: sup_loop_round)

section \<open>Properties of supervision\<close>

text \<open>
  C20: Without a window a supervised stage is run at most \<^verbatim>\<open>MaxRestarts + 1\<close> times: the supervisor
  returns, and the restart hook was called at most \<^verbatim>\<open>MaxRestarts\<close> times.
\<close>

theorem supervise_bounded:
  assumes "Window p \<le> 0" and "nat (MaxRestarts p) < fuel"
  shows "\<exists>res hooks. Supervise fuel p name env fn = Some (res, hooks) \<and>
           int (length hooks) \<le> max 0 (MaxRestarts p)"
  using sup_loop_total [OF assms(1), of 0 fuel name env fn 0 None] assms(2)
  by (auto simp: Supervise_def split: body_outcome.splits)

theorem supervise_bounded_witness:
  "\<exists>res hooks. Supervise 3 (RestartOnError 2 None) ''s''
       \<lparr>env_err = \<lambda>_. None, env_check = \<lambda>_. 0, env_mark = \<lambda>_. 0, env_wait = \<lambda>_. None\<rparr>
       (\<lambda>_. BodyErr (Plain ''x'')) = Some (res, hooks) \<and> length hooks \<le> 2"
  using supervise_bounded [of "RestartOnError 2 None" 3 "''s''"
      "\<lparr>env_err = \<lambda>_. None, env_check = \<lambda>_. 0, env_mark = \<lambda>_. 0, env_wait = \<lambda>_. None\<rparr>"
      "\<lambda>_. BodyErr (Plain ''x'')"]
  by (auto simp: RestartOnError_def)

text \<open>
  The window is counted from the first restart, not from the last crash: a stage that crashes
  every \<^verbatim>\<open>d\<close>, and so is never free of crashes for longer than \<^verbatim>\<open>d\<close>, is restarted for ever under a
  limit of two restarts whenever \<^verbatim>\<open>d\<close> is at most the window and the window is less than \<^verbatim>\<open>2 d\<close>.
\<close>

theorem window_from_first_restart:
  assumes "MaxRestarts p = 2" "\<not> PanicOnly p" "Backoff p = None"
    and "d \<le> Window p" "Window p < 2 * d"
    and "\<And>i. env_err env i = None \<and> env_check env i = int i * d \<and> env_mark env i = int i * d"
    and "\<And>i. fn i = BodyErr (err i)"
  shows "Supervise fuel p name env fn = None"
proof -
  let ?r = "\<lambda>i::nat. if i = 0 then 0 else if odd i then 1 else 2 :: int"
  let ?w = "\<lambda>i::nat. if i = 0 then None else Some (int (2 * ((i - 1) div 2)) * d)"
  have "sup_round p name env (fn i) i (?r i) (?w i) = Again (?r (Suc i)) (?w (Suc i)) (err i)" for i
  proof (cases "i = 0")
    case True
    with assms show ?thesis by (simp add: sup_round_def restart_window_def)
  next
    case False
    then obtain j where "i = 2 * j + 1 \<or> i = 2 * j + 2"
      by (metis oddE evenE add_2_eq_Suc' add.commute mult_Suc_right nat.exhaust old.nat.exhaust not0_implies_Suc mult_0_right)
    then show ?thesis
    proof
      assume "i = 2 * j + 1"
      with assms show ?thesis by (auto simp: sup_round_def restart_window_def algebra_simps)
    next
      assume "i = 2 * j + 2"
      with assms show ?thesis by (auto simp: sup_round_def restart_window_def algebra_simps)
    qed
  qed
  from sup_loop_Again_chain [of p name env fn ?r ?w err fuel 0, OF this] assms(1) show ?thesis
    by (simp add: Supervise_def HasSupervision_def)
qed

theorem window_from_first_restart_witness:
  "Supervise 500 ((RestartOnError 2 None)\<lparr>Window := 10\<rparr>) ''s''
     \<lparr>env_err = \<lambda>_. None, env_check = \<lambda>i. int i * 6, env_mark = \<lambda>i. int i * 6, env_wait = \<lambda>_. None\<rparr>
     (\<lambda>_. BodyErr (Plain ''x'')) = None"
  using window_from_first_restart [of "(RestartOnError 2 None)\<lparr>Window := 10\<rparr>" 6
      "\<lparr>env_err = \<lambda>_. None, env_check = \<lambda>i. int i * 6, env_mark = \<lambda>i. int i * 6, env_wait = \<lambda>_. None\<rparr>"
      "\<lambda>_. BodyErr (Plain ''x'')" "\<lambda>_. Plain ''x''" 500 "''s''"]
  by (simp add: RestartOnError_def)

end
