(* ===== verification/Outbox.thy ===== *)
theory Outbox
  imports Prelude "HOL-Library.Multiset"
begin

text \<open>
  Sending with an overflow strategy (\<^verbatim>\<open>internal/outbox.go\<close>): the blocking, drop-newest
  and drop-oldest outboxes and the sharded drop-oldest variant.

  The channel is its capacity and its buffered items, oldest first. A channel operation
  of the code is one atomic step: \<^verbatim>\<open>chan_offer\<close> is a send under a \<^verbatim>\<open>select\<close> with a
  \<^verbatim>\<open>default\<close>, \<^verbatim>\<open>chan_take\<close> a receive. Capacity 0 with no receiver waiting behaves as a full
  buffer here.

  The first part is one sender alone, where a \<^verbatim>\<open>Send\<close> is a function. The second part is any
  number of senders and a reader, where the drop-oldest \<^verbatim>\<open>Send\<close> is the sequence of its
  atomic operations and the mutex is explicit: senders of one outbox share it
  (\<^verbatim>\<open>dropOldestOutbox\<close>), or each shard has its own (\<^verbatim>\<open>dropOldestShard\<close>), which is the
  function from senders to locks.
\<close>

section \<open>Channels\<close>

record 'a chan =
  chan_cap :: nat
  chan_buf :: "'a list"

definition chan_offer :: "'a \<Rightarrow> 'a chan \<Rightarrow> 'a chan option" where
  "chan_offer x c =
     (if length (chan_buf c) < chan_cap c then Some (c\<lparr>chan_buf := chan_buf c @ [x]\<rparr>) else None)"

definition chan_take :: "'a chan \<Rightarrow> ('a \<times> 'a chan) option" where
  "chan_take c =
     (case chan_buf c of [] \<Rightarrow> None | x # xs \<Rightarrow> Some (x, c\<lparr>chan_buf := xs\<rparr>))"

definition chan_ok :: "'a chan \<Rightarrow> bool" where
  "chan_ok c \<longleftrightarrow> length (chan_buf c) \<le> chan_cap c"

lemma chan_offer_ok: "chan_offer x c = Some c' \<Longrightarrow> chan_ok c' \<and> chan_cap c' = chan_cap c"
  by (auto simp: chan_offer_def chan_ok_def split: if_splits)

lemma chan_take_ok: "chan_take c = Some (x, c') \<Longrightarrow> chan_ok c \<Longrightarrow> chan_ok c' \<and> chan_cap c' = chan_cap c"
  by (auto simp: chan_take_def chan_ok_def split: list.splits)

section \<open>One sender\<close>

datatype overflow = OverflowBlock | OverflowDropNewest | OverflowDropOldest

text \<open>
  An outbox: its strategy, its channel, the counter \<^verbatim>\<open>dropped\<close> and the items reported to the
  overflow hook. \<^verbatim>\<open>hooked\<close> is the assertion of the hook to \<^verbatim>\<open>OverflowHook\<close>.
\<close>

record 'a outbox =
  ob_kind :: overflow
  ob_chan :: "'a chan"
  ob_dropped :: nat
  ob_hooked :: bool
  ob_drops :: "'a list"

definition NewOutbox :: "'a chan \<Rightarrow> overflow \<Rightarrow> bool \<Rightarrow> 'a outbox" where
  "NewOutbox ch kind hooked =
     \<lparr>ob_kind = kind, ob_chan = ch, ob_dropped = 0, ob_hooked = hooked, ob_drops = []\<rparr>"

definition NewBlockingOutbox :: "'a chan \<Rightarrow> 'a outbox" where
  "NewBlockingOutbox ch = NewOutbox ch OverflowBlock False"

definition ob_drop :: "'a \<Rightarrow> 'a outbox \<Rightarrow> 'a outbox" where
  "ob_drop x ob =
     ob\<lparr>ob_dropped := Suc (ob_dropped ob),
        ob_drops := (if ob_hooked ob then ob_drops ob @ [x] else ob_drops ob)\<rparr>"

text \<open>The result of a send: still blocked, or returned with an error or nil.\<close>

datatype send_result = Blocked | Returned "go_error option"

definition blocking_send :: "go_error option \<Rightarrow> 'a \<Rightarrow> 'a outbox \<Rightarrow> 'a outbox \<times> send_result" where
  "blocking_send ctx x ob =
     (case chan_offer x (ob_chan ob) of
        Some c \<Rightarrow> (ob\<lparr>ob_chan := c\<rparr>, Returned None)
      | None \<Rightarrow> (ob, case ctx of Some e \<Rightarrow> Returned (Some e) | None \<Rightarrow> Blocked))"

definition drop_newest_send :: "'a \<Rightarrow> 'a outbox \<Rightarrow> 'a outbox \<times> send_result" where
  "drop_newest_send x ob =
     (case chan_offer x (ob_chan ob) of
        Some c \<Rightarrow> (ob\<lparr>ob_chan := c\<rparr>, Returned None)
      | None \<Rightarrow> (ob_drop x ob, Returned None))"

text \<open>The four non-blocking operations of \<^verbatim>\<open>dropOldestOutbox.Send\<close>, one after the other.\<close>

definition drop_oldest_send :: "'a \<Rightarrow> 'a outbox \<Rightarrow> 'a outbox \<times> send_result" where
  "drop_oldest_send x ob =
     (case chan_offer x (ob_chan ob) of
        Some c \<Rightarrow> (ob\<lparr>ob_chan := c\<rparr>, Returned None)
      | None \<Rightarrow>
          (case chan_offer x (ob_chan ob) of
             Some c \<Rightarrow> (ob\<lparr>ob_chan := c\<rparr>, Returned None)
           | None \<Rightarrow>
               let ob = (case chan_take (ob_chan ob) of
                           Some (old, c) \<Rightarrow> ob_drop old (ob\<lparr>ob_chan := c\<rparr>)
                         | None \<Rightarrow> ob)
               in case chan_offer x (ob_chan ob) of
                    Some c \<Rightarrow> (ob\<lparr>ob_chan := c\<rparr>, Returned None)
                  | None \<Rightarrow> (ob_drop x ob, Returned None)))"

definition outbox_send :: "go_error option \<Rightarrow> 'a \<Rightarrow> 'a outbox \<Rightarrow> 'a outbox \<times> send_result" where
  "outbox_send ctx x ob =
     (case ob_kind ob of
        OverflowBlock \<Rightarrow> blocking_send ctx x ob
      | OverflowDropNewest \<Rightarrow> drop_newest_send x ob
      | OverflowDropOldest \<Rightarrow> drop_oldest_send x ob)"

text \<open>A sender offering a list of items while nobody reads.\<close>

fun send_all :: "'a list \<Rightarrow> 'a outbox \<Rightarrow> 'a outbox" where
  "send_all [] ob = ob"
| "send_all (x # xs) ob = send_all xs (fst (outbox_send None x ob))"

lemmas outbox_defs = outbox_send_def blocking_send_def drop_newest_send_def drop_oldest_send_def
  chan_offer_def chan_take_def ob_drop_def Let_def

lemma outbox_send_frame [simp]:
  "ob_kind (fst (outbox_send ctx x ob)) = ob_kind ob"
  "chan_cap (ob_chan (fst (outbox_send ctx x ob))) = chan_cap (ob_chan ob)"
  "ob_hooked (fst (outbox_send ctx x ob)) = ob_hooked ob"
  by (auto simp: outbox_defs split: overflow.splits option.splits list.splits)

lemma outbox_send_chan_ok: "chan_ok (ob_chan ob) \<Longrightarrow> chan_ok (ob_chan (fst (outbox_send ctx x ob)))"
  by (auto simp: outbox_defs chan_ok_def split: overflow.splits option.splits list.splits)

lemma drop_modes_return: "ob_kind ob \<noteq> OverflowBlock \<Longrightarrow> snd (outbox_send ctx x ob) = Returned None"
  by (auto simp: outbox_defs split: overflow.splits option.splits list.splits)

lemma drop_oldest_buf:
  assumes "ob_kind ob = OverflowDropOldest" and "chan_ok (ob_chan ob)" and "chan_cap (ob_chan ob) > 0"
  shows "chan_buf (ob_chan (fst (outbox_send ctx x ob))) =
           (let b = chan_buf (ob_chan ob) in
            if length b < chan_cap (ob_chan ob) then b @ [x] else tl b @ [x])"
  using assms by (auto simp: outbox_defs chan_ok_def split: list.splits)

lemma drop_newest_buf:
  assumes "ob_kind ob = OverflowDropNewest"
  shows "chan_buf (ob_chan (fst (outbox_send ctx x ob))) =
           (let b = chan_buf (ob_chan ob) in if length b < chan_cap (ob_chan ob) then b @ [x] else b)"
  using assms by (auto simp: outbox_defs split: list.splits)

lemma send_all_frame [simp]:
  "ob_kind (send_all xs ob) = ob_kind ob"
  "chan_cap (ob_chan (send_all xs ob)) = chan_cap (ob_chan ob)"
  by (induction xs arbitrary: ob) auto

lemma send_all_drop_oldest:
  assumes "ob_kind ob = OverflowDropOldest" and "chan_ok (ob_chan ob)" and "chan_cap (ob_chan ob) > 0"
  shows "chan_buf (ob_chan (send_all xs ob)) =
           (let all = chan_buf (ob_chan ob) @ xs in drop (length all - chan_cap (ob_chan ob)) all)"
  using assms
proof (induction xs arbitrary: ob)
  case Nil
  then show ?case by (simp add: chan_ok_def)
next
  case (Cons x xs)
  let ?b = "chan_buf (ob_chan ob)" and ?n = "chan_cap (ob_chan ob)"
  let ?ob = "fst (outbox_send None x ob)"
  have buf: "chan_buf (ob_chan ?ob) = (if length ?b < ?n then ?b @ [x] else tl ?b @ [x])"
    using drop_oldest_buf [OF Cons.prems, of None x] by (simp add: Let_def)
  have IH: "chan_buf (ob_chan (send_all xs ?ob)) =
      (let all = chan_buf (ob_chan ?ob) @ xs in drop (length all - ?n) all)"
    using Cons.IH [of ?ob] Cons.prems by (simp add: outbox_send_chan_ok)
  show ?case
  proof (cases "length ?b < ?n")
    case True
    with IH buf show ?thesis by (simp add: Let_def)
  next
    case False
    with Cons.prems have len: "length ?b = ?n" "?b \<noteq> []" by (auto simp: chan_ok_def)
    then obtain y ys where ys: "?b = y # ys" by (cases ?b) auto
    moreover have "?n = Suc (length ys)" using len ys by simp
    ultimately show ?thesis using IH buf by (simp add: Let_def)
  qed
qed

lemma send_all_drop_newest:
  assumes "ob_kind ob = OverflowDropNewest" and "chan_ok (ob_chan ob)"
  shows "chan_buf (ob_chan (send_all xs ob)) = take (chan_cap (ob_chan ob)) (chan_buf (ob_chan ob) @ xs)"
  using assms
proof (induction xs arbitrary: ob)
  case Nil
  then show ?case by (simp add: chan_ok_def)
next
  case (Cons x xs)
  let ?ob = "fst (outbox_send None x ob)"
  have "chan_buf (ob_chan (send_all xs ?ob)) = take (chan_cap (ob_chan ob)) (chan_buf (ob_chan ?ob) @ xs)"
    using Cons.IH [of ?ob] Cons.prems by (simp add: outbox_send_chan_ok)
  with drop_newest_buf [OF Cons.prems(1), of None x] Cons.prems show ?case
    by (auto simp: Let_def chan_ok_def take_Cons')
qed

lemma send_all_dropped:
  assumes "ob_kind ob \<noteq> OverflowBlock"
  shows "ob_dropped (send_all xs ob) + length (chan_buf (ob_chan (send_all xs ob))) =
           ob_dropped ob + length (chan_buf (ob_chan ob)) + length xs"
  using assms
proof (induction xs arbitrary: ob)
  case (Cons x xs)
  have "ob_dropped (fst (outbox_send None x ob)) + length (chan_buf (ob_chan (fst (outbox_send None x ob)))) =
      Suc (ob_dropped ob + length (chan_buf (ob_chan ob)))"
    using Cons.prems by (auto simp: outbox_defs split: overflow.splits option.splits list.splits)
  with Cons show ?case by simp
qed simp

section \<open>Concurrent drop-oldest senders\<close>

text \<open>
  Where a sender is in \<^verbatim>\<open>Send\<close>: at the lock-free fast path, waiting for its mutex, or at one
  of the operations under the mutex; \<^verbatim>\<open>Idle\<close> between sends. The counter and the call of the hook are
  operations of their own: \<^verbatim>\<open>CountOld old x\<close> has taken \<^verbatim>\<open>old\<close> out of the channel and is about to add to
  the counter, \<^verbatim>\<open>ReportOld\<close> has counted it and is about to call \<^verbatim>\<open>OnDrop\<close>; \<^verbatim>\<open>CountNew\<close> and \<^verbatim>\<open>ReportNew\<close>
  are the same for the item that was to be sent.
\<close>

datatype 'a pc =
    Idle | Fast 'a | Lock 'a | Recheck 'a | Evict 'a | CountOld 'a 'a | ReportOld 'a 'a | Resend 'a
  | CountNew 'a | ReportNew 'a

text \<open>
  The shared state: the channel, which sender holds each mutex, the senders, the counter
  \<^verbatim>\<open>dropped\<close>, whether the hook is an \<^verbatim>\<open>OverflowHook\<close> and the items \<^verbatim>\<open>OnDrop\<close> was called with. The rest
  records what happened: the items whose \<^verbatim>\<open>Send\<close> was called, those read, those that entered the
  channel and those that left it.
\<close>

record 'a outsys =
  os_chan :: "'a chan"
  os_holder :: "nat \<Rightarrow> nat option"
  os_pc :: "nat \<Rightarrow> 'a pc"
  os_dropped :: nat
  os_hooked :: bool
  os_drops :: "'a list"
  os_begun :: "'a list"
  os_read :: "'a list"
  os_entered :: "'a list"
  os_left :: "'a list"

definition out_init :: "nat \<Rightarrow> bool \<Rightarrow> 'a outsys" where
  "out_init cap hooked =
     \<lparr>os_chan = \<lparr>chan_cap = cap, chan_buf = []\<rparr>, os_holder = (\<lambda>_. None), os_pc = (\<lambda>_. Idle),
      os_dropped = 0, os_hooked = hooked, os_drops = [], os_begun = [], os_read = [], os_entered = [], os_left = []\<rparr>"

definition os_goto :: "nat \<Rightarrow> 'a pc \<Rightarrow> 'a outsys \<Rightarrow> 'a outsys" where
  "os_goto i p s = s\<lparr>os_pc := (os_pc s)(i := p)\<rparr>"

definition os_put :: "'a \<Rightarrow> 'a chan \<Rightarrow> 'a outsys \<Rightarrow> 'a outsys" where
  "os_put x c s = s\<lparr>os_chan := c, os_entered := os_entered s @ [x]\<rparr>"

definition os_count :: "'a outsys \<Rightarrow> 'a outsys" where
  "os_count s = s\<lparr>os_dropped := Suc (os_dropped s)\<rparr>"

definition os_report :: "'a \<Rightarrow> 'a outsys \<Rightarrow> 'a outsys" where
  "os_report x s = (if os_hooked s then s\<lparr>os_drops := os_drops s @ [x]\<rparr> else s)"

definition os_unlock :: "(nat \<Rightarrow> nat) \<Rightarrow> nat \<Rightarrow> 'a outsys \<Rightarrow> 'a outsys" where
  "os_unlock lk i s = s\<lparr>os_holder := (os_holder s)(lk i := None)\<rparr>"

lemmas os_defs = os_goto_def os_put_def os_count_def os_report_def os_unlock_def

text \<open>One step: a sender runs one operation of \<^verbatim>\<open>Send\<close>, or the reader receives.\<close>

inductive out_step :: "(nat \<Rightarrow> nat) \<Rightarrow> 'a outsys \<Rightarrow> 'a outsys \<Rightarrow> bool" for lk where
  begin_send: "os_pc s i = Idle \<Longrightarrow> out_step lk s (os_goto i (Fast x) (s\<lparr>os_begun := os_begun s @ [x]\<rparr>))"
| fast_ok: "os_pc s i = Fast x \<Longrightarrow> chan_offer x (os_chan s) = Some c \<Longrightarrow>
     out_step lk s (os_goto i Idle (os_put x c s))"
| fast_full: "os_pc s i = Fast x \<Longrightarrow> chan_offer x (os_chan s) = None \<Longrightarrow>
     out_step lk s (os_goto i (Lock x) s)"
| lock: "os_pc s i = Lock x \<Longrightarrow> os_holder s (lk i) = None \<Longrightarrow>
     out_step lk s (os_goto i (Recheck x) (s\<lparr>os_holder := (os_holder s)(lk i := Some i)\<rparr>))"
| recheck_ok: "os_pc s i = Recheck x \<Longrightarrow> chan_offer x (os_chan s) = Some c \<Longrightarrow>
     out_step lk s (os_goto i Idle (os_unlock lk i (os_put x c s)))"
| recheck_full: "os_pc s i = Recheck x \<Longrightarrow> chan_offer x (os_chan s) = None \<Longrightarrow>
     out_step lk s (os_goto i (Evict x) s)"
| evict: "os_pc s i = Evict x \<Longrightarrow> chan_take (os_chan s) = Some (old, c) \<Longrightarrow>
     out_step lk s (os_goto i (CountOld old x) (s\<lparr>os_chan := c, os_left := os_left s @ [old]\<rparr>))"
| evict_none: "os_pc s i = Evict x \<Longrightarrow> chan_take (os_chan s) = None \<Longrightarrow>
     out_step lk s (os_goto i (Resend x) s)"
| count_old: "os_pc s i = CountOld old x \<Longrightarrow> out_step lk s (os_goto i (ReportOld old x) (os_count s))"
| report_old: "os_pc s i = ReportOld old x \<Longrightarrow> out_step lk s (os_goto i (Resend x) (os_report old s))"
| resend_ok: "os_pc s i = Resend x \<Longrightarrow> chan_offer x (os_chan s) = Some c \<Longrightarrow>
     out_step lk s (os_goto i Idle (os_unlock lk i (os_put x c s)))"
| resend_full: "os_pc s i = Resend x \<Longrightarrow> chan_offer x (os_chan s) = None \<Longrightarrow>
     out_step lk s (os_goto i (CountNew x) s)"
| count_new: "os_pc s i = CountNew x \<Longrightarrow> out_step lk s (os_goto i (ReportNew x) (os_count s))"
| report_new: "os_pc s i = ReportNew x \<Longrightarrow> out_step lk s (os_goto i Idle (os_unlock lk i (os_report x s)))"
| read: "chan_take (os_chan s) = Some (x, c) \<Longrightarrow>
     out_step lk s (s\<lparr>os_chan := c, os_read := os_read s @ [x], os_left := os_left s @ [x]\<rparr>)"

inductive out_reach :: "(nat \<Rightarrow> nat) \<Rightarrow> nat \<Rightarrow> bool \<Rightarrow> 'a outsys \<Rightarrow> bool" for lk cap hooked where
  out_start: "out_reach lk cap hooked (out_init cap hooked)"
| out_next: "out_reach lk cap hooked s \<Longrightarrow> out_step lk s t \<Longrightarrow> out_reach lk cap hooked t"

text \<open>A sender inside the region its mutex protects.\<close>

fun in_critical :: "'a pc \<Rightarrow> bool" where
  "in_critical Idle = False"
| "in_critical (Fast _) = False"
| "in_critical (Lock _) = False"
| "in_critical _ = True"

text \<open>
  The items a sender has in hand: those that are neither in the channel nor counted as dropped, and
  those that are neither in the channel nor reported.
\<close>

fun uncounted :: "'a pc \<Rightarrow> 'a multiset" where
  "uncounted Idle = {#}"
| "uncounted (Fast x) = {#x#}"
| "uncounted (Lock x) = {#x#}"
| "uncounted (Recheck x) = {#x#}"
| "uncounted (Evict x) = {#x#}"
| "uncounted (CountOld old x) = {#old, x#}"
| "uncounted (ReportOld old x) = {#x#}"
| "uncounted (Resend x) = {#x#}"
| "uncounted (CountNew x) = {#x#}"
| "uncounted (ReportNew x) = {#}"

fun unreported :: "'a pc \<Rightarrow> 'a multiset" where
  "unreported (ReportOld old x) = {#old, x#}"
| "unreported (ReportNew x) = {#x#}"
| "unreported p = uncounted p"

definition out_busy :: "'a outsys \<Rightarrow> nat set" where
  "out_busy s = {i. os_pc s i \<noteq> Idle}"

definition in_hand :: "('a pc \<Rightarrow> 'a multiset) \<Rightarrow> 'a outsys \<Rightarrow> 'a multiset" where
  "in_hand f s = (\<Sum>i\<in>out_busy s. f (os_pc s i))"

definition out_inv :: "(nat \<Rightarrow> nat) \<Rightarrow> nat \<Rightarrow> bool \<Rightarrow> 'a outsys \<Rightarrow> bool" where
  "out_inv lk cap hooked s \<longleftrightarrow>
     chan_cap (os_chan s) = cap \<and> chan_ok (os_chan s)
     \<and> os_entered s = os_left s @ chan_buf (os_chan s)
     \<and> subseq (os_read s) (os_left s)
     \<and> (\<forall>i. in_critical (os_pc s i) \<longrightarrow> os_holder s (lk i) = Some i)"

text \<open>Every item handed to \<^verbatim>\<open>Send\<close> is accounted for, by the counter and by the hook.\<close>

definition out_counts :: "bool \<Rightarrow> 'a outsys \<Rightarrow> bool" where
  "out_counts hooked s \<longleftrightarrow>
     finite (out_busy s) \<and> os_hooked s = hooked
     \<and> length (os_begun s) =
         length (os_read s) + length (chan_buf (os_chan s)) + os_dropped s + size (in_hand uncounted s)
     \<and> (if hooked then mset (os_begun s) =
          mset (os_read s) + mset (chan_buf (os_chan s)) + mset (os_drops s) + in_hand unreported s
        else os_drops s = [])"

lemma out_inv_init: "out_inv lk cap hooked (out_init cap hooked)" "out_counts hooked (out_init cap hooked)"
  by (simp_all add: out_inv_def out_counts_def out_init_def chan_ok_def in_hand_def out_busy_def)

lemma subseq_snoc: "subseq xs ys \<Longrightarrow> subseq (xs @ [x]) (ys @ [x])"
  by (simp add: list_emb_append_mono)

lemma subseq_weaken: "subseq xs ys \<Longrightarrow> subseq xs (ys @ [x])"
  by (rule subseq_order.order_trans [OF _ prefix_imp_subseq [OF prefix_append_self]])

lemma chan_offer_buf: "chan_offer x c = Some c' \<Longrightarrow> chan_buf c' = chan_buf c @ [x]"
  by (auto simp: chan_offer_def split: if_splits)

lemma chan_take_buf: "chan_take c = Some (x, c') \<Longrightarrow> chan_buf c = x # chan_buf c'"
  by (auto simp: chan_take_def split: list.splits)

lemma os_report_sel [simp]:
  "os_chan (os_report x s) = os_chan s" "os_pc (os_report x s) = os_pc s" "os_holder (os_report x s) = os_holder s"
  "os_dropped (os_report x s) = os_dropped s" "os_begun (os_report x s) = os_begun s"
  "os_read (os_report x s) = os_read s" "os_entered (os_report x s) = os_entered s"
  "os_left (os_report x s) = os_left s" "os_hooked (os_report x s) = os_hooked s"
  "os_drops (os_report x s) = (if os_hooked s then os_drops s @ [x] else os_drops s)"
  by (simp_all add: os_report_def)

lemma out_step_inv: "out_step lk s t \<Longrightarrow> out_inv lk cap hooked s \<Longrightarrow> out_inv lk cap hooked t"
proof (induction rule: out_step.induct)
  case (fast_ok s i x c)
  from chan_offer_ok [OF fast_ok(2)] chan_offer_buf [OF fast_ok(2)] fast_ok(1,3)
  show ?case by (auto simp: out_inv_def os_goto_def os_put_def)
next
  case (recheck_ok s i x c)
  from chan_offer_ok [OF recheck_ok(2)] chan_offer_buf [OF recheck_ok(2)] recheck_ok(1,3)
  show ?case by (auto simp: out_inv_def os_goto_def os_put_def os_unlock_def) (metis in_critical.simps(4) option.inject)
next
  case (resend_ok s i x c)
  from chan_offer_ok [OF resend_ok(2)] chan_offer_buf [OF resend_ok(2)] resend_ok(1,3)
  show ?case by (auto simp: out_inv_def os_goto_def os_put_def os_unlock_def) (metis in_critical.simps(8) option.inject)
next
  case (report_new s i x)
  then show ?case by (auto simp: out_inv_def os_goto_def os_unlock_def) (metis in_critical.simps(10) option.inject)
next
  case (evict s i x old c)
  from chan_take_ok [OF evict(2)] chan_take_buf [OF evict(2)] evict(1,3)
  show ?case by (auto simp: out_inv_def os_goto_def subseq_weaken)
next
  case (count_old s i old x)
  then show ?case by (auto simp: out_inv_def os_goto_def os_count_def)
next
  case (report_old s i old x)
  then show ?case by (auto simp: out_inv_def os_goto_def)
next
  case (read s x c)
  from chan_take_ok [OF read(1)] chan_take_buf [OF read(1)] read(2)
  show ?case by (auto simp: out_inv_def subseq_snoc)
qed (auto simp: out_inv_def os_goto_def os_count_def)

text \<open>What a step of sender \<^verbatim>\<open>i\<close> does to the items in hand.\<close>

lemma out_busy_goto: "finite (out_busy s) \<Longrightarrow> os_pc s' = os_pc s \<Longrightarrow> finite (out_busy (os_goto i p s'))"
  by (rule finite_subset [of _ "insert i (out_busy s)"]) (auto simp: out_busy_def os_goto_def)

lemma in_hand_goto:
  assumes "finite (out_busy s)" and "f Idle = {#}" and "os_pc s' = os_pc s"
  shows "in_hand f (os_goto i p s') + f (os_pc s i) = in_hand f s + f p"
proof -
  let ?B = "insert i (out_busy s)"
  have hand: "in_hand f t = (\<Sum>j\<in>?B. f (os_pc t j))" if "out_busy t \<subseteq> ?B" for t
    unfolding in_hand_def by (rule sum.mono_neutral_left) (use assms(1,2) that in \<open>auto simp: out_busy_def\<close>)
  have split: "(\<Sum>j\<in>?B. f (os_pc t j)) = f (os_pc t i) + (\<Sum>j\<in>?B - {i}. f (os_pc t j))" for t :: "'a outsys"
    using assms(1) by (intro sum.remove) simp_all
  have "in_hand f (os_goto i p s') = (\<Sum>j\<in>?B. f (os_pc (os_goto i p s') j))"
    by (rule hand) (use assms(3) in \<open>auto simp: out_busy_def os_goto_def\<close>)
  also have "\<dots> = f p + (\<Sum>j\<in>?B - {i}. f (os_pc s j))"
    unfolding split by (rule arg_cong2 [where f = "(+)"], simp add: os_goto_def, rule sum.cong)
      (simp_all add: os_goto_def assms(3))
  moreover have "in_hand f s = f (os_pc s i) + (\<Sum>j\<in>?B - {i}. f (os_pc s j))"
    by (subst hand) (auto simp: split)
  ultimately show ?thesis by simp
qed

lemma size_in_hand_goto:
  assumes "finite (out_busy s)" and "f Idle = {#}" and "os_pc s' = os_pc s"
  shows "size (in_hand f (os_goto i p s')) + size (f (os_pc s i)) = size (in_hand f s) + size (f p)"
  using in_hand_goto [where f = f and i = i and p = p, OF assms] by (metis size_union)

lemma os_goto_sel [simp]:
  "os_chan (os_goto i p s) = os_chan s" "os_dropped (os_goto i p s) = os_dropped s"
  "os_begun (os_goto i p s) = os_begun s" "os_read (os_goto i p s) = os_read s"
  "os_drops (os_goto i p s) = os_drops s" "os_hooked (os_goto i p s) = os_hooked s"
  by (simp_all add: os_goto_def)

lemma os_move_sel [simp]:
  "os_pc (os_put x c s) = os_pc s" "os_chan (os_put x c s) = c" "os_dropped (os_put x c s) = os_dropped s"
  "os_begun (os_put x c s) = os_begun s" "os_read (os_put x c s) = os_read s"
  "os_drops (os_put x c s) = os_drops s" "os_hooked (os_put x c s) = os_hooked s"
  "os_pc (os_unlock lk i s) = os_pc s" "os_chan (os_unlock lk i s) = os_chan s"
  "os_dropped (os_unlock lk i s) = os_dropped s" "os_begun (os_unlock lk i s) = os_begun s"
  "os_read (os_unlock lk i s) = os_read s" "os_drops (os_unlock lk i s) = os_drops s"
  "os_hooked (os_unlock lk i s) = os_hooked s"
  "os_pc (os_count s) = os_pc s" "os_chan (os_count s) = os_chan s" "os_dropped (os_count s) = Suc (os_dropped s)"
  "os_begun (os_count s) = os_begun s" "os_read (os_count s) = os_read s" "os_drops (os_count s) = os_drops s"
  "os_hooked (os_count s) = os_hooked s"
  by (simp_all add: os_put_def os_unlock_def os_count_def)

lemma out_counts_goto:
  assumes "out_counts hooked s" and "os_pc s' = os_pc s" and "os_hooked s' = os_hooked s"
    and "length (os_begun s') + length (os_read s) + length (chan_buf (os_chan s)) + os_dropped s + size (uncounted (os_pc s i)) =
         length (os_begun s) + length (os_read s') + length (chan_buf (os_chan s')) + os_dropped s' + size (uncounted p)"
    and "hooked \<Longrightarrow>
         mset (os_begun s') + mset (os_read s) + mset (chan_buf (os_chan s)) + mset (os_drops s) + unreported (os_pc s i) =
         mset (os_begun s) + mset (os_read s') + mset (chan_buf (os_chan s')) + mset (os_drops s') + unreported p"
    and "\<not> hooked \<Longrightarrow> os_drops s' = os_drops s"
  shows "out_counts hooked (os_goto i p s')"
proof -
  have fin: "finite (out_busy s)" using assms(1) by (simp add: out_counts_def)
  have "mset (os_begun s') =
      mset (os_read s') + mset (chan_buf (os_chan s')) + mset (os_drops s') + in_hand unreported (os_goto i p s')"
    if hooked
  proof -
    have "mset (os_begun s') + mset (os_begun s) + unreported (os_pc s i) =
        mset (os_begun s) + mset (os_read s') + mset (chan_buf (os_chan s')) + mset (os_drops s') +
        (in_hand unreported s + unreported p)"
      using assms(5) [OF that] assms(1) that by (simp add: out_counts_def ac_simps)
    also have "\<dots> = mset (os_begun s) + mset (os_read s') + mset (chan_buf (os_chan s')) + mset (os_drops s') +
        (in_hand unreported (os_goto i p s') + unreported (os_pc s i))"
      using in_hand_goto [where f = unreported and i = i and p = p, OF fin _ assms(2)] by simp
    finally show ?thesis by (simp add: ac_simps)
  qed
  with size_in_hand_goto [where f = uncounted and i = i and p = p, OF fin _ assms(2)] assms out_busy_goto [OF fin assms(2)]
  show ?thesis by (auto simp: out_counts_def)
qed

lemma out_step_counts: "out_step lk s t \<Longrightarrow> out_counts hooked s \<Longrightarrow> out_counts hooked t"
proof (induction rule: out_step.induct)
  case (fast_ok s i x c)
  with chan_offer_buf [OF fast_ok(2)] show ?case by (intro out_counts_goto) auto
next
  case (recheck_ok s i x c)
  with chan_offer_buf [OF recheck_ok(2)] show ?case by (intro out_counts_goto) auto
next
  case (resend_ok s i x c)
  with chan_offer_buf [OF resend_ok(2)] show ?case by (intro out_counts_goto) auto
next
  case (evict s i x old c)
  with chan_take_buf [OF evict(2)] show ?case by (intro out_counts_goto) auto
next
  case (report_old s i old x)
  then have "os_hooked s = hooked" by (simp add: out_counts_def)
  with report_old show ?case by (intro out_counts_goto) auto
next
  case (report_new s i x)
  then have "os_hooked s = hooked" by (simp add: out_counts_def)
  with report_new show ?case by (intro out_counts_goto) auto
next
  case (read s x c)
  from chan_take_buf [OF read(1)] read(2) show ?case by (auto simp: out_counts_def in_hand_def out_busy_def)
qed (auto intro!: out_counts_goto)

lemma out_reach_inv: "out_reach lk cap hooked s \<Longrightarrow> out_inv lk cap hooked s \<and> out_counts hooked s"
  by (induction rule: out_reach.induct) (auto intro: out_inv_init out_step_inv out_step_counts)

section \<open>Properties of the outboxes\<close>

text \<open>
  C16: Senders of drop-oldest outboxes over one channel, each outbox with its mutex, in any interleaving
  with a reader. The channel never exceeds its capacity; what was read followed by what is buffered is a
  subsequence of what entered the channel, in order; at most one sender of each outbox is between lock
  and unlock; the items handed to \<^verbatim>\<open>Send\<close> so far are as many as those read, those buffered, the
  counter \<^verbatim>\<open>dropped\<close> and those that senders still have in hand. So when no \<^verbatim>\<open>Send\<close> is running the counter is
  the number of items lost, and an overflow hook has been called with exactly the lost items.
\<close>

theorem drop_oldest_concurrent:
  assumes "out_reach lk cap hooked s"
  shows "length (chan_buf (os_chan s)) \<le> cap \<and>
         subseq (os_read s @ chan_buf (os_chan s)) (os_entered s) \<and>
         (in_critical (os_pc s i) \<and> in_critical (os_pc s j) \<and> lk i = lk j \<longrightarrow> i = j) \<and>
         length (os_begun s) =
           length (os_read s) + length (chan_buf (os_chan s)) + os_dropped s + size (in_hand uncounted s) \<and>
         ((\<forall>i. os_pc s i = Idle) \<longrightarrow>
            length (os_begun s) = length (os_read s) + length (chan_buf (os_chan s)) + os_dropped s \<and>
            (hooked \<longrightarrow> mset (os_begun s) = mset (os_read s) + mset (chan_buf (os_chan s)) + mset (os_drops s)))"
proof -
  have "in_hand f s = {#}" if "\<forall>i. os_pc s i = Idle" for f :: "'a pc \<Rightarrow> 'a multiset"
    using that by (simp add: in_hand_def out_busy_def)
  moreover have "subseq (os_read s @ chan_buf (os_chan s)) (os_entered s)"
    using out_reach_inv [OF assms] by (auto simp: out_inv_def intro: list_emb_append_mono)
  moreover have "i = j" if "in_critical (os_pc s i)" "in_critical (os_pc s j)" "lk i = lk j"
    using out_reach_inv [OF assms] that by (auto simp: out_inv_def) (metis option.inject)
  ultimately show ?thesis
    using out_reach_inv [OF assms] by (auto simp: out_inv_def out_counts_def chan_ok_def)
qed

lemma out_reach_evicting:
  "\<exists>s :: nat outsys. out_reach (\<lambda>_. 0) 1 True s \<and> os_pc s 5 = CountOld 3 4"
proof -
  let ?c = "\<lparr>chan_cap = 1, chan_buf = [3 :: nat]\<rparr>"
  let ?mk = "\<lambda>c h p b r e l. \<lparr>os_chan = c, os_holder = h, os_pc = (\<lambda>_. Idle)(5 := p), os_dropped = 0, os_hooked = True,
      os_drops = [], os_begun = b, os_read = [], os_entered = e, os_left = l\<rparr>"
  let ?s0 = "?mk (?c\<lparr>chan_buf := []\<rparr>) (\<lambda>_. None) Idle [] [] [] []"
  let ?s1 = "?mk (?c\<lparr>chan_buf := []\<rparr>) (\<lambda>_. None) (Fast 3) [3] [] [] []"
  let ?s2 = "?mk ?c (\<lambda>_. None) Idle [3] [] [3] []"
  let ?s3 = "?mk ?c (\<lambda>_. None) (Fast 4) [3, 4] [] [3] []"
  let ?s4 = "?mk ?c (\<lambda>_. None) (Lock 4) [3, 4] [] [3] []"
  let ?s5 = "?mk ?c ((\<lambda>_. None)(0 := Some 5)) (Recheck 4) [3, 4] [] [3] []"
  let ?s6 = "?mk ?c ((\<lambda>_. None)(0 := Some 5)) (Evict 4) [3, 4] [] [3] []"
  let ?s7 = "?mk (?c\<lparr>chan_buf := []\<rparr>) ((\<lambda>_. None)(0 := Some 5)) (CountOld 3 4) [3, 4] [] [3] [3]"
  note [simp] = os_goto_def os_put_def chan_offer_def chan_take_def
  have init: "out_init 1 True = ?s0" by (simp add: out_init_def fun_eq_iff)
  have "out_reach (\<lambda>_. 0) 1 True ?s0" unfolding init [symmetric] by (rule out_start)
  then have "out_reach (\<lambda>_. 0) 1 True ?s1"
    by (rule out_next) (use begin_send [of ?s0 5 "\<lambda>_. 0" 3] in simp)
  then have "out_reach (\<lambda>_. 0) 1 True ?s2"
    by (rule out_next) (use fast_ok [of ?s1 5 3 ?c "\<lambda>_. 0"] in simp)
  then have "out_reach (\<lambda>_. 0) 1 True ?s3"
    by (rule out_next) (use begin_send [of ?s2 5 "\<lambda>_. 0" 4] in simp)
  then have "out_reach (\<lambda>_. 0) 1 True ?s4"
    by (rule out_next) (use fast_full [of ?s3 5 4 "\<lambda>_. 0"] in simp)
  then have "out_reach (\<lambda>_. 0) 1 True ?s5"
    by (rule out_next) (use lock [of ?s4 5 4 "\<lambda>_. 0"] in simp)
  then have "out_reach (\<lambda>_. 0) 1 True ?s6"
    by (rule out_next) (use recheck_full [of ?s5 5 4 "\<lambda>_. 0"] in simp)
  then have "out_reach (\<lambda>_. 0) 1 True ?s7"
    by (rule out_next) (use evict [of ?s6 5 4 3 "?c\<lparr>chan_buf := []\<rparr>" "\<lambda>_. 0"] in simp)
  then show ?thesis by (intro exI [of _ ?s7]) simp
qed

theorem drop_oldest_concurrent_witness:
  "\<exists>s :: nat outsys. out_reach (\<lambda>_. 0) 1 True s \<and> os_pc s 5 = CountOld 3 4 \<and>
     length (os_begun s) =
       length (os_read s) + length (chan_buf (os_chan s)) + os_dropped s + size (in_hand uncounted s)"
proof -
  obtain s :: "nat outsys" where s: "out_reach (\<lambda>_. 0) 1 True s" "os_pc s 5 = CountOld 3 4"
    using out_reach_evicting by blast
  from drop_oldest_concurrent [OF s(1)] s show ?thesis by blast
qed

text \<open>
  A drop-oldest outbox over an empty channel of capacity \<^verbatim>\<open>cap\<close> that nobody reads keeps the last
  \<^verbatim>\<open>cap\<close> items sent and a drop-newest outbox the first \<^verbatim>\<open>cap\<close>; both never block and count exactly
  the items beyond the capacity as dropped.
\<close>

theorem overflow_policies:
  assumes "0 < cap"
  shows "chan_buf (ob_chan (send_all xs (NewOutbox \<lparr>chan_cap = cap, chan_buf = []\<rparr> OverflowDropOldest h))) =
           drop (length xs - cap) xs \<and>
         chan_buf (ob_chan (send_all xs (NewOutbox \<lparr>chan_cap = cap, chan_buf = []\<rparr> OverflowDropNewest h))) =
           take cap xs \<and>
         ob_dropped (send_all xs (NewOutbox \<lparr>chan_cap = cap, chan_buf = []\<rparr> OverflowDropOldest h)) = length xs - cap \<and>
         ob_dropped (send_all xs (NewOutbox \<lparr>chan_cap = cap, chan_buf = []\<rparr> OverflowDropNewest h)) = length xs - cap"
    (is "chan_buf (ob_chan ?old) = _ \<and> chan_buf (ob_chan ?new) = _ \<and> _")
proof -
  let ?c = "\<lparr>chan_cap = cap, chan_buf = []\<rparr>"
  have ok: "chan_ok ?c" by (simp add: chan_ok_def)
  have old: "chan_buf (ob_chan ?old) = drop (length xs - cap) xs"
    using send_all_drop_oldest [of "NewOutbox ?c OverflowDropOldest h" xs] assms ok by (simp add: NewOutbox_def)
  have new: "chan_buf (ob_chan ?new) = take cap xs"
    using send_all_drop_newest [of "NewOutbox ?c OverflowDropNewest h" xs] ok by (simp add: NewOutbox_def)
  have "ob_dropped ?old = length xs - cap"
    using send_all_dropped [of "NewOutbox ?c OverflowDropOldest h" xs] old by (simp add: NewOutbox_def)
  moreover have "ob_dropped ?new = length xs - cap"
    using send_all_dropped [of "NewOutbox ?c OverflowDropNewest h" xs] new by (simp add: NewOutbox_def)
  ultimately show ?thesis using old new by simp
qed

theorem overflow_policies_witness:
  "chan_buf (ob_chan (send_all [1, 2, 3] (NewOutbox \<lparr>chan_cap = 2, chan_buf = []\<rparr> OverflowDropOldest False))) = [2, 3::nat]"
  using overflow_policies [of 2 "[1, 2, 3::nat]" False] by simp

end
