(* ===== verification/Stores.thy ===== *)
theory Stores
  imports Prelude
begin

text \<open>
  The in-process key-value backends of \<^verbatim>\<open>internal/hooks.go\<close>: \<^verbatim>\<open>memoryStore\<close> (with its
  by-reference side door \<^verbatim>\<open>InProcessStore\<close>) and \<^verbatim>\<open>memoryCache\<close> with insertion-order
  eviction and TTL. Every method holds the mutex for its whole body, so each is one atomic
  function on the state. The locales \<^verbatim>\<open>cache\<close> and \<^verbatim>\<open>kv_store\<close> are the contracts of the \<^verbatim>\<open>Cache\<close>
  and \<^verbatim>\<open>Store\<close> interfaces that stages rely on.
\<close>

section \<open>The contracts\<close>

text \<open>
  What a client of a \<^verbatim>\<open>Cache\<close> may rely on: a hit returns data that was put under that key.
  \<^verbatim>\<open>lookup\<close> is a hit of \<^verbatim>\<open>Get\<close> at a clock reading, \<^verbatim>\<open>data\<close> what the backend holds for a key. A
  cache may lose entries at any time.
\<close>

locale cache =
  fixes lookup :: "time \<Rightarrow> 's \<Rightarrow> string \<Rightarrow> 'b option"
    and put :: "time \<Rightarrow> 's \<Rightarrow> string \<Rightarrow> 'b \<Rightarrow> 's"
    and data :: "'s \<Rightarrow> string \<Rightarrow> 'b option"
  assumes lookup_data: "lookup t s k = Some b \<Longrightarrow> data s k = Some b"
    and put_data: "data (put t s k b) j = Some b' \<Longrightarrow> (j = k \<and> b' = b) \<or> data s j = Some b'"
begin

definition holds_only :: "(string \<Rightarrow> 'b \<Rightarrow> bool) \<Rightarrow> 's \<Rightarrow> bool" where
  "holds_only P s \<longleftrightarrow> (\<forall>k b. data s k = Some b \<longrightarrow> P k b)"

lemma holds_only_hit: "holds_only P s \<Longrightarrow> lookup t s k = Some b \<Longrightarrow> P k b"
  by (auto simp: holds_only_def dest: lookup_data)

lemma holds_only_put: "holds_only P s \<Longrightarrow> P k b \<Longrightarrow> holds_only P (put t s k b)"
  by (auto simp: holds_only_def dest: put_data)

end

text \<open>A \<^verbatim>\<open>Store\<close> keeps what it is given: the last value put under a key is the one read.\<close>

locale kv_store = cache +
  fixes del :: "'a \<Rightarrow> string \<Rightarrow> 'a"
  assumes lookup_put: "lookup t' (put t s k b) j = (if j = k then Some b else lookup t' s j)"
    and lookup_del: "lookup t (del s k) j = (if j = k then None else lookup t s j)"
begin

lemma last_put_wins:
  "lookup t (fold (\<lambda>(k, b) s. put t s k b) kbs s) k =
     (case map_of (rev kbs) k of Some b \<Rightarrow> Some b | None \<Rightarrow> lookup t s k)"
  by (induction kbs arbitrary: s) (auto simp: lookup_put map_add_def split: option.splits)

end

section \<open>memoryStore\<close>

text \<open>
  A stored value is a byte slice, or any other Go value put in through \<^verbatim>\<open>SetAny\<close>, which
  \<^verbatim>\<open>Get\<close> marshals with \<^verbatim>\<open>encoding/json\<close>, a parameter of the model.
\<close>

datatype ('b, 'v) stored = Bytes 'b | Value 'v

type_synonym ('b, 'v) memory_store = "string \<rightharpoonup> ('b, 'v) stored"

definition MemoryStore :: "('b, 'v) memory_store" where
  "MemoryStore = Map.empty"

definition store_Get ::
  "('v \<Rightarrow> 'b result) \<Rightarrow> ('b, 'v) memory_store \<Rightarrow> string \<Rightarrow> 'b option result \<times> bool" where
  "store_Get marshal s key =
     (case s key of
        None \<Rightarrow> (Inr None, False)
      | Some (Bytes b) \<Rightarrow> (Inr (Some b), True)
      | Some (Value v) \<Rightarrow>
          (case marshal v of Inl e \<Rightarrow> (Inl e, True) | Inr b \<Rightarrow> (Inr (Some b), True)))"

definition store_Set :: "('b, 'v) memory_store \<Rightarrow> string \<Rightarrow> 'b \<Rightarrow> ('b, 'v) memory_store" where
  "store_Set s key value = s(key \<mapsto> Bytes value)"

definition store_Delete :: "('b, 'v) memory_store \<Rightarrow> string \<Rightarrow> ('b, 'v) memory_store" where
  "store_Delete s key = s(key := None)"

definition store_GetAny :: "('b, 'v) memory_store \<Rightarrow> string \<Rightarrow> ('b, 'v) stored option" where
  "store_GetAny s key = s key"

definition store_SetAny :: "('b, 'v) memory_store \<Rightarrow> string \<Rightarrow> ('b, 'v) stored \<Rightarrow> ('b, 'v) memory_store" where
  "store_SetAny s key value = s(key \<mapsto> value)"

definition store_DeleteAny :: "('b, 'v) memory_store \<Rightarrow> string \<Rightarrow> ('b, 'v) memory_store" where
  "store_DeleteAny s key = s(key := None)"

lemmas store_defs [store_simps] =
  MemoryStore_def store_Get_def store_Set_def store_Delete_def
  store_GetAny_def store_SetAny_def store_DeleteAny_def

lemma memory_store_roundtrip:
  "store_Get marshal (store_Set s k b) j =
     (if j = k then (Inr (Some b), True) else store_Get marshal s j)"
  by (simp add: store_simps)

text \<open>The hit of a \<^verbatim>\<open>Get\<close>: data, found, and no error.\<close>

definition store_hit :: "('v \<Rightarrow> 'b result) \<Rightarrow> ('b, 'v) memory_store \<Rightarrow> string \<Rightarrow> 'b option" where
  "store_hit marshal s key =
     (case store_Get marshal s key of (Inr (Some b), True) \<Rightarrow> Some b | _ \<Rightarrow> None)"

interpretation memory_store: kv_store "\<lambda>_. store_hit marshal" "\<lambda>_. store_Set" "store_hit marshal" store_Delete
  for marshal :: "'v \<Rightarrow> 'b result"
  by unfold_locales (auto simp: store_hit_def store_simps split: if_splits)

section \<open>memoryCache\<close>

text \<open>
  An entry's \<^verbatim>\<open>expiresAt\<close> is \<^verbatim>\<open>None\<close> for the zero time (no expiry). \<^verbatim>\<open>cache_order\<close> is the
  slice \<^verbatim>\<open>order\<close>, oldest first.
\<close>

record 'b cache_entry =
  ce_data :: 'b
  ce_expires :: "time option"

record 'b memory_cache =
  cache_max :: int
  cache_entries :: "string \<rightharpoonup> 'b cache_entry"
  cache_order :: "string list"

definition MemoryCache :: "int \<Rightarrow> 'b memory_cache" where
  "MemoryCache maxSize = \<lparr>cache_max = maxSize, cache_entries = Map.empty, cache_order = []\<rparr>"

definition cache_Get :: "'b memory_cache \<Rightarrow> time \<Rightarrow> string \<Rightarrow> 'b option" where
  "cache_Get c now key =
     (case cache_entries c key of
        None \<Rightarrow> None
      | Some entry \<Rightarrow>
          (case ce_expires entry of
             Some exp \<Rightarrow> if now > exp then None else Some (ce_data entry)
           | None \<Rightarrow> Some (ce_data entry)))"

text \<open>\<^verbatim>\<open>evictOldest\<close>: the loop over \<^verbatim>\<open>order\<close>, with the entries it deletes from.\<close>

fun evict_loop :: "string list \<Rightarrow> (string \<rightharpoonup> 'e) \<Rightarrow> string list \<times> (string \<rightharpoonup> 'e)" where
  "evict_loop [] entries = ([], entries)"
| "evict_loop (oldest # order) entries =
     (if entries oldest \<noteq> None then (order, entries(oldest := None)) else evict_loop order entries)"

definition evictOldest :: "'b memory_cache \<Rightarrow> 'b memory_cache" where
  "evictOldest c =
     (case evict_loop (cache_order c) (cache_entries c) of
        (order, entries) \<Rightarrow> c\<lparr>cache_order := order, cache_entries := entries\<rparr>)"

definition cache_size :: "'b memory_cache \<Rightarrow> nat" where
  "cache_size c = card (dom (cache_entries c))"

definition cache_Set :: "'b memory_cache \<Rightarrow> time \<Rightarrow> string \<Rightarrow> 'b \<Rightarrow> duration \<Rightarrow> 'b memory_cache" where
  "cache_Set c now key value ttl =
     (let c = (if cache_entries c key = None \<and> int (cache_size c) \<ge> cache_max c
               then evictOldest c else c);
          exp = (if ttl > 0 then Some (now + ttl) else None);
          c = (if cache_entries c key = None
               then c\<lparr>cache_order := cache_order c @ [key]\<rparr> else c)
      in c\<lparr>cache_entries := (cache_entries c)(key \<mapsto> \<lparr>ce_data = value, ce_expires = exp\<rparr>)\<rparr>)"

text \<open>
  The invariant: the order lists exactly the cached keys, each once. It holds initially and
  after every operation, so the skip in \<^verbatim>\<open>evictOldest\<close> over stale keys is never taken.
\<close>

definition cache_inv :: "'b memory_cache \<Rightarrow> bool" where
  "cache_inv c \<longleftrightarrow> distinct (cache_order c) \<and> set (cache_order c) = dom (cache_entries c)"

lemma cache_inv_init: "cache_inv (MemoryCache n)"
  by (simp add: cache_inv_def MemoryCache_def)

lemma cache_size_order: "cache_inv c \<Longrightarrow> cache_size c = length (cache_order c)"
  by (metis cache_inv_def cache_size_def distinct_card)

lemma cache_inv_finite: "cache_inv c \<Longrightarrow> finite (dom (cache_entries c))"
  by (metis cache_inv_def finite_set)

lemma evictOldest_step:
  assumes "cache_inv c" and "cache_order c = k # ks"
  shows "evictOldest c = c\<lparr>cache_order := ks, cache_entries := (cache_entries c)(k := None)\<rparr>"
proof -
  have "cache_entries c k \<noteq> None" using assms by (auto simp: cache_inv_def)
  with assms(2) show ?thesis by (simp add: evictOldest_def)
qed

lemma evictOldest_empty: "cache_order c = [] \<Longrightarrow> evictOldest c = c"
  by (simp add: evictOldest_def)

lemma evictOldest_inv: "cache_inv c \<Longrightarrow> cache_inv (evictOldest c)"
  by (cases "cache_order c") (auto simp: evictOldest_empty evictOldest_step cache_inv_def)

lemma evictOldest_size: "cache_inv c \<Longrightarrow> cache_size (evictOldest c) = cache_size c - 1"
  using cache_size_order [of c] cache_size_order [OF evictOldest_inv, of c]
  by (cases "cache_order c") (auto simp: evictOldest_empty evictOldest_step)

lemma evictOldest_frame [simp]: "cache_max (evictOldest c) = cache_max c"
  by (simp add: evictOldest_def split: prod.splits)

lemma evictOldest_None: "cache_inv c \<Longrightarrow> cache_entries c k = None \<Longrightarrow> cache_entries (evictOldest c) k = None"
  by (cases "cache_order c") (auto simp: evictOldest_empty evictOldest_step)

text \<open>\<^verbatim>\<open>Set\<close> as: make room, then insert or overwrite.\<close>

definition cache_room :: "'b memory_cache \<Rightarrow> string \<Rightarrow> 'b memory_cache" where
  "cache_room c key =
     (if cache_entries c key = None \<and> int (cache_size c) \<ge> cache_max c then evictOldest c else c)"

lemma cache_Set_room:
  "cache_Set c now key value ttl =
     (let c' = cache_room c key in
      c'\<lparr>cache_order := (if cache_entries c key = None then cache_order c' @ [key] else cache_order c'),
         cache_entries := (cache_entries c')(key \<mapsto>
           \<lparr>ce_data = value, ce_expires = (if ttl > 0 then Some (now + ttl) else None)\<rparr>)\<rparr>)"
  if "cache_inv c"
  using that by (auto simp: cache_Set_def cache_room_def Let_def evictOldest_None)

lemma cache_room_inv: "cache_inv c \<Longrightarrow> cache_inv (cache_room c k)"
  by (simp add: cache_room_def evictOldest_inv)

lemma cache_room_None:
  "cache_inv c \<Longrightarrow> cache_entries (cache_room c k) k = None \<longleftrightarrow> cache_entries c k = None"
  by (auto simp: cache_room_def evictOldest_None)

lemma cache_Set_inv: "cache_inv c \<Longrightarrow> cache_inv (cache_Set c now k v ttl)"
  using cache_room_inv [of c k] cache_room_None [of c k]
  by (auto simp: cache_Set_room Let_def cache_inv_def)

lemma cache_Set_frame [simp]: "cache_max (cache_Set c now k v ttl) = cache_max c"
  by (simp add: cache_Set_def Let_def)

lemma cache_room_size:
  assumes "cache_inv c" and "cache_entries c k = None"
    and "int (cache_size c) \<le> max 1 (cache_max c)"
  shows "int (cache_size (cache_room c k)) + 1 \<le> max 1 (cache_max c)"
  using assms by (auto simp: cache_room_def evictOldest_size)

lemma cache_Set_size:
  assumes "cache_inv c" and "int (cache_size c) \<le> max 1 (cache_max c)"
  shows "int (cache_size (cache_Set c now k v ttl)) \<le> max 1 (cache_max c)"
proof (cases "cache_entries c k")
  case None
  have "cache_size (cache_Set c now k v ttl) = Suc (cache_size (cache_room c k))"
    using cache_size_order [OF cache_Set_inv [OF assms(1)], of now k v ttl]
      cache_size_order [OF cache_room_inv [OF assms(1)], of k] None
    by (simp add: cache_Set_room [OF assms(1)] Let_def)
  with cache_room_size [OF assms(1) None assms(2)] show ?thesis by simp
next
  case (Some e)
  then have "cache_room c k = c" by (simp add: cache_room_def)
  then have "cache_size (cache_Set c now k v ttl) = cache_size c"
    using Some by (simp add: cache_Set_room [OF assms(1)] cache_size_def Let_def insert_absorb domIff)
  with assms(2) show ?thesis by simp
qed

lemma cache_Get_Set:
  assumes "cache_inv c"
  shows "cache_Get (cache_Set c now k v ttl) now' k =
           (if ttl > 0 \<and> now' > now + ttl then None else Some v)"
  by (simp add: cache_Set_room [OF assms] cache_Get_def Let_def)

lemma evict_loop_sub: "snd (evict_loop order entries) j = Some e \<Longrightarrow> entries j = Some e"
  by (induction order entries rule: evict_loop.induct) (auto split: if_splits)

lemma evictOldest_sub: "cache_entries (evictOldest c) j = Some e \<Longrightarrow> cache_entries c j = Some e"
  using evict_loop_sub [of "cache_order c" "cache_entries c"]
  by (auto simp: evictOldest_def split: prod.splits)

definition cache_data :: "'b memory_cache \<Rightarrow> string \<Rightarrow> 'b option" where
  "cache_data c k = map_option ce_data (cache_entries c k)"

interpretation memory_cache: cache "\<lambda>now c. cache_Get c now" "\<lambda>now c k v. cache_Set c now k v ttl" cache_data
  for ttl :: duration
  by unfold_locales
    (auto simp: cache_Get_def cache_data_def cache_Set_def Let_def dest: evictOldest_sub
      split: option.splits if_splits)

text \<open>A sequence of insertions with the clock at each.\<close>

definition cache_fill :: "(time \<times> string \<times> 'b \<times> duration) list \<Rightarrow> 'b memory_cache \<Rightarrow> 'b memory_cache" where
  "cache_fill = fold (\<lambda>(now, k, v, ttl) c. cache_Set c now k v ttl)"

lemma cache_fill_inv:
  assumes "cache_inv c" and "int (cache_size c) \<le> max 1 (cache_max c)"
  shows "cache_inv (cache_fill ops c) \<and> cache_max (cache_fill ops c) = cache_max c \<and>
         int (cache_size (cache_fill ops c)) \<le> max 1 (cache_max c)"
  using assms
proof (induction ops arbitrary: c)
  case (Cons op ops)
  obtain now k v ttl where op: "op = (now, k, v, ttl)" by (cases op) auto
  have "cache_inv (cache_Set c now k v ttl)" "int (cache_size (cache_Set c now k v ttl)) \<le> max 1 (cache_max c)"
    using Cons.prems by (auto intro: cache_Set_inv cache_Set_size)
  with Cons.IH [of "cache_Set c now k v ttl"] op show ?case by (simp add: cache_fill_def)
qed (simp add: cache_fill_def)

section \<open>Properties of the cache\<close>

text \<open>
  Whatever was stored in it before, a memory cache built for \<^verbatim>\<open>n\<close> entries never holds more than
  \<^verbatim>\<open>n\<close> of them (one for a non-positive \<^verbatim>\<open>n\<close>), and an entry just set is returned with its value until
  its time to live is over, and not after.
\<close>

theorem memory_cache_bounded:
  "int (cache_size (cache_fill ops (MemoryCache n))) \<le> max 1 n \<and>
   cache_Get (cache_Set (cache_fill ops (MemoryCache n)) now k v ttl) now' k =
     (if ttl > 0 \<and> now' > now + ttl then None else Some v)"
proof -
  have "int (cache_size (MemoryCache n :: 'a memory_cache)) \<le> max 1 (cache_max (MemoryCache n :: 'a memory_cache))"
    by (simp add: MemoryCache_def cache_size_def)
  from cache_fill_inv [OF cache_inv_init this, of ops] show ?thesis
    by (simp add: cache_Get_Set) (simp add: MemoryCache_def)
qed

end
