(* ===== verification/Key_Sets.thy ===== *)
theory Key_Sets
  imports Prelude "HOL-Library.Word"
begin

unbundle bit_operations_syntax

text \<open>
  The deduplication sets behind the \<^verbatim>\<open>DedupSet\<close> interface: the exact in-memory set
  (\<^verbatim>\<open>internal/hooks.go\<close>), the set with a time to live (\<^verbatim>\<open>internal/ttldedup.go\<close>) and the
  Bloom filter (\<^verbatim>\<open>internal/bloom.go\<close>).

  The locale \<^verbatim>\<open>dedup_set\<close> is what every user of the interface may rely on: an added key is
  reported as seen, and adding keys never makes a seen key unseen. \<^verbatim>\<open>exact_dedup_set\<close> adds
  that nothing else is reported. \<^verbatim>\<open>dedup_items\<close> is the code that uses a set to drop
  duplicates (the external-backend arm of \<^verbatim>\<open>DedupeBy\<close>); its lemmas are proved once from the
  contract.
\<close>

section \<open>The DedupSet contract\<close>

text \<open>
  \<^verbatim>\<open>Contains\<close> and \<^verbatim>\<open>Add\<close> in the order \<^verbatim>\<open>DedupeBy\<close> calls them: one item is emitted unless its
  key is already contained, and its key is added before it is sent. \<^verbatim>\<open>Contains\<close> may change
  the set (the TTL set evicts).
\<close>

fun dedup_items ::
  "('s \<Rightarrow> 'k \<Rightarrow> 's \<times> bool) \<Rightarrow> ('s \<Rightarrow> 'k \<Rightarrow> 's) \<Rightarrow> ('a \<Rightarrow> 'k) \<Rightarrow> 's \<Rightarrow> 'a list \<Rightarrow> 'a list" where
  "dedup_items contains add key s [] = []"
| "dedup_items contains add key s (x # xs) =
     (case contains s (key x) of
        (s', dup) \<Rightarrow>
          if dup then dedup_items contains add key s' xs
          else x # dedup_items contains add key (add s' (key x)) xs)"

text \<open>The reference: keep the first item of each key, skipping the keys in \<^verbatim>\<open>seen\<close>.\<close>

fun first_by :: "('a \<Rightarrow> 'k) \<Rightarrow> 'k set \<Rightarrow> 'a list \<Rightarrow> 'a list" where
  "first_by key seen [] = []"
| "first_by key seen (x # xs) =
     (if key x \<in> seen then first_by key seen xs else x # first_by key (insert (key x) seen) xs)"

lemma first_by_distinct:
  "distinct (map key (first_by key seen xs)) \<and> key ` set (first_by key seen xs) \<inter> seen = {}"
proof (induction xs arbitrary: seen)
  case (Cons x xs)
  then show ?case by (cases "key x \<in> seen") (simp_all, blast)
qed simp

lemma first_by_keys: "key ` set (first_by key seen xs) = key ` set xs - seen"
  by (induction xs arbitrary: seen) auto

lemma first_by_subseq: "subseq (first_by key seen xs) xs"
  by (induction xs arbitrary: seen) auto

lemma first_by_append:
  "first_by key seen (xs @ ys) = first_by key seen xs @ first_by key (seen \<union> key ` set xs) ys"
  by (induction xs arbitrary: seen) (auto simp: insert_absorb Un_commute Un_insert_left)

locale dedup_set =
  fixes contains :: "'s \<Rightarrow> 'k \<Rightarrow> 's \<times> bool"
    and add :: "'s \<Rightarrow> 'k \<Rightarrow> 's"
    and ok :: "'s \<Rightarrow> bool"
  assumes ok_contains: "ok s \<Longrightarrow> ok (fst (contains s k))"
    and ok_add: "ok s \<Longrightarrow> ok (add s k)"
    and contains_add: "ok s \<Longrightarrow> snd (contains (add s k) k)"
    and contains_add_mono: "ok s \<Longrightarrow> snd (contains s j) \<Longrightarrow> snd (contains (add s k) j)"
    and contains_contains: "ok s \<Longrightarrow> snd (contains (fst (contains s k)) j) = snd (contains s j)"
begin

lemma contains_after_dedup_step:
  "ok s \<Longrightarrow> snd (contains s j) \<Longrightarrow> snd (contains (add (fst (contains s k)) k) j)"
  by (simp add: contains_add_mono contains_contains ok_contains)

text \<open>A key that is seen is never emitted again.\<close>

lemma dedup_items_skips:
  "ok s \<Longrightarrow> snd (contains s k) \<Longrightarrow> k \<notin> key ` set (dedup_items contains add key s xs)"
proof (induction xs arbitrary: s)
  case (Cons x xs)
  obtain s' dup where c: "contains s (key x) = (s', dup)" by (cases "contains s (key x)")
  have ok': "ok s'" using ok_contains [OF Cons.prems(1), of "key x"] c by simp
  have seen: "snd (contains s' k)" using contains_contains [OF Cons.prems(1), of "key x" k] c Cons.prems by simp
  show ?case
  proof (cases dup)
    case True
    with c Cons.IH [OF ok' seen] show ?thesis by simp
  next
    case False
    then have "key x \<noteq> k" using c Cons.prems(2) by auto
    moreover have "ok (add s' (key x))" "snd (contains (add s' (key x)) k)"
      using ok' seen by (auto intro: ok_add contains_add_mono)
    ultimately show ?thesis using c False Cons.IH by auto
  qed
qed simp

lemma dedup_items_distinct:
  "ok s \<Longrightarrow> distinct (map key (dedup_items contains add key s xs))"
proof (induction xs arbitrary: s)
  case (Cons x xs)
  obtain s' dup where c: "contains s (key x) = (s', dup)" by (cases "contains s (key x)")
  have ok': "ok s'" using ok_contains [OF Cons.prems, of "key x"] c by simp
  have "key x \<notin> key ` set (dedup_items contains add key (add s' (key x)) xs)"
    using dedup_items_skips [OF ok_add [OF ok'] contains_add [OF ok']] .
  with c ok' Cons.IH show ?case by (auto simp: ok_add)
qed simp

lemma dedup_items_subseq: "subseq (dedup_items contains add key s xs) xs"
  by (induction xs arbitrary: s) (auto split: prod.splits)

end

locale exact_dedup_set = dedup_set +
  fixes empty :: 'a
  assumes ok_empty: "ok empty"
    and contains_empty: "\<not> snd (contains empty k)"
    and contains_add_only: "ok s \<Longrightarrow> snd (contains (add s k) j) \<Longrightarrow> j = k \<or> snd (contains s j)"
begin

lemma contains_add_iff: "ok s \<Longrightarrow> snd (contains (add s k) j) \<longleftrightarrow> j = k \<or> snd (contains s j)"
  using contains_add contains_add_mono contains_add_only by blast

lemma dedup_items_exact:
  "ok s \<Longrightarrow> dedup_items contains add key s xs = first_by key {k. snd (contains s k)} xs"
proof (induction xs arbitrary: s)
  case (Cons x xs)
  obtain s' dup where c: "contains s (key x) = (s', dup)" by (cases "contains s (key x)")
  have ok': "ok s'" using ok_contains [OF Cons.prems, of "key x"] c by simp
  have same: "snd (contains s' j) = snd (contains s j)" for j
    using contains_contains [OF Cons.prems, of "key x" j] c by simp
  have ins: "{k. snd (contains (add s' (key x)) k)} = insert (key x) {k. snd (contains s k)}"
    using ok' by (auto simp: contains_add_iff same)
  have dup: "snd (contains s (key x)) = dup" using c by simp
  show ?case
  proof (cases dup)
    case True
    with c dup same Cons.IH [OF ok'] show ?thesis by simp
  next
    case False
    with c dup ins Cons.IH [OF ok_add [OF ok']] show ?thesis by simp
  qed
qed simp

lemma dedup_items_from_empty: "dedup_items contains add key empty xs = first_by key {} xs"
  by (simp add: dedup_items_exact ok_empty contains_empty)

end

section \<open>memoryDedupSet\<close>

definition MemoryDedupSet :: "string set" where
  "MemoryDedupSet = {}"

definition mem_Contains :: "string set \<Rightarrow> string \<Rightarrow> string set \<times> bool" where
  "mem_Contains s key = (s, key \<in> s)"

definition mem_Add :: "string set \<Rightarrow> string \<Rightarrow> string set" where
  "mem_Add s key = insert key s"

interpretation memset: exact_dedup_set mem_Contains mem_Add "\<lambda>_. True" MemoryDedupSet
  by unfold_locales (auto simp: MemoryDedupSet_def mem_Contains_def mem_Add_def)

section \<open>ttlDedupSet\<close>

text \<open>
  \<^verbatim>\<open>entries\<close> has the authoritative expiry of each key; \<^verbatim>\<open>queue\<close> is a FIFO of (key, expiry)
  pairs read from \<^verbatim>\<open>head\<close> on, with tombstones for refreshed keys.
\<close>

record ttl_set =
  ts_ttl :: duration
  ts_entries :: "string \<rightharpoonup> time"
  ts_queue :: "(string \<times> time) list"
  ts_head :: nat

text \<open>\<^verbatim>\<open>TTLDedupSetWithClock\<close>: \<^verbatim>\<open>None\<close> is its panic on a non-positive ttl.\<close>

definition TTLDedupSet :: "duration \<Rightarrow> ttl_set option" where
  "TTLDedupSet ttl =
     (if ttl \<le> 0 then None
      else Some \<lparr>ts_ttl = ttl, ts_entries = Map.empty, ts_queue = [], ts_head = 0\<rparr>)"

text \<open>The eviction loop of \<^verbatim>\<open>evictLocked\<close>, then its compaction of the dead prefix.\<close>

function ttl_evict_loop :: "time \<Rightarrow> ttl_set \<Rightarrow> ttl_set" where
  "ttl_evict_loop now s =
     (if ts_head s < length (ts_queue s) then
        (case ts_queue s ! ts_head s of
           (key, expiresAt) \<Rightarrow>
             if expiresAt > now then s
             else ttl_evict_loop now
               (s\<lparr>ts_head := Suc (ts_head s),
                  ts_entries := (if ts_entries s key = Some expiresAt
                                 then (ts_entries s)(key := None) else ts_entries s)\<rparr>))
      else s)"
  by pat_completeness auto
termination
  by (relation "measure (\<lambda>(now, s). length (ts_queue s) - ts_head s)") auto

definition evictLocked :: "time \<Rightarrow> ttl_set \<Rightarrow> ttl_set" where
  "evictLocked now s =
     (let s = ttl_evict_loop now s in
      if ts_head s > 0 \<and> ts_head s \<ge> length (ts_queue s) div 2
      then s\<lparr>ts_queue := drop (ts_head s) (ts_queue s), ts_head := 0\<rparr> else s)"

definition ttl_Contains :: "time \<Rightarrow> ttl_set \<Rightarrow> string \<Rightarrow> ttl_set \<times> bool" where
  "ttl_Contains now s key =
     (let s = evictLocked now s in (s, ts_entries s key \<noteq> None))"

definition ttl_Add :: "time \<Rightarrow> ttl_set \<Rightarrow> string \<Rightarrow> ttl_set" where
  "ttl_Add now s key =
     (let s = evictLocked now s; exp = now + ts_ttl s
      in s\<lparr>ts_entries := (ts_entries s)(key \<mapsto> exp), ts_queue := ts_queue s @ [(key, exp)]\<rparr>)"

declare ttl_evict_loop.simps [simp del]

text \<open>The part of the queue not yet consumed.\<close>

definition ts_live :: "ttl_set \<Rightarrow> (string \<times> time) list" where
  "ts_live s = drop (ts_head s) (ts_queue s)"

text \<open>
  The invariant at a time \<^verbatim>\<open>t\<close> no later than the next call: expiries in the live queue do not
  decrease and lie within \<^verbatim>\<open>ttl\<close> of \<^verbatim>\<open>t\<close>, and every entry of the map has its queue record.
\<close>

definition ttl_inv :: "time \<Rightarrow> ttl_set \<Rightarrow> bool" where
  "ttl_inv t s \<longleftrightarrow>
     ts_ttl s > 0 \<and> ts_head s \<le> length (ts_queue s)
     \<and> sorted (map snd (ts_live s))
     \<and> (\<forall>(k, e) \<in> set (ts_live s). e \<le> t + ts_ttl s)
     \<and> (\<forall>k e. ts_entries s k = Some e \<longrightarrow> (k, e) \<in> set (ts_live s))"

text \<open>What the loop computes: the expired prefix of the live queue and its entries go.\<close>

lemma ttl_evict_loop_spec:
  assumes "ts_head s \<le> length (ts_queue s)" and "sorted (map snd (ts_live s))"
    and "\<forall>k e. ts_entries s k = Some e \<longrightarrow> (k, e) \<in> set (ts_live s)"
  shows "let s' = ttl_evict_loop now s in
           ts_ttl s' = ts_ttl s \<and> ts_queue s' = ts_queue s \<and> ts_head s' \<le> length (ts_queue s)
           \<and> ts_live s' = dropWhile (\<lambda>(k, e). e \<le> now) (ts_live s)
           \<and> (\<forall>k. ts_entries s' k =
                  (case ts_entries s k of Some e \<Rightarrow> if e \<le> now then None else Some e | None \<Rightarrow> None))"
  using assms
proof (induction now s rule: ttl_evict_loop.induct)
  case (1 now s)
  show ?case
  proof (cases "ts_head s < length (ts_queue s)")
    case False
    with 1 show ?thesis
      by (auto simp: ttl_evict_loop.simps [of now s] ts_live_def Let_def split: option.splits)
  next
    case True
    obtain key exp where q: "ts_queue s ! ts_head s = (key, exp)" by (cases "ts_queue s ! ts_head s")
    with True have live: "ts_live s = (key, exp) # drop (Suc (ts_head s)) (ts_queue s)"
      by (simp add: ts_live_def Cons_nth_drop_Suc [symmetric])
    show ?thesis
    proof (cases "exp > now")
      case True
      have "e > now" if "ts_entries s k = Some e" for k e
      proof -
        have "(k, e) \<in> set (ts_live s)" using 1(4) that by blast
        with 1(3) live True show ?thesis by (force simp: sorted_wrt_map)
      qed
      with True \<open>ts_head s < length (ts_queue s)\<close> q live show ?thesis
        by (force simp: ttl_evict_loop.simps [of now s] Let_def split: option.splits)
    next
      case False
      define s1 where "s1 = s\<lparr>ts_head := Suc (ts_head s),
                  ts_entries := (if ts_entries s key = Some exp
                                 then (ts_entries s)(key := None) else ts_entries s)\<rparr>"
      have s1: "ts_ttl s1 = ts_ttl s" "ts_queue s1 = ts_queue s"
        "ts_head s1 = Suc (ts_head s)" "ts_live s1 = drop (Suc (ts_head s)) (ts_queue s)"
        and en: "\<And>k. ts_entries s1 k = (if k = key \<and> ts_entries s key = Some exp then None else ts_entries s k)"
        by (auto simp: s1_def ts_live_def)
      have unfold: "ttl_evict_loop now s = ttl_evict_loop now s1"
        using True q False by (simp add: ttl_evict_loop.simps [of now s] s1_def)
      have "sorted (map snd (ts_live s1))" using 1(3) live s1 by simp
      moreover have "\<forall>k e. ts_entries s1 k = Some e \<longrightarrow> (k, e) \<in> set (ts_live s1)"
        using 1(4) live s1 en by (auto split: if_splits)
      ultimately have IH: "let s' = ttl_evict_loop now s1 in
           ts_ttl s' = ts_ttl s1 \<and> ts_queue s' = ts_queue s1 \<and> ts_head s' \<le> length (ts_queue s1)
           \<and> ts_live s' = dropWhile (\<lambda>(k, e). e \<le> now) (ts_live s1)
           \<and> (\<forall>k. ts_entries s' k =
                  (case ts_entries s1 k of Some e \<Rightarrow> if e \<le> now then None else Some e | None \<Rightarrow> None))"
        using 1(1) [OF True q [symmetric]] False True s1 unfolding s1_def by simp
      have "(case ts_entries s1 k of Some e \<Rightarrow> if e \<le> now then None else Some e | None \<Rightarrow> None) =
            (case ts_entries s k of Some e \<Rightarrow> if e \<le> now then None else Some e | None \<Rightarrow> None)" for k
        using False en by simp
      with IH unfold live s1 False show ?thesis by (simp add: Let_def)
    qed
  qed
qed

lemma evictLocked_spec:
  assumes "ttl_inv t s" and "t \<le> now"
  shows "ttl_inv now (evictLocked now s)
         \<and> (\<forall>k. ts_entries (evictLocked now s) k =
                  (case ts_entries s k of Some e \<Rightarrow> if e \<le> now then None else Some e | None \<Rightarrow> None))
         \<and> ts_live (evictLocked now s) = dropWhile (\<lambda>(k, e). e \<le> now) (ts_live s)
         \<and> ts_ttl (evictLocked now s) = ts_ttl s"
proof -
  let ?s = "ttl_evict_loop now s"
  have inv: "ts_head s \<le> length (ts_queue s)" "sorted (map snd (ts_live s))"
    "\<forall>k e. ts_entries s k = Some e \<longrightarrow> (k, e) \<in> set (ts_live s)"
    using assms(1) by (auto simp: ttl_inv_def)
  note spec = ttl_evict_loop_spec [OF inv, of now, unfolded Let_def]
  have live: "ts_live (evictLocked now s) = ts_live ?s"
    by (simp add: evictLocked_def ts_live_def Let_def)
  have entries: "ts_entries (evictLocked now s) = ts_entries ?s"
    and ttl: "ts_ttl (evictLocked now s) = ts_ttl ?s"
    and head: "ts_head (evictLocked now s) \<le> length (ts_queue (evictLocked now s))"
    using spec by (auto simp: evictLocked_def Let_def)
  have keep: "(k, e) \<in> set (ts_live ?s)" if "(k, e) \<in> set (ts_live s)" "e > now" for k e
    using that spec by (auto intro: set_dropWhile_keep)
  have "sorted (map snd (ts_live ?s))"
    using spec inv(2) by (simp add: sorted_map_dropWhile)
  moreover have "\<forall>(k, e) \<in> set (ts_live ?s). e \<le> now + ts_ttl s"
    using spec assms by (fastforce simp: ttl_inv_def dest: set_dropWhileD)
  moreover have "(k, e) \<in> set (ts_live ?s)" if "ts_entries ?s k = Some e" for k e
    using that spec inv(3) keep by (fastforce split: option.splits if_splits)
  moreover have "ts_ttl s > 0" using assms(1) by (simp add: ttl_inv_def)
  ultimately have "ttl_inv now (evictLocked now s)"
    using head spec unfolding ttl_inv_def live entries ttl by auto
  with spec live entries ttl show ?thesis by simp
qed

text \<open>A fresh set meets the invariant, and both operations keep it as time goes on.\<close>

lemma TTLDedupSet_inv: "TTLDedupSet ttl = Some s \<Longrightarrow> ttl_inv t s"
  by (auto simp: TTLDedupSet_def ttl_inv_def ts_live_def split: if_splits)

lemma ttl_Contains_inv: "ttl_inv t s \<Longrightarrow> t \<le> now \<Longrightarrow> ttl_inv now (fst (ttl_Contains now s k))"
  by (simp add: ttl_Contains_def Let_def evictLocked_spec)

lemma sorted_snoc: "sorted xs \<Longrightarrow> \<forall>x \<in> set xs. x \<le> y \<Longrightarrow> sorted (xs @ [y])"
  by (simp add: sorted_append)

lemma ttl_Add_inv:
  assumes "ttl_inv t s" and "t \<le> now"
  shows "ttl_inv now (ttl_Add now s k)"
proof -
  let ?s = "evictLocked now s" and ?e = "now + ts_ttl (evictLocked now s)"
  have inv: "ttl_inv now ?s" using evictLocked_spec [OF assms] by blast
  then have live: "ts_live (ttl_Add now s k) = ts_live ?s @ [(k, ?e)]"
    by (simp add: ttl_Add_def ts_live_def ttl_inv_def Let_def)
  have "sorted (map snd (ts_live ?s) @ [?e])"
    using inv by (intro sorted_snoc) (auto simp: ttl_inv_def)
  with inv live show ?thesis
    by (auto simp: ttl_inv_def ttl_Add_def Let_def)
qed

text \<open>What the two operations report, in terms of the authoritative expiries.\<close>

lemma ttl_Contains_value:
  assumes "ttl_inv t s" and "t \<le> now"
  shows "snd (ttl_Contains now s k) \<longleftrightarrow> (\<exists>e. ts_entries s k = Some e \<and> now < e)"
  using evictLocked_spec [OF assms] by (auto simp: ttl_Contains_def Let_def split: option.splits)

lemma ttl_entries_Add:
  assumes "ttl_inv t s" and "t \<le> now"
  shows "ts_entries (ttl_Add now s k) j =
           (if j = k then Some (now + ts_ttl s)
            else case ts_entries s j of Some e \<Rightarrow> if e \<le> now then None else Some e | None \<Rightarrow> None)"
  using evictLocked_spec [OF assms] by (simp add: ttl_Add_def Let_def)

lemma ttl_ttl_Add: "ttl_inv t s \<Longrightarrow> t \<le> now \<Longrightarrow> ts_ttl (ttl_Add now s k) = ts_ttl s"
  using evictLocked_spec [of t s now] by (simp add: ttl_Add_def Let_def)

text \<open>
  While the clock stands still the TTL set is an exact set: nothing it holds expires between
  the calls.
\<close>

definition ttl_fresh :: "duration \<Rightarrow> ttl_set" where
  "ttl_fresh ttl = \<lparr>ts_ttl = max 1 ttl, ts_entries = Map.empty, ts_queue = [], ts_head = 0\<rparr>"

lemma ttl_fresh_inv: "ttl_inv t (ttl_fresh ttl)"
  by (simp add: ttl_inv_def ttl_fresh_def ts_live_def)

interpretation ttlset: exact_dedup_set "ttl_Contains now" "ttl_Add now" "ttl_inv now" "ttl_fresh ttl"
  for ttl :: duration and now :: time
proof
  fix s :: ttl_set and k j :: string
  show "ttl_inv now (ttl_fresh ttl)" by (rule ttl_fresh_inv)
  show "\<not> snd (ttl_Contains now (ttl_fresh ttl) k)"
    by (simp add: ttl_Contains_value [OF ttl_fresh_inv order_refl]) (simp add: ttl_fresh_def)
  assume inv: "ttl_inv now s"
  show "ttl_inv now (fst (ttl_Contains now s k))" using inv by (rule ttl_Contains_inv) simp
  show "ttl_inv now (ttl_Add now s k)" using inv by (rule ttl_Add_inv) simp
  note add_inv = ttl_Add_inv [OF inv order_refl]
  have pos: "ts_ttl s > 0" using inv by (simp add: ttl_inv_def)
  show "snd (ttl_Contains now (ttl_Add now s k) k)"
    using pos by (simp add: ttl_Contains_value [OF add_inv] ttl_entries_Add [OF inv])
  show "snd (ttl_Contains now (ttl_Add now s k) j)" if "snd (ttl_Contains now s j)"
    using that pos by (auto simp: ttl_Contains_value [OF add_inv] ttl_Contains_value [OF inv]
        ttl_entries_Add [OF inv])
  show "j = k \<or> snd (ttl_Contains now s j)" if "snd (ttl_Contains now (ttl_Add now s k) j)"
    using that by (auto simp: ttl_Contains_value [OF add_inv] ttl_Contains_value [OF inv]
        ttl_entries_Add [OF inv] split: if_splits option.splits)
  show "snd (ttl_Contains now (fst (ttl_Contains now s k)) j) = snd (ttl_Contains now s j)"
    using evictLocked_spec [OF inv order_refl]
    by (auto simp: ttl_Contains_value [OF ttl_Contains_inv [OF inv order_refl]]
        ttl_Contains_value [OF inv], auto simp: ttl_Contains_def Let_def split: option.splits if_splits)
qed

section \<open>bloomDedupSet\<close>

text \<open>
  A Bloom filter over \<^verbatim>\<open>m\<close> bits in 64-bit words with \<^verbatim>\<open>k\<close> hash functions. The two seeded
  \<^verbatim>\<open>hash/maphash\<close> sums are a parameter; \<^verbatim>\<open>bloomHash\<close> forces the second to be odd.
\<close>

record bloom =
  bl_bits :: "64 word list"
  bl_m :: "64 word"
  bl_k :: nat

type_synonym seeded_hash = "string \<Rightarrow> 64 word"

definition bloomHash :: "seeded_hash \<Rightarrow> seeded_hash \<Rightarrow> string \<Rightarrow> 64 word \<times> 64 word" where
  "bloomHash hash1 hash2 key = (hash1 key, hash2 key OR 1)"

text \<open>\<^verbatim>\<open>pos := (h1 + uint64(i)*h2) % m\<close>, with the word and bit it selects.\<close>

definition bloom_pos :: "64 word \<Rightarrow> 64 word \<times> 64 word \<Rightarrow> nat \<Rightarrow> nat" where
  "bloom_pos m h i = unat ((fst h + of_nat i * snd h) mod m)"

definition bloom_test :: "64 word list \<Rightarrow> nat \<Rightarrow> bool" where
  "bloom_test bits pos \<longleftrightarrow> bits ! (pos div 64) AND push_bit (pos mod 64) 1 \<noteq> 0"

definition bloom_set :: "64 word list \<Rightarrow> nat \<Rightarrow> 64 word list" where
  "bloom_set bits pos = bits[pos div 64 := bits ! (pos div 64) OR push_bit (pos mod 64) 1]"

text \<open>The scan of \<^verbatim>\<open>Contains\<close> and the loop of \<^verbatim>\<open>Add\<close>, from hash \<^verbatim>\<open>i\<close> with \<^verbatim>\<open>n\<close> to go.\<close>

fun bloom_scan :: "bloom \<Rightarrow> 64 word \<times> 64 word \<Rightarrow> nat \<Rightarrow> nat \<Rightarrow> bool" where
  "bloom_scan b h i 0 = True"
| "bloom_scan b h i (Suc n) =
     (if \<not> bloom_test (bl_bits b) (bloom_pos (bl_m b) h i) then False else bloom_scan b h (Suc i) n)"

fun bloom_fill :: "bloom \<Rightarrow> 64 word \<times> 64 word \<Rightarrow> nat \<Rightarrow> nat \<Rightarrow> bloom" where
  "bloom_fill b h i 0 = b"
| "bloom_fill b h i (Suc n) =
     bloom_fill (b\<lparr>bl_bits := bloom_set (bl_bits b) (bloom_pos (bl_m b) h i)\<rparr>) h (Suc i) n"

definition bloom_Contains :: "seeded_hash \<Rightarrow> seeded_hash \<Rightarrow> bloom \<Rightarrow> string \<Rightarrow> bloom \<times> bool" where
  "bloom_Contains hash1 hash2 b key = (b, bloom_scan b (bloomHash hash1 hash2 key) 0 (bl_k b))"

definition bloom_Add :: "seeded_hash \<Rightarrow> seeded_hash \<Rightarrow> bloom \<Rightarrow> string \<Rightarrow> bloom" where
  "bloom_Add hash1 hash2 b key = bloom_fill b (bloomHash hash1 hash2 key) 0 (bl_k b)"

text \<open>\<^verbatim>\<open>BloomDedupSet\<close> after its parameters \<^verbatim>\<open>m\<close> and \<^verbatim>\<open>k\<close> are chosen: \<^verbatim>\<open>(m + 63) / 64\<close> words.\<close>

definition new_bloom :: "64 word \<Rightarrow> nat \<Rightarrow> bloom" where
  "new_bloom m k = \<lparr>bl_bits = replicate (unat ((m + 63) div 64)) 0, bl_m = m, bl_k = k\<rparr>"

definition bloom_ok :: "bloom \<Rightarrow> bool" where
  "bloom_ok b \<longleftrightarrow> bl_m b \<noteq> 0 \<and> unat (bl_m b) \<le> 64 * length (bl_bits b)"

lemma bloom_pos_less: "m \<noteq> 0 \<Longrightarrow> bloom_pos m h i < unat m"
  unfolding bloom_pos_def by (simp add: unat_mod word_neq_0_conv unat_gt_0)

text \<open>Every index the filter uses is in range, so no access of the code panics.\<close>

lemma bloom_index_in_range: "bloom_ok b \<Longrightarrow> bloom_pos (bl_m b) h i div 64 < length (bl_bits b)"
  using bloom_pos_less [of "bl_m b" h i]
  by (intro less_mult_imp_div_less) (auto simp: bloom_ok_def mult.commute)

lemma bloom_test_bit: "bloom_test bits p \<longleftrightarrow> bit (bits ! (p div 64)) (p mod 64)"
  unfolding bloom_test_def by (rule bit_iff_and_push_bit_not_eq_0 [symmetric])

lemma bloom_set_nth:
  "q div 64 < length bits \<Longrightarrow>
   bit (bloom_set bits q ! (p div 64)) (p mod 64) \<longleftrightarrow>
     bit (bits ! (p div 64)) (p mod 64) \<or> p div 64 = q div 64 \<and> p mod 64 = q mod 64"
  by (cases "p div 64 = q div 64") (auto simp: bloom_set_def bit_or_iff bit_exp_iff)

lemma bloom_test_set:
  assumes "q div 64 < length bits"
  shows "bloom_test (bloom_set bits q) p \<longleftrightarrow> p = q \<or> bloom_test bits p"
proof -
  have "p = q \<longleftrightarrow> p div 64 = q div 64 \<and> p mod 64 = q mod 64"
    by (metis div_mult_mod_eq)
  then show ?thesis using bloom_set_nth [OF assms, of p] by (auto simp: bloom_test_bit)
qed

lemma bloom_ok_set [simp]: "bloom_ok b \<Longrightarrow> bloom_ok (b\<lparr>bl_bits := bloom_set (bl_bits b) p\<rparr>)"
  by (simp add: bloom_ok_def bloom_set_def)

lemma bloom_fill_frame [simp]:
  "bl_m (bloom_fill b h i n) = bl_m b" "bl_k (bloom_fill b h i n) = bl_k b"
  "bloom_ok b \<Longrightarrow> bloom_ok (bloom_fill b h i n)"
  by (induction n arbitrary: b i) simp_all

lemma bloom_fill_test:
  "bloom_ok b \<Longrightarrow>
   bloom_test (bl_bits (bloom_fill b h i n)) p \<longleftrightarrow>
     (\<exists>j. i \<le> j \<and> j < i + n \<and> p = bloom_pos (bl_m b) h j) \<or> bloom_test (bl_bits b) p"
proof (induction n arbitrary: b i)
  case (Suc n)
  let ?b = "b\<lparr>bl_bits := bloom_set (bl_bits b) (bloom_pos (bl_m b) h i)\<rparr>"
  have ok: "bloom_ok ?b" using Suc.prems by (simp add: bloom_ok_def bloom_set_def)
  have "bloom_test (bl_bits ?b) p \<longleftrightarrow> p = bloom_pos (bl_m b) h i \<or> bloom_test (bl_bits b) p"
    using bloom_test_set [OF bloom_index_in_range [OF Suc.prems]] by simp
  moreover have "(\<exists>j. i \<le> j \<and> j < i + Suc n \<and> p = bloom_pos (bl_m b) h j) \<longleftrightarrow>
      p = bloom_pos (bl_m b) h i \<or> (\<exists>j. Suc i \<le> j \<and> j < Suc i + n \<and> p = bloom_pos (bl_m b) h j)"
    by (metis Suc_leD Suc_leI add_Suc_right add_Suc le_eq_less_or_eq less_add_Suc1 le_refl)
  ultimately show ?case using Suc.IH [OF ok, of "Suc i"] by auto
qed auto

lemma bloom_scan_iff:
  "bloom_scan b h i n \<longleftrightarrow> (\<forall>j. i \<le> j \<and> j < i + n \<longrightarrow> bloom_test (bl_bits b) (bloom_pos (bl_m b) h j))"
proof (induction n arbitrary: i)
  case (Suc n)
  have "(\<forall>j. i \<le> j \<and> j < i + Suc n \<longrightarrow> P j) \<longleftrightarrow> P i \<and> (\<forall>j. Suc i \<le> j \<and> j < Suc i + n \<longrightarrow> P j)" for P
    by (metis Suc_leD Suc_leI add_Suc_right add_Suc le_eq_less_or_eq less_add_Suc1 le_refl)
  with Suc show ?case by simp
qed auto

text \<open>No false negatives: the Bloom filter meets the contract, whatever the hashes.\<close>

interpretation bloomset: dedup_set "bloom_Contains hash1 hash2" "bloom_Add hash1 hash2" bloom_ok
  for hash1 hash2 :: seeded_hash
proof
  fix b :: bloom and k j :: string
  assume ok: "bloom_ok b"
  show "bloom_ok (fst (bloom_Contains hash1 hash2 b k))"
    using ok by (simp add: bloom_Contains_def)
  show "bloom_ok (bloom_Add hash1 hash2 b k)"
    using ok by (simp add: bloom_Add_def)
  show "snd (bloom_Contains hash1 hash2 (bloom_Add hash1 hash2 b k) k)"
    using ok by (auto simp: bloom_Contains_def bloom_Add_def bloom_scan_iff bloom_fill_test)
  show "snd (bloom_Contains hash1 hash2 (bloom_Add hash1 hash2 b k) j)"
    if "snd (bloom_Contains hash1 hash2 b j)"
    using ok that by (auto simp: bloom_Contains_def bloom_Add_def bloom_scan_iff bloom_fill_test)
  show "snd (bloom_Contains hash1 hash2 (fst (bloom_Contains hash1 hash2 b k)) j) =
      snd (bloom_Contains hash1 hash2 b j)"
    by (simp add: bloom_Contains_def)
qed

text \<open>
  \<^verbatim>\<open>optimalBloomParams\<close> with its floating-point arithmetic abstracted to the two rounded
  values it computes, and \<^verbatim>\<open>BloomDedupSet\<close>: \<^verbatim>\<open>None\<close> is its panic on bad parameters.
\<close>

definition optimalBloomParams :: "64 word \<Rightarrow> nat \<Rightarrow> 64 word \<times> nat" where
  "optimalBloomParams ceil_m round_k =
     (if ceil_m = 0 then 1 else ceil_m, if round_k < 1 then 1 else round_k)"

definition BloomDedupSet :: "int \<Rightarrow> bool \<Rightarrow> 64 word \<Rightarrow> nat \<Rightarrow> bloom option" where
  "BloomDedupSet expectedItems rate_in_range ceil_m round_k =
     (if expectedItems \<le> 0 \<or> \<not> rate_in_range then None
      else case optimalBloomParams ceil_m round_k of (m, k) \<Rightarrow> Some (new_bloom m k))"

lemma new_bloom_ok:
  assumes "m \<noteq> 0" and "unat m + 63 < 2 ^ 64"
  shows "bloom_ok (new_bloom m k)"
proof -
  have "unat (m + 63) = unat m + 63"
    using assms(2) by (simp add: unat_word_ariths)
  then have "unat ((m + 63) div 64) = (unat m + 63) div 64"
    by (simp add: unat_div)
  moreover have "unat m \<le> 64 * ((unat m + 63) div 64)" by presburger
  ultimately show ?thesis using assms(1) by (simp add: bloom_ok_def new_bloom_def)
qed

lemma BloomDedupSet_ok:
  assumes "BloomDedupSet n r ceil_m round_k = Some b" and "unat ceil_m + 63 < 2 ^ 64"
  shows "bloom_ok b \<and> bl_k b \<ge> 1"
  using assms new_bloom_ok [of "if ceil_m = 0 then 1 else ceil_m"]
  by (auto simp: BloomDedupSet_def optimalBloomParams_def new_bloom_def split: if_splits)

section \<open>Properties of the key sets\<close>

lemma ttl_adds:
  assumes "ttl_inv t0 s0" and "ts_entries s0 = Map.empty" and "sorted (t0 # map fst adds)"
    and "\<forall>(t, k) \<in> set adds. t \<le> now" "t0 \<le> now"
  shows "\<exists>t. t \<le> now \<and> ttl_inv t (fold (\<lambda>(t, k) s. ttl_Add t s k) adds s0) \<and>
      ts_ttl (fold (\<lambda>(t, k) s. ttl_Add t s k) adds s0) = ts_ttl s0 \<and> t = last (t0 # map fst adds) \<and>
      (\<forall>k. (\<exists>e. ts_entries (fold (\<lambda>(t, k) s. ttl_Add t s k) adds s0) k = Some e \<and> now < e) \<longleftrightarrow>
           (\<exists>t. (t, k) \<in> set adds \<and> now < t + ts_ttl s0))"
  using assms(3,4)
proof (induction adds rule: rev_induct)
  case Nil
  then show ?case using assms(1,2,5) by auto
next
  case (snoc a adds)
  obtain u j where a: "a = (u, j)" by (cases a)
  let ?s = "fold (\<lambda>(t, k) s. ttl_Add t s k) adds s0"
  from snoc.prems have "sorted (t0 # map fst adds)" by (simp add: sorted_append)
  with snoc obtain t where t: "ttl_inv t ?s" "ts_ttl ?s = ts_ttl s0" "t = last (t0 # map fst adds)"
    "\<And>k. (\<exists>e. ts_entries ?s k = Some e \<and> now < e) \<longleftrightarrow> (\<exists>t. (t, k) \<in> set adds \<and> now < t + ts_ttl s0)"
    by auto
  have below: "\<forall>x \<in> set (t0 # map fst adds). x \<le> u" using snoc.prems(1) a by (auto simp: sorted_append)
  with t(3) have tu: "t \<le> u" using last_in_set [of "t0 # map fst adds"] by blast
  have "(\<exists>e. ts_entries (ttl_Add u ?s j) k = Some e \<and> now < e) \<longleftrightarrow>
        (\<exists>t. (t, k) \<in> set (adds @ [a]) \<and> now < t + ts_ttl s0)" for k
  proof (cases "k = j")
    case True
    with below show ?thesis by (force simp: a ttl_entries_Add [OF t(1) tu] t(2))
  next
    case False
    have "u \<le> now" using snoc.prems(2) a by auto
    then have "(\<exists>e. ts_entries (ttl_Add u ?s j) k = Some e \<and> now < e) \<longleftrightarrow>
               (\<exists>e. ts_entries ?s k = Some e \<and> now < e)"
      using False by (auto simp: ttl_entries_Add [OF t(1) tu] split: option.splits if_splits)
    also note t(4) [of k]
    finally show ?thesis using False by (simp add: a)
  qed
  moreover have "u \<le> now" using snoc.prems(2) a by auto
  ultimately show ?case using tu
    using ttl_Add_inv [OF t(1) tu, of j] ttl_ttl_Add [OF t(1) tu, of j] t(2)
    by (intro exI [of _ u]) (simp add: a)
qed

text \<open>
  A TTL set to which keys were added at non-decreasing times contains a key at a later time
  exactly when some addition of it is younger than the time to live.
\<close>

theorem ttl_set_membership:
  assumes "TTLDedupSet ttl = Some s" and "sorted (map fst adds)" and "\<forall>(t, k) \<in> set adds. t \<le> now"
  shows "snd (ttl_Contains now (fold (\<lambda>(t, k) s. ttl_Add t s k) adds s) k) \<longleftrightarrow>
           (\<exists>t. (t, k) \<in> set adds \<and> now < t + ttl)"
proof -
  let ?t0 = "case adds of [] \<Rightarrow> now | a # _ \<Rightarrow> fst a"
  have s: "ts_entries s = Map.empty" "ts_ttl s = ttl"
    using assms(1) by (auto simp: TTLDedupSet_def split: if_splits)
  have "sorted (?t0 # map fst adds)" and "?t0 \<le> now"
    using assms(2,3) by (cases adds; fastforce)+
  from ttl_adds [OF TTLDedupSet_inv [OF assms(1)] s(1) this(1) assms(3) this(2)] s(2) show ?thesis
    by (auto simp: ttl_Contains_value)
qed

theorem ttl_set_membership_witness:
  "\<exists>s. TTLDedupSet 10 = Some s \<and> \<not> snd (ttl_Contains 12 (fold (\<lambda>(t, k) s. ttl_Add t s k) [(1, ''a''), (4, ''b'')] s) ''a'')"
  using ttl_set_membership [of 10 "\<lparr>ts_ttl = 10, ts_entries = Map.empty, ts_queue = [], ts_head = 0\<rparr>"
      "[(1, ''a''), (4, ''b'')]" 12 "''a''"]
  by (intro exI [of _ "\<lparr>ts_ttl = 10, ts_entries = Map.empty, ts_queue = [], ts_head = 0\<rparr>"])
    (simp add: TTLDedupSet_def)

lemma bloom_fold_contains:
  assumes "bloom_ok b"
  shows "bloom_ok (foldl (bloom_Add h1 h2) b keys) \<and>
         (\<forall>k. k \<in> set keys \<or> snd (bloom_Contains h1 h2 b k) \<longrightarrow>
              snd (bloom_Contains h1 h2 (foldl (bloom_Add h1 h2) b keys) k))"
  using assms
proof (induction keys arbitrary: b)
  case (Cons x keys)
  have "bloom_ok (bloom_Add h1 h2 b x)" using Cons.prems by (rule bloomset.ok_add)
  from Cons.IH [OF this] show ?case
    using bloomset.contains_add [OF Cons.prems, of h1 h2 x]
      bloomset.contains_add_mono [OF Cons.prems, of h1 h2 _ x] by auto
qed simp

text \<open>
  C33: A Bloom filter never forgets: after any additions every added key is reported as contained,
  whatever the two hash functions are, and every bit position computed for any key lies inside the
  bit array, so no index is out of range.
\<close>

theorem bloom_never_forgets:
  assumes "BloomDedupSet expected rate_ok ceil_m round_k = Some b" and "unat ceil_m + 63 < 2 ^ 64"
  shows "(\<forall>k \<in> set keys. snd (bloom_Contains h1 h2 (foldl (bloom_Add h1 h2) b keys) k)) \<and>
         (\<forall>h i. bloom_pos (bl_m (foldl (bloom_Add h1 h2) b keys)) h i div 64 <
                length (bl_bits (foldl (bloom_Add h1 h2) b keys)))"
  using bloom_fold_contains [OF conjunct1 [OF BloomDedupSet_ok [OF assms]], of h1 h2 keys]
  by (auto intro: bloom_index_in_range)

theorem bloom_never_forgets_witness:
  "\<exists>b. BloomDedupSet 1 True 10 7 = Some b \<and>
       snd (bloom_Contains (\<lambda>_. 5) (\<lambda>_. 8) (foldl (bloom_Add (\<lambda>_. 5) (\<lambda>_. 8)) b [''k'', ''j'']) ''k'')"
  using bloom_never_forgets [of 1 True 10 7 "new_bloom 10 7" "[''k'', ''j'']" "\<lambda>_. 5" "\<lambda>_. 8"]
  by (intro exI [of _ "new_bloom 10 7"]) (simp add: BloomDedupSet_def optimalBloomParams_def)

end
