(* ===== verification/Breaker.thy ===== *)
theory Breaker
  imports Prelude
begin

text \<open>
  The circuit breaker of \<^verbatim>\<open>middleware.go\<close>. \<^verbatim>\<open>allow\<close>, \<^verbatim>\<open>recordSuccess\<close> and
  \<^verbatim>\<open>recordFailure\<close> each hold the mutex for their whole body, so they are the atomic steps;
  with a concurrent stage the calls of different items interleave in any order, which is
  the step function \<^verbatim>\<open>cb_step\<close> over a list of operations. A serial stage runs
  \<^verbatim>\<open>cb_call\<close>, the wrapped function, item after item. Zero times are 0: the code reads
  \<^verbatim>\<open>openUntil\<close> and \<^verbatim>\<open>halfOpenDeadline\<close> only after setting them.
\<close>

section \<open>Configuration\<close>

record cb_config =
  failureThreshold :: int
  cooldown :: duration
  halfOpenProbes :: int
  halfOpenTimeout :: duration

datatype cb_opt =
    FailureThreshold int
  | CooldownDuration duration
  | HalfOpenProbes int
  | HalfOpenTimeout duration

fun apply_cb_opt :: "cb_opt \<Rightarrow> cb_config \<Rightarrow> cb_config" where
  "apply_cb_opt (FailureThreshold n) c = (if n > 0 then c\<lparr>failureThreshold := n\<rparr> else c)"
| "apply_cb_opt (CooldownDuration d) c = (if d > 0 then c\<lparr>cooldown := d\<rparr> else c)"
| "apply_cb_opt (HalfOpenProbes n) c = (if n > 0 then c\<lparr>halfOpenProbes := n\<rparr> else c)"
| "apply_cb_opt (HalfOpenTimeout d) c = (if d > 0 then c\<lparr>halfOpenTimeout := d\<rparr> else c)"

definition cb_default :: cb_config where
  "cb_default = \<lparr>failureThreshold = 5, cooldown = 10 * 1000000000, halfOpenProbes = 1,
     halfOpenTimeout = 0\<rparr>"

definition cb_configure :: "cb_opt list \<Rightarrow> cb_config" where
  "cb_configure opts = fold apply_cb_opt opts cb_default"

definition cb_config_ok :: "cb_config \<Rightarrow> bool" where
  "cb_config_ok c \<longleftrightarrow> failureThreshold c > 0 \<and> cooldown c > 0 \<and> halfOpenProbes c > 0 \<and>
     halfOpenTimeout c \<ge> 0"

lemma apply_cb_opt_ok: "cb_config_ok c \<Longrightarrow> cb_config_ok (apply_cb_opt opt c)"
  by (cases opt) (auto simp: cb_config_ok_def)

lemma cb_configure_ok: "cb_config_ok (cb_configure opts)"
proof -
  have "cb_config_ok c \<Longrightarrow> cb_config_ok (fold apply_cb_opt opts c)" for c
    by (induction opts arbitrary: c) (auto intro: apply_cb_opt_ok)
  then show ?thesis by (simp add: cb_configure_def cb_default_def cb_config_ok_def)
qed

section \<open>The state machine\<close>

datatype cb_state = CbClosed | CbOpen | CbHalfOpen

record breaker =
  cb_st :: cb_state
  failures :: int
  successesNeeded :: int
  openUntil :: time
  halfOpenDeadline :: time
  cb_cfg :: cb_config

definition new_breaker :: "cb_config \<Rightarrow> breaker" where
  "new_breaker cfg = \<lparr>cb_st = CbClosed, failures = 0, successesNeeded = 0, openUntil = 0,
     halfOpenDeadline = 0, cb_cfg = cfg\<rparr>"

text \<open>\<^verbatim>\<open>allow\<close>: the new state, \<^verbatim>\<open>allowed\<close> and \<^verbatim>\<open>open\<close>.\<close>

definition allow :: "time \<Rightarrow> breaker \<Rightarrow> breaker \<times> bool \<times> bool" where
  "allow now cb =
     (case cb_st cb of
        CbClosed \<Rightarrow> (cb, True, False)
      | CbOpen \<Rightarrow>
          if now < openUntil cb then (cb, False, True)
          else
            let cb = cb\<lparr>cb_st := CbHalfOpen, successesNeeded := halfOpenProbes (cb_cfg cb)\<rparr>;
                cb = (if halfOpenTimeout (cb_cfg cb) > 0
                      then cb\<lparr>halfOpenDeadline := now + halfOpenTimeout (cb_cfg cb)\<rparr> else cb)
            in (cb, True, False)
      | CbHalfOpen \<Rightarrow>
          if halfOpenTimeout (cb_cfg cb) > 0 \<and> now > halfOpenDeadline cb
          then (cb\<lparr>cb_st := CbOpen, openUntil := now + cooldown (cb_cfg cb), failures := 0,
                  halfOpenDeadline := 0\<rparr>, False, True)
          else (cb, True, False))"

definition recordSuccess :: "breaker \<Rightarrow> breaker" where
  "recordSuccess cb =
     (if cb_st cb = CbHalfOpen then
        let cb = cb\<lparr>successesNeeded := successesNeeded cb - 1\<rparr> in
        if successesNeeded cb \<le> 0
        then cb\<lparr>cb_st := CbClosed, failures := 0, halfOpenDeadline := 0\<rparr> else cb
      else cb\<lparr>failures := 0\<rparr>)"

definition recordFailure :: "time \<Rightarrow> breaker \<Rightarrow> breaker" where
  "recordFailure now cb =
     (let cb = cb\<lparr>failures := failures cb + 1\<rparr> in
      if cb_st cb = CbHalfOpen \<or> failures cb \<ge> failureThreshold (cb_cfg cb)
      then cb\<lparr>cb_st := CbOpen, openUntil := now + cooldown (cb_cfg cb), failures := 0\<rparr>
      else cb)"

text \<open>
  The function \<^verbatim>\<open>CircuitBreaker\<close> wraps around \<^verbatim>\<open>fn\<close>: the clock is read before the call and
  again after a failure. The third component says whether \<^verbatim>\<open>fn\<close> was called.
\<close>

definition cb_call :: "time \<Rightarrow> time \<Rightarrow> 'o result \<Rightarrow> breaker \<Rightarrow> breaker \<times> 'o result \<times> bool" where
  "cb_call now1 now2 answer cb =
     (case allow now1 cb of
        (cb, allowed, open_) \<Rightarrow>
          if open_ \<or> \<not> allowed then (cb, Inl ErrCircuitOpen, False)
          else (case answer of
                  Inl err \<Rightarrow> (recordFailure now2 cb, Inl err, True)
                | Inr out \<Rightarrow> (recordSuccess cb, Inr out, True)))"

text \<open>Interleaved use: any sequence of the atomic operations.\<close>

datatype cb_op = OpAllow time | OpSuccess | OpFailure time

fun cb_step :: "cb_op \<Rightarrow> breaker \<Rightarrow> breaker" where
  "cb_step (OpAllow now) cb = fst (allow now cb)"
| "cb_step OpSuccess cb = recordSuccess cb"
| "cb_step (OpFailure now) cb = recordFailure now cb"

definition cb_run :: "cb_op list \<Rightarrow> breaker \<Rightarrow> breaker" where
  "cb_run = fold cb_step"

lemmas cb_defs = allow_def recordSuccess_def recordFailure_def Let_def

section \<open>Invariant\<close>

definition cb_inv :: "breaker \<Rightarrow> bool" where
  "cb_inv cb \<longleftrightarrow> cb_config_ok (cb_cfg cb)
     \<and> 0 \<le> failures cb \<and> failures cb < failureThreshold (cb_cfg cb)
     \<and> (cb_st cb = CbHalfOpen \<longrightarrow>
          0 < successesNeeded cb \<and> successesNeeded cb \<le> halfOpenProbes (cb_cfg cb))"

lemma new_breaker_inv: "cb_config_ok cfg \<Longrightarrow> cb_inv (new_breaker cfg)"
  by (auto simp: cb_inv_def new_breaker_def cb_config_ok_def)

lemma cb_step_inv: "cb_inv cb \<Longrightarrow> cb_inv (cb_step op cb)"
  by (cases op; cases "cb_st cb") (auto simp: cb_defs cb_inv_def cb_config_ok_def)

lemma cb_run_inv: "cb_inv cb \<Longrightarrow> cb_inv (cb_run ops cb)"
  by (induction ops arbitrary: cb) (auto simp: cb_run_def cb_step_inv)

lemma cb_step_cfg [simp]: "cb_cfg (cb_step op cb) = cb_cfg cb"
  by (cases op; cases "cb_st cb") (auto simp: cb_defs)

text \<open>Which transitions exist: the breaker closes only from half-open.\<close>

lemma cb_step_transition:
  assumes "cb_inv cb"
  shows "(cb_st cb, cb_st (cb_step op cb)) \<in>
           {(CbClosed, CbClosed), (CbClosed, CbOpen), (CbOpen, CbOpen), (CbOpen, CbHalfOpen),
            (CbHalfOpen, CbHalfOpen), (CbHalfOpen, CbOpen), (CbHalfOpen, CbClosed)}"
  using assms by (cases op; cases "cb_st cb") (auto simp: cb_defs)

section \<open>Serial runs\<close>

text \<open>A run over items: the two clock readings and the answer \<^verbatim>\<open>fn\<close> would give.\<close>

fun cb_calls :: "(time \<times> time \<times> 'o result) list \<Rightarrow> breaker \<Rightarrow> breaker \<times> ('o result \<times> bool) list" where
  "cb_calls [] cb = (cb, [])"
| "cb_calls ((now1, now2, answer) # calls) cb =
     (case cb_call now1 now2 answer cb of
        (cb', r, called) \<Rightarrow>
          (case cb_calls calls cb' of (cb'', rs) \<Rightarrow> (cb'', (r, called) # rs)))"

lemma fst_cb_calls_Cons:
  "fst (cb_calls ((n1, n2, r) # calls) cb) = fst (cb_calls calls (fst (cb_call n1 n2 r cb)))"
  by (simp split: prod.splits)

definition all_fail :: "(time \<times> time \<times> 'o result) list \<Rightarrow> bool" where
  "all_fail calls \<longleftrightarrow> (\<forall>(_, _, r) \<in> set calls. \<exists>e. r = Inl e)"

lemma cb_calls_closed_failures:
  assumes "cb_st cb = CbClosed" and "all_fail calls"
    and "failures cb + int (length calls) < failureThreshold (cb_cfg cb)"
  shows "fst (cb_calls calls cb) = cb\<lparr>failures := failures cb + int (length calls)\<rparr>"
  using assms
proof (induction calls arbitrary: cb)
  case (Cons c calls)
  obtain n1 n2 e where c: "c = (n1, n2, Inl e)" using Cons.prems(2) by (cases c) (auto simp: all_fail_def)
  have step: "cb_call n1 n2 (Inl e) cb = (cb\<lparr>failures := failures cb + 1\<rparr>, Inl e, True)"
    using Cons.prems by (simp add: cb_call_def cb_defs)
  have "fst (cb_calls calls (cb\<lparr>failures := failures cb + 1\<rparr>)) =
      cb\<lparr>failures := failures cb + 1 + int (length calls)\<rparr>"
    using Cons.IH [of "cb\<lparr>failures := failures cb + 1\<rparr>"] Cons.prems by (simp add: all_fail_def)
  then show ?case unfolding c fst_cb_calls_Cons step by simp
qed simp

lemma cb_calls_append:
  "fst (cb_calls (xs @ ys) cb) = fst (cb_calls ys (fst (cb_calls xs cb)))"
  by (induction xs arbitrary: cb) (auto simp: fst_cb_calls_Cons simp del: cb_calls.simps(2))

text \<open>While the breaker is open and the cooldown runs, nothing happens but rejections.\<close>

lemma cb_calls_open:
  assumes "cb_st cb = CbOpen" and "\<forall>(now1, _, _) \<in> set calls. now1 < openUntil cb"
  shows "cb_calls calls cb = (cb, map (\<lambda>_. (Inl ErrCircuitOpen, False)) calls)"
  using assms by (induction calls) (auto simp: cb_call_def allow_def)

lemma cb_half_open_successes:
  assumes "cb_st cb = CbHalfOpen" and "halfOpenTimeout (cb_cfg cb) = 0"
    and "\<forall>(_, _, r) \<in> set calls. \<exists>v. r = Inr v" and "int (length calls) = successesNeeded cb"
    and "calls \<noteq> []"
  shows "cb_st (fst (cb_calls calls cb)) = CbClosed \<and> failures (fst (cb_calls calls cb)) = 0"
  using assms
proof (induction calls arbitrary: cb)
  case (Cons c calls)
  obtain n1 n2 v where c: "c = (n1, n2, Inr v)" using Cons.prems(3) by (cases c) auto
  show ?case
  proof (cases "calls = []")
    case True
    with Cons.prems c show ?thesis by (simp add: cb_call_def cb_defs)
  next
    case False
    let ?cb = "cb\<lparr>successesNeeded := successesNeeded cb - 1\<rparr>"
    have "cb_call n1 n2 (Inr v) cb = (?cb, Inr v, True)"
      using Cons.prems False by (cases calls) (auto simp: cb_call_def cb_defs)
    moreover have "cb_st (fst (cb_calls calls ?cb)) = CbClosed \<and> failures (fst (cb_calls calls ?cb)) = 0"
      using Cons.prems False by (intro Cons.IH) auto
    ultimately show ?thesis unfolding c fst_cb_calls_Cons by simp
  qed
qed simp

section \<open>Properties of the circuit breaker\<close>

text \<open>
  A new breaker stays closed while fewer calls than the threshold have failed in a row; the
  failure that reaches the threshold opens it, and every later call before the end of the cooldown
  is rejected with \<^verbatim>\<open>ErrCircuitOpen\<close> without calling the function.
\<close>

theorem breaker_opens_at_threshold:
  assumes "cb_config_ok cfg" and "int (length calls) + 1 = failureThreshold cfg" and "all_fail calls"
    and "\<forall>(now1, _, _) \<in> set rest. now1 < t + cooldown cfg"
  shows "cb_st (fst (cb_calls calls (new_breaker cfg))) = CbClosed \<and>
         (let cb = fst (cb_calls (calls @ [(t', t, Inl er)]) (new_breaker cfg))
          in cb_st cb = CbOpen \<and> cb_calls rest cb = (cb, map (\<lambda>_. (Inl ErrCircuitOpen, False)) rest))"
proof -
  have closed: "fst (cb_calls calls (new_breaker cfg)) = (new_breaker cfg)\<lparr>failures := int (length calls)\<rparr>"
    using cb_calls_closed_failures [of "new_breaker cfg" calls] assms(2,3) by (simp add: new_breaker_def)
  let ?cb = "fst (cb_calls (calls @ [(t', t, Inl er)]) (new_breaker cfg))"
  have opened: "?cb = (new_breaker cfg)\<lparr>cb_st := CbOpen, openUntil := t + cooldown cfg, failures := 0\<rparr>"
    using closed assms(2)
    by (simp add: cb_calls_append fst_cb_calls_Cons cb_call_def allow_def recordFailure_def Let_def new_breaker_def)
  moreover have "\<forall>(now1, _, _) \<in> set rest. now1 < openUntil ?cb"
    using assms(4) by (simp add: opened)
  ultimately show ?thesis using closed cb_calls_open [of ?cb rest] by (simp add: new_breaker_def)
qed

theorem breaker_opens_at_threshold_witness:
  "cb_st (fst (cb_calls [(0, 1, Inl Canceled), (2, 3, Inl Canceled :: nat result)] (new_breaker (cb_configure [FailureThreshold 2])))) = CbOpen"
  using breaker_opens_at_threshold [of "cb_configure [FailureThreshold 2]" "[(0, 1, Inl Canceled :: nat result)]" "[]" 3 2 Canceled]
  by (simp add: cb_configure_ok all_fail_def Let_def) (simp add: cb_configure_def cb_default_def)

text \<open>
  C15: Whatever the options and however calls, successes and failures interleave, the failure
  counter stays below the threshold, a half-open breaker still waits for between one and the
  configured number of successes, and the only transitions are closed to open, open to half-open
  and half-open to open or closed.
\<close>

theorem breaker_state_machine:
  "cb_inv (cb_run ops (new_breaker (cb_configure opts))) \<and>
   (cb_st (cb_run ops (new_breaker (cb_configure opts))),
    cb_st (cb_step op (cb_run ops (new_breaker (cb_configure opts))))) \<in>
     {(CbClosed, CbClosed), (CbClosed, CbOpen), (CbOpen, CbOpen), (CbOpen, CbHalfOpen),
      (CbHalfOpen, CbHalfOpen), (CbHalfOpen, CbOpen), (CbHalfOpen, CbClosed)}"
  using cb_run_inv [OF new_breaker_inv [OF cb_configure_ok]] cb_step_transition by blast

definition admissions :: "time list \<Rightarrow> breaker \<Rightarrow> bool list" where
  "admissions callers cb =
     snd (fold (\<lambda>now (cb, bs). case allow now cb of (cb', ok, open_) \<Rightarrow> (cb', bs @ [ok \<and> \<not> open_]))
            callers (cb, []))"

lemma admissions_half_open:
  assumes "cb_st cb = CbHalfOpen" and "halfOpenTimeout (cb_cfg cb) = 0"
  shows "fold (\<lambda>now (cb, bs). case allow now cb of (cb', ok, open_) \<Rightarrow> (cb', bs @ [ok \<and> \<not> open_])) callers (cb, bs) =
         (cb, bs @ replicate (length callers) True)"
  using assms by (induction callers arbitrary: bs) (simp_all add: allow_def)

text \<open>
  A half-open breaker does not limit the calls in flight: once the cooldown is over, any number
  of callers that ask before the first of them has finished is admitted, although
  \<^verbatim>\<open>HalfOpenProbes\<close> is one.
\<close>

theorem half_open_admits_all:
  assumes "cb_st cb = CbOpen" and "halfOpenTimeout (cb_cfg cb) = 0" and "openUntil cb \<le> now"
  shows "admissions (now # callers) cb = replicate (Suc (length callers)) True"
proof -
  have "allow now cb = (cb\<lparr>cb_st := CbHalfOpen, successesNeeded := halfOpenProbes (cb_cfg cb)\<rparr>, True, False)"
    using assms by (simp add: allow_def Let_def)
  with assms(2) show ?thesis by (simp add: admissions_def admissions_half_open)
qed

theorem half_open_admits_all_witness:
  "admissions [100, 100, 100, 100]
     ((new_breaker (cb_configure [HalfOpenProbes 1]))\<lparr>cb_st := CbOpen, openUntil := 90\<rparr>) = [True, True, True, True]"
  using half_open_admits_all [of "(new_breaker (cb_configure [HalfOpenProbes 1]))\<lparr>cb_st := CbOpen, openUntil := 90\<rparr>" 100 "[100, 100, 100]"]
  by (simp add: new_breaker_def cb_configure_def cb_default_def)

end
