(* ===== verification/Retry_Pipeline.thy ===== *)
theory Retry_Pipeline
  imports Prelude
begin

text \<open>
  \<^verbatim>\<open>Retry\<close> of \<^verbatim>\<open>operator_retry.go\<close>: re-running a whole upstream pipeline. One run of the
  upstream is an oracle: \<^verbatim>\<open>runs i\<close> holds the items of run \<^verbatim>\<open>i\<close> that downstream accepted,
  whether downstream stopped, and the error of the run. \<^verbatim>\<open>before i\<close> and \<^verbatim>\<open>after i\<close> are the
  outer context's error at the loop head and after run \<^verbatim>\<open>i\<close>; \<^verbatim>\<open>cut i\<close> the context's error
  when the wait after run \<^verbatim>\<open>i\<close> was cut short. One unit of fuel is one run.
\<close>

record retry_strategy =
  MaxAttempts :: int
  RetryBackoff :: "(nat \<Rightarrow> duration) option"
  Retryable :: "(go_error \<Rightarrow> bool) option"
  OnRetry :: bool

text \<open>The Go zero value, and the constructors.\<close>

definition zero_strategy :: retry_strategy where
  "zero_strategy = \<lparr>MaxAttempts = 0, RetryBackoff = None, Retryable = None, OnRetry = False\<rparr>"

definition RetryUpTo :: "int \<Rightarrow> (nat \<Rightarrow> duration) option \<Rightarrow> retry_strategy" where
  "RetryUpTo n b = zero_strategy\<lparr>MaxAttempts := n, RetryBackoff := b\<rparr>"

definition RetryForever :: "(nat \<Rightarrow> duration) option \<Rightarrow> retry_strategy" where
  "RetryForever b = zero_strategy\<lparr>MaxAttempts := -1, RetryBackoff := b\<rparr>"

definition WithRetryable :: "(go_error \<Rightarrow> bool) \<Rightarrow> retry_strategy \<Rightarrow> retry_strategy" where
  "WithRetryable fn pol = pol\<lparr>Retryable := Some fn\<rparr>"

definition WithOnRetry :: "retry_strategy \<Rightarrow> retry_strategy" where
  "WithOnRetry pol = pol\<lparr>OnRetry := True\<rparr>"

record 'a attempt =
  at_items :: "'a list"
  at_stopped :: bool
  at_err :: "go_error option"

record retry_env =
  env_before :: "nat \<Rightarrow> go_error option"
  env_after :: "nat \<Rightarrow> go_error option"
  env_cut :: "nat \<Rightarrow> go_error option"

text \<open>
  The loop, with \<^verbatim>\<open>retries\<close> retries done so far: the items sent downstream, the calls of
  \<^verbatim>\<open>OnRetry\<close> (attempt, error, wait) and the returned error.
\<close>

fun retry_loop ::
  "nat \<Rightarrow> retry_strategy \<Rightarrow> retry_env \<Rightarrow> (nat \<Rightarrow> 'a attempt) \<Rightarrow> nat \<Rightarrow>
   ('a list \<times> (nat \<times> go_error \<times> duration) list \<times> go_error option) option" where
  "retry_loop 0 pol env runs retries = None"
| "retry_loop (Suc fuel) pol env runs retries =
     (if env_before env retries \<noteq> None then Some ([], [], env_before env retries)
      else
        let run = runs retries; out = at_items run in
        if at_stopped run then Some (out, [], None)
        else if env_after env retries \<noteq> None then Some (out, [], env_after env retries)
        else
          (case at_err run of
             None \<Rightarrow> Some (out, [], None)
           | Some runErr \<Rightarrow>
               if \<not> (case Retryable pol of Some p \<Rightarrow> p runErr | None \<Rightarrow> True)
               then Some (out, [], Some runErr)
               else if MaxAttempts pol > 0 \<and> int retries + 1 \<ge> MaxAttempts pol
               then Some (out, [], Some runErr)
               else
                 let wait = (case RetryBackoff pol of Some b \<Rightarrow> b retries | None \<Rightarrow> 0);
                     note = (if OnRetry pol then [(retries, runErr, wait)] else [])
                 in if wait > 0 \<and> env_cut env retries \<noteq> None
                    then Some (out, note, env_cut env retries)
                    else map_option (\<lambda>(xs, ns, e). (out @ xs, note @ ns, e))
                           (retry_loop fuel pol env runs (Suc retries))))"

definition Retry ::
  "nat \<Rightarrow> retry_strategy \<Rightarrow> retry_env \<Rightarrow> (nat \<Rightarrow> 'a attempt) \<Rightarrow>
   ('a list \<times> (nat \<times> go_error \<times> duration) list \<times> go_error option) option" where
  "Retry fuel pol env runs = retry_loop fuel pol env runs 0"

lemma retry_loop_total:
  assumes "MaxAttempts pol > 0" and "nat (MaxAttempts pol) - k \<le> fuel" and "int k < MaxAttempts pol"
  shows "retry_loop fuel pol env runs k \<noteq> None"
  using assms
proof (induction fuel arbitrary: k)
  case (Suc fuel)
  show ?case
  proof (cases "int k + 1 \<ge> MaxAttempts pol")
    case True
    with Suc.prems show ?thesis by (auto simp: Let_def split: option.splits)
  next
    case False
    then have "retry_loop fuel pol env runs (Suc k) \<noteq> None"
      using Suc.prems by (intro Suc.IH) auto
    then show ?thesis by (auto simp: Let_def split: option.splits)
  qed
next
  case 0
  then show ?case by linarith
qed

text \<open>
  The output is the concatenation of the runs made, the last run being the one whose fate
  is returned; with a bound there are at most \<^verbatim>\<open>MaxAttempts\<close> of them.
\<close>

lemma retry_loop_output:
  assumes "retry_loop fuel pol env runs k = Some (out, nts, e)"
    and "env_before env = (\<lambda>_. None)" and "MaxAttempts pol > 0 \<longrightarrow> int k < MaxAttempts pol"
  shows "\<exists>n. k < n \<and> n \<le> k + fuel \<and> out = concat (map (\<lambda>i. at_items (runs i)) [k..<n]) \<and>
           (MaxAttempts pol > 0 \<longrightarrow> int n \<le> MaxAttempts pol) \<and>
           (\<forall>i. k \<le> i \<and> i < n - 1 \<longrightarrow> at_err (runs i) \<noteq> None \<and> \<not> at_stopped (runs i))"
  using assms
proof (induction fuel arbitrary: k out nts)
  case (Suc fuel)
  show ?case
  proof (cases "\<exists>xs ns. retry_loop fuel pol env runs (Suc k) = Some (xs, ns, e) \<and>
        out = at_items (runs k) @ xs \<and> at_err (runs k) \<noteq> None \<and> \<not> at_stopped (runs k) \<and>
        (MaxAttempts pol > 0 \<longrightarrow> int (Suc k) < MaxAttempts pol)")
    case True
    then obtain xs ns where go: "retry_loop fuel pol env runs (Suc k) = Some (xs, ns, e)"
      "out = at_items (runs k) @ xs" "at_err (runs k) \<noteq> None" "\<not> at_stopped (runs k)"
      "MaxAttempts pol > 0 \<longrightarrow> int (Suc k) < MaxAttempts pol" by auto
    from Suc.IH [OF go(1) Suc.prems(2) go(5)] obtain n where
      n: "Suc k < n" "n \<le> Suc k + fuel" "xs = concat (map (\<lambda>i. at_items (runs i)) [Suc k..<n])"
        "MaxAttempts pol > 0 \<longrightarrow> int n \<le> MaxAttempts pol"
        "\<forall>i. Suc k \<le> i \<and> i < n - 1 \<longrightarrow> at_err (runs i) \<noteq> None \<and> \<not> at_stopped (runs i)"
      by auto
    have "[k..<n] = k # [Suc k..<n]" using n(1) by (simp add: upt_conv_Cons)
    moreover have "\<forall>i. k \<le> i \<and> i < n - 1 \<longrightarrow> at_err (runs i) \<noteq> None \<and> \<not> at_stopped (runs i)"
      using n(5) go(3,4) by (metis Suc_leI le_eq_less_or_eq)
    ultimately show ?thesis using n go(2) by (intro exI [of _ n]) auto
  next
    case False
    then have "out = at_items (runs k)"
      using Suc.prems by (fastforce simp: Let_def split: if_splits option.splits)
    then show ?thesis using Suc.prems by (intro exI [of _ "Suc k"]) auto
  qed
qed simp

text \<open>Without a bound, an upstream that always fails is retried for ever.\<close>

lemma retry_loop_forever:
  assumes "MaxAttempts pol \<le> 0" and "Retryable pol = None"
    and "\<And>i. env_before env i = None \<and> env_after env i = None \<and> env_cut env i = None"
    and "\<And>i. at_err (runs i) \<noteq> None \<and> \<not> at_stopped (runs i)"
  shows "retry_loop fuel pol env runs k = None"
proof (induction fuel arbitrary: k)
  case (Suc fuel)
  obtain e where "at_err (runs k) = Some e" using assms(4) [of k] by auto
  with Suc assms show ?case by (simp add: Let_def)
qed simp

section \<open>Properties of Retry\<close>

text \<open>
  With a positive \<^verbatim>\<open>MaxAttempts\<close> the retry stage returns after at most that many subscriptions;
  it sends what each of them yielded, one after the other, and every subscription but the last one
  failed.
\<close>

theorem retry_bounded:
  assumes "0 < MaxAttempts pol" and "env_before env = (\<lambda>_. None)"
  shows "\<exists>out nts er n. Retry (nat (MaxAttempts pol)) pol env runs = Some (out, nts, er) \<and>
           0 < n \<and> int n \<le> MaxAttempts pol \<and> out = concat (map (\<lambda>i. at_items (runs i)) [0..<n]) \<and>
           (\<forall>i < n - 1. at_err (runs i) \<noteq> None \<and> \<not> at_stopped (runs i))"
proof -
  from assms(1) have "retry_loop (nat (MaxAttempts pol)) pol env runs 0 \<noteq> None"
    by (intro retry_loop_total) simp_all
  then obtain out ns er where run: "retry_loop (nat (MaxAttempts pol)) pol env runs 0 = Some (out, ns, er)"
    by auto
  from retry_loop_output [OF run assms(2)] assms(1) show ?thesis
    by (auto simp: Retry_def run)
qed

theorem retry_bounded_witness:
  "\<exists>out nts er. Retry 2 (RetryUpTo 2 None) \<lparr>env_before = \<lambda>_. None, env_after = \<lambda>_. None, env_cut = \<lambda>_. None\<rparr>
     (\<lambda>i. \<lparr>at_items = [i], at_stopped = False, at_err = Some ErrDrained\<rparr>) = Some (out, nts, er)"
  using retry_bounded [of "RetryUpTo 2 None" "\<lparr>env_before = \<lambda>_. None, env_after = \<lambda>_. None, env_cut = \<lambda>_. None\<rparr>"
      "\<lambda>i. \<lparr>at_items = [i], at_stopped = False, at_err = Some ErrDrained\<rparr>"]
  by (auto simp: RetryUpTo_def)

text \<open>
  The zero value of \<^verbatim>\<open>RetryStrategy\<close> is no single attempt: like any strategy with
  \<^verbatim>\<open>MaxAttempts\<close> not positive and no \<^verbatim>\<open>Retryable\<close> it subscribes again and again, so a source that
  always fails makes the stage run for ever.
\<close>

theorem zero_strategy_retries_forever:
  assumes "MaxAttempts pol \<le> 0" and "Retryable pol = None"
    and "\<And>i. env_before env i = None \<and> env_after env i = None \<and> env_cut env i = None"
    and "\<And>i. at_err (runs i) \<noteq> None \<and> \<not> at_stopped (runs i)"
  shows "Retry fuel pol env runs = None"
  unfolding Retry_def using assms by (rule retry_loop_forever)

theorem zero_strategy_retries_forever_witness:
  "Retry 1000 zero_strategy \<lparr>env_before = \<lambda>_. None, env_after = \<lambda>_. None, env_cut = \<lambda>_. None\<rparr>
     (\<lambda>i. \<lparr>at_items = [i], at_stopped = False, at_err = Some ErrDrained\<rparr>) = None"
  by (rule zero_strategy_retries_forever) (simp_all add: zero_strategy_def)

end
