(* ===== verification/Run_Context.thy ===== *)
theory Run_Context
  imports Stage_Kernel Supervision Outbox
begin

text \<open>
  Options and the per-run context: \<^verbatim>\<open>config.go\<close> (stage and run options),
  \<^verbatim>\<open>pipeline.go\<close> (\<^verbatim>\<open>stageMeta\<close>, \<^verbatim>\<open>runCtx\<close>, the drain entries),
  \<^verbatim>\<open>internal/gate.go\<close>, \<^verbatim>\<open>fastpath.go\<close> and \<^verbatim>\<open>helpers.go\<close>; and the build phase, in
  which every operator's \<^verbatim>\<open>build\<close> closure recursively materialises its inputs and registers
  its stage, memoised by stage ID.
\<close>

section \<open>Stage options\<close>

text \<open>
  The fields of \<^verbatim>\<open>stageConfig\<close> the modelled code reads. \<^verbatim>\<open>'a\<close> is the element type seen by the
  measure function, \<^verbatim>\<open>'v\<close> the output type of the error handler's substitute. \<^verbatim>\<open>cfg_mapper\<close>
  records whether a context mapper is set, \<^verbatim>\<open>cfg_cache\<close> whether \<^verbatim>\<open>CacheBy\<close> was given.
\<close>

record ('a, 'v) stage_config =
  cfg_name :: string
  cfg_concurrency :: int
  cfg_ordered :: bool
  cfg_buffer :: nat
  cfg_buffer_explicit :: bool
  cfg_overflow :: overflow
  cfg_handler :: "'v handler option"
  cfg_batch_timeout :: duration
  cfg_supervision :: policy
  cfg_cache :: bool
  cfg_timeout :: duration
  cfg_key_ttl :: duration
  cfg_key_ttl_explicit :: bool
  cfg_mapper :: bool
  cfg_max_depth :: int
  cfg_max_depth_explicit :: bool
  cfg_max_items :: int
  cfg_drop_partial :: bool
  cfg_batch_count :: int
  cfg_batch_measure :: "('a \<Rightarrow> int) option"
  cfg_batch_measure_max :: int
  cfg_dedupe_window :: int

datatype ('a, 'v) stage_opt =
    Concurrency int
  | Ordered
  | Buffer int
  | WithName string
  | OnError "'v handler"
  | BatchTimeout duration
  | DropPartial
  | BatchCount int
  | BatchMeasure "'a \<Rightarrow> int" int
  | DedupeWindow nat
  | MaxDepth int
  | MaxItems int
  | WithContextMapper
  | Timeout duration
  | WithKeyTTL duration
  | Overflow overflow
  | SuperviseWith policy
  | CacheBy

fun apply_opt :: "('a, 'v) stage_opt \<Rightarrow> ('a, 'v) stage_config \<Rightarrow> ('a, 'v) stage_config" where
  "apply_opt (Concurrency n) c = (if n > 0 then c\<lparr>cfg_concurrency := n\<rparr> else c)"
| "apply_opt Ordered c = c\<lparr>cfg_ordered := True\<rparr>"
| "apply_opt (Buffer n) c =
     (if n \<ge> 0 then c\<lparr>cfg_buffer := nat n, cfg_buffer_explicit := True\<rparr> else c)"
| "apply_opt (WithName s) c = c\<lparr>cfg_name := s\<rparr>"
| "apply_opt (OnError h) c = c\<lparr>cfg_handler := Some h\<rparr>"
| "apply_opt (BatchTimeout d) c = c\<lparr>cfg_batch_timeout := d\<rparr>"
| "apply_opt DropPartial c = c\<lparr>cfg_drop_partial := True\<rparr>"
| "apply_opt (BatchCount n) c = c\<lparr>cfg_batch_count := n\<rparr>"
| "apply_opt (BatchMeasure f n) c = c\<lparr>cfg_batch_measure := Some f, cfg_batch_measure_max := n\<rparr>"
| "apply_opt (DedupeWindow n) c = c\<lparr>cfg_dedupe_window := int n\<rparr>"
| "apply_opt (MaxDepth n) c =
     (if n \<ge> 0 then c\<lparr>cfg_max_depth := n, cfg_max_depth_explicit := True\<rparr> else c)"
| "apply_opt (MaxItems n) c = (if n > 0 then c\<lparr>cfg_max_items := n\<rparr> else c)"
| "apply_opt WithContextMapper c = c\<lparr>cfg_mapper := True\<rparr>"
| "apply_opt (Timeout d) c = c\<lparr>cfg_timeout := d\<rparr>"
| "apply_opt (WithKeyTTL d) c = c\<lparr>cfg_key_ttl := d, cfg_key_ttl_explicit := True\<rparr>"
| "apply_opt (Overflow s) c = c\<lparr>cfg_overflow := s\<rparr>"
| "apply_opt (SuperviseWith p) c = c\<lparr>cfg_supervision := p\<rparr>"
| "apply_opt CacheBy c = c\<lparr>cfg_cache := True\<rparr>"

text \<open>
  \<^verbatim>\<open>DedupeWindow(n)\<close> panics for a negative \<^verbatim>\<open>n\<close> before there is an option; the other constructors
  always return one.
\<close>

definition mkDedupeWindow :: "int \<Rightarrow> ('a, 'v) stage_opt option" where
  "mkDedupeWindow n = (if n < 0 then None else Some (DedupeWindow (nat n)))"

definition DefaultBuffer :: nat where
  "DefaultBuffer = 16"

definition default_config :: "('a, 'v) stage_config" where
  "default_config =
     \<lparr>cfg_name = [], cfg_concurrency = 1, cfg_ordered = False, cfg_buffer = DefaultBuffer,
      cfg_buffer_explicit = False, cfg_overflow = OverflowBlock, cfg_handler = None,
      cfg_batch_timeout = 0, cfg_supervision = no_supervision, cfg_cache = False,
      cfg_timeout = 0, cfg_key_ttl = 0, cfg_key_ttl_explicit = False, cfg_mapper = False,
      cfg_max_depth = 0, cfg_max_depth_explicit = False, cfg_max_items = 0,
      cfg_drop_partial = False, cfg_batch_count = 0, cfg_batch_measure = None,
      cfg_batch_measure_max = 0, cfg_dedupe_window = 0\<rparr>"

definition buildStageConfig :: "('a, 'v) stage_opt list \<Rightarrow> ('a, 'v) stage_config" where
  "buildStageConfig opts = fold apply_opt opts default_config"

lemma buildStageConfig_Nil [simp]: "buildStageConfig [] = default_config"
  by (simp add: buildStageConfig_def)

lemma buildStageConfig_snoc: "buildStageConfig (opts @ [opt]) = apply_opt opt (buildStageConfig opts)"
  by (simp add: buildStageConfig_def)

lemma buildStageConfig_concurrency: "cfg_concurrency (buildStageConfig opts) \<ge> 1"
proof (induction opts rule: rev_induct)
  case Nil
  then show ?case by (simp add: default_config_def)
next
  case (snoc opt opts)
  then show ?case by (cases opt) (auto simp: buildStageConfig_snoc)
qed

definition orDefault :: "string \<Rightarrow> string \<Rightarrow> string" where
  "orDefault s d = (if s \<noteq> [] then s else d)"

text \<open>\<^verbatim>\<open>isFastPathEligibleCfg\<close>, and with the hook \<^verbatim>\<open>isFastPathEligible\<close>.\<close>

definition isFastPathEligibleCfg :: "('a, 'v) stage_config \<Rightarrow> bool" where
  "isFastPathEligibleCfg cfg \<longleftrightarrow>
     cfg_concurrency cfg \<le> 1 \<and> \<not> HasSupervision (cfg_supervision cfg)
     \<and> IsDefaultHandler (cfg_handler cfg) \<and> cfg_overflow cfg = OverflowBlock
     \<and> cfg_timeout cfg = 0 \<and> \<not> cfg_mapper cfg"

definition isFastPathEligible :: "('a, 'v) stage_config \<Rightarrow> bool \<Rightarrow> bool" where
  "isFastPathEligible cfg noop_hook \<longleftrightarrow> isFastPathEligibleCfg cfg \<and> noop_hook"

section \<open>Stage descriptions\<close>

record stage_meta =
  meta_id :: stage_id
  meta_name :: string
  meta_kind :: string
  meta_inputs :: "stage_id list"
  meta_concurrency :: int
  meta_buffer :: nat
  meta_overflow :: overflow
  meta_batch_size :: int
  meta_timeout :: duration
  meta_has_retry :: bool
  meta_has_superv :: bool
  meta_segment :: string
  meta_is_effect :: bool
  meta_effect_required :: bool
  meta_supports_fast :: bool
  meta_fast_cfg :: bool
  meta_fusion :: bool

text \<open>A composite literal \<^verbatim>\<open>stageMeta{id, kind, name, buffer, inputs}\<close>, other fields zero.\<close>

definition stageMeta :: "stage_id \<Rightarrow> string \<Rightarrow> string \<Rightarrow> nat \<Rightarrow> stage_id list \<Rightarrow> stage_meta" where
  "stageMeta i k n b ins =
     \<lparr>meta_id = i, meta_name = n, meta_kind = k, meta_inputs = ins, meta_concurrency = 0,
      meta_buffer = b, meta_overflow = OverflowBlock, meta_batch_size = 0, meta_timeout = 0,
      meta_has_retry = False, meta_has_superv = False, meta_segment = [], meta_is_effect = False,
      meta_effect_required = False, meta_supports_fast = False, meta_fast_cfg = False,
      meta_fusion = False\<rparr>"

section \<open>runCtx\<close>

text \<open>
  A drain entry lives in a store of its own, since the outputs of a fan-out stage share
  one: \<^verbatim>\<open>rc_drain\<close> maps a stage to the address of its entry.
\<close>

record drain_entry =
  de_refs :: int
  de_closed :: bool

record effect_stat =
  es_name :: string
  es_required :: bool
  es_success :: nat
  es_failure :: nat
  es_deduped :: nat

text \<open>
  A registered stage function is described by the channels it owns and reads. \<^verbatim>\<open>rc_chans\<close>
  maps a stage to the capacity of its channel (the element type is erased in the code too).
\<close>

record stage_fn =
  sf_outs :: "stage_id list"
  sf_ins :: "stage_id list"

record run_ctx =
  rc_stages :: "stage_fn list"
  rc_metas :: "stage_meta list"
  rc_chans :: "stage_id \<rightharpoonup> nat"
  rc_drain :: "stage_id \<rightharpoonup> nat"
  rc_entries :: "drain_entry list"
  rc_segments :: "stage_id \<rightharpoonup> string"
  rc_effects :: "stage_id \<rightharpoonup> effect_stat"
  rc_default_buffer :: int
  rc_default_key_ttl :: duration
  rc_done :: bool

definition newRunCtx :: run_ctx where
  "newRunCtx =
     \<lparr>rc_stages = [], rc_metas = [], rc_chans = Map.empty, rc_drain = Map.empty, rc_entries = [],
      rc_segments = Map.empty, rc_effects = Map.empty, rc_default_buffer = 0,
      rc_default_key_ttl = 0, rc_done = False\<rparr>"

definition defaultBufSize :: "run_ctx \<Rightarrow> nat" where
  "defaultBufSize rc = (if rc_default_buffer rc > 0 then nat (rc_default_buffer rc) else DefaultBuffer)"

definition effectiveBufSize :: "run_ctx \<Rightarrow> ('a, 'v) stage_config \<Rightarrow> nat" where
  "effectiveBufSize rc cfg = (if cfg_buffer_explicit cfg then cfg_buffer cfg else defaultBufSize rc)"

definition effectiveKeyTTL :: "run_ctx \<Rightarrow> ('a, 'v) stage_config \<Rightarrow> duration" where
  "effectiveKeyTTL rc cfg = (if cfg_key_ttl_explicit cfg then cfg_key_ttl cfg else rc_default_key_ttl rc)"

text \<open>The run option \<^verbatim>\<open>WithDefaultBuffer(n)\<close>, as \<^verbatim>\<open>Run\<close> copies it into the context.\<close>

definition WithDefaultBuffer :: "int \<Rightarrow> run_ctx \<Rightarrow> run_ctx" where
  "WithDefaultBuffer n rc = (if n \<ge> 0 then rc\<lparr>rc_default_buffer := n\<rparr> else rc)"

definition rc_add :: "stage_fn \<Rightarrow> stage_meta \<Rightarrow> run_ctx \<Rightarrow> run_ctx" where
  "rc_add fn meta rc =
     (let meta = (case rc_segments rc (meta_id meta) of
                    Some name \<Rightarrow> meta\<lparr>meta_segment := name\<rparr> | None \<Rightarrow> meta)
      in rc\<lparr>rc_stages := rc_stages rc @ [fn], rc_metas := rc_metas rc @ [meta]\<rparr>)"

definition getChan :: "run_ctx \<Rightarrow> stage_id \<Rightarrow> nat option" where
  "getChan rc i = rc_chans rc i"

definition setChan :: "stage_id \<Rightarrow> nat \<Rightarrow> run_ctx \<Rightarrow> run_ctx" where
  "setChan i c rc = rc\<lparr>rc_chans := (rc_chans rc)(i \<mapsto> c)\<rparr>"

definition signalDone :: "run_ctx \<Rightarrow> run_ctx" where
  "signalDone rc = rc\<lparr>rc_done := True\<rparr>"

definition initMultiOutputDrainNotify :: "stage_id list \<Rightarrow> int \<Rightarrow> run_ctx \<Rightarrow> run_ctx" where
  "initMultiOutputDrainNotify outputIDs totalConsumers rc =
     (let e = length (rc_entries rc); n = (if totalConsumers < 1 then 1 else totalConsumers)
      in rc\<lparr>rc_entries := rc_entries rc @ [\<lparr>de_refs = n, de_closed = False\<rparr>],
            rc_drain := fold (\<lambda>i m. m(i \<mapsto> e)) outputIDs (rc_drain rc)\<rparr>)"

definition initDrainNotify :: "stage_id \<Rightarrow> int \<Rightarrow> run_ctx \<Rightarrow> run_ctx" where
  "initDrainNotify producerID consumerCount rc =
     (let e = length (rc_entries rc); n = (if consumerCount < 1 then 1 else consumerCount)
      in rc\<lparr>rc_entries := rc_entries rc @ [\<lparr>de_refs = n, de_closed = False\<rparr>],
            rc_drain := (rc_drain rc)(producerID \<mapsto> e)\<rparr>)"

text \<open>
  \<^verbatim>\<open>signalDrain\<close>: \<^verbatim>\<open>None\<close> is the panic of closing a closed channel.
\<close>

definition signalDrain :: "stage_id \<Rightarrow> run_ctx \<Rightarrow> run_ctx option" where
  "signalDrain producerID rc =
     (case rc_drain rc producerID of
        None \<Rightarrow> Some rc
      | Some e \<Rightarrow>
          let ent = (rc_entries rc) ! e; r = de_refs ent - 1 in
          if r = 0 \<and> de_closed ent then None
          else Some (rc\<lparr>rc_entries := (rc_entries rc)[e := \<lparr>de_refs = r, de_closed = (r = 0 \<or> de_closed ent)\<rparr>]\<rparr>))"

text \<open>Whether a receive from \<^verbatim>\<open>drainCh(id)\<close> succeeds; a missing entry is a nil channel.\<close>

definition drained :: "run_ctx \<Rightarrow> stage_id \<Rightarrow> bool" where
  "drained rc i = (case rc_drain rc i of None \<Rightarrow> False | Some e \<Rightarrow> de_closed (rc_entries rc ! e))"

definition registerEffectStat :: "stage_id \<Rightarrow> string \<Rightarrow> bool \<Rightarrow> run_ctx \<Rightarrow> run_ctx" where
  "registerEffectStat i name required rc =
     rc\<lparr>rc_effects := (rc_effects rc)(i \<mapsto>
          \<lparr>es_name = name, es_required = required, es_success = 0, es_failure = 0, es_deduped = 0\<rparr>)\<rparr>"

definition recordEffectOutcome :: "stage_id \<Rightarrow> bool \<Rightarrow> run_ctx \<Rightarrow> run_ctx" where
  "recordEffectOutcome i applied rc =
     (case rc_effects rc i of
        None \<Rightarrow> rc
      | Some s \<Rightarrow>
          rc\<lparr>rc_effects := (rc_effects rc)(i \<mapsto>
            (if applied then s\<lparr>es_success := Suc (es_success s)\<rparr>
             else s\<lparr>es_failure := Suc (es_failure s)\<rparr>))\<rparr>)"

definition recordEffectDeduped :: "stage_id \<Rightarrow> run_ctx \<Rightarrow> run_ctx" where
  "recordEffectDeduped i rc =
     (case rc_effects rc i of
        None \<Rightarrow> rc
      | Some s \<Rightarrow> rc\<lparr>rc_effects := (rc_effects rc)(i \<mapsto> s\<lparr>es_deduped := Suc (es_deduped s)\<rparr>)\<rparr>)"

section \<open>The drain counter\<close>

text \<open>An entry of \<^verbatim>\<open>n\<close> consumers after some signals: closed exactly when all have signalled.\<close>

definition drain_inv :: "run_ctx \<Rightarrow> bool" where
  "drain_inv rc \<longleftrightarrow>
     (\<forall>i e. rc_drain rc i = Some e \<longrightarrow> e < length (rc_entries rc))
     \<and> (\<forall>ent \<in> set (rc_entries rc). de_closed ent \<longleftrightarrow> de_refs ent \<le> 0)"

lemma drain_inv_new: "drain_inv newRunCtx"
  by (simp add: drain_inv_def newRunCtx_def)

lemma drain_fold_upd:
  "fold (\<lambda>i m. m(i \<mapsto> e)) ids m j = (if j \<in> set ids then Some e else m j)"
  by (induction ids arbitrary: m) auto

lemma initMulti_inv: "drain_inv rc \<Longrightarrow> drain_inv (initMultiOutputDrainNotify ids n rc)"
  unfolding drain_inv_def initMultiOutputDrainNotify_def Let_def
  by (auto simp: drain_fold_upd less_Suc_eq split: if_splits)

lemma initDrain_multi: "initDrainNotify i n rc = initMultiOutputDrainNotify [i] n rc"
  by (simp add: initDrainNotify_def initMultiOutputDrainNotify_def Let_def)

lemma initDrain_inv: "drain_inv rc \<Longrightarrow> drain_inv (initDrainNotify i n rc)"
  by (simp add: initDrain_multi initMulti_inv)

text \<open>With the invariant no signal ever panics, and the invariant is kept.\<close>

lemma signalDrain_inv:
  assumes "drain_inv rc"
  shows "\<exists>rc'. signalDrain i rc = Some rc' \<and> drain_inv rc' \<and> rc_drain rc' = rc_drain rc
           \<and> length (rc_entries rc') = length (rc_entries rc)
           \<and> (\<forall>e. rc_drain rc i \<noteq> Some e \<longrightarrow> rc_entries rc' ! e = rc_entries rc ! e)
           \<and> (\<forall>e. rc_drain rc i = Some e \<longrightarrow> de_refs (rc_entries rc' ! e) = de_refs (rc_entries rc ! e) - 1)"
proof (cases "rc_drain rc i")
  case None
  with assms show ?thesis by (simp add: signalDrain_def)
next
  case (Some e)
  let ?ent = "rc_entries rc ! e"
  from assms Some have e: "e < length (rc_entries rc)" and ent: "?ent \<in> set (rc_entries rc)"
    by (auto simp: drain_inv_def)
  then have closed: "de_closed ?ent \<longleftrightarrow> de_refs ?ent \<le> 0" using assms by (simp add: drain_inv_def)
  have "drain_inv (rc\<lparr>rc_entries := (rc_entries rc)[e := \<lparr>de_refs = de_refs ?ent - 1,
          de_closed = (de_refs ?ent - 1 = 0 \<or> de_closed ?ent)\<rparr>]\<rparr>)"
    using assms closed set_update_subset_insert [of "rc_entries rc" e]
    by (force simp: drain_inv_def)
  with Some e closed show ?thesis by (auto simp: signalDrain_def Let_def)
qed

fun signals :: "stage_id list \<Rightarrow> run_ctx \<Rightarrow> run_ctx option" where
  "signals [] rc = Some rc"
| "signals (i # is) rc = (case signalDrain i rc of None \<Rightarrow> None | Some rc' \<Rightarrow> signals is rc')"

lemma signals_inv:
  assumes "drain_inv rc"
  shows "\<exists>rc'. signals is rc = Some rc' \<and> drain_inv rc' \<and> rc_drain rc' = rc_drain rc
           \<and> (\<forall>e. e < length (rc_entries rc) \<longrightarrow>
                de_refs (rc_entries rc' ! e) =
                  de_refs (rc_entries rc ! e) - int (length (filter (\<lambda>i. rc_drain rc i = Some e) is)))
           \<and> length (rc_entries rc') = length (rc_entries rc)"
  using assms
proof (induction "is" arbitrary: rc)
  case (Cons i "is")
  from signalDrain_inv [OF Cons.prems, of i] obtain rc1 where
    rc1: "signalDrain i rc = Some rc1" "drain_inv rc1" "rc_drain rc1 = rc_drain rc"
      "length (rc_entries rc1) = length (rc_entries rc)"
      "\<And>e. rc_drain rc i \<noteq> Some e \<Longrightarrow> rc_entries rc1 ! e = rc_entries rc ! e"
      "\<And>e. rc_drain rc i = Some e \<Longrightarrow> de_refs (rc_entries rc1 ! e) = de_refs (rc_entries rc ! e) - 1"
    by blast
  from Cons.IH [OF rc1(2)] obtain rc2 where
    rc2: "signals is rc1 = Some rc2" "drain_inv rc2" "rc_drain rc2 = rc_drain rc1"
      "\<And>e. e < length (rc_entries rc1) \<Longrightarrow> de_refs (rc_entries rc2 ! e) =
         de_refs (rc_entries rc1 ! e) - int (length (filter (\<lambda>i. rc_drain rc1 i = Some e) is))"
      "length (rc_entries rc2) = length (rc_entries rc1)" by blast
  have "de_refs (rc_entries rc2 ! e) = de_refs (rc_entries rc ! e) -
      int (length (filter (\<lambda>i. rc_drain rc i = Some e) (i # is)))" if "e < length (rc_entries rc)" for e
    using that rc1 rc2(4) [of e] by (cases "rc_drain rc i = Some e") auto
  with rc1 rc2 show ?case by auto
qed simp

section \<open>Gate\<close>

text \<open>\<^verbatim>\<open>Gate\<close>: paused or open, with the number of pauses ended so far, the channels closed.\<close>

record gate =
  gate_wait :: "nat option"
  gate_next :: nat
  gate_released :: "nat set"

definition NewGate :: gate where
  "NewGate = \<lparr>gate_wait = None, gate_next = 0, gate_released = {}\<rparr>"

definition gate_Pause :: "gate \<Rightarrow> gate" where
  "gate_Pause g =
     (if gate_wait g = None then g\<lparr>gate_wait := Some (gate_next g), gate_next := Suc (gate_next g)\<rparr>
      else g)"

definition gate_Resume :: "gate \<Rightarrow> gate" where
  "gate_Resume g =
     (case gate_wait g of
        None \<Rightarrow> g
      | Some ch \<Rightarrow> g\<lparr>gate_wait := None, gate_released := insert ch (gate_released g)\<rparr>)"

definition gate_Paused :: "gate \<Rightarrow> bool" where
  "gate_Paused g \<longleftrightarrow> gate_wait g \<noteq> None"

text \<open>
  \<^verbatim>\<open>Wait\<close> reads \<^verbatim>\<open>waitCh\<close> once and then waits for that channel: \<^verbatim>\<open>gate_enter\<close> is the read,
  \<^verbatim>\<open>gate_Wait\<close> the wait as seen at a later state of the gate; \<^verbatim>\<open>Blocked\<close> is still waiting.
\<close>

definition gate_enter :: "gate \<Rightarrow> nat option" where
  "gate_enter g = gate_wait g"

definition gate_Wait :: "nat option \<Rightarrow> gate \<Rightarrow> go_error option \<Rightarrow> send_result" where
  "gate_Wait ticket g ctx =
     (case ticket of
        None \<Rightarrow> Returned None
      | Some ch \<Rightarrow>
          if ch \<in> gate_released g then Returned None
          else (case ctx of Some e \<Rightarrow> Returned (Some e) | None \<Rightarrow> Blocked))"

section \<open>The build phase\<close>

text \<open>
  A pipeline blueprint: an operator's description and the blueprints of its inputs. The
  outputs are the stage IDs of its output pipelines, \<^verbatim>\<open>bp_buffer\<close> how its buffer size is
  found, \<^verbatim>\<open>bp_consumers\<close> the sum of the consumer counts of its outputs and \<^verbatim>\<open>bp_fusion\<close> whether the
  pipeline has a \<^verbatim>\<open>fusionEntry\<close>.
\<close>

datatype buffer_choice = Explicit nat | RunDefault

record blueprint =
  bp_outs :: "stage_id list"
  bp_meta :: stage_meta
  bp_buffer :: buffer_choice
  bp_consumers :: int
  bp_fusion :: bool

datatype node = Node blueprint "node list"

fun node_bp :: "node \<Rightarrow> blueprint" where
  "node_bp (Node b _) = b"

definition bp_bufsize :: "run_ctx \<Rightarrow> blueprint \<Rightarrow> nat" where
  "bp_bufsize rc b = (case bp_buffer b of Explicit n \<Rightarrow> n | RunDefault \<Rightarrow> defaultBufSize rc)"

text \<open>
  The tail of every \<^verbatim>\<open>build\<close> closure, after the inputs: allocate and record the output
  channels, the drain entry, and register the stage.
\<close>

definition register_stage :: "blueprint \<Rightarrow> node list \<Rightarrow> run_ctx \<Rightarrow> run_ctx" where
  "register_stage b ins rc =
     (let buf = bp_bufsize rc b;
          rc = fold (\<lambda>i. setChan i buf) (bp_outs b) rc;
          rc = initMultiOutputDrainNotify (bp_outs b) (bp_consumers b) rc
      in rc_add \<lparr>sf_outs = bp_outs b, sf_ins = meta_inputs (bp_meta b)\<rparr>
           (bp_meta b\<lparr>meta_buffer := buf\<rparr>) rc)"

fun build_node :: "node \<Rightarrow> run_ctx \<Rightarrow> run_ctx" and build_all :: "node list \<Rightarrow> run_ctx \<Rightarrow> run_ctx" where
  "build_node (Node b ins) rc =
     (if bp_outs b \<noteq> [] \<and> getChan rc (hd (bp_outs b)) \<noteq> None then rc
      else register_stage b ins (build_all ins rc))"
| "build_all [] rc = rc"
| "build_all (n # ns) rc = build_all ns (build_node n rc)"

text \<open>
  Well-formed graphs over a universe \<^verbatim>\<open>G\<close> of nodes: a stage has an output, its inputs are
  outputs of its input nodes, distinct stages have disjoint outputs. A stage that can be fused (a
  \<^verbatim>\<open>Map\<close> or a \<^verbatim>\<open>Filter\<close>) has one input.
\<close>

fun node_ok :: "node \<Rightarrow> bool" where
  "node_ok (Node b ins) \<longleftrightarrow>
     bp_outs b \<noteq> [] \<and> distinct (bp_outs b) \<and> meta_id (bp_meta b) = hd (bp_outs b)
     \<and> set (meta_inputs (bp_meta b)) \<subseteq> (\<Union>n \<in> set ins. set (bp_outs (node_bp n)))
     \<and> (bp_fusion b \<longrightarrow> length ins = 1 \<and> length (meta_inputs (bp_meta b)) = 1)
     \<and> (\<forall>n \<in> set ins. node_ok n)"

fun node_parts :: "node \<Rightarrow> node list" where
  "node_parts (Node b ins) = Node b ins # concat (map node_parts ins)"

definition graph_ok :: "node set \<Rightarrow> bool" where
  "graph_ok G \<longleftrightarrow>
     (\<forall>n \<in> G. node_ok n)
     \<and> (\<forall>m \<in> G. \<forall>n \<in> G. set (bp_outs (node_bp m)) \<inter> set (bp_outs (node_bp n)) \<noteq> {} \<longrightarrow> m = n)"

text \<open>
  The invariant of the build phase: every channel belongs to exactly one registered stage,
  the stages and metas correspond, and each stage's inputs are owned by earlier stages. A sink is a
  stage that owns no channel.
\<close>

definition build_inv :: "run_ctx \<Rightarrow> bool" where
  "build_inv rc \<longleftrightarrow>
     distinct (concat (map sf_outs (rc_stages rc)))
     \<and> dom (rc_chans rc) = set (concat (map sf_outs (rc_stages rc)))
     \<and> list_all2 (\<lambda>m fn. sf_outs fn \<noteq> [] \<longrightarrow> meta_id m = hd (sf_outs fn)) (rc_metas rc) (rc_stages rc)
     \<and> (\<forall>k < length (rc_stages rc).
          set (sf_ins (rc_stages rc ! k)) \<subseteq> set (concat (map sf_outs (take k (rc_stages rc)))))"

definition rc_sinks :: "run_ctx \<Rightarrow> stage_id list" where
  "rc_sinks rc = map (meta_id \<circ> fst) (filter (\<lambda>(m, fn). sf_outs fn = []) (zip (rc_metas rc) (rc_stages rc)))"

text \<open>Which nodes of the graph are built: all outputs of a node, or none.\<close>

definition node_built :: "node \<Rightarrow> run_ctx \<Rightarrow> bool" where
  "node_built n rc \<longleftrightarrow> set (bp_outs (node_bp n)) \<subseteq> dom (rc_chans rc)"

definition all_or_none :: "node set \<Rightarrow> run_ctx \<Rightarrow> bool" where
  "all_or_none G rc \<longleftrightarrow>
     (\<forall>n \<in> G. node_built n rc \<or> set (bp_outs (node_bp n)) \<inter> dom (rc_chans rc) = {})"

lemma fold_setChan [simp]:
  "rc_chans (fold (\<lambda>i. setChan i c) ids rc) j = (if j \<in> set ids then Some c else rc_chans rc j)"
  "rc_stages (fold (\<lambda>i. setChan i c) ids rc) = rc_stages rc"
  "rc_metas (fold (\<lambda>i. setChan i c) ids rc) = rc_metas rc"
  "rc_segments (fold (\<lambda>i. setChan i c) ids rc) = rc_segments rc"
  by (induction ids arbitrary: rc) (auto simp: setChan_def)

lemma initMulti_frame [simp]:
  "rc_chans (initMultiOutputDrainNotify ids n rc) = rc_chans rc"
  "rc_stages (initMultiOutputDrainNotify ids n rc) = rc_stages rc"
  "rc_metas (initMultiOutputDrainNotify ids n rc) = rc_metas rc"
  by (simp_all add: initMultiOutputDrainNotify_def Let_def)

lemma register_stage_fields:
  "rc_stages (register_stage b ins rc) =
     rc_stages rc @ [\<lparr>sf_outs = bp_outs b, sf_ins = meta_inputs (bp_meta b)\<rparr>]"
  "dom (rc_chans (register_stage b ins rc)) = dom (rc_chans rc) \<union> set (bp_outs b)"
  "\<exists>m. rc_metas (register_stage b ins rc) = rc_metas rc @ [m] \<and> meta_id m = meta_id (bp_meta b)"
  by (auto simp: register_stage_def rc_add_def Let_def dom_def split: option.splits if_splits)

lemma register_stage_inv:
  assumes "build_inv rc" and "node_ok (Node b ins)" and "\<forall>n \<in> set ins. node_built n rc"
    and "set (bp_outs b) \<inter> dom (rc_chans rc) = {}"
  shows "build_inv (register_stage b ins rc)" and "rc_sinks (register_stage b ins rc) = rc_sinks rc"
proof -
  have ins: "set (meta_inputs (bp_meta b)) \<subseteq> set (concat (map sf_outs (rc_stages rc)))"
    using assms(1-3) by (fastforce simp: build_inv_def node_built_def)
  obtain m where m: "rc_metas (register_stage b ins rc) = rc_metas rc @ [m]" "meta_id m = meta_id (bp_meta b)"
    using register_stage_fields(3) by blast
  show "build_inv (register_stage b ins rc)"
    using assms(1,2,4) ins m(2)
    unfolding build_inv_def register_stage_fields(1,2) m(1)
    by (auto simp: nth_append less_Suc_eq list_all2_appendI)
  have "length (rc_metas rc) = length (rc_stages rc)" using assms(1) by (auto simp: build_inv_def list_all2_lengthD)
  with assms(2) show "rc_sinks (register_stage b ins rc) = rc_sinks rc"
    by (simp add: rc_sinks_def m(1) register_stage_fields(1))
qed

text \<open>The IDs a graph can allocate.\<close>

definition part_outs :: "node list \<Rightarrow> stage_id set" where
  "part_outs ns = (\<Union>m \<in> set ns. set (bp_outs (node_bp m)))"

lemma part_outs_append [simp]: "part_outs (xs @ ys) = part_outs xs \<union> part_outs ys"
  by (auto simp: part_outs_def)

lemma part_outs_Cons [simp]: "part_outs (x # xs) = set (bp_outs (node_bp x)) \<union> part_outs xs"
  by (auto simp: part_outs_def)

lemma part_outs_Nil [simp]: "part_outs [] = {}"
  by (simp add: part_outs_def)

lemma node_parts_size: "m \<in> set (node_parts n) \<Longrightarrow> size m \<le> size n"
proof (induction n rule: node_parts.induct)
  case (1 b ins)
  show ?case
  proof (cases "m = Node b ins")
    case False
    with 1(2) obtain n where n: "n \<in> set ins" "m \<in> set (node_parts n)" by auto
    with 1(1) have "size m \<le> size_list size ins" by (metis size_list_estimation')
    then show ?thesis by simp
  qed simp
qed

lemma node_built_mono: "node_built n rc \<Longrightarrow> dom (rc_chans rc) \<subseteq> dom (rc_chans rc') \<Longrightarrow> node_built n rc'"
  by (auto simp: node_built_def)

text \<open>What building a part of the graph promises.\<close>

definition build_post :: "node set \<Rightarrow> node list \<Rightarrow> node list \<Rightarrow> run_ctx \<Rightarrow> run_ctx \<Rightarrow> bool" where
  "build_post G roots parts rc rc' \<longleftrightarrow>
     build_inv rc' \<and> all_or_none G rc' \<and> (\<forall>n \<in> set roots. node_built n rc')
     \<and> dom (rc_chans rc) \<subseteq> dom (rc_chans rc')
     \<and> dom (rc_chans rc') \<subseteq> dom (rc_chans rc) \<union> part_outs parts \<and> rc_sinks rc' = rc_sinks rc"

lemma register_post:
  assumes G: "graph_ok G" "Node b ins \<in> G"
    and post: "build_post G ins (concat (map node_parts ins)) rc rc1"
    and sub: "set (concat (map node_parts ins)) \<subseteq> G"
    and fresh: "set (bp_outs b) \<inter> dom (rc_chans rc) = {}"
  shows "build_post G [Node b ins] (node_parts (Node b ins)) rc (register_stage b ins rc1)"
proof -
  have own: "set (bp_outs b) \<inter> part_outs (concat (map node_parts ins)) = {}"
  proof (rule ccontr)
    assume "set (bp_outs b) \<inter> part_outs (concat (map node_parts ins)) \<noteq> {}"
    then obtain m n where m: "n \<in> set ins" "m \<in> set (node_parts n)"
      "set (bp_outs (node_bp (Node b ins))) \<inter> set (bp_outs (node_bp m)) \<noteq> {}"
      by (auto simp: part_outs_def)
    then have "m \<in> G" using sub by auto
    with m(3) G have "Node b ins = m" unfolding graph_ok_def by blast
    with m(1,2) node_parts_size [of m n] have "size (Node b ins) \<le> size n" by simp
    moreover have "size n < size (Node b ins)"
      using m(1) by (simp add: less_Suc_eq_le size_list_estimation')
    ultimately show False by simp
  qed
  with fresh post have disj: "set (bp_outs b) \<inter> dom (rc_chans rc1) = {}"
    unfolding build_post_def by blast
  have ok: "node_ok (Node b ins)" using G unfolding graph_ok_def by blast
  have pre: "build_inv rc1" "\<forall>n \<in> set ins. node_built n rc1" using post by (simp_all add: build_post_def)
  note inv = register_stage_inv [OF pre(1) ok pre(2) disj]
  have "node_built m (register_stage b ins rc1) \<or>
      set (bp_outs (node_bp m)) \<inter> dom (rc_chans (register_stage b ins rc1)) = {}" if "m \<in> G" for m
  proof (cases "m = Node b ins")
    case True
    then show ?thesis by (auto simp: node_built_def register_stage_fields)
  next
    case False
    with G that have "set (bp_outs (node_bp m)) \<inter> set (bp_outs b) = {}"
      unfolding graph_ok_def by (metis node_bp.simps)
    then show ?thesis
      using post that by (auto simp: build_post_def all_or_none_def node_built_def register_stage_fields)
  qed
  with inv post show ?thesis
    by (auto simp: build_post_def all_or_none_def register_stage_fields node_built_def)
qed

lemma build_preserves:
  assumes G: "graph_ok G"
  shows "set (node_parts n) \<subseteq> G \<Longrightarrow> build_inv rc \<Longrightarrow> all_or_none G rc \<Longrightarrow>
           build_post G [n] (node_parts n) rc (build_node n rc)"
    and "set (concat (map node_parts ns)) \<subseteq> G \<Longrightarrow> build_inv rc \<Longrightarrow> all_or_none G rc \<Longrightarrow>
           build_post G ns (concat (map node_parts ns)) rc (build_all ns rc)"
proof (induction n rc and ns rc rule: build_node_build_all.induct)
  case (1 b ins rc)
  have sub: "set (concat (map node_parts ins)) \<subseteq> G" and n: "Node b ins \<in> G" using 1(2) by auto
  show ?case
  proof (cases "bp_outs b \<noteq> [] \<and> getChan rc (hd (bp_outs b)) \<noteq> None")
    case True
    then have "hd (bp_outs b) \<in> set (bp_outs (node_bp (Node b ins))) \<inter> dom (rc_chans rc)"
      by (auto simp: getChan_def)
    then have "node_built (Node b ins) rc" using 1(4) n unfolding all_or_none_def by blast
    with True 1(3,4) show ?thesis by (simp add: build_post_def)
  next
    case False
    have post: "build_post G ins (concat (map node_parts ins)) rc (build_all ins rc)"
      using 1(1) [OF False sub 1(3,4)] .
    have "bp_outs b \<noteq> []" using G n unfolding graph_ok_def by (metis node_ok.simps)
    with False have "hd (bp_outs b) \<in> set (bp_outs b)" "hd (bp_outs b) \<notin> dom (rc_chans rc)"
      by (auto simp: getChan_def)
    then have "set (bp_outs b) \<inter> dom (rc_chans rc) = {}"
      using 1(4) n unfolding all_or_none_def node_built_def by (metis node_bp.simps subsetD)
    from register_post [OF G n post sub this] False show ?thesis by auto
  qed
next
  case (2 rc)
  then show ?case by (simp add: build_post_def)
next
  case (3 n ns rc)
  from 3 have first: "build_post G [n] (node_parts n) rc (build_node n rc)" by simp
  with 3 have rest: "build_post G ns (concat (map node_parts ns)) (build_node n rc) (build_all ns (build_node n rc))"
    by (simp add: build_post_def)
  from first rest have "node_built n (build_all ns (build_node n rc))"
    unfolding build_post_def by (metis list.set_intros(1) node_built_mono)
  moreover from first rest
  have "dom (rc_chans rc) \<subseteq> dom (rc_chans (build_all ns (build_node n rc)))"
    and "dom (rc_chans (build_all ns (build_node n rc))) \<subseteq>
      dom (rc_chans rc) \<union> part_outs (concat (map node_parts (n # ns)))"
    unfolding build_post_def by (blast, simp, blast)
  moreover have "rc_sinks (build_all ns (build_node n rc)) = rc_sinks rc"
    using first rest by (simp add: build_post_def)
  ultimately show ?case using first rest by (simp add: build_post_def)
qed

lemma build_inv_new: "build_inv newRunCtx" "all_or_none G newRunCtx"
  by (auto simp: build_inv_def newRunCtx_def all_or_none_def)

lemma build_node_new:
  assumes "graph_ok (set (node_parts n))"
  shows "build_post (set (node_parts n)) [n] (node_parts n) newRunCtx (build_node n newRunCtx)"
  using build_preserves(1) [OF assms, of n newRunCtx] build_inv_new by auto

text \<open>Building again changes nothing: the memoisation.\<close>

lemma build_node_again:
  assumes "node_built n rc" and "bp_outs (node_bp n) \<noteq> []"
  shows "build_node n rc = rc"
proof (cases n)
  case (Node b ins)
  with assms have "hd (bp_outs b) \<in> dom (rc_chans rc)"
    unfolding node_built_def by (metis hd_in_set node_bp.simps subsetD)
  then have "getChan rc (hd (bp_outs b)) \<noteq> None" by (auto simp: getChan_def)
  with Node assms(2) show ?thesis by simp
qed

text \<open>\<^verbatim>\<open>Describe\<close>: the metas of a build into a fresh context.\<close>

definition Describe :: "node \<Rightarrow> stage_meta list" where
  "Describe n = rc_metas (build_node n newRunCtx)"

section \<open>Properties of the drain protocol\<close>

text \<open>
  C18: A producer of one or more outputs registered for \<^verbatim>\<open>n\<close> consumers in a run context is drained
  exactly when at least \<^verbatim>\<open>n\<close> (and at least one) of its consumers have signalled, in whatever order
  and mixed with whatever other signals, and no sequence of signals closes a channel twice.
\<close>

theorem drained_after_all_consumers:
  assumes "drain_inv rc" and "i \<in> set ids"
  shows "\<exists>rc'. signals is (initMultiOutputDrainNotify ids n rc) = Some rc' \<and>
           (drained rc' i \<longleftrightarrow> max 1 n \<le> int (length (filter (\<lambda>j. j \<in> set ids) is)))"
proof -
  let ?rc = "initMultiOutputDrainNotify ids n rc" and ?e = "length (rc_entries rc)"
  have inv: "drain_inv ?rc" using assms(1) by (rule initMulti_inv)
  have at: "rc_drain ?rc j = Some ?e \<longleftrightarrow> j \<in> set ids" for j
    using assms(1) by (auto simp: initMultiOutputDrainNotify_def Let_def drain_fold_upd drain_inv_def)
  have "?e < length (rc_entries ?rc)" and refs: "de_refs (rc_entries ?rc ! ?e) = max 1 n"
    by (simp_all add: initMultiOutputDrainNotify_def Let_def)
  with signals_inv [OF inv, of "is"] obtain rc' where
    rc': "signals is ?rc = Some rc'" "drain_inv rc'" "rc_drain rc' = rc_drain ?rc"
      "de_refs (rc_entries rc' ! ?e) = max 1 n - int (length (filter (\<lambda>j. j \<in> set ids) is))"
      "?e < length (rc_entries rc')"
    by (auto simp: at)
  moreover have "rc_drain rc' i = Some ?e" using rc'(3) at assms(2) by simp
  ultimately have "drained rc' i \<longleftrightarrow> de_refs (rc_entries rc' ! ?e) \<le> 0"
    unfolding drained_def drain_inv_def by simp
  with rc' show ?thesis by auto
qed

theorem drained_after_all_consumers_witness:
  "\<exists>rc'. signals [8, 7, 3] (initMultiOutputDrainNotify [7, 8] 2 newRunCtx) = Some rc' \<and> drained rc' 7"
  using drained_after_all_consumers [OF drain_inv_new, of 7 "[7, 8]" "[8, 7, 3]" 2] by simp

end
