(* ===== verification/Runner.thy ===== *)
theory Runner
  imports Run_Context
begin

text \<open>
  \<^verbatim>\<open>kitsune.go\<close> and \<^verbatim>\<open>runsummary.go\<close>: what \<^verbatim>\<open>Run\<close> does around the stages. The graph phase runs the
  terminal functions of the sinks (\<^verbatim>\<open>terminal.go\<close>), which build their upstream with \<^verbatim>\<open>build_node\<close> or enter a
  fused chain (\<^verbatim>\<open>operator_map.go\<close>, \<^verbatim>\<open>operator_filter.go\<close>); running the stages is \<^verbatim>\<open>errgroup\<close>, code outside the repository, so its answer
  (the first non-nil error of a stage) is an argument. The rest is modelled: the graceful
  drain's error filter, the outcome derived from the effect counters, the per-stage effect
  summary, the finalizers and \<^verbatim>\<open>MergeRunners\<close>.
\<close>

section \<open>Outcomes\<close>

datatype run_outcome = RunSuccess | RunPartialSuccess | RunFailure

text \<open>The constants are declared in the order of severity.\<close>

fun outcome_rank :: "run_outcome \<Rightarrow> nat" where
  "outcome_rank RunSuccess = 0"
| "outcome_rank RunPartialSuccess = 1"
| "outcome_rank RunFailure = 2"

instantiation run_outcome :: linorder
begin

definition "x \<le> y \<longleftrightarrow> outcome_rank x \<le> outcome_rank y"
definition "x < y \<longleftrightarrow> outcome_rank x < outcome_rank y"

instance
proof
  fix x y :: run_outcome
  show "x \<le> y \<Longrightarrow> y \<le> x \<Longrightarrow> x = y"
    by (cases x; cases y) (simp_all add: less_eq_run_outcome_def)
qed (auto simp: less_eq_run_outcome_def less_run_outcome_def)

end

text \<open>The loop of \<^verbatim>\<open>deriveRunOutcome\<close> over the effect counters, in some iteration order.\<close>

fun outcome_loop :: "effect_stat list \<Rightarrow> bool \<Rightarrow> run_outcome" where
  "outcome_loop [] sawBestEffortFailure =
     (if sawBestEffortFailure then RunPartialSuccess else RunSuccess)"
| "outcome_loop (s # ss) sawBestEffortFailure =
     (if es_failure s = 0 then outcome_loop ss sawBestEffortFailure
      else if es_required s then RunFailure
      else outcome_loop ss True)"

definition deriveRunOutcome :: "effect_stat list \<Rightarrow> go_error option \<Rightarrow> run_outcome" where
  "deriveRunOutcome stats pipelineErr =
     (if pipelineErr \<noteq> None then RunFailure else outcome_loop stats False)"

lemma outcome_loop_cases:
  "outcome_loop ss saw =
     (if \<exists>s \<in> set ss. es_failure s \<noteq> 0 \<and> es_required s then RunFailure
      else if saw \<or> (\<exists>s \<in> set ss. es_failure s \<noteq> 0) then RunPartialSuccess else RunSuccess)"
  by (induction ss arbitrary: saw) auto

definition effect_severity :: "effect_stat \<Rightarrow> run_outcome" where
  "effect_severity s =
     (if es_failure s = 0 then RunSuccess else if es_required s then RunFailure else RunPartialSuccess)"

section \<open>Summaries\<close>

record effect_summary =
  sum_required :: bool
  sum_success :: nat
  sum_failure :: nat
  sum_deduped :: nat

record run_summary =
  sm_outcome :: run_outcome
  sm_err :: "go_error option"
  sm_effects :: "string \<rightharpoonup> effect_summary"
  sm_finalizer_errs :: "go_error option list"

text \<open>The map \<^verbatim>\<open>EffectStats\<close>, keyed by stage name, filled in iteration order.\<close>

definition effect_map :: "effect_stat list \<Rightarrow> (string \<rightharpoonup> effect_summary)" where
  "effect_map stats =
     fold (\<lambda>s m. m(es_name s \<mapsto> \<lparr>sum_required = es_required s, sum_success = es_success s,
                                 sum_failure = es_failure s, sum_deduped = es_deduped s\<rparr>)) stats Map.empty"

lemma effect_map_last:
  "effect_map (stats @ [s]) (es_name s) =
     Some \<lparr>sum_required = es_required s, sum_success = es_success s, sum_failure = es_failure s,
           sum_deduped = es_deduped s\<rparr>"
  by (simp add: effect_map_def)

section \<open>Graceful drain\<close>

text \<open>
  What \<^verbatim>\<open>runWithDrain\<close> makes of the error of the stages: \<^verbatim>\<open>parent_err\<close> is \<^verbatim>\<open>parentCtx.Err()\<close> at
  the end.
\<close>

definition runWithDrain :: "go_error option \<Rightarrow> go_error option \<Rightarrow> go_error option" where
  "runWithDrain parent_err err =
     (case err of
        Some e \<Rightarrow>
          if parent_err \<noteq> None \<and> (errors_is e Canceled \<or> errors_is e DeadlineExceeded) then None else Some e
      | None \<Rightarrow> None)"

section \<open>Runners\<close>

type_synonym finalizer = "run_summary \<Rightarrow> go_error option"

text \<open>
  The sink of a \<^verbatim>\<open>ForEach\<close>: its description, the node of the pipeline it consumes, and whether its options
  and the run allow fusion (\<^verbatim>\<open>isFastPathEligibleCfg\<close>, no hook, the default error handler). The terminal
  function of a runner builds its sinks one after the other.
\<close>

record terminal =
  tm_meta :: stage_meta
  tm_up :: node
  tm_fusible :: bool

record runner =
  rn_terminal :: "terminal list"
  rn_finalizers :: "finalizer list"

definition WithFinalizer :: "finalizer \<Rightarrow> runner \<Rightarrow> runner" where
  "WithFinalizer fn r = r\<lparr>rn_finalizers := rn_finalizers r @ [fn]\<rparr>"

definition MergeRunners :: "runner list \<Rightarrow> runner result" where
  "MergeRunners runners =
     (if runners = [] then Inl ErrNoRunners
      else Inr \<lparr>rn_terminal = concat (map rn_terminal runners),
                rn_finalizers = concat (map rn_finalizers runners)\<rparr>)"

text \<open>
  The finalizer loop. The slice \<^verbatim>\<open>FinalizerErrs\<close> is allocated before the loop and shared by
  the summary each finalizer is given, so it sees what the ones before it returned.
\<close>

fun run_finalizers :: "finalizer list \<Rightarrow> nat \<Rightarrow> run_summary \<Rightarrow> run_summary" where
  "run_finalizers [] i summary = summary"
| "run_finalizers (fn # fns) i summary =
     run_finalizers fns (Suc i)
       (summary\<lparr>sm_finalizer_errs := (sm_finalizer_errs summary)[i := fn summary]\<rparr>)"

text \<open>
  \<^verbatim>\<open>fusionEntry(rc, sink)\<close> of a \<^verbatim>\<open>Map\<close> or \<^verbatim>\<open>Filter\<close>: it passes to its upstream's entry if that has one and no
  other consumer; otherwise it builds the upstream and gives it a new drain entry. The result is the channel
  the fused stage reads. No channel, no drain entry and no stage is made for the fused stages themselves.
\<close>

definition fusion_open :: "node \<Rightarrow> bool" where
  "fusion_open p \<longleftrightarrow> bp_fusion (node_bp p) \<and> bp_consumers (node_bp p) = 1"

fun fusion_entry :: "node \<Rightarrow> run_ctx \<Rightarrow> run_ctx \<times> stage_id list" where
  "fusion_entry (Node b (p0 # ins)) rc =
     (if fusion_open p0 then fusion_entry p0 rc
      else (let i = hd (meta_inputs (bp_meta b)) in (initDrainNotify i 1 (build_node p0 rc), [i])))"
| "fusion_entry (Node b []) rc = (rc, [])"

text \<open>
  The terminal function of \<^verbatim>\<open>ForEach\<close>: it adds a stage that owns no channel, after building the upstream
  pipeline or, fused, what the chain reads from. Unlike \<^verbatim>\<open>build\<close> it remembers nothing.
\<close>

definition terminal_fused :: "terminal \<Rightarrow> bool" where
  "terminal_fused t \<longleftrightarrow> fusion_open (tm_up t) \<and> tm_fusible t"

definition build_terminal :: "terminal \<Rightarrow> run_ctx \<Rightarrow> run_ctx" where
  "build_terminal t rc =
     (if terminal_fused t
      then (case fusion_entry (tm_up t) rc of (rc, chans) \<Rightarrow> rc_add \<lparr>sf_outs = [], sf_ins = chans\<rparr> (tm_meta t) rc)
      else rc_add \<lparr>sf_outs = [], sf_ins = meta_inputs (tm_meta t)\<rparr> (tm_meta t) (build_node (tm_up t) rc))"

text \<open>
  \<^verbatim>\<open>Run\<close>: build the graph, run the stages (their error and the final effect counters are
  given), derive the summary, run the finalizers. \<^verbatim>\<open>drain\<close> is \<^verbatim>\<open>cfg.drainTimeout > 0\<close>.
\<close>

definition run_graph :: "runner \<Rightarrow> run_ctx \<Rightarrow> run_ctx" where
  "run_graph r rc = fold build_terminal (rn_terminal r) rc"

definition Run ::
  "runner \<Rightarrow> bool \<Rightarrow> go_error option \<Rightarrow> go_error option \<Rightarrow> effect_stat list \<Rightarrow> run_summary \<times> go_error option" where
  "Run r drain parent_err stages_err stats =
     (let pipelineErr = (if drain then runWithDrain parent_err stages_err else stages_err);
          summary = \<lparr>sm_outcome = deriveRunOutcome stats pipelineErr, sm_err = pipelineErr,
                     sm_effects = effect_map stats, sm_finalizer_errs = []\<rparr>;
          summary = (if rn_finalizers r \<noteq> []
                     then run_finalizers (rn_finalizers r) 0
                            (summary\<lparr>sm_finalizer_errs := replicate (length (rn_finalizers r)) None\<rparr>)
                     else summary)
      in (summary, pipelineErr))"

lemma run_finalizers_frame [simp]:
  "sm_outcome (run_finalizers fns i s) = sm_outcome s"
  "sm_err (run_finalizers fns i s) = sm_err s"
  "sm_effects (run_finalizers fns i s) = sm_effects s"
  "length (sm_finalizer_errs (run_finalizers fns i s)) = length (sm_finalizer_errs s)"
  by (induction fns arbitrary: i s) auto

lemma Run_outcome:
  "sm_outcome (fst (Run r drain p e stats)) = deriveRunOutcome stats (snd (Run r drain p e stats))"
  "sm_err (fst (Run r drain p e stats)) = snd (Run r drain p e stats)"
  "length (sm_finalizer_errs (fst (Run r drain p e stats))) = length (rn_finalizers r)"
  by (simp_all add: Run_def Let_def)

text \<open>Every finalizer runs, whatever the others return; its result is at its index.\<close>

lemma run_finalizers_untouched:
  "k < i \<Longrightarrow> sm_finalizer_errs (run_finalizers fns i s) ! k = sm_finalizer_errs s ! k"
  by (induction fns arbitrary: i s) auto

lemma run_finalizers_result:
  assumes "k < length fns" and "i + length fns \<le> length (sm_finalizer_errs s)"
  shows "\<exists>seen. sm_finalizer_errs (run_finalizers fns i s) ! (i + k) = (fns ! k) seen
           \<and> sm_outcome seen = sm_outcome s \<and> sm_err seen = sm_err s \<and> sm_effects seen = sm_effects s"
  using assms
proof (induction fns arbitrary: i k s)
  case (Cons fn fns)
  let ?s = "s\<lparr>sm_finalizer_errs := (sm_finalizer_errs s)[i := fn s]\<rparr>"
  show ?case
  proof (cases k)
    case 0
    then have "sm_finalizer_errs (run_finalizers (fn # fns) i s) ! (i + k) = fn s"
      using Cons.prems by (simp add: run_finalizers_untouched)
    with 0 show ?thesis by auto
  next
    case (Suc j)
    with Cons.prems Cons.IH [of j "Suc i" ?s] show ?thesis by simp
  qed
qed simp

section \<open>Merged graphs\<close>

text \<open>A merged runner builds its parts one after another into the same context.\<close>

lemma MergeRunners_graph:
  "MergeRunners rs = Inr r \<Longrightarrow> run_graph r rc = fold (\<lambda>r. run_graph r) rs rc"
proof -
  have "fold build_terminal (concat (map rn_terminal rs)) rc = fold (\<lambda>r. run_graph r) rs rc"
    by (induction rs arbitrary: rc) (auto simp: run_graph_def)
  then show "MergeRunners rs = Inr r \<Longrightarrow> run_graph r rc = fold (\<lambda>r. run_graph r) rs rc"
    by (auto simp: MergeRunners_def run_graph_def split: if_splits)
qed

text \<open>The node whose output a fused chain reads, and the channel it reads.\<close>

fun fusion_source :: "node \<Rightarrow> node \<times> stage_id list" where
  "fusion_source (Node b (p0 # ins)) =
     (if fusion_open p0 then fusion_source p0 else (p0, [hd (meta_inputs (bp_meta b))]))"
| "fusion_source (Node b []) = (Node b [], [])"

text \<open>The node whose output a sink reads, and the channels it reads.\<close>

definition sink_source :: "terminal \<Rightarrow> node \<times> stage_id list" where
  "sink_source t = (if terminal_fused t then fusion_source (tm_up t) else (tm_up t, meta_inputs (tm_meta t)))"

definition terminal_ok :: "terminal \<Rightarrow> bool" where
  "terminal_ok t \<longleftrightarrow> set (meta_inputs (tm_meta t)) \<subseteq> set (bp_outs (node_bp (tm_up t)))"

lemma fusion_entry_source:
  "node_ok n \<Longrightarrow> bp_fusion (node_bp n) \<Longrightarrow> fusion_entry n rc =
     (case fusion_source n of (p, chans) \<Rightarrow> (initDrainNotify (hd chans) 1 (build_node p rc), chans))"
proof (induction n rc rule: fusion_entry.induct)
  case (1 b p0 ins rc)
  show ?case
  proof (cases "fusion_open p0")
    case True
    then have "bp_fusion (node_bp p0)" by (simp add: fusion_open_def)
    with True 1 show ?thesis by simp
  qed (simp add: Let_def)
qed simp

lemma fusion_source_ok:
  "node_ok n \<Longrightarrow> bp_fusion (node_bp n) \<Longrightarrow> fusion_source n = (p, chans) \<Longrightarrow>
     node_ok p \<and> set (node_parts p) \<subseteq> set (node_parts n) \<and> set chans \<subseteq> set (bp_outs (node_bp p))"
proof (induction n rule: fusion_source.induct)
  case (1 b p0 ins)
  then have one: "ins = []" "node_ok p0" and inp: "length (meta_inputs (bp_meta b)) = 1"
    "set (meta_inputs (bp_meta b)) \<subseteq> set (bp_outs (node_bp p0))" by auto
  then obtain i where i: "meta_inputs (bp_meta b) = [i]" by (cases "meta_inputs (bp_meta b)") auto
  show ?case
  proof (cases "fusion_open p0")
    case True
    with 1 one show ?thesis by (auto simp: fusion_open_def)
  next
    case False
    with 1(4) one inp i show ?thesis by auto
  qed
qed simp

lemma initDrain_frame [simp]:
  "rc_chans (initDrainNotify i n rc) = rc_chans rc"
  "rc_stages (initDrainNotify i n rc) = rc_stages rc"
  "rc_metas (initDrainNotify i n rc) = rc_metas rc"
  by (simp_all add: initDrain_multi)

text \<open>A sink is built: the node it reads from, then perhaps a drain entry, then a stage without channels.\<close>

lemma build_terminal_steps:
  assumes "node_ok (tm_up t)" and "sink_source t = (p, chans)"
  shows "\<exists>m. rc_chans (build_terminal t rc) = rc_chans (build_node p rc)
     \<and> rc_stages (build_terminal t rc) = rc_stages (build_node p rc) @ [\<lparr>sf_outs = [], sf_ins = chans\<rparr>]
     \<and> rc_metas (build_terminal t rc) = rc_metas (build_node p rc) @ [m] \<and> meta_id m = meta_id (tm_meta t)"
proof (cases "terminal_fused t")
  case True
  then have "bp_fusion (node_bp (tm_up t))" by (simp add: terminal_fused_def fusion_open_def)
  with True assms show ?thesis
    by (auto simp: build_terminal_def sink_source_def fusion_entry_source rc_add_def Let_def split: option.split)
next
  case False
  with assms show ?thesis
    by (auto simp: build_terminal_def sink_source_def rc_add_def Let_def split: option.split)
qed

lemma sink_source_ok:
  assumes "node_ok (tm_up t)" and "terminal_ok t" and "sink_source t = (p, chans)"
  shows "node_ok p \<and> set (node_parts p) \<subseteq> set (node_parts (tm_up t)) \<and> set chans \<subseteq> set (bp_outs (node_bp p))"
proof (cases "terminal_fused t")
  case True
  then have "bp_fusion (node_bp (tm_up t))" by (simp add: terminal_fused_def fusion_open_def)
  with True assms(3) fusion_source_ok [OF assms(1), of p chans] show ?thesis by (simp add: sink_source_def)
next
  case False
  with assms show ?thesis by (auto simp: sink_source_def terminal_ok_def)
qed

lemma build_terminal_post:
  assumes G: "graph_ok G" and sub: "set (node_parts (tm_up t)) \<subseteq> G" and ok: "terminal_ok t"
    and inv: "build_inv rc" "all_or_none G rc" and src: "sink_source t = (p, chans)"
  shows "build_inv (build_terminal t rc) \<and> all_or_none G (build_terminal t rc) \<and> node_built p (build_terminal t rc)
     \<and> dom (rc_chans rc) \<subseteq> dom (rc_chans (build_terminal t rc))
     \<and> rc_sinks (build_terminal t rc) = rc_sinks rc @ [meta_id (tm_meta t)]"
proof -
  let ?rc1 = "build_node p rc" and ?rc' = "build_terminal t rc"
  have "tm_up t \<in> set (node_parts (tm_up t))" by (cases "tm_up t") simp
  then have up: "node_ok (tm_up t)" using G sub unfolding graph_ok_def by blast
  have p: "node_ok p" "set (node_parts p) \<subseteq> G" "set chans \<subseteq> set (bp_outs (node_bp p))"
    using sink_source_ok [OF up ok src] sub by auto
  have post: "build_post G [p] (node_parts p) rc ?rc1" by (rule build_preserves(1) [OF G p(2) inv])
  obtain m where m: "rc_chans ?rc' = rc_chans ?rc1" "rc_stages ?rc' = rc_stages ?rc1 @ [\<lparr>sf_outs = [], sf_ins = chans\<rparr>]"
    "rc_metas ?rc' = rc_metas ?rc1 @ [m]" "meta_id m = meta_id (tm_meta t)"
    using build_terminal_steps [OF up src, of rc] by (elim exE conjE) (rule that)
  have built: "node_built p ?rc1" "build_inv ?rc1" using post by (simp_all add: build_post_def)
  then have ins: "set chans \<subseteq> set (concat (map sf_outs (rc_stages ?rc1)))"
    using p(3) by (auto simp: node_built_def build_inv_def)
  have len: "length (rc_metas ?rc1) = length (rc_stages ?rc1)"
    using built(2) by (auto simp: build_inv_def list_all2_lengthD)
  have "set (sf_ins (rc_stages ?rc' ! k)) \<subseteq> set (concat (map sf_outs (take k (rc_stages ?rc'))))"
    if "k < length (rc_stages ?rc')" for k
  proof (cases "k < length (rc_stages ?rc1)")
    case True
    then have "set (sf_ins (rc_stages ?rc1 ! k)) \<subseteq> set (concat (map sf_outs (take k (rc_stages ?rc1))))"
      using built(2) unfolding build_inv_def by blast
    with True show ?thesis by (simp add: m(2) nth_append)
  next
    case False
    with that have "k = length (rc_stages ?rc1)" by (simp add: m(2))
    with ins show ?thesis by (simp add: m(2))
  qed
  moreover have "list_all2 (\<lambda>m fn. sf_outs fn \<noteq> [] \<longrightarrow> meta_id m = hd (sf_outs fn)) (rc_metas ?rc') (rc_stages ?rc')"
    using built(2) unfolding build_inv_def m(2,3) by (simp add: list_all2_appendI)
  moreover have "distinct (concat (map sf_outs (rc_stages ?rc')))"
    "dom (rc_chans ?rc') = set (concat (map sf_outs (rc_stages ?rc')))"
    using built(2) unfolding build_inv_def m(1,2) by simp_all
  ultimately have "build_inv ?rc'" unfolding build_inv_def by blast
  moreover have "rc_sinks ?rc' = rc_sinks ?rc1 @ [meta_id (tm_meta t)]"
    by (simp add: rc_sinks_def m(2-4) len)
  ultimately show ?thesis
    using post by (simp add: build_post_def all_or_none_def node_built_def m(1))
qed

lemma build_terminals_post:
  assumes G: "graph_ok G"
  shows "set (concat (map (node_parts \<circ> tm_up) ts)) \<subseteq> G \<Longrightarrow> \<forall>t \<in> set ts. terminal_ok t \<Longrightarrow>
    build_inv rc \<Longrightarrow> all_or_none G rc \<Longrightarrow>
    build_inv (fold build_terminal ts rc) \<and> dom (rc_chans rc) \<subseteq> dom (rc_chans (fold build_terminal ts rc))
    \<and> (\<forall>t \<in> set ts. node_built (fst (sink_source t)) (fold build_terminal ts rc))
    \<and> rc_sinks (fold build_terminal ts rc) = rc_sinks rc @ map (meta_id \<circ> tm_meta) ts"
proof (induction ts arbitrary: rc)
  case (Cons t ts)
  obtain p chans where src: "sink_source t = (p, chans)" by fastforce
  have one: "build_inv (build_terminal t rc)" "all_or_none G (build_terminal t rc)" "node_built p (build_terminal t rc)"
    "dom (rc_chans rc) \<subseteq> dom (rc_chans (build_terminal t rc))"
    "rc_sinks (build_terminal t rc) = rc_sinks rc @ [meta_id (tm_meta t)]"
    using build_terminal_post [OF G _ _ Cons.prems(3,4) src] Cons.prems(1,2) by simp_all
  have rest: "build_inv (fold build_terminal ts (build_terminal t rc))"
    "dom (rc_chans (build_terminal t rc)) \<subseteq> dom (rc_chans (fold build_terminal ts (build_terminal t rc)))"
    "\<forall>t' \<in> set ts. node_built (fst (sink_source t')) (fold build_terminal ts (build_terminal t rc))"
    "rc_sinks (fold build_terminal ts (build_terminal t rc)) =
       rc_sinks (build_terminal t rc) @ map (meta_id \<circ> tm_meta) ts"
    using Cons.IH [OF _ _ one(1,2)] Cons.prems(1,2) by simp_all
  from rest one src node_built_mono [OF one(3) rest(2)] show ?case by auto
qed simp

text \<open>Running the terminals once more adds their sinks and nothing else.\<close>

lemma build_terminals_again:
  "\<forall>t \<in> set ts. node_ok (tm_up t) \<and> terminal_ok t \<and> node_built (fst (sink_source t)) rc \<Longrightarrow>
    rc_chans (fold build_terminal ts rc) = rc_chans rc
    \<and> rc_stages (fold build_terminal ts rc) = rc_stages rc @ map (\<lambda>t. \<lparr>sf_outs = [], sf_ins = snd (sink_source t)\<rparr>) ts"
proof (induction ts arbitrary: rc)
  case (Cons t ts)
  obtain p chans where src: "sink_source t = (p, chans)" by fastforce
  then have up: "node_ok (tm_up t)" "terminal_ok t" "node_built p rc" using Cons.prems by auto
  with sink_source_ok [OF up(1,2) src] have "bp_outs (node_bp p) \<noteq> []" by (cases p) simp
  with build_node_again [OF up(3)] build_terminal_steps [OF up(1) src, of rc]
  have one: "rc_chans (build_terminal t rc) = rc_chans rc"
    "rc_stages (build_terminal t rc) = rc_stages rc @ [\<lparr>sf_outs = [], sf_ins = chans\<rparr>]" by auto
  have "\<forall>t' \<in> set ts. node_ok (tm_up t') \<and> terminal_ok t' \<and> node_built (fst (sink_source t')) (build_terminal t rc)"
    using Cons.prems one(1) by (simp add: node_built_def)
  from Cons.IH [OF this] one src show ?case by simp
qed simp

section \<open>Properties\<close>

text \<open>
  The outcome of a run is the worst of what happened in it, in the order success, partial
  success, failure: failure for an error of the stages or a failed required effect, partial success
  for a failed best-effort effect. So it does not depend on the order in which Go iterates over the
  effect counters.
\<close>

theorem outcome_is_worst:
  "deriveRunOutcome stats e =
     Max (insert (if e = None then RunSuccess else RunFailure) (effect_severity ` set stats))"
proof -
  have le: "x \<le> RunFailure" "RunSuccess \<le> x" for x :: run_outcome
    by (cases x; simp add: less_eq_run_outcome_def)+
  show ?thesis
  proof (cases "e = None \<and> \<not> (\<exists>s \<in> set stats. es_failure s \<noteq> 0 \<and> es_required s)")
    case False
    then have "RunFailure \<in> insert (if e = None then RunSuccess else RunFailure) (effect_severity ` set stats)"
      by (force simp: effect_severity_def)
    then have "Max (insert (if e = None then RunSuccess else RunFailure) (effect_severity ` set stats)) = RunFailure"
      by (intro Max_eqI) (auto simp: le)
    with False show ?thesis by (auto simp: deriveRunOutcome_def outcome_loop_cases)
  next
    case True
    then have sev: "effect_severity s = (if es_failure s = 0 then RunSuccess else RunPartialSuccess)"
      if "s \<in> set stats" for s using that by (auto simp: effect_severity_def)
    have "Max (insert RunSuccess (effect_severity ` set stats)) =
        (if \<exists>s \<in> set stats. es_failure s \<noteq> 0 then RunPartialSuccess else RunSuccess)"
      by (intro Max_eqI) (auto simp: sev le image_iff less_eq_run_outcome_def)
    with True show ?thesis by (auto simp: deriveRunOutcome_def outcome_loop_cases)
  qed
qed

text \<open>
  Every finalizer runs, whatever the others return, sees the outcome, error and effect
  counters the caller gets, and has its result recorded at its own index.
\<close>

theorem finalizers_all_run:
  assumes "k < length (rn_finalizers r)"
  shows "\<exists>seen. sm_finalizer_errs (fst (Run r drain p e stats)) ! k = (rn_finalizers r ! k) seen \<and>
           sm_outcome seen = deriveRunOutcome stats (snd (Run r drain p e stats)) \<and>
           sm_err seen = snd (Run r drain p e stats) \<and>
           sm_effects seen = sm_effects (fst (Run r drain p e stats))"
proof -
  let ?e = "snd (Run r drain p e stats)"
  let ?s = "\<lparr>sm_outcome = deriveRunOutcome stats ?e, sm_err = ?e, sm_effects = effect_map stats,
      sm_finalizer_errs = replicate (length (rn_finalizers r)) None\<rparr>"
  from assms have "rn_finalizers r \<noteq> []" by auto
  then have "fst (Run r drain p e stats) = run_finalizers (rn_finalizers r) 0 ?s"
    by (simp add: Run_def Let_def)
  with run_finalizers_result [OF assms, of 0 ?s] show ?thesis by simp
qed

theorem finalizers_all_run_witness:
  "\<exists>seen :: run_summary. sm_finalizer_errs (fst (Run \<lparr>rn_terminal = [], rn_finalizers = [\<lambda>s. sm_err s, \<lambda>_. None]\<rparr>
            False None (Some Canceled) [])) ! 0 = sm_err seen \<and> sm_err seen = Some Canceled"
proof -
  let ?r = "\<lparr>rn_terminal = [], rn_finalizers = [\<lambda>s. sm_err s, \<lambda>_. None]\<rparr>"
  have "0 < length (rn_finalizers ?r)" by simp
  from finalizers_all_run [OF this, of False None "Some Canceled" "[]"]
  obtain seen where "sm_finalizer_errs (fst (Run ?r False None (Some Canceled) [])) ! 0 = (rn_finalizers ?r ! 0) seen"
    and "sm_err seen = snd (Run ?r False None (Some Canceled) [])" by blast
  then show ?thesis by - (rule exI [of _ seen], simp add: Run_def Let_def)
qed

text \<open>
  C19: Runners merged with \<^verbatim>\<open>MergeRunners\<close> over a well-formed graph build every stage that owns a channel once,
  whatever they share: the channels of different registered stages are disjoint, and every stage's inputs belong
  to stages registered before it. The stages without a channel are exactly the sinks of the runners, in order.
  What a sink reads from (its upstream, or what its fused chain reads from) is built, and building it again
  changes nothing; running the terminals a second time adds their sinks again and no channel.
\<close>

theorem merged_runners_build_once:
  assumes "graph_ok (set (concat (map (node_parts \<circ> tm_up) (rn_terminal r))))" and "\<forall>t \<in> set (rn_terminal r). terminal_ok t"
    and "MergeRunners rs = Inr r"
  shows "build_inv (run_graph r newRunCtx) \<and>
         rc_sinks (run_graph r newRunCtx) = map (meta_id \<circ> tm_meta) (concat (map rn_terminal rs)) \<and>
         (\<forall>t \<in> set (rn_terminal r). node_built (fst (sink_source t)) (run_graph r newRunCtx) \<and>
            build_node (fst (sink_source t)) (run_graph r newRunCtx) = run_graph r newRunCtx) \<and>
         rc_chans (run_graph r (run_graph r newRunCtx)) = rc_chans (run_graph r newRunCtx) \<and>
         rc_stages (run_graph r (run_graph r newRunCtx)) =
           rc_stages (run_graph r newRunCtx) @
           map (\<lambda>t. \<lparr>sf_outs = [], sf_ins = snd (sink_source t)\<rparr>) (rn_terminal r)"
proof -
  let ?G = "set (concat (map (node_parts \<circ> tm_up) (rn_terminal r)))" and ?rc = "run_graph r newRunCtx"
  have post: "build_inv ?rc" "\<forall>t \<in> set (rn_terminal r). node_built (fst (sink_source t)) ?rc"
    "rc_sinks ?rc = rc_sinks newRunCtx @ map (meta_id \<circ> tm_meta) (rn_terminal r)"
    using build_terminals_post [OF assms(1) subset_refl assms(2) build_inv_new] unfolding run_graph_def by simp_all
  have sinks: "rn_terminal r = concat (map rn_terminal rs)" using assms(3) by (auto simp: MergeRunners_def split: if_splits)
  have up: "node_ok (tm_up t)" if "t \<in> set (rn_terminal r)" for t
  proof -
    have "tm_up t \<in> set (node_parts (tm_up t))" by (cases "tm_up t") simp
    with that have "tm_up t \<in> ?G" by auto
    then show ?thesis using assms(1) unfolding graph_ok_def by blast
  qed
  have outs: "bp_outs (node_bp (fst (sink_source t))) \<noteq> []" if "t \<in> set (rn_terminal r)" for t
  proof -
    have "node_ok (fst (sink_source t))"
      using sink_source_ok [OF up [OF that], of "fst (sink_source t)" "snd (sink_source t)"] assms(2) that by simp
    then show ?thesis by (cases "fst (sink_source t)") simp
  qed
  have "\<forall>t \<in> set (rn_terminal r). node_ok (tm_up t) \<and> terminal_ok t \<and> node_built (fst (sink_source t)) ?rc"
    using up assms(2) post(2) by blast
  note again = build_terminals_again [OF this, folded run_graph_def]
  have "build_node (fst (sink_source t)) ?rc = ?rc" if "t \<in> set (rn_terminal r)" for t
    using build_node_again post(2) outs that by blast
  moreover have "rc_sinks newRunCtx = []" by (simp add: rc_sinks_def newRunCtx_def)
  ultimately show ?thesis using again post by (simp add: sinks)
qed

definition example_node :: "stage_id \<Rightarrow> string \<Rightarrow> bool \<Rightarrow> node list \<Rightarrow> node" where
  "example_node i kind fusion ins =
     Node \<lparr>bp_outs = [i], bp_meta = stageMeta i kind kind 16 (map (\<lambda>n. hd (bp_outs (node_bp n))) ins),
           bp_buffer = RunDefault, bp_consumers = 1, bp_fusion = fusion\<rparr> ins"

definition example_sink :: "stage_id \<Rightarrow> node \<Rightarrow> runner" where
  "example_sink i up =
     \<lparr>rn_terminal = [\<lparr>tm_meta = stageMeta i ''sink'' ''for_each'' 0 [hd (bp_outs (node_bp up))], tm_up = up, tm_fusible = True\<rparr>],
      rn_finalizers = []\<rparr>"

text \<open>A fused \<^verbatim>\<open>Map\<close> with its sink and an unfused \<^verbatim>\<open>Batch\<close> with its own over the same source.\<close>

theorem merged_runners_build_once_witness:
  "\<exists>r. MergeRunners [example_sink 4 (example_node 2 ''map'' True [example_node 1 ''source'' False []]),
                     example_sink 5 (example_node 3 ''batch'' False [example_node 1 ''source'' False []])] = Inr r \<and>
       rc_sinks (run_graph r newRunCtx) = [4, 5] \<and> {1, 3} \<subseteq> dom (rc_chans (run_graph r newRunCtx))"
proof -
  let ?rs = "[example_sink 4 (example_node 2 ''map'' True [example_node 1 ''source'' False []]),
              example_sink 5 (example_node 3 ''batch'' False [example_node 1 ''source'' False []])]"
  obtain r where r: "MergeRunners ?rs = Inr r" by (simp add: MergeRunners_def)
  then have ts: "rn_terminal r = concat (map rn_terminal ?rs)" by (auto simp: MergeRunners_def)
  have "graph_ok (set (concat (map (node_parts \<circ> tm_up) (rn_terminal r))))"
    by (auto simp: ts graph_ok_def example_sink_def example_node_def stageMeta_def)
  moreover have "\<forall>t \<in> set (rn_terminal r). terminal_ok t"
    by (simp add: ts terminal_ok_def example_sink_def example_node_def stageMeta_def)
  ultimately have "rc_sinks (run_graph r newRunCtx) = map (meta_id \<circ> tm_meta) (concat (map rn_terminal ?rs))"
    and "\<forall>t \<in> set (rn_terminal r). node_built (fst (sink_source t)) (run_graph r newRunCtx)"
    using merged_runners_build_once [OF _ _ r] by blast+
  then show ?thesis
    using r by (simp add: ts node_built_def sink_source_def terminal_fused_def fusion_open_def example_sink_def
        example_node_def stageMeta_def)
qed

text \<open>
  A fused chain gives the producer it reads from a second drain entry, for one consumer: from then on no
  signal reaches the entry whose channel the producer listens to, and the first signal for the producer, from
  whichever of its consumers, closes the channel that the fused stage itself listens to.
\<close>

theorem fusion_replaces_drain_entry:
  assumes "terminal_fused t" and "tm_up t = Node b (p0 # ins)" and "\<not> fusion_open p0"
    and "meta_inputs (bp_meta b) = [i]"
    and "rc_drain (build_node p0 rc) i = Some e" and "e < length (rc_entries (build_node p0 rc))"
  shows "\<exists>rc'. signalDrain i (build_terminal t rc) = Some rc' \<and> drained rc' i
           \<and> rc_drain (build_terminal t rc) i \<noteq> Some e \<and> rc_entries rc' ! e = rc_entries (build_node p0 rc) ! e"
proof -
  have "rc_drain (build_terminal t rc) = (rc_drain (build_node p0 rc))(i \<mapsto> length (rc_entries (build_node p0 rc)))"
    "rc_entries (build_terminal t rc) = rc_entries (build_node p0 rc) @ [\<lparr>de_refs = 1, de_closed = False\<rparr>]"
    using assms(1-4) by (simp_all add: build_terminal_def rc_add_def initDrainNotify_def Let_def)
  with assms(6) show ?thesis by (auto simp: signalDrain_def drained_def Let_def nth_append)
qed

theorem fusion_replaces_drain_entry_witness:
  "\<exists>t rc'. terminal_fused t \<and> rc_drain (build_node (example_node 1 ''source'' False []) newRunCtx) 1 = Some 0 \<and>
      signalDrain 1 (build_terminal t newRunCtx) = Some rc' \<and> drained rc' 1 \<and> rc_drain (build_terminal t newRunCtx) 1 \<noteq> Some 0"
proof -
  let ?src = "example_node 1 ''source'' False []"
  let ?t = "hd (rn_terminal (example_sink 3 (example_node 2 ''map'' True [?src])))"
  have src: "rc_drain (build_node ?src newRunCtx) 1 = Some 0" "0 < length (rc_entries (build_node ?src newRunCtx))"
    by (simp_all add: example_node_def register_stage_def rc_add_def newRunCtx_def getChan_def setChan_def
        initMultiOutputDrainNotify_def Let_def)
  have t: "terminal_fused ?t" "\<not> fusion_open ?src"
    by (simp_all add: terminal_fused_def fusion_open_def example_sink_def example_node_def)
  obtain b where b: "tm_up ?t = Node b [?src]" "meta_inputs (bp_meta b) = [1]"
    by (simp add: example_sink_def example_node_def stageMeta_def)
  from fusion_replaces_drain_entry [OF t(1) b(1) t(2) b(2) src] t(1) src(1) show ?thesis by blast
qed

end
