(* ===== verification/Operator.thy ===== *)
theory Operator
  imports Run_Context
begin

text \<open>
  What every operator constructor builds: the description of its stage, its place in the
  graph and its loop. The \<^verbatim>\<open>build\<close> closure around the loop is the same text in every operator
  and is \<^verbatim>\<open>register_stage\<close>; the deferred calls around the loop are \<^verbatim>\<open>exit_effects\<close>.

  The locale \<^verbatim>\<open>transducer\<close> is the contract of the operators whose item arm never returns:
  each item makes some sends and changes the local variables, and a closed input makes some
  last sends and returns nil. Operators interpret it on their own loops and inherit the facts
  of \<^verbatim>\<open>stream_stage\<close>.
\<close>

section \<open>Operators\<close>

record ('s, 'e, 'o) operator =
  op_outs :: "stage_id list"
  op_meta :: stage_meta
  op_buffer :: buffer_choice
  op_upstream :: "stage_id list"
  op_signals_done :: bool
  op_loop :: "('s, 'e, 'o) loop"

definition config_buffer :: "('a, 'v) stage_config \<Rightarrow> buffer_choice" where
  "config_buffer cfg = (if cfg_buffer_explicit cfg then Explicit (cfg_buffer cfg) else RunDefault)"

lemma config_buffer_effective: "bp_bufsize rc b = effectiveBufSize rc cfg" if "bp_buffer b = config_buffer cfg"
  using that by (simp add: bp_bufsize_def config_buffer_def effectiveBufSize_def)

text \<open>An operator with one input and one output that takes stage options.\<close>

definition unary ::
  "string \<Rightarrow> ('a, 'v) stage_config \<Rightarrow> stage_id \<Rightarrow> stage_id \<Rightarrow> ('s, 'e, 'o) loop \<Rightarrow> ('s, 'e, 'o) operator" where
  "unary kind cfg i p body =
     \<lparr>op_outs = [i], op_meta = stageMeta i kind (orDefault (cfg_name cfg) kind) (cfg_buffer cfg) [p],
      op_buffer = config_buffer cfg, op_upstream = [p], op_signals_done = False, op_loop = body\<rparr>"

text \<open>An operator with one input and one output that takes no options.\<close>

definition unary_plain ::
  "string \<Rightarrow> bool \<Rightarrow> stage_id \<Rightarrow> stage_id \<Rightarrow> ('s, 'e, 'o) loop \<Rightarrow> ('s, 'e, 'o) operator" where
  "unary_plain kind signals_done i p body =
     \<lparr>op_outs = [i], op_meta = stageMeta i kind kind DefaultBuffer [p],
      op_buffer = RunDefault, op_upstream = [p], op_signals_done = signals_done, op_loop = body\<rparr>"

lemma op_loop_unary [simp]: "op_loop (unary kind cfg i p body) = body"
  by (simp add: unary_def)

lemma op_loop_unary_plain [simp]: "op_loop (unary_plain kind d i p body) = body"
  by (simp add: unary_plain_def)

definition op_blueprint :: "int \<Rightarrow> ('s, 'e, 'o) operator \<Rightarrow> blueprint" where
  "op_blueprint consumers op =
     \<lparr>bp_outs = op_outs op, bp_meta = op_meta op, bp_buffer = op_buffer op, bp_consumers = consumers,
      bp_fusion = meta_fusion (op_meta op)\<rparr>"

text \<open>
  The deferred calls, in the order they run (last deferred first): \<^verbatim>\<open>signalDone\<close> where the
  operator has it, a drain signal to each input, a \<^verbatim>\<open>DrainChan\<close> goroutine per input unless the
  stage left through its drain arm, and the close of the outputs.
\<close>

datatype exit_effect =
    DoneSignalled
  | DrainSignalled stage_id
  | DrainChanStarted stage_id
  | OutClosed stage_id

definition exit_effects :: "('s, 'e, 'o) operator \<Rightarrow> bool \<Rightarrow> exit_effect list" where
  "exit_effects op cooperativeDrain =
     (if op_signals_done op then [DoneSignalled] else [])
     @ map DrainSignalled (rev (op_upstream op))
     @ (if cooperativeDrain then [] else map DrainChanStarted (op_upstream op))
     @ map OutClosed (rev (op_outs op))"

text \<open>\<^verbatim>\<open>WrapStageErr\<close> on an error that is not nil is an error that is not nil.\<close>

definition wrapped :: "string \<Rightarrow> go_error \<Rightarrow> nat \<Rightarrow> go_error" where
  "wrapped name e attempt = (case WrapStageErr name (Some e) attempt of Some e' \<Rightarrow> e' | None \<Rightarrow> e)"

lemma WrapStageErr_Some: "WrapStageErr name (Some e) attempt = Some (wrapped name e attempt)"
  by (simp add: wrapped_def WrapStageErr_def)

section \<open>Transducers\<close>

fun emissions :: "('s \<Rightarrow> 'a \<Rightarrow> 's) \<Rightarrow> ('s \<Rightarrow> 'a \<Rightarrow> 'o list) \<Rightarrow> 's \<Rightarrow> 'a list \<Rightarrow> 'o list" where
  "emissions next out s [] = []"
| "emissions next out s (x # xs) = out s x @ emissions next out (next s x) xs"

lemma emissions_append:
  "emissions next out s (xs @ ys) = emissions next out s xs @ emissions next out (foldl next s xs) ys"
  by (induction xs arbitrary: s) auto

text \<open>
  The wider contract: an item arm may also return, with an error, after some sends. The loop
  has no check at its head and all its arms are always armed.
\<close>

fun try_run :: "('s \<Rightarrow> 'a \<Rightarrow> 'o list \<times> 's result) \<Rightarrow> 's \<Rightarrow> 'a list \<Rightarrow> 'o list \<times> 's result" where
  "try_run g s [] = ([], Inr s)"
| "try_run g s (x # xs) =
     (case g s x of
        (os, Inl er) \<Rightarrow> (os, Inl er)
      | (os, Inr s') \<Rightarrow> (case try_run g s' xs of (os', r) \<Rightarrow> (os @ os', r)))"

fun result_outcome :: "'s result \<Rightarrow> 's outcome" where
  "result_outcome (Inl er) = Return (Some er)"
| "result_outcome (Inr s) = Continue s"

definition result_error :: "'s result \<Rightarrow> go_error option" where
  "result_error r = (case r of Inl er \<Rightarrow> Some er | Inr _ \<Rightarrow> None)"

locale fallible =
  fixes m :: "('s, 'a recv, 'o) loop"
    and g :: "'s \<Rightarrow> 'a \<Rightarrow> 'o list \<times> 's result"
    and fin :: "'s \<Rightarrow> 'o list"
  assumes head: "loop_head m = (\<lambda>_. None)"
    and all_listen: "loop_listens m s e"
    and step_item: "loop_step m s (Item x) = Act (fst (g s x)) (result_outcome (snd (g s x)))"
    and step_closed: "loop_step m s Closed = Act (fin s) (Return None)"
begin

lemma exec_items: "exec m s (items xs) = (fst (try_run g s xs), result_outcome (snd (try_run g s xs)))"
  by (induction xs arbitrary: s)
    (auto simp: head step_item settle_def split: prod.splits sum.splits)

lemma exec_closing:
  "exec m s (closing xs) =
     (fst (try_run g s xs) @ (case snd (try_run g s xs) of Inl _ \<Rightarrow> [] | Inr s' \<Rightarrow> fin s'),
      Return (result_error (snd (try_run g s xs))))"
  by (auto simp: closing_items exec_append exec_items resume_def step_closed head result_error_def
      split: sum.splits)

end

sublocale fallible \<subseteq> stage: stream_stage m "\<lambda>xs. fst (try_run g (loop_init m) xs)"
    "\<lambda>xs. fst (try_run g (loop_init m) xs) @
       (case snd (try_run g (loop_init m) xs) of Inl _ \<Rightarrow> [] | Inr s' \<Rightarrow> fin s')"
    "\<lambda>xs. result_error (snd (try_run g (loop_init m) xs))"
  by unfold_locales (simp_all add: outputs_def returns_def exec_items exec_closing all_listen)

locale transducer =
  fixes f :: "'s \<Rightarrow> 'a recv \<Rightarrow> ('s, 'o) act"
    and init :: 's
    and nxt :: "'s \<Rightarrow> 'a \<Rightarrow> 's"
    and out :: "'s \<Rightarrow> 'a \<Rightarrow> 'o list"
    and fin :: "'s \<Rightarrow> 'o list"
  assumes step_item: "f s (Item x) = Act (out s x) (Continue (nxt s x))"
    and step_closed: "f s Closed = Act (fin s) (Return None)"
begin

lemma try_emissions:
  "try_run (\<lambda>s x. (out s x, Inr (nxt s x))) s xs = (emissions nxt out s xs, Inr (foldl nxt s xs))"
  by (induction xs arbitrary: s) auto

end

sublocale transducer \<subseteq> infallible: fallible "select_loop init f" "\<lambda>s x. (out s x, Inr (nxt s x))" fin
  by unfold_locales (simp_all add: step_item step_closed)

context transducer
begin

lemma exec_items: "exec (select_loop init f) s (items xs) = (emissions nxt out s xs, Continue (foldl nxt s xs))"
  by (simp add: infallible.exec_items try_emissions)

lemma exec_closing:
  "exec (select_loop init f) s (closing xs) =
     (emissions nxt out s xs @ fin (foldl nxt s xs), Return None)"
  by (simp add: infallible.exec_closing try_emissions result_error_def)

lemma outputs_items: "outputs (select_loop init f) (items xs) = emissions nxt out init xs"
  by (simp add: outputs_def exec_items)

lemma outputs_closing:
  "outputs (select_loop init f) (closing xs) = emissions nxt out init xs @ fin (foldl nxt init xs)"
  by (simp add: outputs_def exec_closing)

lemma returns_closing: "returns (select_loop init f) (closing xs) = Return None"
  by (simp add: returns_def exec_closing)

lemmas results = outputs_items outputs_closing returns_closing

end

sublocale transducer \<subseteq> stage: stream_stage "select_loop init f" "emissions nxt out init"
    "\<lambda>xs. emissions nxt out init xs @ fin (foldl nxt init xs)" "\<lambda>_. None"
  by unfold_locales (simp_all add: outputs_items outputs_closing returns_closing)

text \<open>Emissions of the common shapes.\<close>

lemma emissions_map: "(\<And>s x. out s x = [g x]) \<Longrightarrow> emissions nxt out s xs = map g xs"
  by (induction xs arbitrary: s) auto

lemma emissions_none: "(\<And>s x. out s x = []) \<Longrightarrow> emissions nxt out s xs = []"
  by (induction xs arbitrary: s) auto

end
