(* ===== verification/Aggregate.thy ===== *)
theory Aggregate
  imports Operator Key_Sets
begin

text \<open>
  The operators of \<^verbatim>\<open>aggregate.go\<close>: \<^verbatim>\<open>Scan\<close>, \<^verbatim>\<open>Reduce\<close>, \<^verbatim>\<open>DistinctBy\<close>, \<^verbatim>\<open>DedupeBy\<close> (with its
  four arms), \<^verbatim>\<open>GroupBy\<close>, \<^verbatim>\<open>FrequenciesBy\<close> and the running per-key aggregates. Go maps are
  HOL maps; a snapshot sent downstream is the map's value at that moment. Counts stay below
  \<^verbatim>\<open>2^63\<close> for any run that ends.
\<close>

section \<open>Scan and Reduce\<close>

fun scan_step :: "('s \<Rightarrow> 'a \<Rightarrow> 's) \<Rightarrow> 's \<Rightarrow> 'a recv \<Rightarrow> ('s, 's) act" where
  "scan_step fn state Closed = Act [] (Return None)"
| "scan_step fn state (Item item) =
     (let state = fn state item in Act [state] (Continue state))"

definition Scan ::
  "('a, 'v) stage_config \<Rightarrow> stage_id \<Rightarrow> stage_id \<Rightarrow> 's \<Rightarrow> ('s \<Rightarrow> 'a \<Rightarrow> 's) \<Rightarrow> ('s, 'a recv, 's) operator" where
  "Scan cfg i p initial fn = unary ''scan'' cfg i p (select_loop initial (scan_step fn))"

interpretation scan: transducer "scan_step fn" initial fn "\<lambda>s x. [fn s x]" "\<lambda>_. []"
  for fn :: "'s \<Rightarrow> 'a \<Rightarrow> 's" and initial
  by unfold_locales (simp_all add: Let_def)

text \<open>The running states after each item, the initial one left out.\<close>

definition scans :: "('s \<Rightarrow> 'a \<Rightarrow> 's) \<Rightarrow> 's \<Rightarrow> 'a list \<Rightarrow> 's list" where
  "scans fn s xs = map (\<lambda>k. foldl fn s (take (Suc k) xs)) [0..<length xs]"

lemma emissions_scan: "emissions fn (\<lambda>s x. [fn s x]) s xs = scans fn s xs"
proof (induction xs arbitrary: s)
  case (Cons x xs)
  have "scans fn s (x # xs) = fn s x # scans fn (fn s x) xs"
    by (simp add: scans_def map_upt_Suc del: upt_Suc)
  with Cons show ?case by simp
qed (simp add: scans_def)

fun reduce_step :: "('s \<Rightarrow> 'a \<Rightarrow> 's) \<Rightarrow> 's \<Rightarrow> 'a recv \<Rightarrow> ('s, 's) act" where
  "reduce_step fn state Closed = Act [state] (Return None)"
| "reduce_step fn state (Item item) = Act [] (Continue (fn state item))"

definition Reduce ::
  "('a, 'v) stage_config \<Rightarrow> stage_id \<Rightarrow> stage_id \<Rightarrow> 's \<Rightarrow> ('s \<Rightarrow> 'a \<Rightarrow> 's) \<Rightarrow> ('s, 'a recv, 's) operator" where
  "Reduce cfg i p initial fn = unary ''reduce'' cfg i p (select_loop initial (reduce_step fn))"

interpretation reduce: transducer "reduce_step fn" initial fn "\<lambda>_ _. []" "\<lambda>s. [s]"
  for fn :: "'s \<Rightarrow> 'a \<Rightarrow> 's" and initial
  by unfold_locales simp_all

section \<open>Distinct\<close>

fun distinct_step :: "('a \<Rightarrow> 'k) \<Rightarrow> 'k set \<Rightarrow> 'a recv \<Rightarrow> ('k set, 'a) act" where
  "distinct_step keyFn seen Closed = Act [] (Return None)"
| "distinct_step keyFn seen (Item item) =
     (let k = keyFn item in
      if k \<in> seen then Act [] (Continue seen) else Act [item] (Continue (insert k seen)))"

definition DistinctBy ::
  "('a, 'v) stage_config \<Rightarrow> stage_id \<Rightarrow> stage_id \<Rightarrow> ('a \<Rightarrow> 'k) \<Rightarrow> ('k set, 'a recv, 'a) operator" where
  "DistinctBy cfg i p keyFn = unary ''distinct_by'' cfg i p (select_loop {} (distinct_step keyFn))"

definition Distinct :: "('a, 'v) stage_config \<Rightarrow> stage_id \<Rightarrow> stage_id \<Rightarrow> ('a set, 'a recv, 'a) operator" where
  "Distinct cfg i p = DistinctBy cfg i p (\<lambda>v. v)"

interpretation distinct: transducer "distinct_step keyFn" "{}" "\<lambda>seen x. insert (keyFn x) seen"
    "\<lambda>seen x. if keyFn x \<in> seen then [] else [x]" "\<lambda>_. []"
  for keyFn :: "'a \<Rightarrow> 'k"
  by unfold_locales (simp_all add: Let_def insert_absorb)

lemma emissions_distinct:
  "emissions (\<lambda>seen x. insert (keyFn x) seen) (\<lambda>seen x. if keyFn x \<in> seen then [] else [x]) seen xs =
     first_by keyFn seen xs"
  by (induction xs arbitrary: seen) (auto simp: insert_absorb)

section \<open>Dedupe\<close>

text \<open>
  The arm with an external \<^verbatim>\<open>DedupSet\<close>: its \<^verbatim>\<open>Contains\<close> and \<^verbatim>\<open>Add\<close> are parameters and may fail;
  \<^verbatim>\<open>show_key\<close> is \<^verbatim>\<open>fmt.Sprintf("%v", key)\<close>.
\<close>

fun dedupe_set_step ::
  "('t \<Rightarrow> string \<Rightarrow> 't \<times> bool result) \<Rightarrow> ('t \<Rightarrow> string \<Rightarrow> 't result) \<Rightarrow> ('a \<Rightarrow> string) \<Rightarrow>
   't \<Rightarrow> 'a recv \<Rightarrow> ('t, 'a) act" where
  "dedupe_set_step contains add show_key t Closed = Act [] (Return None)"
| "dedupe_set_step contains add show_key t (Item item) =
     (let k = show_key item in
      case contains t k of
        (t, Inl err) \<Rightarrow> Act [] (Return (Some err))
      | (t, Inr dup) \<Rightarrow>
          if dup then Act [] (Continue t)
          else (case add t k of
                  Inl err \<Rightarrow> Act [] (Return (Some err))
                | Inr t \<Rightarrow> Act [item] (Continue t)))"

text \<open>The arm \<^verbatim>\<open>dedupeWindow == 1\<close>: suppress adjacent duplicates; \<^verbatim>\<open>None\<close> is \<^verbatim>\<open>first\<close>.\<close>

fun dedupe_adjacent_step :: "('a \<Rightarrow> 'k) \<Rightarrow> 'k option \<Rightarrow> 'a recv \<Rightarrow> ('k option, 'a) act" where
  "dedupe_adjacent_step keyFn lastKey Closed = Act [] (Return None)"
| "dedupe_adjacent_step keyFn lastKey (Item item) =
     (let k = keyFn item in
      if lastKey = Some k then Act [] (Continue lastKey) else Act [item] (Continue (Some k)))"

text \<open>The sliding-window arm, \<^verbatim>\<open>n > 1\<close>.\<close>

fun dedupe_window_step :: "nat \<Rightarrow> ('a \<Rightarrow> 'k) \<Rightarrow> 'k list \<Rightarrow> 'a recv \<Rightarrow> ('k list, 'a) act" where
  "dedupe_window_step n keyFn window Closed = Act [] (Return None)"
| "dedupe_window_step n keyFn window (Item item) =
     (let k = keyFn item in
      if k \<in> set window then Act [] (Continue window)
      else
        let window = (if length window \<ge> n then tl window else window)
        in Act [item] (Continue (window @ [k])))"

text \<open>
  \<^verbatim>\<open>DedupeBy\<close>: the switch over the four arms. The local variables of the arms are the
  constructors of one type.
\<close>

datatype ('t, 'k) dedupe_vars = SetVars 't | SeenVars "'k set" | LastVars "'k option" | WindowVars "'k list"

fun map_act :: "('s \<Rightarrow> 't) \<Rightarrow> ('s, 'o) act \<Rightarrow> ('t, 'o) act" where
  "map_act g (Act os (Continue s)) = Act os (Continue (g s))"
| "map_act g (Act os (Return r)) = Act os (Return r)"

definition dedupe_step ::
  "('t \<Rightarrow> string \<Rightarrow> 't \<times> bool result) \<Rightarrow> ('t \<Rightarrow> string \<Rightarrow> 't result) \<Rightarrow> ('k \<Rightarrow> string) \<Rightarrow> int \<Rightarrow>
   ('a \<Rightarrow> 'k) \<Rightarrow> ('t, 'k) dedupe_vars \<Rightarrow> 'a recv \<Rightarrow> (('t, 'k) dedupe_vars, 'a) act" where
  "dedupe_step contains add fmt n keyFn vars e =
     (case vars of
        SetVars t \<Rightarrow> map_act SetVars (dedupe_set_step contains add (\<lambda>x. fmt (keyFn x)) t e)
      | SeenVars seen \<Rightarrow> map_act SeenVars (distinct_step keyFn seen e)
      | LastVars l \<Rightarrow> map_act LastVars (dedupe_adjacent_step keyFn l e)
      | WindowVars w \<Rightarrow> map_act WindowVars (dedupe_window_step (nat n) keyFn w e))"

definition DedupeBy ::
  "('a, 'v) stage_config \<Rightarrow> stage_id \<Rightarrow> stage_id \<Rightarrow> 't option \<Rightarrow>
   ('t \<Rightarrow> string \<Rightarrow> 't \<times> bool result) \<Rightarrow> ('t \<Rightarrow> string \<Rightarrow> 't result) \<Rightarrow> ('k \<Rightarrow> string) \<Rightarrow>
   ('a \<Rightarrow> 'k) \<Rightarrow> (('t, 'k) dedupe_vars, 'a recv, 'a) operator" where
  "DedupeBy cfg i p dedupSet contains add fmt keyFn =
     unary ''dedupe_by'' cfg i p
       (select_loop
         (case dedupSet of
            Some t \<Rightarrow> SetVars t
          | None \<Rightarrow> if cfg_dedupe_window cfg = 0 then SeenVars {}
                    else if cfg_dedupe_window cfg = 1 then LastVars None else WindowVars [])
         (dedupe_step contains add fmt (cfg_dedupe_window cfg) keyFn))"

text \<open>A step whose variables stay under one constructor runs as the step underneath.\<close>

lemma exec_map_act:
  assumes "\<And>s e. f (g s) e = map_act g (f' s e)"
  shows "exec (select_loop a f) (g s) es =
           (fst (exec (select_loop b f') s es),
            case snd (exec (select_loop b f') s es) of Continue s' \<Rightarrow> Continue (g s') | Return r \<Rightarrow> Return r)"
proof (induction es arbitrary: s)
  case Nil
  then show ?case by (simp add: settle_def)
next
  case (Cons e es)
  obtain os n where act: "f' s e = Act os n" by (cases "f' s e")
  then show ?case
    using Cons by (cases n) (auto simp: assms split: prod.splits)
qed

interpretation adjacent: transducer "dedupe_adjacent_step keyFn" None "\<lambda>_ x. Some (keyFn x)"
    "\<lambda>l x. if l = Some (keyFn x) then [] else [x]" "\<lambda>_. []"
  for keyFn :: "'a \<Rightarrow> 'k"
  by unfold_locales (simp_all add: Let_def)

interpretation window: transducer "dedupe_window_step n keyFn" "[]"
    "\<lambda>w x. if keyFn x \<in> set w then w else (if length w \<ge> n then tl w else w) @ [keyFn x]"
    "\<lambda>w x. if keyFn x \<in> set w then [] else [x]" "\<lambda>_. []"
  for n :: nat and keyFn :: "'a \<Rightarrow> 'k"
  by unfold_locales (simp_all add: Let_def)

text \<open>Adjacent deduplication: the heads of the runs of equal keys.\<close>

fun run_heads :: "('a \<Rightarrow> 'k) \<Rightarrow> 'k option \<Rightarrow> 'a list \<Rightarrow> 'a list" where
  "run_heads key l [] = []"
| "run_heads key l (x # xs) =
     (if l = Some (key x) then run_heads key l xs else x # run_heads key (Some (key x)) xs)"

lemma emissions_adjacent:
  "emissions (\<lambda>_ x. Some (keyFn x)) (\<lambda>l x. if l = Some (keyFn x) then [] else [x]) l xs = run_heads keyFn l xs"
proof (induction xs arbitrary: l)
  case (Cons x xs)
  then show ?case by (cases "l = Some (keyFn x)") auto
qed simp

lemma run_heads_adjacent:
  "l = None \<or> True \<Longrightarrow> distinct_adj (map keyFn (run_heads keyFn l xs)) \<and>
     (run_heads keyFn l xs \<noteq> [] \<longrightarrow> l \<noteq> Some (keyFn (hd (run_heads keyFn l xs))))"
proof (induction xs arbitrary: l)
  case (Cons x xs)
  show ?case
  proof (cases "l = Some (keyFn x)")
    case True
    with Cons show ?thesis by auto
  next
    case False
    have "distinct_adj (map keyFn (run_heads keyFn (Some (keyFn x)) xs)) \<and>
       (run_heads keyFn (Some (keyFn x)) xs \<noteq> [] \<longrightarrow>
          keyFn x \<noteq> keyFn (hd (run_heads keyFn (Some (keyFn x)) xs)))"
      using Cons.IH [of "Some (keyFn x)"] by auto
    with False show ?thesis
      by (cases "run_heads keyFn (Some (keyFn x)) xs") auto
  qed
qed simp

text \<open>The external-set arm over a set that never fails is \<^verbatim>\<open>dedup_items\<close>.\<close>

lemma exec_dedupe_set:
  "exec (select_loop t0 (dedupe_set_step (\<lambda>s k. (fst (contains s k), Inr (snd (contains s k))))
      (\<lambda>s k. Inr (add s k)) key)) t (closing xs) =
   (dedup_items contains add key t xs, Return None)"
  by (induction xs arbitrary: t) (auto simp: Let_def split: prod.splits)

section \<open>GroupBy and Frequencies\<close>

fun group_step :: "('a \<Rightarrow> 'k) \<Rightarrow> ('k \<rightharpoonup> 'a list) \<Rightarrow> 'a recv \<Rightarrow> ('k \<rightharpoonup> 'a list, 'k \<rightharpoonup> 'a list) act" where
  "group_step keyFn groups Closed = Act [groups] (Return None)"
| "group_step keyFn groups (Item item) =
     (let k = keyFn item;
          old = (case groups k of Some g \<Rightarrow> g | None \<Rightarrow> [])
      in Act [] (Continue (groups(k \<mapsto> old @ [item]))))"

definition GroupBy ::
  "('a, 'v) stage_config \<Rightarrow> stage_id \<Rightarrow> stage_id \<Rightarrow> ('a \<Rightarrow> 'k) \<Rightarrow>
   ('k \<rightharpoonup> 'a list, 'a recv, 'k \<rightharpoonup> 'a list) operator" where
  "GroupBy cfg i p keyFn = unary ''group_by'' cfg i p (select_loop Map.empty (group_step keyFn))"

definition group_next :: "('a \<Rightarrow> 'k) \<Rightarrow> ('k \<rightharpoonup> 'a list) \<Rightarrow> 'a \<Rightarrow> ('k \<rightharpoonup> 'a list)" where
  "group_next keyFn m x = m(keyFn x \<mapsto> (case m (keyFn x) of Some g \<Rightarrow> g | None \<Rightarrow> []) @ [x])"

interpretation group: transducer "group_step keyFn" Map.empty "group_next keyFn" "\<lambda>_ _. []" "\<lambda>m. [m]"
  for keyFn :: "'a \<Rightarrow> 'k"
  by unfold_locales (simp_all add: Let_def group_next_def)

lemma group_fold:
  "foldl (group_next keyFn) m xs k =
     (let g = filter (\<lambda>x. keyFn x = k) xs in
      case m k of Some old \<Rightarrow> Some (old @ g) | None \<Rightarrow> if g = [] then None else Some g)"
  by (induction xs arbitrary: m) (auto simp: group_next_def Let_def split: option.splits if_splits)

text \<open>
  A count or sum per key with zero for absent keys, as \<^verbatim>\<open>m[k]++\<close> and \<^verbatim>\<open>m[k] += v\<close> do in Go.
\<close>

definition bump :: "('a \<Rightarrow> 'k) \<Rightarrow> ('a \<Rightarrow> 'v::{zero, plus}) \<Rightarrow> ('k \<rightharpoonup> 'v) \<Rightarrow> 'a \<Rightarrow> ('k \<rightharpoonup> 'v)" where
  "bump keyFn valueFn m x =
     m(keyFn x \<mapsto> (case m (keyFn x) of Some v \<Rightarrow> v | None \<Rightarrow> 0) + valueFn x)"

fun frequencies_step :: "('a \<Rightarrow> 'k) \<Rightarrow> ('k \<rightharpoonup> nat) \<Rightarrow> 'a recv \<Rightarrow> ('k \<rightharpoonup> nat, 'k \<rightharpoonup> nat) act" where
  "frequencies_step keyFn counts Closed = Act [counts] (Return None)"
| "frequencies_step keyFn counts (Item item) = Act [] (Continue (bump keyFn (\<lambda>_. 1) counts item))"

definition FrequenciesBy ::
  "('a, 'v) stage_config \<Rightarrow> stage_id \<Rightarrow> stage_id \<Rightarrow> ('a \<Rightarrow> 'k) \<Rightarrow> ('k \<rightharpoonup> nat, 'a recv, 'k \<rightharpoonup> nat) operator" where
  "FrequenciesBy cfg i p keyFn =
     unary ''frequencies_by'' cfg i p (select_loop Map.empty (frequencies_step keyFn))"

definition Frequencies ::
  "('a, 'v) stage_config \<Rightarrow> stage_id \<Rightarrow> stage_id \<Rightarrow> ('a \<rightharpoonup> nat, 'a recv, 'a \<rightharpoonup> nat) operator" where
  "Frequencies cfg i p = FrequenciesBy cfg i p (\<lambda>v. v)"

fun running_step ::
  "('a \<Rightarrow> 'k) \<Rightarrow> ('a \<Rightarrow> 'v::{zero, plus}) \<Rightarrow> ('k \<rightharpoonup> 'v) \<Rightarrow> 'a recv \<Rightarrow> ('k \<rightharpoonup> 'v, 'k \<rightharpoonup> 'v) act" where
  "running_step keyFn valueFn m Closed = Act [] (Return None)"
| "running_step keyFn valueFn m (Item item) =
     (let m = bump keyFn valueFn m item; snapshot = m in Act [snapshot] (Continue m))"

definition RunningFrequenciesBy ::
  "('a, 'v) stage_config \<Rightarrow> stage_id \<Rightarrow> stage_id \<Rightarrow> ('a \<Rightarrow> 'k) \<Rightarrow> ('k \<rightharpoonup> nat, 'a recv, 'k \<rightharpoonup> nat) operator" where
  "RunningFrequenciesBy cfg i p keyFn =
     unary ''running_frequencies_by'' cfg i p (select_loop Map.empty (running_step keyFn (\<lambda>_. 1)))"

definition RunningFrequencies ::
  "('a, 'v) stage_config \<Rightarrow> stage_id \<Rightarrow> stage_id \<Rightarrow> ('a \<rightharpoonup> nat, 'a recv, 'a \<rightharpoonup> nat) operator" where
  "RunningFrequencies cfg i p = RunningFrequenciesBy cfg i p (\<lambda>v. v)"

definition RunningCountBy ::
  "('a, 'v) stage_config \<Rightarrow> stage_id \<Rightarrow> stage_id \<Rightarrow> ('a \<Rightarrow> 'k) \<Rightarrow> ('k \<rightharpoonup> nat, 'a recv, 'k \<rightharpoonup> nat) operator" where
  "RunningCountBy cfg i p keyFn =
     unary ''running_count_by'' cfg i p (select_loop Map.empty (running_step keyFn (\<lambda>_. 1)))"

definition RunningSumBy ::
  "('a, 'w) stage_config \<Rightarrow> stage_id \<Rightarrow> stage_id \<Rightarrow> ('a \<Rightarrow> 'k) \<Rightarrow> ('a \<Rightarrow> 'v::{zero, plus}) \<Rightarrow>
   ('k \<rightharpoonup> 'v, 'a recv, 'k \<rightharpoonup> 'v) operator" where
  "RunningSumBy cfg i p keyFn valueFn =
     unary ''running_sum_by'' cfg i p (select_loop Map.empty (running_step keyFn valueFn))"

interpretation freq: transducer "frequencies_step keyFn" Map.empty "bump keyFn (\<lambda>_. 1)" "\<lambda>_ _. []" "\<lambda>m. [m]"
  for keyFn :: "'a \<Rightarrow> 'k"
  by unfold_locales simp_all

interpretation running: transducer "running_step keyFn valueFn" Map.empty "bump keyFn valueFn"
    "\<lambda>m x. [bump keyFn valueFn m x]" "\<lambda>_. []"
  for keyFn :: "'a \<Rightarrow> 'k" and valueFn :: "'a \<Rightarrow> 'v::{zero, plus}"
  by unfold_locales (simp_all add: Let_def)

lemma bump_fold:
  fixes valueFn :: "'a \<Rightarrow> 'v::comm_monoid_add"
  shows "foldl (bump keyFn valueFn) m xs k =
     (let g = filter (\<lambda>x. keyFn x = k) xs in
      if g = [] then m k
      else Some ((case m k of Some v \<Rightarrow> v | None \<Rightarrow> 0) + sum_list (map valueFn g)))"
  by (induction xs arbitrary: m) (auto simp: bump_def Let_def add.assoc split: option.splits if_splits)

lemma sum_list_ones: "sum_list (map (\<lambda>_. Suc 0) xs) = length xs"
  by (induction xs) auto

lemma bump_count:
  "foldl (bump keyFn (\<lambda>_. 1::nat)) Map.empty xs k =
     (let n = length (filter (\<lambda>x. keyFn x = k) xs) in if n = 0 then None else Some n)"
  by (simp add: bump_fold Let_def sum_list_ones)

section \<open>Properties of deduplication and grouping\<close>

text \<open>
  \<^verbatim>\<open>DedupeBy\<close> with an unbounded window, and \<^verbatim>\<open>DedupeBy\<close> with the in-memory set under an
  injective key formatting, emit exactly the first item of every key in order of arrival: no key
  twice and every key that arrived once.
\<close>

theorem dedupe_emits_first_of_each_key:
  assumes "cfg_dedupe_window cfg = 0" and "inj fmt"
  shows "outputs (op_loop (DedupeBy cfg i p None contains add fmt keyFn)) (closing xs) = first_by keyFn {} xs \<and>
         outputs (op_loop (DedupeBy cfg i p (Some MemoryDedupSet)
            (\<lambda>s k. (fst (mem_Contains s k), Inr (snd (mem_Contains s k)))) (\<lambda>s k. Inr (mem_Add s k)) fmt keyFn))
            (closing xs) = first_by keyFn {} xs \<and>
         distinct (map keyFn (first_by keyFn {} xs)) \<and>
         keyFn ` set (first_by keyFn {} xs) = keyFn ` set xs"
proof -
  have seen: "exec (select_loop (SeenVars {}) (dedupe_step contains add fmt 0 keyFn)) (SeenVars {}) (closing xs) =
      (first_by keyFn {} xs, Return None)"
    using exec_map_act [of "dedupe_step contains add fmt 0 keyFn" SeenVars "distinct_step keyFn" "SeenVars {}" "{}" "closing xs" "{}"]
    by (simp add: dedupe_step_def distinct.exec_closing emissions_distinct)
  let ?c = "\<lambda>s k. (fst (mem_Contains s k), Inr (snd (mem_Contains s k)))" and ?a = "\<lambda>s k. Inr (mem_Add s k)"
  have "first_by (\<lambda>x. fmt (keyFn x)) (fmt ` K) xs = first_by keyFn K xs" for K
    using assms(2) by (induction xs arbitrary: K) (auto simp: inj_image_mem_iff simp flip: image_insert)
  from this [of "{}"] have "exec (select_loop (SetVars MemoryDedupSet) (dedupe_step ?c ?a fmt 0 keyFn))
      (SetVars MemoryDedupSet) (closing xs) = (first_by keyFn {} xs, Return None)"
    using exec_map_act [of "dedupe_step ?c ?a fmt 0 keyFn" SetVars "dedupe_set_step ?c ?a (\<lambda>x. fmt (keyFn x))"
        "SetVars MemoryDedupSet" MemoryDedupSet "closing xs" MemoryDedupSet]
    by (simp add: dedupe_step_def exec_dedupe_set memset.dedup_items_from_empty)
  with seen first_by_distinct [of keyFn "{}" xs] first_by_keys [of keyFn "{}" xs] assms(1) show ?thesis
    by (simp add: DedupeBy_def outputs_def)
qed

theorem dedupe_emits_first_of_each_key_witness:
  "outputs (op_loop (DedupeBy (buildStageConfig [] :: (nat, nat) stage_config) 2 1 (Some MemoryDedupSet)
      (\<lambda>s k. (fst (mem_Contains s k), Inr (snd (mem_Contains s k)))) (\<lambda>s k. Inr (mem_Add s k))
      (\<lambda>b. if b then ''true'' else ''false'') even)) (closing [3, 5, 4, 1::nat]) = [3, 4]"
  (is "outputs (op_loop (DedupeBy ?cfg 2 1 _ ?c ?a ?fmt _)) _ = _")
proof -
  have "cfg_dedupe_window ?cfg = 0" and "inj ?fmt" by (simp_all add: default_config_def inj_def)
  from dedupe_emits_first_of_each_key [OF this, of 2 1 ?c ?a even "[3, 5, 4, 1]"]
  show ?thesis by simp
qed

text \<open>
  On close \<^verbatim>\<open>GroupBy\<close> emits one map that gives each key its items in order of arrival and
  nothing to other keys, \<^verbatim>\<open>FrequenciesBy\<close> one map of their numbers, and the last snapshot of
  \<^verbatim>\<open>RunningFrequenciesBy\<close> is that map.
\<close>

theorem grouping_counts_agree:
  assumes "xs \<noteq> []"
  shows "outputs (op_loop (GroupBy cfg i p keyFn)) (closing xs) =
           [\<lambda>k. let g = filter (\<lambda>x. keyFn x = k) xs in if g = [] then None else Some g] \<and>
         outputs (op_loop (FrequenciesBy cfg i p keyFn)) (closing xs) =
           [\<lambda>k. let g = filter (\<lambda>x. keyFn x = k) xs in if g = [] then None else Some (length g)] \<and>
         last (outputs (op_loop (RunningFrequenciesBy cfg i p keyFn)) (closing xs)) =
           hd (outputs (op_loop (FrequenciesBy cfg i p keyFn)) (closing xs))"
proof -
  have fr: "outputs (op_loop (FrequenciesBy cfg i p keyFn)) (closing xs) = [foldl (bump keyFn (\<lambda>_. 1)) Map.empty xs]"
    by (simp add: FrequenciesBy_def freq.outputs_closing emissions_none)
  have "last (emissions (bump keyFn (\<lambda>_. 1)) (\<lambda>m x. [bump keyFn (\<lambda>_. 1) m x]) m xs) =
        foldl (bump keyFn (\<lambda>_. 1)) m xs" for m :: "_ \<rightharpoonup> nat"
    using assms
  proof (induction xs arbitrary: m)
    case (Cons x xs)
    then show ?case by (cases xs) auto
  qed simp
  with fr show ?thesis
    by (auto simp: GroupBy_def group.outputs_closing emissions_none group_fold bump_count fun_eq_iff Let_def
        RunningFrequenciesBy_def running.outputs_closing simp del: One_nat_def)
qed

theorem grouping_counts_agree_witness:
  "last (outputs (op_loop (RunningFrequenciesBy (buildStageConfig [] :: (nat, nat) stage_config) 2 1 even)) (closing [3, 5, 4::nat])) False = Some 2"
  using grouping_counts_agree [of "[3, 5, 4::nat]" "buildStageConfig [] :: (nat, nat) stage_config" 2 1 even]
  by (simp del: closing_simps)

end
