(* ===== verification/Take_Ops.thy ===== *)
theory Take_Ops
  imports Aggregate
begin

text \<open>
  The operators of \<^verbatim>\<open>operator_take.go\<close>: \<^verbatim>\<open>Take\<close>, \<^verbatim>\<open>Drop\<close>, \<^verbatim>\<open>TakeWhile\<close>, \<^verbatim>\<open>DropWhile\<close>,
  \<^verbatim>\<open>DropLast\<close> with its ring buffer, and the two-input \<^verbatim>\<open>TakeUntil\<close> and \<^verbatim>\<open>DropUntil\<close>. The first
  five send with a \<^verbatim>\<open>select\<close> over the channel, the context and the drain channel, so a send
  can be abandoned by either.
\<close>

section \<open>Loops that send in a select\<close>

definition drain_loop :: "'s \<Rightarrow> ('s \<Rightarrow> go_error option option) \<Rightarrow> ('s \<Rightarrow> 'e \<Rightarrow> ('s, 'o) act) \<Rightarrow> ('s, 'e, 'o) loop" where
  "drain_loop s h f =
     \<lparr>loop_init = s, loop_head = h, loop_listens = (\<lambda>_ _. True), loop_step = f,
      loop_sel_ctx = True, loop_sel_drain = True, loop_send = SendCtxDrain\<rparr>"

lemma drain_loop_sel [simp]:
  "loop_init (drain_loop s h f) = s"
  "loop_head (drain_loop s h f) = h"
  "loop_listens (drain_loop s h f) = (\<lambda>_ _. True)"
  "loop_step (drain_loop s h f) = f"
  "loop_sel_ctx (drain_loop s h f)"
  "loop_sel_drain (drain_loop s h f)"
  "loop_send (drain_loop s h f) = SendCtxDrain"
  by (simp_all add: drain_loop_def)

section \<open>Take and Drop\<close>

definition take_head :: "int \<Rightarrow> int \<Rightarrow> go_error option option" where
  "take_head n cnt = (if cnt \<ge> n then Some None else None)"

fun take_step :: "int \<Rightarrow> 'a recv \<Rightarrow> (int, 'a) act" where
  "take_step cnt Closed = Act [] (Return None)"
| "take_step cnt (Item item) = Act [item] (Continue (cnt + 1))"

definition Take :: "stage_id \<Rightarrow> stage_id \<Rightarrow> int \<Rightarrow> (int, 'a recv, 'a) operator" where
  "Take i p n = unary_plain ''take'' True i p (drain_loop 0 (take_head n) take_step)"

lemma exec_take_items:
  "exec (drain_loop c0 (take_head n) take_step) c (items xs) =
     (take (nat (n - c)) xs,
      if n \<le> c + int (length xs) then Return None else Continue (c + int (length xs)))"
proof (induction xs arbitrary: c)
  case Nil
  then show ?case by (simp add: settle_def take_head_def)
next
  case (Cons x xs)
  show ?case
  proof (cases "n \<le> c")
    case True
    then show ?thesis by (simp add: take_head_def)
  next
    case False
    then have "nat (n - c) = Suc (nat (n - (c + 1)))" by simp
    with False Cons [of "c + 1"] show ?thesis by (simp add: take_head_def algebra_simps)
  qed
qed

lemma exec_take_closing:
  "exec (drain_loop c0 (take_head n) take_step) c (closing xs) = (take (nat (n - c)) xs, Return None)"
  by (auto simp: closing_items exec_append exec_take_items resume_def take_head_def)

interpretation take: stream_stage "drain_loop 0 (take_head n) take_step"
    "take (nat n)" "take (nat n)" "\<lambda>_. None"
  for n :: int
  by unfold_locales (simp_all add: outputs_def returns_def exec_take_items exec_take_closing)

definition drop_step :: "int \<Rightarrow> int \<Rightarrow> 'a recv \<Rightarrow> (int, 'a) act" where
  "drop_step n cnt e =
     (case e of
        Closed \<Rightarrow> Act [] (Return None)
      | Item item \<Rightarrow>
          if cnt < n then Act [] (Continue (cnt + 1)) else Act [item] (Continue cnt))"

definition Drop :: "stage_id \<Rightarrow> stage_id \<Rightarrow> int \<Rightarrow> (int, 'a recv, 'a) operator" where
  "Drop i p n = unary_plain ''drop'' False i p (drain_loop 0 (\<lambda>_. None) (drop_step n))"

lemma exec_drop_items:
  "exec (drain_loop c0 (\<lambda>_. None) (drop_step n)) c (items xs) =
     (drop (nat (n - c)) xs, Continue (if c < n then min n (c + int (length xs)) else c))"
proof (induction xs arbitrary: c)
  case Nil
  then show ?case by (simp add: settle_def)
next
  case (Cons x xs)
  show ?case
  proof (cases "c < n")
    case True
    then have "nat (n - c) = Suc (nat (n - (c + 1)))" by simp
    with True Cons [of "c + 1"] show ?thesis by (simp add: drop_step_def algebra_simps)
  next
    case False
    with Cons [of c] show ?thesis by (simp add: drop_step_def)
  qed
qed

lemma exec_drop_closing:
  "exec (drain_loop c0 (\<lambda>_. None) (drop_step n)) c (closing xs) = (drop (nat (n - c)) xs, Return None)"
  by (simp add: closing_items exec_append exec_drop_items resume_def drop_step_def)

interpretation drop: stream_stage "drain_loop 0 (\<lambda>_. None) (drop_step n)"
    "drop (nat n)" "drop (nat n)" "\<lambda>_. None"
  for n :: int
  by unfold_locales (simp_all add: outputs_def returns_def exec_drop_items exec_drop_closing)

section \<open>TakeWhile and DropWhile\<close>

definition take_while_step :: "('a \<Rightarrow> bool) \<Rightarrow> unit \<Rightarrow> 'a recv \<Rightarrow> (unit, 'a) act" where
  "take_while_step pred u e =
     (case e of
        Closed \<Rightarrow> Act [] (Return None)
      | Item item \<Rightarrow> if \<not> pred item then Act [] (Return None) else Act [item] (Continue ()))"

definition TakeWhile :: "stage_id \<Rightarrow> stage_id \<Rightarrow> ('a \<Rightarrow> bool) \<Rightarrow> (unit, 'a recv, 'a) operator" where
  "TakeWhile i p pred = unary_plain ''take_while'' True i p (drain_loop () (\<lambda>_. None) (take_while_step pred))"

lemma exec_take_while_items:
  "exec (drain_loop () (\<lambda>_. None) (take_while_step pred)) u (items xs) =
     (takeWhile pred xs, if \<forall>x \<in> set xs. pred x then Continue () else Return None)"
  by (induction xs arbitrary: u) (auto simp: settle_def take_while_step_def)

lemma exec_take_while_closing:
  "exec (drain_loop () (\<lambda>_. None) (take_while_step pred)) u (closing xs) = (takeWhile pred xs, Return None)"
  by (simp add: closing_items exec_append exec_take_while_items resume_def take_while_step_def)

interpretation take_while: stream_stage "drain_loop () (\<lambda>_. None) (take_while_step pred)"
    "takeWhile pred" "takeWhile pred" "\<lambda>_. None"
  for pred :: "'a \<Rightarrow> bool"
  by unfold_locales (simp_all add: outputs_def returns_def exec_take_while_items exec_take_while_closing)

definition drop_while_step :: "('a \<Rightarrow> bool) \<Rightarrow> bool \<Rightarrow> 'a recv \<Rightarrow> (bool, 'a) act" where
  "drop_while_step pred dropping e =
     (case e of
        Closed \<Rightarrow> Act [] (Return None)
      | Item item \<Rightarrow> if dropping \<and> pred item then Act [] (Continue dropping)
                    else Act [item] (Continue False))"

definition DropWhile :: "stage_id \<Rightarrow> stage_id \<Rightarrow> ('a \<Rightarrow> bool) \<Rightarrow> (bool, 'a recv, 'a) operator" where
  "DropWhile i p pred = unary_plain ''drop_while'' False i p (drain_loop True (\<lambda>_. None) (drop_while_step pred))"

lemma exec_drop_while_items:
  "exec (drain_loop True (\<lambda>_. None) (drop_while_step pred)) d (items xs) =
     (if d then dropWhile pred xs else xs, Continue (d \<and> (\<forall>x \<in> set xs. pred x)))"
  by (induction xs arbitrary: d) (auto simp: settle_def drop_while_step_def)

lemma exec_drop_while_closing:
  "exec (drain_loop True (\<lambda>_. None) (drop_while_step pred)) d (closing xs) =
     (if d then dropWhile pred xs else xs, Return None)"
  by (simp add: closing_items exec_append exec_drop_while_items resume_def drop_while_step_def)

interpretation drop_while: stream_stage "drain_loop True (\<lambda>_. None) (drop_while_step pred)"
    "dropWhile pred" "dropWhile pred" "\<lambda>_. None"
  for pred :: "'a \<Rightarrow> bool"
  by unfold_locales (simp_all add: outputs_def returns_def exec_drop_while_items exec_drop_while_closing)

section \<open>DropLast\<close>

text \<open>
  The ring buffer: a slice of length \<^verbatim>\<open>n\<close> (zero values until filled), the index of the
  oldest item and the number of items held.
\<close>

record 'a ring =
  ring_buf :: "'a list"
  ring_head :: nat
  ring_count :: nat

definition drop_last_step :: "nat \<Rightarrow> 'a ring \<Rightarrow> 'a recv \<Rightarrow> ('a ring, 'a) act" where
  "drop_last_step n r e =
     (case e of
        Closed \<Rightarrow> Act [] (Return None)
      | Item item \<Rightarrow>
          if ring_count r < n
          then Act [] (Continue (r\<lparr>ring_buf := (ring_buf r)[ring_count r := item],
                                   ring_count := Suc (ring_count r)\<rparr>))
          else Act [ring_buf r ! ring_head r]
                 (Continue (r\<lparr>ring_buf := (ring_buf r)[ring_head r := item],
                              ring_head := Suc (ring_head r) mod n\<rparr>)))"

text \<open>\<^verbatim>\<open>None\<close> is the early return of the upstream pipeline itself for \<^verbatim>\<open>n <= 0\<close>.\<close>

definition DropLast :: "'a \<Rightarrow> stage_id \<Rightarrow> stage_id \<Rightarrow> int \<Rightarrow> ('a ring, 'a recv, 'a) operator option" where
  "DropLast zero i p n =
     (if n \<le> 0 then None
      else Some (unary_plain ''drop_last'' False i p
             (drain_loop \<lparr>ring_buf = replicate (nat n) zero, ring_head = 0, ring_count = 0\<rparr>
                (\<lambda>_. None) (drop_last_step (nat n)))))"

text \<open>What the ring holds, oldest first, and its invariant.\<close>

definition ring_items :: "nat \<Rightarrow> 'a ring \<Rightarrow> 'a list" where
  "ring_items n r = map (\<lambda>k. ring_buf r ! ((ring_head r + k) mod n)) [0..<ring_count r]"

definition ring_ok :: "nat \<Rightarrow> 'a ring \<Rightarrow> bool" where
  "ring_ok n r \<longleftrightarrow> 0 < n \<and> length (ring_buf r) = n \<and> ring_head r < n \<and> ring_count r \<le> n
     \<and> (ring_count r < n \<longrightarrow> ring_head r = 0)"

lemma ring_fill:
  assumes "ring_ok n r" and "ring_count r < n"
  shows "ring_ok n (r\<lparr>ring_buf := (ring_buf r)[ring_count r := x], ring_count := Suc (ring_count r)\<rparr>)"
    and "ring_items n (r\<lparr>ring_buf := (ring_buf r)[ring_count r := x], ring_count := Suc (ring_count r)\<rparr>)
           = ring_items n r @ [x]"
  using assms by (auto simp: ring_ok_def ring_items_def)

lemma ring_displace:
  assumes "ring_ok n r" and "\<not> ring_count r < n"
  shows "ring_ok n (r\<lparr>ring_buf := (ring_buf r)[ring_head r := x], ring_head := Suc (ring_head r) mod n\<rparr>)"
    and "ring_items n r \<noteq> [] \<and> ring_buf r ! ring_head r = hd (ring_items n r)"
    and "ring_items n (r\<lparr>ring_buf := (ring_buf r)[ring_head r := x], ring_head := Suc (ring_head r) mod n\<rparr>)
           = tl (ring_items n r) @ [x]"
proof -
  let ?h = "ring_head r"
  from assms have n: "ring_count r = n" "0 < n" "?h < n" "length (ring_buf r) = n"
    by (auto simp: ring_ok_def)
  then show "ring_ok n (r\<lparr>ring_buf := (ring_buf r)[?h := x], ring_head := Suc ?h mod n\<rparr>)"
    by (simp add: ring_ok_def)
  obtain m where m: "n = Suc m" using n(2) by (cases n) auto
  have items: "ring_items n r = ring_buf r ! ?h # map (\<lambda>k. ring_buf r ! ((?h + Suc k) mod n)) [0..<m]"
    using n by (simp add: ring_items_def m map_upt_Suc del: upt_Suc)
  then show "ring_items n r \<noteq> [] \<and> ring_buf r ! ?h = hd (ring_items n r)" by simp
  have ne: "(?h + Suc k) mod n \<noteq> ?h" if "k < m" for k
  proof
    assume eq: "(?h + Suc k) mod n = ?h"
    then have "(?h + Suc k) mod n = ?h mod n" using n(3) by simp
    then have "n dvd Suc k"
      by (metis add_diff_cancel_left' dvd_minus_mod le_add1 mod_eq_dvd_iff_nat)
    with that show False by (auto simp: m dest: dvd_imp_le)
  qed
  have "(Suc ?h mod n + k) mod n = (?h + Suc k) mod n" for k
    by (simp add: mod_add_left_eq)
  moreover have "(?h + Suc m) mod n = ?h" using n(3) by (metis m mod_add_self2 mod_less)
  ultimately have "map (\<lambda>k. (ring_buf r)[?h := x] ! ((Suc ?h mod n + k) mod n)) [0..<n] =
      map (\<lambda>k. ring_buf r ! ((?h + Suc k) mod n)) [0..<m] @ [x]"
    using n by (auto simp: m nth_list_update_neq [OF ne [unfolded m, symmetric, simplified]])
  then show "ring_items n (r\<lparr>ring_buf := (ring_buf r)[?h := x], ring_head := Suc ?h mod n\<rparr>)
      = tl (ring_items n r) @ [x]"
    using n(1) unfolding items by (simp add: ring_items_def del: upt_Suc)
qed

lemma exec_drop_last_items:
  "ring_ok n r \<Longrightarrow>
   \<exists>r'. exec (drain_loop r0 (\<lambda>_. None) (drop_last_step n)) r (items xs) =
          (take (length (ring_items n r @ xs) - n) (ring_items n r @ xs), Continue r')
        \<and> ring_ok n r' \<and> (ring_count r + length xs \<ge> n \<longrightarrow> ring_count r' = n)"
proof (induction xs arbitrary: r)
  case Nil
  then show ?case by (auto simp: settle_def ring_items_def ring_ok_def)
next
  case (Cons x xs)
  show ?case
  proof (cases "ring_count r < n")
    case True
    with Cons.IH [OF ring_fill(1) [OF Cons.prems True, of x]] Cons.prems show ?thesis
      by (auto simp: drop_last_step_def ring_fill(2))
  next
    case False
    from Cons.prems False have count: "ring_count r = n" by (simp add: ring_ok_def)
    then have len: "length (ring_items n r) = n" by (simp add: ring_items_def)
    let ?r = "r\<lparr>ring_buf := (ring_buf r)[ring_head r := x], ring_head := Suc (ring_head r) mod n\<rparr>"
    note disp = ring_displace [OF Cons.prems False]
    obtain y ys where ys: "ring_items n r = y # ys" using disp(2) by (cases "ring_items n r") auto
    from Cons.IH [OF disp(1) [of x]] disp(2) disp(3) [of x] obtain r' where
      "exec (drain_loop r0 (\<lambda>_. None) (drop_last_step n)) ?r (items xs) =
         (take (length (ys @ x # xs) - n) (ys @ x # xs), Continue r')"
      "ring_ok n r'" "ring_count ?r + length xs \<ge> n \<longrightarrow> ring_count r' = n"
      by (auto simp: ys)
    moreover have "drop_last_step n r (Item x) = Act [y] (Continue ?r)"
      using False disp(2) by (simp add: drop_last_step_def ys)
    moreover have "take (length (ring_items n r @ x # xs) - n) (ring_items n r @ x # xs)
        = y # take (length (ys @ x # xs) - n) (ys @ x # xs)"
      using len by (simp add: ys Suc_diff_le)
    ultimately show ?thesis using count by simp
  qed
qed

lemma exec_drop_last:
  assumes "0 < n"
  shows "fst (exec (drain_loop r0 (\<lambda>_. None) (drop_last_step n))
            \<lparr>ring_buf = replicate n zero, ring_head = 0, ring_count = 0\<rparr> (items xs)) = take (length xs - n) xs"
    and "exec (drain_loop r0 (\<lambda>_. None) (drop_last_step n))
            \<lparr>ring_buf = replicate n zero, ring_head = 0, ring_count = 0\<rparr> (closing xs)
           = (take (length xs - n) xs, Return None)"
proof -
  let ?r = "\<lparr>ring_buf = replicate n zero, ring_head = 0, ring_count = 0\<rparr>"
  have "ring_ok n ?r" "ring_items n ?r = []" using assms by (auto simp: ring_ok_def ring_items_def)
  with exec_drop_last_items [of n ?r r0 xs] obtain r' where
    "exec (drain_loop r0 (\<lambda>_. None) (drop_last_step n)) ?r (items xs) = (take (length xs - n) xs, Continue r')"
    by auto
  then show "fst (exec (drain_loop r0 (\<lambda>_. None) (drop_last_step n)) ?r (items xs)) = take (length xs - n) xs"
    and "exec (drain_loop r0 (\<lambda>_. None) (drop_last_step n)) ?r (closing xs) = (take (length xs - n) xs, Return None)"
    by (simp_all add: closing_items exec_append resume_def drop_last_step_def)
qed

interpretation drop_last: stream_stage
    "drain_loop \<lparr>ring_buf = replicate (Suc n) zero, ring_head = 0, ring_count = 0\<rparr> (\<lambda>_. None) (drop_last_step (Suc n))"
    "\<lambda>xs. take (length xs - Suc n) xs" "\<lambda>xs. take (length xs - Suc n) xs" "\<lambda>_. None"
  for n :: nat and zero :: 'a
  by unfold_locales (simp_all add: outputs_def returns_def exec_drop_last del: replicate_Suc)

section \<open>TakeUntil and DropUntil\<close>

text \<open>
  The helper goroutine of \<^verbatim>\<open>TakeUntil\<close> closes \<^verbatim>\<open>stopCh\<close> when the boundary emits or closes: the
  main loop sees it as the event \<^verbatim>\<open>StopSeen\<close>.
\<close>

datatype 'a until_event = Arrives "'a recv" | StopSeen

fun take_until_step :: "unit \<Rightarrow> 'a until_event \<Rightarrow> (unit, 'a) act" where
  "take_until_step u (Arrives Closed) = Act [] (Return None)"
| "take_until_step u (Arrives (Item item)) = Act [item] (Continue ())"
| "take_until_step u StopSeen = Act [] (Return None)"

definition binary ::
  "string \<Rightarrow> ('a, 'v) stage_config \<Rightarrow> stage_id \<Rightarrow> stage_id \<Rightarrow> stage_id \<Rightarrow> bool \<Rightarrow> ('s, 'e, 'o) loop \<Rightarrow> ('s, 'e, 'o) operator" where
  "binary kind cfg i p q signals_done body =
     \<lparr>op_outs = [i], op_meta = stageMeta i kind (orDefault (cfg_name cfg) kind) (cfg_buffer cfg) [p, q],
      op_buffer = config_buffer cfg, op_upstream = [p, q], op_signals_done = signals_done, op_loop = body\<rparr>"

definition TakeUntil ::
  "('a, 'v) stage_config \<Rightarrow> stage_id \<Rightarrow> stage_id \<Rightarrow> stage_id \<Rightarrow> (unit, 'a until_event, 'a) operator" where
  "TakeUntil cfg i p boundary = binary ''take_until'' cfg i p boundary True (select_loop () take_until_step)"

lemma exec_take_until_items:
  "exec (select_loop () take_until_step) u (map (\<lambda>x. Arrives (Item x)) xs) = (xs, Continue ())"
  by (induction xs arbitrary: u) (auto simp: settle_def)

text \<open>
  \<^verbatim>\<open>DropUntil\<close>: an item arrives together with the answer of the non-blocking look at
  \<^verbatim>\<open>gateCh\<close> that the code makes while the gate is closed; \<^verbatim>\<open>gateChRef\<close> is nil once it is open.
\<close>

datatype 'a gated_event = GatedArrival "'a recv" bool | GateSeen

fun drop_until_step :: "bool \<Rightarrow> 'a gated_event \<Rightarrow> (bool, 'a) act" where
  "drop_until_step gateOpen (GatedArrival Closed gateClosed) = Act [] (Return None)"
| "drop_until_step gateOpen (GatedArrival (Item item) gateClosed) =
     (if \<not> gateOpen \<and> \<not> gateClosed then Act [] (Continue gateOpen) else Act [item] (Continue True))"
| "drop_until_step gateOpen GateSeen = Act [] (Continue True)"

definition DropUntil ::
  "('a, 'v) stage_config \<Rightarrow> stage_id \<Rightarrow> stage_id \<Rightarrow> stage_id \<Rightarrow> (bool, 'a gated_event, 'a) operator" where
  "DropUntil cfg i p boundary =
     binary ''drop_until'' cfg i p boundary True
       ((select_loop False drop_until_step)\<lparr>loop_listens := (\<lambda>gateOpen e. e = GateSeen \<longrightarrow> \<not> gateOpen)\<rparr>)"

text \<open>The items of a list of events, and the events up to the first sign of the open gate.\<close>

fun gated_items :: "'a gated_event list \<Rightarrow> 'a list" where
  "gated_items [] = []"
| "gated_items (GatedArrival (Item x) _ # es) = x # gated_items es"
| "gated_items (GatedArrival Closed _ # es) = []"
| "gated_items (GateSeen # es) = gated_items es"

definition gate_shut :: "'a gated_event \<Rightarrow> bool" where
  "gate_shut e = (case e of GatedArrival (Item x) g \<Rightarrow> \<not> g | GatedArrival Closed g \<Rightarrow> False | GateSeen \<Rightarrow> False)"

lemma exec_drop_until:
  "loop_head m = (\<lambda>_. None) \<Longrightarrow> loop_step m = drop_until_step \<Longrightarrow>
   fst (exec m g es) = (if g then gated_items es else gated_items (dropWhile gate_shut es))"
  by (induction es arbitrary: g rule: gated_items.induct)
    (auto simp: gate_shut_def case_prod_beta)

section \<open>Properties of the take and drop stages\<close>

lemma take_heard:
  "heard (drain_loop c0 (take_head n) take_step) c es \<Longrightarrow> length es \<le> nat (n - c)"
proof (induction es arbitrary: c)
  case (Cons e es)
  then have "c < n" by (simp add: take_head_def split: if_splits)
  with Cons show ?case by (cases e) (force simp: take_head_def)+
qed simp

text \<open>
  Along every run of \<^verbatim>\<open>Take(n)\<close> the items sent are a prefix of the first \<^verbatim>\<open>n\<close> items, all of
  them once the stage has returned by itself, and while it is not disturbed it never receives more
  than \<^verbatim>\<open>n\<close> times from its upstream: it does not wait for an item it would not forward.
\<close>

theorem take_trace:
  assumes "run (op_loop (Take i p n)) (start (op_loop (Take i p n))) ls = Some st"
    and "prefix (received ls) (closing xs)"
  shows "prefix (sent ls) (take (nat n) xs) \<and>
         (undisturbed ls \<longrightarrow> length (received ls) \<le> nat n \<and>
            (\<forall>r c. st = Exited r c \<longrightarrow> sent ls = take (nat n) xs \<and> r = None \<and> \<not> c))"
proof -
  have m: "op_loop (Take i p n) = drain_loop 0 (take_head n) take_step" by (simp add: Take_def)
  show ?thesis
    using take.trace_any [OF assms(1) [unfolded m] assms(2)] take.trace_complete [OF _ _ assms(2)]
      run_heard [OF assms(1)] take_heard [of 0 n 0 "received ls"] assms(1)
    by (auto simp: m)
qed

theorem take_trace_witness:
  "run (op_loop (Take 2 1 1)) (start (op_loop (Take 2 1 1))) [Ev (Item ''x''), Sent ''x''] = Some (Exited None False) \<and>
   prefix [''x''] (take (nat 1) [''x'', ''y''])"
  using take_trace [of 2 1 1 "[Ev (Item ''x''), Sent ''x'']" "Exited None False" "[''x'', ''y'']"]
  by (simp add: Take_def start_def enter_Continue take_head_def)

text \<open>
  The ring buffer of \<^verbatim>\<open>DropLast(n)\<close> holds back exactly the last \<^verbatim>\<open>n\<close> items: after any received
  items the stage has sent all but the last \<^verbatim>\<open>n\<close> of them, in order, and closing sends no more; for a
  non-positive \<^verbatim>\<open>n\<close> there is no such stage.
\<close>

theorem drop_last_holds_back:
  assumes "DropLast zero i p n = Some stage"
  shows "0 < n \<and> outputs (op_loop stage) (items xs) = take (length xs - nat n) xs \<and>
         outputs (op_loop stage) (closing xs) = take (length xs - nat n) xs \<and>
         returns (op_loop stage) (closing xs) = Return None"
  using assms by (auto simp: DropLast_def outputs_def returns_def exec_drop_last split: if_splits)

theorem drop_last_holds_back_witness:
  "\<exists>stage. DropLast 0 2 1 2 = Some stage \<and> outputs (op_loop stage) (closing [5, 6, 7::nat]) = [5]"
  using drop_last_holds_back [of 0 2 1 2 _ "[5, 6, 7::nat]"] by (simp add: DropLast_def)

end
