(* ===== verification/Transform_Ops.thy ===== *)
theory Transform_Ops
  imports Take_Ops
begin

text \<open>
  The operators of \<^verbatim>\<open>operator_transform.go\<close> that are loops of their own: \<^verbatim>\<open>WithIndex\<close>,
  \<^verbatim>\<open>Pairwise\<close>, \<^verbatim>\<open>TakeEvery\<close>, \<^verbatim>\<open>DropEvery\<close>, \<^verbatim>\<open>MapEvery\<close> and \<^verbatim>\<open>Intersperse\<close>. Those that panic
  on a bad argument are options, \<^verbatim>\<open>None\<close> the panic.
\<close>

section \<open>WithIndex and Pairwise\<close>

datatype 'a indexed = Indexed (Index: nat) (Value: 'a)

fun with_index_step :: "nat \<Rightarrow> 'a recv \<Rightarrow> (nat, 'a indexed) act" where
  "with_index_step idx Closed = Act [] (Return None)"
| "with_index_step idx (Item item) = Act [Indexed idx item] (Continue (Suc idx))"

definition WithIndex ::
  "('a, 'v) stage_config \<Rightarrow> stage_id \<Rightarrow> stage_id \<Rightarrow> (nat, 'a recv, 'a indexed) operator" where
  "WithIndex cfg i p = unary ''with_index'' cfg i p (select_loop 0 with_index_step)"

interpretation with_index: transducer with_index_step 0 "\<lambda>idx _. Suc idx" "\<lambda>idx x. [Indexed idx x]" "\<lambda>_. []"
  by unfold_locales simp_all

lemma emissions_with_index:
  "emissions (\<lambda>idx _. Suc idx) (\<lambda>idx x. [Indexed idx x]) n xs = map (\<lambda>(k, x). Indexed k x) (enumerate n xs)"
  by (induction xs arbitrary: n) auto

datatype 'a consecutive = Consecutive (Prev: 'a) (Curr: 'a)

text \<open>\<^verbatim>\<open>None\<close> is \<^verbatim>\<open>first\<close>; afterwards the previous item.\<close>

fun pairwise_step :: "'a option \<Rightarrow> 'a recv \<Rightarrow> ('a option, 'a consecutive) act" where
  "pairwise_step prev Closed = Act [] (Return None)"
| "pairwise_step prev (Item item) =
     (case prev of
        None \<Rightarrow> Act [] (Continue (Some item))
      | Some p \<Rightarrow> Act [Consecutive p item] (Continue (Some item)))"

definition Pairwise ::
  "('a, 'v) stage_config \<Rightarrow> stage_id \<Rightarrow> stage_id \<Rightarrow> ('a option, 'a recv, 'a consecutive) operator" where
  "Pairwise cfg i p = unary ''pairwise'' cfg i p (select_loop None pairwise_step)"

interpretation pairwise: transducer pairwise_step None "\<lambda>_. Some"
    "\<lambda>prev x. case prev of None \<Rightarrow> [] | Some p \<Rightarrow> [Consecutive p x]" "\<lambda>_. []"
  by unfold_locales (simp_all split: option.splits)

lemma emissions_pairwise:
  "emissions (\<lambda>_. Some) (\<lambda>prev x. case prev of None \<Rightarrow> [] | Some p \<Rightarrow> [Consecutive p x]) prev xs =
     (case prev of None \<Rightarrow> map2 Consecutive xs (tl xs) | Some p \<Rightarrow> map2 Consecutive (p # xs) xs)"
proof (induction xs arbitrary: prev)
  case Nil
  then show ?case by (cases prev) auto
next
  case (Cons x xs)
  then show ?case by (cases prev) auto
qed

section \<open>TakeEvery, DropEvery, MapEvery\<close>

definition every_step :: "bool \<Rightarrow> nat \<Rightarrow> nat \<Rightarrow> 'a recv \<Rightarrow> (nat, 'a) act" where
  "every_step hit n i e =
     (case e of
        Closed \<Rightarrow> Act [] (Return None)
      | Item item \<Rightarrow> Act (if (i mod n = 0) = hit then [item] else []) (Continue (Suc i)))"

definition TakeEvery :: "stage_id \<Rightarrow> stage_id \<Rightarrow> int \<Rightarrow> (nat, 'a recv, 'a) operator option" where
  "TakeEvery i p n =
     (if n \<le> 0 then None
      else Some (unary_plain ''take_every'' False i p (select_loop 0 (every_step True (nat n)))))"

definition DropEvery :: "stage_id \<Rightarrow> stage_id \<Rightarrow> int \<Rightarrow> (nat, 'a recv, 'a) operator option" where
  "DropEvery i p n =
     (if n \<le> 0 then None
      else Some (unary_plain ''drop_every'' False i p (select_loop 0 (every_step False (nat n)))))"

interpretation every: transducer "every_step hit n" 0 "\<lambda>i _. Suc i"
    "\<lambda>i x. if (i mod n = 0) = hit then [x] else []" "\<lambda>_. []"
  for hit :: bool and n :: nat
  by unfold_locales (simp_all add: every_step_def)

lemma emissions_every:
  "emissions (\<lambda>i _. Suc i) (\<lambda>i x. if (i mod n = 0) = hit then [x] else []) k xs =
     map snd (filter (\<lambda>(i, x). (i mod n = 0) = hit) (enumerate k xs))"
  by (induction xs arbitrary: k) auto

text \<open>The two operators split the input between them.\<close>

lemma filter_split_shuffles: "xs \<in> shuffles (filter P xs) (filter (\<lambda>x. \<not> P x) xs)"
  by (rule partition_in_shuffles)

definition map_every_step ::
  "string \<Rightarrow> nat \<Rightarrow> ('a \<Rightarrow> 'a result) \<Rightarrow> nat \<Rightarrow> 'a recv \<Rightarrow> (nat, 'a) act" where
  "map_every_step name n fn i e =
     (case e of
        Closed \<Rightarrow> Act [] (Return None)
      | Item item \<Rightarrow>
          (case (if i mod n = 0 then fn item else Inr item) of
             Inl err \<Rightarrow> Act [] (Return (WrapStageErr name (Some err) 0))
           | Inr out \<Rightarrow> Act [out] (Continue (Suc i))))"

definition MapEvery ::
  "('a, 'v) stage_config \<Rightarrow> stage_id \<Rightarrow> stage_id \<Rightarrow> int \<Rightarrow> ('a \<Rightarrow> 'a result) \<Rightarrow> (nat, 'a recv, 'a) operator option" where
  "MapEvery cfg i p n fn =
     (if n \<le> 0 then None
      else Some (unary ''map_every'' cfg i p (select_loop 0 (map_every_step (cfg_name cfg) (nat n) fn))))"

definition map_every_item ::
  "string \<Rightarrow> nat \<Rightarrow> ('a \<Rightarrow> 'a result) \<Rightarrow> nat \<Rightarrow> 'a \<Rightarrow> 'a list \<times> nat result" where
  "map_every_item name n fn i x =
     (case (if i mod n = 0 then fn x else Inr x) of
        Inl err \<Rightarrow> ([], Inl (wrapped name err 0)) | Inr y \<Rightarrow> ([y], Inr (Suc i)))"

interpretation map_every: fallible "select_loop 0 (map_every_step name n fn)" "map_every_item name n fn" "\<lambda>_. []"
  for name :: string and n :: nat and fn :: "'a \<Rightarrow> 'a result"
  by unfold_locales (simp_all add: map_every_step_def map_every_item_def WrapStageErr_Some split: sum.splits)

section \<open>Intersperse\<close>

fun intersperse_step :: "'a \<Rightarrow> bool \<Rightarrow> 'a recv \<Rightarrow> (bool, 'a) act" where
  "intersperse_step sep isFirst Closed = Act [] (Return None)"
| "intersperse_step sep isFirst (Item item) = Act (if \<not> isFirst then [sep, item] else [item]) (Continue False)"

definition Intersperse ::
  "('a, 'v) stage_config \<Rightarrow> stage_id \<Rightarrow> stage_id \<Rightarrow> 'a \<Rightarrow> (bool, 'a recv, 'a) operator" where
  "Intersperse cfg i p sep = unary ''intersperse'' cfg i p (select_loop True (intersperse_step sep))"

interpretation intersperse: transducer "intersperse_step sep" True "\<lambda>_ _. False"
    "\<lambda>isFirst x. if \<not> isFirst then [sep, x] else [x]" "\<lambda>_. []"
  for sep :: 'a
  by unfold_locales simp_all

fun interleave_sep :: "'a \<Rightarrow> 'a list \<Rightarrow> 'a list" where
  "interleave_sep sep [] = []"
| "interleave_sep sep [x] = [x]"
| "interleave_sep sep (x # y # zs) = x # sep # interleave_sep sep (y # zs)"

lemma interleave_sep_Cons: "interleave_sep sep (x # xs) = x # concat (map (\<lambda>y. [sep, y]) xs)"
  by (induction xs arbitrary: x) auto

lemma emissions_intersperse:
  "emissions (\<lambda>_ _. False) (\<lambda>isFirst x. if \<not> isFirst then [sep, x] else [x]) isFirst xs =
     (if isFirst then interleave_sep sep xs else concat (map (\<lambda>y. [sep, y]) xs))"
proof (induction xs arbitrary: isFirst)
  case (Cons x xs)
  then show ?case by (cases isFirst) (auto simp: interleave_sep_Cons)
qed simp

end
