(* ===== verification/Network.thy ===== *)
theory Network
  imports Transform_Ops
begin

text \<open>
  Two stages and the channel between them: the graph \<^verbatim>\<open>Run\<close> executes, cut at one edge. Each
  stage is a loop of \<^verbatim>\<open>Stage_Kernel\<close> that the steps of the network drive; the channel is
  bounded (a hand-over covers the unbuffered case); the downstream's exit signals the drain
  channel of the upstream, starts \<^verbatim>\<open>DrainChan\<close> unless it left cooperatively, and the upstream's
  exit closes the channel.
\<close>

section \<open>The network\<close>

record ('s, 'a, 'y, 't, 'z) net =
  nt_rest :: "'a recv list"
  nt_up :: "('s, 'y) status"
  nt_buf :: "'y list"
  nt_down :: "('t, 'z) status"
  nt_out :: "'z list"
  nt_ctx :: "go_error option"

definition net_init ::
  "('s, 'a recv, 'y) loop \<Rightarrow> ('t, 'y recv, 'z) loop \<Rightarrow> 'a list \<Rightarrow> ('s, 'a, 'y, 't, 'z) net" where
  "net_init m1 m2 xs =
     \<lparr>nt_rest = closing xs, nt_up = start m1, nt_buf = [], nt_down = start m2, nt_out = [], nt_ctx = None\<rparr>"

inductive net_step ::
  "nat \<Rightarrow> ('s, 'a recv, 'y) loop \<Rightarrow> ('t, 'y recv, 'z) loop \<Rightarrow>
   ('s, 'a, 'y, 't, 'z) net \<Rightarrow> ('s, 'a, 'y, 't, 'z) net \<Rightarrow> bool"
  for bound :: nat and m1 :: "('s, 'a recv, 'y) loop" and m2 :: "('t, 'y recv, 'z) loop" where
  up_recv: "nt_rest n = e # es \<Longrightarrow> step m1 (nt_up n) (Ev e) = Some up \<Longrightarrow>
     net_step bound m1 m2 n (n\<lparr>nt_rest := es, nt_up := up\<rparr>)"
| up_send: "length (nt_buf n) < bound \<Longrightarrow> step m1 (nt_up n) (Sent y) = Some up \<Longrightarrow>
     net_step bound m1 m2 n (n\<lparr>nt_buf := nt_buf n @ [y], nt_up := up\<rparr>)"
| hand_over: "nt_buf n = [] \<Longrightarrow> step m1 (nt_up n) (Sent y) = Some up \<Longrightarrow>
     step m2 (nt_down n) (Ev (Item y)) = Some down \<Longrightarrow>
     net_step bound m1 m2 n (n\<lparr>nt_up := up, nt_down := down\<rparr>)"
| down_recv: "nt_buf n = y # ys \<Longrightarrow> step m2 (nt_down n) (Ev (Item y)) = Some down \<Longrightarrow>
     net_step bound m1 m2 n (n\<lparr>nt_buf := ys, nt_down := down\<rparr>)"
| down_closed: "nt_buf n = [] \<Longrightarrow> nt_up n = Exited r c \<Longrightarrow> step m2 (nt_down n) (Ev Closed) = Some down \<Longrightarrow>
     net_step bound m1 m2 n (n\<lparr>nt_down := down\<rparr>)"
| down_send: "step m2 (nt_down n) (Sent z) = Some down \<Longrightarrow>
     net_step bound m1 m2 n (n\<lparr>nt_down := down, nt_out := nt_out n @ [z]\<rparr>)"
| discard: "nt_down n = Exited r False \<Longrightarrow> nt_buf n = y # ys \<Longrightarrow>
     net_step bound m1 m2 n (n\<lparr>nt_buf := ys\<rparr>)"
| discard_hand_over: "nt_down n = Exited r False \<Longrightarrow> nt_buf n = [] \<Longrightarrow> step m1 (nt_up n) (Sent y) = Some up \<Longrightarrow>
     net_step bound m1 m2 n (n\<lparr>nt_up := up\<rparr>)"
| up_drain: "nt_down n = Exited r c \<Longrightarrow> step m1 (nt_up n) DrainSig = Some up \<Longrightarrow>
     net_step bound m1 m2 n (n\<lparr>nt_up := up\<rparr>)"
| down_drain: "step m2 (nt_down n) DrainSig = Some down \<Longrightarrow>
     net_step bound m1 m2 n (n\<lparr>nt_down := down\<rparr>)"
| cancel: "nt_ctx n = None \<Longrightarrow> net_step bound m1 m2 n (n\<lparr>nt_ctx := Some er\<rparr>)"
| up_cancelled: "nt_ctx n = Some er \<Longrightarrow> step m1 (nt_up n) (CtxDone er) = Some up \<Longrightarrow>
     net_step bound m1 m2 n (n\<lparr>nt_up := up\<rparr>)"
| down_cancelled: "nt_ctx n = Some er \<Longrightarrow> step m2 (nt_down n) (CtxDone er) = Some down \<Longrightarrow>
     net_step bound m1 m2 n (n\<lparr>nt_down := down\<rparr>)"

inductive net_reach ::
  "nat \<Rightarrow> ('s, 'a recv, 'y) loop \<Rightarrow> ('t, 'y recv, 'z) loop \<Rightarrow> 'a list \<Rightarrow> ('s, 'a, 'y, 't, 'z) net \<Rightarrow> bool"
  for bound :: nat and m1 :: "('s, 'a recv, 'y) loop" and m2 :: "('t, 'y recv, 'z) loop" and xs :: "'a list" where
  net_start: "net_reach bound m1 m2 xs (net_init m1 m2 xs)"
| net_next: "net_reach bound m1 m2 xs n \<Longrightarrow> net_step bound m1 m2 n n' \<Longrightarrow> net_reach bound m1 m2 xs n'"

section \<open>What the channel carries\<close>

text \<open>
  The schedules the two stages have followed: the channel holds what was sent and not yet
  received, as long as the downstream is live; the downstream never receives more than the
  closed upstream would have sent.
\<close>

fun exited :: "('s, 'o) status \<Rightarrow> bool" where
  "exited (Exited r c) = True"
| "exited _ = False"

lemma step_not_exited: "step m st l = Some st' \<Longrightarrow> \<not> exited st"
  by (cases st) auto

lemma run_snoc: "run m st ls = Some st1 \<Longrightarrow> step m st1 l = Some st2 \<Longrightarrow> run m st (ls @ [l]) = Some st2"
  by (simp add: run_append)

lemma run_ok: "run m st ls = Some st' \<Longrightarrow> status_ok m st \<Longrightarrow> status_ok m st'"
  by (induction ls arbitrary: st) (auto split: option.splits dest: step_ok)

locale pipe =
  up: stream_stage m1 opened1 closed1 ret1 + down: stream_stage m2 opened2 closed2 ret2
  for m1 :: "('s, 'a recv, 'y) loop" and opened1 closed1 ret1
    and m2 :: "('t, 'y recv, 'z) loop" and opened2 closed2 ret2
begin

definition traced ::
  "'a list \<Rightarrow> ('s, 'a, 'y, 't, 'z) net \<Rightarrow> ('a recv, 'y) label list \<Rightarrow> ('y recv, 'z) label list \<Rightarrow> bool" where
  "traced xs n ls1 ls2 \<longleftrightarrow>
     run m1 (start m1) ls1 = Some (nt_up n) \<and> run m2 (start m2) ls2 = Some (nt_down n)
     \<and> received ls1 @ nt_rest n = closing xs \<and> sent ls2 = nt_out n
     \<and> (\<not> exited (nt_down n) \<longrightarrow> undisturbed ls1 \<and>
          (received ls2 @ items (nt_buf n) = items (sent ls1)
           \<or> (received ls2 = closing (closed1 xs) \<and> nt_buf n = [] \<and> exited (nt_up n))))
     \<and> prefix (received ls2) (closing (closed1 xs))
     \<and> (undisturbed ls2 \<or> (\<exists>r. nt_down n = Exited r True))"

lemma traced_init: "traced xs (net_init m1 m2 xs) [] []"
  by (simp add: traced_def net_init_def)

lemma traced_up:
  assumes "traced xs n ls1 ls2" and "step m1 (nt_up n) l = Some up'"
    and "n' = n\<lparr>nt_rest := rest', nt_up := up', nt_buf := buf'\<rparr>"
    and "received [l] @ rest' = nt_rest n"
    and "\<not> exited (nt_down n) \<Longrightarrow> undisturbed [l] \<and> buf' = nt_buf n @ sent [l]"
  shows "traced xs n' (ls1 @ [l]) ls2"
  using assms step_not_exited [OF assms(2)] unfolding traced_def
  by (auto intro: run_snoc)

lemma traced_down:
  assumes "traced xs n ls1 ls2" and "step m2 (nt_down n) l = Some down'"
    and "n' = n\<lparr>nt_down := down', nt_buf := buf', nt_out := nt_out n @ sent [l]\<rparr>"
    and "received ls2 @ received [l] @ items buf' = items (sent ls1)
         \<or> (received (ls2 @ [l]) = closing (closed1 xs) \<and> buf' = [] \<and> exited (nt_up n))"
    and "prefix (received (ls2 @ [l])) (closing (closed1 xs))"
    and "undisturbed [l] \<or> (\<exists>r. down' = Exited r True)"
  shows "traced xs n' ls1 (ls2 @ [l])"
  using assms step_not_exited [OF assms(2)] unfolding traced_def
  by (auto intro: run_snoc)

text \<open>While the downstream is live, what has been sent is a prefix of the closed output.\<close>

lemma traced_sent_prefix:
  assumes "traced xs n ls1 ls2"
  shows "prefix (sent ls1) (closed1 xs)"
proof -
  have "prefix (received ls1) (closing xs)" using assms unfolding traced_def by (metis prefixI)
  with assms show ?thesis unfolding traced_def by (blast intro: up.trace_any)
qed

lemma traced_up_complete:
  assumes "traced xs n ls1 ls2" and "\<not> exited (nt_down n)" and "nt_up n = Exited r c"
  shows "sent ls1 = closed1 xs"
proof -
  have "prefix (received ls1) (closing xs)" using assms unfolding traced_def by (metis prefixI)
  with assms show ?thesis unfolding traced_def using up.trace_complete by metis
qed

lemma items_prefix_closing: "prefix ys zs \<Longrightarrow> prefix (items ys) (closing zs)"
  by (auto simp: closing_items prefix_def)

lemma traced_step:
  assumes "net_step bound m1 m2 n n'" and "traced xs n ls1 ls2" and "nt_ctx n' = None"
  shows "\<exists>ls1' ls2'. traced xs n' ls1' ls2'"
  using assms
proof (induction rule: net_step.induct)
  case (up_recv n e es up)
  then have "traced xs (n\<lparr>nt_rest := es, nt_up := up\<rparr>) (ls1 @ [Ev e]) ls2"
    by (intro traced_up [OF up_recv(3,2), where rest' = es and buf' = "nt_buf n"]) auto
  then show ?case by blast
next
  case (up_send n y up)
  then have "traced xs (n\<lparr>nt_buf := nt_buf n @ [y], nt_up := up\<rparr>) (ls1 @ [Sent y]) ls2"
    by (intro traced_up [OF up_send(3,2), where rest' = "nt_rest n" and buf' = "nt_buf n @ [y]"]) auto
  then show ?case by blast
next
  case (hand_over n y up down)
  let ?mid = "n\<lparr>nt_buf := [y], nt_up := up\<rparr>"
  have mid: "traced xs ?mid (ls1 @ [Sent y]) ls2"
    using hand_over
    by (intro traced_up [OF hand_over(4,2), where rest' = "nt_rest n" and buf' = "[y]"]) auto
  have live: "\<not> exited (nt_down ?mid)" using step_not_exited [OF hand_over(3)] by simp
  with mid have recv: "received ls2 @ items [y] = items (sent (ls1 @ [Sent y]))"
    by (auto simp: traced_def)
  with items_prefix_closing [OF traced_sent_prefix [OF mid]]
  have "prefix (received (ls2 @ [Ev (Item y)])) (closing (closed1 xs))" by simp
  with mid hand_over recv
  have "traced xs (n\<lparr>nt_up := up, nt_down := down\<rparr>) (ls1 @ [Sent y]) (ls2 @ [Ev (Item y)])"
    by (intro traced_down [OF mid, where buf' = "[]"]) auto
  then show ?case by blast
next
  case (down_recv n y ys down)
  have live: "\<not> exited (nt_down n)" using step_not_exited [OF down_recv(2)] .
  with down_recv have recv: "received ls2 @ items (y # ys) = items (sent ls1)"
    by (auto simp: traced_def)
  from items_prefix_closing [OF traced_sent_prefix [OF down_recv(3)]] recv
  have "prefix (received ls2 @ items (y # ys)) (closing (closed1 xs))" by simp
  then have "prefix (received (ls2 @ [Ev (Item y)])) (closing (closed1 xs))"
    by (auto simp: prefix_def)
  with down_recv recv
  have "traced xs (n\<lparr>nt_buf := ys, nt_down := down\<rparr>) ls1 (ls2 @ [Ev (Item y)])"
    by (intro traced_down [OF down_recv(3), where buf' = ys]) auto
  then show ?case by blast
next
  case (down_closed n r c down)
  have live: "\<not> exited (nt_down n)" using step_not_exited [OF down_closed(3)] .
  with traced_up_complete [OF down_closed(4)] down_closed have sent: "sent ls1 = closed1 xs" by blast
  with live down_closed(1,4) have "received ls2 = items (closed1 xs) \<or> received ls2 = closing (closed1 xs)"
    by (auto simp: traced_def)
  moreover have "received ls2 \<noteq> closing (closed1 xs)"
  proof
    assume full: "received ls2 = closing (closed1 xs)"
    have "snd (exec m2 (loop_init m2) (received ls2)) = Return (ret2 (closed1 xs))"
      using down.returns_closed [of "closed1 xs"] by (simp add: full returns_def)
    moreover have "undisturbed ls2" using live down_closed(4) by (auto simp: traced_def)
    with down_closed(4) have "exec m2 (loop_init m2) (received ls2 @ []) =
        (sent ls2 @ fst (exec_from m2 (nt_down n) []), snd (exec_from m2 (nt_down n) []))"
      using run_exec_from [of m2 "start m2" ls2 "nt_down n" "[]"] by (simp add: traced_def exec_from_start)
    moreover have "status_ok m2 (nt_down n)"
      using down_closed(4) run_ok [of m2 "start m2" ls2] by (simp add: traced_def)
    ultimately show False
      using down_closed(3) live
      by (cases "nt_down n") (auto simp: settle_def split: option.splits elim!: step_EvE)
  qed
  ultimately have "received ls2 = items (closed1 xs)" by blast
  with down_closed
  have "traced xs (n\<lparr>nt_down := down\<rparr>) ls1 (ls2 @ [Ev Closed])"
    by (intro traced_down [OF down_closed(4), where buf' = "[]"]) (auto simp: closing_items)
  then show ?case by blast
next
  case (down_send n z down)
  have live: "\<not> exited (nt_down n)" using step_not_exited [OF down_send(1)] .
  with down_send
  have "traced xs (n\<lparr>nt_down := down, nt_out := nt_out n @ [z]\<rparr>) ls1 (ls2 @ [Sent z])"
    by (intro traced_down [OF down_send(2), where buf' = "nt_buf n"]) (auto simp: traced_def)
  then show ?case by blast
next
  case (discard n r y ys)
  then have "traced xs (n\<lparr>nt_buf := ys\<rparr>) ls1 ls2" by (auto simp: traced_def)
  then show ?case by blast
next
  case (discard_hand_over n r y up)
  then have "traced xs (n\<lparr>nt_up := up\<rparr>) (ls1 @ [Sent y]) ls2"
    by (intro traced_up [OF discard_hand_over(4,3), where rest' = "nt_rest n" and buf' = "nt_buf n"]) auto
  then show ?case by blast
next
  case (up_drain n r c up)
  then have "traced xs (n\<lparr>nt_up := up\<rparr>) (ls1 @ [DrainSig]) ls2"
    by (intro traced_up [OF up_drain(3,2), where rest' = "nt_rest n" and buf' = "nt_buf n"]) auto
  then show ?case by blast
next
  case (down_drain n down)
  have live: "\<not> exited (nt_down n)" using step_not_exited [OF down_drain(1)] .
  have "\<exists>r. down = Exited r True" using down_drain(1) by (auto elim!: step_DrainE split: if_splits)
  with live down_drain
  have "traced xs (n\<lparr>nt_down := down\<rparr>) ls1 (ls2 @ [DrainSig])"
    by (intro traced_down [OF down_drain(2), where buf' = "nt_buf n"]) (auto simp: traced_def)
  then show ?case by blast
qed simp_all

lemma net_step_ctx: "net_step bound m1 m2 n n' \<Longrightarrow> nt_ctx n' = None \<Longrightarrow> nt_ctx n = None"
  by (induction rule: net_step.induct) auto

lemma net_reach_traced:
  "net_reach bound m1 m2 xs n \<Longrightarrow> nt_ctx n = None \<Longrightarrow> \<exists>ls1 ls2. traced xs n ls1 ls2"
proof (induction rule: net_reach.induct)
  case net_start
  then show ?case using traced_init by blast
next
  case (net_next n n')
  then have "nt_ctx n = None" using net_step_ctx by blast
  with net_next obtain ls1 ls2 where "traced xs n ls1 ls2" by blast
  with net_next(2,4) show ?case by (blast dest: traced_step)
qed

lemma net_safe:
  assumes "net_reach bound m1 m2 xs n" and "nt_ctx n = None"
  shows "prefix (nt_out n) (closed2 (closed1 xs))"
proof -
  obtain ls1 ls2 where "traced xs n ls1 ls2" using net_reach_traced [OF assms] by blast
  then show ?thesis using down.trace_any [of ls2 "nt_down n" "closed1 xs"] by (simp add: traced_def)
qed

lemma net_complete:
  assumes "net_reach bound m1 m2 xs n" and "nt_ctx n = None" and "nt_down n = Exited r False"
  shows "nt_out n = closed2 (closed1 xs) \<and> r = ret2 (closed1 xs)"
proof -
  obtain ls1 ls2 where "traced xs n ls1 ls2" using net_reach_traced [OF assms(1,2)] by blast
  then show ?thesis
    using down.trace_complete [of ls2 r False "closed1 xs"] assms(3) by (simp add: traced_def)
qed

end

section \<open>Draining\<close>

text \<open>A stage in a send that does not listen for its drain channel, behind a full channel.\<close>

definition send_blocked :: "nat \<Rightarrow> ('s, 'a recv, 'y) loop \<Rightarrow> ('s, 'a, 'y, 't, 'z) net \<Rightarrow> bool" where
  "send_blocked bound m1 n \<longleftrightarrow>
     (\<exists>y ys o'. nt_up n = Sending (y # ys) o') \<and> length (nt_buf n) = bound \<and> 0 < bound
     \<and> loop_send m1 \<notin> {SendDrain, SendCtxDrain}"

text \<open>
  If the downstream left cooperatively, nobody reads the channel any more: the upstream stays
  blocked until the context is cancelled.
\<close>

lemma blocked_stays:
  assumes "net_step bound m1 m2 n n'" and "send_blocked bound m1 n" and "nt_down n = Exited r True"
    and "nt_ctx n' = None"
  shows "n' = n"
  using assms by (cases rule: net_step.cases) (auto simp: send_blocked_def)

lemma blocked_forever:
  assumes "(net_step bound m1 m2)\<^sup>*\<^sup>* n n'" and "send_blocked bound m1 n" and "nt_down n = Exited r True"
    and "nt_ctx n' = None"
  shows "n' = n"
  using assms
proof (induction rule: rtranclp_induct)
  case (step n1 n2)
  have ctx: "nt_ctx n1 = None"
    using step(2,6) by (cases rule: net_step.cases) auto
  with step have "n1 = n" by simp
  with step blocked_stays show ?case by metis
qed simp

text \<open>A downstream that left any other way keeps the channel moving.\<close>

lemma discards_when_left:
  assumes "nt_down n = Exited r False" and "nt_up n = Sending (y # ys) o'"
  shows "\<exists>n'. net_step bound m1 m2 n n' \<and> (nt_buf n \<noteq> [] \<longrightarrow> nt_buf n' = tl (nt_buf n)) \<and>
           (nt_buf n = [] \<longrightarrow> nt_up n' = enter m1 ys o')"
proof (cases "nt_buf n")
  case Nil
  have "net_step bound m1 m2 n (n\<lparr>nt_up := enter m1 ys o'\<rparr>)"
    by (rule net_step.discard_hand_over [OF assms(1) Nil]) (simp add: assms(2))
  with Nil show ?thesis by auto
next
  case (Cons b bs)
  then have "net_step bound m1 m2 n (n\<lparr>nt_buf := bs\<rparr>)"
    using assms(1) by (intro net_step.discard)
  with Cons show ?thesis by auto
qed

section \<open>An instance\<close>

interpretation indexed_take: pipe
  "select_loop 0 with_index_step" "emissions (\<lambda>idx _. Suc idx) (\<lambda>idx x. [Indexed idx x]) 0"
  "\<lambda>xs. emissions (\<lambda>idx _. Suc idx) (\<lambda>idx x. [Indexed idx x]) 0 xs @ []" "\<lambda>_. None"
  "drain_loop 0 (take_head n) take_step" "take (nat n)" "take (nat n)" "\<lambda>_. None"
  for n :: int
  by (rule pipe.intro) (rule with_index.stage.stream_stage_axioms, rule take.stream_stage_axioms)

lemma take_of_enumerate: "take k (enumerate i xs) = enumerate i (take k xs)"
  by (induction xs arbitrary: k i) (simp_all add: take_Cons split: nat.splits)

lemma indexed_take_result:
  assumes "net_reach bound (select_loop 0 with_index_step) (drain_loop 0 (take_head n) take_step) xs s"
    and "nt_ctx s = None" and "nt_down s = Exited r False"
  shows "nt_out s = map (\<lambda>(k, x). Indexed k x) (enumerate 0 (take (nat n) xs))"
  using indexed_take.net_complete [OF assms]
  by (simp add: emissions_with_index take_map take_of_enumerate)

section \<open>Properties\<close>

text \<open>
  C1: Two stages joined by a channel of any capacity compute the composition of what they
  compute: at every moment, drained or not, the downstream has sent a prefix of it, and when it
  has returned by itself it has sent all of it and returns its own verdict.
\<close>

theorem pipeline_composes:
  assumes "stream_stage m1 opened1 closed1 ret1" and "stream_stage m2 opened2 closed2 ret2"
    and "net_reach bound m1 m2 xs n" and "nt_ctx n = None"
  shows "prefix (nt_out n) (closed2 (closed1 xs)) \<and>
         (\<forall>r. nt_down n = Exited r False \<longrightarrow> nt_out n = closed2 (closed1 xs) \<and> r = ret2 (closed1 xs))"
  using pipe.net_safe [OF pipe.intro [OF assms(1,2)] assms(3,4)]
    pipe.net_complete [OF pipe.intro [OF assms(1,2)] assms(3,4)] by blast

lemma with_index_take_run:
  "\<exists>n. net_reach 0 (select_loop 0 with_index_step) (drain_loop 0 (take_head 1) take_step) [a] n \<and>
       nt_ctx n = None \<and> nt_down n = Exited None False \<and> nt_out n = [Indexed 0 a]"
proof -
  let ?m1 = "select_loop 0 with_index_step" and ?m2 = "drain_loop 0 (take_head 1) take_step"
  let ?n0 = "net_init ?m1 ?m2 [a]"
  let ?n1 = "?n0\<lparr>nt_rest := [Closed], nt_up := Sending [Indexed 0 a] (Continue 1)\<rparr>"
  let ?n2 = "?n1\<lparr>nt_up := Looping 1, nt_down := Sending [Indexed 0 a] (Continue 1)\<rparr>"
  let ?n3 = "?n2\<lparr>nt_down := Exited None False, nt_out := [Indexed 0 a]\<rparr>"
  have "net_step 0 ?m1 ?m2 ?n0 ?n1"
    by (rule net_step.up_recv [where e = "Item a"]) (simp_all add: net_init_def start_def)
  moreover have "net_step 0 ?m1 ?m2 ?n1 ?n2"
    by (rule net_step.hand_over [where y = "Indexed 0 a"])
      (simp_all add: net_init_def start_def enter_Continue take_head_def)
  moreover have "net_step 0 ?m1 ?m2 ?n2 ?n3"
    using net_step.down_send [of ?m2 ?n2 "Indexed 0 a" "Exited None False" 0 ?m1]
    by (simp add: net_init_def start_def enter_Continue take_head_def)
  ultimately have "net_reach 0 ?m1 ?m2 [a] ?n3"
    by (meson net_reach.intros)
  then show ?thesis by (intro exI [of _ ?n3]) (simp add: net_init_def)
qed

theorem pipeline_composes_witness:
  "\<exists>n. net_reach 0 (select_loop 0 with_index_step) (drain_loop 0 (take_head 1) take_step) [CHR ''a''] n \<and>
       nt_down n = Exited None False \<and>
       nt_out n = take (nat 1) (emissions (\<lambda>idx _. Suc idx) (\<lambda>idx x. [Indexed idx x]) 0 [CHR ''a''] @ [])"
proof -
  obtain n where n: "net_reach 0 (select_loop 0 with_index_step) (drain_loop 0 (take_head 1) take_step) [CHR ''a''] n"
    "nt_ctx n = None" "nt_down n = Exited None False"
    using with_index_take_run [of "CHR ''a''"] by blast
  with pipeline_composes [OF with_index.stage.stream_stage_axioms take.stream_stage_axioms n(1,2)]
  show ?thesis by blast
qed

text \<open>
  C37: A stage blocked in \<^verbatim>\<open>outbox.Send\<close> hangs when its consumer leaves cooperatively: the network
  of \<^verbatim>\<open>WithIndex\<close> and \<^verbatim>\<open>Scan\<close> over a channel of capacity one reaches a state with the consumer
  gone in which nothing can happen any more until the context is cancelled.
\<close>

theorem drain_hangs_blocked_sender:
  "\<exists>n. net_reach 1 (op_loop (WithIndex cfg1 1 0)) (op_loop (Scan cfg2 2 1 initial fn)) [a, b] n \<and>
       nt_down n = Exited None True \<and> (\<exists>y o'. nt_up n = Sending [y] o') \<and>
       {n'. (net_step 1 (op_loop (WithIndex cfg1 1 0)) (op_loop (Scan cfg2 2 1 initial fn)))\<^sup>*\<^sup>* n n' \<and>
            nt_ctx n' = None} = {n}"
proof -
  let ?m1 = "op_loop (WithIndex cfg1 1 0)" and ?m2 = "op_loop (Scan cfg2 2 1 initial fn)"
  have m1: "?m1 = select_loop 0 with_index_step" and m2: "?m2 = select_loop initial (scan_step fn)"
    by (simp_all add: WithIndex_def Scan_def)
  let ?n0 = "net_init ?m1 ?m2 [a, b]"
  let ?n1 = "?n0\<lparr>nt_rest := [Item b, Closed], nt_up := Sending [Indexed 0 a] (Continue 1)\<rparr>"
  let ?n2 = "?n1\<lparr>nt_buf := [Indexed 0 a], nt_up := Looping 1\<rparr>"
  let ?n3 = "?n2\<lparr>nt_rest := [Closed], nt_up := Sending [Indexed 1 b] (Continue 2)\<rparr>"
  let ?n4 = "?n3\<lparr>nt_down := Exited None True\<rparr>"
  have "net_step 1 ?m1 ?m2 ?n0 ?n1"
    by (rule net_step.up_recv [where e = "Item a"]) (simp_all add: net_init_def start_def m1 m2)
  moreover have "net_step 1 ?m1 ?m2 ?n1 ?n2"
    using net_step.up_send [of ?n1 1 ?m1 "Indexed 0 a" "Looping 1" ?m2]
    by (simp add: net_init_def start_def m1 m2)
  moreover have "net_step 1 ?m1 ?m2 ?n2 ?n3"
    by (rule net_step.up_recv [where e = "Item b"]) (simp_all add: net_init_def start_def m1 m2)
  moreover have "net_step 1 ?m1 ?m2 ?n3 ?n4"
    by (rule net_step.down_drain) (simp add: net_init_def start_def m1 m2)
  ultimately have "net_reach 1 ?m1 ?m2 [a, b] ?n4" by (meson net_reach.intros)
  moreover have "send_blocked 1 ?m1 ?n4" by (simp add: send_blocked_def net_init_def m1)
  then have "{n'. (net_step 1 ?m1 ?m2)\<^sup>*\<^sup>* ?n4 n' \<and> nt_ctx n' = None} = {?n4}"
    using blocked_forever [of 1 ?m1 ?m2 ?n4 _ None] by (auto simp: net_init_def)
  ultimately show ?thesis by (intro exI [of _ ?n4]) (simp add: net_init_def)
qed

end
