(* ===== verification/Batch_Ops.thy ===== *)
theory Batch_Ops
  imports Transform_Ops
begin

text \<open>
  The operators of \<^verbatim>\<open>batch.go\<close>: \<^verbatim>\<open>Batch\<close> with its three triggers, \<^verbatim>\<open>BufferWith\<close>, \<^verbatim>\<open>Unbatch\<close>,
  \<^verbatim>\<open>SlidingWindow\<close>, \<^verbatim>\<open>SessionWindow\<close>, \<^verbatim>\<open>ChunkBy\<close> and \<^verbatim>\<open>ChunkWhile\<close>.

  The locale \<^verbatim>\<open>chunker\<close> is what the buffering operators share: whatever arrives is either
  held or has been sent, in order, in non-empty slices. It yields conservation for every
  schedule, with timers and closing selectors firing anywhere.
\<close>

section \<open>The chunking contract\<close>

fun status_held :: "('s \<Rightarrow> 'a list) \<Rightarrow> ('s, 'a list) status \<Rightarrow> 'a list" where
  "status_held held (Looping s) = held s"
| "status_held held (Sending os (Continue s)) = concat os @ held s"
| "status_held held (Sending os (Return r)) = concat os"
| "status_held held (Exited r c) = []"

locale chunker =
  fixes m :: "('s, 'e, 'a list) loop"
    and held :: "'s \<Rightarrow> 'a list"
    and arrived :: "'e \<Rightarrow> 'a list"
  assumes no_head: "loop_head m = (\<lambda>_. None)"
    and init_held: "held (loop_init m) = []"
    and step_continue: "loop_step m s e = Act os (Continue s') \<Longrightarrow>
           concat os @ held s' = held s @ arrived e \<and> [] \<notin> set os"
    and step_return: "loop_step m s e = Act os (Return r) \<Longrightarrow>
           concat os = held s @ arrived e \<and> [] \<notin> set os"
begin

lemma held_enter: "status_held held (enter m os n) =
    concat os @ (case n of Continue s \<Rightarrow> held s | Return _ \<Rightarrow> [])"
  by (cases "(m, os, n)" rule: enter.cases) (auto simp: enter_Continue no_head split: outcome.splits)

lemma step_held_Ev:
  "step m st (Ev e) = Some st' \<Longrightarrow> status_held held st' = status_held held st @ arrived e"
  by (erule step_EvE)
    (auto simp: held_enter split: if_splits act.splits outcome.splits dest!: step_continue step_return)

lemma step_held_Sent:
  "step m st (Sent x) = Some st' \<Longrightarrow> x @ status_held held st' = status_held held st"
  by (erule step_SentE) (auto simp: held_enter split: if_splits outcome.splits)

lemma run_conserves_from:
  "run m st ls = Some st' \<Longrightarrow> undisturbed ls \<Longrightarrow>
   concat (sent ls) @ status_held held st' = status_held held st @ concat (map arrived (received ls))"
proof (induction ls arbitrary: st)
  case (Cons l ls)
  then obtain st1 where st1: "step m st l = Some st1" "run m st1 ls = Some st'"
    by (auto split: option.splits)
  show ?case
  proof (cases l)
    case (Ev e)
    with Cons st1 step_held_Ev [of st e st1] show ?thesis by simp
  next
    case (Sent x)
    with Cons st1 step_held_Sent [of st x st1] show ?thesis by simp
  qed (use Cons.prems in auto)
qed simp

lemma run_conserves:
  "run m (start m) ls = Some st \<Longrightarrow> undisturbed ls \<Longrightarrow>
   concat (sent ls) @ status_held held st = concat (map arrived (received ls))"
  using run_conserves_from [of "start m" ls st] by (simp add: start_def no_head init_held)

lemma run_conserves_exit:
  "run m (start m) ls = Some (Exited r c) \<Longrightarrow> undisturbed ls \<Longrightarrow>
   concat (sent ls) = concat (map arrived (received ls))"
  using run_conserves [of ls "Exited r c"] by simp

text \<open>Nothing is reordered, duplicated or made up even when the stage is interrupted.\<close>

lemma exec_conserves:
  "concat (fst (exec m s es)) @ (case snd (exec m s es) of Continue s' \<Rightarrow> held s' | Return _ \<Rightarrow> [])
     = held s @ concat (map arrived es) \<or>
   (\<exists>r. snd (exec m s es) = Return r \<and>
        prefix (concat (fst (exec m s es))) (held s @ concat (map arrived es)))"
proof (induction es arbitrary: s)
  case Nil
  then show ?case by (simp add: settle_def no_head)
next
  case (Cons e es)
  obtain os n where act: "loop_step m s e = Act os n" by (cases "loop_step m s e")
  show ?case
  proof (cases n)
    case (Return r)
    with act step_return [of s e os r] show ?thesis by (auto simp: no_head)
  next
    case (Continue s')
    with act step_continue [of s e os s'] have hd: "concat os @ held s' = held s @ arrived e" by simp
    have pre: "concat os @ (held s' @ w) = held s @ (arrived e @ w)" for w
      using hd by (metis append.assoc)
    from Cons.IH [of s'] Continue act show ?thesis
      by (auto simp: no_head case_prod_beta pre)
        (metis pre append.assoc prefix_append same_prefix_prefix)+
  qed
qed

lemma run_prefix:
  assumes "run m (start m) ls = Some st"
  shows "prefix (concat (sent ls)) (concat (map arrived (received ls)))"
proof -
  from run_sent_prefix [OF assms] obtain zs where zs: "outputs m (received ls) = sent ls @ zs"
    by (auto simp: prefix_def)
  have "prefix (concat (outputs m (received ls))) (concat (map arrived (received ls)))"
    using exec_conserves [of "loop_init m" "received ls"]
    by (auto simp: outputs_def init_held intro: prefixI [OF sym])
  with zs show ?thesis by (auto simp: prefix_def)
qed

lemma exec_nonempty: "[] \<notin> set (fst (exec m s es))"
proof (induction es arbitrary: s)
  case (Cons e es)
  obtain os n where act: "loop_step m s e = Act os n" by (cases "loop_step m s e")
  then show ?case
    using Cons step_return [of s e os] step_continue [of s e os]
    by (cases n) (auto simp: no_head case_prod_beta)
qed simp

end

section \<open>Batch\<close>

text \<open>An arrival on the input, or the ticker firing.\<close>

datatype 'a timed = Arrival "'a recv" | Tick

fun arrival :: "'a timed \<Rightarrow> 'a list" where
  "arrival (Arrival (Item x)) = [x]"
| "arrival (Arrival Closed) = []"
| "arrival Tick = []"

record 'a batch_vars =
  bv_buf :: "'a list"
  bv_measure :: int

text \<open>\<^verbatim>\<open>flush\<close>: the slices sent (none when the buffer is empty) and the variables after it.\<close>

definition batch_flush :: "'a batch_vars \<Rightarrow> 'a list list \<times> 'a batch_vars" where
  "batch_flush v =
     (if bv_buf v = [] then ([], v) else ([bv_buf v], \<lparr>bv_buf = [], bv_measure = 0\<rparr>))"

definition shouldFlush :: "('a, 'v) stage_config \<Rightarrow> 'a batch_vars \<Rightarrow> bool" where
  "shouldFlush cfg v \<longleftrightarrow>
     (cfg_batch_count cfg > 0 \<and> int (length (bv_buf v)) \<ge> cfg_batch_count cfg)
     \<or> (cfg_batch_measure cfg \<noteq> None \<and> bv_measure v \<ge> cfg_batch_measure_max cfg)"

definition batch_add :: "('a, 'v) stage_config \<Rightarrow> 'a batch_vars \<Rightarrow> 'a \<Rightarrow> 'a batch_vars" where
  "batch_add cfg v item =
     \<lparr>bv_buf = bv_buf v @ [item],
      bv_measure = (case cfg_batch_measure cfg of Some f \<Rightarrow> bv_measure v + f item | None \<Rightarrow> bv_measure v)\<rparr>"

fun batch_step :: "('a, 'v) stage_config \<Rightarrow> 'a batch_vars \<Rightarrow> 'a timed \<Rightarrow> ('a batch_vars, 'a list) act" where
  "batch_step cfg v (Arrival Closed) =
     Act (if cfg_drop_partial cfg then [] else fst (batch_flush v)) (Return None)"
| "batch_step cfg v (Arrival (Item item)) =
     (let v = batch_add cfg v item in
      if shouldFlush cfg v then (case batch_flush v of (os, v) \<Rightarrow> Act os (Continue v))
      else Act [] (Continue v))"
| "batch_step cfg v Tick = (case batch_flush v of (os, v) \<Rightarrow> Act os (Continue v))"

definition batch_loop :: "('a, 'v) stage_config \<Rightarrow> ('a batch_vars, 'a timed, 'a list) loop" where
  "batch_loop cfg =
     (select_loop \<lparr>bv_buf = [], bv_measure = 0\<rparr> (batch_step cfg))
       \<lparr>loop_listens := (\<lambda>_ e. e = Tick \<longrightarrow> cfg_batch_timeout cfg \<noteq> 0)\<rparr>"

text \<open>\<^verbatim>\<open>None\<close> is the panic for a batch with no trigger.\<close>

definition Batch ::
  "('a, 'v) stage_config \<Rightarrow> stage_id \<Rightarrow> stage_id \<Rightarrow> ('a batch_vars, 'a timed, 'a list) operator option" where
  "Batch cfg i p =
     (if cfg_batch_count cfg = 0 \<and> cfg_batch_measure cfg = None \<and> cfg_batch_timeout cfg = 0 then None
      else Some ((unary ''batch'' cfg i p (batch_loop cfg))
             \<lparr>op_meta := (stageMeta i ''batch'' (orDefault (cfg_name cfg) ''batch'') (cfg_buffer cfg) [p])
                           \<lparr>meta_batch_size := cfg_batch_count cfg\<rparr>\<rparr>))"

lemma batch_loop_sel [simp]:
  "loop_init (batch_loop cfg) = \<lparr>bv_buf = [], bv_measure = 0\<rparr>"
  "loop_head (batch_loop cfg) = (\<lambda>_. None)"
  "loop_step (batch_loop cfg) = batch_step cfg"
  by (simp_all add: batch_loop_def)

definition keep_partial :: "('a, 'v) stage_config \<Rightarrow> ('a, 'v) stage_config" where
  "keep_partial cfg = cfg\<lparr>cfg_drop_partial := False\<rparr>"

lemma batch_step_conserves:
  "batch_step (keep_partial cfg) v e = Act os n \<Longrightarrow>
   concat os @ (case n of Continue v' \<Rightarrow> bv_buf v' | Return _ \<Rightarrow> []) = bv_buf v @ arrival e \<and> [] \<notin> set os"
  by (cases "(cfg, v, e)" rule: batch_step.cases)
    (auto simp: batch_flush_def batch_add_def Let_def keep_partial_def split: if_splits)

interpretation batch: chunker "batch_loop (keep_partial cfg)" bv_buf arrival
  for cfg :: "('a, 'v) stage_config"
  by unfold_locales (force dest: batch_step_conserves)+

text \<open>
  The sizes. A list is below the triggers when it holds fewer items than the count, and the measures of no
  non-empty prefix of it add up to the limit; a batch is one that was below them before its last item, at
  most. What is buffered is always below the triggers.
\<close>

definition below_triggers :: "('a, 'v) stage_config \<Rightarrow> 'a list \<Rightarrow> bool" where
  "below_triggers cfg xs \<longleftrightarrow>
     (0 < cfg_batch_count cfg \<longrightarrow> int (length xs) < cfg_batch_count cfg) \<and>
     (\<forall>f. cfg_batch_measure cfg = Some f \<longrightarrow>
        (\<forall>ys. prefix ys xs \<and> ys \<noteq> [] \<longrightarrow> sum_list (map f ys) < cfg_batch_measure_max cfg))"

definition batch_var_ok :: "('a, 'v) stage_config \<Rightarrow> 'a batch_vars \<Rightarrow> bool" where
  "batch_var_ok cfg v \<longleftrightarrow>
     below_triggers cfg (bv_buf v) \<and>
     (\<forall>f. cfg_batch_measure cfg = Some f \<longrightarrow> bv_measure v = sum_list (map f (bv_buf v)))"

lemma below_triggers_Nil [simp]: "below_triggers cfg []"
  by (simp add: below_triggers_def)

lemma prefix_of_butlast: "prefix ys (butlast xs) \<longleftrightarrow> strict_prefix ys xs \<or> (xs = [] \<and> ys = [])"
  by (cases xs rule: rev_cases) (auto simp: strict_prefix_def prefix_snoc)

lemma below_triggers_butlast: "below_triggers cfg xs \<Longrightarrow> below_triggers cfg (butlast xs)"
  by (auto simp: below_triggers_def prefix_of_butlast strict_prefix_def)

lemma batch_var_ok_add:
  assumes "batch_var_ok cfg v" and "\<not> shouldFlush cfg (batch_add cfg v x)"
  shows "batch_var_ok cfg (batch_add cfg v x)"
  using assms by (auto simp: batch_var_ok_def below_triggers_def shouldFlush_def batch_add_def)

lemma batch_step_sizes:
  assumes "batch_var_ok cfg v" and "batch_step cfg v e = Act os r"
  shows "(\<forall>b \<in> set os. b \<noteq> [] \<and> below_triggers cfg (butlast b)) \<and>
         (\<forall>v'. r = Continue v' \<longrightarrow> batch_var_ok cfg v' \<and> concat os @ bv_buf v' = bv_buf v @ arrival e) \<and>
         (\<forall>er. r = Return er \<longrightarrow> (\<exists>rest. concat os @ rest = bv_buf v @ arrival e \<and> below_triggers cfg rest \<and>
            (rest \<noteq> [] \<longrightarrow> cfg_drop_partial cfg)))"
proof -
  have empty: "batch_var_ok cfg \<lparr>bv_buf = [], bv_measure = 0\<rparr>" by (simp add: batch_var_ok_def)
  have below: "below_triggers cfg (bv_buf v)" using assms(1) by (simp add: batch_var_ok_def)
  show ?thesis
  proof (cases "(cfg, v, e)" rule: batch_step.cases)
    case 1
    with assms(2) below show ?thesis by (auto simp: batch_flush_def below_triggers_butlast split: if_splits)
  next
    case (2 cfg' v' item)
    show ?thesis
    proof (cases "shouldFlush cfg (batch_add cfg v item)")
      case True
      with 2 assms(2) below empty show ?thesis by (auto simp: batch_flush_def batch_add_def Let_def)
    next
      case False
      with 2 assms(2) batch_var_ok_add [OF assms(1) False] show ?thesis by (auto simp: batch_add_def Let_def)
    qed
  next
    case 3
    with assms below empty show ?thesis by (auto simp: batch_flush_def below_triggers_butlast split: if_splits)
  qed
qed

text \<open>The batches a stage sends, whatever becomes of it.\<close>

lemma batch_exec_sizes:
  assumes "batch_var_ok cfg v" and "exec (batch_loop cfg) v es = (os, n)"
  shows "(\<forall>b \<in> set os. b \<noteq> [] \<and> below_triggers cfg (butlast b)) \<and>
         prefix (concat os) (bv_buf v @ concat (map arrival es))"
  using assms
proof (induction es arbitrary: v os n)
  case Nil
  then show ?case by (auto simp: settle_def)
next
  case (Cons e es)
  obtain os1 r where act: "batch_step cfg v e = Act os1 r" by (cases "batch_step cfg v e")
  note one = batch_step_sizes [OF Cons.prems(1) act]
  show ?case
  proof (cases r)
    case (Continue v')
    obtain os2 n2 where two: "exec (batch_loop cfg) v' es = (os2, n2)" by fastforce
    with Continue act Cons.prems(2) have os: "os = os1 @ os2" by simp
    have v': "batch_var_ok cfg v'" "bv_buf v @ arrival e = concat os1 @ bv_buf v'" using one Continue by simp_all
    have "bv_buf v @ concat (map arrival (e # es)) = concat os1 @ bv_buf v' @ concat (map arrival es)"
      using v'(2) by (metis append.assoc concat.simps(2) list.simps(9))
    moreover have "prefix (concat os2) (bv_buf v' @ concat (map arrival es))"
      "\<forall>b \<in> set os2. b \<noteq> [] \<and> below_triggers cfg (butlast b)"
      using Cons.IH [OF v'(1) two] by simp_all
    ultimately show ?thesis using one by (simp only: os set_append concat_append same_prefix_prefix) blast
  next
    case (Return er)
    with one obtain rest where "concat os1 @ rest = bv_buf v @ arrival e" by blast
    then have "bv_buf v @ concat (map arrival (e # es)) = concat os1 @ rest @ concat (map arrival es)"
      by (metis append.assoc concat.simps(2) list.simps(9))
    then have "prefix (concat os1) (bv_buf v @ concat (map arrival (e # es)))" by (simp only: prefixI)
    moreover have "os = os1" using Return act Cons.prems(2) by simp
    ultimately show ?thesis using one by blast
  qed
qed

text \<open>The items of an undisturbed stage that have arrived and are not sent.\<close>

definition batch_left :: "('a, 'v) stage_config \<Rightarrow> 'a list \<Rightarrow> bool" where
  "batch_left cfg rest \<longleftrightarrow> below_triggers cfg rest \<and> (rest \<noteq> [] \<longrightarrow> cfg_drop_partial cfg)"

fun batch_unsent :: "('a, 'v) stage_config \<Rightarrow> 'a list \<Rightarrow> ('a batch_vars, 'a list) status \<Rightarrow> bool" where
  "batch_unsent cfg xs (Looping v) = (batch_var_ok cfg v \<and> xs = bv_buf v)"
| "batch_unsent cfg xs (Sending os (Continue v)) = (batch_var_ok cfg v \<and> xs = concat os @ bv_buf v)"
| "batch_unsent cfg xs (Sending os (Return r)) = (\<exists>rest. xs = concat os @ rest \<and> batch_left cfg rest)"
| "batch_unsent cfg xs (Exited r c) = batch_left cfg xs"

lemma batch_unsent_enter:
  "batch_unsent cfg xs (enter (batch_loop cfg) os n) =
     (case n of Continue v \<Rightarrow> batch_var_ok cfg v \<and> xs = concat os @ bv_buf v
              | Return r \<Rightarrow> \<exists>rest. xs = concat os @ rest \<and> batch_left cfg rest)"
  by (cases "(batch_loop cfg, os, n)" rule: enter.cases) (auto simp: enter_Continue split: outcome.splits)

lemma batch_unsent_step:
  assumes "batch_var_ok cfg v" and "batch_step cfg v e = Act os n"
  shows "batch_unsent cfg (bv_buf v @ arrival e) (enter (batch_loop cfg) os n)"
  using batch_step_sizes [OF assms] unfolding batch_unsent_enter batch_left_def
  by (cases n) (simp_all, metis)

lemma batch_unsent_run:
  "run (batch_loop cfg) st ls = Some st' \<Longrightarrow> undisturbed ls \<Longrightarrow> batch_unsent cfg xs st \<Longrightarrow>
   \<exists>rest. concat (sent ls) @ rest = xs @ concat (map arrival (received ls)) \<and> batch_unsent cfg rest st'"
proof (induction ls arbitrary: st xs)
  case (Cons l ls)
  then obtain st1 where st1: "step (batch_loop cfg) st l = Some st1" "run (batch_loop cfg) st1 ls = Some st'"
    by (auto split: option.splits)
  show ?case
  proof (cases l)
    case (Ev e)
    from st1(1) obtain v where v: "st = Looping v" unfolding Ev by (elim step_EvE) blast
    obtain os n where act: "batch_step cfg v e = Act os n" by (cases "batch_step cfg v e")
    with st1(1) Cons.prems(3) have "batch_unsent cfg (xs @ arrival e) st1"
      unfolding Ev v using batch_unsent_step [of cfg v e os n] by (simp split: if_splits)
    from Cons.IH [OF st1(2) _ this] Cons.prems(2) Ev show ?thesis by simp
  next
    case (Sent b)
    from st1(1) obtain os n where st: "st = Sending (b # os) n" "st1 = enter (batch_loop cfg) os n"
      unfolding Sent by (elim step_SentE) (simp split: if_splits)
    have "\<exists>xs'. xs = b @ xs' \<and> batch_unsent cfg xs' st1"
      using Cons.prems(3) by (cases n) (auto simp: st batch_unsent_enter)
    then obtain xs' where "xs = b @ xs'" "batch_unsent cfg xs' st1" by blast
    from Cons.IH [OF st1(2) _ this(2)] Cons.prems(2) Sent this(1) show ?thesis by auto
  qed (use Cons.prems in auto)
qed simp

fun chunks :: "nat \<Rightarrow> 'a list \<Rightarrow> 'a list list" where
  "chunks n xs = (if length xs < n \<or> n = 0 then [] else take n xs # chunks n (drop n xs))"

declare chunks.simps [simp del]

definition chunk_rest :: "nat \<Rightarrow> 'a list \<Rightarrow> 'a list" where
  "chunk_rest n xs = drop (n * (length xs div n)) xs"

lemma chunks_short: "length xs < n \<Longrightarrow> chunks n xs = []"
  by (simp add: chunks.simps)

lemma chunks_step: "0 < n \<Longrightarrow> length b = n \<Longrightarrow> chunks n (b @ xs) = b # chunks n xs"
  by (subst chunks.simps) simp

lemma chunk_rest_step: "0 < n \<Longrightarrow> length b = n \<Longrightarrow> chunk_rest n (b @ xs) = chunk_rest n xs"
  by (simp add: chunk_rest_def div_add_self1)

lemma chunk_rest_short: "length xs < n \<Longrightarrow> chunk_rest n xs = xs"
  by (simp add: chunk_rest_def)

lemma batch_exec_count:
  assumes n: "cfg_batch_count cfg = int n" "0 < n" and f: "cfg_batch_measure cfg = None"
    and "length (bv_buf v) < n"
  shows "fst (exec (batch_loop cfg) v (map Arrival (closing xs))) =
           chunks n (bv_buf v @ xs) @
           (if cfg_drop_partial cfg \<or> chunk_rest n (bv_buf v @ xs) = [] then [] else [chunk_rest n (bv_buf v @ xs)])"
  using assms(4)
proof (induction xs arbitrary: v)
  case Nil
  then show ?case by (simp add: chunks_short chunk_rest_short batch_flush_def)
next
  case (Cons x xs)
  let ?b = "bv_buf v @ [x]"
  have flush: "shouldFlush cfg (batch_add cfg v x) \<longleftrightarrow> length ?b = n"
    using Cons.prems n f by (auto simp: shouldFlush_def batch_add_def)
  show ?case
  proof (cases "length ?b = n")
    case True
    with flush Cons.IH [of "\<lparr>bv_buf = [], bv_measure = 0\<rparr>"] n
      chunks_step [OF n(2) True, of xs] chunk_rest_step [OF n(2) True, of xs]
    show ?thesis by (simp add: batch_flush_def batch_add_def case_prod_beta)
  next
    case False
    with flush Cons.IH [of "batch_add cfg v x"] Cons.prems
    show ?thesis by (simp add: batch_add_def case_prod_beta)
  qed
qed

section \<open>BufferWith\<close>

datatype ('a, 'b) source_or_selector = Source "'a recv" | Selector "'b recv"

fun source_items :: "('a, 'b) source_or_selector \<Rightarrow> 'a list" where
  "source_items (Source (Item x)) = [x]"
| "source_items _ = []"

definition flush_list :: "'a list \<Rightarrow> 'a list list" where
  "flush_list buf = (if buf = [] then [] else [buf])"

lemma flush_list [simp]: "concat (flush_list b) = b" "[] \<notin> set (flush_list b)"
  by (auto simp: flush_list_def)

fun buffer_with_step :: "'a list \<Rightarrow> ('a, 'b) source_or_selector \<Rightarrow> ('a list, 'a list) act" where
  "buffer_with_step buf (Source Closed) = Act (flush_list buf) (Return None)"
| "buffer_with_step buf (Source (Item item)) = Act [] (Continue (buf @ [item]))"
| "buffer_with_step buf (Selector Closed) = Act (flush_list buf) (Return None)"
| "buffer_with_step buf (Selector (Item _)) = Act (flush_list buf) (Continue [])"

definition BufferWith ::
  "('a, 'v) stage_config \<Rightarrow> stage_id \<Rightarrow> stage_id \<Rightarrow> stage_id \<Rightarrow>
   ('a list, ('a, 'b) source_or_selector, 'a list) operator" where
  "BufferWith cfg i p closingSelector =
     binary ''buffer_with'' cfg i p closingSelector False (select_loop [] buffer_with_step)"

lemma buffer_with_conserves:
  "buffer_with_step buf e = Act os n \<Longrightarrow>
   concat os @ (case n of Continue b \<Rightarrow> b | Return _ \<Rightarrow> []) = buf @ source_items e \<and> [] \<notin> set os"
  by (cases "(buf, e)" rule: buffer_with_step.cases) auto

interpretation buffer_with: chunker "select_loop [] buffer_with_step" "\<lambda>b. b" source_items
  by unfold_locales (force dest: buffer_with_conserves)+

section \<open>Unbatch\<close>

fun unbatch_step :: "unit \<Rightarrow> 'a list recv \<Rightarrow> (unit, 'a) act" where
  "unbatch_step u Closed = Act [] (Return None)"
| "unbatch_step u (Item batch) = Act batch (Continue ())"

definition Unbatch :: "('a, 'v) stage_config \<Rightarrow> stage_id \<Rightarrow> stage_id \<Rightarrow> (unit, 'b list recv, 'b) operator" where
  "Unbatch cfg i p = unary ''unbatch'' cfg i p (select_loop () unbatch_step)"

interpretation unbatch: transducer unbatch_step "()" "\<lambda>_ _. ()" "\<lambda>_ b. b" "\<lambda>_. []"
  by unfold_locales simp_all

lemma emissions_unbatch: "emissions (\<lambda>_ _. ()) (\<lambda>_ b. b) u bs = concat bs"
  by (induction bs arbitrary: u) auto

section \<open>SlidingWindow\<close>

definition sliding_step :: "nat \<Rightarrow> nat \<Rightarrow> 'a list \<Rightarrow> 'a recv \<Rightarrow> ('a list, 'a list) act" where
  "sliding_step sz stp buf e =
     (case e of
        Closed \<Rightarrow> Act [] (Return None)
      | Item item \<Rightarrow>
          (let buf = buf @ [item] in
           if length buf = sz then Act [buf] (Continue (drop stp buf)) else Act [] (Continue buf)))"

definition SlidingWindow ::
  "('a, 'v) stage_config \<Rightarrow> stage_id \<Rightarrow> stage_id \<Rightarrow> int \<Rightarrow> int \<Rightarrow> ('a list, 'a recv, 'a list) operator option" where
  "SlidingWindow cfg i p sz stp =
     (if stp \<le> 0 \<or> stp > sz then None
      else Some ((unary ''sliding_window'' cfg i p (select_loop [] (sliding_step (nat sz) (nat stp))))
             \<lparr>op_meta := (stageMeta i ''sliding_window'' (orDefault (cfg_name cfg) ''sliding_window'')
                            (cfg_buffer cfg) [p])\<lparr>meta_batch_size := sz\<rparr>\<rparr>))"

text \<open>The reference: a window at every multiple of the step that leaves a full one.\<close>

definition windows :: "nat \<Rightarrow> nat \<Rightarrow> 'a list \<Rightarrow> 'a list list" where
  "windows sz stp xs =
     (if length xs < sz then []
      else map (\<lambda>k. take sz (drop (k * stp) xs)) [0..<Suc ((length xs - sz) div stp)])"

lemma windows_short: "length xs < sz \<Longrightarrow> windows sz stp xs = []"
  by (simp add: windows_def)

lemma windows_step:
  assumes "0 < stp" "stp \<le> sz" "sz \<le> length xs"
  shows "windows sz stp xs = take sz xs # windows sz stp (drop stp xs)"
proof -
  let ?n = "(length xs - sz) div stp"
  have "windows sz stp xs = take sz xs # map (\<lambda>k. take sz (drop (k * stp) (drop stp xs))) [0..<?n]"
    using assms by (simp add: windows_def map_upt_Suc add.commute del: upt_Suc)
  moreover have "windows sz stp (drop stp xs) = map (\<lambda>k. take sz (drop (k * stp) (drop stp xs))) [0..<?n]"
  proof (cases "length xs - stp < sz")
    case True
    then have "?n = 0" using assms by auto
    with True show ?thesis by (simp add: windows_def)
  next
    case False
    then have "?n = Suc ((length xs - stp - sz) div stp)"
      using assms le_div_geq [of stp "length xs - sz"] by (simp add: add.commute)
    with False show ?thesis by (simp add: windows_def del: upt_Suc)
  qed
  ultimately show ?thesis by simp
qed

lemma exec_sliding_items:
  assumes "0 < stp" "stp \<le> sz" and "length buf < sz"
  shows "\<exists>buf'. exec (select_loop [] (sliding_step sz stp)) buf (items xs) =
           (windows sz stp (buf @ xs), Continue buf')"
  using assms(3)
proof (induction xs arbitrary: buf)
  case Nil
  then show ?case by (simp add: settle_def windows_short)
next
  case (Cons x xs)
  show ?case
  proof (cases "Suc (length buf) = sz")
    case True
    let ?b = "buf @ [x]"
    from True assms have "length (drop stp ?b) < sz" by simp
    from Cons.IH [OF this] obtain b' where
      "exec (select_loop [] (sliding_step sz stp)) (drop stp ?b) (items xs) =
         (windows sz stp (drop stp ?b @ xs), Continue b')" by blast
    moreover have "take sz (?b @ xs) = ?b" "drop stp (?b @ xs) = drop stp ?b @ xs"
      using True assms by (simp_all only: take_append drop_append) simp_all
    with windows_step [OF assms(1,2), of "?b @ xs"] True
    have "windows sz stp (?b @ xs) = ?b # windows sz stp (drop stp ?b @ xs)" by simp
    moreover have "sliding_step sz stp buf (Item x) = Act [?b] (Continue (drop stp ?b))"
      using True by (simp add: sliding_step_def)
    ultimately show ?thesis by auto
  next
    case False
    then have "sliding_step sz stp buf (Item x) = Act [] (Continue (buf @ [x]))"
      by (simp add: sliding_step_def)
    with Cons.IH [of "buf @ [x]"] Cons.prems False show ?thesis by auto
  qed
qed

lemma exec_sliding_closing:
  assumes "0 < stp" "stp \<le> sz"
  shows "exec (select_loop [] (sliding_step sz stp)) [] (closing xs) = (windows sz stp xs, Return None)"
proof -
  obtain b where "exec (select_loop [] (sliding_step sz stp)) [] (items xs) = (windows sz stp xs, Continue b)"
    using exec_sliding_items [OF assms, of "[]" xs] assms by auto
  then show ?thesis by (simp add: closing_items exec_append resume_def sliding_step_def)
qed

section \<open>SessionWindow\<close>

text \<open>
  The timer is armed after an item and fires at most once: \<^verbatim>\<open>sw_active\<close> is \<^verbatim>\<open>timerActive\<close>, and
  the arm \<^verbatim>\<open>Tick\<close> is on a nil channel otherwise. Resetting an active timer drains it first,
  so a tick always follows the last reset by the gap.
\<close>

record 'a session =
  sw_buf :: "'a list"
  sw_active :: bool

fun session_step :: "'a session \<Rightarrow> 'a timed \<Rightarrow> ('a session, 'a list) act" where
  "session_step v (Arrival Closed) = Act (flush_list (sw_buf v)) (Return None)"
| "session_step v (Arrival (Item item)) =
     Act [] (Continue \<lparr>sw_buf = sw_buf v @ [item], sw_active = True\<rparr>)"
| "session_step v Tick = Act (flush_list (sw_buf v)) (Continue \<lparr>sw_buf = [], sw_active = False\<rparr>)"

definition session_loop :: "('a session, 'a timed, 'a list) loop" where
  "session_loop =
     (select_loop \<lparr>sw_buf = [], sw_active = False\<rparr> session_step)
       \<lparr>loop_listens := (\<lambda>v e. e = Tick \<longrightarrow> sw_active v)\<rparr>"

definition SessionWindow ::
  "('a, 'v) stage_config \<Rightarrow> stage_id \<Rightarrow> stage_id \<Rightarrow> duration \<Rightarrow> ('b session, 'b timed, 'b list) operator option" where
  "SessionWindow cfg i p gap =
     (if gap \<le> 0 then None else Some (unary ''session_window'' cfg i p session_loop))"

lemma session_loop_sel [simp]:
  "loop_init session_loop = \<lparr>sw_buf = [], sw_active = False\<rparr>"
  "loop_head session_loop = (\<lambda>_. None)"
  "loop_step session_loop = session_step"
  by (simp_all add: session_loop_def)

lemma session_conserves:
  "session_step v e = Act os n \<Longrightarrow>
   concat os @ (case n of Continue v' \<Rightarrow> sw_buf v' | Return _ \<Rightarrow> []) = sw_buf v @ arrival e \<and> [] \<notin> set os"
  by (cases "(v, e)" rule: session_step.cases) auto

interpretation session: chunker session_loop sw_buf arrival
  by unfold_locales (force dest: session_conserves)+

section \<open>ChunkBy and ChunkWhile\<close>

fun chunk_while_step :: "('a \<Rightarrow> 'a \<Rightarrow> bool) \<Rightarrow> 'a list \<Rightarrow> 'a recv \<Rightarrow> ('a list, 'a list) act" where
  "chunk_while_step pred buf Closed = Act (flush_list buf) (Return None)"
| "chunk_while_step pred buf (Item item) =
     (if buf \<noteq> [] \<and> \<not> pred (last buf) item then Act (flush_list buf) (Continue [item])
      else Act [] (Continue (buf @ [item])))"

definition ChunkWhile ::
  "('a, 'v) stage_config \<Rightarrow> stage_id \<Rightarrow> stage_id \<Rightarrow> ('b \<Rightarrow> 'b \<Rightarrow> bool) \<Rightarrow> ('b list, 'b recv, 'b list) operator" where
  "ChunkWhile cfg i p pred = unary ''chunk_while'' cfg i p (select_loop [] (chunk_while_step pred))"

text \<open>The variables of \<^verbatim>\<open>ChunkBy\<close>: the buffer and, once past the first item, the current key.\<close>

fun chunk_by_step :: "('a \<Rightarrow> 'k) \<Rightarrow> 'a list \<times> 'k option \<Rightarrow> 'a recv \<Rightarrow> ('a list \<times> 'k option, 'a list) act" where
  "chunk_by_step keyFn (buf, curKey) Closed = Act (flush_list buf) (Return None)"
| "chunk_by_step keyFn (buf, curKey) (Item item) =
     (let k = keyFn item in
      if curKey \<noteq> None \<and> curKey \<noteq> Some k then Act (flush_list buf) (Continue ([item], Some k))
      else Act [] (Continue (buf @ [item], Some k)))"

definition ChunkBy ::
  "('a, 'v) stage_config \<Rightarrow> stage_id \<Rightarrow> stage_id \<Rightarrow> ('b \<Rightarrow> 'k) \<Rightarrow> ('b list \<times> 'k option, 'b recv, 'b list) operator" where
  "ChunkBy cfg i p keyFn = unary ''chunk_by'' cfg i p (select_loop ([], None) (chunk_by_step keyFn))"

fun recv_items :: "'a recv \<Rightarrow> 'a list" where
  "recv_items (Item x) = [x]"
| "recv_items Closed = []"

lemma chunk_while_conserves:
  "chunk_while_step pred buf e = Act os n \<Longrightarrow>
   concat os @ (case n of Continue b \<Rightarrow> b | Return _ \<Rightarrow> []) = buf @ recv_items e \<and> [] \<notin> set os"
  by (cases "(pred, buf, e)" rule: chunk_while_step.cases) (auto split: if_splits)

interpretation chunk_while: chunker "select_loop [] (chunk_while_step pred)" "\<lambda>b. b" recv_items
  for pred :: "'a \<Rightarrow> 'a \<Rightarrow> bool"
  by unfold_locales (force dest: chunk_while_conserves)+

lemma chunk_by_conserves:
  "chunk_by_step keyFn v e = Act os n \<Longrightarrow>
   concat os @ (case n of Continue v' \<Rightarrow> fst v' | Return _ \<Rightarrow> []) = fst v @ recv_items e \<and> [] \<notin> set os"
  by (cases "(keyFn, v, e)" rule: chunk_by_step.cases) (auto simp: Let_def split: if_splits)

interpretation chunk_by: chunker "select_loop ([], None) (chunk_by_step keyFn)" fst recv_items
  for keyFn :: "'a \<Rightarrow> 'k"
  by unfold_locales (force dest: chunk_by_conserves)+

text \<open>Within a chunk the predicate holds of neighbours; between chunks it fails.\<close>

fun broken :: "('a \<Rightarrow> 'a \<Rightarrow> bool) \<Rightarrow> 'a list list \<Rightarrow> bool" where
  "broken pred (b # c # bs) = (\<not> pred (last b) (hd c) \<and> broken pred (c # bs))"
| "broken pred _ = True"

lemma exec_chunk_while:
  assumes "successively pred buf" and "buf \<noteq> []"
  shows "let bs = fst (exec (select_loop [] (chunk_while_step pred)) buf (closing xs)) in
         (\<forall>b \<in> set bs. successively pred b) \<and> broken pred bs \<and> bs \<noteq> [] \<and> hd (hd bs) = hd buf"
  using assms
proof (induction xs arbitrary: buf)
  case Nil
  then show ?case by (simp add: flush_list_def)
next
  case (Cons x xs)
  show ?case
  proof (cases "pred (last buf) x")
    case True
    with Cons.prems Cons.IH [of "buf @ [x]"] show ?thesis
      by (simp add: successively_append_iff case_prod_beta Let_def)
  next
    case False
    let ?r = "fst (exec (select_loop [] (chunk_while_step pred)) [x] (closing xs))"
    have "successively pred [x]" by simp
    with Cons.IH [of "[x]"] have r: "\<forall>b \<in> set ?r. successively pred b" "broken pred ?r" "?r \<noteq> []" "hd (hd ?r) = x"
      by (simp_all add: Let_def)
    obtain c bs where "?r = c # bs" using r(3) by (cases ?r) auto
    with False Cons.prems r show ?thesis
      by (simp add: flush_list_def case_prod_beta Let_def)
  qed
qed

text \<open>\<^verbatim>\<open>ChunkBy\<close> is \<^verbatim>\<open>ChunkWhile\<close> on equal keys.\<close>

lemma exec_chunk_by_while:
  assumes "k = (if buf = [] then None else Some (keyFn (last buf)))"
  shows "fst (exec (select_loop ([], None) (chunk_by_step keyFn)) (buf, k) (closing xs)) =
         fst (exec (select_loop [] (chunk_while_step (\<lambda>a b. keyFn a = keyFn b))) buf (closing xs))"
  using assms
proof (induction xs arbitrary: buf k)
  case (Cons x xs)
  show ?case
    using Cons.prems Cons.IH [of "Some (keyFn x)" "[x]"] Cons.IH [of "Some (keyFn x)" "buf @ [x]"]
    by (cases "buf = []"; cases "keyFn (last buf) = keyFn x") (simp_all add: Let_def case_prod_beta flush_list_def)
qed simp

section \<open>Properties of batching\<close>

text \<open>
  C11: A \<^verbatim>\<open>Batch\<close> stage with any of its options, under every schedule of arrivals, timer ticks and
  cancellations: no batch is empty; with \<^verbatim>\<open>BatchCount(n)\<close>, n positive, none is longer than n; with
  \<^verbatim>\<open>BatchMeasure(fn, max)\<close> no proper prefix of a batch measures up to max; and what was sent is always a
  prefix of what arrived. When a stage that was neither cancelled nor drained has returned, the batches put
  together are the items that arrived, in order, up to a rest below the triggers, which is only left
  behind with \<^verbatim>\<open>DropPartial\<close> set.
\<close>

theorem batch_any_schedule:
  assumes "Batch cfg i p = Some stage" and "run (op_loop stage) (start (op_loop stage)) ls = Some st"
  shows "(\<forall>b \<in> set (sent ls). b \<noteq> [] \<and>
            (0 < cfg_batch_count cfg \<longrightarrow> int (length b) \<le> cfg_batch_count cfg) \<and>
            (\<forall>f ys. cfg_batch_measure cfg = Some f \<and> strict_prefix ys b \<and> ys \<noteq> [] \<longrightarrow>
               sum_list (map f ys) < cfg_batch_measure_max cfg)) \<and>
         prefix (concat (sent ls)) (concat (map arrival (received ls))) \<and>
         (undisturbed ls \<longrightarrow> (\<forall>r c. st = Exited r c \<longrightarrow>
            (\<exists>rest. concat (sent ls) @ rest = concat (map arrival (received ls)) \<and>
               (rest \<noteq> [] \<longrightarrow> cfg_drop_partial cfg) \<and> below_triggers cfg rest)))"
proof -
  let ?m = "batch_loop cfg" and ?v = "\<lparr>bv_buf = [], bv_measure = 0\<rparr> :: 'a batch_vars"
  have m: "op_loop stage = ?m" using assms(1) by (auto simp: Batch_def unary_def split: if_splits)
  have ok: "batch_var_ok cfg ?v" by (simp add: batch_var_ok_def)
  obtain os n where exec: "exec ?m ?v (received ls) = (os, n)" by fastforce
  have pre: "prefix (sent ls) os" using run_sent_prefix [OF assms(2)] exec by (simp add: m outputs_def)
  have batch: "int (length b) \<le> cfg_batch_count cfg" if "0 < cfg_batch_count cfg" "b \<noteq> []" "below_triggers cfg (butlast b)" for b :: "'a list"
    using that by (cases b rule: rev_cases) (simp_all add: below_triggers_def)
  have measure: "sum_list (map f ys) < cfg_batch_measure_max cfg"
    if "below_triggers cfg (butlast b)" "cfg_batch_measure cfg = Some f" "strict_prefix ys b" "ys \<noteq> []" for b :: "'a list" and f ys
    using that by (auto simp: below_triggers_def prefix_of_butlast)
  have "\<forall>b \<in> set (sent ls). b \<noteq> [] \<and> below_triggers cfg (butlast b)"
    using batch_exec_sizes [OF ok exec] set_mono_prefix [OF pre] by blast
  moreover have "prefix (concat (sent ls)) (concat (map arrival (received ls)))"
    using batch_exec_sizes [OF ok exec] pre by (force simp: prefix_def)
  moreover have "\<exists>rest. concat (sent ls) @ rest = concat (map arrival (received ls)) \<and> batch_left cfg rest"
    if "undisturbed ls" "st = Exited r c" for r c
    using batch_unsent_run [of cfg "start ?m" ls st "[]"] assms(2) that ok by (simp add: m start_def enter_Continue)
  ultimately show ?thesis using batch measure unfolding batch_left_def by metis
qed

theorem batch_any_schedule_witness:
  "let cfg = buildStageConfig [BatchCount 2, BatchTimeout 9, DropPartial] :: (nat, nat) stage_config;
       ls = [Ev (Arrival (Item 1)), Ev Tick, Sent [1], Ev (Arrival (Item 5)), Ev (Arrival Closed)]
   in (\<exists>stage. Batch cfg 2 1 = Some stage \<and> run (op_loop stage) (start (op_loop stage)) ls = Some (Exited None False)) \<and>
      (\<exists>rest. concat (sent ls) @ rest = [1, 5::nat] \<and> below_triggers cfg rest)"
proof -
  let ?cfg = "buildStageConfig [BatchCount 2, BatchTimeout 9, DropPartial] :: (nat, nat) stage_config"
  let ?ls = "[Ev (Arrival (Item (1::nat))), Ev Tick, Sent [1], Ev (Arrival (Item 5)), Ev (Arrival Closed)]"
  obtain stage where stage: "Batch ?cfg 2 1 = Some stage" "op_loop stage = batch_loop ?cfg"
    by (auto simp: Batch_def buildStageConfig_def default_config_def unary_def)
  have run: "run (op_loop stage) (start (op_loop stage)) ?ls = Some (Exited None False)"
    unfolding stage(2)
    by (simp add: buildStageConfig_def default_config_def batch_loop_def start_def enter_Continue
        batch_flush_def batch_add_def shouldFlush_def Let_def)
  from batch_any_schedule [OF stage(1) run] stage(1) run show ?thesis by (simp add: Let_def) blast
qed

text \<open>
  \<^verbatim>\<open>SlidingWindow(size, step)\<close> emits exactly the windows of \<^verbatim>\<open>size\<close> consecutive items that start
  at the multiples of \<^verbatim>\<open>step\<close> and are complete, in order, and no partial one on close; for a step that
  is not between 1 and \<^verbatim>\<open>size\<close> there is no such stage.
\<close>

theorem sliding_windows_exact:
  assumes "SlidingWindow cfg i p sz stp = Some stage"
  shows "0 < stp \<and> stp \<le> sz \<and>
         outputs (op_loop stage) (closing xs) =
           (if length xs < nat sz then []
            else map (\<lambda>k. take (nat sz) (drop (k * nat stp) xs)) [0..<Suc ((length xs - nat sz) div nat stp)])"
proof -
  from assms have "0 < stp" "stp \<le> sz" and "op_loop stage = select_loop [] (sliding_step (nat sz) (nat stp))"
    by (auto simp: SlidingWindow_def unary_def split: if_splits)
  with exec_sliding_closing [of "nat stp" "nat sz" xs] show ?thesis
    by (simp add: outputs_def windows_def)
qed

theorem sliding_windows_exact_witness:
  "\<exists>stage. SlidingWindow (buildStageConfig [] :: (nat, nat) stage_config) 2 1 2 1 = Some stage \<and>
     outputs (op_loop stage) (closing [7, 8, 9::nat]) = [[7, 8], [8, 9]]"
  (is "\<exists>stage. ?w = Some stage \<and> _")
proof -
  obtain stage where w: "?w = Some (stage :: (nat list, nat recv, nat list) operator)"
    by (simp add: SlidingWindow_def)
  from sliding_windows_exact [OF w, of "[7, 8, 9]"] w show ?thesis
    by (simp del: closing_simps add: upt_rec)
qed

text \<open>
  \<^verbatim>\<open>ChunkBy(key)\<close> is \<^verbatim>\<open>ChunkWhile\<close> with equality of keys; it cuts a non-empty stream into its
  maximal runs of equal keys: the chunks put together are the stream, all keys of a chunk agree, and
  the last key of a chunk differs from the first key of the next one.
\<close>

theorem chunk_by_maximal_runs:
  assumes "xs \<noteq> []"
  shows "outputs (op_loop (ChunkBy cfg i p keyFn)) (closing xs) =
           outputs (op_loop (ChunkWhile cfg i p (\<lambda>a b. keyFn a = keyFn b))) (closing xs) \<and>
         (\<forall>b \<in> set (outputs (op_loop (ChunkBy cfg i p keyFn)) (closing xs)).
            successively (\<lambda>a b. keyFn a = keyFn b) b \<and> b \<noteq> []) \<and>
         broken (\<lambda>a b. keyFn a = keyFn b) (outputs (op_loop (ChunkBy cfg i p keyFn)) (closing xs)) \<and>
         concat (outputs (op_loop (ChunkBy cfg i p keyFn)) (closing xs)) = xs"
proof -
  let ?eq = "\<lambda>a b. keyFn a = keyFn b" and ?m = "select_loop ([], None) (chunk_by_step keyFn)"
  let ?w = "select_loop [] (chunk_while_step ?eq)"
  have same: "fst (exec ?m ([], None) (closing xs)) = fst (exec ?w [] (closing xs))"
    by (rule exec_chunk_by_while) simp
  obtain x ys where xs: "xs = x # ys" using assms by (cases xs) auto
  have "fst (exec ?w [] (closing xs)) = fst (exec ?w [x] (closing ys))" by (simp add: xs split: prod.splits)
  with exec_chunk_while [of ?eq "[x]" ys]
  have runs: "\<forall>b \<in> set (fst (exec ?w [] (closing xs))). successively ?eq b"
    "broken ?eq (fst (exec ?w [] (closing xs)))" by (simp_all add: Let_def)
  have "concat (fst (exec ?w b (closing zs))) = b @ zs" for b zs
  proof (induction zs arbitrary: b)
    case (Cons z zs)
    from Cons [of "[z]"] Cons [of "b @ [z]"] show ?case
      by (auto simp: flush_list_def split: prod.splits)
  qed (simp add: flush_list_def)
  with same runs chunk_while.exec_nonempty [of ?eq "[]" "closing xs"] show ?thesis
    by (auto simp: ChunkBy_def ChunkWhile_def outputs_def)
qed

theorem chunk_by_maximal_runs_witness:
  "concat (outputs (op_loop (ChunkBy (buildStageConfig [] :: (nat, nat) stage_config) 2 1 even)) (closing [2, 4, 5::nat])) = [2, 4, 5]"
proof -
  have "[2, 4, 5::nat] \<noteq> []" by simp
  from chunk_by_maximal_runs [OF this] show ?thesis by blast
qed

end
