(* ===== verification/Map_Ops.thy ===== *)
theory Map_Ops
  imports Batch_Ops Stores
begin

text \<open>
  The serial per-item stages: \<^verbatim>\<open>Map\<close> (\<^verbatim>\<open>operator_map.go\<close>), \<^verbatim>\<open>Filter\<close>, \<^verbatim>\<open>Reject\<close> and \<^verbatim>\<open>Tap\<close>
  (\<^verbatim>\<open>operator_filter.go\<close>, \<^verbatim>\<open>operator_transform.go\<close>) and \<^verbatim>\<open>ForEach\<close> (\<^verbatim>\<open>terminal.go\<close>), in their
  three forms: the general loop, the micro-batching fast path and the fused loop of a chain of
  \<^verbatim>\<open>Map\<close> and \<^verbatim>\<open>Filter\<close> stages. The central lemma is that receiving in batches of up to
  \<^verbatim>\<open>ReceiveBatchSize\<close> computes what the item-by-item loop computes. The \<^verbatim>\<open>CacheBy\<close> wrapper of
  \<^verbatim>\<open>Map\<close> is a client of the \<^verbatim>\<open>cache\<close> contract.
\<close>

section \<open>Item loops\<close>

text \<open>
  What one item makes a stage do: the sends, then an error to return with or none.
\<close>

type_synonym ('a, 'o) item_fn = "'a \<Rightarrow> 'o list \<times> go_error option"

definition item_step :: "('a, 'o) item_fn \<Rightarrow> unit \<Rightarrow> 'a recv \<Rightarrow> (unit, 'o) act" where
  "item_step h u e =
     (case e of
        Closed \<Rightarrow> Act [] (Return None)
      | Item x \<Rightarrow> (case h x of
                     (os, Some er) \<Rightarrow> Act os (Return (Some er))
                   | (os, None) \<Rightarrow> Act os (Continue ())))"

definition item_loop :: "('a, 'o) item_fn \<Rightarrow> (unit, 'a recv, 'o) loop" where
  "item_loop h = select_loop () (item_step h)"

text \<open>The items in order until the first error.\<close>

fun run_items :: "('a, 'o) item_fn \<Rightarrow> 'a list \<Rightarrow> 'o list \<times> go_error option" where
  "run_items h [] = ([], None)"
| "run_items h (x # xs) =
     (case h x of
        (os, Some er) \<Rightarrow> (os, Some er)
      | (os, None) \<Rightarrow> (case run_items h xs of (os', r) \<Rightarrow> (os @ os', r)))"

lemma item_loop_sel [simp]:
  "loop_init (item_loop h) = ()"
  "loop_head (item_loop h) = (\<lambda>_. None)"
  "loop_step (item_loop h) = item_step h"
  "loop_listens (item_loop h) = (\<lambda>_ _. True)"
  by (simp_all add: item_loop_def)

lemma exec_item_loop:
  "exec (item_loop h) u (items xs) =
     (fst (run_items h xs), case snd (run_items h xs) of Some er \<Rightarrow> Return (Some er) | None \<Rightarrow> Continue ())"
  by (induction xs arbitrary: u)
    (auto simp: item_step_def settle_def split: prod.splits option.splits)

lemma exec_item_loop_closing:
  "exec (item_loop h) u (closing xs) = (fst (run_items h xs), Return (snd (run_items h xs)))"
  by (auto simp: closing_items exec_append exec_item_loop resume_def item_step_def split: option.splits)

interpretation item: stream_stage "item_loop h" "\<lambda>xs. fst (run_items h xs)" "\<lambda>xs. fst (run_items h xs)"
    "\<lambda>xs. snd (run_items h xs)"
  for h :: "('a, 'o) item_fn"
  by unfold_locales (simp_all add: outputs_def returns_def exec_item_loop exec_item_loop_closing)

lemma run_items_append:
  "run_items h (xs @ ys) =
     (case run_items h xs of
        (os, Some er) \<Rightarrow> (os, Some er)
      | (os, None) \<Rightarrow> (case run_items h ys of (os', r) \<Rightarrow> (os @ os', r)))"
  by (induction xs) (auto split: prod.splits option.splits)

lemma run_items_cong: "(\<And>x. x \<in> set xs \<Longrightarrow> h x = h' x) \<Longrightarrow> run_items h xs = run_items h' xs"
  by (induction xs) (auto split: prod.splits option.splits)

lemma run_items_total:
  "(\<And>x. x \<in> set xs \<Longrightarrow> h x = (f x, None)) \<Longrightarrow> run_items h xs = (concat (map f xs), None)"
  by (induction xs) auto

text \<open>One stage after another, as a single item function: what fusion runs.\<close>

definition through :: "('b, 'o) item_fn \<Rightarrow> 'b list \<times> go_error option \<Rightarrow> 'o list \<times> go_error option" where
  "through k p =
     (case run_items k (fst p) of
        (os, Some er) \<Rightarrow> (os, Some er)
      | (os, None) \<Rightarrow> (os, snd p))"

lemma run_items_through:
  "run_items (\<lambda>x. through k (h x)) xs = through k (run_items h xs)"
proof (induction xs)
  case Nil
  then show ?case by (simp add: through_def)
next
  case (Cons x xs)
  then show ?case
    by (auto simp: through_def run_items_append split: prod.splits option.splits)
qed

section \<open>Micro-batches\<close>

definition ReceiveBatchSize :: nat where
  "ReceiveBatchSize = 16"

text \<open>
  One turn of a batching loop: the items received (the first blocking, the rest while more are
  ready), whether the channel was found closed, and the context error seen after the batch.
  The non-blocking look at the drain channel after the batch is the drain arm of the next
  turn's select.
\<close>

datatype 'a block = Block (block_items: "'a list") (block_closed: bool) (block_ctx: "go_error option")

definition block_step :: "('a, 'o) item_fn \<Rightarrow> unit \<Rightarrow> 'a block \<Rightarrow> (unit, 'o) act" where
  "block_step h u b =
     (case run_items h (block_items b) of
        (os, Some er) \<Rightarrow> Act os (Return (Some er))
      | (os, None) \<Rightarrow>
          if block_closed b then Act os (Return None)
          else (case block_ctx b of Some er \<Rightarrow> Act os (Return (Some er)) | None \<Rightarrow> Act os (Continue ())))"

definition block_ok :: "'a block \<Rightarrow> bool" where
  "block_ok b \<longleftrightarrow>
     (if block_closed b then length (block_items b) < ReceiveBatchSize
      else 0 < length (block_items b) \<and> length (block_items b) \<le> ReceiveBatchSize)"

definition block_loop :: "bool \<Rightarrow> bool \<Rightarrow> send_mode \<Rightarrow> ('a, 'o) item_fn \<Rightarrow> (unit, 'a block, 'o) loop" where
  "block_loop sel_ctx sel_drain mode h =
     \<lparr>loop_init = (), loop_head = (\<lambda>_. None), loop_listens = (\<lambda>_. block_ok), loop_step = block_step h,
      loop_sel_ctx = sel_ctx, loop_sel_drain = sel_drain, loop_send = mode\<rparr>"

text \<open>The receives a list of turns amounts to.\<close>

fun unblock :: "'a block list \<Rightarrow> 'a recv list" where
  "unblock [] = []"
| "unblock (b # bs) = items (block_items b) @ (if block_closed b then [Closed] else unblock bs)"

text \<open>Batching is invisible: as long as no cancellation is seen between batches.\<close>

lemma exec_block_loop:
  assumes "\<forall>b \<in> set bs. block_ctx b = None"
  shows "exec (block_loop c d mode h) u bs = exec (item_loop h) u (unblock bs)"
  using assms
proof (induction bs arbitrary: u)
  case Nil
  then show ?case by (simp add: settle_def block_loop_def)
next
  case (Cons b bs)
  have "exec (block_loop c d mode h) u (b # bs) =
      (case run_items h (block_items b) of
         (os, Some er) \<Rightarrow> (os, Return (Some er))
       | (os, None) \<Rightarrow> if block_closed b then (os, Return None)
           else (case exec (block_loop c d mode h) () bs of (os', n) \<Rightarrow> (os @ os', n)))"
    using Cons.prems by (auto simp: block_loop_def block_step_def split: prod.splits option.splits)
  also have "\<dots> = exec (item_loop h) u (unblock (b # bs))"
    using Cons by (auto simp: exec_append exec_item_loop resume_def item_step_def split: prod.splits option.splits)
  finally show ?case .
qed

section \<open>Map\<close>

text \<open>
  \<^verbatim>\<open>process x\<close> is the answer of \<^verbatim>\<open>ProcessItem\<close> on the item, with its attempt number; the
  predicate says so for given answers of the user function.
\<close>

definition processes ::
  "nat \<Rightarrow> ('i \<Rightarrow> nat \<Rightarrow> 'o result) \<Rightarrow> 'o handler option \<Rightarrow> ('i \<Rightarrow> nat \<Rightarrow> go_error option) \<Rightarrow>
   ('i \<Rightarrow> 'o result \<times> nat) \<Rightarrow> bool" where
  "processes fuel fn h cancelled process \<longleftrightarrow>
     (\<forall>x. ProcessItem fuel (fn x) h (cancelled x) = Some (process x))"

definition map_item :: "string \<Rightarrow> ('i \<Rightarrow> 'o result \<times> nat) \<Rightarrow> ('i, 'o) item_fn" where
  "map_item name process x =
     (case process x of
        (Inr v, attempt) \<Rightarrow> ([v], None)
      | (Inl err, attempt) \<Rightarrow>
          if err = ErrSkipped then ([], None) else ([], WrapStageErr name (Some err) attempt))"

definition mapSerial :: "string \<Rightarrow> ('i \<Rightarrow> 'o result \<times> nat) \<Rightarrow> (unit, 'i recv, 'o) loop" where
  "mapSerial name process = item_loop (map_item name process)"

definition map_item_fast :: "string \<Rightarrow> ('i \<Rightarrow> 'o result) \<Rightarrow> ('i, 'o) item_fn" where
  "map_item_fast name fn x =
     (case fn x of Inr v \<Rightarrow> ([v], None) | Inl err \<Rightarrow> ([], WrapStageErr name (Some err) 0))"

text \<open>
  \<^verbatim>\<open>ctx\<close> is the context of the stage, which an item may extend with the values it carries. The name is the
  one of the options, empty when there is none.
\<close>

definition mapSerialFastPath ::
  "'k go_ctx \<Rightarrow> ('i \<Rightarrow> 'k go_ctx option) \<Rightarrow> string \<Rightarrow> ('k go_ctx \<Rightarrow> 'i \<Rightarrow> 'o result) \<Rightarrow> (unit, 'i block, 'o) loop" where
  "mapSerialFastPath ctx carried name fn =
     block_loop False True SendDrain (map_item_fast name (\<lambda>it. fn (ItemCtx ctx carried it) it))"

text \<open>The stage a run picks, as \<^verbatim>\<open>Map\<close>'s switch does.\<close>

datatype map_path = MapOrdered | MapConcurrent | MapFast | MapSerial

definition map_variant ::
  "('a, 'v) stage_config \<Rightarrow> 'v handler option \<Rightarrow> bool \<Rightarrow> map_path" where
  "map_variant cfg run_handler noop_hook =
     (let cfg = cfg\<lparr>cfg_handler := Some (resolveHandler (cfg_handler cfg) run_handler)\<rparr> in
      if cfg_concurrency cfg > 1 \<and> cfg_ordered cfg then MapOrdered
      else if cfg_concurrency cfg > 1 then MapConcurrent
      else if isFastPathEligible cfg noop_hook \<and> \<not> cfg_cache cfg then MapFast
      else MapSerial)"

lemma IsDefaultHandler_iff: "IsDefaultHandler h \<longleftrightarrow> h = None \<or> h = Some DefaultHandler"
  by (cases h rule: IsDefaultHandler.cases) auto

text \<open>The fast path is only ever picked when the resolved handler is the default one.\<close>

lemma map_variant_fast:
  "map_variant cfg run_handler hook = MapFast \<Longrightarrow>
   resolveHandler (cfg_handler cfg) run_handler = DefaultHandler \<and> cfg_concurrency cfg \<le> 1 \<and>
   cfg_overflow cfg = OverflowBlock \<and> \<not> HasSupervision (cfg_supervision cfg) \<and> \<not> cfg_cache cfg \<and> \<not> cfg_mapper cfg"
  by (auto simp: map_variant_def Let_def isFastPathEligible_def isFastPathEligibleCfg_def
      IsDefaultHandler_iff split: if_splits)

lemma default_processes:
  assumes "processes fuel fn (Some DefaultHandler) cancelled process"
  shows "process x = (fn x 0, 0)"
proof (cases fuel)
  case (Suc n)
  with assms show ?thesis
    by (cases "fn x 0") (auto simp: processes_def ProcessItem_def dest!: spec [of _ x])
qed (use assms in \<open>simp add: processes_def ProcessItem_def\<close>)

lemma map_item_default:
  assumes "processes fuel fn (Some DefaultHandler) cancelled process"
    and "fn x 0 \<noteq> Inl ErrSkipped"
  shows "map_item name process x = map_item_fast name (\<lambda>x. fn x 0) x"
  using assms(2) by (auto simp: map_item_def map_item_fast_def default_processes [OF assms(1)] split: sum.splits)

section \<open>Filter, Reject, Tap, ForEach\<close>

definition filter_item :: "string \<Rightarrow> ('a \<Rightarrow> bool result) \<Rightarrow> ('a, 'a) item_fn" where
  "filter_item name pred x =
     (case pred x of
        Inl err \<Rightarrow> ([], WrapStageErr name (Some err) 0)
      | Inr keep \<Rightarrow> if \<not> keep then ([], None) else ([x], None))"

definition filter_serial :: "string \<Rightarrow> ('a \<Rightarrow> bool result) \<Rightarrow> (unit, 'a recv, 'a) loop" where
  "filter_serial name pred = item_loop (filter_item name pred)"

text \<open>The fast path hands back the predicate's error as it is, and sends without a select.\<close>

definition filter_item_fast :: "('a \<Rightarrow> bool result) \<Rightarrow> ('a, 'a) item_fn" where
  "filter_item_fast pred x =
     (case pred x of Inl err \<Rightarrow> ([], Some err) | Inr keep \<Rightarrow> if keep then ([x], None) else ([], None))"

definition filterFastPath :: "('a \<Rightarrow> bool result) \<Rightarrow> (unit, 'a block, 'a) loop" where
  "filterFastPath pred = block_loop True True SendBare (filter_item_fast pred)"

definition reject_pred :: "('a \<Rightarrow> bool result) \<Rightarrow> 'a \<Rightarrow> bool result" where
  "reject_pred pred v = (case pred v of Inl err \<Rightarrow> Inl err | Inr keep \<Rightarrow> Inr (\<not> keep))"

definition Reject :: "string \<Rightarrow> ('a \<Rightarrow> bool result) \<Rightarrow> (unit, 'a recv, 'a) loop" where
  "Reject name pred = filter_serial name (reject_pred pred)"

definition tap_item :: "string \<Rightarrow> ('a \<Rightarrow> go_error option) \<Rightarrow> ('a, 'a) item_fn" where
  "tap_item name fn x =
     (case fn x of Some err \<Rightarrow> ([], WrapStageErr name (Some err) 0) | None \<Rightarrow> ([x], None))"

definition Tap :: "string \<Rightarrow> ('a \<Rightarrow> go_error option) \<Rightarrow> (unit, 'a recv, 'a) loop" where
  "Tap name fn = item_loop (tap_item name fn)"

text \<open>
  \<^verbatim>\<open>ForEach\<close>: a delivery to the user's function is modelled as a send of the item to it. The
  sink has no drain arm, and no send can block.
\<close>

definition foreach_item :: "string \<Rightarrow> ('a \<Rightarrow> unit result \<times> nat) \<Rightarrow> ('a, 'a) item_fn" where
  "foreach_item name process x =
     (case process x of
        (Inr u, attempt) \<Rightarrow> ([x], None)
      | (Inl err, attempt) \<Rightarrow>
          if err = ErrSkipped then ([x], None) else ([x], WrapStageErr name (Some err) attempt))"

definition forEachSerial :: "string \<Rightarrow> ('a \<Rightarrow> unit result \<times> nat) \<Rightarrow> (unit, 'a recv, 'a) loop" where
  "forEachSerial name process = (item_loop (foreach_item name process))\<lparr>loop_sel_drain := False, loop_send := SendBare\<rparr>"

definition foreach_item_fast :: "('a \<Rightarrow> go_error option) \<Rightarrow> ('a, 'a) item_fn" where
  "foreach_item_fast fn x = ([x], fn x)"

definition forEachFastPath ::
  "'k go_ctx \<Rightarrow> ('a \<Rightarrow> 'k go_ctx option) \<Rightarrow> ('k go_ctx \<Rightarrow> 'a \<Rightarrow> go_error option) \<Rightarrow> (unit, 'a block, 'a) loop" where
  "forEachFastPath ctx carried fn =
     block_loop False False SendBare (foreach_item_fast (\<lambda>it. fn (ItemCtx ctx carried it) it))"

lemma run_filter:
  assumes "\<And>x. x \<in> set xs \<Longrightarrow> \<exists>b. pred x = Inr b"
  shows "run_items (filter_item name pred) xs = (filter (\<lambda>x. pred x = Inr True) xs, None)"
  using assms
proof (induction xs)
  case (Cons x xs)
  from Cons.prems [of x] obtain b where "pred x = Inr b" by auto
  with Cons show ?case by (cases b) (simp_all add: filter_item_def)
qed simp

lemma run_filter_fast:
  assumes "\<And>x. x \<in> set xs \<Longrightarrow> \<exists>b. pred x = Inr b"
  shows "run_items (filter_item_fast pred) xs = (filter (\<lambda>x. pred x = Inr True) xs, None)"
  using assms
proof (induction xs)
  case (Cons x xs)
  from Cons.prems [of x] obtain b where "pred x = Inr b" by auto
  with Cons show ?case by (cases b) (simp_all add: filter_item_fast_def)
qed simp

text \<open>The two filter loops send the same; their errors differ by the wrapping only.\<close>

lemma run_filter_paths:
  "fst (run_items (filter_item name pred) xs) = fst (run_items (filter_item_fast pred) xs) \<and>
   snd (run_items (filter_item name pred) xs) = WrapStageErr name (snd (run_items (filter_item_fast pred) xs)) 0"
proof (induction xs)
  case (Cons x xs)
  then show ?case
    by (cases "pred x") (auto simp: filter_item_def filter_item_fast_def WrapStageErr_Some case_prod_beta)
qed simp

lemma run_map:
  "run_items (map_item_fast name fn) xs =
     (map (\<lambda>x. projr (fn x)) (takeWhile (\<lambda>x. isl (fn x) = False) xs),
      case find (\<lambda>x. isl (fn x)) xs of None \<Rightarrow> None | Some x \<Rightarrow> WrapStageErr name (Some (projl (fn x))) 0)"
proof (induction xs)
  case (Cons x xs)
  then show ?case by (cases "fn x") (auto simp: map_item_fast_def WrapStageErr_Some)
qed simp

section \<open>Fusion\<close>

text \<open>
  A sink of a fused chain is a function of a context and an item; its answer is the deliveries it caused and
  an error. The entries compose: \<^verbatim>\<open>Map\<close> and \<^verbatim>\<open>Filter\<close> wrap the sink they are given and pass it to their
  upstream's entry. Every function of the chain is called with the context of the one stage that runs it. The
  name a fused \<^verbatim>\<open>Map\<close> reports has its default filled in.
\<close>

definition fuse_map ::
  "string \<Rightarrow> ('k go_ctx \<Rightarrow> 'i \<Rightarrow> 'o result) \<Rightarrow> ('k go_ctx \<Rightarrow> ('o, 'd) item_fn) \<Rightarrow> 'k go_ctx \<Rightarrow> ('i, 'd) item_fn" where
  "fuse_map name fn0 sink ctx item =
     (let name0 = orDefault name ''map'' in
      case fn0 ctx item of
        Inl err \<Rightarrow> ([], WrapStageErr name0 (Some err) 0)
      | Inr out \<Rightarrow> sink ctx out)"

definition fuse_filter ::
  "('k go_ctx \<Rightarrow> 'a \<Rightarrow> bool result) \<Rightarrow> ('k go_ctx \<Rightarrow> ('a, 'd) item_fn) \<Rightarrow> 'k go_ctx \<Rightarrow> ('a, 'd) item_fn" where
  "fuse_filter pred0 sink ctx item =
     (case pred0 ctx item of
        Inl err \<Rightarrow> ([], Some err)
      | Inr keep \<Rightarrow> if \<not> keep then ([], None) else sink ctx item)"

text \<open>The sink that a \<^verbatim>\<open>ForEach\<close> gives its upstream's entry: the user's function itself.\<close>

definition fuse_foreach :: "('k go_ctx \<Rightarrow> 'a \<Rightarrow> go_error option) \<Rightarrow> 'k go_ctx \<Rightarrow> ('a, 'a) item_fn" where
  "fuse_foreach fn ctx = foreach_item_fast (fn ctx)"

definition fused_loop :: "'k go_ctx \<Rightarrow> ('k go_ctx \<Rightarrow> ('a, 'd) item_fn) \<Rightarrow> (unit, 'a block, 'd) loop" where
  "fused_loop ctx sink = block_loop True True SendBare (sink ctx)"

lemma run_items_single: "run_items k [x] = k x"
  by (auto split: prod.splits option.splits)

lemma fuse_map_through:
  "fuse_map name fn sink ctx x = through (sink ctx) (map_item_fast (orDefault name ''map'') (fn ctx) x)"
  by (auto simp: fuse_map_def through_def map_item_fast_def run_items_single simp del: run_items.simps(2)
      split: sum.splits prod.splits option.splits)

lemma fuse_filter_through: "fuse_filter pred sink ctx x = through (sink ctx) (filter_item_fast (pred ctx) x)"
  by (auto simp: fuse_filter_def through_def filter_item_fast_def run_items_single simp del: run_items.simps(2)
      split: sum.splits prod.splits option.splits)

lemma run_fuse_map:
  "run_items (fuse_map name fn sink ctx) xs =
     through (sink ctx) (run_items (map_item_fast (orDefault name ''map'') (fn ctx)) xs)"
  by (simp add: run_items_through [symmetric] fuse_map_through [abs_def])

lemma run_fuse_filter:
  "run_items (fuse_filter pred sink ctx) xs = through (sink ctx) (run_items (filter_item_fast (pred ctx)) xs)"
  by (simp add: run_items_through [symmetric] fuse_filter_through [abs_def])

text \<open>The name of a \<^verbatim>\<open>Map\<close> shows in its error only.\<close>

lemma run_map_name: "fst (run_items (map_item_fast name fn) xs) = fst (run_items (map_item_fast name' fn) xs)"
  by (simp add: run_map)

section \<open>CacheBy\<close>

text \<open>
  The function \<^verbatim>\<open>Map\<close> wraps around the user's when \<^verbatim>\<open>CacheBy\<close> is given; the backend, its
  clock and the codec are parameters. A failing \<^verbatim>\<open>Get\<close>, \<^verbatim>\<open>Marshal\<close> or \<^verbatim>\<open>Unmarshal\<close> only
  costs a call.
\<close>

definition cached_fn ::
  "(time \<Rightarrow> 's \<Rightarrow> string \<Rightarrow> 'b option) \<Rightarrow> (time \<Rightarrow> 's \<Rightarrow> string \<Rightarrow> 'b \<Rightarrow> 's) \<Rightarrow>
   ('v \<Rightarrow> 'b option) \<Rightarrow> ('b \<Rightarrow> 'v option) \<Rightarrow> ('i \<Rightarrow> string) \<Rightarrow> ('i \<Rightarrow> 'v result) \<Rightarrow>
   time \<Rightarrow> 's \<Rightarrow> 'i \<Rightarrow> 'v result \<times> 's" where
  "cached_fn lookup put marshal unmarshal keyFn origFn now s item =
     (let key = keyFn item in
      case Option.bind (lookup now s key) unmarshal of
        Some out \<Rightarrow> (Inr out, s)
      | None \<Rightarrow>
          (case origFn item of
             Inl err \<Rightarrow> (Inl err, s)
           | Inr out \<Rightarrow>
               (case marshal out of
                  Some data \<Rightarrow> (Inr out, put now s key data)
                | None \<Rightarrow> (Inr out, s))))"

fun cached_run ::
  "(time \<Rightarrow> 's \<Rightarrow> 'i \<Rightarrow> 'v result \<times> 's) \<Rightarrow> 's \<Rightarrow> (time \<times> 'i) list \<Rightarrow> 'v result list" where
  "cached_run g s [] = []"
| "cached_run g s ((now, x) # xs) = (case g now s x of (r, s') \<Rightarrow> r # cached_run g s' xs)"

context cache
begin

lemma cached_fn_transparent:
  assumes codec: "\<And>v b. marshal v = Some b \<Longrightarrow> unmarshal b = Some v"
    and keys: "\<And>x y. keyFn x = keyFn y \<Longrightarrow> origFn x = origFn y"
    and held: "holds_only (\<lambda>k b. \<forall>x. keyFn x = k \<longrightarrow> (\<exists>v. unmarshal b = Some v \<and> origFn x = Inr v)) s"
  shows "fst (cached_fn lookup put marshal unmarshal keyFn origFn now s x) = origFn x \<and>
         holds_only (\<lambda>k b. \<forall>x. keyFn x = k \<longrightarrow> (\<exists>v. unmarshal b = Some v \<and> origFn x = Inr v))
           (snd (cached_fn lookup put marshal unmarshal keyFn origFn now s x))"
proof (cases "Option.bind (lookup now s (keyFn x)) unmarshal")
  case None
  show ?thesis
  proof (cases "origFn x")
    case (Inr v)
    have "origFn y = Inr v" if "keyFn y = keyFn x" for y
      using keys [OF that] Inr by simp
    then have "holds_only (\<lambda>k b. \<forall>x. keyFn x = k \<longrightarrow> (\<exists>v. unmarshal b = Some v \<and> origFn x = Inr v))
        (put now s (keyFn x) b)" if "marshal v = Some b" for b
      using codec [OF that] by (intro holds_only_put [OF held]) simp
    with None Inr held show ?thesis by (auto simp: cached_fn_def Let_def split: option.splits)
  qed (use None held in \<open>simp add: cached_fn_def Let_def\<close>)
next
  case (Some v)
  then obtain b where b: "lookup now s (keyFn x) = Some b" "unmarshal b = Some v"
    by (auto simp: bind_eq_Some_conv)
  with holds_only_hit [OF held b(1)] have "origFn x = Inr v" by auto
  with Some held show ?thesis by (simp add: cached_fn_def Let_def)
qed

lemma cached_run_transparent:
  assumes codec: "\<And>v b. marshal v = Some b \<Longrightarrow> unmarshal b = Some v"
    and keys: "\<And>x y. keyFn x = keyFn y \<Longrightarrow> origFn x = origFn y"
    and held: "holds_only (\<lambda>k b. \<forall>x. keyFn x = k \<longrightarrow> (\<exists>v. unmarshal b = Some v \<and> origFn x = Inr v)) s"
  shows "cached_run (cached_fn lookup put marshal unmarshal keyFn origFn) s xs = map (\<lambda>(_, x). origFn x) xs"
  using held
proof (induction xs arbitrary: s)
  case (Cons p xs)
  obtain now x where p: "p = (now, x)" by (cases p) auto
  with cached_fn_transparent [where marshal = marshal and now = now and x = x, OF codec keys Cons.prems] Cons.IH show ?case
    by (auto split: prod.splits)
qed simp

end

section \<open>Properties of Map and Filter\<close>

text \<open>
  C34: \<^verbatim>\<open>Map\<close> with \<^verbatim>\<open>CacheBy\<close> over a fresh memory cache answers every item as the uncached function
  does, at any times and with evictions and expiries, provided that decoding inverts encoding and
  that items with equal keys have equal results.
\<close>

theorem cached_map_transparent:
  assumes "\<And>v b. marshal v = Some b \<Longrightarrow> unmarshal b = Some v"
    and "\<And>x y. keyFn x = keyFn y \<Longrightarrow> origFn x = origFn y"
  shows "cached_run (cached_fn (\<lambda>now c. cache_Get c now) (\<lambda>now c k v. cache_Set c now k v ttl)
            marshal unmarshal keyFn origFn) (MemoryCache n) xs = map (\<lambda>(_, x). origFn x) xs"
  by (rule memory_cache.cached_run_transparent [OF assms])
    (simp_all add: memory_cache.holds_only_def cache_data_def MemoryCache_def)

theorem cached_map_transparent_witness:
  "cached_run (cached_fn (\<lambda>now c. cache_Get c now) (\<lambda>now c k v. cache_Set c now k v 5)
      Some Some (\<lambda>x. if x < (10::int) then ''small'' else ''big'') (\<lambda>x. Inr (x < 10))) (MemoryCache 1)
      [(0, 3), (1, 4), (2, 30), (9, 5)] = [Inr True, Inr True, Inr False, Inr True]"
  (is "cached_run ?g ?c ?xs = _")
proof -
  have "cached_run ?g ?c ?xs = map (\<lambda>(_, x). Inr (x < 10)) ?xs"
    by (rule cached_map_transparent) (auto split: if_splits)
  then show ?thesis by (simp del: cached_run.simps)
qed

text \<open>
  C6: The micro-batched fast path of \<^verbatim>\<open>Map\<close> is an optimisation only: in the configurations for which
  it is chosen it sends the same items and returns the same error as the serial path on the stream
  of the blocks' items, whatever the block boundaries and whatever contexts the items carry, provided the
  function does not return \<^verbatim>\<open>ErrSkipped\<close> (which the serial path drops and the fast path reports).
\<close>

theorem map_fast_path_equivalent:
  assumes "map_variant cfg run_handler noop_hook = MapFast" and "cfg_mapper cfg \<longleftrightarrow> mapper \<noteq> None"
    and "processes fuel (\<lambda>x. fn (fn_context ctx carried mapper x) x)
           (Some (resolveHandler (cfg_handler cfg) run_handler)) cancelled process"
    and "\<And>c x. fn c x 0 \<noteq> Inl ErrSkipped" and "\<forall>b \<in> set bs. block_ctx b = None"
  shows "outputs (mapSerialFastPath ctx carried name (\<lambda>c x. fn c x 0)) bs = outputs (mapSerial name process) (unblock bs) \<and>
         returns (mapSerialFastPath ctx carried name (\<lambda>c x. fn c x 0)) bs = returns (mapSerial name process) (unblock bs)"
proof -
  have "mapper = None" using assms(2) map_variant_fast [OF assms(1)] by simp
  then have "processes fuel (\<lambda>x. fn (ItemCtx ctx carried x) x) (Some DefaultHandler) cancelled process"
    using assms(3) map_variant_fast [OF assms(1)] by (simp add: fn_context_def)
  then have "map_item name process = map_item_fast name (\<lambda>x. fn (ItemCtx ctx carried x) x 0)"
    using map_item_default assms(4) by fastforce
  then show ?thesis
    by (simp add: outputs_def returns_def mapSerialFastPath_def mapSerial_def exec_block_loop [OF assms(5)])
qed

theorem map_fast_path_equivalent_witness:
  "outputs (mapSerialFastPath \<lparr>ctx_err = None, ctx_value = (\<lambda>k :: nat. None)\<rparr> (\<lambda>_. None) ''map'' (\<lambda>c x. Inr (x * x)))
     [Block [3, 4] False None, Block [5::int] True None] = [9, 16, 25]"
  (is "outputs (mapSerialFastPath ?ctx _ _ _) ?bs = _")
proof -
  let ?fn = "\<lambda>(c :: nat go_ctx) x (_ :: nat). Inr (x * x :: int)" and ?process = "\<lambda>x. (Inr (x * x :: int), 0)"
  have "map_variant (default_config :: (int, int) stage_config) None True = MapFast"
    by (simp add: map_variant_def default_config_def resolveHandler_def isFastPathEligible_def
        isFastPathEligibleCfg_def HasSupervision_def no_supervision_def)
  then have "outputs (mapSerialFastPath ?ctx (\<lambda>_. None) ''map'' (\<lambda>c x. ?fn c x 0)) ?bs =
      outputs (mapSerial ''map'' ?process) (unblock ?bs) \<and>
      returns (mapSerialFastPath ?ctx (\<lambda>_. None) ''map'' (\<lambda>c x. ?fn c x 0)) ?bs = returns (mapSerial ''map'' ?process) (unblock ?bs)"
    by (rule map_fast_path_equivalent [where fuel = 1 and cancelled = "\<lambda>_ _. None" and mapper = None])
      (simp_all add: default_config_def processes_def ProcessItem_def resolveHandler_def)
  then show ?thesis by (simp add: outputs_def mapSerial_def item_step_def map_item_def)
qed

lemma block_loop_run:
  assumes "unblock bs = closing xs" and "\<forall>b \<in> set bs. block_ctx b = None"
  shows "outputs (block_loop c d mode h) bs = fst (run_items h xs) \<and>
         returns (block_loop c d mode h) bs = Return (snd (run_items h xs))"
  by (simp add: outputs_def returns_def exec_block_loop [OF assms(2)] assms(1) exec_item_loop_closing)

text \<open>
  C7: A fused chain \<^verbatim>\<open>Map -> Filter -> ForEach\<close> equals its three stages run one after the other: it
  makes the deliveries of \<^verbatim>\<open>ForEach\<close> for the output of \<^verbatim>\<open>Filter\<close> on the output of \<^verbatim>\<open>Map\<close>, and it returns
  the error of the furthest downstream of them that fails, a failing \<^verbatim>\<open>Map\<close> reporting its name with the
  default \<^verbatim>\<open>map\<close> filled in; provided the functions of \<^verbatim>\<open>Map\<close> and \<^verbatim>\<open>ForEach\<close> do not look at the values an item
  carries in a context of its own, which the fused chain does not pass on.
\<close>

theorem fused_chain_composes:
  assumes "unblock bs = closing xs" "unblock bs' = closing (outputs (mapSerialFastPath ctx carried name fn) bs)"
    and "unblock bs'' = closing (outputs (filterFastPath (pred ctx)) bs')"
    and "\<forall>b \<in> set bs \<union> set bs' \<union> set bs''. block_ctx b = None"
    and "\<And>x. fn (ItemCtx ctx carried x) x = fn ctx x"
    and "\<And>y. sink (ItemCtx ctx carried' y) y = sink ctx y"
  shows "outputs (fused_loop ctx (fuse_map name fn (fuse_filter pred (fuse_foreach sink)))) bs =
           outputs (forEachFastPath ctx carried' sink) bs'' \<and>
         returns (fused_loop ctx (fuse_map name fn (fuse_filter pred (fuse_foreach sink)))) bs =
           (case returns (forEachFastPath ctx carried' sink) bs'' of
              Return None \<Rightarrow> (case returns (filterFastPath (pred ctx)) bs' of
                                 Return None \<Rightarrow> returns (mapSerialFastPath ctx carried (orDefault name ''map'') fn) bs
                               | r \<Rightarrow> r)
            | r \<Rightarrow> r)"
proof -
  have ctx: "\<forall>b \<in> set bs. block_ctx b = None" "\<forall>b \<in> set bs'. block_ctx b = None"
    "\<forall>b \<in> set bs''. block_ctx b = None" using assms(4) by simp_all
  let ?k = "foreach_item_fast (sink ctx)"
  let ?p = "run_items (map_item_fast (orDefault name ''map'') (fn ctx)) xs"
  let ?q = "run_items (filter_item_fast (pred ctx)) (fst ?p)"
  have run: "outputs (mapSerialFastPath ctx carried name' fn) bs = fst (run_items (map_item_fast name' (fn ctx)) xs)"
    "returns (mapSerialFastPath ctx carried name' fn) bs = Return (snd (run_items (map_item_fast name' (fn ctx)) xs))" for name'
    by (simp_all add: block_loop_run [OF assms(1) ctx(1)] mapSerialFastPath_def assms(5))
  have p: "outputs (mapSerialFastPath ctx carried name fn) bs = fst ?p"
    unfolding run by (rule run_map_name)
  have q: "outputs (filterFastPath (pred ctx)) bs' = fst ?q" "returns (filterFastPath (pred ctx)) bs' = Return (snd ?q)"
    by (simp_all add: block_loop_run [OF assms(2) [unfolded p] ctx(2)] filterFastPath_def)
  have s: "outputs (forEachFastPath ctx carried' sink) bs'' = fst (run_items ?k (fst ?q))"
    "returns (forEachFastPath ctx carried' sink) bs'' = Return (snd (run_items ?k (fst ?q)))"
    by (simp_all add: block_loop_run [OF assms(3) [unfolded q] ctx(3)] forEachFastPath_def assms(6))
  have "run_items (fuse_map name fn (fuse_filter pred (fuse_foreach sink)) ctx) xs =
      through (fuse_filter pred (fuse_foreach sink) ctx) ?p"
    by (rule run_fuse_map)
  also have "\<dots> = (fst (through ?k ?q), case snd (through ?k ?q) of None \<Rightarrow> snd ?p | Some er \<Rightarrow> Some er)"
    by (simp add: through_def [of "fuse_filter pred (fuse_foreach sink) ctx"] run_fuse_filter fuse_foreach_def
        split: prod.splits option.splits)
  finally show ?thesis
    using run(2) [of "orDefault name ''map''"] q(2) s
    by (simp add: block_loop_run [OF assms(1) ctx(1)] fused_loop_def through_def split: prod.splits option.splits)
qed

theorem fused_chain_composes_witness:
  "let ctx = \<lparr>ctx_err = None, ctx_value = (\<lambda>k :: nat. None)\<rparr> in
   outputs (fused_loop ctx (fuse_map [] (\<lambda>c x. Inr (x + 1)) (fuse_filter (\<lambda>c x. Inr (even x)) (fuse_foreach (\<lambda>c (x::int). None)))))
     [Block [1, 2, 3] True None] =
   outputs (forEachFastPath ctx (\<lambda>_. None) (\<lambda>c (x::int). None)) [Block [2, 4] True None]"
  using fused_chain_composes [of "[Block [1, 2, 3] True None]" "[1, 2, 3]" "[Block [2, 3, 4] True None]"
      "\<lparr>ctx_err = None, ctx_value = (\<lambda>k :: nat. None)\<rparr>" "\<lambda>_. None" "[]"
      "\<lambda>c x. Inr (x + 1)" "[Block [2, 4] True None]" "\<lambda>c x. Inr (even x)" "\<lambda>c x::int. None" "\<lambda>_. None"]
  by (simp add: outputs_def mapSerialFastPath_def filterFastPath_def block_loop_def block_step_def
      map_item_fast_def filter_item_fast_def Let_def)

text \<open>
  Fusion shows in two ways. A failing \<^verbatim>\<open>Map\<close> without a name reports the empty name on its own and \<^verbatim>\<open>map\<close>
  when fused; and the values an item carries reach the function of an unfused \<^verbatim>\<open>Map\<close> and not of a fused one.
\<close>

theorem fusion_names_unnamed_map:
  assumes "fn ctx x = Inl err"
  shows "returns (mapSerialFastPath ctx (\<lambda>_. None) [] fn) [Block [x] True None] = Return (WrapStageErr [] (Some err) 0) \<and>
         returns (fused_loop ctx (fuse_map [] fn sink)) [Block [x] True None] = Return (WrapStageErr ''map'' (Some err) 0)"
  by (simp add: returns_def mapSerialFastPath_def fused_loop_def block_loop_def block_step_def map_item_fast_def
      ItemCtx_def fuse_map_def orDefault_def assms WrapStageErr_Some)

theorem fusion_drops_item_context:
  assumes "carried x = Some c" and "ctx_value c k = Some v" and "ctx_value ctx k = None"
  shows "outputs (mapSerialFastPath ctx carried name (\<lambda>c _. Inr (ctx_value c k))) [Block [x] True None] = [Some v] \<and>
         outputs (fused_loop ctx (fuse_map name (\<lambda>c _. Inr (ctx_value c k)) (fuse_foreach (\<lambda>_ _. None)))) [Block [x] True None]
           = [None]"
  by (simp add: outputs_def mapSerialFastPath_def fused_loop_def block_loop_def block_step_def map_item_fast_def
      ItemCtx_def carrierCtx_def fuse_map_def fuse_foreach_def foreach_item_fast_def assms)

text \<open>
  The serial and the micro-batched path of \<^verbatim>\<open>Filter\<close> send the same items for every predicate,
  but report a failing predicate differently: the serial path wraps the error in a
  \<^verbatim>\<open>StageError\<close> with the stage's name, the fast path returns it bare.
\<close>

theorem filter_paths_differ_in_errors:
  assumes "unblock bs = closing xs" and "\<forall>b \<in> set bs. block_ctx b = None"
  shows "outputs (filterFastPath pred) bs = outputs (filter_serial name pred) (closing xs) \<and>
         (\<exists>r. returns (filterFastPath pred) bs = Return r \<and>
              returns (filter_serial name pred) (closing xs) = Return (WrapStageErr name r 0))"
  using block_loop_run [OF assms, of True True SendBare "filter_item_fast pred"]
    run_filter_paths [of name pred xs]
  by (auto simp add: outputs_def returns_def filterFastPath_def filter_serial_def exec_item_loop_closing)

theorem filter_paths_differ_in_errors_witness:
  "\<exists>r. returns (filterFastPath (\<lambda>x. if x = 0 then Inl (Plain ''bad'') else Inr True)) [Block [1, 0 :: nat] True None] = Return r \<and>
       returns (filter_serial ''filter'' (\<lambda>x. if x = 0 then Inl (Plain ''bad'') else Inr True)) (closing [1, 0 :: nat]) =
         Return (WrapStageErr ''filter'' r 0)"
  using filter_paths_differ_in_errors [of "[Block [1, 0 :: nat] True None]" "[1, 0]"
      "\<lambda>x. if x = 0 then Inl (Plain ''bad'') else Inr True" "''filter''"]
  by (simp del: closing_simps add: closing_def)

end
