(* ===== verification/Concurrent_Map.thy ===== *)
theory Concurrent_Map
  imports Map_Ops
begin

text \<open>
  The stages that work on several items at once. \<^verbatim>\<open>mc_step\<close> is the loop with a semaphore and one
  goroutine per item that \<^verbatim>\<open>mapConcurrent\<close>, \<^verbatim>\<open>flatMapConcurrent\<close> and \<^verbatim>\<open>forEachConcurrent\<close> share;
  \<^verbatim>\<open>mo_step\<close> the one with slots that a delivering goroutine reads in input order, shared by
  \<^verbatim>\<open>mapOrdered\<close>, \<^verbatim>\<open>flatMapOrdered\<close> and \<^verbatim>\<open>forEachOrdered\<close> (\<^verbatim>\<open>operator_map.go\<close>,
  \<^verbatim>\<open>operator_flatmap.go\<close>, \<^verbatim>\<open>terminal.go\<close>). Their steps are the atomic actions of the goroutines.

  \<^verbatim>\<open>process x\<close> is what \<^verbatim>\<open>ProcessItem\<close> or \<^verbatim>\<open>ProcessFlatMapItem\<close> answers while the stage is live. Once
  the inner context is cancelled the user's function may answer anything. The restarts of
  \<^verbatim>\<open>Supervise\<close> are in the theory \<^verbatim>\<open>Supervision\<close>; here is the body it runs.
\<close>

section \<open>Answers\<close>

text \<open>
  What a worker does with the result of its item: the values to send, the error to report, and
  the error to report when a send is cut off by a cancellation.
\<close>

type_synonym ('r, 'o) answer = "'r \<Rightarrow> 'o list \<times> go_error option \<times> go_error option"

definition map_answer :: "string \<Rightarrow> ('o result \<times> nat, 'o) answer" where
  "map_answer name r =
     (case r of
        (Inr v, attempt) \<Rightarrow> ([v], None, Some Canceled)
      | (Inl err, attempt) \<Rightarrow>
          ([], if err = ErrSkipped then None else WrapStageErr name (Some err) attempt, None))"

text \<open>The values an item should have sent, and those of several items.\<close>

definition yields :: "('r, 'o) answer \<Rightarrow> ('i \<Rightarrow> 'r) \<Rightarrow> 'i \<Rightarrow> 'o list" where
  "yields answer process x = (if fst (snd (answer (process x))) = None then fst (answer (process x)) else [])"

definition all_yields :: "('r, 'o) answer \<Rightarrow> ('i \<Rightarrow> 'r) \<Rightarrow> 'i list \<Rightarrow> 'o list" where
  "all_yields answer process xs = concat (map (yields answer process) xs)"

lemma all_yields_simps [simp]:
  "all_yields answer process [] = []"
  "all_yields answer process (x # xs) = yields answer process x @ all_yields answer process xs"
  "all_yields answer process (xs @ ys) = all_yields answer process xs @ all_yields answer process ys"
  by (simp_all add: all_yields_def)

definition ok_values :: "('i \<Rightarrow> 'o result \<times> nat) \<Rightarrow> 'i list \<Rightarrow> 'o list" where
  "ok_values process xs = concat (map (\<lambda>x. case fst (process x) of Inr v \<Rightarrow> [v] | Inl _ \<Rightarrow> []) xs)"

lemma all_yields_map [simp]: "all_yields (map_answer name) process xs = ok_values process xs"
proof -
  have "yields (map_answer name) process = (\<lambda>x. case fst (process x) of Inr v \<Rightarrow> [v] | Inl _ \<Rightarrow> [])"
    by (rule ext) (auto simp: yields_def map_answer_def split: prod.splits sum.splits)
  then show ?thesis by (simp add: all_yields_def ok_values_def)
qed

text \<open>\<^verbatim>\<open>reportErr\<close>: a non-blocking send on a channel of capacity one; the first error stays.\<close>

definition reportErr :: "go_error option \<Rightarrow> go_error option \<Rightarrow> go_error option" where
  "reportErr errCh err = (case errCh of Some e \<Rightarrow> Some e | None \<Rightarrow> err)"

lemma reportErr_not_None [simp]: "reportErr ch (Some e) \<noteq> None"
  by (simp add: reportErr_def split: option.splits)

section \<open>Workers with a semaphore\<close>

text \<open>
  The dispatching loop: waiting for an item, holding one and waiting for a semaphore token, or
  past the loop. \<^verbatim>\<open>mc_running\<close> are the workers still in the user's function, \<^verbatim>\<open>mc_sending\<close> those
  with values left to send; together they hold the tokens taken. \<^verbatim>\<open>mc_processed\<close> are the items
  whose function has returned.
\<close>

datatype 'i mc_phase = McReceiving | McAcquiring 'i | McStopped

record ('i, 'o) mc =
  mc_input :: "'i list"
  mc_phase :: "'i mc_phase"
  mc_running :: "'i list"
  mc_sending :: "('o list \<times> go_error option) list"
  mc_processed :: "'i list"
  mc_out :: "'o list"
  mc_err :: "go_error option"
  mc_cancelled :: bool
  mc_outer :: bool
  mc_coop :: bool
  mc_returned :: "go_error option option"

definition mc_init :: "'i list \<Rightarrow> ('i, 'o) mc" where
  "mc_init xs =
     \<lparr>mc_input = xs, mc_phase = McReceiving, mc_running = [], mc_sending = [], mc_processed = [], mc_out = [],
      mc_err = None, mc_cancelled = False, mc_outer = False, mc_coop = False, mc_returned = None\<rparr>"

text \<open>What a worker does with the answer to its item.\<close>

definition mc_answer :: "('r, 'o) answer \<Rightarrow> 'i \<Rightarrow> 'r \<Rightarrow> ('i, 'o) mc \<Rightarrow> ('i, 'o) mc" where
  "mc_answer answer x r s =
     (let s = s\<lparr>mc_running := remove1 x (mc_running s), mc_processed := x # mc_processed s\<rparr>
      in case answer r of
           (vs, None, cutoff) \<Rightarrow> s\<lparr>mc_sending := (vs, cutoff) # mc_sending s\<rparr>
         | (vs, Some err, cutoff) \<Rightarrow> s\<lparr>mc_err := reportErr (mc_err s) (Some err), mc_cancelled := True\<rparr>)"

text \<open>\<^verbatim>\<open>drains\<close>: whether the loop has a drain arm, which the sink \<^verbatim>\<open>ForEach\<close> has not.\<close>

inductive mc_step ::
  "bool \<Rightarrow> nat \<Rightarrow> ('r, 'o) answer \<Rightarrow> ('i \<Rightarrow> 'r) \<Rightarrow> ('i, 'o) mc \<Rightarrow> ('i, 'o) mc \<Rightarrow> bool"
  for drains :: bool and n :: nat and answer :: "('r, 'o) answer" and process :: "'i \<Rightarrow> 'r" where
  mc_recv: "mc_phase s = McReceiving \<Longrightarrow> mc_input s = x # xs \<Longrightarrow>
     mc_step drains n answer process s (s\<lparr>mc_input := xs, mc_phase := McAcquiring x\<rparr>)"
| mc_closed: "mc_phase s = McReceiving \<Longrightarrow> mc_input s = [] \<Longrightarrow>
     mc_step drains n answer process s (s\<lparr>mc_phase := McStopped\<rparr>)"
| mc_cancel_seen: "mc_phase s \<noteq> McStopped \<Longrightarrow> mc_cancelled s \<Longrightarrow>
     mc_step drains n answer process s (s\<lparr>mc_phase := McStopped\<rparr>)"
| mc_drain: "drains \<Longrightarrow> mc_phase s = McReceiving \<Longrightarrow>
     mc_step drains n answer process s (s\<lparr>mc_phase := McStopped, mc_coop := True, mc_cancelled := True\<rparr>)"
| mc_acquire: "mc_phase s = McAcquiring x \<Longrightarrow> length (mc_running s) + length (mc_sending s) < n \<Longrightarrow>
     mc_step drains n answer process s (s\<lparr>mc_phase := McReceiving, mc_running := x # mc_running s\<rparr>)"
| mc_work: "x \<in> set (mc_running s) \<Longrightarrow> mc_step drains n answer process s (mc_answer answer x (process x) s)"
| mc_interrupted: "x \<in> set (mc_running s) \<Longrightarrow> mc_cancelled s \<Longrightarrow>
     mc_step drains n answer process s (mc_answer answer x r s)"
| mc_send: "(v # vs, cutoff) \<in> set (mc_sending s) \<Longrightarrow>
     mc_step drains n answer process s
       (s\<lparr>mc_sending := (vs, cutoff) # remove1 (v # vs, cutoff) (mc_sending s), mc_out := mc_out s @ [v]\<rparr>)"
| mc_send_cancelled: "(v # vs, cutoff) \<in> set (mc_sending s) \<Longrightarrow> mc_cancelled s \<Longrightarrow>
     mc_step drains n answer process s
       (s\<lparr>mc_sending := remove1 (v # vs, cutoff) (mc_sending s), mc_err := reportErr (mc_err s) cutoff\<rparr>)"
| mc_finish: "([], cutoff) \<in> set (mc_sending s) \<Longrightarrow>
     mc_step drains n answer process s (s\<lparr>mc_sending := remove1 ([], cutoff) (mc_sending s)\<rparr>)"
| mc_outer_cancel: "mc_step drains n answer process s (s\<lparr>mc_outer := True, mc_cancelled := True\<rparr>)"
| mc_return: "mc_phase s = McStopped \<Longrightarrow> mc_running s = [] \<Longrightarrow> mc_sending s = [] \<Longrightarrow> mc_returned s = None \<Longrightarrow>
     mc_step drains n answer process s (s\<lparr>mc_returned := Some (mc_err s)\<rparr>)"

inductive mc_reach ::
  "bool \<Rightarrow> nat \<Rightarrow> ('r, 'o) answer \<Rightarrow> ('i \<Rightarrow> 'r) \<Rightarrow> 'i list \<Rightarrow> ('i, 'o) mc \<Rightarrow> bool"
  for drains :: bool and n :: nat and answer :: "('r, 'o) answer" and process :: "'i \<Rightarrow> 'r" and xs :: "'i list" where
  mc_start: "mc_reach drains n answer process xs (mc_init xs)"
| mc_next: "mc_reach drains n answer process xs s \<Longrightarrow> mc_step drains n answer process s s' \<Longrightarrow>
     mc_reach drains n answer process xs s'"

definition mc_held :: "('i, 'o) mc \<Rightarrow> 'i list" where
  "mc_held s = (case mc_phase s of McAcquiring x \<Rightarrow> [x] | _ \<Rightarrow> [])"

text \<open>While the stage is live every item and every value is accounted for.\<close>

definition mc_live :: "('r, 'o) answer \<Rightarrow> ('i \<Rightarrow> 'r) \<Rightarrow> 'i list \<Rightarrow> ('i, 'o) mc \<Rightarrow> bool" where
  "mc_live answer process xs s \<longleftrightarrow>
     mset xs = mset (mc_processed s) + mset (mc_running s) + mset (mc_held s) + mset (mc_input s)
     \<and> mset (mc_out s) + mset (concat (map fst (mc_sending s))) =
         mset (all_yields answer process (mc_processed s))
     \<and> mc_err s = None \<and> (mc_phase s = McStopped \<longrightarrow> mc_input s = [])"

definition mc_ended :: "('i, 'o) mc \<Rightarrow> bool" where
  "mc_ended s \<longleftrightarrow>
     (mc_cancelled s \<and> \<not> mc_outer s \<and> \<not> mc_coop s \<longrightarrow> mc_err s \<noteq> None)
     \<and> (\<forall>r. mc_returned s = Some r \<longrightarrow>
          mc_phase s = McStopped \<and> mc_running s = [] \<and> mc_sending s = [] \<and> r = mc_err s)"

definition mc_inv :: "bool \<Rightarrow> nat \<Rightarrow> ('r, 'o) answer \<Rightarrow> ('i \<Rightarrow> 'r) \<Rightarrow> 'i list \<Rightarrow> ('i, 'o) mc \<Rightarrow> bool" where
  "mc_inv drains n answer process xs s \<longleftrightarrow>
     length (mc_running s) + length (mc_sending s) \<le> n
     \<and> (\<not> mc_cancelled s \<longrightarrow> mc_live answer process xs s) \<and> mc_ended s \<and> (mc_coop s \<longrightarrow> drains)"

lemma mset_all_yields: "mset xs = mset ys \<Longrightarrow> mset (all_yields answer process xs) = mset (all_yields answer process ys)"
proof -
  have "mset (all_yields answer process xs) = (\<Sum>x\<in>#mset xs. mset (yields answer process x))" for xs
    by (induction xs) (simp_all add: ac_simps)
  then show "mset xs = mset ys \<Longrightarrow> ?thesis" by simp
qed

lemma mset_concat_remove1:
  "p \<in> set ps \<Longrightarrow> mset (concat (map fst ps)) = mset (fst p) + mset (concat (map fst (remove1 p ps)))"
  by (induction ps) auto

lemma mc_inv_init: "mc_inv drains n answer process xs (mc_init xs)"
  by (simp add: mc_inv_def mc_live_def mc_ended_def mc_init_def mc_held_def)

lemma remove1_Suc: "x \<in> set ys \<Longrightarrow> length ys = Suc (length (remove1 x ys))"
  by (induction ys) auto

lemma mc_step_workers:
  "mc_step drains n answer process s s' \<Longrightarrow> length (mc_running s) + length (mc_sending s) \<le> n \<Longrightarrow>
   length (mc_running s') + length (mc_sending s') \<le> n"
  by (induction rule: mc_step.induct)
    (auto simp: mc_answer_def Let_def dest: remove1_Suc split: prod.splits option.splits)

lemma mc_step_uncancels: "mc_step drains n answer process s s' \<Longrightarrow> \<not> mc_cancelled s' \<Longrightarrow> \<not> mc_cancelled s"
  by (induction rule: mc_step.induct) (auto simp: mc_answer_def Let_def split: prod.splits option.splits)

lemma mc_step_coop: "mc_step drains n answer process s s' \<Longrightarrow> mc_coop s' \<Longrightarrow> mc_coop s \<or> drains"
  by (induction rule: mc_step.induct) (auto simp: mc_answer_def Let_def split: prod.splits option.splits)

lemma mc_step_live:
  "mc_step drains n answer process s s' \<Longrightarrow> mc_live answer process xs s \<Longrightarrow> \<not> mc_cancelled s' \<Longrightarrow>
   \<not> mc_cancelled s \<Longrightarrow> mc_live answer process xs s'"
proof (induction rule: mc_step.induct)
  case (mc_work x s)
  then show ?case
    by (cases "answer (process x)"; cases "fst (snd (answer (process x)))")
      (auto simp: mc_live_def mc_answer_def Let_def mc_held_def yields_def ac_simps)
next
  case (mc_send v vs cutoff s)
  then show ?case by (simp add: mc_live_def mc_held_def mset_concat_remove1 [OF mc_send(1)])
next
  case (mc_finish cutoff s)
  then show ?case by (simp add: mc_live_def mc_held_def mset_concat_remove1 [OF mc_finish(1)])
qed (simp_all add: mc_live_def mc_held_def ac_simps)

lemma mc_answer_ended:
  assumes "mc_ended s" and "x \<in> set (mc_running s)"
  shows "mc_ended (mc_answer answer x r s)"
proof -
  have None: "mc_returned s = None"
    using assms by (cases "mc_returned s") (auto simp: mc_ended_def)
  obtain vs e cutoff where "answer r = (vs, e, cutoff)" by (cases "answer r")
  with assms None show ?thesis
    by (cases e) (auto simp: mc_ended_def mc_answer_def Let_def reportErr_def split: option.splits)
qed

lemma mc_not_returned: "mc_ended s \<Longrightarrow> p \<in> set (mc_sending s) \<Longrightarrow> mc_returned s = None"
  by (cases "mc_returned s") (auto simp: mc_ended_def)

lemma mc_step_ended: "mc_step drains n answer process s s' \<Longrightarrow> mc_ended s \<Longrightarrow> mc_ended s'"
proof (induction rule: mc_step.induct)
  case (mc_work x s)
  then show ?case by (simp add: mc_answer_ended)
next
  case (mc_interrupted x s r)
  then show ?case by (simp add: mc_answer_ended)
next
  case (mc_send_cancelled v vs cutoff s)
  then show ?case using mc_not_returned [OF mc_send_cancelled(3,1)] by (auto simp: mc_ended_def reportErr_def split: option.splits)
next
  case (mc_send v vs cutoff s)
  then show ?case using mc_not_returned [OF mc_send(2,1)] by (simp add: mc_ended_def)
next
  case (mc_finish cutoff s)
  then show ?case using mc_not_returned [OF mc_finish(2,1)] by (simp add: mc_ended_def)
qed (auto simp: mc_ended_def)

lemma mc_step_inv:
  "mc_step drains n answer process s s' \<Longrightarrow> mc_inv drains n answer process xs s \<Longrightarrow> mc_inv drains n answer process xs s'"
  using mc_step_workers [of drains n answer process s s'] mc_step_live [of drains n answer process s s' xs]
    mc_step_uncancels [of drains n answer process s s'] mc_step_ended [of drains n answer process s s']
    mc_step_coop [of drains n answer process s s']
  by (auto simp: mc_inv_def)

lemma mc_reach_inv: "mc_reach drains n answer process xs s \<Longrightarrow> mc_inv drains n answer process xs s"
  by (induction rule: mc_reach.induct) (auto intro: mc_inv_init mc_step_inv)

text \<open>A normal return: every item was processed and every value sent.\<close>

lemma mc_complete:
  assumes "mc_reach drains n answer process xs s" and "mc_returned s = Some None"
    and "\<not> mc_outer s" and "\<not> mc_coop s"
  shows "mset (mc_processed s) = mset xs \<and> mset (mc_out s) = mset (all_yields answer process xs)"
proof -
  from mc_reach_inv [OF assms(1)] assms(2-) have live: "mc_live answer process xs s"
    and "mc_phase s = McStopped" "mc_running s = []" "mc_sending s = []"
    by (auto simp: mc_inv_def mc_ended_def)
  then have "mset (mc_processed s) = mset xs" "mset (mc_out s) = mset (all_yields answer process (mc_processed s))"
    by (auto simp: mc_live_def mc_held_def)
  with mset_all_yields [of "mc_processed s" xs answer process] show ?thesis by simp
qed

section \<open>Ordered delivery\<close>

datatype 'i mo_phase = MoReceiving | MoAcquiring 'i | MoEnqueuing 'i | MoStopped | MoClosed

text \<open>A slot: its item, and the result once the worker has filled it.\<close>

type_synonym ('i, 'r) slot = "'i \<times> 'r option"

text \<open>The delivering goroutine: idle, holding a slot, sending, or ended with its error.\<close>

datatype ('i, 'r, 'o) deliverer = Idle | Holding "('i, 'r) slot" | Delivering "'o list" "go_error option" | Ended "go_error option"

record ('i, 'r, 'o) mo =
  mo_input :: "'i list"
  mo_phase :: "'i mo_phase"
  mo_slots :: "('i, 'r) slot list"
  mo_deliver :: "('i, 'r, 'o) deliverer"
  mo_out :: "'o list"
  mo_cancelled :: bool
  mo_outer :: bool
  mo_coop :: bool
  mo_returned :: "go_error option option"

definition mo_init :: "'i list \<Rightarrow> ('i, 'r, 'o) mo" where
  "mo_init xs =
     \<lparr>mo_input = xs, mo_phase = MoReceiving, mo_slots = [], mo_deliver = Idle, mo_out = [],
      mo_cancelled = False, mo_outer = False, mo_coop = False, mo_returned = None\<rparr>"

definition slot_running :: "('i, 'r) slot \<Rightarrow> bool" where
  "slot_running sl \<longleftrightarrow> snd sl = None"

text \<open>Tokens taken: the workers at work, and the one taken for an item not yet enqueued.\<close>

definition mo_tokens :: "('i, 'r, 'o) mo \<Rightarrow> nat" where
  "mo_tokens s =
     length (filter slot_running (mo_slots s))
     + (case mo_deliver s of Holding sl \<Rightarrow> if slot_running sl then 1 else 0 | _ \<Rightarrow> 0)
     + (case mo_phase s of MoEnqueuing x \<Rightarrow> 1 | _ \<Rightarrow> 0)"

text \<open>What the deliverer does with the result of the slot it holds.\<close>

definition mo_answer :: "('r, 'o) answer \<Rightarrow> 'r \<Rightarrow> ('i, 'r, 'o) mo \<Rightarrow> ('i, 'r, 'o) mo" where
  "mo_answer answer r s =
     (case answer r of
        (vs, None, cutoff) \<Rightarrow> s\<lparr>mo_deliver := Delivering vs cutoff\<rparr>
      | (vs, Some err, cutoff) \<Rightarrow> s\<lparr>mo_deliver := Ended (Some err), mo_cancelled := True\<rparr>)"

inductive mo_step ::
  "bool \<Rightarrow> nat \<Rightarrow> ('r, 'o) answer \<Rightarrow> ('i \<Rightarrow> 'r) \<Rightarrow> ('i, 'r, 'o) mo \<Rightarrow> ('i, 'r, 'o) mo \<Rightarrow> bool"
  for drains :: bool and n :: nat and answer :: "('r, 'o) answer" and process :: "'i \<Rightarrow> 'r" where
  mo_recv: "mo_phase s = MoReceiving \<Longrightarrow> mo_input s = x # xs \<Longrightarrow>
     mo_step drains n answer process s (s\<lparr>mo_input := xs, mo_phase := MoAcquiring x\<rparr>)"
| mo_closed: "mo_phase s = MoReceiving \<Longrightarrow> mo_input s = [] \<Longrightarrow>
     mo_step drains n answer process s (s\<lparr>mo_phase := MoStopped\<rparr>)"
| mo_cancel_seen: "mo_phase s \<notin> {MoStopped, MoClosed} \<Longrightarrow> mo_cancelled s \<Longrightarrow>
     mo_step drains n answer process s (s\<lparr>mo_phase := MoStopped\<rparr>)"
| mo_drain: "drains \<Longrightarrow> mo_phase s = MoReceiving \<Longrightarrow>
     mo_step drains n answer process s (s\<lparr>mo_phase := MoStopped, mo_coop := True, mo_cancelled := True\<rparr>)"
| mo_acquire: "mo_phase s = MoAcquiring x \<Longrightarrow> mo_tokens s < n \<Longrightarrow>
     mo_step drains n answer process s (s\<lparr>mo_phase := MoEnqueuing x\<rparr>)"
| mo_enqueue: "mo_phase s = MoEnqueuing x \<Longrightarrow> length (mo_slots s) < n * 2 \<Longrightarrow>
     mo_step drains n answer process s (s\<lparr>mo_phase := MoReceiving, mo_slots := mo_slots s @ [(x, None)]\<rparr>)"
| mo_work: "mo_slots s = ls @ (x, None) # rs \<Longrightarrow> r = process x \<or> mo_cancelled s \<Longrightarrow>
     mo_step drains n answer process s (s\<lparr>mo_slots := ls @ (x, Some r) # rs\<rparr>)"
| mo_work_held: "mo_deliver s = Holding (x, None) \<Longrightarrow> r = process x \<or> mo_cancelled s \<Longrightarrow>
     mo_step drains n answer process s (s\<lparr>mo_deliver := Holding (x, Some r)\<rparr>)"
| mo_take: "mo_deliver s = Idle \<Longrightarrow> mo_slots s = sl # rest \<Longrightarrow>
     mo_step drains n answer process s (s\<lparr>mo_deliver := Holding sl, mo_slots := rest\<rparr>)"
| mo_result: "mo_deliver s = Holding (x, Some r) \<Longrightarrow> mo_step drains n answer process s (mo_answer answer r s)"
| mo_send: "mo_deliver s = Delivering (v # vs) cutoff \<Longrightarrow>
     mo_step drains n answer process s (s\<lparr>mo_deliver := Delivering vs cutoff, mo_out := mo_out s @ [v]\<rparr>)"
| mo_send_cancelled: "mo_deliver s = Delivering (v # vs) cutoff \<Longrightarrow> mo_cancelled s \<Longrightarrow>
     mo_step drains n answer process s (s\<lparr>mo_deliver := Ended (Some Canceled)\<rparr>)"
| mo_sent: "mo_deliver s = Delivering [] cutoff \<Longrightarrow>
     mo_step drains n answer process s (s\<lparr>mo_deliver := Idle\<rparr>)"
| mo_discard: "mo_deliver s = Ended e \<Longrightarrow> mo_slots s = (x, Some r) # rest \<Longrightarrow>
     mo_step drains n answer process s (s\<lparr>mo_slots := rest\<rparr>)"
| mo_close: "mo_phase s = MoStopped \<Longrightarrow> mo_tokens s = 0 \<Longrightarrow>
     mo_step drains n answer process s (s\<lparr>mo_phase := MoClosed\<rparr>)"
| mo_end: "mo_phase s = MoClosed \<Longrightarrow> mo_deliver s = Idle \<Longrightarrow> mo_slots s = [] \<Longrightarrow>
     mo_step drains n answer process s (s\<lparr>mo_deliver := Ended None\<rparr>)"
| mo_outer_cancel: "mo_step drains n answer process s (s\<lparr>mo_outer := True, mo_cancelled := True\<rparr>)"
| mo_return: "mo_phase s = MoClosed \<Longrightarrow> mo_deliver s = Ended e \<Longrightarrow> mo_returned s = None \<Longrightarrow>
     mo_step drains n answer process s (s\<lparr>mo_returned := Some e\<rparr>)"

inductive mo_reach ::
  "bool \<Rightarrow> nat \<Rightarrow> ('r, 'o) answer \<Rightarrow> ('i \<Rightarrow> 'r) \<Rightarrow> 'i list \<Rightarrow> ('i, 'r, 'o) mo \<Rightarrow> bool"
  for drains :: bool and n :: nat and answer :: "('r, 'o) answer" and process :: "'i \<Rightarrow> 'r" and xs :: "'i list" where
  mo_start: "mo_reach drains n answer process xs (mo_init xs)"
| mo_next: "mo_reach drains n answer process xs s \<Longrightarrow> mo_step drains n answer process s s' \<Longrightarrow> mo_reach drains n answer process xs s'"

text \<open>What is still to come, in order, from the deliverer to the unread input.\<close>

definition mo_deliverable :: "('r, 'o) answer \<Rightarrow> ('i \<Rightarrow> 'r) \<Rightarrow> ('i, 'r, 'o) deliverer \<Rightarrow> 'o list" where
  "mo_deliverable answer process d =
     (case d of Holding sl \<Rightarrow> yields answer process (fst sl) | Delivering vs cutoff \<Rightarrow> vs | _ \<Rightarrow> [])"

definition mo_held :: "('i, 'r, 'o) mo \<Rightarrow> 'i list" where
  "mo_held s = (case mo_phase s of MoAcquiring x \<Rightarrow> [x] | MoEnqueuing x \<Rightarrow> [x] | _ \<Rightarrow> [])"

definition slot_true :: "('i \<Rightarrow> 'r) \<Rightarrow> ('i, 'r) slot \<Rightarrow> bool" where
  "slot_true process sl \<longleftrightarrow> (\<forall>r. snd sl = Some r \<longrightarrow> r = process (fst sl))"

text \<open>While the stage is live.\<close>

definition mo_live :: "('r, 'o) answer \<Rightarrow> ('i \<Rightarrow> 'r) \<Rightarrow> 'i list \<Rightarrow> ('i, 'r, 'o) mo \<Rightarrow> bool" where
  "mo_live answer process xs s \<longleftrightarrow>
     mo_out s @ mo_deliverable answer process (mo_deliver s) @ all_yields answer process (map fst (mo_slots s)) @
       all_yields answer process (mo_held s) @ all_yields answer process (mo_input s) = all_yields answer process xs
     \<and> (\<forall>sl \<in> set (mo_slots s). slot_true process sl)
     \<and> (\<forall>sl. mo_deliver s = Holding sl \<longrightarrow> slot_true process sl)
     \<and> (mo_phase s \<in> {MoStopped, MoClosed} \<longrightarrow> mo_input s = [])
     \<and> (\<forall>e. mo_deliver s = Ended e \<longrightarrow> e = None \<and> mo_slots s = [] \<and> mo_phase s = MoClosed)"

definition mo_inv :: "bool \<Rightarrow> nat \<Rightarrow> ('r, 'o) answer \<Rightarrow> ('i \<Rightarrow> 'r) \<Rightarrow> 'i list \<Rightarrow> ('i, 'r, 'o) mo \<Rightarrow> bool" where
  "mo_inv drains n answer process xs s \<longleftrightarrow>
     mo_tokens s \<le> n \<and> length (mo_slots s) \<le> n * 2
     \<and> (\<not> mo_cancelled s \<longrightarrow> mo_live answer process xs s)
     \<and> (mo_cancelled s \<and> \<not> mo_outer s \<and> \<not> mo_coop s \<longrightarrow> (\<exists>e. mo_deliver s = Ended (Some e)))
     \<and> (\<forall>r. mo_returned s = Some r \<longrightarrow> mo_deliver s = Ended r \<and> mo_phase s = MoClosed)
     \<and> (mo_coop s \<longrightarrow> drains)"

lemma mo_inv_init: "mo_inv drains n answer process xs (mo_init xs)"
  by (simp add: mo_inv_def mo_live_def mo_init_def mo_tokens_def mo_deliverable_def mo_held_def)

lemmas mo_unfold = mo_inv_def mo_live_def mo_tokens_def mo_deliverable_def mo_held_def slot_true_def slot_running_def

lemma mo_step_tokens:
  "mo_step drains n answer process s s' \<Longrightarrow> mo_tokens s \<le> n \<Longrightarrow> mo_tokens s' \<le> n"
  by (induction rule: mo_step.induct)
    (auto simp: mo_tokens_def slot_running_def mo_answer_def split: mo_phase.splits prod.splits option.splits)

lemma mo_step_live:
  "mo_step drains n answer process s s' \<Longrightarrow> mo_live answer process xs s \<Longrightarrow> \<not> mo_cancelled s' \<Longrightarrow>
   mo_live answer process xs s'"
proof (induction rule: mo_step.induct)
  case (mo_result s x r)
  then have "slot_true process (x, Some r)" by (simp add: mo_live_def)
  then have "r = process x" by (simp add: slot_true_def del: split_paired_All)
  with mo_result show ?case
    by (cases "answer r"; cases "fst (snd (answer r))")
      (auto simp: mo_live_def mo_answer_def mo_deliverable_def mo_held_def yields_def)
qed (auto simp: mo_live_def mo_deliverable_def mo_held_def slot_true_def yields_def split: mo_phase.splits)

lemma mo_step_uncancels: "mo_step drains n answer process s s' \<Longrightarrow> \<not> mo_cancelled s' \<Longrightarrow> \<not> mo_cancelled s"
  by (induction rule: mo_step.induct) (auto simp: mo_answer_def split: prod.splits option.splits)

lemma mo_step_rest:
  "mo_step drains n answer process s s' \<Longrightarrow> mo_inv drains n answer process xs s \<Longrightarrow>
   length (mo_slots s') \<le> n * 2
   \<and> (mo_cancelled s' \<and> \<not> mo_outer s' \<and> \<not> mo_coop s' \<longrightarrow> (\<exists>e. mo_deliver s' = Ended (Some e)))
   \<and> (\<forall>r. mo_returned s' = Some r \<longrightarrow> mo_deliver s' = Ended r \<and> mo_phase s' = MoClosed)
   \<and> (mo_coop s' \<longrightarrow> drains)"
  by (induction rule: mo_step.induct) (auto simp: mo_inv_def mo_answer_def split: prod.splits option.splits)

lemma mo_step_inv:
  "mo_step drains n answer process s s' \<Longrightarrow> mo_inv drains n answer process xs s \<Longrightarrow> mo_inv drains n answer process xs s'"
  using mo_step_tokens [of drains n answer process s s'] mo_step_live [of drains n answer process s s' xs]
    mo_step_uncancels [of drains n answer process s s'] mo_step_rest [of drains n answer process s s' xs]
  by (auto simp: mo_inv_def)

lemma mo_reach_inv: "mo_reach drains n answer process xs s \<Longrightarrow> mo_inv drains n answer process xs s"
  by (induction rule: mo_reach.induct) (auto intro: mo_inv_init mo_step_inv)

lemma mo_order:
  assumes "mo_reach drains n answer process xs s"
  shows "\<not> mo_cancelled s \<longrightarrow> prefix (mo_out s) (all_yields answer process xs)"
    and "mo_returned s = Some None \<and> \<not> mo_outer s \<and> \<not> mo_coop s \<longrightarrow> mo_out s = all_yields answer process xs"
proof -
  have inv: "mo_inv drains n answer process xs s" using mo_reach_inv [OF assms] .
  then show "\<not> mo_cancelled s \<longrightarrow> prefix (mo_out s) (all_yields answer process xs)"
    unfolding mo_inv_def mo_live_def by (metis prefixI)
  show "mo_returned s = Some None \<and> \<not> mo_outer s \<and> \<not> mo_coop s \<longrightarrow> mo_out s = all_yields answer process xs"
  proof
    assume "mo_returned s = Some None \<and> \<not> mo_outer s \<and> \<not> mo_coop s"
    with inv have "mo_deliver s = Ended None" "mo_phase s = MoClosed" "mo_live answer process xs s"
      by (auto simp: mo_inv_def)
    then show "mo_out s = all_yields answer process xs" by (auto simp: mo_live_def mo_deliverable_def mo_held_def)
  qed
qed

section \<open>Map and ForEach\<close>

definition mapConcurrent :: "nat \<Rightarrow> string \<Rightarrow> ('i \<Rightarrow> 'o result \<times> nat) \<Rightarrow> 'i list \<Rightarrow> ('i, 'o) mc \<Rightarrow> bool" where
  "mapConcurrent n name process = mc_reach True n (map_answer name) process"

definition mapOrdered :: "nat \<Rightarrow> string \<Rightarrow> ('i \<Rightarrow> 'o result \<times> nat) \<Rightarrow> 'i list \<Rightarrow> ('i, 'o result \<times> nat, 'o) mo \<Rightarrow> bool" where
  "mapOrdered n name process = mo_reach True n (map_answer name) process"

text \<open>The workers of a sink send nothing, and its loops have no drain arm.\<close>

definition foreach_answer :: "string \<Rightarrow> (unit result \<times> nat, unit) answer" where
  "foreach_answer name r =
     (case r of
        (Inr _, attempt) \<Rightarrow> ([], None, None)
      | (Inl err, attempt) \<Rightarrow>
          ([], if err = ErrSkipped then None else WrapStageErr name (Some err) attempt, None))"

definition forEachConcurrent :: "nat \<Rightarrow> string \<Rightarrow> ('i \<Rightarrow> unit result \<times> nat) \<Rightarrow> 'i list \<Rightarrow> ('i, unit) mc \<Rightarrow> bool" where
  "forEachConcurrent n name process = mc_reach False n (foreach_answer name) process"

definition forEachOrdered ::
  "nat \<Rightarrow> string \<Rightarrow> ('i \<Rightarrow> unit result \<times> nat) \<Rightarrow> 'i list \<Rightarrow> ('i, unit result \<times> nat, unit) mo \<Rightarrow> bool" where
  "forEachOrdered n name process = mo_reach False n (foreach_answer name) process"

section \<open>Properties\<close>

text \<open>
  C3: \<^verbatim>\<open>Map\<close> with \<^verbatim>\<open>Concurrency(n)\<close>: at most \<^verbatim>\<open>n\<close> workers are ever at work, and a nil return that
  was neither cancelled from outside nor drained means that exactly the successful results of
  all items were sent, in some order.
\<close>

theorem map_concurrent_complete:
  assumes "mapConcurrent n name process xs s"
  shows "length (mc_running s) + length (mc_sending s) \<le> n \<and>
         (mc_returned s = Some None \<and> \<not> mc_outer s \<and> \<not> mc_coop s \<longrightarrow>
            mset (mc_out s) = mset (ok_values process xs))"
  using mc_reach_inv [OF assms [unfolded mapConcurrent_def]] mc_complete [OF assms [unfolded mapConcurrent_def]]
  by (auto simp: mc_inv_def)

lemma mc_single_run:
  assumes "answer (process a) = ([v], None, cutoff)"
  shows "\<exists>s. mc_reach True 2 answer process [a] s \<and> mc_returned s = Some None \<and> \<not> mc_outer s \<and> \<not> mc_coop s"
proof -
  let ?s0 = "mc_init [a]"
  let ?s1 = "?s0\<lparr>mc_input := [], mc_phase := McAcquiring a\<rparr>"
  let ?s2 = "?s1\<lparr>mc_phase := McReceiving, mc_running := [a]\<rparr>"
  let ?s3 = "?s2\<lparr>mc_running := [], mc_processed := [a], mc_sending := [([v], cutoff)]\<rparr>"
  let ?s4 = "?s3\<lparr>mc_sending := [([], cutoff)], mc_out := [v]\<rparr>"
  let ?s5 = "?s4\<lparr>mc_sending := []\<rparr>"
  let ?s6 = "?s5\<lparr>mc_phase := McStopped\<rparr>"
  let ?s7 = "?s6\<lparr>mc_returned := Some None\<rparr>"
  note [simp] = mc_init_def mc_answer_def assms
  have "mc_step True 2 answer process ?s0 ?s1" by (rule mc_recv) simp_all
  moreover have "mc_step True 2 answer process ?s1 ?s2" using mc_acquire [of ?s1 a 2 True answer process] by simp
  moreover have "mc_step True 2 answer process ?s2 ?s3" using mc_work [of a ?s2 True 2 answer process] by simp
  moreover have "mc_step True 2 answer process ?s3 ?s4"
    using mc_send [of v "[]" cutoff ?s3 True 2 answer process] by simp
  moreover have "mc_step True 2 answer process ?s4 ?s5" using mc_finish [of cutoff ?s4 True 2 answer process] by simp
  moreover have "mc_step True 2 answer process ?s5 ?s6" by (rule mc_closed) simp_all
  moreover have "mc_step True 2 answer process ?s6 ?s7" using mc_return [of ?s6 True 2 answer process] by simp
  ultimately have "mc_reach True 2 answer process [a] ?s7" by (meson mc_reach.intros)
  then show ?thesis by (intro exI [of _ ?s7]) simp
qed

theorem map_concurrent_complete_witness:
  "\<exists>s :: (nat, nat) mc. mapConcurrent 2 ''map'' (\<lambda>x. (Inr (x + 1), 0)) [41] s \<and> mset (mc_out s) = {#42#}"
proof -
  obtain s :: "(nat, nat) mc" where s: "mapConcurrent 2 ''map'' (\<lambda>x. (Inr (x + 1), 0)) [41] s"
    "mc_returned s = Some None" "\<not> mc_outer s" "\<not> mc_coop s"
    using mc_single_run [of "map_answer ''map''" "\<lambda>x. (Inr (x + 1), 0)" "41::nat"] by (auto simp: map_answer_def mapConcurrent_def)
  with map_concurrent_complete [OF s(1)] show ?thesis by (auto simp: ok_values_def)
qed

text \<open>
  C2: \<^verbatim>\<open>Map\<close> with \<^verbatim>\<open>Concurrency(n)\<close> and \<^verbatim>\<open>Ordered()\<close>: the outputs are in input order at every
  moment before a cancellation, at most \<^verbatim>\<open>n\<close> semaphore tokens and \<^verbatim>\<open>2n\<close> slots are in use, and a
  nil return without outside cancellation or drain means all successful results were sent.
\<close>

theorem map_ordered_in_order:
  assumes "mapOrdered n name process xs s"
  shows "mo_tokens s \<le> n \<and> length (mo_slots s) \<le> 2 * n \<and>
         (\<not> mo_cancelled s \<longrightarrow> prefix (mo_out s) (ok_values process xs)) \<and>
         (mo_returned s = Some None \<and> \<not> mo_outer s \<and> \<not> mo_coop s \<longrightarrow> mo_out s = ok_values process xs)"
  using mo_reach_inv [OF assms [unfolded mapOrdered_def]] mo_order [OF assms [unfolded mapOrdered_def]]
  by (simp add: mo_inv_def)

lemma mo_single_run:
  assumes "answer (process a) = ([v], None, cutoff)"
  shows "\<exists>s. mo_reach True 1 answer process [a] s \<and> mo_returned s = Some None \<and> \<not> mo_outer s \<and> \<not> mo_coop s"
proof -
  let ?s0 = "mo_init [a]"
  let ?s1 = "?s0\<lparr>mo_input := [], mo_phase := MoAcquiring a\<rparr>"
  let ?s2 = "?s1\<lparr>mo_phase := MoEnqueuing a\<rparr>"
  let ?s3 = "?s2\<lparr>mo_phase := MoReceiving, mo_slots := [(a, None)]\<rparr>"
  let ?s4 = "?s3\<lparr>mo_slots := [(a, Some (process a))]\<rparr>"
  let ?s5 = "?s4\<lparr>mo_slots := [], mo_deliver := Holding (a, Some (process a))\<rparr>"
  let ?s6 = "?s5\<lparr>mo_deliver := Delivering [v] cutoff\<rparr>"
  let ?s7 = "?s6\<lparr>mo_deliver := Delivering [] cutoff, mo_out := [v]\<rparr>"
  let ?s8 = "?s7\<lparr>mo_deliver := Idle\<rparr>"
  let ?s9 = "?s8\<lparr>mo_phase := MoStopped\<rparr>"
  let ?s10 = "?s9\<lparr>mo_phase := MoClosed\<rparr>"
  let ?s11 = "?s10\<lparr>mo_deliver := Ended None\<rparr>"
  let ?s12 = "?s11\<lparr>mo_returned := Some None\<rparr>"
  note [simp] = mo_init_def mo_answer_def assms mo_tokens_def
  have "mo_step True 1 answer process ?s0 ?s1" by (rule mo_recv) simp_all
  moreover have "mo_step True 1 answer process ?s1 ?s2" using mo_acquire [of ?s1 a 1 True answer process] by simp
  moreover have "mo_step True 1 answer process ?s2 ?s3" using mo_enqueue [of ?s2 a 1 True answer process] by simp
  moreover have "mo_step True 1 answer process ?s3 ?s4"
    using mo_work [of ?s3 "[]" a "[]" "process a" process True 1 answer] by simp
  moreover have "mo_step True 1 answer process ?s4 ?s5"
    using mo_take [of ?s4 "(a, Some (process a))" "[]" True 1 answer process] by simp
  moreover have "mo_step True 1 answer process ?s5 ?s6" using mo_result [of ?s5 a "process a" True 1 answer process] by simp
  moreover have "mo_step True 1 answer process ?s6 ?s7" using mo_send [of ?s6 v "[]" cutoff True 1 answer process] by simp
  moreover have "mo_step True 1 answer process ?s7 ?s8" using mo_sent [of ?s7 cutoff True 1 answer process] by simp
  moreover have "mo_step True 1 answer process ?s8 ?s9" by (rule mo_closed) simp_all
  moreover have "mo_step True 1 answer process ?s9 ?s10" by (rule mo_close) simp_all
  moreover have "mo_step True 1 answer process ?s10 ?s11" by (rule mo_end) simp_all
  moreover have "mo_step True 1 answer process ?s11 ?s12" by (rule mo_return) simp_all
  ultimately have "mo_reach True 1 answer process [a] ?s12" by (meson mo_reach.intros)
  then show ?thesis by (intro exI [of _ ?s12]) simp
qed

theorem map_ordered_in_order_witness:
  "\<exists>s. mapOrdered 1 ''map'' (\<lambda>x. (Inr (x + 1), 0)) [41::nat] s \<and> mo_out s = [42::nat]"
proof -
  obtain s where s: "mapOrdered 1 ''map'' (\<lambda>x. (Inr (x + 1), 0)) [41::nat] s"
    "mo_returned s = Some None" "\<not> mo_outer s" "\<not> mo_coop s"
    using mo_single_run [of "map_answer ''map''" "\<lambda>x. (Inr (x + 1), 0)" "41::nat"]
    by (auto simp: map_answer_def mapOrdered_def)
  with map_ordered_in_order [OF s(1)] show ?thesis by (auto simp: ok_values_def)
qed

text \<open>
  \<^verbatim>\<open>ForEach\<close> with \<^verbatim>\<open>Concurrency(n)\<close>, ordered or not: a nil return that was not cancelled from
  outside means that the function was called exactly once for every item; at most \<^verbatim>\<open>n\<close> calls run at
  a time.
\<close>

theorem foreach_concurrent_complete:
  assumes "forEachConcurrent n name process xs s" and "forEachOrdered n name process xs so"
  shows "length (mc_running s) \<le> n \<and> mo_tokens so \<le> n \<and>
         (mc_returned s = Some None \<and> \<not> mc_outer s \<longrightarrow> mset (mc_processed s) = mset xs) \<and>
         (mc_returned s \<noteq> None \<and> \<not> mc_outer s \<and> mc_returned s \<noteq> Some None \<longrightarrow> mc_cancelled s)"
proof -
  note inv = mc_reach_inv [OF assms(1) [unfolded forEachConcurrent_def]]
  then have "\<not> mc_coop s" "length (mc_running s) \<le> n" by (auto simp: mc_inv_def)
  moreover have "mc_cancelled s" if "mc_returned s \<noteq> None" "mc_returned s \<noteq> Some None"
    using inv that by (auto simp: mc_inv_def mc_ended_def mc_live_def)
  moreover have "mo_tokens so \<le> n"
    using mo_reach_inv [OF assms(2) [unfolded forEachOrdered_def]] by (simp add: mo_inv_def)
  ultimately show ?thesis
    using mc_complete [OF assms(1) [unfolded forEachConcurrent_def]] by blast
qed

text \<open>
  C38: A cooperative drain makes a concurrent \<^verbatim>\<open>Map\<close> fail: the drain arm cancels the inner context
  that the workers send with, so a worker that has a result at that moment reports
  \<^verbatim>\<open>context.Canceled\<close>, and the stage returns it although no function failed and nothing was
  cancelled. The whole run then fails, as after \<^verbatim>\<open>Take(1)\<close> downstream.
\<close>

theorem drain_reported_as_cancellation:
  assumes "process a = (Inr v, k)" and "0 < n"
  shows "(\<exists>s. mapConcurrent n name process [a, b] s \<and> mc_coop s \<and> \<not> mc_outer s \<and>
              mc_returned s = Some (Some Canceled)) \<and>
         (\<exists>s. mapOrdered n name process [a] s \<and> mo_coop s \<and> \<not> mo_outer s \<and>
              mo_returned s = Some (Some Canceled))"
proof
  let ?c = "map_answer name"
  note [simp] = assms map_answer_def reportErr_def
  let ?s0 = "mc_init [a, b]"
  let ?s1 = "?s0\<lparr>mc_input := [b], mc_phase := McAcquiring a\<rparr>"
  let ?s2 = "?s1\<lparr>mc_phase := McReceiving, mc_running := [a]\<rparr>"
  let ?s3 = "?s2\<lparr>mc_running := [], mc_processed := [a], mc_sending := [([v], Some Canceled)]\<rparr>"
  let ?s4 = "?s3\<lparr>mc_phase := McStopped, mc_coop := True, mc_cancelled := True\<rparr>"
  let ?s5 = "?s4\<lparr>mc_sending := [], mc_err := Some Canceled\<rparr>"
  let ?s6 = "?s5\<lparr>mc_returned := Some (Some Canceled)\<rparr>"
  have "mc_step True n ?c process ?s0 ?s1" by (rule mc_recv) (simp_all add: mc_init_def)
  moreover have "mc_step True n ?c process ?s1 ?s2"
    using mc_acquire [of ?s1 a n True ?c process] by (simp add: mc_init_def)
  moreover have "mc_step True n ?c process ?s2 ?s3"
    using mc_work [of a ?s2 True n ?c process] by (simp add: mc_init_def mc_answer_def)
  moreover have "mc_step True n ?c process ?s3 ?s4" by (rule mc_drain) (simp_all add: mc_init_def)
  moreover have "mc_step True n ?c process ?s4 ?s5"
    using mc_send_cancelled [of v "[]" "Some Canceled" ?s4 True n ?c process] by (simp add: mc_init_def)
  moreover have "mc_step True n ?c process ?s5 ?s6"
    using mc_return [of ?s5 True n ?c process] by (simp add: mc_init_def)
  ultimately have "mc_reach True n ?c process [a, b] ?s6" by (meson mc_reach.intros)
  then show "\<exists>s. mapConcurrent n name process [a, b] s \<and> mc_coop s \<and> \<not> mc_outer s \<and>
              mc_returned s = Some (Some Canceled)"
    by (intro exI [of _ ?s6]) (simp add: mapConcurrent_def mc_init_def)
next
  let ?c = "map_answer name"
  note [simp] = assms map_answer_def mo_init_def mo_answer_def mo_tokens_def slot_running_def
  let ?s0 = "mo_init [a]"
  let ?s1 = "?s0\<lparr>mo_input := [], mo_phase := MoAcquiring a\<rparr>"
  let ?s2 = "?s1\<lparr>mo_phase := MoEnqueuing a\<rparr>"
  let ?s3 = "?s2\<lparr>mo_phase := MoReceiving, mo_slots := [(a, None)]\<rparr>"
  let ?s4 = "?s3\<lparr>mo_slots := [(a, Some (process a))]\<rparr>"
  let ?s5 = "?s4\<lparr>mo_slots := [], mo_deliver := Holding (a, Some (process a))\<rparr>"
  let ?s6 = "?s5\<lparr>mo_deliver := Delivering [v] (Some Canceled)\<rparr>"
  let ?s7 = "?s6\<lparr>mo_phase := MoStopped, mo_coop := True, mo_cancelled := True\<rparr>"
  let ?s8 = "?s7\<lparr>mo_deliver := Ended (Some Canceled)\<rparr>"
  let ?s9 = "?s8\<lparr>mo_phase := MoClosed\<rparr>"
  let ?s10 = "?s9\<lparr>mo_returned := Some (Some Canceled)\<rparr>"
  have "mo_step True n ?c process ?s0 ?s1" by (rule mo_recv) simp_all
  moreover have "mo_step True n ?c process ?s1 ?s2" using mo_acquire [of ?s1 a n True ?c process] by simp
  moreover have "mo_step True n ?c process ?s2 ?s3" using mo_enqueue [of ?s2 a n True ?c process] by simp
  moreover have "mo_step True n ?c process ?s3 ?s4"
    using mo_work [of ?s3 "[]" a "[]" "process a" process True n ?c] by simp
  moreover have "mo_step True n ?c process ?s4 ?s5"
    using mo_take [of ?s4 "(a, Some (process a))" "[]" True n ?c process] by simp
  moreover have "mo_step True n ?c process ?s5 ?s6" using mo_result [of ?s5 a "process a" True n ?c process] by simp
  moreover have "mo_step True n ?c process ?s6 ?s7" by (rule mo_drain) simp_all
  moreover have "mo_step True n ?c process ?s7 ?s8" using mo_send_cancelled [of ?s7 v "[]" "Some Canceled" True n ?c process] by simp
  moreover have "mo_step True n ?c process ?s8 ?s9" by (rule mo_close) simp_all
  moreover have "mo_step True n ?c process ?s9 ?s10" by (rule mo_return) simp_all
  ultimately have "mo_reach True n ?c process [a] ?s10" by (meson mo_reach.intros)
  then show "\<exists>s. mapOrdered n name process [a] s \<and> mo_coop s \<and> \<not> mo_outer s \<and>
              mo_returned s = Some (Some Canceled)"
    by (intro exI [of _ ?s10]) (simp add: mapOrdered_def)
qed

theorem drain_reported_as_cancellation_witness:
  "\<exists>s :: (nat, nat) mc. mapConcurrent 4 ''map'' (\<lambda>x. (Inr x, 0)) [1, 2] s \<and> mc_returned s = Some (Some Canceled)"
  using drain_reported_as_cancellation [of "\<lambda>x. (Inr x, 0)" "1::nat" 1 0 4 "''map''" 2] by auto

end
