(* ===== verification/Fan_Ops.thy ===== *)
theory Fan_Ops
  imports Batch_Ops "HOL-Library.Word"
begin

text \<open>
  Stages with several inputs or outputs that are one loop: \<^verbatim>\<open>Zip\<close>, \<^verbatim>\<open>LatestFrom\<close> and
  \<^verbatim>\<open>SampleWith\<close> (\<^verbatim>\<open>fan_combine.go\<close>), \<^verbatim>\<open>Partition\<close>, \<^verbatim>\<open>Broadcast\<close>, \<^verbatim>\<open>Balance\<close> and
  \<^verbatim>\<open>KeyedBalance\<close> (\<^verbatim>\<open>fan_out.go\<close>), \<^verbatim>\<open>Unzip\<close> (\<^verbatim>\<open>misc.go\<close>). A send of a fan-out stage is a
  pair of the output's index and the item; \<^verbatim>\<open>on_output\<close> is what one output carries.

  \<^verbatim>\<open>Merge\<close> and \<^verbatim>\<open>CombineLatest\<close> run several goroutines and are in \<^verbatim>\<open>Concurrent_Ops\<close>.
\<close>

section \<open>Zip\<close>

datatype ('a, 'b) either_recv = FromA "'a recv" | FromB "'b recv"

text \<open>\<^verbatim>\<open>Some av\<close>: a value from \<^verbatim>\<open>a\<close> is held and the stage waits for \<^verbatim>\<open>b\<close>.\<close>

fun zip_step ::
  "string \<Rightarrow> ('a \<Rightarrow> 'b \<Rightarrow> 'o result) \<Rightarrow> 'a option \<Rightarrow> ('a, 'b) either_recv \<Rightarrow> ('a option, 'o) act" where
  "zip_step name fn st (FromA Closed) = Act [] (Return None)"
| "zip_step name fn st (FromA (Item v)) = Act [] (Continue (Some v))"
| "zip_step name fn st (FromB Closed) = Act [] (Return None)"
| "zip_step name fn None (FromB (Item v)) = Act [] (Continue None)"
| "zip_step name fn (Some av) (FromB (Item bv)) =
     (case fn av bv of
        Inl err \<Rightarrow> Act [] (Return (WrapStageErr name (Some err) 0))
      | Inr result \<Rightarrow> Act [result] (Continue None))"

fun zip_listens :: "'a option \<Rightarrow> ('a, 'b) either_recv \<Rightarrow> bool" where
  "zip_listens None (FromA _) = True"
| "zip_listens (Some _) (FromB _) = True"
| "zip_listens _ _ = False"

definition zip_loop :: "string \<Rightarrow> ('a \<Rightarrow> 'b \<Rightarrow> 'o result) \<Rightarrow> ('a option, ('a, 'b) either_recv, 'o) loop" where
  "zip_loop name fn = (select_loop None (zip_step name fn))\<lparr>loop_listens := zip_listens\<rparr>"

definition ZipWith ::
  "('c, 'v) stage_config \<Rightarrow> stage_id \<Rightarrow> stage_id \<Rightarrow> stage_id \<Rightarrow> ('a \<Rightarrow> 'b \<Rightarrow> 'o result) \<Rightarrow>
   ('a option, ('a, 'b) either_recv, 'o) operator" where
  "ZipWith cfg i a b fn = binary ''zip'' cfg i a b False (zip_loop (cfg_name cfg) fn)"

definition Zip ::
  "stage_id \<Rightarrow> stage_id \<Rightarrow> stage_id \<Rightarrow> ('a option, ('a, 'b) either_recv, 'a \<times> 'b) operator" where
  "Zip i a b = ZipWith (buildStageConfig [] :: (unit, unit) stage_config) i a b (\<lambda>av bv. Inr (av, bv))"

lemma zip_loop_sel [simp]:
  "loop_init (zip_loop name fn) = None"
  "loop_head (zip_loop name fn) = (\<lambda>_. None)"
  "loop_step (zip_loop name fn) = zip_step name fn"
  "loop_listens (zip_loop name fn) = zip_listens"
  by (simp_all add: zip_loop_def)

text \<open>
  The events a zip stage can receive from two inputs, in the only order its listening
  allows: alternately, ending at the first end found.
\<close>

fun alternate :: "'a list \<Rightarrow> 'b list \<Rightarrow> ('a, 'b) either_recv list" where
  "alternate [] ys = [FromA Closed]"
| "alternate (x # xs) [] = [FromA (Item x), FromB Closed]"
| "alternate (x # xs) (y # ys) = FromA (Item x) # FromB (Item y) # alternate xs ys"

text \<open>What is received of each input.\<close>

fun recvs_a :: "('a, 'b) either_recv list \<Rightarrow> 'a recv list" where
  "recvs_a [] = []"
| "recvs_a (FromA r # es) = r # recvs_a es"
| "recvs_a (FromB r # es) = recvs_a es"

fun recvs_b :: "('a, 'b) either_recv list \<Rightarrow> 'b recv list" where
  "recvs_b [] = []"
| "recvs_b (FromA r # es) = recvs_b es"
| "recvs_b (FromB r # es) = r # recvs_b es"

lemma exec_zip_alternate:
  "exec (zip_loop name (\<lambda>a b. Inr (f a b))) None (alternate xs ys) = (map2 f xs ys, Return None)"
  by (induction xs ys rule: alternate.induct) auto

lemma zip_heard_alternates:
  assumes "heard (zip_loop name (\<lambda>a b. Inr (f a b))) None es"
    and "snd (exec (zip_loop name (\<lambda>a b. Inr (f a b))) None es) = Return r"
    and "prefix (recvs_a es) (closing xs)" and "prefix (recvs_b es) (closing ys)"
  shows "es = alternate xs ys"
  using assms
proof (induction xs ys arbitrary: es rule: alternate.induct)
  case (1 ys)
  then obtain e es' where es: "es = e # es'" by (cases es) (auto simp: settle_def)
  with 1 obtain ra where "e = FromA ra" by (cases e) auto
  with es 1 show ?case by (cases ra) auto
next
  case (2 x xs)
  then obtain e es' where es: "es = e # es'" by (cases es) (auto simp: settle_def)
  with 2 have e: "e = FromA (Item x)" by (cases e; cases "recvs_a [e]") (auto split: recv.splits)
  with es 2 obtain e2 es2 where es': "es' = e2 # es2" by (cases es') (auto simp: settle_def)
  with es e 2 obtain rb where "e2 = FromB rb" by (cases e2) auto
  with es e es' 2 show ?case by (cases rb) auto
next
  case (3 x xs y ys)
  then obtain e es' where es: "es = e # es'" by (cases es) (auto simp: settle_def)
  with 3 have e: "e = FromA (Item x)" by (cases e; cases "recvs_a [e]") (auto split: recv.splits)
  with es 3 obtain e2 es2 where es': "es' = e2 # es2" by (cases es') (auto simp: settle_def)
  with es e 3 have "e2 = FromB (Item y)" by (cases e2) auto
  with es e es' 3 show ?case by (auto simp: case_prod_beta)
qed

section \<open>LatestFrom\<close>

text \<open>
  The helper goroutine stores each value of \<^verbatim>\<open>other\<close> under the mutex: one atomic step, the
  event \<^verbatim>\<open>FromB\<close>. Its end has no effect on the stage.
\<close>

fun latest_from_step ::
  "string \<Rightarrow> ('a \<Rightarrow> 'b \<Rightarrow> 'o result) \<Rightarrow> 'b option \<Rightarrow> ('a, 'b) either_recv \<Rightarrow> ('b option, 'o) act" where
  "latest_from_step name fn lat (FromA Closed) = Act [] (Return None)"
| "latest_from_step name fn lat (FromA (Item av)) =
     (case lat of
        None \<Rightarrow> Act [] (Continue lat)
      | Some bv \<Rightarrow>
          (case fn av bv of
             Inl err \<Rightarrow> Act [] (Return (WrapStageErr name (Some err) 0))
           | Inr result \<Rightarrow> Act [result] (Continue lat)))"
| "latest_from_step name fn lat (FromB (Item v)) = Act [] (Continue (Some v))"
| "latest_from_step name fn lat (FromB Closed) = Act [] (Continue lat)"

definition LatestFromWith ::
  "('c, 'v) stage_config \<Rightarrow> stage_id \<Rightarrow> stage_id \<Rightarrow> stage_id \<Rightarrow> ('a \<Rightarrow> 'b \<Rightarrow> 'o result) \<Rightarrow>
   ('b option, ('a, 'b) either_recv, 'o) operator" where
  "LatestFromWith cfg i a b fn =
     binary ''latest_from'' cfg i a b False (select_loop None (latest_from_step (cfg_name cfg) fn))"

fun latest_pairs :: "'b option \<Rightarrow> ('a, 'b) either_recv list \<Rightarrow> ('a \<times> 'b) list" where
  "latest_pairs lat [] = []"
| "latest_pairs lat (FromA Closed # es) = []"
| "latest_pairs lat (FromA (Item a) # es) =
     (case lat of None \<Rightarrow> [] | Some b \<Rightarrow> [(a, b)]) @ latest_pairs lat es"
| "latest_pairs lat (FromB (Item b) # es) = latest_pairs (Some b) es"
| "latest_pairs lat (FromB Closed # es) = latest_pairs lat es"

lemma exec_latest_from:
  "fst (exec (select_loop s0 (latest_from_step name (\<lambda>a b. Inr (a, b)))) lat es) = latest_pairs lat es"
  by (induction lat es rule: latest_pairs.induct) (auto simp: case_prod_beta split: option.splits)

section \<open>SampleWith\<close>

text \<open>
  \<^verbatim>\<open>FromA\<close> events are the helper goroutine's atomic updates from the source, \<^verbatim>\<open>FromB\<close> the
  sampler's. \<^verbatim>\<open>sv_latest\<close> is \<^verbatim>\<open>None\<close> when \<^verbatim>\<open>hasLatest\<close> is false.
\<close>

record 'a sample_vars =
  sv_latest :: "'a option"
  sv_src_done :: bool

fun sample_step :: "'a sample_vars \<Rightarrow> ('a, 'b) either_recv \<Rightarrow> ('a sample_vars, 'a) act" where
  "sample_step v (FromA (Item x)) = Act [] (Continue (v\<lparr>sv_latest := Some x\<rparr>))"
| "sample_step v (FromA Closed) = Act [] (Continue (v\<lparr>sv_src_done := True\<rparr>))"
| "sample_step v (FromB Closed) = Act [] (Return None)"
| "sample_step v (FromB (Item _)) =
     (case sv_latest v of
        None \<Rightarrow> if sv_src_done v then Act [] (Return None) else Act [] (Continue v)
      | Some x \<Rightarrow>
          if sv_src_done v then Act [x] (Return None) else Act [x] (Continue (v\<lparr>sv_latest := None\<rparr>)))"

definition SampleWith ::
  "('c, 'v) stage_config \<Rightarrow> stage_id \<Rightarrow> stage_id \<Rightarrow> stage_id \<Rightarrow>
   ('a sample_vars, ('a, 'b) either_recv, 'a) operator" where
  "SampleWith cfg i p sampler =
     binary ''sample_with'' cfg i p sampler False
       (select_loop \<lparr>sv_latest = None, sv_src_done = False\<rparr> sample_step)"

text \<open>Items of the source, in the order they were stored.\<close>

fun a_items :: "('a, 'b) either_recv list \<Rightarrow> 'a list" where
  "a_items [] = []"
| "a_items (FromA (Item x) # es) = x # a_items es"
| "a_items (_ # es) = a_items es"

lemma exec_sample_subseq:
  "subseq (fst (exec (select_loop s0 sample_step) v es))
     ((case sv_latest v of None \<Rightarrow> [] | Some x \<Rightarrow> [x]) @ a_items es)"
proof (induction es arbitrary: v)
  case (Cons e es)
  show ?case
  proof (cases "(v, e)" rule: sample_step.cases)
    case (1 v' x)
    with Cons [of "v\<lparr>sv_latest := Some x\<rparr>"] show ?thesis
      by (auto simp: case_prod_beta intro: list_emb_append2 split: option.splits)
  next
    case (2 v')
    with Cons [of "v\<lparr>sv_src_done := True\<rparr>"] show ?thesis by (simp add: case_prod_beta)
  next
    case (4 v' y)
    with Cons [of v] Cons [of "v\<lparr>sv_latest := None\<rparr>"] show ?thesis
      by (auto simp: case_prod_beta split: option.splits)
  qed auto
qed simp

section \<open>Fan-out\<close>

definition on_output :: "nat \<Rightarrow> (nat \<times> 'a) list \<Rightarrow> 'a list" where
  "on_output k os = map snd (filter (\<lambda>p. fst p = k) os)"

lemma on_output_simps [simp]:
  "on_output k [] = []"
  "on_output k ((j, x) # os) = (if j = k then x # on_output k os else on_output k os)"
  "on_output k (os @ os') = on_output k os @ on_output k os'"
  by (simp_all add: on_output_def)

text \<open>\<^verbatim>\<open>digit i\<close> is \<^verbatim>\<open>string(rune('0'+i))\<close>, the one-character string the code appends.\<close>

definition digit :: "nat \<Rightarrow> string" where
  "digit i = [char_of (48 + i)]"

definition fan_out ::
  "string \<Rightarrow> ('a, 'v) stage_config \<Rightarrow> stage_id list \<Rightarrow> stage_id \<Rightarrow> ('s, 'e, 'o) loop \<Rightarrow> ('s, 'e, 'o) operator" where
  "fan_out kind cfg ids p body =
     \<lparr>op_outs = ids, op_meta = stageMeta (hd ids) kind (orDefault (cfg_name cfg) kind) (cfg_buffer cfg) [p],
      op_buffer = config_buffer cfg, op_upstream = [p], op_signals_done = False, op_loop = body\<rparr>"

definition branch_name :: "string \<Rightarrow> ('a, 'v) stage_config \<Rightarrow> nat \<Rightarrow> string" where
  "branch_name kind cfg i =
     (let name = orDefault (cfg_name cfg) kind in if i > 0 then name @ ''_'' @ digit i else name)"

fun partition_step :: "('a \<Rightarrow> bool) \<Rightarrow> unit \<Rightarrow> 'a recv \<Rightarrow> (unit, nat \<times> 'a) act" where
  "partition_step pred u Closed = Act [] (Return None)"
| "partition_step pred u (Item item) = Act [if pred item then (0, item) else (1, item)] (Continue ())"

definition Partition ::
  "('c, 'v) stage_config \<Rightarrow> stage_id \<Rightarrow> stage_id \<Rightarrow> stage_id \<Rightarrow> ('a \<Rightarrow> bool) \<Rightarrow> (unit, 'a recv, nat \<times> 'a) operator" where
  "Partition cfg i falseID p pred =
     fan_out ''partition'' cfg [i, falseID] p (select_loop () (partition_step pred))"

interpretation partition: transducer "partition_step pred" "()" "\<lambda>_ _. ()"
    "\<lambda>_ x. [if pred x then (0, x) else (1, x)]" "\<lambda>_. []"
  for pred :: "'a \<Rightarrow> bool"
  by unfold_locales simp_all

fun broadcast_step :: "nat \<Rightarrow> unit \<Rightarrow> 'a recv \<Rightarrow> (unit, nat \<times> 'a) act" where
  "broadcast_step n u Closed = Act [] (Return None)"
| "broadcast_step n u (Item item) = Act (map (\<lambda>i. (i, item)) [0..<n]) (Continue ())"

text \<open>\<^verbatim>\<open>None\<close> is the panic for fewer than two outputs.\<close>

definition Broadcast ::
  "('c, 'v) stage_config \<Rightarrow> stage_id list \<Rightarrow> stage_id \<Rightarrow> (unit, 'a recv, nat \<times> 'a) operator option" where
  "Broadcast cfg ids p =
     (if length ids < 2 then None
      else Some (fan_out ''broadcast'' cfg ids p (select_loop () (broadcast_step (length ids)))))"

interpretation broadcast: transducer "broadcast_step n" "()" "\<lambda>_ _. ()"
    "\<lambda>_ x. map (\<lambda>i. (i, x)) [0..<n]" "\<lambda>_. []"
  for n :: nat
  by unfold_locales simp_all

fun balance_step :: "nat \<Rightarrow> nat \<Rightarrow> 'a recv \<Rightarrow> (nat, nat \<times> 'a) act" where
  "balance_step n idx Closed = Act [] (Return None)"
| "balance_step n idx (Item item) = Act [(idx mod n, item)] (Continue (Suc idx))"

definition Balance ::
  "('c, 'v) stage_config \<Rightarrow> stage_id list \<Rightarrow> stage_id \<Rightarrow> (nat, 'a recv, nat \<times> 'a) operator" where
  "Balance cfg ids p = fan_out ''balance'' cfg ids p (select_loop 0 (balance_step (length ids)))"

interpretation balance: transducer "balance_step n" 0 "\<lambda>idx _. Suc idx" "\<lambda>idx x. [(idx mod n, x)]" "\<lambda>_. []"
  for n :: nat
  by unfold_locales simp_all

text \<open>FNV-1a over the bytes of the key, on 32-bit words.\<close>

unbundle bit_operations_syntax

definition fnv32str :: "8 word list \<Rightarrow> 32 word" where
  "fnv32str s = foldl (\<lambda>h b. (h XOR ucast b) * 16777619) 2166136261 s"

definition key_shard :: "nat \<Rightarrow> 8 word list \<Rightarrow> nat" where
  "key_shard n key = unat (fnv32str key mod word_of_nat n)"

fun keyed_balance_step :: "nat \<Rightarrow> ('a \<Rightarrow> 8 word list) \<Rightarrow> unit \<Rightarrow> 'a recv \<Rightarrow> (unit, nat \<times> 'a) act" where
  "keyed_balance_step n keyFn u Closed = Act [] (Return None)"
| "keyed_balance_step n keyFn u (Item item) = Act [(key_shard n (keyFn item), item)] (Continue ())"

definition KeyedBalance ::
  "('c, 'v) stage_config \<Rightarrow> stage_id list \<Rightarrow> stage_id \<Rightarrow> ('a \<Rightarrow> 8 word list) \<Rightarrow>
   (unit, 'a recv, nat \<times> 'a) operator" where
  "KeyedBalance cfg ids p keyFn =
     fan_out ''keyed_balance'' cfg ids p (select_loop () (keyed_balance_step (length ids) keyFn))"

interpretation keyed_balance: transducer "keyed_balance_step n keyFn" "()" "\<lambda>_ _. ()"
    "\<lambda>_ x. [(key_shard n (keyFn x), x)]" "\<lambda>_. []"
  for n :: nat and keyFn :: "'a \<Rightarrow> 8 word list"
  by unfold_locales simp_all

lemma key_shard_bound:
  assumes "0 < n" and "n < 2 ^ 32" shows "key_shard n key < n"
proof -
  have "unat (word_of_nat n :: 32 word) = n" using assms(2) by (simp add: unat_of_nat)
  moreover have "unat (fnv32str key mod word_of_nat n) = unat (fnv32str key) mod unat (word_of_nat n :: 32 word)"
    by (simp add: unat_mod_distrib)
  ultimately show ?thesis using assms(1) by (simp add: key_shard_def)
qed

text \<open>Every router sends each item once: dropping the output indices gives the input back.\<close>

lemma emissions_route:
  "(\<And>s x. out s x = [(route s x, x)]) \<Longrightarrow> map snd (emissions nxt out s xs) = xs"
  by (induction xs arbitrary: s) auto

lemma emissions_partition:
  "on_output 0 (emissions (\<lambda>_ _. ()) (\<lambda>_ x. [if pred x then (0, x) else (1, x)]) u xs) = filter pred xs \<and>
   on_output 1 (emissions (\<lambda>_ _. ()) (\<lambda>_ x. [if pred x then (0, x) else (1, x)]) u xs) = filter (\<lambda>x. \<not> pred x) xs"
  by (induction xs arbitrary: u) auto

lemma on_output_broadcast: "on_output k (map (\<lambda>i. (i, x)) [0..<n]) = (if k < n then [x] else [])"
  by (induction n) (auto simp: on_output_def)

lemma emissions_broadcast:
  "on_output k (emissions (\<lambda>_ _. ()) (\<lambda>_ x. map (\<lambda>i. (i, x)) [0..<n]) u xs) = (if k < n then xs else [])"
  by (induction xs arbitrary: u) (auto simp: on_output_broadcast)

lemma emissions_balance:
  "on_output k (emissions (\<lambda>idx _. Suc idx) (\<lambda>idx x. [(idx mod n, x)]) idx xs) =
     map snd (filter (\<lambda>(i, x). i mod n = k) (enumerate idx xs))"
  by (induction xs arbitrary: idx) auto

lemma emissions_keyed:
  "on_output k (emissions (\<lambda>_ _. ()) (\<lambda>_ x. [(key_shard n (keyFn x), x)]) u xs) =
     filter (\<lambda>x. key_shard n (keyFn x) = k) xs"
  by (induction xs arbitrary: u) auto

section \<open>Unzip\<close>

fun unzip_step :: "unit \<Rightarrow> ('a \<times> 'b) recv \<Rightarrow> (unit, 'a + 'b) act" where
  "unzip_step u Closed = Act [] (Return None)"
| "unzip_step u (Item pair) = Act [Inl (fst pair), Inr (snd pair)] (Continue ())"

definition Unzip ::
  "('c, 'v) stage_config \<Rightarrow> stage_id \<Rightarrow> stage_id \<Rightarrow> stage_id \<Rightarrow> (unit, ('a \<times> 'b) recv, 'a + 'b) operator" where
  "Unzip cfg aID bID p = fan_out ''unzip'' cfg [aID, bID] p (select_loop () unzip_step)"

interpretation unzip: transducer unzip_step "()" "\<lambda>_ _. ()" "\<lambda>_ p. [Inl (fst p), Inr (snd p)]" "\<lambda>_. []"
  by unfold_locales simp_all

fun lefts :: "('a + 'b) list \<Rightarrow> 'a list" where
  "lefts [] = []" | "lefts (Inl a # ps) = a # lefts ps" | "lefts (Inr _ # ps) = lefts ps"

fun rights :: "('a + 'b) list \<Rightarrow> 'b list" where
  "rights [] = []" | "rights (Inl _ # ps) = rights ps" | "rights (Inr b # ps) = b # rights ps"

lemma emissions_unzip:
  "lefts (emissions (\<lambda>_ _. ()) (\<lambda>_ p. [Inl (fst p), Inr (snd p)]) u ps) = map fst ps \<and>
   rights (emissions (\<lambda>_ _. ()) (\<lambda>_ p. [Inl (fst p), Inr (snd p)]) u ps) = map snd ps"
  by (induction ps arbitrary: u) auto

section \<open>Properties of the fan-in and fan-out stages\<close>

text \<open>
  However the arrivals of its two inputs are interleaved in time, a \<^verbatim>\<open>ZipWith\<close> stage that has
  returned undisturbed, with an infallible function, has sent the pairwise results up to the length
  of the shorter input, and returned no error.
\<close>

theorem zip_pairs_any_schedule:
  assumes "run (op_loop (ZipWith cfg i a b (\<lambda>x y. Inr (f x y)))) (start (op_loop (ZipWith cfg i a b (\<lambda>x y. Inr (f x y))))) ls
             = Some (Exited r c)"
    and "undisturbed ls" and "prefix (recvs_a (received ls)) (closing xs)" and "prefix (recvs_b (received ls)) (closing ys)"
  shows "sent ls = map2 f xs ys \<and> r = None \<and> received ls = alternate xs ys"
proof -
  let ?m = "zip_loop (cfg_name cfg) (\<lambda>x y. Inr (f x y))"
  have m: "op_loop (ZipWith cfg i a b (\<lambda>x y. Inr (f x y))) = ?m" by (simp add: ZipWith_def binary_def)
  have ends: "outputs ?m (received ls) = sent ls" "returns ?m (received ls) = Return r"
    using run_complete [OF assms(1) [unfolded m] assms(2), of "[]"] by simp_all
  then have ev: "received ls = alternate xs ys"
    using zip_heard_alternates [OF run_heard [OF assms(1) [unfolded m] assms(2), simplified]] assms(3,4)
    by (simp add: returns_def)
  with ends exec_zip_alternate [of "cfg_name cfg" f xs ys] show ?thesis
    by (simp add: outputs_def returns_def)
qed

theorem zip_pairs_any_schedule_witness:
  "run (op_loop (ZipWith (buildStageConfig [] :: (nat, nat) stage_config) 3 1 2 (\<lambda>x y. Inr (x + y))))
     (start (op_loop (ZipWith (buildStageConfig [] :: (nat, nat) stage_config) 3 1 2 (\<lambda>x y. Inr (x + y)))))
     [Ev (FromA (Item 1)), Ev (FromB (Item 2)), Sent 3, Ev (FromA Closed)] = Some (Exited None False) \<and>
   [3] = map2 (+) [1] [2, 5::nat]"
  using zip_pairs_any_schedule [of "buildStageConfig [] :: (nat, nat) stage_config" 3 1 2 "(+)"
      "[Ev (FromA (Item 1)), Ev (FromB (Item 2)), Sent 3, Ev (FromA Closed)]" None False "[1]" "[2, 5::nat]"]
  by (simp add: ZipWith_def binary_def start_def enter_Continue)

text \<open>
  Fan-out routing. \<^verbatim>\<open>Broadcast\<close> sends every item to each of its outputs; \<^verbatim>\<open>Balance\<close> sends item
  \<^verbatim>\<open>j\<close> to output \<^verbatim>\<open>j mod n\<close> only; \<^verbatim>\<open>KeyedBalance\<close> sends every item to exactly one output below \<^verbatim>\<open>n\<close>,
  chosen by its key alone and so the same for equal keys, in order.
\<close>

theorem fan_out_routing:
  assumes "0 < length ids" and "length ids < 2 ^ 32" and "Broadcast cfg ids p = Some stage" and "k < length ids"
  shows "on_output k (outputs (op_loop stage) (closing xs)) = xs \<and>
         on_output k (outputs (op_loop (Balance cfg ids p)) (closing xs)) =
           map snd (filter (\<lambda>(j, x). j mod length ids = k) (enumerate 0 xs)) \<and>
         on_output k (outputs (op_loop (KeyedBalance cfg ids p keyFn)) (closing xs)) =
           filter (\<lambda>x. key_shard (length ids) (keyFn x) = k) xs \<and>
         (\<forall>x. key_shard (length ids) (keyFn x) < length ids)"
  using assms
  by (auto simp: Broadcast_def Balance_def KeyedBalance_def fan_out_def broadcast.outputs_closing
      balance.outputs_closing keyed_balance.outputs_closing emissions_broadcast emissions_balance emissions_keyed
      key_shard_bound split: if_splits)

theorem fan_out_routing_witness:
  "on_output 1 (outputs (op_loop (Balance (buildStageConfig [] :: (nat, nat) stage_config) [8, 9] 7)) (closing ''abc'')) = ''b''"
  (is "on_output 1 (outputs (op_loop (Balance ?cfg _ _)) _) = _")
proof -
  obtain stage where st: "Broadcast ?cfg [8, 9] 7 = Some (stage :: (unit, char recv, nat \<times> char) operator)"
    by (simp add: Broadcast_def)
  from fan_out_routing [OF _ _ st, of 1 "''abc''" "\<lambda>_. []"] show ?thesis
    by (simp del: closing_simps)
qed

end
