(* ===== verification/Concurrent_Ops.thy ===== *)
theory Concurrent_Ops
  imports Fan_Ops
begin

text \<open>
  The fan-in stages that run a goroutine per input: \<^verbatim>\<open>Merge\<close> (\<^verbatim>\<open>fan_out.go\<close>) and
  \<^verbatim>\<open>CombineLatest\<close> (\<^verbatim>\<open>fan_combine.go\<close>), as step relations over the goroutines' atomic actions.
\<close>

section \<open>Merge\<close>

text \<open>
  Per input: what it will still deliver, the item its worker has taken but not sent, whether
  the worker has returned. Sends carry the index of their input. \<^verbatim>\<open>mg_outer\<close> is \<^verbatim>\<open>ctx.Err()\<close>. The
  deferred \<^verbatim>\<open>close(ch)\<close> is a step of its own after the return; a worker that sends after it panics.
\<close>

record 'a merge =
  mg_rest :: "'a list list"
  mg_hand :: "'a option list"
  mg_done :: "bool list"
  mg_out :: "(nat \<times> 'a) list"
  mg_inner_cancelled :: bool
  mg_outer :: "go_error option"
  mg_coop :: bool
  mg_returned :: "go_error option option"
  mg_closed :: bool
  mg_panicked :: bool

definition merge_init :: "'a list list \<Rightarrow> 'a merge" where
  "merge_init xss =
     \<lparr>mg_rest = xss, mg_hand = replicate (length xss) None, mg_done = replicate (length xss) False,
      mg_out = [], mg_inner_cancelled = False, mg_outer = None, mg_coop = False, mg_returned = None,
      mg_closed = False, mg_panicked = False\<rparr>"

definition merge_cancelled :: "'a merge \<Rightarrow> bool" where
  "merge_cancelled s \<longleftrightarrow> mg_inner_cancelled s \<or> mg_outer s \<noteq> None"

inductive merge_step :: "'a merge \<Rightarrow> 'a merge \<Rightarrow> bool" where
  merge_recv: "i < length (mg_rest s) \<Longrightarrow> \<not> mg_done s ! i \<Longrightarrow> mg_hand s ! i = None \<Longrightarrow> mg_rest s ! i = x # xs \<Longrightarrow>
     merge_step s (s\<lparr>mg_rest := (mg_rest s)[i := xs], mg_hand := (mg_hand s)[i := Some x]\<rparr>)"
| merge_closed: "i < length (mg_rest s) \<Longrightarrow> \<not> mg_done s ! i \<Longrightarrow> mg_hand s ! i = None \<Longrightarrow> mg_rest s ! i = [] \<Longrightarrow>
     merge_step s (s\<lparr>mg_done := (mg_done s)[i := True]\<rparr>)"
| merge_send: "i < length (mg_rest s) \<Longrightarrow> \<not> mg_done s ! i \<Longrightarrow> mg_hand s ! i = Some x \<Longrightarrow> \<not> mg_closed s \<Longrightarrow>
     merge_step s (s\<lparr>mg_hand := (mg_hand s)[i := None], mg_out := mg_out s @ [(i, x)]\<rparr>)"
| merge_worker_cancelled: "i < length (mg_rest s) \<Longrightarrow> \<not> mg_done s ! i \<Longrightarrow> merge_cancelled s \<Longrightarrow>
     merge_step s (s\<lparr>mg_done := (mg_done s)[i := True]\<rparr>)"
| merge_all_done: "mg_returned s = None \<Longrightarrow> (\<forall>d \<in> set (mg_done s). d) \<Longrightarrow> mg_coop s = False \<Longrightarrow>
     merge_step s (s\<lparr>mg_returned := Some (mg_outer s)\<rparr>)"
| merge_drain: "mg_returned s = None \<Longrightarrow> merge_step s (s\<lparr>mg_coop := True, mg_inner_cancelled := True\<rparr>)"
| merge_drained: "mg_returned s = None \<Longrightarrow> (\<forall>d \<in> set (mg_done s). d) \<Longrightarrow> mg_coop s \<Longrightarrow>
     merge_step s (s\<lparr>mg_returned := Some None\<rparr>)"
| merge_outer_cancel: "mg_outer s = None \<Longrightarrow> merge_step s (s\<lparr>mg_outer := Some e\<rparr>)"
| merge_close: "mg_returned s \<noteq> None \<Longrightarrow> \<not> mg_closed s \<Longrightarrow> merge_step s (s\<lparr>mg_closed := True\<rparr>)"
| merge_panic: "i < length (mg_rest s) \<Longrightarrow> \<not> mg_done s ! i \<Longrightarrow> mg_hand s ! i = Some x \<Longrightarrow> mg_closed s \<Longrightarrow>
     merge_step s (s\<lparr>mg_panicked := True\<rparr>)"

inductive merge_reach :: "'a list list \<Rightarrow> 'a merge \<Rightarrow> bool" for xss where
  merge_start: "merge_reach xss (merge_init xss)"
| merge_next: "merge_reach xss s \<Longrightarrow> merge_step s s' \<Longrightarrow> merge_reach xss s'"

definition hand_list :: "'a option \<Rightarrow> 'a list" where
  "hand_list h = (case h of None \<Rightarrow> [] | Some x \<Rightarrow> [x])"

lemma hand_list_simps [simp]: "hand_list None = []" "hand_list (Some x) = [x]"
  by (simp_all add: hand_list_def)

text \<open>Per input, in order: sent, held, to come. Holds whatever is cancelled.\<close>

definition merge_inv :: "'a list list \<Rightarrow> 'a merge \<Rightarrow> bool" where
  "merge_inv xss s \<longleftrightarrow>
     length (mg_rest s) = length xss \<and> length (mg_hand s) = length xss \<and> length (mg_done s) = length xss
     \<and> (\<forall>i < length xss. on_output i (mg_out s) @ hand_list (mg_hand s ! i) @ mg_rest s ! i = xss ! i)
     \<and> (\<forall>p \<in> set (mg_out s). fst p < length xss)
     \<and> (\<not> merge_cancelled s \<longrightarrow> (\<forall>i < length xss. mg_done s ! i \<longrightarrow> mg_hand s ! i = None \<and> mg_rest s ! i = []))
     \<and> (mg_coop s \<longrightarrow> mg_inner_cancelled s) \<and> (mg_inner_cancelled s \<longrightarrow> mg_coop s)
     \<and> (mg_returned s \<noteq> None \<longrightarrow> (\<forall>d \<in> set (mg_done s). d))
     \<and> (mg_closed s \<longrightarrow> mg_returned s \<noteq> None) \<and> \<not> mg_panicked s"

lemma merge_inv_init: "merge_inv xss (merge_init xss)"
  by (auto simp: merge_inv_def merge_init_def)

lemma merge_live:
  assumes "merge_inv xss s" and "i < length (mg_rest s)" and "\<not> mg_done s ! i"
  shows "mg_returned s = None"
proof (rule ccontr)
  assume "mg_returned s \<noteq> None"
  with assms(1) have "\<forall>d \<in> set (mg_done s). d" and "length (mg_done s) = length (mg_rest s)"
    unfolding merge_inv_def by (blast, simp)
  with assms(2,3) show False by (metis nth_mem)
qed

lemma merge_step_inv: "merge_step s s' \<Longrightarrow> merge_inv xss s \<Longrightarrow> merge_inv xss s'"
proof (induction rule: merge_step.induct)
  case (merge_recv i s x xs)
  then have "on_output i (mg_out s) @ x # xs = xss ! i" by (auto simp: merge_inv_def)
  with merge_recv show ?case
    by (auto simp: merge_inv_def nth_list_update merge_cancelled_def)
next
  case (merge_closed i s)
  then have "mg_returned s = None" by (simp add: merge_live)
  with merge_closed show ?case
    by (auto simp: merge_inv_def nth_list_update merge_cancelled_def)
next
  case (merge_send i s x)
  then have "on_output i (mg_out s) @ x # mg_rest s ! i = xss ! i" by (auto simp: merge_inv_def)
  with merge_send show ?case
    by (auto simp: merge_inv_def nth_list_update merge_cancelled_def)
next
  case (merge_worker_cancelled i s)
  then have "mg_returned s = None" by (simp add: merge_live)
  with merge_worker_cancelled show ?case
    by (auto simp: merge_inv_def merge_cancelled_def)
next
  case (merge_panic i s x)
  then have "mg_returned s = None" by (simp add: merge_live)
  with merge_panic show ?case by (auto simp: merge_inv_def)
next
  case (merge_close s)
  then show ?case by (simp add: merge_inv_def merge_cancelled_def) blast
qed (auto simp: merge_inv_def merge_cancelled_def)

lemma merge_reach_inv: "merge_reach xss s \<Longrightarrow> merge_inv xss s"
  by (induction rule: merge_reach.induct) (auto intro: merge_inv_init merge_step_inv)

text \<open>A merge that returned nil undrained carried every input whole.\<close>

lemma merge_complete:
  assumes "merge_reach xss s" and "mg_returned s = Some r" and "\<not> mg_coop s" and "mg_outer s = None"
    and "i < length xss"
  shows "on_output i (mg_out s) = xss ! i"
proof -
  from merge_reach_inv [OF assms(1)] have inv: "merge_inv xss s" .
  with assms have "\<not> merge_cancelled s" "mg_done s ! i"
    by (auto simp: merge_inv_def merge_cancelled_def)
  with inv assms(5) have "mg_hand s ! i = None" "mg_rest s ! i = []" by (auto simp: merge_inv_def)
  with inv assms(5) show ?thesis by (fastforce simp: merge_inv_def)
qed

section \<open>CombineLatest\<close>

text \<open>
  Two goroutines share the latest values under a mutex (one atomic update each) and send
  outside it; the stage function reads at most two results from \<^verbatim>\<open>errCh\<close> and closes the output
  channel when it returns, whether or not both goroutines have ended. \<^verbatim>\<open>cl_panicked\<close> records a
  send on the closed channel.
\<close>

datatype 'o worker = Waiting | WantsSend 'o | Finished

record ('a, 'b, 'o) combine =
  cl_in_a :: "'a list"
  cl_in_b :: "'b list"
  cl_lat_a :: "'a option"
  cl_lat_b :: "'b option"
  cl_worker_a :: "'o worker"
  cl_worker_b :: "'o worker"
  cl_errs :: "go_error option list"
  cl_read :: nat
  cl_out :: "'o list"
  cl_ctx :: "go_error option"
  cl_coop :: bool
  cl_returned :: "go_error option option"
  cl_panicked :: bool

definition combine_init :: "'a list \<Rightarrow> 'b list \<Rightarrow> ('a, 'b, 'o) combine" where
  "combine_init xs ys =
     \<lparr>cl_in_a = xs, cl_in_b = ys, cl_lat_a = None, cl_lat_b = None, cl_worker_a = Waiting,
      cl_worker_b = Waiting, cl_errs = [], cl_read = 0, cl_out = [], cl_ctx = None, cl_coop = False,
      cl_returned = None, cl_panicked = False\<rparr>"

text \<open>The worker's step after it has stored a value: call \<^verbatim>\<open>fn\<close> if both sides have one.\<close>

definition combine_answer ::
  "string \<Rightarrow> ('a \<Rightarrow> 'b \<Rightarrow> 'o result) \<Rightarrow> 'a option \<Rightarrow> 'b option \<Rightarrow> 'o worker \<times> go_error option list" where
  "combine_answer name fn la lb =
     (case (la, lb) of
        (Some a, Some b) \<Rightarrow>
          (case fn a b of
             Inl err \<Rightarrow> (Finished, [WrapStageErr name (Some err) 0])
           | Inr result \<Rightarrow> (WantsSend result, []))
      | _ \<Rightarrow> (Waiting, []))"

inductive combine_step ::
  "string \<Rightarrow> ('a \<Rightarrow> 'b \<Rightarrow> 'o result) \<Rightarrow> ('a, 'b, 'o) combine \<Rightarrow> ('a, 'b, 'o) combine \<Rightarrow> bool"
  for name :: string and fn :: "'a \<Rightarrow> 'b \<Rightarrow> 'o result" where
  recv_a: "cl_worker_a s = Waiting \<Longrightarrow> cl_in_a s = x # xs \<Longrightarrow> combine_answer name fn (Some x) (cl_lat_b s) = (w, er) \<Longrightarrow>
     combine_step name fn s (s\<lparr>cl_in_a := xs, cl_lat_a := Some x, cl_worker_a := w, cl_errs := cl_errs s @ er\<rparr>)"
| recv_b: "cl_worker_b s = Waiting \<Longrightarrow> cl_in_b s = y # ys \<Longrightarrow> combine_answer name fn (cl_lat_a s) (Some y) = (w, er) \<Longrightarrow>
     combine_step name fn s (s\<lparr>cl_in_b := ys, cl_lat_b := Some y, cl_worker_b := w, cl_errs := cl_errs s @ er\<rparr>)"
| closed_a: "cl_worker_a s = Waiting \<Longrightarrow> cl_in_a s = [] \<Longrightarrow>
     combine_step name fn s (s\<lparr>cl_worker_a := Finished, cl_errs := cl_errs s @ [None]\<rparr>)"
| closed_b: "cl_worker_b s = Waiting \<Longrightarrow> cl_in_b s = [] \<Longrightarrow>
     combine_step name fn s (s\<lparr>cl_worker_b := Finished, cl_errs := cl_errs s @ [None]\<rparr>)"
| drain_a: "cl_worker_a s = Waiting \<Longrightarrow>
     combine_step name fn s (s\<lparr>cl_worker_a := Finished, cl_coop := True, cl_errs := cl_errs s @ [None]\<rparr>)"
| drain_b: "cl_worker_b s = Waiting \<Longrightarrow>
     combine_step name fn s (s\<lparr>cl_worker_b := Finished, cl_coop := True, cl_errs := cl_errs s @ [None]\<rparr>)"
| send_a: "cl_worker_a s = WantsSend v \<Longrightarrow> cl_returned s = None \<Longrightarrow>
     combine_step name fn s (s\<lparr>cl_worker_a := Waiting, cl_out := cl_out s @ [v]\<rparr>)"
| send_b: "cl_worker_b s = WantsSend v \<Longrightarrow> cl_returned s = None \<Longrightarrow>
     combine_step name fn s (s\<lparr>cl_worker_b := Waiting, cl_out := cl_out s @ [v]\<rparr>)"
| panic: "cl_worker_a s = WantsSend v \<or> cl_worker_b s = WantsSend v \<Longrightarrow> cl_returned s \<noteq> None \<Longrightarrow>
     combine_step name fn s (s\<lparr>cl_panicked := True\<rparr>)"
| cancel_a: "cl_worker_a s \<noteq> Finished \<Longrightarrow> cl_ctx s = Some e \<Longrightarrow>
     combine_step name fn s (s\<lparr>cl_worker_a := Finished, cl_errs := cl_errs s @ [Some e]\<rparr>)"
| cancel_b: "cl_worker_b s \<noteq> Finished \<Longrightarrow> cl_ctx s = Some e \<Longrightarrow>
     combine_step name fn s (s\<lparr>cl_worker_b := Finished, cl_errs := cl_errs s @ [Some e]\<rparr>)"
| cancelled: "cl_ctx s = None \<Longrightarrow> combine_step name fn s (s\<lparr>cl_ctx := Some e\<rparr>)"
| main_error: "cl_returned s = None \<Longrightarrow> cl_errs s = Some e # rest \<Longrightarrow>
     combine_step name fn s (s\<lparr>cl_errs := rest, cl_returned := Some (Some e)\<rparr>)"
| main_nil: "cl_returned s = None \<Longrightarrow> cl_errs s = None # rest \<Longrightarrow>
     combine_step name fn s (s\<lparr>cl_errs := rest, cl_read := Suc (cl_read s),
       cl_returned := (if Suc (cl_read s) = 2 then Some None else None)\<rparr>)"

inductive combine_reach ::
  "string \<Rightarrow> ('a \<Rightarrow> 'b \<Rightarrow> 'o result) \<Rightarrow> ('a, 'b, 'o) combine \<Rightarrow> ('a, 'b, 'o) combine \<Rightarrow> bool"
  for name :: string and fn :: "'a \<Rightarrow> 'b \<Rightarrow> 'o result" and s0 :: "('a, 'b, 'o) combine" where
  combine_start: "combine_reach name fn s0 s0"
| combine_next: "combine_reach name fn s0 s \<Longrightarrow> combine_step name fn s s' \<Longrightarrow> combine_reach name fn s0 s'"

text \<open>
  Without cancellation and with a function that never fails, the stage outlives its workers
  and no send meets a closed channel.
\<close>

definition worker_done :: "'o worker \<Rightarrow> nat" where
  "worker_done w = (case w of Finished \<Rightarrow> 1 | _ \<Rightarrow> 0)"

lemma worker_done_simps [simp]:
  "worker_done Waiting = 0" "worker_done (WantsSend v) = 0" "worker_done Finished = 1"
  by (simp_all add: worker_done_def)

definition combine_safe :: "('a, 'b, 'o) combine \<Rightarrow> bool" where
  "combine_safe s \<longleftrightarrow>
     set (cl_errs s) \<subseteq> {None} \<and> \<not> cl_panicked s
     \<and> worker_done (cl_worker_a s) + worker_done (cl_worker_b s) = length (cl_errs s) + cl_read s
     \<and> (cl_returned s \<noteq> None \<longrightarrow> cl_read s = 2)"

lemma worker_done_le: "worker_done w \<le> 1"
  by (cases w) auto

definition never_fails :: "('a \<Rightarrow> 'b \<Rightarrow> 'o result) \<Rightarrow> bool" where
  "never_fails fn \<longleftrightarrow> (\<forall>a b. \<exists>v. fn a b = Inr v)"

lemma combine_answer_total:
  assumes "never_fails fn" and "combine_answer name fn la lb = (w, er)"
  shows "er = [] \<and> w \<noteq> Finished"
proof (cases la; cases lb)
  fix a b
  assume "la = Some a" "lb = Some b"
  moreover obtain v where "fn a b = Inr v" using assms(1) by (auto simp: never_fails_def)
  ultimately show ?thesis using assms(2) by (auto simp: combine_answer_def)
qed (use assms(2) in \<open>auto simp: combine_answer_def\<close>)

lemma combine_step_safe:
  assumes "never_fails fn"
  shows "combine_step name fn s s' \<Longrightarrow> cl_ctx s' = None \<Longrightarrow> combine_safe s \<Longrightarrow> combine_safe s'"
proof (induction rule: combine_step.induct)
  case (recv_a s x xs w er)
  then have "er = []" "worker_done w = 0"
    using combine_answer_total [OF assms recv_a(3)] by (cases w; auto)+
  with recv_a show ?case by (auto simp: combine_safe_def)
next
  case (recv_b s y ys w er)
  then have "er = []" "worker_done w = 0"
    using combine_answer_total [OF assms recv_b(3)] by (cases w; auto)+
  with recv_b show ?case by (auto simp: combine_safe_def)
next
  case (panic s v)
  with worker_done_le [of "cl_worker_a s"] worker_done_le [of "cl_worker_b s"]
  have False by (auto simp: combine_safe_def)
  then show ?case ..
qed (auto simp: combine_safe_def)

lemma combine_step_ctx: "combine_step name fn s s' \<Longrightarrow> cl_ctx s' = None \<Longrightarrow> cl_ctx s = None"
  by (induction rule: combine_step.induct) auto

lemma combine_reach_safe:
  assumes "never_fails fn"
  shows "combine_reach name fn (combine_init xs ys) s \<Longrightarrow> cl_ctx s = None \<Longrightarrow> combine_safe s"
proof (induction rule: combine_reach.induct)
  case combine_start
  then show ?case by (simp add: combine_safe_def combine_init_def)
next
  case (combine_next s s')
  have "cl_ctx s = None" using combine_step_ctx [OF combine_next(2,4)] .
  with combine_next show ?case by (simp add: combine_step_safe [OF assms])
qed

section \<open>Properties\<close>

text \<open>
  C29: \<^verbatim>\<open>Merge\<close> keeps the order of each input: under every interleaving, cancelled or not, what was
  sent from one input is a prefix of it, and a return that was neither cancelled nor drained
  means every input was carried whole. It closes its output only after it has returned, and it returns
  only when all its workers have ended, so no worker ever sends on the closed channel.
\<close>

theorem merge_keeps_inputs:
  assumes "merge_reach xss s" and "i < length xss"
  shows "prefix (on_output i (mg_out s)) (xss ! i) \<and>
         (mg_returned s \<noteq> None \<and> \<not> mg_coop s \<and> mg_outer s = None \<longrightarrow> on_output i (mg_out s) = xss ! i) \<and>
         (mg_closed s \<longrightarrow> mg_returned s \<noteq> None \<and> mg_done s ! i) \<and> \<not> mg_panicked s"
proof -
  have "on_output i (mg_out s) @ hand_list (mg_hand s ! i) @ mg_rest s ! i = xss ! i"
    using merge_reach_inv [OF assms(1)] assms(2) by (simp add: merge_inv_def)
  then have "prefix (on_output i (mg_out s)) (xss ! i)" by (metis prefixI)
  then show ?thesis
    using merge_complete [OF assms(1) _ _ _ assms(2)] merge_reach_inv [OF assms(1)] assms(2)
    by (auto simp: merge_inv_def)
qed

theorem merge_keeps_inputs_witness:
  "\<exists>s. merge_reach [[7 :: nat]] s \<and> mg_returned s = Some None \<and> mg_closed s \<and> \<not> mg_panicked s \<and>
     on_output 0 (mg_out s) = [7]"
proof -
  let ?s0 = "merge_init [[7 :: nat]]"
  let ?s1 = "?s0\<lparr>mg_rest := [[]], mg_hand := [Some 7]\<rparr>"
  let ?s2 = "?s1\<lparr>mg_hand := [None], mg_out := [(0, 7)]\<rparr>"
  let ?s3 = "?s2\<lparr>mg_done := [True]\<rparr>"
  let ?s4 = "?s3\<lparr>mg_returned := Some None\<rparr>"
  let ?s5 = "?s4\<lparr>mg_closed := True\<rparr>"
  have "merge_step ?s0 ?s1" using merge_recv [of 0 ?s0 7 "[]"] by (simp add: merge_init_def)
  moreover have "merge_step ?s1 ?s2" using merge_send [of 0 ?s1 7] by (simp add: merge_init_def)
  moreover have "merge_step ?s2 ?s3" using merge_closed [of 0 ?s2] by (simp add: merge_init_def)
  moreover have "merge_step ?s3 ?s4" using merge_all_done [of ?s3] by (simp add: merge_init_def)
  moreover have "merge_step ?s4 ?s5" using merge_close [of ?s4] by (simp add: merge_init_def)
  ultimately have reach: "merge_reach [[7]] ?s5" by (meson merge_reach.intros)
  moreover have "on_output 0 (mg_out ?s5) = [7]" "\<not> mg_panicked ?s5"
    using merge_keeps_inputs [OF reach, of 0] by (simp_all add: merge_init_def)
  ultimately show ?thesis by (intro exI [of _ ?s5]) simp
qed

text \<open>
  \<^verbatim>\<open>CombineLatest\<close> with a function that never fails, and no cancellation, never sends on its
  closed output channel, drained or not.
\<close>

theorem combine_latest_no_panic:
  assumes "never_fails fn" and "combine_reach name fn (combine_init xs ys) s" and "cl_ctx s = None"
  shows "\<not> cl_panicked s"
  using combine_reach_safe [OF assms] by (simp add: combine_safe_def)

theorem combine_latest_no_panic_witness:
  "\<exists>s. combine_reach ''c'' (\<lambda>a b. Inr (a + b)) (combine_init [1 :: nat] [2 :: nat]) s \<and>
       cl_out s = [3] \<and> cl_returned s = Some None \<and> \<not> cl_panicked s"
proof -
  let ?fn = "\<lambda>a b :: nat. Inr (a + b) :: nat result" and ?s0 = "combine_init [1] [2] :: (nat, nat, nat) combine"
  let ?s1 = "?s0\<lparr>cl_in_a := [], cl_lat_a := Some 1\<rparr>"
  let ?s2 = "?s1\<lparr>cl_in_b := [], cl_lat_b := Some 2, cl_worker_b := WantsSend 3\<rparr>"
  let ?s3 = "?s2\<lparr>cl_worker_b := Waiting, cl_out := [3]\<rparr>"
  let ?s4 = "?s3\<lparr>cl_worker_a := Finished, cl_errs := [None]\<rparr>"
  let ?s5 = "?s4\<lparr>cl_worker_b := Finished, cl_errs := [None, None]\<rparr>"
  let ?s6 = "?s5\<lparr>cl_errs := [None], cl_read := 1\<rparr>"
  let ?s7 = "?s6\<lparr>cl_errs := [], cl_read := 2, cl_returned := Some None\<rparr>"
  let ?step = "combine_step ''c'' ?fn"
  have "?step ?s0 ?s1"
    using recv_a [of ?s0 1 "[]" "''c''" ?fn Waiting "[]"] by (simp add: combine_init_def combine_answer_def)
  moreover have "?step ?s1 ?s2"
    using recv_b [of ?s1 2 "[]" "''c''" ?fn "WantsSend 3" "[]"] by (simp add: combine_init_def combine_answer_def)
  moreover have "?step ?s2 ?s3" using send_b [of ?s2 3 "''c''" ?fn] by (simp add: combine_init_def)
  moreover have "?step ?s3 ?s4" using closed_a [of ?s3 "''c''" ?fn] by (simp add: combine_init_def)
  moreover have "?step ?s4 ?s5" using closed_b [of ?s4 "''c''" ?fn] by (simp add: combine_init_def)
  moreover have "?step ?s5 ?s6" using main_nil [of ?s5 "[None]" "''c''" ?fn] by (simp add: combine_init_def)
  moreover have "?step ?s6 ?s7"
    using main_nil [of ?s6 "[]" "''c''" ?fn] by (simp add: combine_init_def numeral_2_eq_2)
  ultimately have reach: "combine_reach ''c'' ?fn ?s0 ?s7" by (meson combine_reach.intros)
  moreover have "\<not> cl_panicked ?s7"
    by (rule combine_latest_no_panic [OF _ reach]) (simp_all add: never_fails_def combine_init_def)
  ultimately show ?thesis by (intro exI [of _ ?s7]) (simp add: combine_init_def)
qed

text \<open>
  C39: A failing function makes \<^verbatim>\<open>CombineLatest\<close> panic: one worker's error makes the stage return
  and close the channel while the other worker is about to send on it.
\<close>

theorem combine_latest_panics:
  "\<exists>s. combine_reach ''c'' (\<lambda>a b. if a = 1 \<and> b = 2 then Inl (Plain ''bad'') else Inr (a + b))
         (combine_init [1 :: nat, 5] [1 :: nat, 2]) s \<and> cl_panicked s \<and> cl_ctx s = None"
proof -
  let ?fn = "\<lambda>a b :: nat. if a = 1 \<and> b = 2 then Inl (Plain ''bad'') else Inr (a + b)"
  let ?er = "WrapStageErr ''c'' (Some (Plain ''bad'')) 0"
  let ?s0 = "combine_init [1 :: nat, 5] [1 :: nat, 2]"
  let ?s1 = "?s0\<lparr>cl_in_a := [5], cl_lat_a := Some 1\<rparr>"
  let ?s2 = "?s1\<lparr>cl_in_b := [2], cl_lat_b := Some 1, cl_worker_b := WantsSend 2\<rparr>"
  let ?s3 = "?s2\<lparr>cl_worker_b := Waiting, cl_out := [2]\<rparr>"
  let ?s4 = "?s3\<lparr>cl_in_b := [], cl_lat_b := Some 2, cl_worker_b := Finished, cl_errs := [?er]\<rparr>"
  let ?s5 = "?s4\<lparr>cl_in_a := [], cl_lat_a := Some 5, cl_worker_a := WantsSend 7\<rparr>"
  let ?s6 = "?s5\<lparr>cl_errs := [], cl_returned := Some ?er\<rparr>"
  let ?s7 = "?s6\<lparr>cl_panicked := True\<rparr>"
  let ?step = "combine_step ''c'' ?fn"
  have "?step ?s0 ?s1"
    using recv_a [of ?s0 1 "[5]" "''c''" ?fn Waiting "[]"] by (simp add: combine_init_def combine_answer_def)
  moreover have "?step ?s1 ?s2"
    using recv_b [of ?s1 1 "[2]" "''c''" ?fn "WantsSend 2" "[]"] by (simp add: combine_init_def combine_answer_def)
  moreover have "?step ?s2 ?s3"
    using send_b [of ?s2 2 "''c''" ?fn] by (simp add: combine_init_def)
  moreover have "?step ?s3 ?s4"
    using recv_b [of ?s3 2 "[]" "''c''" ?fn Finished "[?er]"] by (simp add: combine_init_def combine_answer_def)
  moreover have "?step ?s4 ?s5"
    using recv_a [of ?s4 5 "[]" "''c''" ?fn "WantsSend 7" "[]"] by (simp add: combine_init_def combine_answer_def)
  moreover have "?step ?s5 ?s6"
    using main_error [of ?s5 "the ?er" "[]" "''c''" ?fn] by (simp add: combine_init_def WrapStageErr_Some)
  moreover have "?step ?s6 ?s7"
    using panic [of ?s6 7 "''c''" ?fn] by (simp add: combine_init_def)
  ultimately have "combine_reach ''c'' ?fn ?s0 ?s7" by (meson combine_reach.intros)
  then show ?thesis by (intro exI [of _ ?s7]) (simp add: combine_init_def)
qed

end
