(* ===== verification/Misc_Ops.thy ===== *)
theory Misc_Ops
  imports Fan_Ops
begin

text \<open>
  The loops of \<^verbatim>\<open>misc.go\<close> (\<^verbatim>\<open>DefaultIfEmpty\<close>, \<^verbatim>\<open>Timestamp\<close>, \<^verbatim>\<open>TimeInterval\<close>, \<^verbatim>\<open>Sort\<close>) and the
  sources of \<^verbatim>\<open>source.go\<close> that are loops (\<^verbatim>\<open>FromSlice\<close>, \<^verbatim>\<open>From\<close>) or a state machine (the push
  source \<^verbatim>\<open>Channel\<close>). The clock and \<^verbatim>\<open>sort.Slice\<close> are parameters.
\<close>

section \<open>DefaultIfEmpty\<close>

fun default_if_empty_step :: "'a \<Rightarrow> bool \<Rightarrow> 'a recv \<Rightarrow> (bool, 'a) act" where
  "default_if_empty_step defaultVal emitted Closed = Act (if \<not> emitted then [defaultVal] else []) (Return None)"
| "default_if_empty_step defaultVal emitted (Item item) = Act [item] (Continue True)"

definition DefaultIfEmpty ::
  "('c, 'v) stage_config \<Rightarrow> stage_id \<Rightarrow> stage_id \<Rightarrow> 'a \<Rightarrow> (bool, 'a recv, 'a) operator" where
  "DefaultIfEmpty cfg i p defaultVal =
     unary ''default_if_empty'' cfg i p (select_loop False (default_if_empty_step defaultVal))"

interpretation default_if_empty: transducer "default_if_empty_step d" False "\<lambda>_ _. True" "\<lambda>_ x. [x]"
    "\<lambda>emitted. if \<not> emitted then [d] else []"
  for d :: 'a
  by unfold_locales simp_all

lemma foldl_emitted: "foldl (\<lambda>_ _. True) b xs = (b \<or> xs \<noteq> [])"
  by (induction xs arbitrary: b) auto

section \<open>Timestamp and TimeInterval\<close>

text \<open>\<^verbatim>\<open>now k\<close> is the clock's answer at its \<^verbatim>\<open>k\<close>-th reading.\<close>

fun timestamp_step :: "(nat \<Rightarrow> time) \<Rightarrow> nat \<Rightarrow> 'a recv \<Rightarrow> (nat, 'a \<times> time) act" where
  "timestamp_step now k Closed = Act [] (Return None)"
| "timestamp_step now k (Item item) = Act [(item, now k)] (Continue (Suc k))"

definition Timestamp ::
  "('c, 'v) stage_config \<Rightarrow> stage_id \<Rightarrow> stage_id \<Rightarrow> (nat \<Rightarrow> time) \<Rightarrow> (nat, 'a recv, 'a \<times> time) operator" where
  "Timestamp cfg i p now = unary ''timestamp'' cfg i p (select_loop 0 (timestamp_step now))"

interpretation timestamp: transducer "timestamp_step now" 0 "\<lambda>k _. Suc k" "\<lambda>k x. [(x, now k)]" "\<lambda>_. []"
  for now :: "nat \<Rightarrow> time"
  by unfold_locales simp_all

fun time_interval_step ::
  "(nat \<Rightarrow> time) \<Rightarrow> nat \<times> time option \<Rightarrow> 'a recv \<Rightarrow> (nat \<times> time option, 'a \<times> duration) act" where
  "time_interval_step now (k, prev) Closed = Act [] (Return None)"
| "time_interval_step now (k, prev) (Item item) =
     (let t = now k; elapsed = (case prev of None \<Rightarrow> 0 | Some l \<Rightarrow> t - l)
      in Act [(item, elapsed)] (Continue (Suc k, Some t)))"

definition TimeInterval ::
  "('c, 'v) stage_config \<Rightarrow> stage_id \<Rightarrow> stage_id \<Rightarrow> (nat \<Rightarrow> time) \<Rightarrow>
   (nat \<times> time option, 'a recv, 'a \<times> duration) operator" where
  "TimeInterval cfg i p now = unary ''time_interval'' cfg i p (select_loop (0, None) (time_interval_step now))"

lemma exec_time_interval_from:
  "fst (exec (select_loop s0 (time_interval_step now)) (Suc k, Some (now k)) (items xs)) =
     map (\<lambda>(i, x). (x, now i - now (i - 1))) (enumerate (Suc k) xs)"
  by (induction xs arbitrary: k) (simp_all add: settle_def Let_def case_prod_beta)

lemma exec_time_interval:
  "fst (exec (select_loop s0 (time_interval_step now)) (0, None) (items xs)) =
     map (\<lambda>(i, x). (x, if i = 0 then 0 else now i - now (i - 1))) (enumerate 0 xs)"
proof (cases xs)
  case (Cons x ys)
  have "map (\<lambda>(i, x). (x, now i - now (i - 1))) (enumerate (Suc 0) ys) =
      map (\<lambda>(i, x). (x, if i = 0 then 0 else now i - now (i - 1))) (enumerate (Suc 0) ys)"
    by (rule map_cong [OF refl]) (auto simp: in_set_enumerate_eq)
  with Cons exec_time_interval_from [of s0 now 0 ys] show ?thesis
    by (simp add: Let_def case_prod_beta)
qed (simp add: settle_def)

section \<open>Sort\<close>

text \<open>
  The whole input is collected before anything is sent; leaving through the drain arm or a
  cancellation sends nothing. \<^verbatim>\<open>sort_slice\<close> is \<^verbatim>\<open>sort.Slice\<close> with the user's \<^verbatim>\<open>less\<close>.
\<close>

fun sort_step :: "('a list \<Rightarrow> 'a list) \<Rightarrow> 'a list \<Rightarrow> 'a recv \<Rightarrow> ('a list, 'a) act" where
  "sort_step sort_slice collected Closed = Act (sort_slice collected) (Return None)"
| "sort_step sort_slice collected (Item item) = Act [] (Continue (collected @ [item]))"

definition Sort ::
  "('c, 'v) stage_config \<Rightarrow> stage_id \<Rightarrow> stage_id \<Rightarrow> ('a list \<Rightarrow> 'a list) \<Rightarrow> ('a list, 'a recv, 'a) operator" where
  "Sort cfg i p sort_slice = unary ''sort'' cfg i p (select_loop [] (sort_step sort_slice))"

interpretation sort: transducer "sort_step sort_slice" "[]" "\<lambda>c x. c @ [x]" "\<lambda>_ _. []" sort_slice
  for sort_slice :: "'a list \<Rightarrow> 'a list"
  by unfold_locales simp_all

lemma foldl_collect: "foldl (\<lambda>c x. c @ [x]) c xs = c @ xs"
  by (induction xs arbitrary: c) auto

section \<open>Sources\<close>

text \<open>A source that needs no input: one event starts it.\<close>

datatype go = Go

definition from_slice_step :: "'a list \<Rightarrow> unit \<Rightarrow> go \<Rightarrow> (unit, 'a) act" where
  "from_slice_step xs u e = Act xs (Return None)"

definition FromSlice :: "'a list \<Rightarrow> (unit, go, 'a) loop" where
  "FromSlice xs =
     \<lparr>loop_init = (), loop_head = (\<lambda>_. None), loop_listens = (\<lambda>_ _. True), loop_step = from_slice_step xs,
      loop_sel_ctx = False, loop_sel_drain = False, loop_send = SendCtxDrain\<rparr>"

fun from_step :: "unit \<Rightarrow> 'a recv \<Rightarrow> (unit, 'a) act" where
  "from_step u Closed = Act [] (Return None)"
| "from_step u (Item item) = Act [item] (Continue ())"

definition From :: "(unit, 'a recv, 'a) loop" where
  "From = drain_loop () (\<lambda>_. None) from_step"

lemma exec_from_items: "exec From u (items xs) = (xs, Continue ())"
  by (induction xs arbitrary: u) (auto simp: From_def settle_def)

interpretation from_chan: stream_stage From "\<lambda>xs. xs" "\<lambda>xs. xs" "\<lambda>_. None"
  by unfold_locales
    (simp_all add: outputs_def returns_def exec_from_items closing_items exec_append resume_def,
     simp_all add: From_def)

text \<open>
  The push source. Every method takes the lock (shared for sends, exclusive for \<^verbatim>\<open>Close\<close>), so
  each is one step on the buffer and the flag; \<^verbatim>\<open>None\<close> is a send that would block.
\<close>

record 'a push_chan =
  pc_cap :: nat
  pc_buf :: "'a list"
  pc_closed :: bool

definition NewChannel :: "nat \<Rightarrow> 'a push_chan" where
  "NewChannel buffer = \<lparr>pc_cap = buffer, pc_buf = [], pc_closed = False\<rparr>"

definition Channel_Send :: "'a \<Rightarrow> go_error option \<Rightarrow> 'a push_chan \<Rightarrow> (go_error option \<times> 'a push_chan) option" where
  "Channel_Send item er c =
     (if pc_closed c then Some (Some ErrChannelClosed, c)
      else if length (pc_buf c) < pc_cap c then Some (None, c\<lparr>pc_buf := pc_buf c @ [item]\<rparr>)
      else (case er of Some e \<Rightarrow> Some (Some e, c) | None \<Rightarrow> None))"

definition Channel_TrySend :: "'a \<Rightarrow> 'a push_chan \<Rightarrow> bool \<times> 'a push_chan" where
  "Channel_TrySend item c =
     (if pc_closed c then (False, c)
      else if length (pc_buf c) < pc_cap c then (True, c\<lparr>pc_buf := pc_buf c @ [item]\<rparr>)
      else (False, c))"

definition Channel_Close :: "'a push_chan \<Rightarrow> 'a push_chan" where
  "Channel_Close c = c\<lparr>pc_closed := True\<rparr>"

text \<open>What the pipeline reads: the next item, the close, or nothing yet.\<close>

definition channel_recv :: "'a push_chan \<Rightarrow> ('a recv \<times> 'a push_chan) option" where
  "channel_recv c =
     (case pc_buf c of
        x # xs \<Rightarrow> Some (Item x, c\<lparr>pc_buf := xs\<rparr>)
      | [] \<Rightarrow> if pc_closed c then Some (Closed, c) else None)"

datatype 'a push_op = OpSend 'a | OpTrySend 'a | OpClose | OpRecv

text \<open>One operation: the state, the items accepted and the receives made.\<close>

fun push_step :: "'a push_op \<Rightarrow> 'a push_chan \<times> 'a list \<times> 'a recv list \<Rightarrow> 'a push_chan \<times> 'a list \<times> 'a recv list" where
  "push_step (OpSend x) (c, acc, got) =
     (case Channel_Send x None c of
        Some (None, c') \<Rightarrow> (c', acc @ [x], got) | Some (Some e, c') \<Rightarrow> (c', acc, got) | None \<Rightarrow> (c, acc, got))"
| "push_step (OpTrySend x) (c, acc, got) =
     (case Channel_TrySend x c of (ok, c') \<Rightarrow> (c', if ok then acc @ [x] else acc, got))"
| "push_step OpClose (c, acc, got) = (Channel_Close c, acc, got)"
| "push_step OpRecv (c, acc, got) =
     (case channel_recv c of Some (r, c') \<Rightarrow> (c', acc, got @ [r]) | None \<Rightarrow> (c, acc, got))"

fun push_inv :: "'a push_chan \<times> 'a list \<times> 'a recv list \<Rightarrow> bool" where
  "push_inv (c, acc, got) \<longleftrightarrow>
     length (pc_buf c) \<le> pc_cap c \<and>
     (\<exists>xs n. got = items xs @ replicate n Closed \<and> acc = xs @ pc_buf c \<and>
             (n > 0 \<longrightarrow> pc_closed c \<and> pc_buf c = []))"

lemma push_step_inv: "push_inv s \<Longrightarrow> push_inv (push_step op s)"
proof -
  assume inv: "push_inv s"
  obtain c acc got where s: "s = (c, acc, got)" by (cases s) auto
  with inv obtain xs n where h: "length (pc_buf c) \<le> pc_cap c" "got = items xs @ replicate n Closed"
      "acc = xs @ pc_buf c" "n > 0 \<longrightarrow> pc_closed c \<and> pc_buf c = []"
    by auto
  show ?thesis
  proof (cases op)
    case (OpSend x)
    with s h show ?thesis
      by (auto simp: Channel_Send_def intro!: exI [of _ xs] exI [of _ n])
  next
    case (OpTrySend x)
    with s h show ?thesis
      by (auto simp: Channel_TrySend_def intro!: exI [of _ xs] exI [of _ n])
  next
    case OpClose
    with s h show ?thesis by (auto simp: Channel_Close_def intro!: exI [of _ xs] exI [of _ n])
  next
    case OpRecv
    show ?thesis
    proof (cases "pc_buf c")
      case Nil
      have got: "got @ [Closed] = items xs @ replicate (Suc n) Closed"
        using h(2) by (simp add: replicate_append_same)
      show ?thesis
      proof (cases "pc_closed c")
        case True
        with Nil OpRecv s h(1,3) got show ?thesis
          by (auto simp: channel_recv_def simp del: replicate_Suc intro!: exI [of _ xs] exI [of _ "Suc n"])
      next
        case False
        with Nil OpRecv s h show ?thesis
          by (auto simp: channel_recv_def intro!: exI [of _ xs] exI [of _ n])
      qed
    next
      case (Cons y ys)
      with OpRecv s h show ?thesis
        by (auto simp: channel_recv_def intro!: exI [of _ "xs @ [y]"])
    qed
  qed
qed

lemma push_run_inv: "push_inv (fold push_step ops (NewChannel n, [], []))"
proof -
  have "push_inv s \<Longrightarrow> push_inv (fold push_step ops s)" for s :: "'a push_chan \<times> 'a list \<times> 'a recv list"
    by (induction ops arbitrary: s) (simp_all add: push_step_inv del: push_inv.simps push_step.simps)
  moreover have "push_inv (NewChannel n, [], [] :: 'a recv list)"
    by (auto simp: NewChannel_def intro!: exI [of _ "[]"])
  ultimately show ?thesis by blast
qed

section \<open>Properties of the push channel\<close>

text \<open>
  Whatever sequence of \<^verbatim>\<open>Send\<close>, \<^verbatim>\<open>TrySend\<close>, \<^verbatim>\<open>Close\<close> and receives a push channel sees, what the
  pipeline received followed by what is buffered is exactly what was accepted, in order; the buffer
  never exceeds its capacity, and the end is only received after a \<^verbatim>\<open>Close\<close> with all accepted items
  already delivered.
\<close>

theorem push_channel_fifo:
  assumes "fold push_step ops (NewChannel n, [], []) = (c, accepted, got)"
  shows "length (pc_buf c) \<le> n \<and>
         (\<exists>xs m. got = items xs @ replicate m Closed \<and> accepted = xs @ pc_buf c \<and>
            (m > 0 \<longrightarrow> pc_closed c \<and> accepted = xs))"
proof -
  have cap: "pc_cap (fst (push_step op s)) = pc_cap (fst s)" for op and s :: "'a push_chan \<times> 'a list \<times> 'a recv list"
    by (cases s; cases op)
      (auto simp: Channel_Send_def Channel_TrySend_def Channel_Close_def channel_recv_def
        split: option.splits list.splits)
  have "pc_cap (fst (fold push_step ops s)) = pc_cap (fst s)" for s :: "'a push_chan \<times> 'a list \<times> 'a recv list"
    by (induction ops arbitrary: s) (simp_all add: cap)
  from this [of "(NewChannel n, [], [])"] have "pc_cap c = n" unfolding assms by (simp add: NewChannel_def)
  with push_run_inv [of ops n] show ?thesis by (auto simp: assms)
qed

theorem push_channel_fifo_witness:
  "fst (snd (fold push_step [OpSend 4, OpTrySend 5, OpRecv, OpClose, OpSend 6, OpRecv] (NewChannel 1, [], []))) = [4::nat] \<and>
   length (pc_buf (fst (fold push_step [OpSend 4, OpTrySend 5, OpRecv, OpClose, OpSend 6, OpRecv] (NewChannel 1, [], [])))) \<le> 1"
  using push_channel_fifo [of "[OpSend 4, OpTrySend 5, OpRecv, OpClose, OpSend 6, OpRecv]" 1]
  by (simp add: Channel_Send_def Channel_TrySend_def Channel_Close_def channel_recv_def NewChannel_def)

end
