(* ===== verification/Flat_Ops.thy ===== *)
theory Flat_Ops
  imports Concurrent_Map Fan_Ops
begin

text \<open>
  \<^verbatim>\<open>FlatMap\<close> in its four forms (\<^verbatim>\<open>operator_flatmap.go\<close>) and the operators of \<^verbatim>\<open>advanced.go\<close> that
  are one loop: \<^verbatim>\<open>ConcatMap\<close>, \<^verbatim>\<open>MapResult\<close> and \<^verbatim>\<open>MapRecover\<close>. The concurrent forms are instances of
  the step relations of \<^verbatim>\<open>Concurrent_Map\<close>. A user function answers an attempt with what it yielded
  and its error.
\<close>

section \<open>FlatMap\<close>

definition flat_processes ::
  "nat \<Rightarrow> ('i \<Rightarrow> nat \<Rightarrow> 'o list \<times> go_error option) \<Rightarrow> 'o handler option \<Rightarrow> ('i \<Rightarrow> nat \<Rightarrow> go_error option) \<Rightarrow>
   ('i \<Rightarrow> 'o list \<times> go_error option \<times> nat) \<Rightarrow> bool" where
  "flat_processes fuel fn h cancelled process \<longleftrightarrow>
     (\<forall>x. ProcessFlatMapItem fuel (fn x) h (\<lambda>_. None) (cancelled x) = Some (process x))"

definition flat_item :: "string \<Rightarrow> ('i \<Rightarrow> 'o list \<times> go_error option \<times> nat) \<Rightarrow> ('i, 'o) item_fn" where
  "flat_item name process x =
     (case process x of
        (out, None, attempt) \<Rightarrow> (out, None)
      | (out, Some err, attempt) \<Rightarrow>
          (out, if err = ErrSkipped then None else WrapStageErr name (Some err) attempt))"

definition flatMapSerial :: "string \<Rightarrow> ('i \<Rightarrow> 'o list \<times> go_error option \<times> nat) \<Rightarrow> (unit, 'i recv, 'o) loop" where
  "flatMapSerial name process = item_loop (flat_item name process)"

text \<open>On the fast path \<^verbatim>\<open>yield\<close> is a plain send on the output channel.\<close>

definition flat_item_fast :: "string \<Rightarrow> ('i \<Rightarrow> 'o list \<times> go_error option) \<Rightarrow> ('i, 'o) item_fn" where
  "flat_item_fast name fn x = (case fn x of (out, err) \<Rightarrow> (out, WrapStageErr name err 0))"

definition flatMapSerialFastPath :: "string \<Rightarrow> ('i \<Rightarrow> 'o list \<times> go_error option) \<Rightarrow> (unit, 'i block, 'o) loop" where
  "flatMapSerialFastPath name fn = block_loop True True SendBare (flat_item_fast name fn)"

definition flat_answer :: "string \<Rightarrow> ('o list \<times> go_error option \<times> nat, 'o) answer" where
  "flat_answer name r =
     (case r of
        (out, None, attempt) \<Rightarrow> (out, None, WrapStageErr name (Some Canceled) attempt)
      | (out, Some err, attempt) \<Rightarrow>
          ([], if err = ErrSkipped then None else WrapStageErr name (Some err) attempt, None))"

definition flatMapConcurrent ::
  "nat \<Rightarrow> string \<Rightarrow> ('i \<Rightarrow> 'o list \<times> go_error option \<times> nat) \<Rightarrow> 'i list \<Rightarrow> ('i, 'o) mc \<Rightarrow> bool" where
  "flatMapConcurrent n name process = mc_reach True n (flat_answer name) process"

definition flatMapOrdered ::
  "nat \<Rightarrow> string \<Rightarrow> ('i \<Rightarrow> 'o list \<times> go_error option \<times> nat) \<Rightarrow> 'i list \<Rightarrow>
   ('i, 'o list \<times> go_error option \<times> nat, 'o) mo \<Rightarrow> bool" where
  "flatMapOrdered n name process = mo_reach True n (flat_answer name) process"

text \<open>The switch of \<^verbatim>\<open>FlatMap\<close>.\<close>

datatype flat_path = FlatOrdered | FlatConcurrent | FlatFast | FlatSerial

definition flat_variant :: "('a, 'v) stage_config \<Rightarrow> 'v handler option \<Rightarrow> bool \<Rightarrow> flat_path" where
  "flat_variant cfg run_handler noop_hook =
     (let cfg = cfg\<lparr>cfg_handler := Some (resolveHandler (cfg_handler cfg) run_handler)\<rparr> in
      if cfg_concurrency cfg > 1 \<and> cfg_ordered cfg then FlatOrdered
      else if cfg_concurrency cfg > 1 then FlatConcurrent
      else if isFastPathEligible cfg noop_hook then FlatFast
      else FlatSerial)"

lemma flat_variant_fast:
  "flat_variant cfg run_handler hook = FlatFast \<Longrightarrow> resolveHandler (cfg_handler cfg) run_handler = DefaultHandler"
  by (auto simp: flat_variant_def Let_def isFastPathEligible_def isFastPathEligibleCfg_def
      IsDefaultHandler_iff split: if_splits)

text \<open>What an item puts out: nothing when its function ends with an error.\<close>

definition flat_yield :: "('i \<Rightarrow> 'o list \<times> go_error option \<times> nat) \<Rightarrow> 'i \<Rightarrow> 'o list" where
  "flat_yield process x = (case process x of (out, None, _) \<Rightarrow> out | _ \<Rightarrow> [])"

lemma all_yields_flat [simp]: "all_yields (flat_answer name) process xs = concat (map (flat_yield process) xs)"
proof -
  have "yields (flat_answer name) process = flat_yield process"
    by (rule ext) (auto simp: yields_def flat_answer_def flat_yield_def split: prod.splits option.splits)
  then show ?thesis by (simp add: all_yields_def)
qed

lemma flush_buf_ok [simp]: "flush_buf (\<lambda>_. None) k buf = (buf, None)"
  by (induction buf arbitrary: k) simp_all

lemma flat_processes_error:
  assumes "flat_processes fuel fn h cancelled process" and "process x = (out, Some err, k)"
  shows "out = []"
  using assms(1) [unfolded flat_processes_def, rule_format, of x] assms(2)
  unfolding ProcessFlatMapItem_def by (auto dest!: flat_process_loop_output)

lemma flat_default_processes:
  assumes "flat_processes fuel fn (Some DefaultHandler) cancelled process"
  shows "process x = (if snd (fn x 0) = None then fst (fn x 0) else [], snd (fn x 0), 0)"
  using assms [unfolded flat_processes_def, rule_format, of x]
  by (cases fuel) (auto simp: ProcessFlatMapItem_def split: prod.splits option.splits)

text \<open>
  The two serial paths return the same; the fast one has also sent what the failing item yielded
  before its error.
\<close>

lemma run_flat_paths:
  assumes "flat_processes fuel fn (Some DefaultHandler) cancelled process"
    and "\<And>x. x \<in> set xs \<Longrightarrow> snd (fn x 0) \<noteq> Some ErrSkipped"
  shows "run_items (flat_item_fast name (\<lambda>x. fn x 0)) xs =
     (fst (run_items (flat_item name process) xs) @
        (case find (\<lambda>x. snd (fn x 0) \<noteq> None) xs of Some x \<Rightarrow> fst (fn x 0) | None \<Rightarrow> []),
      snd (run_items (flat_item name process) xs))"
  using assms(2)
proof (induction xs)
  case (Cons x xs)
  obtain out err where fn: "fn x 0 = (out, err)" by (cases "fn x 0")
  show ?case
  proof (cases err)
    case None
    with fn Cons show ?thesis
      by (simp add: flat_item_def flat_item_fast_def flat_default_processes [OF assms(1)] case_prod_beta)
  next
    case (Some e)
    with Cons.prems [of x] fn show ?thesis
      by (simp add: flat_item_def flat_item_fast_def flat_default_processes [OF assms(1)] WrapStageErr_Some)
  qed
qed simp

section \<open>ConcatMap\<close>

text \<open>\<^verbatim>\<open>None\<close> is the panic at construction; otherwise the options \<^verbatim>\<open>FlatMap\<close> is called with.\<close>

definition ConcatMap :: "('a, 'v) stage_opt list \<Rightarrow> ('a, 'v) stage_opt list option" where
  "ConcatMap opts =
     (if cfg_concurrency (buildStageConfig opts) \<noteq> 1 then None else Some (opts @ [Concurrency 1]))"

section \<open>MapResult\<close>

datatype ('i, 'o) routed = OkItem 'o | ErrItem 'i go_error

definition map_result_step ::
  "('i \<Rightarrow> 'o result) \<Rightarrow> unit \<Rightarrow> 'i recv \<Rightarrow> (unit, nat \<times> ('i, 'o) routed) act" where
  "map_result_step fn u e =
     (case e of
        Closed \<Rightarrow> Act [] (Return None)
      | Item item \<Rightarrow>
          (case fn item of
             Inl err \<Rightarrow> Act [(1, ErrItem item err)] (Continue ())
           | Inr val \<Rightarrow> Act [(0, OkItem val)] (Continue ())))"

definition MapResult ::
  "('c, 'v) stage_config \<Rightarrow> stage_id \<Rightarrow> stage_id \<Rightarrow> stage_id \<Rightarrow> ('i \<Rightarrow> 'o result) \<Rightarrow>
   (unit, 'i recv, nat \<times> ('i, 'o) routed) operator" where
  "MapResult cfg okID errID p fn = fan_out ''map_result'' cfg [okID, errID] p (select_loop () (map_result_step fn))"

definition map_result_out :: "('i \<Rightarrow> 'o result) \<Rightarrow> 'i \<Rightarrow> nat \<times> ('i, 'o) routed" where
  "map_result_out fn x = (case fn x of Inl err \<Rightarrow> (1, ErrItem x err) | Inr val \<Rightarrow> (0, OkItem val))"

interpretation map_result: transducer "map_result_step fn" "()" "\<lambda>_ _. ()" "\<lambda>_ x. [map_result_out fn x]" "\<lambda>_. []"
  for fn :: "'i \<Rightarrow> 'o result"
  by unfold_locales (simp_all add: map_result_step_def map_result_out_def split: sum.splits)

section \<open>MapRecover\<close>

text \<open>A call returns or panics, with an error or with another value; \<^verbatim>\<open>render\<close> prints the latter.\<close>

datatype ('o, 'p) call = Returned "'o result" | Panicked "go_error + 'p"

fun callRecover :: "('p \<Rightarrow> string) \<Rightarrow> ('o, 'p) call \<Rightarrow> 'o result" where
  "callRecover render (Returned r) = r"
| "callRecover render (Panicked (Inl e)) = Inl e"
| "callRecover render (Panicked (Inr val)) = Inl (Plain (''panic: '' @ render val))"

definition map_recover_step ::
  "('p \<Rightarrow> string) \<Rightarrow> ('i \<Rightarrow> ('o, 'p) call) \<Rightarrow> ('i \<Rightarrow> go_error \<Rightarrow> 'o) \<Rightarrow> unit \<Rightarrow> 'i recv \<Rightarrow> (unit, 'o) act" where
  "map_recover_step render fn recover u e =
     (case e of
        Closed \<Rightarrow> Act [] (Return None)
      | Item item \<Rightarrow>
          (case callRecover render (fn item) of
             Inr val \<Rightarrow> Act [val] (Continue ())
           | Inl err \<Rightarrow> Act [recover item err] (Continue ())))"

definition MapRecover ::
  "('c, 'v) stage_config \<Rightarrow> stage_id \<Rightarrow> stage_id \<Rightarrow> ('p \<Rightarrow> string) \<Rightarrow> ('i \<Rightarrow> ('o, 'p) call) \<Rightarrow>
   ('i \<Rightarrow> go_error \<Rightarrow> 'o) \<Rightarrow> (unit, 'i recv, 'o) operator" where
  "MapRecover cfg i p render fn recover = unary ''map_recover'' cfg i p (select_loop () (map_recover_step render fn recover))"

interpretation map_recover: transducer "map_recover_step render fn recover" "()" "\<lambda>_ _. ()"
    "\<lambda>_ x. [case callRecover render (fn x) of Inr val \<Rightarrow> val | Inl err \<Rightarrow> recover x err]" "\<lambda>_. []"
  for render :: "'p \<Rightarrow> string" and fn :: "'i \<Rightarrow> ('o, 'p) call" and recover :: "'i \<Rightarrow> go_error \<Rightarrow> 'o"
  by unfold_locales (simp_all add: map_recover_step_def split: sum.splits)

section \<open>Properties\<close>

text \<open>
  C8: The forms of \<^verbatim>\<open>FlatMap\<close> agree. With \<^verbatim>\<open>Ordered()\<close> a normal return has sent, in order, what the
  serial loop sends for the items that did not fail; without, the same values in some order; and
  the serial loop sends them when no item stops it.
\<close>

theorem flat_map_variants_agree:
  assumes "flat_processes fuel fn h cancelled process"
    and "flatMapConcurrent n name process xs sc" and "flatMapOrdered m name process xs so"
  shows "length (mc_running sc) + length (mc_sending sc) \<le> n \<and> mo_tokens so \<le> m \<and>
         (snd (run_items (flat_item name process) xs) = None \<longrightarrow>
            outputs (flatMapSerial name process) (closing xs) = concat (map (flat_yield process) xs)) \<and>
         (mc_returned sc = Some None \<and> \<not> mc_outer sc \<and> \<not> mc_coop sc \<longrightarrow>
            mset (mc_out sc) = mset (concat (map (flat_yield process) xs))) \<and>
         (mo_returned so = Some None \<and> \<not> mo_outer so \<and> \<not> mo_coop so \<longrightarrow>
            mo_out so = concat (map (flat_yield process) xs))"
proof -
  have "fst (run_items (flat_item name process) xs) = concat (map (flat_yield process) xs)"
    if "snd (run_items (flat_item name process) xs) = None"
    using that
  proof (induction xs)
    case (Cons x xs)
    obtain out e k where "process x = (out, e, k)" by (cases "process x")
    with Cons show ?case
      using flat_processes_error [OF assms(1), of x out]
      by (auto simp: flat_item_def flat_yield_def WrapStageErr_Some split: option.splits prod.splits if_splits)
  qed simp
  moreover have "outputs (flatMapSerial name process) (closing xs) = fst (run_items (flat_item name process) xs)"
    by (simp add: flatMapSerial_def outputs_def exec_item_loop_closing)
  moreover note mc_complete [OF assms(2) [unfolded flatMapConcurrent_def]]
    and mo_order [OF assms(3) [unfolded flatMapOrdered_def]]
  moreover have "length (mc_running sc) + length (mc_sending sc) \<le> n"
    using mc_reach_inv [OF assms(2) [unfolded flatMapConcurrent_def]] by (simp add: mc_inv_def)
  moreover have "mo_tokens so \<le> m"
    using mo_reach_inv [OF assms(3) [unfolded flatMapOrdered_def]] by (simp add: mo_inv_def)
  ultimately show ?thesis by simp
qed

definition twice :: "nat \<Rightarrow> nat \<Rightarrow> nat list \<times> go_error option" where
  "twice x attempt = ([x, x], None)"

lemma twice_processes: "flat_processes 1 twice None (\<lambda>_ _. None) (\<lambda>x. ([x, x], None, 0))"
  by (simp add: flat_processes_def ProcessFlatMapItem_def twice_def)

theorem flat_map_variants_agree_witness:
  "outputs (flatMapSerial ''fm'' (\<lambda>x. ([x, x], None, 0))) (closing [4, 5::nat]) = [4, 4, 5, 5]"
  using flat_map_variants_agree [OF twice_processes, of 2 "''fm''" "[4, 5]" "mc_init [4, 5]" 2 "mo_init [4, 5]"]
  by (auto simp: flatMapConcurrent_def flatMapOrdered_def flat_item_def flat_yield_def
      intro: mc_reach.intros mo_reach.intros)

text \<open>
  Whatever the block boundaries, the fast path of \<^verbatim>\<open>FlatMap\<close> returns what the serial path
  returns and sends what it sends, and when an item fails, also what that item had yielded before
  its error, which the serial path discards.
\<close>

theorem flat_fast_path_sends_partial:
  assumes "flat_processes fuel fn (Some DefaultHandler) cancelled process"
    and "\<And>x. x \<in> set xs \<Longrightarrow> snd (fn x 0) \<noteq> Some ErrSkipped"
    and "\<forall>b \<in> set bs. block_ctx b = None" and "unblock bs = closing xs"
  shows "returns (flatMapSerialFastPath name (\<lambda>x. fn x 0)) bs = returns (flatMapSerial name process) (closing xs) \<and>
         outputs (flatMapSerialFastPath name (\<lambda>x. fn x 0)) bs =
           outputs (flatMapSerial name process) (closing xs) @
           (case find (\<lambda>x. snd (fn x 0) \<noteq> None) xs of Some x \<Rightarrow> fst (fn x 0) | None \<Rightarrow> [])"
proof -
  have "loop_init (block_loop c d mode g) = ()" for c d mode and g :: "('a, 'b) item_fn" by simp
  then show ?thesis
    using exec_block_loop [OF assms(3), of True True SendBare "flat_item_fast name (\<lambda>x. fn x 0)" "()"]
      run_flat_paths [OF assms(1,2), of xs name]
    by (simp add: outputs_def returns_def flatMapSerialFastPath_def flatMapSerial_def assms(4) exec_item_loop_closing)
qed

definition half_way :: "nat \<Rightarrow> nat \<Rightarrow> nat list \<times> go_error option" where
  "half_way x attempt = (if x = 0 then ([7], Some (Plain ''bad'')) else ([x], None))"

theorem flat_fast_path_sends_partial_witness:
  "outputs (flatMapSerialFastPath ''fm'' (\<lambda>x. half_way x 0)) [Block [1, 0] True None] =
   outputs (flatMapSerial ''fm'' (\<lambda>x. (if x = 0 then [] else [x], snd (half_way x 0), 0))) (closing [1, 0]) @ [7]"
proof -
  have "flat_processes 1 half_way (Some DefaultHandler) (\<lambda>_ _. None)
      (\<lambda>x. (if x = 0 then [] else [x], snd (half_way x 0), 0))"
    by (simp add: flat_processes_def ProcessFlatMapItem_def half_way_def)
  from flat_fast_path_sends_partial [OF this, of "[1, 0]" "[Block [1, 0] True None]" "''fm''"]
  show ?thesis by (auto simp: half_way_def)
qed

text \<open>
  \<^verbatim>\<open>ConcatMap\<close> accepts only options with concurrency one and then always runs a serial loop.
\<close>

theorem concat_map_serial:
  "(ConcatMap opts = None \<longleftrightarrow> cfg_concurrency (buildStageConfig opts) \<noteq> 1) \<and>
   (\<forall>opts'. ConcatMap opts = Some opts' \<longrightarrow>
      flat_variant (buildStageConfig opts') run_handler hook \<in> {FlatFast, FlatSerial})"
  by (auto simp: ConcatMap_def flat_variant_def Let_def buildStageConfig_def)

text \<open>
  C4: \<^verbatim>\<open>MapResult\<close> routes every item to exactly one output, in input order on each; \<^verbatim>\<open>MapRecover\<close>
  sends exactly one value per item, the function's or the recovered one, even when the function
  panics; neither stage ever returns an error of the function.
\<close>

theorem map_result_recover:
  "on_output 0 (outputs (op_loop (MapResult cfg okID errID p fn)) (closing xs)) =
     map OkItem (List.map_filter (\<lambda>x. case fn x of Inr v \<Rightarrow> Some v | Inl _ \<Rightarrow> None) xs) \<and>
   on_output 1 (outputs (op_loop (MapResult cfg okID errID p fn)) (closing xs)) =
     List.map_filter (\<lambda>x. case fn x of Inl e \<Rightarrow> Some (ErrItem x e) | Inr _ \<Rightarrow> None) xs \<and>
   returns (op_loop (MapResult cfg okID errID p fn)) (closing xs) = Return None \<and>
   outputs (op_loop (MapRecover cfg' i p render g recover)) (closing ys) =
     map (\<lambda>y. case callRecover render (g y) of Inr v \<Rightarrow> v | Inl e \<Rightarrow> recover y e) ys \<and>
   returns (op_loop (MapRecover cfg' i p render g recover)) (closing ys) = Return None"
proof -
  have "on_output 0 (map (map_result_out fn) xs) =
      map OkItem (List.map_filter (\<lambda>x. case fn x of Inr v \<Rightarrow> Some v | Inl _ \<Rightarrow> None) xs)"
    by (induction xs) (auto simp: map_result_out_def List.map_filter_simps split: sum.splits)
  moreover have "on_output 1 (map (map_result_out fn) xs) =
      List.map_filter (\<lambda>x. case fn x of Inl e \<Rightarrow> Some (ErrItem x e) | Inr _ \<Rightarrow> None) xs"
    by (induction xs) (auto simp: map_result_out_def List.map_filter_simps split: sum.splits)
  ultimately show ?thesis
    by (simp add: MapResult_def MapRecover_def fan_out_def map_result.results map_recover.results emissions_map)
qed

end
