(* ===== verification/Switch_Ops.thy ===== *)
theory Switch_Ops
  imports Flat_Ops
begin

text \<open>
  \<^verbatim>\<open>SwitchMap\<close> and \<^verbatim>\<open>ExhaustMap\<close> (\<^verbatim>\<open>advanced.go\<close>) as step relations: the loop that reads items, and
  the goroutines that run their sub-streams. \<^verbatim>\<open>process x\<close> is the answer of \<^verbatim>\<open>ProcessFlatMapItem\<close>
  for a sub-stream that is not cancelled: it buffers what the function yields and sends it when
  the function is done. A cancelled function may answer anything.
\<close>

section \<open>SwitchMap\<close>

datatype 'o sub_state = Computing | Flushing "'o list" | Finished

record ('i, 'o) sub =
  sub_item :: 'i
  sub_state :: "'o sub_state"
  sub_cancelled :: bool

text \<open>
  \<^verbatim>\<open>sw_subs\<close> are the sub-streams in the order they were started; an output carries the number of
  the sub-stream that sent it. \<^verbatim>\<open>sw_err\<close> is the error channel of capacity one.
\<close>

record ('i, 'o) sw =
  sw_input :: "'i list"
  sw_looping :: bool
  sw_subs :: "('i, 'o) sub list"
  sw_out :: "(nat \<times> 'o) list"
  sw_err :: "go_error option"
  sw_loop_err :: "go_error option"
  sw_outer :: bool
  sw_coop :: bool
  sw_returned :: "go_error option option"

definition sw_init :: "'i list \<Rightarrow> ('i, 'o) sw" where
  "sw_init xs =
     \<lparr>sw_input = xs, sw_looping = True, sw_subs = [], sw_out = [], sw_err = None, sw_loop_err = None,
      sw_outer = False, sw_coop = False, sw_returned = None\<rparr>"

definition cancel_all :: "('i, 'o) sub list \<Rightarrow> ('i, 'o) sub list" where
  "cancel_all subs = map (\<lambda>b. b\<lparr>sub_cancelled := True\<rparr>) subs"

definition set_state :: "nat \<Rightarrow> 'o sub_state \<Rightarrow> ('i, 'o) sub list \<Rightarrow> ('i, 'o) sub list" where
  "set_state k st subs = subs[k := (subs ! k)\<lparr>sub_state := st\<rparr>]"

text \<open>The context of a sub-stream is done when it was switched away from or the run is cancelled.\<close>

definition sub_done :: "('i, 'o) sw \<Rightarrow> nat \<Rightarrow> bool" where
  "sub_done s k \<longleftrightarrow> sub_cancelled (sw_subs s ! k) \<or> sw_outer s"

text \<open>The function of sub-stream \<^verbatim>\<open>k\<close> has answered.\<close>

definition sub_answer ::
  "string \<Rightarrow> nat \<Rightarrow> 'o list \<times> go_error option \<times> nat \<Rightarrow> ('i, 'o) sw \<Rightarrow> ('i, 'o) sw" where
  "sub_answer name k r s =
     (case r of
        (out, None, _) \<Rightarrow> s\<lparr>sw_subs := set_state k (Flushing out) (sw_subs s)\<rparr>
      | (out, Some err, _) \<Rightarrow>
          (let s' = s\<lparr>sw_subs := set_state k Finished (sw_subs s)\<rparr>
           in if err \<noteq> ErrSkipped \<and> \<not> sub_done s k
              then s'\<lparr>sw_err := reportErr (sw_err s) (WrapStageErr name (Some err) 0)\<rparr> else s'))"

inductive sw_step ::
  "string \<Rightarrow> ('i \<Rightarrow> 'o list \<times> go_error option \<times> nat) \<Rightarrow> ('i, 'o) sw \<Rightarrow> ('i, 'o) sw \<Rightarrow> bool"
  for name :: string and process :: "'i \<Rightarrow> 'o list \<times> go_error option \<times> nat" where
  sw_recv: "sw_looping s \<Longrightarrow> sw_input s = x # xs \<Longrightarrow>
     sw_step name process s
       (s\<lparr>sw_input := xs,
          sw_subs := cancel_all (sw_subs s) @ [\<lparr>sub_item = x, sub_state = Computing, sub_cancelled = False\<rparr>]\<rparr>)"
| sw_closed: "sw_looping s \<Longrightarrow> sw_input s = [] \<Longrightarrow> sw_step name process s (s\<lparr>sw_looping := False\<rparr>)"
| sw_failed: "sw_looping s \<Longrightarrow> sw_err s = Some e \<Longrightarrow>
     sw_step name process s
       (s\<lparr>sw_looping := False, sw_err := None, sw_loop_err := Some e, sw_subs := cancel_all (sw_subs s)\<rparr>)"
| sw_ctx: "sw_looping s \<Longrightarrow> sw_outer s \<Longrightarrow>
     sw_step name process s (s\<lparr>sw_looping := False, sw_subs := cancel_all (sw_subs s)\<rparr>)"
| sw_drain: "sw_looping s \<Longrightarrow>
     sw_step name process s (s\<lparr>sw_looping := False, sw_coop := True, sw_subs := cancel_all (sw_subs s)\<rparr>)"
| sw_outer_cancel: "sw_step name process s (s\<lparr>sw_outer := True\<rparr>)"
| sw_work: "k < length (sw_subs s) \<Longrightarrow> sub_state (sw_subs s ! k) = Computing \<Longrightarrow>
     r = process (sub_item (sw_subs s ! k)) \<or> sub_done s k \<Longrightarrow>
     sw_step name process s (sub_answer name k r s)"
| sw_send: "k < length (sw_subs s) \<Longrightarrow> sub_state (sw_subs s ! k) = Flushing (v # vs) \<Longrightarrow>
     sw_step name process s
       (s\<lparr>sw_subs := set_state k (Flushing vs) (sw_subs s), sw_out := sw_out s @ [(k, v)]\<rparr>)"
| sw_cut: "k < length (sw_subs s) \<Longrightarrow> sub_state (sw_subs s ! k) = Flushing (v # vs) \<Longrightarrow> sub_done s k \<Longrightarrow>
     sw_step name process s (s\<lparr>sw_subs := set_state k Finished (sw_subs s)\<rparr>)"
| sw_finish: "k < length (sw_subs s) \<Longrightarrow> sub_state (sw_subs s ! k) = Flushing [] \<Longrightarrow>
     sw_step name process s (s\<lparr>sw_subs := set_state k Finished (sw_subs s)\<rparr>)"
| sw_return: "\<not> sw_looping s \<Longrightarrow> (\<forall>b \<in> set (sw_subs s). sub_state b = Finished) \<Longrightarrow> sw_returned s = None \<Longrightarrow>
     sw_step name process s
       (s\<lparr>sw_returned := Some (case sw_loop_err s of Some e \<Rightarrow> Some e | None \<Rightarrow> sw_err s)\<rparr>)"

inductive sw_reach ::
  "string \<Rightarrow> ('i \<Rightarrow> 'o list \<times> go_error option \<times> nat) \<Rightarrow> 'i list \<Rightarrow> ('i, 'o) sw \<Rightarrow> bool"
  for name :: string and process :: "'i \<Rightarrow> 'o list \<times> go_error option \<times> nat" and xs :: "'i list" where
  sw_start: "sw_reach name process xs (sw_init xs)"
| sw_next: "sw_reach name process xs s \<Longrightarrow> sw_step name process s s' \<Longrightarrow> sw_reach name process xs s'"

text \<open>The items reach their sub-streams in order, and only the newest may be live.\<close>

definition sw_shape :: "'i list \<Rightarrow> ('i, 'o) sw \<Rightarrow> bool" where
  "sw_shape xs s \<longleftrightarrow>
     map sub_item (sw_subs s) @ sw_input s = xs
     \<and> (\<forall>k. Suc k < length (sw_subs s) \<longrightarrow> sub_cancelled (sw_subs s ! k))
     \<and> (\<forall>p \<in> set (sw_out s). fst p < length (sw_subs s))
     \<and> (\<not> sw_looping s \<longrightarrow> sw_input s = [] \<or> sw_loop_err s \<noteq> None \<or> sw_coop s \<or> sw_outer s)
     \<and> (\<forall>r. sw_returned s = Some r \<longrightarrow> \<not> sw_looping s \<and> (\<forall>b \<in> set (sw_subs s). sub_state b = Finished) \<and>
          (sw_loop_err s \<noteq> None \<longrightarrow> r \<noteq> None) \<and> (sw_err s \<noteq> None \<longrightarrow> r \<noteq> None))"

definition sw_live :: "('i \<Rightarrow> 'o list \<times> go_error option \<times> nat) \<Rightarrow> ('i, 'o) sw \<Rightarrow> bool" where
  "sw_live process s \<longleftrightarrow>
     (\<forall>k. k < length (sw_subs s) \<and> Suc k = length (sw_subs s) \<longrightarrow>
        (sub_cancelled (sw_subs s ! k) \<longrightarrow> sw_loop_err s \<noteq> None \<or> sw_coop s \<or> sw_outer s) \<and>
        (\<not> sub_cancelled (sw_subs s ! k) \<and> \<not> sw_outer s \<longrightarrow>
           (case sub_state (sw_subs s ! k) of
              Computing \<Rightarrow> on_output k (sw_out s) = []
            | Flushing vs \<Rightarrow> on_output k (sw_out s) @ vs = flat_yield process (sub_item (sw_subs s ! k))
            | Finished \<Rightarrow> on_output k (sw_out s) = flat_yield process (sub_item (sw_subs s ! k)) \<or> sw_err s \<noteq> None)))"

lemma cancel_all_sel [simp]:
  "length (cancel_all subs) = length subs" "map sub_item (cancel_all subs) = map sub_item subs"
  "k < length subs \<Longrightarrow> cancel_all subs ! k = (subs ! k)\<lparr>sub_cancelled := True\<rparr>"
  by (simp_all add: cancel_all_def)

lemma set_state_sel [simp]:
  "length (set_state k st subs) = length subs"
  "map sub_item (set_state k st subs) = map sub_item subs"
  "j < length subs \<Longrightarrow> set_state k st subs ! j = (if j = k then (subs ! j)\<lparr>sub_state := st\<rparr> else subs ! j)"
proof -
  show "map sub_item (set_state k st subs) = map sub_item subs"
    by (cases "k < length subs") (simp_all add: set_state_def list_eq_iff_nth_eq nth_list_update list_update_beyond)
qed (simp_all add: set_state_def nth_list_update)

lemma sub_answer_sel [simp]:
  "sw_input (sub_answer name k r s) = sw_input s" "sw_looping (sub_answer name k r s) = sw_looping s"
  "sw_out (sub_answer name k r s) = sw_out s" "sw_loop_err (sub_answer name k r s) = sw_loop_err s"
  "sw_outer (sub_answer name k r s) = sw_outer s" "sw_coop (sub_answer name k r s) = sw_coop s"
  "sw_returned (sub_answer name k r s) = sw_returned s"
  by (auto simp: sub_answer_def Let_def split: prod.splits option.splits)

lemma sub_answer_subs:
  obtains st where "st \<noteq> Computing" "sw_subs (sub_answer name k r s) = set_state k st (sw_subs s)"
  by (rule that [of "case r of (out, None, _) \<Rightarrow> Flushing out | _ \<Rightarrow> Finished"])
    (auto simp: sub_answer_def Let_def split: prod.splits option.splits)

lemma sw_shape_step: "sw_step name process s s' \<Longrightarrow> sw_shape xs s \<Longrightarrow> sw_shape xs s'"
proof (induction rule: sw_step.induct)
  case (sw_recv s x ys)
  then show ?case by (auto simp: sw_shape_def nth_append less_Suc_eq)
next
  case (sw_work k s r)
  then have "sw_returned s = None" by (cases "sw_returned s") (auto simp: sw_shape_def)
  moreover obtain st where "sw_subs (sub_answer name k r s) = set_state k st (sw_subs s)"
    by (rule sub_answer_subs)
  ultimately show ?case using sw_work by (auto simp: sw_shape_def)
next
  case (sw_send k s v vs)
  then have "sw_returned s = None" by (cases "sw_returned s") (auto simp: sw_shape_def)
  with sw_send show ?case by (auto simp: sw_shape_def)
next
  case (sw_cut k s v vs)
  then have "sw_returned s = None" by (cases "sw_returned s") (auto simp: sw_shape_def)
  with sw_cut show ?case by (auto simp: sw_shape_def)
next
  case (sw_finish k s)
  then have "sw_returned s = None" by (cases "sw_returned s") (auto simp: sw_shape_def)
  with sw_finish show ?case by (auto simp: sw_shape_def)
next
  case (sw_return s)
  then show ?case by (auto simp: sw_shape_def split: option.splits)
qed (auto simp: sw_shape_def)

lemma on_output_fresh: "\<forall>p \<in> set os. fst p < k \<Longrightarrow> on_output k os = []"
  by (auto simp: on_output_def filter_empty_conv)

lemma sw_live_step: "sw_step name process s s' \<Longrightarrow> sw_shape xs s \<Longrightarrow> sw_live process s \<Longrightarrow> sw_live process s'"
proof (induction rule: sw_step.induct)
  case (sw_recv s x ys)
  then show ?case
    by (auto simp: sw_live_def sw_shape_def nth_append on_output_fresh)
next
  case (sw_work k s r)
  obtain out e a where r: "r = (out, e, a)" by (cases r)
  obtain out' e' a' where p: "process (sub_item (sw_subs s ! k)) = (out', e', a')"
    by (cases "process (sub_item (sw_subs s ! k))")
  show ?case
    using sw_work r p
    by (cases e) (auto simp: sw_live_def sub_answer_def Let_def sub_done_def flat_yield_def WrapStageErr_Some reportErr_def
        split: option.splits sub_state.splits)
qed (auto simp: sw_live_def sw_shape_def sub_done_def split: sub_state.splits if_splits)

lemma sw_reach_inv: "sw_reach name process xs s \<Longrightarrow> sw_shape xs s \<and> sw_live process s"
proof (induction rule: sw_reach.induct)
  case sw_start
  then show ?case by (simp add: sw_shape_def sw_live_def sw_init_def)
next
  case (sw_next s s')
  then show ?case using sw_shape_step [of name process s s' xs] sw_live_step [of name process s s' xs] by blast
qed

section \<open>ExhaustMap\<close>

text \<open>
  \<^verbatim>\<open>ex_active\<close> is the sub-stream that holds the semaphore, \<^verbatim>\<open>ex_started\<close> and \<^verbatim>\<open>ex_dropped\<close> what became
  of the items. After the loop: what it returns once the sub-stream has ended, where a closed
  input looks at the error channel then.
\<close>

datatype ex_phase = ExLooping | ExClosing | ExWaiting "go_error option"

record ('i, 'o) ex =
  ex_input :: "'i list"
  ex_phase :: ex_phase
  ex_active :: "('i \<times> 'o sub_state) option"
  ex_started :: "'i list"
  ex_dropped :: "'i list"
  ex_out :: "'o list"
  ex_err :: "go_error option"
  ex_ctx :: "go_error option"
  ex_coop :: bool
  ex_returned :: "go_error option option"

definition ex_init :: "'i list \<Rightarrow> ('i, 'o) ex" where
  "ex_init xs =
     \<lparr>ex_input = xs, ex_phase = ExLooping, ex_active = None, ex_started = [], ex_dropped = [], ex_out = [],
      ex_err = None, ex_ctx = None, ex_coop = False, ex_returned = None\<rparr>"

definition ex_answer ::
  "string \<Rightarrow> 'i \<Rightarrow> 'o list \<times> go_error option \<times> nat \<Rightarrow> ('i, 'o) ex \<Rightarrow> ('i, 'o) ex" where
  "ex_answer name x r s =
     (case r of
        (out, None, _) \<Rightarrow> s\<lparr>ex_active := Some (x, Flushing out)\<rparr>
      | (out, Some err, _) \<Rightarrow>
          (let s' = s\<lparr>ex_active := None\<rparr>
           in if err \<noteq> ErrSkipped \<and> ex_ctx s = None
              then s'\<lparr>ex_err := reportErr (ex_err s) (WrapStageErr name (Some err) 0)\<rparr> else s'))"

inductive ex_step ::
  "string \<Rightarrow> ('i \<Rightarrow> 'o list \<times> go_error option \<times> nat) \<Rightarrow> ('i, 'o) ex \<Rightarrow> ('i, 'o) ex \<Rightarrow> bool"
  for name :: string and process :: "'i \<Rightarrow> 'o list \<times> go_error option \<times> nat" where
  ex_launch: "ex_phase s = ExLooping \<Longrightarrow> ex_input s = x # xs \<Longrightarrow> ex_active s = None \<Longrightarrow>
     ex_step name process s
       (s\<lparr>ex_input := xs, ex_active := Some (x, Computing), ex_started := ex_started s @ [x]\<rparr>)"
| ex_busy: "ex_phase s = ExLooping \<Longrightarrow> ex_input s = x # xs \<Longrightarrow> ex_active s \<noteq> None \<Longrightarrow>
     ex_step name process s (s\<lparr>ex_input := xs, ex_dropped := ex_dropped s @ [x]\<rparr>)"
| ex_closed: "ex_phase s = ExLooping \<Longrightarrow> ex_input s = [] \<Longrightarrow> ex_step name process s (s\<lparr>ex_phase := ExClosing\<rparr>)"
| ex_failed: "ex_phase s = ExLooping \<Longrightarrow> ex_err s = Some e \<Longrightarrow>
     ex_step name process s (s\<lparr>ex_phase := ExWaiting (Some e), ex_err := None\<rparr>)"
| ex_ctx_seen: "ex_phase s = ExLooping \<Longrightarrow> ex_ctx s = Some e \<Longrightarrow>
     ex_step name process s (s\<lparr>ex_phase := ExWaiting (Some e)\<rparr>)"
| ex_drain: "ex_phase s = ExLooping \<Longrightarrow>
     ex_step name process s (s\<lparr>ex_phase := ExWaiting None, ex_coop := True\<rparr>)"
| ex_ctx_done: "ex_ctx s = None \<Longrightarrow> ex_step name process s (s\<lparr>ex_ctx := Some e\<rparr>)"
| ex_work: "ex_active s = Some (x, Computing) \<Longrightarrow> r = process x \<or> ex_ctx s \<noteq> None \<Longrightarrow>
     ex_step name process s (ex_answer name x r s)"
| ex_send: "ex_active s = Some (x, Flushing (v # vs)) \<Longrightarrow>
     ex_step name process s (s\<lparr>ex_active := Some (x, Flushing vs), ex_out := ex_out s @ [v]\<rparr>)"
| ex_cut: "ex_active s = Some (x, Flushing (v # vs)) \<Longrightarrow> ex_ctx s \<noteq> None \<Longrightarrow>
     ex_step name process s (s\<lparr>ex_active := None\<rparr>)"
| ex_finish: "ex_active s = Some (x, Flushing []) \<Longrightarrow> ex_step name process s (s\<lparr>ex_active := None\<rparr>)"
| ex_return_closed: "ex_phase s = ExClosing \<Longrightarrow> ex_active s = None \<Longrightarrow> ex_returned s = None \<Longrightarrow>
     ex_step name process s (s\<lparr>ex_returned := Some (ex_err s)\<rparr>)"
| ex_return: "ex_phase s = ExWaiting r \<Longrightarrow> ex_active s = None \<Longrightarrow> ex_returned s = None \<Longrightarrow>
     ex_step name process s (s\<lparr>ex_returned := Some r\<rparr>)"

inductive ex_reach ::
  "string \<Rightarrow> ('i \<Rightarrow> 'o list \<times> go_error option \<times> nat) \<Rightarrow> 'i list \<Rightarrow> ('i, 'o) ex \<Rightarrow> bool"
  for name :: string and process :: "'i \<Rightarrow> 'o list \<times> go_error option \<times> nat" and xs :: "'i list" where
  ex_start: "ex_reach name process xs (ex_init xs)"
| ex_next: "ex_reach name process xs s \<Longrightarrow> ex_step name process s s' \<Longrightarrow> ex_reach name process xs s'"

text \<open>What the active sub-stream has still to send.\<close>

definition ex_pending :: "('i \<Rightarrow> 'o list \<times> go_error option \<times> nat) \<Rightarrow> ('i, 'o) ex \<Rightarrow> 'o list" where
  "ex_pending process s =
     (case ex_active s of
        Some (x, Computing) \<Rightarrow> flat_yield process x
      | Some (x, Flushing vs) \<Rightarrow> vs
      | _ \<Rightarrow> [])"

definition ex_inv :: "('i \<Rightarrow> 'o list \<times> go_error option \<times> nat) \<Rightarrow> 'i list \<Rightarrow> ('i, 'o) ex \<Rightarrow> bool" where
  "ex_inv process xs s \<longleftrightarrow>
     mset xs = mset (ex_started s) + mset (ex_dropped s) + mset (ex_input s)
     \<and> subseq (ex_started s @ ex_input s) xs
     \<and> (ex_ctx s = None \<longrightarrow>
          ex_out s @ ex_pending process s = concat (map (flat_yield process) (ex_started s)))
     \<and> (ex_phase s = ExClosing \<longrightarrow> ex_input s = [])
     \<and> (\<forall>r. ex_phase s = ExWaiting r \<longrightarrow> r \<noteq> None \<or> ex_coop s)
     \<and> (\<forall>r. ex_returned s = Some r \<longrightarrow> ex_active s = None \<and>
          (ex_phase s = ExClosing \<or> ex_phase s = ExWaiting r))"

lemma subseq_skip: "subseq (st @ x # ys) xs \<Longrightarrow> subseq (st @ ys) xs"
  by (rule subseq_order.trans [of _ "st @ x # ys"]) (simp_all add: subseq_append' list_emb_Cons)

lemma ex_step_inv: "ex_step name process s s' \<Longrightarrow> ex_inv process xs s \<Longrightarrow> ex_inv process xs s'"
proof (induction rule: ex_step.induct)
  case (ex_launch s x ys)
  then show ?case by (auto simp: ex_inv_def ex_pending_def)
next
  case (ex_busy s x ys)
  then show ?case by (auto simp: ex_inv_def ex_pending_def dest: subseq_skip)
next
  case (ex_work s x r)
  obtain out e k where r: "r = (out, e, k)" by (cases r)
  with ex_work(2) have "process x = (out, e, k) \<or> ex_ctx s \<noteq> None" by auto
  with ex_work(1,3) r show ?case
    by (cases e) (auto simp: ex_inv_def ex_pending_def ex_answer_def Let_def flat_yield_def)
qed (auto simp: ex_inv_def ex_pending_def)

lemma ex_reach_inv: "ex_reach name process xs s \<Longrightarrow> ex_inv process xs s"
proof (induction rule: ex_reach.induct)
  case ex_start
  then show ?case by (simp add: ex_inv_def ex_init_def ex_pending_def)
qed (rule ex_step_inv)

section \<open>Properties\<close>

text \<open>
  C21: \<^verbatim>\<open>SwitchMap\<close> starts a sub-stream for every item in order and keeps at most the newest alive;
  when it returns nil, neither cancelled nor drained, the last item's sub-stream was delivered in
  full and in order.
\<close>

theorem switch_map_newest_wins:
  assumes "sw_reach name process xs s"
  shows "prefix (map sub_item (sw_subs s)) xs \<and>
         (\<forall>k. Suc k < length (sw_subs s) \<longrightarrow> sub_cancelled (sw_subs s ! k)) \<and>
         (sw_returned s = Some None \<and> \<not> sw_outer s \<and> \<not> sw_coop s \<and> xs \<noteq> [] \<longrightarrow>
            on_output (length xs - 1) (sw_out s) = flat_yield process (last xs))"
proof -
  from sw_reach_inv [OF assms] have shape: "sw_shape xs s" and live: "sw_live process s" by auto
  have "on_output (length xs - 1) (sw_out s) = flat_yield process (last xs)"
    if ret: "sw_returned s = Some None" "\<not> sw_outer s" "\<not> sw_coop s" and "xs \<noteq> []"
  proof -
    have "\<not> sw_looping s" "sw_loop_err s = None" "sw_err s = None"
      and fin: "\<forall>b \<in> set (sw_subs s). sub_state b = Finished"
      using shape ret by (auto simp: sw_shape_def)
    with shape ret have xs: "xs = map sub_item (sw_subs s)" by (auto simp: sw_shape_def)
    define k where "k = length (sw_subs s) - 1"
    have k: "k < length (sw_subs s)" "Suc k = length (sw_subs s)" "k = length xs - 1"
      using \<open>xs \<noteq> []\<close> by (auto simp: xs k_def)
    moreover have "sub_state (sw_subs s ! k) = Finished" using fin k(1) by simp
    moreover have "sub_item (sw_subs s ! k) = last xs"
      using k \<open>xs \<noteq> []\<close> by (simp add: last_conv_nth xs)
    ultimately show ?thesis
      using live [unfolded sw_live_def, rule_format, of k] ret \<open>sw_loop_err s = None\<close> \<open>sw_err s = None\<close> by auto
  qed
  then show ?thesis using shape by (auto simp: sw_shape_def)
qed

lemma sw_single_run:
  assumes "process a = ([v], None, 0)"
  shows "\<exists>s. sw_reach name process [a] s \<and> sw_returned s = Some None \<and> \<not> sw_outer s \<and> \<not> sw_coop s"
proof -
  let ?sub = "\<lambda>st. [\<lparr>sub_item = a, sub_state = st, sub_cancelled = False\<rparr>]"
  let ?s0 = "sw_init [a]"
  let ?s1 = "?s0\<lparr>sw_input := [], sw_subs := ?sub Computing\<rparr>"
  let ?s2 = "?s1\<lparr>sw_subs := ?sub (Flushing [v])\<rparr>"
  let ?s3 = "?s2\<lparr>sw_subs := ?sub (Flushing []), sw_out := [(0, v)]\<rparr>"
  let ?s4 = "?s3\<lparr>sw_subs := ?sub Finished\<rparr>"
  let ?s5 = "?s4\<lparr>sw_looping := False\<rparr>"
  let ?s6 = "?s5\<lparr>sw_returned := Some None\<rparr>"
  note [simp] = sw_init_def set_state_def cancel_all_def sub_answer_def assms
  have "sw_step name process ?s0 ?s1" using sw_recv [of ?s0 a "[]" name process] by simp
  moreover have "sw_step name process ?s1 ?s2" using sw_work [of 0 ?s1 "process a" process name] by simp
  moreover have "sw_step name process ?s2 ?s3" using sw_send [of 0 ?s2 v "[]" name process] by simp
  moreover have "sw_step name process ?s3 ?s4" using sw_finish [of 0 ?s3 name process] by simp
  moreover have "sw_step name process ?s4 ?s5" by (rule sw_closed) simp_all
  moreover have "sw_step name process ?s5 ?s6" using sw_return [of ?s5 name process] by simp
  ultimately have "sw_reach name process [a] ?s6" by (meson sw_reach.intros)
  then show ?thesis by (intro exI [of _ ?s6]) simp
qed

theorem switch_map_newest_wins_witness:
  "\<exists>s. sw_reach ''switch'' (\<lambda>x. ([x + 1], None, 0)) [6::nat] s \<and> on_output 0 (sw_out s) = [7]"
proof -
  obtain s where s: "sw_reach ''switch'' (\<lambda>x. ([x + 1], None, 0)) [6::nat] s" "sw_returned s = Some None"
    "\<not> sw_outer s" "\<not> sw_coop s"
    using sw_single_run [of "\<lambda>x. ([x + 1], None, 0)" "6::nat"] by auto
  with switch_map_newest_wins [OF s(1)] show ?thesis by (auto simp: flat_yield_def)
qed

text \<open>
  A sub-stream that was switched away from can still send, even after its successor has: its
  cancelled context only competes with the send in \<^verbatim>\<open>outbox.Send\<close>. (The documentation says that
  only outputs of the newest sub-stream are forwarded.)
\<close>

theorem switch_map_stale_output:
  assumes "process a = ([v], None, 0)" and "process b = ([w], None, 0)"
  shows "\<exists>s. sw_reach name process [a, b] s \<and> sub_cancelled (sw_subs s ! 0) \<and> sw_out s = [(1, w), (0, v)]"
proof -
  let ?sub = "\<lambda>x st c. \<lparr>sub_item = x, sub_state = st, sub_cancelled = c\<rparr>"
  let ?s0 = "sw_init [a, b]"
  let ?s1 = "?s0\<lparr>sw_input := [b], sw_subs := [?sub a Computing False]\<rparr>"
  let ?s2 = "?s1\<lparr>sw_subs := [?sub a (Flushing [v]) False]\<rparr>"
  let ?s3 = "?s2\<lparr>sw_input := [], sw_subs := [?sub a (Flushing [v]) True, ?sub b Computing False]\<rparr>"
  let ?s4 = "?s3\<lparr>sw_subs := [?sub a (Flushing [v]) True, ?sub b (Flushing [w]) False]\<rparr>"
  let ?s5 = "?s4\<lparr>sw_subs := [?sub a (Flushing [v]) True, ?sub b (Flushing []) False], sw_out := [(1, w)]\<rparr>"
  let ?s6 = "?s5\<lparr>sw_subs := [?sub a (Flushing []) True, ?sub b (Flushing []) False], sw_out := [(1, w), (0, v)]\<rparr>"
  note [simp] = sw_init_def set_state_def cancel_all_def sub_answer_def assms
  have "sw_step name process ?s0 ?s1" using sw_recv [of ?s0 a "[b]" name process] by simp
  moreover have "sw_step name process ?s1 ?s2" using sw_work [of 0 ?s1 "process a" process name] by simp
  moreover have "sw_step name process ?s2 ?s3" using sw_recv [of ?s2 b "[]" name process] by simp
  moreover have "sw_step name process ?s3 ?s4" using sw_work [of 1 ?s3 "process b" process name] by simp
  moreover have "sw_step name process ?s4 ?s5" using sw_send [of 1 ?s4 w "[]" name process] by simp
  moreover have "sw_step name process ?s5 ?s6" using sw_send [of 0 ?s5 v "[]" name process] by simp
  ultimately have "sw_reach name process [a, b] ?s6" by (meson sw_reach.intros)
  then show ?thesis by (intro exI [of _ ?s6]) simp
qed

theorem switch_map_stale_output_witness:
  "\<exists>s. sw_reach ''switch'' (\<lambda>x. ([x], None, 0)) [1::nat, 2] s \<and> sw_out s = [(1, 2), (0, 1)]"
  using switch_map_stale_output [of "\<lambda>x. ([x], None, 0)" "1::nat" 1 2 2 "''switch''"] by auto

text \<open>
  \<^verbatim>\<open>ExhaustMap\<close> runs one sub-stream at a time: every item is either started or dropped, the
  started ones in input order, and until a cancellation the output is the concatenation of the
  started items' values, up to what the active one has still to send. A nil return that was
  neither cancelled nor drained has sent all of them and consumed the input.
\<close>

theorem exhaust_map_sequential:
  assumes "ex_reach name process xs s"
  shows "mset xs = mset (ex_started s) + mset (ex_dropped s) + mset (ex_input s) \<and>
         subseq (ex_started s) xs \<and>
         (ex_ctx s = None \<longrightarrow> prefix (ex_out s) (concat (map (flat_yield process) (ex_started s)))) \<and>
         (ex_returned s = Some None \<and> ex_ctx s = None \<and> \<not> ex_coop s \<longrightarrow>
            ex_input s = [] \<and> ex_out s = concat (map (flat_yield process) (ex_started s)))"
proof -
  have inv: "ex_inv process xs s" using ex_reach_inv [OF assms] .
  then have "subseq (ex_started s) xs" 
    unfolding ex_inv_def by (meson prefixI prefix_imp_subseq subseq_order.trans)
  moreover have "ex_ctx s = None \<longrightarrow> prefix (ex_out s) (concat (map (flat_yield process) (ex_started s)))"
    using inv unfolding ex_inv_def by (metis prefixI)
  ultimately show ?thesis using inv by (auto simp: ex_inv_def ex_pending_def)
qed

end
