(* ===== verification/Expand_Map.thy ===== *)
theory Expand_Map
  imports Key_Sets Run_Context
begin

text \<open>
  \<^verbatim>\<open>ExpandMap\<close> (\<^verbatim>\<open>operator_filter.go\<close>): breadth-first expansion with the options \<^verbatim>\<open>MaxDepth\<close>,
  \<^verbatim>\<open>MaxItems\<close> and \<^verbatim>\<open>VisitedBy\<close>. A nested pipeline is the list of the items its run delivers and the
  error the run returns; \<^verbatim>\<open>children x\<close> is the pipeline the user's function gives for \<^verbatim>\<open>x\<close>, \<^verbatim>\<open>None\<close> its
  nil. Cancellation of the whole run, which cuts the output short, is not part of this model.
\<close>

section \<open>The loop\<close>

type_synonym 'a flow = "'a list \<times> go_error option"

record ('a, 's) expand_vars =
  xv_set :: 's
  xv_emitted :: int
  xv_queue :: "('a flow \<times> int) list"

text \<open>What the callback of the inner \<^verbatim>\<open>ForEach\<close> makes of an item: go on, hit the limit, or fail.\<close>

datatype expand_stop = Proceed | LimitHit | Failed go_error

text \<open>The deduplication in use: the key function, and the set's operations.\<close>

type_synonym ('a, 's) visited =
  "(('a \<Rightarrow> string) \<times> ('s \<Rightarrow> string \<Rightarrow> 's \<times> bool result) \<times> ('s \<Rightarrow> string \<Rightarrow> 's \<times> go_error option)) option"

definition expand_emit ::
  "('c, 'v) stage_config \<Rightarrow> ('a \<Rightarrow> 'a flow option) \<Rightarrow> int \<Rightarrow> ('a, 's) expand_vars \<Rightarrow> 'a \<Rightarrow>
   'a list \<times> ('a, 's) expand_vars \<times> expand_stop" where
  "expand_emit cfg children depth v item =
     (if cfg_max_items cfg > 0 \<and> xv_emitted v \<ge> cfg_max_items cfg then ([], v, LimitHit)
      else
        let v = v\<lparr>xv_emitted := xv_emitted v + 1\<rparr>; childDepth = depth + 1
        in if cfg_max_depth_explicit cfg \<and> childDepth > cfg_max_depth cfg then ([item], v, Proceed)
           else (case children item of
                   None \<Rightarrow> ([item], v, Proceed)
                 | Some child \<Rightarrow> ([item], v\<lparr>xv_queue := xv_queue v @ [(child, childDepth)]\<rparr>, Proceed)))"

definition expand_item ::
  "('c, 'v) stage_config \<Rightarrow> ('a, 's) visited \<Rightarrow> ('a \<Rightarrow> 'a flow option) \<Rightarrow> int \<Rightarrow> ('a, 's) expand_vars \<Rightarrow> 'a \<Rightarrow>
   'a list \<times> ('a, 's) expand_vars \<times> expand_stop" where
  "expand_item cfg visited children depth v item =
     (case visited of
        None \<Rightarrow> expand_emit cfg children depth v item
      | Some (keyFn, contains, add) \<Rightarrow>
          (case contains (xv_set v) (keyFn item) of
             (s, Inl err) \<Rightarrow> ([], v\<lparr>xv_set := s\<rparr>, Failed err)
           | (s, Inr True) \<Rightarrow> ([], v\<lparr>xv_set := s\<rparr>, Proceed)
           | (s, Inr False) \<Rightarrow>
               (case add s (keyFn item) of
                  (s, Some err) \<Rightarrow> ([], v\<lparr>xv_set := s\<rparr>, Failed err)
                | (s, None) \<Rightarrow> expand_emit cfg children depth (v\<lparr>xv_set := s\<rparr>) item)))"

text \<open>The items of one pipeline, until the callback stops its run.\<close>

fun expand_items where
  "expand_items cfg visited children depth v [] = ([], v, Proceed)"
| "expand_items cfg visited children depth v (x # xs) =
     (case expand_item cfg visited children depth v x of
        (out, v, Proceed) \<Rightarrow>
          (case expand_items cfg visited children depth v xs of (out', v, stop) \<Rightarrow> (out @ out', v, stop))
      | r \<Rightarrow> r)"

fun expand_loop ::
  "nat \<Rightarrow> ('c, 'v) stage_config \<Rightarrow> ('a, 's) visited \<Rightarrow> ('a \<Rightarrow> 'a flow option) \<Rightarrow> ('a, 's) expand_vars \<Rightarrow>
   ('a list \<times> go_error option) option" where
  "expand_loop 0 cfg visited children v = None"
| "expand_loop (Suc fuel) cfg visited children v =
     (case xv_queue v of
        [] \<Rightarrow> Some ([], None)
      | ((xs, err), depth) # queue \<Rightarrow>
          (case expand_items cfg visited children depth (v\<lparr>xv_queue := queue\<rparr>) xs of
             (out, v, LimitHit) \<Rightarrow> Some (out, None)
           | (out, v, Failed e) \<Rightarrow> Some (out, Some e)
           | (out, v, Proceed) \<Rightarrow>
               (case err of
                  Some e \<Rightarrow> Some (out, Some e)
                | None \<Rightarrow> map_option (\<lambda>(out', r). (out @ out', r)) (expand_loop fuel cfg visited children v))))"

definition ExpandMap ::
  "nat \<Rightarrow> ('c, 'v) stage_config \<Rightarrow> 's \<Rightarrow> ('a, 's) visited \<Rightarrow> ('a \<Rightarrow> 'a flow option) \<Rightarrow> 'a flow \<Rightarrow>
   ('a list \<times> go_error option) option" where
  "ExpandMap fuel cfg set0 visited children p =
     expand_loop fuel cfg visited children \<lparr>xv_set = set0, xv_emitted = 0, xv_queue = [(p, 0)]\<rparr>"

text \<open>\<^verbatim>\<open>VisitedBy\<close> with the set it takes by default.\<close>

definition visited_memory :: "('a \<Rightarrow> string) \<Rightarrow> ('a, string set) visited" where
  "visited_memory keyFn =
     Some (keyFn, \<lambda>s k. (case mem_Contains s k of (s, b) \<Rightarrow> (s, Inr b)), \<lambda>s k. (mem_Add s k, None))"

section \<open>Counting\<close>

text \<open>Each emitted item adds at most one pipeline to the queue.\<close>

lemma expand_item_counts:
  assumes "expand_item cfg visited children depth v x = (out, v', stop)"
  shows "xv_emitted v' = xv_emitted v + int (length out) \<and>
         length (xv_queue v') \<le> length (xv_queue v) + length out \<and>
         (0 < cfg_max_items cfg \<and> xv_emitted v \<le> cfg_max_items cfg \<longrightarrow> xv_emitted v' \<le> cfg_max_items cfg)"
  using assms
  by (auto simp: expand_item_def expand_emit_def Let_def
      split: option.splits prod.splits sum.splits bool.splits if_splits)

lemma expand_items_counts:
  "expand_items cfg visited children depth v xs = (out, v', stop) \<Longrightarrow>
   xv_emitted v' = xv_emitted v + int (length out) \<and>
   length (xv_queue v') \<le> length (xv_queue v) + length out \<and>
   (0 < cfg_max_items cfg \<and> xv_emitted v \<le> cfg_max_items cfg \<longrightarrow> xv_emitted v' \<le> cfg_max_items cfg)"
proof (induction xs arbitrary: v out v' stop)
  case (Cons x xs)
  obtain out1 v1 stop1 where 1: "expand_item cfg visited children depth v x = (out1, v1, stop1)"
    by (metis prod_cases3)
  note c1 = expand_item_counts [OF 1]
  show ?case
  proof (cases stop1)
    case Proceed
    obtain out2 v2 stop2 where 2: "expand_items cfg visited children depth v1 xs = (out2, v2, stop2)"
      by (metis prod_cases3)
    from Cons.IH [OF 2] c1 Cons.prems 1 2 Proceed show ?thesis by auto
  qed (use Cons.prems c1 1 in auto)
qed simp

text \<open>
  An invariant of the items that bounds how many are emitted bounds the turns of the loop: the
  fuel needed is one more than the pipelines queued and the items still to come.
\<close>

lemma expand_loop_terminates:
  assumes step: "\<And>v x depth out v' stop. I v \<Longrightarrow> expand_item cfg visited children depth v x = (out, v', stop) \<Longrightarrow> I v'"
    and queue: "\<And>v q. I v \<Longrightarrow> I (v\<lparr>xv_queue := q\<rparr>)"
    and bound: "\<And>v. I v \<Longrightarrow> xv_emitted v \<le> int B"
    and "I v" and "length (xv_queue v) + nat (int B - xv_emitted v) < fuel"
  shows "\<exists>out r. expand_loop fuel cfg visited children v = Some (out, r) \<and> int (length out) \<le> int B - xv_emitted v"
  using assms(4,5)
proof (induction fuel arbitrary: v)
  case (Suc fuel)
  have keep: "I v'" if "I w" "expand_items cfg visited children depth w xs = (out, v', stop)" for w depth xs out v' stop
    using that
  proof (induction xs arbitrary: w out)
    case (Cons x xs)
    then show ?case by (auto split: prod.splits expand_stop.splits dest: step)
  qed simp
  show ?case
  proof (cases "xv_queue v")
    case (Cons p queue)
    obtain xs err depth where p: "p = ((xs, err), depth)" by (metis prod.exhaust)
    let ?w = "v\<lparr>xv_queue := queue\<rparr>"
    obtain out v' stop where run: "expand_items cfg visited children depth ?w xs = (out, v', stop)"
      by (metis prod_cases3)
    have "I v'" using keep [OF queue [OF Suc.prems(1)] run] .
    note b = bound [OF this] and c = expand_items_counts [OF run]
    have "length (xv_queue v') + nat (int B - xv_emitted v') < fuel"
    proof -
      have "nat (int B - xv_emitted v') + length out = nat (int B - xv_emitted v)" using c b by simp
      with c Suc.prems(2) Cons show ?thesis by simp
    qed
    with Suc.IH [OF \<open>I v'\<close>] obtain out' r where
      "expand_loop fuel cfg visited children v' = Some (out', r)" "int (length out') \<le> int B - xv_emitted v'"
      by blast
    with c b show ?thesis by (auto simp: Cons p run split: expand_stop.splits option.splits)
  qed (use bound [OF Suc.prems(1)] in simp)
qed simp

section \<open>Visited keys\<close>

lemma expand_item_memory:
  "expand_item cfg (visited_memory keyFn) children depth v x =
     (if keyFn x \<in> xv_set v then ([], v, Proceed)
      else expand_emit cfg children depth (v\<lparr>xv_set := insert (keyFn x) (xv_set v)\<rparr>) x)"
  by (simp add: expand_item_def visited_memory_def mem_Contains_def mem_Add_def split: bool.split)

lemma expand_emit_out:
  "expand_emit cfg children depth v x = (out, v', stop) \<Longrightarrow> set out \<subseteq> {x} \<and> xv_set v' = xv_set v \<and> distinct out"
  by (auto simp: expand_emit_def Let_def split: option.splits if_splits)

lemma keys_apart:
  assumes "K1 \<inter> V = {}" and "V \<union> K1 \<subseteq> V1" and "K2 \<inter> V1 = {}"
  shows "K1 \<inter> K2 = {}" and "K2 \<inter> V = {}"
  using assms by blast+

lemma single_key:
  assumes "K \<subseteq> {k}" and "k \<notin> V" and "k \<in> V1" and "V \<subseteq> V1"
  shows "K \<inter> V = {}" and "V \<union> K \<subseteq> V1"
  using assms by blast+

lemma expand_items_memory:
  "expand_items cfg (visited_memory keyFn) children depth v xs = (out, v', stop) \<Longrightarrow>
   distinct (map keyFn out) \<and> keyFn ` set out \<inter> xv_set v = {} \<and> xv_set v \<union> keyFn ` set out \<subseteq> xv_set v'"
proof (induction xs arbitrary: v out v' stop)
  case (Cons x xs)
  show ?case
  proof (cases "keyFn x \<in> xv_set v")
    case True
    with Cons.prems Cons.IH [of v out] show ?thesis by (simp add: expand_item_memory case_prod_beta prod_eq_iff)
  next
    case False
    let ?v = "v\<lparr>xv_set := insert (keyFn x) (xv_set v)\<rparr>"
    obtain out1 v1 stop1 where 1: "expand_emit cfg children depth ?v x = (out1, v1, stop1)" by (metis prod_cases3)
    note e = expand_emit_out [OF 1]
    obtain out2 v2 stop2 where 2: "expand_items cfg (visited_memory keyFn) children depth v1 xs = (out2, v2, stop2)"
      by (metis prod_cases3)
    have out1: "out1 = [] \<or> out1 = [x]" using e by (cases out1; cases "tl out1") auto
    have in1: "keyFn x \<in> xv_set v1" "xv_set v \<subseteq> xv_set v1" using e by auto
    have k1: "keyFn ` set out1 \<subseteq> {keyFn x}" "distinct (map keyFn out1)" using out1 by auto
    show ?thesis
    proof (cases "stop1 = Proceed")
      case True
      with Cons.prems 1 2 False have "out = out1 @ out2" "v' = v2" by (auto simp: expand_item_memory)
      moreover note single = single_key [OF k1(1) False in1]
      moreover note keys_apart [OF single conjunct1 [OF conjunct2 [OF Cons.IH [OF 2]]]]
      moreover have "xv_set v \<union> keyFn ` set out1 \<subseteq> xv_set v2"
        using single(2) conjunct2 [OF conjunct2 [OF Cons.IH [OF 2]]] by (meson Un_least le_supE order_trans)
      ultimately show ?thesis using Cons.IH [OF 2] k1(2) by (simp add: image_Un Int_Un_distrib2)
    next
      case stop: False
      with Cons.prems 1 False have "out = out1" "v' = v1"
        by (auto simp: expand_item_memory split: expand_stop.splits)
      with k1 in1 False show ?thesis by auto
    qed
  qed
qed simp

lemma expand_loop_memory:
  "expand_loop fuel cfg (visited_memory keyFn) children v = Some (out, r) \<Longrightarrow>
   distinct (map keyFn out) \<and> keyFn ` set out \<inter> xv_set v = {}"
proof (induction fuel arbitrary: v out r)
  case (Suc fuel)
  show ?case
  proof (cases "xv_queue v")
    case (Cons p queue)
    obtain xs err depth where p: "p = ((xs, err), depth)" by (metis prod.exhaust)
    obtain out1 v1 stop where run:
      "expand_items cfg (visited_memory keyFn) children depth (v\<lparr>xv_queue := queue\<rparr>) xs = (out1, v1, stop)"
      by (metis prod_cases3)
    note m = expand_items_memory [OF run]
    show ?thesis
    proof (cases "stop = Proceed \<and> err = None")
      case True
      with Suc.prems obtain out2 where
        "expand_loop fuel cfg (visited_memory keyFn) children v1 = Some (out2, r)" "out = out1 @ out2"
        by (auto simp: Cons p run)
      note ih = Suc.IH [OF this(1)]
      note keys_apart [OF _ _ conjunct2 [OF ih], of "keyFn ` set out1" "xv_set v"]
      with \<open>out = out1 @ out2\<close> ih m show ?thesis by (simp add: image_Un Int_Un_distrib2)
    qed (use Suc.prems m in \<open>auto simp: Cons p run split: expand_stop.splits option.splits\<close>)
  qed (use Suc.prems in simp)
qed simp

section \<open>Levels\<close>

definition kids :: "('a \<Rightarrow> 'a flow option) \<Rightarrow> 'a \<Rightarrow> 'a list" where
  "kids children x = (case children x of None \<Rightarrow> [] | Some f \<Rightarrow> fst f)"

text \<open>The reference: the roots, then their children, and so on for \<^verbatim>\<open>r\<close> more levels.\<close>

fun levels :: "('a \<Rightarrow> 'a list) \<Rightarrow> nat \<Rightarrow> 'a list \<Rightarrow> 'a list" where
  "levels f 0 xs = xs"
| "levels f (Suc r) xs = xs @ levels f r (concat (map f xs))"

definition at_depth :: "int \<Rightarrow> 'a flow list \<Rightarrow> ('a flow \<times> int) list" where
  "at_depth d fs = map (\<lambda>f. (f, d)) fs"

lemma at_depth_simps [simp]:
  "at_depth d [] = []" "at_depth d (f # fs) = (f, d) # at_depth d fs"
  "at_depth d (fs @ gs) = at_depth d fs @ at_depth d gs"
  by (simp_all add: at_depth_def)

lemma concat_kids: "concat (map fst (List.map_filter children xs)) = concat (map (kids children) xs)"
  by (induction xs) (auto simp: List.map_filter_simps kids_def split: option.splits)

definition depth_only :: "('c, 'v) stage_config \<Rightarrow> int \<Rightarrow> ('a \<Rightarrow> 'a flow option) \<Rightarrow> bool" where
  "depth_only cfg D children \<longleftrightarrow>
     cfg_max_items cfg \<le> 0 \<and> cfg_max_depth_explicit cfg \<and> cfg_max_depth cfg = D \<and>
     (\<forall>x f. children x = Some f \<longrightarrow> snd f = None)"

definition next_level :: "int \<Rightarrow> int \<Rightarrow> ('a \<Rightarrow> 'a flow option) \<Rightarrow> 'a list \<Rightarrow> ('a flow \<times> int) list" where
  "next_level D d children xs = (if d + 1 > D then [] else at_depth (d + 1) (List.map_filter children xs))"

lemma expand_items_plain:
  assumes "depth_only cfg D children"
  shows "expand_items cfg None children d v xs =
     (xs, v\<lparr>xv_emitted := xv_emitted v + int (length xs), xv_queue := xv_queue v @ next_level D d children xs\<rparr>, Proceed)"
proof (induction xs arbitrary: v)
  case (Cons x xs)
  with assms show ?case
    by (auto simp: expand_item_def expand_emit_def depth_only_def next_level_def List.map_filter_simps
        split: option.splits)
qed (simp add: next_level_def List.map_filter_simps)

lemma next_level_append:
  "next_level D d children (xs @ ys) = next_level D d children xs @ next_level D d children ys"
  by (simp add: next_level_def List.map_filter_def)

text \<open>One level of the queue is worked off before the next begins.\<close>

lemma expand_loop_level:
  assumes "depth_only cfg D children" and "\<forall>f \<in> set fs. snd f = None"
  shows "expand_loop (length fs + fuel) cfg None children (v\<lparr>xv_queue := at_depth d fs @ rest\<rparr>) =
     map_option (\<lambda>(out, r). (concat (map fst fs) @ out, r))
       (expand_loop fuel cfg None children
          (v\<lparr>xv_emitted := xv_emitted v + int (length (concat (map fst fs))),
             xv_queue := rest @ next_level D d children (concat (map fst fs))\<rparr>))"
  using assms(2)
proof (induction fs arbitrary: rest v)
  case Nil
  show ?case by (simp add: next_level_def List.map_filter_simps option.map_ident case_prod_beta)
next
  case (Cons f fs)
  obtain xs where f: "f = (xs, None)" using Cons.prems by (cases f) auto
  show ?case
    using Cons.IH [of "rest @ next_level D d children xs" "v\<lparr>xv_emitted := xv_emitted v + int (length xs)\<rparr>"] Cons.prems
    by (simp add: f expand_items_plain [OF assms(1)] next_level_append option.map_comp o_def case_prod_beta
        ac_simps)
qed

lemma expand_loop_levels:
  assumes "depth_only cfg D children" and "\<forall>f \<in> set fs. snd f = None" and "D = d + int r"
  shows "\<exists>fuel. expand_loop fuel cfg None children (v\<lparr>xv_queue := at_depth d fs\<rparr>) =
           Some (levels (kids children) r (concat (map fst fs)), None)"
  using assms(2-)
proof (induction r arbitrary: fs d v)
  case 0
  show ?case
    using expand_loop_level [OF assms(1) 0(1), where d = d and rest = "[]" and fuel = 1 and v = v] 0(2)
    by (intro exI [of _ "length fs + 1"]) (simp add: next_level_def del: add_Suc_right)
next
  case (Suc r)
  let ?xs = "concat (map fst fs)"
  let ?v = "v\<lparr>xv_emitted := xv_emitted v + int (length ?xs)\<rparr>"
  have "\<forall>f \<in> set (List.map_filter children ?xs). snd f = None"
    using assms(1) by (auto simp: depth_only_def List.map_filter_def)
  from Suc.IH [OF this, of "d + 1" ?v] Suc.prems(2) obtain fuel where
    "expand_loop fuel cfg None children (?v\<lparr>xv_queue := at_depth (d + 1) (List.map_filter children ?xs)\<rparr>) =
       Some (levels (kids children) r (concat (map (kids children) ?xs)), None)"
    by (auto simp: concat_kids)
  then show ?case
    using expand_loop_level [OF assms(1) Suc.prems(1), where d = d and rest = "[]" and fuel = fuel and v = v] Suc.prems(2)
    by (intro exI [of _ "length fs + fuel"]) (simp add: next_level_def)
qed

lemma expand_loop_more_fuel:
  "expand_loop fuel cfg visited children v = Some r \<Longrightarrow> fuel \<le> fuel' \<Longrightarrow>
   expand_loop fuel' cfg visited children v = Some r"
proof (induction fuel arbitrary: fuel' v r)
  case (Suc fuel)
  then obtain g where "fuel' = Suc g" "fuel \<le> g" by (cases fuel') auto
  show ?case
  proof (cases "xv_queue v")
    case (Cons p queue)
    obtain xs err depth where p: "p = ((xs, err), depth)" by (metis prod.exhaust)
    obtain out v1 stop where run:
      "expand_items cfg visited children depth (v\<lparr>xv_queue := queue\<rparr>) xs = (out, v1, stop)"
      by (metis prod_cases3)
    with Suc.prems(1) Suc.IH [of v1 _ g] \<open>fuel' = Suc g\<close> \<open>fuel \<le> g\<close> show ?thesis
      by (auto simp: Cons p run split: expand_stop.splits option.splits)
  qed (use Suc.prems(1) \<open>fuel' = Suc g\<close> in simp)
qed simp

section \<open>Properties\<close>

text \<open>
  C22: Without deduplication and a cap on items, \<^verbatim>\<open>ExpandMap\<close> with \<^verbatim>\<open>MaxDepth(D)\<close> returns after finitely
  many pipelines and emits the roots, then all their children, and so on down to depth \<^verbatim>\<open>D\<close>: exactly
  the breadth-first order.
\<close>

theorem expand_map_breadth_first:
  assumes "depth_only cfg D children" and "0 \<le> D"
  shows "\<exists>n. \<forall>fuel \<ge> n. ExpandMap fuel cfg set0 None children (roots, None) =
           Some (levels (kids children) (nat D) roots, None)"
proof -
  obtain n where "ExpandMap n cfg set0 None children (roots, None) =
      Some (levels (kids children) (nat D) roots, None)"
    using expand_loop_levels [OF assms(1), of "[(roots, None)]" 0 "nat D" "\<lparr>xv_set = set0, xv_emitted = 0, xv_queue = []\<rparr>"]
      assms(2)
    by (auto simp: ExpandMap_def)
  then show ?thesis unfolding ExpandMap_def by (meson expand_loop_more_fuel)
qed

definition binary_tree :: "int \<Rightarrow> int flow option" where
  "binary_tree x = (if x < 4 then Some ([2 * x, 2 * x + 1], None) else None)"

theorem expand_map_breadth_first_witness:
  "\<exists>n. \<forall>fuel \<ge> n. ExpandMap fuel (buildStageConfig [MaxDepth 2] :: (unit, unit) stage_config) () None binary_tree ([1], None) =
      Some ([1, 2, 3, 4, 5, 6, 7], None)"
  using expand_map_breadth_first [of "buildStageConfig [MaxDepth 2] :: (unit, unit) stage_config" 2 binary_tree "()" "[1]"]
  by (simp add: depth_only_def buildStageConfig_def default_config_def binary_tree_def kids_def numeral_2_eq_2)

text \<open>
  C23: \<^verbatim>\<open>MaxItems(m)\<close> bounds the expansion of any graph, cyclic or infinite, with or without
  \<^verbatim>\<open>VisitedBy\<close>: the stage returns after at most \<^verbatim>\<open>m + 1\<close> nested pipelines and emits
  at most \<^verbatim>\<open>m\<close> items.
\<close>

theorem expand_map_max_items:
  assumes "0 < cfg_max_items cfg" and "nat (cfg_max_items cfg) + 2 \<le> fuel"
  shows "\<exists>out r. ExpandMap fuel cfg set0 visited children p = Some (out, r) \<and> int (length out) \<le> cfg_max_items cfg"
proof -
  have "\<exists>out r. ExpandMap fuel cfg set0 visited children p = Some (out, r) \<and>
      int (length out) \<le> int (nat (cfg_max_items cfg)) - 0"
    unfolding ExpandMap_def
    using expand_loop_terminates [where I = "\<lambda>v. xv_emitted v \<le> cfg_max_items cfg" and B = "nat (cfg_max_items cfg)"
        and cfg = cfg and visited = visited and children = children and fuel = fuel
        and v = "\<lparr>xv_set = set0, xv_emitted = 0, xv_queue = [(p, 0)]\<rparr>"] assms
    by (fastforce dest: expand_item_counts)
  with assms(1) show ?thesis by simp
qed

theorem expand_map_max_items_witness:
  "\<exists>out r. ExpandMap 5 (buildStageConfig [MaxItems 3] :: (unit, unit) stage_config) () None
      (\<lambda>x. Some ([x, x + 1], None)) ([0::nat], None) = Some (out, r) \<and> int (length out) \<le> 3"
  using expand_map_max_items [of "buildStageConfig [MaxItems 3] :: (unit, unit) stage_config" 5 "()" None
      "\<lambda>x. Some ([x, x + 1], None)" "([0::nat], None)"]
  by (simp add: buildStageConfig_def)

text \<open>
  C24: With \<^verbatim>\<open>VisitedBy\<close> and the in-memory set no key is emitted twice, and if the keys are finitely
  many the expansion of a cyclic graph ends by itself.
\<close>

theorem expand_map_visited_once:
  fixes keyFn :: "'a \<Rightarrow> string"
  assumes "finite K" and "range keyFn \<subseteq> K" and "card K + 2 \<le> fuel"
  shows "\<exists>out r. ExpandMap fuel cfg MemoryDedupSet (visited_memory keyFn) children p = Some (out, r) \<and>
           distinct (map keyFn out) \<and> length out \<le> card K"
proof -
  let ?v = "\<lparr>xv_set = MemoryDedupSet, xv_emitted = 0, xv_queue = [(p, 0)]\<rparr>"
  let ?I = "\<lambda>v. xv_set v \<subseteq> K \<and> xv_emitted v \<le> int (card (xv_set v))"
  have step: "?I v'" if "?I v" "expand_item cfg (visited_memory keyFn) children depth v x = (out, v', stop)"
    for v v' and depth x out stop
  proof (cases "keyFn x \<in> xv_set v")
    case False
    then have "xv_set v' = insert (keyFn x) (xv_set v)" "xv_emitted v' \<le> xv_emitted v + 1"
      using that(2) by (auto simp: expand_item_memory expand_emit_def Let_def split: if_splits option.splits)
    moreover have "insert (keyFn x) (xv_set v) \<subseteq> K" "finite (xv_set v)"
      using that(1) assms(1,2) by (auto intro: finite_subset)
    ultimately show ?thesis using that(1) False by simp
  qed (use that in \<open>auto simp: expand_item_memory\<close>)
  have "xv_emitted v \<le> int (card K)" if "?I v" for v :: "('a, string set) expand_vars"
    using that card_mono [OF assms(1), of "xv_set v"] by linarith
  note bound = this
  have "\<exists>out r. expand_loop fuel cfg (visited_memory keyFn) children ?v = Some (out, r) \<and>
      int (length out) \<le> int (card K) - xv_emitted ?v"
    by (rule expand_loop_terminates [where I = ?I], erule (1) step, simp, erule bound)
      (use assms(3) in \<open>simp_all add: MemoryDedupSet_def\<close>)
  then obtain out r where run: "expand_loop fuel cfg (visited_memory keyFn) children ?v = Some (out, r)"
    "int (length out) \<le> int (card K)" by auto
  with expand_loop_memory [OF run(1)] show ?thesis by (auto simp: ExpandMap_def)
qed

definition parity :: "nat \<Rightarrow> string" where
  "parity x = (if even x then ''even'' else ''odd'')"

theorem expand_map_visited_once_witness:
  "\<exists>out r. ExpandMap 4 (buildStageConfig [] :: (unit, unit) stage_config) MemoryDedupSet (visited_memory parity)
      (\<lambda>x. Some ([x + 1, x + 2], None)) ([0::nat], None) = Some (out, r) \<and> distinct (map parity out) \<and> length out \<le> 2"
  using expand_map_visited_once [of "{''even'', ''odd''}" parity 4 "buildStageConfig [] :: (unit, unit) stage_config"
      "\<lambda>x. Some ([x + 1, x + 2], None)" "([0::nat], None)"]
  by (simp add: parity_def card_insert_if image_subset_iff numeral_2_eq_2)

end
