(* ===== verification/Effects.thy ===== *)
theory Effects
  imports Fan_Ops Key_Sets Retry_Pipeline Runner
begin

text \<open>
  Externally visible effects: \<^verbatim>\<open>effect.go\<close> (options and policies, \<^verbatim>\<open>runEffectAttempts\<close>, \<^verbatim>\<open>Effect\<close>,
  \<^verbatim>\<open>TryEffect\<close>) and \<^verbatim>\<open>idempotency.go\<close>. The zero value of the result type is an argument. The
  locale \<^verbatim>\<open>idempotency_store\<close> is the contract of the interface \<^verbatim>\<open>IdempotencyStore\<close>.
\<close>

section \<open>Options\<close>

record ('i, 't) effect_config =
  ef_retry :: retry_strategy
  ef_required :: bool
  ef_required_set :: bool
  ef_attempt_timeout :: duration
  ef_idempotent :: bool
  ef_key :: "('i \<Rightarrow> string) option"
  ef_store :: "'t option"
  ef_stage_opts :: "('i, unit) stage_opt list"

record ('i, 't) effect_policy =
  ep_retry :: retry_strategy
  ep_required :: bool
  ep_attempt_timeout :: duration
  ep_idempotent :: bool
  ep_key :: "('i \<Rightarrow> string) option"
  ep_store :: "'t option"

datatype ('i, 't) effect_option =
    EffectPolicy "('i, 't) effect_policy"
  | Required
  | BestEffort
  | AttemptTimeout duration
  | WithIdempotencyKey "'i \<Rightarrow> string"
  | EffectStageOption "('i, unit) stage_opt"

fun applyEffect :: "('i, 't) effect_option \<Rightarrow> ('i, 't) effect_config \<Rightarrow> ('i, 't) effect_config" where
  "applyEffect (EffectPolicy pol) c =
     (let c = c\<lparr>ef_retry := ep_retry pol, ef_required_set := True, ef_required := ep_required pol\<rparr>;
          c = (if ep_attempt_timeout pol > 0 then c\<lparr>ef_attempt_timeout := ep_attempt_timeout pol\<rparr> else c);
          c = c\<lparr>ef_idempotent := ep_idempotent pol\<rparr>;
          c = (if ep_key pol \<noteq> None then c\<lparr>ef_key := ep_key pol\<rparr> else c)
      in if ep_store pol \<noteq> None then c\<lparr>ef_store := ep_store pol\<rparr> else c)"
| "applyEffect Required c = c\<lparr>ef_required := True, ef_required_set := True\<rparr>"
| "applyEffect BestEffort c = c\<lparr>ef_required := False, ef_required_set := True\<rparr>"
| "applyEffect (AttemptTimeout d) c = c\<lparr>ef_attempt_timeout := d\<rparr>"
| "applyEffect (WithIdempotencyKey fn) c = c\<lparr>ef_idempotent := True, ef_key := Some fn\<rparr>"
| "applyEffect (EffectStageOption opt) c = c\<lparr>ef_stage_opts := ef_stage_opts c @ [opt]\<rparr>"

definition buildEffectConfig :: "('i, 't) effect_option list \<Rightarrow> ('i, 't) effect_config" where
  "buildEffectConfig opts =
     (let cfg = fold applyEffect opts
            \<lparr>ef_retry = zero_strategy, ef_required = False, ef_required_set = False, ef_attempt_timeout = 0,
             ef_idempotent = False, ef_key = None, ef_store = None, ef_stage_opts = []\<rparr>
      in if \<not> ef_required_set cfg then cfg\<lparr>ef_required := True\<rparr> else cfg)"

text \<open>The last of \<^verbatim>\<open>Required\<close>, \<^verbatim>\<open>BestEffort\<close> and a policy decides; without any, required.\<close>

fun sets_required :: "('i, 't) effect_option \<Rightarrow> bool option" where
  "sets_required (EffectPolicy pol) = Some (ep_required pol)"
| "sets_required Required = Some True"
| "sets_required BestEffort = Some False"
| "sets_required _ = None"

lemma applyEffect_required:
  "ef_required (applyEffect opt c) = (case sets_required opt of Some b \<Rightarrow> b | None \<Rightarrow> ef_required c)"
  "ef_required_set (applyEffect opt c) \<longleftrightarrow> sets_required opt \<noteq> None \<or> ef_required_set c"
  by (cases opt; simp add: Let_def)+

lemma fold_required:
  "ef_required (fold applyEffect opts c) =
     (case List.map_filter sets_required opts of [] \<Rightarrow> ef_required c | bs \<Rightarrow> last bs)"
  "ef_required_set (fold applyEffect opts c) \<longleftrightarrow> List.map_filter sets_required opts \<noteq> [] \<or> ef_required_set c"
  by (induction opts arbitrary: c)
    (auto simp: applyEffect_required List.map_filter_simps split: option.splits list.splits)

lemma buildEffectConfig_required:
  "ef_required (buildEffectConfig opts) =
     (case List.map_filter sets_required opts of [] \<Rightarrow> True | bs \<Rightarrow> last bs)"
  by (auto simp: buildEffectConfig_def Let_def fold_required split: list.splits)

section \<open>Attempts\<close>

record ('i, 'r) effect_outcome =
  eo_input :: 'i
  eo_result :: 'r
  eo_err :: "go_error option"
  eo_applied :: bool
  eo_deduped :: bool

text \<open>\<^verbatim>\<open>ctx.Err()\<close> before an attempt, and the cancellation that cuts the wait after it.\<close>

record effect_env =
  ee_before :: "nat \<Rightarrow> go_error option"
  ee_cut :: "nat \<Rightarrow> go_error option"

definition failed_outcome :: "'r \<Rightarrow> 'i \<Rightarrow> go_error option \<Rightarrow> ('i, 'r) effect_outcome" where
  "failed_outcome zero item er =
     \<lparr>eo_input = item, eo_result = zero, eo_err = er, eo_applied = False, eo_deduped = False\<rparr>"

definition applied_outcome :: "'i \<Rightarrow> 'r \<Rightarrow> ('i, 'r) effect_outcome" where
  "applied_outcome item r =
     \<lparr>eo_input = item, eo_result = r, eo_err = None, eo_applied = True, eo_deduped = False\<rparr>"

text \<open>
  \<^verbatim>\<open>fn attempt\<close> is what the attempt returns, under its own timeout. The second component counts
  the calls of the effect function.
\<close>

fun effect_attempts ::
  "nat \<Rightarrow> 'r \<Rightarrow> 'i \<Rightarrow> (nat \<Rightarrow> 'r result) \<Rightarrow> retry_strategy \<Rightarrow> int \<Rightarrow> effect_env \<Rightarrow> nat \<Rightarrow>
   (('i, 'r) effect_outcome \<times> nat) option" where
  "effect_attempts 0 zero item fn pol maxAttempts env attempt = None"
| "effect_attempts (Suc fuel) zero item fn pol maxAttempts env attempt =
     (case ee_before env attempt of
        Some er \<Rightarrow> Some (failed_outcome zero item (Some er), attempt)
      | None \<Rightarrow>
          (case fn attempt of
             Inr r \<Rightarrow> Some (applied_outcome item r, Suc attempt)
           | Inl err \<Rightarrow>
               if \<not> (case Retryable pol of Some p \<Rightarrow> p err | None \<Rightarrow> True)
               then Some (failed_outcome zero item (Some err), Suc attempt)
               else if maxAttempts > 0 \<and> int attempt + 1 \<ge> maxAttempts
               then Some (failed_outcome zero item (Some err), Suc attempt)
               else
                 let wait = (case RetryBackoff pol of Some b \<Rightarrow> b attempt | None \<Rightarrow> 0)
                 in if wait > 0 \<and> ee_cut env attempt \<noteq> None
                    then Some (failed_outcome zero item (ee_cut env attempt), Suc attempt)
                    else effect_attempts fuel zero item fn pol maxAttempts env (Suc attempt)))"

definition runEffectAttempts ::
  "nat \<Rightarrow> 'r \<Rightarrow> 'i \<Rightarrow> (nat \<Rightarrow> 'r result) \<Rightarrow> ('i, 't) effect_config \<Rightarrow> effect_env \<Rightarrow>
   (('i, 'r) effect_outcome \<times> nat) option" where
  "runEffectAttempts fuel zero item fn cfg env =
     effect_attempts fuel zero item fn (ef_retry cfg)
       (if MaxAttempts (ef_retry cfg) = 0 then 1 else MaxAttempts (ef_retry cfg)) env 0"

lemma effect_attempts_total:
  assumes "0 < n" and "nat (n - int k) \<le> fuel" and "int k < n"
  shows "\<exists>out calls. effect_attempts fuel zero item fn pol n env k = Some (out, calls) \<and> int calls \<le> n"
  using assms
proof (induction fuel arbitrary: k)
  case (Suc fuel)
  show ?case
  proof (cases "int k + 1 \<ge> n")
    case False
    with Suc.prems have "nat (n - int (Suc k)) \<le> fuel" "int (Suc k) < n" by linarith+
    then obtain out calls where
      "effect_attempts fuel zero item fn pol n env (Suc k) = Some (out, calls)" "int calls \<le> n"
      using Suc.IH [of "Suc k"] Suc.prems(1) by auto
    with Suc.prems show ?thesis by (auto simp: Let_def split: option.splits sum.splits)
  qed (use Suc.prems in \<open>auto split: option.splits sum.splits\<close>)
qed simp

lemma effect_attempts_outcome:
  assumes "effect_attempts fuel zero item fn pol n env k = Some (out, calls)"
  shows "eo_input out = item \<and> \<not> eo_deduped out \<and> (eo_applied out \<longleftrightarrow> eo_err out = None) \<and>
         (eo_applied out \<longrightarrow> 0 < calls \<and> fn (calls - 1) = Inr (eo_result out)) \<and>
         (\<not> eo_applied out \<longrightarrow> eo_result out = zero)"
  using assms
proof (induction fuel arbitrary: k)
  case (Suc fuel)
  then show ?case
    by (auto simp: Let_def failed_outcome_def applied_outcome_def split: option.splits sum.splits if_splits)
qed simp

section \<open>Idempotency stores\<close>

locale idempotency_store =
  fixes add :: "'t \<Rightarrow> string \<Rightarrow> 't \<times> bool result"
    and seen :: "'t \<Rightarrow> string set"
  assumes add_first: "snd (add t k) = Inr b \<Longrightarrow> b \<longleftrightarrow> k \<notin> seen t"
    and add_seen: "snd (add t k) = Inr b \<Longrightarrow> seen (fst (add t k)) = insert k (seen t)"
    and add_error: "snd (add t k) = Inl er \<Longrightarrow> seen t \<subseteq> seen (fst (add t k))"
begin

lemma add_mono: "seen t \<subseteq> seen (fst (add t k))"
  by (cases "snd (add t k)") (auto dest: add_seen add_error)

end

definition newMemoryIdempotencyStore :: "string set" where
  "newMemoryIdempotencyStore = {}"

definition idem_Add :: "string set \<Rightarrow> string \<Rightarrow> string set \<times> bool result" where
  "idem_Add seen key = (if key \<in> seen then (seen, Inr False) else (insert key seen, Inr True))"

interpretation memory_idem: idempotency_store idem_Add "\<lambda>s. s"
  by unfold_locales (auto simp: idem_Add_def split: if_splits)

section \<open>The stage\<close>

text \<open>
  The store in use: the caller's, or the stage's own when the options ask for deduplication and
  give none.
\<close>

fun resolved_Add ::
  "('t \<Rightarrow> string \<Rightarrow> 't \<times> bool result) \<Rightarrow> 't + string set \<Rightarrow> string \<Rightarrow> ('t + string set) \<times> bool result" where
  "resolved_Add add (Inl t) key = (case add t key of (t', r) \<Rightarrow> (Inl t', r))"
| "resolved_Add add (Inr s) key = (case idem_Add s key of (s', r) \<Rightarrow> (Inr s', r))"

lemma resolved_Add_sel [simp]:
  "fst (resolved_Add add (Inl t) key) = Inl (fst (add t key))" "snd (resolved_Add add (Inl t) key) = snd (add t key)"
  "fst (resolved_Add add (Inr s) key) = Inr (fst (idem_Add s key))"
  "snd (resolved_Add add (Inr s) key) = snd (idem_Add s key)"
  by (simp_all split: prod.splits)

record 's effect_vars =
  ev_count :: nat
  ev_store :: 's
  ev_calls :: nat
  ev_rc :: run_ctx

definition effect_key :: "('i, 't) effect_config \<Rightarrow> 'i \<Rightarrow> string" where
  "effect_key cfg item =
     (if ef_idempotent cfg then (case ef_key cfg of Some f \<Rightarrow> f item | None \<Rightarrow> []) else [])"

text \<open>
  One item. \<^verbatim>\<open>attempts k item\<close> is the outcome of \<^verbatim>\<open>runEffectAttempts\<close> for the \<^verbatim>\<open>k\<close>-th item received,
  with the number of calls of the effect function it made; \<^verbatim>\<open>ev_calls\<close> adds those calls up.
\<close>

definition effect_item ::
  "bool \<Rightarrow> 'r \<Rightarrow> stage_id \<Rightarrow> ('i, 't) effect_config \<Rightarrow> ('s \<Rightarrow> string \<Rightarrow> 's \<times> bool result) \<Rightarrow>
   (nat \<Rightarrow> 'i \<Rightarrow> ('i, 'r) effect_outcome \<times> nat) \<Rightarrow> 's effect_vars \<Rightarrow> 'i \<Rightarrow>
   ('i, 'r) effect_outcome \<times> 's effect_vars" where
  "effect_item dryRun zero i cfg add attempts v item =
     (let outcome = failed_outcome zero item None; key = effect_key cfg item;
          (attempted, calls) = attempts (ev_count v) item;
          v = v\<lparr>ev_count := Suc (ev_count v)\<rparr>
      in if dryRun then (outcome, v)
         else if key \<noteq> [] then
           (case add (ev_store v) key of
              (st, Inl addErr) \<Rightarrow>
                (outcome\<lparr>eo_err := Some addErr\<rparr>, v\<lparr>ev_store := st, ev_rc := recordEffectOutcome i False (ev_rc v)\<rparr>)
            | (st, Inr firstTime) \<Rightarrow>
                if \<not> firstTime
                then (outcome\<lparr>eo_deduped := True\<rparr>, v\<lparr>ev_store := st, ev_rc := recordEffectDeduped i (ev_rc v)\<rparr>)
                else (attempted,
                      v\<lparr>ev_store := st, ev_calls := ev_calls v + calls,
                        ev_rc := recordEffectOutcome i (eo_applied attempted) (ev_rc v)\<rparr>))
         else (attempted, v\<lparr>ev_calls := ev_calls v + calls, ev_rc := recordEffectOutcome i (eo_applied attempted) (ev_rc v)\<rparr>))"

definition effect_step ::
  "bool \<Rightarrow> 'r \<Rightarrow> stage_id \<Rightarrow> ('i, 't) effect_config \<Rightarrow> ('s \<Rightarrow> string \<Rightarrow> 's \<times> bool result) \<Rightarrow>
   (nat \<Rightarrow> 'i \<Rightarrow> ('i, 'r) effect_outcome \<times> nat) \<Rightarrow> 's effect_vars \<Rightarrow> 'i recv \<Rightarrow>
   ('s effect_vars, ('i, 'r) effect_outcome) act" where
  "effect_step dryRun zero i cfg add attempts v e =
     (case e of
        Closed \<Rightarrow> Act [] (Return None)
      | Item item \<Rightarrow> (case effect_item dryRun zero i cfg add attempts v item of (out, v) \<Rightarrow> Act [out] (Continue v)))"

definition effect_init :: "stage_id \<Rightarrow> ('i, 't) effect_config \<Rightarrow> run_ctx \<Rightarrow> ('t + string set) effect_vars" where
  "effect_init i cfg rc =
     \<lparr>ev_count = 0,
      ev_store = (case ef_store cfg of Some t \<Rightarrow> Inl t | None \<Rightarrow> Inr newMemoryIdempotencyStore),
      ev_calls = 0,
      ev_rc = registerEffectStat i (orDefault (cfg_name (buildStageConfig (ef_stage_opts cfg))) ''effect'')
                (ef_required cfg) rc\<rparr>"

definition effect_loop ::
  "bool \<Rightarrow> 'r \<Rightarrow> stage_id \<Rightarrow> ('i, 't) effect_config \<Rightarrow> ('t \<Rightarrow> string \<Rightarrow> 't \<times> bool result) \<Rightarrow>
   (nat \<Rightarrow> 'i \<Rightarrow> ('i, 'r) effect_outcome \<times> nat) \<Rightarrow> run_ctx \<Rightarrow>
   (('t + string set) effect_vars, 'i recv, ('i, 'r) effect_outcome) loop" where
  "effect_loop dryRun zero i cfg add attempts rc =
     drain_loop (effect_init i cfg rc) (\<lambda>_. None) (effect_step dryRun zero i cfg (resolved_Add add) attempts)"

definition Effect ::
  "bool \<Rightarrow> 'r \<Rightarrow> stage_id \<Rightarrow> stage_id \<Rightarrow> ('i, 't) effect_option list \<Rightarrow> ('t \<Rightarrow> string \<Rightarrow> 't \<times> bool result) \<Rightarrow>
   (nat \<Rightarrow> 'i \<Rightarrow> ('i, 'r) effect_outcome \<times> nat) \<Rightarrow> run_ctx \<Rightarrow>
   (('t + string set) effect_vars, 'i recv, ('i, 'r) effect_outcome) operator" where
  "Effect dryRun zero i p opts add attempts rc =
     (let cfg = buildEffectConfig opts; stageCfg = buildStageConfig (ef_stage_opts cfg);
          stage = unary ''effect'' stageCfg i p (effect_loop dryRun zero i cfg add attempts rc);
          tries = MaxAttempts (ef_retry cfg)
      in stage\<lparr>op_meta := op_meta stage\<lparr>meta_is_effect := True, meta_effect_required := ef_required cfg,
                                      meta_has_retry := (tries > 1 \<or> tries < 0)\<rparr>\<rparr>)"

text \<open>\<^verbatim>\<open>splitEffectOutcomes\<close>, the second half of \<^verbatim>\<open>TryEffect\<close>.\<close>

fun split_outcome_step ::
  "unit \<Rightarrow> ('i, 'r) effect_outcome recv \<Rightarrow> (unit, nat \<times> ('i, 'r) effect_outcome) act" where
  "split_outcome_step u Closed = Act [] (Return None)"
| "split_outcome_step u (Item item) = Act [(if eo_err item \<noteq> None then 1 else 0, item)] (Continue ())"

definition splitEffectOutcomes ::
  "stage_id \<Rightarrow> stage_id \<Rightarrow> stage_id \<Rightarrow> (unit, ('i, 'r) effect_outcome recv, nat \<times> ('i, 'r) effect_outcome) operator" where
  "splitEffectOutcomes okID failID p =
     fan_out ''try_effect_ok'' (buildStageConfig [] :: (unit, unit) stage_config) [okID, failID] p
       (drain_loop () (\<lambda>_. None) split_outcome_step)"

definition effect_emit where
  "effect_emit dryRun zero i cfg add attempts v x =
     ([fst (effect_item dryRun zero i cfg add attempts v x)],
      Inr (snd (effect_item dryRun zero i cfg add attempts v x)) :: 's effect_vars result)"

interpretation effect: fallible "effect_loop dryRun zero i cfg add attempts rc"
  "effect_emit dryRun zero i cfg (resolved_Add add) attempts" "\<lambda>_. []"
  for dryRun zero i cfg add attempts rc
  by unfold_locales (simp_all add: effect_loop_def effect_step_def effect_emit_def split: prod.splits)

interpretation split_outcomes: fallible "drain_loop () (\<lambda>_. None) split_outcome_step"
  "\<lambda>u x. ([(if eo_err x \<noteq> None then 1 else 0, x)], Inr ())" "\<lambda>_. []"
  by unfold_locales simp_all

text \<open>The outcomes and the variables after some items.\<close>

fun effect_run where
  "effect_run f v [] = ([], v)"
| "effect_run f v (x # xs) =
     (fst (f v x) # fst (effect_run f (snd (f v x)) xs), snd (effect_run f (snd (f v x)) xs))"

lemma try_run_effect:
  "try_run (effect_emit dryRun zero i cfg add attempts) v xs =
     (fst (effect_run (effect_item dryRun zero i cfg add attempts) v xs),
      Inr (snd (effect_run (effect_item dryRun zero i cfg add attempts) v xs)))"
  by (induction xs arbitrary: v) (simp_all add: effect_emit_def split: prod.splits)

text \<open>\<^verbatim>\<open>attempts\<close> is what \<^verbatim>\<open>runEffectAttempts\<close> computes from the effect function.\<close>

definition attempts_by where
  "attempts_by fuel zero cfg fn env attempts \<longleftrightarrow>
     (\<forall>k x. runEffectAttempts fuel zero x (fn k x) cfg (env k) = Some (attempts k x))"

lemma attempts_by_outcome:
  "attempts_by fuel zero cfg fn env attempts \<Longrightarrow> attempts k x = (out, calls) \<Longrightarrow>
     eo_input out = x \<and> \<not> eo_deduped out \<and> (eo_applied out \<longleftrightarrow> eo_err out = None) \<and>
     (eo_applied out \<longrightarrow> (\<exists>n. fn k x n = Inr (eo_result out))) \<and> (\<not> eo_applied out \<longrightarrow> eo_result out = zero)"
  unfolding attempts_by_def
  by (drule spec [of _ k], drule spec [of _ x])
    (auto simp: runEffectAttempts_def dest!: effect_attempts_outcome)

text \<open>
  An applied outcome has no error and is no duplicate, a duplicate has no error, and one that was not applied
  has the zero result. Outside a dry run these are the only outcomes without an error.
\<close>

definition outcome_ok :: "bool \<Rightarrow> 'r \<Rightarrow> ('i, 'r) effect_outcome \<Rightarrow> bool" where
  "outcome_ok dryRun zero o' \<longleftrightarrow>
     (eo_applied o' \<longrightarrow> eo_err o' = None \<and> \<not> eo_deduped o') \<and>
     (eo_deduped o' \<longrightarrow> eo_err o' = None) \<and> (\<not> eo_applied o' \<longrightarrow> eo_result o' = zero) \<and>
     (\<not> dryRun \<longrightarrow> (eo_err o' = None \<longleftrightarrow> eo_applied o' \<or> eo_deduped o'))"

lemma effect_item_outcome:
  assumes "attempts_by fuel zero cfg fn env attempts"
  shows "eo_input (fst (effect_item dryRun zero i cfg add attempts v x)) = x \<and>
         outcome_ok dryRun zero (fst (effect_item dryRun zero i cfg add attempts v x))"
  using attempts_by_outcome [OF assms]
  by (auto simp: effect_item_def outcome_ok_def Let_def failed_outcome_def split: prod.splits sum.splits)

lemma effect_run_outcomes:
  assumes "attempts_by fuel zero cfg fn env attempts"
  shows "map eo_input (fst (effect_run (effect_item dryRun zero i cfg add attempts) v xs)) = xs \<and>
         (\<forall>o' \<in> set (fst (effect_run (effect_item dryRun zero i cfg add attempts) v xs)). outcome_ok dryRun zero o')"
  by (induction xs arbitrary: v) (simp_all add: effect_item_outcome [OF assms])

lemma effect_run_continues:
  "exec (effect_loop dryRun zero i cfg add attempts rc) (effect_init i cfg rc) (items xs) =
     (case effect_run (effect_item dryRun zero i cfg (resolved_Add add) attempts) (effect_init i cfg rc) xs of
        (outs, v) \<Rightarrow> (outs, Continue v))"
  by (simp add: effect.exec_items try_run_effect split: prod.split)

lemma effect_run_dry:
  "effect_run (effect_item True zero i cfg add attempts) v xs =
     (map (\<lambda>x. failed_outcome zero x None) xs, v\<lparr>ev_count := ev_count v + length xs\<rparr>)"
  by (induction xs arbitrary: v) (simp_all add: effect_item_def Let_def split: prod.split)

text \<open>The counters of the run context.\<close>

lemma rc_effects_record:
  assumes "rc_effects rc i = Some s"
  shows "rc_effects (recordEffectOutcome i a rc) i =
      Some (if a then s\<lparr>es_success := Suc (es_success s)\<rparr> else s\<lparr>es_failure := Suc (es_failure s)\<rparr>)"
    and "rc_effects (recordEffectDeduped i rc) i = Some (s\<lparr>es_deduped := Suc (es_deduped s)\<rparr>)"
  using assms by (simp_all add: recordEffectOutcome_def recordEffectDeduped_def)

lemma effect_run_counts:
  assumes "attempts_by fuel zero cfg fn env attempts" and "rc_effects (ev_rc v) i = Some s"
    and "effect_run (effect_item False zero i cfg add attempts) v xs = (outs, v')"
  shows "rc_effects (ev_rc v') i =
     Some (s\<lparr>es_success := es_success s + length (filter eo_applied outs),
             es_failure := es_failure s + length (filter (\<lambda>o'. \<not> eo_applied o' \<and> \<not> eo_deduped o') outs),
             es_deduped := es_deduped s + length (filter eo_deduped outs)\<rparr>)"
  using assms(2,3)
proof (induction xs arbitrary: v s outs)
  case (Cons x xs)
  obtain o1 v1 where 1: "effect_item False zero i cfg add attempts v x = (o1, v1)" by fastforce
  obtain o2 where 2: "effect_run (effect_item False zero i cfg add attempts) v1 xs = (o2, v')" "outs = o1 # o2"
    using Cons.prems(2) 1 by (auto simp: prod_eq_iff)
  have "rc_effects (ev_rc v1) i =
     Some (s\<lparr>es_success := es_success s + (if eo_applied o1 then 1 else 0),
             es_failure := es_failure s + (if \<not> eo_applied o1 \<and> \<not> eo_deduped o1 then 1 else 0),
             es_deduped := es_deduped s + (if eo_deduped o1 then 1 else 0)\<rparr>)"
    using 1 attempts_by_outcome [OF assms(1)] Cons.prems(1)
    by (auto simp: effect_item_def Let_def failed_outcome_def rc_effects_record
        split: prod.splits sum.splits if_splits)
  from Cons.IH [OF this 2(1)] show ?case by (simp add: 2(2))
qed simp

section \<open>At most once\<close>

context idempotency_store
begin

text \<open>A key that is applied was not in the store before, and it is afterwards.\<close>

lemma effect_item_applied:
  assumes "attempts_by fuel zero cfg fn env attempts" and "effect_key cfg x \<noteq> []"
    and "eo_applied (fst (effect_item dryRun zero i cfg add attempts v x))"
  shows "effect_key cfg x \<notin> seen (ev_store v) \<and>
         effect_key cfg x \<in> seen (ev_store (snd (effect_item dryRun zero i cfg add attempts v x)))"
  using assms(2,3) add_first [of "ev_store v" "effect_key cfg x"] add_seen [of "ev_store v" "effect_key cfg x"]
  by (auto simp: effect_item_def Let_def failed_outcome_def split: prod.splits sum.splits if_splits)

lemma effect_item_mono:
  "seen (ev_store v) \<subseteq> seen (ev_store (snd (effect_item dryRun zero i cfg add attempts v x)))"
  using add_mono [of "ev_store v" "effect_key cfg x"]
  by (auto simp: effect_item_def Let_def split: prod.splits sum.splits)

lemma effect_run_at_most_once:
  assumes "attempts_by fuel zero cfg fn env attempts"
    and "effect_run (effect_item dryRun zero i cfg add attempts) v xs = (outs, v')"
    and "keys = filter (\<lambda>k. k \<noteq> []) (map (effect_key cfg \<circ> eo_input) (filter eo_applied outs))"
  shows "distinct keys \<and> set keys \<inter> seen (ev_store v) = {} \<and>
         set keys \<union> seen (ev_store v) \<subseteq> seen (ev_store v')"
  using assms(2,3)
proof (induction xs arbitrary: v outs keys)
  case (Cons x xs)
  obtain o1 v1 where 1: "effect_item dryRun zero i cfg add attempts v x = (o1, v1)" by fastforce
  obtain o2 where 2: "effect_run (effect_item dryRun zero i cfg add attempts) v1 xs = (o2, v')" "outs = o1 # o2"
    using Cons.prems(1) 1 by (auto simp: prod_eq_iff)
  have "eo_input o1 = x" using effect_item_outcome [OF assms(1), where x = x and v = v] 1 by (metis fst_conv)
  moreover have "seen (ev_store v) \<subseteq> seen (ev_store v1)"
    using effect_item_mono [of v dryRun zero i cfg attempts x] 1 by simp
  moreover have "effect_key cfg x \<noteq> [] \<and> eo_applied o1 \<longrightarrow>
      effect_key cfg x \<notin> seen (ev_store v) \<and> effect_key cfg x \<in> seen (ev_store v1)"
    using effect_item_applied [OF assms(1), of x dryRun i v] 1 by simp
  ultimately show ?case using Cons.IH [OF 2(1) refl] Cons.prems(2) 2(2) by (auto simp: o_def)
qed simp

lemma resolved: "idempotency_store (resolved_Add add) (case_sum seen (\<lambda>s. s))"
proof (unfold_locales, goal_cases)
  case (1 t k b)
  then show ?case by (cases t) (simp_all add: add_first memory_idem.add_first del: resolved_Add.simps)
next
  case (2 t k b)
  then show ?case by (cases t) (simp_all add: add_seen memory_idem.add_seen del: resolved_Add.simps)
next
  case (3 t k er)
  then show ?case by (cases t) (simp_all add: add_error memory_idem.add_error del: resolved_Add.simps)
qed

end

text \<open>With the stage's own store, exactly the first item of each key is attempted.\<close>

lemma effect_run_memory:
  assumes "attempts_by fuel zero cfg fn env attempts"
    and "effect_run (effect_item False zero i cfg (resolved_Add add) attempts) v xs = (outs, v')"
    and "ev_store v = Inr s"
  shows "map eo_input (filter (\<lambda>o'. effect_key cfg (eo_input o') \<noteq> [] \<and> \<not> eo_deduped o') outs) =
         first_by (effect_key cfg) s (filter (\<lambda>x. effect_key cfg x \<noteq> []) xs)"
  using assms(2,3)
proof (induction xs arbitrary: v s outs)
  case (Cons x xs)
  obtain o1 v1 where 1: "effect_item False zero i cfg (resolved_Add add) attempts v x = (o1, v1)" by fastforce
  obtain o2 where 2: "effect_run (effect_item False zero i cfg (resolved_Add add) attempts) v1 xs = (o2, v')"
    "outs = o1 # o2"
    using Cons.prems(1) 1 by (auto simp: prod_eq_iff)
  let ?k = "effect_key cfg x"
  have "eo_input o1 = x" using effect_item_outcome [OF assms(1), where x = x and v = v] 1 by (metis fst_conv)
  moreover have "ev_store v1 = Inr (if ?k \<noteq> [] then insert ?k s else s)"
    "?k \<noteq> [] \<Longrightarrow> eo_deduped o1 \<longleftrightarrow> ?k \<in> s"
    using 1 Cons.prems(2) attempts_by_outcome [OF assms(1)]
    by (auto simp: effect_item_def Let_def idem_Add_def failed_outcome_def insert_absorb
        split: prod.splits sum.splits if_splits)
  ultimately show ?case using Cons.IH [OF 2(1)] 2(2) by (auto simp: insert_absorb)
qed simp

section \<open>Properties\<close>

lemma op_loop_Effect [simp]:
  "op_loop (Effect dryRun zero i p opts add attempts rc) =
     effect_loop dryRun zero i (buildEffectConfig opts) add attempts rc"
  by (simp add: Effect_def Let_def)

lemma effect_loop_init [simp]: "loop_init (effect_loop dryRun zero i cfg add attempts rc) = effect_init i cfg rc"
  by (simp add: effect_loop_def)

lemma effect_init_sel [simp]:
  "ev_store (effect_init i cfg rc) = (case ef_store cfg of Some t \<Rightarrow> Inl t | None \<Rightarrow> Inr {})"
  "rc_effects (ev_rc (effect_init i cfg rc)) i =
     Some \<lparr>es_name = orDefault (cfg_name (buildStageConfig (ef_stage_opts cfg))) ''effect'',
           es_required = ef_required cfg, es_success = 0, es_failure = 0, es_deduped = 0\<rparr>"
  by (simp_all add: effect_init_def newMemoryIdempotencyStore_def registerEffectStat_def split: option.splits)

text \<open>
  C9: An effect stage that ran to the end of its input has sent exactly one outcome per item, in
  order: on any schedule the inputs of the outcomes are the items received. Outside a dry run an outcome
  has no error exactly when it was applied or recognised as a duplicate, never both; one that was not
  applied has the zero result. In a dry run every outcome is empty, and the effect function is not called.
\<close>

theorem effect_one_outcome_per_item:
  assumes "attempts_by fuel zero (buildEffectConfig opts) fn env attempts"
    and "run (op_loop (Effect dryRun zero i p opts add attempts rc))
           (start (op_loop (Effect dryRun zero i p opts add attempts rc))) ls = Some (Exited r c)"
    and "undisturbed ls" and "prefix (received ls) (closing xs)"
  shows "map eo_input (sent ls) = xs \<and> r = None \<and> (\<forall>out \<in> set (sent ls). outcome_ok dryRun zero out) \<and>
         (\<exists>v. exec (op_loop (Effect dryRun zero i p opts add attempts rc))
                (loop_init (op_loop (Effect dryRun zero i p opts add attempts rc))) (items xs) = (sent ls, Continue v) \<and>
              (dryRun \<longrightarrow> sent ls = map (\<lambda>x. failed_outcome zero x None) xs \<and> ev_calls v = 0))"
proof -
  let ?f = "effect_item dryRun zero i (buildEffectConfig opts) (resolved_Add add) attempts"
  let ?v = "effect_init i (buildEffectConfig opts) rc"
  have sent: "sent ls = fst (effect_run ?f ?v xs)" "r = None"
    using effect.stage.trace_complete [OF assms(2) [unfolded op_loop_Effect] assms(3,4)]
    by (simp_all add: try_run_effect result_error_def)
  moreover have "exec (op_loop (Effect dryRun zero i p opts add attempts rc))
      (loop_init (op_loop (Effect dryRun zero i p opts add attempts rc))) (items xs) =
      (sent ls, Continue (snd (effect_run ?f ?v xs)))"
    unfolding op_loop_Effect effect_loop_init effect_run_continues using sent by (simp split: prod.split)
  moreover have "dryRun \<Longrightarrow> ev_calls (snd (effect_run ?f ?v xs)) = 0"
    by (simp add: effect_run_dry effect_init_def)
  ultimately show ?thesis
    using effect_run_outcomes [OF assms(1), of dryRun i "resolved_Add add" ?v xs] by (auto simp: effect_run_dry)
qed

definition sample_effect :: "nat \<Rightarrow> string \<Rightarrow> nat \<Rightarrow> nat result" where
  "sample_effect k x n = (if n = 0 then Inl (Plain ''down'') else Inr (length x))"

definition sample_env :: "nat \<Rightarrow> effect_env" where
  "sample_env k = \<lparr>ee_before = \<lambda>_. None, ee_cut = \<lambda>_. None\<rparr>"

definition sample_policy :: "(string, string set) effect_policy" where
  "sample_policy = \<lparr>ep_retry = zero_strategy\<lparr>MaxAttempts := 2\<rparr>, ep_required = True, ep_attempt_timeout = 0,
     ep_idempotent = True, ep_key = Some id, ep_store = None\<rparr>"

lemma sample_attempts:
  "attempts_by 2 0 (buildEffectConfig [EffectPolicy sample_policy]) sample_effect sample_env
     (\<lambda>k x. (applied_outcome x (length x), 2))"
  by (simp add: attempts_by_def runEffectAttempts_def buildEffectConfig_def sample_policy_def Let_def
      sample_effect_def sample_env_def zero_strategy_def numeral_2_eq_2)

definition sample_stage where
  "sample_stage = Effect False 0 2 1 [EffectPolicy sample_policy] idem_Add (\<lambda>k x. (applied_outcome x (length x), 2)) newRunCtx"

theorem effect_one_outcome_per_item_witness:
  "map eo_input (sent [Ev (Item ''a''), Sent (applied_outcome ''a'' (1::nat)), Ev Closed]) = [''a'']"
proof -
  have "run (op_loop sample_stage) (start (op_loop sample_stage))
     [Ev (Item ''a''), Sent (applied_outcome ''a'' (1::nat)), Ev Closed] = Some (Exited None False)"
    by (simp add: sample_stage_def start_def effect_loop_def effect_step_def effect_item_def effect_init_def
        idem_Add_def newMemoryIdempotencyStore_def effect_key_def buildEffectConfig_def sample_policy_def Let_def)
  from effect_one_outcome_per_item [OF sample_attempts this [unfolded sample_stage_def], of "[''a'']"]
  show ?thesis by simp
qed

text \<open>
  C10: At most once. With any store that meets the contract of \<^verbatim>\<open>IdempotencyStore\<close>, on any schedule,
  cancelled ones included, two applied outcomes never have the same non-empty key, and none has a
  key that was in the store before the run. With the stage's own store exactly the first item of
  each key is attempted, whether or not that attempt succeeds.
\<close>

theorem effect_at_most_once:
  assumes "idempotency_store add seen"
    and "attempts_by fuel zero (buildEffectConfig opts) fn env attempts"
    and "run (op_loop (Effect dryRun zero i p opts add attempts rc))
           (start (op_loop (Effect dryRun zero i p opts add attempts rc))) ls = Some st"
    and "received ls = items xs"
    and "keys = filter (\<lambda>k. k \<noteq> []) (map (effect_key (buildEffectConfig opts) \<circ> eo_input) (filter eo_applied (sent ls)))"
  shows "distinct keys \<and> (\<forall>t. ef_store (buildEffectConfig opts) = Some t \<longrightarrow> set keys \<inter> seen t = {}) \<and>
         (undisturbed ls \<and> (\<exists>s. st = Looping s) \<and> \<not> dryRun \<and> ef_store (buildEffectConfig opts) = None \<longrightarrow>
            map eo_input (filter (\<lambda>out. effect_key (buildEffectConfig opts) (eo_input out) \<noteq> [] \<and> \<not> eo_deduped out) (sent ls)) =
            first_by (effect_key (buildEffectConfig opts)) {} (filter (\<lambda>x. effect_key (buildEffectConfig opts) x \<noteq> []) xs))"
proof -
  let ?cfg = "buildEffectConfig opts"
  let ?f = "effect_item dryRun zero i ?cfg (resolved_Add add) attempts" and ?v = "effect_init i ?cfg rc"
  obtain outs v' where run: "effect_run ?f ?v xs = (outs, v')" by fastforce
  have outs: "outputs (effect_loop dryRun zero i ?cfg add attempts rc) (items xs) = outs"
    using effect.stage.outputs_open [of dryRun zero i ?cfg add attempts rc xs] by (simp add: try_run_effect run)
  then obtain rest where rest: "outs = sent ls @ rest"
    using effect.stage.trace_open [OF assms(3) [unfolded op_loop_Effect] assms(4)]
    by (auto simp: try_run_effect run prefix_def)
  note once = idempotency_store.effect_run_at_most_once
    [OF idempotency_store.resolved [OF assms(1)] assms(2) run refl]
  have "distinct keys \<and> set keys \<inter> case_sum seen (\<lambda>s. s) (ev_store ?v) = {}"
    using once by (auto simp: rest assms(5))
  moreover have "sent ls = outs" if "undisturbed ls" "st = Looping s" for s
    using run_idle [OF assms(3) [unfolded op_loop_Effect that(2)] that(1)] outs assms(4) by simp
  moreover have "map eo_input (filter (\<lambda>out. effect_key ?cfg (eo_input out) \<noteq> [] \<and> \<not> eo_deduped out) outs) =
      first_by (effect_key ?cfg) {} (filter (\<lambda>x. effect_key ?cfg x \<noteq> []) xs)"
    if "\<not> dryRun" "ef_store ?cfg = None"
    using run that effect_init_sel(1) [of i ?cfg rc] by (intro effect_run_memory [OF assms(2)]) (simp_all del: effect_init_sel)
  ultimately show ?thesis by auto
qed

theorem effect_at_most_once_witness:
  "\<exists>ls :: (string recv, (string, nat) effect_outcome) label list. received ls = items [''a'', ''a''] \<and> map eo_input (filter eo_applied (sent ls)) = [''a''] \<and>
     distinct (map eo_input (filter eo_applied (sent ls)))"
proof -
  let ?ls = "[Ev (Item ''a''), Sent (applied_outcome ''a'' (1::nat)), Ev (Item ''a''),
      Sent ((failed_outcome 0 ''a'' None)\<lparr>eo_deduped := True\<rparr>)]"
  obtain s where "run (op_loop sample_stage) (start (op_loop sample_stage)) ?ls = Some (Looping s)"
    by (simp add: sample_stage_def start_def effect_loop_def effect_step_def effect_item_def effect_init_def
        idem_Add_def newMemoryIdempotencyStore_def effect_key_def buildEffectConfig_def sample_policy_def Let_def)
  from effect_at_most_once [OF memory_idem.idempotency_store_axioms sample_attempts this [unfolded sample_stage_def]
      _ refl, of "[''a'', ''a'']"]
  have "distinct (map eo_input (filter eo_applied (sent ?ls)))"
    by (simp add: buildEffectConfig_def sample_policy_def Let_def effect_key_def applied_outcome_def failed_outcome_def)
  then show ?thesis by (intro exI [of _ ?ls]) (simp add: applied_outcome_def failed_outcome_def)
qed

text \<open>
  The counters of the stage are the numbers of its outcomes, and a failed outcome reaches the
  summary of the run: although the pipeline itself returns no error, a required effect with a
  failure makes the run fail, a best-effort one makes it a partial success.
\<close>

theorem effect_counters:
  assumes "attempts_by fuel zero (buildEffectConfig opts) fn env attempts"
    and "exec (op_loop (Effect False zero i p opts add attempts rc))
           (loop_init (op_loop (Effect False zero i p opts add attempts rc))) (items xs) = (outs, Continue v)"
    and "failures = length (filter (\<lambda>out. \<not> eo_applied out \<and> \<not> eo_deduped out) outs)"
  shows "\<exists>stat. rc_effects (ev_rc v) i = Some stat \<and> es_success stat = length (filter eo_applied outs) \<and>
           es_deduped stat = length (filter eo_deduped outs) \<and> es_failure stat = failures \<and>
           es_success stat + es_deduped stat + es_failure stat = length xs \<and>
           deriveRunOutcome [stat] None =
             (if failures = 0 then RunSuccess else if ef_required (buildEffectConfig opts) then RunFailure
              else RunPartialSuccess)"
proof -
  let ?f = "effect_item False zero i (buildEffectConfig opts) (resolved_Add add) attempts"
  have run: "effect_run ?f (effect_init i (buildEffectConfig opts) rc) xs = (outs, v)"
    using assms(2) by (simp add: effect.exec_items try_run_effect prod_eq_iff)
  have "length outs = length xs" "\<forall>out \<in> set outs. outcome_ok False zero out"
    using effect_run_outcomes [OF assms(1), of False i "resolved_Add add" "effect_init i (buildEffectConfig opts) rc" xs]
    by (auto simp: run dest: arg_cong [where f = length])
  moreover from this(2) have "length (filter eo_applied outs) + length (filter eo_deduped outs) +
      length (filter (\<lambda>out. \<not> eo_applied out \<and> \<not> eo_deduped out) outs) = length outs"
    by (induction outs) (auto simp: outcome_ok_def)
  ultimately show ?thesis
    using effect_run_counts [OF assms(1) effect_init_sel(2) run]
    by (auto simp: assms(3) deriveRunOutcome_def)
qed

theorem effect_counters_witness:
  "\<exists>v. exec (op_loop sample_stage) (loop_init (op_loop sample_stage)) (items [''a'']) =
       ([applied_outcome ''a'' 1], Continue v) \<and>
     (\<exists>stat. rc_effects (ev_rc v) 2 = Some stat \<and> es_success stat = 1)"
proof -
  obtain v where "exec (op_loop sample_stage) (loop_init (op_loop sample_stage)) (items [''a'']) =
       ([applied_outcome ''a'' 1], Continue v)"
    by (simp add: sample_stage_def effect_loop_def effect_step_def effect_item_def effect_init_def settle_def
        idem_Add_def newMemoryIdempotencyStore_def effect_key_def buildEffectConfig_def sample_policy_def Let_def)
  with effect_counters [OF sample_attempts this [unfolded sample_stage_def] refl] show ?thesis
    by (auto simp: applied_outcome_def)
qed

text \<open>
  The effect function is called at most \<^verbatim>\<open>MaxAttempts\<close> times per item, once when it is zero, and
  the loop of attempts returns. (The zero strategy of \<^verbatim>\<open>Retry\<close> instead repeats for ever.)
\<close>

theorem effect_attempts_bounded:
  assumes "0 \<le> MaxAttempts (ef_retry cfg)" and "nat (max 1 (MaxAttempts (ef_retry cfg))) \<le> fuel"
  shows "\<exists>out calls. runEffectAttempts fuel zero item fn cfg env = Some (out, calls) \<and>
           int calls \<le> max 1 (MaxAttempts (ef_retry cfg)) \<and>
           (eo_applied out \<longleftrightarrow> eo_err out = None) \<and>
           (eo_applied out \<longrightarrow> 0 < calls \<and> fn (calls - 1) = Inr (eo_result out))"
proof -
  let ?n = "if MaxAttempts (ef_retry cfg) = 0 then 1 else MaxAttempts (ef_retry cfg)"
  obtain out calls where run: "effect_attempts fuel zero item fn (ef_retry cfg) ?n env 0 = Some (out, calls)"
      "int calls \<le> ?n"
    using effect_attempts_total [of ?n 0 fuel zero item fn "ef_retry cfg" env] assms
    by (cases "MaxAttempts (ef_retry cfg) = 0") auto
  moreover from this(2) have "int calls \<le> max 1 (MaxAttempts (ef_retry cfg))" by (simp split: if_splits)
  ultimately show ?thesis
    using effect_attempts_outcome [OF run(1)] unfolding runEffectAttempts_def
    by (intro exI [of _ out] exI [of _ calls]) simp
qed

theorem effect_attempts_bounded_witness:
  "\<exists>out calls. runEffectAttempts 1 (0::nat) ''a'' (\<lambda>_. Inl (Plain ''down''))
      (buildEffectConfig [] :: (string, unit) effect_config) (sample_env 0) = Some (out, calls) \<and>
      int calls \<le> max 1 0"
  using effect_attempts_bounded [of "buildEffectConfig [] :: (string, unit) effect_config" 1 0 "''a''" "\<lambda>_. Inl (Plain ''down'')" "sample_env 0"]
  by (auto simp: buildEffectConfig_def zero_strategy_def)

end
