(* ===== verification/State_Ref.thy ===== *)
theory State_Ref
  imports Stores Run_Context
begin

text \<open>
  Typed pipeline state: \<^verbatim>\<open>Key\<close> and \<^verbatim>\<open>Ref\<close> (\<^verbatim>\<open>state_ref.go\<close>), the registry of a run
  (\<^verbatim>\<open>refRegistry\<close> in \<^verbatim>\<open>pipeline.go\<close>) and the map from entity keys to refs (\<^verbatim>\<open>keyedRefMap\<close> in
  \<^verbatim>\<open>state_withkey.go\<close>). Every method holds the mutex for its whole body, so each is one function
  on the ref and the store. The locale \<^verbatim>\<open>ref_store\<close> is what the methods rely on in a \<^verbatim>\<open>Store\<close>.
\<close>

section \<open>Keys and refs\<close>

record 'v state_key =
  key_name :: string
  key_initial :: 'v
  key_ttl :: duration

datatype key_option = StateTTL duration

definition NewKey :: "string \<Rightarrow> 'v \<Rightarrow> key_option list \<Rightarrow> 'v state_key" where
  "NewKey name initial opts =
     \<lparr>key_name = name, key_initial = initial, key_ttl = fold (\<lambda>opt _. case opt of StateTTL d \<Rightarrow> d) opts 0\<rparr>"

record 'v ref =
  rf_value :: 'v
  rf_initial :: 'v
  rf_key :: string
  rf_ttl :: duration
  rf_last_write :: "time option"
  rf_last_access :: "time option"

definition newRef :: "'v \<Rightarrow> string \<Rightarrow> duration \<Rightarrow> 'v ref" where
  "newRef initial storeKey ttl =
     \<lparr>rf_value = initial, rf_initial = initial, rf_key = storeKey, rf_ttl = ttl,
      rf_last_write = None, rf_last_access = None\<rparr>"

text \<open>
  The store of a run: none, one in the same process, or one behind a codec. \<^verbatim>\<open>marshal\<close> and
  \<^verbatim>\<open>unmarshal\<close> are the codec's.
\<close>

datatype backing = NoStore | InProcess | Encoded

record ('s, 'b, 'v) store_ops =
  get_any :: "'s \<Rightarrow> string \<Rightarrow> 'v option"
  set_any :: "'s \<Rightarrow> string \<Rightarrow> 'v \<Rightarrow> 's"
  store_get :: "'s \<Rightarrow> string \<Rightarrow> 'b option result"
  store_set :: "'s \<Rightarrow> string \<Rightarrow> 'b \<Rightarrow> 's \<times> go_error option"
  marshal :: "'v \<Rightarrow> 'b result"
  unmarshal :: "'b \<Rightarrow> 'v result"

definition ref_expired :: "time \<Rightarrow> 'v ref \<Rightarrow> bool" where
  "ref_expired now r \<longleftrightarrow> rf_ttl r > 0 \<and> (case rf_last_write r of Some w \<Rightarrow> now > w + rf_ttl r | None \<Rightarrow> False)"

text \<open>The paths through a codec: what the key holds, and writing it.\<close>

definition storeGet :: "('s, 'b, 'v) store_ops \<Rightarrow> 'v ref \<Rightarrow> 's \<Rightarrow> 'v result" where
  "storeGet ops r s =
     (case store_get ops s (rf_key r) of
        Inl err \<Rightarrow> Inl err
      | Inr None \<Rightarrow> Inr (rf_value r)
      | Inr (Some data) \<Rightarrow> unmarshal ops data)"

definition storeSet :: "('s, 'b, 'v) store_ops \<Rightarrow> 'v ref \<Rightarrow> 'v \<Rightarrow> 's \<Rightarrow> 's \<times> go_error option" where
  "storeSet ops r val s =
     (case marshal ops val of
        Inl err \<Rightarrow> (s, Some err)
      | Inr data \<Rightarrow> store_set ops s (rf_key r) data)"

definition storeGetOrSet ::
  "('s, 'b, 'v) store_ops \<Rightarrow> 'v ref \<Rightarrow> 'v result \<Rightarrow> 's \<Rightarrow> 'v result \<times> 's" where
  "storeGetOrSet ops r fn s =
     (case store_get ops s (rf_key r) of
        Inl err \<Rightarrow> (Inl err, s)
      | Inr (Some data) \<Rightarrow> (unmarshal ops data, s)
      | Inr None \<Rightarrow>
          (case fn of
             Inl err \<Rightarrow> (Inl err, s)
           | Inr val \<Rightarrow>
               (case storeSet ops r val s of (s', Some err) \<Rightarrow> (Inl err, s') | (s', None) \<Rightarrow> (Inr val, s'))))"

definition storeUpdateAndGet ::
  "('s, 'b, 'v) store_ops \<Rightarrow> 'v ref \<Rightarrow> ('v \<Rightarrow> 'v result) \<Rightarrow> 's \<Rightarrow> 'v result \<times> 's" where
  "storeUpdateAndGet ops r fn s =
     (case storeGet ops r s of
        Inl err \<Rightarrow> (Inl err, s)
      | Inr current \<Rightarrow>
          (case fn current of
             Inl err \<Rightarrow> (Inl err, s)
           | Inr newVal \<Rightarrow>
               (case storeSet ops r newVal s of (s', Some err) \<Rightarrow> (Inl err, s') | (s', None) \<Rightarrow> (Inr newVal, s'))))"

definition storeUpdate ::
  "('s, 'b, 'v) store_ops \<Rightarrow> 'v ref \<Rightarrow> ('v \<Rightarrow> 'v result) \<Rightarrow> 's \<Rightarrow> go_error option \<times> 's" where
  "storeUpdate ops r fn s =
     (case storeGet ops r s of
        Inl err \<Rightarrow> (Some err, s)
      | Inr current \<Rightarrow>
          (case fn current of
             Inl err \<Rightarrow> (Some err, s)
           | Inr newVal \<Rightarrow> (case storeSet ops r newVal s of (s', e) \<Rightarrow> (e, s'))))"

section \<open>The methods of Ref\<close>

text \<open>Each answers with the result, the ref and the store.\<close>

definition Ref_Get ::
  "backing \<Rightarrow> ('s, 'b, 'v) store_ops \<Rightarrow> time \<Rightarrow> 'v ref \<Rightarrow> 's \<Rightarrow> 'v result \<times> 'v ref \<times> 's" where
  "Ref_Get bk ops now r s =
     (case bk of
        NoStore \<Rightarrow>
          if ref_expired now r
          then (Inr (rf_initial r), r\<lparr>rf_value := rf_initial r, rf_last_write := None\<rparr>, s)
          else (Inr (rf_value r), r, s)
      | InProcess \<Rightarrow>
          (Inr (case get_any ops s (rf_key r) of Some v \<Rightarrow> v | None \<Rightarrow> rf_initial r), r, s)
      | Encoded \<Rightarrow> (storeGet ops r s, r, s))"

definition written :: "time \<Rightarrow> 'v \<Rightarrow> 'v ref \<Rightarrow> 'v ref" where
  "written now v r =
     (let r = r\<lparr>rf_value := v\<rparr> in if rf_ttl r > 0 then r\<lparr>rf_last_write := Some now\<rparr> else r)"

lemma written_sel [simp]:
  "rf_value (written now v r) = v" "rf_initial (written now v r) = rf_initial r"
  "rf_key (written now v r) = rf_key r" "rf_ttl (written now v r) = rf_ttl r"
  "rf_last_access (written now v r) = rf_last_access r"
  "rf_last_write (written now v r) = (if rf_ttl r > 0 then Some now else rf_last_write r)"
  by (simp_all add: written_def Let_def)

definition Ref_Set ::
  "backing \<Rightarrow> ('s, 'b, 'v) store_ops \<Rightarrow> time \<Rightarrow> 'v \<Rightarrow> 'v ref \<Rightarrow> 's \<Rightarrow> go_error option \<times> 'v ref \<times> 's" where
  "Ref_Set bk ops now val r s =
     (case bk of
        NoStore \<Rightarrow> (None, written now val r, s)
      | InProcess \<Rightarrow> (None, r, set_any ops s (rf_key r) val)
      | Encoded \<Rightarrow> (case storeSet ops r val s of (s', e) \<Rightarrow> (e, r, s')))"

definition Ref_GetOrSet ::
  "backing \<Rightarrow> ('s, 'b, 'v) store_ops \<Rightarrow> 'v result \<Rightarrow> 'v ref \<Rightarrow> 's \<Rightarrow> 'v result \<times> 'v ref \<times> 's" where
  "Ref_GetOrSet bk ops fn r s =
     (case bk of
        NoStore \<Rightarrow> (Inr (rf_value r), r, s)
      | InProcess \<Rightarrow>
          (case get_any ops s (rf_key r) of
             Some v \<Rightarrow> (Inr v, r, s)
           | None \<Rightarrow>
               (case fn of
                  Inl err \<Rightarrow> (Inl err, r, s)
                | Inr val \<Rightarrow> (Inr val, r, set_any ops s (rf_key r) val)))
      | Encoded \<Rightarrow> (case storeGetOrSet ops r fn s of (v, s') \<Rightarrow> (v, r, s')))"

definition Ref_UpdateAndGet ::
  "backing \<Rightarrow> ('s, 'b, 'v) store_ops \<Rightarrow> time \<Rightarrow> ('v \<Rightarrow> 'v result) \<Rightarrow> 'v ref \<Rightarrow> 's \<Rightarrow> 'v result \<times> 'v ref \<times> 's" where
  "Ref_UpdateAndGet bk ops now fn r s =
     (case bk of
        NoStore \<Rightarrow>
          (case fn (rf_value r) of
             Inl err \<Rightarrow> (Inl err, r, s)
           | Inr v \<Rightarrow> (Inr v, written now v r, s))
      | InProcess \<Rightarrow>
          (case fn (case get_any ops s (rf_key r) of Some v \<Rightarrow> v | None \<Rightarrow> rf_initial r) of
             Inl err \<Rightarrow> (Inl err, r, s)
           | Inr newVal \<Rightarrow> (Inr newVal, r, set_any ops s (rf_key r) newVal))
      | Encoded \<Rightarrow> (case storeUpdateAndGet ops r fn s of (v, s') \<Rightarrow> (v, r, s')))"

definition Ref_Update ::
  "backing \<Rightarrow> ('s, 'b, 'v) store_ops \<Rightarrow> time \<Rightarrow> ('v \<Rightarrow> 'v result) \<Rightarrow> 'v ref \<Rightarrow> 's \<Rightarrow> go_error option \<times> 'v ref \<times> 's" where
  "Ref_Update bk ops now fn r s =
     (case bk of
        NoStore \<Rightarrow>
          (case fn (rf_value r) of
             Inl err \<Rightarrow> (Some err, r, s)
           | Inr v \<Rightarrow> (None, written now v r, s))
      | InProcess \<Rightarrow>
          (case fn (case get_any ops s (rf_key r) of Some v \<Rightarrow> v | None \<Rightarrow> rf_initial r) of
             Inl err \<Rightarrow> (Some err, r, s)
           | Inr newVal \<Rightarrow> (None, r, set_any ops s (rf_key r) newVal))
      | Encoded \<Rightarrow> (case storeUpdate ops r fn s of (e, s') \<Rightarrow> (e, r, s')))"

section \<open>A ref is a cell\<close>

text \<open>
  The reference: the value of the cell a ref stands for, \<^verbatim>\<open>Inl\<close> when the store or the codec cannot
  give it.
\<close>

definition cell :: "backing \<Rightarrow> ('s, 'b, 'v) store_ops \<Rightarrow> time \<Rightarrow> 'v ref \<Rightarrow> 's \<Rightarrow> 'v result" where
  "cell bk ops now r s =
     (case bk of
        NoStore \<Rightarrow> Inr (if ref_expired now r then rf_initial r else rf_value r)
      | InProcess \<Rightarrow> Inr (case get_any ops s (rf_key r) of Some v \<Rightarrow> v | None \<Rightarrow> rf_initial r)
      | Encoded \<Rightarrow> storeGet ops r s)"

lemma Ref_Get_cell: "fst (Ref_Get bk ops now r s) = cell bk ops now r s"
  by (simp add: Ref_Get_def cell_def split: backing.split)

lemma Ref_Get_keeps: "now \<le> now' \<Longrightarrow> Ref_Get bk ops now r s = (v, r', s') \<Longrightarrow>
    cell bk ops now' r' s' = cell bk ops now' r s \<and> s' = s"
  by (auto simp: Ref_Get_def cell_def ref_expired_def split: backing.splits option.splits if_splits)

locale ref_store =
  fixes ops :: "('s, 'b, 'v) store_ops"
  assumes any_get_set: "get_any ops (set_any ops s k v) j = (if j = k then Some v else get_any ops s j)"
    and get_set: "store_set ops s k d = (s', None) \<Longrightarrow>
          store_get ops s' j = (if j = k then Inr (Some d) else store_get ops s j)"
    and set_error: "store_set ops s k d = (s', Some e) \<Longrightarrow> j \<noteq> k \<Longrightarrow> store_get ops s' j = store_get ops s j"
    and codec: "marshal ops v = Inr d \<Longrightarrow> unmarshal ops d = Inr v"
begin

lemma storeSet_get: "storeSet ops r val s = (s', None) \<Longrightarrow> storeGet ops r s' = Inr val"
  by (auto simp: storeSet_def storeGet_def get_set codec split: sum.splits)

lemma storeSet_other:
  "storeSet ops r val s = (s', e) \<Longrightarrow> rf_key r' \<noteq> rf_key r \<Longrightarrow> storeGet ops r' s' = storeGet ops r' s"
  by (cases e) (auto simp: storeSet_def storeGet_def get_set set_error split: sum.splits)

text \<open>What is set is read back, until it expires; other refs keep their cells.\<close>

lemma set_get:
  assumes "Ref_Set bk ops now val r s = (None, r', s')" and "rf_ttl r > 0 \<longrightarrow> now' \<le> now + rf_ttl r"
    and "rf_ttl r > 0 \<or> rf_last_write r = None"
  shows "cell bk ops now' r' s' = Inr val"
  using assms
  by (auto simp: Ref_Set_def cell_def ref_expired_def any_get_set storeSet_get
      split: backing.splits prod.splits if_splits)

lemma set_other:
  assumes "Ref_Set bk ops now val r s = (e, r', s')" and "rf_key q \<noteq> rf_key r"
  shows "cell bk ops now' q s' = cell bk ops now' q s"
  using assms
  by (auto simp: Ref_Set_def cell_def any_get_set storeSet_other split: backing.splits prod.splits)

text \<open>
  \<^verbatim>\<open>UpdateAndGet\<close> is \<^verbatim>\<open>Get\<close>, the function, and \<^verbatim>\<open>Set\<close>, in one step. \<^verbatim>\<open>Update\<close> does the same and
  forgets the value. In memory this needs the value not to have expired.
\<close>

lemma update_is_get_set:
  assumes "bk = NoStore \<longrightarrow> \<not> ref_expired now r"
  shows "Ref_UpdateAndGet bk ops now fn r s =
     (case cell bk ops now r s of
        Inl err \<Rightarrow> (Inl err, r, s)
      | Inr v \<Rightarrow>
          (case fn v of
             Inl err \<Rightarrow> (Inl err, r, s)
           | Inr w \<Rightarrow> (case Ref_Set bk ops now w r s of
                         (None, r', s') \<Rightarrow> (Inr w, r', s') | (Some err, r', s') \<Rightarrow> (Inl err, r', s'))))"
  using assms
  by (auto simp: Ref_UpdateAndGet_def cell_def Ref_Set_def storeUpdateAndGet_def
      split: backing.splits sum.splits prod.splits option.splits)

end

lemma Ref_Update_UpdateAndGet:
  "Ref_Update bk ops now fn r s =
     (case Ref_UpdateAndGet bk ops now fn r s of
        (Inl err, r', s') \<Rightarrow> (Some err, r', s') | (Inr _, r', s') \<Rightarrow> (None, r', s'))"
  by (auto simp: Ref_Update_def Ref_UpdateAndGet_def storeUpdate_def storeUpdateAndGet_def
      split: backing.splits sum.splits prod.splits option.splits)

text \<open>
  \<^verbatim>\<open>memoryStore\<close> as the store of a run, with a codec that marshals and unmarshals as \<^verbatim>\<open>m\<close> and
  \<^verbatim>\<open>u\<close>. A byte slice found by \<^verbatim>\<open>GetAny\<close> would fail the type assertion of the ref; refs never put one
  in a store that has \<^verbatim>\<open>SetAny\<close>.
\<close>

definition memory_ops :: "('v \<Rightarrow> 'b result) \<Rightarrow> ('b \<Rightarrow> 'v result) \<Rightarrow> (('b, 'v) memory_store, 'b, 'v) store_ops" where
  "memory_ops m u =
     \<lparr>get_any = (\<lambda>s k. case store_GetAny s k of Some (Value v) \<Rightarrow> Some v | _ \<Rightarrow> None),
      set_any = (\<lambda>s k v. store_SetAny s k (Value v)),
      store_get = (\<lambda>s k. fst (store_Get m s k)), store_set = (\<lambda>s k d. (store_Set s k d, None)),
      marshal = m, unmarshal = u\<rparr>"

lemma memory_ref_store:
  assumes "\<And>v d. m v = Inr d \<Longrightarrow> u d = Inr v"
  shows "ref_store (memory_ops m u)"
  by unfold_locales (auto simp: memory_ops_def store_simps assms)

text \<open>The codec of strings as they are.\<close>

interpretation memory_refs: ref_store "memory_ops Inr Inr :: ((string, string) memory_store, string, string) store_ops"
  by (rule memory_ref_store) simp

section \<open>refRegistry\<close>

record ('f, 'a) ref_registry =
  rr_inits :: "string \<rightharpoonup> 'f"
  rr_vals :: "string \<rightharpoonup> 'a"

definition newRefRegistry :: "('f, 'a) ref_registry" where
  "newRefRegistry = \<lparr>rr_inits = Map.empty, rr_vals = Map.empty\<rparr>"

definition registry_register :: "string \<Rightarrow> 'f \<Rightarrow> ('f, 'a) ref_registry \<Rightarrow> ('f, 'a) ref_registry" where
  "registry_register name factory g =
     (if rr_inits g name = None then g\<lparr>rr_inits := (rr_inits g)(name \<mapsto> factory)\<rparr> else g)"

text \<open>\<^verbatim>\<open>create\<close> calls a factory with the store and the codec of the run.\<close>

definition registry_init :: "('f \<Rightarrow> 'a) \<Rightarrow> ('f, 'a) ref_registry \<Rightarrow> ('f, 'a) ref_registry" where
  "registry_init create g =
     g\<lparr>rr_vals := (\<lambda>name. case rr_vals g name of Some v \<Rightarrow> Some v | None \<Rightarrow> map_option create (rr_inits g name))\<rparr>"

definition registry_get :: "string \<Rightarrow> ('f, 'a) ref_registry \<Rightarrow> 'a option" where
  "registry_get name g = rr_vals g name"

lemma fold_register:
  "rr_inits (fold (\<lambda>(k, f). registry_register k f) regs g) = map_of regs ++ rr_inits g \<and>
   rr_vals (fold (\<lambda>(k, f). registry_register k f) regs g) = rr_vals g"
proof (induction regs arbitrary: g)
  case (Cons p regs)
  obtain k f where "p = (k, f)" by (cases p)
  with Cons [of "registry_register k f g"] show ?case
    by (cases "rr_inits g k") (auto simp: registry_register_def fun_eq_iff map_add_def split: option.splits)
qed simp

text \<open>The first factory registered under a name makes the value of all who use that name.\<close>

lemma registry_first_wins:
  "registry_get name (registry_init create (fold (\<lambda>(k, f). registry_register k f) regs newRefRegistry)) =
    map_option create (map_of regs name)"
  by (simp add: registry_get_def registry_init_def fold_register newRefRegistry_def)

section \<open>keyedRefMap\<close>

text \<open>
  \<^verbatim>\<open>km_next_sweep\<close> is \<^verbatim>\<open>None\<close> for the zero time, which is before every clock reading. The refs of a
  map belong to one worker, so a function that gets a ref and writes to it is an update of the
  entry.
\<close>

record 'v keyed_refs =
  km_refs :: "string \<rightharpoonup> 'v ref"
  km_initial :: 'v
  km_name :: string
  km_ttl :: duration
  km_key_ttl :: duration
  km_next_sweep :: "time option"

definition new_keyed_refs :: "'v state_key \<Rightarrow> duration \<Rightarrow> 'v keyed_refs" where
  "new_keyed_refs key keyTTL =
     \<lparr>km_refs = Map.empty, km_initial = key_initial key, km_name = key_name key, km_ttl = key_ttl key,
      km_key_ttl = keyTTL, km_next_sweep = None\<rparr>"

definition last_access_before :: "time \<Rightarrow> 'v ref \<Rightarrow> bool" where
  "last_access_before cutoff r \<longleftrightarrow> (case rf_last_access r of None \<Rightarrow> True | Some a \<Rightarrow> a < cutoff)"

text \<open>The opportunistic sweep over the other keys.\<close>

definition km_sweep :: "time \<Rightarrow> string \<Rightarrow> 'v keyed_refs \<Rightarrow> 'v keyed_refs" where
  "km_sweep now entityKey m =
     (if km_key_ttl m > 0 \<and> (case km_next_sweep m of None \<Rightarrow> True | Some t \<Rightarrow> \<not> now < t)
      then m\<lparr>km_refs := (\<lambda>k. case km_refs m k of
               Some r \<Rightarrow> if k \<noteq> entityKey \<and> last_access_before (now - km_key_ttl m) r then None else Some r
             | None \<Rightarrow> None),
             km_next_sweep := Some (now + km_key_ttl m div 8)\<rparr>
      else m)"

definition km_evict :: "time \<Rightarrow> 'v keyed_refs \<Rightarrow> 'v ref \<Rightarrow> bool" where
  "km_evict now m r \<longleftrightarrow>
     (km_key_ttl m > 0 \<and> (case rf_last_access r of Some a \<Rightarrow> now - a > km_key_ttl m | None \<Rightarrow> False)) \<or>
     (km_ttl m > 0 \<and> (case rf_last_write r of Some w \<Rightarrow> now > w + km_ttl m | None \<Rightarrow> False))"

definition getRef :: "time \<Rightarrow> string \<Rightarrow> 'v keyed_refs \<Rightarrow> 'v ref \<times> 'v keyed_refs" where
  "getRef now entityKey m =
     (let m = km_sweep now entityKey m;
          fresh = (newRef (km_initial m) (km_name m @ '':'' @ entityKey) (km_ttl m))\<lparr>rf_last_access := Some now\<rparr>;
          r = (case km_refs m entityKey of
                 Some r \<Rightarrow> if km_evict now m r then fresh else r\<lparr>rf_last_access := Some now\<rparr>
               | None \<Rightarrow> fresh)
      in (r, m\<lparr>km_refs := (km_refs m)(entityKey \<mapsto> r)\<rparr>))"

text \<open>What the user's function leaves in the ref it was given.\<close>

definition put_ref :: "string \<Rightarrow> 'v ref \<Rightarrow> 'v keyed_refs \<Rightarrow> 'v keyed_refs" where
  "put_ref entityKey r m = m\<lparr>km_refs := (km_refs m)(entityKey \<mapsto> r)\<rparr>"

lemma km_sweep_sel [simp]:
  "km_initial (km_sweep now k m) = km_initial m" "km_name (km_sweep now k m) = km_name m"
  "km_ttl (km_sweep now k m) = km_ttl m" "km_key_ttl (km_sweep now k m) = km_key_ttl m"
  "km_refs (km_sweep now k m) k = km_refs m k"
  by (simp_all add: km_sweep_def split: option.split)

lemma getRef_sel [simp]:
  "km_initial (snd (getRef now k m)) = km_initial m" "km_name (snd (getRef now k m)) = km_name m"
  "km_ttl (snd (getRef now k m)) = km_ttl m" "km_key_ttl (snd (getRef now k m)) = km_key_ttl m"
  "km_refs (snd (getRef now k m)) k = Some (fst (getRef now k m))"
  "rf_last_access (fst (getRef now k m)) = Some now"
  by (simp_all add: getRef_def Let_def split: option.split)

lemma put_ref_sel [simp]:
  "km_initial (put_ref k r m) = km_initial m" "km_name (put_ref k r m) = km_name m"
  "km_ttl (put_ref k r m) = km_ttl m" "km_key_ttl (put_ref k r m) = km_key_ttl m"
  "km_refs (put_ref k r m) = (km_refs m)(k \<mapsto> r)"
  by (simp_all add: put_ref_def)

text \<open>Another key's entry is untouched unless it is swept for inactivity.\<close>

lemma getRef_other:
  assumes "j \<noteq> k"
  shows "km_refs (snd (getRef now k m)) j = km_refs m j \<or>
         (\<exists>r. km_refs m j = Some r \<and> km_key_ttl m > 0 \<and> last_access_before (now - km_key_ttl m) r \<and>
              km_refs (snd (getRef now k m)) j = None)"
  using assms by (auto simp: getRef_def Let_def km_sweep_def split: option.splits)

text \<open>After a sweep no inactive entry is left.\<close>

lemma getRef_sweeps:
  assumes "km_key_ttl m > 0" and "\<forall>t. km_next_sweep m = Some t \<longrightarrow> t \<le> now"
    and "km_refs (snd (getRef now k m)) j = Some r"
  shows "\<exists>a. rf_last_access r = Some a \<and> now - km_key_ttl m \<le> a"
  using assms
  by (auto simp: getRef_def Let_def km_sweep_def last_access_before_def split: option.splits if_splits)

text \<open>
  The value the map holds for a key at a time: its ref's, unless the key was idle for longer than its
  time to live or the value is older than its own.
\<close>

definition key_value :: "time \<Rightarrow> 'v keyed_refs \<Rightarrow> string \<Rightarrow> 'v" where
  "key_value now m k =
     (case km_refs m k of
        None \<Rightarrow> km_initial m
      | Some r \<Rightarrow>
          if (0 < km_key_ttl m \<and> (case rf_last_access r of Some a \<Rightarrow> a + km_key_ttl m < now | None \<Rightarrow> False)) \<or>
             (0 < km_ttl m \<and> (case rf_last_write r of Some w \<Rightarrow> w + km_ttl m < now | None \<Rightarrow> False))
          then km_initial m else rf_value r)"

lemma getRef_value: "rf_value (fst (getRef now k m)) = key_value now m k"
  by (auto simp: getRef_def Let_def key_value_def newRef_def km_evict_def split: option.splits)

section \<open>The uses of a key\<close>

text \<open>
  A use of a map: at a time, an item of a key is processed with the key's ref; its function may set the
  value, at a time of its own.
\<close>

type_synonym 'v key_use = "time \<times> string \<times> (time \<times> 'v) option"

fun use_key :: "'v key_use \<Rightarrow> 'v keyed_refs \<Rightarrow> 'v keyed_refs" where
  "use_key (now, k, w) m =
     (case getRef now k m of (r, m') \<Rightarrow>
        put_ref k (case w of None \<Rightarrow> r | Some (wt, v) \<Rightarrow> written wt v r) m')"

text \<open>
  The reference does not know the map: from the uses of one key alone, the latest first, the last value
  set and when, unless it is forgotten by \<^verbatim>\<open>now\<close>: between two uses, or since the last one, the key was
  idle for longer than \<^verbatim>\<open>keyTTL\<close>, or the key was used (or is used now) when the value was older than \<^verbatim>\<open>ttl\<close>.
\<close>

fun remembered :: "duration \<Rightarrow> duration \<Rightarrow> time \<Rightarrow> (time \<times> (time \<times> 'v) option) list \<Rightarrow> (time \<times> 'v) option" where
  "remembered keyTTL ttl now [] = None"
| "remembered keyTTL ttl now ((t, w) # us) =
     (if 0 < keyTTL \<and> t + keyTTL < now then None
      else
        (case (if w = None then remembered keyTTL ttl t us else w) of
           None \<Rightarrow> None
         | Some (wt, v) \<Rightarrow> if 0 < ttl \<and> wt + ttl < now then None else Some (wt, v)))"

definition uses_of :: "string \<Rightarrow> 'v key_use list \<Rightarrow> (time \<times> (time \<times> 'v) option) list" where
  "uses_of k h = rev (map (\<lambda>(t, _, w). (t, w)) (filter (\<lambda>(_, j, _). j = k) h))"

lemma uses_of_simps [simp]:
  "uses_of k [] = []"
  "uses_of k (h @ [(t, j, w)]) = (if j = k then (t, w) # uses_of k h else uses_of k h)"
  by (simp_all add: uses_of_def)

definition use_state :: "duration \<Rightarrow> duration \<Rightarrow> time \<Rightarrow> (time \<times> 'v) option \<Rightarrow> (time \<times> (time \<times> 'v) option) list \<Rightarrow> (time \<times> 'v) option" where
  "use_state keyTTL ttl t w us = (if w = None then remembered keyTTL ttl t us else w)"

text \<open>A ref that holds a remembered value.\<close>

definition holds_value :: "'v \<Rightarrow> duration \<Rightarrow> (time \<times> 'v) option \<Rightarrow> 'v ref \<Rightarrow> bool" where
  "holds_value init ttl st r \<longleftrightarrow>
     rf_value r = (case st of None \<Rightarrow> init | Some (_, v) \<Rightarrow> v) \<and> rf_ttl r = ttl \<and>
     (0 < ttl \<longrightarrow> rf_last_write r = map_option fst st)"

text \<open>
  After the uses \<^verbatim>\<open>h\<close>, the last of them at \<^verbatim>\<open>c\<close> or before: a key that was used has a ref that holds what is
  remembered, or has been swept, and then it was idle for too long.
\<close>

fun ref_follows ::
  "'v state_key \<Rightarrow> duration \<Rightarrow> time \<Rightarrow> (time \<times> (time \<times> 'v) option) list \<Rightarrow> 'v ref option \<Rightarrow> bool" where
  "ref_follows key keyTTL c [] e = (e = None)"
| "ref_follows key keyTTL c ((t, w) # us) None = (0 < keyTTL \<and> t + keyTTL < c)"
| "ref_follows key keyTTL c ((t, w) # us) (Some r) =
     (rf_last_access r = Some t \<and>
      holds_value (key_initial key) (key_ttl key) (use_state keyTTL (key_ttl key) t w us) r)"

definition refs_follow :: "'v state_key \<Rightarrow> duration \<Rightarrow> time \<Rightarrow> 'v key_use list \<Rightarrow> 'v keyed_refs \<Rightarrow> bool" where
  "refs_follow key keyTTL c h m \<longleftrightarrow>
     km_initial m = key_initial key \<and> km_ttl m = key_ttl key \<and> km_key_ttl m = keyTTL \<and>
     (\<forall>j. ref_follows key keyTTL c (uses_of j h) (km_refs m j))"

lemma ref_follows_later: "ref_follows key keyTTL c us e \<Longrightarrow> c \<le> c' \<Longrightarrow> ref_follows key keyTTL c' us e"
  by (cases "(key, keyTTL, c, us, e)" rule: ref_follows.cases) auto

lemma refs_follow_new: "refs_follow key keyTTL c [] (new_keyed_refs key keyTTL)"
  by (simp add: refs_follow_def new_keyed_refs_def)

text \<open>A lookup finds what is remembered.\<close>

lemma getRef_remembered:
  assumes "refs_follow key keyTTL c h m" and "c \<le> now"
  shows "holds_value (key_initial key) (key_ttl key) (remembered keyTTL (key_ttl key) now (uses_of k h)) (fst (getRef now k m))"
proof (cases "uses_of k h")
  case Nil
  with assms(1) have "km_refs m k = None" by (auto simp: refs_follow_def dest: spec [of _ k])
  with Nil assms(1) show ?thesis
    by (simp add: getRef_def Let_def newRef_def holds_value_def refs_follow_def)
next
  case (Cons u us)
  obtain t w where u: "u = (t, w)" by (cases u)
  have init: "km_initial m = key_initial key" "km_ttl m = key_ttl key" "km_key_ttl m = keyTTL"
    using assms(1) by (simp_all add: refs_follow_def)
  show ?thesis
  proof (cases "km_refs m k")
    case None
    with assms Cons u have "0 < keyTTL" "t + keyTTL < now"
      by (auto simp: refs_follow_def dest!: spec [of _ k])
    with None Cons u init show ?thesis by (simp add: getRef_def Let_def newRef_def holds_value_def)
  next
    case (Some r)
    with assms(1) Cons u have "rf_last_access r = Some t"
      "holds_value (key_initial key) (key_ttl key) (use_state keyTTL (key_ttl key) t w us) r"
      by (auto simp: refs_follow_def dest!: spec [of _ k])
    with Some Cons u init show ?thesis
      by (cases "use_state keyTTL (key_ttl key) t w us")
        (auto simp: getRef_def Let_def newRef_def holds_value_def km_evict_def use_state_def split: if_splits)
  qed
qed

lemma refs_follow_use:
  assumes "refs_follow key keyTTL c h m" and "c \<le> now"
  shows "refs_follow key keyTTL now (h @ [(now, k, w)]) (use_key (now, k, w) m)"
proof -
  obtain r m' where g: "getRef now k m = (r, m')" by fastforce
  let ?r = "case w of None \<Rightarrow> r | Some (wt, v) \<Rightarrow> written wt v r"
  have "holds_value (key_initial key) (key_ttl key) (use_state keyTTL (key_ttl key) now w (uses_of k h)) ?r"
    using getRef_remembered [OF assms, of k]
    by (cases w) (auto simp: g use_state_def holds_value_def)
  moreover have "rf_last_access ?r = Some now"
    using getRef_sel(6) [of now k m] by (auto simp: g split: option.split)
  moreover have "ref_follows key keyTTL now (uses_of j h) (km_refs m' j)" if j: "j \<noteq> k" for j
  proof -
    have old: "ref_follows key keyTTL c (uses_of j h) (km_refs m j)" "km_key_ttl m = keyTTL"
      using assms(1) by (auto simp: refs_follow_def)
    from getRef_other [OF j, of now m] consider "km_refs m' j = km_refs m j"
      | q where "km_refs m j = Some q" "km_key_ttl m > 0" "last_access_before (now - km_key_ttl m) q" "km_refs m' j = None"
      by (auto simp: g)
    then show ?thesis
    proof cases
      case 1
      with old ref_follows_later [OF _ assms(2)] show ?thesis by simp
    next
      case 2
      with old show ?thesis by (cases "uses_of j h") (auto simp: last_access_before_def)
    qed
  qed
  moreover have "km_initial m' = km_initial m" "km_ttl m' = km_ttl m" "km_key_ttl m' = km_key_ttl m"
    using getRef_sel(1,3,4) [of now k m] by (simp_all add: g)
  ultimately show ?thesis using assms(1) by (auto simp: refs_follow_def g)
qed

lemma refs_follow_uses:
  assumes "sorted (map fst h)" and "\<forall>u \<in> set h. fst u \<le> c"
  shows "refs_follow key keyTTL c h (fold use_key h (new_keyed_refs key keyTTL))"
  using assms
proof (induction h arbitrary: c rule: rev_induct)
  case Nil
  then show ?case by (simp add: refs_follow_new)
next
  case (snoc u h)
  obtain t k w where u: "u = (t, k, w)" by (metis prod_cases3)
  from snoc.prems have "refs_follow key keyTTL t h (fold use_key h (new_keyed_refs key keyTTL))"
    by (intro snoc.IH) (auto simp: sorted_append u)
  from refs_follow_use [OF this, of t k w] have
    "refs_follow key keyTTL t (h @ [u]) (fold use_key (h @ [u]) (new_keyed_refs key keyTTL))" by (simp add: u)
  moreover have "t \<le> c" using snoc.prems(2) u by simp
  ultimately show ?case
    unfolding refs_follow_def using ref_follows_later by blast
qed

text \<open>A key that a due sweep leaves in the map has been used within its time to live.\<close>

lemma swept_recent:
  assumes "refs_follow key keyTTL c h m" and "c \<le> now" and "0 < keyTTL"
    and "\<forall>t. km_next_sweep m = Some t \<longrightarrow> t \<le> now" and "km_refs (snd (getRef now k m)) j = Some r" and "j \<noteq> k"
  shows "\<exists>t w us. uses_of j h = (t, w) # us \<and> now - keyTTL \<le> t"
proof -
  have m: "km_key_ttl m = keyTTL" using assms(1) by (simp add: refs_follow_def)
  obtain a where a: "rf_last_access r = Some a" "now - keyTTL \<le> a"
    using getRef_sweeps [of m now k j r] assms(3-5) by (auto simp: m)
  have "km_refs m j = Some r" using getRef_other [OF assms(6), of now m] assms(5) by auto
  with assms(1) a show ?thesis
    by (cases "uses_of j h") (auto simp: refs_follow_def dest!: spec [of _ j])
qed

section \<open>Properties\<close>

text \<open>
  C25: Over any store that keeps what it is given and any codec that reads back what it wrote, a
  value set through a \<^verbatim>\<open>Ref\<close> is the value read until it expires, other refs are untouched, and
  \<^verbatim>\<open>UpdateAndGet\<close> reads, applies the function and writes in one step.
\<close>

theorem ref_set_get:
  assumes "ref_store ops" and "Ref_Set bk ops now val r s = (None, r', s')"
    and "rf_ttl r > 0 \<longrightarrow> now' \<le> now + rf_ttl r" and "rf_ttl r > 0 \<or> rf_last_write r = None"
  shows "fst (Ref_Get bk ops now' r' s') = Inr val \<and>
         (\<forall>q. rf_key q \<noteq> rf_key r \<longrightarrow> fst (Ref_Get bk ops now' q s') = fst (Ref_Get bk ops now' q s)) \<and>
         (\<forall>f. fst (Ref_UpdateAndGet bk ops now' (\<lambda>v. Inr (f v)) r' s') \<in> {Inr (f val)} \<union> range Inl)"
proof -
  note get = ref_store.set_get [OF assms(1,2,3,4)]
  have "\<not> ref_expired now' r'" if "bk = NoStore"
    using assms that by (auto simp: Ref_Set_def ref_expired_def split: if_splits)
  then have "fst (Ref_UpdateAndGet bk ops now' (\<lambda>v. Inr (f v)) r' s') \<in> {Inr (f val)} \<union> range Inl" for f
    by (subst ref_store.update_is_get_set [OF assms(1)]) (auto simp: get split: prod.splits option.splits)
  with get ref_store.set_other [OF assms(1,2)] show ?thesis by (auto simp: Ref_Get_cell)
qed

definition sample_ref :: "string ref" where
  "sample_ref = newRef ''init'' ''counter'' 0"

theorem ref_set_get_witness:
  "fst (Ref_Get Encoded (memory_ops Inr Inr :: ((string, string) memory_store, string, string) store_ops) 9 sample_ref
     (snd (snd (Ref_Set Encoded (memory_ops Inr Inr) 1 ''seven'' sample_ref MemoryStore)))) = Inr ''seven''"
proof -
  let ?ops = "memory_ops Inr Inr :: ((string, string) memory_store, string, string) store_ops"
  have "Ref_Set Encoded ?ops 1 ''seven'' sample_ref MemoryStore =
      (None, sample_ref, snd (snd (Ref_Set Encoded ?ops 1 ''seven'' sample_ref MemoryStore)))"
    by (simp add: Ref_Set_def storeSet_def memory_ops_def)
  from ref_set_get [OF memory_refs.ref_store_axioms this, of 9] show ?thesis
    by (simp add: sample_ref_def newRef_def)
qed

text \<open>
  C2: \<^verbatim>\<open>StateTTL\<close> is only looked at by \<^verbatim>\<open>Get\<close> and only in memory: when the value has expired, \<^verbatim>\<open>Get\<close>
  answers the initial value, but \<^verbatim>\<open>Update\<close> and \<^verbatim>\<open>GetOrSet\<close> still work on the expired one, and the
  refs of a store never expire.
\<close>

theorem expired_value_updated:
  assumes "ref_expired now r" and "fn (rf_value r) = Inr v"
  shows "fst (Ref_Get NoStore ops now r s) = Inr (rf_initial r) \<and>
         fst (Ref_UpdateAndGet NoStore ops now fn r s) = Inr v \<and>
         fst (Ref_GetOrSet NoStore ops g r s) = Inr (rf_value r) \<and>
         (bk \<noteq> NoStore \<longrightarrow> Ref_Get bk ops now r s = Ref_Get bk ops now' r s)"
  using assms by (auto simp: Ref_Get_def Ref_UpdateAndGet_def Ref_GetOrSet_def split: backing.split)

theorem expired_value_updated_witness:
  "fst (Ref_UpdateAndGet NoStore (memory_ops Inr Inr :: ((nat, nat) memory_store, nat, nat) store_ops) 100 (\<lambda>v. Inr (v + 1))
      \<lparr>rf_value = 7, rf_initial = 0, rf_key = ''n'', rf_ttl = 10, rf_last_write = Some 1, rf_last_access = None\<rparr> MemoryStore) = Inr 8"
  using expired_value_updated [of 100
      "\<lparr>rf_value = 7, rf_initial = 0, rf_key = ''n'', rf_ttl = 10, rf_last_write = Some 1, rf_last_access = None\<rparr>"
      "\<lambda>v. Inr (v + 1)" "8::nat" "memory_ops Inr Inr" MemoryStore "Inr 0" NoStore 0]
  by (simp add: ref_expired_def)

text \<open>
  C26: Keyed state with expiry, against the history of its uses. After any uses of any keys, at times that
  do not decrease, the next lookup of a key gives the value last set for that key, or the initial one when
  nothing was set or it has been forgotten: the key was idle for longer than its time to live, or was
  used when the value was older than \<^verbatim>\<open>StateTTL\<close>. The uses of other keys and the sweeps in between do not
  matter. After a sweep that was due, every other key left in the map has been used within the time to
  live.
\<close>

theorem keyed_state_expiry:
  assumes "sorted (map fst h)" and "\<forall>u \<in> set h. fst u \<le> now"
    and "m = fold use_key h (new_keyed_refs key keyTTL)"
  shows "rf_value (fst (getRef now k m)) =
           (case remembered keyTTL (key_ttl key) now (uses_of k h) of None \<Rightarrow> key_initial key | Some (_, v) \<Rightarrow> v) \<and>
         (0 < keyTTL \<and> (\<forall>t. km_next_sweep m = Some t \<longrightarrow> t \<le> now) \<longrightarrow>
            (\<forall>j \<in> dom (km_refs (snd (getRef now k m))). j = k \<or> (\<exists>t w. (t, j, w) \<in> set h \<and> now - keyTTL \<le> t)))"
proof -
  have follow: "refs_follow key keyTTL now h m" unfolding assms(3) by (rule refs_follow_uses [OF assms(1,2)])
  have "\<exists>t w. (t, j, w) \<in> set h \<and> now - keyTTL \<le> t"
    if left: "0 < keyTTL" "\<forall>t. km_next_sweep m = Some t \<longrightarrow> t \<le> now" "km_refs (snd (getRef now k m)) j = Some r" "j \<noteq> k" for j r
  proof -
    obtain t w us where u: "uses_of j h = (t, w) # us" "now - keyTTL \<le> t"
      using swept_recent [OF follow order_refl left] by blast
    then have "(t, w) \<in> set (uses_of j h)" by simp
    then have "(t, j, w) \<in> set h" by (auto simp: uses_of_def)
    with u(2) show ?thesis by blast
  qed
  with getRef_remembered [OF follow order_refl, of k] show ?thesis by (auto simp: holds_value_def)
qed

definition sample_uses :: "nat key_use list" where
  "sample_uses = [(1, ''a'', Some (1, 7)), (5, ''b'', Some (6, 9)), (8, ''a'', None)]"

theorem keyed_state_expiry_witness:
  "rf_value (fst (getRef 15 ''a'' (fold use_key sample_uses (new_keyed_refs \<lparr>key_name = ''k'', key_initial = 3 :: nat, key_ttl = 20\<rparr> 10)))) = 7 \<and>
   rf_value (fst (getRef 19 ''a'' (fold use_key sample_uses (new_keyed_refs \<lparr>key_name = ''k'', key_initial = 3 :: nat, key_ttl = 20\<rparr> 10)))) = 3 \<and>
   rf_value (fst (getRef 15 ''a'' (fold use_key sample_uses (new_keyed_refs \<lparr>key_name = ''k'', key_initial = 3 :: nat, key_ttl = 12\<rparr> 10)))) = 3"
proof -
  have s: "sorted (map fst sample_uses)" "\<forall>u \<in> set sample_uses. fst u \<le> 15" "\<forall>u \<in> set sample_uses. fst u \<le> 19"
    by (simp_all add: sample_uses_def)
  have u: "uses_of ''a'' sample_uses = [(8, None), (1, Some (1, 7))]" by (simp add: uses_of_def sample_uses_def)
  show ?thesis
    using keyed_state_expiry [where key = "\<lparr>key_name = ''k'', key_initial = 3 :: nat, key_ttl = 20\<rparr>" and keyTTL = 10 and k = "''a''", OF s(1,2) refl]
      keyed_state_expiry [where key = "\<lparr>key_name = ''k'', key_initial = 3 :: nat, key_ttl = 20\<rparr>" and keyTTL = 10 and k = "''a''", OF s(1,3) refl]
      keyed_state_expiry [where key = "\<lparr>key_name = ''k'', key_initial = 3 :: nat, key_ttl = 12\<rparr>" and keyTTL = 10 and k = "''a''", OF s(1,2) refl]
    by (simp add: u)
qed

text \<open>
  Eviction in a run with a store. \<^verbatim>\<open>WithKeyTTL\<close> and \<^verbatim>\<open>StateTTL\<close> remove the entry of the map, not the
  value in the store, and the new ref has the key of the old one: the next item of an evicted key
  reads the old value, not the initial one.
\<close>

theorem evicted_key_reads_store:
  assumes "km_refs m k = Some r" and "km_evict now m r"
    and "get_any ops s (km_name m @ '':'' @ k) = Some v"
  shows "rf_value (fst (getRef now k m)) = km_initial m \<and>
         fst (Ref_Get InProcess ops now' (fst (getRef now k m)) s) = Inr v"
proof -
  have "km_evict now (km_sweep now k m) r" using assms(2) by (auto simp: km_evict_def split: option.splits)
  with assms show ?thesis by (simp add: getRef_def Let_def newRef_def Ref_Get_def)
qed

definition idle_map :: "nat keyed_refs" where
  "idle_map = \<lparr>km_refs = [''u'' \<mapsto> (newRef 0 ''k:u'' 0)\<lparr>rf_last_access := Some 1\<rparr>], km_initial = 0, km_name = ''k'',
     km_ttl = 0, km_key_ttl = 10, km_next_sweep = None\<rparr>"

theorem evicted_key_reads_store_witness:
  "fst (Ref_Get InProcess (memory_ops Inr Inr :: ((nat, nat) memory_store, nat, nat) store_ops) 90
     (fst (getRef 90 ''u'' idle_map)) (store_SetAny MemoryStore ''k:u'' (Value 7))) = Inr 7"
  using evicted_key_reads_store [of idle_map "''u''" "(newRef 0 ''k:u'' 0)\<lparr>rf_last_access := Some 1\<rparr>" 90
      "memory_ops Inr Inr" "store_SetAny MemoryStore ''k:u'' (Value 7)" 7 90]
  by (simp add: idle_map_def km_evict_def memory_ops_def store_simps)

end
