(* ===== verification/State_Ops.thy ===== *)
theory State_Ops
  imports State_Ref Flat_Ops
begin

text \<open>
  The serial stateful stages: \<^verbatim>\<open>MapWith\<close> and \<^verbatim>\<open>FlatMapWith\<close> (\<^verbatim>\<open>state_with.go\<close>), \<^verbatim>\<open>MapWithKey\<close>
  and \<^verbatim>\<open>FlatMapWithKey\<close> (\<^verbatim>\<open>state_withkey.go\<close>). The user's function is a transformer of the world \<^verbatim>\<open>'w\<close>
  it acts on, a ref and the store of the run: it answers an item and an attempt with a result and
  the new world.
\<close>

section \<open>Processing an item with state\<close>

text \<open>The world before attempt \<^verbatim>\<open>k\<close>.\<close>

fun attempt_world :: "('i \<Rightarrow> nat \<Rightarrow> 'w \<Rightarrow> 'r \<times> 'w) \<Rightarrow> 'i \<Rightarrow> 'w \<Rightarrow> nat \<Rightarrow> 'w" where
  "attempt_world fn x w 0 = w"
| "attempt_world fn x w (Suc k) = snd (fn x k (attempt_world fn x w k))"

definition attempt_result :: "('i \<Rightarrow> nat \<Rightarrow> 'w \<Rightarrow> 'r \<times> 'w) \<Rightarrow> 'i \<Rightarrow> 'w \<Rightarrow> nat \<Rightarrow> 'r" where
  "attempt_result fn x w k = fst (fn x k (attempt_world fn x w k))"

text \<open>\<^verbatim>\<open>process\<close> is the answer of \<^verbatim>\<open>ProcessItem\<close>, with the world its last attempt leaves.\<close>

definition processes_with ::
  "nat \<Rightarrow> ('i \<Rightarrow> nat \<Rightarrow> 'w \<Rightarrow> 'o result \<times> 'w) \<Rightarrow> 'o handler option \<Rightarrow> ('i \<Rightarrow> nat \<Rightarrow> go_error option) \<Rightarrow>
   ('w \<Rightarrow> 'i \<Rightarrow> 'w \<times> 'o result \<times> nat) \<Rightarrow> bool" where
  "processes_with fuel fn h cancelled process \<longleftrightarrow>
     (\<forall>w x. \<exists>r k. ProcessItem fuel (attempt_result fn x w) h (cancelled x) = Some (r, k) \<and>
        process w x = (attempt_world fn x w (Suc k), r, k))"

definition flat_processes_with ::
  "nat \<Rightarrow> ('i \<Rightarrow> nat \<Rightarrow> 'w \<Rightarrow> ('o list \<times> go_error option) \<times> 'w) \<Rightarrow> 'o handler option \<Rightarrow>
   ('i \<Rightarrow> nat \<Rightarrow> go_error option) \<Rightarrow> ('w \<Rightarrow> 'i \<Rightarrow> 'w \<times> 'o list \<times> go_error option \<times> nat) \<Rightarrow> bool" where
  "flat_processes_with fuel fn h cancelled process \<longleftrightarrow>
     (\<forall>w x. \<exists>out e k. ProcessFlatMapItem fuel (attempt_result fn x w) h (\<lambda>_. None) (cancelled x) = Some (out, e, k) \<and>
        process w x = (attempt_world fn x w (Suc k), out, e, k))"

section \<open>MapWith and FlatMapWith\<close>

definition map_with_step ::
  "string \<Rightarrow> ('w \<Rightarrow> 'i \<Rightarrow> 'w \<times> 'o result \<times> nat) \<Rightarrow> 'w \<Rightarrow> 'i recv \<Rightarrow> ('w, 'o) act" where
  "map_with_step name process w e =
     (case e of
        Closed \<Rightarrow> Act [] (Return None)
      | Item item \<Rightarrow>
          (case process w item of
             (w', Inr val, attempt) \<Rightarrow> Act [val] (Continue w')
           | (w', Inl err, attempt) \<Rightarrow>
               if err = ErrSkipped then Act [] (Continue w')
               else Act [] (Return (WrapStageErr name (Some err) attempt))))"

definition mapWithSerial ::
  "string \<Rightarrow> ('w \<Rightarrow> 'i \<Rightarrow> 'w \<times> 'o result \<times> nat) \<Rightarrow> 'w \<Rightarrow> ('w, 'i recv, 'o) loop" where
  "mapWithSerial name process w = select_loop w (map_with_step name process)"

definition flat_map_with_step ::
  "string \<Rightarrow> ('w \<Rightarrow> 'i \<Rightarrow> 'w \<times> 'o list \<times> go_error option \<times> nat) \<Rightarrow> 'w \<Rightarrow> 'i recv \<Rightarrow> ('w, 'o) act" where
  "flat_map_with_step name process w e =
     (case e of
        Closed \<Rightarrow> Act [] (Return None)
      | Item item \<Rightarrow>
          (case process w item of
             (w', out, None, attempt) \<Rightarrow> Act out (Continue w')
           | (w', out, Some err, attempt) \<Rightarrow>
               if err = ErrSkipped then Act out (Continue w')
               else Act out (Return (WrapStageErr name (Some err) attempt))))"

definition flatMapWithSerial ::
  "string \<Rightarrow> ('w \<Rightarrow> 'i \<Rightarrow> 'w \<times> 'o list \<times> go_error option \<times> nat) \<Rightarrow> 'w \<Rightarrow> ('w, 'i recv, 'o) loop" where
  "flatMapWithSerial name process w = select_loop w (flat_map_with_step name process)"

text \<open>An item's output and the new world, or the error that stops the stage.\<close>

definition map_with_emit ::
  "string \<Rightarrow> ('w \<Rightarrow> 'i \<Rightarrow> 'w \<times> 'o result \<times> nat) \<Rightarrow> 'w \<Rightarrow> 'i \<Rightarrow> 'o list \<times> 'w result" where
  "map_with_emit name process w x =
     (case process w x of
        (w', Inr val, attempt) \<Rightarrow> ([val], Inr w')
      | (w', Inl err, attempt) \<Rightarrow>
          ([], if err = ErrSkipped then Inr w' else Inl (the (WrapStageErr name (Some err) attempt))))"

interpretation map_with: fallible "mapWithSerial name process w" "map_with_emit name process" "\<lambda>_. []"
  for name :: string and process :: "'w \<Rightarrow> 'i \<Rightarrow> 'w \<times> 'o result \<times> nat" and w
  by unfold_locales
    (auto simp: mapWithSerial_def map_with_step_def map_with_emit_def WrapStageErr_Some split: prod.splits sum.splits)

definition flat_map_with_emit ::
  "string \<Rightarrow> ('w \<Rightarrow> 'i \<Rightarrow> 'w \<times> 'o list \<times> go_error option \<times> nat) \<Rightarrow> 'w \<Rightarrow> 'i \<Rightarrow> 'o list \<times> 'w result" where
  "flat_map_with_emit name process w x =
     (case process w x of
        (w', out, None, attempt) \<Rightarrow> (out, Inr w')
      | (w', out, Some err, attempt) \<Rightarrow>
          (out, if err = ErrSkipped then Inr w' else Inl (the (WrapStageErr name (Some err) attempt))))"

interpretation flat_map_with: fallible "flatMapWithSerial name process w" "flat_map_with_emit name process" "\<lambda>_. []"
  for name :: string and process :: "'w \<Rightarrow> 'i \<Rightarrow> 'w \<times> 'o list \<times> go_error option \<times> nat" and w
  by unfold_locales
    (auto simp: flatMapWithSerial_def flat_map_with_step_def flat_map_with_emit_def WrapStageErr_Some
      split: prod.splits option.splits)

section \<open>MapWithKey and FlatMapWithKey\<close>

text \<open>
  \<^verbatim>\<open>clock n\<close> is the clock reading of the map's \<^verbatim>\<open>n\<close>-th lookup. The function works on the ref of the
  item's key, and on the store.
\<close>

definition keyed_process ::
  "('i \<Rightarrow> string) \<Rightarrow> (nat \<Rightarrow> time) \<Rightarrow> ('v ref \<times> 's \<Rightarrow> 'i \<Rightarrow> ('v ref \<times> 's) \<times> 'r) \<Rightarrow>
   nat \<times> 'v keyed_refs \<times> 's \<Rightarrow> 'i \<Rightarrow> (nat \<times> 'v keyed_refs \<times> 's) \<times> 'r" where
  "keyed_process keyFn clock process w x =
     (case w of (n, m, s) \<Rightarrow>
        (case getRef (clock n) (keyFn x) m of (r, m') \<Rightarrow>
           (case process (r, s) x of ((r', s'), res) \<Rightarrow> ((Suc n, put_ref (keyFn x) r' m', s'), res))))"

definition mapWithKeySerial where
  "mapWithKeySerial name keyFn clock process w = mapWithSerial name (keyed_process keyFn clock process) w"

definition flatMapWithKeySerial where
  "flatMapWithKeySerial name keyFn clock process w = flatMapWithSerial name (keyed_process keyFn clock process) w"

section \<open>What a stage is built with\<close>

text \<open>
  The refs a build registers: one for a serial stage, one per worker otherwise. The names of the
  registry entry and of the refs' store keys; \<^verbatim>\<open>decimal\<close> prints a worker's number.
\<close>

definition with_refs ::
  "string \<Rightarrow> string \<Rightarrow> (nat \<Rightarrow> string) \<Rightarrow> nat \<Rightarrow> 'v state_key \<Rightarrow> string \<times> 'v ref list" where
  "with_refs tag sep decimal n key =
     (if n = 1 then (key_name key, [newRef (key_initial key) (key_name key) (key_ttl key)])
      else (key_name key @ tag,
            map (\<lambda>i. newRef (key_initial key) (key_name key @ sep @ decimal i) (key_ttl key)) [0..<n]))"

definition MapWith_refs :: "(nat \<Rightarrow> string) \<Rightarrow> ('a, 'x) stage_config \<Rightarrow> 'v state_key \<Rightarrow> string \<times> 'v ref list" where
  "MapWith_refs decimal cfg key =
     with_refs '':__mw_workers__'' '':worker:'' decimal (nat (max 1 (cfg_concurrency cfg))) key"

definition FlatMapWith_refs :: "(nat \<Rightarrow> string) \<Rightarrow> ('a, 'x) stage_config \<Rightarrow> 'v state_key \<Rightarrow> string \<times> 'v ref list" where
  "FlatMapWith_refs decimal cfg key =
     with_refs '':__fmw_workers__'' '':fmw:worker:'' decimal (nat (max 1 (cfg_concurrency cfg))) key"

definition with_key_maps ::
  "string \<Rightarrow> run_ctx \<Rightarrow> ('a, 'x) stage_config \<Rightarrow> 'v state_key \<Rightarrow> string \<times> 'v keyed_refs list" where
  "with_key_maps regName rc cfg key =
     (let n = nat (max 1 (cfg_concurrency cfg)); m = new_keyed_refs key (effectiveKeyTTL rc cfg)
      in if n = 1 then (regName, [m]) else (regName @ '':workers'', replicate n m))"

definition MapWithKey_maps :: "run_ctx \<Rightarrow> ('a, 'x) stage_config \<Rightarrow> 'v state_key \<Rightarrow> string \<times> 'v keyed_refs list" where
  "MapWithKey_maps rc cfg key = with_key_maps (key_name key @ '':__keyed__'') rc cfg key"

text \<open>The loop a build picks.\<close>

datatype with_path = WithSerial | WithOrdered | WithConcurrent

definition with_variant :: "('a, 'x) stage_config \<Rightarrow> with_path" where
  "with_variant cfg =
     (if nat (max 1 (cfg_concurrency cfg)) = 1 then WithSerial
      else if cfg_ordered cfg then WithOrdered else WithConcurrent)"

section \<open>Keys are isolated\<close>

text \<open>
  A function that only reads and writes the value of a ref in memory, without a time to live:
  \<^verbatim>\<open>f v x\<close> is the new value and the answer.
\<close>

definition on_value :: "('v \<Rightarrow> 'i \<Rightarrow> 'v \<times> 'r) \<Rightarrow> 'v ref \<times> unit \<Rightarrow> 'i \<Rightarrow> ('v ref \<times> unit) \<times> 'r" where
  "on_value f w x =
     (case w of (r, u) \<Rightarrow> (case f (rf_value r) x of (v, res) \<Rightarrow> ((r\<lparr>rf_value := v\<rparr>, u), res)))"

definition plain_map :: "'v keyed_refs \<Rightarrow> bool" where
  "plain_map m \<longleftrightarrow> km_key_ttl m \<le> 0 \<and> km_ttl m \<le> 0"

lemma key_value_plain:
  "plain_map m \<Longrightarrow> key_value now m k = (case km_refs m k of Some r \<Rightarrow> rf_value r | None \<Rightarrow> km_initial m)"
  by (simp add: key_value_def plain_map_def split: option.split)

text \<open>One keyed step is a step on the key's value; the other keys keep theirs.\<close>

lemma keyed_step:
  assumes "plain_map m" and "f (key_value 0 m (keyFn x)) x = (v, res)"
  shows "\<exists>m'. keyed_process keyFn clock (on_value f) (n, m, ()) x = ((Suc n, m', ()), res) \<and> plain_map m' \<and>
     km_initial m' = km_initial m \<and> (\<forall>j. key_value 0 m' j = (if j = keyFn x then v else key_value 0 m j))"
proof -
  obtain r m1 where g: "getRef (clock n) (keyFn x) m = (r, m1)" by fastforce
  have val: "rf_value r = key_value 0 m (keyFn x)"
    using getRef_value [of "clock n" "keyFn x" m] assms(1) by (simp add: g key_value_plain)
  let ?m' = "put_ref (keyFn x) (r\<lparr>rf_value := v\<rparr>) m1"
  have run: "keyed_process keyFn clock (on_value f) (n, m, ()) x = ((Suc n, ?m', ()), res)"
    using assms(2) by (simp add: keyed_process_def g on_value_def val)
  have same: "km_initial m1 = km_initial m" "km_ttl m1 = km_ttl m" "km_key_ttl m1 = km_key_ttl m"
    using getRef_sel(1,3,4) [of "clock n" "keyFn x" m] by (simp_all add: g)
  then have plain: "plain_map ?m'" "plain_map m1" using assms(1) by (simp_all add: plain_map_def)
  moreover have "km_refs m1 j = km_refs m j" if "j \<noteq> keyFn x" for j
    using getRef_other [OF that, of "clock n" m] assms(1) by (auto simp: g plain_map_def)
  ultimately show ?thesis
    using run same assms(1) by (intro exI [of _ ?m']) (auto simp: key_value_plain split: option.split)
qed

text \<open>The run of one key: the value it starts with and its items.\<close>

fun value_run :: "('v \<Rightarrow> 'i \<Rightarrow> 'v \<times> 'o result \<times> nat) \<Rightarrow> 'v \<Rightarrow> 'i list \<Rightarrow> 'o list" where
  "value_run f v [] = []"
| "value_run f v (x # xs) =
     (case f v x of
        (v', Inr o', _) \<Rightarrow> o' # value_run f v' xs
      | (v', Inl _, _) \<Rightarrow> value_run f v' xs)"

definition never_halts :: "('v \<Rightarrow> 'i \<Rightarrow> 'v \<times> 'o result \<times> nat) \<Rightarrow> bool" where
  "never_halts f \<longleftrightarrow> (\<forall>v x e. fst (snd (f v x)) = Inl e \<longrightarrow> e = ErrSkipped)"

text \<open>
  No item of a run is answered with an error that stops the stage: over the values of all keys, and over
  the value of one.
\<close>

definition no_stop :: "'o result \<Rightarrow> bool" where
  "no_stop res \<longleftrightarrow> (\<forall>e. res = Inl e \<longrightarrow> e = ErrSkipped)"

fun keys_ok :: "('v \<Rightarrow> 'i \<Rightarrow> 'v \<times> 'o result \<times> nat) \<Rightarrow> ('i \<Rightarrow> string) \<Rightarrow> (string \<Rightarrow> 'v) \<Rightarrow> 'i list \<Rightarrow> bool" where
  "keys_ok f keyFn V [] = True"
| "keys_ok f keyFn V (x # xs) =
     (case f (V (keyFn x)) x of (v, res, _) \<Rightarrow> no_stop res \<and> keys_ok f keyFn (V(keyFn x := v)) xs)"

fun value_ok :: "('v \<Rightarrow> 'i \<Rightarrow> 'v \<times> 'o result \<times> nat) \<Rightarrow> 'v \<Rightarrow> 'i list \<Rightarrow> bool" where
  "value_ok f v [] = True"
| "value_ok f v (x # xs) = (case f v x of (v', res, _) \<Rightarrow> no_stop res \<and> value_ok f v' xs)"

lemma keys_ok_each: "keys_ok f keyFn V xs \<longleftrightarrow> (\<forall>k. value_ok f (V k) (filter (\<lambda>x. keyFn x = k) xs))"
proof (induction xs arbitrary: V)
  case (Cons x xs)
  obtain v res a where f: "f (V (keyFn x)) x = (v, res, a)" by (metis prod_cases3)
  have "(\<forall>k. value_ok f (V k) (filter (\<lambda>y. keyFn y = k) (x # xs))) \<longleftrightarrow>
      no_stop res \<and> (\<forall>k. value_ok f ((V(keyFn x := v)) k) (filter (\<lambda>y. keyFn y = k) xs))"
    using f by (auto split: if_splits)
  with Cons.IH f show ?case by simp
qed simp

lemma never_halts_ok: "never_halts f \<Longrightarrow> keys_ok f keyFn V xs"
proof (induction xs arbitrary: V)
  case (Cons x xs)
  obtain v res a where f: "f (V (keyFn x)) x = (v, res, a)" by (metis prod_cases3)
  with Cons.prems have "no_stop res" unfolding no_stop_def never_halts_def by (metis fst_conv snd_conv)
  with Cons f show ?case by simp
qed simp

lemma keyed_outputs:
  assumes "plain_map m" and "keys_ok f keyFn (key_value 0 m) xs"
    and "\<And>v x o'. fst (snd (f v x)) = Inr o' \<Longrightarrow> tag o' = keyFn x"
  shows "\<exists>w. snd (try_run (map_with_emit name (keyed_process keyFn clock (on_value f))) (n, m, ()) xs) = Inr w \<and>
     filter (\<lambda>o'. tag o' = k) (fst (try_run (map_with_emit name (keyed_process keyFn clock (on_value f))) (n, m, ()) xs)) =
     value_run f (key_value 0 m k) (filter (\<lambda>x. keyFn x = k) xs)"
  using assms(1,2)
proof (induction xs arbitrary: n m)
  case (Cons x xs)
  obtain v res a where f: "f (key_value 0 m (keyFn x)) x = (v, res, a)" by (metis prod_cases3)
  from keyed_step [where f = f and keyFn = keyFn and x = x, OF Cons.prems(1) f] obtain m' where m':
    "keyed_process keyFn clock (on_value f) (n, m, ()) x = ((Suc n, m', ()), res, a)"
    "plain_map m'" "\<forall>j. key_value 0 m' j = (if j = keyFn x then v else key_value 0 m j)"
    by blast
  have vals: "key_value 0 m' = (key_value 0 m)(keyFn x := v)" using m'(3) by auto
  have ok: "no_stop res" "keys_ok f keyFn (key_value 0 m') xs" using Cons.prems(2) f by (simp_all add: vals)
  show ?case
  proof (cases res)
    case (Inl e)
    with ok(1) have "e = ErrSkipped" by (simp add: no_stop_def)
    with Cons.IH [OF m'(2) ok(2), of "Suc n"] m' f Inl show ?thesis by (auto simp: map_with_emit_def)
  next
    case (Inr o')
    with f have "tag o' = keyFn x" using assms(3) by (metis fst_conv snd_conv)
    with Cons.IH [OF m'(2) ok(2), of "Suc n"] m' f Inr show ?thesis
      by (auto simp: map_with_emit_def split: prod.splits)
  qed
qed simp

section \<open>Properties\<close>

lemma mapWithSerial_init [simp]: "loop_init (mapWithSerial name p w) = w"
  by (simp add: mapWithSerial_def)

lemma try_run_on_value:
  "never_halts f \<Longrightarrow>
   \<exists>w. try_run (map_with_emit name (on_value f)) (r, ()) xs = (value_run f (rf_value r) xs, Inr w)"
proof (induction xs arbitrary: r)
  case (Cons x xs)
  obtain v res a where f: "f (rf_value r) x = (v, res, a)" by (metis prod_cases3)
  from Cons.IH [OF Cons.prems, of "r\<lparr>rf_value := v\<rparr>"] obtain w where
    "try_run (map_with_emit name (on_value f)) (r\<lparr>rf_value := v\<rparr>, ()) xs = (value_run f v xs, Inr w)" by auto
  moreover have "res = Inl e \<Longrightarrow> e = ErrSkipped" for e
    using Cons.prems f by (metis fst_conv never_halts_def snd_conv)
  ultimately have "map_with_emit name (on_value f) (r, ()) x =
      (case res of Inr o' \<Rightarrow> [o'] | Inl _ \<Rightarrow> [], Inr (r\<lparr>rf_value := v\<rparr>, ()))"
    and "try_run (map_with_emit name (on_value f)) (r\<lparr>rf_value := v\<rparr>, ()) xs = (value_run f v xs, Inr w)"
    using f by (auto simp: map_with_emit_def on_value_def split: sum.split)
  with f show ?case by (cases w) (auto split: sum.split)
qed simp

text \<open>
  Per-key state is isolated. Of the outputs of \<^verbatim>\<open>MapWithKey\<close>, those of one key are exactly the
  outputs of \<^verbatim>\<open>MapWith\<close> with a fresh ref on the items of that key, however the keys interleave.
\<close>

theorem keys_isolated:
  assumes "never_halts f" and "\<And>v x o'. fst (snd (f v x)) = Inr o' \<Longrightarrow> tag o' = keyFn x"
    and "key_ttl key \<le> 0" and "keyTTL \<le> 0"
  shows "filter (\<lambda>o'. tag o' = k)
           (outputs (mapWithKeySerial name keyFn clock (on_value f) (0, new_keyed_refs key keyTTL, ())) (closing xs)) =
         outputs (mapWithSerial name (on_value f) (newRef (key_initial key) (key_name key) (key_ttl key), ()))
           (closing (filter (\<lambda>x. keyFn x = k) xs)) \<and>
         returns (mapWithKeySerial name keyFn clock (on_value f) (0, new_keyed_refs key keyTTL, ())) (closing xs) = Return None"
proof -
  have plain: "plain_map (new_keyed_refs key keyTTL)" using assms(3,4) by (simp add: plain_map_def new_keyed_refs_def)
  let ?g = "map_with_emit name (keyed_process keyFn clock (on_value f))" and ?w0 = "(0, new_keyed_refs key keyTTL, ())"
  have run: "\<exists>w. snd (try_run ?g ?w0 xs) = Inr w \<and> filter (\<lambda>o'. tag o' = k) (fst (try_run ?g ?w0 xs)) =
      value_run f (key_value 0 (new_keyed_refs key keyTTL) k) (filter (\<lambda>x. keyFn x = k) xs)"
    by (rule keyed_outputs [OF plain never_halts_ok [OF assms(1)]]) (rule assms(2))
  moreover have "key_value 0 (new_keyed_refs key keyTTL) k = key_initial key"
    by (simp add: key_value_def new_keyed_refs_def)
  ultimately show ?thesis
    using try_run_on_value [OF assms(1), of name "newRef (key_initial key) (key_name key) (key_ttl key)"
        "filter (\<lambda>x. keyFn x = k) xs"]
    by (auto simp: mapWithKeySerial_def outputs_def returns_def map_with.exec_closing
        result_error_def newRef_def)
qed

definition count_by :: "nat \<Rightarrow> string \<Rightarrow> nat \<times> (string \<times> nat) result \<times> nat" where
  "count_by v x = (Suc v, Inr (x, Suc v), 0)"

theorem keys_isolated_witness:
  "filter (\<lambda>o'. fst o' = ''a'')
     (outputs (mapWithKeySerial ''n'' id (\<lambda>_. 0) (on_value count_by)
        (0, new_keyed_refs \<lparr>key_name = ''k'', key_initial = 0, key_ttl = 0\<rparr> 0, ())) (closing [''a'', ''b'', ''a''])) =
   [(''a'', 1), (''a'', 2)]"
proof -
  have "never_halts count_by" by (simp add: never_halts_def count_by_def)
  from keys_isolated [OF this, of fst id "\<lparr>key_name = ''k'', key_initial = 0, key_ttl = 0\<rparr>" 0 "''a''" "''n''" "\<lambda>_. 0"
      "[''a'', ''b'', ''a'']"]
  show ?thesis
    by (simp add: count_by_def outputs_def mapWithSerial_def map_with_step_def on_value_def newRef_def)
qed

text \<open>
  The type of the map of a stage with a given key: the map keeps the key's name, initial value and time to
  live and the idle time of the stage, and the ref of an entity has its own entry in the store, the key's
  initial value and time to live, and a time of access. The methods of a ref change none of these.
\<close>

definition refs_typed :: "'v state_key \<Rightarrow> duration \<Rightarrow> 'v keyed_refs \<Rightarrow> bool" where
  "refs_typed key keyTTL m \<longleftrightarrow>
     km_name m = key_name key \<and> km_initial m = key_initial key \<and> km_ttl m = key_ttl key \<and> km_key_ttl m = keyTTL \<and>
     (\<forall>k r. km_refs m k = Some r \<longrightarrow>
        rf_key r = key_name key @ '':'' @ k \<and> rf_initial r = key_initial key \<and> rf_ttl r = key_ttl key \<and>
        rf_last_access r \<noteq> None)"

definition same_ref :: "'v ref \<Rightarrow> 'v ref \<Rightarrow> bool" where
  "same_ref r r' \<longleftrightarrow>
     rf_key r' = rf_key r \<and> rf_initial r' = rf_initial r \<and> rf_ttl r' = rf_ttl r \<and> rf_last_access r' = rf_last_access r"

lemma Ref_methods_same:
  "same_ref r (fst (snd (Ref_Get bk ops now r s)))"
  "same_ref r (fst (snd (Ref_Set bk ops now v r s)))"
  "same_ref r (fst (snd (Ref_GetOrSet bk ops g r s)))"
  "same_ref r (fst (snd (Ref_UpdateAndGet bk ops now f r s)))"
  "same_ref r (fst (snd (Ref_Update bk ops now f r s)))"
  by (auto simp: same_ref_def Ref_Get_def Ref_Set_def Ref_GetOrSet_def Ref_UpdateAndGet_def Ref_Update_def
      split: backing.split option.split sum.split prod.split)

lemma getRef_typed:
  assumes "refs_typed key keyTTL m"
  shows "refs_typed key keyTTL (snd (getRef now k m)) \<and>
     rf_key (fst (getRef now k m)) = key_name key @ '':'' @ k \<and> rf_initial (fst (getRef now k m)) = key_initial key \<and>
     rf_ttl (fst (getRef now k m)) = key_ttl key \<and> rf_last_access (fst (getRef now k m)) = Some now"
proof -
  have new: "rf_key (fst (getRef now k m)) = key_name key @ '':'' @ k \<and> rf_initial (fst (getRef now k m)) = key_initial key \<and>
     rf_ttl (fst (getRef now k m)) = key_ttl key \<and> rf_last_access (fst (getRef now k m)) = Some now"
    using assms by (auto simp: getRef_def Let_def newRef_def refs_typed_def split: option.split)
  have "rf_key r = key_name key @ '':'' @ j \<and> rf_initial r = key_initial key \<and> rf_ttl r = key_ttl key \<and>
      rf_last_access r \<noteq> None" if "km_refs (snd (getRef now k m)) j = Some r" for j r
    using that new getRef_other [of j k now m] assms by (cases "j = k") (auto simp: refs_typed_def)
  moreover have "km_name (snd (getRef now k m)) = key_name key" "km_initial (snd (getRef now k m)) = key_initial key"
      "km_ttl (snd (getRef now k m)) = key_ttl key" "km_key_ttl (snd (getRef now k m)) = keyTTL"
    using assms getRef_sel(1-4) [of now k m] by (auto simp: refs_typed_def)
  ultimately have "refs_typed key keyTTL (snd (getRef now k m))" unfolding refs_typed_def by blast
  with new show ?thesis by blast
qed

lemma keyed_process_typed:
  assumes "refs_typed key keyTTL m" and "\<And>w x. same_ref (fst w) (fst (fst (process w x)))"
    and "keyed_process keyFn clock process (n, m, s) x = ((n', m', s'), res)"
  shows "refs_typed key keyTTL m'"
proof -
  obtain r m1 where g: "getRef (clock n) (keyFn x) m = (r, m1)" by fastforce
  obtain r' s1 res' where p: "process (r, s) x = ((r', s1), res')" by (metis prod.collapse)
  have "m' = put_ref (keyFn x) r' m1" using assms(3) by (simp add: keyed_process_def g p)
  moreover have "same_ref r r'" using assms(2) [of "(r, s)" x] by (simp add: p)
  moreover note getRef_typed [OF assms(1), of "clock n" "keyFn x", unfolded g]
  ultimately show ?thesis by (auto simp: refs_typed_def same_ref_def)
qed

text \<open>
  C27: Through any number of items the map of a keyed stage stays of the type its key declares: the ref of
  every entity has the name of the key and the entity as its store entry, the initial value and the time
  to live given to \<^verbatim>\<open>NewKey\<close>, and two entities never share an entry of the store. The function may do
  with its ref what the methods of \<^verbatim>\<open>Ref\<close> allow.
\<close>

theorem keyed_refs_typed:
  assumes "\<And>w x. same_ref (fst w) (fst (fst (process w x)))"
    and "foldl (\<lambda>w x. fst (keyed_process keyFn clock process w x)) (0, new_keyed_refs key keyTTL, s) xs = (n, m, s')"
  shows "refs_typed key keyTTL m \<and>
         (\<forall>j k r q. km_refs m j = Some r \<and> km_refs m k = Some q \<and> rf_key r = rf_key q \<longrightarrow> j = k)"
proof -
  have "refs_typed key keyTTL (fst (snd (foldl (\<lambda>w x. fst (keyed_process keyFn clock process w x))
      (0, new_keyed_refs key keyTTL, s) xs)))"
  proof (induction xs rule: rev_induct)
    case Nil
    then show ?case by (simp add: refs_typed_def new_keyed_refs_def)
  next
    case (snoc x xs)
    let ?w = "foldl (\<lambda>w x. fst (keyed_process keyFn clock process w x)) (0, new_keyed_refs key keyTTL, s) xs"
    obtain c m1 s1 where w: "?w = (c, m1, s1)" by (metis prod_cases3)
    obtain c' m2 s2 res where "keyed_process keyFn clock process (c, m1, s1) x = ((c', m2, s2), res)"
      by (metis prod.collapse)
    with keyed_process_typed [OF _ assms(1) this] snoc w show ?case by simp
  qed
  with assms(2) have "refs_typed key keyTTL m" by simp
  then show ?thesis by (auto simp: refs_typed_def)
qed

theorem keyed_refs_typed_witness:
  "\<exists>n m s. foldl (\<lambda>w x. fst (keyed_process id (\<lambda>_. 5) (on_value count_by) w x))
       (0, new_keyed_refs \<lparr>key_name = ''k'', key_initial = 0, key_ttl = 0\<rparr> 0, ()) [''a'', ''b'', ''a''] = (n, m, s) \<and>
     refs_typed \<lparr>key_name = ''k'', key_initial = 0, key_ttl = 0\<rparr> 0 m"
proof -
  obtain n m s where run: "foldl (\<lambda>w x. fst (keyed_process id (\<lambda>_. 5) (on_value count_by) w x))
       (0, new_keyed_refs \<lparr>key_name = ''k'', key_initial = 0, key_ttl = 0\<rparr> 0, ()) [''a'', ''b'', ''a''] = (n, m, s)"
    by (metis prod_cases3)
  have "same_ref (fst w) (fst (fst (on_value count_by w x)))" for w x
    by (cases w) (simp add: on_value_def count_by_def same_ref_def)
  from keyed_refs_typed [OF this run] run show ?thesis by blast
qed

end
