(* ===== verification/Worker_Pools.thy ===== *)
theory Worker_Pools
  imports State_Ops
begin

text \<open>
  The concurrent stateful stages of \<^verbatim>\<open>state_with.go\<close> and \<^verbatim>\<open>state_withkey.go\<close>: persistent workers,
  each with a state of its own. \<^verbatim>\<open>wq_step\<close> is the dispatcher that routes items by key to the workers'
  channels (\<^verbatim>\<open>mapWithKeyConcurrent\<close>, \<^verbatim>\<open>flatMapWithKeyConcurrent\<close>); \<^verbatim>\<open>ws_step\<close> has workers that read the
  shared input (\<^verbatim>\<open>mapWithConcurrent\<close>, \<^verbatim>\<open>flatMapWithConcurrent\<close>). \<^verbatim>\<open>work w x\<close> is what a worker in state
  \<^verbatim>\<open>w\<close> answers to an item while the stage is live, and its new state; once the inner context is
  cancelled it may answer anything.
\<close>

section \<open>Workers\<close>

datatype 'o worker_phase = WIdle | WSending "'o list" "go_error option" | WDone

text \<open>What a worker sends when it works off some items, and the state it ends in.\<close>

fun run_worker :: "('w \<Rightarrow> 'i \<Rightarrow> 'w \<times> 'r) \<Rightarrow> ('r, 'o) answer \<Rightarrow> 'w \<Rightarrow> 'i list \<Rightarrow> 'w \<times> 'o list" where
  "run_worker work answer w [] = (w, [])"
| "run_worker work answer w (x # xs) =
     (let (w', r) = work w x; (w'', os) = run_worker work answer w' xs
      in (w'', (if fst (snd (answer r)) = None then fst (answer r) else []) @ os))"

lemma run_worker_snoc:
  "run_worker work answer w (xs @ [x]) =
     (let (w', os) = run_worker work answer w xs; (w'', r) = work w' x
      in (w'', os @ (if fst (snd (answer r)) = None then fst (answer r) else [])))"
  by (induction xs arbitrary: w) (auto simp: Let_def split: prod.splits)

text \<open>No answer on the way is an error.\<close>

fun runs_ok :: "('w \<Rightarrow> 'i \<Rightarrow> 'w \<times> 'r) \<Rightarrow> ('r, 'o) answer \<Rightarrow> 'w \<Rightarrow> 'i list \<Rightarrow> bool" where
  "runs_ok work answer w [] = True"
| "runs_ok work answer w (x # xs) =
     (case work w x of (w', r) \<Rightarrow> fst (snd (answer r)) = None \<and> runs_ok work answer w' xs)"

lemma runs_ok_snoc:
  "runs_ok work answer w (xs @ [x]) =
     (runs_ok work answer w xs \<and>
      fst (snd (answer (snd (work (fst (run_worker work answer w xs)) x)))) = None)"
  by (induction xs arbitrary: w) (auto simp: Let_def split: prod.splits)

text \<open>A worker in a phase owes the rest of its outputs.\<close>

fun owed :: "'o worker_phase \<Rightarrow> 'o list" where
  "owed (WSending vs _) = vs"
| "owed _ = []"

section \<open>Workers with their own channels\<close>

datatype 'i wq_phase = WqReceiving | WqRouting 'i | WqStopped

record ('i, 'w, 'o) wq =
  wq_input :: "'i list"
  wq_phase :: "'i wq_phase"
  wq_queues :: "nat \<Rightarrow> 'i list"
  wq_states :: "nat \<Rightarrow> 'w"
  wq_workers :: "nat \<Rightarrow> 'o worker_phase"
  wq_routed :: "'i list"
  wq_handled :: "nat \<Rightarrow> 'i list"
  wq_out :: "(nat \<times> 'o) list"
  wq_err :: "go_error option"
  wq_cancelled :: bool
  wq_outer :: bool
  wq_coop :: bool
  wq_returned :: "go_error option option"

text \<open>\<^verbatim>\<open>wq_routed\<close> and \<^verbatim>\<open>wq_handled\<close> only record what happened.\<close>

definition wq_init :: "(nat \<Rightarrow> 'w) \<Rightarrow> 'i list \<Rightarrow> ('i, 'w, 'o) wq" where
  "wq_init w0 xs =
     \<lparr>wq_input = xs, wq_phase = WqReceiving, wq_queues = (\<lambda>_. []), wq_states = w0, wq_workers = (\<lambda>_. WIdle),
      wq_routed = [], wq_handled = (\<lambda>_. []), wq_out = [], wq_err = None, wq_cancelled = False, wq_outer = False,
      wq_coop = False, wq_returned = None\<rparr>"

text \<open>A worker's answer to an item.\<close>

definition wq_answer :: "('r, 'o) answer \<Rightarrow> nat \<Rightarrow> 'r \<Rightarrow> ('i, 'w, 'o) wq \<Rightarrow> ('i, 'w, 'o) wq" where
  "wq_answer answer i r s =
     (case answer r of
        (vs, None, cutoff) \<Rightarrow> s\<lparr>wq_workers := (wq_workers s)(i := WSending vs cutoff)\<rparr>
      | (vs, Some err, cutoff) \<Rightarrow>
          s\<lparr>wq_workers := (wq_workers s)(i := WDone), wq_err := reportErr (wq_err s) (Some err), wq_cancelled := True\<rparr>)"

definition wq_handle :: "nat \<Rightarrow> 'i \<Rightarrow> 'i list \<Rightarrow> 'w \<Rightarrow> ('i, 'w, 'o) wq \<Rightarrow> ('i, 'w, 'o) wq" where
  "wq_handle i x q w' s =
     s\<lparr>wq_queues := (wq_queues s)(i := q), wq_states := (wq_states s)(i := w'),
       wq_handled := (wq_handled s)(i := wq_handled s i @ [x])\<rparr>"

text \<open>\<^verbatim>\<open>room\<close> is the capacity of a worker's channel, the buffer plus one.\<close>

inductive wq_step ::
  "nat \<Rightarrow> nat \<Rightarrow> ('i \<Rightarrow> nat) \<Rightarrow> ('w \<Rightarrow> 'i \<Rightarrow> 'w \<times> 'r) \<Rightarrow> ('r, 'o) answer \<Rightarrow>
   ('i, 'w, 'o) wq \<Rightarrow> ('i, 'w, 'o) wq \<Rightarrow> bool"
  for n :: nat and room :: nat and route :: "'i \<Rightarrow> nat" and work :: "'w \<Rightarrow> 'i \<Rightarrow> 'w \<times> 'r"
    and answer :: "('r, 'o) answer" where
  wq_recv: "wq_phase s = WqReceiving \<Longrightarrow> wq_input s = x # xs \<Longrightarrow>
     wq_step n room route work answer s (s\<lparr>wq_input := xs, wq_phase := WqRouting x\<rparr>)"
| wq_closed: "wq_phase s = WqReceiving \<Longrightarrow> wq_input s = [] \<Longrightarrow>
     wq_step n room route work answer s (s\<lparr>wq_phase := WqStopped\<rparr>)"
| wq_cancel_seen: "wq_phase s \<noteq> WqStopped \<Longrightarrow> wq_cancelled s \<Longrightarrow>
     wq_step n room route work answer s (s\<lparr>wq_phase := WqStopped\<rparr>)"
| wq_drain: "wq_phase s = WqReceiving \<Longrightarrow>
     wq_step n room route work answer s (s\<lparr>wq_phase := WqStopped, wq_coop := True, wq_cancelled := True\<rparr>)"
| wq_route: "wq_phase s = WqRouting x \<Longrightarrow> length (wq_queues s (route x)) < room \<Longrightarrow>
     wq_step n room route work answer s
       (s\<lparr>wq_phase := WqReceiving, wq_routed := wq_routed s @ [x],
          wq_queues := (wq_queues s)(route x := wq_queues s (route x) @ [x])\<rparr>)"
| wq_work: "i < n \<Longrightarrow> wq_workers s i = WIdle \<Longrightarrow> wq_queues s i = x # q \<Longrightarrow>
     (w', r) = work (wq_states s i) x \<or> wq_cancelled s \<Longrightarrow>
     wq_step n room route work answer s (wq_answer answer i r (wq_handle i x q w' s))"
| wq_send: "i < n \<Longrightarrow> wq_workers s i = WSending (v # vs) cutoff \<Longrightarrow>
     wq_step n room route work answer s
       (s\<lparr>wq_workers := (wq_workers s)(i := WSending vs cutoff), wq_out := wq_out s @ [(i, v)]\<rparr>)"
| wq_send_cancelled: "i < n \<Longrightarrow> wq_workers s i = WSending (v # vs) cutoff \<Longrightarrow> wq_cancelled s \<Longrightarrow>
     wq_step n room route work answer s
       (s\<lparr>wq_workers := (wq_workers s)(i := WDone), wq_err := reportErr (wq_err s) cutoff\<rparr>)"
| wq_sent: "i < n \<Longrightarrow> wq_workers s i = WSending [] cutoff \<Longrightarrow>
     wq_step n room route work answer s (s\<lparr>wq_workers := (wq_workers s)(i := WIdle)\<rparr>)"
| wq_exit: "i < n \<Longrightarrow> wq_workers s i = WIdle \<Longrightarrow> wq_queues s i = [] \<Longrightarrow> wq_phase s = WqStopped \<Longrightarrow>
     wq_step n room route work answer s (s\<lparr>wq_workers := (wq_workers s)(i := WDone)\<rparr>)"
| wq_outer_cancel: "wq_step n room route work answer s (s\<lparr>wq_outer := True, wq_cancelled := True\<rparr>)"
| wq_return: "wq_phase s = WqStopped \<Longrightarrow> (\<forall>i<n. wq_workers s i = WDone) \<Longrightarrow> wq_returned s = None \<Longrightarrow>
     wq_step n room route work answer s (s\<lparr>wq_returned := Some (wq_err s)\<rparr>)"

inductive wq_reach ::
  "nat \<Rightarrow> nat \<Rightarrow> ('i \<Rightarrow> nat) \<Rightarrow> ('w \<Rightarrow> 'i \<Rightarrow> 'w \<times> 'r) \<Rightarrow> ('r, 'o) answer \<Rightarrow> (nat \<Rightarrow> 'w) \<Rightarrow> 'i list \<Rightarrow>
   ('i, 'w, 'o) wq \<Rightarrow> bool"
  for n :: nat and room :: nat and route :: "'i \<Rightarrow> nat" and work :: "'w \<Rightarrow> 'i \<Rightarrow> 'w \<times> 'r"
    and answer :: "('r, 'o) answer" and w0 :: "nat \<Rightarrow> 'w" and xs :: "'i list" where
  wq_start: "wq_reach n room route work answer w0 xs (wq_init w0 xs)"
| wq_next: "wq_reach n room route work answer w0 xs s \<Longrightarrow> wq_step n room route work answer s s' \<Longrightarrow>
     wq_reach n room route work answer w0 xs s'"

definition wq_held :: "('i, 'w, 'o) wq \<Rightarrow> 'i list" where
  "wq_held s = (case wq_phase s of WqRouting x \<Rightarrow> [x] | _ \<Rightarrow> [])"

text \<open>While the stage is live: no item is lost, and every worker is where a serial run of its items is.\<close>

definition wq_live ::
  "nat \<Rightarrow> ('i \<Rightarrow> nat) \<Rightarrow> ('w \<Rightarrow> 'i \<Rightarrow> 'w \<times> 'r) \<Rightarrow> ('r, 'o) answer \<Rightarrow> (nat \<Rightarrow> 'w) \<Rightarrow> 'i list \<Rightarrow> ('i, 'w, 'o) wq \<Rightarrow> bool" where
  "wq_live n route work answer w0 xs s \<longleftrightarrow>
     wq_routed s @ wq_held s @ wq_input s = xs \<and> wq_err s = None \<and> (wq_phase s = WqStopped \<longrightarrow> wq_input s = [])
     \<and> (\<forall>i. wq_handled s i @ wq_queues s i = filter (\<lambda>x. route x = i) (wq_routed s))
     \<and> (\<forall>i. run_worker work answer (w0 i) (wq_handled s i) =
              (wq_states s i, on_output i (wq_out s) @ owed (wq_workers s i)))
     \<and> (\<forall>i. runs_ok work answer (w0 i) (wq_handled s i))
     \<and> (\<forall>i<n. wq_workers s i = WDone \<longrightarrow> wq_queues s i = [] \<and> wq_phase s = WqStopped)
     \<and> (\<forall>i\<ge>n. wq_workers s i = WIdle)"

definition wq_ended :: "nat \<Rightarrow> ('i, 'w, 'o) wq \<Rightarrow> bool" where
  "wq_ended n s \<longleftrightarrow>
     (wq_cancelled s \<and> \<not> wq_outer s \<and> \<not> wq_coop s \<longrightarrow> wq_err s \<noteq> None)
     \<and> (\<forall>r. wq_returned s = Some r \<longrightarrow>
          wq_phase s = WqStopped \<and> (\<forall>i<n. wq_workers s i = WDone) \<and> r = wq_err s)"

lemma wq_step_live:
  "wq_step n room route work answer s s' \<Longrightarrow> wq_live n route work answer w0 xs s \<Longrightarrow> \<not> wq_cancelled s' \<Longrightarrow>
   \<not> wq_cancelled s \<Longrightarrow> wq_live n route work answer w0 xs s'"
proof (induction rule: wq_step.induct)
  case (wq_work i s x q w' r)
  then have w: "work (wq_states s i) x = (w', r)" by auto
  obtain vs e cutoff where a: "answer r = (vs, e, cutoff)" by (cases "answer r")
  have "e = None" using wq_work a by (cases e) (auto simp: wq_answer_def)
  have "run_worker work answer (w0 i) (wq_handled s i) = (wq_states s i, on_output i (wq_out s))"
    using wq_work by (auto simp: wq_live_def)
  then have "run_worker work answer (w0 i) (wq_handled s i @ [x]) = (w', on_output i (wq_out s) @ vs)"
    and "runs_ok work answer (w0 i) (wq_handled s i @ [x])"
    using wq_work(5) by (simp_all add: run_worker_snoc runs_ok_snoc w a \<open>e = None\<close> wq_live_def)
  moreover have "wq_handled s i @ x # q = filter (\<lambda>x. route x = i) (wq_routed s)"
    using wq_work by (metis wq_live_def)
  ultimately show ?case using wq_work a \<open>e = None\<close>
    by (simp add: wq_live_def wq_answer_def wq_handle_def wq_held_def)
next
  case (wq_route s x)
  then show ?case by (auto simp: wq_live_def wq_held_def)
qed (auto simp: wq_live_def wq_held_def)

lemma wq_step_uncancels: "wq_step n room route work answer s s' \<Longrightarrow> \<not> wq_cancelled s' \<Longrightarrow> \<not> wq_cancelled s"
  by (induction rule: wq_step.induct) (auto simp: wq_answer_def wq_handle_def split: prod.splits option.splits)

lemma wq_not_returned: "wq_ended n s \<Longrightarrow> i < n \<Longrightarrow> wq_workers s i \<noteq> WDone \<Longrightarrow> wq_returned s = None"
  by (cases "wq_returned s") (auto simp: wq_ended_def)

lemma wq_step_ended: "wq_step n room route work answer s s' \<Longrightarrow> wq_ended n s \<Longrightarrow> wq_ended n s'"
proof (induction rule: wq_step.induct)
  case (wq_work i s x q w' r)
  then show ?case
    using wq_not_returned [of n s i]
    by (auto simp: wq_ended_def wq_answer_def wq_handle_def reportErr_def split: prod.splits option.splits)
next
  case (wq_send i s v vs cutoff)
  then show ?case using wq_not_returned [of n s i] by (auto simp: wq_ended_def)
next
  case (wq_send_cancelled i s v vs cutoff)
  then show ?case
    using wq_not_returned [of n s i] by (auto simp: wq_ended_def reportErr_def split: option.splits)
next
  case (wq_sent i s cutoff)
  then show ?case using wq_not_returned [of n s i] by (auto simp: wq_ended_def)
qed (auto simp: wq_ended_def)

lemma wq_reach_inv:
  assumes "wq_reach n room route work answer w0 xs s"
  shows "(\<not> wq_cancelled s \<longrightarrow> wq_live n route work answer w0 xs s) \<and> wq_ended n s"
  using assms
proof (induction rule: wq_reach.induct)
  case wq_start
  then show ?case by (simp add: wq_live_def wq_ended_def wq_init_def wq_held_def)
next
  case (wq_next s s')
  then show ?case
    using wq_step_live [OF wq_next(2)] wq_step_uncancels [OF wq_next(2)] wq_step_ended [OF wq_next(2)] by blast
qed

text \<open>A normal return: every worker has sent what a serial run over its share of the items sends.\<close>

lemma wq_complete:
  assumes "wq_reach n room route work answer w0 xs s" and "wq_returned s = Some None"
    and "\<not> wq_outer s" and "\<not> wq_coop s" and "\<And>x. route x < n"
  shows "on_output i (wq_out s) = snd (run_worker work answer (w0 i) (filter (\<lambda>x. route x = i) xs))"
    and "runs_ok work answer (w0 i) (filter (\<lambda>x. route x = i) xs)"
proof -
  from wq_reach_inv [OF assms(1)] assms(2-4) have live: "wq_live n route work answer w0 xs s"
    and stopped: "wq_phase s = WqStopped" "\<forall>i<n. wq_workers s i = WDone" by (auto simp: wq_ended_def)
  then have routed: "wq_routed s = xs" by (auto simp: wq_live_def wq_held_def)
  have owes: "owed (wq_workers s i) = []"
    using live stopped(2) by (cases "i < n") (auto simp: wq_live_def)
  have handled: "wq_handled s i = filter (\<lambda>x. route x = i) xs"
  proof (cases "i < n")
    case True
    with live stopped(2) have "wq_queues s i = []" by (auto simp: wq_live_def)
    with live routed show ?thesis by (metis append_Nil2 wq_live_def)
  next
    case False
    with assms(5) have "filter (\<lambda>x. route x = i) xs = []" by (metis (mono_tags) filter_False)
    with live routed show ?thesis by (metis append_is_Nil_conv wq_live_def)
  qed
  with live owes show "on_output i (wq_out s) = snd (run_worker work answer (w0 i) (filter (\<lambda>x. route x = i) xs))"
    by (auto simp: wq_live_def dest!: spec [of _ i])
  from live have "runs_ok work answer (w0 i) (wq_handled s i)" unfolding wq_live_def by blast
  with handled show "runs_ok work answer (w0 i) (filter (\<lambda>x. route x = i) xs)" by simp
qed

section \<open>Workers on the shared input\<close>

record ('i, 'w, 'o) ws =
  ws_input :: "'i list"
  ws_states :: "nat \<Rightarrow> 'w"
  ws_workers :: "nat \<Rightarrow> 'o worker_phase"
  ws_handled :: "nat \<Rightarrow> 'i list"
  ws_out :: "(nat \<times> 'o) list"
  ws_err :: "go_error option"
  ws_cancelled :: bool
  ws_outer :: bool
  ws_coop :: bool
  ws_returned :: "go_error option option"

definition ws_init :: "(nat \<Rightarrow> 'w) \<Rightarrow> 'i list \<Rightarrow> ('i, 'w, 'o) ws" where
  "ws_init w0 xs =
     \<lparr>ws_input = xs, ws_states = w0, ws_workers = (\<lambda>_. WIdle), ws_handled = (\<lambda>_. []), ws_out = [], ws_err = None,
      ws_cancelled = False, ws_outer = False, ws_coop = False, ws_returned = None\<rparr>"

definition ws_answer :: "('r, 'o) answer \<Rightarrow> nat \<Rightarrow> 'r \<Rightarrow> ('i, 'w, 'o) ws \<Rightarrow> ('i, 'w, 'o) ws" where
  "ws_answer answer i r s =
     (case answer r of
        (vs, None, cutoff) \<Rightarrow> s\<lparr>ws_workers := (ws_workers s)(i := WSending vs cutoff)\<rparr>
      | (vs, Some err, cutoff) \<Rightarrow>
          s\<lparr>ws_workers := (ws_workers s)(i := WDone), ws_err := reportErr (ws_err s) (Some err), ws_cancelled := True\<rparr>)"

definition ws_handle :: "nat \<Rightarrow> 'i \<Rightarrow> 'i list \<Rightarrow> 'w \<Rightarrow> ('i, 'w, 'o) ws \<Rightarrow> ('i, 'w, 'o) ws" where
  "ws_handle i x xs w' s =
     s\<lparr>ws_input := xs, ws_states := (ws_states s)(i := w'), ws_handled := (ws_handled s)(i := ws_handled s i @ [x])\<rparr>"

inductive ws_step ::
  "nat \<Rightarrow> ('w \<Rightarrow> 'i \<Rightarrow> 'w \<times> 'r) \<Rightarrow> ('r, 'o) answer \<Rightarrow> ('i, 'w, 'o) ws \<Rightarrow> ('i, 'w, 'o) ws \<Rightarrow> bool"
  for n :: nat and work :: "'w \<Rightarrow> 'i \<Rightarrow> 'w \<times> 'r" and answer :: "('r, 'o) answer" where
  ws_work: "i < n \<Longrightarrow> ws_workers s i = WIdle \<Longrightarrow> ws_input s = x # xs \<Longrightarrow>
     (w', r) = work (ws_states s i) x \<or> ws_cancelled s \<Longrightarrow>
     ws_step n work answer s (ws_answer answer i r (ws_handle i x xs w' s))"
| ws_closed: "i < n \<Longrightarrow> ws_workers s i = WIdle \<Longrightarrow> ws_input s = [] \<Longrightarrow>
     ws_step n work answer s (s\<lparr>ws_workers := (ws_workers s)(i := WDone)\<rparr>)"
| ws_cancel_seen: "i < n \<Longrightarrow> ws_workers s i = WIdle \<Longrightarrow> ws_cancelled s \<Longrightarrow>
     ws_step n work answer s (s\<lparr>ws_workers := (ws_workers s)(i := WDone)\<rparr>)"
| ws_send: "i < n \<Longrightarrow> ws_workers s i = WSending (v # vs) cutoff \<Longrightarrow>
     ws_step n work answer s
       (s\<lparr>ws_workers := (ws_workers s)(i := WSending vs cutoff), ws_out := ws_out s @ [(i, v)]\<rparr>)"
| ws_send_cancelled: "i < n \<Longrightarrow> ws_workers s i = WSending (v # vs) cutoff \<Longrightarrow> ws_cancelled s \<Longrightarrow>
     ws_step n work answer s
       (s\<lparr>ws_workers := (ws_workers s)(i := WDone), ws_err := reportErr (ws_err s) cutoff\<rparr>)"
| ws_sent: "i < n \<Longrightarrow> ws_workers s i = WSending [] cutoff \<Longrightarrow>
     ws_step n work answer s (s\<lparr>ws_workers := (ws_workers s)(i := WIdle)\<rparr>)"
| ws_drain: "ws_returned s = None \<Longrightarrow>
     ws_step n work answer s (s\<lparr>ws_coop := True, ws_cancelled := True\<rparr>)"
| ws_outer_cancel: "ws_step n work answer s (s\<lparr>ws_outer := True, ws_cancelled := True\<rparr>)"
| ws_return: "(\<forall>i<n. ws_workers s i = WDone) \<Longrightarrow> ws_returned s = None \<Longrightarrow>
     ws_step n work answer s (s\<lparr>ws_returned := Some (ws_err s)\<rparr>)"

inductive ws_reach ::
  "nat \<Rightarrow> ('w \<Rightarrow> 'i \<Rightarrow> 'w \<times> 'r) \<Rightarrow> ('r, 'o) answer \<Rightarrow> (nat \<Rightarrow> 'w) \<Rightarrow> 'i list \<Rightarrow> ('i, 'w, 'o) ws \<Rightarrow> bool"
  for n :: nat and work :: "'w \<Rightarrow> 'i \<Rightarrow> 'w \<times> 'r" and answer :: "('r, 'o) answer"
    and w0 :: "nat \<Rightarrow> 'w" and xs :: "'i list" where
  ws_start: "ws_reach n work answer w0 xs (ws_init w0 xs)"
| ws_next: "ws_reach n work answer w0 xs s \<Longrightarrow> ws_step n work answer s s' \<Longrightarrow> ws_reach n work answer w0 xs s'"

definition ws_live ::
  "nat \<Rightarrow> ('w \<Rightarrow> 'i \<Rightarrow> 'w \<times> 'r) \<Rightarrow> ('r, 'o) answer \<Rightarrow> (nat \<Rightarrow> 'w) \<Rightarrow> 'i list \<Rightarrow> ('i, 'w, 'o) ws \<Rightarrow> bool" where
  "ws_live n work answer w0 xs s \<longleftrightarrow>
     mset xs = (\<Sum>i<n. mset (ws_handled s i)) + mset (ws_input s) \<and> ws_err s = None
     \<and> (\<forall>i. run_worker work answer (w0 i) (ws_handled s i) =
              (ws_states s i, on_output i (ws_out s) @ owed (ws_workers s i)))
     \<and> (\<forall>i. runs_ok work answer (w0 i) (ws_handled s i))
     \<and> (\<forall>i<n. ws_workers s i = WDone \<longrightarrow> ws_input s = [])"

definition ws_ended :: "nat \<Rightarrow> ('i, 'w, 'o) ws \<Rightarrow> bool" where
  "ws_ended n s \<longleftrightarrow>
     (ws_cancelled s \<and> \<not> ws_outer s \<and> \<not> ws_coop s \<longrightarrow> ws_err s \<noteq> None)
     \<and> (\<forall>r. ws_returned s = Some r \<longrightarrow> (\<forall>i<n. ws_workers s i = WDone) \<and> r = ws_err s)"

lemma sum_handled:
  fixes i n :: nat
  assumes "i < n"
  shows "(\<Sum>j<n. mset ((f(i := f i @ [x])) j)) = add_mset x (\<Sum>j<n. mset (f j))"
proof -
  have "(\<Sum>j<n. mset ((f(i := f i @ [x])) j)) = (\<Sum>j<n. mset (f j) + (if j = i then {#x#} else {#}))"
    by (rule sum.cong) auto
  then show ?thesis using assms by (simp add: sum.distrib)
qed

lemma ws_step_live:
  "ws_step n work answer s s' \<Longrightarrow> ws_live n work answer w0 xs s \<Longrightarrow> \<not> ws_cancelled s' \<Longrightarrow>
   \<not> ws_cancelled s \<Longrightarrow> ws_live n work answer w0 xs s'"
proof (induction rule: ws_step.induct)
  case (ws_work i s x ys w' r)
  then have w: "work (ws_states s i) x = (w', r)" by auto
  obtain vs e cutoff where a: "answer r = (vs, e, cutoff)" by (cases "answer r")
  have "e = None" using ws_work a by (cases e) (auto simp: ws_answer_def)
  have "run_worker work answer (w0 i) (ws_handled s i) = (ws_states s i, on_output i (ws_out s))"
    using ws_work by (auto simp: ws_live_def)
  then have "run_worker work answer (w0 i) (ws_handled s i @ [x]) = (w', on_output i (ws_out s) @ vs)"
    and "runs_ok work answer (w0 i) (ws_handled s i @ [x])"
    using ws_work(5) by (simp_all add: run_worker_snoc runs_ok_snoc w a \<open>e = None\<close> ws_live_def)
  moreover have "\<forall>j<n. ws_workers s j \<noteq> WDone" using ws_work by (auto simp: ws_live_def)
  ultimately show ?case using ws_work a \<open>e = None\<close>
    by (simp add: ws_live_def ws_answer_def ws_handle_def sum_handled del: fun_upd_apply)
      (simp add: fun_upd_def)
qed (auto simp: ws_live_def)

lemma ws_step_uncancels: "ws_step n work answer s s' \<Longrightarrow> \<not> ws_cancelled s' \<Longrightarrow> \<not> ws_cancelled s"
  by (induction rule: ws_step.induct) (auto simp: ws_answer_def ws_handle_def split: prod.splits option.splits)

lemma ws_not_returned: "ws_ended n s \<Longrightarrow> i < n \<Longrightarrow> ws_workers s i \<noteq> WDone \<Longrightarrow> ws_returned s = None"
  by (cases "ws_returned s") (auto simp: ws_ended_def)

lemma ws_step_ended: "ws_step n work answer s s' \<Longrightarrow> ws_ended n s \<Longrightarrow> ws_ended n s'"
proof (induction rule: ws_step.induct)
  case (ws_work i s x xs w' r)
  then show ?case
    using ws_not_returned [of n s i]
    by (auto simp: ws_ended_def ws_answer_def ws_handle_def reportErr_def split: prod.splits option.splits)
next
  case (ws_send i s v vs cutoff)
  then show ?case using ws_not_returned [of n s i] by (auto simp: ws_ended_def)
next
  case (ws_send_cancelled i s v vs cutoff)
  then show ?case
    using ws_not_returned [of n s i] by (auto simp: ws_ended_def reportErr_def split: option.splits)
next
  case (ws_sent i s cutoff)
  then show ?case using ws_not_returned [of n s i] by (auto simp: ws_ended_def)
qed (auto simp: ws_ended_def)

lemma ws_reach_inv:
  assumes "ws_reach n work answer w0 xs s"
  shows "(\<not> ws_cancelled s \<longrightarrow> ws_live n work answer w0 xs s) \<and> ws_ended n s"
  using assms
proof (induction rule: ws_reach.induct)
  case ws_start
  then show ?case by (simp add: ws_live_def ws_ended_def ws_init_def)
next
  case (ws_next s s')
  then show ?case
    using ws_step_live [OF ws_next(2)] ws_step_uncancels [OF ws_next(2)] ws_step_ended [OF ws_next(2)] by blast
qed

lemma ws_complete:
  assumes "ws_reach n work answer w0 xs s" and "ws_returned s = Some None"
    and "\<not> ws_outer s" and "\<not> ws_coop s" and "0 < n"
  shows "mset xs = (\<Sum>i<n. mset (ws_handled s i)) \<and>
         (\<forall>i<n. on_output i (ws_out s) = snd (run_worker work answer (w0 i) (ws_handled s i)) \<and>
                runs_ok work answer (w0 i) (ws_handled s i))"
proof -
  from ws_reach_inv [OF assms(1)] assms(2-4) have live: "ws_live n work answer w0 xs s"
    and stopped: "\<forall>i<n. ws_workers s i = WDone" by (auto simp: ws_ended_def)
  then have "ws_input s = []" using assms(5) by (auto simp: ws_live_def)
  with live stopped show ?thesis by (auto simp: ws_live_def)
qed

section \<open>The stages\<close>

text \<open>
  A worker's world is what its function acts on: its ref together with the part of the store under
  the ref's keys, which no other worker uses.
\<close>

definition mapWithConcurrent ::
  "string \<Rightarrow> ('w \<Rightarrow> 'i \<Rightarrow> 'w \<times> 'o result \<times> nat) \<Rightarrow> 'w list \<Rightarrow> 'i list \<Rightarrow> ('i, 'w, 'o) ws \<Rightarrow> bool" where
  "mapWithConcurrent name process workerRefs xs s =
     ws_reach (length workerRefs) process (map_answer name) (nth workerRefs) xs s"

definition flatMapWithConcurrent ::
  "string \<Rightarrow> ('w \<Rightarrow> 'i \<Rightarrow> 'w \<times> 'o list \<times> go_error option \<times> nat) \<Rightarrow> 'w list \<Rightarrow> 'i list \<Rightarrow> ('i, 'w, 'o) ws \<Rightarrow> bool" where
  "flatMapWithConcurrent name process workerRefs xs s =
     ws_reach (length workerRefs) process (flat_answer name) (nth workerRefs) xs s"

text \<open>A keyed worker: its number, its count of lookups, its map and its part of the store.\<close>

definition keyed_work ::
  "('i \<Rightarrow> string) \<Rightarrow> (nat \<Rightarrow> nat \<Rightarrow> time) \<Rightarrow> ('v ref \<times> 's \<Rightarrow> 'i \<Rightarrow> ('v ref \<times> 's) \<times> 'r) \<Rightarrow>
   nat \<times> nat \<times> 'v keyed_refs \<times> 's \<Rightarrow> 'i \<Rightarrow> (nat \<times> nat \<times> 'v keyed_refs \<times> 's) \<times> 'r" where
  "keyed_work keyFn clock process w x =
     (case w of (i, w) \<Rightarrow> (case keyed_process keyFn (clock i) process w x of (w', r) \<Rightarrow> ((i, w'), r)))"

definition item_shard :: "nat \<Rightarrow> ('i \<Rightarrow> string) \<Rightarrow> 'i \<Rightarrow> nat" where
  "item_shard n keyFn item = key_shard n (map of_char (keyFn item))"

definition mapWithKeyConcurrent where
  "mapWithKeyConcurrent buffer name keyFn clock process workerMaps xs s =
     wq_reach (length workerMaps) (buffer + 1) (item_shard (length workerMaps) keyFn)
       (keyed_work keyFn clock process) (map_answer name) (\<lambda>i. (i, 0, workerMaps ! i)) xs s"

definition flatMapWithKeyConcurrent where
  "flatMapWithKeyConcurrent buffer name keyFn clock process workerMaps xs s =
     wq_reach (length workerMaps) (buffer + 1) (item_shard (length workerMaps) keyFn)
       (keyed_work keyFn clock process) (flat_answer name) (\<lambda>i. (i, 0, workerMaps ! i)) xs s"

text \<open>A worker that meets no error runs the serial stage.\<close>

lemma runs_ok_map:
  "runs_ok work (map_answer name) w xs \<Longrightarrow>
   try_run (map_with_emit name work) w xs =
     (snd (run_worker work (map_answer name) w xs), Inr (fst (run_worker work (map_answer name) w xs)))"
proof (induction xs arbitrary: w)
  case (Cons x xs)
  obtain v res k where f: "work w x = (v, res, k)" by (metis prod_cases3)
  with Cons.prems have "res = Inl e \<Longrightarrow> e = ErrSkipped" for e
    by (auto simp: map_answer_def WrapStageErr_Some split: if_splits)
  with Cons.IH [of v] Cons.prems f show ?case
    by (cases res) (auto simp: map_with_emit_def map_answer_def split: prod.splits)
qed simp

lemma runs_ok_flat:
  "runs_ok work (flat_answer name) w xs \<Longrightarrow> (\<And>w x w' out e k. work w x = (w', out, Some e, k) \<Longrightarrow> out = []) \<Longrightarrow>
   try_run (flat_map_with_emit name work) w xs =
     (snd (run_worker work (flat_answer name) w xs), Inr (fst (run_worker work (flat_answer name) w xs)))"
proof (induction xs arbitrary: w)
  case (Cons x xs)
  obtain v out e k where f: "work w x = (v, out, e, k)" by (metis prod_cases4)
  with Cons.prems have "e = Some e' \<Longrightarrow> e' = ErrSkipped \<and> out = []" for e'
    by (auto simp: flat_answer_def WrapStageErr_Some split: if_splits)
  with Cons.IH [of v] Cons.prems f show ?case
    by (cases e) (auto simp: flat_map_with_emit_def flat_answer_def split: prod.splits)
qed simp

lemma runs_ok_keyed:
  "run_worker (keyed_work keyFn clock process) answer (i, w) xs =
     (case run_worker (keyed_process keyFn (clock i) process) answer w xs of (w', os) \<Rightarrow> ((i, w'), os))"
  "runs_ok (keyed_work keyFn clock process) answer (i, w) xs = runs_ok (keyed_process keyFn (clock i) process) answer w xs"
  by (induction xs arbitrary: w) (auto simp: keyed_work_def Let_def split: prod.splits)

text \<open>The same condition as the loop of a worker sees it.\<close>

lemma keyed_answer_ok:
  "fst (snd (map_answer name (res, a))) = None \<longleftrightarrow> no_stop res"
  by (cases res) (auto simp: map_answer_def no_stop_def WrapStageErr_Some)

lemma keyed_runs_ok:
  assumes "plain_map m"
  shows "runs_ok (keyed_process keyFn clock (on_value f)) (map_answer name) (n, m, ()) xs =
     keys_ok f keyFn (key_value 0 m) xs"
  using assms
proof (induction xs arbitrary: n m)
  case (Cons x xs)
  obtain v res a where f: "f (key_value 0 m (keyFn x)) x = (v, res, a)" by (metis prod_cases3)
  from keyed_step [where f = f and keyFn = keyFn and x = x, OF Cons.prems f] obtain m' where m':
    "keyed_process keyFn clock (on_value f) (n, m, ()) x = ((Suc n, m', ()), res, a)"
    "plain_map m'" "\<forall>j. key_value 0 m' j = (if j = keyFn x then v else key_value 0 m j)"
    by blast
  have vals: "key_value 0 m' = (key_value 0 m)(keyFn x := v)" using m'(3) by auto
  show ?case using Cons.IH [OF m'(2), of "Suc n", unfolded vals] m'(1) f by (simp add: keyed_answer_ok fun_upd_def)
qed simp

section \<open>Properties\<close>

text \<open>
  Workers on a shared input: on a normal return the items are partitioned over the workers, and
  each worker's outputs are those of a serial \<^verbatim>\<open>MapWith\<close> with the worker's ref on its share.
\<close>

theorem workers_run_serially:
  assumes "mapWithConcurrent name process workerRefs xs s" and "ws_returned s = Some None"
    and "\<not> ws_outer s" and "\<not> ws_coop s" and "workerRefs \<noteq> []"
  shows "mset xs = (\<Sum>i<length workerRefs. mset (ws_handled s i)) \<and>
         (\<forall>i<length workerRefs. on_output i (ws_out s) =
            outputs (mapWithSerial name process (workerRefs ! i)) (closing (ws_handled s i)))"
  using ws_complete [OF assms(1) [unfolded mapWithConcurrent_def] assms(2-4)] assms(5)
  by (simp add: outputs_def map_with.exec_closing runs_ok_map)

text \<open>A run over one item by one worker.\<close>

lemma ws_single_run:
  assumes "work (w0 0) a = (w', r)" and "answer r = ([v], None, cutoff)"
  shows "\<exists>s. ws_reach 1 work answer w0 [a] s \<and> ws_returned s = Some None \<and> \<not> ws_outer s \<and> \<not> ws_coop s \<and>
             ws_handled s 0 = [a] \<and> on_output 0 (ws_out s) = [v]"
proof -
  let ?s0 = "ws_init w0 [a]"
  let ?s1 = "ws_answer answer 0 r (ws_handle 0 a [] w' ?s0)"
  let ?s2 = "?s1\<lparr>ws_workers := (ws_workers ?s1)(0 := WSending [] cutoff), ws_out := [(0, v)]\<rparr>"
  let ?s3 = "?s2\<lparr>ws_workers := (ws_workers ?s2)(0 := WIdle)\<rparr>"
  let ?s4 = "?s3\<lparr>ws_workers := (ws_workers ?s3)(0 := WDone)\<rparr>"
  let ?s5 = "?s4\<lparr>ws_returned := Some None\<rparr>"
  note [simp] = ws_init_def ws_answer_def ws_handle_def assms
  have "ws_step 1 work answer ?s0 ?s1" by (rule ws_work [of 0 1 ?s0 a "[]" w' r]) simp_all
  moreover have "ws_step 1 work answer ?s1 ?s2" using ws_send [of 0 1 ?s1 v "[]" cutoff work answer] by simp
  moreover have "ws_step 1 work answer ?s2 ?s3" using ws_sent [of 0 1 ?s2 cutoff work answer] by simp
  moreover have "ws_step 1 work answer ?s3 ?s4" using ws_closed [of 0 1 ?s3 work answer] by simp
  moreover have "ws_step 1 work answer ?s4 ?s5" using ws_return [of 1 ?s4 work answer] by simp
  ultimately have "ws_reach 1 work answer w0 [a] ?s5" by (meson ws_reach.intros)
  then show ?thesis by (intro exI [of _ ?s5]) simp
qed

theorem workers_run_serially_witness:
  "\<exists>s :: (nat, nat, nat) ws. mapWithConcurrent ''n'' (\<lambda>w x. (w + x, Inr (w + x), 0)) [1] [41] s \<and>
     mset [41] = mset (ws_handled s 0)"
proof -
  obtain s :: "(nat, nat, nat) ws" where
    s: "mapWithConcurrent ''n'' (\<lambda>w x. (w + x, Inr (w + x), 0)) [1] [41] s" "ws_returned s = Some None"
      "\<not> ws_outer s" "\<not> ws_coop s"
    using ws_single_run [of "\<lambda>w x. (w + x, Inr (w + x), 0)" "nth [1]" "41::nat" 42 "(Inr 42, 0)" "map_answer ''n''"]
    by (auto simp: mapWithConcurrent_def map_answer_def)
  with workers_run_serially [OF s] show ?thesis by auto
qed

lemma map_snd_on_output:
  "(\<And>j v. (j, v) \<in> set os \<Longrightarrow> P v \<Longrightarrow> j = i) \<Longrightarrow> filter P (map snd os) = filter P (on_output i os)"
proof (induction os)
  case (Cons p os)
  obtain j v where p: "p = (j, v)" by (cases p)
  have "filter P (map snd os) = filter P (on_output i os)" using Cons by (meson list.set_intros(2))
  moreover have "P v \<Longrightarrow> j = i" using Cons.prems p by (meson list.set_intros(1))
  ultimately show ?case by (auto simp: p)
qed simp

lemma on_output_mem: "(j, v) \<in> set os \<Longrightarrow> v \<in> set (on_output j os)"
  by (force simp: on_output_def)

text \<open>
  C5: Keyed workers: with any number of workers and under every interleaving of the dispatcher and the
  workers, a run of the concurrent \<^verbatim>\<open>MapWithKey\<close> that returned nil without having been cancelled or drained
  has sent, for every key, exactly what the serial \<^verbatim>\<open>MapWithKey\<close> sends for it, in the same order, and the serial
  stage would have returned nil too. The function may fail on any item: then neither stage returns nil.
  It acts on the value of its ref in memory; no time to live is set (\<^verbatim>\<open>StateTTL\<close>, \<^verbatim>\<open>WithKeyTTL\<close>), since
  expiry depends on when each item is looked up; \<^verbatim>\<open>tag\<close> reads off an output the key of its item, which is how
  the outputs of a key are found.
\<close>

theorem keyed_workers_match_serial:
  assumes "mapWithKeyConcurrent buffer name keyFn clock (on_value f) (replicate n (new_keyed_refs key keyTTL, ())) xs s"
    and "0 < n" and "n < 2 ^ 32"
    and "wq_returned s = Some None" and "\<not> wq_outer s" and "\<not> wq_coop s"
    and "\<And>v x o'. fst (snd (f v x)) = Inr o' \<Longrightarrow> tag o' = keyFn x"
    and "key_ttl key \<le> 0" and "keyTTL \<le> 0"
  shows "filter (\<lambda>o'. tag o' = k) (map snd (wq_out s)) =
         filter (\<lambda>o'. tag o' = k)
           (outputs (mapWithKeySerial name keyFn clk (on_value f) (0, new_keyed_refs key keyTTL, ())) (closing xs)) \<and>
         returns (mapWithKeySerial name keyFn clk (on_value f) (0, new_keyed_refs key keyTTL, ())) (closing xs) = Return None"
proof -
  let ?m = "new_keyed_refs key keyTTL"
  let ?g = "\<lambda>c. map_with_emit name (keyed_process keyFn c (on_value f))"
  let ?sh = "\<lambda>k. key_shard n (map of_char k)"
  let ?share = "\<lambda>i. filter (\<lambda>x. ?sh (keyFn x) = i) xs"
  let ?out = "\<lambda>i. fst (try_run (?g (clock i)) (0, ?m, ()) (?share i))"
  have plain: "plain_map ?m" using assms(8,9) by (simp add: plain_map_def new_keyed_refs_def)
  have bound: "?sh k' < n" for k' using key_shard_bound [OF assms(2,3)] .
  have complete: "on_output i (wq_out s) = snd (run_worker (keyed_work keyFn clock (on_value f)) (map_answer name)
        (i, 0, replicate n (?m, ()) ! i) (?share i))"
    "runs_ok (keyed_work keyFn clock (on_value f)) (map_answer name) (i, 0, replicate n (?m, ()) ! i) (?share i)" for i
    using wq_complete [OF assms(1) [unfolded mapWithKeyConcurrent_def] assms(4-6), of i] bound
    by (simp_all add: item_shard_def)
  have share_ok: "keys_ok f keyFn (key_value 0 ?m) (?share i)" if "i < n" for i
    using complete(2) [of i] that by (simp add: runs_ok_keyed keyed_runs_ok [OF plain])
  have all_ok: "keys_ok f keyFn (key_value 0 ?m) xs"
    unfolding keys_ok_each
  proof
    fix k
    have "value_ok f (key_value 0 ?m k) (filter (\<lambda>x. keyFn x = k) (?share (?sh k)))"
      using share_ok [OF bound] unfolding keys_ok_each by blast
    then show "value_ok f (key_value 0 ?m k) (filter (\<lambda>x. keyFn x = k) xs)"
      by (simp add: conj_commute cong: conj_cong)
  qed
  have run: "filter (\<lambda>o'. tag o' = j) (fst (try_run (?g c) (0, ?m, ()) ys)) =
      value_run f (key_value 0 ?m j) (filter (\<lambda>x. keyFn x = j) ys)"
    if "keys_ok f keyFn (key_value 0 ?m) ys" for c ys j
    using keyed_outputs [OF plain that, of tag name c 0 j] assms(7) by blast
  have owns: "\<exists>x \<in> set ys. keyFn x = tag o'"
    if "o' \<in> set (fst (try_run (?g c) (0, ?m, ()) ys))" "keys_ok f keyFn (key_value 0 ?m) ys" for c ys o'
  proof (rule ccontr)
    assume "\<not> ?thesis"
    then have "filter (\<lambda>x. keyFn x = tag o') ys = []" by (simp add: filter_empty_conv)
    with run [OF that(2), of "tag o'" c] have "filter (\<lambda>p. tag p = tag o') (fst (try_run (?g c) (0, ?m, ()) ys)) = []" by simp
    with that(1) show False by (auto simp: filter_empty_conv)
  qed
  have none: "?share i = []" if "\<not> i < n" for i using bound that by (auto simp: filter_empty_conv)
  have each: "on_output i (wq_out s) = ?out i" for i
  proof (cases "i < n")
    case True
    with complete [of i] show ?thesis by (auto simp: runs_ok_keyed runs_ok_map split: prod.split)
  next
    case False
    with complete(1) [of i] none show ?thesis by simp
  qed
  have "j = ?sh k" if "(j, v) \<in> set (wq_out s)" "tag v = k" for j v
  proof -
    have "v \<in> set (?out j)" using on_output_mem [OF that(1)] by (simp add: each)
    moreover from this have "j < n" using none by (cases "j < n") auto
    ultimately show ?thesis using owns [OF _ share_ok] that(2) by fastforce
  qed
  then have "filter (\<lambda>o'. tag o' = k) (map snd (wq_out s)) = filter (\<lambda>o'. tag o' = k) (?out (?sh k))"
    unfolding each [symmetric] by (rule map_snd_on_output)
  also have "\<dots> = value_run f (key_value 0 ?m k) (filter (\<lambda>x. keyFn x = k) xs)"
    unfolding run [OF share_ok [OF bound]] by (simp add: conj_commute cong: conj_cong)
  finally show ?thesis
    using keyed_outputs [OF plain all_ok, of tag name clk 0 k] assms(7)
    by (auto simp: mapWithKeySerial_def outputs_def returns_def map_with.exec_closing result_error_def)
qed

lemma wq_single_run:
  fixes work :: "'w \<Rightarrow> 'i \<Rightarrow> 'w \<times> 'r" and answer :: "('r, 'o) answer"
  assumes "work (w0 0) a = (w', r)" and "answer r = ([v], None, cutoff)" and "route a = 0" and "0 < room"
  shows "\<exists>s. wq_reach 1 room route work answer w0 [a] s \<and> wq_returned s = Some None \<and> \<not> wq_outer s \<and>
             \<not> wq_coop s \<and> map snd (wq_out s) = [v]"
proof -
  let ?s0 = "wq_init w0 [a] :: ('i, 'w, 'o) wq"
  let ?s1 = "?s0\<lparr>wq_input := [], wq_phase := WqRouting a\<rparr>"
  let ?s2 = "?s1\<lparr>wq_phase := WqReceiving, wq_routed := [a], wq_queues := (\<lambda>_. [])(0 := [a])\<rparr>"
  let ?s3 = "?s2\<lparr>wq_phase := WqStopped\<rparr>"
  let ?s4 = "wq_answer answer 0 r (wq_handle 0 a [] w' ?s3)"
  let ?s5 = "?s4\<lparr>wq_workers := (wq_workers ?s4)(0 := WSending [] cutoff), wq_out := [(0, v)]\<rparr>"
  let ?s6 = "?s5\<lparr>wq_workers := (wq_workers ?s5)(0 := WIdle)\<rparr>"
  let ?s7 = "?s6\<lparr>wq_workers := (wq_workers ?s6)(0 := WDone)\<rparr>"
  let ?s8 = "?s7\<lparr>wq_returned := Some None\<rparr>"
  note [simp] = wq_init_def wq_answer_def wq_handle_def assms
  have "wq_step 1 room route work answer ?s0 ?s1" by (rule wq_recv) simp_all
  moreover have "wq_step 1 room route work answer ?s1 ?s2"
    using wq_route [of ?s1 a route room 1 work answer] by simp
  moreover have "wq_step 1 room route work answer ?s2 ?s3" by (rule wq_closed) simp_all
  moreover have "wq_step 1 room route work answer ?s3 ?s4" by (rule wq_work [of 0 1 ?s3 a "[]" w' r]) simp_all
  moreover have "wq_step 1 room route work answer ?s4 ?s5"
    using wq_send [of 0 1 ?s4 v "[]" cutoff room route work answer] by simp
  moreover have "wq_step 1 room route work answer ?s5 ?s6"
    using wq_sent [of 0 1 ?s5 cutoff room route work answer] by simp
  moreover have "wq_step 1 room route work answer ?s6 ?s7"
    using wq_exit [of 0 1 ?s6 room route work answer] by simp
  moreover have "wq_step 1 room route work answer ?s7 ?s8"
    using wq_return [of ?s7 1 room route work answer] by simp
  ultimately have "wq_reach 1 room route work answer w0 [a] ?s8" by (meson wq_reach.intros)
  then show ?thesis by (intro exI [of _ ?s8]) simp
qed

lemma keyed_count_first:
  "\<exists>w'. keyed_work id (\<lambda>_ _. 0) (on_value count_by)
         (0, 0, new_keyed_refs \<lparr>key_name = ''k'', key_initial = 0, key_ttl = 0\<rparr> 0, ()) ''a'' = (w', Inr (''a'', 1), 0)"
  by (auto simp: keyed_work_def keyed_process_def on_value_def count_by_def getRef_def new_keyed_refs_def newRef_def
      km_sweep_def Let_def split: prod.splits)

theorem keyed_workers_match_serial_witness:
  "\<exists>s :: (string, nat \<times> nat \<times> nat keyed_refs \<times> unit, string \<times> nat) wq.
     mapWithKeyConcurrent 0 ''n'' id (\<lambda>_ _. 0) (on_value count_by)
       [(new_keyed_refs \<lparr>key_name = ''k'', key_initial = 0, key_ttl = 0\<rparr> 0, ())] [''a''] s \<and>
     filter (\<lambda>o'. fst o' = ''a'') (map snd (wq_out s)) = [(''a'', 1)]"
proof -
  let ?key = "\<lparr>key_name = ''k'', key_initial = 0 :: nat, key_ttl = 0\<rparr>"
  let ?m = "new_keyed_refs ?key 0"
  let ?work = "keyed_work id (\<lambda>_ _. 0) (on_value count_by)"
  have route: "item_shard 1 id ''a'' = 0" using key_shard_bound [of 1] by (simp add: item_shard_def)
  obtain w' where "?work (0, 0, ?m, ()) ''a'' = (w', Inr (''a'', 1), 0)" using keyed_count_first by blast
  then obtain s where s: "mapWithKeyConcurrent 0 ''n'' id (\<lambda>_ _. 0) (on_value count_by) (replicate 1 (?m, ())) [''a''] s"
      "wq_returned s = Some None" "\<not> wq_outer s" "\<not> wq_coop s" "map snd (wq_out s) = [(''a'', 1)]"
    using wq_single_run [of ?work "\<lambda>i. (i, 0, replicate 1 (?m, ()) ! i)" "''a''" w' "(Inr (''a'', 1), 0)"
        "map_answer ''n''" "(''a'', 1)" "Some Canceled" "item_shard 1 id" 1] route
    by (auto simp: mapWithKeyConcurrent_def map_answer_def)
  from keyed_workers_match_serial [OF s(1) _ _ s(2-4), of fst "''a''" "\<lambda>_. 0"]
  have "filter (\<lambda>o'. fst o' = ''a'') (map snd (wq_out s)) =
      filter (\<lambda>o'. fst o' = ''a'')
        (outputs (mapWithKeySerial ''n'' id (\<lambda>_. 0) (on_value count_by) (0, ?m, ())) (closing [''a'']))"
    by (simp add: count_by_def)
  with s show ?thesis by (intro exI [of _ s]) simp
qed

end
