(* ===== verification/Ordered_Pools.thy ===== *)
theory Ordered_Pools
  imports Worker_Pools
begin

text \<open>
  The ordered stateful stages of \<^verbatim>\<open>state_with.go\<close> and \<^verbatim>\<open>state_withkey.go\<close>: a dispatcher makes a
  slot for every item, enqueues it, and then hands the item to a persistent worker; a delivering
  goroutine reads the slots in input order. Slots are numbered in the order they are made.
\<close>

section \<open>The steps\<close>

datatype 'i os_phase = OsReceiving | OsSlotting 'i | OsRouting nat 'i | OsStopped | OsClosed

text \<open>
  The delivering goroutine: idle, waiting for the result of a slot, sending, or ended with its
  error. Ended with an error it leaves a goroutine that discards slots, which may wait for one.
\<close>

datatype 'o os_deliverer =
  OsIdle | OsWaiting nat | OsDelivering "'o list" | OsEnded "go_error option" "nat option"

record ('i, 'w, 'r, 'o) os =
  os_input :: "'i list"
  os_phase :: "'i os_phase"
  os_made :: nat
  os_slots :: "nat list"
  os_results :: "nat \<Rightarrow> 'r option"
  os_queues :: "nat \<Rightarrow> (nat \<times> 'i) list"
  os_busy :: "nat \<Rightarrow> (nat \<times> 'i) option"
  os_states :: "nat \<Rightarrow> 'w"
  os_routed :: "'i list"
  os_deliver :: "'o os_deliverer"
  os_out :: "'o list"
  os_cancelled :: bool
  os_outer :: bool
  os_coop :: bool
  os_returned :: "go_error option option"

definition os_init :: "(nat \<Rightarrow> 'w) \<Rightarrow> 'i list \<Rightarrow> ('i, 'w, 'r, 'o) os" where
  "os_init w0 xs =
     \<lparr>os_input = xs, os_phase = OsReceiving, os_made = 0, os_slots = [], os_results = (\<lambda>_. None),
      os_queues = (\<lambda>_. []), os_busy = (\<lambda>_. None), os_states = w0, os_routed = [], os_deliver = OsIdle, os_out = [],
      os_cancelled = False, os_outer = False, os_coop = False, os_returned = None\<rparr>"

definition os_answer :: "('r, 'o) answer \<Rightarrow> 'r \<Rightarrow> ('i, 'w, 'r, 'o) os \<Rightarrow> ('i, 'w, 'r, 'o) os" where
  "os_answer answer r s =
     (case answer r of
        (vs, None, cutoff) \<Rightarrow> s\<lparr>os_deliver := OsDelivering vs\<rparr>
      | (vs, Some err, cutoff) \<Rightarrow> s\<lparr>os_deliver := OsEnded (Some err) None, os_cancelled := True\<rparr>)"

text \<open>
  \<^verbatim>\<open>n\<close> workers; \<^verbatim>\<open>room\<close> is the capacity of a worker's channel; \<^verbatim>\<open>route k x\<close> is the worker of the
  \<^verbatim>\<open>k\<close>-th item. Once the inner context is cancelled, a worker may answer anything.
\<close>

inductive os_step ::
  "nat \<Rightarrow> nat \<Rightarrow> (nat \<Rightarrow> 'i \<Rightarrow> nat) \<Rightarrow> ('w \<Rightarrow> 'i \<Rightarrow> 'w \<times> 'r) \<Rightarrow> ('r, 'o) answer \<Rightarrow>
   ('i, 'w, 'r, 'o) os \<Rightarrow> ('i, 'w, 'r, 'o) os \<Rightarrow> bool"
  for n :: nat and room :: nat and route :: "nat \<Rightarrow> 'i \<Rightarrow> nat" and work :: "'w \<Rightarrow> 'i \<Rightarrow> 'w \<times> 'r"
    and answer :: "('r, 'o) answer" where
  os_recv: "os_phase s = OsReceiving \<Longrightarrow> os_input s = x # xs \<Longrightarrow>
     os_step n room route work answer s (s\<lparr>os_input := xs, os_phase := OsSlotting x\<rparr>)"
| os_closed: "os_phase s = OsReceiving \<Longrightarrow> os_input s = [] \<Longrightarrow>
     os_step n room route work answer s (s\<lparr>os_phase := OsStopped\<rparr>)"
| os_cancel_seen: "os_phase s \<notin> {OsStopped, OsClosed} \<Longrightarrow> os_cancelled s \<Longrightarrow>
     os_step n room route work answer s (s\<lparr>os_phase := OsStopped\<rparr>)"
| os_drain: "os_phase s = OsReceiving \<Longrightarrow>
     os_step n room route work answer s (s\<lparr>os_phase := OsStopped, os_coop := True, os_cancelled := True\<rparr>)"
| os_slot: "os_phase s = OsSlotting x \<Longrightarrow> length (os_slots s) < n * 2 \<Longrightarrow>
     os_step n room route work answer s
       (s\<lparr>os_phase := OsRouting (os_made s) x, os_slots := os_slots s @ [os_made s], os_made := Suc (os_made s)\<rparr>)"
| os_route: "os_phase s = OsRouting k x \<Longrightarrow> i = route k x \<Longrightarrow> length (os_queues s i) < room \<Longrightarrow>
     os_step n room route work answer s
       (s\<lparr>os_phase := OsReceiving, os_routed := os_routed s @ [x],
          os_queues := (os_queues s)(i := os_queues s i @ [(k, x)])\<rparr>)"
| os_pick: "i < n \<Longrightarrow> os_busy s i = None \<Longrightarrow> os_queues s i = p # q \<Longrightarrow>
     os_step n room route work answer s
       (s\<lparr>os_busy := (os_busy s)(i := Some p), os_queues := (os_queues s)(i := q)\<rparr>)"
| os_work: "i < n \<Longrightarrow> os_busy s i = Some (k, x) \<Longrightarrow> (w', r) = work (os_states s i) x \<or> os_cancelled s \<Longrightarrow>
     os_step n room route work answer s
       (s\<lparr>os_busy := (os_busy s)(i := None), os_states := (os_states s)(i := w'),
          os_results := (os_results s)(k := Some r)\<rparr>)"
| os_take: "os_deliver s = OsIdle \<Longrightarrow> os_slots s = k # rest \<Longrightarrow>
     os_step n room route work answer s (s\<lparr>os_deliver := OsWaiting k, os_slots := rest\<rparr>)"
| os_result: "os_deliver s = OsWaiting k \<Longrightarrow> os_results s k = Some r \<Longrightarrow>
     os_step n room route work answer s (os_answer answer r s)"
| os_send: "os_deliver s = OsDelivering (v # vs) \<Longrightarrow>
     os_step n room route work answer s (s\<lparr>os_deliver := OsDelivering vs, os_out := os_out s @ [v]\<rparr>)"
| os_send_cancelled: "os_deliver s = OsDelivering (v # vs) \<Longrightarrow> os_cancelled s \<Longrightarrow>
     os_step n room route work answer s (s\<lparr>os_deliver := OsEnded (Some Canceled) None\<rparr>)"
| os_sent: "os_deliver s = OsDelivering [] \<Longrightarrow> os_step n room route work answer s (s\<lparr>os_deliver := OsIdle\<rparr>)"
| os_discard: "os_deliver s = OsEnded (Some e) None \<Longrightarrow> os_slots s = k # rest \<Longrightarrow>
     os_step n room route work answer s (s\<lparr>os_deliver := OsEnded (Some e) (Some k), os_slots := rest\<rparr>)"
| os_discarded: "os_deliver s = OsEnded (Some e) (Some k) \<Longrightarrow> os_results s k = Some r \<Longrightarrow>
     os_step n room route work answer s (s\<lparr>os_deliver := OsEnded (Some e) None\<rparr>)"
| os_close: "os_phase s = OsStopped \<Longrightarrow> (\<forall>i<n. os_busy s i = None \<and> os_queues s i = []) \<Longrightarrow>
     os_step n room route work answer s (s\<lparr>os_phase := OsClosed\<rparr>)"
| os_end: "os_phase s = OsClosed \<Longrightarrow> os_deliver s = OsIdle \<Longrightarrow> os_slots s = [] \<Longrightarrow>
     os_step n room route work answer s (s\<lparr>os_deliver := OsEnded None None\<rparr>)"
| os_outer_cancel: "os_step n room route work answer s (s\<lparr>os_outer := True, os_cancelled := True\<rparr>)"
| os_return: "os_phase s = OsClosed \<Longrightarrow> os_deliver s = OsEnded e d \<Longrightarrow> os_returned s = None \<Longrightarrow>
     os_step n room route work answer s (s\<lparr>os_returned := Some e\<rparr>)"

inductive os_reach ::
  "nat \<Rightarrow> nat \<Rightarrow> (nat \<Rightarrow> 'i \<Rightarrow> nat) \<Rightarrow> ('w \<Rightarrow> 'i \<Rightarrow> 'w \<times> 'r) \<Rightarrow> ('r, 'o) answer \<Rightarrow> (nat \<Rightarrow> 'w) \<Rightarrow> 'i list \<Rightarrow>
   ('i, 'w, 'r, 'o) os \<Rightarrow> bool"
  for n :: nat and room :: nat and route :: "nat \<Rightarrow> 'i \<Rightarrow> nat" and work :: "'w \<Rightarrow> 'i \<Rightarrow> 'w \<times> 'r"
    and answer :: "('r, 'o) answer" and w0 :: "nat \<Rightarrow> 'w" and xs :: "'i list" where
  os_start: "os_reach n room route work answer w0 xs (os_init w0 xs)"
| os_next: "os_reach n room route work answer w0 xs s \<Longrightarrow> os_step n room route work answer s s' \<Longrightarrow>
     os_reach n room route work answer w0 xs s'"

text \<open>The stages: round-robin workers, or workers by key.\<close>

definition mapWithOrdered where
  "mapWithOrdered buffer name process workerRefs xs s =
     os_reach (length workerRefs) (buffer + 1) (\<lambda>k x. k mod length workerRefs) process (map_answer name)
       (nth workerRefs) xs s"

definition flatMapWithOrdered where
  "flatMapWithOrdered buffer name process workerRefs xs s =
     os_reach (length workerRefs) (buffer + 1) (\<lambda>k x. k mod length workerRefs) process (flat_answer name)
       (nth workerRefs) xs s"

definition mapWithKeyOrdered where
  "mapWithKeyOrdered buffer name keyFn clock process workerMaps xs s =
     os_reach (length workerMaps) (buffer + 1) (\<lambda>k x. item_shard (length workerMaps) keyFn x)
       (keyed_work keyFn clock process) (map_answer name) (\<lambda>i. (i, 0, workerMaps ! i)) xs s"

definition flatMapWithKeyOrdered where
  "flatMapWithKeyOrdered buffer name keyFn clock process workerMaps xs s =
     os_reach (length workerMaps) (buffer + 1) (\<lambda>k x. item_shard (length workerMaps) keyFn x)
       (keyed_work keyFn clock process) (flat_answer name) (\<lambda>i. (i, 0, workerMaps ! i)) xs s"

section \<open>The sequential reference\<close>

text \<open>The items one after the other, each on the state of its worker: the results, in order.\<close>

fun pool_run :: "(nat \<Rightarrow> 'i \<Rightarrow> nat) \<Rightarrow> ('w \<Rightarrow> 'i \<Rightarrow> 'w \<times> 'r) \<Rightarrow> nat \<Rightarrow> (nat \<Rightarrow> 'w) \<Rightarrow> 'i list \<Rightarrow> 'r list" where
  "pool_run route work k st [] = []"
| "pool_run route work k st (x # xs) =
     (let i = route k x; (w', r) = work (st i) x in r # pool_run route work (Suc k) (st(i := w')) xs)"

fun pool_states :: "(nat \<Rightarrow> 'i \<Rightarrow> nat) \<Rightarrow> ('w \<Rightarrow> 'i \<Rightarrow> 'w \<times> 'r) \<Rightarrow> nat \<Rightarrow> (nat \<Rightarrow> 'w) \<Rightarrow> 'i list \<Rightarrow> nat \<Rightarrow> 'w" where
  "pool_states route work k st [] = st"
| "pool_states route work k st (x # xs) =
     pool_states route work (Suc k) (st(route k x := fst (work (st (route k x)) x))) xs"

lemma pool_states_append:
  "pool_states route work k st (xs @ ys) = pool_states route work (k + length xs) (pool_states route work k st xs) ys"
  by (induction xs arbitrary: k st) auto

lemma pool_run_append:
  "pool_run route work k st (xs @ ys) =
     pool_run route work k st xs @ pool_run route work (k + length xs) (pool_states route work k st xs) ys"
  by (induction xs arbitrary: k st) (auto simp: Let_def split: prod.splits)

lemma length_pool_run [simp]: "length (pool_run route work k st xs) = length xs"
  by (induction xs arbitrary: k st) (auto simp: Let_def split: prod.splits)

lemma pool_run_nth:
  "pool_run route work 0 st (ys @ x # zs) ! length ys =
     snd (work (pool_states route work 0 st ys (route (length ys) x)) x)"
  by (simp add: pool_run_append nth_append Let_def split: prod.split)

definition result_yields :: "('r, 'o) answer \<Rightarrow> 'r list \<Rightarrow> 'o list" where
  "result_yields answer rs = concat (map (\<lambda>r. if fst (snd (answer r)) = None then fst (answer r) else []) rs)"

lemma result_yields_simps [simp]:
  "result_yields answer [] = []"
  "result_yields answer (xs @ ys) = result_yields answer xs @ result_yields answer ys"
  "result_yields answer [r] = (if fst (snd (answer r)) = None then fst (answer r) else [])"
  by (simp_all add: result_yields_def)

lemma result_yields_Cons:
  "result_yields answer (r # rs) =
     (if fst (snd (answer r)) = None then fst (answer r) else []) @ result_yields answer rs"
  by (simp add: result_yields_def)

text \<open>None of the results stops the stage.\<close>

definition no_errors :: "('r, 'o) answer \<Rightarrow> 'r list \<Rightarrow> bool" where
  "no_errors answer rs \<longleftrightarrow> (\<forall>r \<in> set rs. fst (snd (answer r)) = None)"

lemma no_errors_simps [simp]:
  "no_errors answer []"
  "no_errors answer (r # rs) = (fst (snd (answer r)) = None \<and> no_errors answer rs)"
  "no_errors answer (xs @ ys) = (no_errors answer xs \<and> no_errors answer ys)"
  by (auto simp: no_errors_def)

section \<open>Invariants\<close>

definition os_held :: "('i, 'w, 'r, 'o) os \<Rightarrow> 'i list" where
  "os_held s = (case os_phase s of OsSlotting x \<Rightarrow> [x] | OsRouting k x \<Rightarrow> [x] | _ \<Rightarrow> [])"

definition backlog :: "(nat \<times> 'i) option \<Rightarrow> (nat \<times> 'i) list \<Rightarrow> (nat \<times> 'i) list" where
  "backlog busy q = (case busy of None \<Rightarrow> q | Some p \<Rightarrow> p # q)"

lemma backlog_simps [simp]: "backlog None q = q" "backlog (Some p) q = p # q"
  by (simp_all add: backlog_def)

text \<open>A worker that works off its backlog from \<^verbatim>\<open>w\<close> gives the expected results and ends in \<^verbatim>\<open>w'\<close>.\<close>

fun on_track :: "('w \<Rightarrow> 'i \<Rightarrow> 'w \<times> 'r) \<Rightarrow> 'r list \<Rightarrow> 'w \<Rightarrow> (nat \<times> 'i) list \<Rightarrow> 'w \<Rightarrow> bool" where
  "on_track work rs w [] w' = (w = w')"
| "on_track work rs w ((k, x) # q) w' = (snd (work w x) = rs ! k \<and> on_track work rs (fst (work w x)) q w')"

lemma on_track_snoc:
  "on_track work rs w (q @ [(k, x)]) w'' =
     (\<exists>w'. on_track work rs w q w' \<and> snd (work w' x) = rs ! k \<and> fst (work w' x) = w'')"
  by (induction q arbitrary: w) auto

lemma backlog_snoc: "backlog busy (q @ [p]) = backlog busy q @ [p]"
  by (cases busy) auto

text \<open>The items are handed over in order, and the workers are on the way of the sequential run.\<close>

definition os_work_inv ::
  "(nat \<Rightarrow> 'i \<Rightarrow> nat) \<Rightarrow> ('w \<Rightarrow> 'i \<Rightarrow> 'w \<times> 'r) \<Rightarrow> (nat \<Rightarrow> 'w) \<Rightarrow> 'i list \<Rightarrow> ('i, 'w, 'r, 'o) os \<Rightarrow> bool" where
  "os_work_inv route work w0 xs s \<longleftrightarrow>
     os_routed s @ os_held s @ os_input s = xs
     \<and> os_made s = length (os_routed s) + (case os_phase s of OsRouting k x \<Rightarrow> 1 | _ \<Rightarrow> 0)
     \<and> (\<forall>k x. os_phase s = OsRouting k x \<longrightarrow> k = length (os_routed s))
     \<and> (os_phase s \<in> {OsStopped, OsClosed} \<longrightarrow> os_input s = [])
     \<and> (\<forall>i. on_track work (pool_run route work 0 w0 xs) (os_states s i) (backlog (os_busy s i) (os_queues s i))
              (pool_states route work 0 w0 (os_routed s) i))
     \<and> (\<forall>k r. os_results s k = Some r \<longrightarrow> r = pool_run route work 0 w0 xs ! k)"

text \<open>The delivering goroutine has sent the yields of the first slots, none of which was an error.\<close>

fun os_delivered :: "('r, 'o) answer \<Rightarrow> 'r list \<Rightarrow> 'o list \<Rightarrow> nat \<Rightarrow> nat \<Rightarrow> 'o os_deliverer \<Rightarrow> bool" where
  "os_delivered answer rs out made d OsIdle =
     (out = result_yields answer (take d rs) \<and> no_errors answer (take d rs))"
| "os_delivered answer rs out made d (OsWaiting k) =
     (d = Suc k \<and> out = result_yields answer (take k rs) \<and> no_errors answer (take k rs))"
| "os_delivered answer rs out made d (OsDelivering vs) =
     (out @ vs = result_yields answer (take d rs) \<and> no_errors answer (take d rs))"
| "os_delivered answer rs out made d (OsEnded e w) =
     (e = None \<and> w = None \<and> d = made \<and> out = result_yields answer (take d rs) \<and> no_errors answer (take d rs))"

definition os_out_inv :: "('r, 'o) answer \<Rightarrow> 'r list \<Rightarrow> ('i, 'w, 'r, 'o) os \<Rightarrow> bool" where
  "os_out_inv answer rs s \<longleftrightarrow>
     (\<exists>d \<le> os_made s. os_slots s = [d..<os_made s] \<and> os_delivered answer rs (os_out s) (os_made s) d (os_deliver s))
     \<and> (\<forall>e d. os_deliver s = OsEnded e d \<longrightarrow> os_phase s = OsClosed)"

definition os_ended :: "('i, 'w, 'r, 'o) os \<Rightarrow> bool" where
  "os_ended s \<longleftrightarrow>
     (os_cancelled s \<and> \<not> os_outer s \<and> \<not> os_coop s \<longrightarrow> (\<exists>e d. os_deliver s = OsEnded (Some e) d))
     \<and> (\<forall>r. os_returned s = Some r \<longrightarrow> os_phase s = OsClosed \<and> (\<exists>d. os_deliver s = OsEnded r d))"

lemma os_step_uncancels: "os_step n room route work answer s s' \<Longrightarrow> \<not> os_cancelled s' \<Longrightarrow> \<not> os_cancelled s"
  by (induction rule: os_step.induct) (auto simp: os_answer_def split: prod.splits option.splits)

lemma os_step_work:
  "os_step n room route work answer s s' \<Longrightarrow> os_work_inv route work w0 xs s \<Longrightarrow> \<not> os_cancelled s' \<Longrightarrow>
   \<not> os_cancelled s \<Longrightarrow> os_work_inv route work w0 xs s'"
proof (induction rule: os_step.induct)
  case (os_route s k x i)
  then have k: "k = length (os_routed s)" and xs: "xs = os_routed s @ x # os_input s"
    by (auto simp: os_work_inv_def os_held_def)
  let ?st = "pool_states route work 0 w0 (os_routed s)"
  have st: "pool_states route work 0 w0 (os_routed s @ [x]) = ?st(i := fst (work (?st i) x))"
    using os_route k by (simp add: pool_states_append)
  have res: "snd (work (?st i) x) = pool_run route work 0 w0 xs ! k"
    using os_route k by (simp add: xs pool_run_nth)
  from os_route st res show ?case
    by (auto simp: os_work_inv_def os_held_def on_track_snoc backlog_snoc)
next
  case (os_pick i s p q)
  then have "on_track work (pool_run route work 0 w0 xs) (os_states s i) (p # q)
      (pool_states route work 0 w0 (os_routed s) i)"
    by (metis os_work_inv_def backlog_simps(1))
  with os_pick show ?case by (simp add: os_work_inv_def os_held_def)
next
  case (os_work i s k x w' r)
  then have w: "work (os_states s i) x = (w', r)" by auto
  have "on_track work (pool_run route work 0 w0 xs) (os_states s i) (backlog (os_busy s i) (os_queues s i))
      (pool_states route work 0 w0 (os_routed s) i)"
    using os_work(4) unfolding os_work_inv_def by blast
  then have "on_track work (pool_run route work 0 w0 xs) (os_states s i) ((k, x) # os_queues s i)
      (pool_states route work 0 w0 (os_routed s) i)"
    by (simp only: os_work(2) backlog_simps)
  with w have "r = pool_run route work 0 w0 xs ! k" "on_track work (pool_run route work 0 w0 xs) w' (os_queues s i)
      (pool_states route work 0 w0 (os_routed s) i)"
    by simp_all
  with os_work show ?case by (simp add: os_work_inv_def os_held_def)
next
  case (os_result s k r)
  then show ?case by (auto simp: os_work_inv_def os_held_def os_answer_def split: prod.splits option.splits)
qed (auto simp: os_work_inv_def os_held_def)

lemma os_step_out:
  "os_step n room route work answer s s' \<Longrightarrow> os_work_inv route work w0 xs s \<Longrightarrow>
   os_out_inv answer (pool_run route work 0 w0 xs) s \<Longrightarrow> \<not> os_cancelled s' \<Longrightarrow> \<not> os_cancelled s \<Longrightarrow>
   os_out_inv answer (pool_run route work 0 w0 xs) s'"
proof (induction rule: os_step.induct)
  case (os_result s k r)
  let ?rs = "pool_run route work 0 w0 xs"
  obtain vs e cutoff where a: "answer r = (vs, e, cutoff)" by (cases "answer r")
  with os_result have e: "e = None" by (cases e) (auto simp: os_answer_def)
  have "os_made s \<le> length ?rs" using os_result by (auto simp: os_work_inv_def os_held_def split: os_phase.splits)
  moreover from os_result have d: "Suc k \<le> os_made s" "os_slots s = [Suc k..<os_made s]"
      "os_out s = result_yields answer (take k ?rs)" "no_errors answer (take k ?rs)" "r = ?rs ! k"
    by (auto simp: os_out_inv_def os_work_inv_def)
  ultimately have "os_out s @ vs = result_yields answer (take (Suc k) ?rs)" "no_errors answer (take (Suc k) ?rs)"
    using a e by (simp_all add: take_Suc_conv_app_nth)
  with d os_result a e show ?case by (auto simp: os_out_inv_def os_answer_def)
next
  case (os_take s k rest)
  then obtain d where d: "d \<le> os_made s" "k # rest = [d..<os_made s]"
      "os_out s = result_yields answer (take d (pool_run route work 0 w0 xs))"
      "no_errors answer (take d (pool_run route work 0 w0 xs))"
    by (auto simp: os_out_inv_def)
  then have m: "d < os_made s" by (metis list.distinct(1) linorder_not_le upt_conv_Nil)
  with d(2) have "k = d" "rest = [Suc d..<os_made s]" by (simp_all add: upt_conv_Cons)
  with d m os_take show ?case by (auto simp: os_out_inv_def intro!: exI [of _ "Suc d"])
next
  case (os_slot s x)
  then show ?case by (cases "os_deliver s") (auto simp: os_out_inv_def)
next
  case (os_closed s)
  then show ?case by (cases "os_deliver s") (auto simp: os_out_inv_def)
next
  case (os_end s)
  then obtain d where d: "d \<le> os_made s" "[] = [d..<os_made s]"
      "os_out s = result_yields answer (take d (pool_run route work 0 w0 xs))"
      "no_errors answer (take d (pool_run route work 0 w0 xs))"
    by (auto simp: os_out_inv_def)
  from d(2) have "length [d..<os_made s] = 0" by (simp only: list.size)
  with d(1) have "d = os_made s" by simp
  with d os_end show ?case by (auto simp: os_out_inv_def)
qed (auto simp: os_out_inv_def)

lemma os_step_ended: "os_step n room route work answer s s' \<Longrightarrow> os_ended s \<Longrightarrow> os_ended s'"
  by (induction rule: os_step.induct) (auto simp: os_ended_def os_answer_def split: prod.splits option.splits)

lemma os_reach_inv:
  assumes "os_reach n room route work answer w0 xs s"
  shows "(\<not> os_cancelled s \<longrightarrow> os_work_inv route work w0 xs s \<and> os_out_inv answer (pool_run route work 0 w0 xs) s)
         \<and> os_ended s"
  using assms
proof (induction rule: os_reach.induct)
  case os_start
  then show ?case by (simp add: os_work_inv_def os_out_inv_def os_ended_def os_init_def os_held_def)
next
  case (os_next s s')
  then show ?case
    using os_step_work [OF os_next(2)] os_step_out [OF os_next(2)] os_step_uncancels [OF os_next(2)]
      os_step_ended [OF os_next(2)] by blast
qed

lemma os_order:
  assumes "os_reach n room route work answer w0 xs s"
  shows "\<not> os_cancelled s \<Longrightarrow> prefix (os_out s) (result_yields answer (pool_run route work 0 w0 xs))"
    and "os_returned s = Some None \<Longrightarrow> \<not> os_outer s \<Longrightarrow> \<not> os_coop s \<Longrightarrow>
         os_out s = result_yields answer (pool_run route work 0 w0 xs) \<and> no_errors answer (pool_run route work 0 w0 xs)"
proof -
  let ?rs = "pool_run route work 0 w0 xs"
  have take: "prefix (result_yields answer (take d ?rs)) (result_yields answer ?rs)" for d
    by (metis append_take_drop_id prefixI result_yields_simps(2))
  {
    assume "\<not> os_cancelled s"
    then obtain d where "os_delivered answer ?rs (os_out s) (os_made s) d (os_deliver s)"
      using os_reach_inv [OF assms] by (auto simp: os_out_inv_def)
    then have "\<exists>k. prefix (os_out s) (result_yields answer (take k ?rs))"
      by (cases "os_deliver s") (auto simp del: take_add, metis prefixI)
    then show "prefix (os_out s) (result_yields answer ?rs)" using take by (meson prefix_order.trans)
  next
    assume "os_returned s = Some None" "\<not> os_outer s" "\<not> os_coop s"
    then have "os_work_inv route work w0 xs s" "os_out_inv answer ?rs s" "os_phase s = OsClosed"
      and "\<exists>d. os_deliver s = OsEnded None d"
      using os_reach_inv [OF assms] by (auto simp: os_ended_def)
    then show "os_out s = result_yields answer ?rs \<and> no_errors answer ?rs"
      by (auto simp: os_work_inv_def os_out_inv_def os_held_def)
  }
qed

section \<open>A cancellation between slot and worker\<close>

text \<open>The delivering goroutine waits for a slot that no worker has been given.\<close>

definition os_stuck :: "nat \<Rightarrow> ('i, 'w, 'r, 'o) os \<Rightarrow> bool" where
  "os_stuck k s \<longleftrightarrow>
     os_deliver s = OsWaiting k \<and> os_results s k = None \<and> os_phase s \<in> {OsStopped, OsClosed} \<and> os_returned s = None
     \<and> (\<forall>i. k \<notin> fst ` set (backlog (os_busy s i) (os_queues s i)))"

lemma os_stuck_step: "os_step n room route work answer s s' \<Longrightarrow> os_stuck k s \<Longrightarrow> os_stuck k s'"
proof (induction rule: os_step.induct)
  case (os_pick i s p q)
  then have "k \<notin> fst ` set (backlog (os_busy s i) (os_queues s i))" unfolding os_stuck_def by blast
  with os_pick show ?case by (simp add: os_stuck_def)
next
  case (os_work i s k' x w' r)
  then have "k \<notin> fst ` set (backlog (os_busy s i) (os_queues s i))" unfolding os_stuck_def by blast
  with os_work show ?case by (simp add: os_stuck_def)
qed (auto simp: os_stuck_def)

lemma os_stuck_forever:
  "(os_step n room route work answer)\<^sup>*\<^sup>* s s' \<Longrightarrow> os_stuck k s \<Longrightarrow> os_returned s' = None"
proof -
  assume "(os_step n room route work answer)\<^sup>*\<^sup>* s s'" "os_stuck k s"
  then have "os_stuck k s'" by (induction rule: rtranclp_induct) (auto intro: os_stuck_step)
  then show ?thesis by (simp add: os_stuck_def)
qed

text \<open>
  A slot is numbered before its item is routed: an item in a worker's hands has a smaller number than the
  one the dispatcher holds, whatever has been cancelled.
\<close>

definition os_numbered :: "('i, 'w, 'r, 'o) os \<Rightarrow> bool" where
  "os_numbered s \<longleftrightarrow>
     (\<forall>i. \<forall>k \<in> fst ` set (backlog (os_busy s i) (os_queues s i)). k < length (os_routed s))
     \<and> (\<forall>k r. os_results s k = Some r \<longrightarrow> k < length (os_routed s))
     \<and> (os_phase s \<noteq> OsStopped \<and> os_phase s \<noteq> OsClosed \<longrightarrow>
          os_made s = length (os_routed s) + (case os_phase s of OsRouting k x \<Rightarrow> 1 | _ \<Rightarrow> 0))
     \<and> (\<forall>k x. os_phase s = OsRouting k x \<longrightarrow> k = length (os_routed s))
     \<and> (os_returned s \<noteq> None \<longrightarrow> os_phase s = OsClosed)"

lemma os_step_numbered: "os_step n room route work answer s s' \<Longrightarrow> os_numbered s \<Longrightarrow> os_numbered s'"
proof (induction rule: os_step.induct)
  case (os_route s k x i)
  then show ?case by (fastforce simp: os_numbered_def backlog_snoc)
next
  case (os_pick i s p q)
  then have "\<forall>k \<in> fst ` set (backlog (os_busy s i) (os_queues s i)). k < length (os_routed s)"
    unfolding os_numbered_def by blast
  with os_pick show ?case by (simp add: os_numbered_def)
next
  case (os_work i s k x w' r)
  then have "\<forall>k \<in> fst ` set (backlog (os_busy s i) (os_queues s i)). k < length (os_routed s)"
    unfolding os_numbered_def by blast
  with os_work show ?case by (simp add: os_numbered_def)
next
  case (os_result s k r)
  then show ?case by (auto simp: os_numbered_def os_answer_def split: prod.splits option.splits)
qed (auto simp: os_numbered_def)

lemma os_reach_numbered: "os_reach n room route work answer w0 xs s \<Longrightarrow> os_numbered s"
proof (induction rule: os_reach.induct)
  case os_start
  show ?case by (simp add: os_numbered_def os_init_def)
qed (blast intro: os_step_numbered)

lemma os_cancel_sticks:
  assumes "os_reach n room route work answer w0 xs s" and "os_phase s = OsRouting k x" and "os_deliver s = OsWaiting k"
  shows "os_stuck k (s\<lparr>os_phase := OsStopped\<rparr>)"
  using os_reach_numbered [OF assms(1)] assms(2,3) by (fastforce simp: os_numbered_def os_stuck_def)

lemma os_waits_for_routing:
  fixes w0 :: "nat \<Rightarrow> 'w" and answer :: "('r, 'o) answer"
  assumes "0 < n"
  shows "\<exists>s :: ('i, 'w, 'r, 'o) os. os_reach n room route work answer w0 (x # xs) s \<and> os_outer s \<and> os_cancelled s \<and>
             os_phase s = OsRouting 0 x \<and> os_deliver s = OsWaiting 0"
proof -
  let ?s0 = "os_init w0 (x # xs) :: ('i, 'w, 'r, 'o) os"
  let ?s1 = "?s0\<lparr>os_input := xs, os_phase := OsSlotting x\<rparr>"
  let ?s2 = "?s1\<lparr>os_phase := OsRouting 0 x, os_slots := [0], os_made := Suc 0\<rparr>"
  let ?s3 = "?s2\<lparr>os_deliver := OsWaiting 0, os_slots := []\<rparr>"
  let ?s4 = "?s3\<lparr>os_outer := True, os_cancelled := True\<rparr>"
  note [simp] = os_init_def
  have "os_step n room route work answer ?s0 ?s1" by (rule os_recv) simp_all
  moreover have "os_step n room route work answer ?s1 ?s2"
    using os_slot [of ?s1 x n room route work answer] assms by simp
  moreover have "os_step n room route work answer ?s2 ?s3" by (rule os_take) simp_all
  moreover have "os_step n room route work answer ?s3 ?s4" by (rule os_outer_cancel)
  ultimately have "os_reach n room route work answer w0 (x # xs) ?s4" by (meson os_reach.intros)
  then show ?thesis by (intro exI [of _ ?s4]) simp
qed

section \<open>Keyed workers in order\<close>

text \<open>What a keyed stage sends, over the value of every key.\<close>

fun key_outputs ::
  "('v \<Rightarrow> 'i \<Rightarrow> 'v \<times> 'o result \<times> nat) \<Rightarrow> ('i \<Rightarrow> string) \<Rightarrow> (string \<Rightarrow> 'v) \<Rightarrow> 'i list \<Rightarrow> 'o list" where
  "key_outputs f keyFn V [] = []"
| "key_outputs f keyFn V (x # xs) =
     (case f (V (keyFn x)) x of (v, res, _) \<Rightarrow>
        (case res of Inr o' \<Rightarrow> [o'] | Inl _ \<Rightarrow> []) @ key_outputs f keyFn (V(keyFn x := v)) xs)"

lemma key_outputs_serial:
  "plain_map m \<Longrightarrow> keys_ok f keyFn (key_value 0 m) xs \<Longrightarrow>
    \<exists>w. try_run (map_with_emit name (keyed_process keyFn clock (on_value f))) (n, m, ()) xs =
        (key_outputs f keyFn (key_value 0 m) xs, Inr w)"
proof (induction xs arbitrary: n m)
  case (Cons x xs)
  obtain v res a where f: "f (key_value 0 m (keyFn x)) x = (v, res, a)" by (metis prod_cases3)
  from keyed_step [where f = f and keyFn = keyFn and x = x, OF Cons.prems(1) f] obtain m' where m':
    "keyed_process keyFn clock (on_value f) (n, m, ()) x = ((Suc n, m', ()), res, a)"
    "plain_map m'" "\<forall>j. key_value 0 m' j = (if j = keyFn x then v else key_value 0 m j)"
    by blast
  have vals: "key_value 0 m' = (key_value 0 m)(keyFn x := v)" using m'(3) by auto
  have ok: "no_stop res" "keys_ok f keyFn ((key_value 0 m)(keyFn x := v)) xs" using Cons.prems(2) f by simp_all
  from Cons.IH [OF m'(2), of "Suc n", unfolded vals, OF ok(2)] obtain w where
    run: "try_run (map_with_emit name (keyed_process keyFn clock (on_value f))) (Suc n, m', ()) xs =
       (key_outputs f keyFn ((key_value 0 m)(keyFn x := v)) xs, Inr w)" by blast
  have "res = Inl e \<Longrightarrow> e = ErrSkipped" for e
    using ok(1) by (simp add: no_stop_def)
  then have "map_with_emit name (keyed_process keyFn clock (on_value f)) (n, m, ()) x =
      (case res of Inr o' \<Rightarrow> [o'] | Inl _ \<Rightarrow> [], Inr (Suc n, m', ()))"
    using m'(1) by (cases res) (simp_all add: map_with_emit_def)
  with run f show ?case by (cases w) simp
qed simp

text \<open>The value of a key in a pool: that of the key's worker.\<close>

definition pool_value :: "nat \<Rightarrow> (nat \<Rightarrow> nat \<times> nat \<times> 'v keyed_refs \<times> unit) \<Rightarrow> string \<Rightarrow> 'v" where
  "pool_value n st j = key_value 0 (fst (snd (snd (st (key_shard n (map of_char j)))))) j"

lemma key_outputs_pool:
  assumes "0 < n" and "n < 2 ^ 32"
  shows "(\<And>i. i < n \<Longrightarrow> fst (st i) = i \<and> plain_map (fst (snd (snd (st i))))) \<Longrightarrow>
    no_errors (map_answer name)
      (pool_run (\<lambda>k x. item_shard n keyFn x) (keyed_work keyFn clock (on_value f)) k st xs) \<Longrightarrow>
    keys_ok f keyFn (pool_value n st) xs \<and>
    result_yields (map_answer name)
      (pool_run (\<lambda>k x. item_shard n keyFn x) (keyed_work keyFn clock (on_value f)) k st xs) =
    key_outputs f keyFn (pool_value n st) xs"
proof (induction xs arbitrary: k st)
  case (Cons x xs)
  let ?i = "item_shard n keyFn x"
  have i: "?i < n" using key_shard_bound [OF assms] by (simp add: item_shard_def)
  obtain c m where st: "st ?i = (?i, c, m, ())" using Cons.prems(1) [OF i] by (cases "st ?i") auto
  have plain: "plain_map m" using Cons.prems(1) [OF i] st by simp
  obtain v res a where f: "f (key_value 0 m (keyFn x)) x = (v, res, a)" by (metis prod_cases3)
  from keyed_step [where f = f and keyFn = keyFn and x = x, OF plain f] obtain m' where m':
    "keyed_process keyFn (clock ?i) (on_value f) (c, m, ()) x = ((Suc c, m', ()), res, a)"
    "plain_map m'" "\<forall>j. key_value 0 m' j = (if j = keyFn x then v else key_value 0 m j)"
    by blast
  let ?st = "st(?i := (?i, Suc c, m', ()))"
  have work: "keyed_work keyFn clock (on_value f) (st ?i) x = ((?i, Suc c, m', ()), res, a)"
    using m'(1) by (simp add: keyed_work_def st)
  have val: "pool_value n st (keyFn x) = key_value 0 m (keyFn x)"
    using st by (simp add: pool_value_def item_shard_def)
  have vals: "pool_value n ?st = (pool_value n st)(keyFn x := v)"
    using m'(3) st by (auto simp: pool_value_def item_shard_def)
  let ?run = "pool_run (\<lambda>k x. item_shard n keyFn x) (keyed_work keyFn clock (on_value f)) (Suc k) ?st xs"
  have run: "pool_run (\<lambda>k x. item_shard n keyFn x) (keyed_work keyFn clock (on_value f)) k st (x # xs) = (res, a) # ?run"
    using work by (simp add: Let_def)
  from Cons.prems(2) have ok: "no_stop res" "no_errors (map_answer name) ?run"
    by (simp_all only: run no_errors_simps keyed_answer_ok)
  have "keys_ok f keyFn (pool_value n ?st) xs \<and>
      result_yields (map_answer name) ?run = key_outputs f keyFn (pool_value n ?st) xs"
    by (rule Cons.IH [OF _ ok(2)]) (use Cons.prems(1) m'(2) in simp)
  moreover have "(if fst (snd (map_answer name (res, a))) = None then fst (map_answer name (res, a)) else []) =
      (case res of Inr o' \<Rightarrow> [o'] | Inl _ \<Rightarrow> [])"
    using ok(1) by (cases res) (simp_all add: map_answer_def no_stop_def)
  ultimately show ?case using f val ok(1) unfolding run vals by (simp add: result_yields_Cons)
qed simp

section \<open>Properties\<close>

lemma os_single_run:
  fixes work :: "'w \<Rightarrow> 'i \<Rightarrow> 'w \<times> 'r" and answer :: "('r, 'o) answer"
  assumes "work (w0 0) a = (w', r)" and "answer r = ([v], None, cutoff)" and "route 0 a = 0" and "0 < room"
  shows "\<exists>s. os_reach 1 room route work answer w0 [a] s \<and> os_returned s = Some None \<and> \<not> os_outer s \<and>
             \<not> os_coop s \<and> os_out s = [v]"
proof -
  let ?s0 = "os_init w0 [a] :: ('i, 'w, 'r, 'o) os"
  let ?s1 = "?s0\<lparr>os_input := [], os_phase := OsSlotting a\<rparr>"
  let ?s2 = "?s1\<lparr>os_phase := OsRouting 0 a, os_slots := [0], os_made := Suc 0\<rparr>"
  let ?s3 = "?s2\<lparr>os_phase := OsReceiving, os_routed := [a], os_queues := (\<lambda>_. [])(0 := [(0, a)])\<rparr>"
  let ?s4 = "?s3\<lparr>os_phase := OsStopped\<rparr>"
  let ?s5 = "?s4\<lparr>os_busy := (\<lambda>_. None)(0 := Some (0, a)), os_queues := (os_queues ?s4)(0 := [])\<rparr>"
  let ?s6 = "?s5\<lparr>os_busy := (os_busy ?s5)(0 := None), os_states := w0(0 := w'), os_results := (\<lambda>_. None)(0 := Some r)\<rparr>"
  let ?s7 = "?s6\<lparr>os_phase := OsClosed\<rparr>"
  let ?s8 = "?s7\<lparr>os_deliver := OsWaiting 0, os_slots := []\<rparr>"
  let ?s9 = "?s8\<lparr>os_deliver := OsDelivering [v]\<rparr>"
  let ?s10 = "?s9\<lparr>os_deliver := OsDelivering [], os_out := [v]\<rparr>"
  let ?s11 = "?s10\<lparr>os_deliver := OsIdle\<rparr>"
  let ?s12 = "?s11\<lparr>os_deliver := OsEnded None None\<rparr>"
  let ?s13 = "?s12\<lparr>os_returned := Some None\<rparr>"
  note [simp] = os_init_def os_answer_def assms
  have "os_step 1 room route work answer ?s0 ?s1" by (rule os_recv) simp_all
  moreover have "os_step 1 room route work answer ?s1 ?s2" using os_slot [of ?s1 a 1 room route work answer] by simp
  moreover have "os_step 1 room route work answer ?s2 ?s3"
    using os_route [of ?s2 0 a 0 route room 1 work answer] by simp
  moreover have "os_step 1 room route work answer ?s3 ?s4" by (rule os_closed) simp_all
  moreover have "os_step 1 room route work answer ?s4 ?s5"
    using os_pick [of 0 1 ?s4 "(0, a)" "[]" room route work answer] by simp
  moreover have "os_step 1 room route work answer ?s5 ?s6"
    using os_work [of 0 1 ?s5 0 a w' r work room route answer] by simp
  moreover have "os_step 1 room route work answer ?s6 ?s7" by (rule os_close) simp_all
  moreover have "os_step 1 room route work answer ?s7 ?s8" by (rule os_take) simp_all
  moreover have "os_step 1 room route work answer ?s8 ?s9"
    using os_result [of ?s8 0 r 1 room route work answer] by simp
  moreover have "os_step 1 room route work answer ?s9 ?s10"
    using os_send [of ?s9 v "[]" 1 room route work answer] by simp
  moreover have "os_step 1 room route work answer ?s10 ?s11" by (rule os_sent) simp_all
  moreover have "os_step 1 room route work answer ?s11 ?s12" by (rule os_end) simp_all
  moreover have "os_step 1 room route work answer ?s12 ?s13" by (rule os_return [where d = None]) simp_all
  ultimately have "os_reach 1 room route work answer w0 [a] ?s13" by (meson os_reach.intros)
  then show ?thesis by (intro exI [of _ ?s13]) simp
qed

text \<open>
  \<^verbatim>\<open>MapWith\<close> with \<^verbatim>\<open>Concurrency(n)\<close> and \<^verbatim>\<open>Ordered()\<close>: the outputs come in input order and are those
  of the sequential run in which item \<^verbatim>\<open>k\<close> works on the ref of worker \<^verbatim>\<open>k mod n\<close>.
\<close>

theorem ordered_workers_in_order:
  assumes "mapWithOrdered buffer name process workerRefs xs s"
    and "os_returned s = Some None" and "\<not> os_outer s" and "\<not> os_coop s"
  shows "os_out s = result_yields (map_answer name)
           (pool_run (\<lambda>k x. k mod length workerRefs) process 0 (nth workerRefs) xs)"
  using os_order(2) [OF assms(1) [unfolded mapWithOrdered_def] assms(2-4)] by blast

theorem ordered_workers_in_order_witness:
  "\<exists>s :: (nat, nat, nat result \<times> nat, nat) os.
     mapWithOrdered 0 ''n'' (\<lambda>w x. (w + x, Inr (w + x), 0)) [1] [41] s \<and> os_out s = [42]"
proof -
  obtain s :: "(nat, nat, nat result \<times> nat, nat) os" where
    s: "mapWithOrdered 0 ''n'' (\<lambda>w x. (w + x, Inr (w + x), 0)) [1] [41] s" "os_returned s = Some None"
      "\<not> os_outer s" "\<not> os_coop s"
    using os_single_run [of "\<lambda>w x. (w + x, Inr (w + x), 0)" "nth [1]" "41::nat" 42 "(Inr 42, 0)" "map_answer ''n''"
        42 "Some Canceled" "\<lambda>k x. k mod 1" 1]
    by (auto simp: mapWithOrdered_def map_answer_def)
  from ordered_workers_in_order [OF s] have "os_out s = [42]"
    by (simp add: Let_def map_answer_def)
  with s(1) show ?thesis by blast
qed

text \<open>
  C4: \<^verbatim>\<open>MapWithKey\<close> with \<^verbatim>\<open>Concurrency(n)\<close> and \<^verbatim>\<open>Ordered()\<close>: under every interleaving of the dispatcher, the
  workers and the delivering goroutine, a run that returned nil without having been cancelled or drained has
  sent exactly what the serial stage sends, in the same order, and the serial stage would have returned nil
  too. The function may fail on any item: then neither stage returns nil. It acts on the value of its ref in
  memory, and no time to live is set (\<^verbatim>\<open>StateTTL\<close>, \<^verbatim>\<open>WithKeyTTL\<close>), since expiry depends on when each item is
  looked up.
\<close>

theorem keyed_ordered_is_serial:
  assumes "mapWithKeyOrdered buffer name keyFn clock (on_value f) (replicate n (new_keyed_refs key keyTTL, ())) xs s"
    and "0 < n" and "n < 2 ^ 32"
    and "os_returned s = Some None" and "\<not> os_outer s" and "\<not> os_coop s"
    and "key_ttl key \<le> 0" and "keyTTL \<le> 0"
  shows "os_out s =
         outputs (mapWithKeySerial name keyFn clk (on_value f) (0, new_keyed_refs key keyTTL, ())) (closing xs) \<and>
         returns (mapWithKeySerial name keyFn clk (on_value f) (0, new_keyed_refs key keyTTL, ())) (closing xs) = Return None"
proof -
  let ?m = "new_keyed_refs key keyTTL"
  let ?st = "\<lambda>i. (i, 0, replicate n (?m, ()) ! i)"
  let ?rs = "pool_run (\<lambda>k x. item_shard n keyFn x) (keyed_work keyFn clock (on_value f)) 0 ?st xs"
  have plain: "plain_map ?m" using assms(7,8) by (simp add: plain_map_def new_keyed_refs_def)
  then have st: "fst (?st i) = i \<and> plain_map (fst (snd (snd (?st i))))" if "i < n" for i using that by simp
  have bound: "key_shard n j < n" for j using key_shard_bound [OF assms(2,3)] .
  then have start: "pool_value n ?st = key_value 0 ?m" by (simp add: pool_value_def fun_eq_iff)
  have out: "os_out s = result_yields (map_answer name) ?rs" "no_errors (map_answer name) ?rs"
    using os_order(2) [OF assms(1) [unfolded mapWithKeyOrdered_def] assms(4-6)] by simp_all
  have ok: "keys_ok f keyFn (key_value 0 ?m) xs" "result_yields (map_answer name) ?rs = key_outputs f keyFn (key_value 0 ?m) xs"
    using key_outputs_pool [OF assms(2,3) st out(2)] unfolding start by blast+
  show ?thesis
    using key_outputs_serial [OF plain ok(1), of name clk 0] out(1) ok(2)
    by (auto simp: mapWithKeySerial_def outputs_def returns_def map_with.exec_closing result_error_def)
qed

theorem keyed_ordered_is_serial_witness:
  "\<exists>s :: (string, nat \<times> nat \<times> nat keyed_refs \<times> unit, (string \<times> nat) result \<times> nat, string \<times> nat) os.
     mapWithKeyOrdered 0 ''n'' id (\<lambda>_ _. 0) (on_value count_by)
       (replicate 1 (new_keyed_refs \<lparr>key_name = ''k'', key_initial = 0, key_ttl = 0\<rparr> 0, ())) [''a''] s \<and>
     os_out s =
       outputs (mapWithKeySerial ''n'' id (\<lambda>_. 0) (on_value count_by)
         (0, new_keyed_refs \<lparr>key_name = ''k'', key_initial = 0, key_ttl = 0\<rparr> 0, ())) (closing [''a''])"
proof -
  let ?m = "new_keyed_refs \<lparr>key_name = ''k'', key_initial = 0 :: nat, key_ttl = 0\<rparr> 0"
  let ?work = "keyed_work id (\<lambda>_ _. 0) (on_value count_by)"
  have route: "item_shard 1 id ''a'' = 0" using key_shard_bound [of 1] by (simp add: item_shard_def)
  obtain w' where "?work (0, 0, ?m, ()) ''a'' = (w', Inr (''a'', 1), 0)" using keyed_count_first by blast
  then obtain s where s: "mapWithKeyOrdered 0 ''n'' id (\<lambda>_ _. 0) (on_value count_by) (replicate 1 (?m, ())) [''a''] s"
      "os_returned s = Some None" "\<not> os_outer s" "\<not> os_coop s"
    using os_single_run [of ?work "\<lambda>i. (i, 0, replicate 1 (?m, ()) ! i)" "''a''" w' "(Inr (''a'', 1), 0)"
        "map_answer ''n''" "(''a'', 1)" "Some Canceled" "\<lambda>k x. item_shard 1 id x" 1] route
    by (auto simp: mapWithKeyOrdered_def map_answer_def)
  from keyed_ordered_is_serial [OF s(1) _ _ s(2-4), of "\<lambda>_. 0"] s(1) show ?thesis by auto
qed

text \<open>
  C36: An ordered stateful stage can hang. Let the run be cancelled while the dispatcher has enqueued the slot
  of an item and still waits to hand the item to its worker, and the delivering goroutine already waits for
  that slot: such a state is reachable for every non-empty input, and in every such state the dispatcher's
  select may take its cancellation arm, after which no continuation of the run ever returns. (The select may
  hand the item over instead, and a delivering goroutine that ended with an error does return.)
\<close>

theorem ordered_workers_hang:
  fixes process :: "'w \<Rightarrow> 'i \<Rightarrow> 'w \<times> 'o result \<times> nat"
  shows
  "let run = mapWithOrdered buffer name process (w # ws) (x # xs);
       step = os_step (length (w # ws)) (buffer + 1) (\<lambda>k x. k mod length (w # ws)) process (map_answer name)
   in (\<exists>s. run s \<and> os_outer s \<and> os_cancelled s \<and> os_phase s = OsRouting 0 x \<and> os_deliver s = OsWaiting 0) \<and>
      (\<forall>s k y. run s \<and> os_cancelled s \<and> os_phase s = OsRouting k y \<and> os_deliver s = OsWaiting k \<longrightarrow>
         step s (s\<lparr>os_phase := OsStopped\<rparr>) \<and>
         (\<forall>s'. step\<^sup>*\<^sup>* (s\<lparr>os_phase := OsStopped\<rparr>) s' \<longrightarrow> os_returned s' = None))"
proof -
  let ?n = "length (w # ws)" and ?route = "\<lambda>k (x::'i). k mod length (w # ws)"
  let ?reach = "os_reach ?n (buffer + 1) ?route process (map_answer name) (nth (w # ws)) (x # xs)"
  have "\<exists>s. ?reach s \<and> os_outer s \<and> os_cancelled s \<and> os_phase s = OsRouting 0 x \<and> os_deliver s = OsWaiting 0"
    by (rule os_waits_for_routing) simp
  moreover have "os_step ?n (buffer + 1) ?route process (map_answer name) s (s\<lparr>os_phase := OsStopped\<rparr>) \<and>
      (\<forall>s'. (os_step ?n (buffer + 1) ?route process (map_answer name))\<^sup>*\<^sup>* (s\<lparr>os_phase := OsStopped\<rparr>) s' \<longrightarrow>
         os_returned s' = None)"
    if "?reach s" "os_cancelled s" "os_phase s = OsRouting k y" "os_deliver s = OsWaiting k" for s k y
    using os_stuck_forever [OF _ os_cancel_sticks [OF that(1,3,4)]] os_cancel_seen [of s] that(2,3) by simp
  ultimately show ?thesis unfolding Let_def mapWithOrdered_def by blast
qed

theorem ordered_workers_hang_witness:
  "\<exists>s :: (nat, nat, nat result \<times> nat, nat) os.
     mapWithOrdered 0 ''n'' (\<lambda>w x. (w + x, Inr (w + x), 0)) [1] [41] s \<and> os_outer s \<and>
     (\<forall>s'. (os_step 1 1 (\<lambda>k x. k mod 1) (\<lambda>w x. (w + x, Inr (w + x), 0)) (map_answer ''n''))\<^sup>*\<^sup>*
             (s\<lparr>os_phase := OsStopped\<rparr>) s' \<longrightarrow> os_returned s' = None)"
  using ordered_workers_hang [of 0 "''n''" "\<lambda>w x. (w + x, Inr (w + x), 0)" "1::nat" "[]" "41::nat" "[]"]
  unfolding Let_def by (simp only: list.size add_0 One_nat_def [symmetric] add_0_right) blast

end
