(* ===== verification/Collect_Ops.thy ===== *)
theory Collect_Ops
  imports Map_Ops
begin

text \<open>
  \<^verbatim>\<open>collect.go\<close>: the terminals that run a pipeline into a value, and \<^verbatim>\<open>ReduceWhile\<close>, \<^verbatim>\<open>TakeRandom\<close>,
  \<^verbatim>\<open>ToMap\<close> and \<^verbatim>\<open>SequenceEqual\<close>, which are loops.
\<close>

section \<open>Running a pipeline into a callback\<close>

text \<open>
  A run, as the sink of a terminal sees it: the items it receives before it stops by itself or is
  stopped, and the error of the run when no call of the callback makes one. The callback changes
  the terminal's variables; its error ends the run. The sink of a run without hook and error
  strategy takes the micro-batched path, which returns the error as it is; the serial path wraps
  it, after asking the error strategy of the run, which may drop the error.
\<close>

type_synonym 'a delivery = "'a list \<times> go_error option"

datatype sink = FastSink | SerialSink "go_error \<Rightarrow> bool"

fun sink_error :: "sink \<Rightarrow> go_error \<Rightarrow> go_error option" where
  "sink_error FastSink err = Some err"
| "sink_error (SerialSink drops) err = (if drops err then None else WrapStageErr [] (Some err) 0)"

fun each_item ::
  "sink \<Rightarrow> ('s \<Rightarrow> 'a \<Rightarrow> 's \<times> go_error option) \<Rightarrow> 's \<Rightarrow> 'a list \<Rightarrow> 's \<times> go_error option" where
  "each_item k cb s [] = (s, None)"
| "each_item k cb s (x # xs) =
     (case cb s x of
        (s', None) \<Rightarrow> each_item k cb s' xs
      | (s', Some err) \<Rightarrow>
          (case sink_error k err of None \<Rightarrow> each_item k cb s' xs | Some e \<Rightarrow> (s', Some e)))"

definition forEach_run ::
  "sink \<Rightarrow> ('s \<Rightarrow> 'a \<Rightarrow> 's \<times> go_error option) \<Rightarrow> 's \<Rightarrow> 'a delivery \<Rightarrow> 's \<times> go_error option" where
  "forEach_run k cb s p =
     (case each_item k cb s (fst p) of
        (s', Some err) \<Rightarrow> (s', Some err)
      | (s', None) \<Rightarrow> (s', snd p))"

lemma each_item_pure:
  "(\<And>s x. snd (cb s x) = None) \<Longrightarrow> each_item k cb s xs = (foldl (\<lambda>s x. fst (cb s x)) s xs, None)"
proof (induction xs arbitrary: s)
  case (Cons x xs)
  obtain s' where "cb s x = (s', None)" using Cons.prems [of s x] by (cases "cb s x") auto
  with Cons show ?case by simp
qed simp

lemma forEach_run_pure:
  "(\<And>s x. snd (cb s x) = None) \<Longrightarrow> forEach_run k cb s p = (foldl (\<lambda>s x. fst (cb s x)) s (fst p), snd p)"
  by (simp add: forEach_run_def each_item_pure)

section \<open>The terminals\<close>

definition Collect_p :: "sink \<Rightarrow> 'a delivery \<Rightarrow> 'a list \<times> go_error option" where
  "Collect_p k p = forEach_run k (\<lambda>out v. (out @ [v], None)) [] p"

definition Count :: "sink \<Rightarrow> 'a delivery \<Rightarrow> int \<times> go_error option" where
  "Count k p = forEach_run k (\<lambda>n v. (n + 1, None)) 0 p"

definition Sum :: "sink \<Rightarrow> ('a::monoid_add) delivery \<Rightarrow> 'a \<times> go_error option" where
  "Sum k p = forEach_run k (\<lambda>sum v. (sum + v, None)) 0 p"

text \<open>The answer \<^verbatim>\<open>(result, found, err)\<close>; \<^verbatim>\<open>zero\<close> is the zero value of the type.\<close>

definition First :: "sink \<Rightarrow> 'a \<Rightarrow> 'a delivery \<Rightarrow> 'a \<times> bool \<times> go_error option" where
  "First k zero p =
     (case forEach_run k (\<lambda>_ v. ((v, True), Some Canceled)) (zero, False) p of
        ((result, found), _) \<Rightarrow> if \<not> found then (zero, False, None) else (result, True, None))"

definition Last :: "sink \<Rightarrow> 'a \<Rightarrow> 'a delivery \<Rightarrow> 'a \<times> bool \<times> go_error option" where
  "Last k zero p =
     (case forEach_run k (\<lambda>_ v. ((v, True), None)) (zero, False) p of
        ((result, found), Some err) \<Rightarrow> (zero, False, Some err)
      | ((result, found), None) \<Rightarrow> (result, found, None))"

text \<open>
  \<^verbatim>\<open>dflt\<close> is the value of \<^verbatim>\<open>OrDefault\<close>: \<^verbatim>\<open>Some None\<close> when it was given for another type.
\<close>

definition Single :: "sink \<Rightarrow> 'a \<Rightarrow> 'a option option \<Rightarrow> 'a delivery \<Rightarrow> 'a result" where
  "Single k zero dflt p =
     (case forEach_run k
             (\<lambda>(result, cnt) v.
                let cnt = cnt + 1
                in if cnt > 1 then ((result, cnt), Some (Plain ''kitsune: Single: pipeline emitted more than one item''))
                   else ((v, cnt), None)) (zero, 0 :: int) p of
        (_, Some err) \<Rightarrow> Inl err
      | ((result, cnt), None) \<Rightarrow>
          if cnt = 0 then
            (case dflt of
               Some (Some v) \<Rightarrow> Inr v
             | Some None \<Rightarrow> Inl (Plain ''kitsune: Single: OrDefault value type does not match Single[T] type parameter'')
             | None \<Rightarrow> Inl (Plain ''kitsune: Single: pipeline emitted no items''))
          else Inr result)"

definition Any :: "sink \<Rightarrow> ('a \<Rightarrow> bool) \<Rightarrow> 'a delivery \<Rightarrow> bool \<times> go_error option" where
  "Any k pred p =
     (fst (forEach_run k (\<lambda>found v. if pred v then (True, Some Canceled) else (found, None)) False p), None)"

definition All_p :: "sink \<Rightarrow> ('a \<Rightarrow> bool) \<Rightarrow> 'a delivery \<Rightarrow> bool \<times> go_error option" where
  "All_p k pred p =
     (fst (forEach_run k (\<lambda>allMatch v. if \<not> pred v then (False, Some Canceled) else (allMatch, None)) True p), None)"

definition Find :: "sink \<Rightarrow> 'a \<Rightarrow> ('a \<Rightarrow> bool) \<Rightarrow> 'a delivery \<Rightarrow> 'a \<times> bool \<times> go_error option" where
  "Find k zero pred p =
     (case fst (forEach_run k (\<lambda>(result, found) v. if pred v then ((v, True), Some Canceled) else ((result, found), None))
             (zero, False) p) of
        (result, found) \<Rightarrow> (result, found, None))"

definition min_item :: "('a \<Rightarrow> 'a \<Rightarrow> bool) \<Rightarrow> 'a \<times> bool \<Rightarrow> 'a \<Rightarrow> 'a \<times> bool" where
  "min_item before s v =
     (case s of (result, found) \<Rightarrow> if \<not> found \<or> before v result then (v, True) else (result, found))"

definition Min_p :: "sink \<Rightarrow> 'a \<Rightarrow> ('a \<Rightarrow> 'a \<Rightarrow> bool) \<Rightarrow> 'a delivery \<Rightarrow> 'a \<times> bool \<times> go_error option" where
  "Min_p k zero before p =
     (case forEach_run k (\<lambda>s v. (min_item before s v, None)) (zero, False) p of
        (_, Some err) \<Rightarrow> (zero, False, Some err)
      | ((result, found), None) \<Rightarrow> (result, found, None))"

definition Max_p :: "sink \<Rightarrow> 'a \<Rightarrow> ('a \<Rightarrow> 'a \<Rightarrow> bool) \<Rightarrow> 'a delivery \<Rightarrow> 'a \<times> bool \<times> go_error option" where
  "Max_p k zero before p = Min_p k zero (\<lambda>a b. before b a) p"

definition MinBy :: "sink \<Rightarrow> 'a \<Rightarrow> ('a \<Rightarrow> 'k) \<Rightarrow> ('k \<Rightarrow> 'k \<Rightarrow> bool) \<Rightarrow> 'a delivery \<Rightarrow> 'a \<times> bool \<times> go_error option" where
  "MinBy k zero keyFn before p = Min_p k zero (\<lambda>a b. before (keyFn a) (keyFn b)) p"

definition MaxBy :: "sink \<Rightarrow> 'a \<Rightarrow> ('a \<Rightarrow> 'k) \<Rightarrow> ('k \<Rightarrow> 'k \<Rightarrow> bool) \<Rightarrow> 'a delivery \<Rightarrow> 'a \<times> bool \<times> go_error option" where
  "MaxBy k zero keyFn before p = Max_p k zero (\<lambda>a b. before (keyFn a) (keyFn b)) p"

record 'a min_max =
  mm_min :: 'a
  mm_max :: 'a

definition min_max_item ::
  "('a \<Rightarrow> 'a \<Rightarrow> bool) \<Rightarrow> 'a min_max \<times> bool \<Rightarrow> 'a \<Rightarrow> 'a min_max \<times> bool" where
  "min_max_item before s v =
     (case s of (result, found) \<Rightarrow>
        if \<not> found then (\<lparr>mm_min = v, mm_max = v\<rparr>, True)
        else let result = (if before v (mm_min result) then result\<lparr>mm_min := v\<rparr> else result)
             in (if before (mm_max result) v then result\<lparr>mm_max := v\<rparr> else result, found))"

definition MinMax :: "sink \<Rightarrow> 'a \<Rightarrow> ('a \<Rightarrow> 'a \<Rightarrow> bool) \<Rightarrow> 'a delivery \<Rightarrow> 'a min_max \<times> bool \<times> go_error option" where
  "MinMax k zero before p =
     (case forEach_run k (\<lambda>s v. (min_max_item before s v, None)) (\<lparr>mm_min = zero, mm_max = zero\<rparr>, False) p of
        (_, Some err) \<Rightarrow> (\<lparr>mm_min = zero, mm_max = zero\<rparr>, False, Some err)
      | ((result, found), None) \<Rightarrow> (result, found, None))"

section \<open>ReduceWhile, TakeRandom and ToMap\<close>

fun reduce_while_step :: "('s \<Rightarrow> 'a \<Rightarrow> 's \<times> bool) \<Rightarrow> 's \<Rightarrow> 'a recv \<Rightarrow> ('s, 's) act" where
  "reduce_while_step fn st Closed = Act [st] (Return None)"
| "reduce_while_step fn st (Item item) =
     (case fn st item of (st', cont) \<Rightarrow> if \<not> cont then Act [st'] (Return None) else Act [] (Continue st'))"

definition ReduceWhile ::
  "('c, 'v) stage_config \<Rightarrow> stage_id \<Rightarrow> stage_id \<Rightarrow> 's \<Rightarrow> ('s \<Rightarrow> 'a \<Rightarrow> 's \<times> bool) \<Rightarrow> ('s, 'a recv, 's) operator" where
  "ReduceWhile cfg i p initial fn = unary ''reduce_while'' cfg i p (select_loop initial (reduce_while_step fn))"

text \<open>The state where the reduction stops, and whether the function stopped it.\<close>

fun reduce_until :: "('s \<Rightarrow> 'a \<Rightarrow> 's \<times> bool) \<Rightarrow> 's \<Rightarrow> 'a list \<Rightarrow> 's \<times> bool" where
  "reduce_until fn st [] = (st, False)"
| "reduce_until fn st (x # xs) = (case fn st x of (st', cont) \<Rightarrow> if cont then reduce_until fn st' xs else (st', True))"

lemma exec_reduce_while:
  "exec (select_loop s0 (reduce_while_step fn)) st (items xs) =
     (case reduce_until fn st xs of (st', stopped) \<Rightarrow> if stopped then ([st'], Return None) else ([], Continue st'))"
  by (induction xs arbitrary: st) (auto simp: settle_def split: prod.splits)

interpretation reduce_while: stream_stage "select_loop initial (reduce_while_step fn)"
    "\<lambda>xs. if snd (reduce_until fn initial xs) then [fst (reduce_until fn initial xs)] else []"
    "\<lambda>xs. [fst (reduce_until fn initial xs)]" "\<lambda>_. None"
  for initial :: 's and fn :: "'s \<Rightarrow> 'a \<Rightarrow> 's \<times> bool"
  by unfold_locales
    (auto simp: outputs_def returns_def closing_items exec_append exec_reduce_while resume_def split: prod.splits)

text \<open>
  \<^verbatim>\<open>rnd i\<close> is the answer of \<^verbatim>\<open>rand.Intn(i)\<close>. For \<^verbatim>\<open>n <= 0\<close> the stage sends the empty sample before it
  receives anything, and returns.
\<close>

definition take_random_step :: "int \<Rightarrow> (nat \<Rightarrow> nat) \<Rightarrow> 'a list \<times> nat \<Rightarrow> 'a recv \<Rightarrow> ('a list \<times> nat, 'a list) act" where
  "take_random_step n rnd s e =
     (case s of (reservoir, i) \<Rightarrow>
        (case e of
           Closed \<Rightarrow> Act [reservoir] (Return None)
         | Item item \<Rightarrow>
             let i = Suc i
             in if int (length reservoir) < n then Act [] (Continue (reservoir @ [item], i))
                else Act [] (Continue (if int (rnd i) < n then reservoir[rnd i := item] else reservoir, i))))"

definition TakeRandom ::
  "('c, 'v) stage_config \<Rightarrow> stage_id \<Rightarrow> stage_id \<Rightarrow> int \<Rightarrow> (nat \<Rightarrow> nat) \<Rightarrow>
   'a list + ('a list \<times> nat, 'a recv, 'a list) operator" where
  "TakeRandom cfg i p n rnd =
     (if n \<le> 0 then Inl []
      else Inr (unary ''take_random'' cfg i p (select_loop ([], 0) (take_random_step n rnd))))"

definition random_next :: "int \<Rightarrow> (nat \<Rightarrow> nat) \<Rightarrow> 'a list \<times> nat \<Rightarrow> 'a \<Rightarrow> 'a list \<times> nat" where
  "random_next n rnd s item =
     (case s of (reservoir, i) \<Rightarrow>
        (if int (length reservoir) < n then reservoir @ [item]
         else if int (rnd (Suc i)) < n then reservoir[rnd (Suc i) := item] else reservoir, Suc i))"

interpretation take_random: transducer "take_random_step n rnd" "([], 0)" "random_next n rnd" "\<lambda>_ _. []" "\<lambda>s. [fst s]"
  for n :: int and rnd :: "nat \<Rightarrow> nat"
  by unfold_locales (auto simp: take_random_step_def random_next_def Let_def)

fun to_map_step :: "('a \<Rightarrow> 'k) \<Rightarrow> ('a \<Rightarrow> 'v) \<Rightarrow> ('k \<rightharpoonup> 'v) \<Rightarrow> 'a recv \<Rightarrow> ('k \<rightharpoonup> 'v, 'k \<rightharpoonup> 'v) act" where
  "to_map_step keyFn valueFn result Closed = Act [result] (Return None)"
| "to_map_step keyFn valueFn result (Item item) = Act [] (Continue (result(keyFn item \<mapsto> valueFn item)))"

definition ToMap ::
  "('c, 'x) stage_config \<Rightarrow> stage_id \<Rightarrow> stage_id \<Rightarrow> ('a \<Rightarrow> 'k) \<Rightarrow> ('a \<Rightarrow> 'v) \<Rightarrow>
   ('k \<rightharpoonup> 'v, 'a recv, 'k \<rightharpoonup> 'v) operator" where
  "ToMap cfg i p keyFn valueFn = unary ''to_map'' cfg i p (select_loop Map.empty (to_map_step keyFn valueFn))"

interpretation to_map: transducer "to_map_step keyFn valueFn" Map.empty
    "\<lambda>result item. result(keyFn item \<mapsto> valueFn item)" "\<lambda>_ _. []" "\<lambda>result. [result]"
  for keyFn :: "'a \<Rightarrow> 'k" and valueFn :: "'a \<Rightarrow> 'v"
  by unfold_locales simp_all

section \<open>SequenceEqual\<close>

text \<open>
  The stage receives from both inputs in lockstep. \<^verbatim>\<open>budget\<close> is the number of receives after which
  the context is found cancelled, \<^verbatim>\<open>None\<close> for never.
\<close>

definition spend :: "nat option \<Rightarrow> nat option option" where
  "spend budget = (case budget of None \<Rightarrow> Some None | Some 0 \<Rightarrow> None | Some (Suc n) \<Rightarrow> Some (Some n))"

fun sequence_stage :: "nat option \<Rightarrow> 'a list \<Rightarrow> 'a list \<Rightarrow> bool \<times> go_error option" where
  "sequence_stage budget xs ys =
     (case Option.bind (spend budget) spend of
        None \<Rightarrow> (True, Some Canceled)
      | Some budget \<Rightarrow>
          (case xs of
             [] \<Rightarrow> (ys = [], None)
           | x # xs' \<Rightarrow>
               (case ys of
                  [] \<Rightarrow> (False, None)
                | y # ys' \<Rightarrow> if x \<noteq> y then (False, None) else sequence_stage budget xs' ys')))"

text \<open>\<^verbatim>\<open>failed\<close> is the error of another stage of the run, which comes before this one's.\<close>

definition SequenceEqual ::
  "nat option \<Rightarrow> go_error option \<Rightarrow> 'a list \<Rightarrow> 'a list \<Rightarrow> bool \<times> go_error option" where
  "SequenceEqual budget failed xs ys =
     (case sequence_stage budget xs ys of (equal, stage_err) \<Rightarrow>
        (case (if failed \<noteq> None then failed else stage_err) of
           Some err \<Rightarrow> if \<not> errors_is err Canceled then (False, Some err) else (equal, None)
         | None \<Rightarrow> (equal, None)))"

section \<open>Properties\<close>

lemma foldl_snoc_item: "foldl (\<lambda>out v. out @ [v]) ys xs = ys @ xs"
  by (induction xs arbitrary: ys) auto

lemma foldl_add_one: "foldl (\<lambda>(n :: int) v. n + 1) m xs = m + int (length xs)"
  by (induction xs arbitrary: m) auto

lemma foldl_last: "foldl (\<lambda>_ v. (v, True)) s xs = (if xs = [] then s else (last xs, True))"
  by (induction xs arbitrary: s) auto

lemma each_item_first:
  "each_item FastSink (\<lambda>_ v. ((v, True), Some Canceled)) s xs =
     (case xs of [] \<Rightarrow> (s, None) | x # _ \<Rightarrow> ((x, True), Some Canceled))"
  by (cases xs) auto

lemma each_item_any:
  "fst (each_item FastSink (\<lambda>found v. if pred v then (True, Some Canceled) else (found, None)) b xs) =
     (b \<or> (\<exists>x \<in> set xs. pred x))"
  by (induction xs arbitrary: b) auto

lemma each_item_all:
  "fst (each_item FastSink (\<lambda>ok v. if \<not> pred v then (False, Some Canceled) else (ok, None)) b xs) =
     (b \<and> (\<forall>x \<in> set xs. pred x))"
  by (induction xs arbitrary: b) auto

lemma each_item_find:
  "fst (each_item FastSink (\<lambda>(result, found) v. if pred v then ((v, True), Some Canceled) else ((result, found), None)) s xs) =
     (case find pred xs of None \<Rightarrow> s | Some x \<Rightarrow> (x, True))"
  by (induction xs arbitrary: s) auto

lemma forEach_run_fst: "fst (forEach_run k cb s p) = fst (each_item k cb s (fst p))"
  by (simp add: forEach_run_def split: prod.split option.split)

text \<open>
  The terminals are the list functions they are named after: on the items the run delivers, with
  the error of the run passed on by \<^verbatim>\<open>Collect\<close>, \<^verbatim>\<open>Count\<close> and \<^verbatim>\<open>Last\<close>.
\<close>

theorem terminals_on_delivery:
  "Collect_p FastSink (xs, e) = (xs, e) \<and> Count FastSink (xs, e) = (int (length xs), e) \<and>
   First FastSink zero (xs, e) = (case xs of [] \<Rightarrow> (zero, False, None) | x # _ \<Rightarrow> (x, True, None)) \<and>
   Last FastSink zero (xs, e) =
     (case e of Some err \<Rightarrow> (zero, False, Some err) | None \<Rightarrow> if xs = [] then (zero, False, None) else (last xs, True, None)) \<and>
   Any FastSink pred (xs, e) = (\<exists>x \<in> set xs. pred x, None) \<and>
   All_p FastSink pred (xs, e) = (\<forall>x \<in> set xs. pred x, None) \<and>
   Find FastSink zero pred (xs, e) =
     (case find pred xs of None \<Rightarrow> (zero, False, None) | Some x \<Rightarrow> (x, True, None))"
proof (intro conjI)
  show "Collect_p FastSink (xs, e) = (xs, e)"
    by (simp add: Collect_p_def forEach_run_pure foldl_snoc_item)
  show "Count FastSink (xs, e) = (int (length xs), e)"
    by (simp add: Count_def forEach_run_pure foldl_add_one)
  show "First FastSink zero (xs, e) = (case xs of [] \<Rightarrow> (zero, False, None) | x # _ \<Rightarrow> (x, True, None))"
    by (simp add: First_def forEach_run_def each_item_first split: list.split option.split)
  show "Last FastSink zero (xs, e) =
     (case e of Some err \<Rightarrow> (zero, False, Some err) | None \<Rightarrow> if xs = [] then (zero, False, None) else (last xs, True, None))"
    by (simp add: Last_def forEach_run_pure foldl_last split: option.split)
  show "Any FastSink pred (xs, e) = (\<exists>x \<in> set xs. pred x, None)"
    by (simp add: Any_def forEach_run_fst each_item_any)
  show "All_p FastSink pred (xs, e) = (\<forall>x \<in> set xs. pred x, None)"
    by (simp add: All_p_def forEach_run_fst each_item_all)
  show "Find FastSink zero pred (xs, e) =
     (case find pred xs of None \<Rightarrow> (zero, False, None) | Some x \<Rightarrow> (x, True, None))"
    by (simp add: Find_def forEach_run_fst each_item_find split: option.split)
qed

text \<open>
  The terminals that search answer without the error of the run: when the pipeline fails after
  items that all satisfy the predicate, \<^verbatim>\<open>All\<close> answers true and nil, \<^verbatim>\<open>Any\<close> and \<^verbatim>\<open>Find\<close> of a predicate
  that none satisfies answer as if the pipeline had ended, and \<^verbatim>\<open>SequenceEqual\<close> of a run cancelled
  before the first comparison answers true.
\<close>

theorem searches_hide_errors:
  assumes "\<forall>x \<in> set xs. pred x"
  shows "All_p FastSink pred (xs, Some err) = (True, None) \<and>
         Any FastSink (\<lambda>x. \<not> pred x) (xs, Some err) = (False, None) \<and>
         Find FastSink zero (\<lambda>x. \<not> pred x) (xs, Some err) = (zero, False, None) \<and>
         First FastSink zero ([], Some err) = (zero, False, None) \<and>
         SequenceEqual (Some 0) None xs ys = (True, None)"
proof -
  have "find (\<lambda>x. \<not> pred x) xs = None" using assms by (simp add: find_None_iff)
  moreover have "SequenceEqual (Some 0) None xs ys = (True, None)" by (simp add: SequenceEqual_def spend_def)
  moreover have "First FastSink zero ([], Some err) = (zero, False, None)" by (simp add: First_def forEach_run_def)
  ultimately show ?thesis using assms
    by (simp add: All_p_def Any_def Find_def forEach_run_fst each_item_all each_item_any each_item_find)
qed

theorem searches_hide_errors_witness: "All_p FastSink (\<lambda>x. x < 9) ([1, 2 :: nat], Some (Plain ''disk'')) = (True, None)"
  using searches_hide_errors [of "[1, 2 :: nat]" "\<lambda>x. x < 9" "Plain ''disk''" 0 "[]"] by simp

text \<open>
  With an error strategy that drops errors the callback of \<^verbatim>\<open>First\<close> no longer ends the run by its
  \<^verbatim>\<open>context.Canceled\<close>, and every item the sink still takes replaces the answer: \<^verbatim>\<open>First\<close> gives the last of
  them.
\<close>

theorem first_under_dropping_strategy:
  assumes "drops Canceled" and "xs \<noteq> []"
  shows "First (SerialSink drops) zero (xs, e) = (last xs, True, None)"
proof -
  have "each_item (SerialSink drops) (\<lambda>_ v. ((v, True), Some Canceled)) s xs =
      (if xs = [] then s else (last xs, True), None)" for s
    using assms(1) by (induction xs arbitrary: s) auto
  with assms(2) show ?thesis by (simp add: First_def forEach_run_def)
qed

theorem first_under_dropping_strategy_witness:
  "First (SerialSink (\<lambda>_. True)) 0 ([1, 2, 3 :: nat], None) = (3, True, None)"
  using first_under_dropping_strategy [of "\<lambda>_. True" "[1, 2, 3 :: nat]" 0 None] by simp

text \<open>
  \<^verbatim>\<open>Min\<close>, \<^verbatim>\<open>Max\<close> and \<^verbatim>\<open>MinMax\<close> over a strict order: the answer is an item, and no item is before the
  minimum or after the maximum.
\<close>

definition strict_order :: "('a \<Rightarrow> 'a \<Rightarrow> bool) \<Rightarrow> bool" where
  "strict_order before \<longleftrightarrow> (\<forall>x. \<not> before x x) \<and> (\<forall>x y z. before x y \<longrightarrow> before y z \<longrightarrow> before x z)"

lemma strict_orderD:
  "strict_order before \<Longrightarrow> \<not> before x x"
  "strict_order before \<Longrightarrow> before x y \<Longrightarrow> before y z \<Longrightarrow> before x z"
  unfolding strict_order_def by blast+

lemma minimal_insert:
  assumes "strict_order before" and "\<forall>x \<in> A. \<not> before x r"
  shows "\<forall>x \<in> insert v A. \<not> before x (if before v r then v else r)"
proof
  fix x
  assume x: "x \<in> insert v A"
  show "\<not> before x (if before v r then v else r)"
  proof (cases "before v r")
    case True
    with x assms(2) strict_orderD [OF assms(1)] show ?thesis by auto
  next
    case False
    with x assms(2) show ?thesis by auto
  qed
qed

lemma strict_order_rev: "strict_order before \<Longrightarrow> strict_order (\<lambda>a b. before b a)"
  unfolding strict_order_def by blast

lemma min_fold:
  assumes "strict_order before" and "r \<in> A" and "\<forall>x \<in> A. \<not> before x r"
  shows "\<exists>r' \<in> A \<union> set xs. foldl (min_item before) (r, True) xs = (r', True) \<and> (\<forall>x \<in> A \<union> set xs. \<not> before x r')"
  using assms(2,3)
proof (induction xs arbitrary: r A)
  case (Cons v xs)
  let ?r = "if before v r then v else r"
  have "?r \<in> insert v A" using Cons.prems(1) by simp
  moreover have "\<forall>x \<in> insert v A. \<not> before x ?r"
    using Cons.prems(2) by (rule minimal_insert [OF assms(1)])
  ultimately obtain r' where "r' \<in> insert v A \<union> set xs" "foldl (min_item before) (?r, True) xs = (r', True)"
      "\<forall>x \<in> insert v A \<union> set xs. \<not> before x r'"
    using Cons.IH [of ?r "insert v A"] by blast
  moreover have "min_item before (r, True) v = (?r, True)" by (simp add: min_item_def)
  ultimately show ?case by (intro bexI [of _ r']) auto
qed auto

lemma min_max_fold:
  assumes "strict_order before" and "lo \<in> A" and "hi \<in> A" and "\<forall>x \<in> A. \<not> before x lo \<and> \<not> before hi x"
  shows "\<exists>lo' \<in> A \<union> set xs. \<exists>hi' \<in> A \<union> set xs.
     foldl (min_max_item before) (\<lparr>mm_min = lo, mm_max = hi\<rparr>, True) xs = (\<lparr>mm_min = lo', mm_max = hi'\<rparr>, True) \<and>
     (\<forall>x \<in> A \<union> set xs. \<not> before x lo' \<and> \<not> before hi' x)"
  using assms(2-4)
proof (induction xs arbitrary: lo hi A)
  case (Cons v xs)
  let ?lo = "if before v lo then v else lo" and ?hi = "if before hi v then v else hi"
  have "?lo \<in> insert v A" "?hi \<in> insert v A" using Cons.prems(1,2) by simp_all
  moreover have "\<forall>x \<in> insert v A. \<not> before x ?lo"
    using Cons.prems(3) by (intro minimal_insert [OF assms(1)]) simp
  moreover have "\<forall>x \<in> insert v A. \<not> before ?hi x"
    using Cons.prems(3) by (intro minimal_insert [OF strict_order_rev [OF assms(1)]]) simp
  ultimately obtain lo' hi' where "lo' \<in> insert v A \<union> set xs" "hi' \<in> insert v A \<union> set xs"
      "foldl (min_max_item before) (\<lparr>mm_min = ?lo, mm_max = ?hi\<rparr>, True) xs = (\<lparr>mm_min = lo', mm_max = hi'\<rparr>, True)"
      "\<forall>x \<in> insert v A \<union> set xs. \<not> before x lo' \<and> \<not> before hi' x"
    using Cons.IH [of ?lo "insert v A" ?hi] by blast
  moreover have "min_max_item before (\<lparr>mm_min = lo, mm_max = hi\<rparr>, True) v = (\<lparr>mm_min = ?lo, mm_max = ?hi\<rparr>, True)"
    by (simp add: min_max_item_def Let_def)
  ultimately show ?case by (intro bexI [of _ lo'] bexI [of _ hi']) auto
qed auto

theorem min_max_extremal:
  assumes "strict_order before" and "xs \<noteq> []"
  shows "(\<exists>r \<in> set xs. Min_p k zero before (xs, None) = (r, True, None) \<and> (\<forall>x \<in> set xs. \<not> before x r)) \<and>
         (\<exists>r \<in> set xs. Max_p k zero before (xs, None) = (r, True, None) \<and> (\<forall>x \<in> set xs. \<not> before r x)) \<and>
         (\<exists>lo \<in> set xs. \<exists>hi \<in> set xs. MinMax k zero before (xs, None) = (\<lparr>mm_min = lo, mm_max = hi\<rparr>, True, None) \<and>
            (\<forall>x \<in> set xs. \<not> before x lo \<and> \<not> before hi x))"
proof -
  obtain a ys where xs: "xs = a # ys" using assms(2) by (cases xs) auto
  note rev = strict_order_rev [OF assms(1)]
  have irr: "\<not> before a a" using assms(1) by (simp add: strict_order_def)
  have start: "min_item b (z, False) a = (a, True)" for b z by (simp add: min_item_def)
  have "min_max_item before (z, False) a = (\<lparr>mm_min = a, mm_max = a\<rparr>, True)" for z by (simp add: min_max_item_def)
  note mm = this
  obtain lo where lo: "lo \<in> set xs" "foldl (min_item before) (a, True) ys = (lo, True)" "\<forall>x \<in> set xs. \<not> before x lo"
    using min_fold [OF assms(1), of a "{a}" ys] irr by (auto simp: xs)
  then have "Min_p k zero before (xs, None) = (lo, True, None)"
    by (simp add: xs Min_p_def forEach_run_pure start)
  moreover obtain hi where hi: "hi \<in> set xs" "foldl (min_item (\<lambda>a b. before b a)) (a, True) ys = (hi, True)"
      "\<forall>x \<in> set xs. \<not> before hi x"
    using min_fold [OF rev, of a "{a}" ys] irr by (auto simp: xs)
  moreover from hi(2) have "Max_p k zero before (xs, None) = (hi, True, None)"
    by (simp add: xs Max_p_def Min_p_def forEach_run_pure start)
  moreover obtain lo' hi' where both: "lo' \<in> set xs" "hi' \<in> set xs"
      "foldl (min_max_item before) (\<lparr>mm_min = a, mm_max = a\<rparr>, True) ys = (\<lparr>mm_min = lo', mm_max = hi'\<rparr>, True)"
      "\<forall>x \<in> set xs. \<not> before x lo' \<and> \<not> before hi' x"
    using min_max_fold [OF assms(1), of a "{a}" a ys] irr by (auto simp: xs)
  moreover from both(3) have "MinMax k zero before (xs, None) = (\<lparr>mm_min = lo', mm_max = hi'\<rparr>, True, None)"
    by (simp add: xs MinMax_def forEach_run_pure mm)
  ultimately show ?thesis using lo(1,3) by blast
qed

theorem min_max_extremal_witness:
  "\<exists>r. Min_p FastSink 0 (<) ([3, 1, 2 :: nat], None) = (r, True, None) \<and> (\<forall>x \<in> {3, 1, 2}. \<not> x < r)"
  using min_max_extremal [of "(<)" "[3, 1, 2 :: nat]" FastSink 0] by (auto simp: strict_order_def)

text \<open>
  \<^verbatim>\<open>TakeRandom(n)\<close> sends one sample of \<^verbatim>\<open>min(n, size)\<close> items of the input, each taken at most as often as
  it occurs, whatever the random numbers; \<^verbatim>\<open>ReduceWhile\<close> and \<^verbatim>\<open>ToMap\<close> send one value, the state where
  the function stops and the map in which the last item of a key wins.
\<close>

lemma random_fold:
  assumes "\<And>i. 0 < i \<Longrightarrow> rnd i < i" and "mset r \<subseteq># M" and "length r = min n i" and "size M = i"
  shows "\<exists>r' j. foldl (random_next (int n) rnd) (r, i) xs = (r', j) \<and> mset r' \<subseteq># M + mset xs \<and>
     length r' = min n (i + length xs)"
  using assms(2-4)
proof (induction xs arbitrary: r i M)
  case (Cons x xs)
  let ?r = "fst (random_next (int n) rnd (r, i) x)"
  have "mset ?r \<subseteq># add_mset x M"
  proof (cases "length r < n")
    case True
    with Cons.prems show ?thesis by (auto simp: random_next_def)
  next
    case False
    have "mset (r[rnd (Suc i) := x]) \<subseteq># add_mset x M"
    proof (cases "rnd (Suc i) < length r")
      case True
      have "mset r - {#r ! rnd (Suc i)#} \<subseteq># M"
        using Cons.prems(1) by (meson diff_subset_eq_self subset_mset.order_trans)
      with True show ?thesis by (simp add: mset_update)
    next
      case False
      with Cons.prems(1) show ?thesis
        by (metis add_mset_add_single linorder_not_less list_update_beyond mset_subset_eq_add_left subset_mset.order_trans)
    qed
    moreover have "mset r \<subseteq># add_mset x M"
      using Cons.prems(1) by (metis add_mset_add_single mset_subset_eq_add_left subset_mset.order_trans)
    ultimately show ?thesis using False by (simp add: random_next_def)
  qed
  moreover have "length ?r = min n (Suc i)" using Cons.prems by (auto simp: random_next_def)
  moreover have "random_next (int n) rnd (r, i) x = (?r, Suc i)" by (simp add: random_next_def)
  ultimately show ?case using Cons.IH [of ?r "add_mset x M" "Suc i"] Cons.prems(3) by simp
qed simp

theorem take_random_sample:
  assumes "\<And>i. 0 < i \<Longrightarrow> rnd i < i" and "TakeRandom cfg i p (int n) rnd = Inr op"
  shows "\<exists>sample. outputs (op_loop op) (closing xs) = [sample] \<and> returns (op_loop op) (closing xs) = Return None \<and>
           mset sample \<subseteq># mset xs \<and> length sample = min n (length xs)"
proof -
  obtain r j where "foldl (random_next (int n) rnd) ([], 0) xs = (r, j)" "mset r \<subseteq># mset xs" "length r = min n (length xs)"
    using random_fold [of rnd "[]" "{#}" n 0 xs] assms(1) by auto
  with assms(2) show ?thesis
    by (auto simp: TakeRandom_def take_random.results emissions_none split: if_splits)
qed

theorem take_random_sample_witness:
  "\<exists>op. TakeRandom (buildStageConfig [] :: (unit, unit) stage_config) 1 0 2 (\<lambda>i. i - 1) = Inr op \<and>
     (\<exists>sample. outputs (op_loop op) (closing [5, 6, 7 :: nat]) = [sample] \<and> length sample = 2)"
proof -
  obtain op where op: "TakeRandom (buildStageConfig [] :: (unit, unit) stage_config) 1 0 (int 2) (\<lambda>i. i - 1) =
      (Inr op :: _ + (nat list \<times> nat, nat recv, nat list) operator)"
    by (simp add: TakeRandom_def)
  from take_random_sample [OF _ this, of "[5, 6, 7]"] op show ?thesis by auto
qed

theorem reduce_while_and_to_map:
  "outputs (op_loop (ReduceWhile cfg i p initial fn)) (closing xs) = [fst (reduce_until fn initial xs)] \<and>
   outputs (op_loop (ToMap cfg' i p keyFn valueFn)) (closing xs) =
     [map_of (rev (map (\<lambda>x. (keyFn x, valueFn x)) xs))] \<and>
   SequenceEqual None None as bs = (as = bs, None)"
proof -
  have "foldl (\<lambda>m x. m(keyFn x \<mapsto> valueFn x)) m xs = m ++ map_of (rev (map (\<lambda>x. (keyFn x, valueFn x)) xs))" for m
    by (induction xs rule: rev_induct) (simp_all del: fun_upd_apply)
  moreover have "sequence_stage None as bs = (as = bs, None)"
  proof (induction as arbitrary: bs)
    case (Cons a as)
    then show ?case by (cases bs) (simp_all add: spend_def)
  qed (auto simp: spend_def)
  ultimately show ?thesis
    by (simp add: ReduceWhile_def ToMap_def to_map.results emissions_none reduce_while.outputs_closed SequenceEqual_def)
qed

end
