(* ===== verification/Time_Ops.thy ===== *)
theory Time_Ops
  imports Batch_Ops
begin

text \<open>
  \<^verbatim>\<open>time_op.go\<close>: \<^verbatim>\<open>Throttle\<close>, \<^verbatim>\<open>Sample\<close> and \<^verbatim>\<open>Debounce\<close>. The clock's readings are a parameter, and a tick
  of a ticker or timer is an event that the environment may make whenever the stage listens for
  it.
\<close>

section \<open>Throttle\<close>

text \<open>
  \<^verbatim>\<open>now k\<close> is the clock's \<^verbatim>\<open>k\<close>-th reading; the zero time of \<^verbatim>\<open>lastEmit\<close> is \<^verbatim>\<open>None\<close>.
\<close>

definition throttle_step ::
  "(nat \<Rightarrow> time) \<Rightarrow> duration \<Rightarrow> nat \<times> time option \<Rightarrow> 'a recv \<Rightarrow> (nat \<times> time option, 'a) act" where
  "throttle_step now window s e =
     (case s of (k, lastEmit) \<Rightarrow>
        (case e of
           Closed \<Rightarrow> Act [] (Return None)
         | Item item \<Rightarrow>
             if (case lastEmit of None \<Rightarrow> True | Some t \<Rightarrow> now k - t \<ge> window)
             then Act [item] (Continue (Suc k, Some (now k)))
             else Act [] (Continue (Suc k, lastEmit))))"

definition Throttle ::
  "('c, 'v) stage_config \<Rightarrow> stage_id \<Rightarrow> stage_id \<Rightarrow> (nat \<Rightarrow> time) \<Rightarrow> duration \<Rightarrow>
   (nat \<times> time option, 'a recv, 'a) operator" where
  "Throttle cfg i p now window = unary ''throttle'' cfg i p (select_loop (0, None) (throttle_step now window))"

definition throttle_passes :: "(nat \<Rightarrow> time) \<Rightarrow> duration \<Rightarrow> nat \<times> time option \<Rightarrow> bool" where
  "throttle_passes now window s \<longleftrightarrow> (case snd s of None \<Rightarrow> True | Some t \<Rightarrow> now (fst s) - t \<ge> window)"

interpretation throttle: transducer "throttle_step now window" "(0, None)"
    "\<lambda>s _. (Suc (fst s), if throttle_passes now window s then Some (now (fst s)) else snd s)"
    "\<lambda>s x. if throttle_passes now window s then [x] else []" "\<lambda>_. []"
  for now :: "nat \<Rightarrow> time" and window :: duration
  by unfold_locales (auto simp: throttle_step_def throttle_passes_def split: prod.splits option.splits)

section \<open>Sample\<close>

fun sample_tick_step :: "'a option \<Rightarrow> 'a timed \<Rightarrow> ('a option, 'a) act" where
  "sample_tick_step latest (Arrival Closed) = Act [] (Return None)"
| "sample_tick_step latest (Arrival (Item item)) = Act [] (Continue (Some item))"
| "sample_tick_step (Some item) Tick = Act [item] (Continue None)"
| "sample_tick_step None Tick = Act [] (Continue None)"

definition Sample ::
  "('c, 'v) stage_config \<Rightarrow> stage_id \<Rightarrow> stage_id \<Rightarrow> ('a option, 'a timed, 'a) operator" where
  "Sample cfg i p = unary ''sample'' cfg i p (select_loop None sample_tick_step)"

section \<open>Debounce\<close>

record 'a debounce =
  db_pending :: "'a option"
  db_active :: bool

fun debounce_step :: "'a debounce \<Rightarrow> 'a timed \<Rightarrow> ('a debounce, 'a) act" where
  "debounce_step v (Arrival Closed) = Act (case db_pending v of Some item \<Rightarrow> [item] | None \<Rightarrow> []) (Return None)"
| "debounce_step v (Arrival (Item item)) = Act [] (Continue \<lparr>db_pending = Some item, db_active = True\<rparr>)"
| "debounce_step v Tick =
     Act (case db_pending v of Some item \<Rightarrow> [item] | None \<Rightarrow> []) (Continue \<lparr>db_pending = None, db_active = False\<rparr>)"

text \<open>The timer's channel is only listened to while the timer is active.\<close>

definition debounce_loop :: "('a debounce, 'a timed, 'a) loop" where
  "debounce_loop =
     (select_loop \<lparr>db_pending = None, db_active = False\<rparr> debounce_step)\<lparr>loop_listens := (\<lambda>v e. e = Tick \<longrightarrow> db_active v)\<rparr>"

definition Debounce ::
  "('c, 'v) stage_config \<Rightarrow> stage_id \<Rightarrow> stage_id \<Rightarrow> ('a debounce, 'a timed, 'a) operator" where
  "Debounce cfg i p = unary ''debounce'' cfg i p debounce_loop"

lemma debounce_loop_sel [simp]:
  "loop_init debounce_loop = \<lparr>db_pending = None, db_active = False\<rparr>"
  "loop_head debounce_loop = (\<lambda>_. None)"
  "loop_step debounce_loop = debounce_step"
  by (simp_all add: debounce_loop_def)

section \<open>References\<close>

text \<open>The arrivals between the ticks, up to the end of the input.\<close>

fun cut_at_ticks :: "'a timed list \<Rightarrow> 'a list list" where
  "cut_at_ticks [] = [[]]"
| "cut_at_ticks (Tick # es) = [] # cut_at_ticks es"
| "cut_at_ticks (Arrival (Item x) # es) = (x # hd (cut_at_ticks es)) # tl (cut_at_ticks es)"
| "cut_at_ticks (Arrival Closed # es) = [[]]"

lemma cut_at_ticks_nonempty [simp]: "cut_at_ticks es \<noteq> []"
  by (induction es rule: cut_at_ticks.induct) auto

definition last_of :: "'a list \<Rightarrow> 'a list" where
  "last_of xs = (if xs = [] then [] else [last xs])"

definition opt_list :: "'a option \<Rightarrow> 'a list" where
  "opt_list p = (case p of Some x \<Rightarrow> [x] | None \<Rightarrow> [])"

definition from_pending :: "'a option \<Rightarrow> 'a list list \<Rightarrow> 'a list list" where
  "from_pending p segs = (opt_list p @ hd segs) # tl segs"

lemma from_pending_step:
  "concat (map last_of (from_pending p ((x # hd segs) # tl segs))) =
     concat (map last_of (from_pending (Some x) segs))"
  "concat (map last_of (butlast (from_pending p ((x # hd segs) # tl segs)))) =
     concat (map last_of (butlast (from_pending (Some x) segs)))"
  by (auto simp: from_pending_def opt_list_def last_of_def split: option.splits)

lemma from_pending_None [simp]: "segs \<noteq> [] \<Longrightarrow> from_pending None segs = segs"
  by (simp add: from_pending_def opt_list_def)

lemma last_of_Nil [simp]: "last_of [] = []"
  by (simp add: last_of_def)

lemma last_of_opt_list [simp]: "last_of (opt_list p) = opt_list p"
  by (auto simp: last_of_def opt_list_def split: option.splits)

lemma from_pending_tick:
  "concat (map last_of (from_pending p ([] # segs))) = opt_list p @ concat (map last_of segs)"
  "segs \<noteq> [] \<Longrightarrow> concat (map last_of (butlast (from_pending p ([] # segs)))) =
     opt_list p @ concat (map last_of (butlast segs))"
  by (simp_all add: from_pending_def)

lemma sample_exec:
  "fst (exec (select_loop p0 sample_tick_step) p es) =
     concat (map last_of (butlast (from_pending p (cut_at_ticks es))))"
proof (induction es arbitrary: p rule: cut_at_ticks.induct)
  case (2 es)
  then show ?case using 2 [of None]
    by (cases p) (simp_all add: from_pending_tick opt_list_def case_prod_beta)
next
  case (3 x es)
  then show ?case
    by (simp add: from_pending_step case_prod_beta)
qed (auto simp: from_pending_def settle_def)

lemma debounce_exec:
  "fst (exec debounce_loop \<lparr>db_pending = p, db_active = a\<rparr> (es @ [Arrival Closed])) =
     concat (map last_of (from_pending p (cut_at_ticks es)))"
proof (induction es arbitrary: p a rule: cut_at_ticks.induct)
  case (2 es)
  then show ?case using 2 [of None False]
    by (cases p) (simp_all add: from_pending_tick opt_list_def case_prod_beta)
next
  case (3 x es)
  then show ?case
    by (simp add: from_pending_step case_prod_beta)
qed (auto simp: from_pending_def opt_list_def last_of_def split: option.splits)

section \<open>Properties\<close>

text \<open>The reference of \<^verbatim>\<open>Throttle\<close>: the items with the readings at which they arrive, and those that pass.\<close>

fun passed :: "duration \<Rightarrow> time option \<Rightarrow> (time \<times> 'a) list \<Rightarrow> (time \<times> 'a) list" where
  "passed window prev [] = []"
| "passed window prev ((t, x) # xs) =
     (if prev = None \<or> t - the prev \<ge> window then (t, x) # passed window (Some t) xs else passed window prev xs)"

lemma throttle_emissions:
  "emissions (\<lambda>s _. (Suc (fst s), if throttle_passes now window s then Some (now (fst s)) else snd s))
     (\<lambda>s x. if throttle_passes now window s then [x] else []) (k, prev) xs =
   map snd (passed window prev (map (\<lambda>(i, x). (now i, x)) (enumerate k xs)))"
  by (induction xs arbitrary: k prev) (auto simp: throttle_passes_def split: option.splits)

lemma passed_spacing:
  "successively (\<lambda>p q. fst q - fst p \<ge> window) (passed window prev xs) \<and>
   (\<forall>t. prev = Some t \<longrightarrow> passed window prev xs \<noteq> [] \<longrightarrow> fst (hd (passed window prev xs)) - t \<ge> window)"
proof (induction window prev xs rule: passed.induct)
  case (2 window prev t x xs)
  then show ?case by (auto simp: successively_Cons)
qed simp

lemma passed_dropped:
  "(t, x) \<in> set xs \<Longrightarrow> (t, x) \<notin> set (passed window prev xs) \<Longrightarrow>
   \<exists>t' \<in> set_option prev \<union> fst ` set (passed window prev xs). t - t' < window"
proof (induction window prev xs rule: passed.induct)
  case (2 window prev u y xs)
  then show ?case by (cases "prev = None \<or> u - the prev \<ge> window") (auto simp: not_le)
qed simp

text \<open>
  \<^verbatim>\<open>Throttle\<close>: whatever the clock reads, the items sent are a subsequence of the input, the readings of
  two neighbours are at least a window apart, the first item passes, and an item is only dropped
  when it arrives within the window of one that passed.
\<close>

theorem throttle_spacing:
  fixes now :: "nat \<Rightarrow> time" and xs :: "'a list"
  defines "arrivals \<equiv> map (\<lambda>(i, x). (now i, x)) (enumerate 0 xs)"
  shows "outputs (op_loop (Throttle cfg i p now window)) (closing xs) = map snd (passed window None arrivals) \<and>
         subseq (passed window None arrivals) arrivals \<and>
         successively (\<lambda>a b. fst b - fst a \<ge> window) (passed window None arrivals) \<and>
         take 1 (passed window None arrivals) = take 1 arrivals \<and>
         (\<forall>a \<in> set arrivals. a \<in> set (passed window None arrivals) \<or>
            (\<exists>b \<in> set (passed window None arrivals). fst a - fst b < window))"
proof -
  have "subseq (passed window prev ys) ys" for prev and ys :: "(time \<times> 'a) list"
    by (induction window prev ys rule: passed.induct) auto
  moreover have "take 1 (passed window None arrivals) = take 1 arrivals"
    by (cases arrivals) auto
  moreover have "a \<in> set (passed window None arrivals) \<or> (\<exists>b \<in> set (passed window None arrivals). fst a - fst b < window)"
    if "a \<in> set arrivals" for a
    using passed_dropped [of "fst a" "snd a" arrivals window None] that by auto
  moreover have "outputs (op_loop (Throttle cfg i p now window)) (closing xs) = map snd (passed window None arrivals)"
    by (simp add: Throttle_def throttle.results throttle_emissions arrivals_def)
  ultimately show ?thesis using passed_spacing by blast
qed

text \<open>
  \<^verbatim>\<open>Sample\<close> sends at every tick the last item since the tick before, if there is one, and nothing at
  the end; \<^verbatim>\<open>Debounce\<close> sends the last item of every burst that its timer or the end of the input
  closes, so the last item of all is never lost.
\<close>

theorem sample_and_debounce:
  "outputs (op_loop (Sample cfg i p)) es = concat (map last_of (butlast (cut_at_ticks es))) \<and>
   outputs (op_loop (Debounce cfg i p)) (es @ [Arrival Closed]) = concat (map last_of (cut_at_ticks es))"
  by (simp add: Sample_def Debounce_def outputs_def sample_exec debounce_exec)

end
