(* ===== verification/Source_Ops.thy ===== *)
theory Source_Ops
  imports Collect_Ops Misc_Ops
begin

text \<open>
  \<^verbatim>\<open>Generate\<close> (\<^verbatim>\<open>source.go\<close>) and what is built on it: the sources that loop over \<^verbatim>\<open>yield\<close>, and the
  operators that run a pipeline of their own inside a generator (\<^verbatim>\<open>Concat\<close>, \<^verbatim>\<open>Catch\<close>, \<^verbatim>\<open>Using\<close>,
  \<^verbatim>\<open>TapError\<close>, \<^verbatim>\<open>Finally\<close>, \<^verbatim>\<open>IgnoreElements\<close>, \<^verbatim>\<open>Materialize\<close>). \<^verbatim>\<open>Amb\<close> has its own theory.
\<close>

section \<open>Generate\<close>

text \<open>
  How one call of \<^verbatim>\<open>yield\<close> ends. Without hook and gate the select has the send, drain and done
  arms, and a sent item is answered by whether the stage's context still lives; otherwise the gate
  comes first and the select has the context too.
\<close>

datatype yield_event =
    FastSent (stage_alive: bool) | FastDrain | FastDone
  | GateRefused | GatedSent | GatedDrain | GatedCtx | GatedDone

datatype yield_answer = Accepted | AcceptedLast | Refused

fun yield_result :: "yield_event \<Rightarrow> yield_answer" where
  "yield_result (FastSent alive) = (if alive then Accepted else AcceptedLast)"
| "yield_result FastDrain = Refused"
| "yield_result FastDone = Refused"
| "yield_result GateRefused = Refused"
| "yield_result GatedSent = Accepted"
| "yield_result GatedDrain = Refused"
| "yield_result GatedCtx = Refused"
| "yield_result GatedDone = Refused"

text \<open>
  What the world answers to one run of a generator: how the \<^verbatim>\<open>k\<close>-th call of \<^verbatim>\<open>yield\<close> ends, what the
  stage's context says the \<^verbatim>\<open>k\<close>-th time the function asks, what the context of the run says when
  the function has returned, and how many more items an inner run still hands to its callback
  after it was cancelled.
\<close>

record gen_env =
  ge_yield :: "nat \<Rightarrow> yield_event"
  ge_ctx :: "nat \<Rightarrow> go_error option"
  ge_parent :: "go_error option"
  ge_lag :: nat

definition goes_on :: "gen_env \<Rightarrow> nat \<Rightarrow> bool" where
  "goes_on env k = (yield_result (ge_yield env k) = Accepted)"

definition sends :: "gen_env \<Rightarrow> nat \<Rightarrow> bool" where
  "sends env k = (yield_result (ge_yield env k) \<noteq> Refused)"

text \<open>A generator function has made a sequence of calls of \<^verbatim>\<open>yield\<close> and returned an error.\<close>

type_synonym 'a generated = "'a list \<times> go_error option"

definition sent_items :: "gen_env \<Rightarrow> nat \<Rightarrow> 'a list \<Rightarrow> 'a list" where
  "sent_items env k xs = map snd (filter (\<lambda>(i, x). sends env i) (enumerate k xs))"

definition is_canceled :: "go_error option \<Rightarrow> bool" where
  "is_canceled err = (case err of None \<Rightarrow> False | Some e \<Rightarrow> errors_is e Canceled)"

definition Generate :: "gen_env \<Rightarrow> 'a generated \<Rightarrow> 'a delivery" where
  "Generate env g =
     (sent_items env 0 (fst g),
      if is_canceled (snd g) \<and> ge_parent env = None then None else snd g)"

text \<open>A run that nothing disturbs: every item is taken, no context ends.\<close>

definition calm :: "gen_env \<Rightarrow> bool" where
  "calm env = ((\<forall>k. goes_on env k) \<and> (\<forall>k. ge_ctx env k = None) \<and> ge_parent env = None)"

lemma goes_on_sends: "goes_on env k \<Longrightarrow> sends env k"
  by (simp add: goes_on_def sends_def)

lemma calm_goes_on [simp]: "calm env \<Longrightarrow> goes_on env k"
  and calm_sends [simp]: "calm env \<Longrightarrow> sends env k"
  and calm_ctx [simp]: "calm env \<Longrightarrow> ge_ctx env k = None"
  and calm_parent [simp]: "calm env \<Longrightarrow> ge_parent env = None"
  by (auto simp: calm_def intro: goes_on_sends)

lemma sent_items_Nil [simp]: "sent_items env k [] = []"
  by (simp add: sent_items_def)

lemma sent_items_Cons [simp]:
  "sent_items env k (x # xs) = (if sends env k then [x] else []) @ sent_items env (Suc k) xs"
  by (simp add: sent_items_def)

lemma sent_items_append:
  "sent_items env k (xs @ ys) = sent_items env k xs @ sent_items env (k + length xs) ys"
  by (induction xs arbitrary: k) auto

lemma sent_items_all:
  "(\<And>i. k \<le> i \<Longrightarrow> i < k + length xs \<Longrightarrow> sends env i) \<Longrightarrow> sent_items env k xs = xs"
proof (induction xs arbitrary: k)
  case (Cons x xs)
  from Cons.prems [of k] Cons.IH [of "Suc k"] Cons.prems show ?case by auto
qed simp

lemma sent_items_calm [simp]: "calm env \<Longrightarrow> sent_items env k xs = xs"
  by (simp add: sent_items_all)

lemma sent_items_subseq: "subseq (sent_items env k xs) xs"
  by (induction xs arbitrary: k) auto

section \<open>Sources that call yield in a loop\<close>

text \<open>
  The loops of the bounded sources, by the call of \<^verbatim>\<open>yield\<close> they are at. \<^verbatim>\<open>FromIter\<close> ranges over the
  items of an iterator; \<^verbatim>\<open>Ticker\<close> and \<^verbatim>\<open>Timer\<close> wait for the clock or the context.
\<close>

fun from_iter_loop :: "gen_env \<Rightarrow> nat \<Rightarrow> 'a list \<Rightarrow> 'a generated" where
  "from_iter_loop env k [] = ([], None)"
| "from_iter_loop env k (item # seq) =
     (case ge_ctx env k of
        Some e \<Rightarrow> ([], Some e)
      | None \<Rightarrow>
          if \<not> goes_on env k then ([item], None)
          else (case from_iter_loop env (Suc k) seq of (calls, err) \<Rightarrow> (item # calls, err)))"

definition FromIter :: "gen_env \<Rightarrow> 'a list \<Rightarrow> 'a delivery" where
  "FromIter env seq = Generate env (from_iter_loop env 0 seq)"

text \<open>What the select of \<^verbatim>\<open>Ticker\<close> and \<^verbatim>\<open>Timer\<close> sees; a list of events that runs out is a wait.\<close>

datatype 'a clock_event = Tick 'a | CtxEnded go_error

fun ticker_loop :: "gen_env \<Rightarrow> nat \<Rightarrow> 'a clock_event list \<Rightarrow> 'a generated option" where
  "ticker_loop env k [] = None"
| "ticker_loop env k (Tick t # es) =
     (if \<not> goes_on env k then Some ([t], None)
      else map_option (\<lambda>(calls, err). (t # calls, err)) (ticker_loop env (Suc k) es))"
| "ticker_loop env k (CtxEnded e # es) = Some ([], Some e)"

definition Ticker :: "gen_env \<Rightarrow> 'a clock_event list \<Rightarrow> 'a delivery option" where
  "Ticker env es = map_option (Generate env) (ticker_loop env 0 es)"

fun timer_fn :: "'a \<Rightarrow> unit clock_event list \<Rightarrow> 'a generated option" where
  "timer_fn v [] = None"
| "timer_fn v (Tick _ # es) = Some ([v], None)"
| "timer_fn v (CtxEnded e # es) = Some ([], Some e)"

definition Timer :: "gen_env \<Rightarrow> 'a \<Rightarrow> unit clock_event list \<Rightarrow> 'a delivery option" where
  "Timer env v es = map_option (Generate env) (timer_fn v es)"

definition Empty :: "gen_env \<Rightarrow> 'a delivery" where
  "Empty env = Generate env ([], None)"

fun never_fn :: "unit clock_event list \<Rightarrow> 'a generated option" where
  "never_fn [] = None"
| "never_fn (Tick _ # es) = never_fn es"
| "never_fn (CtxEnded e # es) = Some ([], Some e)"

definition Never :: "gen_env \<Rightarrow> unit clock_event list \<Rightarrow> 'a delivery option" where
  "Never env es = map_option (Generate env) (never_fn es)"

text \<open>
  The loops that end only when \<^verbatim>\<open>yield\<close> refuses run on fuel: \<^verbatim>\<open>None\<close> is a loop still going.
  \<^verbatim>\<open>Repeatedly\<close> calls a function with effects, whose \<^verbatim>\<open>k\<close>-th call gives \<^verbatim>\<open>fn k\<close>.
\<close>

fun unfold_loop :: "nat \<Rightarrow> gen_env \<Rightarrow> nat \<Rightarrow> ('s \<Rightarrow> 'a \<times> 's \<times> bool) \<Rightarrow> 's \<Rightarrow> 'a generated option" where
  "unfold_loop 0 env k fn acc = None"
| "unfold_loop (Suc fuel) env k fn acc =
     (case fn acc of (val, nxt, stop) \<Rightarrow>
        if stop then Some ([], None)
        else if \<not> goes_on env k then Some ([val], None)
        else map_option (\<lambda>(calls, err). (val # calls, err)) (unfold_loop fuel env (Suc k) fn nxt))"

definition Unfold :: "nat \<Rightarrow> gen_env \<Rightarrow> 's \<Rightarrow> ('s \<Rightarrow> 'a \<times> 's \<times> bool) \<Rightarrow> 'a delivery option" where
  "Unfold fuel env seed fn = map_option (Generate env) (unfold_loop fuel env 0 fn seed)"

fun iterate_loop :: "nat \<Rightarrow> gen_env \<Rightarrow> nat \<Rightarrow> ('a \<Rightarrow> 'a) \<Rightarrow> 'a \<Rightarrow> 'a generated option" where
  "iterate_loop 0 env k fn cur = None"
| "iterate_loop (Suc fuel) env k fn cur =
     (if \<not> goes_on env k then Some ([cur], None)
      else map_option (\<lambda>(calls, err). (cur # calls, err)) (iterate_loop fuel env (Suc k) fn (fn cur)))"

definition Iterate :: "nat \<Rightarrow> gen_env \<Rightarrow> 'a \<Rightarrow> ('a \<Rightarrow> 'a) \<Rightarrow> 'a delivery option" where
  "Iterate fuel env seed fn = map_option (Generate env) (iterate_loop fuel env 0 fn seed)"

fun repeatedly_loop :: "nat \<Rightarrow> gen_env \<Rightarrow> nat \<Rightarrow> (nat \<Rightarrow> 'a) \<Rightarrow> 'a generated option" where
  "repeatedly_loop 0 env k fn = None"
| "repeatedly_loop (Suc fuel) env k fn =
     (if \<not> goes_on env k then Some ([fn k], None)
      else map_option (\<lambda>(calls, err). (fn k # calls, err)) (repeatedly_loop fuel env (Suc k) fn))"

definition Repeatedly :: "nat \<Rightarrow> gen_env \<Rightarrow> (nat \<Rightarrow> 'a) \<Rightarrow> 'a delivery option" where
  "Repeatedly fuel env fn = map_option (Generate env) (repeatedly_loop fuel env 0 fn)"

text \<open>The rest of the current round, then the next round of the outer loop.\<close>

fun cycle_loop :: "nat \<Rightarrow> gen_env \<Rightarrow> nat \<Rightarrow> 'a list \<Rightarrow> 'a list \<Rightarrow> 'a generated option" where
  "cycle_loop 0 env k elems rest = None"
| "cycle_loop (Suc fuel) env k elems [] = cycle_loop fuel env k elems elems"
| "cycle_loop (Suc fuel) env k elems (item # rest) =
     (case ge_ctx env k of
        Some e \<Rightarrow> Some ([], Some e)
      | None \<Rightarrow>
          if \<not> goes_on env k then Some ([item], None)
          else map_option (\<lambda>(calls, err). (item # calls, err)) (cycle_loop fuel env (Suc k) elems rest))"

datatype 'a source = SourcePanics string | Source 'a

definition Cycle :: "nat \<Rightarrow> gen_env \<Rightarrow> 'a list \<Rightarrow> 'a delivery option source" where
  "Cycle fuel env elems =
     (if elems = [] then SourcePanics ''kitsune: Cycle requires a non-empty slice''
      else Source (map_option (Generate env) (cycle_loop fuel env 0 elems elems)))"

section \<open>Correctness of the sources\<close>

text \<open>The generator's first refusal, or a consumer that left after the send, is at call \<^verbatim>\<open>n\<close>.\<close>

definition stops_at :: "gen_env \<Rightarrow> nat \<Rightarrow> bool" where
  "stops_at env n = ((\<forall>k < n. goes_on env k) \<and> \<not> goes_on env n)"

lemma iterate_loop_stops:
  "(\<And>i. k \<le> i \<Longrightarrow> i < n \<Longrightarrow> goes_on env i) \<Longrightarrow> \<not> goes_on env n \<Longrightarrow> k \<le> n \<Longrightarrow> n - k < fuel \<Longrightarrow>
   iterate_loop fuel env k fn cur = Some (map (\<lambda>i. (fn ^^ (i - k)) cur) [k..<Suc n], None)"
proof (induction fuel arbitrary: k cur)
  case (Suc fuel)
  show ?case
  proof (cases "k = n")
    case False
    then have k: "k < n" using Suc.prems by simp
    have "map (\<lambda>i. (fn ^^ (i - Suc k)) (fn cur)) [Suc k..<Suc n] = map (\<lambda>i. (fn ^^ (i - k)) cur) [Suc k..<Suc n]"
    proof (rule map_cong [OF refl])
      fix i assume "i \<in> set [Suc k..<Suc n]"
      then have "i - k = Suc (i - Suc k)" by auto
      then show "(fn ^^ (i - Suc k)) (fn cur) = (fn ^^ (i - k)) cur" by (simp add: funpow_Suc_right del: funpow.simps(2))
    qed
    moreover have "iterate_loop fuel env (Suc k) fn (fn cur) =
        Some (map (\<lambda>i. (fn ^^ (i - Suc k)) (fn cur)) [Suc k..<Suc n], None)"
      using Suc.prems k by (intro Suc.IH) auto
    ultimately show ?thesis using Suc.prems k by (simp add: upt_conv_Cons del: upt_Suc)
  qed (use Suc.prems in simp)
qed simp

lemma iterate_loop_never:
  "(\<And>i. k \<le> i \<Longrightarrow> goes_on env i) \<Longrightarrow> iterate_loop fuel env k fn cur = None"
  by (induction fuel arbitrary: k cur) auto

lemma iterate_calm: "calm env \<Longrightarrow> Iterate fuel env seed fn = None"
  by (simp add: Iterate_def iterate_loop_never)

lemma repeatedly_loop_stops:
  "(\<And>i. k \<le> i \<Longrightarrow> i < n \<Longrightarrow> goes_on env i) \<Longrightarrow> \<not> goes_on env n \<Longrightarrow> k \<le> n \<Longrightarrow> n - k < fuel \<Longrightarrow>
   repeatedly_loop fuel env k fn = Some (map fn [k..<Suc n], None)"
proof (induction fuel arbitrary: k)
  case (Suc fuel)
  show ?case
  proof (cases "k = n")
    case False
    then have k: "k < n" using Suc.prems by simp
    moreover have "repeatedly_loop fuel env (Suc k) fn = Some (map fn [Suc k..<Suc n], None)"
      using Suc.prems k by (intro Suc.IH) auto
    ultimately show ?thesis using Suc.prems by (simp add: upt_conv_Cons del: upt_Suc)
  qed (use Suc.prems in simp)
qed simp

text \<open>
  \<^verbatim>\<open>Cycle\<close>: \<^verbatim>\<open>rest\<close> is where in the round the loop stands. Two units of fuel per call are enough, one
  for the call and one to start a round.
\<close>

lemma cycle_loop_stops:
  assumes "\<And>i. ge_ctx env i = None" and "elems \<noteq> []"
  shows "(\<And>i. k \<le> i \<Longrightarrow> i < n \<Longrightarrow> goes_on env i) \<Longrightarrow> \<not> goes_on env n \<Longrightarrow> k \<le> n \<Longrightarrow> 2 * (n - k) + 1 < fuel \<Longrightarrow>
    d < length elems \<Longrightarrow> rest = drop d elems \<Longrightarrow> k mod length elems = d \<Longrightarrow>
    cycle_loop fuel env k elems rest = Some (map (\<lambda>i. elems ! (i mod length elems)) [k..<Suc n], None)"
proof (induction "n - k" arbitrary: k fuel d rest)
  case 0
  then obtain f where "fuel = Suc f" and "k = n" by (cases fuel) auto
  with 0 assms show ?case by (simp add: Cons_nth_drop_Suc [symmetric])
next
  case (Suc m)
  then have k: "k < n" and go: "goes_on env k" by auto
  from Suc.prems obtain f where f: "fuel = Suc f" by (cases fuel) auto
  have m: "m = n - Suc k" using Suc.hyps(2) by simp
  have "cycle_loop f env (Suc k) elems (drop (Suc d) elems) =
      Some (map (\<lambda>i. elems ! (i mod length elems)) [Suc k..<Suc n], None)"
  proof (cases "Suc d < length elems")
    case True
    with Suc.prems k f show ?thesis
      by (intro Suc.hyps(1) [OF m, of _ "Suc d"]) (auto simp: mod_Suc)
  next
    case False
    with Suc.prems have d: "Suc d = length elems" by simp
    from Suc.prems k f obtain f' where f': "f = Suc f'" by (cases f) auto
    have "cycle_loop f' env (Suc k) elems elems =
        Some (map (\<lambda>i. elems ! (i mod length elems)) [Suc k..<Suc n], None)"
      using Suc.prems k f f' d assms by (intro Suc.hyps(1) [OF m, of _ 0]) (auto simp: mod_Suc)
    with d f' show ?thesis by simp
  qed
  with Suc.prems k go f assms show ?case
    by (simp add: Cons_nth_drop_Suc [symmetric] upt_conv_Cons del: upt_Suc)
qed

lemma stops_at_iterate:
  "stops_at env n \<Longrightarrow> n < fuel \<Longrightarrow>
   iterate_loop fuel env 0 fn seed = Some (map (\<lambda>i. (fn ^^ i) seed) [0..<Suc n], None)"
  using iterate_loop_stops [of 0 n env fuel fn seed] by (simp add: stops_at_def)

lemma stops_at_repeatedly:
  "stops_at env n \<Longrightarrow> n < fuel \<Longrightarrow> repeatedly_loop fuel env 0 fn = Some (map fn [0..<Suc n], None)"
  using repeatedly_loop_stops [of 0 n env fuel fn] by (simp add: stops_at_def)

lemma stops_at_cycle:
  assumes "stops_at env n" and "2 * n + 1 < fuel" and "\<And>i. ge_ctx env i = None" and "elems \<noteq> []"
  shows "cycle_loop fuel env 0 elems elems = Some (map (\<lambda>i. elems ! (i mod length elems)) [0..<Suc n], None)"
  by (rule cycle_loop_stops [OF assms(3,4), of 0 n fuel 0]) (use assms in \<open>auto simp: stops_at_def\<close>)

lemma sent_items_until:
  "stops_at env n \<Longrightarrow> length xs = Suc n \<Longrightarrow>
   sent_items env 0 xs = (if sends env n then xs else butlast xs)"
proof -
  assume st: "stops_at env n" and len: "length xs = Suc n"
  obtain ys y where xs: "xs = ys @ [y]" and ys: "length ys = n"
    using len by (cases xs rule: rev_cases) auto
  have "sent_items env 0 ys = ys"
    using st ys by (intro sent_items_all) (auto simp: stops_at_def goes_on_sends)
  with xs ys show ?thesis by (simp add: sent_items_append)
qed

text \<open>
  The sources that never end by themselves: they stop at the first call of \<^verbatim>\<open>yield\<close> that answers
  false, with the items asked for by then and no error.
\<close>

theorem endless_sources_stop:
  fixes fn :: "'a \<Rightarrow> 'a" and gn :: "nat \<Rightarrow> 'b" and elems :: "'c list"
  assumes "stops_at env n" and "2 * n + 1 < fuel" and "\<And>i. ge_ctx env i = None" and "elems \<noteq> []"
  shows "Iterate fuel env seed fn =
           Some (map (\<lambda>i. (fn ^^ i) seed) [0..<(if sends env n then Suc n else n)], None)
       \<and> Repeatedly fuel env gn = Some (map gn [0..<(if sends env n then Suc n else n)], None)
       \<and> Cycle fuel env elems =
           Source (Some (map (\<lambda>i. elems ! (i mod length elems)) [0..<(if sends env n then Suc n else n)], None))"
  using assms stops_at_cycle [OF assms]
  by (simp add: Iterate_def Repeatedly_def Cycle_def stops_at_iterate stops_at_repeatedly Generate_def
      is_canceled_def sent_items_until)

definition stop_env :: "nat \<Rightarrow> gen_env" where
  "stop_env n = \<lparr>ge_yield = (\<lambda>k. if k < n then FastSent True else FastDrain), ge_ctx = (\<lambda>_. None),
                 ge_parent = None, ge_lag = 0\<rparr>"

definition calm_env :: gen_env where
  "calm_env = \<lparr>ge_yield = (\<lambda>_. FastSent True), ge_ctx = (\<lambda>_. None), ge_parent = None, ge_lag = 0\<rparr>"

lemma calm_calm_env [simp]: "calm calm_env"
  by (simp add: calm_def calm_env_def goes_on_def)

lemma stops_at_stop_env [simp]: "stops_at (stop_env n) n"
  by (simp add: stops_at_def stop_env_def goes_on_def)

lemma sends_stop_env: "\<not> sends (stop_env n) n" "ge_ctx (stop_env n) k = None"
  by (simp_all add: stop_env_def sends_def)

theorem endless_sources_stop_witness:
  "Iterate 10 (stop_env 3) (1::int) (\<lambda>x. x * 2) = Some ([1, 2, 4], None)
   \<and> Cycle 10 (stop_env 3) ''ab'' = Source (Some (''aba'', None))"
  using endless_sources_stop [OF stops_at_stop_env, where fuel = 10 and seed = "1::int"
      and fn = "\<lambda>x. x * 2" and elems = "''ab''" and gn = "\<lambda>k. k"]
  by (simp add: sends_stop_env upt_rec)

section \<open>Generators that run a pipeline of their own\<close>

text \<open>
  \<^verbatim>\<open>p.ForEach(...).Run(innerCtx)\<close> with the callback all of these share: every item goes to \<^verbatim>\<open>yield\<close>,
  and when it answers false the inner context is cancelled and \<^verbatim>\<open>stopped\<close> set. The callback returns
  nil all the same, so the inner run may hand on a few more items before it sees the cancellation.
  \<^verbatim>\<open>i\<close> is the number of calls of \<^verbatim>\<open>yield\<close> made before; the run's error is not read once stopped.
\<close>

datatype 'a inner = Stopped "'a list" | Ended "'a list" "go_error option"

definition inner_run :: "gen_env \<Rightarrow> nat \<Rightarrow> 'a delivery \<Rightarrow> 'a inner" where
  "inner_run env i p =
     (let n = length (takeWhile (goes_on env) [i..<i + length (fst p)])
      in if n < length (fst p) then Stopped (take (Suc n + ge_lag env) (fst p)) else Ended (fst p) (snd p))"

fun concat_loop :: "gen_env \<Rightarrow> nat \<Rightarrow> nat \<Rightarrow> 'a delivery list \<Rightarrow> 'a generated" where
  "concat_loop env i j [] = ([], None)"
| "concat_loop env i j (factory # factories) =
     (case inner_run env i factory of
        Stopped calls \<Rightarrow> (calls, None)
      | Ended calls err \<Rightarrow>
          if err \<noteq> None \<and> \<not> is_canceled err then (calls, err)
          else (case ge_ctx env j of
                  Some e \<Rightarrow> (calls, Some e)
                | None \<Rightarrow>
                    (case concat_loop env (i + length calls) (Suc j) factories of
                       (calls', err') \<Rightarrow> (calls @ calls', err'))))"

definition Concat :: "gen_env \<Rightarrow> 'a delivery list \<Rightarrow> 'a delivery" where
  "Concat env factories = Generate env (concat_loop env 0 0 factories)"

definition StartWith :: "gen_env \<Rightarrow> 'a delivery \<Rightarrow> 'a list \<Rightarrow> 'a delivery" where
  "StartWith env p prefix_items =
     (if prefix_items = [] then p else Concat env [(prefix_items, None), p])"

definition EndWith :: "gen_env \<Rightarrow> 'a delivery \<Rightarrow> 'a list \<Rightarrow> 'a delivery" where
  "EndWith env p suffix_items =
     (if suffix_items = [] then p else Concat env [p, (suffix_items, None)])"

definition catch_fn :: "gen_env \<Rightarrow> 'a delivery \<Rightarrow> (go_error \<Rightarrow> 'a delivery) \<Rightarrow> 'a generated" where
  "catch_fn env p fn =
     (case inner_run env 0 p of
        Stopped calls \<Rightarrow> (calls, None)
      | Ended calls None \<Rightarrow> (calls, None)
      | Ended calls (Some err) \<Rightarrow>
          (case ge_ctx env 0 of
             Some e \<Rightarrow> (calls, Some e)
           | None \<Rightarrow>
               (case inner_run env (length calls) (fn err) of
                  Stopped calls' \<Rightarrow> (calls @ calls', None)
                | Ended calls' err2 \<Rightarrow>
                    (calls @ calls', if is_canceled err2 \<and> ge_ctx env 1 = None then None else err2))))"

definition Catch :: "gen_env \<Rightarrow> 'a delivery \<Rightarrow> (go_error \<Rightarrow> 'a delivery) \<Rightarrow> 'a delivery" where
  "Catch env p fn = Generate env (catch_fn env p fn)"

text \<open>The second component lists the resources released.\<close>

fun using_fn :: "gen_env \<Rightarrow> 'r result \<Rightarrow> ('r \<Rightarrow> 'a delivery) \<Rightarrow> 'a generated \<times> 'r list" where
  "using_fn env (Inl err) build = (([], Some err), [])"
| "using_fn env (Inr res) build =
     ((case inner_run env 0 (build res) of
         Stopped calls \<Rightarrow> (calls, None)
       | Ended calls err \<Rightarrow> (calls, err)), [res])"

definition Using :: "gen_env \<Rightarrow> 'r result \<Rightarrow> ('r \<Rightarrow> 'a delivery) \<Rightarrow> 'a delivery \<times> 'r list" where
  "Using env acquire build =
     (case using_fn env acquire build of (g, released) \<Rightarrow> (Generate env g, released))"

text \<open>The second component lists the errors the user's function is called with.\<close>

definition tap_error_fn :: "gen_env \<Rightarrow> 'a delivery \<Rightarrow> 'a generated \<times> go_error list" where
  "tap_error_fn env p =
     (case inner_run env 0 p of
        Stopped calls \<Rightarrow> ((calls, None), [])
      | Ended calls err \<Rightarrow>
          ((calls, err),
           case err of None \<Rightarrow> [] | Some e \<Rightarrow> if ge_ctx env 0 = None then [e] else []))"

definition TapError :: "gen_env \<Rightarrow> 'a delivery \<Rightarrow> 'a delivery \<times> go_error list" where
  "TapError env p = (case tap_error_fn env p of (g, seen) \<Rightarrow> (Generate env g, seen))"

definition finally_fn :: "gen_env \<Rightarrow> 'a delivery \<Rightarrow> 'a generated \<times> go_error option list" where
  "finally_fn env p =
     (case inner_run env 0 p of
        Stopped calls \<Rightarrow> ((calls, None), [None])
      | Ended calls err \<Rightarrow> ((calls, err), [err]))"

definition Finally :: "gen_env \<Rightarrow> 'a delivery \<Rightarrow> 'a delivery \<times> go_error option list" where
  "Finally env p = (case finally_fn env p of (g, seen) \<Rightarrow> (Generate env g, seen))"

definition IgnoreElements :: "gen_env \<Rightarrow> 'a delivery \<Rightarrow> 'a delivery" where
  "IgnoreElements env p = Generate env ([], snd p)"

section \<open>Notifications\<close>

record 'a notification =
  n_value :: 'a
  n_err :: "go_error option"
  n_done :: bool

definition IsValue :: "'a notification \<Rightarrow> bool" where
  "IsValue n = (\<not> n_done n \<and> n_err n = None)"

definition IsError :: "'a notification \<Rightarrow> bool" where
  "IsError n = (n_done n \<and> n_err n \<noteq> None)"

definition IsComplete :: "'a notification \<Rightarrow> bool" where
  "IsComplete n = (n_done n \<and> n_err n = None)"

definition NextNotification :: "'a \<Rightarrow> 'a notification" where
  "NextNotification v = \<lparr>n_value = v, n_err = None, n_done = False\<rparr>"

definition ErrorNotification :: "'a \<Rightarrow> go_error \<Rightarrow> 'a notification" where
  "ErrorNotification zero err = \<lparr>n_value = zero, n_err = Some err, n_done = True\<rparr>"

definition CompleteNotification :: "'a \<Rightarrow> 'a notification" where
  "CompleteNotification zero = \<lparr>n_value = zero, n_err = None, n_done = True\<rparr>"

definition materialize_fn :: "gen_env \<Rightarrow> 'a \<Rightarrow> 'a delivery \<Rightarrow> 'a notification generated" where
  "materialize_fn env zero p =
     (case inner_run env 0 p of
        Stopped calls \<Rightarrow> (map NextNotification calls, None)
      | Ended calls err \<Rightarrow>
          (case ge_ctx env 0 of
             Some e \<Rightarrow> (map NextNotification calls, Some e)
           | None \<Rightarrow>
               (map NextNotification calls @
                [case err of Some e \<Rightarrow> ErrorNotification zero e | None \<Rightarrow> CompleteNotification zero], None)))"

definition Materialize :: "gen_env \<Rightarrow> 'a \<Rightarrow> 'a delivery \<Rightarrow> 'a notification delivery" where
  "Materialize env zero p = Generate env (materialize_fn env zero p)"

fun dematerialize_step :: "string \<Rightarrow> unit \<Rightarrow> 'a notification recv \<Rightarrow> (unit, 'a) act" where
  "dematerialize_step name u Closed = Act [] (Return None)"
| "dematerialize_step name u (Item n) =
     (if n_err n \<noteq> None then Act [] (Return (WrapStageErr name (n_err n) 0))
      else if n_done n then Act [] (Return None)
      else Act [n_value n] (Continue ()))"

definition Dematerialize ::
  "('c, 'v) stage_config \<Rightarrow> stage_id \<Rightarrow> stage_id \<Rightarrow> (unit, 'a notification recv, 'a) operator" where
  "Dematerialize cfg i p =
     unary ''dematerialize'' cfg i p (select_loop () (dematerialize_step (cfg_name cfg)))"

section \<open>Correctness of the inner runs\<close>

lemma inner_run_calm [simp]: "calm env \<Longrightarrow> inner_run env i p = Ended (fst p) (snd p)"
  by (simp add: inner_run_def takeWhile_eq_all_conv [THEN iffD2])

lemma inner_run_Stopped: "inner_run env i p = Stopped calls \<Longrightarrow> prefix calls (fst p)"
  by (auto simp: inner_run_def Let_def take_is_prefix split: if_splits)

lemma inner_run_Ended: "inner_run env i p = Ended calls err \<Longrightarrow> calls = fst p \<and> err = snd p"
  by (auto simp: inner_run_def Let_def split: if_splits)

text \<open>What \<^verbatim>\<open>Generate\<close> makes of an error when the run itself was not cancelled.\<close>

definition hide_canceled :: "go_error option \<Rightarrow> go_error option" where
  "hide_canceled err = (if is_canceled err then None else err)"

lemma hide_canceled_simps [simp]:
  "hide_canceled None = None" "hide_canceled (hide_canceled e) = hide_canceled e"
  "\<not> is_canceled e \<Longrightarrow> hide_canceled e = e" "is_canceled e \<Longrightarrow> hide_canceled e = None"
  by (auto simp: hide_canceled_def is_canceled_def)

lemma not_canceled_None [simp]: "\<not> is_canceled None"
  by (simp add: is_canceled_def)

lemma Generate_calm [simp]: "calm env \<Longrightarrow> Generate env g = (fst g, hide_canceled (snd g))"
  by (simp add: Generate_def hide_canceled_def)

lemma Generate_subseq: "subseq (fst g) ys \<Longrightarrow> subseq (fst (Generate env g)) ys"
  by (auto simp: Generate_def intro: subseq_order.trans [OF sent_items_subseq])

lemma prefix_subseq: "prefix xs ys \<Longrightarrow> subseq xs ys"
  by (auto simp: prefix_def)

lemma Generate_prefix: "prefix (fst g) ys \<Longrightarrow> subseq (fst (Generate env g)) ys"
  by (intro Generate_subseq prefix_subseq)

text \<open>
  An operator that only relays a pipeline: whatever happens to the run, its items come out in
  order and none is made up; undisturbed, all of them come out, with the pipeline's error unless
  that is a cancellation.
\<close>

locale relay =
  fixes op :: "gen_env \<Rightarrow> 'a delivery \<Rightarrow> 'a delivery"
  assumes relays: "calm env \<Longrightarrow> op env p = (fst p, hide_canceled (snd p))"
    and in_order: "subseq (fst (op env p)) (fst p)"
begin

lemma transparent: "calm env \<Longrightarrow> \<not> is_canceled (snd p) \<Longrightarrow> op env p = p"
  by (cases p) (simp add: relays)

lemma swallows: "calm env \<Longrightarrow> errors_is e Canceled \<Longrightarrow> op env (xs, Some e) = (xs, None)"
  by (simp add: relays is_canceled_def)

lemma twice: "calm env \<Longrightarrow> op env (op env p) = op env p"
  by (simp add: relays)

lemma no_new_items: "set (fst (op env p)) \<subseteq> set (fst p)"
  by (auto elim!: list_emb_set [OF in_order])

end

lemma inner_calls_subseq:
  "subseq (case inner_run env i p of Stopped calls \<Rightarrow> calls | Ended calls err \<Rightarrow> calls) (fst p)"
  by (auto split: inner.splits dest: inner_run_Stopped inner_run_Ended intro: prefix_subseq)

interpretation using_op: relay "\<lambda>env p. fst (Using env (Inr res) (\<lambda>_. p))" for res :: 'r
proof
  fix env :: gen_env and p :: "'a delivery"
  show "calm env \<Longrightarrow> fst (Using env (Inr res) (\<lambda>_. p)) = (fst p, hide_canceled (snd p))"
    by (simp add: Using_def)
  show "subseq (fst (fst (Using env (Inr res) (\<lambda>_. p)))) (fst p)"
    using inner_calls_subseq [of env 0 p]
    by (auto simp: Using_def split: inner.splits intro: Generate_subseq)
qed

interpretation tap_error: relay "\<lambda>env p. fst (TapError env p)"
proof
  fix env :: gen_env and p :: "'a delivery"
  show "calm env \<Longrightarrow> fst (TapError env p) = (fst p, hide_canceled (snd p))"
    by (simp add: TapError_def tap_error_fn_def)
  show "subseq (fst (fst (TapError env p))) (fst p)"
    using inner_calls_subseq [of env 0 p]
    by (auto simp: TapError_def tap_error_fn_def split: inner.splits intro: Generate_subseq)
qed

interpretation finally_op: relay "\<lambda>env p. fst (Finally env p)"
proof
  fix env :: gen_env and p :: "'a delivery"
  show "calm env \<Longrightarrow> fst (Finally env p) = (fst p, hide_canceled (snd p))"
    by (simp add: Finally_def finally_fn_def)
  show "subseq (fst (fst (Finally env p))) (fst p)"
    using inner_calls_subseq [of env 0 p]
    by (auto simp: Finally_def finally_fn_def split: inner.splits intro: Generate_subseq)
qed

subsection \<open>Concat\<close>

text \<open>The reference: the pipelines one after the other, up to the first that fails.\<close>

fun until_failure :: "'a delivery list \<Rightarrow> 'a delivery" where
  "until_failure [] = ([], None)"
| "until_failure (p # ps) =
     (if hide_canceled (snd p) \<noteq> None then p else (fst p @ fst (until_failure ps), snd (until_failure ps)))"

lemma hide_canceled_None: "hide_canceled e = None \<longleftrightarrow> e = None \<or> is_canceled e"
  by (auto simp: hide_canceled_def)

lemma until_failure_error: "\<not> is_canceled (snd (until_failure ps))"
  by (induction ps) (auto simp: hide_canceled_None)

lemma concat_loop_calm: "calm env \<Longrightarrow> concat_loop env i j ps = until_failure ps"
  by (induction ps arbitrary: i j) (auto simp: hide_canceled_None case_prod_beta)

lemma concat_loop_subseq: "subseq (fst (concat_loop env i j ps)) (concat (map fst ps))"
proof (induction ps arbitrary: i j)
  case (Cons p ps)
  show ?case
  proof (cases "inner_run env i p")
    case (Stopped calls)
    then show ?thesis by (simp add: prefix_subseq prefix_prefix inner_run_Stopped)
  next
    case (Ended calls err)
    from inner_run_Ended [OF this] have "calls = fst p" by simp
    with Ended Cons show ?thesis
      by (auto simp: case_prod_beta list_emb_append_mono prefix_subseq split: option.splits)
  qed
qed simp

interpretation concat_one: relay "\<lambda>env p. Concat env [p]"
proof
  fix env :: gen_env and p :: "'a delivery"
  show "calm env \<Longrightarrow> Concat env [p] = (fst p, hide_canceled (snd p))"
    by (auto simp: Concat_def concat_loop_calm hide_canceled_None)
  show "subseq (fst (Concat env [p])) (fst p)"
    using concat_loop_subseq [of env 0 0 "[p]"] by (auto simp: Concat_def intro: Generate_subseq)
qed

lemma concat_calm: "calm env \<Longrightarrow> Concat env ps = until_failure ps"
  using until_failure_error [of ps] by (cases "until_failure ps") (simp add: Concat_def concat_loop_calm)

text \<open>
  \<^verbatim>\<open>Concat\<close>, undisturbed, is the pipelines one after the other up to the first that fails with an
  error other than a cancellation; \<^verbatim>\<open>StartWith\<close> and \<^verbatim>\<open>EndWith\<close> put their items in front and behind.
  Whatever happens to the run, no item is made up, repeated or out of order.
\<close>

theorem concat_in_order:
  assumes "calm env"
  shows "Concat env ps = until_failure ps
       \<and> fst (StartWith env p zs) = zs @ fst p
       \<and> fst (EndWith env p zs) = (if hide_canceled (snd p) = None then fst p @ zs else fst p)
       \<and> subseq (fst (Concat wild ps)) (concat (map fst ps))"
  using assms concat_loop_subseq [of wild 0 0 ps]
  by (auto simp: concat_calm StartWith_def EndWith_def hide_canceled_None Concat_def [of wild]
      intro: Generate_subseq)

theorem concat_in_order_witness:
  "Concat calm_env [([1::int, 2], None), ([3], Some (Plain ''x'')), ([4], None)] = ([1, 2, 3], Some (Plain ''x''))
   \<and> fst (StartWith calm_env ([1::int], None) [7, 8]) = [7, 8, 1]"
  using concat_in_order [OF calm_calm_env, of "[([1::int, 2], None), ([3], Some (Plain ''x'')), ([4], None)]"
      "([1], None)" "[7::int, 8]" calm_env]
  by (simp add: hide_canceled_def is_canceled_def)

text \<open>
  \<^verbatim>\<open>Catch\<close> keeps the items of the failed primary and goes on with the fallback; a primary that
  ends without an error, and a run that stopped or was cancelled, never start the fallback.
\<close>

theorem catch_falls_back:
  assumes "calm env"
  shows "Catch env (xs, None) fn = (xs, None)
       \<and> Catch env (xs, Some e) fn = (xs @ fst (fn e), hide_canceled (snd (fn e)))
       \<and> Catch (env\<lparr>ge_ctx := \<lambda>_. Some c, ge_parent := Some c\<rparr>) (xs, Some e) fn = (xs, Some c)
       \<and> (inner_run wild 0 (xs, Some e) \<noteq> Stopped calls \<or>
           Catch wild (xs, Some e) fn = Catch wild (xs, Some e) fn')"
proof (intro conjI)
  let ?env = "env\<lparr>ge_ctx := \<lambda>_. Some c, ge_parent := Some c\<rparr>"
  have go: "goes_on ?env = goes_on env" and sd: "sends ?env = sends env"
    by (auto simp: goes_on_def sends_def fun_eq_iff)
  have "inner_run ?env 0 (xs, Some e) = Ended xs (Some e)"
    using assms by (simp add: inner_run_def go takeWhile_eq_all_conv [THEN iffD2])
  moreover have "sent_items ?env 0 xs = xs"
    using assms by (simp add: sent_items_all sd)
  ultimately show "Catch ?env (xs, Some e) fn = (xs, Some c)"
    by (simp add: Catch_def catch_fn_def Generate_def)
qed (use assms in \<open>auto simp: Catch_def catch_fn_def split: inner.splits option.splits\<close>)

theorem catch_falls_back_witness:
  "Catch calm_env ([1::int, 2], Some (Plain ''x'')) (\<lambda>e. ([8, 9], None)) = ([1, 2, 8, 9], None)"
  using catch_falls_back [OF calm_calm_env, of "[1::int, 2]" "\<lambda>e. ([8, 9], None)" "Plain ''x''"]
  by simp

text \<open>
  However the run goes, \<^verbatim>\<open>Using\<close> releases an acquired resource once and only then, and \<^verbatim>\<open>Finally\<close>
  calls its function once, \<^verbatim>\<open>TapError\<close> at most once and never without an error of the pipeline.
\<close>

theorem cleanup_exactly_once:
  "snd (Using env (Inr res) build) = [res]
   \<and> Using env (Inl err) build' =
       (([], if is_canceled (Some err) \<and> ge_parent env = None then None else Some err), [])
   \<and> length (snd (Finally env p)) = 1
   \<and> length (snd (TapError env p)) \<le> 1
   \<and> set (snd (TapError env p)) \<subseteq> set_option (snd p)
   \<and> snd (TapError env (xs, None)) = []"
  by (auto simp: Using_def Finally_def finally_fn_def TapError_def tap_error_fn_def Generate_def
      hide_canceled_def is_canceled_def
      split: inner.splits option.splits if_splits dest: inner_run_Ended)

text \<open>
  An error of the pipeline that wraps a cancellation, while nothing of the run was cancelled, does
  not come out of any operator built on \<^verbatim>\<open>Generate\<close>: the truncated stream ends as a success, although
  the callback of \<^verbatim>\<open>TapError\<close> or \<^verbatim>\<open>Finally\<close> has just been given the error.
\<close>

theorem canceled_error_swallowed:
  assumes "calm env" and "errors_is e Canceled"
  shows "TapError env (xs, Some e) = ((xs, None), [e])
       \<and> Finally env (xs, Some e) = ((xs, None), [Some e])
       \<and> Using env (Inr res) (\<lambda>_. (xs, Some e)) = ((xs, None), [res])
       \<and> IgnoreElements env (xs, Some e) = ([], None)
       \<and> Concat env [(xs, Some e), q] = (xs @ fst q, hide_canceled (snd q))"
  using assms
  by (auto simp: TapError_def tap_error_fn_def Finally_def finally_fn_def Using_def IgnoreElements_def
      is_canceled_def concat_calm hide_canceled_def)

theorem canceled_error_swallowed_witness:
  "TapError calm_env ([1::int], Some (Wrap ''rpc'' Canceled)) = (([1], None), [Wrap ''rpc'' Canceled])"
  using canceled_error_swallowed [OF calm_calm_env, of "Wrap ''rpc'' Canceled" "[1::int]" "()" "([], None)"] by simp

subsection \<open>Notifications\<close>

interpretation generate_op: relay "\<lambda>env p. Generate env (p :: 'a generated)"
proof
  fix env :: gen_env and p :: "'a delivery"
  show "calm env \<Longrightarrow> Generate env p = (fst p, hide_canceled (snd p))" by simp
  show "subseq (fst (Generate env p)) (fst p)" by (auto intro: Generate_subseq)
qed

lemma exec_dematerialize_values:
  "exec (select_loop s0 (dematerialize_step name)) u (map (Item \<circ> NextNotification) xs @ es) =
     (xs @ fst (exec (select_loop s0 (dematerialize_step name)) () es),
      snd (exec (select_loop s0 (dematerialize_step name)) () es))"
  by (induction xs arbitrary: u) (auto simp: NextNotification_def settle_def case_prod_beta)

lemma materialize_calm:
  "calm env \<Longrightarrow> Materialize env zero p =
     (map NextNotification (fst p) @
      [case snd p of Some e \<Rightarrow> ErrorNotification zero e | None \<Rightarrow> CompleteNotification zero], None)"
  by (simp add: Materialize_def materialize_fn_def)

text \<open>
  \<^verbatim>\<open>Dematerialize\<close> undoes \<^verbatim>\<open>Materialize\<close>: the items come back in order and the error comes back,
  wrapped with the name of the stage; what follows the terminal notification is never read.
\<close>

theorem materialize_roundtrip:
  assumes "calm env"
  shows "exec (op_loop (Dematerialize cfg i j)) () (map Item (fst (Materialize env zero p)) @ es) =
           (fst p, Return (WrapStageErr (cfg_name cfg) (snd p) 0))"
  using assms
  by (auto simp: materialize_calm Dematerialize_def exec_dematerialize_values ErrorNotification_def
      CompleteNotification_def settle_def split: option.splits)

theorem materialize_roundtrip_witness:
  "exec (op_loop (Dematerialize (buildStageConfig [] :: (nat, nat) stage_config) 1 0)) ()
     (map Item (fst (Materialize calm_env 0 ([1::int, 2], Some (Plain ''x'')))) @ [Item (NextNotification 9), Closed]) =
     ([1, 2], Return (Some (StageError (cfg_name (buildStageConfig [] :: (nat, nat) stage_config)) 0 (Plain ''x''))))"
  using materialize_roundtrip [OF calm_calm_env, of "buildStageConfig [] :: (nat, nat) stage_config" 1 0 0
      "([1::int, 2], Some (Plain ''x''))" "[Item (NextNotification 9), Closed]"]
  by (simp add: WrapStageErr_def)

text \<open>The three kinds of notification exclude one another, and each constructor makes its kind.\<close>

lemma notification_kinds:
  "IsValue (NextNotification v)" "IsError (ErrorNotification z e)" "IsComplete (CompleteNotification z)"
  "\<not> (IsValue n \<and> IsError n)" "\<not> (IsValue n \<and> IsComplete n)" "\<not> (IsError n \<and> IsComplete n)"
  by (auto simp: IsValue_def IsError_def IsComplete_def NextNotification_def ErrorNotification_def
      CompleteNotification_def)

end
