(* ===== verification/Amb_Op.thy ===== *)
theory Amb_Op
  imports Source_Ops
begin

text \<open>
  \<^verbatim>\<open>Amb\<close> (\<^verbatim>\<open>source.go\<close>): of several pipelines the one that emits first, the others cancelled. With no
  or one factory it is a plain generator; with more it is a goroutine per factory, one more per
  factory that moves its items to a merged channel, and the loop that picks the winner.
\<close>

section \<open>No factory and one factory\<close>

text \<open>The callback returns \<^verbatim>\<open>context.Canceled\<close> when \<^verbatim>\<open>yield\<close> answers false, which ends the run there.\<close>

definition amb_single :: "gen_env \<Rightarrow> 'a delivery \<Rightarrow> 'a generated" where
  "amb_single env p =
     (let n = length (takeWhile (goes_on env) [0..<length (fst p)])
      in if n < length (fst p) then (take (Suc n) (fst p), None)
         else (fst p, if is_canceled (snd p) then None else snd p))"

fun Amb_few :: "gen_env \<Rightarrow> 'a delivery list \<Rightarrow> 'a delivery" where
  "Amb_few env [] = Generate env ([], None)"
| "Amb_few env (p # ps) = Generate env (amb_single env p)"

interpretation amb_one: relay "\<lambda>env p. Amb_few env [p]"
proof
  fix env :: gen_env and p :: "'a delivery"
  show "calm env \<Longrightarrow> Amb_few env [p] = (fst p, hide_canceled (snd p))"
    by (simp add: amb_single_def takeWhile_eq_all_conv [THEN iffD2])
  show "subseq (fst (Amb_few env [p])) (fst p)"
    by (auto simp: amb_single_def Let_def take_is_prefix intro!: Generate_prefix)
qed

section \<open>Several factories\<close>

text \<open>
  Goroutine \<^verbatim>\<open>i\<close> has in \<^verbatim>\<open>am_todo\<close> the items its run has still to hand to the callback;
  \<^verbatim>\<open>am_closed\<close> says that it has returned and closed \<^verbatim>\<open>chs[i]\<close>. Its fanner holds \<^verbatim>\<open>am_hand\<close> between
  the receive and the send; \<^verbatim>\<open>am_calls\<close> are the calls of \<^verbatim>\<open>yield\<close>, \<^verbatim>\<open>am_result\<close> the error returned.
  The run of a cancelled factory ends with a cancellation (contexts with a deadline are left out).
\<close>

record 'a amb =
  am_todo :: "nat \<Rightarrow> 'a list"
  am_ch :: "nat \<Rightarrow> 'a list"
  am_closed :: "nat \<Rightarrow> bool"
  am_hand :: "nat \<Rightarrow> 'a option"
  am_fanned :: "nat \<Rightarrow> bool"
  am_merged :: "(nat \<times> 'a) list"
  am_merged_closed :: bool
  am_cancelled :: "nat \<Rightarrow> bool"
  am_inner :: bool
  am_first_err :: "go_error option"
  am_winner :: "nat option"
  am_calls :: "'a list"
  am_result :: "go_error option option"

definition amb_init :: "(nat \<Rightarrow> 'a delivery) \<Rightarrow> 'a amb" where
  "amb_init runs =
     \<lparr>am_todo = (\<lambda>i. fst (runs i)), am_ch = (\<lambda>_. []), am_closed = (\<lambda>_. False), am_hand = (\<lambda>_. None),
      am_fanned = (\<lambda>_. False), am_merged = [], am_merged_closed = False, am_cancelled = (\<lambda>_. False),
      am_inner = False, am_first_err = None, am_winner = None, am_calls = [], am_result = None\<rparr>"

text \<open>The context of factory \<^verbatim>\<open>i\<close> has ended: its own cancel, or the inner context above it.\<close>

definition amb_ended :: "'a amb \<Rightarrow> nat \<Rightarrow> bool" where
  "amb_ended s i = (am_cancelled s i \<or> am_inner s)"

text \<open>The body of the loop over \<^verbatim>\<open>merged\<close> for item \<^verbatim>\<open>x\<close> of factory \<^verbatim>\<open>i\<close>.\<close>

definition amb_receive :: "gen_env \<Rightarrow> nat \<Rightarrow> 'a \<Rightarrow> 'a amb \<Rightarrow> 'a amb" where
  "amb_receive env i x s =
     (let s = (if am_winner s = None
               then s\<lparr>am_winner := Some i, am_cancelled := (\<lambda>j. j \<noteq> i \<or> am_cancelled s j)\<rparr> else s)
      in if am_winner s \<noteq> Some i then s
         else if goes_on env (length (am_calls s)) then s\<lparr>am_calls := am_calls s @ [x]\<rparr>
         else s\<lparr>am_calls := am_calls s @ [x], am_result := Some None, am_inner := True\<rparr>)"

inductive amb_step :: "nat \<Rightarrow> gen_env \<Rightarrow> (nat \<Rightarrow> 'a delivery) \<Rightarrow> 'a amb \<Rightarrow> 'a amb \<Rightarrow> bool"
  for n :: nat and env :: gen_env and runs :: "nat \<Rightarrow> 'a delivery" where
  put: "i < n \<Longrightarrow> \<not> am_closed s i \<Longrightarrow> am_todo s i = x # xs \<Longrightarrow> length (am_ch s i) < DefaultBuffer \<Longrightarrow>
     amb_step n env runs s (s\<lparr>am_todo := (am_todo s)(i := xs), am_ch := (am_ch s)(i := am_ch s i @ [x])\<rparr>)"
| quit: "i < n \<Longrightarrow> \<not> am_closed s i \<Longrightarrow> amb_ended s i \<Longrightarrow>
     amb_step n env runs s (s\<lparr>am_closed := (am_closed s)(i := True)\<rparr>)"
| finish_ok: "i < n \<Longrightarrow> \<not> am_closed s i \<Longrightarrow> am_todo s i = [] \<Longrightarrow> hide_canceled (snd (runs i)) = None \<Longrightarrow>
     amb_step n env runs s (s\<lparr>am_closed := (am_closed s)(i := True)\<rparr>)"
| finish_err: "i < n \<Longrightarrow> \<not> am_closed s i \<Longrightarrow> am_todo s i = [] \<Longrightarrow> hide_canceled (snd (runs i)) = Some e \<Longrightarrow>
     amb_step n env runs s (s\<lparr>am_closed := (am_closed s)(i := True), am_inner := True,
       am_first_err := (if am_first_err s = None then Some e else am_first_err s)\<rparr>)"
| fan_take: "i < n \<Longrightarrow> \<not> am_fanned s i \<Longrightarrow> am_hand s i = None \<Longrightarrow> am_ch s i = x # xs \<Longrightarrow>
     amb_step n env runs s (s\<lparr>am_ch := (am_ch s)(i := xs), am_hand := (am_hand s)(i := Some x)\<rparr>)"
| fan_send: "i < n \<Longrightarrow> am_hand s i = Some x \<Longrightarrow> length (am_merged s) < DefaultBuffer \<Longrightarrow>
     amb_step n env runs s (s\<lparr>am_hand := (am_hand s)(i := None), am_merged := am_merged s @ [(i, x)]\<rparr>)"
| fan_quit: "i < n \<Longrightarrow> am_hand s i = Some x \<Longrightarrow> amb_ended s i \<Longrightarrow>
     amb_step n env runs s (s\<lparr>am_hand := (am_hand s)(i := None), am_fanned := (am_fanned s)(i := True)\<rparr>)"
| fan_end: "i < n \<Longrightarrow> \<not> am_fanned s i \<Longrightarrow> am_hand s i = None \<Longrightarrow> am_ch s i = [] \<Longrightarrow> am_closed s i \<Longrightarrow>
     amb_step n env runs s (s\<lparr>am_fanned := (am_fanned s)(i := True)\<rparr>)"
| close_merged: "\<not> am_merged_closed s \<Longrightarrow> \<forall>i<n. am_fanned s i \<Longrightarrow>
     amb_step n env runs s (s\<lparr>am_merged_closed := True\<rparr>)"
| receive: "am_result s = None \<Longrightarrow> am_merged s = (i, x) # rest \<Longrightarrow>
     amb_step n env runs s (amb_receive env i x (s\<lparr>am_merged := rest\<rparr>))"
| amb_done: "am_result s = None \<Longrightarrow> am_merged s = [] \<Longrightarrow> am_merged_closed s \<Longrightarrow> \<forall>i<n. am_closed s i \<Longrightarrow>
     amb_step n env runs s (s\<lparr>am_result := Some (am_first_err s), am_inner := True\<rparr>)"

text \<open>The context above may end at any time.\<close>

inductive amb_reach :: "nat \<Rightarrow> gen_env \<Rightarrow> (nat \<Rightarrow> 'a delivery) \<Rightarrow> 'a amb \<Rightarrow> bool"
  for n :: nat and env :: gen_env and runs :: "nat \<Rightarrow> 'a delivery" where
  amb_start: "amb_reach n env runs (amb_init runs)"
| amb_next: "amb_reach n env runs s \<Longrightarrow> amb_step n env runs s s' \<Longrightarrow> amb_reach n env runs s'"
| amb_parent: "amb_reach n env runs s \<Longrightarrow> amb_reach n env runs (s\<lparr>am_inner := True\<rparr>)"

section \<open>One winner\<close>

lemma amb_receive_cases:
  "amb_receive env i x s =
     (case am_winner s of
        None \<Rightarrow>
          let s' = s\<lparr>am_winner := Some i, am_cancelled := (\<lambda>j. j \<noteq> i \<or> am_cancelled s j), am_calls := am_calls s @ [x]\<rparr>
          in if goes_on env (length (am_calls s)) then s' else s'\<lparr>am_result := Some None, am_inner := True\<rparr>
      | Some w \<Rightarrow>
          if w \<noteq> i then s
          else if goes_on env (length (am_calls s)) then s\<lparr>am_calls := am_calls s @ [x]\<rparr>
          else s\<lparr>am_calls := am_calls s @ [x], am_result := Some None, am_inner := True\<rparr>)"
  by (simp add: amb_receive_def Let_def split: option.splits)

text \<open>The items of factory \<^verbatim>\<open>i\<close> that have left its fanner, as long as it may still win.\<close>

definition of_factory :: "nat \<Rightarrow> (nat \<times> 'a) list \<Rightarrow> 'a list" where
  "of_factory i ms = map snd (filter (\<lambda>m. fst m = i) ms)"

lemma of_factory_simps [simp]:
  "of_factory i [] = []"
  "of_factory i ((j, x) # ms) = (if j = i then x # of_factory i ms else of_factory i ms)"
  "of_factory i (ms @ ms') = of_factory i ms @ of_factory i ms'"
  by (auto simp: of_factory_def)

definition flowed :: "'a amb \<Rightarrow> nat \<Rightarrow> 'a list" where
  "flowed s i = am_calls s @ of_factory i (am_merged s)"

definition in_flight :: "'a amb \<Rightarrow> nat \<Rightarrow> 'a list" where
  "in_flight s i = (case am_hand s i of None \<Rightarrow> [] | Some x \<Rightarrow> [x]) @ am_ch s i"

definition candidate :: "'a amb \<Rightarrow> nat \<Rightarrow> bool" where
  "candidate s i = (am_winner s = None \<or> am_winner s = Some i)"

definition lane_ok :: "(nat \<Rightarrow> 'a delivery) \<Rightarrow> 'a amb \<Rightarrow> nat \<Rightarrow> bool" where
  "lane_ok runs s i =
     ((am_merged_closed s \<longrightarrow> am_fanned s i) \<and>
      (am_fanned s i \<longrightarrow> am_hand s i = None) \<and>
      (am_fanned s i \<and> \<not> amb_ended s i \<longrightarrow> am_ch s i = [] \<and> am_closed s i) \<and>
      (am_closed s i \<and> \<not> amb_ended s i \<longrightarrow> am_todo s i = [] \<and> hide_canceled (snd (runs i)) = None) \<and>
      (candidate s i \<longrightarrow> prefix (flowed s i) (fst (runs i)) \<and>
        (\<not> am_fanned s i \<or> \<not> amb_ended s i \<longrightarrow> flowed s i @ in_flight s i @ am_todo s i = fst (runs i))))"

text \<open>What the winner's choice and the results satisfy.\<close>

definition choice_ok :: "nat \<Rightarrow> 'a amb \<Rightarrow> bool" where
  "choice_ok n s =
     ((am_winner s = None \<longrightarrow> am_calls s = [] \<and> (\<forall>i. \<not> am_cancelled s i)) \<and>
      (\<forall>w. am_winner s = Some w \<longrightarrow> w < n \<and> \<not> am_cancelled s w) \<and>
      (\<forall>m \<in> set (am_merged s). fst m < n) \<and>
      (am_first_err s \<noteq> None \<longrightarrow> am_inner s) \<and>
      (am_result s \<noteq> None \<longrightarrow> am_inner s))"

definition amb_ok :: "nat \<Rightarrow> (nat \<Rightarrow> 'a delivery) \<Rightarrow> 'a amb \<Rightarrow> bool" where
  "amb_ok n runs s = ((\<forall>i<n. lane_ok runs s i) \<and> choice_ok n s)"

lemma amb_ok_init: "amb_ok n runs (amb_init runs)"
  by (simp add: amb_ok_def choice_ok_def lane_ok_def amb_init_def candidate_def flowed_def in_flight_def)

lemmas amb_lane_defs = lane_ok_def candidate_def flowed_def in_flight_def amb_ended_def

text \<open>A step of one lane leaves the others alone.\<close>

lemma amb_ok_lane:
  assumes "amb_ok n runs s" and "lane_ok runs s i \<Longrightarrow> choice_ok n s \<Longrightarrow> lane_ok runs s' i" and "i < n"
    and "\<And>j. j \<noteq> i \<Longrightarrow> lane_ok runs s j \<Longrightarrow> lane_ok runs s' j" and "choice_ok n s \<Longrightarrow> choice_ok n s'"
  shows "amb_ok n runs s'"
  using assms unfolding amb_ok_def by metis

lemma amb_ok_lanes:
  assumes "amb_ok n runs s"
    and "\<And>j. j < n \<Longrightarrow> lane_ok runs s j \<Longrightarrow> choice_ok n s \<Longrightarrow> lane_ok runs s' j" and "choice_ok n s \<Longrightarrow> choice_ok n s'"
  shows "amb_ok n runs s'"
  using assms unfolding amb_ok_def by metis

lemma of_factory_front: "fst m \<noteq> i \<Longrightarrow> of_factory i (m # ms) = of_factory i ms"
  by (cases m) simp

lemma amb_ok_step: "amb_step n env runs s s' \<Longrightarrow> amb_ok n runs s \<Longrightarrow> amb_ok n runs s'"
proof (induction rule: amb_step.induct)
  case (put i s x xs)
  then show ?case
    by (elim amb_ok_lane [of _ _ _ i]) (auto simp: amb_lane_defs choice_ok_def)
next
  case (quit i s)
  then show ?case
    by (elim amb_ok_lane [of _ _ _ i]) (auto simp: amb_lane_defs choice_ok_def)
next
  case (finish_ok i s)
  then show ?case
    by (elim amb_ok_lane [of _ _ _ i]) (auto simp: amb_lane_defs choice_ok_def)
next
  case (finish_err i s e)
  then show ?case
    by (elim amb_ok_lanes) (auto simp: amb_lane_defs choice_ok_def)
next
  case (fan_take i s x xs)
  then show ?case
    by (elim amb_ok_lane [of _ _ _ i]) (auto simp: amb_lane_defs choice_ok_def)
next
  case (fan_send i s x)
  show ?case
  proof (rule amb_ok_lane [OF fan_send.prems])
    assume lane: "lane_ok runs s i"
    have "prefix (am_calls s @ of_factory i (am_merged s) @ [x]) (fst (runs i))"
      if "am_calls s @ of_factory i (am_merged s) @ x # am_ch s i @ am_todo s i = fst (runs i)"
      using that by (metis append.assoc append_Cons append_Nil prefixI)
    with lane fan_send.hyps
    show "lane_ok runs (s\<lparr>am_hand := (am_hand s)(i := None), am_merged := am_merged s @ [(i, x)]\<rparr>) i"
      by (auto simp: amb_lane_defs)
  qed (use fan_send.hyps in \<open>simp_all add: amb_lane_defs choice_ok_def\<close>)
next
  case (fan_quit i s x)
  then show ?case
    by (elim amb_ok_lane [of _ _ _ i]) (auto simp: amb_lane_defs choice_ok_def)
next
  case (fan_end i s)
  then show ?case
    by (elim amb_ok_lane [of _ _ _ i]) (auto simp: amb_lane_defs choice_ok_def)
next
  case (close_merged s)
  then show ?case
    by (elim amb_ok_lanes) (auto simp: amb_lane_defs choice_ok_def)
next
  case (receive s i x rest)
  show ?case
  proof (rule amb_ok_lanes [OF receive.prems])
    fix j
    assume "lane_ok runs s j" and "choice_ok n s"
    with receive.hyps show "lane_ok runs (amb_receive env i x (s\<lparr>am_merged := rest\<rparr>)) j"
      by (cases "am_winner s"; cases "j = i") (auto simp: amb_lane_defs choice_ok_def amb_receive_cases Let_def)
  next
    assume "choice_ok n s"
    with receive.hyps show "choice_ok n (amb_receive env i x (s\<lparr>am_merged := rest\<rparr>))"
      by (cases "am_winner s") (auto simp: choice_ok_def amb_receive_cases Let_def)
  qed
next
  case (amb_done s)
  then show ?case
    by (elim amb_ok_lanes) (auto simp: amb_lane_defs choice_ok_def)
qed

lemma amb_reach_ok: "amb_reach n env runs s \<Longrightarrow> amb_ok n runs s"
proof (induction rule: amb_reach.induct)
  case (amb_parent s)
  from amb_parent.IH show ?case
    by (elim amb_ok_lanes) (auto simp: amb_lane_defs choice_ok_def)
qed (auto intro: amb_ok_init amb_ok_step)

text \<open>
  C31: Whatever the order of the goroutines, \<^verbatim>\<open>Amb\<close> emits the items of one factory only, in its order and
  without a gap; when the merged channel has ended and nothing was cancelled, it has emitted all
  of them, the run of that factory had no error, and a result without a winner means that no
  factory emitted anything.
\<close>

theorem amb_single_winner:
  assumes "amb_reach n env runs s"
  shows "(am_calls s = [] \<or> (\<exists>w<n. am_winner s = Some w \<and> prefix (am_calls s) (fst (runs w))))
       \<and> (am_inner s \<or> \<not> am_merged_closed s \<or> am_merged s \<noteq> [] \<or>
           (am_first_err s = None \<and>
            (case am_winner s of
               Some w \<Rightarrow> am_calls s = fst (runs w) \<and> hide_canceled (snd (runs w)) = None
             | None \<Rightarrow> list_all (\<lambda>i. runs i = ([], snd (runs i)) \<and> hide_canceled (snd (runs i)) = None) [0..<n])))"
proof (intro conjI)
  note ok = amb_reach_ok [OF assms]
  show "am_calls s = [] \<or> (\<exists>w<n. am_winner s = Some w \<and> prefix (am_calls s) (fst (runs w)))"
  proof (cases "am_winner s")
    case (Some w)
    with ok show ?thesis by (auto simp: amb_ok_def choice_ok_def amb_lane_defs dest: append_prefixD)
  qed (use ok in \<open>simp add: amb_ok_def choice_ok_def\<close>)
  have "am_first_err s = None \<and>
      (case am_winner s of
         Some w \<Rightarrow> am_calls s = fst (runs w) \<and> hide_canceled (snd (runs w)) = None
       | None \<Rightarrow> list_all (\<lambda>i. runs i = ([], snd (runs i)) \<and> hide_canceled (snd (runs i)) = None) [0..<n])"
    if "\<not> am_inner s" and "am_merged_closed s" and "am_merged s = []"
  proof -
    have lane: "am_calls s = fst (runs i) \<and> hide_canceled (snd (runs i)) = None"
      if "i < n" and "candidate s i" and "\<not> am_cancelled s i" for i
    proof -
      from ok that(1) have "lane_ok runs s i" by (simp add: amb_ok_def)
      with that \<open>\<not> am_inner s\<close> \<open>am_merged_closed s\<close> \<open>am_merged s = []\<close> show ?thesis
        by (auto simp: lane_ok_def flowed_def in_flight_def amb_ended_def)
    qed
    show ?thesis
    proof (cases "am_winner s")
      case None
      with ok lane \<open>\<not> am_inner s\<close> show ?thesis
        by (auto simp: list_all_iff amb_ok_def choice_ok_def candidate_def prod_eq_iff)
    next
      case (Some w)
      with ok lane [of w] \<open>\<not> am_inner s\<close> show ?thesis
        by (auto simp: amb_ok_def choice_ok_def candidate_def)
    qed
  qed
  then show "am_inner s \<or> \<not> am_merged_closed s \<or> am_merged s \<noteq> [] \<or>
      (am_first_err s = None \<and>
       (case am_winner s of
          Some w \<Rightarrow> am_calls s = fst (runs w) \<and> hide_canceled (snd (runs w)) = None
        | None \<Rightarrow> list_all (\<lambda>i. runs i = ([], snd (runs i)) \<and> hide_canceled (snd (runs i)) = None) [0..<n]))"
    by blast
qed

section \<open>Progress and termination\<close>

definition lane_rank :: "'a amb \<Rightarrow> nat \<Rightarrow> nat" where
  "lane_rank s i =
     4 * length (am_todo s i) + 3 * length (am_ch s i) + (if am_hand s i = None then 0 else 2) +
     (if am_closed s i then 0 else 1) + (if am_fanned s i then 0 else 1)"

definition amb_rank :: "nat \<Rightarrow> 'a amb \<Rightarrow> nat" where
  "amb_rank n s =
     (\<Sum>i<n. lane_rank s i) + length (am_merged s) + (if am_merged_closed s then 0 else 1) +
     (if am_result s = None then 1 else 0)"

lemma lanes_decrease:
  fixes s s' :: "'a amb"
  assumes "i < n" and "\<And>j. j \<noteq> i \<Longrightarrow> lane_rank s' j = lane_rank s j" and "lane_rank s' i + d \<le> lane_rank s i"
  shows "(\<Sum>j<n. lane_rank s' j) + d \<le> (\<Sum>j<n. lane_rank s j)"
proof -
  have split: "(\<Sum>j<n. lane_rank t j) = lane_rank t i + (\<Sum>j\<in>{..<n} - {i}. lane_rank t j)" for t :: "'a amb"
    using assms(1) by (simp add: sum.remove)
  have "(\<Sum>j\<in>{..<n} - {i}. lane_rank s' j) = (\<Sum>j\<in>{..<n} - {i}. lane_rank s j)"
    using assms(2) by (intro sum.cong) auto
  with split [of s] split [of s'] assms(3) show ?thesis by linarith
qed

lemma lanes_same: "(\<And>j. lane_rank s' j = lane_rank s j) \<Longrightarrow> (\<Sum>j<n. lane_rank s' j) = (\<Sum>j<n. lane_rank s j)"
  by simp

lemma amb_rank_lane:
  fixes s s' :: "'a amb"
  assumes "i < n" and "\<And>j. j \<noteq> i \<Longrightarrow> lane_rank s' j = lane_rank s j" and "lane_rank s' i + d \<le> lane_rank s i"
    and "length (am_merged s') < length (am_merged s) + d"
    and "am_merged_closed s' = am_merged_closed s" and "am_result s' = am_result s"
  shows "amb_rank n s' < amb_rank n s"
  using lanes_decrease [OF assms(1,2,3)] assms(4,5,6) by (simp add: amb_rank_def)

lemma amb_rank_main:
  assumes "\<And>j. lane_rank s' j = lane_rank s j"
    and "length (am_merged s') + (if am_merged_closed s' then 0 else 1) + (if am_result s' = None then 1 else (0::nat)) <
         length (am_merged s) + (if am_merged_closed s then 0 else 1) + (if am_result s = None then 1 else 0)"
  shows "amb_rank n s' < amb_rank n s"
  using lanes_same [OF assms(1), of n] assms(2) by (simp add: amb_rank_def)

lemma amb_step_decreases: "amb_step n env runs s s' \<Longrightarrow> amb_rank n s' < amb_rank n s"
proof (induction rule: amb_step.induct)
  case (put i s x xs)
  then show ?case by (intro amb_rank_lane [of i n _ _ 1]) (auto simp: lane_rank_def)
next
  case (quit i s)
  then show ?case by (intro amb_rank_lane [of i n _ _ 1]) (auto simp: lane_rank_def)
next
  case (finish_ok i s)
  then show ?case by (intro amb_rank_lane [of i n _ _ 1]) (auto simp: lane_rank_def)
next
  case (finish_err i s e)
  then show ?case by (intro amb_rank_lane [of i n _ _ 1]) (auto simp: lane_rank_def)
next
  case (fan_take i s x xs)
  then show ?case by (intro amb_rank_lane [of i n _ _ 1]) (auto simp: lane_rank_def)
next
  case (fan_send i s x)
  then show ?case by (intro amb_rank_lane [of i n _ _ 2]) (auto simp: lane_rank_def)
next
  case (fan_quit i s x)
  then show ?case by (intro amb_rank_lane [of i n _ _ 1]) (auto simp: lane_rank_def)
next
  case (fan_end i s)
  then show ?case by (intro amb_rank_lane [of i n _ _ 1]) (auto simp: lane_rank_def)
next
  case (close_merged s)
  then show ?case by (intro amb_rank_main) (auto simp: lane_rank_def)
next
  case (receive s i x rest)
  then show ?case
    by (intro amb_rank_main) (auto simp: lane_rank_def amb_receive_cases Let_def split: option.splits)
next
  case (amb_done s)
  then show ?case by (intro amb_rank_main) (auto simp: lane_rank_def)
qed

lemma amb_lane_moves:
  assumes "amb_ok n runs s" and "i < n" and "am_merged s = []" and "\<not> am_fanned s i \<or> \<not> am_closed s i"
  shows "\<exists>s'. amb_step n env runs s s'"
proof (cases "am_fanned s i")
  case True
  with assms have "\<not> am_closed s i" "amb_ended s i" by (auto simp: amb_ok_def lane_ok_def)
  with assms show ?thesis by (blast intro: amb_step.quit)
next
  case False
  show ?thesis
  proof (cases "am_hand s i")
    case (Some x)
    show ?thesis by (intro exI, rule amb_step.fan_send [OF assms(2) Some]) (simp add: assms(3) DefaultBuffer_def)
  next
    case None
    show ?thesis
    proof (cases "am_ch s i")
      case (Cons x xs)
      with None False assms show ?thesis by (blast intro: amb_step.fan_take)
    next
      case Nil
      with None False assms show ?thesis
        by (cases "am_closed s i"; cases "am_todo s i"; cases "hide_canceled (snd (runs i))")
          (fastforce intro: amb_step.fan_end amb_step.put amb_step.finish_ok amb_step.finish_err
            simp: DefaultBuffer_def)+
    qed
  qed
qed

lemma amb_moves:
  assumes "amb_ok n runs s" and "am_result s = None"
  shows "\<exists>s'. amb_step n env runs s s'"
proof (cases "am_merged s")
  case (Cons m rest)
  with assms show ?thesis by (cases m) (blast intro: amb_step.receive)
next
  case Nil
  show ?thesis
  proof (cases "\<exists>i<n. \<not> am_fanned s i \<or> \<not> am_closed s i")
    case True
    with assms Nil amb_lane_moves show ?thesis by blast
  next
    case False
    with assms Nil show ?thesis
      by (cases "am_merged_closed s") (blast intro: amb_step.close_merged amb_step.amb_done)+
  qed
qed

text \<open>
  C32: The goroutines of \<^verbatim>\<open>Amb\<close> never wait for each other in a circle, and every step of any of them makes
  the rank smaller: in every schedule the stage returns after at most that many steps.
\<close>

theorem amb_returns:
  assumes "amb_reach n env runs s"
  shows "(am_result s \<noteq> None \<or> (\<exists>s'. amb_step n env runs s s'))
       \<and> (\<nexists>s'. amb_step n env runs s s' \<and> amb_rank n s \<le> amb_rank n s')"
  using amb_moves [OF amb_reach_ok [OF assms], of env] amb_step_decreases [of n env runs s]
  by (auto simp: not_le)

theorem amb_returns_witness:
  "\<exists>s'. amb_step 2 calm_env (\<lambda>i. ([i], None)) (amb_init (\<lambda>i. ([i], None))) s'"
  using amb_returns [OF amb_start [of 2 calm_env "\<lambda>i. ([i], None)"]]
  by (auto simp: amb_init_def)

text \<open>A run in which the second factory wins and everything it has is emitted.\<close>

lemma amb_second_wins:
  "\<exists>s. amb_reach 2 calm_env (\<lambda>i. if i = Suc 0 then ([7::int], None) else ([], None)) s \<and> \<not> am_inner s
     \<and> am_merged_closed s \<and> am_merged s = [] \<and> am_winner s = Some (Suc 0) \<and> am_calls s = [7]"
proof -
  let ?runs = "\<lambda>i::nat. if i = Suc 0 then ([7::int], None :: go_error option) else ([], None)"
  note r = amb_start [of 2 calm_env ?runs]
  note r = amb_next [OF r amb_step.put [where i = 1 and x = 7 and xs = "[]"], simplified amb_init_def DefaultBuffer_def, simplified]
  note r = amb_next [OF r amb_step.finish_ok [where i = 1], simplified]
  note r = amb_next [OF r amb_step.finish_ok [where i = 0], simplified]
  note r = amb_next [OF r amb_step.fan_take [where i = 1 and x = 7 and xs = "[]"], simplified]
  note r = amb_next [OF r amb_step.fan_send [where i = 1 and x = 7], simplified DefaultBuffer_def, simplified]
  note r = amb_next [OF r amb_step.receive [where i = 1 and x = 7 and rest = "[]"], simplified amb_receive_cases Let_def, simplified]
  note r = amb_next [OF r amb_step.fan_end [where i = 1], simplified]
  note r = amb_next [OF r amb_step.fan_end [where i = 0], simplified]
  have all2: "(\<forall>i<2. P i) = (P 0 \<and> P 1)" for P :: "nat \<Rightarrow> bool"
    by (auto simp: less_2_cases_iff)
  note r = amb_next [OF r amb_step.close_merged, simplified all2, simplified]
  show ?thesis by (rule exI, rule conjI, rule r) simp
qed

theorem amb_single_winner_witness:
  "\<exists>s :: int amb. am_winner s = Some (Suc 0) \<and> am_calls s = [7::int] \<and> am_first_err s = None
     \<and> am_calls s = fst (if Suc 0 = Suc 0 then ([7::int], None :: go_error option) else ([], None))"
proof -
  obtain s where s: "amb_reach 2 calm_env (\<lambda>i. if i = Suc 0 then ([7::int], None) else ([], None)) s"
      "\<not> am_inner s" "am_merged_closed s" "am_merged s = []" "am_winner s = Some (Suc 0)" "am_calls s = [7]"
    using amb_second_wins by blast
  from amb_single_winner [OF s(1)] s(2-6) show ?thesis by auto
qed

text \<open>
  A loser's failure is not confined to it: when the run of another factory fails after the winner
  has been chosen and before it sees its cancellation, the inner context ends, the winner's run is
  cancelled with it, and \<^verbatim>\<open>Amb\<close> returns the loser's error with only part of the winner's items.
\<close>

theorem amb_loser_error_truncates:
  "\<exists>s. amb_reach 2 calm_env (\<lambda>i. if i = 0 then ([1::int, 2], None) else ([], Some (Plain ''lost''))) s
     \<and> am_winner s = Some 0 \<and> am_calls s = [1] \<and> am_result s = Some (Some (Plain ''lost''))"
proof -
  let ?runs = "\<lambda>i::nat. if i = 0 then ([1::int, 2], None :: go_error option) else ([], Some (Plain ''lost''))"
  have all2: "(\<forall>i<2. P i) = (P 0 \<and> P 1)" for P :: "nat \<Rightarrow> bool"
    by (auto simp: less_2_cases_iff)
  have ende: "hide_canceled (Some (Plain m)) = Some (Plain m)" for m
    by (simp add: hide_canceled_def is_canceled_def)
  note r = amb_start [of 2 calm_env ?runs]
  note r = amb_next [OF r amb_step.put [where i = 0 and x = 1 and xs = "[2]"], simplified amb_init_def DefaultBuffer_def, simplified]
  note r = amb_next [OF r amb_step.fan_take [where i = 0 and x = 1 and xs = "[]"], simplified]
  note r = amb_next [OF r amb_step.fan_send [where i = 0 and x = 1], simplified DefaultBuffer_def, simplified]
  note r = amb_next [OF r amb_step.receive [where i = 0 and x = 1 and rest = "[]"], simplified amb_receive_cases Let_def, simplified]
  note r = amb_next [OF r amb_step.finish_err [where i = 1 and e = "Plain ''lost''"], simplified ende, simplified]
  note r = amb_next [OF r amb_step.quit [where i = 0], simplified amb_ended_def, simplified]
  note r = amb_next [OF r amb_step.fan_end [where i = 1], simplified]
  note r = amb_next [OF r amb_step.fan_end [where i = 0], simplified]
  note r = amb_next [OF r amb_step.close_merged, simplified all2, simplified]
  note r = amb_next [OF r amb_step.amb_done, simplified all2, simplified]
  show ?thesis by (rule exI, rule conjI, rule r) (simp_all add: ende)
qed

end
