(* ===== verification/Compose_Ops.thy ===== *)
theory Compose_Ops
  imports Collect_Ops Batch_Ops Flat_Ops
begin

text \<open>
  Operators that are put together from others: \<^verbatim>\<open>MapBatch\<close> and \<^verbatim>\<open>Within\<close> (\<^verbatim>\<open>batch.go\<close>), \<^verbatim>\<open>LookupBy\<close> and
  \<^verbatim>\<open>Enrich\<close> (\<^verbatim>\<open>enrich.go\<close>), the stage combinators (\<^verbatim>\<open>stage.go\<close>), \<^verbatim>\<open>MapIntersperse\<close> and the adapters of
  \<^verbatim>\<open>misc.go\<close>.
\<close>

section \<open>MapBatch\<close>

text \<open>Of the options only the timeout goes to the \<^verbatim>\<open>Batch\<close> stage; all of them go to \<^verbatim>\<open>FlatMap\<close>.\<close>

definition batchCollectOpts :: "('a, 'v) stage_opt list \<Rightarrow> ('a, 'v) stage_opt list" where
  "batchCollectOpts opts =
     (let cfg = buildStageConfig opts
      in if cfg_batch_timeout cfg = 0 then [] else [BatchTimeout (cfg_batch_timeout cfg)])"

text \<open>The function given to \<^verbatim>\<open>FlatMap\<close>, while \<^verbatim>\<open>yield\<close> does not fail.\<close>

definition map_batch_fn :: "('i list \<Rightarrow> 'o list result) \<Rightarrow> 'i list \<Rightarrow> 'o list \<times> go_error option" where
  "map_batch_fn fn batch = (case fn batch of Inl err \<Rightarrow> ([], Some err) | Inr results \<Rightarrow> (results, None))"

text \<open>The two stages; \<^verbatim>\<open>None\<close> is the panic of \<^verbatim>\<open>Batch\<close>.\<close>

definition MapBatch ::
  "('i, 'v) stage_opt list \<Rightarrow> stage_id \<Rightarrow> stage_id \<Rightarrow> int \<Rightarrow> ('i list \<Rightarrow> 'o list result) \<Rightarrow>
   (('i batch_vars, 'i timed, 'i list) operator \<times> ('i list \<Rightarrow> 'o list \<times> go_error option)) option" where
  "MapBatch opts i p sz fn =
     map_option (\<lambda>batched. (batched, map_batch_fn fn))
       (Batch (buildStageConfig (BatchCount sz # batchCollectOpts opts)) i p)"

section \<open>LookupBy and Enrich\<close>

definition defaultLookupBatchSize :: int where
  "defaultLookupBatchSize = 100"

record ('t, 'k, 'm) lookup_config =
  lc_key :: "'t \<Rightarrow> 'k"
  lc_fetch :: "'k list \<Rightarrow> ('k \<rightharpoonup> 'm) result"
  lc_batch_size :: int
  lc_batch_timeout :: duration

definition NewLookupConfig :: "('t \<Rightarrow> 'k) \<Rightarrow> ('k list \<Rightarrow> ('k \<rightharpoonup> 'm) result) \<Rightarrow> ('t, 'k, 'm) lookup_config" where
  "NewLookupConfig key fetch =
     \<lparr>lc_key = key, lc_fetch = fetch, lc_batch_size = defaultLookupBatchSize, lc_batch_timeout = 0\<rparr>"

record ('t, 'k, 'm, 'o) enrich_config = "('t, 'k, 'm) lookup_config" +
  ec_join :: "'t \<Rightarrow> 'm \<Rightarrow> 'o"

definition NewEnrichConfig ::
  "('t \<Rightarrow> 'k) \<Rightarrow> ('k list \<Rightarrow> ('k \<rightharpoonup> 'm) result) \<Rightarrow> ('t \<Rightarrow> 'm \<Rightarrow> 'o) \<Rightarrow> ('t, 'k, 'm, 'o) enrich_config" where
  "NewEnrichConfig key fetch join =
     \<lparr>lc_key = key, lc_fetch = fetch, lc_batch_size = defaultLookupBatchSize, lc_batch_timeout = 0, ec_join = join\<rparr>"

fun unique_keys_loop :: "('t \<Rightarrow> 'k) \<Rightarrow> 'k set \<Rightarrow> 't list \<Rightarrow> 'k list" where
  "unique_keys_loop keyFn seen [] = []"
| "unique_keys_loop keyFn seen (item # batch) =
     (if keyFn item \<notin> seen then keyFn item # unique_keys_loop keyFn (insert (keyFn item) seen) batch
      else unique_keys_loop keyFn seen batch)"

definition uniqueKeys :: "'t list \<Rightarrow> ('t \<Rightarrow> 'k) \<Rightarrow> 'k list" where
  "uniqueKeys batch keyFn = unique_keys_loop keyFn {} batch"

text \<open>A key that the fetched map lacks reads as the zero value.\<close>

definition map_read :: "'m \<Rightarrow> ('k \<rightharpoonup> 'm) \<Rightarrow> 'k \<Rightarrow> 'm" where
  "map_read zero m k = (case m k of None \<Rightarrow> zero | Some v \<Rightarrow> v)"

definition lookup_fn :: "'m \<Rightarrow> ('t, 'k, 'm, 'z) lookup_config_scheme \<Rightarrow> 't list \<Rightarrow> ('t \<times> 'm) list result" where
  "lookup_fn zero cfg batch =
     (case lc_fetch cfg (uniqueKeys batch (lc_key cfg)) of
        Inl err \<Rightarrow> Inl err
      | Inr m \<Rightarrow> Inr (map (\<lambda>item. (item, map_read zero m (lc_key cfg item))) batch))"

definition enrich_fn :: "'m \<Rightarrow> ('t, 'k, 'm, 'o) enrich_config \<Rightarrow> 't list \<Rightarrow> 'o list result" where
  "enrich_fn zero cfg batch =
     (case lc_fetch cfg (uniqueKeys batch (lc_key cfg)) of
        Inl err \<Rightarrow> Inl err
      | Inr m \<Rightarrow> Inr (map (\<lambda>item. ec_join cfg item (map_read zero m (lc_key cfg item))) batch))"

definition lookup_opts :: "('t, 'k, 'm, 'z) lookup_config_scheme \<Rightarrow> ('t, 'v) stage_opt list \<Rightarrow> ('t, 'v) stage_opt list" where
  "lookup_opts cfg opts =
     (if lc_batch_timeout cfg > 0 then BatchTimeout (lc_batch_timeout cfg) # opts else opts)"

definition lookup_size :: "('t, 'k, 'm, 'z) lookup_config_scheme \<Rightarrow> int" where
  "lookup_size cfg = (if lc_batch_size cfg \<le> 0 then defaultLookupBatchSize else lc_batch_size cfg)"

definition LookupBy ::
  "'m \<Rightarrow> ('t, 'k, 'm) lookup_config \<Rightarrow> ('t, 'v) stage_opt list \<Rightarrow> stage_id \<Rightarrow> stage_id \<Rightarrow>
   (('t batch_vars, 't timed, 't list) operator \<times> ('t list \<Rightarrow> ('t \<times> 'm) list \<times> go_error option)) option" where
  "LookupBy zero cfg opts i p = MapBatch (lookup_opts cfg opts) i p (lookup_size cfg) (lookup_fn zero cfg)"

definition Enrich ::
  "'m \<Rightarrow> ('t, 'k, 'm, 'o) enrich_config \<Rightarrow> ('t, 'v) stage_opt list \<Rightarrow> stage_id \<Rightarrow> stage_id \<Rightarrow>
   (('t batch_vars, 't timed, 't list) operator \<times> ('t list \<Rightarrow> 'o list \<times> go_error option)) option" where
  "Enrich zero cfg opts i p = MapBatch (lookup_opts cfg opts) i p (lookup_size cfg) (enrich_fn zero cfg)"

section \<open>Within\<close>

text \<open>\<^verbatim>\<open>stage\<close> is the user's stage as a function of the delivery of \<^verbatim>\<open>FromSlice(items)\<close>.\<close>

fun within_step :: "('a delivery \<Rightarrow> 'b delivery) \<Rightarrow> unit \<Rightarrow> 'a list recv \<Rightarrow> (unit, 'b list) act" where
  "within_step stage u Closed = Act [] (Return None)"
| "within_step stage u (Item xs) =
     (case Collect_p FastSink (stage (xs, None)) of
        (transformed, Some err) \<Rightarrow> Act [] (Return (Some err))
      | (transformed, None) \<Rightarrow> Act [transformed] (Continue ()))"

definition Within ::
  "('c, 'v) stage_config \<Rightarrow> stage_id \<Rightarrow> stage_id \<Rightarrow> ('a delivery \<Rightarrow> 'b delivery) \<Rightarrow>
   (unit, 'a list recv, 'b list) operator" where
  "Within cfg i p stage = unary ''within'' cfg i p (select_loop () (within_step stage))"

section \<open>Stage combinators\<close>

definition Then :: "('p \<Rightarrow> 'q) \<Rightarrow> ('q \<Rightarrow> 'r) \<Rightarrow> 'p \<Rightarrow> 'r" where
  "Then first second p = second (first p)"

text \<open>\<^verbatim>\<open>errors.Join\<close>: nil when all are nil, else the list of the others.\<close>

definition errors_Join :: "go_error option list \<Rightarrow> go_error list option" where
  "errors_Join errs = (let es = List.map_filter id errs in if es = [] then None else Some es)"

text \<open>The function \<^verbatim>\<open>Stage.Or\<close> maps over the items: a value and an error, nil or a joined one.\<close>

definition first_result :: "'o list \<times> go_error option \<Rightarrow> 'o option" where
  "first_result r = (case r of (x # xs, None) \<Rightarrow> Some x | _ \<Rightarrow> None)"

definition stage_or_fn ::
  "'o \<Rightarrow> ('i delivery \<Rightarrow> 'o delivery) \<Rightarrow> ('i delivery \<Rightarrow> 'o delivery) \<Rightarrow> 'i \<Rightarrow> 'o \<times> go_error list option" where
  "stage_or_fn zero s fallback v =
     (let primary = Collect_p FastSink (s ([v], None))
      in case first_result primary of
           Some x \<Rightarrow> (x, None)
         | None \<Rightarrow>
             (let second = Collect_p FastSink (fallback ([v], None))
              in case first_result second of
                   Some x \<Rightarrow> (x, None)
                 | None \<Rightarrow> (zero, errors_Join [snd primary, snd second])))"

definition or_fn :: "'o \<Rightarrow> ('i \<Rightarrow> 'o result) \<Rightarrow> ('i \<Rightarrow> 'o result) \<Rightarrow> 'i \<Rightarrow> 'o \<times> go_error list option" where
  "or_fn zero primary fallback item =
     (case primary item of
        Inr r \<Rightarrow> (r, None)
      | Inl primaryErr \<Rightarrow>
          (case fallback item of
             Inr r \<Rightarrow> (r, None)
           | Inl fallbackErr \<Rightarrow> (zero, errors_Join [Some primaryErr, Some fallbackErr])))"

section \<open>MapIntersperse and the adapters\<close>

text \<open>The variable \<^verbatim>\<open>first\<close> lives outside the stage, so its value is an argument and a result of a run.\<close>

definition intersperse_item :: "'o \<Rightarrow> ('i \<Rightarrow> 'o result) \<Rightarrow> bool \<Rightarrow> 'i \<Rightarrow> ('o list \<times> go_error option) \<times> bool" where
  "intersperse_item sep fn first item =
     (case fn item of
        Inl err \<Rightarrow> (([], Some err), first)
      | Inr out \<Rightarrow> if first then (([out], None), False) else (([sep, out], None), first))"

fun MapIntersperse :: "'o \<Rightarrow> ('i \<Rightarrow> 'o result) \<Rightarrow> bool \<Rightarrow> 'i list \<Rightarrow> ('o list \<times> go_error option) \<times> bool" where
  "MapIntersperse sep fn first [] = (([], None), first)"
| "MapIntersperse sep fn first (x # xs) =
     (case intersperse_item sep fn first x of
        ((out, Some err), first) \<Rightarrow> ((out, Some err), first)
      | ((out, None), first) \<Rightarrow>
          (case MapIntersperse sep fn first xs of ((out', err), first) \<Rightarrow> ((out @ out', err), first)))"

definition LiftPure :: "('i \<Rightarrow> 'o) \<Rightarrow> 'i \<Rightarrow> 'o result" where
  "LiftPure fn v = Inr (fn v)"

definition LiftFallible :: "('i \<Rightarrow> 'o result) \<Rightarrow> 'i \<Rightarrow> 'o result" where
  "LiftFallible fn v = fn v"

definition FilterFunc :: "('a \<Rightarrow> bool) \<Rightarrow> 'a \<Rightarrow> bool result" where
  "FilterFunc fn v = Inr (fn v)"

definition RejectFunc :: "('a \<Rightarrow> bool) \<Rightarrow> 'a \<Rightarrow> bool result" where
  "RejectFunc fn = FilterFunc fn"

text \<open>A function with an effect on \<^verbatim>\<open>'w\<close> and no error.\<close>

definition TapFunc :: "('a \<Rightarrow> 'w \<Rightarrow> 'w) \<Rightarrow> 'a \<Rightarrow> 'w \<Rightarrow> go_error option \<times> 'w" where
  "TapFunc fn v w = (None, fn v w)"

definition sort_by_less :: "('a \<Rightarrow> 'k) \<Rightarrow> ('k \<Rightarrow> 'k \<Rightarrow> bool) \<Rightarrow> 'a \<Rightarrow> 'a \<Rightarrow> bool" where
  "sort_by_less keyFn before a b = before (keyFn a) (keyFn b)"

definition Contains :: "sink \<Rightarrow> 'a \<Rightarrow> 'a delivery \<Rightarrow> bool \<times> go_error option" where
  "Contains k v p = Any k (\<lambda>x. x = v) p"

text \<open>\<^verbatim>\<open>draw j\<close> says whether the \<^verbatim>\<open>j\<close>-th random number is below the rate.\<close>

definition random_sample_pred :: "(nat \<Rightarrow> bool) \<Rightarrow> nat \<Rightarrow> 'a \<Rightarrow> bool result" where
  "random_sample_pred draw j item = Inr (draw j)"

section \<open>Correctness of the lookups\<close>

lemma unique_keys_loop:
  "distinct (unique_keys_loop f seen xs) \<and> set (unique_keys_loop f seen xs) = f ` set xs - seen
   \<and> subseq (unique_keys_loop f seen xs) (map f xs)"
  by (induction xs arbitrary: seen) auto

lemma uniqueKeys:
  "distinct (uniqueKeys xs f)" "set (uniqueKeys xs f) = f ` set xs" "subseq (uniqueKeys xs f) (map f xs)"
  using unique_keys_loop [of f "{}" xs] by (simp_all add: uniqueKeys_def)

text \<open>
  A fetch that answers every key it is asked for by a fixed table, whatever the other keys are. It
  may leave keys out of the table, and its answer may hold keys nobody asked for.
\<close>

definition fetches :: "('k list \<Rightarrow> ('k \<rightharpoonup> 'm) result) \<Rightarrow> ('k \<rightharpoonup> 'm) \<Rightarrow> bool" where
  "fetches fetch table = (\<forall>ks. distinct ks \<longrightarrow> (\<exists>m. fetch ks = Inr m \<and> (\<forall>k \<in> set ks. m k = table k)))"

lemma fetches_unique:
  assumes "fetches fetch table"
  obtains m where "fetch (uniqueKeys xs f) = Inr m" and "\<And>x. x \<in> set xs \<Longrightarrow> m (f x) = table (f x)"
proof -
  from assms obtain m where m: "fetch (uniqueKeys xs f) = Inr m" "\<forall>k \<in> set (uniqueKeys xs f). m k = table k"
    using uniqueKeys(1) [of xs f] unfolding fetches_def by blast
  show ?thesis by (rule that [OF m(1)]) (use m(2) in \<open>simp add: uniqueKeys(2)\<close>)
qed

lemma lookup_fn_table:
  assumes "fetches (lc_fetch cfg) table"
  shows "lookup_fn zero cfg xs = Inr (map (\<lambda>x. (x, map_read zero table (lc_key cfg x))) xs)"
proof -
  obtain m where "lc_fetch cfg (uniqueKeys xs (lc_key cfg)) = Inr m"
      "\<And>x. x \<in> set xs \<Longrightarrow> m (lc_key cfg x) = table (lc_key cfg x)"
    by (rule fetches_unique [OF assms, of xs "lc_key cfg"]) blast
  then show ?thesis by (simp add: lookup_fn_def map_read_def)
qed

lemma enrich_fn_table:
  assumes "fetches (lc_fetch cfg) table"
  shows "enrich_fn zero cfg xs = Inr (map (\<lambda>x. ec_join cfg x (map_read zero table (lc_key cfg x))) xs)"
proof -
  obtain m where "lc_fetch cfg (uniqueKeys xs (lc_key cfg)) = Inr m"
      "\<And>x. x \<in> set xs \<Longrightarrow> m (lc_key cfg x) = table (lc_key cfg x)"
    by (rule fetches_unique [OF assms, of xs "lc_key cfg"]) blast
  then show ?thesis by (simp add: enrich_fn_def map_read_def)
qed

text \<open>
  The contract of a function on batches whose result does not depend on where the batches are cut:
  it works item by item. \<^verbatim>\<open>MapBatch\<close> of such a function is the function mapped over the items.
\<close>

locale itemwise_batch =
  fixes fn :: "'i list \<Rightarrow> 'o list result" and f :: "'i \<Rightarrow> 'o"
  assumes itemwise: "fn xs = Inr (map f xs)"
begin

lemma run_batches: "run_items (flat_item_fast name (map_batch_fn fn)) bs = (map f (concat bs), None)"
  by (induction bs) (simp_all add: flat_item_fast_def map_batch_fn_def itemwise)

end

lemma map_batch_config:
  "cfg_batch_count (buildStageConfig (BatchCount sz # batchCollectOpts opts)) = sz"
  "keep_partial (buildStageConfig (BatchCount sz # batchCollectOpts opts)) =
     buildStageConfig (BatchCount sz # batchCollectOpts opts)"
  by (simp_all add: buildStageConfig_def default_config_def batchCollectOpts_def Let_def keep_partial_def)

lemma MapBatch_stages:
  assumes "MapBatch opts i p sz fn = Some (batched, g)"
  shows "g = map_batch_fn fn \<and> op_loop batched = batch_loop (keep_partial (buildStageConfig (BatchCount sz # batchCollectOpts opts)))"
  using assms by (auto simp: MapBatch_def Batch_def map_batch_config split: if_splits)

lemma itemwise_any_batching:
  assumes "itemwise_batch fn f" and "MapBatch opts i p sz fn = Some (batched, g)"
    and "run (op_loop batched) (start (op_loop batched)) ls = Some (Exited r c)" and "undisturbed ls"
  shows "run_items (flat_item_fast name g) (sent ls) = (map f (concat (map arrival (received ls))), None)"
proof -
  from MapBatch_stages [OF assms(2)] assms(3,4)
  have "concat (sent ls) = concat (map arrival (received ls))"
    using batch.run_conserves_exit by (metis (no_types, lifting))
  with MapBatch_stages [OF assms(2)] itemwise_batch.run_batches [OF assms(1)] show ?thesis by simp
qed

interpretation lookup_batch: itemwise_batch
    "lookup_fn zero (NewLookupConfig key (\<lambda>ks. Inr (\<lambda>k. if k \<in> set ks then table k else None)))"
    "\<lambda>x. (x, map_read zero table (key x))"
  for zero :: 'm and key :: "'t \<Rightarrow> 'k" and table :: "'k \<rightharpoonup> 'm"
  by unfold_locales
    (use lookup_fn_table [of "NewLookupConfig key (\<lambda>ks. Inr (\<lambda>k. if k \<in> set ks then table k else None))" table zero]
      in \<open>simp add: fetches_def NewLookupConfig_def\<close>)

text \<open>
  \<^verbatim>\<open>LookupBy\<close> and \<^verbatim>\<open>Enrich\<close> over a fetch that answers from a table: however the arrivals and the timer
  ticks cut the input into batches, every item comes out once, in order, with the value of its key
  or the zero value; a batch asks for each of its keys once.
\<close>

theorem enrich_any_batching:
  assumes "fetches (lc_fetch cfg) table"
    and "LookupBy zero (lookup_config.truncate cfg) opts i p = Some (lookup, g)"
    and "Enrich zero cfg opts i p = Some (enrich, h)"
    and "run (op_loop lookup) (start (op_loop lookup)) ls = Some (Exited r c)" and "undisturbed ls"
  shows "run_items (flat_item_fast name g) (sent ls) =
           (map (\<lambda>x. (x, map_read zero table (lc_key cfg x))) (concat (map arrival (received ls))), None)
       \<and> run_items (flat_item_fast name h) (sent ls) =
           (map (\<lambda>x. ec_join cfg x (map_read zero table (lc_key cfg x))) (concat (map arrival (received ls))), None)
       \<and> distinct (uniqueKeys batch (lc_key cfg)) \<and> set (uniqueKeys batch (lc_key cfg)) = lc_key cfg ` set batch"
proof (intro conjI)
  let ?lcfg = "lookup_config.truncate cfg"
  have tab: "fetches (lc_fetch ?lcfg) table" and key: "lc_key ?lcfg = lc_key cfg"
    using assms(1) by (simp_all add: lookup_config.truncate_def)
  have same: "lookup_opts ?lcfg opts = lookup_opts cfg opts" "lookup_size ?lcfg = lookup_size cfg"
    by (simp_all add: lookup_opts_def lookup_size_def lookup_config.truncate_def)
  have l: "itemwise_batch (lookup_fn zero ?lcfg) (\<lambda>x. (x, map_read zero table (lc_key cfg x)))"
    by unfold_locales (simp add: lookup_fn_table [OF tab] key)
  have e: "itemwise_batch (enrich_fn zero cfg) (\<lambda>x. ec_join cfg x (map_read zero table (lc_key cfg x)))"
    by unfold_locales (simp add: enrich_fn_table [OF assms(1)])
  show "run_items (flat_item_fast name g) (sent ls) =
      (map (\<lambda>x. (x, map_read zero table (lc_key cfg x))) (concat (map arrival (received ls))), None)"
    by (rule itemwise_any_batching [OF l assms(2) [unfolded LookupBy_def] assms(4,5)])
  from MapBatch_stages [OF assms(2) [unfolded LookupBy_def]] MapBatch_stages [OF assms(3) [unfolded Enrich_def]] same
  have "op_loop enrich = op_loop lookup" by simp
  then show "run_items (flat_item_fast name h) (sent ls) =
      (map (\<lambda>x. ec_join cfg x (map_read zero table (lc_key cfg x))) (concat (map arrival (received ls))), None)"
    using itemwise_any_batching [OF e assms(3) [unfolded Enrich_def] _ assms(5)] assms(4) by simp
qed (simp_all add: uniqueKeys)

definition squares :: "(nat, nat, nat, nat) enrich_config" where
  "squares = \<lparr>lc_key = (\<lambda>x. x), lc_fetch = (\<lambda>ks. Inr (\<lambda>k. if k < 3 then Some (k * k) else None)),
              lc_batch_size = 2, lc_batch_timeout = 9, ec_join = (+)\<rparr>"

theorem enrich_any_batching_witness:
  "\<exists>lookup g. LookupBy 0 (lookup_config.truncate squares) ([] :: (nat, nat) stage_opt list) 1 0 = Some (lookup, g)
     \<and> run_items (flat_item_fast [] g) [[1], [2, 7]] = ([(1, 1), (2, 4), (7, 0)], None)"
proof -
  let ?ls = "[Ev (Arrival (Item 1)), Ev Tick, Sent [1], Ev (Arrival (Item 2)), Ev (Arrival (Item 7)), Sent [2, 7],
      Ev (Arrival Closed)]"
  have f: "fetches (lc_fetch squares) (\<lambda>k. if k < 3 then Some (k * k) else None)"
    by (simp add: fetches_def squares_def)
  obtain lookup g where l: "LookupBy 0 (lookup_config.truncate squares) ([] :: (nat, nat) stage_opt list) 1 0 = Some (lookup, g)"
    by (simp add: LookupBy_def MapBatch_def Batch_def map_batch_config lookup_size_def squares_def
        lookup_config.truncate_def)
  obtain enrich h where e: "Enrich 0 squares ([] :: (nat, nat) stage_opt list) 1 0 = Some (enrich, h)"
    by (simp add: Enrich_def MapBatch_def Batch_def map_batch_config lookup_size_def squares_def)
  have "op_loop lookup = batch_loop (buildStageConfig ([BatchCount 2, BatchTimeout 9] :: (nat, nat) stage_opt list))"
    using MapBatch_stages [OF l [unfolded LookupBy_def]]
    by (simp add: map_batch_config lookup_size_def lookup_opts_def squares_def lookup_config.truncate_def
        batchCollectOpts_def buildStageConfig_def default_config_def keep_partial_def)
  then have r: "run (op_loop lookup) (start (op_loop lookup)) ?ls = Some (Exited None False)"
    by (simp add: buildStageConfig_def default_config_def batch_loop_def start_def enter_Continue
        batch_flush_def batch_add_def shouldFlush_def Let_def)
  from enrich_any_batching [OF f l e r, of "[]"] l show ?thesis
    by (simp add: map_read_def squares_def)
qed

section \<open>Correctness of the other compositions\<close>

lemma collect_delivery [simp]: "Collect_p FastSink p = p"
proof -
  have "foldl (\<lambda>out v. out @ [v]) acc xs = acc @ xs" for acc xs :: "'a list"
    by (induction xs arbitrary: acc) auto
  then show ?thesis by (cases p) (simp add: Collect_p_def forEach_run_pure)
qed

definition within_item :: "('a delivery \<Rightarrow> 'b delivery) \<Rightarrow> ('a list, 'b list) item_fn" where
  "within_item stage xs =
     (case stage (xs, None) of (ys, None) \<Rightarrow> ([ys], None) | (ys, Some err) \<Rightarrow> ([], Some err))"

lemma within_step_item: "within_step stage u e = item_step (within_item stage) u e"
  by (cases e) (auto simp: item_step_def within_item_def split: prod.splits option.splits)

text \<open>
  \<^verbatim>\<open>Within\<close> applies the stage to each slice on its own: with a stage that does not fail there is one
  output slice per input slice, in order; the first slice whose run fails ends the stage with that
  error, after the outputs of the slices before it.
\<close>

theorem within_slicewise:
  "exec (op_loop (Within cfg i p stage)) () (closing xss) =
     (case find (\<lambda>xs. snd (stage (xs, None)) \<noteq> None) xss of
        None \<Rightarrow> (map (\<lambda>xs. fst (stage (xs, None))) xss, Return None)
      | Some bad \<Rightarrow>
          (map (\<lambda>xs. fst (stage (xs, None))) (takeWhile (\<lambda>xs. snd (stage (xs, None)) = None) xss),
           Return (snd (stage (bad, None)))))"
proof -
  have "select_loop () (within_step stage) = item_loop (within_item stage)"
    by (simp add: item_loop_def within_step_item fun_eq_iff select_loop_def)
  moreover have "run_items (within_item stage) xss =
      (case find (\<lambda>xs. snd (stage (xs, None)) \<noteq> None) xss of
        None \<Rightarrow> (map (\<lambda>xs. fst (stage (xs, None))) xss, None)
      | Some bad \<Rightarrow>
          (map (\<lambda>xs. fst (stage (xs, None))) (takeWhile (\<lambda>xs. snd (stage (xs, None)) = None) xss),
           snd (stage (bad, None))))"
    by (induction xss) (auto simp: within_item_def split: prod.splits option.splits)
  ultimately show ?thesis by (simp add: Within_def exec_item_loop_closing split: option.splits)
qed

text \<open>
  \<^verbatim>\<open>Or\<close> of two functions answers with the first that succeeds and otherwise with both errors.
\<close>

theorem or_first_success:
  "or_fn zero primary fallback item =
     (case (primary item, fallback item) of
        (Inr r, _) \<Rightarrow> (r, None)
      | (Inl e1, Inr r) \<Rightarrow> (r, None)
      | (Inl e1, Inl e2) \<Rightarrow> (zero, Some [e1, e2]))"
  by (simp add: or_fn_def errors_Join_def map_filter_simps split: sum.splits)

text \<open>
  \<^verbatim>\<open>Stage.Or\<close>: a stage that emits takes the first item of its output, whatever follows it; two stages
  that emit nothing and do not fail make up an item, the zero value, with no error.
\<close>

theorem stage_or_invents_zero:
  fixes s fallback :: "'i delivery \<Rightarrow> 'o delivery"
  assumes "s ([v], None) = ([], None)" and "fallback ([v], None) = ([], None)"
    and "t ([v], None) = (x # xs, None)"
  shows "stage_or_fn zero s fallback v = (zero, None) \<and> stage_or_fn zero t fallback v = (x, None)
       \<and> stage_or_fn zero s t v = (x, None)"
  using assms by (simp add: stage_or_fn_def Let_def first_result_def errors_Join_def map_filter_simps)

theorem stage_or_invents_zero_witness:
  "stage_or_fn (0::int) (\<lambda>_. ([], None)) (\<lambda>_. ([], None)) (3::int) = (0, None)"
  using stage_or_invents_zero [of "\<lambda>_. ([], None)" "3::int" "\<lambda>_. ([], None)" "\<lambda>_. ([5, 6], None)" 5 "[6]" "0::int"] by simp

lemma intersperse_rest:
  "(\<And>x. x \<in> set xs \<Longrightarrow> \<exists>y. fn x = Inr y) \<Longrightarrow>
   MapIntersperse sep fn False xs = ((concat (map (\<lambda>x. [sep, projr (fn x)]) xs), None), False)"
proof (induction xs)
  case (Cons x xs)
  from Cons.prems [of x] obtain y where "fn x = Inr y" by auto
  with Cons show ?case by (simp add: intersperse_item_def)
qed simp

text \<open>
  \<^verbatim>\<open>MapIntersperse\<close> puts the separator between the mapped items on its first run. The flag that says
  so lives as long as the pipeline, so a second run of a non-empty one starts with a separator.
\<close>

theorem intersperse_second_run:
  "MapIntersperse sep (LiftPure f) True (x # xs) =
     ((f x # concat (map (\<lambda>y. [sep, f y]) xs), None), False)
   \<and> MapIntersperse sep (LiftPure f) (snd (MapIntersperse sep (LiftPure f) True (x # xs))) (x # xs) =
     ((sep # f x # concat (map (\<lambda>y. [sep, f y]) xs), None), False)"
proof -
  have rest: "MapIntersperse sep (LiftPure f) False ys = ((concat (map (\<lambda>y. [sep, f y]) ys), None), False)" for ys
    using intersperse_rest [of ys "LiftPure f" sep] by (simp add: LiftPure_def)
  show ?thesis by (simp add: rest intersperse_item_def LiftPure_def [of f x])
qed

end
