(* ===== verification/Share_Op.thy ===== *)
theory Share_Op
  imports Fan_Ops
begin

text \<open>
  \<^verbatim>\<open>Share\<close> (\<^verbatim>\<open>fan_out.go\<close>): a factory of branches, each with its own options, over one fan-out stage.
  The state of the factory outlives a run: the list of branches, the flag \<^verbatim>\<open>frozen\<close> and the \<^verbatim>\<open>sync.Once\<close>
  around the build. \<^verbatim>\<open>None\<close> is a panic.
\<close>

section \<open>The factory\<close>

record share_branch =
  sb_id :: stage_id
  sb_meta :: stage_meta
  sb_buffer :: nat
  sb_explicit :: bool

record share =
  sh_branches :: "share_branch list"
  sh_frozen :: bool
  sh_once :: bool

definition new_share :: share where
  "new_share = \<lparr>sh_branches = [], sh_frozen = False, sh_once = False\<rparr>"

text \<open>\<^verbatim>\<open>decimal\<close> is \<^verbatim>\<open>strconv.Itoa\<close>; \<^verbatim>\<open>p\<close> is the shared pipeline.\<close>

definition share_name :: "(nat \<Rightarrow> string) \<Rightarrow> string \<Rightarrow> nat \<Rightarrow> string" where
  "share_name decimal name idx =
     (if name \<noteq> [] then name else if idx = 0 then ''share'' else ''share_'' @ decimal idx)"

definition share_subscribe ::
  "(nat \<Rightarrow> string) \<Rightarrow> stage_id \<Rightarrow> ('a, 'v) stage_opt list \<Rightarrow> ('a, 'v) stage_opt list \<Rightarrow> stage_id \<Rightarrow> share \<Rightarrow> share option" where
  "share_subscribe decimal p opts subOpts i st =
     (let cfg = buildStageConfig (opts @ subOpts)
      in if sh_frozen st then None
         else Some (st\<lparr>sh_branches := sh_branches st @
                [\<lparr>sb_id = i,
                  sb_meta = stageMeta i ''share'' (share_name decimal (cfg_name cfg) (length (sh_branches st)))
                              (cfg_buffer cfg) [p],
                  sb_buffer = cfg_buffer cfg, sb_explicit = cfg_buffer_explicit cfg\<rparr>]\<rparr>))"

definition branch_bufsize :: "run_ctx \<Rightarrow> share_branch \<Rightarrow> nat" where
  "branch_bufsize rc b = (if sb_explicit b then sb_buffer b else defaultBufSize rc)"

text \<open>
  The function under the \<^verbatim>\<open>Once\<close>: \<^verbatim>\<open>build_p\<close> is the build of the shared pipeline, \<^verbatim>\<open>consumers\<close> the
  consumer counts of the branches. A panic leaves the \<^verbatim>\<open>Once\<close> done.
\<close>

definition share_wire :: "(run_ctx \<Rightarrow> run_ctx) \<Rightarrow> stage_id \<Rightarrow> (stage_id \<Rightarrow> int) \<Rightarrow> share_branch list \<Rightarrow> run_ctx \<Rightarrow> run_ctx" where
  "share_wire build_p p consumers bs rc =
     (let rc = build_p rc;
          rc = fold (\<lambda>b rc. setChan (sb_id b) (branch_bufsize rc b) rc) bs rc;
          m = (if sb_explicit (hd bs) then sb_meta (hd bs)
               else (sb_meta (hd bs))\<lparr>meta_buffer := defaultBufSize rc\<rparr>);
          rc = initMultiOutputDrainNotify (map sb_id bs) (sum_list (map (consumers \<circ> sb_id) bs)) rc
      in rc_add \<lparr>sf_outs = map sb_id bs, sf_ins = [p]\<rparr> m rc)"

definition sharedBuild ::
  "(run_ctx \<Rightarrow> run_ctx) \<Rightarrow> stage_id \<Rightarrow> (stage_id \<Rightarrow> int) \<Rightarrow> share \<Rightarrow> run_ctx \<Rightarrow> (share \<times> run_ctx) option" where
  "sharedBuild build_p p consumers st rc =
     (if sh_once st then Some (st, rc)
      else if sh_branches st = [] then None
      else Some (st\<lparr>sh_once := True, sh_frozen := True\<rparr>, share_wire build_p p consumers (sh_branches st) rc))"

text \<open>The build of a branch; the last \<^verbatim>\<open>None\<close> is the type assertion on a channel that is not there.\<close>

definition branch_build ::
  "(run_ctx \<Rightarrow> run_ctx) \<Rightarrow> stage_id \<Rightarrow> (stage_id \<Rightarrow> int) \<Rightarrow> stage_id \<Rightarrow> share \<Rightarrow> run_ctx \<Rightarrow> (share \<times> run_ctx \<times> nat) option" where
  "branch_build build_p p consumers i st rc =
     (case getChan rc i of
        Some ch \<Rightarrow> Some (st, rc, ch)
      | None \<Rightarrow>
          (case sharedBuild build_p p consumers st rc of
             None \<Rightarrow> None
           | Some (st, rc) \<Rightarrow> (case getChan rc i of None \<Rightarrow> None | Some ch \<Rightarrow> Some (st, rc, ch))))"

text \<open>The branches a run builds, in the order its consumers ask for them.\<close>

fun build_branches where
  "build_branches build_p p consumers [] st rc = Some (st, rc)"
| "build_branches build_p p consumers (i # is) st rc =
     (case branch_build build_p p consumers i st rc of
        None \<Rightarrow> None
      | Some (st, rc, ch) \<Rightarrow> build_branches build_p p consumers is st rc)"

text \<open>The stage: every item to every branch, in the order of the branches.\<close>

definition share_stage :: "nat \<Rightarrow> (unit, 'a recv, nat \<times> 'a) loop" where
  "share_stage n = select_loop () (broadcast_step n)"

section \<open>One run\<close>

lemma fold_branches [simp]:
  "dom (rc_chans (fold (\<lambda>b rc. setChan (sb_id b) (branch_bufsize rc b) rc) bs rc)) = dom (rc_chans rc) \<union> sb_id ` set bs"
  "rc_stages (fold (\<lambda>b rc. setChan (sb_id b) (branch_bufsize rc b) rc) bs rc) = rc_stages rc"
  "rc_default_buffer (fold (\<lambda>b rc. setChan (sb_id b) (branch_bufsize rc b) rc) bs rc) = rc_default_buffer rc"
  by (induction bs arbitrary: rc) (auto simp: setChan_def)

lemma share_wire_fields:
  "dom (rc_chans (share_wire build_p p consumers bs rc)) = dom (rc_chans (build_p rc)) \<union> sb_id ` set bs"
  "rc_stages (share_wire build_p p consumers bs rc) =
     rc_stages (build_p rc) @ [\<lparr>sf_outs = map sb_id bs, sf_ins = [p]\<rparr>]"
  by (simp_all add: share_wire_def rc_add_def Let_def split: option.splits)

lemma share_wire_sizes:
  assumes "distinct (map sb_id bs)" and "b \<in> set bs"
  shows "rc_chans (share_wire build_p p consumers bs rc) (sb_id b) = Some (branch_bufsize (build_p rc) b)"
proof -
  have "rc_chans (fold (\<lambda>b rc. setChan (sb_id b) (branch_bufsize rc b) rc) bs r) (sb_id b) = Some (branch_bufsize r b)"
    for r using assms
  proof (induction bs arbitrary: r)
    case (Cons a as)
    have other: "rc_chans (fold (\<lambda>b rc. setChan (sb_id b) (branch_bufsize rc b) rc) as r) i = rc_chans r i"
      if "i \<notin> sb_id ` set as" for r i
      using that by (induction as arbitrary: r) (auto simp: setChan_def)
    show ?case
    proof (cases "b = a")
      case True
      with Cons.prems other show ?thesis by (auto simp: setChan_def)
    next
      case False
      with Cons.prems Cons.IH [of "setChan (sb_id a) (branch_bufsize r a) r"] show ?thesis
        by (simp add: branch_bufsize_def defaultBufSize_def setChan_def)
    qed
  qed simp
  then show ?thesis by (simp add: share_wire_def rc_add_def Let_def split: option.splits)
qed

lemma build_branches_built:
  "set is \<subseteq> dom (rc_chans rc) \<Longrightarrow> build_branches build_p p consumers is st rc = Some (st, rc)"
  by (induction "is") (auto simp: branch_build_def getChan_def dom_def)

text \<open>
  In the first run, whatever the order in which the branches are built and however often, the
  shared pipeline is built once and one stage is added that owns the channels of all branches, each
  with the buffer its own options say; from then on a subscription panics.
\<close>

theorem share_builds_once:
  assumes "set is \<subseteq> sb_id ` set (sh_branches st)" and "is \<noteq> []" and "\<not> sh_once st"
    and "distinct (map sb_id (sh_branches st))" and "dom (rc_chans rc) \<inter> sb_id ` set (sh_branches st) = {}"
  shows "\<exists>st' rc'. build_branches build_p p consumers is st rc = Some (st', rc')
       \<and> rc' = share_wire build_p p consumers (sh_branches st) rc
       \<and> rc_stages rc' = rc_stages (build_p rc) @ [\<lparr>sf_outs = map sb_id (sh_branches st), sf_ins = [p]\<rparr>]
       \<and> list_all (\<lambda>b. getChan rc' (sb_id b) = Some (branch_bufsize (build_p rc) b)) (sh_branches st)
       \<and> share_subscribe decimal p opts subOpts j st' = None"
proof -
  obtain i is' where "is": "is = i # is'" using assms(2) by (cases "is") auto
  let ?rc' = "share_wire build_p p consumers (sh_branches st) rc"
  have i: "i \<in> sb_id ` set (sh_branches st)" using assms(1) "is" by auto
  then have none: "getChan rc i = None" using assms(5) by (auto simp: getChan_def dom_def)
  have sub: "set is' \<subseteq> dom (rc_chans ?rc')" "i \<in> dom (rc_chans ?rc')"
    using assms(1) "is" by (auto simp: share_wire_fields(1) simp del: not_None_eq)
  then obtain ch where ch: "getChan ?rc' i = Some ch" by (auto simp: getChan_def)
  from i assms(3) have "sharedBuild build_p p consumers st rc = Some (st\<lparr>sh_once := True, sh_frozen := True\<rparr>, ?rc')"
    by (auto simp: sharedBuild_def)
  with none ch sub "is"
  have "build_branches build_p p consumers is st rc = Some (st\<lparr>sh_once := True, sh_frozen := True\<rparr>, ?rc')"
    by (simp add: branch_build_def build_branches_built)
  then show ?thesis
    using assms(4) by (auto simp: share_wire_fields(2) share_wire_sizes getChan_def list_all_iff share_subscribe_def)
qed

definition two_branches :: share where
  "two_branches =
     the (share_subscribe (\<lambda>_. []) 1 [] [Buffer 1000 :: (nat, nat) stage_opt] 3
       (the (share_subscribe (\<lambda>_. []) 1 [] ([] :: (nat, nat) stage_opt list) 2 new_share)))"

theorem share_builds_once_witness:
  "\<exists>st'. build_branches (\<lambda>rc. rc) 1 (\<lambda>_. 1) [3, 2, 3] two_branches newRunCtx =
     Some (st', share_wire (\<lambda>rc. rc) 1 (\<lambda>_. 1) (sh_branches two_branches) newRunCtx) \<and> map sb_id (sh_branches two_branches) = [2, 3]"
proof -
  have ids: "map sb_id (sh_branches two_branches) = [2, 3]" "sb_id ` set (sh_branches two_branches) = {2, 3}" "\<not> sh_once two_branches"
    by (auto simp: two_branches_def share_subscribe_def new_share_def Let_def)
  show ?thesis
    using share_builds_once [of "[3, 2, 3]" two_branches newRunCtx "\<lambda>rc. rc" 1 "\<lambda>_. 1"] ids
    by (fastforce simp: newRunCtx_def)
qed

section \<open>The second run\<close>

text \<open>
  \<^verbatim>\<open>Run\<close> may be called several times, each call building afresh. The \<^verbatim>\<open>Once\<close> of \<^verbatim>\<open>Share\<close> is not per
  run: once any run or inspection of the graph has built a branch, the build of a branch in a new
  context panics, whatever the shared pipeline is.
\<close>

theorem share_second_run_panics:
  assumes "branch_build build_p p consumers i st rc = Some (st', rc1, ch)" and "getChan rc i = None"
    and "getChan rc2 j = None"
  shows "branch_build build_p' p consumers' j st' rc2 = None"
  using assms by (auto simp: branch_build_def sharedBuild_def split: option.splits prod.splits if_splits)

theorem share_second_run_panics_witness:
  "branch_build (\<lambda>rc. rc) 1 (\<lambda>_. 1) 2 (fst (the (branch_build (\<lambda>rc. rc) 1 (\<lambda>_. 1) 2 two_branches newRunCtx))) newRunCtx = None"
proof -
  obtain st' rc' ch where b: "branch_build (\<lambda>rc. rc) 1 (\<lambda>_. 1) 2 two_branches newRunCtx = Some (st', rc', ch)"
    by (auto simp: branch_build_def sharedBuild_def two_branches_def share_subscribe_def new_share_def newRunCtx_def
        share_wire_def rc_add_def getChan_def setChan_def Let_def initMultiOutputDrainNotify_def)
  show ?thesis using share_second_run_panics [OF b, of newRunCtx 2 "\<lambda>rc. rc" "\<lambda>_. 1"] b
    by (simp add: getChan_def newRunCtx_def)
qed

text \<open>Every branch carries every item of the shared pipeline, in order.\<close>

theorem share_delivers_all:
  assumes "k < n"
  shows "on_output k (outputs (share_stage n) (closing xs)) = xs"
  using assms by (simp add: share_stage_def broadcast.outputs_closing emissions_broadcast)

theorem share_delivers_all_witness: "on_output 1 (outputs (share_stage 2) (closing ''ab'')) = ''ab''"
  by (rule share_delivers_all) simp

end
