(* ===== verification/Object_Pool.thy ===== *)
theory Object_Pool
  imports Prelude
begin

text \<open>
  \<^verbatim>\<open>pool.go\<close>: the object pool and \<^verbatim>\<open>MapPooled\<close>. Every operation on the stack is one critical section of
  the pool's mutex and the flag of an object is atomic, so an operation is one function on the pool
  and its objects; \<^verbatim>\<open>None\<close> is a panic.
\<close>

section \<open>The pool\<close>

text \<open>
  Objects are addresses in \<^verbatim>\<open>po_objs\<close>, whose contents are the value and the flag \<^verbatim>\<open>released\<close>. The
  last element of \<^verbatim>\<open>po_stack\<close> is the top; \<^verbatim>\<open>po_new k\<close> is what the \<^verbatim>\<open>k\<close>-th call of the factory gives.
\<close>

record 'a pooled =
  pd_value :: 'a
  pd_released :: bool

record 'a pool =
  po_stack :: "nat list"
  po_objs :: "nat \<Rightarrow> 'a pooled"
  po_made :: nat

definition NewPool :: "(nat \<Rightarrow> 'a pooled) \<Rightarrow> 'a pool" where
  "NewPool blank = \<lparr>po_stack = [], po_objs = blank, po_made = 0\<rparr>"

definition set_released :: "nat \<Rightarrow> bool \<Rightarrow> 'a pool \<Rightarrow> 'a pool" where
  "set_released i b p = p\<lparr>po_objs := (po_objs p)(i := (po_objs p i)\<lparr>pd_released := b\<rparr>)\<rparr>"

definition pool_Get :: "(nat \<Rightarrow> 'a) \<Rightarrow> 'a pool \<Rightarrow> nat \<times> 'a pool" where
  "pool_Get newFn p =
     (if po_stack p \<noteq> [] then
        (last (po_stack p), set_released (last (po_stack p)) False (p\<lparr>po_stack := butlast (po_stack p)\<rparr>))
      else
        (po_made p,
         p\<lparr>po_objs := (po_objs p)(po_made p := \<lparr>pd_value = newFn (po_made p), pd_released = False\<rparr>),
           po_made := Suc (po_made p)\<rparr>))"

definition pool_put :: "nat \<Rightarrow> 'a pool \<Rightarrow> 'a pool" where
  "pool_put i p = p\<lparr>po_stack := po_stack p @ [i]\<rparr>"

definition Release :: "nat \<Rightarrow> 'a pool \<Rightarrow> 'a pool option" where
  "Release i p =
     (if pd_released (po_objs p i) then None else Some (pool_put i (set_released i True p)))"

definition Pool_Put :: "nat \<Rightarrow> 'a pool \<Rightarrow> 'a pool option" where
  "Pool_Put i p = Release i p"

definition MustValue :: "nat \<Rightarrow> 'a pool \<Rightarrow> 'a option" where
  "MustValue i p = (if pd_released (po_objs p i) then None else Some (pd_value (po_objs p i)))"

text \<open>The objects released before a panic stay released; the result of a panic is not looked at.\<close>

fun ReleaseAll :: "nat list \<Rightarrow> 'a pool \<Rightarrow> 'a pool option" where
  "ReleaseAll [] p = Some p"
| "ReleaseAll (i # is) p = (case Release i p of None \<Rightarrow> None | Some p \<Rightarrow> ReleaseAll is p)"

fun get_many :: "(nat \<Rightarrow> 'a) \<Rightarrow> nat \<Rightarrow> 'a pool \<Rightarrow> nat list \<times> 'a pool" where
  "get_many newFn 0 p = ([], p)"
| "get_many newFn (Suc n) p =
     (case pool_Get newFn p of (i, p) \<Rightarrow>
        (case get_many newFn n p of (is, p) \<Rightarrow> (i # is, p)))"

definition Warmup :: "(nat \<Rightarrow> 'a) \<Rightarrow> int \<Rightarrow> 'a pool \<Rightarrow> 'a pool" where
  "Warmup newFn n p =
     (if n \<le> 0 then p
      else case get_many newFn (nat n) p of (is, p) \<Rightarrow> foldl (\<lambda>p i. pool_put i p) p is)"

text \<open>
  The function \<^verbatim>\<open>MapPooled\<close> hands to \<^verbatim>\<open>Map\<close>: the user's function fills the object it is given and
  says whether it failed.
\<close>

definition map_pooled_fn ::
  "(nat \<Rightarrow> 'o) \<Rightarrow> ('i \<Rightarrow> 'o \<Rightarrow> 'o \<times> go_error option) \<Rightarrow> 'i \<Rightarrow> 'o pool \<Rightarrow> (nat result \<times> 'o pool) option" where
  "map_pooled_fn newFn fn item p =
     (case pool_Get newFn p of
        (slot, p) \<Rightarrow>
          (case fn item (pd_value (po_objs p slot)) of
             (v, err) \<Rightarrow>
               (let p = p\<lparr>po_objs := (po_objs p)(slot := (po_objs p slot)\<lparr>pd_value := v\<rparr>)\<rparr>
                in case err of
                     None \<Rightarrow> Some (Inr slot, p)
                   | Some e \<Rightarrow> map_option (\<lambda>p. (Inl e, p)) (Release slot p))))"

section \<open>Clients that keep the rules\<close>

text \<open>
  The objects clients hold: a call of \<^verbatim>\<open>Get\<close> adds one, the holder's \<^verbatim>\<open>Release\<close> removes it. An item
  of \<^verbatim>\<open>MapPooled\<close> is a \<^verbatim>\<open>Get\<close> and, when the function fails, a \<^verbatim>\<open>Release\<close>; writing the value of a
  held object is the holder's business.
\<close>

inductive pool_reach :: "(nat \<Rightarrow> 'a) \<Rightarrow> 'a pool \<Rightarrow> nat set \<Rightarrow> bool" for newFn :: "nat \<Rightarrow> 'a" where
  pool_start: "pool_reach newFn (NewPool blank) {}"
| pool_get: "pool_reach newFn p held \<Longrightarrow> pool_Get newFn p = (i, p') \<Longrightarrow> pool_reach newFn p' (insert i held)"
| pool_release: "pool_reach newFn p held \<Longrightarrow> i \<in> held \<Longrightarrow> Release i p = Some p' \<Longrightarrow> pool_reach newFn p' (held - {i})"
| pool_warmup: "pool_reach newFn p held \<Longrightarrow> pool_reach newFn (Warmup newFn n p) held"
| pool_write: "pool_reach newFn p held \<Longrightarrow> i \<in> held \<Longrightarrow>
     pool_reach newFn (p\<lparr>po_objs := (po_objs p)(i := (po_objs p i)\<lparr>pd_value := v\<rparr>)\<rparr>) held"

definition pool_ok :: "'a pool \<Rightarrow> nat set \<Rightarrow> bool" where
  "pool_ok p held =
     (distinct (po_stack p) \<and> set (po_stack p) \<inter> held = {} \<and>
      (\<forall>i \<in> set (po_stack p) \<union> held. i < po_made p) \<and> (\<forall>i \<in> held. \<not> pd_released (po_objs p i)))"

lemma set_butlast_last: "xs \<noteq> [] \<Longrightarrow> set xs = insert (last xs) (set (butlast xs))"
  by (metis append_butlast_last_id list.simps(15) rotate1.simps(2) set_rotate1)

lemma last_notin_butlast: "distinct xs \<Longrightarrow> xs \<noteq> [] \<Longrightarrow> last xs \<notin> set (butlast xs)"
  by (metis append_butlast_last_id distinct_append disjoint_insert(1) list.simps(15))

lemma pool_ok_get:
  assumes "pool_ok p held" and "pool_Get newFn p = (i, p')"
  shows "pool_ok p' (insert i held)" and "i \<notin> held"
proof -
  show "i \<notin> held" using assms set_butlast_last [of "po_stack p"]
    by (auto simp: pool_ok_def pool_Get_def split: if_splits)
  show "pool_ok p' (insert i held)"
  proof (cases "po_stack p = []")
    case True
    with assms show ?thesis by (auto simp: pool_ok_def pool_Get_def less_SucI)
  next
    case False
    note st = set_butlast_last [OF False] last_notin_butlast [OF _ False]
    from assms False have "i = last (po_stack p)"
      and "p' = set_released i False (p\<lparr>po_stack := butlast (po_stack p)\<rparr>)"
      by (auto simp: pool_Get_def)
    with assms(1) st show ?thesis
      by (auto simp: pool_ok_def set_released_def distinct_butlast)
  qed
qed

lemma pool_ok_release:
  assumes "pool_ok p held" and "i \<in> held" and "Release i p = Some p'"
  shows "pool_ok p' (held - {i})"
  using assms by (auto simp: pool_ok_def Release_def pool_put_def set_released_def split: if_splits)

lemma pool_ok_get_many:
  "pool_ok p held \<Longrightarrow> get_many newFn n p = (is, p') \<Longrightarrow>
   pool_ok p' (set is \<union> held) \<and> distinct is \<and> set is \<inter> held = {}"
proof (induction n arbitrary: p held "is")
  case (Suc n)
  obtain i p1 is1 where 1: "pool_Get newFn p = (i, p1)" "get_many newFn n p1 = (is1, p')" "is = i # is1"
    using Suc.prems(2) by (auto split: prod.splits)
  from Suc.IH [OF pool_ok_get(1) [OF Suc.prems(1) 1(1)] 1(2)] pool_ok_get(2) [OF Suc.prems(1) 1(1)] 1(3)
  show ?case by auto
qed simp

lemma foldl_put: "foldl (\<lambda>p i. pool_put i p) p is = p\<lparr>po_stack := po_stack p @ is\<rparr>"
  by (induction "is" arbitrary: p) (auto simp: pool_put_def)

lemma pool_ok_warmup:
  assumes "pool_ok p held"
  shows "pool_ok (Warmup newFn n p) held"
proof (cases "n \<le> 0")
  case False
  obtain "is" p' where gm: "get_many newFn (nat n) p = (is, p')" by fastforce
  from pool_ok_get_many [OF assms this] have "pool_ok p' (set is \<union> held)" "distinct is" "set is \<inter> held = {}" by auto
  then show ?thesis using False gm by (auto simp: Warmup_def foldl_put pool_ok_def)
qed (use assms in \<open>simp add: Warmup_def\<close>)

lemma pool_reach_ok: "pool_reach newFn p held \<Longrightarrow> pool_ok p held"
proof (induction rule: pool_reach.induct)
  case (pool_start blank)
  show ?case by (simp add: pool_ok_def NewPool_def)
next
  case (pool_write p held i v)
  then show ?case by (auto simp: pool_ok_def)
qed (auto intro: pool_ok_get pool_ok_release pool_ok_warmup)

text \<open>
  As long as every client releases what it holds once, an object is never handed to two clients at
  a time, its holder can read it and release it without a panic, and the pool makes a new object
  only when none is free; an object just released is the next one handed out.
\<close>

theorem pool_exclusive:
  assumes "pool_reach newFn p held"
  shows "fst (pool_Get newFn p) \<notin> held
       \<and> (\<nexists>i. i \<in> held \<and> (Release i p = None \<or> MustValue i p = None))
       \<and> (po_made (snd (pool_Get newFn p)) = po_made p \<or> po_stack p = [])
       \<and> (\<nexists>i p'. i \<in> held \<and> Release i p = Some p' \<and> fst (pool_Get newFn p') \<noteq> i)"
proof (intro conjI)
  note ok = pool_reach_ok [OF assms]
  show "fst (pool_Get newFn p) \<notin> held"
    using pool_ok_get(2) [OF ok, of newFn] by (cases "pool_Get newFn p") simp
  show "\<nexists>i. i \<in> held \<and> (Release i p = None \<or> MustValue i p = None)"
    using ok by (auto simp: pool_ok_def Release_def MustValue_def)
  show "po_made (snd (pool_Get newFn p)) = po_made p \<or> po_stack p = []"
    by (simp add: pool_Get_def set_released_def)
  show "\<nexists>i p'. i \<in> held \<and> Release i p = Some p' \<and> fst (pool_Get newFn p') \<noteq> i"
    by (auto simp: Release_def pool_Get_def pool_put_def set_released_def split: if_splits)
qed

lemma pool_reach_example:
  "pool_reach (\<lambda>k. k) (snd (pool_Get (\<lambda>k. k) (NewPool (\<lambda>_. \<lparr>pd_value = 0, pd_released = False\<rparr>)))) {0}"
  using pool_get [OF pool_start [of "\<lambda>k. k" "\<lambda>_. \<lparr>pd_value = 0::nat, pd_released = False\<rparr>"], of 0]
  by (simp add: pool_Get_def NewPool_def)

theorem pool_exclusive_witness:
  "fst (pool_Get (\<lambda>k. k) (snd (pool_Get (\<lambda>k. k) (NewPool (\<lambda>_. \<lparr>pd_value = 0::nat, pd_released = False\<rparr>))))) \<notin> {0}"
  using pool_exclusive [OF pool_reach_example] by blast

section \<open>Clients that break the rules\<close>

text \<open>
  Without \<^verbatim>\<open>Warmup\<close> every object in the stack is marked as released, so a second release panics.
\<close>

definition stack_marked :: "'a pool \<Rightarrow> bool" where
  "stack_marked p = list_all (\<lambda>i. pd_released (po_objs p i)) (po_stack p)"

lemma stack_marked_ops:
  "stack_marked (NewPool blank)"
  "stack_marked p \<Longrightarrow> distinct (po_stack p) \<Longrightarrow> list_all (\<lambda>i. i < po_made p) (po_stack p) \<Longrightarrow>
     stack_marked (snd (pool_Get newFn p))"
  "stack_marked p \<Longrightarrow> Release i p = Some p' \<Longrightarrow> stack_marked p'"
  "stack_marked p \<Longrightarrow> i \<in> set (po_stack p) \<Longrightarrow> Release i p = None"
proof -
  show "stack_marked p \<Longrightarrow> distinct (po_stack p) \<Longrightarrow> list_all (\<lambda>i. i < po_made p) (po_stack p) \<Longrightarrow>
     stack_marked (snd (pool_Get newFn p))"
    using last_notin_butlast [of "po_stack p"]
    by (auto simp: stack_marked_def pool_Get_def set_released_def list_all_iff dest: in_set_butlastD)
qed (auto simp: stack_marked_def NewPool_def Release_def pool_put_def set_released_def list_all_iff split: if_splits)

text \<open>
  \<^verbatim>\<open>Warmup\<close> clears the flag of the free objects it takes and does not set it when it puts them back:
  the second \<^verbatim>\<open>Release\<close> of an object, which is documented to panic, then succeeds, the object is on
  the stack twice, and two later calls of \<^verbatim>\<open>Get\<close> hand the same object to two clients. It also makes
  no new object as long as free ones are left.
\<close>

theorem warmup_hides_double_release:
  fixes newFn :: "nat \<Rightarrow> 'a" and blank :: "nat \<Rightarrow> 'a pooled"
  shows "\<exists>p1 p2 :: 'a pool.
     Release 0 (snd (pool_Get newFn (NewPool blank))) = Some p1 \<and> Release 0 p1 = None \<and>
     po_made (Warmup newFn 1 p1) = po_made p1 \<and>
     Release 0 (Warmup newFn 1 p1) = Some p2 \<and>
     fst (pool_Get newFn p2) = 0 \<and> fst (pool_Get newFn (snd (pool_Get newFn p2))) = 0"
  by (simp add: NewPool_def pool_Get_def Release_def Warmup_def pool_put_def set_released_def)

text \<open>
  \<^verbatim>\<open>MapPooled\<close>: an item that fails leaves no object behind, an item that succeeds passes on the object
  it took, filled with what the function wrote.
\<close>

theorem map_pooled_no_leak:
  assumes "pool_reach newFn p held" and "fn item (pd_value (po_objs (snd (pool_Get newFn p)) (fst (pool_Get newFn p)))) = (v, err)"
  shows "(case err of
           None \<Rightarrow> \<exists>slot p'. map_pooled_fn newFn fn item p = Some (Inr slot, p') \<and> slot \<notin> held \<and>
                     pool_reach newFn p' (insert slot held) \<and> MustValue slot p' = Some v
         | Some e \<Rightarrow> \<exists>p'. map_pooled_fn newFn fn item p = Some (Inl e, p') \<and> pool_reach newFn p' held)"
proof -
  obtain slot p1 where get: "pool_Get newFn p = (slot, p1)" by (cases "pool_Get newFn p")
  define p2 where "p2 = p1\<lparr>po_objs := (po_objs p1)(slot := (po_objs p1 slot)\<lparr>pd_value := v\<rparr>)\<rparr>"
  note reach = pool_reach.pool_get [OF assms(1) get]
  have reach2: "pool_reach newFn p2 (insert slot held)"
    unfolding p2_def by (rule pool_reach.pool_write [OF reach]) simp
  have new: "slot \<notin> held" and live: "\<not> pd_released (po_objs p2 slot)"
    using pool_ok_get(2) [OF pool_reach_ok [OF assms(1)] get] pool_reach_ok [OF reach2]
    by (auto simp: pool_ok_def)
  show ?thesis
  proof (cases err)
    case None
    with assms(2) get new live reach2 show ?thesis
      by (auto simp: map_pooled_fn_def MustValue_def p2_def Let_def)
  next
    case (Some e)
    obtain p3 where rel: "Release slot p2 = Some p3" using live by (auto simp: Release_def)
    have "pool_reach newFn p3 held"
      using pool_reach.pool_release [OF reach2 _ rel] new by simp
    with Some assms(2) get rel show ?thesis by (auto simp: map_pooled_fn_def p2_def Let_def)
  qed
qed

theorem map_pooled_no_leak_witness:
  "\<exists>slot p'. map_pooled_fn (\<lambda>k. k) (\<lambda>x v. (x, None)) 7 (NewPool (\<lambda>_. \<lparr>pd_value = 0::nat, pd_released = False\<rparr>)) =
     Some (Inr slot, p') \<and> MustValue slot p' = Some 7"
  using map_pooled_no_leak [OF pool_start [of "\<lambda>k. k" "\<lambda>_. \<lparr>pd_value = 0::nat, pd_released = False\<rparr>"],
      of "\<lambda>x v. (x, None)" 7 7 None]
  by auto

end
