(* ===== verification/Metrics.thy ===== *)
theory Metrics
  imports Prelude "HOL-Library.Multiset"
begin

text \<open>
  \<^verbatim>\<open>metrics.go\<close>: the counters of \<^verbatim>\<open>MetricsHook\<close> with their latency histogram. The hook is modelled as
  sequential updates of a map from stage names to counters; the compare-and-swap loops that keep
  the extreme durations under concurrent calls are a step relation of their own. Of the derived
  numbers those that are floating point are left out, but for \<^verbatim>\<open>Percentile\<close>, whose two roundings are
  arguments.
\<close>

section \<open>Counters\<close>

definition maxInt64 :: int where
  "maxInt64 = 9223372036854775807"

definition numBuckets :: nat where
  "numBuckets = 11"

definition bucketBounds :: "int list" where
  "bucketBounds =
     [0, 100000, 500000, 1000000, 5000000, 10000000, 50000000, 100000000, 500000000, 1000000000, 5000000000,
      maxInt64]"

record stage_state =
  ms_processed :: int
  ms_errors :: int
  ms_skipped :: int
  ms_dropped :: int
  ms_restarts :: int
  ms_totalNs :: int
  ms_minNs :: int
  ms_maxNs :: int
  ms_buckets :: "int list"

definition new_stage_state :: stage_state where
  "new_stage_state =
     \<lparr>ms_processed = 0, ms_errors = 0, ms_skipped = 0, ms_dropped = 0, ms_restarts = 0, ms_totalNs = 0,
      ms_minNs = maxInt64, ms_maxNs = 0, ms_buckets = replicate numBuckets 0\<rparr>"

text \<open>The snapshot has the shape of the state; a minimum that was never set reads as 0.\<close>

definition metrics_snapshot :: "stage_state \<Rightarrow> stage_state" where
  "metrics_snapshot s = (if ms_minNs s = maxInt64 then s\<lparr>ms_minNs := 0\<rparr> else s)"

definition zero_metrics :: stage_state where
  "zero_metrics = new_stage_state\<lparr>ms_minNs := 0\<rparr>"

record ('g, 'q) metrics_hook =
  mh_stages :: "string \<rightharpoonup> stage_state"
  mh_graph :: "'g list"
  mh_buffers :: "'q option"
  mh_started :: int

definition NewMetricsHook :: "int \<Rightarrow> ('g, 'q) metrics_hook" where
  "NewMetricsHook now = \<lparr>mh_stages = Map.empty, mh_graph = [], mh_buffers = None, mh_started = now\<rparr>"

definition getOrCreate :: "string \<Rightarrow> ('g, 'q) metrics_hook \<Rightarrow> stage_state \<times> ('g, 'q) metrics_hook" where
  "getOrCreate stage m =
     (case mh_stages m stage of
        Some s \<Rightarrow> (s, m)
      | None \<Rightarrow> (new_stage_state, m\<lparr>mh_stages := (mh_stages m)(stage \<mapsto> new_stage_state)\<rparr>))"

text \<open>An update of the counters of a stage through the pointer \<^verbatim>\<open>getOrCreate\<close> returns.\<close>

definition on_stage :: "string \<Rightarrow> (stage_state \<Rightarrow> stage_state) \<Rightarrow> ('g, 'q) metrics_hook \<Rightarrow> ('g, 'q) metrics_hook" where
  "on_stage stage f m =
     (case getOrCreate stage m of (s, m) \<Rightarrow> m\<lparr>mh_stages := (mh_stages m)(stage \<mapsto> f s)\<rparr>)"

text \<open>The first bucket whose upper bound is above the duration, if any.\<close>

fun bucket_index :: "nat \<Rightarrow> nat \<Rightarrow> int \<Rightarrow> nat option" where
  "bucket_index 0 i ns = None"
| "bucket_index (Suc k) i ns = (if ns < bucketBounds ! (i + 1) then Some i else bucket_index k (Suc i) ns)"

definition record_ns :: "int \<Rightarrow> stage_state \<Rightarrow> stage_state" where
  "record_ns ns s =
     (if ns > 0 then
        s\<lparr>ms_totalNs := ms_totalNs s + ns,
          ms_minNs := (if ns \<ge> ms_minNs s then ms_minNs s else ns),
          ms_maxNs := (if ns \<le> ms_maxNs s then ms_maxNs s else ns),
          ms_buckets := (case bucket_index numBuckets 0 ns of
                           None \<Rightarrow> ms_buckets s
                         | Some i \<Rightarrow> (ms_buckets s)[i := ms_buckets s ! i + 1])\<rparr>
      else s)"

definition record_outcome :: "go_error option \<Rightarrow> stage_state \<Rightarrow> stage_state" where
  "record_outcome err s =
     (case err of
        None \<Rightarrow> s\<lparr>ms_processed := ms_processed s + 1\<rparr>
      | Some e \<Rightarrow> if e = ErrSkipped then s\<lparr>ms_skipped := ms_skipped s + 1\<rparr> else s\<lparr>ms_errors := ms_errors s + 1\<rparr>)"

definition record_item :: "int \<times> go_error option \<Rightarrow> stage_state \<Rightarrow> stage_state" where
  "record_item x s = record_outcome (snd x) (record_ns (fst x) s)"

definition OnStageStart :: "string \<Rightarrow> ('g, 'q) metrics_hook \<Rightarrow> ('g, 'q) metrics_hook" where
  "OnStageStart stage m = snd (getOrCreate stage m)"

definition OnItem :: "string \<Rightarrow> int \<Rightarrow> go_error option \<Rightarrow> ('g, 'q) metrics_hook \<Rightarrow> ('g, 'q) metrics_hook" where
  "OnItem stage ns err m = on_stage stage (record_item (ns, err)) m"

definition OnDrop :: "string \<Rightarrow> ('g, 'q) metrics_hook \<Rightarrow> ('g, 'q) metrics_hook" where
  "OnDrop stage m = on_stage stage (\<lambda>s. s\<lparr>ms_dropped := ms_dropped s + 1\<rparr>) m"

definition OnStageRestart :: "string \<Rightarrow> ('g, 'q) metrics_hook \<Rightarrow> ('g, 'q) metrics_hook" where
  "OnStageRestart stage m = on_stage stage (\<lambda>s. s\<lparr>ms_restarts := ms_restarts s + 1\<rparr>) m"

definition OnGraph :: "'g list \<Rightarrow> ('g, 'q) metrics_hook \<Rightarrow> ('g, 'q) metrics_hook" where
  "OnGraph nodes m = m\<lparr>mh_graph := nodes\<rparr>"

definition OnBuffers :: "'q \<Rightarrow> ('g, 'q) metrics_hook \<Rightarrow> ('g, 'q) metrics_hook" where
  "OnBuffers query m = m\<lparr>mh_buffers := Some query\<rparr>"

definition Stage :: "string \<Rightarrow> ('g, 'q) metrics_hook \<Rightarrow> stage_state" where
  "Stage name m = (case mh_stages m name of None \<Rightarrow> zero_metrics | Some s \<Rightarrow> metrics_snapshot s)"

record 'g metrics_snap =
  sn_timestamp :: int
  sn_elapsed :: int
  sn_stages :: "string \<rightharpoonup> stage_state"
  sn_graph :: "'g list"

definition Snapshot :: "int \<Rightarrow> ('g, 'q) metrics_hook \<Rightarrow> 'g metrics_snap" where
  "Snapshot now m =
     \<lparr>sn_timestamp = now, sn_elapsed = now - mh_started m,
      sn_stages = (\<lambda>name. map_option (\<lambda>_. Stage name m) (mh_stages m name)), sn_graph = mh_graph m\<rparr>"

definition metrics_Reset :: "int \<Rightarrow> ('g, 'q) metrics_hook \<Rightarrow> ('g, 'q) metrics_hook" where
  "metrics_Reset now m = m\<lparr>mh_stages := Map.empty, mh_started := now\<rparr>"

section \<open>Derived numbers\<close>

definition AvgLatency :: "stage_state \<Rightarrow> int" where
  "AvgLatency s = (if ms_processed s = 0 then 0 else ms_totalNs s div ms_processed s)"

definition MeanLatency :: "stage_state \<Rightarrow> int" where
  "MeanLatency s =
     (let total = ms_processed s + ms_errors s
      in if total = 0 \<or> ms_totalNs s = 0 then 0 else ms_totalNs s div total)"

text \<open>
  \<^verbatim>\<open>target\<close> is \<^verbatim>\<open>int64(math.Ceil(float64(total) * q))\<close>; \<^verbatim>\<open>interpolate lo hi k c\<close> is the bucket's lower
  bound plus the fraction \<^verbatim>\<open>k/c\<close> of its width, computed in floating point.
\<close>

fun percentile_scan ::
  "(int \<Rightarrow> int \<Rightarrow> int \<Rightarrow> int \<Rightarrow> int) \<Rightarrow> int \<Rightarrow> int \<Rightarrow> nat \<Rightarrow> int list \<Rightarrow> int" where
  "percentile_scan interpolate target cumulative i [] = bucketBounds ! (numBuckets - 1)"
| "percentile_scan interpolate target cumulative i (c # cs) =
     (if cumulative + c \<ge> target then
        (let lo = bucketBounds ! i; hi = bucketBounds ! (i + 1)
         in if hi = maxInt64 then lo else interpolate lo hi (target - cumulative) c)
      else percentile_scan interpolate target (cumulative + c) (Suc i) cs)"

definition Percentile ::
  "(int \<Rightarrow> int \<Rightarrow> int \<Rightarrow> int \<Rightarrow> int) \<Rightarrow> (int \<Rightarrow> int) \<Rightarrow> stage_state \<Rightarrow> int" where
  "Percentile interpolate ceil_part s =
     (let total = sum_list (ms_buckets s)
      in if total = 0 then 0
         else (let target = ceil_part total; target = (if target \<le> 0 then 1 else target)
               in percentile_scan interpolate target 0 0 (ms_buckets s)))"

section \<open>What the counters mean\<close>

text \<open>The positive durations of a list of calls of \<^verbatim>\<open>OnItem\<close>, and the counters after them.\<close>

definition durations :: "(int \<times> go_error option) list \<Rightarrow> int list" where
  "durations xs = filter (\<lambda>d. 0 < d) (map fst xs)"

definition after_items :: "(int \<times> go_error option) list \<Rightarrow> stage_state" where
  "after_items xs = foldl (\<lambda>s x. record_item x s) new_stage_state xs"

definition in_bucket :: "nat \<Rightarrow> int \<Rightarrow> bool" where
  "in_bucket i d = (bucketBounds ! i \<le> d \<and> d < bucketBounds ! (i + 1))"

lemma after_items_Nil [simp]: "after_items [] = new_stage_state"
  by (simp add: after_items_def)

lemma after_items_snoc: "after_items (xs @ [x]) = record_item x (after_items xs)"
  by (simp add: after_items_def)

lemma durations_simps [simp]:
  "durations [] = []" "durations (xs @ [x]) = durations xs @ (if 0 < fst x then [fst x] else [])"
  by (simp_all add: durations_def)

lemma record_item_fields [simp]:
  "ms_processed (record_item x s) = ms_processed s + (if snd x = None then 1 else 0)"
  "ms_skipped (record_item x s) = ms_skipped s + (if snd x = Some ErrSkipped then 1 else 0)"
  "ms_errors (record_item x s) = ms_errors s + (if snd x \<noteq> None \<and> snd x \<noteq> Some ErrSkipped then 1 else 0)"
  "ms_totalNs (record_item x s) = ms_totalNs s + (if 0 < fst x then fst x else 0)"
  "ms_minNs (record_item x s) = (if 0 < fst x then min (ms_minNs s) (fst x) else ms_minNs s)"
  "ms_maxNs (record_item x s) = (if 0 < fst x then max (ms_maxNs s) (fst x) else ms_maxNs s)"
  "ms_buckets (record_item x s) =
     (if 0 < fst x then
        (case bucket_index numBuckets 0 (fst x) of
           None \<Rightarrow> ms_buckets s | Some i \<Rightarrow> (ms_buckets s)[i := ms_buckets s ! i + 1])
      else ms_buckets s)"
  by (auto simp: record_item_def record_outcome_def record_ns_def min_def max_def split: option.splits)

lemma bounds_facts: "length bucketBounds = Suc numBuckets" "sorted bucketBounds" "bucketBounds ! 0 = 0"
  "bucketBounds ! numBuckets = maxInt64" "0 < numBuckets"
  by (simp_all add: bucketBounds_def numBuckets_def maxInt64_def)

lemma bucket_index_found:
  "d < bucketBounds ! (i + k) \<Longrightarrow> 0 < k \<Longrightarrow>
   \<exists>j. bucket_index k i d = Some j \<and> i \<le> j \<and> j < i + k \<and> d < bucketBounds ! (j + 1) \<and>
       (j = i \<or> bucketBounds ! j \<le> d)"
proof (induction k arbitrary: i)
  case (Suc k)
  show ?case
  proof (cases "d < bucketBounds ! (i + 1)")
    case False
    with Suc.prems have "0 < k" by (cases k) auto
    with Suc.IH [of "Suc i"] Suc.prems False show ?thesis by fastforce
  qed auto
qed simp

lemma in_bucket_unique:
  assumes "in_bucket i d" and "in_bucket j d" and "i < numBuckets" and "j < numBuckets"
  shows "i = j"
proof -
  have "\<not> (i < j)" if "in_bucket i d" "in_bucket j d" "j < numBuckets" for i j
    using that sorted_nth_mono [OF bounds_facts(2), of "i + 1" j] by (auto simp: in_bucket_def bounds_facts)
  from this [of i j] this [of j i] assms show ?thesis by auto
qed

lemma bucket_index_iff:
  assumes "0 < d" and "d < maxInt64"
  shows "\<exists>i<numBuckets. bucket_index numBuckets 0 d = Some i \<and> (\<forall>j<numBuckets. in_bucket j d = (j = i))"
proof -
  obtain i where i: "bucket_index numBuckets 0 d = Some i" "i < numBuckets" "d < bucketBounds ! (i + 1)"
      "i = 0 \<or> bucketBounds ! i \<le> d"
    using bucket_index_found [of d 0 numBuckets] assms bounds_facts by auto
  then have "in_bucket i d" using assms by (auto simp: in_bucket_def bounds_facts)
  with i in_bucket_unique show ?thesis by blast
qed

text \<open>A bucket holds the durations between its bounds.\<close>

lemma after_items_buckets:
  "(\<And>d. d \<in> set (durations xs) \<Longrightarrow> d < maxInt64) \<Longrightarrow>
   length (ms_buckets (after_items xs)) = numBuckets \<and>
   (\<forall>i<numBuckets. ms_buckets (after_items xs) ! i = int (length (filter (in_bucket i) (durations xs))))"
proof (induction xs rule: rev_induct)
  case (snoc x xs)
  show ?case
  proof (cases "0 < fst x")
    case True
    with snoc.prems [of "fst x"] bucket_index_iff obtain i where
      i: "i < numBuckets" "bucket_index numBuckets 0 (fst x) = Some i" "\<And>j. j < numBuckets \<Longrightarrow> in_bucket j (fst x) = (j = i)"
      by auto
    with snoc True show ?thesis by (auto simp: after_items_snoc nth_list_update)
  qed (use snoc in \<open>simp add: after_items_snoc\<close>)
qed (simp add: new_stage_state_def)

lemma after_items_counts:
  "ms_processed (after_items xs) = int (length (filter (\<lambda>x. snd x = None) xs))"
  "ms_skipped (after_items xs) = int (length (filter (\<lambda>x. snd x = Some ErrSkipped) xs))"
  "ms_errors (after_items xs) = int (length (filter (\<lambda>x. snd x \<noteq> None \<and> snd x \<noteq> Some ErrSkipped) xs))"
  "ms_totalNs (after_items xs) = sum_list (durations xs)"
  "ms_minNs (after_items xs) = foldl min maxInt64 (durations xs)"
  "ms_maxNs (after_items xs) = foldl max 0 (durations xs)"
  by (induction xs rule: rev_induct) (auto simp: after_items_snoc new_stage_state_def)

lemma filter_count_split:
  "length (filter (\<lambda>x. snd x = None) xs) + length (filter (\<lambda>x. snd x = Some ErrSkipped) xs) +
   length (filter (\<lambda>x. snd x \<noteq> None \<and> snd x \<noteq> Some ErrSkipped) xs) = length xs"
  by (induction xs) auto

lemma foldl_min_Min: "foldl min a xs = Min (insert a (set (xs :: int list)))"
  using Min.set_eq_fold [of a xs] by (simp add: foldl_conv_fold min.commute [of _ a] flip: list.simps(15))
    (simp add: min.commute)

lemma foldl_max_Max: "foldl max a xs = Max (insert a (set (xs :: int list)))"
  using Max.set_eq_fold [of a xs] by (simp add: foldl_conv_fold max.commute [of _ a] flip: list.simps(15))
    (simp add: max.commute)

text \<open>
  The counters after any sequence of calls of \<^verbatim>\<open>OnItem\<close>: every call is counted once, as processed,
  skipped or failed; the total is the sum of the positive durations, the extremes are their minimum
  and maximum, 0 when there are none; and every duration is in the bucket of its bounds.
\<close>

theorem metrics_exact:
  assumes "\<And>d. d \<in> set (durations xs) \<Longrightarrow> d < maxInt64"
  shows "ms_processed (after_items xs) + ms_skipped (after_items xs) + ms_errors (after_items xs) = int (length xs)
       \<and> ms_totalNs (after_items xs) = sum_list (durations xs)
       \<and> ms_minNs (metrics_snapshot (after_items xs)) = (if durations xs = [] then 0 else Min (set (durations xs)))
       \<and> ms_maxNs (metrics_snapshot (after_items xs)) = (if durations xs = [] then 0 else Max (set (durations xs)))
       \<and> ms_buckets (after_items xs) = map (\<lambda>i. int (length (filter (in_bucket i) (durations xs)))) [0..<numBuckets]"
proof (intro conjI)
  let ?s = "after_items xs" and ?ds = "durations xs"
  have pos: "\<And>d. d \<in> set ?ds \<Longrightarrow> 0 < d" by (auto simp: durations_def)
  show "ms_processed ?s + ms_skipped ?s + ms_errors ?s = int (length xs)"
    using filter_count_split [of xs] by (simp add: after_items_counts)
  show "ms_totalNs ?s = sum_list ?ds" by (simp add: after_items_counts)
  have mn: "Min (set ?ds) < maxInt64" if "?ds \<noteq> []" using that assms Min_in [of "set ?ds"] by simp
  then have "ms_minNs ?s = (if ?ds = [] then maxInt64 else Min (set ?ds))"
    by (simp add: after_items_counts foldl_min_Min Min_insert min_absorb2 less_imp_le)
  with mn show "ms_minNs (metrics_snapshot ?s) = (if ?ds = [] then 0 else Min (set ?ds))"
    by (auto simp: metrics_snapshot_def)
  have mx: "0 < Max (set ?ds)" if "?ds \<noteq> []" using that pos Max_in [of "set ?ds"] by simp
  then show "ms_maxNs (metrics_snapshot ?s) = (if ?ds = [] then 0 else Max (set ?ds))"
    by (simp add: metrics_snapshot_def after_items_counts foldl_max_Max Max_insert max_absorb2 less_imp_le)
  show "ms_buckets ?s = map (\<lambda>i. int (length (filter (in_bucket i) ?ds))) [0..<numBuckets]"
    using after_items_buckets [OF assms] by (intro nth_equalityI) auto
qed

theorem metrics_exact_witness:
  "ms_minNs (metrics_snapshot (after_items [(7, None), (0, None), (3, Some ErrSkipped), (600000, Some (Plain ''x''))])) = 3
   \<and> ms_buckets (after_items [(7, None), (0, None), (3, Some ErrSkipped), (600000, Some (Plain ''x''))]) =
       [2, 0, 1, 0, 0, 0, 0, 0, 0, 0, 0]"
  (is "ms_minNs (metrics_snapshot (after_items ?xs)) = 3 \<and> _")
proof -
  have small: "\<And>d. d \<in> set (durations ?xs) \<Longrightarrow> d < maxInt64" by (auto simp: durations_def maxInt64_def)
  from metrics_exact [of ?xs, OF small] show ?thesis
    by (simp add: durations_def in_bucket_def bucketBounds_def numBuckets_def upt_rec del: upt_Suc)
qed

text \<open>
  The average is documented as that of the items processed successfully. The total it divides has the
  durations of failed and skipped items too, the count it divides by has not.
\<close>

theorem avg_latency_counts_failures:
  "AvgLatency (after_items [(10, None), (90, Some (Plain ''x'')), (50, Some ErrSkipped)]) = 150
   \<and> MeanLatency (after_items [(10, None), (90, Some (Plain ''x'')), (50, Some ErrSkipped)]) = 75"
  by (simp add: AvgLatency_def MeanLatency_def after_items_counts durations_def Let_def)

section \<open>Percentiles\<close>

lemma sorted_nth_less_iff:
  "sorted xs \<Longrightarrow> k < length xs \<Longrightarrow> (xs ! k < b) = (k < length (filter (\<lambda>x. x < b) (xs :: int list)))"
proof (induction xs arbitrary: k)
  case (Cons x xs)
  show ?case
  proof (cases k)
    case 0
    from Cons.prems show ?thesis unfolding 0 by (auto simp: filter_empty_conv)
  next
    case (Suc j)
    have "filter (\<lambda>y. y < b) xs = []" if "\<not> x < b" using Cons.prems(1) that by (auto simp: filter_empty_conv)
    with Cons Suc show ?thesis by auto
  qed
qed simp

lemma filter_sort_length: "length (filter P (sort xs)) = length (filter P xs)"
  by (metis mset_filter mset_sort size_mset)

lemma filter_below_split:
  assumes "i < numBuckets"
  shows "length (filter (\<lambda>d. d < bucketBounds ! Suc i) ds) =
         length (filter (\<lambda>d. d < bucketBounds ! i) ds) + length (filter (in_bucket i) ds)"
proof -
  have "bucketBounds ! i \<le> bucketBounds ! Suc i"
    using sorted_nth_mono [OF bounds_facts(2), of i "Suc i"] assms by (simp add: bounds_facts)
  then show ?thesis by (induction ds) (auto simp: in_bucket_def)
qed

lemma percentile_scan_bucket:
  assumes law: "\<And>lo hi k c. 0 < k \<Longrightarrow> k \<le> c \<Longrightarrow> lo \<le> hi \<Longrightarrow> lo \<le> interpolate lo hi k c \<and> interpolate lo hi k c \<le> hi"
    and below: "\<And>d. d \<in> set ds \<Longrightarrow> d < maxInt64" and t: "0 < t" "t \<le> length ds"
  shows "i + length cs = numBuckets \<Longrightarrow>
    cs = map (\<lambda>i. int (length (filter (in_bucket i) ds))) [i..<numBuckets] \<Longrightarrow>
    length (filter (\<lambda>d. d < bucketBounds ! i) ds) < t \<Longrightarrow>
    \<exists>j<numBuckets. in_bucket j (sort ds ! (t - 1)) \<and>
      bucketBounds ! j \<le> percentile_scan interpolate (int t) (int (length (filter (\<lambda>d. d < bucketBounds ! i) ds))) i cs \<and>
      percentile_scan interpolate (int t) (int (length (filter (\<lambda>d. d < bucketBounds ! i) ds))) i cs \<le> bucketBounds ! (j + 1)"
proof (induction cs arbitrary: i)
  case Nil
  then have "length (filter (\<lambda>d. d < maxInt64) ds) < t" by (simp add: bounds_facts)
  moreover have "filter (\<lambda>d. d < maxInt64) ds = ds" using below by (simp add: filter_id_conv)
  ultimately show ?case using t by simp
next
  case (Cons c cs)
  from Cons.prems(1) have i: "i < numBuckets" by simp
  let ?cum = "length (filter (\<lambda>d. d < bucketBounds ! i) ds)"
  have c: "c = int (length (filter (in_bucket i) ds))" and cs: "cs = map (\<lambda>i. int (length (filter (in_bucket i) ds))) [Suc i..<numBuckets]"
    using Cons.prems(2) i by (auto simp: upt_conv_Cons)
  have cum: "int ?cum + c = int (length (filter (\<lambda>d. d < bucketBounds ! Suc i) ds))"
    using filter_below_split [OF i, of ds] c by simp
  have k: "t - 1 < length (sort ds)" using t by simp
  show ?case
  proof (cases "int ?cum + c \<ge> int t")
    case True
    have lohi: "bucketBounds ! i \<le> bucketBounds ! Suc i"
      using sorted_nth_mono [OF bounds_facts(2), of i "Suc i"] i by (simp add: bounds_facts)
    have "\<not> sort ds ! (t - 1) < bucketBounds ! i"
      using sorted_nth_less_iff [OF sorted_sort k, of "bucketBounds ! i"] Cons.prems(3) t
      by (simp add: filter_sort_length)
    moreover have "sort ds ! (t - 1) < bucketBounds ! Suc i"
      using sorted_nth_less_iff [OF sorted_sort k, of "bucketBounds ! Suc i"] True cum t
      by (simp add: filter_sort_length)
    ultimately have "in_bucket i (sort ds ! (t - 1))" by (simp add: in_bucket_def)
    moreover have "bucketBounds ! i \<le> interpolate (bucketBounds ! i) (bucketBounds ! Suc i) (int t - int ?cum) c \<and>
        interpolate (bucketBounds ! i) (bucketBounds ! Suc i) (int t - int ?cum) c \<le> bucketBounds ! Suc i"
      using law [of "int t - int ?cum" c, OF _ _ lohi] True Cons.prems(3) by simp
    ultimately show ?thesis using True i lohi by (intro exI [of _ i]) (simp add: Let_def)
  next
    case False
    have step: "percentile_scan interpolate (int t) (int ?cum) i (c # cs) =
        percentile_scan interpolate (int t) (int (length (filter (\<lambda>d. d < bucketBounds ! Suc i) ds))) (Suc i) cs"
      using False cum by simp
    show ?thesis unfolding step
      by (rule Cons.IH [OF _ cs]) (use Cons.prems(1) False cum in simp_all)
  qed
qed

text \<open>
  \<^verbatim>\<open>Percentile\<close> is exact up to the width of a bucket: for a target rank between 1 and the number of
  durations, the duration of that rank is in a bucket, and the answer lies within the bounds of the
  same bucket, however the interpolation rounds.
\<close>

theorem percentile_in_bucket:
  assumes "\<And>lo hi k c. 0 < k \<Longrightarrow> k \<le> c \<Longrightarrow> lo \<le> hi \<Longrightarrow> lo \<le> interpolate lo hi k c \<and> interpolate lo hi k c \<le> hi"
    and "\<And>d. d \<in> set (durations xs) \<Longrightarrow> d < maxInt64"
    and "ceil_part (int (length (durations xs))) = int t" and "0 < t" and "t \<le> length (durations xs)"
  shows "\<exists>j<numBuckets. in_bucket j (sort (durations xs) ! (t - 1)) \<and>
      bucketBounds ! j \<le> Percentile interpolate ceil_part (after_items xs) \<and>
      Percentile interpolate ceil_part (after_items xs) \<le> bucketBounds ! (j + 1)"
proof -
  let ?ds = "durations xs"
  have bs: "ms_buckets (after_items xs) = map (\<lambda>i. int (length (filter (in_bucket i) ?ds))) [0..<numBuckets]"
    using metrics_exact [OF assms(2)] by blast
  have none: "filter (\<lambda>d. d < bucketBounds ! 0) ?ds = []"
    by (auto simp: filter_empty_conv bounds_facts durations_def)
  have "n \<le> numBuckets \<Longrightarrow> (\<Sum>i\<leftarrow>[0..<n]. int (length (filter (in_bucket i) ?ds))) = int (length (filter (\<lambda>d. d < bucketBounds ! n) ?ds))" for n
    by (induction n) (simp_all add: none filter_below_split)
  from this [of numBuckets] have "sum_list (ms_buckets (after_items xs)) = int (length (filter (\<lambda>d. d < maxInt64) ?ds))"
    by (simp add: bs bounds_facts)
  also have "filter (\<lambda>d. d < maxInt64) ?ds = ?ds" using assms(2) by (simp add: filter_id_conv)
  finally have total: "sum_list (ms_buckets (after_items xs)) = int (length ?ds)" .
  have "Percentile interpolate ceil_part (after_items xs) =
      percentile_scan interpolate (int t) (int (length (filter (\<lambda>d. d < bucketBounds ! 0) ?ds))) 0 (ms_buckets (after_items xs))"
    using assms(3-5) by (auto simp: Percentile_def total none)
  then show ?thesis
    using percentile_scan_bucket [where interpolate = interpolate and ds = "durations xs" and i = 0
        and cs = "ms_buckets (after_items xs)", OF assms(1,2,4,5)] assms(4)
    by (simp add: bs none)
qed

theorem percentile_in_bucket_witness:
  "\<exists>j<numBuckets. in_bucket j 700000 \<and>
     Percentile (\<lambda>lo hi k c. lo + k * (hi - lo) div c) (\<lambda>n. (n + 1) div 2) (after_items [(7, None), (700000, None), (800000, None)])
       \<le> bucketBounds ! (j + 1)"
proof -
  let ?xs = "[(7, None), (700000, None), (800000, None)] :: (int \<times> go_error option) list"
  have law: "lo \<le> lo + k * (hi - lo) div c \<and> lo + k * (hi - lo) div c \<le> hi"
    if "0 < k" "k \<le> c" "lo \<le> hi" for lo hi k c :: int
  proof -
    have "k * (hi - lo) \<le> c * (hi - lo)" using that by (simp add: mult_right_mono)
    then have "k * (hi - lo) div c \<le> hi - lo" using that zdiv_mono1 [of "k * (hi - lo)" "c * (hi - lo)" c] by simp
    moreover have "0 \<le> k * (hi - lo) div c" using that by (simp add: pos_imp_zdiv_nonneg_iff)
    ultimately show ?thesis by simp
  qed
  have small: "\<And>d. d \<in> set (durations ?xs) \<Longrightarrow> d < maxInt64" by (auto simp: durations_def maxInt64_def)
  have "(int (length (durations ?xs)) + 1) div 2 = int 2" by (simp add: durations_def)
  from percentile_in_bucket [where ceil_part = "\<lambda>n. (n + 1) div 2" and xs = ?xs, OF law small this] show ?thesis
    by (fastforce simp: durations_def)
qed

section \<open>The compare-and-swap loops\<close>

text \<open>
  Concurrent calls of \<^verbatim>\<open>OnItem\<close> keep an extreme value in an atomic cell: load it, give up when the own
  value is no better, else try to swap, and start again when another call was faster. \<^verbatim>\<open>vs ! i\<close> is
  the value of call \<^verbatim>\<open>i\<close>.
\<close>

datatype cas_pc = CasLoad | CasTry int | CasDone

record cas =
  cas_cell :: int
  cas_pcs :: "nat \<Rightarrow> cas_pc"

definition cas_init :: "int \<Rightarrow> cas" where
  "cas_init v0 = \<lparr>cas_cell = v0, cas_pcs = (\<lambda>_. CasLoad)\<rparr>"

inductive cas_step :: "(int \<Rightarrow> int \<Rightarrow> bool) \<Rightarrow> int list \<Rightarrow> cas \<Rightarrow> cas \<Rightarrow> bool"
  for better :: "int \<Rightarrow> int \<Rightarrow> bool" and vs :: "int list" where
  cas_load: "i < length vs \<Longrightarrow> cas_pcs s i = CasLoad \<Longrightarrow> better (vs ! i) (cas_cell s) \<Longrightarrow>
     cas_step better vs s (s\<lparr>cas_pcs := (cas_pcs s)(i := CasTry (cas_cell s))\<rparr>)"
| cas_give_up: "i < length vs \<Longrightarrow> cas_pcs s i = CasLoad \<Longrightarrow> \<not> better (vs ! i) (cas_cell s) \<Longrightarrow>
     cas_step better vs s (s\<lparr>cas_pcs := (cas_pcs s)(i := CasDone)\<rparr>)"
| cas_swap: "i < length vs \<Longrightarrow> cas_pcs s i = CasTry old \<Longrightarrow> cas_cell s = old \<Longrightarrow>
     cas_step better vs s (s\<lparr>cas_cell := vs ! i, cas_pcs := (cas_pcs s)(i := CasDone)\<rparr>)"
| cas_retry: "i < length vs \<Longrightarrow> cas_pcs s i = CasTry old \<Longrightarrow> cas_cell s \<noteq> old \<Longrightarrow>
     cas_step better vs s (s\<lparr>cas_pcs := (cas_pcs s)(i := CasLoad)\<rparr>)"

inductive cas_reach :: "(int \<Rightarrow> int \<Rightarrow> bool) \<Rightarrow> int list \<Rightarrow> int \<Rightarrow> cas \<Rightarrow> bool"
  for better :: "int \<Rightarrow> int \<Rightarrow> bool" and vs :: "int list" and v0 :: int where
  cas_start: "cas_reach better vs v0 (cas_init v0)"
| cas_next: "cas_reach better vs v0 s \<Longrightarrow> cas_step better vs s s' \<Longrightarrow> cas_reach better vs v0 s'"

text \<open>What the loops need of the order they keep the best of.\<close>

locale cas_order =
  fixes better :: "int \<Rightarrow> int \<Rightarrow> bool"
  assumes better_trans: "better a b \<Longrightarrow> better b c \<Longrightarrow> better a c"
    and better_irrefl: "\<not> better a a"
    and better_total: "a \<noteq> b \<Longrightarrow> better a b \<or> better b a"
begin

definition cas_ok :: "int list \<Rightarrow> int \<Rightarrow> cas \<Rightarrow> bool" where
  "cas_ok vs v0 s =
     ((cas_cell s = v0 \<or> cas_cell s \<in> set vs) \<and> \<not> better v0 (cas_cell s) \<and>
      (\<forall>i < length vs. cas_pcs s i = CasDone \<longrightarrow> \<not> better (vs ! i) (cas_cell s)) \<and>
      (\<forall>i < length vs. \<forall>old. cas_pcs s i = CasTry old \<longrightarrow> better (vs ! i) old))"

lemma not_better_trans: "\<not> better a b \<Longrightarrow> better c b \<Longrightarrow> \<not> better a c"
  using better_trans by blast

lemma cas_step_ok: "cas_step better vs s s' \<Longrightarrow> cas_ok vs v0 s \<Longrightarrow> cas_ok vs v0 s'"
proof (induction rule: cas_step.induct)
  case (cas_swap i s old)
  then have b: "better (vs ! i) (cas_cell s)" by (auto simp: cas_ok_def)
  from cas_swap b show ?case
    by (auto simp: cas_ok_def better_irrefl dest: not_better_trans [OF _ b])
qed (auto simp: cas_ok_def)

lemma cas_reach_ok: "cas_reach better vs v0 s \<Longrightarrow> cas_ok vs v0 s"
proof (induction rule: cas_reach.induct)
  case cas_start
  show ?case by (simp add: cas_ok_def cas_init_def better_irrefl)
qed (rule cas_step_ok)

lemma cas_final:
  assumes "cas_reach better vs v0 s" and "\<forall>i < length vs. cas_pcs s i = CasDone"
  shows "cas_cell s \<in> insert v0 (set vs) \<and> (\<forall>v \<in> insert v0 (set vs). \<not> better v (cas_cell s))"
  using cas_reach_ok [OF assms(1)] assms(2) by (auto simp: cas_ok_def in_set_conv_nth)

text \<open>A swap is refused only when another call has improved the cell in between.\<close>

lemma cas_live:
  assumes "i < length vs" and "cas_pcs s i \<noteq> CasDone"
  shows "\<exists>s'. cas_step better vs s s'"
proof (cases "cas_pcs s i")
  case CasLoad
  with assms(1) show ?thesis
    by (cases "better (vs ! i) (cas_cell s)") (blast intro: cas_step.cas_load cas_step.cas_give_up)+
next
  case (CasTry old)
  with assms(1) show ?thesis
    by (cases "cas_cell s = old") (blast intro: cas_step.cas_swap cas_step.cas_retry)+
qed (use assms in simp)

end

interpretation cas_min: cas_order "\<lambda>a b. a < b"
  by unfold_locales auto

interpretation cas_max: cas_order "\<lambda>a b. b < a"
  by unfold_locales auto

text \<open>
  C17: However the calls interleave, when all have finished the cells hold the minimum and the maximum of
  the durations, which is what calling \<^verbatim>\<open>OnItem\<close> one after the other gives.
\<close>

theorem cas_loops_exact:
  assumes "cas_reach (\<lambda>a b. a < b) (durations xs) maxInt64 s" and "\<forall>i < length (durations xs). cas_pcs s i = CasDone"
    and "cas_reach (\<lambda>a b. b < a) (durations xs) 0 t" and "\<forall>i < length (durations xs). cas_pcs t i = CasDone"
  shows "cas_cell s = ms_minNs (after_items xs) \<and> cas_cell t = ms_maxNs (after_items xs)"
  using cas_min.cas_final [OF assms(1,2)] cas_max.cas_final [OF assms(3,4)]
  by (auto simp: after_items_counts foldl_min_Min foldl_max_Max not_less intro!: Min_eqI [symmetric] Max_eqI [symmetric])

theorem cas_loops_exact_witness:
  "ms_minNs (after_items [(7, None)]) = 7 \<and> ms_maxNs (after_items [(7, None)]) = 7"
proof -
  have d: "durations [(7, None)] = [7]" by (simp add: durations_def)
  note s = cas_next [OF cas_next [OF cas_start [of "\<lambda>a b. a < b" "[7]" maxInt64] cas_step.cas_load [of 0]]
      cas_step.cas_swap [of 0 _ _ maxInt64], simplified cas_init_def maxInt64_def, simplified]
  note t = cas_next [OF cas_next [OF cas_start [of "\<lambda>a b. b < a" "[7]" 0] cas_step.cas_load [of 0]]
      cas_step.cas_swap [of 0 _ _ 0], simplified cas_init_def, simplified]
  show ?thesis
    using cas_loops_exact [of "[(7, None)]", unfolded d, OF s [folded maxInt64_def] _ t]
    by (simp add: maxInt64_def)
qed

end
