(* ===== verification/Run_Control.thy ===== *)
theory Run_Control
  imports Map_Ops Runner
begin

text \<open>
  \<^verbatim>\<open>RunAsync\<close> and its handle, the description of the graph given to hooks (\<^verbatim>\<open>kitsune.go\<close>), and the
  report of which stages run on the fast path (\<^verbatim>\<open>optimized.go\<close>).
\<close>

section \<open>RunAsync\<close>

text \<open>
  The goroutine of \<^verbatim>\<open>RunAsync\<close> assigns the two results of \<^verbatim>\<open>Run\<close>, one after the other, and then closes
  \<^verbatim>\<open>done\<close>.
\<close>

datatype run_phase = RunActive | SummaryWritten | ErrWritten | DoneClosed

record run_handle =
  rh_phase :: run_phase
  rh_err :: "go_error option"
  rh_summary :: run_summary
  rh_gate :: gate

definition zero_summary :: run_summary where
  "zero_summary = \<lparr>sm_outcome = RunSuccess, sm_err = None, sm_effects = Map.empty, sm_finalizer_errs = []\<rparr>"

text \<open>The argument is the gate of the options, if any; the result the handle and the gate the run uses.\<close>

definition RunAsync :: "gate option \<Rightarrow> run_handle \<times> gate" where
  "RunAsync cfg_gate =
     (let g = (case cfg_gate of Some g \<Rightarrow> g | None \<Rightarrow> NewGate)
      in (\<lparr>rh_phase = RunActive, rh_err = None, rh_summary = zero_summary, rh_gate = g\<rparr>, g))"

fun rh_finish :: "run_summary \<times> go_error option \<Rightarrow> run_handle \<Rightarrow> run_handle" where
  "rh_finish r h =
     (case rh_phase h of
        RunActive \<Rightarrow> h\<lparr>rh_summary := fst r, rh_phase := SummaryWritten\<rparr>
      | SummaryWritten \<Rightarrow> h\<lparr>rh_err := snd r, rh_phase := ErrWritten\<rparr>
      | ErrWritten \<Rightarrow> h\<lparr>rh_phase := DoneClosed\<rparr>
      | DoneClosed \<Rightarrow> h)"

definition rh_Done :: "run_handle \<Rightarrow> bool" where
  "rh_Done h = (rh_phase h = DoneClosed)"

text \<open>\<^verbatim>\<open>None\<close> is a call that still blocks.\<close>

definition rh_Wait :: "run_handle \<Rightarrow> (run_summary \<times> go_error option) option" where
  "rh_Wait h = (if rh_Done h then Some (rh_summary h, rh_err h) else None)"

definition rh_Err :: "run_handle \<Rightarrow> go_error option" where
  "rh_Err h = (if rh_Done h then rh_err h else None)"

definition rh_Summary :: "run_handle \<Rightarrow> run_summary" where
  "rh_Summary h = (if rh_Done h then rh_summary h else zero_summary)"

definition rh_Pause :: "run_handle \<Rightarrow> run_handle" where
  "rh_Pause h = h\<lparr>rh_gate := gate_Pause (rh_gate h)\<rparr>"

definition rh_Resume :: "run_handle \<Rightarrow> run_handle" where
  "rh_Resume h = h\<lparr>rh_gate := gate_Resume (rh_gate h)\<rparr>"

definition rh_Paused :: "run_handle \<Rightarrow> bool" where
  "rh_Paused h = gate_Paused (rh_gate h)"

text \<open>A handle during a run whose result is \<^verbatim>\<open>r\<close>, used by any number of goroutines.\<close>

inductive handle_reach :: "run_summary \<times> go_error option \<Rightarrow> run_handle \<Rightarrow> bool" for r where
  handle_start: "handle_reach r (fst (RunAsync cfg_gate))"
| handle_finish: "handle_reach r h \<Longrightarrow> handle_reach r (rh_finish r h)"
| handle_pause: "handle_reach r h \<Longrightarrow> handle_reach r (rh_Pause h)"
| handle_resume: "handle_reach r h \<Longrightarrow> handle_reach r (rh_Resume h)"

lemma handle_phases:
  "handle_reach r h \<Longrightarrow>
   (rh_phase h \<noteq> RunActive \<longrightarrow> rh_summary h = fst r) \<and>
   (rh_phase h = ErrWritten \<or> rh_phase h = DoneClosed \<longrightarrow> rh_err h = snd r)"
  by (induction rule: handle_reach.induct)
    (auto simp: RunAsync_def Let_def rh_Pause_def rh_Resume_def split: run_phase.splits)

text \<open>
  A handle never shows a part of the result: \<^verbatim>\<open>Wait\<close> returns the result of the run or blocks, \<^verbatim>\<open>Err\<close> and
  \<^verbatim>\<open>Summary\<close> give it or the zero value, and once \<^verbatim>\<open>Done\<close> is closed it stays so and they agree for
  ever. Pausing and resuming change none of this.
\<close>

theorem handle_all_or_nothing:
  assumes "handle_reach r h"
  shows "rh_Wait h = (if rh_Done h then Some r else None)
       \<and> rh_Err h = (if rh_Done h then snd r else None)
       \<and> rh_Summary h = (if rh_Done h then fst r else zero_summary)
       \<and> rh_Paused (rh_Pause h) \<and> \<not> rh_Paused (rh_Resume h)
       \<and> rh_Done (rh_Pause h) = rh_Done h \<and> rh_Done (rh_Resume h) = rh_Done h
       \<and> (\<not> rh_Done h \<or> rh_finish r h = h)
       \<and> rh_Done (rh_finish r (rh_finish r (rh_finish r h)))"
  using handle_phases [OF assms]
  by (cases "rh_phase h")
    (auto simp: rh_Wait_def rh_Err_def rh_Summary_def rh_Done_def rh_Paused_def rh_Pause_def rh_Resume_def
      gate_Paused_def gate_Pause_def gate_Resume_def split: option.splits)

theorem handle_all_or_nothing_witness:
  "rh_Wait (rh_finish (zero_summary, Some Canceled) (fst (RunAsync None))) = None
   \<and> rh_Paused (rh_Pause (rh_finish (zero_summary, Some Canceled) (fst (RunAsync None))))"
  using handle_all_or_nothing [OF handle_finish [OF handle_start, of "(zero_summary, Some Canceled)" None]]
  by (simp add: rh_Done_def RunAsync_def Let_def)

section \<open>The graph\<close>

record graph_node =
  gn_id :: stage_id
  gn_name :: string
  gn_kind :: string
  gn_inputs :: "stage_id list"
  gn_concurrency :: int
  gn_buffer :: nat
  gn_overflow :: overflow
  gn_batch_size :: int
  gn_timeout :: duration
  gn_has_retry :: bool
  gn_has_supervision :: bool
  gn_segment :: string
  gn_is_effect :: bool
  gn_effect_required :: bool

definition graph_node_of :: "stage_meta \<Rightarrow> graph_node" where
  "graph_node_of m =
     \<lparr>gn_id = meta_id m, gn_name = meta_name m, gn_kind = meta_kind m, gn_inputs = meta_inputs m,
      gn_concurrency = meta_concurrency m, gn_buffer = meta_buffer m, gn_overflow = meta_overflow m,
      gn_batch_size = meta_batch_size m, gn_timeout = meta_timeout m, gn_has_retry = meta_has_retry m,
      gn_has_supervision = meta_has_superv m, gn_segment = meta_segment m, gn_is_effect = meta_is_effect m,
      gn_effect_required = meta_effect_required m\<rparr>"

definition metasToGraphNodes :: "stage_meta list \<Rightarrow> graph_node list" where
  "metasToGraphNodes metas = map graph_node_of metas"

text \<open>
  The graph a hook is given for a well-formed run has one node per registered stage, in build order; the
  node of a stage that owns channels has the ID of the first of them, and no two of these IDs are the same.
\<close>

theorem graph_export_closed:
  assumes "build_inv rc"
  shows "length (metasToGraphNodes (rc_metas rc)) = length (rc_stages rc)
       \<and> (\<forall>k < length (rc_stages rc). sf_outs (rc_stages rc ! k) \<noteq> [] \<longrightarrow>
            gn_id (metasToGraphNodes (rc_metas rc) ! k) = hd (sf_outs (rc_stages rc ! k)))
       \<and> distinct (map (hd \<circ> sf_outs) (filter (\<lambda>fn. sf_outs fn \<noteq> []) (rc_stages rc)))"
proof -
  have corr: "list_all2 (\<lambda>m fn. sf_outs fn \<noteq> [] \<longrightarrow> meta_id m = hd (sf_outs fn)) (rc_metas rc) (rc_stages rc)"
    using assms by (simp add: build_inv_def)
  have heads: "distinct (concat (map sf_outs ss)) \<Longrightarrow> distinct (map (hd \<circ> sf_outs) (filter (\<lambda>fn. sf_outs fn \<noteq> []) ss))" for ss
  proof (induction ss)
    case (Cons a ss)
    have "hd (sf_outs a) \<noteq> hd (sf_outs fn)" if fn: "fn \<in> set ss" "sf_outs a \<noteq> []" "sf_outs fn \<noteq> []" for fn
    proof
      assume eq: "hd (sf_outs a) = hd (sf_outs fn)"
      have "hd (sf_outs a) \<in> set (sf_outs a)" using fn(2) by simp
      moreover have "hd (sf_outs fn) \<in> set (concat (map sf_outs ss))"
        using fn(1) hd_in_set [OF fn(3)] by auto
      moreover note eq
      ultimately show False using Cons.prems by auto
    qed
    with Cons show ?case by auto
  qed simp
  have "distinct (concat (map sf_outs (rc_stages rc)))" using assms by (simp add: build_inv_def)
  with heads list_all2_lengthD [OF corr] list_all2_nthD2 [OF corr] show ?thesis
    by (auto simp: metasToGraphNodes_def graph_node_of_def)
qed

theorem graph_export_closed_witness: "length (metasToGraphNodes (rc_metas newRunCtx)) = 0"
  using graph_export_closed [of newRunCtx] by (simp add: build_inv_def newRunCtx_def)

section \<open>The optimization report\<close>

text \<open>The reasons are strings in the code; here they carry what the strings are formatted from.\<close>

datatype reason =
    RConcurrency int | RSupervise | ROverflow overflow | RTimeout duration
  | ROnErrorOrCache | ROnError | RHook | RErrorStrategy | RNoConsumer | RFanOut nat

record opt_report =
  or_name :: string
  or_kind :: string
  or_supports :: bool
  or_fast :: bool
  or_fused :: bool
  or_reasons :: "reason list"

definition fast_path_reasons :: "stage_meta \<Rightarrow> bool \<Rightarrow> 'v handler option \<Rightarrow> reason list" where
  "fast_path_reasons m noop_hook defaultEH =
     (if meta_concurrency m > 1 then [RConcurrency (meta_concurrency m)] else []) @
     (if meta_has_superv m then [RSupervise] else []) @
     (if meta_overflow m \<noteq> OverflowBlock then [ROverflow (meta_overflow m)] else []) @
     (if meta_timeout m > 0 then [RTimeout (meta_timeout m)] else []) @
     (if \<not> meta_fast_cfg m \<and> meta_concurrency m \<le> 1 \<and> \<not> meta_has_superv m \<and>
         meta_overflow m = OverflowBlock \<and> meta_timeout m = 0
      then [if meta_kind m = ''map'' then ROnErrorOrCache else ROnError] else []) @
     (if \<not> noop_hook then [RHook] else []) @
     (if \<not> IsDefaultHandler defaultEH then [RErrorStrategy] else [])"

text \<open>\<^verbatim>\<open>consumers\<close> is \<^verbatim>\<open>getConsumerCount\<close>, \<^verbatim>\<open>None\<close> when it is nil.\<close>

definition optimizationReportForMeta ::
  "stage_meta \<Rightarrow> nat option \<Rightarrow> bool \<Rightarrow> 'v handler option \<Rightarrow> opt_report" where
  "optimizationReportForMeta m consumers noop_hook defaultEH =
     (let r = \<lparr>or_name = meta_name m, or_kind = meta_kind m, or_supports = meta_supports_fast m,
               or_fast = False, or_fused = False, or_reasons = []\<rparr>
      in if \<not> meta_supports_fast m then r
         else (let reasons = fast_path_reasons m noop_hook defaultEH;
                   r = r\<lparr>or_fast := (reasons = [])\<rparr>
               in if or_fast r \<and> meta_fusion m then
                    (case consumers of
                       None \<Rightarrow> r\<lparr>or_reasons := reasons @ [RNoConsumer]\<rparr>
                     | Some n \<Rightarrow>
                         if n = 1 then r\<lparr>or_fused := True, or_reasons := reasons\<rparr>
                         else if n = 0 then r\<lparr>or_reasons := reasons @ [RNoConsumer]\<rparr>
                         else r\<lparr>or_reasons := reasons @ [RFanOut n]\<rparr>)
                  else r\<lparr>or_reasons := reasons\<rparr>))"

definition IsOptimized ::
  "(stage_meta \<times> nat option) list \<Rightarrow> bool \<Rightarrow> 'v handler option \<Rightarrow> opt_report list" where
  "IsOptimized metas noop_hook defaultEH =
     map (\<lambda>(m, c). optimizationReportForMeta m c noop_hook defaultEH) metas"

definition IsFastPath :: "(stage_meta \<times> nat option) list \<Rightarrow> bool \<Rightarrow> 'v handler option \<Rightarrow> bool" where
  "IsFastPath metas noop_hook defaultEH =
     list_all (\<lambda>r. \<not> (or_supports r \<and> \<not> or_fast r)) (IsOptimized metas noop_hook defaultEH)"

text \<open>The meta data \<^verbatim>\<open>Map\<close> and \<^verbatim>\<open>Filter\<close> register, as far as the report reads it.\<close>

definition map_meta :: "('a, 'v) stage_config \<Rightarrow> stage_id \<Rightarrow> stage_id \<Rightarrow> stage_meta" where
  "map_meta cfg i p =
     (let fast = isFastPathEligibleCfg cfg \<and> \<not> cfg_cache cfg
      in (stageMeta i ''map'' (orDefault (cfg_name cfg) ''map'') (cfg_buffer cfg) [p])
           \<lparr>meta_concurrency := cfg_concurrency cfg, meta_overflow := cfg_overflow cfg,
            meta_timeout := cfg_timeout cfg, meta_has_retry := \<not> IsDefaultHandler (cfg_handler cfg),
            meta_has_superv := HasSupervision (cfg_supervision cfg), meta_supports_fast := True,
            meta_fast_cfg := fast, meta_fusion := fast\<rparr>)"

definition filter_meta :: "('a, 'v) stage_config \<Rightarrow> stage_id \<Rightarrow> stage_id \<Rightarrow> stage_meta" where
  "filter_meta cfg i p =
     (stageMeta i ''filter'' (orDefault (cfg_name cfg) ''filter'') (cfg_buffer cfg) [p])
       \<lparr>meta_concurrency := cfg_concurrency cfg, meta_overflow := cfg_overflow cfg,
        meta_timeout := cfg_timeout cfg, meta_has_superv := HasSupervision (cfg_supervision cfg),
        meta_supports_fast := True, meta_fast_cfg := isFastPathEligibleCfg cfg,
        meta_fusion := isFastPathEligibleCfg cfg\<rparr>"

text \<open>\<^verbatim>\<open>Filter\<close> picks its path from its own options and the hook; it does not resolve the handler.\<close>

definition filter_fast :: "('a, 'v) stage_config \<Rightarrow> bool \<Rightarrow> bool" where
  "filter_fast cfg noop_hook = isFastPathEligible cfg noop_hook"

lemma report_fast:
  "or_fast (optimizationReportForMeta m c noop_hook eh) =
     (meta_supports_fast m \<and> fast_path_reasons m noop_hook eh = [])"
  by (simp add: optimizationReportForMeta_def Let_def split: option.splits)

lemma map_report_reasons:
  assumes "0 \<le> cfg_timeout cfg"
  shows "(fast_path_reasons (map_meta cfg i p) noop_hook eh = []) =
     (isFastPathEligibleCfg cfg \<and> \<not> cfg_cache cfg \<and> noop_hook \<and> IsDefaultHandler eh)"
  using assms
  by (auto simp: fast_path_reasons_def map_meta_def Let_def stageMeta_def isFastPathEligibleCfg_def)

text \<open>
  The report on \<^verbatim>\<open>Map\<close> is right: it says fast path exactly when the run will take it, unless the
  stage asks for the default handler by name under a run that has another one, where it takes the
  fast path although the report denies it.
\<close>

theorem map_report_exact:
  assumes "0 \<le> cfg_timeout cfg" and "cfg_handler cfg \<noteq> Some DefaultHandler \<or> IsDefaultHandler run_handler"
  shows "or_fast (optimizationReportForMeta (map_meta cfg i p) c noop_hook run_handler) =
           (map_variant cfg run_handler noop_hook = MapFast)
       \<and> IsFastPath [(map_meta cfg i p, c)] noop_hook run_handler = (map_variant cfg run_handler noop_hook = MapFast)"
proof -
  have "or_supports (optimizationReportForMeta (map_meta cfg i p) c noop_hook run_handler)"
    by (simp add: optimizationReportForMeta_def Let_def map_meta_def split: option.splits)
  moreover have "or_fast (optimizationReportForMeta (map_meta cfg i p) c noop_hook run_handler) =
           (map_variant cfg run_handler noop_hook = MapFast)"
    using assms(2) unfolding report_fast map_report_reasons [OF assms(1)]
    by (cases "cfg_handler cfg"; cases run_handler)
      (auto simp: map_variant_def Let_def isFastPathEligible_def isFastPathEligibleCfg_def IsDefaultHandler_iff
        resolveHandler_def map_meta_def)
  ultimately show ?thesis by (simp add: IsFastPath_def IsOptimized_def)
qed

theorem map_report_exact_witness:
  "or_fast (optimizationReportForMeta (map_meta (buildStageConfig [] :: (nat, nat) stage_config) 1 0) (Some 1) True (None :: nat handler option))
   \<and> \<not> or_fast (optimizationReportForMeta (map_meta (buildStageConfig [Concurrency 2] :: (nat, nat) stage_config) 1 0) None True (None :: nat handler option))"
proof -
  let ?c = "buildStageConfig [] :: (nat, nat) stage_config"
  let ?d = "buildStageConfig [Concurrency 2] :: (nat, nat) stage_config"
  note defs = buildStageConfig_def default_config_def map_variant_def Let_def resolveHandler_def
      isFastPathEligible_def isFastPathEligibleCfg_def HasSupervision_def no_supervision_def
  have c: "0 \<le> cfg_timeout ?c" "cfg_handler ?c \<noteq> Some DefaultHandler \<or> IsDefaultHandler (None :: nat handler option)"
      "map_variant ?c None True = MapFast" by (simp_all add: defs)
  have d: "0 \<le> cfg_timeout ?d" "cfg_handler ?d \<noteq> Some DefaultHandler \<or> IsDefaultHandler (None :: nat handler option)"
      "map_variant ?d None True \<noteq> MapFast" by (simp_all add: defs)
  from map_report_exact [OF c(1,2), of 1 0 "Some 1" True] map_report_exact [OF d(1,2), of 1 0 None True] c(3) d(3)
  show ?thesis by blast
qed

text \<open>
  The report on \<^verbatim>\<open>Filter\<close> is wrong under an error strategy of the run, which \<^verbatim>\<open>Filter\<close> does not look at:
  the stage takes the fast path and the report says that it does not.
\<close>

theorem filter_report_wrong:
  assumes "filter_fast cfg noop_hook" and "\<not> IsDefaultHandler run_handler"
  shows "\<not> or_fast (optimizationReportForMeta (filter_meta cfg i p) c noop_hook run_handler)
       \<and> RErrorStrategy \<in> set (or_reasons (optimizationReportForMeta (filter_meta cfg i p) c noop_hook run_handler))"
  using assms
  by (simp add: optimizationReportForMeta_def filter_meta_def fast_path_reasons_def Let_def)

theorem filter_report_wrong_witness:
  "filter_fast (buildStageConfig [] :: (nat, nat) stage_config) True \<and>
   \<not> or_fast (optimizationReportForMeta (filter_meta (buildStageConfig [] :: (nat, nat) stage_config) 1 0) (Some 1) True (Some (SkipHandler :: nat handler)))"
proof -
  have f: "filter_fast (buildStageConfig [] :: (nat, nat) stage_config) True"
    by (simp add: filter_fast_def buildStageConfig_def default_config_def isFastPathEligible_def
        isFastPathEligibleCfg_def HasSupervision_def no_supervision_def)
  with filter_report_wrong [OF f, of "Some (SkipHandler :: nat handler)" 1 0 "Some 1"] show ?thesis by simp
qed

end
