(* ===== verification/Segment_Ops.thy ===== *)
theory Segment_Ops
  imports Source_Ops Network Compose_Ops
begin

text \<open>
  Segments (\<^verbatim>\<open>segment.go\<close>): the names stamped on the stages of a subgraph, the capture of a
  segment's output in a development store and its replay in later runs; the store kept in files
  (\<^verbatim>\<open>devstore.go\<close>) and the source that reads a snapshot (\<^verbatim>\<open>checkpoint.go\<close>). The JSON codec of the
  element type is a parameter. \<^verbatim>\<open>dev_store\<close> is the interface \<^verbatim>\<open>DevStore\<close> as a locale.
\<close>

section \<open>Names of stages\<close>

text \<open>A \<^verbatim>\<open>build\<close> closure: it extends the run context and returns its channel, here its capacity.\<close>

type_synonym build = "run_ctx \<Rightarrow> run_ctx \<times> nat"

definition stamp_ids :: "stage_id list \<Rightarrow> string \<Rightarrow> run_ctx \<Rightarrow> run_ctx" where
  "stamp_ids ids name rc = rc\<lparr>rc_segments := fold (\<lambda>i m. m(i \<mapsto> name)) ids (rc_segments rc)\<rparr>"

definition replay_meta :: "stage_id \<Rightarrow> string \<Rightarrow> stage_meta" where
  "replay_meta i name = stageMeta i ''segment-replay'' name 0 [] \<lparr>meta_segment := name\<rparr>"

text \<open>
  The wrapper \<^verbatim>\<open>Apply\<close> puts around the output's \<^verbatim>\<open>build\<close>. \<^verbatim>\<open>dev\<close> is the store of the run with the
  names it has a snapshot for.
\<close>

definition seg_build ::
  "(string \<Rightarrow> bool) option \<Rightarrow> stage_id list \<Rightarrow> string \<Rightarrow> stage_id \<Rightarrow> build \<Rightarrow> build" where
  "seg_build dev ids name out originalBuild rc =
     (case getChan rc out of
        Some existing \<Rightarrow> (rc, existing)
      | None \<Rightarrow>
          let rc = stamp_ids ids name rc;
              (rc, ch) =
                (case dev of
                   None \<Rightarrow> originalBuild rc
                 | Some snapshot \<Rightarrow>
                     if name \<noteq> [] \<and> snapshot name
                     then (rc_add \<lparr>sf_outs = [out], sf_ins = []\<rparr> (replay_meta out name) rc, DefaultBuffer)
                     else originalBuild rc)
          in (setChan out ch rc, ch))"

text \<open>
  A pipeline under construction: the last stage ID handed out, the ID of the output and its
  \<^verbatim>\<open>build\<close>. The pieces a user composes: an operator, a segment, two pieces in sequence (\<^verbatim>\<open>Then\<close>), or a
  stage that hands its input back.
\<close>

type_synonym pipeline = "stage_id \<times> stage_id \<times> build"

datatype piece = Pass | Op string nat | Seg string piece | Chain piece piece

definition op_build :: "stage_id \<Rightarrow> string \<Rightarrow> nat \<Rightarrow> stage_id list \<Rightarrow> build \<Rightarrow> build" where
  "op_build i kind buf ins upstream rc =
     (case getChan rc i of
        Some existing \<Rightarrow> (rc, existing)
      | None \<Rightarrow>
          (register_stage \<lparr>bp_outs = [i], bp_meta = stageMeta i kind kind buf ins, bp_buffer = Explicit buf,
             bp_consumers = 1, bp_fusion = False\<rparr> [] (fst (upstream rc)), buf))"

fun seg_Apply :: "(string \<Rightarrow> bool) option \<Rightarrow> string \<Rightarrow> (pipeline \<Rightarrow> pipeline) \<Rightarrow> pipeline \<Rightarrow> pipeline" where
  "seg_Apply dev name stage (before, p, b) =
     (case stage (before, p, b) of
        (after, out, build) \<Rightarrow>
          if after \<le> before then (after, out, build)
          else (after, out, seg_build dev [before + 1..after] name out build))"

fun apply_piece :: "(string \<Rightarrow> bool) option \<Rightarrow> piece \<Rightarrow> pipeline \<Rightarrow> pipeline" where
  "apply_piece dev Pass pl = pl"
| "apply_piece dev (Op kind buf) (n, p, b) = (n + 1, n + 1, op_build (n + 1) kind buf [p] b)"
| "apply_piece dev (Seg name q) pl = seg_Apply dev name (apply_piece dev q) pl"
| "apply_piece dev (Chain q r) pl = Then (apply_piece dev q) (apply_piece dev r) pl"

definition source_pipeline :: "string \<Rightarrow> nat \<Rightarrow> pipeline" where
  "source_pipeline kind buf = (1, 1, op_build 1 kind buf [] (\<lambda>rc. (rc, 0)))"

text \<open>The name each operator should carry, in the order the IDs are given out.\<close>

fun innermost :: "piece \<Rightarrow> string \<Rightarrow> string list" where
  "innermost Pass name = []"
| "innermost (Op kind buf) name = [name]"
| "innermost (Seg name' q) name = innermost q name'"
| "innermost (Chain q r) name = innermost q name @ innermost r name"

section \<open>Capture and replay\<close>

text \<open>
  The tee of \<^verbatim>\<open>captureSegment\<close> has no context and no drain arm; its variable is the buffer of
  marshalled items, saved when the input is closed.
\<close>

definition marshalled :: "('a \<Rightarrow> 'r result) \<Rightarrow> 'r list \<Rightarrow> 'a \<Rightarrow> 'r list" where
  "marshalled marshal buf item = (case marshal item of Inl err \<Rightarrow> buf | Inr data \<Rightarrow> buf @ [data])"

fun capture_step :: "('a \<Rightarrow> 'r result) \<Rightarrow> 'r list \<Rightarrow> 'a recv \<Rightarrow> ('r list, 'a) act" where
  "capture_step marshal buf Closed = Act [] (Return None)"
| "capture_step marshal buf (Item item) = Act [item] (Continue (marshalled marshal buf item))"

definition captureSegment :: "('a \<Rightarrow> 'r result) \<Rightarrow> ('r list, 'a recv, 'a) loop" where
  "captureSegment marshal =
     \<lparr>loop_init = [], loop_head = (\<lambda>_. None), loop_listens = (\<lambda>_ _. True), loop_step = capture_step marshal,
      loop_sel_ctx = False, loop_sel_drain = False, loop_send = SendBare\<rparr>"

definition captured :: "('a \<Rightarrow> 'r result) \<Rightarrow> 'a list \<Rightarrow> 'r list" where
  "captured marshal xs = foldl (marshalled marshal) [] xs"

text \<open>
  The stage of \<^verbatim>\<open>tryReplaySegment\<close>: its variable is what is left of the snapshot, an event is a turn
  of the loop. It listens to the context and to no drain channel.
\<close>

fun replay_step :: "('r \<Rightarrow> 'a result) \<Rightarrow> 'r list \<Rightarrow> 'e \<Rightarrow> ('r list, 'a) act" where
  "replay_step unmarshal [] e = Act [] (Return None)"
| "replay_step unmarshal (data # raws) e =
     (case unmarshal data of Inl err \<Rightarrow> Act [] (Return None) | Inr item \<Rightarrow> Act [item] (Continue raws))"

definition replay_head :: "'r list \<Rightarrow> go_error option option" where
  "replay_head raws = (if raws = [] then Some None else None)"

definition replaySegment :: "('r \<Rightarrow> 'a result) \<Rightarrow> 'r list \<Rightarrow> ('r list, 'e, 'a) loop" where
  "replaySegment unmarshal raws =
     \<lparr>loop_init = raws, loop_head = replay_head, loop_listens = (\<lambda>_ _. True), loop_step = replay_step unmarshal,
      loop_sel_ctx = True, loop_sel_drain = False, loop_send = SendCtx\<rparr>"

fun decoded :: "('r \<Rightarrow> 'a result) \<Rightarrow> 'r list \<Rightarrow> 'a list" where
  "decoded unmarshal [] = []"
| "decoded unmarshal (data # raws) =
     (case unmarshal data of Inl err \<Rightarrow> [] | Inr item \<Rightarrow> item # decoded unmarshal raws)"

section \<open>The store in files\<close>

text \<open>\<^verbatim>\<open>filepath.Join\<close>: a path is whether it starts at the root, and its components.\<close>

fun split_path :: "string \<Rightarrow> string list" where
  "split_path [] = [[]]"
| "split_path (c # cs) =
     (if c = CHR ''/'' then [] # split_path cs
      else (case split_path cs of [] \<Rightarrow> [[c]] | p # ps \<Rightarrow> (c # p) # ps))"

definition clean_part :: "bool \<Rightarrow> string list \<Rightarrow> string \<Rightarrow> string list" where
  "clean_part rooted acc c =
     (if c = '''' \<or> c = ''.'' then acc
      else if c = ''..'' then
        (case acc of [] \<Rightarrow> if rooted then [] else [c] | a # as \<Rightarrow> if a = ''..'' then c # acc else as)
      else c # acc)"

definition clean_path :: "string \<Rightarrow> bool \<times> string list" where
  "clean_path s = (let rooted = (s \<noteq> [] \<and> hd s = CHR ''/'')
                   in (rooted, foldl (clean_part rooted) [] (split_path s)))"

definition join_path :: "string \<Rightarrow> string \<Rightarrow> bool \<times> string list" where
  "join_path dir fname = clean_path (if dir = [] then fname else dir @ ''/'' @ fname)"

definition segmentPath :: "string \<Rightarrow> string \<Rightarrow> bool \<times> string list" where
  "segmentPath dir segment = join_path dir (segment @ ''.json'')"

text \<open>
  A file holds a JSON array of raw messages, or bytes that are no such array. How the system calls
  of one operation end is an argument; a failed write may leave anything in the file.
\<close>

datatype 'r snapshot_file = JsonArray "'r list" | Garbage

type_synonym 'r files = "bool \<times> string list \<rightharpoonup> 'r snapshot_file"

record 'r io =
  io_mkdir :: "go_error option"
  io_write :: "(go_error \<times> 'r snapshot_file option) option"
  io_read :: "go_error option"

definition ErrSnapshotMissing :: go_error where
  "ErrSnapshotMissing = Plain ''kitsune: devstore snapshot missing''"

definition file_Save ::
  "'r io \<Rightarrow> ('r \<Rightarrow> go_error option) \<Rightarrow> string \<Rightarrow> 'r files \<Rightarrow> string \<Rightarrow> 'r list \<Rightarrow> 'r files \<times> go_error option" where
  "file_Save io valid dir fs segment raws =
     (case io_mkdir io of
        Some err \<Rightarrow> (fs, Some (Wrap ''kitsune: devstore mkdir'' err))
      | None \<Rightarrow>
          (case List.map_filter valid raws of
             err # _ \<Rightarrow> (fs, Some (Wrap ''kitsune: devstore marshal segment'' err))
           | [] \<Rightarrow>
               (case io_write io of
                  Some (err, left) \<Rightarrow>
                    (fs(segmentPath dir segment := left), Some (Wrap ''kitsune: devstore write segment'' err))
                | None \<Rightarrow> (fs(segmentPath dir segment \<mapsto> JsonArray raws), None))))"

definition file_Load :: "'r io \<Rightarrow> string \<Rightarrow> 'r files \<Rightarrow> string \<Rightarrow> 'r list result" where
  "file_Load io dir fs segment =
     (case io_read io of
        Some err \<Rightarrow> Inl (Wrap ''kitsune: devstore read segment'' err)
      | None \<Rightarrow>
          (case fs (segmentPath dir segment) of
             None \<Rightarrow> Inl (Wrap ''segment'' ErrSnapshotMissing)
           | Some (JsonArray raws) \<Rightarrow> Inr raws
           | Some Garbage \<Rightarrow> Inl (Wrap ''kitsune: devstore unmarshal segment'' (Plain ''json''))))"

section \<open>FromCheckpoint\<close>

text \<open>How one call of \<^verbatim>\<open>send\<close> of \<^verbatim>\<open>sourceStage\<close> ends: the gate or the context may refuse the item.\<close>

datatype send_end = SendOk | SendDrained | SendRefused go_error

definition send_error :: "send_end \<Rightarrow> go_error option" where
  "send_error a = (case a of SendOk \<Rightarrow> None | SendDrained \<Rightarrow> Some ErrDrained | SendRefused e \<Rightarrow> Some e)"

definition sourceStage :: "'a list \<times> go_error option \<Rightarrow> 'a delivery" where
  "sourceStage g = (fst g, if snd g = Some ErrDrained then None else snd g)"

fun checkpoint_items ::
  "(nat \<Rightarrow> send_end) \<Rightarrow> ('r \<Rightarrow> 'a result) \<Rightarrow> string \<Rightarrow> nat \<Rightarrow> 'r list \<Rightarrow> 'a list \<times> go_error option" where
  "checkpoint_items send unmarshal segment i [] = ([], None)"
| "checkpoint_items send unmarshal segment i (data # raw) =
     (case unmarshal data of
        Inl err \<Rightarrow> ([], Some (Wrap (''kitsune: from_checkpoint '' @ segment @ '' item '' @ show_nat i) err))
      | Inr item \<Rightarrow>
          (case send_error (send i) of
             Some err \<Rightarrow> ([], Some err)
           | None \<Rightarrow>
               (case checkpoint_items send unmarshal segment (Suc i) raw of
                  (xs, err) \<Rightarrow> (item # xs, err))))"

definition FromCheckpoint ::
  "(nat \<Rightarrow> send_end) \<Rightarrow> ('r \<Rightarrow> 'a result) \<Rightarrow> (string \<Rightarrow> 'r list result) \<Rightarrow> string \<Rightarrow> 'a delivery" where
  "FromCheckpoint send unmarshal load segment =
     sourceStage
       (case load segment of
          Inl err \<Rightarrow> ([], Some (Wrap (''kitsune: from_checkpoint '' @ segment) err))
        | Inr raw \<Rightarrow> checkpoint_items send unmarshal segment 0 raw)"

section \<open>The interface DevStore\<close>

text \<open>
  A run with a store attached, for an undisturbed run of the inner stages that delivers \<^verbatim>\<open>live\<close>: the
  delivery of the segment and the store afterwards. An error of \<^verbatim>\<open>Save\<close> is dropped.
\<close>

definition segment_run ::
  "('s \<Rightarrow> string \<Rightarrow> 'r list \<Rightarrow> 's \<times> go_error option) \<Rightarrow> ('s \<Rightarrow> string \<Rightarrow> 'r list result) \<Rightarrow>
   ('a \<Rightarrow> 'r result) \<Rightarrow> ('r \<Rightarrow> 'a result) \<Rightarrow> string \<Rightarrow> 's \<Rightarrow> 'a delivery \<Rightarrow> 'a delivery \<times> 's" where
  "segment_run save load marshal unmarshal name ds live =
     (if name = [] then (live, ds)
      else (case load ds name of
              Inr raws \<Rightarrow> ((decoded unmarshal raws, None), ds)
            | Inl err \<Rightarrow> (live, fst (save ds name (captured marshal (fst live))))))"

lemma captured_concat: "foldl (marshalled marshal) buf xs = buf @ concat (map (marshalled marshal []) xs)"
  by (induction xs arbitrary: buf) (auto simp: marshalled_def split: sum.splits)

lemma captured_simps [simp]:
  "captured marshal [] = []"
  "captured marshal (x # xs) = marshalled marshal [] x @ captured marshal xs"
  by (simp_all add: captured_def captured_concat [of marshal "marshalled marshal [] _"] captured_concat [of marshal "[]"])

lemma decoded_captured:
  "(\<And>x. x \<in> set xs \<Longrightarrow> \<exists>data. marshal x = Inr data \<and> unmarshal data = Inr x) \<Longrightarrow>
   decoded unmarshal (captured marshal xs) = xs"
proof (induction xs)
  case (Cons x xs)
  from Cons.prems [of x] obtain data where "marshal x = Inr data" "unmarshal data = Inr x" by auto
  with Cons show ?case by (simp add: marshalled_def)
qed simp

lemma decoded_all:
  "(\<And>d. d \<in> set raws \<Longrightarrow> unmarshal d = Inr (f d)) \<Longrightarrow> decoded unmarshal raws = map f raws"
  by (induction raws) auto

locale dev_store =
  fixes save :: "'s \<Rightarrow> string \<Rightarrow> 'r list \<Rightarrow> 's \<times> go_error option"
    and load :: "'s \<Rightarrow> string \<Rightarrow> 'r list result"
    and plain_name :: "string \<Rightarrow> bool"
  assumes save_load: "plain_name n \<Longrightarrow> save ds n raws = (ds', None) \<Longrightarrow> load ds' n = Inr raws"
    and save_other: "plain_name n \<Longrightarrow> plain_name n' \<Longrightarrow> n \<noteq> n' \<Longrightarrow> load (fst (save ds n raws)) n' = load ds n'"
begin

lemma second_run:
  assumes "plain_name name" and "name \<noteq> []" and "load ds name = Inl err"
    and "save ds name (captured marshal (fst live)) = (ds', None)"
  shows "segment_run save load marshal unmarshal name ds live = (live, ds')"
    and "segment_run save load marshal unmarshal name ds' live' =
           ((decoded unmarshal (captured marshal (fst live)), None), ds')"
  using assms save_load [OF assms(1,4)] by (simp_all add: segment_run_def)

lemma other_segment:
  assumes "plain_name name" and "plain_name other" and "name \<noteq> other"
  shows "load (snd (segment_run save load marshal unmarshal name ds live)) other = load ds other"
  using save_other [OF assms] by (simp add: segment_run_def split: sum.splits)

end

section \<open>The file store provides it\<close>

text \<open>A segment name with no separator names a file of the store's directory.\<close>

definition plain_name :: "string \<Rightarrow> bool" where
  "plain_name n = (CHR ''/'' \<notin> set n)"

lemma split_path_plain: "CHR ''/'' \<notin> set s \<Longrightarrow> split_path s = [s]"
  by (induction s) auto

lemma split_path_nonempty [simp]: "split_path s \<noteq> []"
  by (cases s) (auto split: list.splits)

lemma split_path_join: "split_path (s @ ''/'' @ t) = split_path s @ split_path t"
proof (induction s)
  case (Cons c s)
  then show ?case by (cases "split_path s") auto
qed simp

lemma clean_path_snoc:
  assumes "CHR ''/'' \<notin> set f" and "2 < length f" and "dir \<noteq> []"
  shows "clean_path (dir @ ''/'' @ f) =
           (hd dir = CHR ''/'', f # foldl (clean_part (hd dir = CHR ''/'')) [] (split_path dir))"
  using assms split_path_join [of dir f]
  by (auto simp: clean_path_def split_path_plain clean_part_def Let_def)

lemma segmentPath_plain:
  assumes "plain_name n"
  shows "segmentPath dir n =
           (if dir = [] then (False, [n @ ''.json''])
            else (hd dir = CHR ''/'', (n @ ''.json'') # foldl (clean_part (hd dir = CHR ''/'')) [] (split_path dir)))"
proof -
  have f: "CHR ''/'' \<notin> set (n @ ''.json'')" "2 < length (n @ ''.json'')"
    using assms by (auto simp: plain_name_def)
  have "clean_path (n @ ''.json'') = (False, [n @ ''.json''])"
    using f assms unfolding clean_path_def Let_def split_path_plain [OF f(1)]
    by (cases n) (auto simp: clean_part_def plain_name_def)
  with clean_path_snoc [OF f] show ?thesis
    by (simp add: segmentPath_def join_path_def)
qed

lemma segmentPath_inject:
  "plain_name n \<Longrightarrow> plain_name n' \<Longrightarrow> segmentPath dir n = segmentPath dir n' \<Longrightarrow> n = n'"
  by (simp add: segmentPath_plain split: if_splits)

text \<open>The contract holds whatever happens to the writes; reads are those the system answers.\<close>

definition answered :: "'r io \<Rightarrow> 'r io" where
  "answered io = io\<lparr>io_read := None\<rparr>"

interpretation file_store: dev_store "file_Save io valid dir" "file_Load (answered io) dir" plain_name
  for io :: "'r io" and valid :: "'r \<Rightarrow> go_error option" and dir :: string
proof
  fix n ds raws ds'
  show "file_Save io valid dir ds n raws = (ds', None) \<Longrightarrow> file_Load (answered io) dir ds' n = Inr raws"
    by (auto simp: file_Save_def file_Load_def answered_def split: option.splits list.splits)
next
  fix n n' ds raws
  assume "plain_name n" "plain_name n'" "n \<noteq> n'"
  then have "segmentPath dir n \<noteq> segmentPath dir n'" by (meson segmentPath_inject)
  then show "file_Load (answered io) dir (fst (file_Save io valid dir ds n raws)) n' = file_Load (answered io) dir ds n'"
    by (auto simp: file_Save_def file_Load_def answered_def split: option.splits list.splits)
qed

section \<open>The stages of capture and replay\<close>

lemma captureSegment_sel [simp]:
  "loop_init (captureSegment marshal) = []"
  "loop_head (captureSegment marshal) = (\<lambda>_. None)"
  "loop_listens (captureSegment marshal) = (\<lambda>_ _. True)"
  "loop_step (captureSegment marshal) = capture_step marshal"
  "\<not> loop_sel_ctx (captureSegment marshal)"
  "\<not> loop_sel_drain (captureSegment marshal)"
  "loop_send (captureSegment marshal) = SendBare"
  by (simp_all add: captureSegment_def)

lemma replaySegment_sel [simp]:
  "loop_init (replaySegment unmarshal raws) = raws"
  "loop_head (replaySegment unmarshal raws) = replay_head"
  "loop_listens (replaySegment unmarshal raws) = (\<lambda>_ _. True)"
  "loop_step (replaySegment unmarshal raws) = replay_step unmarshal"
  "loop_sel_ctx (replaySegment unmarshal raws)"
  "\<not> loop_sel_drain (replaySegment unmarshal raws)"
  "loop_send (replaySegment unmarshal raws) = SendCtx"
  by (simp_all add: replaySegment_def)

lemma replay_head_simps [simp]: "replay_head [] = Some None" "replay_head (x # xs) = None"
  by (simp_all add: replay_head_def)

interpretation capture: fallible "captureSegment marshal" "\<lambda>buf x. ([x], Inr (marshalled marshal buf x))" "\<lambda>_. []"
  for marshal :: "'a \<Rightarrow> 'r result"
  by unfold_locales simp_all

lemma capture_try_run:
  "try_run (\<lambda>buf x. ([x], Inr (marshalled marshal buf x))) buf xs = (xs, Inr (foldl (marshalled marshal) buf xs))"
  by (induction xs arbitrary: buf) auto

text \<open>A loop that listens to nothing but its input cannot be disturbed.\<close>

lemma deaf_undisturbed:
  "run m st ls = Some st' \<Longrightarrow> \<not> loop_sel_ctx m \<Longrightarrow> \<not> loop_sel_drain m \<Longrightarrow> loop_send m = SendBare \<Longrightarrow> undisturbed ls"
proof (induction ls arbitrary: st)
  case (Cons l ls)
  from Cons.prems(1) obtain st1 where st1: "step m st l = Some st1" "run m st1 ls = Some st'"
    by (auto split: option.splits)
  with Cons.IH Cons.prems have "undisturbed ls" by blast
  moreover have "\<nexists>er. l = CtxDone er" "l \<noteq> DrainSig"
    using st1(1) Cons.prems(2-4) by (auto elim: step_CtxE step_DrainE split: if_splits)
  ultimately show ?case by (cases l) auto
qed simp

text \<open>
  The tee of a captured segment is invisible: on every schedule it has forwarded a prefix of the
  inner stage's output, on return all of it, and the buffer it saves is the marshalled form of
  exactly the items it received.
\<close>

theorem capture_transparent:
  assumes "run (captureSegment marshal) (start (captureSegment marshal)) ls = Some st"
    and "prefix (received ls) (closing xs)"
  shows "prefix (sent ls) xs \<and> (\<forall>r c. st = Exited r c \<longrightarrow> sent ls = xs \<and> r = None) \<and>
         snd (exec (captureSegment marshal) [] (items xs)) = Continue (captured marshal xs)"
proof -
  have "undisturbed ls" using assms(1) by (rule deaf_undisturbed) simp_all
  with assms capture.stage.trace_any [OF assms(1,2)] capture.stage.trace_complete [of marshal ls _ _ xs]
  show ?thesis
    by (auto simp: capture_try_run result_error_def capture.exec_items captured_def)
qed

theorem capture_transparent_witness:
  "let m = captureSegment (\<lambda>x :: nat. if x = 1 then Inl (Plain ''json'') else Inr [x])
   in run m (start m) [Ev (Item 0), Sent 0, Ev (Item 1), Sent 1, Ev Closed] = Some (Exited None False)
      \<and> captured (\<lambda>x :: nat. if x = 1 then Inl (Plain ''json'') else Inr [x]) [0, 1] = [[0]]"
proof -
  let ?m = "captureSegment (\<lambda>x :: nat. if x = 1 then Inl (Plain ''json'') else Inr [x])"
  have r: "run ?m (start ?m) [Ev (Item 0), Sent 0, Ev (Item 1), Sent 1, Ev Closed] = Some (Exited None False)"
    by (simp add: start_def enter.simps)
  have "snd (exec ?m [] (items [0, 1])) =
      Continue (captured (\<lambda>x :: nat. if x = 1 then Inl (Plain ''json'') else Inr [x]) [0, 1])"
    using capture_transparent [OF r, of "[0, 1]"] by simp
  with r show ?thesis by (simp add: marshalled_def settle_def)
qed

lemma replay_exec:
  "length raws \<le> length es \<Longrightarrow>
   exec (replaySegment unmarshal raws0) raws es = (decoded unmarshal raws, Return None)"
proof (induction raws arbitrary: es)
  case Nil
  then show ?case by (cases es) (auto simp: settle_def)
next
  case (Cons data raws)
  then obtain e es' where "es = e # es'" "length raws \<le> length es'" by (cases es) auto
  with Cons.IH show ?case by (auto split: sum.splits)
qed

section \<open>Two runs with a store\<close>

text \<open>
  C30: Capture and replay round trip over files: when the first run ends well, every item marshals and
  the write goes through, a later run delivers exactly the same items whatever its own inner stages
  would have delivered, and snapshots of other segments are untouched.
\<close>

theorem segment_roundtrip:
  assumes "plain_name name" and "name \<noteq> []" and "file_Load (answered io) dir fs name = Inl err"
    and "file_Save io valid dir fs name (captured marshal xs) = (fs', None)"
    and "\<forall>x \<in> set xs. \<exists>data. marshal x = Inr data \<and> unmarshal data = Inr x"
    and "plain_name other" and "other \<noteq> name"
  shows "snd (segment_run (file_Save io valid dir) (file_Load (answered io) dir) marshal unmarshal name fs (xs, None)) = fs' \<and>
         segment_run (file_Save io valid dir) (file_Load (answered io) dir) marshal unmarshal name fs' live' = ((xs, None), fs') \<and>
         file_Load (answered io) dir fs' other = file_Load (answered io) dir fs other"
proof -
  have save: "file_Save io valid dir fs name (captured marshal (fst (xs, None :: go_error option))) = (fs', None)"
    using assms(4) by simp
  have "decoded unmarshal (captured marshal xs) = xs"
    by (rule decoded_captured) (use assms(5) in blast)
  moreover have "file_Load (answered io) dir (fst (file_Save io valid dir fs name (captured marshal xs))) other
      = file_Load (answered io) dir fs other"
    using file_store.save_other assms(1,6,7) by metis
  ultimately show ?thesis
    using file_store.second_run [OF assms(1-3) save] assms(4) by simp
qed

definition io_ok :: "'r io" where
  "io_ok = \<lparr>io_mkdir = None, io_write = None, io_read = None\<rparr>"

lemma answered_ok [simp]: "answered io_ok = io_ok"
  by (simp add: answered_def io_ok_def)

lemma save_ok: "file_Save io_ok (\<lambda>_. None) dir fs n raws = (fs(segmentPath dir n \<mapsto> JsonArray raws), None)"
  by (simp add: file_Save_def io_ok_def map_filter_def)

lemma load_missing: "file_Load io_ok dir Map.empty n = Inl (Wrap ''segment'' ErrSnapshotMissing)"
  by (simp add: file_Load_def io_ok_def)

theorem segment_roundtrip_witness:
  "segment_run (file_Save io_ok (\<lambda>_. None) ''snap'') (file_Load io_ok ''snap'') Inr Inr ''fetch''
     (snd (segment_run (file_Save io_ok (\<lambda>_. None) ''snap'') (file_Load io_ok ''snap'') Inr Inr ''fetch''
             Map.empty ([1, 2 :: nat], None))) ([], None) = (([1, 2], None),
        Map.empty(segmentPath ''snap'' ''fetch'' \<mapsto> JsonArray [1, 2 :: nat]))"
proof -
  let ?fs = "Map.empty(segmentPath ''snap'' ''fetch'' \<mapsto> JsonArray [1, 2 :: nat])"
  have "captured (Inr :: nat \<Rightarrow> nat result) [1, 2] = [1, 2]" by (simp add: marshalled_def)
  with segment_roundtrip [of "''fetch''" io_ok "''snap''" Map.empty "Wrap ''segment'' ErrSnapshotMissing"
      "\<lambda>_. None" Inr "[1, 2 :: nat]" ?fs Inr "''x''" "([], None)"]
  show ?thesis by (simp add: plain_name_def save_ok load_missing)
qed

text \<open>
  A run that fails is captured like any other: the next run replays what had been delivered before
  the error and ends without an error. Items that do not marshal are missing from it.
\<close>

theorem failed_run_replayed_as_success:
  assumes "plain_name name" and "name \<noteq> []" and "file_Load (answered io) dir fs name = Inl err"
    and "file_Save io valid dir fs name (captured marshal xs) = (fs', None)"
    and "segment_run (file_Save io valid dir) (file_Load (answered io) dir) marshal unmarshal name fs (xs, Some failure) = (d, fs1)"
  shows "d = (xs, Some failure) \<and>
         fst (segment_run (file_Save io valid dir) (file_Load (answered io) dir) marshal unmarshal name fs1 live') =
           (decoded unmarshal (captured marshal xs), None)"
proof -
  have save: "file_Save io valid dir fs name (captured marshal (fst (xs, Some failure))) = (fs', None)"
    using assms(4) by simp
  show ?thesis using file_store.second_run [OF assms(1-3) save] assms(5) by simp
qed

theorem failed_run_replayed_as_success_witness:
  "fst (segment_run (file_Save io_ok (\<lambda>_. None) ''snap'') (file_Load io_ok ''snap'')
          (\<lambda>x :: nat. if x = 1 then Inl (Plain ''json'') else Inr x) Inr ''fetch''
          (Map.empty(segmentPath ''snap'' ''fetch'' \<mapsto> JsonArray [0])) ([0, 1, 2], None)) = ([0], None)"
proof -
  let ?m = "\<lambda>x :: nat. if x = 1 then Inl (Plain ''json'') else Inr x"
  let ?fs = "Map.empty(segmentPath ''snap'' ''fetch'' \<mapsto> JsonArray [0 :: nat])"
  have "captured ?m [0, 1] = [0]" by (simp add: marshalled_def)
  with failed_run_replayed_as_success [of "''fetch''" io_ok "''snap''" Map.empty
      "Wrap ''segment'' ErrSnapshotMissing" "\<lambda>_. None" ?m "[0, 1]" ?fs Inr "Plain ''boom''"
      "([0, 1], Some (Plain ''boom''))" ?fs "([0, 1, 2], None)"]
  show ?thesis by (simp add: plain_name_def save_ok load_missing segment_run_def)
qed

section \<open>Leaving a segment early\<close>

text \<open>What the replay stage still has to send.\<close>

fun replay_pending :: "('r list, 'a) status \<Rightarrow> nat" where
  "replay_pending (Looping raws) = length raws"
| "replay_pending (Sending xs (Continue raws)) = length xs + length raws"
| "replay_pending (Sending xs (Return r)) = length xs"
| "replay_pending (Exited r c) = 0"

fun replay_left :: "('r list, 'a) status \<Rightarrow> 'r set" where
  "replay_left (Looping raws) = set raws"
| "replay_left (Sending xs (Continue raws)) = set raws"
| "replay_left _ = {}"

definition replay_stuck :: "nat \<Rightarrow> ('r \<Rightarrow> 'a result) \<Rightarrow> ('r list, 'e, 'a, 't, 'z) net \<Rightarrow> bool" where
  "replay_stuck bound unmarshal n \<longleftrightarrow>
     (\<exists>r. nt_down n = Exited r True) \<and> (\<forall>d \<in> replay_left (nt_up n). \<exists>x. unmarshal d = Inr x)
     \<and> bound < length (nt_buf n) + replay_pending (nt_up n) \<and> length (nt_buf n) \<le> bound"

lemma replay_up_step:
  fixes m :: "('r list, 'e, 'a) loop"
  assumes "step m up l = Some up'" and "m = replaySegment unmarshal raws0"
    and "\<forall>d \<in> replay_left up. \<exists>x. unmarshal d = Inr x" and "\<nexists>er. l = CtxDone er"
  shows "replay_pending up' + length (sent [l]) = replay_pending up
       \<and> (\<forall>d \<in> replay_left up'. \<exists>x. unmarshal d = Inr x)"
proof (cases up)
  case (Looping raws)
  with assms show ?thesis
    by (cases l; cases raws) (auto simp: enter.simps)
next
  case (Sending xs o')
  with assms show ?thesis
    by (cases l; cases xs; cases o'; cases "tl xs")
      (auto simp: enter.simps replay_head_def split: if_splits)
next
  case (Exited r c)
  with assms show ?thesis by (cases l) auto
qed

lemma replay_stuck_step:
  assumes "net_step bound (replaySegment unmarshal raws0) m2 n n'" and "replay_stuck bound unmarshal n"
    and "nt_ctx n' = None"
  shows "replay_stuck bound unmarshal n'"
  using assms
proof (cases rule: net_step.cases)
  case (up_recv e es up)
  with assms(2) replay_up_step [OF up_recv(3) refl] show ?thesis by (auto simp: replay_stuck_def)
next
  case (up_send y up)
  with assms(2) replay_up_step [OF up_send(3) refl] show ?thesis by (fastforce simp: replay_stuck_def)
next
  case (up_drain r c up)
  with assms(2) show ?thesis by (auto simp: replay_stuck_def elim!: step_DrainE split: if_splits)
qed (auto simp: replay_stuck_def)

lemma replay_stuck_forever:
  assumes "(net_step bound (replaySegment unmarshal raws0) m2)\<^sup>*\<^sup>* n n'" and "replay_stuck bound unmarshal n"
    and "nt_ctx n' = None"
  shows "replay_stuck bound unmarshal n'"
  using assms
proof (induction rule: rtranclp_induct)
  case (step n1 n2)
  have "nt_ctx n1 = None" using step(2,5) by (cases rule: net_step.cases) auto
  with step replay_stuck_step [OF step(2)] show ?case by blast
qed simp

text \<open>
  The stage that replays a snapshot has no drain channel. If its consumer leaves cooperatively, as a
  \<^verbatim>\<open>Map\<close> does whose own consumer has had enough, and more items are left than the channel holds, the
  replay stage never returns unless the run is cancelled: the run hangs.
\<close>

theorem replay_ignores_drain:
  assumes "DefaultBuffer < length raws" and "\<forall>d \<in> set raws. \<exists>x. unmarshal d = Inr x"
    and "loop_head m2 = (\<lambda>_. None)" and "loop_sel_drain m2"
  shows "\<exists>n. net_step DefaultBuffer (replaySegment unmarshal raws) m2 (net_init (replaySegment unmarshal raws) m2 ts) n \<and>
         nt_down n = Exited None True \<and>
         (\<forall>n'. (net_step DefaultBuffer (replaySegment unmarshal raws) m2)\<^sup>*\<^sup>* n n' \<and> nt_ctx n' = None
            \<longrightarrow> \<not> exited (nt_up n'))"
proof -
  let ?m1 = "replaySegment unmarshal raws"
  let ?start = "net_init ?m1 m2 ts"
  let ?after = "?start\<lparr>nt_down := Exited None True\<rparr>"
  have "step m2 (nt_down ?start) DrainSig = Some (Exited None True)"
    using assms(3,4) by (simp add: net_init_def start_def enter_Continue)
  then have left: "net_step DefaultBuffer ?m1 m2 ?start ?after" by (rule net_step.down_drain)
  have "raws \<noteq> []" using assms(1) by auto
  then have "nt_up ?after = Looping raws" by (simp add: net_init_def start_def enter_Continue replay_head_def)
  then have stuck: "replay_stuck DefaultBuffer unmarshal ?after"
    using assms(1,2) by (simp add: replay_stuck_def) (simp add: net_init_def)
  have "\<not> exited (nt_up n')"
    if "(net_step DefaultBuffer ?m1 m2)\<^sup>*\<^sup>* ?after n'" "nt_ctx n' = None" for n'
    using replay_stuck_forever [OF that(1) stuck that(2)]
    by (cases "nt_up n'") (auto simp: replay_stuck_def)
  with left show ?thesis by auto
qed

theorem replay_ignores_drain_witness:
  "\<exists>n. net_step DefaultBuffer (replaySegment Inr [0..<17]) (op_loop (WithIndex (default_config :: (nat, nat) stage_config) 2 1))
          (net_init (replaySegment Inr [0..<17]) (op_loop (WithIndex (default_config :: (nat, nat) stage_config) 2 1)) ([] :: unit list)) n \<and>
       nt_down n = Exited None True \<and>
       (\<forall>n'. (net_step DefaultBuffer (replaySegment Inr [0..<17]) (op_loop (WithIndex (default_config :: (nat, nat) stage_config) 2 1)))\<^sup>*\<^sup>* n n'
          \<and> nt_ctx n' = None \<longrightarrow> \<not> exited (nt_up n'))"
  by (rule replay_ignores_drain) (simp_all add: DefaultBuffer_def WithIndex_def)

section \<open>The innermost segment owns a stage\<close>

definition stage_names :: "run_ctx \<Rightarrow> (stage_id \<times> string) list" where
  "stage_names rc = map (\<lambda>m. (meta_id m, meta_segment m)) (rc_metas rc)"

definition owner :: "string \<Rightarrow> string option \<Rightarrow> string" where
  "owner name t = (case t of Some s \<Rightarrow> s | None \<Rightarrow> name)"

lemma owner_simps [simp]: "owner name None = name" "owner name (Some s) = s"
  by (simp_all add: owner_def)

definition stamped :: "run_ctx \<Rightarrow> stage_id \<Rightarrow> string" where
  "stamped rc i = owner [] (rc_segments rc i)"

text \<open>
  What a \<^verbatim>\<open>build\<close> adds to a run: its stages in order, each with the name a segment inside it has given
  it, if any; the names of other stages are left alone.
\<close>

definition builds :: "build \<Rightarrow> (stage_id \<times> string option) list \<Rightarrow> bool" where
  "builds b L \<longleftrightarrow>
     (\<forall>rc. (\<forall>i \<in> fst ` set L. rc_chans rc i = None) \<longrightarrow>
        stage_names (fst (b rc)) = stage_names rc @ map (\<lambda>(i, t). (i, owner (stamped rc i) t)) L
        \<and> (\<forall>i. i \<notin> fst ` set L \<longrightarrow> rc_chans (fst (b rc)) i = rc_chans rc i
                 \<and> rc_segments (fst (b rc)) i = rc_segments rc i))"

lemma register_stage_names:
  "stage_names (register_stage b ns rc) = stage_names rc @ [(meta_id (bp_meta b), owner (meta_segment (bp_meta b)) (rc_segments rc (meta_id (bp_meta b))))]"
  "rc_segments (register_stage b ns rc) = rc_segments rc"
  "rc_chans (register_stage b ns rc) i = (if i \<in> set (bp_outs b) then Some (bp_bufsize rc b) else rc_chans rc i)"
  by (auto simp: register_stage_def rc_add_def Let_def stage_names_def owner_def initMultiOutputDrainNotify_def
      split: option.splits)

lemma stage_names_setChan [simp]:
  "stage_names (setChan i c rc) = stage_names rc"
  "rc_segments (setChan i c rc) = rc_segments rc"
  "rc_chans (setChan i c rc) = (rc_chans rc)(i \<mapsto> c)"
  by (simp_all add: stage_names_def setChan_def)

lemma stamp_ids_frame [simp]:
  "stage_names (stamp_ids ids name rc) = stage_names rc"
  "rc_chans (stamp_ids ids name rc) = rc_chans rc"
  "rc_segments (stamp_ids ids name rc) i = (if i \<in> set ids then Some name else rc_segments rc i)"
  by (simp_all add: stamp_ids_def stage_names_def drain_fold_upd)

lemma builds_op:
  assumes "builds b L" and "i \<notin> fst ` set L"
  shows "builds (op_build i kind buf ins b) (L @ [(i, None)])"
  unfolding builds_def
proof (intro allI impI)
  fix rc :: run_ctx
  assume free: "\<forall>j \<in> fst ` set (L @ [(i, None)]). rc_chans rc j = None"
  then have "rc_chans rc i = None" "\<forall>j \<in> fst ` set L. rc_chans rc j = None" by auto
  with assms show "stage_names (fst (op_build i kind buf ins b rc)) =
        stage_names rc @ map (\<lambda>(i, t). (i, owner (stamped rc i) t)) (L @ [(i, None)])
      \<and> (\<forall>j. j \<notin> fst ` set (L @ [(i, None)]) \<longrightarrow>
           rc_chans (fst (op_build i kind buf ins b rc)) j = rc_chans rc j
           \<and> rc_segments (fst (op_build i kind buf ins b rc)) j = rc_segments rc j)"
    unfolding builds_def
    by (simp add: op_build_def getChan_def register_stage_names stageMeta_def stamped_def owner_def)
qed

definition live_dev :: "(string \<Rightarrow> bool) option \<Rightarrow> bool" where
  "live_dev dev \<longleftrightarrow> dev = None \<or> dev = Some (\<lambda>_. False)"

lemma builds_seg:
  assumes "builds b (L @ M)" and "map fst M = ids" and "fst ` set L \<inter> set ids = {}"
    and "out \<in> fst ` set (L @ M)" and "live_dev dev"
  shows "builds (seg_build dev ids name out b) (L @ map (\<lambda>(i, t). (i, Some (owner name t))) M)"
  unfolding builds_def
proof (intro allI impI)
  fix rc :: run_ctx
  let ?M = "map (\<lambda>(i, t). (i, Some (owner name t))) M"
  have ids: "fst ` set ?M = fst ` set M" by force
  have M: "set ids = fst ` set M" using assms(2) by (metis set_map)
  assume free: "\<forall>j \<in> fst ` set (L @ ?M). rc_chans rc j = None"
  moreover have "fst ` set (L @ ?M) = fst ` set (L @ M)" by (simp only: set_append image_Un ids)
  ultimately have free': "\<forall>j \<in> fst ` set (L @ M). rc_chans (stamp_ids ids name rc) j = None"
    by (simp only: stamp_ids_frame)
  have "rc_chans (stamp_ids ids name rc) out = None" using free' assms(4) by (rule bspec)
  then have free_out: "rc_chans rc out = None" by (simp only: stamp_ids_frame)
  have eq: "fst (seg_build dev ids name out b rc) =
      setChan out (snd (b (stamp_ids ids name rc))) (fst (b (stamp_ids ids name rc)))"
    using assms(5) free_out
    by (cases dev) (simp_all add: seg_build_def getChan_def live_dev_def case_prod_beta Let_def)
  have names: "stamped (stamp_ids ids name rc) j = (if j \<in> set ids then name else stamped rc j)" for j
    by (simp add: stamped_def owner_def)
  have "j \<notin> set ids" if "(j, t) \<in> set L" for j t
    using assms(3) that by force
  moreover have "j \<in> set ids" if "(j, t) \<in> set M" for j t
    using M that by force
  ultimately have "map (\<lambda>(i, t). (i, owner (stamped (stamp_ids ids name rc) i) t)) (L @ M)
      = map (\<lambda>(i, t). (i, owner (stamped rc i) t)) (L @ ?M)"
    by (auto simp: names owner_def split: option.splits)
  with assms(1) free' have "stage_names (fst (seg_build dev ids name out b rc)) =
      stage_names rc @ map (\<lambda>(i, t). (i, owner (stamped rc i) t)) (L @ ?M)"
    by (simp add: builds_def eq)
  moreover have "rc_chans (fst (seg_build dev ids name out b rc)) j = rc_chans rc j
      \<and> rc_segments (fst (seg_build dev ids name out b rc)) j = rc_segments rc j"
    if "j \<notin> fst ` set (L @ ?M)" for j
  proof -
    from that ids have "j \<notin> fst ` set (L @ M)" by auto
    with assms(1,4) free' M show ?thesis by (auto simp: builds_def eq)
  qed
  ultimately show "stage_names (fst (seg_build dev ids name out b rc)) =
        stage_names rc @ map (\<lambda>(i, t). (i, owner (stamped rc i) t)) (L @ ?M)
      \<and> (\<forall>j. j \<notin> fst ` set (L @ ?M) \<longrightarrow>
           rc_chans (fst (seg_build dev ids name out b rc)) j = rc_chans rc j
           \<and> rc_segments (fst (seg_build dev ids name out b rc)) j = rc_segments rc j)"
    by blast
qed

lemma apply_piece_builds:
  assumes "apply_piece dev q (n, p, b) = (n', p', b')" and "live_dev dev" and "builds b L"
    and "\<forall>i \<in> fst ` set L. i \<le> n" and "p \<in> fst ` set L"
  shows "\<exists>M. builds b' (L @ M) \<and> n \<le> n' \<and> map fst M = [n + 1..n'] \<and> p' \<in> fst ` set (L @ M)
           \<and> (\<forall>name. map (owner name \<circ> snd) M = innermost q name)"
  using assms
proof (induction q arbitrary: n p b n' p' b' L)
  case Pass
  then show ?case by (intro exI [of _ "[]"]) auto
next
  case (Op kind buf)
  then have "builds b' (L @ [(n + 1, None)])" by (fastforce intro: builds_op)
  with Op show ?case by (intro exI [of _ "[(n + 1, None)]"]) (auto simp: owner_def)
next
  case (Seg name q)
  obtain b1 where q: "apply_piece dev q (n, p, b) = (n', p', b1)"
    using Seg.prems(1) by (cases "apply_piece dev q (n, p, b)") (auto split: if_splits)
  from Seg.IH [OF q Seg.prems(2-5)] obtain M where
    M: "builds b1 (L @ M)" "n \<le> n'" "map fst M = [n + 1..n']" "p' \<in> fst ` set (L @ M)"
      "\<And>name. map (owner name \<circ> snd) M = innermost q name" by blast
  let ?M = "map (\<lambda>(i, t). (i, Some (owner name t))) M"
  have ids: "map fst ?M = map fst M" by (auto simp: case_prod_beta)
  have names: "map (owner name' \<circ> snd) ?M = innermost q name" for name'
    by (simp add: M(5) [symmetric] owner_def case_prod_beta)
  have "builds b' (L @ ?M)"
  proof (cases "n' \<le> n")
    case True
    with M Seg.prems(1) q show ?thesis by auto
  next
    case False
    have "fst ` set L \<inter> set [n + 1..n'] = {}" using Seg.prems(4) by fastforce
    from builds_seg [OF M(1,3) this M(4) Seg.prems(2)] False Seg.prems(1) q show ?thesis by auto
  qed
  moreover have "p' \<in> fst ` set (L @ ?M)" using M(4) by force
  ultimately show ?case using M(2,3) ids names by (intro exI [of _ ?M]) (simp only: innermost.simps, blast)
next
  case (Chain q r)
  obtain n1 p1 b1 where q: "apply_piece dev q (n, p, b) = (n1, p1, b1)" by (cases "apply_piece dev q (n, p, b)")
  then have r: "apply_piece dev r (n1, p1, b1) = (n', p', b')" using Chain.prems(1) by (simp add: Then_def)
  from Chain.IH(1) [OF q Chain.prems(2-5)] obtain M where
    M: "builds b1 (L @ M)" "n \<le> n1" "map fst M = [n + 1..n1]" "p1 \<in> fst ` set (L @ M)"
      "\<And>name. map (owner name \<circ> snd) M = innermost q name" by blast
  have "fst ` set M = {n + 1..n1}" using M(3) by (metis set_map set_upto)
  then have "\<forall>i \<in> fst ` set (L @ M). i \<le> n1"
    using Chain.prems(4) M(2) by (simp only: set_append image_Un) (meson UnE atLeastAtMost_iff order_trans)
  from Chain.IH(2) [OF r Chain.prems(2) M(1) this M(4)] obtain N where
    N: "builds b' ((L @ M) @ N)" "n1 \<le> n'" "map fst N = [n1 + 1..n']" "p' \<in> fst ` set ((L @ M) @ N)"
      "\<And>name. map (owner name \<circ> snd) N = innermost r name" by blast
  have "map fst (M @ N) = [n + 1..n']"
    using M(2,3) N(2,3) upto_split2 [of "n + 1" n1 n'] by (cases "n = n1") auto
  moreover have "map (owner name \<circ> snd) (M @ N) = innermost (Chain q r) name" for name
    using M(5) [of name] N(5) [of name] by simp
  moreover have "n \<le> n'" using M(2) N(2) by simp
  ultimately show ?case using N(1,4) by (intro exI [of _ "M @ N"]) (simp only: append_assoc, blast)
qed

text \<open>
  Nested segments: in a run without replay every stage of a pipeline, whatever pieces it is composed
  of, carries the name of the innermost segment around it, and the stages behind a source carry the
  IDs in the order of construction.
\<close>

theorem segments_innermost:
  assumes "apply_piece (if capture then Some (\<lambda>_. False) else None) q (source_pipeline kind buf) = (n', p', b')"
  shows "stage_names (fst (b' newRunCtx)) = zip [1..n'] ([] # innermost q [])"
proof -
  have src: "builds (op_build 1 kind buf [] (\<lambda>rc. (rc, 0))) ([] @ [(1, None)])"
    by (rule builds_op) (simp_all add: builds_def)
  have "live_dev (if capture then Some (\<lambda>_. False) else None)" by (simp add: live_dev_def)
  from apply_piece_builds [OF assms [unfolded source_pipeline_def] this, of "[(1, None)]"] src obtain M where
    M: "builds b' ([(1, None)] @ M)" "1 \<le> n'" "map fst M = [1 + 1..n']"
      "map (owner [] \<circ> snd) M = innermost q []"
    by (simp del: One_nat_def) blast
  have fresh: "rc_chans newRunCtx = Map.empty" "stage_names newRunCtx = []" "stamped newRunCtx = (\<lambda>_. [])"
    by (simp_all add: fun_eq_iff newRunCtx_def stage_names_def stamped_def owner_def)
  have "stage_names (fst (b' newRunCtx)) = map (\<lambda>(i, t). (i, owner [] t)) ((1, None) # M)"
    using M(1) [unfolded builds_def, rule_format, of newRunCtx] by (simp only: fresh) simp
  also have "\<dots> = zip (map fst ((1, None) # M)) (map (owner [] \<circ> snd) ((1, None) # M))"
    by (simp add: zip_map_map case_prod_beta zip_same_conv_map)
  also have "map fst ((1, None) # M) = [1..n']" using M(2,3) upto_rec1 [of 1 n'] by simp
  also have "map (owner [] \<circ> snd) ((1, None) # M) = [] # innermost q []"
    by (simp only: list.map(2) M(4) comp_apply snd_conv owner_simps)
  finally show ?thesis .
qed

theorem segments_innermost_witness:
  "let (n', p', b') = apply_piece (Some (\<lambda>_. False))
     (Seg ''outer'' (Chain (Op ''map'' 16) (Chain (Seg ''inner'' (Op ''filter'' 16)) (Op ''scan'' 16))))
     (source_pipeline ''from_slice'' 16)
   in stage_names (fst (b' newRunCtx)) = [(1, []), (2, ''outer''), (3, ''inner''), (4, ''outer'')]"
proof -
  let ?q = "Seg ''outer'' (Chain (Op ''map'' 16) (Chain (Seg ''inner'' (Op ''filter'' 16)) (Op ''scan'' 16)))"
  obtain n' p' b' where r: "apply_piece (Some (\<lambda>_. False)) ?q (source_pipeline ''from_slice'' 16) = (n', p', b')"
    by (cases "apply_piece (Some (\<lambda>_. False)) ?q (source_pipeline ''from_slice'' 16)")
  then have "n' = 4" by (simp add: source_pipeline_def Then_def split: if_splits)
  moreover have "[1..4] = [1, 2, 3, 4 :: int]" by (simp add: upto.simps)
  ultimately show ?thesis
    using segments_innermost [of True ?q "''from_slice''" 16 n' p' b'] r by simp
qed

text \<open>
  With a snapshot the segment is one node of its own kind, under the ID its consumers read from;
  neither its stages nor anything upstream is built, and no drain entry is made for it.
\<close>

theorem replayed_segment_is_one_stage:
  assumes "apply_piece (Some snapshot) (Seg name q) (n, p, b) = (n', p', b')" and "n < n'"
    and "snapshot name" and "name \<noteq> []" and "rc_chans rc p' = None"
  shows "map (\<lambda>m. (meta_id m, meta_kind m, meta_segment m, meta_inputs m)) (rc_metas (fst (b' rc))) =
           map (\<lambda>m. (meta_id m, meta_kind m, meta_segment m, meta_inputs m)) (rc_metas rc)
             @ [(p', ''segment-replay'', owner name (rc_segments (stamp_ids [n + 1..n'] name rc) p'), [])]
         \<and> rc_drain (fst (b' rc)) = rc_drain rc \<and> rc_chans (fst (b' rc)) = (rc_chans rc)(p' \<mapsto> DefaultBuffer)"
proof -
  obtain b1 where "b' = seg_build (Some snapshot) [n + 1..n'] name p' b1"
    using assms(1,2) by (cases "apply_piece (Some snapshot) q (n, p, b)") (auto split: if_splits)
  then show ?thesis
    using assms(3-5)
    by (auto simp: seg_build_def getChan_def rc_add_def replay_meta_def stageMeta_def setChan_def owner_def
        stamp_ids_def Let_def split: option.splits)
qed

theorem replayed_segment_is_one_stage_witness:
  "case apply_piece (Some (\<lambda>n. n = ''fetch'')) (Seg ''fetch'' (Chain (Op ''map'' 16) (Op ''map'' 16))) (source_pipeline ''from_slice'' 16) of
     (n', p', b') \<Rightarrow> map (\<lambda>m. (meta_id m, meta_kind m, meta_segment m, meta_inputs m)) (rc_metas (fst (b' newRunCtx)))
       = [(3, ''segment-replay'', ''fetch'', [])]"
proof -
  let ?q = "Chain (Op ''map'' 16) (Op ''map'' 16)" and ?d = "\<lambda>n. n = ''fetch''"
  obtain n' p' b' where r: "apply_piece (Some ?d) (Seg ''fetch'' ?q) (source_pipeline ''from_slice'' 16) = (n', p', b')"
    by (cases "apply_piece (Some ?d) (Seg ''fetch'' ?q) (source_pipeline ''from_slice'' 16)")
  then have ids: "n' = 3" "p' = 3" by (simp_all add: source_pipeline_def Then_def split: if_splits)
  have "rc_chans newRunCtx p' = None" "rc_metas newRunCtx = []" by (simp_all add: newRunCtx_def)
  with replayed_segment_is_one_stage [OF r [unfolded source_pipeline_def], of newRunCtx] r ids
  show ?thesis by (simp add: owner_def)
qed

section \<open>FromCheckpoint reads a snapshot\<close>

lemma checkpoint_items_ok:
  "(\<And>i. send i = SendOk) \<Longrightarrow>
   checkpoint_items send unmarshal segment k raws =
     (decoded unmarshal raws,
      case find (\<lambda>(_, d). isl (unmarshal d)) (enumerate k raws) of
        None \<Rightarrow> None
      | Some (i, d) \<Rightarrow>
          Some (Wrap (''kitsune: from_checkpoint '' @ segment @ '' item '' @ show_nat i) (projl (unmarshal d))))"
proof (induction raws arbitrary: k)
  case (Cons d raws)
  then show ?case by (auto simp: send_error_def split: sum.splits)
qed simp

text \<open>
  \<^verbatim>\<open>FromCheckpoint\<close> and the replay of a segment deliver the same items; unlike the replay the source
  reports a snapshot that is missing and the first item that does not decode. A consumer that leaves
  early ends it without an error.
\<close>

theorem from_checkpoint_delivers:
  "FromCheckpoint (\<lambda>_. SendOk) unmarshal (file_Load io dir fs) segment =
     (case file_Load io dir fs segment of
        Inl err \<Rightarrow> ([], Some (Wrap (''kitsune: from_checkpoint '' @ segment) err))
      | Inr raws \<Rightarrow>
          (decoded unmarshal raws,
           case find (\<lambda>(_, d). isl (unmarshal d)) (enumerate 0 raws) of
             None \<Rightarrow> None
           | Some (i, d) \<Rightarrow>
               Some (Wrap (''kitsune: from_checkpoint '' @ segment @ '' item '' @ show_nat i) (projl (unmarshal d)))))"
  by (auto simp: FromCheckpoint_def sourceStage_def checkpoint_items_ok split: sum.splits option.splits)

lemma checkpoint_drained:
  "send k = SendDrained \<Longrightarrow> unmarshal d = Inr x \<Longrightarrow>
   sourceStage (checkpoint_items send unmarshal segment k (d # raws)) = ([], None)"
  by (simp add: sourceStage_def send_error_def)

end
