(* ===== verification/Iter_Op.thy ===== *)
theory Iter_Op
  imports Run_Context
begin

text \<open>
  \<^verbatim>\<open>Iter\<close> of \<^verbatim>\<open>collect.go\<close> as a step relation: the run in the background with its \<^verbatim>\<open>ForEach\<close> callback,
  the goroutine that closes the channel after the run, the caller's loop over the channel and the
  deferred clean-up, and the function that reports the error. The run is one with default options, whose
  \<^verbatim>\<open>ForEach\<close> returns an error of its callback as it is. The pipeline in front of the callback is the
  list of items it still delivers and how it ends; \<^verbatim>\<open>None\<close> is a source that never ends.
\<close>

datatype 'a iter_cb = CbIdle | CbSending 'a

datatype iter_phase = Ranging | Cleaning | LoopLeft

record 'a iter =
  it_src :: "'a list"
  it_ends :: "go_error option option"
  it_cb :: "'a iter_cb"
  it_run :: "go_error option option"
  it_ch :: "'a list"
  it_closed :: bool
  it_phase :: iter_phase
  it_broke :: bool
  it_ctx :: "go_error option"
  it_pctx :: bool
  it_out :: "'a list"

definition iter_init :: "'a list \<Rightarrow> go_error option option \<Rightarrow> 'a iter" where
  "iter_init xs ends =
     \<lparr>it_src = xs, it_ends = ends, it_cb = CbIdle, it_run = None, it_ch = [], it_closed = False,
      it_phase = Ranging, it_broke = False, it_ctx = None, it_pctx = False, it_out = []\<rparr>"

inductive iter_step :: "'a iter \<Rightarrow> 'a iter \<Rightarrow> bool" where
  cb_take: "it_run s = None \<Longrightarrow> it_cb s = CbIdle \<Longrightarrow> it_src s = x # xs \<Longrightarrow>
     iter_step s (s\<lparr>it_src := xs, it_cb := CbSending x\<rparr>)"
| cb_send: "it_run s = None \<Longrightarrow> it_cb s = CbSending x \<Longrightarrow> length (it_ch s) < DefaultBuffer \<Longrightarrow>
     iter_step s (s\<lparr>it_ch := it_ch s @ [x], it_cb := CbIdle\<rparr>)"
| cb_ctx: "it_run s = None \<Longrightarrow> it_cb s = CbSending x \<Longrightarrow> it_ctx s = Some e \<Longrightarrow>
     iter_step s (s\<lparr>it_cb := CbIdle, it_run := Some (Some e)\<rparr>)"
| cb_stopped: "it_run s = None \<Longrightarrow> it_cb s = CbSending x \<Longrightarrow> it_pctx s \<Longrightarrow>
     iter_step s (s\<lparr>it_cb := CbIdle\<rparr>)"
| run_ends: "it_run s = None \<Longrightarrow> it_cb s = CbIdle \<Longrightarrow> it_src s = [] \<Longrightarrow> it_ends s = Some r \<Longrightarrow>
     iter_step s (s\<lparr>it_run := Some r\<rparr>)"
| run_cancelled: "it_run s = None \<Longrightarrow> it_cb s = CbIdle \<Longrightarrow> it_pctx s \<Longrightarrow>
     iter_step s (s\<lparr>it_run := Some (Some Canceled)\<rparr>)"
| ch_close: "it_run s = Some r \<Longrightarrow> \<not> it_closed s \<Longrightarrow> iter_step s (s\<lparr>it_closed := True\<rparr>)"
| yield_on: "it_phase s = Ranging \<Longrightarrow> it_ch s = x # xs \<Longrightarrow>
     iter_step s (s\<lparr>it_ch := xs, it_out := it_out s @ [x]\<rparr>)"
| yield_break: "it_phase s = Ranging \<Longrightarrow> it_ch s = x # xs \<Longrightarrow>
     iter_step s (s\<lparr>it_ch := xs, it_out := it_out s @ [x], it_broke := True, it_pctx := True, it_phase := Cleaning\<rparr>)"
| range_end: "it_phase s = Ranging \<Longrightarrow> it_ch s = [] \<Longrightarrow> it_closed s \<Longrightarrow>
     iter_step s (s\<lparr>it_pctx := True, it_phase := Cleaning\<rparr>)"
| clean: "it_phase s = Cleaning \<Longrightarrow> it_ch s = x # xs \<Longrightarrow> iter_step s (s\<lparr>it_ch := xs\<rparr>)"
| clean_end: "it_phase s = Cleaning \<Longrightarrow> it_ch s = [] \<Longrightarrow> it_closed s \<Longrightarrow>
     iter_step s (s\<lparr>it_phase := LoopLeft\<rparr>)"
| user_cancel: "it_ctx s = None \<Longrightarrow> iter_step s (s\<lparr>it_ctx := Some e\<rparr>)"

text \<open>The error function; \<^verbatim>\<open>None\<close> is a call that blocks.\<close>

definition iter_err :: "'a iter \<Rightarrow> go_error option option" where
  "iter_err s =
     (case it_run s of
        None \<Rightarrow> None
      | Some r \<Rightarrow>
          Some (if it_broke s \<and> (case r of None \<Rightarrow> False | Some e \<Rightarrow> errors_is e Canceled) then None else r))"

inductive iter_reach :: "'a list \<Rightarrow> go_error option option \<Rightarrow> 'a iter \<Rightarrow> bool" for xs ends where
  iter_start: "iter_reach xs ends (iter_init xs ends)"
| iter_next: "iter_reach xs ends s \<Longrightarrow> iter_step s s' \<Longrightarrow> iter_reach xs ends s'"

section \<open>Invariant\<close>

fun cb_items :: "'a iter_cb \<Rightarrow> 'a list" where
  "cb_items CbIdle = []"
| "cb_items (CbSending x) = [x]"

text \<open>
  As long as the caller is in its loop nothing has been lost, but for an item whose callback saw the
  cancelled context. A run that is over ended by itself, by that error, or by the clean-up.
\<close>

definition iter_inv :: "'a list \<Rightarrow> go_error option option \<Rightarrow> 'a iter \<Rightarrow> bool" where
  "iter_inv xs ends s \<longleftrightarrow>
     it_ends s = ends \<and> prefix (it_out s) xs
     \<and> (it_phase s = Ranging \<longrightarrow> \<not> it_pctx s \<and> \<not> it_broke s
          \<and> prefix (it_out s @ it_ch s) xs
          \<and> (it_run s = None \<longrightarrow> it_out s @ it_ch s @ cb_items (it_cb s) @ it_src s = xs))
     \<and> (it_closed s \<longrightarrow> it_run s \<noteq> None) \<and> (it_phase s = LoopLeft \<longrightarrow> it_closed s)
     \<and> (it_phase s \<noteq> Ranging \<longrightarrow> it_pctx s \<and> (it_broke s \<or> it_closed s \<and> it_ch s = []))
     \<and> (\<forall>r. it_run s = Some r \<longrightarrow>
          (ends = Some r \<and> (it_ctx s = None \<longrightarrow> it_phase s = Ranging \<longrightarrow> it_out s @ it_ch s = xs))
          \<or> (r \<noteq> None \<and> r = it_ctx s) \<or> (r = Some Canceled \<and> it_broke s))
     \<and> (\<forall>r. it_run s = Some r \<longrightarrow> it_ctx s = None \<longrightarrow> \<not> it_broke s \<longrightarrow>
          ends = Some r \<and> it_out s @ it_ch s = xs)"

lemma iter_inv_init: "iter_inv xs ends (iter_init xs ends)"
  by (simp add: iter_inv_def iter_init_def)

lemma iter_step_inv:
  assumes "iter_step s s'" and "iter_inv xs ends s"
  shows "iter_inv xs ends s'"
  using assms
proof (cases rule: iter_step.cases)
  case (yield_on x ys)
  with assms(2) show ?thesis
    by (auto simp: iter_inv_def) (metis append_assoc append_Cons append_Nil prefix_order.trans prefix_append_self)+
next
  case (yield_break x ys)
  with assms(2) show ?thesis
    by (auto simp: iter_inv_def) (metis append_assoc append_Cons append_Nil prefix_order.trans prefix_append_self)+
qed (auto simp: iter_inv_def)

lemma iter_reach_inv: "iter_reach xs ends s \<Longrightarrow> iter_inv xs ends s"
  by (induction rule: iter_reach.induct) (auto intro: iter_inv_init iter_step_inv)

text \<open>
  C28: The loop over \<^verbatim>\<open>Iter\<close> sees the pipeline's items in order and none twice. When the caller neither
  breaks nor has its context cancelled, a loop that has been left has seen all of them and the error
  function returns how the pipeline ended. After a break the error function never reports the
  cancellation the break caused: it returns nil, the pipeline's own error or that of the caller's
  context.
\<close>

theorem iter_in_order:
  assumes "iter_reach xs ends s"
  shows "prefix (it_out s) xs \<and>
         (it_phase s = LoopLeft \<longrightarrow> \<not> it_broke s \<longrightarrow> it_ctx s = None \<longrightarrow> it_out s = xs \<and> iter_err s = ends) \<and>
         (it_phase s = LoopLeft \<longrightarrow> it_broke s \<longrightarrow>
            (\<exists>r. iter_err s = Some r \<and> (r = None \<or> ends = Some r \<or> r = it_ctx s)))"
proof -
  have inv: "iter_inv xs ends s" using iter_reach_inv [OF assms] .
  show ?thesis
  proof (intro conjI impI)
    show "prefix (it_out s) xs" using inv by (simp add: iter_inv_def)
    assume left: "it_phase s = LoopLeft"
    then obtain r where run: "it_run s = Some r" using inv by (auto simp: iter_inv_def)
    {
      assume "\<not> it_broke s" "it_ctx s = None"
      with left run inv show "it_out s = xs" by (auto simp: iter_inv_def)
    }
    {
      assume "\<not> it_broke s" "it_ctx s = None"
      with run inv show "iter_err s = ends" by (auto simp: iter_inv_def iter_err_def)
    }
    assume "it_broke s"
    with run inv show "\<exists>r. iter_err s = Some r \<and> (r = None \<or> ends = Some r \<or> r = it_ctx s)"
      by (auto simp: iter_inv_def iter_err_def)
  qed
qed

text \<open>A whole loop over one item, and a loop broken at its first item.\<close>

lemma iter_run_one: "\<exists>s :: nat iter. iter_reach [7] (Some None) s \<and> it_phase s = LoopLeft \<and> \<not> it_broke s \<and> it_ctx s = None"
proof -
  define s0 :: "nat iter" where "s0 = iter_init [7] (Some None)"
  define s1 where "s1 = s0\<lparr>it_src := [], it_cb := CbSending 7\<rparr>"
  define s2 where "s2 = s1\<lparr>it_ch := it_ch s1 @ [7], it_cb := CbIdle\<rparr>"
  define s3 where "s3 = s2\<lparr>it_ch := [], it_out := it_out s2 @ [7]\<rparr>"
  define s4 where "s4 = s3\<lparr>it_run := Some None\<rparr>"
  define s5 where "s5 = s4\<lparr>it_closed := True\<rparr>"
  define s6 where "s6 = s5\<lparr>it_pctx := True, it_phase := Cleaning\<rparr>"
  define s7 where "s7 = s6\<lparr>it_phase := LoopLeft\<rparr>"
  note d = s0_def s1_def s2_def s3_def s4_def s5_def s6_def s7_def iter_init_def
  have "iter_step s0 s1" unfolding s1_def by (rule cb_take) (simp_all add: d)
  moreover have "iter_step s1 s2" unfolding s2_def by (rule cb_send) (simp_all add: d DefaultBuffer_def)
  moreover have "iter_step s2 s3" unfolding s3_def by (rule yield_on) (simp_all add: d)
  moreover have "iter_step s3 s4" unfolding s4_def by (rule run_ends) (simp_all add: d)
  moreover have "iter_step s4 s5" unfolding s5_def by (rule ch_close) (simp_all add: d)
  moreover have "iter_step s5 s6" unfolding s6_def by (rule range_end) (simp_all add: d)
  moreover have "iter_step s6 s7" unfolding s7_def by (rule clean_end) (simp_all add: d)
  ultimately have "iter_reach [7] (Some None) s7" by (metis s0_def iter_start iter_next)
  then show ?thesis by (intro exI [of _ s7]) (simp add: d)
qed

theorem iter_in_order_witness:
  "\<exists>s :: nat iter. it_phase s = LoopLeft \<and> it_out s = [7] \<and> iter_err s = Some None"
proof -
  obtain s :: "nat iter" where s: "iter_reach [7] (Some None) s" "it_phase s = LoopLeft" "\<not> it_broke s" "it_ctx s = None"
    using iter_run_one by blast
  with iter_in_order [OF s(1)] show ?thesis by blast
qed

section \<open>Cancelling the caller's context\<close>

text \<open>
  The caller's context is only looked at inside the callback. Cancelled while the source is idle it
  ends nothing: the loop waits at the channel and the error function blocks, for ever.
\<close>

definition iter_waiting :: "'a iter \<Rightarrow> bool" where
  "iter_waiting s \<longleftrightarrow>
     it_phase s = Ranging \<and> it_ch s = [] \<and> \<not> it_closed s \<and> it_run s = None \<and> it_cb s = CbIdle
     \<and> it_src s = [] \<and> it_ends s = None \<and> \<not> it_pctx s"

lemma iter_waiting_step: "iter_step s s' \<Longrightarrow> iter_waiting s \<Longrightarrow> iter_waiting s'"
  by (cases rule: iter_step.cases) (auto simp: iter_waiting_def)

theorem iter_ignores_cancel:
  assumes "iter_step\<^sup>*\<^sup>* ((iter_init [] None)\<lparr>it_ctx := Some Canceled\<rparr>) s"
  shows "it_phase s = Ranging \<and> iter_err s = None"
proof -
  have "iter_waiting ((iter_init [] None)\<lparr>it_ctx := Some Canceled\<rparr>)"
    by (simp add: iter_waiting_def iter_init_def)
  with assms have "iter_waiting s"
    by (induction rule: rtranclp_induct) (auto intro: iter_waiting_step)
  then show ?thesis by (simp add: iter_waiting_def iter_err_def)
qed

theorem iter_ignores_cancel_witness:
  "iter_step (iter_init [] None :: nat iter) ((iter_init [] None)\<lparr>it_ctx := Some Canceled\<rparr>) \<and>
   iter_err ((iter_init [] None :: nat iter)\<lparr>it_ctx := Some Canceled\<rparr>) = None"
proof -
  have "iter_step (iter_init [] None :: nat iter) ((iter_init [] None)\<lparr>it_ctx := Some Canceled\<rparr>)"
    by (rule user_cancel) (simp add: iter_init_def)
  moreover have "iter_err ((iter_init [] None :: nat iter)\<lparr>it_ctx := Some Canceled\<rparr>) = None"
    using iter_ignores_cancel [of "(iter_init [] None)\<lparr>it_ctx := Some Canceled\<rparr>"] by blast
  ultimately show ?thesis by blast
qed

end
