(* ===== verification/Rate_Limit.thy ===== *)
theory Rate_Limit
  imports Transform_Ops
begin

text \<open>
  \<^verbatim>\<open>RateLimit\<close> of \<^verbatim>\<open>middleware.go\<close>. The token bucket is a package outside the repository: its answer to
  the \<^verbatim>\<open>k\<close>-th call of \<^verbatim>\<open>Allow\<close> and of \<^verbatim>\<open>Wait\<close> is an argument, as a function of the rate and the burst it
  was made with.
\<close>

datatype rate_limit_mode = RateLimitWait | RateLimitDrop

record rate_limit_config =
  rl_burst :: int
  rl_mode :: rate_limit_mode

datatype rate_limit_opt = Burst int | RateMode rate_limit_mode

fun apply_rate_opt :: "rate_limit_opt \<Rightarrow> rate_limit_config \<Rightarrow> rate_limit_config" where
  "apply_rate_opt (Burst n) c = (if n > 0 then c\<lparr>rl_burst := n\<rparr> else c)"
| "apply_rate_opt (RateMode m) c = c\<lparr>rl_mode := m\<rparr>"

definition rate_config :: "rate_limit_opt list \<Rightarrow> rate_limit_config" where
  "rate_config opts = fold apply_rate_opt opts \<lparr>rl_burst = 1, rl_mode = RateLimitWait\<rparr>"

record limiter =
  lim_allow :: "nat \<Rightarrow> bool"
  lim_wait :: "nat \<Rightarrow> go_error option"

text \<open>The item arm; the variable counts the calls of the limiter.\<close>

fun rate_limit_step :: "rate_limit_mode \<Rightarrow> limiter \<Rightarrow> nat \<Rightarrow> 'a recv \<Rightarrow> (nat, 'a) act" where
  "rate_limit_step mode lim k Closed = Act [] (Return None)"
| "rate_limit_step RateLimitDrop lim k (Item item) =
     (if \<not> lim_allow lim k then Act [] (Continue (Suc k)) else Act [item] (Continue (Suc k)))"
| "rate_limit_step RateLimitWait lim k (Item item) =
     (case lim_wait lim k of
        Some err \<Rightarrow> Act [] (Return (Some err))
      | None \<Rightarrow> Act [item] (Continue (Suc k)))"

definition RateLimit ::
  "('r \<Rightarrow> int \<Rightarrow> limiter) \<Rightarrow> 'r \<Rightarrow> rate_limit_opt list \<Rightarrow> ('a, 'v) stage_config \<Rightarrow> stage_id \<Rightarrow> stage_id \<Rightarrow>
   (nat, 'b recv, 'b) operator" where
  "RateLimit newLimiter ratePerSec rlOpts cfg i p =
     (let c = rate_config rlOpts
      in unary ''rate_limit'' cfg i p
           (select_loop 0 (rate_limit_step (rl_mode c) (newLimiter ratePerSec (rl_burst c)))))"

lemma rate_burst_positive: "rl_burst (rate_config opts) \<ge> 1"
proof -
  have "rl_burst c \<ge> 1 \<Longrightarrow> rl_burst (fold apply_rate_opt opts c) \<ge> 1" for c
  proof (induction opts arbitrary: c)
    case (Cons a opts)
    then show ?case by (cases a) simp_all
  qed simp
  then show ?thesis by (simp add: rate_config_def)
qed

definition rate_limit_item :: "rate_limit_mode \<Rightarrow> limiter \<Rightarrow> nat \<Rightarrow> 'a \<Rightarrow> 'a list \<times> nat result" where
  "rate_limit_item mode lim k item =
     (case mode of
        RateLimitDrop \<Rightarrow> (if lim_allow lim k then [item] else [], Inr (Suc k))
      | RateLimitWait \<Rightarrow> (case lim_wait lim k of Some err \<Rightarrow> ([], Inl err) | None \<Rightarrow> ([item], Inr (Suc k))))"

interpretation rate_limit: fallible "select_loop 0 (rate_limit_step mode lim)" "rate_limit_item mode lim" "\<lambda>_. []"
  for mode and lim
  by unfold_locales (case_tac mode; simp add: rate_limit_item_def split: option.splits)+

lemma no_last_sends: "(case r of Inl er \<Rightarrow> [] | Inr s \<Rightarrow> []) = []"
  by (cases r) simp_all

lemma result_error_Inr: "result_error (Inr s) = None"
  by (simp add: result_error_def)

lemma rate_drop_run:
  "try_run (rate_limit_item RateLimitDrop lim) k xs =
     (map snd (filter (\<lambda>(j, x). lim_allow lim j) (enumerate k xs)), Inr (k + length xs))"
  by (induction xs arbitrary: k) (auto simp: rate_limit_item_def)

lemma rate_wait_run:
  "fst (try_run (rate_limit_item RateLimitWait lim) k xs) =
     map snd (takeWhile (\<lambda>(j, x). lim_wait lim j = None) (enumerate k xs))"
  "result_error (snd (try_run (rate_limit_item RateLimitWait lim) k xs)) =
     (case find (\<lambda>(j, x). lim_wait lim j \<noteq> None) (enumerate k xs) of
        None \<Rightarrow> None | Some (j, x) \<Rightarrow> lim_wait lim j)"
  by (induction xs arbitrary: k)
    (auto simp: rate_limit_item_def result_error_def case_prod_beta split: option.splits)

text \<open>
  With \<^verbatim>\<open>RateLimitDrop\<close> exactly the items whose token was granted pass, in order, and the stage ends
  normally; with \<^verbatim>\<open>RateLimitWait\<close> nothing is ever lost: all items up to the first refused wait pass, and
  only a refused wait ends the stage early, with its error. The limiter is made with a burst of at
  least one.
\<close>

theorem rate_limit_trace:
  "let lim = newLimiter ratePerSec (rl_burst (rate_config rlOpts))
   in exec (op_loop (RateLimit newLimiter ratePerSec rlOpts cfg i p)) 0 (closing xs) =
      (case rl_mode (rate_config rlOpts) of
         RateLimitDrop \<Rightarrow> (map snd (filter (\<lambda>(j, x). lim_allow lim j) (enumerate 0 xs)), Return None)
       | RateLimitWait \<Rightarrow>
           (map snd (takeWhile (\<lambda>(j, x). lim_wait lim j = None) (enumerate 0 xs)),
            Return (case find (\<lambda>(j, x). lim_wait lim j \<noteq> None) (enumerate 0 xs) of
                      None \<Rightarrow> None | Some (j, x) \<Rightarrow> lim_wait lim j)))
      \<and> rl_burst (rate_config rlOpts) \<ge> 1"
proof -
  let ?lim = "newLimiter ratePerSec (rl_burst (rate_config rlOpts))"
  have "exec (select_loop 0 (rate_limit_step (rl_mode (rate_config rlOpts)) ?lim)) 0 (closing xs) =
      (case rl_mode (rate_config rlOpts) of
         RateLimitDrop \<Rightarrow> (map snd (filter (\<lambda>(j, x). lim_allow ?lim j) (enumerate 0 xs)), Return None)
       | RateLimitWait \<Rightarrow>
           (map snd (takeWhile (\<lambda>(j, x). lim_wait ?lim j = None) (enumerate 0 xs)),
            Return (case find (\<lambda>(j, x). lim_wait ?lim j \<noteq> None) (enumerate 0 xs) of
                      None \<Rightarrow> None | Some (j, x) \<Rightarrow> lim_wait ?lim j)))"
    by (cases "rl_mode (rate_config rlOpts)")
      (simp_all add: rate_limit.exec_closing rate_drop_run rate_wait_run no_last_sends result_error_Inr)
  then show ?thesis by (simp add: RateLimit_def Let_def rate_burst_positive)
qed

end
