(* ===== verification/Test_Clock.thy ===== *)
theory Test_Clock
  imports Prelude
begin

text \<open>
  The virtual clock of \<^verbatim>\<open>testkit/clock.go\<close>, with which pipelines that use time are tested. A channel
  of capacity one is an option. The loop of \<^verbatim>\<open>Advance\<close> over the ticks of a ticker takes fuel, one unit
  per tick; \<^verbatim>\<open>None\<close> is a loop that has not ended.
\<close>

record test_timer =
  tt_ch :: "time option"
  tt_deadline :: time
  tt_stopped :: bool
  tt_fired :: bool

record test_ticker =
  tk_ch :: "time option"
  tk_period :: duration
  tk_next :: time
  tk_stopped :: bool

record test_clock =
  tc_now :: time
  tc_timers :: "test_timer list"
  tc_tickers :: "test_ticker list"

text \<open>2020-01-01 00:00:00 UTC in nanoseconds of the Unix epoch.\<close>

definition NewTestClock :: test_clock where
  "NewTestClock = \<lparr>tc_now = 1577836800000000000, tc_timers = [], tc_tickers = []\<rparr>"

definition tc_Now :: "test_clock \<Rightarrow> time" where
  "tc_Now c = tc_now c"

definition NewTimer :: "duration \<Rightarrow> test_clock \<Rightarrow> test_clock \<times> nat" where
  "NewTimer d c =
     (c\<lparr>tc_timers := tc_timers c @
          [\<lparr>tt_ch = None, tt_deadline = tc_now c + d, tt_stopped = False, tt_fired = False\<rparr>]\<rparr>,
      length (tc_timers c))"

definition NewTicker :: "duration \<Rightarrow> test_clock \<Rightarrow> test_clock \<times> nat" where
  "NewTicker d c =
     (c\<lparr>tc_tickers := tc_tickers c @
          [\<lparr>tk_ch = None, tk_period = d, tk_next = tc_now c + d, tk_stopped = False\<rparr>]\<rparr>,
      length (tc_tickers c))"

definition tc_After :: "duration \<Rightarrow> test_clock \<Rightarrow> test_clock \<times> nat" where
  "tc_After d c = NewTimer d c"

definition timer_Stop :: "test_timer \<Rightarrow> test_timer \<times> bool" where
  "timer_Stop t = (if tt_stopped t \<or> tt_fired t then (t, False) else (t\<lparr>tt_stopped := True\<rparr>, True))"

definition timer_Reset :: "time \<Rightarrow> duration \<Rightarrow> test_timer \<Rightarrow> test_timer \<times> bool" where
  "timer_Reset now d t =
     (t\<lparr>tt_ch := None, tt_stopped := False, tt_fired := False, tt_deadline := now + d\<rparr>,
      \<not> tt_stopped t \<and> \<not> tt_fired t)"

definition ticker_Stop :: "test_ticker \<Rightarrow> test_ticker" where
  "ticker_Stop tk = tk\<lparr>tk_stopped := True\<rparr>"

section \<open>Advance\<close>

definition timer_due :: "time \<Rightarrow> test_timer \<Rightarrow> bool" where
  "timer_due now t \<longleftrightarrow> \<not> tt_stopped t \<and> \<not> tt_fired t \<and> tt_deadline t \<le> now"

fun tick_loop :: "nat \<Rightarrow> time \<Rightarrow> duration \<Rightarrow> time \<Rightarrow> (time list \<times> time) option" where
  "tick_loop 0 now period nxt = (if now < nxt then Some ([], nxt) else None)"
| "tick_loop (Suc fuel) now period nxt =
     (if now < nxt then Some ([], nxt)
      else map_option (\<lambda>(ticks, n). (nxt # ticks, n)) (tick_loop fuel now period (nxt + period)))"

text \<open>
  What \<^verbatim>\<open>Advance\<close> decides under the mutex: the timers marked, the tickers moved on, and the sends to
  make, by index, first those of the timers in the order they were created, then those of the tickers.
\<close>

datatype fire = FireTimer nat time | FireTicker nat time

definition due_timers :: "time \<Rightarrow> test_timer list \<Rightarrow> fire list" where
  "due_timers now ts = map (\<lambda>(i, t). FireTimer i now) (filter (\<lambda>(i, t). timer_due now t) (enumerate 0 ts))"

definition mark_timer :: "time \<Rightarrow> test_timer \<Rightarrow> test_timer" where
  "mark_timer now t = (if timer_due now t then t\<lparr>tt_fired := True\<rparr> else t)"

fun due_ticks :: "nat \<Rightarrow> time \<Rightarrow> nat \<Rightarrow> test_ticker list \<Rightarrow> (test_ticker list \<times> fire list) option" where
  "due_ticks fuel now i [] = Some ([], [])"
| "due_ticks fuel now i (tk # tks) =
     (if tk_stopped tk
      then map_option (\<lambda>(tks', fs). (tk # tks', fs)) (due_ticks fuel now (Suc i) tks)
      else (case tick_loop fuel now (tk_period tk) (tk_next tk) of
              None \<Rightarrow> None
            | Some (ticks, nxt) \<Rightarrow>
                map_option (\<lambda>(tks', fs). (tk\<lparr>tk_next := nxt\<rparr> # tks', map (FireTicker i) ticks @ fs))
                  (due_ticks fuel now (Suc i) tks)))"

definition tc_decide :: "nat \<Rightarrow> duration \<Rightarrow> test_clock \<Rightarrow> (test_clock \<times> fire list) option" where
  "tc_decide fuel d c =
     (let now = tc_now c + d in
      map_option (\<lambda>(tks, fs).
          (\<lparr>tc_now = now, tc_timers = map (mark_timer now) (tc_timers c), tc_tickers = tks\<rparr>,
           due_timers now (tc_timers c) @ fs))
        (due_ticks fuel now 0 (tc_tickers c)))"

text \<open>A send that does not block: it is lost when the channel is full.\<close>

definition offer :: "'t \<Rightarrow> 't option \<Rightarrow> 't option" where
  "offer x ch = (case ch of None \<Rightarrow> Some x | Some y \<Rightarrow> Some y)"

fun send_fire :: "fire \<Rightarrow> test_clock \<Rightarrow> test_clock" where
  "send_fire (FireTimer i now) c =
     (if i < length (tc_timers c)
      then c\<lparr>tc_timers := (tc_timers c)[i := (tc_timers c ! i)\<lparr>tt_ch := offer now (tt_ch (tc_timers c ! i))\<rparr>]\<rparr>
      else c)"
| "send_fire (FireTicker i t) c =
     (if i < length (tc_tickers c)
      then c\<lparr>tc_tickers := (tc_tickers c)[i := (tc_tickers c ! i)\<lparr>tk_ch := offer t (tk_ch (tc_tickers c ! i))\<rparr>]\<rparr>
      else c)"

text \<open>\<^verbatim>\<open>Advance\<close> with nobody receiving between the sends.\<close>

definition Advance :: "nat \<Rightarrow> duration \<Rightarrow> test_clock \<Rightarrow> test_clock option" where
  "Advance fuel d c = map_option (\<lambda>(c', fires). fold send_fire fires c') (tc_decide fuel d c)"

section \<open>How many ticks\<close>

definition ticks_due :: "time \<Rightarrow> duration \<Rightarrow> time \<Rightarrow> nat" where
  "ticks_due now period nxt = (if now < nxt then 0 else nat ((now - nxt) div period) + 1)"

lemma ticks_due_step:
  assumes "0 < period" and "nxt \<le> now"
  shows "ticks_due now period nxt = Suc (ticks_due now period (nxt + period))"
proof (cases "now < nxt + period")
  case True
  then have "(now - nxt) div period = 0" using assms by (intro div_pos_pos_trivial) auto
  with True assms show ?thesis by (simp add: ticks_due_def)
next
  case False
  have "(now - nxt) div period = (now - (nxt + period)) div period + 1"
    using assms(1) div_add_self2 [of period "now - nxt - period"] by (simp add: algebra_simps)
  moreover have "0 \<le> (now - (nxt + period)) div period" using False assms(1) by (simp add: pos_imp_zdiv_nonneg_iff)
  ultimately show ?thesis using False assms by (simp add: ticks_due_def nat_add_distrib)
qed

lemma tick_loop_value:
  assumes "0 < period" and "ticks_due now period nxt \<le> fuel"
  shows "tick_loop fuel now period nxt =
           Some (map (\<lambda>k. nxt + int k * period) [0..<ticks_due now period nxt],
                 nxt + int (ticks_due now period nxt) * period)"
  using assms
proof (induction fuel arbitrary: nxt)
  case 0
  then show ?case by (cases "now < nxt") (auto simp: ticks_due_def)
next
  case (Suc fuel)
  show ?case
  proof (cases "now < nxt")
    case True
    then show ?thesis by (simp add: ticks_due_def)
  next
    case False
    with Suc.prems have s: "ticks_due now period nxt = Suc (ticks_due now period (nxt + period))"
      by (intro ticks_due_step) auto
    have shift: "map (\<lambda>k. nxt + int k * period) [0..<Suc n] = nxt # map (\<lambda>k. nxt + period + int k * period) [0..<n]" for n
      by (simp add: upt_conv_Cons map_Suc_upt [symmetric] algebra_simps del: upt_Suc)
    from Suc.IH [of "nxt + period"] Suc.prems s False show ?thesis
      by (simp only: tick_loop.simps if_False s shift option.map prod.case) (simp add: algebra_simps)
  qed
qed

lemma tick_loop_fuel: "tick_loop fuel now period nxt = Some r \<Longrightarrow> 0 < period \<Longrightarrow> ticks_due now period nxt \<le> fuel"
proof (induction fuel arbitrary: nxt r)
  case 0
  then show ?case by (auto simp: ticks_due_def split: if_splits)
next
  case (Suc fuel)
  then show ?case
    by (cases "now < nxt") (auto simp: ticks_due_step, simp add: ticks_due_def)
qed

lemma tick_loop_endless: "period \<le> 0 \<Longrightarrow> nxt \<le> now \<Longrightarrow> tick_loop fuel now period nxt = None"
  by (induction fuel arbitrary: nxt) auto

lemma ticks_due_split:
  assumes "0 < period" and "now1 \<le> now2"
  shows "ticks_due now2 period nxt =
           ticks_due now1 period nxt + ticks_due now2 period (nxt + int (ticks_due now1 period nxt) * period)"
  using assms
proof (induction "ticks_due now1 period nxt" arbitrary: nxt)
  case 0
  then show ?case by simp
next
  case (Suc n)
  then have le: "nxt \<le> now1" by (auto simp: ticks_due_def split: if_splits)
  with Suc have s1: "ticks_due now1 period nxt = Suc (ticks_due now1 period (nxt + period))"
    and s2: "ticks_due now2 period nxt = Suc (ticks_due now2 period (nxt + period))"
    by (simp_all add: ticks_due_step)
  with Suc have "ticks_due now2 period (nxt + period) = ticks_due now1 period (nxt + period)
      + ticks_due now2 period (nxt + period + int (ticks_due now1 period (nxt + period)) * period)"
    by simp
  then show ?case by (simp add: s1 s2 algebra_simps)
qed

section \<open>What Advance decides\<close>

definition ticks_of :: "time \<Rightarrow> test_ticker \<Rightarrow> time list" where
  "ticks_of now tk =
     (if tk_stopped tk then []
      else map (\<lambda>k. tk_next tk + int k * tk_period tk) [0..<ticks_due now (tk_period tk) (tk_next tk)])"

definition moved_on :: "time \<Rightarrow> test_ticker \<Rightarrow> test_ticker" where
  "moved_on now tk =
     (if tk_stopped tk then tk
      else tk\<lparr>tk_next := tk_next tk + int (ticks_due now (tk_period tk) (tk_next tk)) * tk_period tk\<rparr>)"

definition ticker_ok :: "test_ticker \<Rightarrow> bool" where
  "ticker_ok tk \<longleftrightarrow> tk_stopped tk \<or> 0 < tk_period tk"

definition clock_ok :: "test_clock \<Rightarrow> bool" where
  "clock_ok c \<longleftrightarrow> (\<forall>tk \<in> set (tc_tickers c). ticker_ok tk)"

definition ticker_fires :: "time \<Rightarrow> nat \<Rightarrow> test_ticker list \<Rightarrow> fire list" where
  "ticker_fires now i tks = concat (map (\<lambda>(j, tk). map (FireTicker j) (ticks_of now tk)) (enumerate i tks))"

lemma due_ticks_value:
  assumes "\<forall>tk \<in> set tks. ticker_ok tk"
    and "\<forall>tk \<in> set tks. \<not> tk_stopped tk \<longrightarrow> ticks_due now (tk_period tk) (tk_next tk) \<le> fuel"
  shows "due_ticks fuel now i tks = Some (map (moved_on now) tks, ticker_fires now i tks)"
  using assms
proof (induction tks arbitrary: i)
  case (Cons tk tks)
  then show ?case
    by (auto simp: ticker_ok_def tick_loop_value ticks_of_def moved_on_def ticker_fires_def)
qed (simp add: ticker_fires_def)

lemma due_ticks_fuel:
  assumes "due_ticks fuel now i tks = Some r" and "\<forall>tk \<in> set tks. ticker_ok tk"
  shows "\<forall>tk \<in> set tks. \<not> tk_stopped tk \<longrightarrow> ticks_due now (tk_period tk) (tk_next tk) \<le> fuel"
  using assms
proof (induction tks arbitrary: i r)
  case (Cons tk tks)
  then show ?case
    by (auto simp: ticker_ok_def split: if_splits option.splits dest: tick_loop_fuel)
qed simp

lemma tc_decide_value:
  assumes "tc_decide fuel d c = Some (c', fs)" and "clock_ok c"
  shows "c' = \<lparr>tc_now = tc_now c + d, tc_timers = map (mark_timer (tc_now c + d)) (tc_timers c),
              tc_tickers = map (moved_on (tc_now c + d)) (tc_tickers c)\<rparr>"
    and "fs = due_timers (tc_now c + d) (tc_timers c) @ ticker_fires (tc_now c + d) 0 (tc_tickers c)"
proof -
  from assms have "due_ticks fuel (tc_now c + d) 0 (tc_tickers c)
      = Some (map (moved_on (tc_now c + d)) (tc_tickers c), ticker_fires (tc_now c + d) 0 (tc_tickers c))"
    by (intro due_ticks_value) (auto simp: tc_decide_def Let_def clock_ok_def dest: due_ticks_fuel)
  with assms(1) show "c' = \<lparr>tc_now = tc_now c + d, tc_timers = map (mark_timer (tc_now c + d)) (tc_timers c),
              tc_tickers = map (moved_on (tc_now c + d)) (tc_tickers c)\<rparr>"
    and "fs = due_timers (tc_now c + d) (tc_timers c) @ ticker_fires (tc_now c + d) 0 (tc_tickers c)"
    by (auto simp: tc_decide_def Let_def)
qed

section \<open>What the channels get\<close>

definition timer_sends :: "nat \<Rightarrow> fire list \<Rightarrow> time list" where
  "timer_sends i fs = concat (map (\<lambda>f. case f of FireTimer j t \<Rightarrow> if j = i then [t] else [] | FireTicker j t \<Rightarrow> []) fs)"

definition ticker_sends :: "nat \<Rightarrow> fire list \<Rightarrow> time list" where
  "ticker_sends i fs = concat (map (\<lambda>f. case f of FireTicker j t \<Rightarrow> if j = i then [t] else [] | FireTimer j t \<Rightarrow> []) fs)"

lemma sends_append [simp]:
  "timer_sends i (fs @ gs) = timer_sends i fs @ timer_sends i gs"
  "ticker_sends i (fs @ gs) = ticker_sends i fs @ ticker_sends i gs"
  by (simp_all add: timer_sends_def ticker_sends_def)

lemma send_fires_timer:
  "i < length (tc_timers c) \<Longrightarrow>
   tc_timers (fold send_fire fs c) ! i = (tc_timers c ! i)\<lparr>tt_ch := fold offer (timer_sends i fs) (tt_ch (tc_timers c ! i))\<rparr>
   \<and> length (tc_timers (fold send_fire fs c)) = length (tc_timers c)"
proof (induction fs arbitrary: c)
  case (Cons f fs)
  then show ?case
    by (cases f) (auto simp: timer_sends_def nth_list_update)
qed (simp add: timer_sends_def)

lemma send_fires_ticker:
  "i < length (tc_tickers c) \<Longrightarrow>
   tc_tickers (fold send_fire fs c) ! i = (tc_tickers c ! i)\<lparr>tk_ch := fold offer (ticker_sends i fs) (tk_ch (tc_tickers c ! i))\<rparr>
   \<and> length (tc_tickers (fold send_fire fs c)) = length (tc_tickers c)"
proof (induction fs arbitrary: c)
  case (Cons f fs)
  then show ?case
    by (cases f) (auto simp: ticker_sends_def nth_list_update)
qed (simp add: ticker_sends_def)

lemma offer_empty [simp]: "offer x None = Some x"
  by (simp add: offer_def)

lemma offer_full [simp]: "fold offer xs (Some y) = Some y"
  by (induction xs) (simp_all add: offer_def)

lemma offer_first: "fold offer xs None = (case xs of [] \<Rightarrow> None | x # _ \<Rightarrow> Some x)"
  by (cases xs) (simp_all add: offer_def)

lemma ticker_sends_fires:
  "ticker_sends i (ticker_fires now k tks) = (if k \<le> i \<and> i < k + length tks then ticks_of now (tks ! (i - k)) else [])"
proof (induction tks arbitrary: k)
  case (Cons tk tks)
  have "ticker_sends i (map (FireTicker k) ts) = (if i = k then ts else [])" for ts
    by (induction ts) (auto simp: ticker_sends_def)
  moreover have "ticker_fires now k (tk # tks) = map (FireTicker k) (ticks_of now tk) @ ticker_fires now (Suc k) tks"
    by (simp add: ticker_fires_def)
  ultimately show ?case using Cons.IH [of "Suc k"] by (auto simp: nth_Cons')
qed (auto simp: ticker_fires_def ticker_sends_def)

lemma no_timer_in_ticks [simp]: "timer_sends i (ticker_fires now k tks) = []"
proof (induction tks arbitrary: k)
  case (Cons tk tks)
  have "timer_sends i (map (FireTicker k) ts) = []" for ts
    by (induction ts) (auto simp: timer_sends_def)
  with Cons [of "Suc k"] show ?case by (simp add: ticker_fires_def)
qed (simp add: ticker_fires_def timer_sends_def)

lemma no_tick_in_timers [simp]: "ticker_sends i (due_timers now ts) = []"
  by (auto simp: ticker_sends_def due_timers_def)

lemma timer_sends_due:
  "timer_sends i (map (\<lambda>(i, t). FireTimer i now) (filter (\<lambda>(i, t). timer_due now t) (enumerate k ts))) =
     (if k \<le> i \<and> i < k + length ts \<and> timer_due now (ts ! (i - k)) then [now] else [])"
proof (induction ts arbitrary: k)
  case (Cons t ts)
  have "timer_sends i (FireTimer k now # fs) = (if k = i then [now] else []) @ timer_sends i fs" for fs
    by (simp add: timer_sends_def)
  with Cons [of "Suc k"] show ?case by (auto simp: nth_Cons')
qed (simp add: timer_sends_def)

lemma timer_sends_of_due:
  "timer_sends i (due_timers now ts) = (if i < length ts \<and> timer_due now (ts ! i) then [now] else [])"
  using timer_sends_due [of i now 0 ts] by (simp add: due_timers_def)

section \<open>Properties\<close>

text \<open>
  \<^verbatim>\<open>Advance\<close> returns whenever every ticker that is not stopped has a positive period. With a ticker
  whose period is not positive and that is due, no amount of fuel is enough: the loop runs for ever,
  with the mutex of the clock held.
\<close>

theorem advance_returns:
  assumes "clock_ok c"
  shows "\<exists>fuel. \<forall>f \<ge> fuel. Advance f d c \<noteq> None"
proof -
  let ?due = "\<lambda>tk. ticks_due (tc_now c + d) (tk_period tk) (tk_next tk)"
  have "ticks_due (tc_now c + d) (tk_period tk) (tk_next tk) \<le> f"
    if "sum_list (map ?due (tc_tickers c)) \<le> f" "tk \<in> set (tc_tickers c)" for f tk
    using that member_le_sum_list [of "?due tk" "map ?due (tc_tickers c)"] by auto
  then have "due_ticks f (tc_now c + d) 0 (tc_tickers c) \<noteq> None"
    if "sum_list (map ?due (tc_tickers c)) \<le> f" for f
    using that assms by (subst due_ticks_value) (auto simp: clock_ok_def)
  then show ?thesis
    by (intro exI [of _ "sum_list (map ?due (tc_tickers c))"]) (auto simp: Advance_def tc_decide_def Let_def)
qed

lemma due_ticks_endless:
  "tk \<in> set tks \<Longrightarrow> \<not> tk_stopped tk \<Longrightarrow> tk_period tk \<le> 0 \<Longrightarrow> tk_next tk \<le> now \<Longrightarrow> due_ticks fuel now i tks = None"
  by (induction tks arbitrary: i) (auto simp: tick_loop_endless split: option.splits)

theorem advance_hangs:
  assumes "NewTicker p c = (c', i)" and "p \<le> 0" and "0 \<le> d"
  shows "Advance fuel d c' = None"
proof -
  have "due_ticks fuel (tc_now c + d) 0 (tc_tickers c') = None"
    by (rule due_ticks_endless [of "\<lparr>tk_ch = None, tk_period = p, tk_next = tc_now c + p, tk_stopped = False\<rparr>"])
      (use assms in \<open>auto simp: NewTicker_def\<close>)
  then show ?thesis using assms(1) by (auto simp: Advance_def tc_decide_def NewTicker_def Let_def)
qed

theorem advance_returns_witness:
  "\<exists>fuel. \<forall>f \<ge> fuel. Advance f 10 (fst (NewTicker 3 NewTestClock)) \<noteq> None"
  by (rule advance_returns) (simp add: clock_ok_def NewTicker_def NewTestClock_def ticker_ok_def)

theorem advance_hangs_witness:
  "Advance 100 1 (fst (NewTicker 0 NewTestClock)) = None"
  by (rule advance_hangs [of 0 NewTestClock _ "snd (NewTicker 0 NewTestClock)"]) simp_all

lemma progression_append:
  "map (\<lambda>k. n + int k * p) [0..<a + b] = map (\<lambda>k. n + int k * p) [0..<a] @ map (\<lambda>k. n + int a * p + int k * p) [0..<b]"
  by (induction b) (simp_all add: algebra_simps)

text \<open>
  Advancing by \<^verbatim>\<open>a\<close> and then by \<^verbatim>\<open>b\<close> leaves the clock where advancing by \<^verbatim>\<open>a + b\<close> does, every ticker is
  due the same ticks in the same order, and a timer is due in one of the two steps exactly when it is
  due in the whole.
\<close>

theorem advance_splits:
  assumes "clock_ok c" and "0 \<le> a" and "0 \<le> b"
    and "tc_decide f1 a c = Some (c1, fs1)" and "tc_decide f2 b c1 = Some (c2, fs2)"
    and "tc_decide f3 (a + b) c = Some (c3, fs3)"
  shows "c2 = c3 \<and> ticker_sends i (fs1 @ fs2) = ticker_sends i fs3
       \<and> length (timer_sends i (fs1 @ fs2)) = length (timer_sends i fs3)"
proof -
  let ?t1 = "tc_now c + a" and ?t2 = "tc_now c + a + b"
  note v1 = tc_decide_value [OF assms(4,1)] and v3 = tc_decide_value [OF assms(6,1), unfolded add.assoc [symmetric]]
  have ok1: "clock_ok c1" using assms(1) by (auto simp: v1(1) clock_ok_def ticker_ok_def moved_on_def)
  note v2 = tc_decide_value [OF assms(5) ok1]
  have now2: "tc_now c1 + b = ?t2" by (simp add: v1(1))
  have le: "?t1 \<le> ?t2" using assms(3) by simp
  have timers: "mark_timer ?t2 (mark_timer ?t1 t) = mark_timer ?t2 t" for t
    using le by (auto simp: mark_timer_def timer_due_def)
  have split: "ticks_due ?t2 (tk_period tk) (tk_next tk) =
      ticks_due ?t1 (tk_period tk) (tk_next tk)
      + ticks_due ?t2 (tk_period tk) (tk_next (moved_on ?t1 tk))"
    if "tk \<in> set (tc_tickers c)" "\<not> tk_stopped tk" for tk
    using that assms(1) ticks_due_split [OF _ le] by (auto simp: clock_ok_def ticker_ok_def moved_on_def)
  have move: "moved_on ?t2 (moved_on ?t1 tk) = moved_on ?t2 tk" if "tk \<in> set (tc_tickers c)" for tk
    using split [OF that] by (auto simp: moved_on_def algebra_simps)
  have ticks: "ticks_of ?t1 tk @ ticks_of ?t2 (moved_on ?t1 tk) = ticks_of ?t2 tk"
    if "tk \<in> set (tc_tickers c)" for tk
  proof (cases "tk_stopped tk")
    case False
    with split [OF that this] show ?thesis by (simp add: ticks_of_def progression_append moved_on_def)
  qed (simp add: ticks_of_def moved_on_def)
  have "c2 = c3" by (simp add: v1(1) v2(1) v3(1) now2 timers move)
  moreover have "ticker_sends i (fs1 @ fs2) = ticker_sends i fs3"
    using ticks by (auto simp: v1 v2 v3 now2 ticker_sends_fires)
  moreover have "length (timer_sends i (fs1 @ fs2)) = length (timer_sends i fs3)"
    using le by (auto simp: v1 v2 v3 now2 timer_sends_of_due mark_timer_def timer_due_def)
  ultimately show ?thesis by blast
qed

theorem advance_splits_witness:
  "let c = fst (NewTimer 4 (fst (NewTicker 3 \<lparr>tc_now = 0, tc_timers = [], tc_tickers = []\<rparr>)));
       (c1, fs1) = the (tc_decide 9 5 c); (c2, fs2) = the (tc_decide 9 2 c1)
   in c2 = fst (the (tc_decide 9 (5 + 2) c)) \<and> ticker_sends 0 (fs1 @ fs2) = [3, 6]"
proof -
  let ?c = "fst (NewTimer 4 (fst (NewTicker 3 \<lparr>tc_now = 0, tc_timers = [], tc_tickers = []\<rparr>)))"
  obtain c1 fs1 where d1: "tc_decide 9 5 ?c = Some (c1, fs1)"
    by (simp add: tc_decide_def NewTimer_def NewTicker_def numeral_eq_Suc)
  then obtain c2 fs2 where d2: "tc_decide 9 2 c1 = Some (c2, fs2)"
    by (auto simp: tc_decide_def NewTimer_def NewTicker_def numeral_eq_Suc)
  obtain c3 fs3 where d3: "tc_decide 9 (5 + 2) ?c = Some (c3, fs3)" "ticker_sends 0 fs3 = [3, 6]"
    by (simp add: tc_decide_def NewTimer_def NewTicker_def numeral_eq_Suc ticker_sends_def due_timers_def)
  have "clock_ok ?c" by (simp add: clock_ok_def NewTimer_def NewTicker_def ticker_ok_def)
  from advance_splits [OF this _ _ d1 d2 d3(1), of 0] d1 d2 d3 show ?thesis by simp
qed

text \<open>
  What a reader that looks only after \<^verbatim>\<open>Advance\<close> finds in an empty channel: a timer that was due holds
  the time advanced to, not its deadline, and is never due again; of all ticks a ticker was due it
  holds the first, the others are lost.
\<close>

theorem advance_delivers:
  assumes "clock_ok c" and "Advance fuel d c = Some c'" and "i < length (tc_timers c)" and "j < length (tc_tickers c)"
    and "tt_ch (tc_timers c ! i) = None" and "tk_ch (tc_tickers c ! j) = None"
  shows "tt_ch (tc_timers c' ! i) = (if timer_due (tc_now c + d) (tc_timers c ! i) then Some (tc_now c + d) else None)
       \<and> \<not> timer_due now' (mark_timer (tc_now c + d) (tc_timers c ! i)) = (\<not> timer_due now' (tc_timers c ! i) \<or> timer_due (tc_now c + d) (tc_timers c ! i))
       \<and> tk_ch (tc_tickers c' ! j) =
           (if \<not> tk_stopped (tc_tickers c ! j) \<and> tk_next (tc_tickers c ! j) \<le> tc_now c + d
            then Some (tk_next (tc_tickers c ! j)) else None)"
proof -
  obtain c1 fs where d: "tc_decide fuel d c = Some (c1, fs)" "c' = fold send_fire fs c1"
    using assms(2) by (auto simp: Advance_def)
  note v = tc_decide_value [OF d(1) assms(1)]
  have "tt_ch (tc_timers c' ! i) = fold offer (timer_sends i fs) (tt_ch (tc_timers c1 ! i))"
    using assms(3) send_fires_timer [of i c1 fs] by (simp add: d(2) v(1))
  then have "tt_ch (tc_timers c' ! i) = (if timer_due (tc_now c + d) (tc_timers c ! i) then Some (tc_now c + d) else None)"
    using assms(3,5) by (simp add: v timer_sends_of_due mark_timer_def offer_def)
  moreover have "tk_ch (tc_tickers c' ! j) = fold offer (ticker_sends j fs) (tk_ch (tc_tickers c1 ! j))"
    using assms(4) send_fires_ticker [of j c1 fs] by (simp add: d(2) v(1))
  then have "tk_ch (tc_tickers c' ! j) =
      (if \<not> tk_stopped (tc_tickers c ! j) \<and> tk_next (tc_tickers c ! j) \<le> tc_now c + d
       then Some (tk_next (tc_tickers c ! j)) else None)"
    using assms(4,6)
    by (auto simp: v ticker_sends_fires moved_on_def ticks_of_def offer_first ticks_due_def upt_conv_Cons
        simp del: upt_Suc)
  ultimately show ?thesis by (auto simp: mark_timer_def timer_due_def)
qed

theorem advance_delivers_witness:
  "\<exists>c'. Advance 9 10 (fst (NewTicker 4 (fst (NewTimer 3 \<lparr>tc_now = 0, tc_timers = [], tc_tickers = []\<rparr>)))) = Some c' \<and>
     tt_ch (tc_timers c' ! 0) = Some 10 \<and> tk_ch (tc_tickers c' ! 0) = Some 4"
proof -
  let ?c = "fst (NewTicker 4 (fst (NewTimer 3 \<lparr>tc_now = 0, tc_timers = [], tc_tickers = []\<rparr>)))"
  obtain c' where a: "Advance 9 10 ?c = Some c'"
    by (simp add: Advance_def tc_decide_def NewTimer_def NewTicker_def numeral_eq_Suc)
  have "clock_ok ?c" by (simp add: clock_ok_def NewTimer_def NewTicker_def ticker_ok_def)
  from advance_delivers [OF this a, of 0 0] a show ?thesis
    by (simp add: NewTimer_def NewTicker_def timer_due_def)
qed

text \<open>The sends are not in the order of the times they stand for.\<close>

theorem fires_not_chronological:
  "map_option snd (tc_decide 9 10
      (fst (NewTicker 4 (fst (NewTimer 3 (fst (NewTimer 8 \<lparr>tc_now = 0, tc_timers = [], tc_tickers = []\<rparr>)))))))
     = Some [FireTimer 0 10, FireTimer 1 10, FireTicker 0 4, FireTicker 0 8]"
  by (simp add: tc_decide_def NewTimer_def NewTicker_def numeral_eq_Suc due_timers_def timer_due_def)

text \<open>
  \<^verbatim>\<open>Reset\<close> makes a timer like new, whatever its state: the channel is empty, it is due when its new
  deadline is reached and no sooner; \<^verbatim>\<open>Stop\<close> keeps it from being due, and both report whether it was
  still pending.
\<close>

theorem reset_and_stop:
  "timer_due t' (fst (timer_Reset now d t)) = (now + d \<le> t') \<and> tt_ch (fst (timer_Reset now d t)) = None
   \<and> \<not> timer_due t' (fst (timer_Stop t)) \<and> snd (timer_Reset now d t) = snd (timer_Stop t)
   \<and> snd (timer_Stop (fst (timer_Reset now d t)))"
  by (auto simp: timer_due_def timer_Reset_def timer_Stop_def)

end
