(* ===== verification/Hook_Ops.thy ===== *)
theory Hook_Ops
  imports Run_Control
begin

text \<open>
  Observers: the hook interfaces of \<^verbatim>\<open>hooks/hooks.go\<close> with their optional extensions, \<^verbatim>\<open>MultiHook\<close> and
  \<^verbatim>\<open>LogHook\<close> of \<^verbatim>\<open>config.go\<close>, \<^verbatim>\<open>RecordingHook\<close> of \<^verbatim>\<open>testkit/helpers.go\<close>; the options of a run and how
  \<^verbatim>\<open>Run\<close> copies them into the run context. Stores, caches, codecs, gates and hooks given as options are
  handles; \<^verbatim>\<open>None\<close> is nil.
\<close>

section \<open>Hooks\<close>

datatype 'i hook_event =
    EvStageStart string
  | EvItem string duration "go_error option"
  | EvStageDone string int int
  | EvDrop string 'i
  | EvRestart string int "go_error option"
  | EvSample string 'i
  | EvGraph "graph_node list"
  | EvBuffers "(string \<times> nat \<times> nat) list"
  | EvRunComplete run_summary

text \<open>The extension interface a method belongs to; \<^verbatim>\<open>None\<close> is \<^verbatim>\<open>Hook\<close> itself.\<close>

datatype hook_ext = OverflowHook | SupervisionHook | SampleHook | GraphHook | BufferHook | RunSummaryHook

fun event_ext :: "'i hook_event \<Rightarrow> hook_ext option" where
  "event_ext (EvStageStart st) = None"
| "event_ext (EvItem st dur err) = None"
| "event_ext (EvStageDone st p e) = None"
| "event_ext (EvDrop st x) = Some OverflowHook"
| "event_ext (EvRestart st a c) = Some SupervisionHook"
| "event_ext (EvSample st x) = Some SampleHook"
| "event_ext (EvGraph ns) = Some GraphHook"
| "event_ext (EvBuffers q) = Some BufferHook"
| "event_ext (EvRunComplete s) = Some RunSummaryHook"

record ('i, 's) hook =
  hk_exts :: "hook_ext list"
  hk_on :: "'i hook_event \<Rightarrow> 's \<Rightarrow> 's"

text \<open>A call as the engine makes it: methods of an extension behind a type assertion.\<close>

definition hook_notify :: "('i, 's) hook \<Rightarrow> 'i hook_event \<Rightarrow> 's \<Rightarrow> 's" where
  "hook_notify h e s =
     (case event_ext e of
        None \<Rightarrow> hk_on h e s
      | Some x \<Rightarrow> if x \<in> set (hk_exts h) then hk_on h e s else s)"

definition NoopHook :: "('i, 's) hook" where
  "NoopHook = \<lparr>hk_exts = [], hk_on = (\<lambda>_ s. s)\<rparr>"

text \<open>\<^verbatim>\<open>multiHook\<close> has every extension but \<^verbatim>\<open>RunSummaryHook\<close>; its state is the list of the states.\<close>

fun multi_on :: "('i, 's) hook list \<Rightarrow> 'i hook_event \<Rightarrow> 's list \<Rightarrow> 's list" where
  "multi_on (h # hs) e (s # ss) = hook_notify h e s # multi_on hs e ss"
| "multi_on _ e ss = ss"

definition MultiHook :: "('i, 's) hook list \<Rightarrow> ('i, 's list) hook" where
  "MultiHook hs =
     \<lparr>hk_exts = [OverflowHook, SupervisionHook, SampleHook, GraphHook, BufferHook], hk_on = multi_on hs\<rparr>"

text \<open>\<^verbatim>\<open>LogHook\<close>: the lines given to the logger, with their level.\<close>

datatype log_level = LevelInfo | LevelWarn

datatype log_line =
    StageStarted string
  | ItemError string duration go_error
  | StageEnded string int int
  | ItemDropped string

fun log_on :: "'i hook_event \<Rightarrow> (log_level \<times> log_line) list \<Rightarrow> (log_level \<times> log_line) list" where
  "log_on (EvStageStart st) out = out @ [(LevelInfo, StageStarted st)]"
| "log_on (EvItem st dur (Some err)) out = out @ [(LevelWarn, ItemError st dur err)]"
| "log_on (EvStageDone st p e) out = out @ [(LevelInfo, StageEnded st p e)]"
| "log_on (EvDrop st x) out = out @ [(LevelWarn, ItemDropped st)]"
| "log_on _ out = out"

definition LogHook :: "('i, (log_level \<times> log_line) list) hook" where
  "LogHook = \<lparr>hk_exts = [OverflowHook], hk_on = log_on\<rparr>"

section \<open>RecordingHook\<close>

record 'i item_event =
  ie_stage :: string
  ie_duration :: duration
  ie_err :: "go_error option"
  ie_sample :: "'i option"
  ie_is_sample :: bool

record 'i recording =
  rec_starts :: "string list"
  rec_items :: "'i item_event list"
  rec_dones :: "(string \<times> int \<times> int) list"
  rec_drops :: "(string \<times> 'i) list"
  rec_restarts :: "(string \<times> int \<times> go_error option) list"
  rec_graph :: "graph_node list"

definition new_recording :: "'i recording" where
  "new_recording = \<lparr>rec_starts = [], rec_items = [], rec_dones = [], rec_drops = [], rec_restarts = [], rec_graph = []\<rparr>"

fun recording_on :: "'i hook_event \<Rightarrow> 'i recording \<Rightarrow> 'i recording" where
  "recording_on (EvStageStart st) h = h\<lparr>rec_starts := rec_starts h @ [st]\<rparr>"
| "recording_on (EvItem st dur err) h =
     h\<lparr>rec_items := rec_items h @
        [\<lparr>ie_stage = st, ie_duration = dur, ie_err = err, ie_sample = None, ie_is_sample = False\<rparr>]\<rparr>"
| "recording_on (EvStageDone st p e) h = h\<lparr>rec_dones := rec_dones h @ [(st, p, e)]\<rparr>"
| "recording_on (EvDrop st x) h = h\<lparr>rec_drops := rec_drops h @ [(st, x)]\<rparr>"
| "recording_on (EvRestart st a c) h = h\<lparr>rec_restarts := rec_restarts h @ [(st, a, c)]\<rparr>"
| "recording_on (EvSample st x) h =
     h\<lparr>rec_items := rec_items h @
        [\<lparr>ie_stage = st, ie_duration = 0, ie_err = None, ie_sample = Some x, ie_is_sample = True\<rparr>]\<rparr>"
| "recording_on (EvGraph ns) h = h\<lparr>rec_graph := ns\<rparr>"
| "recording_on (EvBuffers q) h = h"
| "recording_on (EvRunComplete s) h = h"

definition RecordingHook :: "('i, 'i recording) hook" where
  "RecordingHook =
     \<lparr>hk_exts = [OverflowHook, SupervisionHook, SampleHook, GraphHook, BufferHook], hk_on = recording_on\<rparr>"

definition rec_ItemsFor :: "string \<Rightarrow> 'i recording \<Rightarrow> 'i item_event list" where
  "rec_ItemsFor stage h = filter (\<lambda>e. ie_stage e = stage) (rec_items h)"

definition rec_Errors :: "'i recording \<Rightarrow> 'i item_event list" where
  "rec_Errors h = filter (\<lambda>e. ie_err e \<noteq> None) (rec_items h)"

section \<open>Options of a run\<close>

type_synonym handle = nat

record run_config =
  rn_store :: "handle option"
  rn_hook :: "handle option"
  rn_drain_timeout :: duration
  rn_cache :: "handle option"
  rn_cache_ttl :: duration
  rn_sample_rate :: int
  rn_codec :: "handle option"
  rn_gate :: "handle option"
  rn_error_handler :: "handle option"
  rn_buffer :: int
  rn_key_ttl :: duration
  rn_dry_run :: bool
  rn_dev_store :: "handle option"

datatype run_opt =
    OptStore "handle option"
  | OptHook "handle option"
  | OptDrain duration
  | OptCache "handle option" duration
  | OptSampleRate int
  | OptCodec "handle option"
  | OptPauseGate "handle option"
  | OptErrorStrategy "handle option"
  | OptDefaultBuffer int
  | OptDefaultKeyTTL duration
  | OptDryRun
  | OptDevStore "handle option"

fun apply_run_opt :: "run_opt \<Rightarrow> run_config \<Rightarrow> run_config" where
  "apply_run_opt (OptStore s) c = c\<lparr>rn_store := s\<rparr>"
| "apply_run_opt (OptHook h) c = c\<lparr>rn_hook := h\<rparr>"
| "apply_run_opt (OptDrain d) c = c\<lparr>rn_drain_timeout := d\<rparr>"
| "apply_run_opt (OptCache s ttl) c = c\<lparr>rn_cache := s, rn_cache_ttl := ttl\<rparr>"
| "apply_run_opt (OptSampleRate n) c = c\<lparr>rn_sample_rate := n\<rparr>"
| "apply_run_opt (OptCodec s) c = c\<lparr>rn_codec := s\<rparr>"
| "apply_run_opt (OptPauseGate g) c = c\<lparr>rn_gate := g\<rparr>"
| "apply_run_opt (OptErrorStrategy h) c = c\<lparr>rn_error_handler := h\<rparr>"
| "apply_run_opt (OptDefaultBuffer n) c = (if n \<ge> 0 then c\<lparr>rn_buffer := n\<rparr> else c)"
| "apply_run_opt (OptDefaultKeyTTL d) c = c\<lparr>rn_key_ttl := d\<rparr>"
| "apply_run_opt OptDryRun c = c\<lparr>rn_dry_run := True\<rparr>"
| "apply_run_opt (OptDevStore s) c = c\<lparr>rn_dev_store := s\<rparr>"

text \<open>The default hook and codec of the library.\<close>

definition noop_handle :: handle where
  "noop_handle = 0"

definition json_handle :: handle where
  "json_handle = 1"

definition buildRunConfig :: "run_opt list \<Rightarrow> run_config" where
  "buildRunConfig opts =
     fold apply_run_opt opts
       \<lparr>rn_store = None, rn_hook = Some noop_handle, rn_drain_timeout = 0, rn_cache = None, rn_cache_ttl = 0,
        rn_sample_rate = 0, rn_codec = None, rn_gate = None, rn_error_handler = None, rn_buffer = 0,
        rn_key_ttl = 0, rn_dry_run = False, rn_dev_store = None\<rparr>"

text \<open>The run context as \<^verbatim>\<open>Run\<close> fills it before the graph is built.\<close>

record run_env = run_ctx +
  re_cache :: "handle option"
  re_cache_ttl :: duration
  re_codec :: handle
  re_hook :: handle
  re_gate :: "handle option"
  re_error_handler :: "handle option"
  re_dry_run :: bool
  re_dev_store :: "handle option"

definition prepare_run :: "run_config \<Rightarrow> run_env" where
  "prepare_run cfg =
     run_ctx.extend (newRunCtx\<lparr>rc_default_buffer := rn_buffer cfg, rc_default_key_ttl := rn_key_ttl cfg\<rparr>)
       (run_env.fields (rn_cache cfg) (rn_cache_ttl cfg)
          (case rn_codec cfg of None \<Rightarrow> json_handle | Some c \<Rightarrow> c)
          (case rn_hook cfg of None \<Rightarrow> noop_handle | Some h \<Rightarrow> h)
          (rn_gate cfg) (rn_error_handler cfg) (rn_dry_run cfg) (rn_dev_store cfg))"

text \<open>
  The calls \<^verbatim>\<open>Run\<close> itself makes on the hook: the graph and the buffers before the stages start, the
  summary at the end.
\<close>

definition buffer_status :: "(stage_meta \<times> (nat \<times> nat) option) list \<Rightarrow> (string \<times> nat \<times> nat) list" where
  "buffer_status metas =
     List.map_filter (\<lambda>(m, lc). map_option (\<lambda>(l, c). (meta_name m, l, c)) lc) metas"

definition run_hook_calls ::
  "(stage_meta \<times> (nat \<times> nat) option) list \<Rightarrow> 'i hook_event list \<Rightarrow> run_summary \<Rightarrow> 'i hook_event list" where
  "run_hook_calls metas during summary =
     EvGraph (metasToGraphNodes (map fst metas)) # EvBuffers (buffer_status metas) # during @ [EvRunComplete summary]"

section \<open>What the hooks see\<close>

lemma multi_on_length [simp]: "length (multi_on hs e ss) = length ss"
  by (induction hs e ss rule: multi_on.induct) auto

lemma multi_on_nth:
  "length hs = length ss \<Longrightarrow> k < length ss \<Longrightarrow> multi_on hs e ss ! k = hook_notify (hs ! k) e (ss ! k)"
  by (induction hs e ss arbitrary: k rule: multi_on.induct) (auto simp: nth_Cons')

lemma multi_notify:
  "event_ext e \<noteq> Some RunSummaryHook \<Longrightarrow> hook_notify (MultiHook hs) e ss = multi_on hs e ss"
  by (cases e) (simp_all add: hook_notify_def MultiHook_def)

text \<open>
  Behind a \<^verbatim>\<open>MultiHook\<close> every hook ends in the state it would have reached alone, whatever extensions
  the others have, as long as no summary is among the events.
\<close>

theorem multi_hook_transparent:
  assumes "length hs = length ss" and "\<forall>e \<in> set evs. event_ext e \<noteq> Some RunSummaryHook" and "k < length ss"
  shows "fold (hook_notify (MultiHook hs)) evs ss ! k = fold (hook_notify (hs ! k)) evs (ss ! k)"
  using assms
proof (induction evs arbitrary: ss)
  case (Cons e evs)
  then have "fold (hook_notify (MultiHook hs)) evs (multi_on hs e ss) ! k
      = fold (hook_notify (hs ! k)) evs (multi_on hs e ss ! k)"
    by (intro Cons.IH) auto
  with Cons.prems show ?case by (simp add: multi_notify multi_on_nth)
qed simp

theorem multi_hook_transparent_witness:
  "fold (hook_notify (MultiHook [LogHook, LogHook]))
     [EvStageStart ''map'', EvSample ''map'' (7 :: nat), EvStageDone ''map'' 1 0] [[], []] ! 1
   = [(LevelInfo, StageStarted ''map''), (LevelInfo, StageEnded ''map'' 1 0)]"
  by (subst multi_hook_transparent) (simp_all add: hook_notify_def LogHook_def)

text \<open>
  The summary of a run reaches no hook behind a \<^verbatim>\<open>MultiHook\<close>, not even one that asks for it.
\<close>

theorem multi_hook_hides_summary:
  "hook_notify (MultiHook hs) (EvRunComplete summary) ss = ss
   \<and> hook_notify \<lparr>hk_exts = [RunSummaryHook], hk_on = (\<lambda>e n. Suc n)\<rparr> (EvRunComplete summary :: nat hook_event) n = Suc n"
  by (simp add: hook_notify_def MultiHook_def)

lemma map_filter_snoc:
  "List.map_filter f (xs @ [x]) = List.map_filter f xs @ (case f x of None \<Rightarrow> [] | Some y \<Rightarrow> [y])"
  by (simp add: map_filter_def split: option.splits)

definition recorded_items :: "'i hook_event list \<Rightarrow> 'i item_event list" where
  "recorded_items evs =
     List.map_filter
       (\<lambda>e. case e of
          EvItem st dur err \<Rightarrow>
            Some \<lparr>ie_stage = st, ie_duration = dur, ie_err = err, ie_sample = None, ie_is_sample = False\<rparr>
        | EvSample st x \<Rightarrow>
            Some \<lparr>ie_stage = st, ie_duration = 0, ie_err = None, ie_sample = Some x, ie_is_sample = True\<rparr>
        | _ \<Rightarrow> None) evs"

text \<open>
  \<^verbatim>\<open>RecordingHook\<close> keeps every event of every kind in order, with samples among the items; its error
  list has the failed items only.
\<close>

theorem recording_faithful:
  fixes evs :: "'i hook_event list"
  defines "h \<equiv> fold (hook_notify RecordingHook) evs new_recording"
  shows "rec_starts h = List.map_filter (\<lambda>e. case e of EvStageStart st \<Rightarrow> Some st | _ \<Rightarrow> None) evs
       \<and> rec_items h = recorded_items evs
       \<and> rec_dones h = List.map_filter (\<lambda>e. case e of EvStageDone st p er \<Rightarrow> Some (st, p, er) | _ \<Rightarrow> None) evs
       \<and> rec_drops h = List.map_filter (\<lambda>e. case e of EvDrop st x \<Rightarrow> Some (st, x) | _ \<Rightarrow> None) evs
       \<and> rec_restarts h = List.map_filter (\<lambda>e. case e of EvRestart st a c \<Rightarrow> Some (st, a, c) | _ \<Rightarrow> None) evs
       \<and> rec_graph h = (case rev (List.map_filter (\<lambda>e. case e of EvGraph ns \<Rightarrow> Some ns | _ \<Rightarrow> None) evs) of
                          [] \<Rightarrow> [] | ns # _ \<Rightarrow> ns)"
  unfolding h_def
proof (induction evs rule: rev_induct)
  case Nil
  then show ?case by (simp add: new_recording_def recorded_items_def map_filter_simps)
next
  case (snoc e evs)
  then show ?case
    by (cases e) (simp_all add: map_filter_snoc recorded_items_def hook_notify_def RecordingHook_def)
qed

section \<open>The order of run options\<close>

fun opt_kind :: "run_opt \<Rightarrow> nat" where
  "opt_kind (OptStore s) = 0" | "opt_kind (OptHook h) = 1" | "opt_kind (OptDrain d) = 2"
| "opt_kind (OptCache s ttl) = 3" | "opt_kind (OptSampleRate n) = 4" | "opt_kind (OptCodec s) = 5"
| "opt_kind (OptPauseGate g) = 6" | "opt_kind (OptErrorStrategy h) = 7" | "opt_kind (OptDefaultBuffer n) = 8"
| "opt_kind (OptDefaultKeyTTL d) = 9" | "opt_kind OptDryRun = 10" | "opt_kind (OptDevStore s) = 11"

lemma apply_run_opt_commute:
  "opt_kind a \<noteq> opt_kind b \<Longrightarrow> apply_run_opt a (apply_run_opt b c) = apply_run_opt b (apply_run_opt a c)"
  by (cases a; cases b) simp_all

text \<open>Options of different kinds commute wherever they stand in the list.\<close>

theorem run_options_commute:
  assumes "opt_kind a \<noteq> opt_kind b"
  shows "buildRunConfig (xs @ a # b # ys) = buildRunConfig (xs @ b # a # ys)"
  using apply_run_opt_commute [OF assms] by (simp add: buildRunConfig_def)

theorem run_options_commute_witness:
  "buildRunConfig [OptDryRun, OptDrain 5, OptDefaultBuffer (- 1)] = buildRunConfig [OptDrain 5, OptDryRun, OptDefaultBuffer (- 1)]"
  using run_options_commute [of OptDryRun "OptDrain 5" "[]" "[OptDefaultBuffer (- 1)]"] by simp

lemma prepare_run_sample: "prepare_run (cfg\<lparr>rn_sample_rate := n\<rparr>) = prepare_run cfg"
  by (simp add: prepare_run_def)

lemma fold_sample_rate:
  "\<exists>m. fold apply_run_opt ys (c\<lparr>rn_sample_rate := n\<rparr>) = (fold apply_run_opt ys c)\<lparr>rn_sample_rate := m\<rparr>"
proof (induction ys arbitrary: c n)
  case Nil
  then show ?case by auto
next
  case (Cons y ys)
  have "\<exists>k. apply_run_opt y (c\<lparr>rn_sample_rate := n\<rparr>) = (apply_run_opt y c)\<lparr>rn_sample_rate := k\<rparr>"
    by (cases y) (auto intro: exI [of _ n])
  with Cons show ?case by fastforce
qed

text \<open>\<^verbatim>\<open>WithSampleRate\<close> changes nothing of what a run is started with.\<close>

theorem sample_rate_ignored:
  "prepare_run (buildRunConfig (xs @ OptSampleRate n # ys)) = prepare_run (buildRunConfig (xs @ ys))"
proof -
  let ?c = "\<lparr>rn_store = None, rn_hook = Some noop_handle, rn_drain_timeout = 0, rn_cache = None, rn_cache_ttl = 0,
        rn_sample_rate = 0, rn_codec = None, rn_gate = None, rn_error_handler = None, rn_buffer = 0,
        rn_key_ttl = 0, rn_dry_run = False, rn_dev_store = None\<rparr>"
  obtain m where "fold apply_run_opt ys ((fold apply_run_opt xs ?c)\<lparr>rn_sample_rate := n\<rparr>)
      = (fold apply_run_opt ys (fold apply_run_opt xs ?c))\<lparr>rn_sample_rate := m\<rparr>"
    using fold_sample_rate by blast
  then show ?thesis by (simp add: buildRunConfig_def prepare_run_sample)
qed

end
