(* ===== verification/Inspector.thy ===== *)
theory Inspector
  imports Run_Control
begin

text \<open>
  The state behind the dashboard of \<^verbatim>\<open>inspector/inspector.go\<close>: counters per stage, the log of bounded
  length, clients with bounded queues, the control channels, and the persistence through an
  \<^verbatim>\<open>InspectorStore\<close> (\<^verbatim>\<open>inspector/store.go\<close>), whose interface is the locale \<^verbatim>\<open>inspector_store\<close>. Messages
  are kept as values; HTTP and JSON are left out, and so are the smoothed rates, which are floating
  point.
\<close>

section \<open>State\<close>

datatype stage_status = StPending | StRunning | StDone

record insp_stage =
  is_items :: int
  is_errors :: int
  is_total_ns :: int
  is_drops :: int
  is_restarts :: int
  is_status :: stage_status

definition new_insp_stage :: insp_stage where
  "new_insp_stage =
     \<lparr>is_items = 0, is_errors = 0, is_total_ns = 0, is_drops = 0, is_restarts = 0, is_status = StPending\<rparr>"

record log_entry =
  le_ts :: int
  le_type :: string
  le_stage :: string
  le_msg :: string

record summary_snap =
  sn_outcome :: nat
  sn_outcome_name :: string
  sn_err :: string
  sn_duration :: duration
  sn_completed :: int
  sn_finalizer_errs :: "string list"

fun outcome_name :: "run_outcome \<Rightarrow> string" where
  "outcome_name RunSuccess = ''RunSuccess''"
| "outcome_name RunPartialSuccess = ''RunPartialSuccess''"
| "outcome_name RunFailure = ''RunFailure''"

text \<open>\<^verbatim>\<open>text\<close> is the \<^verbatim>\<open>Error\<close> method of the errors; times are in nanoseconds.\<close>

definition toSummarySnapshot :: "(go_error \<Rightarrow> string) \<Rightarrow> duration \<Rightarrow> time \<Rightarrow> run_summary \<Rightarrow> summary_snap" where
  "toSummarySnapshot error_text dur completed s =
     \<lparr>sn_outcome = outcome_rank (sm_outcome s), sn_outcome_name = outcome_name (sm_outcome s),
      sn_err = (case sm_err s of None \<Rightarrow> [] | Some e \<Rightarrow> error_text e),
      sn_duration = dur, sn_completed = completed div 1000000,
      sn_finalizer_errs = map (\<lambda>r. case r of None \<Rightarrow> [] | Some e \<Rightarrow> error_text e) (sm_finalizer_errs s)\<rparr>"

record stage_view =
  sv_items :: int
  sv_errors :: int
  sv_drops :: int
  sv_restarts :: int
  sv_avg :: int
  sv_status :: string
  sv_buffer :: "nat \<times> nat"

datatype sse_msg =
    SseGraph "graph_node list"
  | SseSummary summary_snap
  | SseLog log_entry
  | SseStats "(string \<times> stage_view) list"
  | SseSample string string int
  | SsePaused bool

text \<open>Channels that are only ever closed are numbers; \<^verbatim>\<open>in_closed\<close> holds the closed ones.\<close>

record inspector =
  in_stages :: "string \<rightharpoonup> insp_stage"
  in_order :: "string list"
  in_graph :: "graph_node list option"
  in_summary :: "summary_snap option"
  in_log :: "log_entry list"
  in_clients :: "nat \<rightharpoonup> sse_msg list"
  in_buffers :: "(string \<times> nat \<times> nat) list option"
  in_cancel :: nat
  in_cancel_closed :: bool
  in_restart :: nat
  in_pause :: nat
  in_resume :: nat
  in_next :: nat
  in_closed :: "nat list"

definition logCapacity :: nat where
  "logCapacity = 200"

definition clientBuffer :: nat where
  "clientBuffer = 64"

definition new_inspector :: inspector where
  "new_inspector =
     \<lparr>in_stages = Map.empty, in_order = [], in_graph = None, in_summary = None, in_log = [],
      in_clients = Map.empty, in_buffers = None, in_cancel = 0, in_cancel_closed = False, in_restart = 1,
      in_pause = 2, in_resume = 3, in_next = 4, in_closed = []\<rparr>"

section \<open>Messages and the log\<close>

definition insp_subscribe :: "nat \<Rightarrow> inspector \<Rightarrow> inspector" where
  "insp_subscribe ch i = i\<lparr>in_clients := (in_clients i)(ch \<mapsto> [])\<rparr>"

definition insp_unsubscribe :: "nat \<Rightarrow> inspector \<Rightarrow> inspector" where
  "insp_unsubscribe ch i = i\<lparr>in_clients := (in_clients i)(ch := None)\<rparr>"

definition insp_broadcast :: "sse_msg \<Rightarrow> inspector \<Rightarrow> inspector" where
  "insp_broadcast msg i =
     i\<lparr>in_clients := (\<lambda>ch. map_option (\<lambda>q. if length q < clientBuffer then q @ [msg] else q) (in_clients i ch))\<rparr>"

definition push_log :: "log_entry \<Rightarrow> log_entry list \<Rightarrow> log_entry list" where
  "push_log entry buf = (if length buf \<ge> logCapacity then tl buf else buf) @ [entry]"

definition emitLog :: "log_entry \<Rightarrow> inspector \<Rightarrow> inspector" where
  "emitLog entry i = insp_broadcast (SseLog entry) (i\<lparr>in_log := push_log entry (in_log i)\<rparr>)"

section \<open>Hook methods\<close>

definition update_stage :: "string \<Rightarrow> (insp_stage \<Rightarrow> insp_stage) \<Rightarrow> inspector \<Rightarrow> inspector" where
  "update_stage stage f i = i\<lparr>in_stages := (in_stages i)(stage := map_option f (in_stages i stage))\<rparr>"

definition insp_OnGraph :: "graph_node list \<Rightarrow> inspector \<Rightarrow> inspector" where
  "insp_OnGraph nodes i = insp_broadcast (SseGraph nodes) (i\<lparr>in_graph := Some nodes\<rparr>)"

definition insp_OnRunComplete :: "summary_snap \<Rightarrow> inspector \<Rightarrow> inspector" where
  "insp_OnRunComplete snap i = insp_broadcast (SseSummary snap) (i\<lparr>in_summary := Some snap\<rparr>)"

definition insp_OnBuffers :: "(string \<times> nat \<times> nat) list \<Rightarrow> inspector \<Rightarrow> inspector" where
  "insp_OnBuffers query i = i\<lparr>in_buffers := Some query\<rparr>"

definition insp_OnStageStart :: "int \<Rightarrow> string \<Rightarrow> inspector \<Rightarrow> inspector" where
  "insp_OnStageStart now stage i =
     (let i = (if in_stages i stage = None
               then i\<lparr>in_stages := (in_stages i)(stage \<mapsto> new_insp_stage), in_order := in_order i @ [stage]\<rparr>
               else i);
          i = update_stage stage (\<lambda>s. s\<lparr>is_status := StRunning\<rparr>) i
      in emitLog \<lparr>le_ts = now, le_type = ''start'', le_stage = stage, le_msg = []\<rparr> i)"

definition insp_OnItem :: "string \<Rightarrow> duration \<Rightarrow> go_error option \<Rightarrow> inspector \<Rightarrow> inspector" where
  "insp_OnItem stage dur err i =
     (if in_stages i stage = None then i
      else update_stage stage
             (\<lambda>s. let s = s\<lparr>is_total_ns := is_total_ns s + dur\<rparr>
                  in if err \<noteq> None then s\<lparr>is_errors := is_errors s + 1\<rparr> else s\<lparr>is_items := is_items s + 1\<rparr>) i)"

definition insp_OnStageDone :: "int \<Rightarrow> string \<Rightarrow> inspector \<Rightarrow> inspector" where
  "insp_OnStageDone now stage i =
     (if in_stages i stage = None then i
      else emitLog \<lparr>le_ts = now, le_type = ''done'', le_stage = stage, le_msg = []\<rparr>
             (update_stage stage (\<lambda>s. s\<lparr>is_status := StDone\<rparr>) i))"

definition insp_OnDrop :: "int \<Rightarrow> string \<Rightarrow> inspector \<Rightarrow> inspector" where
  "insp_OnDrop now stage i =
     (if in_stages i stage = None then i
      else emitLog \<lparr>le_ts = now, le_type = ''drop'', le_stage = stage, le_msg = []\<rparr>
             (update_stage stage (\<lambda>s. s\<lparr>is_drops := is_drops s + 1\<rparr>) i))"

definition insp_OnStageRestart :: "int \<Rightarrow> string \<Rightarrow> string \<Rightarrow> inspector \<Rightarrow> inspector" where
  "insp_OnStageRestart now stage msg i =
     (if in_stages i stage = None then i
      else emitLog \<lparr>le_ts = now, le_type = ''restart'', le_stage = stage, le_msg = msg\<rparr>
             (update_stage stage (\<lambda>s. s\<lparr>is_restarts := is_restarts s + 1, is_status := StRunning\<rparr>) i))"

text \<open>A sample's text is cut to 79 bytes and the three bytes of an ellipsis.\<close>

definition sample_text :: "string \<Rightarrow> string" where
  "sample_text val = (if length val > 80 then take 79 val @ [char_of (226 :: nat), char_of (128 :: nat), char_of (166 :: nat)] else val)"

definition insp_OnItemSample :: "int \<Rightarrow> string \<Rightarrow> string \<Rightarrow> inspector \<Rightarrow> inspector" where
  "insp_OnItemSample now stage val i = insp_broadcast (SseSample stage (sample_text val) now) i"

section \<open>Snapshots\<close>

fun status_name :: "stage_status \<Rightarrow> string" where
  "status_name StPending = ''pending''"
| "status_name StRunning = ''running''"
| "status_name StDone = ''done''"

definition snapStageWithBuffer :: "insp_stage \<Rightarrow> nat \<times> nat \<Rightarrow> stage_view" where
  "snapStageWithBuffer s buf =
     (let total = is_items s + is_errors s
      in \<lparr>sv_items = is_items s, sv_errors = is_errors s, sv_drops = is_drops s, sv_restarts = is_restarts s,
          sv_avg = (if total > 0 then is_total_ns s div total else 0), sv_status = status_name (is_status s),
          sv_buffer = buf\<rparr>)"

definition buffer_map :: "(string \<times> nat \<times> nat) list option \<Rightarrow> string \<Rightarrow> nat \<times> nat" where
  "buffer_map query name =
     (case query of
        None \<Rightarrow> (0, 0)
      | Some bs \<Rightarrow> (case map_of (rev bs) name of None \<Rightarrow> (0, 0) | Some b \<Rightarrow> b))"

text \<open>A stage in the order that has no entry would be a nil pointer: the outer option.\<close>

definition buildSnapshot :: "inspector \<Rightarrow> (string \<times> stage_view) list option option" where
  "buildSnapshot i =
     (if in_order i = [] then Some None
      else if \<exists>n \<in> set (in_order i). in_stages i n = None then None
      else Some (Some (map (\<lambda>n. (n, snapStageWithBuffer (the (in_stages i n)) (buffer_map (in_buffers i) n))) (in_order i))))"

definition broadcast_stats :: "inspector \<Rightarrow> inspector option" where
  "broadcast_stats i =
     (case buildSnapshot i of
        None \<Rightarrow> None | Some None \<Rightarrow> Some i | Some (Some snap) \<Rightarrow> Some (insp_broadcast (SseStats snap) i))"

text \<open>What \<^verbatim>\<open>handleSSE\<close> writes to a new client before it forwards its queue.\<close>

definition sse_replay :: "inspector \<Rightarrow> sse_msg list option" where
  "sse_replay i =
     (case buildSnapshot i of
        None \<Rightarrow> None
      | Some snap \<Rightarrow>
          Some ((case in_graph i of None \<Rightarrow> [] | Some g \<Rightarrow> [SseGraph g])
                @ (case in_summary i of None \<Rightarrow> [] | Some sm \<Rightarrow> [SseSummary sm])
                @ map SseLog (in_log i)
                @ (case snap of None \<Rightarrow> [] | Some st \<Rightarrow> [SseStats st])))"

section \<open>Control\<close>

text \<open>
  \<^verbatim>\<open>handleControl\<close> under the mutex: the new state, the channel it closes after releasing the mutex, and
  the message it sends. Closing a closed channel panics: the outer option.
\<close>

definition swap_restart :: "inspector \<Rightarrow> inspector" where
  "swap_restart i =
     i\<lparr>in_restart := in_next i, in_cancel := in_next i + 1, in_cancel_closed := False, in_next := in_next i + 2\<rparr>"

definition control_locked :: "string \<Rightarrow> inspector \<Rightarrow> (inspector \<times> nat option \<times> sse_msg option) option" where
  "control_locked action i =
     (if action = ''cancel'' then
        (if in_cancel_closed i then Some (i, None, None)
         else if in_cancel i \<in> set (in_closed i) then None
         else Some (i\<lparr>in_cancel_closed := True, in_closed := in_cancel i # in_closed i\<rparr>, None, None))
      else if action = ''restart'' then Some (swap_restart i, Some (in_restart i), None)
      else if action = ''pause'' then
        Some (i\<lparr>in_pause := in_next i, in_next := in_next i + 1\<rparr>, Some (in_pause i), Some (SsePaused True))
      else if action = ''resume'' then
        Some (i\<lparr>in_resume := in_next i, in_next := in_next i + 1\<rparr>, Some (in_resume i), Some (SsePaused False))
      else Some (i, None, None))"

definition control_close :: "nat \<Rightarrow> inspector \<Rightarrow> inspector option" where
  "control_close c i = (if c \<in> set (in_closed i) then None else Some (i\<lparr>in_closed := c # in_closed i\<rparr>))"

text \<open>
  Requests are served concurrently: the inspector with the channels that handlers in flight have
  still to close. \<^verbatim>\<open>None\<close> is a panic.
\<close>

type_synonym control = "(inspector \<times> nat list) option"

inductive control_step :: "control \<Rightarrow> control \<Rightarrow> bool" where
  ctl_lock: "control_locked action i = Some (i', c, msg) \<Longrightarrow>
     control_step (Some (i, pend)) (Some (i', (case c of None \<Rightarrow> [] | Some ch \<Rightarrow> [ch]) @ pend))"
| ctl_lock_panic: "control_locked action i = None \<Longrightarrow> control_step (Some (i, pend)) None"
| ctl_close: "control_close c i = Some i' \<Longrightarrow>
     control_step (Some (i, xs @ c # ys)) (Some (i', xs @ ys))"
| ctl_close_panic: "control_close c i = None \<Longrightarrow> control_step (Some (i, xs @ c # ys)) None"

inductive control_reach :: "inspector \<Rightarrow> control \<Rightarrow> bool" for i0 :: inspector where
  ctl_start: "control_reach i0 (Some (i0, []))"
| ctl_next: "control_reach i0 s \<Longrightarrow> control_step s s' \<Longrightarrow> control_reach i0 s'"

section \<open>Persistence\<close>

record persisted_stage =
  ps_items :: int
  ps_errors :: int
  ps_drops :: int
  ps_restarts :: int
  ps_total_ns :: int
  ps_status :: string

definition persist_stage :: "insp_stage \<Rightarrow> persisted_stage" where
  "persist_stage s =
     \<lparr>ps_items = is_items s, ps_errors = is_errors s, ps_drops = is_drops s, ps_restarts = is_restarts s,
      ps_total_ns = is_total_ns s, ps_status = status_name (is_status s)\<rparr>"

definition restore_stage :: "persisted_stage \<Rightarrow> insp_stage" where
  "restore_stage ps =
     \<lparr>is_items = ps_items ps, is_errors = ps_errors ps, is_total_ns = ps_total_ns ps, is_drops = ps_drops ps,
      is_restarts = ps_restarts ps,
      is_status = (if ps_status ps = ''running'' then StRunning
                   else if ps_status ps = ''done'' then StDone else StPending)\<rparr>"

lemma restore_persist [simp]: "restore_stage (persist_stage s) = s"
  by (cases "is_status s") (simp_all add: restore_stage_def persist_stage_def)

text \<open>The memory store; \<^verbatim>\<open>now\<close> is in nanoseconds, the stamps of the log in milliseconds.\<close>

record memory_insp_store =
  ms_graph :: "graph_node list option"
  ms_order :: "string list"
  ms_stages :: "(string \<rightharpoonup> persisted_stage) option"
  ms_log :: "log_entry list option"
  ms_summary :: "summary_snap option"

definition NewMemoryInspectorStore :: memory_insp_store where
  "NewMemoryInspectorStore = \<lparr>ms_graph = None, ms_order = [], ms_stages = None, ms_log = None, ms_summary = None\<rparr>"

definition ms_SaveGraph :: "graph_node list \<Rightarrow> memory_insp_store \<Rightarrow> memory_insp_store \<times> go_error option" where
  "ms_SaveGraph nodes m = (m\<lparr>ms_graph := Some nodes\<rparr>, None)"

definition ms_LoadGraph :: "memory_insp_store \<Rightarrow> graph_node list option result" where
  "ms_LoadGraph m = Inr (ms_graph m)"

definition ms_SaveStages ::
  "string list \<Rightarrow> (string \<rightharpoonup> persisted_stage) \<Rightarrow> memory_insp_store \<Rightarrow> memory_insp_store \<times> go_error option" where
  "ms_SaveStages order stages m = (m\<lparr>ms_order := order, ms_stages := Some stages\<rparr>, None)"

definition ms_LoadStages :: "memory_insp_store \<Rightarrow> (string list \<times> (string \<rightharpoonup> persisted_stage)) option result" where
  "ms_LoadStages m = Inr (case ms_stages m of None \<Rightarrow> None | Some st \<Rightarrow> Some (ms_order m, st))"

definition retained :: "duration \<Rightarrow> time \<Rightarrow> log_entry list \<Rightarrow> log_entry list" where
  "retained logTTL now entries =
     (if logTTL > 0 then filter (\<lambda>e. le_ts e \<ge> (now - logTTL) div 1000000) entries else entries)"

definition ms_SaveLog :: "duration \<Rightarrow> time \<Rightarrow> log_entry list \<Rightarrow> memory_insp_store \<Rightarrow> memory_insp_store \<times> go_error option" where
  "ms_SaveLog logTTL now entries m = (m\<lparr>ms_log := Some (retained logTTL now entries)\<rparr>, None)"

definition ms_LoadLog :: "memory_insp_store \<Rightarrow> log_entry list option result" where
  "ms_LoadLog m = Inr (ms_log m)"

definition ms_SaveSummary :: "summary_snap option \<Rightarrow> memory_insp_store \<Rightarrow> memory_insp_store \<times> go_error option" where
  "ms_SaveSummary sm m = (m\<lparr>ms_summary := sm\<rparr>, None)"

definition ms_LoadSummary :: "memory_insp_store \<Rightarrow> summary_snap option result" where
  "ms_LoadSummary m = Inr (ms_summary m)"

text \<open>
  \<^verbatim>\<open>saveToStore\<close> and \<^verbatim>\<open>loadFromStore\<close> over any store. The accumulator of the save is the store and the
  last error seen.
\<close>

definition saving :: "bool \<Rightarrow> ('s \<Rightarrow> 's \<times> go_error option) \<Rightarrow> 's \<times> go_error option \<Rightarrow> 's \<times> go_error option" where
  "saving wanted save p =
     (if \<not> wanted then p
      else (case save (fst p) of (s, None) \<Rightarrow> (s, snd p) | (s, Some err) \<Rightarrow> (s, Some err)))"

definition saveToStore ::
  "(graph_node list \<Rightarrow> 's \<Rightarrow> 's \<times> go_error option) \<Rightarrow>
   (string list \<Rightarrow> (string \<rightharpoonup> persisted_stage) \<Rightarrow> 's \<Rightarrow> 's \<times> go_error option) \<Rightarrow>
   (log_entry list \<Rightarrow> 's \<Rightarrow> 's \<times> go_error option) \<Rightarrow> (summary_snap option \<Rightarrow> 's \<Rightarrow> 's \<times> go_error option) \<Rightarrow>
   inspector \<Rightarrow> 's \<times> go_error option \<Rightarrow> 's \<times> go_error option" where
  "saveToStore save_graph save_stages save_log save_summary i p =
     (let persisted = (\<lambda>n. map_option persist_stage (in_stages i n));
          p = saving (in_graph i \<noteq> None) (save_graph (the (in_graph i))) p;
          p = saving (in_stages i \<noteq> Map.empty) (save_stages (in_order i) persisted) p;
          p = saving (in_log i \<noteq> []) (save_log (in_log i)) p
      in saving (in_summary i \<noteq> None) (save_summary (in_summary i)) p)"

fun restore_stages :: "string list \<Rightarrow> (string \<rightharpoonup> persisted_stage) \<Rightarrow> inspector \<Rightarrow> inspector" where
  "restore_stages [] stages i = i"
| "restore_stages (n # ns) stages i =
     (case stages n of
        None \<Rightarrow> restore_stages ns stages i
      | Some ps \<Rightarrow>
          restore_stages ns stages
            (i\<lparr>in_stages := (in_stages i)(n \<mapsto> restore_stage ps), in_order := in_order i @ [n]\<rparr>))"

definition loadFromStore ::
  "graph_node list option result \<Rightarrow> (string list \<times> (string \<rightharpoonup> persisted_stage)) option result \<Rightarrow>
   log_entry list option result \<Rightarrow> summary_snap option result \<Rightarrow> inspector \<Rightarrow> inspector" where
  "loadFromStore graph stages entries summary i =
     (let i = (case graph of Inr (Some g) \<Rightarrow> i\<lparr>in_graph := Some g\<rparr> | _ \<Rightarrow> i);
          i = (case stages of Inr (Some (order, st)) \<Rightarrow> restore_stages order st i | _ \<Rightarrow> i);
          i = (case entries of
                 Inr (Some es) \<Rightarrow>
                   let buf = in_log i @ es
                   in i\<lparr>in_log := (if length buf > logCapacity then drop (length buf - logCapacity) buf else buf)\<rparr>
               | _ \<Rightarrow> i)
      in (case summary of Inr (Some sm) \<Rightarrow> i\<lparr>in_summary := Some sm\<rparr> | _ \<Rightarrow> i))"

text \<open>The interface \<^verbatim>\<open>InspectorStore\<close>: what is saved is loaded, each of the four parts on its own.\<close>

locale inspector_store =
  fixes save_graph :: "graph_node list \<Rightarrow> 's \<Rightarrow> 's \<times> go_error option"
    and load_graph :: "'s \<Rightarrow> graph_node list option result"
    and save_stages :: "string list \<Rightarrow> (string \<rightharpoonup> persisted_stage) \<Rightarrow> 's \<Rightarrow> 's \<times> go_error option"
    and load_stages :: "'s \<Rightarrow> (string list \<times> (string \<rightharpoonup> persisted_stage)) option result"
    and save_log :: "log_entry list \<Rightarrow> 's \<Rightarrow> 's \<times> go_error option"
    and load_log :: "'s \<Rightarrow> log_entry list option result"
    and save_summary :: "summary_snap option \<Rightarrow> 's \<Rightarrow> 's \<times> go_error option"
    and load_summary :: "'s \<Rightarrow> summary_snap option result"
    and keep :: "log_entry list \<Rightarrow> log_entry list"
  assumes graph_law: "save_graph g s = (s', None) \<Longrightarrow>
       load_graph s' = Inr (Some g) \<and> load_stages s' = load_stages s \<and> load_log s' = load_log s \<and> load_summary s' = load_summary s"
    and stages_law: "save_stages order st s = (s', None) \<Longrightarrow>
       load_stages s' = Inr (Some (order, st)) \<and> load_graph s' = load_graph s \<and> load_log s' = load_log s \<and> load_summary s' = load_summary s"
    and log_law: "save_log es s = (s', None) \<Longrightarrow>
       load_log s' = Inr (Some (keep es)) \<and> load_graph s' = load_graph s \<and> load_stages s' = load_stages s \<and> load_summary s' = load_summary s"
    and summary_law: "save_summary sm s = (s', None) \<Longrightarrow>
       load_summary s' = Inr sm \<and> load_graph s' = load_graph s \<and> load_stages s' = load_stages s \<and> load_log s' = load_log s"
begin

abbreviation save_all :: "inspector \<Rightarrow> 's \<times> go_error option \<Rightarrow> 's \<times> go_error option" where
  "save_all \<equiv> saveToStore save_graph save_stages save_log save_summary"

abbreviation load_all :: "'s \<Rightarrow> inspector \<Rightarrow> inspector" where
  "load_all s \<equiv> loadFromStore (load_graph s) (load_stages s) (load_log s) (load_summary s)"

lemma saving_None: "saving w save (s, None) = (s', None) \<Longrightarrow> (\<not> w \<and> s' = s) \<or> (w \<and> save s = (s', None))"
  by (auto simp: saving_def split: if_splits prod.splits option.splits)

lemma saving_error: "snd p \<noteq> None \<Longrightarrow> snd (saving w save p) \<noteq> None"
  by (auto simp: saving_def split: prod.splits option.splits)

lemma saving_snd_None: "saving w save p = (s', None) \<Longrightarrow> \<exists>s. p = (s, None)"
  using saving_error [of p w save] by (cases p; cases "snd p") auto

lemma save_then_load:
  assumes "save_all i (s, None) = (s', None)"
  shows "load_graph s' = (if in_graph i = None then load_graph s else Inr (in_graph i))
       \<and> load_stages s' = (if in_stages i = Map.empty then load_stages s
            else Inr (Some (in_order i, \<lambda>n. map_option persist_stage (in_stages i n))))
       \<and> load_log s' = (if in_log i = [] then load_log s else Inr (Some (keep (in_log i))))
       \<and> load_summary s' = (if in_summary i = None then load_summary s else Inr (in_summary i))"
proof -
  let ?p1 = "saving (in_graph i \<noteq> None) (save_graph (the (in_graph i))) (s, None)"
  let ?p2 = "saving (in_stages i \<noteq> Map.empty) (save_stages (in_order i) (\<lambda>n. map_option persist_stage (in_stages i n))) ?p1"
  let ?p3 = "saving (in_log i \<noteq> []) (save_log (in_log i)) ?p2"
  have p4: "saving (in_summary i \<noteq> None) (save_summary (in_summary i)) ?p3 = (s', None)"
    using assms by (simp add: saveToStore_def)
  from saving_snd_None [OF p4] obtain s3 where p3: "?p3 = (s3, None)" by blast
  from saving_snd_None [OF p3] obtain s2 where p2: "?p2 = (s2, None)" by blast
  from saving_snd_None [OF p2] obtain s1 where p1: "?p1 = (s1, None)" by blast
  show ?thesis
    using saving_None [OF p1] saving_None [OF p2 [unfolded p1]] saving_None [OF p3 [unfolded p2]]
      saving_None [OF p4 [unfolded p3]]
    by (elim disjE conjE) (auto dest!: graph_law stages_law log_law summary_law)
qed

end

interpretation memory_store: inspector_store ms_SaveGraph ms_LoadGraph ms_SaveStages ms_LoadStages
    "ms_SaveLog logTTL now" ms_LoadLog ms_SaveSummary ms_LoadSummary "retained logTTL now"
  for logTTL :: duration and now :: time
  by unfold_locales
    (auto simp: ms_SaveGraph_def ms_LoadGraph_def ms_SaveStages_def ms_LoadStages_def ms_SaveLog_def
      ms_LoadLog_def ms_SaveSummary_def ms_LoadSummary_def split: option.splits)

section \<open>Runs of the hook\<close>

datatype insp_event =
    IStart int string
  | IItem string duration "go_error option"
  | IDone int string
  | IDrop int string
  | IRestart int string string
  | ISample int string string
  | IGraph "graph_node list"
  | IBuffers "(string \<times> nat \<times> nat) list"
  | IComplete summary_snap
  | ISubscribe nat
  | IUnsubscribe nat

fun on_event :: "insp_event \<Rightarrow> inspector \<Rightarrow> inspector" where
  "on_event (IStart now st) i = insp_OnStageStart now st i"
| "on_event (IItem st dur err) i = insp_OnItem st dur err i"
| "on_event (IDone now st) i = insp_OnStageDone now st i"
| "on_event (IDrop now st) i = insp_OnDrop now st i"
| "on_event (IRestart now st msg) i = insp_OnStageRestart now st msg i"
| "on_event (ISample now st val) i = insp_OnItemSample now st val i"
| "on_event (IGraph nodes) i = insp_OnGraph nodes i"
| "on_event (IBuffers query) i = insp_OnBuffers query i"
| "on_event (IComplete snap) i = insp_OnRunComplete snap i"
| "on_event (ISubscribe ch) i = insp_subscribe ch i"
| "on_event (IUnsubscribe ch) i = insp_unsubscribe ch i"

lemmas hook_defs = insp_OnStageStart_def insp_OnItem_def insp_OnStageDone_def insp_OnDrop_def
  insp_OnStageRestart_def insp_OnItemSample_def insp_OnGraph_def insp_OnBuffers_def insp_OnRunComplete_def
  insp_subscribe_def insp_unsubscribe_def

lemma broadcast_frame [simp]:
  "in_stages (insp_broadcast m i) = in_stages i" "in_order (insp_broadcast m i) = in_order i"
  "in_log (insp_broadcast m i) = in_log i" "in_graph (insp_broadcast m i) = in_graph i"
  "in_summary (insp_broadcast m i) = in_summary i"
  by (simp_all add: insp_broadcast_def)

lemma emitLog_frame [simp]:
  "in_stages (emitLog e i) = in_stages i" "in_order (emitLog e i) = in_order i"
  "in_log (emitLog e i) = push_log e (in_log i)"
  by (simp_all add: emitLog_def)

lemma update_stage_frame [simp]:
  "in_stages (update_stage st f i) = (in_stages i)(st := map_option f (in_stages i st))"
  "in_order (update_stage st f i) = in_order i" "in_log (update_stage st f i) = in_log i"
  "in_clients (update_stage st f i) = in_clients i"
  by (simp_all add: update_stage_def)

definition clients_ok :: "inspector \<Rightarrow> bool" where
  "clients_ok i \<longleftrightarrow> (\<forall>ch q. in_clients i ch = Some q \<longrightarrow> length q \<le> clientBuffer)"

lemma clients_broadcast [simp]: "clients_ok i \<Longrightarrow> clients_ok (insp_broadcast m i)"
  by (fastforce simp: clients_ok_def insp_broadcast_def)

lemma clients_emitLog [simp]: "clients_ok i \<Longrightarrow> clients_ok (emitLog e i)"
  unfolding emitLog_def by (rule clients_broadcast) (simp add: clients_ok_def)

lemma push_log_length: "length buf \<le> logCapacity \<Longrightarrow> length (push_log e buf) \<le> logCapacity"
  by (auto simp: push_log_def logCapacity_def)

definition insp_ok :: "inspector \<Rightarrow> bool" where
  "insp_ok i \<longleftrightarrow>
     dom (in_stages i) = set (in_order i) \<and> distinct (in_order i) \<and> length (in_log i) \<le> logCapacity"

lemma insp_ok_event: "insp_ok i \<Longrightarrow> insp_ok (on_event e i)"
  by (cases e) (auto simp: insp_ok_def hook_defs Let_def push_log_length split: if_splits)

lemma clients_ok_event: "clients_ok i \<Longrightarrow> clients_ok (on_event e i)"
proof (cases e)
  case (IStart now st)
  assume c: "clients_ok i"
  show ?thesis unfolding IStart on_event.simps insp_OnStageStart_def Let_def
    by (rule clients_emitLog) (use c in \<open>auto simp: clients_ok_def\<close>)
next
  case (IDone now st)
  assume c: "clients_ok i"
  have "clients_ok (update_stage st (\<lambda>s. s\<lparr>is_status := StDone\<rparr>) i)" using c by (simp add: clients_ok_def)
  with c show ?thesis by (simp add: IDone insp_OnStageDone_def)
next
  case (IDrop now st)
  assume c: "clients_ok i"
  have "clients_ok (update_stage st (\<lambda>s. s\<lparr>is_drops := is_drops s + 1\<rparr>) i)" using c by (simp add: clients_ok_def)
  with c show ?thesis by (simp add: IDrop insp_OnDrop_def)
next
  case (IRestart now st msg)
  assume c: "clients_ok i"
  have "clients_ok (update_stage st (\<lambda>s. s\<lparr>is_restarts := is_restarts s + 1, is_status := StRunning\<rparr>) i)"
    using c by (simp add: clients_ok_def)
  with c show ?thesis by (simp add: IRestart insp_OnStageRestart_def)
next
  case (IGraph nodes)
  assume c: "clients_ok i"
  then have "clients_ok (i\<lparr>in_graph := Some nodes\<rparr>)" by (simp add: clients_ok_def)
  then show ?thesis by (simp add: IGraph insp_OnGraph_def)
next
  case (IComplete snap)
  assume c: "clients_ok i"
  then have "clients_ok (i\<lparr>in_summary := Some snap\<rparr>)" by (simp add: clients_ok_def)
  then show ?thesis by (simp add: IComplete insp_OnRunComplete_def)
next
  case (ISample now st val)
  assume "clients_ok i"
  then show ?thesis by (simp add: ISample insp_OnItemSample_def)
qed (auto simp: clients_ok_def insp_OnItem_def insp_OnBuffers_def insp_subscribe_def insp_unsubscribe_def split: if_splits)

text \<open>
  However many events, stages restarted or not, and however slow the clients: the table has one row per
  started stage, in the order they started, so that a snapshot never meets a missing stage; the log
  stays within its capacity and every client's queue within its buffer.
\<close>

theorem inspector_bounded:
  "insp_ok (fold on_event evs new_inspector) \<and> clients_ok (fold on_event evs new_inspector)
   \<and> buildSnapshot (fold on_event evs new_inspector) \<noteq> None"
proof -
  have "insp_ok new_inspector" "clients_ok new_inspector"
    by (simp_all add: insp_ok_def clients_ok_def new_inspector_def)
  then have ok: "insp_ok (fold on_event evs new_inspector)" "clients_ok (fold on_event evs new_inspector)"
    by (induction evs rule: rev_induct) (simp_all add: insp_ok_event clients_ok_event)
  then have "\<forall>n \<in> set (in_order (fold on_event evs new_inspector)). in_stages (fold on_event evs new_inspector) n \<noteq> None"
    unfolding insp_ok_def by blast
  with ok show ?thesis by (auto simp: buildSnapshot_def)
qed

lemma log_keeps_newest: "fold push_log es [] = drop (length es - logCapacity) es"
proof (induction es rule: rev_induct)
  case (snoc e es)
  have "0 < logCapacity" by (simp add: logCapacity_def)
  with snoc show ?case
    by (auto simp: push_log_def drop_Suc [symmetric] tl_drop Suc_diff_le)
qed simp

text \<open>The counters of a stage count the events of that stage since it first started.\<close>

definition since_start :: "string \<Rightarrow> insp_event list \<Rightarrow> insp_event list" where
  "since_start st evs = dropWhile (\<lambda>e. \<not> (\<exists>now. e = IStart now st)) evs"

definition insp_count :: "(insp_event \<Rightarrow> bool) \<Rightarrow> insp_event list \<Rightarrow> int" where
  "insp_count P evs = int (length (filter P evs))"

fun item_time :: "string \<Rightarrow> insp_event \<Rightarrow> int" where
  "item_time st (IItem st' dur err) = (if st' = st then dur else 0)"
| "item_time st _ = 0"

definition insp_counters :: "insp_stage \<Rightarrow> int \<times> int \<times> int \<times> int \<times> int" where
  "insp_counters s = (is_items s, is_errors s, is_total_ns s, is_drops s, is_restarts s)"

definition counted :: "string \<Rightarrow> insp_event list \<Rightarrow> int \<times> int \<times> int \<times> int \<times> int" where
  "counted st evs =
     (insp_count (\<lambda>e. \<exists>dur. e = IItem st dur None) evs, insp_count (\<lambda>e. \<exists>dur err. e = IItem st dur (Some err)) evs,
      sum_list (map (item_time st) evs), insp_count (\<lambda>e. \<exists>now. e = IDrop now st) evs,
      insp_count (\<lambda>e. \<exists>now msg. e = IRestart now st msg) evs)"

lemma counted_snoc:
  "map_option insp_counters (in_stages i st) = Some (counted st evs) \<Longrightarrow>
   map_option insp_counters (in_stages (on_event e i) st) = Some (counted st (evs @ [e]))"
  by (cases e) (auto simp: counted_def insp_counters_def insp_count_def hook_defs Let_def)

lemma uncounted_event:
  "in_stages i st = None \<Longrightarrow> \<nexists>now. e = IStart now st \<Longrightarrow> in_stages (on_event e i) st = None"
  by (cases e) (auto simp: hook_defs Let_def)

theorem inspector_counts_exactly:
  "map_option insp_counters (in_stages (fold on_event evs new_inspector) st) =
     (if since_start st evs = [] then None else Some (counted st (since_start st evs)))"
proof (induction evs rule: rev_induct)
  case Nil
  then show ?case by (simp add: since_start_def new_inspector_def)
next
  case (snoc e evs)
  let ?i = "fold on_event evs new_inspector"
  show ?case
  proof (cases "since_start st evs = []")
    case False
    then have "since_start st (evs @ [e]) = since_start st evs @ [e]"
      unfolding since_start_def by (auto simp: dropWhile_append)
    with False snoc counted_snoc [of ?i st "since_start st evs" e] show ?thesis by simp
  next
    case True
    then have s: "since_start st (evs @ [e]) = since_start st [e]" and n: "in_stages ?i st = None"
      using snoc by (auto simp: since_start_def dropWhile_append)
    show ?thesis
    proof (cases "\<exists>now. e = IStart now st")
      case True
      then show ?thesis using n
        unfolding s by (auto simp: since_start_def insp_OnStageStart_def Let_def counted_def insp_counters_def
            insp_count_def new_insp_stage_def)
    next
      case False
      then show ?thesis using n uncounted_event [OF n False] unfolding s by (simp add: since_start_def)
    qed
  qed
qed

section \<open>Control never panics\<close>

definition control_ok :: "inspector \<Rightarrow> nat list \<Rightarrow> bool" where
  "control_ok i pend \<longleftrightarrow>
     distinct (pend @ [in_cancel i, in_restart i, in_pause i, in_resume i])
     \<and> set pend \<inter> set (in_closed i) = {} \<and> {in_restart i, in_pause i, in_resume i} \<inter> set (in_closed i) = {}
     \<and> (in_cancel i \<in> set (in_closed i)) = in_cancel_closed i
     \<and> (\<forall>c \<in> set (pend @ in_closed i @ [in_cancel i, in_restart i, in_pause i, in_resume i]). c < in_next i)"

lemma new_inspector_sel [simp]:
  "in_stages new_inspector = Map.empty" "in_order new_inspector = []" "in_log new_inspector = []"
  "in_graph new_inspector = None" "in_summary new_inspector = None" "in_cancel new_inspector = 0"
  "in_cancel_closed new_inspector = False" "in_restart new_inspector = 1" "in_closed new_inspector = []"
  by (simp_all add: new_inspector_def)

lemma control_ok_new: "control_ok new_inspector []"
  by (simp add: control_ok_def new_inspector_def)

lemma control_locked_ok:
  assumes "control_ok i pend"
  shows "\<exists>i' c msg. control_locked action i = Some (i', c, msg) \<and>
           control_ok i' ((case c of None \<Rightarrow> [] | Some ch \<Rightarrow> [ch]) @ pend)"
proof -
  have bound: "\<And>c. c \<in> set pend \<Longrightarrow> c < in_next i" "\<And>c. c \<in> set (in_closed i) \<Longrightarrow> c < in_next i"
    using assms by (auto simp: control_ok_def)
  then have fresh: "in_next i \<notin> set pend" "Suc (in_next i) \<notin> set pend"
      "in_next i \<notin> set (in_closed i)" "Suc (in_next i) \<notin> set (in_closed i)"
    and less: "\<And>c. c \<in> set pend \<Longrightarrow> c < Suc (in_next i)" "\<And>c. c \<in> set (in_closed i) \<Longrightarrow> c < Suc (in_next i)"
    by (metis less_irrefl Suc_n_not_le_n less_imp_le, metis less_irrefl Suc_n_not_le_n less_imp_le,
        metis less_irrefl Suc_n_not_le_n less_imp_le, metis less_irrefl Suc_n_not_le_n less_imp_le,
        simp_all add: less_SucI)
  then have less2: "\<And>c. c \<in> set pend \<Longrightarrow> c < Suc (Suc (in_next i))"
      "\<And>c. c \<in> set (in_closed i) \<Longrightarrow> c < Suc (Suc (in_next i))"
    using less_SucI by blast+
  consider "action = ''cancel''" | "action = ''restart''" | "action = ''pause''" | "action = ''resume''"
    | "action \<notin> {''cancel'', ''restart'', ''pause'', ''resume''}" by blast
  then show ?thesis
  proof cases
    case 1
    with assms show ?thesis by (auto simp: control_ok_def control_locked_def)
  next
    case 2
    with assms fresh show ?thesis
      by (auto simp: control_ok_def control_locked_def swap_restart_def intro: less2)
  next
    case 3
    with assms fresh show ?thesis by (auto simp: control_ok_def control_locked_def intro: less)
  next
    case 4
    with assms fresh show ?thesis by (auto simp: control_ok_def control_locked_def intro: less)
  next
    case 5
    with assms show ?thesis by (auto simp: control_locked_def)
  qed
qed

lemma control_close_ok:
  assumes "control_ok i (xs @ c # ys)"
  shows "\<exists>i'. control_close c i = Some i' \<and> control_ok i' (xs @ ys)"
  using assms by (auto simp: control_ok_def control_close_def)

fun control_inv :: "control \<Rightarrow> bool" where
  "control_inv None = False"
| "control_inv (Some (i, pend)) = control_ok i pend"

lemma control_step_inv: "control_step s s' \<Longrightarrow> control_inv s \<Longrightarrow> control_inv s'"
proof (induction rule: control_step.induct)
  case (ctl_lock action i i' c msg pend)
  with control_locked_ok [of i pend action] show ?case by auto
next
  case (ctl_lock_panic action i pend)
  with control_locked_ok [of i pend action] show ?case by auto
next
  case (ctl_close c i i' xs ys)
  with control_close_ok [of i xs c ys] show ?case by auto
next
  case (ctl_close_panic c i xs ys)
  with control_close_ok [of i xs c ys] show ?case by auto
qed

lemma control_reach_inv: "control_reach i0 s \<Longrightarrow> control_ok i0 [] \<Longrightarrow> control_inv s"
  by (induction rule: control_reach.induct) (auto dest: control_step_inv)

text \<open>
  Under any interleaving of control requests no channel is closed twice, and the channels handed out
  for the next restart, pause and resume are open.
\<close>

theorem control_never_panics:
  assumes "control_reach new_inspector s"
  shows "\<exists>i pend. s = Some (i, pend) \<and> distinct pend \<and>
           in_restart i \<notin> set (in_closed i) \<and> in_pause i \<notin> set (in_closed i) \<and> in_resume i \<notin> set (in_closed i)"
proof -
  have "control_inv s" using control_reach_inv [OF assms control_ok_new] .
  then show ?thesis by (cases s rule: control_inv.cases) (auto simp: control_ok_def)
qed

theorem control_never_panics_witness:
  "\<exists>i. control_reach new_inspector (Some (i, [1])) \<and> in_restart i \<notin> set (in_closed i)"
proof -
  have "control_step (Some (new_inspector, [])) (Some (swap_restart new_inspector, [1]))"
    using ctl_lock [of "''restart''" new_inspector "swap_restart new_inspector" "Some 1" None "[]"]
    by (simp add: control_locked_def)
  with ctl_start have r: "control_reach new_inspector (Some (swap_restart new_inspector, [1]))"
    by (rule ctl_next)
  from control_never_panics [OF r] r show ?thesis by auto
qed

text \<open>
  A channel that is no longer current, not yet due to be closed and open, is never closed. So after a
  restart the cancel channel a running pipeline watches is dead, and a program that asks for the
  restart channel after the restart waits on the fresh one.
\<close>

definition abandoned :: "nat \<Rightarrow> control \<Rightarrow> bool" where
  "abandoned c s \<longleftrightarrow>
     (case s of
        None \<Rightarrow> False
      | Some (i, pend) \<Rightarrow>
          c < in_next i \<and> c \<notin> set pend \<and> c \<notin> set (in_closed i)
          \<and> c \<notin> {in_cancel i, in_restart i, in_pause i, in_resume i})"

lemma abandoned_step: "control_step s s' \<Longrightarrow> control_inv s \<Longrightarrow> abandoned c s \<Longrightarrow> abandoned c s'"
proof (induction rule: control_step.induct)
  case (ctl_lock action i i' c' msg pend)
  then show ?case
    by (auto simp: abandoned_def control_locked_def swap_restart_def split: if_splits)
next
  case (ctl_lock_panic action i pend)
  with control_step_inv [OF control_step.ctl_lock_panic] show ?case by fastforce
next
  case (ctl_close c' i i' xs ys)
  then show ?case by (auto simp: abandoned_def control_close_def split: if_splits)
next
  case (ctl_close_panic c' i xs ys)
  with control_step_inv [OF control_step.ctl_close_panic] show ?case by fastforce
qed

theorem restart_disconnects_stop:
  assumes "control_reach new_inspector (Some (i, pend))" and "\<not> in_cancel_closed i"
    and "control_locked ''restart'' i = Some (i1, ch, msg)"
    and "control_step\<^sup>*\<^sup>* (Some (i1, (case ch of None \<Rightarrow> [] | Some c \<Rightarrow> [c]) @ pend)) (Some (i2, pend2))"
  shows "in_cancel i \<notin> set (in_closed i2) \<and> in_restart i1 \<noteq> in_restart i \<and> in_restart i1 \<notin> set (in_closed i1)"
proof -
  have ok: "control_ok i pend"
    using control_reach_inv [OF assms(1) control_ok_new] by simp
  let ?s = "Some (i1, (case ch of None \<Rightarrow> [] | Some c \<Rightarrow> [c]) @ pend)"
  have i1: "i1 = swap_restart i" "ch = Some (in_restart i)" using assms(3) by (simp_all add: control_locked_def)
  have inv: "control_inv ?s" using control_locked_ok [OF ok, of "''restart''"] assms(3) by auto
  have "abandoned (in_cancel i) ?s"
    using ok assms(2) by (auto simp: abandoned_def i1 swap_restart_def control_ok_def)
  with assms(4) inv have "control_inv (Some (i2, pend2)) \<and> abandoned (in_cancel i) (Some (i2, pend2))"
    by (induction rule: rtranclp_induct) (auto dest: control_step_inv abandoned_step)
  moreover have "in_restart i1 \<noteq> in_restart i" using ok by (auto simp: i1 swap_restart_def control_ok_def)
  moreover have "in_restart i1 \<notin> set (in_closed i1)" using inv by (auto simp: control_ok_def split: option.splits)
  ultimately show ?thesis by (auto simp: abandoned_def)
qed

theorem restart_disconnects_stop_witness:
  "let i1 = swap_restart new_inspector; i2 = fst (the (control_locked ''cancel'' i1))
   in in_cancel_closed i2 \<and> in_cancel new_inspector \<notin> set (in_closed i2)"
proof -
  let ?i1 = "swap_restart new_inspector"
  let ?i2 = "?i1\<lparr>in_cancel_closed := True, in_closed := in_cancel ?i1 # in_closed ?i1\<rparr>"
  have l: "control_locked ''cancel'' ?i1 = Some (?i2, None, None)"
    by (simp add: control_locked_def swap_restart_def new_inspector_def)
  have "control_step (Some (?i1, [1])) (Some (?i2, (case None of None \<Rightarrow> [] | Some ch \<Rightarrow> [ch]) @ [1]))"
    using l by (rule ctl_lock)
  then have s: "control_step\<^sup>*\<^sup>* (Some (?i1, (case Some 1 of None \<Rightarrow> [] | Some c \<Rightarrow> [c]) @ [])) (Some (?i2, [1]))"
    by simp
  have r: "control_locked ''restart'' new_inspector = Some (?i1, Some 1, None)"
    by (simp add: control_locked_def new_inspector_def)
  have "\<not> in_cancel_closed new_inspector" by (simp add: new_inspector_def)
  from restart_disconnects_stop [OF ctl_start this r s] l show ?thesis by simp
qed

section \<open>Restoring an inspector\<close>

lemma restore_stages_all:
  assumes "\<forall>n \<in> set ns. st n \<noteq> None" and "distinct ns"
  shows "restore_stages ns st i =
           i\<lparr>in_stages := (\<lambda>n. if n \<in> set ns then map_option restore_stage (st n) else in_stages i n),
             in_order := in_order i @ ns\<rparr>"
  using assms
proof (induction ns arbitrary: i)
  case (Cons n ns)
  then obtain ps where "st n = Some ps" by auto
  with Cons show ?case by (auto simp: fun_eq_iff)
qed simp

lemma restore_stages_graph:
  "restore_stages ns st (i\<lparr>in_graph := g\<rparr>) = (restore_stages ns st i)\<lparr>in_graph := g\<rparr>"
proof (induction ns arbitrary: i)
  case (Cons n ns)
  show ?case
  proof (cases "st n")
    case None
    then show ?thesis using Cons.IH by (simp only: restore_stages.simps option.case)
  next
    case (Some ps)
    let ?up = "\<lambda>j. j\<lparr>in_stages := (in_stages j)(n \<mapsto> restore_stage ps), in_order := in_order j @ [n]\<rparr>"
    have step: "restore_stages (n # ns) st j = restore_stages ns st (?up j)" for j
      by (simp only: restore_stages.simps Some option.case)
    have "?up (i\<lparr>in_graph := g\<rparr>) = (?up i)\<lparr>in_graph := g\<rparr>" by simp
    then show ?thesis by (simp only: step Cons.IH)
  qed
qed simp

lemma retained_length: "length (retained logTTL now es) \<le> length es"
  by (simp add: retained_def)

lemma restore_stages_frame [simp]:
  "in_graph (restore_stages ns st i) = in_graph i" "in_log (restore_stages ns st i) = in_log i"
  "in_summary (restore_stages ns st i) = in_summary i"
  by (induction ns arbitrary: i) (auto split: option.splits)

lemma loadFromStore_sel:
  "in_graph (loadFromStore g st es sm i) = (case g of Inr (Some x) \<Rightarrow> Some x | _ \<Rightarrow> in_graph i)"
  "in_summary (loadFromStore g st es sm i) = (case sm of Inr (Some x) \<Rightarrow> Some x | _ \<Rightarrow> in_summary i)"
  "in_log (loadFromStore g st es sm i) =
     (case es of Inr (Some x) \<Rightarrow> drop (length (in_log i @ x) - logCapacity) (in_log i @ x) | _ \<Rightarrow> in_log i)"
  "in_stages (loadFromStore g st es sm i) =
     (case st of Inr (Some (order, x)) \<Rightarrow> in_stages (restore_stages order x i) | _ \<Rightarrow> in_stages i)"
  "in_order (loadFromStore g st es sm i) =
     (case st of Inr (Some (order, x)) \<Rightarrow> in_order (restore_stages order x i) | _ \<Rightarrow> in_order i)"
  by (auto simp: loadFromStore_def Let_def restore_stages_graph split: sum.splits option.splits)

text \<open>
  An inspector saved to an empty memory store and restored into a new one has the same table, counters
  and status included, the same graph and summary, and the log entries young enough to be kept.
\<close>

theorem inspector_restored:
  assumes "saveToStore ms_SaveGraph ms_SaveStages (ms_SaveLog logTTL now) ms_SaveSummary
             (fold on_event evs new_inspector) (NewMemoryInspectorStore, None) = (m, err)"
    and "r = loadFromStore (ms_LoadGraph m) (ms_LoadStages m) (ms_LoadLog m) (ms_LoadSummary m) new_inspector"
  shows "err = None \<and> in_stages r = in_stages (fold on_event evs new_inspector)
       \<and> in_order r = in_order (fold on_event evs new_inspector)
       \<and> in_graph r = in_graph (fold on_event evs new_inspector)
       \<and> in_summary r = in_summary (fold on_event evs new_inspector)
       \<and> in_log r = retained logTTL now (in_log (fold on_event evs new_inspector))"
proof -
  let ?i = "fold on_event evs new_inspector"
  have ok: "insp_ok ?i" using inspector_bounded by blast
  have "err = None"
    using assms(1)
    by (auto simp: saveToStore_def saving_def ms_SaveGraph_def ms_SaveStages_def ms_SaveLog_def ms_SaveSummary_def
        Let_def split: if_splits)
  note l = memory_store.save_then_load [OF assms(1) [unfolded this]]
  have empty: "ms_LoadGraph NewMemoryInspectorStore = Inr None" "ms_LoadStages NewMemoryInspectorStore = Inr None"
    "ms_LoadLog NewMemoryInspectorStore = Inr None" "ms_LoadSummary NewMemoryInspectorStore = Inr None"
    by (simp_all add: ms_LoadGraph_def ms_LoadStages_def ms_LoadLog_def ms_LoadSummary_def NewMemoryInspectorStore_def)
  have short: "\<not> logCapacity < length (retained logTTL now (in_log ?i))"
    using ok retained_length [of logTTL now "in_log ?i"] by (simp add: insp_ok_def)
  have stages: "restore_stages (in_order ?i) (\<lambda>n. map_option persist_stage (in_stages ?i n)) j =
      j\<lparr>in_stages := in_stages ?i, in_order := in_order ?i\<rparr>"
    if "in_stages j = Map.empty" "in_order j = []" for j
  proof -
    have "restore_stages (in_order ?i) (\<lambda>n. map_option persist_stage (in_stages ?i n)) j =
        j\<lparr>in_stages := (\<lambda>n. if n \<in> set (in_order ?i) then map_option restore_stage (map_option persist_stage (in_stages ?i n)) else in_stages j n),
          in_order := in_order j @ in_order ?i\<rparr>"
      using ok by (intro restore_stages_all) (auto simp: insp_ok_def)
    moreover have "(\<lambda>n. if n \<in> set (in_order ?i) then map_option restore_stage (map_option persist_stage (in_stages ?i n)) else in_stages j n)
        = in_stages ?i"
    proof
      fix n
      have "n \<notin> set (in_order ?i) \<Longrightarrow> in_stages ?i n = None" using ok by (auto simp: insp_ok_def)
      then show "(if n \<in> set (in_order ?i) then map_option restore_stage (map_option persist_stage (in_stages ?i n)) else in_stages j n)
          = in_stages ?i n"
        using that(1) by (simp add: option.map_comp comp_def option.map_ident)
    qed
    ultimately show ?thesis using that(2) by simp
  qed
  have none: "in_stages ?i = Map.empty \<Longrightarrow> in_order ?i = []" using ok by (auto simp: insp_ok_def)
  have "in_stages r = in_stages ?i \<and> in_order r = in_order ?i"
    using l none stages [of new_inspector] by (cases "in_stages ?i = Map.empty") (simp_all add: assms(2) loadFromStore_sel empty)
  moreover have "in_graph r = in_graph ?i"
    using l by (cases "in_graph ?i") (simp_all add: assms(2) loadFromStore_sel empty)
  moreover have "in_summary r = in_summary ?i"
    using l by (cases "in_summary ?i") (simp_all add: assms(2) loadFromStore_sel empty)
  moreover have "in_log r = retained logTTL now (in_log ?i)"
    using l short by (cases "in_log ?i = []") (simp_all add: assms(2) loadFromStore_sel empty retained_def)
  ultimately show ?thesis using \<open>err = None\<close> by simp
qed

theorem inspector_restored_witness:
  "let i = fold on_event [IStart 5 ''map'', IItem ''map'' 7 None, IDone 9 ''map''] new_inspector;
       (m, err) = saveToStore ms_SaveGraph ms_SaveStages (ms_SaveLog 2000000 10000000) ms_SaveSummary i (NewMemoryInspectorStore, None);
       r = loadFromStore (ms_LoadGraph m) (ms_LoadStages m) (ms_LoadLog m) (ms_LoadSummary m) new_inspector
   in in_order r = [''map''] \<and> in_log r = [\<lparr>le_ts = 9, le_type = ''done'', le_stage = ''map'', le_msg = []\<rparr>]"
proof -
  let ?evs = "[IStart 5 ''map'', IItem ''map'' 7 None, IDone 9 ''map'']"
  let ?i = "fold on_event ?evs new_inspector"
  obtain m err where m: "saveToStore ms_SaveGraph ms_SaveStages (ms_SaveLog 2000000 10000000) ms_SaveSummary ?i
      (NewMemoryInspectorStore, None) = (m, err)"
    by (cases "saveToStore ms_SaveGraph ms_SaveStages (ms_SaveLog 2000000 10000000) ms_SaveSummary ?i (NewMemoryInspectorStore, None)")
  have "in_order ?i = [''map'']"
    and "in_log ?i = [\<lparr>le_ts = 5, le_type = ''start'', le_stage = ''map'', le_msg = []\<rparr>,
                      \<lparr>le_ts = 9, le_type = ''done'', le_stage = ''map'', le_msg = []\<rparr>]"
    by (simp_all add: insp_OnStageStart_def insp_OnItem_def insp_OnStageDone_def Let_def push_log_def logCapacity_def)
  with inspector_restored [OF m refl]
  have "in_order (loadFromStore (ms_LoadGraph m) (ms_LoadStages m) (ms_LoadLog m) (ms_LoadSummary m) new_inspector) = [''map'']"
    and "in_log (loadFromStore (ms_LoadGraph m) (ms_LoadStages m) (ms_LoadLog m) (ms_LoadSummary m) new_inspector)
       = [\<lparr>le_ts = 9, le_type = ''done'', le_stage = ''map'', le_msg = []\<rparr>]"
    by (simp_all only: retained_def) simp_all
  then show ?thesis by (simp only: Let_def m prod.case)
qed

end
