(* ===== verification/Stage_Builders.thy ===== *)
theory Stage_Builders
  imports Concurrent_Map Concurrent_Ops State_Ops Runner Run_Control Hook_Ops
begin

text \<open>
  What the constructors and builds of some operators pick: the five loops of \<^verbatim>\<open>ForEach\<close> and the runners
  around it (\<^verbatim>\<open>terminal.go\<close>), the registration of \<^verbatim>\<open>FlatMapWithKey\<close> (\<^verbatim>\<open>state_withkey.go\<close>), the blueprints of
  \<^verbatim>\<open>Map\<close>, \<^verbatim>\<open>Filter\<close>, \<^verbatim>\<open>Merge\<close> and \<^verbatim>\<open>CombineLatestWith\<close>, and the cache of a stage (\<^verbatim>\<open>CacheBy\<close>).
\<close>

section \<open>ForEach\<close>

definition foreach_meta :: "('a, 'v) stage_config \<Rightarrow> stage_id \<Rightarrow> stage_id \<Rightarrow> stage_meta" where
  "foreach_meta cfg i p =
     (stageMeta i ''sink'' (orDefault (cfg_name cfg) ''for_each'') 0 [p])
       \<lparr>meta_concurrency := max 1 (cfg_concurrency cfg), meta_has_superv := HasSupervision (cfg_supervision cfg)\<rparr>"

text \<open>
  \<^verbatim>\<open>fusion\<close> says whether the pipeline has a fusion entry, \<^verbatim>\<open>consumers\<close> is its consumer count; the hook is
  the default one or not.
\<close>

datatype foreach_path = SinkFused | SinkOrdered | SinkConcurrent | SinkFast | SinkSerial

definition foreach_variant ::
  "('a, 'v) stage_config \<Rightarrow> 'v handler option \<Rightarrow> bool \<Rightarrow> bool \<Rightarrow> int \<Rightarrow> foreach_path" where
  "foreach_variant cfg run_handler noop_hook fusion consumers =
     (let n = max 1 (cfg_concurrency cfg);
          cfg = cfg\<lparr>cfg_handler := Some (resolveHandler (cfg_handler cfg) run_handler)\<rparr> in
      if fusion \<and> consumers = 1 \<and> isFastPathEligibleCfg cfg \<and> noop_hook \<and> IsDefaultHandler run_handler
      then SinkFused
      else if n > 1 \<and> cfg_ordered cfg then SinkOrdered
      else if n > 1 then SinkConcurrent
      else if isFastPathEligible cfg noop_hook then SinkFast
      else SinkSerial)"

section \<open>The runners\<close>

text \<open>
  A \<^verbatim>\<open>ForEachRunner\<close> holds a \<^verbatim>\<open>Runner\<close>, to which its methods pass on. A \<^verbatim>\<open>DrainRunner\<close> holds the pipeline
  and builds a \<^verbatim>\<open>ForEach\<close> without options, whose function does nothing, each time it is asked; \<^verbatim>\<open>for_each\<close> is
  the construction of a \<^verbatim>\<open>ForEach\<close> on the pipeline.
\<close>

record foreach_runner =
  fe_runner :: runner

definition ForEach_Build :: "foreach_runner \<Rightarrow> runner" where
  "ForEach_Build r = fe_runner r"

definition ForEach_Run ::
  "foreach_runner \<Rightarrow> bool \<Rightarrow> go_error option \<Rightarrow> go_error option \<Rightarrow> effect_stat list \<Rightarrow> run_summary \<times> go_error option" where
  "ForEach_Run r drain parent_err stages_err stats = Run (fe_runner r) drain parent_err stages_err stats"

definition ForEach_WithFinalizer :: "finalizer \<Rightarrow> foreach_runner \<Rightarrow> foreach_runner" where
  "ForEach_WithFinalizer fn r = r\<lparr>fe_runner := WithFinalizer fn (fe_runner r)\<rparr>"

definition drain_fn :: "'k go_ctx \<Rightarrow> 'a \<Rightarrow> go_error option" where
  "drain_fn ctx x = None"

definition Drain_Build :: "(('k go_ctx \<Rightarrow> 'a \<Rightarrow> go_error option) \<Rightarrow> foreach_runner) \<Rightarrow> runner" where
  "Drain_Build for_each = ForEach_Build (for_each drain_fn)"

definition Drain_Run ::
  "(('k go_ctx \<Rightarrow> 'a \<Rightarrow> go_error option) \<Rightarrow> foreach_runner) \<Rightarrow> bool \<Rightarrow> go_error option \<Rightarrow> go_error option \<Rightarrow> effect_stat list \<Rightarrow>
     run_summary \<times> go_error option" where
  "Drain_Run for_each drain parent_err stages_err stats = Run (Drain_Build for_each) drain parent_err stages_err stats"

section \<open>FlatMapWithKey\<close>

definition FlatMapWithKey_meta :: "run_ctx \<Rightarrow> ('a, 'v) stage_config \<Rightarrow> stage_id \<Rightarrow> stage_id \<Rightarrow> stage_meta" where
  "FlatMapWithKey_meta rc cfg i p =
     (stageMeta i ''flat_map_with_key'' (orDefault (cfg_name cfg) ''flat_map_with_key'') (effectiveBufSize rc cfg) [p])
       \<lparr>meta_concurrency := max 1 (cfg_concurrency cfg), meta_overflow := cfg_overflow cfg,
        meta_has_superv := HasSupervision (cfg_supervision cfg)\<rparr>"

definition FlatMapWithKey_maps :: "run_ctx \<Rightarrow> ('a, 'x) stage_config \<Rightarrow> 'v state_key \<Rightarrow> string \<times> 'v keyed_refs list" where
  "FlatMapWithKey_maps rc cfg key =
     (let n = nat (max 1 (cfg_concurrency cfg)); regName = key_name key @ '':__keyed__'';
          m = new_keyed_refs key (effectiveKeyTTL rc cfg)
      in if n = 1 then (regName, [m]) else (regName @ '':fmwk:workers'', replicate n m))"

section \<open>Blueprints\<close>

text \<open>The buffer of an operator that takes stage options.\<close>

definition cfg_buffer_choice :: "('a, 'v) stage_config \<Rightarrow> buffer_choice" where
  "cfg_buffer_choice cfg = (if cfg_buffer_explicit cfg then Explicit (cfg_buffer cfg) else RunDefault)"

definition Map_blueprint :: "('a, 'v) stage_config \<Rightarrow> stage_id \<Rightarrow> stage_id \<Rightarrow> int \<Rightarrow> blueprint" where
  "Map_blueprint cfg i p consumers =
     \<lparr>bp_outs = [i], bp_meta = map_meta cfg i p, bp_buffer = cfg_buffer_choice cfg, bp_consumers = consumers,
      bp_fusion = meta_fusion (map_meta cfg i p)\<rparr>"

definition Filter_blueprint :: "('a, 'v) stage_config \<Rightarrow> stage_id \<Rightarrow> stage_id \<Rightarrow> int \<Rightarrow> blueprint" where
  "Filter_blueprint cfg i p consumers =
     \<lparr>bp_outs = [i], bp_meta = filter_meta cfg i p, bp_buffer = cfg_buffer_choice cfg, bp_consumers = consumers,
      bp_fusion = meta_fusion (filter_meta cfg i p)\<rparr>"

text \<open>\<^verbatim>\<open>Filter\<close> looks at its own options and the hook only; \<^verbatim>\<open>True\<close> is the fast path.\<close>

definition filter_variant :: "('a, 'v) stage_config \<Rightarrow> bool \<Rightarrow> bool" where
  "filter_variant cfg noop_hook = isFastPathEligible cfg noop_hook"

text \<open>\<^verbatim>\<open>Merge\<close> of no pipelines is \<^verbatim>\<open>FromSlice(nil)\<close>, here \<^verbatim>\<open>None\<close>.\<close>

definition Merge_blueprint :: "stage_id list \<Rightarrow> stage_id \<Rightarrow> int \<Rightarrow> blueprint option" where
  "Merge_blueprint inputs i consumers =
     (if inputs = [] then None
      else Some \<lparr>bp_outs = [i], bp_meta = stageMeta i ''merge'' ''merge'' DefaultBuffer inputs,
                 bp_buffer = RunDefault, bp_consumers = consumers, bp_fusion = False\<rparr>)"

definition CombineLatest_blueprint ::
  "('a, 'v) stage_config \<Rightarrow> stage_id \<Rightarrow> stage_id \<Rightarrow> stage_id \<Rightarrow> int \<Rightarrow> blueprint" where
  "CombineLatest_blueprint cfg i a b consumers =
     \<lparr>bp_outs = [i],
      bp_meta = stageMeta i ''combine_latest'' (orDefault (cfg_name cfg) ''combine_latest'') (cfg_buffer cfg) [a, b],
      bp_buffer = cfg_buffer_choice cfg, bp_consumers = consumers, bp_fusion = False\<rparr>"

lemma blueprint_bufsize:
  "bp_bufsize rc (Map_blueprint cfg i p n) = effectiveBufSize rc cfg"
  "bp_bufsize rc (Filter_blueprint cfg i p n) = effectiveBufSize rc cfg"
  "bp_bufsize rc (CombineLatest_blueprint cfg i a b n) = effectiveBufSize rc cfg"
  by (simp_all add: bp_bufsize_def Map_blueprint_def Filter_blueprint_def CombineLatest_blueprint_def
      cfg_buffer_choice_def effectiveBufSize_def)

text \<open>\<^verbatim>\<open>Channel.Source\<close>: the flag that is swapped, \<^verbatim>\<open>None\<close> being the panic of a second call.\<close>

definition Channel_Source :: "bool \<Rightarrow> bool option" where
  "Channel_Source sourced = (if sourced then None else Some True)"

section \<open>The cache of a stage\<close>

record stage_cache =
  sc_cache :: "handle option"
  sc_ttl :: duration

definition CacheTTL :: "duration \<Rightarrow> stage_cache \<Rightarrow> stage_cache" where
  "CacheTTL ttl c = c\<lparr>sc_ttl := ttl\<rparr>"

definition CacheBackend :: "handle option \<Rightarrow> stage_cache \<Rightarrow> stage_cache" where
  "CacheBackend h c = c\<lparr>sc_cache := h\<rparr>"

definition CacheBy :: "(stage_cache \<Rightarrow> stage_cache) list \<Rightarrow> stage_cache" where
  "CacheBy opts = fold (\<lambda>opt. opt) opts \<lparr>sc_cache = None, sc_ttl = 0\<rparr>"

text \<open>The cache and the time to live \<^verbatim>\<open>Map\<close> uses, if it wraps its function at all.\<close>

definition map_cache :: "stage_cache option \<Rightarrow> handle option \<Rightarrow> duration \<Rightarrow> (handle \<times> duration) option" where
  "map_cache cc run_cache run_ttl =
     (case cc of
        None \<Rightarrow> None
      | Some c \<Rightarrow>
          (let cache = (if sc_cache c = None then run_cache else sc_cache c);
               ttl = (if sc_ttl c = 0 then run_ttl else sc_ttl c)
           in map_option (\<lambda>h. (h, ttl)) cache))"

text \<open>
  The options of the stage win over the run's, one by one; a \<^verbatim>\<open>CacheTTL(0)\<close>, which asks for no expiry, is
  taken as unset.
\<close>

theorem cache_of_stage:
  "map_cache (Some (CacheBy [CacheBackend (Some h), CacheTTL d])) run_cache run_ttl = Some (h, if d = 0 then run_ttl else d)
   \<and> map_cache (Some (CacheBy [])) run_cache run_ttl = map_option (\<lambda>h. (h, run_ttl)) run_cache"
  by (simp add: map_cache_def CacheBy_def CacheBackend_def CacheTTL_def)

section \<open>The serial loops of ForEach agree\<close>

lemma exec_forEachSerial:
  "exec (forEachSerial name process) u es = exec (item_loop (foreach_item name process)) u es"
  by (induction es arbitrary: u) (auto simp: forEachSerial_def item_loop_def settle_def split: prod.split act.split outcome.split)

lemma foreach_variant_default:
  assumes "foreach_variant cfg run_handler noop_hook fusion consumers \<in> {SinkFused, SinkFast}"
  shows "resolveHandler (cfg_handler cfg) run_handler = DefaultHandler \<and> cfg_concurrency cfg \<le> 1
     \<and> \<not> HasSupervision (cfg_supervision cfg) \<and> cfg_timeout cfg = 0 \<and> \<not> cfg_mapper cfg \<and> noop_hook"
  using assms
  by (auto simp: foreach_variant_def Let_def isFastPathEligible_def isFastPathEligibleCfg_def IsDefaultHandler_iff
      split: if_splits)

lemma run_foreach_paths:
  assumes "\<And>x. process x = (case fn x of None \<Rightarrow> Inr () | Some err \<Rightarrow> Inl err, 0)" and "\<And>x. fn x \<noteq> Some ErrSkipped"
  shows "run_items (foreach_item name process) xs =
     (fst (run_items (foreach_item_fast fn) xs), WrapStageErr name (snd (run_items (foreach_item_fast fn) xs)) 0)"
proof (induction xs)
  case (Cons x xs)
  then show ?case
    using assms(2) [of x]
    by (cases "fn x") (auto simp: foreach_item_def foreach_item_fast_def assms(1) WrapStageErr_Some split: prod.splits)
qed (simp add: WrapStageErr_def)

text \<open>
  When the build takes the micro-batched path it calls the function on the same items, in the same order,
  as the full path would, and stops at the same one. The error is the same, but only the full path
  wraps it into a \<^verbatim>\<open>StageError\<close> with the name of the stage.
\<close>

theorem foreach_paths_agree:
  assumes "foreach_variant cfg run_handler noop_hook fusion consumers = SinkFast" and "cfg_mapper cfg \<longleftrightarrow> mapper \<noteq> None"
    and "processes fuel (\<lambda>x k. case fn (fn_context ctx carried mapper x) x of None \<Rightarrow> Inr () | Some err \<Rightarrow> Inl err)
           (Some (resolveHandler (cfg_handler cfg) run_handler)) cancelled process"
    and "\<And>c x. fn c x \<noteq> Some ErrSkipped" and "unblock bs = closing xs" and "\<forall>b \<in> set bs. block_ctx b = None"
  shows "\<exists>err. returns (forEachFastPath ctx carried fn) bs = Return err
     \<and> returns (forEachSerial name process) (closing xs) = Return (WrapStageErr name err 0)
     \<and> outputs (forEachSerial name process) (closing xs) = outputs (forEachFastPath ctx carried fn) bs"
proof -
  let ?fn = "\<lambda>x. fn (ItemCtx ctx carried x) x"
  have "mapper = None" using foreach_variant_default [of cfg] assms(1,2) by fastforce
  then have "process x = (case ?fn x of None \<Rightarrow> Inr () | Some err \<Rightarrow> Inl err, 0)" for x
    using default_processes foreach_variant_default [of cfg] assms(1,3) by (fastforce simp: fn_context_def)
  from run_foreach_paths [of process ?fn, OF this assms(4)] show ?thesis
    using block_loop_run [OF assms(5,6), where h = "foreach_item_fast ?fn"]
    by (auto simp: forEachFastPath_def outputs_def returns_def exec_forEachSerial exec_item_loop_closing)
qed

theorem foreach_paths_agree_witness:
  "let ctx = \<lparr>ctx_err = None, ctx_value = (\<lambda>k :: nat. None)\<rparr>; fn = (\<lambda>c x :: nat. if x = 2 then Some (Plain ''bad'') else None) in
   \<exists>err. returns (forEachFastPath ctx (\<lambda>_. None) fn) [Block [1, 2, 3 :: nat] True None] = Return err
     \<and> returns (forEachSerial ''sink'' (\<lambda>x :: nat. (if x = 2 then Inl (Plain ''bad'') else Inr (), 0))) (closing [1, 2, 3])
         = Return (WrapStageErr ''sink'' err 0)
     \<and> outputs (forEachSerial ''sink'' (\<lambda>x :: nat. (if x = 2 then Inl (Plain ''bad'') else Inr (), 0))) (closing [1, 2, 3])
         = outputs (forEachFastPath ctx (\<lambda>_. None) fn) [Block [1, 2, 3] True None]"
  unfolding Let_def
proof (rule foreach_paths_agree [where cfg = "default_config :: (nat, unit) stage_config" and run_handler = None
      and noop_hook = True and fusion = False and consumers = 1 and fuel = 1 and cancelled = "\<lambda>_ _. None" and mapper = None])
  show "foreach_variant (default_config :: (nat, unit) stage_config) None True False 1 = SinkFast"
    by (simp add: foreach_variant_def default_config_def resolveHandler_def isFastPathEligible_def
        isFastPathEligibleCfg_def HasSupervision_def no_supervision_def)
qed (auto simp: processes_def ProcessItem_def default_config_def resolveHandler_def closing_items split: if_splits)

text \<open>
  \<^verbatim>\<open>Drain\<close> receives every item and returns without an error, on the path with micro-batches and on the
  serial one, which are the only ones a \<^verbatim>\<open>ForEach\<close> without options takes besides a fused chain.
\<close>

theorem drain_receives_all:
  assumes "unblock bs = closing xs" and "\<forall>b \<in> set bs. block_ctx b = None"
  shows "outputs (forEachFastPath ctx carried drain_fn) bs = xs \<and> returns (forEachFastPath ctx carried drain_fn) bs = Return None
     \<and> outputs (forEachSerial name (\<lambda>x. (Inr (), k))) (closing xs) = xs
     \<and> returns (forEachSerial name (\<lambda>x. (Inr (), k))) (closing xs) = Return None"
proof -
  have "run_items (foreach_item_fast (\<lambda>it. drain_fn (ItemCtx ctx carried it) it)) ys = (ys, None)" for ys :: "'a list"
    by (induction ys) (simp_all add: foreach_item_fast_def drain_fn_def)
  then have "outputs (forEachFastPath ctx carried drain_fn) bs = xs" "returns (forEachFastPath ctx carried drain_fn) bs = Return None"
    using block_loop_run [OF assms, where h = "foreach_item_fast (\<lambda>it. drain_fn (ItemCtx ctx carried it) it)"] by (simp_all add: forEachFastPath_def)
  moreover have "run_items (foreach_item name (\<lambda>x. (Inr (), k))) ys = (ys, None)" for ys :: "'a list"
    by (induction ys) (simp_all add: foreach_item_def)
  ultimately show ?thesis
    by (simp add: outputs_def returns_def exec_forEachSerial exec_item_loop_closing)
qed

theorem drain_paths:
  "foreach_variant (buildStageConfig []) run_handler noop_hook fusion consumers \<in> {SinkFused, SinkFast, SinkSerial}"
  by (simp add: foreach_variant_def Let_def default_config_def)

section \<open>Stages that share a key\<close>

lemma MapWithKey_maps_workers:
  "cfg_concurrency cfg > 1 \<Longrightarrow> MapWithKey_maps rc cfg key =
     (key_name key @ '':__keyed__'' @ '':workers'',
      replicate (nat (cfg_concurrency cfg)) (new_keyed_refs key (effectiveKeyTTL rc cfg)))"
  by (auto simp: MapWithKey_maps_def with_key_maps_def Let_def max_def)

text \<open>
  Two concurrent stages with the same key in a run: the second one is given the maps of the first, their
  number and their time to live, so its own \<^verbatim>\<open>Concurrency\<close> and \<^verbatim>\<open>WithKeyTTL\<close> have no effect.
\<close>

theorem same_key_first_wins:
  assumes "cfg_concurrency cfg1 > 1" and "cfg_concurrency cfg2 > 1"
  shows "registry_get (fst (MapWithKey_maps rc cfg2 key))
      (registry_init (\<lambda>f. f) (fold (\<lambda>(k, f). registry_register k f)
         [MapWithKey_maps rc cfg1 key, MapWithKey_maps rc cfg2 key] newRefRegistry))
    = Some (replicate (nat (cfg_concurrency cfg1)) (new_keyed_refs key (effectiveKeyTTL rc cfg1)))"
  by (subst registry_first_wins) (simp add: MapWithKey_maps_workers assms)

theorem same_key_first_wins_witness:
  "registry_get (fst (MapWithKey_maps newRunCtx ((default_config :: (nat, unit) stage_config)\<lparr>cfg_concurrency := 8\<rparr>) (NewKey ''sum'' (0::int) [])))
      (registry_init (\<lambda>f. f) (fold (\<lambda>(k, f). registry_register k f)
         [MapWithKey_maps newRunCtx ((default_config :: (nat, unit) stage_config)\<lparr>cfg_concurrency := 2\<rparr>) (NewKey ''sum'' (0::int) []),
          MapWithKey_maps newRunCtx ((default_config :: (nat, unit) stage_config)\<lparr>cfg_concurrency := 8\<rparr>) (NewKey ''sum'' (0::int) [])] newRefRegistry))
    = Some (replicate 2 (new_keyed_refs (NewKey ''sum'' (0::int) []) (effectiveKeyTTL newRunCtx (default_config :: (nat, unit) stage_config))))"
  using same_key_first_wins [of "(default_config :: (nat, unit) stage_config)\<lparr>cfg_concurrency := 2\<rparr>"
      "(default_config :: (nat, unit) stage_config)\<lparr>cfg_concurrency := 8\<rparr>" newRunCtx "NewKey ''sum'' (0::int) []"]
  by (simp add: effectiveKeyTTL_def eval_nat_numeral)

text \<open>
  A serial \<^verbatim>\<open>MapWithKey\<close> and a serial \<^verbatim>\<open>FlatMapWithKey\<close> with the same key share one map; the concurrent ones
  do not share theirs.
\<close>

theorem map_and_flat_map_share_serial_state:
  "fst (MapWithKey_maps rc cfg1 key) = fst (FlatMapWithKey_maps rc cfg2 key)
     \<longleftrightarrow> cfg_concurrency cfg1 \<le> 1 \<and> cfg_concurrency cfg2 \<le> 1"
  by (auto simp: MapWithKey_maps_def FlatMapWithKey_maps_def with_key_maps_def Let_def)

section \<open>A consumer that is not in the run\<close>

text \<open>
  The drain count is that of the consumers constructed. When one of two is not part of the run, the
  producer is not drained by the signal of the other.
\<close>

theorem constructed_consumer_counts:
  assumes "2 \<le> n"
  shows "\<exists>rc'. signals [i] (initDrainNotify i n rc) = Some rc' \<and> \<not> drained rc' i"
  using assms by (auto simp: initDrainNotify_def signalDrain_def drained_def Let_def nth_append)

end
