(* ===== verification/Connector_Sources.thy ===== *)
theory Connector_Sources
  imports Source_Ops
begin

text \<open>
  The sources of the connectors under \<^verbatim>\<open>tails/\<close>: each is a function given to \<^verbatim>\<open>Generate\<close> that asks a
  client for messages, decodes them, calls \<^verbatim>\<open>yield\<close> and settles them. The clients are not part of
  the repository: what they answer is a list of events, the messages with the answer to the request
  that settles them, and a run whose list has ended is still going. The log of a run has the calls
  of \<^verbatim>\<open>yield\<close> and the requests made to the broker in their order.
\<close>

section \<open>Requests and answers\<close>

text \<open>
  The answer to a request, and for a failed one whether the stage's context has ended when the code
  asks for it.
\<close>

datatype reply = Replied | RequestFailed go_error bool

datatype ('m, 'a) broker_act = Yield 'a | Ack 'm | Nak 'm bool | Commit "'m list"

text \<open>What a run has done, and the error it returned, if it has returned.\<close>

type_synonym ('m, 'a) served = "('m, 'a) broker_act list \<times> go_error option option"

text \<open>\<^verbatim>\<open>if ctx.Err() != nil { return nil }; return err\<close>\<close>

definition give_up :: "go_error \<Rightarrow> bool \<Rightarrow> go_error option" where
  "give_up err ended = (if ended then None else Some err)"

definition after :: "('m, 'a) broker_act list \<Rightarrow> ('m, 'a) served \<Rightarrow> ('m, 'a) served" where
  "after acts sv = (acts @ fst sv, snd sv)"

fun act_values :: "('m, 'a) broker_act \<Rightarrow> 'a list" where
  "act_values (Yield v) = [v]"
| "act_values _ = []"

fun act_settled :: "('m, 'a) broker_act \<Rightarrow> 'm list" where
  "act_settled (Ack m) = [m]"
| "act_settled (Commit ms) = ms"
| "act_settled _ = []"

fun act_refused :: "('m, 'a) broker_act \<Rightarrow> 'm list" where
  "act_refused (Nak m _) = [m]"
| "act_refused _ = []"

definition yielded :: "('m, 'a) broker_act list \<Rightarrow> 'a list" where
  "yielded acts = concat (map act_values acts)"

text \<open>The messages the broker was asked never to deliver again, and those it was asked to.\<close>

definition settled :: "('m, 'a) broker_act list \<Rightarrow> 'm list" where
  "settled acts = concat (map act_settled acts)"

definition returned :: "('m, 'a) broker_act list \<Rightarrow> 'm list" where
  "returned acts = concat (map act_refused acts)"

lemma log_simps [simp]:
  "yielded [] = []" "settled [] = []" "returned [] = []"
  "yielded (a # as) = act_values a @ yielded as" "settled (a # as) = act_settled a @ settled as"
  "returned (a # as) = act_refused a @ returned as"
  "yielded (as @ bs) = yielded as @ yielded bs" "settled (as @ bs) = settled as @ settled bs"
  "returned (as @ bs) = returned as @ returned bs"
  by (simp_all add: yielded_def settled_def returned_def)

lemma after_simps [simp]: "fst (after acts sv) = acts @ fst sv" "snd (after acts sv) = snd sv"
  by (simp_all add: after_def)

lemma give_up_simps [simp]: "give_up err True = None" "give_up err False = Some err"
  by (simp_all add: give_up_def)

text \<open>What the pipeline built on the source delivers.\<close>

definition source_output :: "gen_env \<Rightarrow> ('m, 'a) served \<Rightarrow> 'a delivery option" where
  "source_output env sv = map_option (\<lambda>err. Generate env (yielded (fst sv), err)) (snd sv)"

section \<open>The contract of a source with acknowledgements\<close>

text \<open>
  What a user of an at-least-once source relies on: what is settled has been yielded, in order, and
  the call of \<^verbatim>\<open>yield\<close> has said that it was taken. Every message that was not put into the channel
  is then still the broker's.
\<close>

locale at_least_once =
  fixes run :: "gen_env \<Rightarrow> 's \<Rightarrow> ('m, 'a) served"
    and decode :: "'m \<Rightarrow> 'a result"
  assumes settled_yielded:
      "prefix (map decode (settled (fst (run env s)))) (map Inr (yielded (fst (run env s))))"
    and settled_taken: "i < length (settled (fst (run env s))) \<Longrightarrow> goes_on env i"
begin

lemma settled_sent:
  "prefix (map decode (settled (fst (run env s)))) (map Inr (sent_items env 0 (yielded (fst (run env s)))))"
proof -
  from settled_yielded [of env s] obtain rest where
    rest: "map Inr (yielded (fst (run env s))) = map decode (settled (fst (run env s))) @ rest"
    by (auto simp: prefix_def)
  from this [unfolded map_eq_append_conv] obtain ys zs where
    ys: "yielded (fst (run env s)) = ys @ zs" "map decode (settled (fst (run env s))) = map Inr ys"
    by blast
  from ys(2) have "length ys = length (settled (fst (run env s)))"
    by (auto dest: map_eq_imp_length_eq)
  then have "sent_items env 0 ys = ys"
    by (intro sent_items_all) (auto intro!: goes_on_sends settled_taken)
  with ys show ?thesis by (simp add: sent_items_append)
qed

lemma output_has_settled:
  assumes "source_output env (run env s) = Some (out, err)"
  shows "prefix (map decode (settled (fst (run env s)))) (map Inr out)"
  using assms settled_sent [of env s] by (auto simp: source_output_def Generate_def)

end

section \<open>Kafka\<close>

record consumeConfig =
  batchSize :: int
  batchTimeout :: duration

definition batching :: "consumeConfig \<Rightarrow> bool" where
  "batching c = (batchSize c > 1 \<or> batchTimeout c > 0)"

definition BatchSize :: "int \<Rightarrow> consumeConfig \<Rightarrow> consumeConfig" where
  "BatchSize n c = c\<lparr>batchSize := n\<rparr>"

definition BatchTimeout_kafka :: "duration \<Rightarrow> consumeConfig \<Rightarrow> consumeConfig" where
  "BatchTimeout_kafka d c = c\<lparr>batchTimeout := d\<rparr>"

text \<open>
  One round of the loop: the fetch fails, or it has a message. With the message come the clock when
  \<^verbatim>\<open>time.Now\<close> and \<^verbatim>\<open>time.Since\<close> read it, and the answer to the commit, if one is made.
\<close>

datatype 'm kafka_event = FetchFailed go_error bool | Fetched 'm time time reply

fun kafka_each ::
  "gen_env \<Rightarrow> nat \<Rightarrow> ('m \<Rightarrow> 'a result) \<Rightarrow> 'm kafka_event list \<Rightarrow> ('m, 'a) served" where
  "kafka_each env k unmarshal [] = ([], None)"
| "kafka_each env k unmarshal (FetchFailed err ended # es) = ([], Some (give_up err ended))"
| "kafka_each env k unmarshal (Fetched msg now later r # es) =
     (case unmarshal msg of
        Inl err \<Rightarrow> ([], Some (Some err))
      | Inr v \<Rightarrow>
          if \<not> goes_on env k then ([Yield v], Some None)
          else (case r of
              RequestFailed err ended \<Rightarrow> ([Yield v, Commit [msg]], Some (give_up err ended))
            | Replied \<Rightarrow> after [Yield v, Commit [msg]] (kafka_each env (Suc k) unmarshal es)))"

fun kafka_batched ::
  "consumeConfig \<Rightarrow> gen_env \<Rightarrow> nat \<Rightarrow> ('m \<Rightarrow> 'a result) \<Rightarrow> 'm list \<Rightarrow> time \<Rightarrow> 'm kafka_event list \<Rightarrow>
     ('m, 'a) served" where
  "kafka_batched cfg env k unmarshal pending batchStart [] = ([], None)"
| "kafka_batched cfg env k unmarshal pending batchStart (FetchFailed err ended # es) =
     ([], Some (give_up err ended))"
| "kafka_batched cfg env k unmarshal pending batchStart (Fetched msg now later r # es) =
     (case unmarshal msg of
        Inl err \<Rightarrow> ([], Some (Some err))
      | Inr v \<Rightarrow>
          if \<not> goes_on env k then ([Yield v], Some None)
          else
            (let batchStart' = (if pending = [] then now else batchStart);
                 pending' = pending @ [msg];
                 batchFull = (batchSize cfg > 1 \<and> int (length pending') \<ge> batchSize cfg);
                 timedOut = (batchTimeout cfg > 0 \<and> later - batchStart' \<ge> batchTimeout cfg)
             in if batchFull \<or> timedOut
                then (case r of
                    RequestFailed err ended \<Rightarrow> ([Yield v, Commit pending'], Some (give_up err ended))
                  | Replied \<Rightarrow>
                      after [Yield v, Commit pending'] (kafka_batched cfg env (Suc k) unmarshal [] batchStart' es))
                else after [Yield v] (kafka_batched cfg env (Suc k) unmarshal pending' batchStart' es)))"

definition kafka_Consume ::
  "consumeConfig \<Rightarrow> ('m \<Rightarrow> 'a result) \<Rightarrow> gen_env \<Rightarrow> 'm kafka_event list \<Rightarrow> ('m, 'a) served" where
  "kafka_Consume cfg unmarshal env es =
     (if \<not> batching cfg then kafka_each env 0 unmarshal es
      else kafka_batched cfg env 0 unmarshal [] 0 es)"

section \<open>Polling and settling one message after the other\<close>

text \<open>
  The other sources differ in how they settle: whether a message that cannot be decoded is returned
  to the broker (and with which requeue flag), whether one whose \<^verbatim>\<open>yield\<close> answered false is
  acknowledged, and whether one that was taken is. \<^verbatim>\<open>serve\<close> is the loop over the messages of one
  answer of the broker; it says at which call of \<^verbatim>\<open>yield\<close> it has stopped.
\<close>

record settlement =
  nak_bad :: "bool option"
  ack_refused :: bool
  ack_taken :: bool

fun serve ::
  "settlement \<Rightarrow> gen_env \<Rightarrow> nat \<Rightarrow> ('m \<Rightarrow> 'a result) \<Rightarrow> ('m \<times> reply) list \<Rightarrow>
     ('m, 'a) broker_act list \<times> nat \<times> go_error option option" where
  "serve p env k unmarshal [] = ([], k, None)"
| "serve p env k unmarshal ((msg, r) # ms) =
     (case unmarshal msg of
        Inl err \<Rightarrow> ((case nak_bad p of Some requeue \<Rightarrow> [Nak msg requeue] | None \<Rightarrow> []), k, Some (Some err))
      | Inr v \<Rightarrow>
          if \<not> goes_on env k then (Yield v # (if ack_refused p then [Ack msg] else []), Suc k, Some None)
          else if \<not> ack_taken p then
            (case serve p env (Suc k) unmarshal ms of (acts, k', out) \<Rightarrow> (Yield v # acts, k', out))
          else (case r of
              RequestFailed err ended \<Rightarrow> ([Yield v, Ack msg], Suc k, Some (give_up err ended))
            | Replied \<Rightarrow>
                (case serve p env (Suc k) unmarshal ms of
                   (acts, k', out) \<Rightarrow> (Yield v # Ack msg # acts, k', out))))"

text \<open>
  One round: the context has ended (or the channel of messages is closed), the request fails, or it
  has messages and, for a pull of JetStream, an error found after them.
\<close>

datatype 'm poll =
    PollStopped
  | PollFailed go_error bool
  | Polled "('m \<times> reply) list" "(go_error \<times> bool) option"

fun poll_loop ::
  "settlement \<Rightarrow> gen_env \<Rightarrow> nat \<Rightarrow> ('m \<Rightarrow> 'a result) \<Rightarrow> 'm poll list \<Rightarrow> ('m, 'a) served" where
  "poll_loop p env k unmarshal [] = ([], None)"
| "poll_loop p env k unmarshal (PollStopped # ps) = ([], Some None)"
| "poll_loop p env k unmarshal (PollFailed err ended # ps) = ([], Some (give_up err ended))"
| "poll_loop p env k unmarshal (Polled ms failed # ps) =
     (case serve p env k unmarshal ms of
        (acts, k', Some out) \<Rightarrow> (acts, Some out)
      | (acts, k', None) \<Rightarrow>
          (case failed of
             Some (err, ended) \<Rightarrow> (acts, Some (give_up err ended))
           | None \<Rightarrow> after acts (poll_loop p env k' unmarshal ps)))"

text \<open>A request made once, before the loop.\<close>

definition once :: "go_error option \<Rightarrow> ('m, 'a) served \<Rightarrow> ('m, 'a) served" where
  "once opening sv = (case opening of Some err \<Rightarrow> ([], Some (Some err)) | None \<Rightarrow> sv)"

text \<open>SQS and Service Bus delete a message that was taken, and leave the others alone.\<close>

definition delete_taken :: settlement where
  "delete_taken = \<lparr>nak_bad = None, ack_refused = False, ack_taken = True\<rparr>"

definition sqs_Receive :: "('m \<Rightarrow> 'a result) \<Rightarrow> gen_env \<Rightarrow> 'm poll list \<Rightarrow> ('m, 'a) served" where
  "sqs_Receive unmarshal env ps = poll_loop delete_taken env 0 unmarshal ps"

definition azsb_Receive :: "('m \<Rightarrow> 'a result) \<Rightarrow> gen_env \<Rightarrow> 'm poll list \<Rightarrow> ('m, 'a) served" where
  "azsb_Receive unmarshal env ps = poll_loop delete_taken env 0 unmarshal ps"

text \<open>JetStream acknowledges a message also when \<^verbatim>\<open>yield\<close> answers false, and returns a bad one.\<close>

definition ack_always :: settlement where
  "ack_always = \<lparr>nak_bad = Some True, ack_refused = True, ack_taken = True\<rparr>"

definition js_Fetch :: "('m \<Rightarrow> 'a result) \<Rightarrow> gen_env \<Rightarrow> 'm poll list \<Rightarrow> ('m, 'a) served" where
  "js_Fetch unmarshal env ps = poll_loop ack_always env 0 unmarshal ps"

definition js_FetchBytes :: "('m \<Rightarrow> 'a result) \<Rightarrow> gen_env \<Rightarrow> 'm poll list \<Rightarrow> ('m, 'a) served" where
  "js_FetchBytes unmarshal env ps = poll_loop ack_always env 0 unmarshal ps"

definition one_message :: "'m \<times> reply \<Rightarrow> 'm poll" where
  "one_message d = Polled [d] None"

datatype 'm next_event = NextFailed go_error bool | NextMessage 'm reply

fun next_poll :: "'m next_event \<Rightarrow> 'm poll" where
  "next_poll (NextFailed err ended) = PollFailed err ended"
| "next_poll (NextMessage msg r) = one_message (msg, r)"

definition nats_Consume ::
  "go_error option \<Rightarrow> ('m \<Rightarrow> 'a result) \<Rightarrow> gen_env \<Rightarrow> 'm next_event list \<Rightarrow> ('m, 'a) served" where
  "nats_Consume opening unmarshal env es = once opening (poll_loop ack_always env 0 unmarshal (map next_poll es))"

text \<open>Pulsar does the same; its client's answers to the acknowledgements are not read.\<close>

fun pulsar_poll :: "(go_error \<times> bool) + 'm \<Rightarrow> 'm poll" where
  "pulsar_poll (Inl (err, ended)) = PollFailed err ended"
| "pulsar_poll (Inr msg) = one_message (msg, Replied)"

definition pulsar_Consume ::
  "('m \<Rightarrow> 'a result) \<Rightarrow> gen_env \<Rightarrow> ((go_error \<times> bool) + 'm) list \<Rightarrow> ('m, 'a) served" where
  "pulsar_Consume unmarshal env es = poll_loop ack_always env 0 unmarshal (map pulsar_poll es)"

text \<open>RabbitMQ: the options, and the select over the context and the channel of deliveries.\<close>

record amqp_config =
  consumer_tag :: string
  autoAck :: bool
  exclusive :: bool
  requeueOnNack :: bool

definition amqp_default :: amqp_config where
  "amqp_default = \<lparr>consumer_tag = [], autoAck = False, exclusive = False, requeueOnNack = True\<rparr>"

definition WithConsumerTag :: "string \<Rightarrow> amqp_config \<Rightarrow> amqp_config" where
  "WithConsumerTag tag c = c\<lparr>consumer_tag := tag\<rparr>"

definition WithAutoAck :: "amqp_config \<Rightarrow> amqp_config" where
  "WithAutoAck c = c\<lparr>autoAck := True\<rparr>"

definition WithExclusive :: "amqp_config \<Rightarrow> amqp_config" where
  "WithExclusive c = c\<lparr>exclusive := True\<rparr>"

definition WithRequeueOnNack :: "bool \<Rightarrow> amqp_config \<Rightarrow> amqp_config" where
  "WithRequeueOnNack requeue c = c\<lparr>requeueOnNack := requeue\<rparr>"

datatype 'm amqp_event = AmqpDone | AmqpClosed | AmqpDelivery 'm reply

fun amqp_poll :: "'m amqp_event \<Rightarrow> 'm poll" where
  "amqp_poll AmqpDone = PollStopped"
| "amqp_poll AmqpClosed = PollStopped"
| "amqp_poll (AmqpDelivery d r) = one_message (d, r)"

definition amqp_settlement :: "amqp_config \<Rightarrow> settlement" where
  "amqp_settlement cfg =
     \<lparr>nak_bad = (if autoAck cfg then None else Some (requeueOnNack cfg)),
      ack_refused = (\<not> autoAck cfg), ack_taken = (\<not> autoAck cfg)\<rparr>"

definition amqp_Consume ::
  "(amqp_config \<Rightarrow> amqp_config) list \<Rightarrow> go_error option \<Rightarrow> ('m \<Rightarrow> 'a result) \<Rightarrow> gen_env \<Rightarrow> 'm amqp_event list \<Rightarrow>
     ('m, 'a) served" where
  "amqp_Consume opts opening unmarshal env es =
     once opening (poll_loop (amqp_settlement (fold (\<lambda>opt. opt) opts amqp_default)) env 0 unmarshal (map amqp_poll es))"

section \<open>Sources that settle nothing\<close>

definition settle_nothing :: settlement where
  "settle_nothing = \<lparr>nak_bad = None, ack_refused = False, ack_taken = False\<rparr>"

definition plain_message :: "'m \<Rightarrow> 'm poll" where
  "plain_message m = one_message (m, Replied)"

definition azeh_Consume :: "('m \<Rightarrow> 'a result) \<Rightarrow> gen_env \<Rightarrow> 'm poll list \<Rightarrow> ('m, 'a) served" where
  "azeh_Consume unmarshal env ps = poll_loop settle_nothing env 0 unmarshal ps"

definition js_OrderedConsume ::
  "go_error option \<Rightarrow> go_error option \<Rightarrow> ('m \<Rightarrow> 'a result) \<Rightarrow> gen_env \<Rightarrow> 'm next_event list \<Rightarrow> ('m, 'a) served" where
  "js_OrderedConsume consumer messages unmarshal env es =
     once consumer (once messages (poll_loop settle_nothing env 0 unmarshal (map next_poll es)))"

text \<open>A watch of a bucket: a nil entry says that the present values have been sent.\<close>

datatype 'm watch_event = WatchDone | WatchClosed | WatchInit | WatchEntry 'm

fun watch_poll :: "'m watch_event \<Rightarrow> 'm poll" where
  "watch_poll WatchDone = PollStopped"
| "watch_poll WatchClosed = PollStopped"
| "watch_poll WatchInit = Polled [] None"
| "watch_poll (WatchEntry e) = plain_message e"

definition js_WatchKV ::
  "go_error option \<Rightarrow> ('m \<Rightarrow> 'a result) \<Rightarrow> gen_env \<Rightarrow> 'm watch_event list \<Rightarrow> ('m, 'a) served" where
  "js_WatchKV opening unmarshal env es = once opening (poll_loop settle_nothing env 0 unmarshal (map watch_poll es))"

text \<open>NATS looks at the error and not at the context.\<close>

fun nats_poll :: "go_error + 'm \<Rightarrow> 'm poll" where
  "nats_poll (Inl err) = PollFailed err (errors_is err Canceled \<or> errors_is err DeadlineExceeded)"
| "nats_poll (Inr msg) = plain_message msg"

definition nats_Subscribe ::
  "go_error option \<Rightarrow> ('m \<Rightarrow> 'a result) \<Rightarrow> gen_env \<Rightarrow> (go_error + 'm) list \<Rightarrow> ('m, 'a) served" where
  "nats_Subscribe opening unmarshal env es = once opening (poll_loop settle_nothing env 0 unmarshal (map nats_poll es))"

text \<open>
  MQTT decodes in the client's callback and passes the results on through a channel; Postgres waits
  for notifications after \<^verbatim>\<open>LISTEN\<close>.
\<close>

datatype 'm mqtt_event = MqttDone | MqttMessage 'm

fun mqtt_poll :: "'m mqtt_event \<Rightarrow> 'm poll" where
  "mqtt_poll MqttDone = PollStopped"
| "mqtt_poll (MqttMessage m) = plain_message m"

definition mqtt_Subscribe ::
  "go_error option \<Rightarrow> ('m \<Rightarrow> 'a result) \<Rightarrow> gen_env \<Rightarrow> 'm mqtt_event list \<Rightarrow> ('m, 'a) served" where
  "mqtt_Subscribe opening unmarshal env es = once opening (poll_loop settle_nothing env 0 unmarshal (map mqtt_poll es))"

definition postgres_Listen ::
  "go_error option \<Rightarrow> ('m \<Rightarrow> 'a result) \<Rightarrow> gen_env \<Rightarrow> ((go_error \<times> bool) + 'm) list \<Rightarrow> ('m, 'a) served" where
  "postgres_Listen opening unmarshal env es =
     once opening (poll_loop settle_nothing env 0 unmarshal
       (map (\<lambda>e. case e of Inl (err, ended) \<Rightarrow> PollFailed err ended | Inr payload \<Rightarrow> plain_message payload) es))"

text \<open>
  A WebSocket: a failed read is the end when the context has ended or the error has a close code, \<^verbatim>\<open>-1\<close>
  being none. A gRPC stream ends with \<^verbatim>\<open>io.EOF\<close> and has nothing to decode.
\<close>

fun ws_poll :: "(go_error \<times> bool \<times> int) + 'm \<Rightarrow> 'm poll" where
  "ws_poll (Inl (err, ended, closeStatus)) =
     (if ended then PollStopped else if closeStatus \<noteq> -1 then PollStopped else PollFailed err False)"
| "ws_poll (Inr msg) = plain_message msg"

definition ws_Read ::
  "('m \<Rightarrow> 'a result) \<Rightarrow> gen_env \<Rightarrow> ((go_error \<times> bool \<times> int) + 'm) list \<Rightarrow> ('m, 'a) served" where
  "ws_Read unmarshal env es = poll_loop settle_nothing env 0 unmarshal (map ws_poll es)"

datatype 'm grpc_event = GrpcEOF | GrpcFailed go_error bool | GrpcMessage 'm

fun grpc_poll :: "'m grpc_event \<Rightarrow> 'm poll" where
  "grpc_poll GrpcEOF = PollStopped"
| "grpc_poll (GrpcFailed err ended) = PollFailed err ended"
| "grpc_poll (GrpcMessage msg) = plain_message msg"

definition grpc_Recv :: "gen_env \<Rightarrow> 'm grpc_event list \<Rightarrow> ('m, 'm) served" where
  "grpc_Recv env es = poll_loop settle_nothing env 0 Inr (map grpc_poll es)"

text \<open>Redis: the popped item is gone whatever becomes of it; \<^verbatim>\<open>None\<close> is \<^verbatim>\<open>redis.Nil\<close>.\<close>

fun redis_FromList_loop :: "gen_env \<Rightarrow> nat \<Rightarrow> (go_error + 'a option) list \<Rightarrow> ('a, 'a) served" where
  "redis_FromList_loop env k [] = ([], None)"
| "redis_FromList_loop env k (Inl err # pops) = ([], Some (Some err))"
| "redis_FromList_loop env k (Inr None # pops) = ([], Some None)"
| "redis_FromList_loop env k (Inr (Some val) # pops) =
     (if \<not> goes_on env k then ([Yield val], Some None)
      else after [Yield val] (redis_FromList_loop env (Suc k) pops))"

text \<open>
  A cursor over rows (\<^verbatim>\<open>ksqlite.Query\<close>, \<^verbatim>\<open>kmongo.Find\<close>, \<^verbatim>\<open>kmongo.Watch\<close>): \<^verbatim>\<open>Next\<close> has a row, or it answers false
  and the error, if any, is asked for. Only \<^verbatim>\<open>Watch\<close> looks at the context first.
\<close>

fun cursor_loop :: "gen_env \<Rightarrow> nat \<Rightarrow> ('r \<Rightarrow> 'a result) \<Rightarrow> 'r list \<Rightarrow> go_error option \<Rightarrow> 'a generated" where
  "cursor_loop env k decode [] err = ([], err)"
| "cursor_loop env k decode (row # rows) err =
     (case decode row of
        Inl e \<Rightarrow> ([], Some e)
      | Inr v \<Rightarrow>
          if \<not> goes_on env k then ([v], None)
          else (case cursor_loop env (Suc k) decode rows err of (calls, out) \<Rightarrow> (v # calls, out)))"

definition sqlite_Query ::
  "gen_env \<Rightarrow> ('r \<Rightarrow> 'a result) \<Rightarrow> (go_error + 'r list \<times> go_error option) \<Rightarrow> 'a generated" where
  "sqlite_Query env scan q =
     (case q of Inl err \<Rightarrow> ([], Some err) | Inr (rows, err) \<Rightarrow> cursor_loop env 0 scan rows err)"

definition clickhouse_Query ::
  "gen_env \<Rightarrow> ('r \<Rightarrow> 'a result) \<Rightarrow> (go_error + 'r list \<times> go_error option) \<Rightarrow> 'a generated" where
  "clickhouse_Query env scan q =
     (case q of Inl err \<Rightarrow> ([], Some err) | Inr (rows, err) \<Rightarrow> cursor_loop env 0 scan rows err)"

definition mongo_Find ::
  "gen_env \<Rightarrow> ('r \<Rightarrow> 'a result) \<Rightarrow> (go_error + 'r list \<times> go_error option) \<Rightarrow> 'a generated" where
  "mongo_Find env decode q =
     (case q of Inl err \<Rightarrow> ([], Some err) | Inr (rows, err) \<Rightarrow> cursor_loop env 0 decode rows err)"

definition mongo_Watch ::
  "gen_env \<Rightarrow> ('r \<Rightarrow> 'a result) \<Rightarrow> (go_error + 'r list \<times> go_error option \<times> bool) \<Rightarrow> 'a generated" where
  "mongo_Watch env decode q =
     (case q of
        Inl err \<Rightarrow> ([], Some err)
      | Inr (rows, err, ended) \<Rightarrow> cursor_loop env 0 decode rows (if ended then None else err))"

section \<open>Paginated reads\<close>

text \<open>
  Sources that ask for one page after the other, with the key the last page ended at. The client is
  a function of the key. A chain of keys may be a circle, so the loops take fuel, one unit for a page;
  \<^verbatim>\<open>None\<close> is a loop still going. \<^verbatim>\<open>yield_all\<close> is the loop over the elements of a page.
\<close>

fun yield_all ::
  "gen_env \<Rightarrow> nat \<Rightarrow> ('i \<Rightarrow> 'a result) \<Rightarrow> 'i list \<Rightarrow> 'a list \<times> go_error option option" where
  "yield_all env k unmarshal [] = ([], None)"
| "yield_all env k unmarshal (x # xs) =
     (case unmarshal x of
        Inl err \<Rightarrow> ([], Some (Some err))
      | Inr v \<Rightarrow>
          if \<not> goes_on env k then ([v], Some None)
          else (case yield_all env (Suc k) unmarshal xs of (calls, out) \<Rightarrow> (v # calls, out)))"

definition page_then ::
  "'a list \<times> go_error option option \<Rightarrow> 'a generated option \<Rightarrow> 'a generated option" where
  "page_then page rest =
     (case page of
        (calls, Some err) \<Rightarrow> Some (calls, err)
      | (calls, None) \<Rightarrow> map_option (\<lambda>(calls', err). (calls @ calls', err)) rest)"

text \<open>DynamoDB: an empty \<^verbatim>\<open>LastEvaluatedKey\<close> is \<^verbatim>\<open>None\<close>. \<^verbatim>\<open>Query\<close> is the same loop over another request.\<close>

type_synonym ('key, 'i) page_client = "'key option \<Rightarrow> (go_error \<times> bool) + 'i list \<times> 'key option"

fun scan_loop ::
  "nat \<Rightarrow> gen_env \<Rightarrow> nat \<Rightarrow> ('i \<Rightarrow> 'a result) \<Rightarrow> ('key, 'i) page_client \<Rightarrow> 'key option \<Rightarrow> 'a generated option" where
  "scan_loop 0 env k unmarshal client key = None"
| "scan_loop (Suc fuel) env k unmarshal client key =
     (case client key of
        Inl (err, ended) \<Rightarrow> Some ([], give_up err ended)
      | Inr (elems, nxt) \<Rightarrow>
          page_then (yield_all env k unmarshal elems)
            (if nxt = None then Some ([], None)
             else scan_loop fuel env (k + length elems) unmarshal client nxt))"

definition dynamo_Scan ::
  "nat \<Rightarrow> ('i \<Rightarrow> 'a result) \<Rightarrow> ('key, 'i) page_client \<Rightarrow> 'key option \<Rightarrow> gen_env \<Rightarrow> 'a generated option" where
  "dynamo_Scan fuel unmarshal client startKey env = scan_loop fuel env 0 unmarshal client None"

definition dynamo_Query ::
  "nat \<Rightarrow> ('i \<Rightarrow> 'a result) \<Rightarrow> ('key, 'i) page_client \<Rightarrow> 'key option \<Rightarrow> gen_env \<Rightarrow> 'a generated option" where
  "dynamo_Query fuel unmarshal client startKey env = scan_loop fuel env 0 unmarshal client None"

text \<open>HTTP: the pages of a chain of URLs, \<^verbatim>\<open>''\<close> being its end. A page is parsed as a whole.\<close>

fun http_GetPages ::
  "nat \<Rightarrow> gen_env \<Rightarrow> nat \<Rightarrow> (string \<Rightarrow> go_error + 'a list \<times> string) \<Rightarrow> string \<Rightarrow> 'a generated option" where
  "http_GetPages 0 env k get url = (if url = [] then Some ([], None) else None)"
| "http_GetPages (Suc fuel) env k get url =
     (if url = [] then Some ([], None)
      else case get url of
        Inl err \<Rightarrow> Some ([], Some err)
      | Inr (elems, nxt) \<Rightarrow>
          page_then (yield_all env k Inr elems) (http_GetPages fuel env (k + length elems) get nxt))"

text \<open>
  S3: the pager with its continuation token. An object without a key is passed over; a page that
  says it is not the last one and has no token ends the listing at the next call.
\<close>

record ('tok, 'o) s3_page =
  Contents :: "'o option list"
  IsTruncated :: "bool option"
  NextContinuationToken :: "'tok option"

record 'tok list_pager =
  continuationToken :: "'tok option"
  started :: bool

definition pager_next ::
  "('tok option \<Rightarrow> go_error + ('tok, 'o) s3_page) \<Rightarrow> 'tok list_pager \<Rightarrow>
     'tok list_pager \<times> (go_error + 'o list \<times> bool)" where
  "pager_next client p =
     (if started p \<and> continuationToken p = None then (p, Inr ([], True))
      else
        (let p' = p\<lparr>started := True\<rparr> in
         case client (continuationToken p') of
           Inl err \<Rightarrow> (p', Inl err)
         | Inr out \<Rightarrow>
             (let keys = List.map_filter (\<lambda>obj. obj) (Contents out) in
              if IsTruncated out = Some True
              then (p'\<lparr>continuationToken := NextContinuationToken out\<rparr>, Inr (keys, False))
              else (p'\<lparr>continuationToken := None\<rparr>, Inr (keys, True)))))"

fun s3_list_loop ::
  "nat \<Rightarrow> gen_env \<Rightarrow> nat \<Rightarrow> ('o \<Rightarrow> 'a result) \<Rightarrow> ('tok option \<Rightarrow> go_error + ('tok, 'o) s3_page) \<Rightarrow>
     'tok list_pager \<Rightarrow> 'a generated option" where
  "s3_list_loop 0 env k fetch client p = None"
| "s3_list_loop (Suc fuel) env k fetch client p =
     (case pager_next client p of
        (p', Inl err) \<Rightarrow> Some ([], Some err)
      | (p', Inr (keys, finished)) \<Rightarrow>
          page_then (yield_all env k fetch keys)
            (if finished then Some ([], None)
             else s3_list_loop fuel env (k + length keys) fetch client p'))"

definition s3_ListObjects ::
  "nat \<Rightarrow> ('o \<Rightarrow> go_error + 'b) \<Rightarrow> ('o \<Rightarrow> 'b \<Rightarrow> 'a result) \<Rightarrow>
     ('tok option \<Rightarrow> go_error + ('tok, 'o) s3_page) \<Rightarrow> gen_env \<Rightarrow> 'a generated option" where
  "s3_ListObjects fuel get parse client env =
     s3_list_loop fuel env 0 (\<lambda>key. case get key of Inl err \<Rightarrow> Inl err | Inr body \<Rightarrow> parse key body) client
       \<lparr>continuationToken = None, started = False\<rparr>"

text \<open>Cloud Storage: an iterator over the names, which ends with \<^verbatim>\<open>Done\<close> or another error.\<close>

definition gcs_ListObjects ::
  "('o \<Rightarrow> go_error + 'b) \<Rightarrow> ('o \<Rightarrow> 'b \<Rightarrow> 'a result) \<Rightarrow> 'o list \<Rightarrow> go_error option \<Rightarrow> gen_env \<Rightarrow> 'a generated" where
  "gcs_ListObjects reader parse names err env =
     cursor_loop env 0 (\<lambda>key. case reader key of Inl e \<Rightarrow> Inl e | Inr body \<Rightarrow> parse key body) names err"

text \<open>
  Kinesis: the iterator of the next request, until a shard has none. After an empty page with
  nothing behind it the loop waits, and ends if the context ends first. The context is asked before
  the \<^verbatim>\<open>j\<close>-th request and in the \<^verbatim>\<open>j\<close>-th wait.
\<close>

fun kinesis_loop ::
  "nat \<Rightarrow> gen_env \<Rightarrow> nat \<Rightarrow> nat \<Rightarrow> (nat \<Rightarrow> bool) \<Rightarrow> (nat \<Rightarrow> bool) \<Rightarrow> ('i \<Rightarrow> 'a result) \<Rightarrow>
     ('it \<Rightarrow> (go_error \<times> bool) + 'i list \<times> 'it option \<times> int) \<Rightarrow> 'it option \<Rightarrow> 'a generated option" where
  "kinesis_loop fuel env k j ended ended_wait unmarshal client None = Some ([], None)"
| "kinesis_loop 0 env k j ended ended_wait unmarshal client (Some it) = None"
| "kinesis_loop (Suc fuel) env k j ended ended_wait unmarshal client (Some it) =
     (if ended j then Some ([], None)
      else case client it of
        Inl (err, quiet) \<Rightarrow> Some ([], give_up err quiet)
      | Inr (recs, nxt, behind) \<Rightarrow>
          page_then (yield_all env k unmarshal recs)
            (if recs = [] \<and> behind = 0 \<and> ended_wait j then Some ([], None)
             else kinesis_loop fuel env (k + length recs) (Suc j) ended ended_wait unmarshal client nxt))"

definition kinesis_Consume ::
  "nat \<Rightarrow> (nat \<Rightarrow> bool) \<Rightarrow> (nat \<Rightarrow> bool) \<Rightarrow> go_error + 'it option \<Rightarrow> ('i \<Rightarrow> 'a result) \<Rightarrow>
     ('it \<Rightarrow> (go_error \<times> bool) + 'i list \<times> 'it option \<times> int) \<Rightarrow> gen_env \<Rightarrow> 'a generated option" where
  "kinesis_Consume fuel ended ended_wait opening unmarshal client env =
     (case opening of
        Inl err \<Rightarrow> Some ([], Some err)
      | Inr iter \<Rightarrow> kinesis_loop fuel env 0 0 ended ended_wait unmarshal client iter)"

text \<open>
  Elasticsearch: the body of an answer is decoded, its hits are yielded, and the scroll goes on under
  the ID it names. The last ID known is cleared when the source returns, whatever the reason.
\<close>

datatype 'i es_reply = EsFailed go_error | EsStatus string | EsBody "go_error + string \<times> 'i list"

fun es_loop ::
  "nat \<Rightarrow> gen_env \<Rightarrow> nat \<Rightarrow> ('i \<Rightarrow> 'a result) \<Rightarrow> (string \<Rightarrow> 'i es_reply) \<Rightarrow> string \<Rightarrow>
     go_error + string \<times> 'i list \<Rightarrow> ('a generated \<times> string) option" where
  "es_loop 0 env k unmarshal scroll scrollID body = None"
| "es_loop (Suc fuel) env k unmarshal scroll scrollID body =
     (case body of
        Inl err \<Rightarrow> Some (([], Some err), scrollID)
      | Inr (sid, hits) \<Rightarrow>
          if hits = [] then Some (([], None), sid)
          else (case yield_all env k unmarshal hits of
              (calls, Some err) \<Rightarrow> Some ((calls, err), sid)
            | (calls, None) \<Rightarrow>
                (case scroll sid of
                   EsFailed err \<Rightarrow> Some ((calls, Some err), sid)
                 | EsStatus st \<Rightarrow> Some ((calls, Some (Plain (''kes: Scroll: '' @ st))), sid)
                 | EsBody body' \<Rightarrow>
                     map_option (\<lambda>((calls', err), lastID). ((calls @ calls', err), lastID))
                       (es_loop fuel env (k + length hits) unmarshal scroll sid body'))))"

definition es_Search ::
  "nat \<Rightarrow> ('i \<Rightarrow> 'a result) \<Rightarrow> 'i es_reply \<Rightarrow> (string \<Rightarrow> 'i es_reply) \<Rightarrow> gen_env \<Rightarrow>
     ('a generated \<times> string option) option" where
  "es_Search fuel unmarshal search scroll env =
     (case search of
        EsFailed err \<Rightarrow> Some (([], Some err), None)
      | EsStatus st \<Rightarrow> Some (([], Some (Plain (''kes: Search: '' @ st))), None)
      | EsBody body \<Rightarrow>
          map_option (\<lambda>(g, lastID). (g, if lastID \<noteq> [] then Some lastID else None))
            (es_loop fuel env 0 unmarshal scroll [] body))"

section \<open>Files\<close>

text \<open>
  Lines, CSV records and JSON values of a reader. The scanner's error is asked for at the end; the
  loop over JSON goes on while \<^verbatim>\<open>More\<close> says so, which answers false at the end, at a closing bracket
  and also when the reader fails.
\<close>

fun file_Lines :: "gen_env \<Rightarrow> nat \<Rightarrow> 'a list \<Rightarrow> go_error option \<Rightarrow> 'a generated" where
  "file_Lines env k [] err = ([], err)"
| "file_Lines env k (line # rest) err =
     (case ge_ctx env k of
        Some e \<Rightarrow> ([], Some e)
      | None \<Rightarrow>
          if \<not> goes_on env k then ([line], None)
          else (case file_Lines env (Suc k) rest err of (calls, out) \<Rightarrow> (line # calls, out)))"

text \<open>The object sources ask the context after the line, and say nothing when it has ended.\<close>

fun object_lines :: "gen_env \<Rightarrow> nat \<Rightarrow> 'a list \<Rightarrow> go_error option \<Rightarrow> 'a generated" where
  "object_lines env k [] err = ([], err)"
| "object_lines env k (line # rest) err =
     (if \<not> goes_on env k then ([line], None)
      else if ge_ctx env k \<noteq> None then ([line], None)
      else (case object_lines env (Suc k) rest err of (calls, out) \<Rightarrow> (line # calls, out)))"

definition s3_Lines :: "gen_env \<Rightarrow> go_error + 'a list \<times> go_error option \<Rightarrow> 'a generated" where
  "s3_Lines env body =
     (case body of Inl err \<Rightarrow> ([], Some err) | Inr (ls, err) \<Rightarrow> object_lines env 0 ls err)"

definition gcs_Lines :: "gen_env \<Rightarrow> go_error + 'a list \<times> go_error option \<Rightarrow> 'a generated" where
  "gcs_Lines env body =
     (case body of Inl err \<Rightarrow> ([], Some err) | Inr (ls, err) \<Rightarrow> object_lines env 0 ls err)"

record csvConfig =
  skipHeader :: bool
  comma :: char

definition SkipHeader :: "csvConfig \<Rightarrow> csvConfig" where
  "SkipHeader c = c\<lparr>skipHeader := True\<rparr>"

definition Comma :: "char \<Rightarrow> csvConfig \<Rightarrow> csvConfig" where
  "Comma r c = c\<lparr>comma := r\<rparr>"

text \<open>A row; the end of the file is the end of the list and another error is the second argument.\<close>

fun csv_loop ::
  "csvConfig \<Rightarrow> gen_env \<Rightarrow> nat \<Rightarrow> nat \<Rightarrow> bool \<Rightarrow> 'r list \<Rightarrow> go_error option \<Rightarrow> 'r generated" where
  "csv_loop cfg env j k is_first [] err = (case ge_ctx env j of Some e \<Rightarrow> ([], Some e) | None \<Rightarrow> ([], err))"
| "csv_loop cfg env j k is_first (row # rows) err =
     (case ge_ctx env j of
        Some e \<Rightarrow> ([], Some e)
      | None \<Rightarrow>
          if is_first \<and> skipHeader cfg then csv_loop cfg env (Suc j) k False rows err
          else if \<not> goes_on env k then ([row], None)
          else (case csv_loop cfg env (Suc j) (Suc k) False rows err of (calls, out) \<Rightarrow> (row # calls, out)))"

definition file_CSV ::
  "(csvConfig \<Rightarrow> csvConfig) list \<Rightarrow> (char \<Rightarrow> 'r list \<times> go_error option) \<Rightarrow> gen_env \<Rightarrow> 'r generated" where
  "file_CSV opts reader env =
     (let cfg = fold (\<lambda>opt. opt) opts \<lparr>skipHeader = False, comma = CHR '',''\<rparr>;
          (rows, err) = reader (comma cfg)
      in csv_loop cfg env 0 0 True rows err)"

datatype 'a json_token = JsonValue 'a | JsonBad go_error | JsonClosing | JsonReadError go_error

fun json_More :: "'a json_token list \<Rightarrow> bool" where
  "json_More (JsonValue v # ts) = True"
| "json_More (JsonBad e # ts) = True"
| "json_More (JsonClosing # ts) = False"
| "json_More (JsonReadError e # ts) = False"
| "json_More [] = False"

fun json_Decode :: "'a json_token list \<Rightarrow> go_error + 'a" where
  "json_Decode (JsonValue v # ts) = Inr v"
| "json_Decode (JsonBad e # ts) = Inl e"
| "json_Decode (JsonReadError e # ts) = Inl e"
| "json_Decode _ = Inl (Plain ''EOF'')"

fun file_JSON :: "gen_env \<Rightarrow> nat \<Rightarrow> 'a json_token list \<Rightarrow> 'a generated" where
  "file_JSON env k [] = ([], None)"
| "file_JSON env k (t # ts) =
     (if \<not> json_More (t # ts) then ([], None)
      else case ge_ctx env k of
        Some e \<Rightarrow> ([], Some e)
      | None \<Rightarrow>
          (case json_Decode (t # ts) of
             Inl err \<Rightarrow> ([], Some err)
           | Inr v \<Rightarrow>
               if \<not> goes_on env k then ([v], None)
               else (case file_JSON env (Suc k) ts of (calls, out) \<Rightarrow> (v # calls, out))))"

section \<open>Correctness of the sources with acknowledgements\<close>

lemma serve_yields:
  "serve p env k unmarshal ms = (acts, k', out) \<Longrightarrow>
     k' = k + length (yielded acts) \<and> prefix (map Inr (yielded acts)) (map (unmarshal \<circ> fst) ms)
       \<and> (out = None \<longrightarrow> length (yielded acts) = length ms)"
  by (induction ms arbitrary: k acts k' out)
    (fastforce split: sum.splits if_splits reply.splits option.splits prod.splits)+

text \<open>Every acknowledgement comes with the call of \<^verbatim>\<open>yield\<close> of its message, the refused one apart.\<close>

lemma serve_settles:
  assumes "serve p env k unmarshal ms = (acts, k', out)" and "ack_taken p"
  shows "\<exists>ys zs. yielded acts = ys @ zs \<and> map unmarshal (settled acts) = map Inr ys
     \<and> (ack_refused p \<longrightarrow> zs = []) \<and> (out = None \<longrightarrow> zs = [])
     \<and> (\<not> ack_refused p \<or> out = None \<longrightarrow> (\<forall>i<length ys. goes_on env (k + i)))"
  using assms
proof (induction ms arbitrary: k acts k' out)
  case (Cons d ms)
  obtain msg r where d: "d = (msg, r)" by (cases d)
  show ?case
  proof (cases "unmarshal msg")
    case (Inl err)
    with Cons.prems d show ?thesis by (auto split: option.splits)
  next
    case v: (Inr v)
    show ?thesis
    proof (cases "goes_on env k \<and> r = Replied")
      case True
      obtain acts' k1 out' where rec: "serve p env (Suc k) unmarshal ms = (acts', k1, out')"
        by (metis prod_cases3)
      from Cons.prems d v True rec have eq: "acts = Yield v # Ack msg # acts'" "out = out'" by auto
      from Cons.IH [OF rec Cons.prems(2)] obtain ys zs where
        "yielded acts' = ys @ zs" "map unmarshal (settled acts') = map Inr ys"
        "ack_refused p \<longrightarrow> zs = []" "out' = None \<longrightarrow> zs = []"
        "\<not> ack_refused p \<or> out' = None \<longrightarrow> (\<forall>i<length ys. goes_on env (Suc k + i))" by blast
      with True v eq show ?thesis
        by (intro exI [of _ "v # ys"] exI [of _ zs]) (auto simp: less_Suc_eq_0_disj)
    next
      case False
      with Cons.prems d v consider "\<not> goes_on env k"
        | err ended where "goes_on env k" "r = RequestFailed err ended" by (cases r) auto
      then show ?thesis
      proof cases
        case 1
        with Cons.prems d v show ?thesis
          by (cases "ack_refused p") (auto intro: exI [of _ "[v]"] exI [of _ "[]"])
      next
        case 2
        with Cons.prems d v show ?thesis by (intro exI [of _ "[v]"] exI [of _ "[]"]) auto
      qed
    qed
  qed
qed auto

lemma poll_settles:
  assumes "ack_taken p"
  shows "\<exists>ys zs. yielded (fst (poll_loop p env k unmarshal ps)) = ys @ zs
     \<and> map unmarshal (settled (fst (poll_loop p env k unmarshal ps))) = map Inr ys
     \<and> (ack_refused p \<longrightarrow> zs = []) \<and> (\<not> ack_refused p \<longrightarrow> (\<forall>i<length ys. goes_on env (k + i)))"
proof (induction ps arbitrary: k)
  case (Cons e ps)
  show ?case
  proof (cases e)
    case e: (Polled ms failed)
    obtain acts k' out where s: "serve p env k unmarshal ms = (acts, k', out)"
      by (metis prod_cases3)
    from serve_settles [OF s assms] obtain ys zs where one:
      "yielded acts = ys @ zs" "map unmarshal (settled acts) = map Inr ys" "ack_refused p \<longrightarrow> zs = []"
      "out = None \<longrightarrow> zs = []" "\<not> ack_refused p \<or> out = None \<longrightarrow> (\<forall>i<length ys. goes_on env (k + i))" by blast
    show ?thesis
    proof (cases "out = None \<and> failed = None")
      case True
      with one serve_yields [OF s] have k': "k' = k + length ys" "zs = []" by auto
      from Cons.IH [of k'] obtain ys' zs' where rest:
        "yielded (fst (poll_loop p env k' unmarshal ps)) = ys' @ zs'"
        "map unmarshal (settled (fst (poll_loop p env k' unmarshal ps))) = map Inr ys'"
        "ack_refused p \<longrightarrow> zs' = []" "\<not> ack_refused p \<longrightarrow> (\<forall>i<length ys'. goes_on env (k' + i))" by blast
      have "\<forall>i<length (ys @ ys'). goes_on env (k + i)" if "\<not> ack_refused p"
      proof (intro allI impI)
        fix i assume "i < length (ys @ ys')"
        then show "goes_on env (k + i)"
          using that one(5) rest(4) k' True
          by (cases "i < length ys") (auto simp: not_less add.assoc dest!: le_Suc_ex)
      qed
      with True e s one k' rest show ?thesis
        by (intro exI [of _ "ys @ ys'"] exI [of _ zs']) (simp add: after_def)
    next
      case False
      with e s one show ?thesis
        by (intro exI [of _ ys] exI [of _ zs]) (auto split: option.splits)
    qed
  qed auto
qed auto

text \<open>Messages are decoded and yielded in the order in which the broker has given them.\<close>

fun polled :: "'m poll list \<Rightarrow> 'm list" where
  "polled [] = []"
| "polled (Polled ms failed # ps) = map fst ms @ polled ps"
| "polled (_ # ps) = polled ps"

theorem poll_in_order:
  "prefix (map Inr (yielded (fst (poll_loop p env k unmarshal ps)))) (map unmarshal (polled ps))"
proof (induction ps arbitrary: k)
  case (Cons e ps)
  show ?case
  proof (cases e)
    case e: (Polled ms failed)
    obtain acts k' out where s: "serve p env k unmarshal ms = (acts, k', out)"
      by (metis prod_cases3)
    from serve_yields [OF s] have one: "prefix (map Inr (yielded acts)) (map unmarshal (map fst ms))"
      "out = None \<longrightarrow> length (yielded acts) = length ms" by auto
    show ?thesis
    proof (cases "out = None \<and> failed = None")
      case True
      from one(1) obtain zs where zs: "map unmarshal (map fst ms) = map Inr (yielded acts) @ zs"
        by (auto simp: prefix_def)
      from arg_cong [OF zs, of length] one(2) True have "zs = []" by simp
      with zs have "map Inr (yielded acts) = map unmarshal (map fst ms)" by simp
      with True e s Cons.IH [of k'] show ?thesis by (simp add: after_def)
    next
      case False
      with e s one(1) show ?thesis by (auto split: option.splits)
    qed
  qed auto
qed auto

lemma delete_taken_simps [simp]: "ack_taken delete_taken" "\<not> ack_refused delete_taken"
  by (simp_all add: delete_taken_def)

lemma poll_at_least_once:
  assumes "ack_taken p" and "\<not> ack_refused p"
  shows "prefix (map unmarshal (settled (fst (poll_loop p env 0 unmarshal ps))))
           (map Inr (yielded (fst (poll_loop p env 0 unmarshal ps))))"
    and "i < length (settled (fst (poll_loop p env 0 unmarshal ps))) \<Longrightarrow> goes_on env i"
proof -
  from poll_settles [OF assms(1), of env 0 unmarshal ps] assms(2) obtain ys zs where *:
    "yielded (fst (poll_loop p env 0 unmarshal ps)) = ys @ zs"
    "map unmarshal (settled (fst (poll_loop p env 0 unmarshal ps))) = map Inr ys" "\<forall>i<length ys. goes_on env i"
    by auto
  then have "length (settled (fst (poll_loop p env 0 unmarshal ps))) = length ys"
    by (auto dest: map_eq_imp_length_eq)
  with * show "prefix (map unmarshal (settled (fst (poll_loop p env 0 unmarshal ps))))
           (map Inr (yielded (fst (poll_loop p env 0 unmarshal ps))))"
    and "i < length (settled (fst (poll_loop p env 0 unmarshal ps))) \<Longrightarrow> goes_on env i"
    by auto
qed

lemmas deletes_taken = poll_at_least_once [OF delete_taken_simps]

interpretation sqs: at_least_once "sqs_Receive unmarshal" unmarshal for unmarshal
  by unfold_locales (simp_all only: sqs_Receive_def deletes_taken)

interpretation azsb: at_least_once "azsb_Receive unmarshal" unmarshal for unmarshal
  by unfold_locales (simp_all only: azsb_Receive_def deletes_taken)

subsection \<open>Kafka\<close>

lemma kafka_each_settles:
  "prefix (map unmarshal (settled (fst (kafka_each env k unmarshal es))))
     (map Inr (yielded (fst (kafka_each env k unmarshal es))))
   \<and> (\<forall>i<length (settled (fst (kafka_each env k unmarshal es))). goes_on env (k + i))"
proof (induction env k unmarshal es rule: kafka_each.induct)
  case (3 env k unmarshal msg now later r es)
  then show ?case
    by (auto simp: after_def less_Suc_eq_0_disj split: sum.splits reply.splits)
qed auto

text \<open>What is pending has been yielded, decodes to \<^verbatim>\<open>vs\<close>, and was taken.\<close>

definition kafka_ok ::
  "gen_env \<Rightarrow> nat \<Rightarrow> ('m \<Rightarrow> 'a result) \<Rightarrow> 'a list \<Rightarrow> ('m, 'a) served \<Rightarrow> bool" where
  "kafka_ok env k unmarshal vs sv =
     (prefix (map unmarshal (settled (fst sv))) (map Inr (vs @ yielded (fst sv)))
      \<and> (\<forall>i<length (settled (fst sv)). goes_on env (k - length vs + i)))"

lemma kafka_round:
  assumes "unmarshal msg = Inr v"
  shows "kafka_batched cfg env k unmarshal pending t (Fetched msg now later r # es) =
    (if \<not> goes_on env k then ([Yield v], Some None)
     else let t' = (if pending = [] then now else t) in
       if (batchSize cfg > 1 \<and> int (length (pending @ [msg])) \<ge> batchSize cfg)
         \<or> (batchTimeout cfg > 0 \<and> later - t' \<ge> batchTimeout cfg)
       then (case r of
           RequestFailed err ended \<Rightarrow> ([Yield v, Commit (pending @ [msg])], Some (give_up err ended))
         | Replied \<Rightarrow> after [Yield v, Commit (pending @ [msg])] (kafka_batched cfg env (Suc k) unmarshal [] t' es))
       else after [Yield v] (kafka_batched cfg env (Suc k) unmarshal (pending @ [msg]) t' es))"
  using assms by (simp add: Let_def)

lemma kafka_batched_settles:
  assumes "map unmarshal pending = map Inr vs" and "length vs \<le> k"
    and "\<forall>i<length vs. goes_on env (k - length vs + i)"
  shows "kafka_ok env k unmarshal vs (kafka_batched cfg env k unmarshal pending t es)"
  using assms
proof (induction es arbitrary: k pending t vs)
  case Nil
  then show ?case by (simp add: kafka_ok_def)
next
  case (Cons e es)
  show ?case
  proof (cases e)
    case (FetchFailed err ended)
    then show ?thesis by (simp add: kafka_ok_def)
  next
    case e: (Fetched msg now later r)
    show ?thesis
    proof (cases "unmarshal msg")
      case (Inl err)
      with e show ?thesis by (simp add: kafka_ok_def)
    next
      case v: (Inr v)
      show ?thesis
      proof (cases "goes_on env k")
        case taken: True
        define t' where "t' = (if pending = [] then now else t)"
        have dec: "map unmarshal (pending @ [msg]) = map Inr (vs @ [v])" using Cons.prems(1) v by simp
        have len: "length pending = length vs" using Cons.prems(1) by (auto dest: map_eq_imp_length_eq)
        have all: "\<forall>i<length (vs @ [v]). goes_on env (k - length vs + i)"
          using Cons.prems(2,3) taken by (auto simp: less_Suc_eq)
        have commit: "kafka_ok env k unmarshal vs (after [Yield v, Commit (pending @ [msg])] sv)"
          if sv: "kafka_ok env (Suc k) unmarshal [] sv" for sv
        proof -
          have "goes_on env (k - length vs + i)" if i: "i < length (pending @ [msg]) + length (settled (fst sv))" for i
          proof (cases "i < length (vs @ [v])")
            case False
            then have at: "k - length vs + i = Suc k + (i - length (vs @ [v]))" using Cons.prems(2) by simp
            from sv have "\<forall>j<length (settled (fst sv)). goes_on env (Suc k + j)" by (simp add: kafka_ok_def)
            moreover have "i - length (vs @ [v]) < length (settled (fst sv))" using False i len by simp
            ultimately show ?thesis unfolding at by blast
          qed (use all in simp)
          with sv dec show ?thesis by (simp add: kafka_ok_def)
        qed
        have wait: "kafka_ok env k unmarshal vs (after [Yield v] (kafka_batched cfg env (Suc k) unmarshal (pending @ [msg]) t' es))"
        proof -
          have at: "Suc k - length (vs @ [v]) + i = k - length vs + i" for i using Cons.prems(2) by simp
          have "kafka_ok env (Suc k) unmarshal (vs @ [v])
              (kafka_batched cfg env (Suc k) unmarshal (pending @ [msg]) t' es)"
            by (rule Cons.IH [OF dec]) (use Cons.prems(2) all in \<open>simp_all only: at\<close>, simp)
          then show ?thesis unfolding kafka_ok_def at by simp
        qed
        have last: "kafka_ok env k unmarshal vs ([Yield v, Commit (pending @ [msg])], out)" for out
          using commit [of "([], out)"] by (simp add: kafka_ok_def after_def)
        have again: "kafka_ok env k unmarshal vs
            (after [Yield v, Commit (pending @ [msg])] (kafka_batched cfg env (Suc k) unmarshal [] t' es))"
          by (rule commit, rule Cons.IH) simp_all
        show ?thesis
          unfolding e kafka_round [of unmarshal, OF v] Let_def t'_def [symmetric]
          using taken again wait last by (auto simp only: not_not if_False split: if_split reply.split)
      next
        case False
        with e v show ?thesis by (simp add: kafka_ok_def)
      qed
    qed
  qed
qed

lemma kafka_at_least_once:
  "kafka_ok env 0 unmarshal [] (kafka_Consume cfg unmarshal env es)"
  using kafka_each_settles [of unmarshal env 0 es] kafka_batched_settles [of unmarshal "[]" "[]" 0 env cfg 0 es]
  by (simp add: kafka_Consume_def kafka_ok_def)

interpretation kafka: at_least_once "kafka_Consume cfg unmarshal" unmarshal for cfg unmarshal
  using kafka_at_least_once by unfold_locales (auto simp: kafka_ok_def)

text \<open>
  C14: No committed message has been kept from the pipeline: the values delivered begin with those of the
  committed messages, in every run that has returned, with or without batching.
\<close>

theorem kafka_commits_delivered:
  assumes "source_output env (kafka_Consume cfg unmarshal env es) = Some (out, err)"
  shows "prefix (map unmarshal (settled (fst (kafka_Consume cfg unmarshal env es)))) (map Inr out)"
  using assms by (rule kafka.output_has_settled)

theorem kafka_commits_delivered_witness:
  "prefix (map Inr (settled (fst (kafka_Consume \<lparr>batchSize = 2, batchTimeout = 0\<rparr> Inr calm_env
       [Fetched (1::int) 0 0 Replied, Fetched 2 0 0 Replied, Fetched 3 0 0 Replied, FetchFailed Canceled True]))))
     (map (Inr :: int \<Rightarrow> int result) [1, 2, 3])"
  by (rule kafka_commits_delivered [where err = None])
    (simp add: kafka_Consume_def batching_def source_output_def Generate_calm Let_def)

text \<open>With a batch size, never more messages than that are yielded and not committed.\<close>

lemma kafka_batched_lag:
  assumes "1 < batchSize cfg" and "int (length pending) < batchSize cfg"
  shows "int (length pending + length (yielded (fst (kafka_batched cfg env k unmarshal pending t es))))
    \<le> int (length (settled (fst (kafka_batched cfg env k unmarshal pending t es)))) + batchSize cfg"
  using assms(2)
proof (induction es arbitrary: k pending t)
  case (Cons e es)
  show ?case
  proof (cases e)
    case e: (Fetched msg now later r)
    show ?thesis
    proof (cases "unmarshal msg")
      case v: (Inr v)
      define t' where "t' = (if pending = [] then now else t)"
      have again: "int (length (yielded (fst (kafka_batched cfg env (Suc k) unmarshal [] t' es))))
          \<le> int (length (settled (fst (kafka_batched cfg env (Suc k) unmarshal [] t' es)))) + batchSize cfg"
        using Cons.IH [of "[]" "Suc k" t'] assms(1) by simp
      have wait: "int (Suc (length pending) + length (yielded (fst (kafka_batched cfg env (Suc k) unmarshal (pending @ [msg]) t' es))))
          \<le> int (length (settled (fst (kafka_batched cfg env (Suc k) unmarshal (pending @ [msg]) t' es)))) + batchSize cfg"
        if "\<not> int (Suc (length pending)) \<ge> batchSize cfg"
        using Cons.IH [of "pending @ [msg]" "Suc k" t'] that by simp
      show ?thesis
        using again wait Cons.prems assms(1)
        unfolding e kafka_round [of unmarshal, OF v] t'_def [symmetric]
        by (auto simp: Let_def split: reply.split)
    qed (use Cons.prems e in simp)
  qed (use Cons.prems in simp)
qed simp

theorem kafka_lag_bounded:
  assumes "1 < batchSize cfg"
  shows "int (length (yielded (fst (kafka_Consume cfg unmarshal env es))))
    \<le> int (length (settled (fst (kafka_Consume cfg unmarshal env es)))) + batchSize cfg"
  using kafka_batched_lag [OF assms, of "[]" env 0 unmarshal 0 es] assms
  by (simp add: kafka_Consume_def batching_def)

text \<open>
  Batching does not change what the pipeline gets: as long as no commit fails, both loops yield the same
  values and return the same.
\<close>

fun commits_succeed :: "'m kafka_event \<Rightarrow> bool" where
  "commits_succeed (Fetched msg now later r) = (r = Replied)"
| "commits_succeed (FetchFailed err ended) = True"

lemma kafka_batched_each:
  "list_all commits_succeed es \<Longrightarrow>
     yielded (fst (kafka_batched cfg env k unmarshal pending t es)) = yielded (fst (kafka_each env k unmarshal es))
     \<and> snd (kafka_batched cfg env k unmarshal pending t es) = snd (kafka_each env k unmarshal es)"
proof (induction es arbitrary: k pending t)
  case (Cons e es)
  show ?case
  proof (cases e)
    case e: (Fetched msg now later r)
    show ?thesis
    proof (cases "unmarshal msg")
      case v: (Inr v)
      from Cons show ?thesis unfolding e kafka_round [of unmarshal, OF v] by (simp add: Let_def v)
    qed (use e in simp)
  qed simp
qed simp

theorem kafka_batching_transparent:
  assumes "list_all commits_succeed es"
  shows "source_output env (kafka_Consume cfg unmarshal env es)
       = source_output env (kafka_Consume cfg' unmarshal env es)"
  using kafka_batched_each [OF assms, of cfg env 0 unmarshal "[]" 0]
    kafka_batched_each [OF assms, of cfg' env 0 unmarshal "[]" 0]
  by (simp add: kafka_Consume_def source_output_def)

theorem kafka_batching_transparent_witness:
  "source_output calm_env (kafka_Consume (BatchSize 2 \<lparr>batchSize = 0, batchTimeout = 0\<rparr>) Inr calm_env
      [Fetched (1::int) 0 0 Replied, Fetched 2 0 0 Replied, FetchFailed Canceled True])
     = source_output calm_env (kafka_Consume \<lparr>batchSize = 0, batchTimeout = 0\<rparr> Inr calm_env
      [Fetched 1 0 0 Replied, Fetched 2 0 0 Replied, FetchFailed Canceled True])"
  by (rule kafka_batching_transparent) simp

text \<open>
  The timeout is looked at only when a message has come: on a topic that has fallen silent, what is
  pending stays uncommitted for ever, and is not committed either when the run is cancelled.
\<close>

theorem kafka_timeout_needs_a_message:
  assumes "batchSize cfg \<le> 1" and "later - now < batchTimeout cfg" and "0 < batchTimeout cfg"
    and "unmarshal msg = Inr v" and "goes_on env 0"
  shows "kafka_Consume cfg unmarshal env [Fetched msg now later r] = ([Yield v], None)
       \<and> kafka_Consume cfg unmarshal env [Fetched msg now later r, FetchFailed err True] = ([Yield v], Some None)"
  using assms by (simp add: kafka_Consume_def batching_def after_def)

subsection \<open>Acknowledging what was refused\<close>

lemma ack_always_simps [simp]: "ack_taken ack_always" "ack_refused ack_always"
  by (simp_all add: ack_always_def)

text \<open>
  JetStream, Pulsar, and RabbitMQ without automatic acknowledgement, acknowledge every message whose value they
  have yielded, also the one that \<^verbatim>\<open>yield\<close> refused.
\<close>

theorem acked_are_yielded:
  assumes "ack_taken p" and "ack_refused p"
  shows "map unmarshal (settled (fst (poll_loop p env k unmarshal ps)))
       = map Inr (yielded (fst (poll_loop p env k unmarshal ps)))"
  using poll_settles [OF assms(1), of env k unmarshal ps] assms(2) by auto

theorem acked_are_yielded_witness:
  "map Inr (settled (fst (poll_loop ack_always calm_env 0 Inr [Polled [(1::int, Replied), (2, Replied)] None])))
     = map (Inr :: int \<Rightarrow> int result)
         (yielded (fst (poll_loop ack_always calm_env 0 Inr [Polled [(1, Replied), (2, Replied)] None])))"
  by (rule acked_are_yielded) simp_all

text \<open>
  So the message in flight when the pipeline stops is lost: it is acknowledged, and it was not put into
  the channel. For RabbitMQ the package says that it is nacked and redelivered.
\<close>

theorem refused_message_lost:
  assumes "unmarshal msg = Inr v" and "\<not> sends env 0"
  shows "source_output env (js_Fetch unmarshal env (Polled [(msg, r)] failed # ps)) = Some ([], None)
       \<and> settled (fst (js_Fetch unmarshal env (Polled [(msg, r)] failed # ps))) = [msg]
       \<and> source_output env (nats_Consume None unmarshal env (NextMessage msg r # es)) = Some ([], None)
       \<and> settled (fst (nats_Consume None unmarshal env (NextMessage msg r # es))) = [msg]
       \<and> source_output env (amqp_Consume [] None unmarshal env (AmqpDelivery msg r # ds)) = Some ([], None)
       \<and> settled (fst (amqp_Consume [] None unmarshal env (AmqpDelivery msg r # ds))) = [msg]
       \<and> source_output env (pulsar_Consume unmarshal env (Inr msg # ms)) = Some ([], None)
       \<and> settled (fst (pulsar_Consume unmarshal env (Inr msg # ms))) = [msg]"
proof -
  from assms(2) have "\<not> goes_on env 0" by (auto dest: goes_on_sends)
  with assms show ?thesis
    by (simp add: js_Fetch_def nats_Consume_def amqp_Consume_def amqp_settlement_def amqp_default_def once_def
        pulsar_Consume_def one_message_def ack_always_def source_output_def Generate_def is_canceled_def)
qed

lemma refusing_env: "\<not> sends (stop_env 0) 0"
  by (simp add: sends_def stop_env_def)

theorem refused_message_lost_witness:
  "source_output (stop_env 0) (amqp_Consume [] None Inr (stop_env 0) [AmqpDelivery (7::int) Replied]) = Some ([], None)
   \<and> settled (fst (amqp_Consume [] None Inr (stop_env 0) [AmqpDelivery (7::int) Replied])) = ([7] :: int list)"
  using refused_message_lost [OF _ refusing_env, of Inr "7::int" 7] by simp

text \<open>The options of RabbitMQ: with automatic acknowledgement the source asks the broker for nothing.\<close>

theorem amqp_auto_ack_settles_nothing:
  "settled (fst (amqp_Consume (opts @ [WithAutoAck]) opening unmarshal env es)) = []
   \<and> returned (fst (amqp_Consume (opts @ [WithAutoAck]) opening unmarshal env es)) = []"
proof -
  have serve: "serve p env k unmarshal ms = (acts, k', out) \<Longrightarrow> nak_bad p = None \<Longrightarrow> \<not> ack_refused p \<Longrightarrow> \<not> ack_taken p \<Longrightarrow>
      settled acts = [] \<and> returned acts = []" for p k ms acts k' out
    by (induction ms arbitrary: k acts k' out)
      (fastforce split: sum.splits if_splits prod.splits)+
  have poll: "settled (fst (poll_loop p env k unmarshal ps)) = [] \<and> returned (fst (poll_loop p env k unmarshal ps)) = []"
    if "nak_bad p = None" "\<not> ack_refused p" "\<not> ack_taken p" for p k ps
  proof (induction ps arbitrary: k)
    case (Cons e ps)
    then show ?case
      by (cases e) (auto split: prod.split option.split dest: serve [OF _ that])
  qed simp
  show ?thesis
    by (auto simp: amqp_Consume_def once_def amqp_settlement_def WithAutoAck_def intro!: poll [THEN conjunct1]
        poll [THEN conjunct2] split: option.split)
qed

subsection \<open>Ends that are not reported\<close>

text \<open>
  A WebSocket that the other side closes ends the pipeline without an error whatever the code of the
  close frame says, an internal error (1011) as well as a normal closure (1000).
\<close>

theorem websocket_close_hidden:
  assumes "closeStatus \<noteq> -1"
  shows "ws_Read unmarshal env (Inl (err, False, closeStatus) # es) = ([], Some None)"
  using assms by (simp add: ws_Read_def)

text \<open>An item popped from a Redis list whose \<^verbatim>\<open>yield\<close> is refused is in neither place.\<close>

theorem redis_popped_item_lost:
  assumes "\<not> sends env 0"
  shows "source_output env (redis_FromList_loop env 0 (Inr (Some val) # pops)) = Some ([], None)"
  using assms goes_on_sends [of env 0]
  by (auto simp: source_output_def Generate_def is_canceled_def)

section \<open>Correctness of the paginated reads\<close>

lemma yield_all_calm: "calm env \<Longrightarrow> yield_all env k (\<lambda>x. Inr (f x)) xs = (map f xs, None)"
  by (induction xs arbitrary: k) auto

lemma page_then_calm [simp]:
  "page_then (ys, None) None = None" "page_then (ys, None) (Some (zs, err)) = Some (ys @ zs, err)"
  by (simp_all add: page_then_def)

text \<open>
  The pages of a table, as the client hands them out: the first key, and for each page the key of the
  next one, until the last has none.
\<close>

fun key_chain :: "('key, 'i) page_client \<Rightarrow> 'key option \<Rightarrow> 'i list list \<Rightarrow> bool" where
  "key_chain client key [] = False"
| "key_chain client key (p # ps) =
     (case client key of
        Inl err \<Rightarrow> False
      | Inr (elems, nxt) \<Rightarrow> elems = p \<and> (if nxt = None then ps = [] else key_chain client nxt ps))"

lemma scan_chain:
  "calm env \<Longrightarrow> key_chain client key ps \<Longrightarrow> length ps \<le> fuel \<Longrightarrow>
     scan_loop fuel env k (\<lambda>x. Inr (f x)) client key = Some (map f (concat ps), None)"
proof (induction ps arbitrary: fuel k key)
  case (Cons p ps)
  then obtain fuel' where fuel: "fuel = Suc fuel'" by (cases fuel) auto
  from Cons.prems(2) obtain nxt where nxt: "client key = Inr (p, nxt)"
    "if nxt = None then ps = [] else key_chain client nxt ps"
    by (auto split: sum.splits)
  show ?case
  proof (cases nxt)
    case None
    with nxt Cons.prems(1) show ?thesis by (simp add: fuel yield_all_calm)
  next
    case (Some key')
    with nxt Cons.IH [of nxt fuel' "k + length p"] Cons.prems(1,3) show ?thesis
      by (simp add: fuel yield_all_calm)
  qed
qed simp

text \<open>
  An undisturbed scan yields every item of every page, in order, after one request for each page; it
  begins with the first page whatever start key the caller's input has.
\<close>

theorem dynamo_scan_reads_all:
  assumes "calm env" and "key_chain client None ps" and "length ps \<le> fuel"
  shows "dynamo_Scan fuel (\<lambda>x. Inr (f x)) client startKey env = Some (map f (concat ps), None)
       \<and> dynamo_Query fuel (\<lambda>x. Inr (f x)) client startKey env = Some (map f (concat ps), None)"
  using scan_chain [OF assms] by (simp add: dynamo_Scan_def dynamo_Query_def)

theorem dynamo_scan_reads_all_witness:
  "dynamo_Scan 2 Inr (\<lambda>key. if key = None then Inr ([1::int, 2], Some ''b'') else Inr ([3], None)) (Some ''z'') calm_env
     = Some ([1, 2, 3], None)"
  using dynamo_scan_reads_all [OF calm_calm_env, of "\<lambda>key. if key = None then Inr ([1::int, 2], Some ''b'') else Inr ([3], None)"
      "[[1, 2], [3]]" 2 "\<lambda>x. x" "Some ''z''"] by simp

text \<open>A chain of keys that is a circle is read for ever.\<close>

theorem dynamo_scan_circle:
  assumes "calm env" and "\<And>key. client key = Inr ([], Some k0)"
  shows "dynamo_Scan fuel (\<lambda>x. Inr (f x)) client startKey env = None"
proof -
  have "scan_loop fuel env k (\<lambda>x. Inr (f x)) client key = None" for k key
    by (induction fuel arbitrary: k key) (simp_all add: assms(2))
  then show ?thesis by (simp add: dynamo_Scan_def)
qed

text \<open>URLs: the same with the empty URL as the end.\<close>

fun url_chain :: "(string \<Rightarrow> go_error + 'a list \<times> string) \<Rightarrow> string \<Rightarrow> 'a list list \<Rightarrow> bool" where
  "url_chain get url [] = (url = [])"
| "url_chain get url (p # ps) =
     (url \<noteq> [] \<and> (case get url of Inl err \<Rightarrow> False | Inr (elems, nxt) \<Rightarrow> elems = p \<and> url_chain get nxt ps))"

theorem http_reads_all:
  assumes "calm env" and "url_chain get url ps" and "length ps \<le> fuel"
  shows "http_GetPages fuel env k get url = Some (concat ps, None)"
  using assms(2,3)
proof (induction ps arbitrary: fuel k url)
  case Nil
  then show ?case by (cases fuel) auto
next
  case (Cons p ps)
  then obtain fuel' where fuel: "fuel = Suc fuel'" by (cases fuel) auto
  from Cons.prems(1) obtain nxt where "url \<noteq> []" "get url = Inr (p, nxt)" "url_chain get nxt ps"
    by (auto split: sum.splits)
  with Cons.IH [of nxt fuel' "k + length p"] Cons.prems(2) yield_all_calm [OF assms(1), of k "\<lambda>x. x" p]
  show ?case by (simp add: fuel)
qed

text \<open>
  S3: pages chained by continuation tokens. The objects without a key are left out; every request is
  made with the token of the page before it.
\<close>

fun token_chain :: "('tok option \<Rightarrow> go_error + ('tok, 'o) s3_page) \<Rightarrow> 'tok option \<Rightarrow> 'o list list \<Rightarrow> bool" where
  "token_chain client tok [] = False"
| "token_chain client tok (p # ps) =
     (case client tok of
        Inl err \<Rightarrow> False
      | Inr page \<Rightarrow> List.map_filter (\<lambda>obj. obj) (Contents page) = p
          \<and> (if IsTruncated page = Some True
             then NextContinuationToken page \<noteq> None \<and> token_chain client (NextContinuationToken page) ps
             else ps = []))"

lemma s3_chain:
  assumes "calm env"
  shows "token_chain client (continuationToken p) ps \<Longrightarrow> \<not> started p \<or> continuationToken p \<noteq> None \<Longrightarrow>
     length ps \<le> fuel \<Longrightarrow>
     s3_list_loop fuel env k (\<lambda>x. Inr (f x)) client p = Some (map f (concat ps), None)"
proof (induction ps arbitrary: fuel k p)
  case (Cons q ps)
  then obtain fuel' where fuel: "fuel = Suc fuel'" by (cases fuel) auto
  from Cons.prems(1) obtain page where page: "client (continuationToken p) = Inr page"
    "List.map_filter (\<lambda>obj. obj) (Contents page) = q"
    "if IsTruncated page = Some True
     then NextContinuationToken page \<noteq> None \<and> token_chain client (NextContinuationToken page) ps else ps = []"
    by (auto split: sum.splits)
  have fresh: "\<not> (started p \<and> continuationToken p = None)" using Cons.prems(2) by simp
  show ?case
  proof (cases "IsTruncated page = Some True")
    case True
    with page Cons.IH [of "p\<lparr>started := True, continuationToken := NextContinuationToken page\<rparr>" fuel' "k + length q"]
      Cons.prems(3) fresh
    show ?thesis by (auto simp: fuel pager_next_def Let_def yield_all_calm [OF assms])
  next
    case False
    with page fresh show ?thesis by (auto simp: fuel pager_next_def Let_def yield_all_calm [OF assms])
  qed
qed simp

theorem s3_lists_all:
  assumes "calm env" and "token_chain client None ps" and "length ps \<le> fuel"
  shows "s3_ListObjects fuel Inr (\<lambda>key body. Inr (f key)) client env = Some (map f (concat ps), None)"
  using s3_chain [OF assms(1), of client "\<lparr>continuationToken = None, started = False\<rparr>" ps fuel 0 f] assms(2,3)
  by (simp add: s3_ListObjects_def)

text \<open>Kinesis: the iterators of a shard that is closed.\<close>

fun iter_chain :: "('it \<Rightarrow> (go_error \<times> bool) + 'i list \<times> 'it option \<times> int) \<Rightarrow> 'it option \<Rightarrow> 'i list list \<Rightarrow> bool" where
  "iter_chain client iter [] = (iter = None)"
| "iter_chain client iter (p # ps) =
     (case iter of
        None \<Rightarrow> False
      | Some it \<Rightarrow> (case client it of
            Inl err \<Rightarrow> False
          | Inr (recs, nxt, behind) \<Rightarrow> recs = p \<and> iter_chain client nxt ps))"

theorem kinesis_reads_all:
  assumes "calm env" and "iter_chain client iter ps" and "length ps \<le> fuel"
  shows "kinesis_Consume fuel (\<lambda>_. False) (\<lambda>_. False) (Inr iter) (\<lambda>x. Inr (f x)) client env
       = Some (map f (concat ps), None)"
proof -
  have "kinesis_loop fuel env k j (\<lambda>_. False) (\<lambda>_. False) (\<lambda>x. Inr (f x)) client iter = Some (map f (concat ps), None)"
    for k j
    using assms(2,3)
  proof (induction ps arbitrary: fuel k j iter)
    case (Cons p ps)
    then obtain fuel' where fuel: "fuel = Suc fuel'" by (cases fuel) auto
    from Cons.prems(1) obtain it where it: "iter = Some it" by (cases iter) auto
    with Cons.prems(1) obtain nxt behind where "client it = Inr (p, nxt, behind)" "iter_chain client nxt ps"
      by (cases "client it") auto
    note this it
    with Cons.IH [of nxt fuel' "k + length p" "Suc j"] Cons.prems(2) show ?case
      by (simp add: fuel yield_all_calm [OF assms(1)])
  qed simp
  then show ?thesis by (simp add: kinesis_Consume_def)
qed

text \<open>
  Elasticsearch: when the source returns, the scroll it used last is cleared, whatever the reason; only
  a search whose first answer was not understood leaves one behind.
\<close>

lemma es_loop_scroll:
  assumes "\<And>s sid hits. scroll s = EsBody (Inr (sid, hits)) \<Longrightarrow> sid \<noteq> []"
  shows "es_loop fuel env k unmarshal scroll cur body = Some (g, lastID) \<Longrightarrow>
    cur \<noteq> [] \<or> (\<exists>sid hits. body = Inr (sid, hits) \<and> sid \<noteq> []) \<Longrightarrow>
    (\<And>sid hits. body = Inr (sid, hits) \<Longrightarrow> sid \<noteq> []) \<Longrightarrow> lastID \<noteq> []"
proof (induction fuel arbitrary: k cur body g lastID)
  case (Suc fuel)
  show ?case
  proof (cases body)
    case (Inl err)
    with Suc.prems(1,2) show ?thesis by auto
  next
    case (Inr b)
    obtain sid hits where b: "b = (sid, hits)" by (cases b)
    with Inr Suc.prems(3) have sid: "sid \<noteq> []" by blast
    show ?thesis
    proof (cases "hits = [] \<or> snd (yield_all env k unmarshal hits) \<noteq> None")
      case True
      with Suc.prems(1) Inr b sid show ?thesis
        by (auto split: prod.splits option.splits if_splits)
    next
      case False
      with Suc.prems(1) Inr b sid Suc.IH assms show ?thesis
        by (auto split: prod.splits option.splits es_reply.splits) blast+
    qed
  qed
qed simp

theorem es_scroll_cleared:
  assumes "\<And>s sid hits. scroll s = EsBody (Inr (sid, hits)) \<Longrightarrow> sid \<noteq> []"
    and "es_Search fuel unmarshal (EsBody (Inr (sid, hits))) scroll env = Some (g, cleared)" and "sid \<noteq> []"
  shows "cleared \<noteq> None"
proof -
  from assms(2) obtain lastID where
    run: "es_loop fuel env 0 unmarshal scroll [] (Inr (sid, hits)) = Some (g, lastID)"
    and cleared: "cleared = (if lastID \<noteq> [] then Some lastID else None)"
    by (auto simp: es_Search_def)
  have "lastID \<noteq> []"
    by (rule es_loop_scroll [OF _ run]) (use assms(1,3) in auto)
  with cleared show ?thesis by simp
qed

section \<open>Correctness of the file sources\<close>

theorem file_lines_calm:
  "calm env \<Longrightarrow> file_Lines env k ls err = (ls, err) \<and> object_lines env k ls err = (ls, err)"
  by (induction ls arbitrary: k) auto

lemma csv_loop_calm:
  "calm env \<Longrightarrow> csv_loop cfg env j k b rows err = (if b \<and> skipHeader cfg then drop 1 rows else rows, err)"
  by (induction rows arbitrary: j k b) auto

text \<open>An undisturbed read of a CSV file has all rows, without the first when the header is skipped.\<close>

theorem csv_rows:
  assumes "calm env"
  shows "file_CSV [] reader env = reader (CHR '','')"
    and "file_CSV [SkipHeader] reader env = (drop 1 (fst (reader (CHR '',''))), snd (reader (CHR '','')))"
    and "file_CSV [Comma c] reader env = reader c"
  by (auto simp: file_CSV_def SkipHeader_def Comma_def csv_loop_calm [OF assms] split: prod.split)

text \<open>
  A JSON source whose reader fails between two values ends as if the file had ended: the error is not
  returned.
\<close>

theorem json_read_error_lost:
  assumes "calm env"
  shows "file_JSON env k (map JsonValue vs @ JsonReadError err # ts) = (vs, None)"
  using assms by (induction vs arbitrary: k) auto

theorem json_read_error_lost_witness:
  "file_JSON calm_env 0 [JsonValue (1::int), JsonReadError (Plain ''connection reset'')] = ([1], None)"
  using json_read_error_lost [OF calm_calm_env, of 0 "[1]" "Plain ''connection reset''" "[]"] by simp

end
