(* ===== verification/Pubsub_Source.thy ===== *)
theory Pubsub_Source
  imports Connector_Sources
begin

text \<open>
  \<^verbatim>\<open>kpubsub.Subscribe\<close>: the client calls back in goroutines of its own, a channel of capacity one joins
  them to the loop that yields, and a second channel has the error of \<^verbatim>\<open>Receive\<close>. The relation is one
  step of any of them.
\<close>

section \<open>The goroutines\<close>

datatype ('m, 'a) bridge_item = Good 'a 'm | Bad go_error

text \<open>
  The channel of results, whether a callback is about to cancel, whether the derived context and the
  stage's context have ended, what \<^verbatim>\<open>Receive\<close> has returned and the loop has not read, whether it has
  returned, the number of calls of \<^verbatim>\<open>yield\<close>, the log, and the result of the source.
\<close>

record ('m, 'a) bridge =
  br_ch :: "('m, 'a) bridge_item list"
  br_failing :: bool
  br_cancelled :: bool
  br_ended :: bool
  br_receiveErr :: "go_error option option"
  br_received :: bool
  br_log :: "('m, 'a) broker_act list"
  br_result :: "go_error option option"

definition bridge_init :: "('m, 'a) bridge" where
  "bridge_init = \<lparr>br_ch = [], br_failing = False, br_cancelled = False, br_ended = False, br_receiveErr = None,
     br_received = False, br_log = [], br_result = None\<rparr>"

text \<open>
  The branch of the main loop for a result: \<^verbatim>\<open>yield\<close>, and \<^verbatim>\<open>Ack\<close> whatever it answers. Returning runs the
  deferred \<^verbatim>\<open>cancelReceive\<close>.
\<close>

definition bridge_return :: "go_error option \<Rightarrow> ('m, 'a) bridge \<Rightarrow> ('m, 'a) bridge" where
  "bridge_return err s = s\<lparr>br_result := Some err, br_cancelled := True\<rparr>"

fun bridge_take :: "gen_env \<Rightarrow> ('m, 'a) bridge_item \<Rightarrow> ('m, 'a) bridge \<Rightarrow> ('m, 'a) bridge" where
  "bridge_take env (Bad err) s = bridge_return (Some err) s"
| "bridge_take env (Good v m) s =
     (let s' = s\<lparr>br_log := br_log s @ [Yield v, Ack m]\<rparr> in
      if \<not> goes_on env (length (yielded (br_log s))) then bridge_return None s' else s')"

text \<open>
  The steps: a callback with a message it cannot decode (sends the error, or finds the context
  ended) and its cancellation; a callback with a message it can decode; \<^verbatim>\<open>Receive\<close> returning, which
  waits for the callbacks; the end of the context; and the three arms of the loop's select.
\<close>

inductive bridge_step ::
  "('m \<Rightarrow> 'a result) \<Rightarrow> gen_env \<Rightarrow> ('m, 'a) bridge \<Rightarrow> ('m, 'a) bridge \<Rightarrow> bool"
  for unmarshal :: "'m \<Rightarrow> 'a result" and env :: gen_env where
  bad_sent:
    "\<lbrakk>\<not> br_received s; unmarshal m = Inl err; br_ch s = []\<rbrakk> \<Longrightarrow>
       bridge_step unmarshal env s
         (s\<lparr>br_log := br_log s @ [Nak m True], br_ch := [Bad err], br_failing := True\<rparr>)"
| bad_dropped:
    "\<lbrakk>\<not> br_received s; unmarshal m = Inl err; br_cancelled s\<rbrakk> \<Longrightarrow>
       bridge_step unmarshal env s (s\<lparr>br_log := br_log s @ [Nak m True], br_failing := True\<rparr>)"
| cancel:
    "br_failing s \<Longrightarrow> bridge_step unmarshal env s (s\<lparr>br_failing := False, br_cancelled := True\<rparr>)"
| good_sent:
    "\<lbrakk>\<not> br_received s; unmarshal m = Inr v; br_ch s = []\<rbrakk> \<Longrightarrow>
       bridge_step unmarshal env s (s\<lparr>br_ch := [Good v m]\<rparr>)"
| good_dropped:
    "\<lbrakk>\<not> br_received s; unmarshal m = Inr v; br_cancelled s\<rbrakk> \<Longrightarrow>
       bridge_step unmarshal env s (s\<lparr>br_log := br_log s @ [Nak m True]\<rparr>)"
| receive_cancelled:
    "\<lbrakk>\<not> br_received s; \<not> br_failing s; br_cancelled s\<rbrakk> \<Longrightarrow>
       bridge_step unmarshal env s (s\<lparr>br_received := True, br_receiveErr := Some None\<rparr>)"
| receive_failed:
    "\<lbrakk>\<not> br_received s; \<not> br_failing s\<rbrakk> \<Longrightarrow>
       bridge_step unmarshal env s (s\<lparr>br_received := True, br_receiveErr := Some (Some err)\<rparr>)"
| ctx_ends:
    "bridge_step unmarshal env s (s\<lparr>br_ended := True, br_cancelled := True\<rparr>)"
| main_ended:
    "\<lbrakk>br_result s = None; br_ended s\<rbrakk> \<Longrightarrow> bridge_step unmarshal env s (bridge_return None s)"
| main_take:
    "\<lbrakk>br_result s = None; br_ch s = r # rest\<rbrakk> \<Longrightarrow>
       bridge_step unmarshal env s (bridge_take env r (s\<lparr>br_ch := rest\<rparr>))"
| main_receive:
    "\<lbrakk>br_result s = None; br_receiveErr s = Some err\<rbrakk> \<Longrightarrow>
       bridge_step unmarshal env s
         (bridge_return (if br_cancelled s then None else err) (s\<lparr>br_receiveErr := None\<rparr>))"

inductive bridge_reach :: "('m \<Rightarrow> 'a result) \<Rightarrow> gen_env \<Rightarrow> ('m, 'a) bridge \<Rightarrow> bool"
  for unmarshal :: "'m \<Rightarrow> 'a result" and env :: gen_env where
  start: "bridge_reach unmarshal env bridge_init"
| more: "bridge_reach unmarshal env s \<Longrightarrow> bridge_step unmarshal env s s' \<Longrightarrow> bridge_reach unmarshal env s'"

section \<open>What always holds\<close>

text \<open>
  The decoded messages in the log and the channel are the values yielded, each acknowledged once and
  right after its \<^verbatim>\<open>yield\<close>; a value is yielded after one that was not taken never.
\<close>

fun well_decoded :: "('m \<Rightarrow> 'a result) \<Rightarrow> ('m, 'a) bridge_item \<Rightarrow> bool" where
  "well_decoded unmarshal (Good v m) = (unmarshal m = Inr v)"
| "well_decoded unmarshal (Bad err) = True"

definition bridge_ok :: "('m \<Rightarrow> 'a result) \<Rightarrow> gen_env \<Rightarrow> ('m, 'a) bridge \<Rightarrow> bool" where
  "bridge_ok unmarshal env s =
     (map unmarshal (settled (br_log s)) = map Inr (yielded (br_log s))
      \<and> list_all (well_decoded unmarshal) (br_ch s)
      \<and> (\<forall>i. Suc i < length (yielded (br_log s)) \<longrightarrow> goes_on env i)
      \<and> (br_result s = None \<longrightarrow> (\<forall>i < length (yielded (br_log s)). goes_on env i))
      \<and> (br_result s \<noteq> None \<longrightarrow> br_cancelled s)
      \<and> (br_ended s \<longrightarrow> br_cancelled s)
      \<and> (br_received s \<and> br_result s = None \<longrightarrow> br_receiveErr s \<noteq> None \<and> \<not> br_failing s))"

lemma bridge_ok_step: "bridge_step unmarshal env s s' \<Longrightarrow> bridge_ok unmarshal env s \<Longrightarrow> bridge_ok unmarshal env s'"
proof (induction rule: bridge_step.induct)
  case (main_take s r rest)
  then show ?case
    by (cases r) (auto simp: bridge_ok_def bridge_return_def Let_def less_Suc_eq)
qed (auto simp: bridge_ok_def bridge_return_def)

lemma bridge_reach_ok: "bridge_reach unmarshal env s \<Longrightarrow> bridge_ok unmarshal env s"
proof (induction rule: bridge_reach.induct)
  case start
  show ?case by (simp add: bridge_ok_def bridge_init_def)
qed (rule bridge_ok_step)

theorem bridge_acks_yielded:
  assumes "bridge_reach unmarshal env s"
  shows "map unmarshal (settled (br_log s)) = map Inr (yielded (br_log s))"
  using bridge_reach_ok [OF assms] by (simp add: bridge_ok_def)

text \<open>
  From every state the loop can come to its end once the derived context has ended: a callback that is
  about to cancel does so, \<^verbatim>\<open>Receive\<close> returns, and the loop reads its error.
\<close>

theorem bridge_returns_after_cancel:
  assumes "bridge_reach unmarshal env s" and "br_cancelled s"
  shows "\<exists>s'. (bridge_step unmarshal env)\<^sup>*\<^sup>* s s' \<and> br_result s' \<noteq> None"
proof (cases "br_result s")
  case None
  note ok = bridge_reach_ok [OF assms(1)]
  define s1 where "s1 = (if br_failing s then s\<lparr>br_failing := False, br_cancelled := True\<rparr> else s)"
  have s1: "(bridge_step unmarshal env)\<^sup>*\<^sup>* s s1" "\<not> br_failing s1" "br_cancelled s1" "br_result s1 = None"
      "br_received s1 = br_received s" "br_receiveErr s1 = br_receiveErr s"
    using None assms(2) by (auto simp: s1_def intro: bridge_step.cancel)
  define s2 where "s2 = (if br_received s1 then s1 else s1\<lparr>br_received := True, br_receiveErr := Some None\<rparr>)"
  have s2: "(bridge_step unmarshal env)\<^sup>*\<^sup>* s1 s2" "br_result s2 = None"
    using s1 by (auto simp: s2_def intro: bridge_step.receive_cancelled)
  have "\<exists>err. br_receiveErr s2 = Some err"
    using ok s1 None by (auto simp: s2_def bridge_ok_def)
  then obtain err where "br_receiveErr s2 = Some err" ..
  from bridge_step.main_receive [OF s2(2) this] have
    "(bridge_step unmarshal env)\<^sup>*\<^sup>* s
       (bridge_return (if br_cancelled s2 then None else err) (s2\<lparr>br_receiveErr := None\<rparr>))"
    using s1(1) s2(1) by (meson rtranclp.rtrancl_into_rtrancl rtranclp_trans)
  then show ?thesis by (intro exI conjI) (assumption, simp add: bridge_return_def)
qed blast

theorem bridge_returns_after_cancel_witness:
  "\<exists>s'. (bridge_step (\<lambda>m. Inr (m :: int)) calm_env)\<^sup>*\<^sup>*
     (bridge_init\<lparr>br_ended := True, br_cancelled := True\<rparr>) s' \<and> br_result s' \<noteq> None"
  by (rule bridge_returns_after_cancel [OF bridge_reach.more [OF bridge_reach.start bridge_step.ctx_ends]]) simp

section \<open>A decode error that is lost\<close>

text \<open>
  When a message cannot be decoded, the callback sends the error, cancels, and \<^verbatim>\<open>Receive\<close> returns: if
  the loop comes to its select only then (it was in \<^verbatim>\<open>yield\<close>), both channels are ready, and the one it
  takes decides whether the pipeline fails or ends without an error.
\<close>

theorem decode_error_lost:
  assumes "unmarshal m = Inl err"
  shows "\<exists>s s'. bridge_reach unmarshal env s \<and> \<not> br_ended s \<and> returned (br_log s) = [m] \<and> yielded (br_log s) = []
     \<and> br_result s = Some None \<and> bridge_reach unmarshal env s' \<and> br_result s' = Some (Some err)"
proof -
  note r = bridge_reach.start [of unmarshal env]
  note r = bridge_reach.more [OF r bridge_step.bad_sent [where m = m and err = err]]
  note r = r [simplified bridge_init_def, simplified assms, simplified]
  note r = bridge_reach.more [OF r bridge_step.cancel, simplified]
  note r = bridge_reach.more [OF r bridge_step.receive_cancelled, simplified]
  have a: "bridge_reach unmarshal env (bridge_return None \<lparr>br_ch = [Bad err], br_failing = False, br_cancelled = True,
      br_ended = False, br_receiveErr = None, br_received = True, br_log = [Nak m True], br_result = None\<rparr>)"
    using bridge_reach.more [OF r bridge_step.main_receive [where err = None]] by simp
  have b: "bridge_reach unmarshal env (bridge_return (Some err) \<lparr>br_ch = [], br_failing = False, br_cancelled = True,
      br_ended = False, br_receiveErr = Some None, br_received = True, br_log = [Nak m True], br_result = None\<rparr>)"
    using bridge_reach.more [OF r bridge_step.main_take [where r = "Bad err" and rest = "[]"]] by simp
  show ?thesis
    by (rule exI, rule exI, rule conjI, rule a, rule conjI [rotated], rule conjI [rotated], rule conjI [rotated],
        rule conjI [rotated], rule conjI, rule b) (simp_all add: bridge_return_def)
qed

end
