(* ===== verification/Connector_Sinks.thy ===== *)
theory Connector_Sinks
  imports Connector_Sources Go_Strings "HOL-Library.Multiset"
begin

text \<open>
  The sinks of the connectors under \<^verbatim>\<open>tails/\<close>: functions given to \<^verbatim>\<open>ForEach\<close> that encode an item or a
  batch and send it. The clients are arguments, functions of the number of the request and of what it
  has. A sink returns the requests it has made, in their order, and an error.
\<close>

section \<open>Batches in chunks\<close>

text \<open>\<^verbatim>\<open>for start := 0; start < len(items); start += maxBatch { chunk := items[start:end] ... }\<close>\<close>

function request_chunks :: "nat \<Rightarrow> 'a list \<Rightarrow> 'a list list" where
  "request_chunks maxBatch elems =
     (if elems = [] \<or> maxBatch = 0 then [] else take maxBatch elems # request_chunks maxBatch (drop maxBatch elems))"
  by pat_completeness auto
termination by (relation "measure (length \<circ> snd)") (auto simp: length_greater_0_conv [symmetric] simp del: length_greater_0_conv)

declare request_chunks.simps [simp del]

fun marshal_from :: "(nat \<Rightarrow> 'a \<Rightarrow> 'e result) \<Rightarrow> nat \<Rightarrow> 'a list \<Rightarrow> 'e list result" where
  "marshal_from marshal i [] = Inr []"
| "marshal_from marshal i (x # xs) =
     (case marshal i x of
        Inl err \<Rightarrow> Inl err
      | Inr e \<Rightarrow> map_sum id (\<lambda>es. e # es) (marshal_from marshal (Suc i) xs))"

text \<open>
  The loop over the chunks: encode, send, stop at the first error. \<^verbatim>\<open>send\<close> has the number of requests
  made before and answers with the requests it has made; \<^verbatim>\<open>None\<close> is a send that is still going.
\<close>

type_synonym 'e sent_requests = "'e list list \<times> go_error option"

fun send_chunks ::
  "nat \<Rightarrow> (nat \<Rightarrow> 'a \<Rightarrow> 'e result) \<Rightarrow> (nat \<Rightarrow> 'e list \<Rightarrow> 'e sent_requests option) \<Rightarrow> nat \<Rightarrow> nat \<Rightarrow> 'a list list \<Rightarrow>
     'e sent_requests option" where
  "send_chunks maxBatch marshal send j from_i [] = Some ([], None)"
| "send_chunks maxBatch marshal send j from_i (chunk # rest) =
     (case marshal_from marshal from_i chunk of
        Inl err \<Rightarrow> Some ([], Some err)
      | Inr entries \<Rightarrow>
          (case send j entries of
             None \<Rightarrow> None
           | Some (reqs, Some err) \<Rightarrow> Some (reqs, Some err)
           | Some (reqs, None) \<Rightarrow>
               map_option (\<lambda>(reqs', out). (reqs @ reqs', out))
                 (send_chunks maxBatch marshal send (j + length reqs) (from_i + maxBatch) rest)))"

subsection \<open>SQS and Kinesis\<close>

text \<open>
  SQS: entries are numbered by their place in the batch, and the first failed one is reported. A
  failure is its ID, code and message; the client answers a request with those that failed.
\<close>

definition sqs_maxBatch :: nat where "sqs_maxBatch = 10"

definition sqs_failure :: "string \<times> string \<times> string \<Rightarrow> go_error" where
  "sqs_failure f =
     (case f of (i, code, msg) \<Rightarrow>
        Plain (''ksqs: SendMessageBatch partial failure: id='' @ i @ '' code='' @ code @ '' message='' @ msg))"

definition sqs_send ::
  "(nat \<Rightarrow> 'e list \<Rightarrow> go_error + (string \<times> string \<times> string) list) \<Rightarrow> nat \<Rightarrow> 'e list \<Rightarrow> 'e sent_requests option" where
  "sqs_send client j entries =
     Some ([entries],
       (case client j entries of Inl err \<Rightarrow> Some err | Inr [] \<Rightarrow> None | Inr (f # fs) \<Rightarrow> Some (sqs_failure f)))"

definition sqs_SendBatch ::
  "('a \<Rightarrow> 'b result) \<Rightarrow> (nat \<Rightarrow> (nat \<times> 'b) list \<Rightarrow> go_error + (string \<times> string \<times> string) list) \<Rightarrow> 'a list \<Rightarrow>
     (nat \<times> 'b) sent_requests option" where
  "sqs_SendBatch marshal client elems =
     send_chunks sqs_maxBatch (\<lambda>i x. map_sum id (Pair i) (marshal x)) (sqs_send client) 0 0
       (request_chunks sqs_maxBatch elems)"

text \<open>Kinesis: the answer counts the failed records and has, for each record, its error if it has one.\<close>

definition kinesis_maxBatch :: nat where "kinesis_maxBatch = 500"

definition kinesis_failure :: "string \<times> string \<Rightarrow> go_error" where
  "kinesis_failure f =
     (case f of (code, msg) \<Rightarrow>
        Plain (''kkinesis: PutRecords partial failure: code='' @ code @ '' message='' @ msg))"

fun first_record_error :: "(string \<times> string) option list \<Rightarrow> go_error option" where
  "first_record_error [] = None"
| "first_record_error (None # rs) = first_record_error rs"
| "first_record_error (Some f # rs) = Some (kinesis_failure f)"

definition kinesis_send ::
  "(nat \<Rightarrow> 'e list \<Rightarrow> go_error + int \<times> (string \<times> string) option list) \<Rightarrow> nat \<Rightarrow> 'e list \<Rightarrow> 'e sent_requests option" where
  "kinesis_send client j entries =
     Some ([entries],
       (case client j entries of
          Inl err \<Rightarrow> Some err
        | Inr (failedCount, recs) \<Rightarrow> if failedCount > 0 then first_record_error recs else None))"

definition kinesis_Produce ::
  "('a \<Rightarrow> 'e result) \<Rightarrow> (nat \<Rightarrow> 'e list \<Rightarrow> go_error + int \<times> (string \<times> string) option list) \<Rightarrow> 'a list \<Rightarrow>
     'e sent_requests option" where
  "kinesis_Produce marshal client elems =
     send_chunks kinesis_maxBatch (\<lambda>_. marshal) (kinesis_send client) 0 0 (request_chunks kinesis_maxBatch elems)"

subsection \<open>DynamoDB\<close>

text \<open>
  The inner loop sends what is left until nothing is left, and gives up when a request has written
  nothing. One unit of fuel is one request.
\<close>

definition dynamo_maxBatch :: nat where "dynamo_maxBatch = 25"

definition dynamo_unprocessed :: "nat \<Rightarrow> go_error" where
  "dynamo_unprocessed n =
     Plain (''kdynamo: BatchWriteItem: '' @ show_nat n @ '' items unprocessed (possible throttling)'')"

fun batch_write_loop ::
  "nat \<Rightarrow> (nat \<Rightarrow> 'w list \<Rightarrow> go_error + 'w list) \<Rightarrow> nat \<Rightarrow> 'w list \<Rightarrow> 'w sent_requests option" where
  "batch_write_loop fuel client j [] = Some ([], None)"
| "batch_write_loop 0 client j (w # ws) = None"
| "batch_write_loop (Suc fuel) client j (w # ws) =
     (case client j (w # ws) of
        Inl err \<Rightarrow> Some ([w # ws], Some err)
      | Inr unprocessed \<Rightarrow>
          if unprocessed = [] then Some ([w # ws], None)
          else if length unprocessed = length (w # ws) then Some ([w # ws], Some (dynamo_unprocessed (length unprocessed)))
          else map_option (\<lambda>(reqs, out). ((w # ws) # reqs, out))
                 (batch_write_loop fuel client (Suc j) unprocessed))"

definition dynamo_BatchWrite ::
  "nat \<Rightarrow> ('a \<Rightarrow> 'w result) \<Rightarrow> (nat \<Rightarrow> 'w list \<Rightarrow> go_error + 'w list) \<Rightarrow> 'a list \<Rightarrow> 'w sent_requests option" where
  "dynamo_BatchWrite fuel marshal client elems =
     send_chunks dynamo_maxBatch (\<lambda>_. marshal) (batch_write_loop fuel client) 0 0 (request_chunks dynamo_maxBatch elems)"

section \<open>Event Hubs\<close>

text \<open>
  The client makes a batch (the \<^verbatim>\<open>j\<close>-th may fail), adds an event to one, which may be full, and sends
  it. The loop sends a full batch and puts the event into a new one.
\<close>

datatype add_result = Added | TooLarge | AddFailed go_error

definition ErrEventDataTooLarge :: go_error where
  "ErrEventDataTooLarge = Plain ''azeventhubs: the EventData could not be added because it is too large for the batch''"

definition add_error :: "add_result \<Rightarrow> go_error option" where
  "add_error r = (case r of Added \<Rightarrow> None | TooLarge \<Rightarrow> Some ErrEventDataTooLarge | AddFailed err \<Rightarrow> Some err)"

record 'e hub_client =
  hub_new :: "nat \<Rightarrow> go_error option"
  hub_add :: "'e list \<Rightarrow> 'e \<Rightarrow> add_result"
  hub_send :: "nat \<Rightarrow> 'e list \<Rightarrow> go_error option"

fun hub_loop :: "('a \<Rightarrow> 'e result) \<Rightarrow> 'e hub_client \<Rightarrow> nat \<Rightarrow> 'e list \<Rightarrow> 'a list \<Rightarrow> 'e sent_requests" where
  "hub_loop marshal cl j batch [] = (if batch \<noteq> [] then ([batch], hub_send cl j batch) else ([], None))"
| "hub_loop marshal cl j batch (x # xs) =
     (case marshal x of
        Inl err \<Rightarrow> ([], Some err)
      | Inr ev \<Rightarrow>
          (case hub_add cl batch ev of
             Added \<Rightarrow> hub_loop marshal cl j (batch @ [ev]) xs
           | AddFailed err \<Rightarrow> ([], Some err)
           | TooLarge \<Rightarrow>
               (case hub_send cl j batch of
                  Some err \<Rightarrow> ([batch], Some err)
                | None \<Rightarrow>
                    (case hub_new cl (Suc j) of
                       Some err \<Rightarrow> ([batch], Some err)
                     | None \<Rightarrow>
                         (case add_error (hub_add cl [] ev) of
                            Some err \<Rightarrow> ([batch], Some err)
                          | None \<Rightarrow>
                              (case hub_loop marshal cl (Suc j) [ev] xs of
                                 (reqs, out) \<Rightarrow> (batch # reqs, out)))))))"

definition azeh_ProduceBatch :: "('a \<Rightarrow> 'e result) \<Rightarrow> 'e hub_client \<Rightarrow> 'a list \<Rightarrow> 'e sent_requests" where
  "azeh_ProduceBatch marshal cl elems =
     (case hub_new cl 0 of Some err \<Rightarrow> ([], Some err) | None \<Rightarrow> hub_loop marshal cl 0 [] elems)"

definition azeh_Produce :: "('a \<Rightarrow> 'e result) \<Rightarrow> 'e hub_client \<Rightarrow> 'a \<Rightarrow> 'e sent_requests" where
  "azeh_Produce marshal cl x =
     (case marshal x of
        Inl err \<Rightarrow> ([], Some err)
      | Inr ev \<Rightarrow>
          (case hub_new cl 0 of
             Some err \<Rightarrow> ([], Some err)
           | None \<Rightarrow>
               (case add_error (hub_add cl [] ev) of
                  Some err \<Rightarrow> ([], Some err)
                | None \<Rightarrow> ([[ev]], hub_send cl 0 [ev]))))"

section \<open>One item at a time\<close>

text \<open>
  Encode and send: \<^verbatim>\<open>kkafka.Produce\<close>, \<^verbatim>\<open>ksqs.Send\<close>, \<^verbatim>\<open>kazsb.Send\<close>, \<^verbatim>\<open>knats.Publish\<close>, \<^verbatim>\<open>JetStreamPublish\<close>,
  \<^verbatim>\<open>kjetstream.PutKV\<close>, \<^verbatim>\<open>kamqp.Publish\<close>, \<^verbatim>\<open>kmqtt.Publish\<close> and \<^verbatim>\<open>kpubsub.Publish\<close> (which waits for the result).
\<close>

definition send_one :: "('a \<Rightarrow> 'e result) \<Rightarrow> ('e \<Rightarrow> go_error option) \<Rightarrow> 'a \<Rightarrow> 'e list \<times> go_error option" where
  "send_one marshal send x = (case marshal x of Inl err \<Rightarrow> ([], Some err) | Inr e \<Rightarrow> ([e], send e))"

definition kafka_Produce :: "('a \<Rightarrow> 'e result) \<Rightarrow> ('e \<Rightarrow> go_error option) \<Rightarrow> 'a \<Rightarrow> 'e list \<times> go_error option" where
  "kafka_Produce marshal WriteMessages x = send_one marshal WriteMessages x"

definition sqs_Send :: "('a \<Rightarrow> 'e result) \<Rightarrow> ('e \<Rightarrow> go_error option) \<Rightarrow> 'a \<Rightarrow> 'e list \<times> go_error option" where
  "sqs_Send marshal SendMessage x = send_one marshal SendMessage x"

definition azsb_Send :: "('a \<Rightarrow> 'e result) \<Rightarrow> ('e \<Rightarrow> go_error option) \<Rightarrow> 'a \<Rightarrow> 'e list \<times> go_error option" where
  "azsb_Send marshal SendMessage x = send_one marshal SendMessage x"

definition nats_Publish :: "('a \<Rightarrow> 'e result) \<Rightarrow> ('e \<Rightarrow> go_error option) \<Rightarrow> 'a \<Rightarrow> 'e list \<times> go_error option" where
  "nats_Publish marshal Publish x = send_one marshal Publish x"

definition nats_JetStreamPublish :: "('a \<Rightarrow> 'e result) \<Rightarrow> ('e \<Rightarrow> go_error option) \<Rightarrow> 'a \<Rightarrow> 'e list \<times> go_error option" where
  "nats_JetStreamPublish marshal Publish x = send_one marshal Publish x"

definition js_PutKV ::
  "('a \<Rightarrow> string) \<Rightarrow> ('a \<Rightarrow> 'b result) \<Rightarrow> (string \<times> 'b \<Rightarrow> go_error option) \<Rightarrow> 'a \<Rightarrow> (string \<times> 'b) list \<times> go_error option" where
  "js_PutKV key marshal Put x = send_one (\<lambda>x. map_sum id (Pair (key x)) (marshal x)) Put x"

definition amqp_Publish :: "('a \<Rightarrow> 'e result) \<Rightarrow> ('e \<Rightarrow> go_error option) \<Rightarrow> 'a \<Rightarrow> 'e list \<times> go_error option" where
  "amqp_Publish marshal PublishWithContext x = send_one marshal PublishWithContext x"

definition mqtt_Publish :: "('a \<Rightarrow> 'e result) \<Rightarrow> ('e \<Rightarrow> go_error option) \<Rightarrow> 'a \<Rightarrow> 'e list \<times> go_error option" where
  "mqtt_Publish marshal Publish x = send_one marshal Publish x"

definition pubsub_Publish :: "('a \<Rightarrow> 'e result) \<Rightarrow> ('e \<Rightarrow> go_error option) \<Rightarrow> 'a \<Rightarrow> 'e list \<times> go_error option" where
  "pubsub_Publish marshal PublishGet x = send_one marshal PublishGet x"

definition pulsar_Produce :: "('a \<Rightarrow> 'e result) \<Rightarrow> ('e \<Rightarrow> go_error option) \<Rightarrow> 'a \<Rightarrow> 'e list \<times> go_error option" where
  "pulsar_Produce marshal Send x = send_one marshal Send x"

definition ws_Write :: "('a \<Rightarrow> 'e result) \<Rightarrow> ('e \<Rightarrow> go_error option) \<Rightarrow> 'a \<Rightarrow> 'e list \<times> go_error option" where
  "ws_Write marshal Write x = send_one marshal Write x"

definition grpc_Send :: "('e \<Rightarrow> go_error option) \<Rightarrow> 'e \<Rightarrow> 'e list \<times> go_error option" where
  "grpc_Send Send x = send_one Inr Send x"

definition redis_ListPush :: "('e \<Rightarrow> go_error option) \<Rightarrow> 'e \<Rightarrow> 'e list \<times> go_error option" where
  "redis_ListPush RPush x = send_one Inr RPush x"

definition postgres_Insert :: "('a \<Rightarrow> 'v list) \<Rightarrow> ('v list \<Rightarrow> go_error option) \<Rightarrow> 'a \<Rightarrow> 'v list list \<times> go_error option" where
  "postgres_Insert args poolExec x = send_one (Inr \<circ> args) poolExec x"

text \<open>
  A bulk load into Postgres takes a connection of the pool and gives it back; into ClickHouse it fills a
  prepared batch and sends it, and an item that cannot be appended leaves the batch unsent.
\<close>

definition postgres_CopyFrom ::
  "('a \<Rightarrow> 'v list) \<Rightarrow> go_error option \<Rightarrow> ('v list list \<Rightarrow> go_error option) \<Rightarrow> 'a list \<Rightarrow>
     'v list sent_requests" where
  "postgres_CopyFrom row acquire copy_from batch =
     (let rows = map row batch in
      case acquire of Some err \<Rightarrow> ([], Some err) | None \<Rightarrow> ([rows], copy_from rows))"

fun batch_append :: "('r \<Rightarrow> go_error option) \<Rightarrow> 'r list \<Rightarrow> go_error option" where
  "batch_append append_row [] = None"
| "batch_append append_row (r # rs) = (case append_row r of Some err \<Rightarrow> Some err | None \<Rightarrow> batch_append append_row rs)"

definition clickhouse_Insert ::
  "('a \<Rightarrow> 'v list) \<Rightarrow> go_error option \<Rightarrow> ('v list \<Rightarrow> go_error option) \<Rightarrow> ('v list list \<Rightarrow> go_error option) \<Rightarrow> 'a list \<Rightarrow>
     'v list sent_requests" where
  "clickhouse_Insert marshal prepare append_row send elems =
     (case prepare of
        Some err \<Rightarrow> ([], Some err)
      | None \<Rightarrow>
          (case batch_append append_row (map marshal elems) of
             Some err \<Rightarrow> ([], Some err)
           | None \<Rightarrow> ([map marshal elems], send (map marshal elems))))"

definition mongo_InsertMany :: "('a \<Rightarrow> 'e result) \<Rightarrow> ('e list \<Rightarrow> go_error option) \<Rightarrow> 'a list \<Rightarrow> 'e sent_requests" where
  "mongo_InsertMany marshal InsertMany elems = send_one (marshal_from (\<lambda>_. marshal) 0) InsertMany elems"

text \<open>HTTP: the request, its answer's status, and an error from 400 on.\<close>

definition http_Post ::
  "('a \<Rightarrow> 'b result) \<Rightarrow> ('b \<Rightarrow> go_error + int \<times> string) \<Rightarrow> 'a \<Rightarrow> 'b list \<times> go_error option" where
  "http_Post marshal post x =
     send_one marshal
       (\<lambda>body. case post body of
          Inl err \<Rightarrow> Some err
        | Inr (code, st) \<Rightarrow> if code \<ge> 400 then Some (Plain st) else None) x"

section \<open>JetStream's asynchronous publishing\<close>

text \<open>
  The sink's only state is the count since the last flush. The log has the publishes and the waits
  for all acknowledgements; a wait may end with the context instead.
\<close>

datatype 'e pub_act = Published 'e | Flushed | FlushGaveUp

definition js_flush :: "go_error option \<Rightarrow> 'e pub_act list \<times> go_error option" where
  "js_flush ctx = (case ctx of None \<Rightarrow> ([Flushed], None) | Some err \<Rightarrow> ([FlushGaveUp], Some err))"

definition js_async_sink ::
  "int \<Rightarrow> ('a \<Rightarrow> 'e result) \<Rightarrow> ('e \<Rightarrow> go_error option) \<Rightarrow> int \<Rightarrow> go_error option \<Rightarrow> 'a \<Rightarrow>
     int \<times> 'e pub_act list \<times> go_error option" where
  "js_async_sink flushEvery marshal publish cnt ctx x =
     (case marshal x of
        Inl err \<Rightarrow> (cnt, [], Some err)
      | Inr e \<Rightarrow>
          (case publish e of
             Some err \<Rightarrow> (cnt, [], Some err)
           | None \<Rightarrow>
               (let cnt' = cnt + 1 in
                if cnt' \<ge> flushEvery then (case js_flush ctx of (acts, err) \<Rightarrow> (0, Published e # acts, err))
                else (cnt', [Published e], None))))"

text \<open>A run of the sink: \<^verbatim>\<open>ForEach\<close> stops at its first error.\<close>

fun js_async_run ::
  "int \<Rightarrow> ('a \<Rightarrow> 'e result) \<Rightarrow> ('e \<Rightarrow> go_error option) \<Rightarrow> int \<Rightarrow> (go_error option \<times> 'a) list \<Rightarrow>
     int \<times> 'e pub_act list \<times> go_error option" where
  "js_async_run flushEvery marshal publish cnt [] = (cnt, [], None)"
| "js_async_run flushEvery marshal publish cnt ((ctx, x) # xs) =
     (case js_async_sink flushEvery marshal publish cnt ctx x of
        (cnt', acts, Some err) \<Rightarrow> (cnt', acts, Some err)
      | (cnt', acts, None) \<Rightarrow>
          (case js_async_run flushEvery marshal publish cnt' xs of
             (cnt'', acts', out) \<Rightarrow> (cnt'', acts @ acts', out)))"

definition outstanding :: "'e pub_act list \<Rightarrow> nat \<Rightarrow> nat" where
  "outstanding acts n = fold (\<lambda>a n. case a of Published e \<Rightarrow> Suc n | Flushed \<Rightarrow> 0 | FlushGaveUp \<Rightarrow> n) acts n"

section \<open>Objects, rows and documents\<close>

text \<open>
  Cloud Storage: \<^verbatim>\<open>write\<close> puts bytes into the writer and may fail. The writer's \<^verbatim>\<open>Close\<close> is the client's: an
  argument that takes the name and the bytes written and acts on the bucket.
\<close>

definition gcs_Upload ::
  "('s \<Rightarrow> string \<Rightarrow> 'b list \<Rightarrow> 's \<times> go_error option) \<Rightarrow> ('a \<Rightarrow> string) \<Rightarrow> ('a \<Rightarrow> 'b list \<times> go_error option) \<Rightarrow>
     go_error option \<Rightarrow> 'a \<Rightarrow> 's \<Rightarrow> 's \<times> go_error option" where
  "gcs_Upload close_writer key put newErr x bucket =
     (case newErr of
        Some err \<Rightarrow> (bucket, Some err)
      | None \<Rightarrow>
          (case put x of
             (written, Some err) \<Rightarrow> (fst (close_writer bucket (key x) written), Some err)
           | (written, None) \<Rightarrow> close_writer bucket (key x) written))"

text \<open>The statements of \<^verbatim>\<open>ksqlite\<close> with their arguments.\<close>

definition sqlite_Insert ::
  "(string \<times> 'v list \<Rightarrow> go_error option) \<Rightarrow> string \<Rightarrow> string list \<Rightarrow> ('a \<Rightarrow> 'v list) \<Rightarrow> 'a \<Rightarrow>
     (string \<times> 'v list) list \<times> go_error option" where
  "sqlite_Insert db_exec table columns values x =
     (let placeholders = replicate (length columns) ''?'';
          query = ''INSERT INTO '' @ table @ '' ('' @ strings_Join columns '', '' @ '') VALUES ('' @
                    strings_Join placeholders '', '' @ '')''
      in ([(query, values x)], db_exec (query, values x)))"

definition sqlite_BatchInsert ::
  "(string \<times> 'v list \<Rightarrow> go_error option) \<Rightarrow> string \<Rightarrow> string list \<Rightarrow> ('a \<Rightarrow> 'v list) \<Rightarrow> 'a list \<Rightarrow>
     (string \<times> 'v list) list \<times> go_error option" where
  "sqlite_BatchInsert db_exec table columns values batch =
     (if batch = [] then ([], None)
      else
        (let placeholders = replicate (length columns) ''?'';
             rowPlaceholder = ''('' @ strings_Join placeholders '', '' @ '')'';
             rows = map (\<lambda>_. rowPlaceholder) batch;
             args = concat (map values batch);
             query = ''INSERT INTO '' @ table @ '' ('' @ strings_Join columns '', '' @ '') VALUES '' @
                       strings_Join rows '', ''
         in ([(query, args)], db_exec (query, args))))"

text \<open>
  Elasticsearch: two lines for a document, the action with its ID if it has one, and the document. The
  encoding of the action is an argument. The answer says whether there are errors and, for each item,
  the errors of its entries.
\<close>

fun bulk_body ::
  "(string option \<Rightarrow> string result) \<Rightarrow> ('a \<Rightarrow> go_error + string \<times> string) \<Rightarrow> 'a list \<Rightarrow> string result" where
  "bulk_body action_json marshal [] = Inr []"
| "bulk_body action_json marshal (x # xs) =
     (case marshal x of
        Inl err \<Rightarrow> Inl err
      | Inr (i, doc) \<Rightarrow>
          (case action_json (if i \<noteq> [] then Some i else None) of
             Inl err \<Rightarrow> Inl err
           | Inr action \<Rightarrow>
               map_sum id (\<lambda>rest. action @ [CHR 0x0A] @ doc @ [CHR 0x0A] @ rest)
                 (bulk_body action_json marshal xs)))"

datatype bulk_reply =
    BulkFailed go_error
  | BulkStatus string string
  | BulkBody "go_error + bool \<times> (string \<times> string) option list list"

definition bulk_failure :: "string \<times> string \<Rightarrow> go_error" where
  "bulk_failure f = (case f of (ty, reason) \<Rightarrow> Plain (''kes: Bulk item error: '' @ ty @ '': '' @ reason))"

fun first_bulk_error :: "(string \<times> string) option list \<Rightarrow> go_error option" where
  "first_bulk_error [] = None"
| "first_bulk_error (None # vs) = first_bulk_error vs"
| "first_bulk_error (Some f # vs) = Some (bulk_failure f)"

definition es_Bulk ::
  "(string option \<Rightarrow> string result) \<Rightarrow> ('a \<Rightarrow> go_error + string \<times> string) \<Rightarrow> (string \<Rightarrow> bulk_reply) \<Rightarrow> 'a list \<Rightarrow>
     string list \<times> go_error option" where
  "es_Bulk action_json marshal bulk elems =
     send_one (bulk_body action_json marshal)
       (\<lambda>buf. case bulk buf of
          BulkFailed err \<Rightarrow> Some err
        | BulkStatus st body \<Rightarrow> Some (Plain (''kes: Bulk: '' @ st @ '': '' @ body))
        | BulkBody (Inl err) \<Rightarrow> Some err
        | BulkBody (Inr (errors, res)) \<Rightarrow> if errors then first_bulk_error (concat res) else None) elems"

section \<open>Files\<close>

text \<open>
  The CSV sink: whether the header is written, the rows in the buffer of the writer, those in the file,
  and the error the buffer keeps. \<^verbatim>\<open>flushed\<close> is the error of the flush, if it fails.
\<close>

record 'r csv_sink =
  headerWritten :: bool
  csv_buffer :: "'r list"
  csv_file :: "'r list"
  csv_error :: "go_error option"

definition csv_sink_init :: "'r option \<Rightarrow> 'r csv_sink" where
  "csv_sink_init header = \<lparr>headerWritten = (header = None), csv_buffer = [], csv_file = [], csv_error = None\<rparr>"

definition csv_Write :: "('r \<Rightarrow> go_error option) \<Rightarrow> 'r \<Rightarrow> 'r csv_sink \<Rightarrow> 'r csv_sink \<times> go_error option" where
  "csv_Write bad row s =
     (case bad row of
        Some err \<Rightarrow> (s, Some err)
      | None \<Rightarrow>
          (case csv_error s of
             Some err \<Rightarrow> (s, Some err)
           | None \<Rightarrow> (s\<lparr>csv_buffer := csv_buffer s @ [row]\<rparr>, None)))"

definition csv_Flush :: "go_error option \<Rightarrow> 'r csv_sink \<Rightarrow> 'r csv_sink" where
  "csv_Flush flushed s =
     (case csv_error s of
        Some err \<Rightarrow> s
      | None \<Rightarrow>
          (case flushed of
             Some err \<Rightarrow> s\<lparr>csv_error := Some err\<rparr>
           | None \<Rightarrow> s\<lparr>csv_file := csv_file s @ csv_buffer s, csv_buffer := []\<rparr>))"

definition WriteCSV ::
  "('r \<Rightarrow> go_error option) \<Rightarrow> 'r option \<Rightarrow> go_error option \<Rightarrow> 'r \<Rightarrow> 'r csv_sink \<Rightarrow> 'r csv_sink \<times> go_error option" where
  "WriteCSV bad header flushed row s =
     (case (if headerWritten s then (s, None)
            else case csv_Write bad (the header) s of
                (s', Some err) \<Rightarrow> (s', Some err)
              | (s', None) \<Rightarrow> (s'\<lparr>headerWritten := True\<rparr>, None)) of
        (s1, Some err) \<Rightarrow> (s1, Some err)
      | (s1, None) \<Rightarrow>
          (case csv_Write bad row s1 of
             (s2, Some err) \<Rightarrow> (s2, Some err)
           | (s2, None) \<Rightarrow> (let s3 = csv_Flush flushed s2 in (s3, csv_error s3))))"

section \<open>What the batch sinks send\<close>

lemma request_chunks_Nil [simp]: "request_chunks m [] = []"
  by (subst request_chunks.simps) simp

lemma request_chunks_rest: "xs \<noteq> [] \<Longrightarrow> 0 < m \<Longrightarrow> request_chunks m xs = take m xs # request_chunks m (drop m xs)"
  by (subst request_chunks.simps) simp

lemma marshal_from_Inr: "marshal_from (\<lambda>i x. Inr (g i x)) i xs = Inr (map (\<lambda>(i, x). g i x) (enumerate i xs))"
  by (induction xs arbitrary: i) auto

lemma marshal_each: "marshal_from (\<lambda>_ x. Inr (f x)) i xs = Inr (map f xs)"
  by (induction xs arbitrary: i) auto

lemma enumerate_Nil_iff [simp]: "(enumerate i xs = []) = (xs = [])"
  by (cases xs) auto

lemma enumerate_chunk:
  "map h (enumerate i xs) = map h (enumerate i (take m xs)) @ map h (enumerate (i + m) (drop m xs))"
proof (cases "length xs \<le> m")
  case False
  have "enumerate i (take m xs @ drop m xs) = enumerate i (take m xs) @ enumerate (i + m) (drop m xs)"
    by (subst enumerate_append_eq) (use False in simp)
  then show ?thesis by simp
qed simp

text \<open>
  A send that is one request: what is sent is a beginning of the batch, in chunks of at most the limit,
  and all of it when there is no error.
\<close>

definition sends_prefix :: "nat \<Rightarrow> 'e list \<Rightarrow> 'e sent_requests \<Rightarrow> bool" where
  "sends_prefix m es r =
     (prefix (concat (fst r)) es \<and> list_all (\<lambda>req. 0 < length req \<and> length req \<le> m) (fst r)
      \<and> (snd r = None \<longrightarrow> concat (fst r) = es))"

lemma send_chunks_prefix:
  assumes "0 < m" and "\<And>j es. send j es = Some ([es], v j es)"
  shows "\<exists>r. send_chunks m (\<lambda>i x. Inr (g i x)) send j i (request_chunks m xs) = Some r
     \<and> sends_prefix m (map (\<lambda>(i, x). g i x) (enumerate i xs)) r"
  using assms(1)
proof (induction m xs arbitrary: j i rule: request_chunks.induct)
  case (1 m xs)
  show ?case
  proof (cases "xs = []")
    case True
    then show ?thesis by (simp add: sends_prefix_def)
  next
    case False
    let ?es = "map (\<lambda>(i, x). g i x) (enumerate i (take m xs))"
    have len: "0 < length ?es" "length ?es \<le> m" using False "1.prems" by simp_all
    show ?thesis
    proof (cases "v j ?es")
      case (Some err)
      with False "1.prems" len show ?thesis
        by (subst enumerate_chunk [where m = m])
          (simp add: request_chunks_rest marshal_from_Inr assms(2) sends_prefix_def)
    next
      case None
      from "1.IH" [of "Suc j" "i + m"] False "1.prems" obtain r where
        r: "send_chunks m (\<lambda>i x. Inr (g i x)) send (Suc j) (i + m) (request_chunks m (drop m xs)) = Some r"
          "sends_prefix m (map (\<lambda>(i, x). g i x) (enumerate (i + m) (drop m xs))) r" by auto
      with None False "1.prems" len show ?thesis
        by (subst enumerate_chunk [where m = m])
          (auto simp: request_chunks_rest marshal_from_Inr assms(2) sends_prefix_def split: prod.splits)
    qed
  qed
qed

theorem sqs_batch_sent:
  assumes "sqs_SendBatch (\<lambda>x. Inr (f x)) client elems = Some (reqs, out)"
  shows "prefix (concat reqs) (enumerate 0 (map f elems))
       \<and> list_all (\<lambda>req. 0 < length req \<and> length req \<le> 10) reqs
       \<and> (out \<noteq> None \<or> concat reqs = enumerate 0 (map f elems))"
proof -
  have "map (\<lambda>(i, x). (i, f x)) (enumerate i xs) = enumerate i (map f xs)" for i xs
    by (induction xs arbitrary: i) auto
  with send_chunks_prefix [of sqs_maxBatch "sqs_send client" _ "\<lambda>i x. (i, f x)" 0 0 elems] assms
  show ?thesis
    by (auto simp: sqs_SendBatch_def sqs_send_def sqs_maxBatch_def sends_prefix_def)
qed

theorem sqs_batch_sent_witness:
  "sqs_SendBatch Inr (\<lambda>j es. Inr []) [0..<12] = Some ([enumerate 0 [0..<10], [(10, 10), (11, 11)]], None)
   \<and> prefix (concat [enumerate 0 [0..<10], [(10, 10), (11, 11::nat)]]) (enumerate 0 [0..<12])"
proof -
  have run: "sqs_SendBatch (\<lambda>x. Inr x) (\<lambda>j es. Inr []) [0..<12] = Some ([enumerate 0 [0..<10], [(10, 10), (11, 11::nat)]], None)"
    by (simp add: sqs_SendBatch_def sqs_maxBatch_def sqs_send_def request_chunks_rest upt_rec)
  with sqs_batch_sent [OF this] show ?thesis by simp
qed

theorem kinesis_batch_sent:
  assumes "kinesis_Produce (\<lambda>x. Inr (f x)) client elems = Some (reqs, out)"
  shows "prefix (concat reqs) (map f elems)
       \<and> list_all (\<lambda>req. 0 < length req \<and> length req \<le> 500) reqs
       \<and> (out \<noteq> None \<or> concat reqs = map f elems)"
proof -
  have "map (\<lambda>(i, x). f x) (enumerate i xs) = map f xs" for i xs
    by (induction xs arbitrary: i) auto
  with send_chunks_prefix [of kinesis_maxBatch "kinesis_send client" _ "\<lambda>i x. f x" 0 0 elems] assms
  show ?thesis
    by (auto simp: kinesis_Produce_def kinesis_send_def kinesis_maxBatch_def sends_prefix_def)
qed

lemma first_record_error_None: "(first_record_error rs = None) = list_all (\<lambda>r. r = None) rs"
  by (induction rs rule: first_record_error.induct) auto

subsection \<open>DynamoDB\<close>

text \<open>What the requests have written, by the answers of the client.\<close>

fun put_by :: "(nat \<Rightarrow> 'w list \<Rightarrow> go_error + 'w list) \<Rightarrow> nat \<Rightarrow> 'w list list \<Rightarrow> 'w multiset" where
  "put_by client j [] = {#}"
| "put_by client j (req # reqs) =
     (case client j req of Inl err \<Rightarrow> {#} | Inr unprocessed \<Rightarrow> mset req - mset unprocessed)
       + put_by client (Suc j) reqs"

lemma put_by_append: "put_by client j (as @ bs) = put_by client j as + put_by client (j + length as) bs"
  by (induction as arbitrary: j) (auto simp: ac_simps)

text \<open>
  The documented behaviour of the client: what it leaves unprocessed is part of the request.
\<close>

definition leaves_part :: "(nat \<Rightarrow> 'w list \<Rightarrow> go_error + 'w list) \<Rightarrow> bool" where
  "leaves_part client =
     (\<forall>j req unprocessed. client j req = Inr unprocessed \<longrightarrow> mset unprocessed \<subseteq># mset req)"

lemma batch_write_returns:
  assumes "leaves_part client" and "length ws \<le> fuel"
  shows "\<exists>reqs out. batch_write_loop fuel client j ws = Some (reqs, out) \<and> length reqs \<le> length ws
     \<and> (out = None \<longrightarrow> put_by client j reqs = mset ws)"
  using assms(2)
proof (induction fuel arbitrary: j ws)
  case (Suc fuel)
  show ?case
  proof (cases ws)
    case ws: (Cons w rest)
    show ?thesis
    proof (cases "client j ws")
      case (Inl err)
      with ws show ?thesis by simp
    next
      case ok: (Inr unp)
      with assms(1) have sub: "mset unp \<subseteq># mset ws" by (simp add: leaves_part_def)
      from size_mset_mono [OF sub] have le: "length unp \<le> length ws" by simp
      consider "unp = []" | "unp \<noteq> []" "length unp = length ws" | "unp \<noteq> []" "length unp < length ws"
        using le by linarith
      then show ?thesis
      proof cases
        case 3
        with Suc.IH [of unp "Suc j"] Suc.prems obtain reqs out where
          rec: "batch_write_loop fuel client (Suc j) unp = Some (reqs, out)" "length reqs \<le> length unp"
            "out = None \<longrightarrow> put_by client (Suc j) reqs = mset unp" by auto
        have "batch_write_loop (Suc fuel) client j ws = Some (ws # reqs, out)"
          using ok 3 rec(1) by (simp add: ws)
        moreover have "out = None \<longrightarrow> put_by client j (ws # reqs) = mset ws"
          using ok rec(3) sub by simp
        ultimately show ?thesis using rec(2) 3(2) by auto
      qed (use ok ws in simp_all)
    qed
  qed simp
qed simp

lemma dynamo_chunks_written:
  assumes "leaves_part client" and "m \<le> fuel" and "0 < m"
  shows "\<exists>reqs out. send_chunks m (\<lambda>_ x. Inr (f x)) (batch_write_loop fuel client) j i (request_chunks m xs) = Some (reqs, out)
     \<and> length reqs \<le> length xs \<and> (out = None \<longrightarrow> put_by client j reqs = mset (map f xs))"
  using assms(2,3)
proof (induction m xs arbitrary: j i rule: request_chunks.induct)
  case (1 m xs)
  show ?case
  proof (cases "xs = []")
    case False
    let ?es = "map f (take m xs)"
    have enc: "marshal_from (\<lambda>_ x. Inr (f x)) i (take m xs) = Inr ?es"
      by (rule marshal_each)
    have "length ?es \<le> fuel" using "1.prems" by simp
    from batch_write_returns [OF assms(1) this, of j] obtain reqs out where
        one: "batch_write_loop fuel client j ?es = Some (reqs, out)"
        "length reqs \<le> length ?es" "out = None \<longrightarrow> put_by client j reqs = mset ?es"
      by blast
    obtain reqs' out' where rest:
        "send_chunks m (\<lambda>_ x. Inr (f x)) (batch_write_loop fuel client) (j + length reqs) (i + m) (request_chunks m (drop m xs))
           = Some (reqs', out')"
        "length reqs' \<le> length (drop m xs)"
        "out' = None \<longrightarrow> put_by client (j + length reqs) reqs' = mset (map f (drop m xs))"
      using "1.IH" [of "j + length reqs" "i + m"] False "1.prems" by blast
    have split: "mset (map f xs) = mset ?es + mset (map f (drop m xs))"
      by (metis append_take_drop_id map_append mset_append)
    have len: "length reqs + length reqs' \<le> length xs"
      using one(2) rest(2) by simp linarith
    show ?thesis
    proof (cases out)
      case (Some err)
      with one enc False "1.prems" show ?thesis
        by (simp add: request_chunks_rest)
    next
      case None
      then have "send_chunks m (\<lambda>_ x. Inr (f x)) (batch_write_loop fuel client) j i (request_chunks m xs) = Some (reqs @ reqs', out')"
        using one enc False "1.prems" rest(1) by (simp add: request_chunks_rest)
      moreover have "out' = None \<longrightarrow> put_by client j (reqs @ reqs') = mset (map f xs)"
        using None one(3) rest(3) unfolding put_by_append split by simp
      ultimately show ?thesis using len by auto
    qed
  qed simp
qed

text \<open>
  C35: The sink always returns, after no more requests than there are items; when it reports no error,
  every item has been written exactly once.
\<close>

theorem dynamo_writes_all:
  assumes "leaves_part client" and "25 \<le> fuel"
  shows "\<exists>reqs out. dynamo_BatchWrite fuel (\<lambda>x. Inr (f x)) client elems = Some (reqs, out)
     \<and> length reqs \<le> length elems \<and> (out \<noteq> None \<or> put_by client 0 reqs = mset (map f elems))"
  using dynamo_chunks_written [OF assms(1), of dynamo_maxBatch fuel f 0 0 elems] assms(2)
  by (auto simp: dynamo_BatchWrite_def dynamo_maxBatch_def)

theorem dynamo_writes_all_witness:
  "\<exists>reqs out. dynamo_BatchWrite 25 (\<lambda>x. Inr (x + 1)) (\<lambda>j req. Inr (tl req)) [1::int, 2, 3] = Some (reqs, out)
     \<and> length reqs \<le> 3"
proof -
  have part: "leaves_part (\<lambda>j (req :: int list). Inr (tl req))"
    unfolding leaves_part_def
  proof (intro allI impI)
    fix j :: nat and req unp :: "int list"
    assume "Inr (tl req) = (Inr unp :: go_error + int list)"
    then show "mset unp \<subseteq># mset req" by (cases req) auto
  qed
  from dynamo_writes_all [OF part, of 25 "\<lambda>x. x + 1" "[1, 2, 3]"] show ?thesis by auto
qed

text \<open>
  The documentation says that unprocessed items are retried once. They are retried as long as every
  request writes something, and not at all when the first one writes nothing.
\<close>

theorem dynamo_retries:
  "dynamo_BatchWrite 25 Inr (\<lambda>j req. Inr (tl req)) [1::int, 2, 3] = Some ([[1, 2, 3], [2, 3], [3]], None)
   \<and> dynamo_BatchWrite 25 Inr (\<lambda>j req. Inr req) [1::int, 2, 3] = Some ([[1, 2, 3]], Some (dynamo_unprocessed 3))"
  by (simp add: dynamo_BatchWrite_def dynamo_maxBatch_def request_chunks_rest eval_nat_numeral)

subsection \<open>Event Hubs\<close>

text \<open>A batch that was filled by additions the client has accepted.\<close>

fun fits_from :: "'e hub_client \<Rightarrow> 'e list \<Rightarrow> 'e list \<Rightarrow> bool" where
  "fits_from cl acc [] = True"
| "fits_from cl acc (e # es) = (hub_add cl acc e = Added \<and> fits_from cl (acc @ [e]) es)"

lemma fits_from_snoc:
  "fits_from cl acc (es @ [e]) = (fits_from cl acc es \<and> hub_add cl (acc @ es) e = Added)"
  by (induction es arbitrary: acc) auto

lemma hub_loop_sent:
  "fits_from cl [] batch \<Longrightarrow> hub_loop (\<lambda>x. Inr (f x)) cl j batch xs = (reqs, out) \<Longrightarrow>
     prefix (concat reqs) (batch @ map f xs) \<and> list_all (fits_from cl []) reqs
     \<and> (out = None \<longrightarrow> concat reqs = batch @ map f xs)"
proof (induction xs arbitrary: j batch reqs out)
  case Nil
  then show ?case by (auto split: if_splits)
next
  case (Cons x xs)
  show ?case
  proof (cases "hub_add cl batch (f x)")
    case Added
    with Cons.IH [of "batch @ [f x]" j reqs out] Cons.prems show ?thesis by (simp add: fits_from_snoc)
  next
    case (AddFailed err)
    with Cons.prems show ?thesis by auto
  next
    case TooLarge
    show ?thesis
    proof (cases "hub_send cl j batch = None \<and> hub_new cl (Suc j) = None \<and> add_error (hub_add cl [] (f x)) = None")
      case True
      obtain reqs' out' where rec: "hub_loop (\<lambda>x. Inr (f x)) cl (Suc j) [f x] xs = (reqs', out')" by fastforce
      from True have "fits_from cl [] [f x]" by (simp add: add_error_def split: add_result.splits)
      from Cons.IH [OF this rec] Cons.prems TooLarge True rec show ?thesis by auto
    next
      case False
      with Cons.prems TooLarge show ?thesis by (auto split: option.splits)
    qed
  qed
qed

text \<open>
  The events are sent in their order, in batches that respect the limit of the client, and all of them
  when there is no error.
\<close>

theorem hub_batches_sent:
  assumes "azeh_ProduceBatch (\<lambda>x. Inr (f x)) cl elems = (reqs, out)"
  shows "prefix (concat reqs) (map f elems) \<and> list_all (fits_from cl []) reqs
       \<and> (out \<noteq> None \<or> concat reqs = map f elems)"
proof (cases "hub_new cl 0")
  case None
  with assms hub_loop_sent [of cl "[]" f 0 elems reqs out] show ?thesis
    by (auto simp: azeh_ProduceBatch_def)
next
  case (Some err)
  with assms have "reqs = []" "out = Some err" by (auto simp: azeh_ProduceBatch_def)
  then show ?thesis by simp
qed

theorem hub_batches_sent_witness:
  "azeh_ProduceBatch Inr \<lparr>hub_new = (\<lambda>_. None), hub_add = (\<lambda>b e. if length b < 2 then Added else TooLarge),
      hub_send = (\<lambda>_ _. None)\<rparr> [1::int, 2, 3] = ([[1, 2], [3]], None)
   \<and> prefix (concat [[1, 2], [3::int]]) [1, 2, 3]"
proof -
  let ?cl = "\<lparr>hub_new = (\<lambda>_. None), hub_add = (\<lambda>b e. if length b < 2 then Added else TooLarge),
      hub_send = (\<lambda>_ _. None)\<rparr> :: int hub_client"
  have run: "azeh_ProduceBatch (\<lambda>x. Inr x) ?cl [1, 2, 3] = ([[1, 2], [3]], None)"
    by (simp add: azeh_ProduceBatch_def add_error_def)
  with hub_batches_sent [OF run] show ?thesis by simp
qed

text \<open>An event that is too large for an empty batch: the loop sends the empty batch before it says so.\<close>

theorem hub_sends_empty_batch:
  assumes "hub_new cl 0 = None" and "hub_add cl [] (f x) = TooLarge"
  shows "fst (azeh_ProduceBatch (\<lambda>x. Inr (f x)) cl (x # xs)) = [[]]"
  using assms by (auto simp: azeh_ProduceBatch_def add_error_def split: option.split)

section \<open>What the other sinks do\<close>

lemma outstanding_simps [simp]:
  "outstanding [] n = n" "outstanding (Published e # as) n = outstanding as (Suc n)"
  "outstanding (Flushed # as) n = outstanding as 0" "outstanding (FlushGaveUp # as) n = outstanding as n"
  by (simp_all add: outstanding_def)

text \<open>
  Between flushes never more publishes are without an answer than \<^verbatim>\<open>flushEvery\<close>, and after a run without
  error the count is their number.
\<close>

lemma js_async_bound:
  assumes "0 < flushEvery" and "0 \<le> cnt" and "cnt < flushEvery"
    and "js_async_run flushEvery marshal publish cnt xs = (cnt', acts, out)"
  shows "(prefix pre acts \<longrightarrow> outstanding pre (nat cnt) \<le> nat flushEvery)
     \<and> (out = None \<longrightarrow> outstanding acts (nat cnt) = nat cnt' \<and> 0 \<le> cnt' \<and> cnt' < flushEvery)"
  using assms(2-)
proof (induction xs arbitrary: cnt cnt' acts out pre)
  case Nil
  then show ?case using assms(1) by auto
next
  case (Cons y xs)
  obtain ctx x where y: "y = (ctx, x)" by (cases y)
  show ?case
  proof (cases "marshal x")
    case (Inl err)
    with Cons.prems y show ?thesis by (auto simp: js_async_sink_def)
  next
    case e: (Inr e)
    show ?thesis
    proof (cases "publish e")
      case (Some err)
      with Cons.prems y e show ?thesis by (auto simp: js_async_sink_def)
    next
      case sent: None
      have step: "nat (cnt + 1) = Suc (nat cnt)" using Cons.prems(1) by simp
      show ?thesis
      proof (cases "cnt + 1 \<ge> flushEvery")
        case full: True
        show ?thesis
        proof (cases ctx)
          case (Some err)
          with Cons.prems y e sent full show ?thesis
            by (auto simp: js_async_sink_def js_flush_def prefix_Cons)
        next
          case None
          obtain c a r where rec: "js_async_run flushEvery marshal publish 0 xs = (c, a, r)"
            by (metis prod_cases3)
          from Cons.prems(3) y e sent full None rec have eq: "acts = Published e # Flushed # a" "out = r" "cnt' = c"
            by (auto simp: js_async_sink_def js_flush_def)
          have "outstanding pre (nat cnt) \<le> nat flushEvery" if pre: "prefix pre acts"
          proof (cases "length pre \<le> 1")
            case True
            with pre eq Cons.prems(1,2) show ?thesis by (cases pre) auto
          next
            case False
            with pre eq obtain q where "pre = Published e # Flushed # q" "prefix q a"
              by (auto simp: prefix_Cons)
            with Cons.IH [OF _ _ rec, of q] assms(1) show ?thesis by simp
          qed
          with Cons.IH [OF _ _ rec] assms(1) eq show ?thesis by simp
        qed
      next
        case False
        obtain c a r where rec: "js_async_run flushEvery marshal publish (cnt + 1) xs = (c, a, r)"
          by (metis prod_cases3)
        from Cons.prems(3) y e sent False rec have eq: "acts = Published e # a" "out = r" "cnt' = c"
          by (auto simp: js_async_sink_def Let_def)
        have "outstanding pre (nat cnt) \<le> nat flushEvery" if pre: "prefix pre acts"
        proof (cases pre)
          case Nil
          with Cons.prems(1,2) show ?thesis by simp
        next
          case (Cons b q)
          with pre eq have "b = Published e" "prefix q a" by auto
          with Cons Cons.IH [OF _ _ rec, of q] Cons.prems(1) False step show ?thesis by simp
        qed
        with Cons.IH [OF _ _ rec] Cons.prems(1) False eq step show ?thesis by simp
      qed
    qed
  qed
qed

theorem js_async_never_exceeds:
  assumes "0 < flushEvery" and "js_async_run flushEvery marshal publish 0 xs = (cnt, acts, out)"
    and "prefix pre acts"
  shows "outstanding pre 0 \<le> nat flushEvery"
  using js_async_bound [OF assms(1) _ assms(1,2), of pre] assms(3) by simp

text \<open>
  An upload whose \<^verbatim>\<open>write\<close> fails is not abandoned: over a service whose \<^verbatim>\<open>Close\<close> finalises the object with
  the bytes written, what was there is replaced by the part.
\<close>

theorem failed_upload_published:
  assumes "\<And>b k bytes. close_writer b k bytes = (b(k \<mapsto> bytes), None)" and "put x = (part, Some err)"
  shows "fst (gcs_Upload close_writer key put None x bucket) (key x) = Some part"
  using assms by (simp add: gcs_Upload_def)

theorem failed_upload_published_witness:
  "fst (gcs_Upload (\<lambda>b k bytes. (b(k \<mapsto> bytes), None)) (\<lambda>_. ''k'') (\<lambda>x. ([x], Some (Plain ''disk''))) None (1::int)
      [''k'' \<mapsto> [1, 2]]) ''k'' = Some [1]"
  using failed_upload_published [where close_writer = "\<lambda>b k bytes. (b(k \<mapsto> bytes), None)" and key = "\<lambda>_. ''k''"
      and put = "\<lambda>x. ([x], Some (Plain ''disk''))" and x = "1::int" and part = "[1]" and err = "Plain ''disk''"
      and bucket = "[''k'' \<mapsto> [1, 2]]"] by simp

text \<open>The statement of a batch insert has one placeholder for each of its arguments.\<close>

lemma count_list_append: "count_list (xs @ ys) c = count_list xs c + count_list ys c"
  by (induction xs) auto

lemma count_join:
  "c \<notin> set sep \<Longrightarrow> count_list (strings_Join xs sep) c = sum_list (map (\<lambda>x. count_list x c) xs)"
  by (induction xs sep rule: strings_Join.induct) (auto simp: count_list_append count_notin)

theorem batch_insert_placeholders:
  assumes "batch \<noteq> []" and "list_all (\<lambda>x. length (values x) = length columns) batch"
    and "CHR ''?'' \<notin> set table" and "list_all (\<lambda>c. CHR ''?'' \<notin> set c) columns"
    and "fst (sqlite_BatchInsert db_exec table columns values batch) = [(query, args)]"
  shows "count_list query (CHR ''?'') = length args"
proof -
  have row: "count_list (strings_Join (replicate n ''?'') '', '') (CHR ''?'') = n" for n
    by (simp add: count_join map_replicate_const sum_list_replicate)
  have cols: "count_list (strings_Join columns '', '') (CHR ''?'') = 0"
    using assms(4) by (induction columns) (auto simp: count_join count_notin)
  have rows: "sum_list (map (\<lambda>_. length columns) batch) = sum_list (map (\<lambda>x. length (values x)) batch)"
    using assms(2) by (intro arg_cong [where f = sum_list]) (auto simp: list_all_iff)
  show ?thesis
    using assms(1,3,5) row cols rows
    by (auto simp: sqlite_BatchInsert_def Let_def count_list_append count_join count_notin o_def length_concat)
qed

theorem batch_insert_placeholders_witness:
  "case hd (fst (sqlite_BatchInsert (\<lambda>_. None) ''t'' [''a'', ''b''] (\<lambda>n. [n, n + 1]) [1::int, 2])) of
     (query, args) \<Rightarrow> count_list query (CHR ''?'') = length args \<and> length args = 4"
proof -
  obtain query args where
    run: "fst (sqlite_BatchInsert (\<lambda>_. None) ''t'' [''a'', ''b''] (\<lambda>n. [n, n + 1]) [1::int, 2]) = [(query, args)]"
    by (simp add: sqlite_BatchInsert_def Let_def)
  then have "length args = 4" by (auto simp: sqlite_BatchInsert_def Let_def)
  with batch_insert_placeholders [OF _ _ _ _ run] run show ?thesis by simp
qed

text \<open>The body of a bulk request has two lines for each document that has no line break itself.\<close>

theorem bulk_body_lines:
  assumes "\<And>i action. action_json i = Inr action \<Longrightarrow> CHR 0x0A \<notin> set action"
    and "\<And>x i doc. marshal x = Inr (i, doc) \<Longrightarrow> CHR 0x0A \<notin> set doc"
    and "bulk_body action_json marshal xs = Inr body"
  shows "count_list body (CHR 0x0A) = 2 * length xs"
  using assms(3)
proof (induction xs arbitrary: body)
  case (Cons x xs)
  then obtain i doc action rest where
    "marshal x = Inr (i, doc)" "action_json (if i \<noteq> [] then Some i else None) = Inr action"
    "bulk_body action_json marshal xs = Inr rest" "body = action @ [CHR 0x0A] @ doc @ [CHR 0x0A] @ rest"
    by (cases "bulk_body action_json marshal xs") (auto split: sum.splits prod.splits)
  with Cons.IH [of rest] assms(1,2) show ?case by (simp add: count_list_append count_notin)
qed simp

text \<open>The CSV sink: the header once, then the rows in their order.\<close>

fun csv_run :: "('r \<Rightarrow> go_error option) \<Rightarrow> 'r option \<Rightarrow> (go_error option \<times> 'r) list \<Rightarrow> 'r csv_sink \<Rightarrow> 'r csv_sink \<times> go_error option" where
  "csv_run bad header [] s = (s, None)"
| "csv_run bad header ((flushed, row) # rows) s =
     (case WriteCSV bad header flushed row s of
        (s', Some err) \<Rightarrow> (s', Some err)
      | (s', None) \<Rightarrow> csv_run bad header rows s')"

lemma csv_run_started:
  "headerWritten s \<Longrightarrow> csv_buffer s = [] \<Longrightarrow> csv_error s = None \<Longrightarrow> csv_run bad header rows s = (s', None) \<Longrightarrow>
     csv_file s' = csv_file s @ map snd rows"
proof (induction rows arbitrary: s)
  case (Cons y rows)
  obtain flushed row where y: "y = (flushed, row)" by (cases y)
  from Cons.prems y have ok: "bad row = None" "flushed = None"
    by (auto simp: WriteCSV_def csv_Write_def csv_Flush_def Let_def split: option.splits)
  with Cons.IH [of "s\<lparr>csv_file := csv_file s @ [row], csv_buffer := []\<rparr>"] Cons.prems y show ?case
    by (simp add: WriteCSV_def csv_Write_def csv_Flush_def Let_def)
qed simp

theorem csv_header_once:
  assumes "csv_run bad header rows (csv_sink_init header) = (s, None)" and "rows \<noteq> []"
  shows "csv_file s = (case header of None \<Rightarrow> [] | Some h \<Rightarrow> [h]) @ map snd rows"
proof (cases header)
  case None
  with assms csv_run_started [of "csv_sink_init header" bad header rows s] show ?thesis
    by (simp add: csv_sink_init_def)
next
  case (Some h)
  from assms(2) obtain flushed row rest where rows: "rows = (flushed, row) # rest"
    by (cases rows) auto
  from assms(1) Some rows have ok: "bad h = None" "bad row = None" "flushed = None"
    by (auto simp: csv_sink_init_def WriteCSV_def csv_Write_def csv_Flush_def Let_def split: option.splits)
  with assms(1) Some rows
    csv_run_started [of "\<lparr>headerWritten = True, csv_buffer = [], csv_file = [h, row], csv_error = None\<rparr>" bad header rest s]
  show ?thesis by (simp add: csv_sink_init_def WriteCSV_def csv_Write_def csv_Flush_def Let_def)
qed

theorem csv_header_once_witness:
  "csv_file (fst (csv_run (\<lambda>_. None) (Some ''h'') [(None, ''a''), (None, ''b'')] (csv_sink_init (Some ''h''))))
     = [''h'', ''a'', ''b'']"
proof -
  obtain s where run: "csv_run (\<lambda>_. None) (Some ''h'') [(None, ''a''), (None, ''b'')] (csv_sink_init (Some ''h'')) = (s, None)"
    by (simp add: csv_sink_init_def WriteCSV_def csv_Write_def csv_Flush_def Let_def)
  from csv_header_once [OF run] run show ?thesis by simp
qed

end
