(* ===== verification/Redis_Backends.thy ===== *)
theory Redis_Backends
  imports Stores Key_Sets
begin

text \<open>
  \<^verbatim>\<open>tails/kredis\<close>: \<^verbatim>\<open>Store\<close>, \<^verbatim>\<open>Cache\<close> and \<^verbatim>\<open>DedupSet\<close> over a Redis server. The server is an argument: what
  it answers to \<^verbatim>\<open>GET\<close>, \<^verbatim>\<open>SET\<close>, \<^verbatim>\<open>DEL\<close>, \<^verbatim>\<open>SISMEMBER\<close> and \<^verbatim>\<open>SADD\<close>, \<^verbatim>\<open>None\<close> being \<^verbatim>\<open>redis.Nil\<close>.
\<close>

section \<open>The clients\<close>

record ('r, 'b) redis_server =
  cmd_get :: "'r \<Rightarrow> string \<Rightarrow> go_error + 'b option"
  cmd_set :: "'r \<Rightarrow> string \<Rightarrow> 'b \<Rightarrow> duration \<Rightarrow> 'r \<times> go_error option"
  cmd_del :: "'r \<Rightarrow> string \<Rightarrow> 'r \<times> go_error option"
  cmd_sismember :: "'r \<Rightarrow> string \<Rightarrow> string \<Rightarrow> go_error + bool"
  cmd_sadd :: "'r \<Rightarrow> string \<Rightarrow> string \<Rightarrow> 'r \<times> go_error option"

text \<open>The value, whether it was found, and the error.\<close>

definition redis_Get ::
  "('r, 'b) redis_server \<Rightarrow> string \<Rightarrow> 'r \<Rightarrow> string \<Rightarrow> 'b option \<times> bool \<times> go_error option" where
  "redis_Get srv pre r key =
     (case cmd_get srv r (pre @ key) of
        Inr None \<Rightarrow> (None, False, None)
      | Inl err \<Rightarrow> (None, False, Some err)
      | Inr (Some val) \<Rightarrow> (Some val, True, None))"

definition redis_store_Set ::
  "('r, 'b) redis_server \<Rightarrow> string \<Rightarrow> 'r \<Rightarrow> string \<Rightarrow> 'b \<Rightarrow> 'r \<times> go_error option" where
  "redis_store_Set srv pre r key value = cmd_set srv r (pre @ key) value 0"

definition redis_store_Delete :: "('r, 'b) redis_server \<Rightarrow> string \<Rightarrow> 'r \<Rightarrow> string \<Rightarrow> 'r \<times> go_error option" where
  "redis_store_Delete srv pre r key = cmd_del srv r (pre @ key)"

definition redis_cache_Get ::
  "('r, 'b) redis_server \<Rightarrow> string \<Rightarrow> 'r \<Rightarrow> string \<Rightarrow> 'b option \<times> bool \<times> go_error option" where
  "redis_cache_Get srv pre r key =
     (case cmd_get srv r (pre @ key) of
        Inr None \<Rightarrow> (None, False, None)
      | Inl err \<Rightarrow> (None, False, Some err)
      | Inr (Some val) \<Rightarrow> (Some val, True, None))"

definition redis_cache_Set ::
  "('r, 'b) redis_server \<Rightarrow> string \<Rightarrow> 'r \<Rightarrow> string \<Rightarrow> 'b \<Rightarrow> duration \<Rightarrow> 'r \<times> go_error option" where
  "redis_cache_Set srv pre r key value ttl = cmd_set srv r (pre @ key) value ttl"

definition redis_Contains :: "('r, 'b) redis_server \<Rightarrow> string \<Rightarrow> 'r \<Rightarrow> string \<Rightarrow> go_error + bool" where
  "redis_Contains srv set_key r key = cmd_sismember srv r set_key key"

definition redis_Add :: "('r, 'b) redis_server \<Rightarrow> string \<Rightarrow> 'r \<Rightarrow> string \<Rightarrow> 'r \<times> go_error option" where
  "redis_Add srv set_key r key = cmd_sadd srv r set_key key"

section \<open>What a server that answers makes of them\<close>

text \<open>
  The documented behaviour of the commands while the server answers: a key has the value it was last set
  to without expiry, until it is deleted, and a set has its members for ever.
\<close>

definition serves :: "('r, 'b) redis_server \<Rightarrow> bool" where
  "serves srv =
     ((\<forall>r k v j. cmd_get srv (fst (cmd_set srv r k v 0)) j = (if j = k then Inr (Some v) else cmd_get srv r j))
      \<and> (\<forall>r k j. cmd_get srv (fst (cmd_del srv r k)) j = (if j = k then Inr None else cmd_get srv r j))
      \<and> (\<forall>r t k u j. cmd_sismember srv (fst (cmd_sadd srv r t k)) u j =
            (if u = t \<and> j = k then Inr True else cmd_sismember srv r u j)))"

lemma serves_simps:
  assumes "serves srv"
  shows "redis_Get srv q (fst (redis_store_Set srv p r k v)) j =
      (if q @ j = p @ k then (Some v, True, None) else redis_Get srv q r j)"
    and "redis_Get srv q (fst (redis_store_Delete srv p r k)) j =
      (if q @ j = p @ k then (None, False, None) else redis_Get srv q r j)"
  using assms by (auto simp: serves_def redis_Get_def redis_store_Set_def redis_store_Delete_def)

text \<open>The store is a store: what was set last is read, and a deleted key is not found.\<close>

theorem redis_store_roundtrip:
  assumes "serves srv"
  shows "redis_Get srv p (fst (redis_store_Set srv p r k v)) j =
           (if j = k then (Some v, True, None) else redis_Get srv p r j)
       \<and> redis_Get srv p (fst (redis_store_Delete srv p r k)) j =
           (if j = k then (None, False, None) else redis_Get srv p r j)"
  using serves_simps [OF assms] by simp

text \<open>
  Two stores on one server do not see each other when neither prefix is a beginning of the other, and
  only then: with the prefix of a prefix a key of one is a key of the other.
\<close>

theorem redis_prefixes_separate:
  assumes "serves srv" and "\<not> prefix p q" and "\<not> prefix q p"
  shows "redis_Get srv q (fst (redis_store_Set srv p r k v)) j = redis_Get srv q r j
       \<and> redis_Get srv q (fst (redis_store_Delete srv p r k)) j = redis_Get srv q r j"
proof -
  have "q @ j \<noteq> p @ k"
  proof
    assume "q @ j = p @ k"
    then have "prefix q p \<or> prefix p q"
      by (auto simp: append_eq_append_conv2 prefix_def)
    with assms(2,3) show False by blast
  qed
  then show ?thesis using serves_simps [OF assms(1)] by simp
qed

theorem redis_prefix_of_prefix:
  assumes "serves srv"
  shows "redis_Get srv (p @ s) (fst (redis_store_Set srv p r (s @ k) v)) k = (Some v, True, None)"
  using serves_simps [OF assms] by simp

text \<open>The set of seen keys has the keys that were added, and no other.\<close>

theorem redis_dedup_exact:
  assumes "serves srv" and "\<And>j. redis_Contains srv t r j = Inr (j \<in> seen)"
  shows "redis_Contains srv t (fold (\<lambda>k r. fst (redis_Add srv t r k)) ks r) j = Inr (j \<in> seen \<union> set ks)"
  using assms(2)
proof (induction ks arbitrary: r seen)
  case (Cons k ks)
  have "redis_Contains srv t (fst (redis_Add srv t r k)) i = Inr (i \<in> insert k seen)" for i
    using assms(1) Cons.prems [of i] by (auto simp: serves_def redis_Contains_def redis_Add_def)
  from Cons.IH [OF this] show ?case by simp
qed simp

section \<open>An instance\<close>

text \<open>A server that is a map and a set, on which the store is one of the library's stores.\<close>

definition map_server :: "((string \<rightharpoonup> 'b) \<times> (string \<times> string) set, 'b) redis_server" where
  "map_server =
     \<lparr>cmd_get = (\<lambda>r k. Inr (fst r k)), cmd_set = (\<lambda>r k v ttl. (((fst r)(k \<mapsto> v), snd r), None)),
      cmd_del = (\<lambda>r k. (((fst r)(k := None), snd r), None)),
      cmd_sismember = (\<lambda>r t k. Inr ((t, k) \<in> snd r)), cmd_sadd = (\<lambda>r t k. ((fst r, insert (t, k) (snd r)), None))\<rparr>"

lemma map_server_serves: "serves map_server"
  by (auto simp: serves_def map_server_def)

interpretation redis_store: kv_store "\<lambda>_ r k. fst (redis_Get map_server p r k)"
  "\<lambda>_ r k v. fst (redis_store_Set map_server p r k v)" "\<lambda>r k. fst (redis_Get map_server p r k)"
  "\<lambda>r k. fst (redis_store_Delete map_server p r k)" for p
  by unfold_locales (auto simp: serves_simps [OF map_server_serves] split: if_splits)

interpretation redis_dedup: exact_dedup_set
  "\<lambda>r k. (r, redis_Contains map_server t r k = Inr True)" "\<lambda>r k. fst (redis_Add map_server t r k)" "\<lambda>_. True"
  "(Map.empty, {})" for t
  by unfold_locales (auto simp: redis_Contains_def redis_Add_def map_server_def)

theorem redis_prefixes_separate_witness:
  "redis_Get map_server ''b:'' (fst (redis_store_Set map_server ''a:'' (Map.empty, {}) ''x'' (1::int))) ''x'' = (None, False, None)"
proof -
  have "redis_Get map_server ''b:'' (Map.empty :: string \<rightharpoonup> int, {}) ''x'' = (None, False, None)"
    by (simp add: redis_Get_def map_server_def)
  with redis_prefixes_separate [OF map_server_serves, of "''a:''" "''b:''" "(Map.empty :: string \<rightharpoonup> int, {})" "''x''" 1 "''x''"]
  show ?thesis by simp
qed

end
