(* ===== verification/Metric_Hooks.thy ===== *)
theory Metric_Hooks
  imports Hook_Ops Metrics
begin

text \<open>
  The hooks that pass metrics on to other systems: \<^verbatim>\<open>tails/kprometheus\<close>, \<^verbatim>\<open>tails/kdatadog\<close> and \<^verbatim>\<open>tails/kotel\<close>. A
  client of a metrics system is the counters and observations it has been given; the reference is
  the library's own \<^verbatim>\<open>MetricsHook\<close>. Durations stay in nanoseconds where the code divides in floating
  point.
\<close>

section \<open>Counters by stage and status\<close>

record tagged_counts =
  tc_items :: "string \<times> string \<Rightarrow> int"
  tc_durations :: "(string \<times> int) list"
  tc_drops :: "string \<Rightarrow> int"
  tc_restarts :: "string \<Rightarrow> int"

definition no_counts :: tagged_counts where
  "no_counts = \<lparr>tc_items = (\<lambda>_. 0), tc_durations = [], tc_drops = (\<lambda>_. 0), tc_restarts = (\<lambda>_. 0)\<rparr>"

text \<open>The status of an item, by the text of its error (\<^verbatim>\<open>err.Error()\<close>, an argument).\<close>

definition item_status :: "(go_error \<Rightarrow> string) \<Rightarrow> go_error option \<Rightarrow> string" where
  "item_status err_text err =
     (case err of
        None \<Rightarrow> ''ok''
      | Some e \<Rightarrow> if err_text e = ''kitsune: item skipped'' then ''skipped'' else ''error'')"

definition inc :: "'k \<Rightarrow> ('k \<Rightarrow> int) \<Rightarrow> 'k \<Rightarrow> int" where
  "inc k f = f(k := f k + 1)"

fun prometheus_on :: "(go_error \<Rightarrow> string) \<Rightarrow> 'i hook_event \<Rightarrow> 'r tagged_counts_scheme \<Rightarrow> 'r tagged_counts_scheme" where
  "prometheus_on err_text (EvItem st dur err) c =
     (let c' = c\<lparr>tc_items := inc (st, item_status err_text err) (tc_items c)\<rparr> in
      if dur > 0 then c'\<lparr>tc_durations := tc_durations c' @ [(st, dur)]\<rparr> else c')"
| "prometheus_on err_text (EvDrop st x) c = c\<lparr>tc_drops := inc st (tc_drops c)\<rparr>"
| "prometheus_on err_text (EvRestart st a cause) c = c\<lparr>tc_restarts := inc st (tc_restarts c)\<rparr>"
| "prometheus_on err_text _ c = c"

definition PrometheusHook :: "(go_error \<Rightarrow> string) \<Rightarrow> ('i, tagged_counts) hook" where
  "PrometheusHook err_text = \<lparr>hk_exts = [OverflowHook, SupervisionHook], hk_on = prometheus_on err_text\<rparr>"

text \<open>Datadog is given whole milliseconds.\<close>

fun datadog_on :: "(go_error \<Rightarrow> string) \<Rightarrow> 'i hook_event \<Rightarrow> tagged_counts \<Rightarrow> tagged_counts" where
  "datadog_on err_text (EvItem st dur err) c =
     (let c' = c\<lparr>tc_items := inc (st, item_status err_text err) (tc_items c)\<rparr> in
      if dur > 0 then c'\<lparr>tc_durations := tc_durations c' @ [(st, dur div 1000000)]\<rparr> else c')"
| "datadog_on err_text (EvDrop st x) c = c\<lparr>tc_drops := inc st (tc_drops c)\<rparr>"
| "datadog_on err_text (EvRestart st a cause) c = c\<lparr>tc_restarts := inc st (tc_restarts c)\<rparr>"
| "datadog_on err_text _ c = c"

definition DatadogHook :: "(go_error \<Rightarrow> string) \<Rightarrow> ('i, tagged_counts) hook" where
  "DatadogHook err_text = \<lparr>hk_exts = [OverflowHook, SupervisionHook], hk_on = datadog_on err_text\<rparr>"

section \<open>OpenTelemetry\<close>

text \<open>
  The counters, the number of stages, and with a tracer one open span under each stage name, the number
  of spans started, those that were ended with their attributes, and the gauges registered for buffers.
\<close>

record otel = tagged_counts +
  ot_stages :: int
  ot_tracer :: bool
  ot_spans :: "string \<rightharpoonup> nat"
  ot_started :: nat
  ot_ended :: "(nat \<times> int \<times> int) list"
  ot_gauges :: "(string \<times> nat \<times> nat) list list"

definition otel_New :: otel where
  "otel_New =
     \<lparr>tc_items = (\<lambda>_. 0), tc_durations = [], tc_drops = (\<lambda>_. 0), tc_restarts = (\<lambda>_. 0), ot_stages = 0,
      ot_tracer = False, ot_spans = Map.empty, ot_started = 0, ot_ended = [], ot_gauges = []\<rparr>"

definition NewWithTracing :: otel where
  "NewWithTracing = otel_New\<lparr>ot_tracer := True\<rparr>"

fun otel_on :: "(go_error \<Rightarrow> string) \<Rightarrow> 'i hook_event \<Rightarrow> otel \<Rightarrow> otel" where
  "otel_on err_text (EvStageStart st) h =
     (if \<not> ot_tracer h then h
      else h\<lparr>ot_spans := (ot_spans h)(st \<mapsto> ot_started h), ot_started := Suc (ot_started h)\<rparr>)"
| "otel_on err_text (EvItem st dur err) h =
     (let h' = h\<lparr>tc_items := inc (st, item_status err_text err) (tc_items h)\<rparr> in
      if dur > 0 then h'\<lparr>tc_durations := tc_durations h' @ [(st, dur)]\<rparr> else h')"
| "otel_on err_text (EvStageDone st p e) h =
     (if \<not> ot_tracer h then h
      else case ot_spans h st of
        None \<Rightarrow> h
      | Some span \<Rightarrow> h\<lparr>ot_spans := (ot_spans h)(st := None), ot_ended := ot_ended h @ [(span, p, e)]\<rparr>)"
| "otel_on err_text (EvDrop st x) h = h\<lparr>tc_drops := inc st (tc_drops h)\<rparr>"
| "otel_on err_text (EvRestart st a cause) h = h\<lparr>tc_restarts := inc st (tc_restarts h)\<rparr>"
| "otel_on err_text (EvGraph nodes) h = h\<lparr>ot_stages := ot_stages h + int (length nodes)\<rparr>"
| "otel_on err_text (EvBuffers q) h = h\<lparr>ot_gauges := ot_gauges h @ [q]\<rparr>"
| "otel_on err_text _ h = h"

definition OTelHook :: "(go_error \<Rightarrow> string) \<Rightarrow> ('i, otel) hook" where
  "OTelHook err_text =
     \<lparr>hk_exts = [OverflowHook, SupervisionHook, GraphHook, BufferHook], hk_on = otel_on err_text\<rparr>"

section \<open>The hooks agree with the library's counters\<close>

text \<open>\<^verbatim>\<open>MetricsHook\<close> as a hook.\<close>

fun metrics_on ::
  "'i hook_event \<Rightarrow> (graph_node, (string \<times> nat \<times> nat) list) metrics_hook \<Rightarrow>
     (graph_node, (string \<times> nat \<times> nat) list) metrics_hook" where
  "metrics_on (EvStageStart st) m = OnStageStart st m"
| "metrics_on (EvItem st dur err) m = OnItem st dur err m"
| "metrics_on (EvDrop st x) m = OnDrop st m"
| "metrics_on (EvRestart st a cause) m = OnStageRestart st m"
| "metrics_on (EvGraph nodes) m = OnGraph nodes m"
| "metrics_on (EvBuffers q) m = OnBuffers q m"
| "metrics_on _ m = m"

text \<open>The counters of a stage, zero for one that the hook does not know.\<close>

definition counters :: "('g, 'q) metrics_hook \<Rightarrow> string \<Rightarrow> int \<times> int \<times> int \<times> int \<times> int" where
  "counters m st =
     (let s = Stage st m in (ms_processed s, ms_errors s, ms_skipped s, ms_dropped s, ms_restarts s))"

definition raw_stage :: "('g, 'q) metrics_hook \<Rightarrow> string \<Rightarrow> stage_state" where
  "raw_stage m st = (case mh_stages m st of None \<Rightarrow> new_stage_state | Some s \<Rightarrow> s)"

lemma counters_raw:
  "counters m st = (let s = raw_stage m st in (ms_processed s, ms_errors s, ms_skipped s, ms_dropped s, ms_restarts s))"
  by (simp add: counters_def Stage_def raw_stage_def zero_metrics_def metrics_snapshot_def Let_def split: option.split)

lemma raw_stage_step [simp]:
  "raw_stage (OnStageStart st m) st' = raw_stage m st'"
  "raw_stage (OnItem st ns err m) st' = (if st' = st then record_item (ns, err) (raw_stage m st) else raw_stage m st')"
  "raw_stage (OnDrop st m) st' =
     (if st' = st then (raw_stage m st)\<lparr>ms_dropped := ms_dropped (raw_stage m st) + 1\<rparr> else raw_stage m st')"
  "raw_stage (OnStageRestart st m) st' =
     (if st' = st then (raw_stage m st)\<lparr>ms_restarts := ms_restarts (raw_stage m st) + 1\<rparr> else raw_stage m st')"
  "raw_stage (OnGraph nodes m) st' = raw_stage m st'"
  "raw_stage (OnBuffers q m) st' = raw_stage m st'"
  by (auto simp: raw_stage_def OnStageStart_def OnItem_def OnDrop_def OnStageRestart_def OnGraph_def OnBuffers_def
      on_stage_def getOrCreate_def split: option.splits)

lemma record_item_drops [simp]:
  "ms_dropped (record_item x s) = ms_dropped s" "ms_restarts (record_item x s) = ms_restarts s"
  by (simp_all add: record_item_def record_outcome_def record_ns_def split: option.split)

text \<open>
  An item of the stage whose error is not \<^verbatim>\<open>ErrSkipped\<close> but has its text. The exporters compare the text of
  an error, \<^verbatim>\<open>MetricsHook\<close> compares the error itself.
\<close>

fun disguised :: "(go_error \<Rightarrow> string) \<Rightarrow> string \<Rightarrow> 'i hook_event \<Rightarrow> bool" where
  "disguised err_text st (EvItem st' dur (Some e)) =
     (st' = st \<and> e \<noteq> ErrSkipped \<and> err_text e = ''kitsune: item skipped'')"
| "disguised err_text st _ = False"

definition agrees :: "'r tagged_counts_scheme \<Rightarrow> (string \<Rightarrow> int) \<Rightarrow> ('g, 'q) metrics_hook \<Rightarrow> bool" where
  "agrees c k m =
     (\<forall>st. counters m st =
        (tc_items c (st, ''ok''), tc_items c (st, ''error'') + k st, tc_items c (st, ''skipped'') - k st,
         tc_drops c st, tc_restarts c st))"

lemma agrees_step:
  assumes "err_text ErrSkipped = ''kitsune: item skipped''" and "agrees c k m"
  shows "agrees (prometheus_on err_text e c) (\<lambda>st. k st + (if disguised err_text st e then 1 else 0)) (metrics_on e m)"
proof (cases e)
  case (EvItem st dur err)
  show ?thesis
  proof (cases err)
    case None
    with assms EvItem show ?thesis
      by (auto simp: agrees_def counters_raw Let_def inc_def item_status_def)
  next
    case (Some er)
    with assms EvItem show ?thesis
      by (cases "er = ErrSkipped") (auto simp: agrees_def counters_raw Let_def inc_def item_status_def)
  qed
qed (use assms(2) in \<open>auto simp: agrees_def counters_raw Let_def inc_def\<close>)

lemma hook_counts:
  "hook_notify (PrometheusHook err_text) e c = prometheus_on err_text e c"
  "hook_notify (DatadogHook err_text) e c = datadog_on err_text e c"
  "hook_notify (OTelHook err_text) e h = otel_on err_text e h"
  by (cases e; simp add: hook_notify_def PrometheusHook_def DatadogHook_def OTelHook_def)+

text \<open>
  C40: Whatever events a run reports, the counters of the Prometheus hook and those of \<^verbatim>\<open>MetricsHook\<close> differ, for
  each stage, by exactly the items whose error has the text of \<^verbatim>\<open>ErrSkipped\<close> without being it: Prometheus counts
  these as skipped and \<^verbatim>\<open>MetricsHook\<close> as errors. The successful items, the drops and the restarts are the same,
  and so is everything when there is no such error. The hypothesis is the text \<^verbatim>\<open>ErrSkipped\<close> is declared
  with.
\<close>

theorem prometheus_agrees:
  fixes evs :: "'i hook_event list"
  assumes "err_text ErrSkipped = ''kitsune: item skipped''"
  defines "c \<equiv> fold (hook_notify (PrometheusHook err_text)) evs no_counts"
    and "k \<equiv> \<lambda>st. int (length (filter (disguised err_text st) evs))"
  shows "counters (fold metrics_on evs (NewMetricsHook now)) st =
           (tc_items c (st, ''ok''), tc_items c (st, ''error'') + k st, tc_items c (st, ''skipped'') - k st,
            tc_drops c st, tc_restarts c st)"
proof -
  have "agrees c k (fold metrics_on evs (NewMetricsHook now))"
    unfolding c_def k_def
  proof (induction evs rule: rev_induct)
    case Nil
    show ?case
      by (simp add: agrees_def counters_raw raw_stage_def NewMetricsHook_def no_counts_def new_stage_state_def Let_def)
  next
    case (snoc e evs)
    have "int (length (filter (disguised err_text st) (evs @ [e]))) =
        int (length (filter (disguised err_text st) evs)) + (if disguised err_text st e then 1 else 0)" for st
      by simp
    with agrees_step [where err_text = err_text and k = "\<lambda>st. int (length (filter (disguised err_text st) evs))" and e = e, OF assms(1) snoc] show ?case by (simp add: hook_counts)
  qed
  then show ?thesis by (simp add: agrees_def)
qed

definition sample_events :: "int hook_event list" where
  "sample_events = [EvItem ''map'' 5 None, EvItem ''map'' 0 (Some ErrSkipped), EvItem ''map'' 7 (Some Canceled), EvDrop ''map'' 3]"

definition sample_error_text :: "go_error \<Rightarrow> string" where
  "sample_error_text e = (case e of ErrSkipped \<Rightarrow> ''kitsune: item skipped'' | Plain t \<Rightarrow> t | _ \<Rightarrow> ''other'')"

theorem prometheus_agrees_witness:
  "counters (fold metrics_on sample_events (NewMetricsHook 0 :: (graph_node, (string \<times> nat \<times> nat) list) metrics_hook)) ''map'' =
     (1, 1, 1, 1, 0)"
  using prometheus_agrees [of sample_error_text sample_events 0 "''map''"]
  by (simp add: sample_error_text_def sample_events_def hook_counts no_counts_def inc_def item_status_def Let_def)

text \<open>An error of the user's with that text: skipped for Prometheus, an error for \<^verbatim>\<open>MetricsHook\<close>.\<close>

theorem skip_text_is_not_skip:
  fixes st :: string
  defines "ev \<equiv> EvItem st 0 (Some (Plain ''kitsune: item skipped'')) :: int hook_event"
  shows "tc_items (hook_notify (PrometheusHook sample_error_text) ev no_counts) (st, ''skipped'') = 1 \<and>
         counters (metrics_on ev (NewMetricsHook 0 :: (graph_node, (string \<times> nat \<times> nat) list) metrics_hook)) st = (0, 1, 0, 0, 0)"
proof -
  have "raw_stage (NewMetricsHook 0 :: (graph_node, (string \<times> nat \<times> nat) list) metrics_hook) st = new_stage_state"
    by (simp add: raw_stage_def NewMetricsHook_def)
  then show ?thesis
    by (simp add: ev_def sample_error_text_def hook_counts no_counts_def inc_def item_status_def Let_def counters_raw
        new_stage_state_def record_item_def record_outcome_def record_ns_def)
qed

text \<open>The other two count the same.\<close>

theorem hooks_count_alike:
  "tc_items (fold (hook_notify (DatadogHook err_text)) evs no_counts)
     = tc_items (fold (hook_notify (PrometheusHook err_text)) evs no_counts)
   \<and> tc_items (fold (hook_notify (OTelHook err_text)) evs h0) = tc_items (fold (hook_notify (PrometheusHook err_text)) evs
       (no_counts\<lparr>tc_items := tc_items h0\<rparr>))
   \<and> tc_drops (fold (hook_notify (DatadogHook err_text)) evs no_counts)
     = tc_drops (fold (hook_notify (PrometheusHook err_text)) evs no_counts)"
proof (induction evs rule: rev_induct)
  case (snoc e evs)
  then show ?case by (cases e) (auto simp: hook_counts Let_def split: option.splits)
qed simp

section \<open>Spans\<close>

definition started_names :: "'i hook_event list \<Rightarrow> string list" where
  "started_names evs = List.map_filter (\<lambda>e. case e of EvStageStart st \<Rightarrow> Some st | _ \<Rightarrow> None) evs"

lemma started_names_simps [simp]:
  "started_names [] = []"
  "started_names (evs @ [e]) = started_names evs @ (case e of EvStageStart st \<Rightarrow> [st] | _ \<Rightarrow> [])"
  by (simp_all add: started_names_def map_filter_simps map_filter_snoc split: hook_event.split)

text \<open>
  With different stage names every span that was started has been ended once, or is open under the name
  of its stage.
\<close>

lemma otel_spans_inv:
  "distinct (started_names evs) \<Longrightarrow>
     (let h = fold (otel_on err_text) evs NewWithTracing in
        ot_tracer h \<and> finite (dom (ot_spans h)) \<and> dom (ot_spans h) \<subseteq> set (started_names evs)
        \<and> ot_started h = length (ot_ended h) + card (dom (ot_spans h)))"
proof (induction evs rule: rev_induct)
  case Nil
  show ?case by (simp add: NewWithTracing_def otel_New_def)
next
  case (snoc e evs)
  let ?h = "fold (otel_on err_text) evs NewWithTracing"
  from snoc have h: "ot_tracer ?h" "finite (dom (ot_spans ?h))" "dom (ot_spans ?h) \<subseteq> set (started_names evs)"
    "ot_started ?h = length (ot_ended ?h) + card (dom (ot_spans ?h))"
    by (auto simp: Let_def)
  show ?case
  proof (cases e)
    case (EvStageStart st)
    with snoc.prems h have "st \<notin> dom (ot_spans ?h)" by auto
    with EvStageStart h show ?thesis by (auto simp: Let_def)
  next
    case (EvStageDone st p er)
    show ?thesis
    proof (cases "ot_spans ?h st")
      case None
      with EvStageDone h show ?thesis by (simp add: Let_def)
    next
      case (Some span)
      then have dom: "st \<in> dom (ot_spans ?h)" by auto
      with h(2) have "0 < card (dom (ot_spans ?h))" by (auto simp: card_gt_0_iff)
      moreover have "dom ((ot_spans ?h)(st := None)) \<subseteq> set (started_names evs)" using h(3) by auto
      ultimately show ?thesis
        using EvStageDone Some h dom card_dom_remove [OF h(2) dom] by (simp add: Let_def)
    qed
  qed (use h in \<open>simp_all add: Let_def\<close>)
qed

theorem otel_spans_accounted:
  fixes err_text :: "go_error \<Rightarrow> string"
  assumes "distinct (started_names evs)"
  defines "h \<equiv> fold (hook_notify (OTelHook err_text)) evs NewWithTracing"
  shows "ot_started h = length (ot_ended h) + card (dom (ot_spans h))"
  using otel_spans_inv [OF assms(1), of err_text] by (simp add: h_def hook_counts [abs_def] Let_def)

text \<open>
  Two stages of the same name: the second start puts its span in the place of the first one's, which is
  never ended.
\<close>

theorem otel_same_name_span_lost:
  assumes "evs = [EvStageStart st, EvStageStart st, EvStageDone st p1 e1, EvStageDone st p2 e2]"
  shows "ot_started (fold (hook_notify (OTelHook err_text)) evs NewWithTracing) = 2
       \<and> ot_ended (fold (hook_notify (OTelHook err_text)) evs NewWithTracing) = [(1, p1, e1)]
       \<and> ot_spans (fold (hook_notify (OTelHook err_text)) evs NewWithTracing) = Map.empty"
  by (simp add: assms hook_counts NewWithTracing_def otel_New_def)

end
