(* ===== verification/Test_Kit.thy ===== *)
theory Test_Kit
  imports Collect_Ops Metrics Hook_Ops "HOL-Library.Multiset"
begin

text \<open>
  The assertions and runners of the test kit (\<^verbatim>\<open>testkit/testkit.go\<close>, \<^verbatim>\<open>testkit/assert.go\<close>). What one does
  to the test is a verdict: nothing, \<^verbatim>\<open>Errorf\<close>, or \<^verbatim>\<open>Fatalf\<close>, after which the test's goroutine ends.
\<close>

section \<open>Comparing outputs\<close>

text \<open>A Go map of counters, absent keys counting zero.\<close>

fun tally :: "'a list \<Rightarrow> ('a \<Rightarrow> int) \<Rightarrow> 'a \<Rightarrow> int" where
  "tally [] counts = counts"
| "tally (v # vs) counts = tally vs (counts(v := counts v + 1))"

fun spend_counts :: "'a list \<Rightarrow> ('a \<Rightarrow> int) \<Rightarrow> bool" where
  "spend_counts [] counts = True"
| "spend_counts (v # vs) counts =
     (let counts' = counts(v := counts v - 1) in if counts' v < 0 then False else spend_counts vs counts')"

definition sameElements :: "'a list \<Rightarrow> 'a list \<Rightarrow> bool" where
  "sameElements a b = (if length a \<noteq> length b then False else spend_counts b (tally a (\<lambda>_. 0)))"

lemma tally_count: "tally vs counts v = counts v + int (count (mset vs) v)"
  by (induction vs arbitrary: counts) auto

lemma spend_iff:
  "(\<And>v. counts v \<ge> 0) \<Longrightarrow> spend_counts vs counts = list_all (\<lambda>v. int (count (mset vs) v) \<le> counts v) vs"
proof (induction vs arbitrary: counts)
  case (Cons v vs)
  show ?case
  proof (cases "counts v - 1 < 0")
    case True
    then have "\<not> int (count (mset (v # vs)) v) \<le> counts v" by simp
    with True show ?thesis by simp
  next
    case False
    with Cons.prems have nonneg: "\<And>w. (counts(v := counts v - 1)) w \<ge> 0" by simp
    have split: "list_all (\<lambda>w. int (count (mset vs) w) \<le> (counts(v := counts v - 1)) w) vs =
          (int (count (mset (v # vs)) v) \<le> counts v \<and>
           list_all (\<lambda>w. int (count (mset (v # vs)) w) \<le> counts w) vs)" (is "?l = (?a \<and> ?r)")
    proof
      assume l: ?l
      have ?a
      proof (cases "v \<in> set vs")
        case True
        with l show ?thesis by (auto simp: list_all_iff)
      next
        case no: False
        then have none: "count (mset vs) v = 0" by (metis count_mset_0_iff)
        have "count (mset (v # vs)) v = Suc (count (mset vs) v)" by simp
        then have "int (count (mset (v # vs)) v) = 1" using none by linarith
        with False show ?thesis by linarith
      qed
      moreover have ?r using l \<open>?a\<close> by (auto simp: list_all_iff split: if_splits)
      ultimately show "?a \<and> ?r" ..
    next
      assume "?a \<and> ?r"
      then show ?l by (auto simp: list_all_iff)
    qed
    have "spend_counts (v # vs) counts = spend_counts vs (counts(v := counts v - 1))" using False by (simp add: Let_def)
    also have "\<dots> = list_all (\<lambda>w. int (count (mset (v # vs)) w) \<le> counts w) (v # vs)"
      unfolding Cons.IH [of "counts(v := counts v - 1)", OF nonneg] split list.pred_inject ..
    finally show ?thesis .
  qed
qed simp

text \<open>\<^verbatim>\<open>sameElements\<close> decides the equality of multisets.\<close>

theorem sameElements_mset: "sameElements a b = (mset a = mset b)"
proof
  assume same: "sameElements a b"
  then have len: "size (mset a) = size (mset b)" by (simp add: sameElements_def split: if_splits)
  from same have "spend_counts b (tally a (\<lambda>_. 0))" by (simp add: sameElements_def split: if_splits)
  then have "list_all (\<lambda>v. int (count (mset b) v) \<le> tally a (\<lambda>_. 0) v) b"
    by (simp add: spend_iff tally_count)
  then have "mset b \<subseteq># mset a"
    by (intro mset_subset_eqI) (metis count_mset_0_iff list_all_iff tally_count of_nat_le_iff add_0 bot_nat_0.extremum)
  with len show "mset a = mset b"
    by (metis mset_subset_size nless_le subset_mset.dual_order.order_iff_strict)
next
  assume eq: "mset a = mset b"
  then have "length a = length b" by (metis size_mset)
  with eq show "sameElements a b" by (simp add: sameElements_def spend_iff tally_count list_all_iff)
qed

section \<open>Running a pipeline in a test\<close>

datatype verdict = Quiet | Errored | Fatal

definition MustRun :: "go_error option \<Rightarrow> verdict" where
  "MustRun err = (if err \<noteq> None then Fatal else Quiet)"

definition MustCollect :: "sink \<Rightarrow> 'a delivery \<Rightarrow> 'a list \<times> verdict" where
  "MustCollect k p = (case Collect_p k p of (elems, err) \<Rightarrow> (elems, if err \<noteq> None then Fatal else Quiet))"

definition CollectAndExpect :: "sink \<Rightarrow> 'a delivery \<Rightarrow> 'a list \<Rightarrow> verdict" where
  "CollectAndExpect k p expected =
     (case MustCollect k p of
        (got, Fatal) \<Rightarrow> Fatal
      | (got, _) \<Rightarrow> if got \<noteq> expected then Errored else Quiet)"

definition CollectAndExpectUnordered :: "sink \<Rightarrow> 'a delivery \<Rightarrow> 'a list \<Rightarrow> verdict" where
  "CollectAndExpectUnordered k p expected =
     (case MustCollect k p of
        (got, Fatal) \<Rightarrow> Fatal
      | (got, _) \<Rightarrow> if \<not> sameElements got expected then Errored else Quiet)"

lemma MustCollect_simp: "MustCollect k (xs, e) = (xs, if e \<noteq> None then Fatal else Quiet)"
  by (simp add: MustCollect_def Collect_p_def forEach_run_pure foldl_snoc_item)

text \<open>
  The two expectations accept a run without an error whose output is the expected one, in order and
  up to order.
\<close>

theorem expectations_exact:
  "(CollectAndExpect k (xs, e) expected = Quiet) = (e = None \<and> xs = expected) \<and>
   (CollectAndExpectUnordered k (xs, e) expected = Quiet) = (e = None \<and> mset xs = mset expected)"
  by (simp add: CollectAndExpect_def CollectAndExpectUnordered_def MustCollect_simp sameElements_mset)

text \<open>\<^verbatim>\<open>MustRunWithHook\<close> and \<^verbatim>\<open>MustCollectWithHook\<close> put their hook before the options of the caller.\<close>

definition with_recording :: "handle \<Rightarrow> run_opt list \<Rightarrow> run_opt list" where
  "with_recording hook opts = OptHook (Some hook) # opts"

lemma fold_opts_hook:
  "list_all (\<lambda>opt. opt_kind opt \<noteq> 1) opts \<Longrightarrow> rn_hook (fold apply_run_opt opts c) = rn_hook c"
proof (induction opts arbitrary: c)
  case (Cons opt opts)
  then have "rn_hook (apply_run_opt opt c) = rn_hook c" by (cases opt) auto
  with Cons show ?case by simp
qed simp

text \<open>
  The returned hook is the one the run uses unless the caller passes one too: that one wins, and the
  hook that is returned has recorded nothing.
\<close>

theorem recording_is_wired:
  assumes "list_all (\<lambda>opt. opt_kind opt \<noteq> 1) opts"
  shows "re_hook (prepare_run (buildRunConfig (with_recording hook opts))) = hook"
  by (simp add: with_recording_def buildRunConfig_def prepare_run_def fold_opts_hook [OF assms])
    (simp add: run_env.defs run_ctx.defs)

theorem recording_is_wired_witness:
  "re_hook (prepare_run (buildRunConfig (with_recording 7 [OptDryRun, OptDefaultBuffer 4]))) = 7"
  using recording_is_wired [of "[OptDryRun, OptDefaultBuffer 4]" 7] by simp

theorem callers_hook_wins:
  assumes "list_all (\<lambda>opt. opt_kind opt \<noteq> 1) ys"
  shows "re_hook (prepare_run (buildRunConfig (with_recording hook (xs @ OptHook (Some own) # ys)))) = own"
  by (simp add: with_recording_def buildRunConfig_def prepare_run_def fold_opts_hook [OF assms])
    (simp add: run_env.defs run_ctx.defs)

theorem callers_hook_wins_witness:
  "re_hook (prepare_run (buildRunConfig (with_recording 7 [OptHook (Some 9), OptDryRun]))) = 9"
  using callers_hook_wins [of "[OptDryRun]" 7 "[]" 9] by simp

section \<open>Assertions on what a hook has seen\<close>

definition AssertNoErrors :: "'i recording \<Rightarrow> verdict" where
  "AssertNoErrors hook = (if length (rec_Errors hook) \<noteq> 0 then Errored else Quiet)"

definition AssertErrorCount :: "'i recording \<Rightarrow> int \<Rightarrow> verdict" where
  "AssertErrorCount hook want = (let got = int (length (rec_Errors hook)) in if got \<noteq> want then Errored else Quiet)"

definition AssertDropCount :: "'i recording \<Rightarrow> int \<Rightarrow> verdict" where
  "AssertDropCount hook want = (let got = int (length (rec_drops hook)) in if got \<noteq> want then Errored else Quiet)"

definition AssertRestartCount :: "'i recording \<Rightarrow> int \<Rightarrow> verdict" where
  "AssertRestartCount hook want = (let got = int (length (rec_restarts hook)) in if got \<noteq> want then Errored else Quiet)"

definition AssertStageProcessed :: "'i recording \<Rightarrow> string \<Rightarrow> int \<Rightarrow> verdict" where
  "AssertStageProcessed hook stage want =
     (case find (\<lambda>(st, p, er). st = stage) (rec_dones hook) of
        Some (st, p, er) \<Rightarrow> if p \<noteq> want then Errored else Quiet
      | None \<Rightarrow> Errored)"

definition AssertStageErrors :: "'i recording \<Rightarrow> string \<Rightarrow> int \<Rightarrow> verdict" where
  "AssertStageErrors hook stage want =
     (case find (\<lambda>(st, p, er). st = stage) (rec_dones hook) of
        Some (st, p, er) \<Rightarrow> if er \<noteq> want then Errored else Quiet
      | None \<Rightarrow> Errored)"

definition AssertMeanLatencyUnder :: "('g, 'q) metrics_hook \<Rightarrow> string \<Rightarrow> int \<Rightarrow> verdict" where
  "AssertMeanLatencyUnder hook stage maxLatency =
     (let got = MeanLatency (Stage stage hook) in if got > maxLatency then Errored else Quiet)"

definition AssertPercentileUnder ::
  "(int \<Rightarrow> int \<Rightarrow> int \<Rightarrow> int \<Rightarrow> int) \<Rightarrow> (int \<Rightarrow> int) \<Rightarrow> ('g, 'q) metrics_hook \<Rightarrow> string \<Rightarrow> int \<Rightarrow> verdict" where
  "AssertPercentileUnder interpolate ceil_part hook stage maxLatency =
     (let got = Percentile interpolate ceil_part (Stage stage hook) in if got > maxLatency then Errored else Quiet)"

text \<open>The loop over the stages of a snapshot, given by their names.\<close>

definition AssertNoDropsMetrics :: "string list \<Rightarrow> ('g, 'q) metrics_hook \<Rightarrow> verdict" where
  "AssertNoDropsMetrics names hook =
     (if list_ex (\<lambda>name. case mh_stages hook name of
           None \<Rightarrow> False | Some _ \<Rightarrow> ms_dropped (Stage name hook) > 0) names
      then Errored else Quiet)"

text \<open>
  The counts an assertion compares are those of the events of the run: the failed items, the drops
  and the restarts the stages have reported.
\<close>

theorem assertions_count_events:
  fixes evs :: "'i hook_event list"
  defines "h \<equiv> fold (hook_notify RecordingHook) evs new_recording"
  shows "(AssertErrorCount h n = Quiet) =
           (int (length (filter (\<lambda>e. case e of EvItem st dur (Some err) \<Rightarrow> True | _ \<Rightarrow> False) evs)) = n) \<and>
         (AssertDropCount h n = Quiet) =
           (int (length (filter (\<lambda>e. case e of EvDrop st x \<Rightarrow> True | _ \<Rightarrow> False) evs)) = n) \<and>
         (AssertRestartCount h n = Quiet) =
           (int (length (filter (\<lambda>e. case e of EvRestart st a c \<Rightarrow> True | _ \<Rightarrow> False) evs)) = n)"
proof -
  have "length (rec_Errors h) = length (filter (\<lambda>e. case e of EvItem st dur (Some err) \<Rightarrow> True | _ \<Rightarrow> False) evs)
      \<and> length (rec_drops h) = length (filter (\<lambda>e. case e of EvDrop st x \<Rightarrow> True | _ \<Rightarrow> False) evs)
      \<and> length (rec_restarts h) = length (filter (\<lambda>e. case e of EvRestart st a c \<Rightarrow> True | _ \<Rightarrow> False) evs)"
    unfolding h_def
  proof (induction evs rule: rev_induct)
    case Nil
    then show ?case by (simp add: new_recording_def rec_Errors_def)
  next
    case (snoc e evs)
    then show ?case
      by (cases e) (auto simp: hook_notify_def RecordingHook_def rec_Errors_def split: option.splits)
  qed
  then show ?thesis
    by (simp add: AssertErrorCount_def AssertDropCount_def AssertRestartCount_def Let_def)
qed

text \<open>
  Only the first done event under a name counts; and where \<^verbatim>\<open>AssertThroughputAbove\<close> fails for a stage
  that the hook does not know, the latency assertions accept it.
\<close>

theorem first_done_counts:
  "rec_dones h = (stage, p, er) # rest \<Longrightarrow> (AssertStageProcessed h stage n = Quiet) = (p = n)"
  by (simp add: AssertStageProcessed_def)

theorem unknown_stage_accepted:
  assumes "mh_stages hook stage = None" and "0 \<le> maxLatency"
  shows "AssertMeanLatencyUnder hook stage maxLatency = Quiet
       \<and> AssertPercentileUnder interpolate ceil_part hook stage maxLatency = Quiet"
  using assms by (simp add: AssertMeanLatencyUnder_def AssertPercentileUnder_def Stage_def zero_metrics_def
      new_stage_state_def MeanLatency_def Percentile_def numBuckets_def sum_list_replicate Let_def)

section \<open>Functions that fail or are slow\<close>

text \<open>
  \<^verbatim>\<open>testkit/source.go\<close>. The counter is the number of calls made before; every call adds one, in one atomic
  step, so with several workers the calls are numbered in the order of these steps. \<^verbatim>\<open>FailEvery\<close> panics on
  a number that is not positive.
\<close>

definition FailAt :: "go_error \<Rightarrow> int list \<Rightarrow> nat \<Rightarrow> 'a \<Rightarrow> nat \<times> 'a result" where
  "FailAt err positions counter v = (Suc counter, if int counter \<in> set positions then Inl err else Inr v)"

definition FailEvery :: "go_error \<Rightarrow> int \<Rightarrow> (nat \<Rightarrow> 'a \<Rightarrow> nat \<times> 'a result) option" where
  "FailEvery err n =
     (if n \<le> 0 then None
      else Some (\<lambda>counter v. (Suc counter, if int counter mod n = 0 then Inl err else Inr v)))"

text \<open>A wait of \<^verbatim>\<open>d\<close>, or the error of the context when that ends the wait first.\<close>

definition SlowMap :: "go_error option \<Rightarrow> 'a \<Rightarrow> 'a result" where
  "SlowMap interrupted v = (case interrupted of None \<Rightarrow> Inr v | Some err \<Rightarrow> Inl err)"

definition SlowSink :: "go_error option \<Rightarrow> 'a \<Rightarrow> go_error option" where
  "SlowSink interrupted v = interrupted"

fun call_all :: "(nat \<Rightarrow> 'a \<Rightarrow> nat \<times> 'a result) \<Rightarrow> nat \<Rightarrow> 'a list \<Rightarrow> 'a result list" where
  "call_all f counter [] = []"
| "call_all f counter (v # vs) = (case f counter v of (counter', r) \<Rightarrow> r # call_all f counter' vs)"

lemma call_all_FailAt:
  "call_all (FailAt err positions) c vs =
     map (\<lambda>(i, v). if int i \<in> set positions then Inl err else Inr v) (enumerate c vs)"
  by (induction vs arbitrary: c) (simp_all add: FailAt_def)

text \<open>The calls at the given positions fail and the others pass their item through.\<close>

theorem fail_at_positions:
  assumes "i < length vs"
  shows "call_all (FailAt err positions) 0 vs ! i = (if int i \<in> set positions then Inl err else Inr (vs ! i))"
  using assms by (simp add: call_all_FailAt nth_enumerate_eq)

theorem fail_at_positions_witness:
  "call_all (FailAt (Plain ''boom'') [1, 3]) 0 [10, 11, 12, 13 :: int] ! 3 = Inl (Plain ''boom'')"
  using fail_at_positions [of 3 "[10, 11, 12, 13 :: int]" "Plain ''boom''" "[1, 3]"] by simp

lemma call_all_FailEvery:
  "FailEvery err n = Some f \<Longrightarrow> call_all f c vs =
     map (\<lambda>(i, v). if int i mod n = 0 then Inl err else Inr v) (enumerate c vs)"
  by (induction vs arbitrary: c) (auto simp: FailEvery_def split: if_splits)

lemma multiples_below: "0 < m \<Longrightarrow> length (filter (\<lambda>i. i mod m = 0) [0..<k]) = (k + m - 1) div (m :: nat)"
proof (induction k)
  case (Suc k)
  show ?case
  proof (cases "k mod m = 0")
    case True
    then obtain q where q: "k = m * q" by auto
    have "(m * q + (m - 1)) div m = q + (m - 1) div m" using Suc.prems by (intro div_mult_self4 [THEN trans]) simp_all
    then have "(m * q + (m - 1)) div m = q" using Suc.prems by (simp del: add_diff_assoc Nat.add_diff_assoc)
    moreover have "k + m - 1 = m * q + (m - 1)" using Suc.prems q by simp
    moreover have "(Suc k + m - 1) div m = q + 1" using Suc.prems q by simp
    ultimately show ?thesis using Suc q by simp
  next
    case False
    then have "(k + m) div m = (k + m - 1) div m"
      using Suc.prems by (metis Suc_pred' add_gr_0 div_Suc mod_add_self2)
    with False Suc show ?thesis by simp
  qed
qed simp

text \<open>\<^verbatim>\<open>FailEvery n\<close> makes one call in \<^verbatim>\<open>n\<close> fail, the first one included.\<close>

theorem fail_every_count:
  assumes "FailEvery err n = Some f"
  shows "length (filter isl (call_all f 0 vs)) = (length vs + nat n - 1) div nat n"
proof -
  from assms have "0 < n" by (simp add: FailEvery_def split: if_splits)
  then obtain m where m: "n = int m" "0 < m" using zero_less_imp_eq_int by blast
  then have n: "0 < nat n" "\<And>i. (int i mod n = 0) = (i mod nat n = 0)" by (simp_all flip: zmod_int)
  have "length (filter isl (call_all f 0 vs)) = length (filter (\<lambda>x. fst x mod nat n = 0) (enumerate 0 vs))"
    by (simp add: call_all_FailEvery [OF assms] filter_map o_def case_prod_beta n)
  also have "\<dots> = length (filter (\<lambda>i. i mod nat n = 0) (map fst (enumerate 0 vs)))"
    unfolding filter_map by (simp add: o_def)
  also have "\<dots> = (length vs + nat n - 1) div nat n" using multiples_below [OF n(1)] by simp
  finally show ?thesis .
qed

theorem fail_every_count_witness:
  "length (filter isl (call_all (the (FailEvery (Plain ''boom'') 3)) 0 [10, 11, 12, 13 :: int])) = 2"
  using fail_every_count [of "Plain ''boom''" 3 _ "[10, 11, 12, 13 :: int]"] by (simp add: FailEvery_def)

end
