(* ===== verification/Repo_Tools.thy ===== *)
theory Repo_Tools
  imports Go_Strings "HOL-Library.List_Lexorder" "HOL-Library.Char_ord"
begin

text \<open>
  The tools of the repository. \<^verbatim>\<open>internal/tools/tailmatrix\<close> runs the tests of every connector and judges
  them; \<^verbatim>\<open>internal/tools/benchcheck\<close> reads what \<^verbatim>\<open>benchstat\<close> says of two benchmark runs and fails on a
  regression. The processes they start are arguments: what they print and how they exit. So are
  \<^verbatim>\<open>encoding/json\<close>, as the events it decodes, \<^verbatim>\<open>encoding/csv\<close> and \<^verbatim>\<open>strconv.ParseFloat\<close>.
\<close>

section \<open>The matrix of connector tests\<close>

subsection \<open>Reading the events of one test run\<close>

datatype tail_status = StatusPass | StatusFail | StatusSkip

primrec status_string :: "tail_status \<Rightarrow> string" where
  "status_string StatusPass = ''PASS''"
| "status_string StatusFail = ''FAIL''"
| "status_string StatusSkip = ''SKIP''"

record test_event =
  Action :: string
  Test :: string
  Printed :: string

datatype exit_error = ExitError int | OtherError string

definition isExitCode :: "exit_error option \<Rightarrow> int \<Rightarrow> bool" where
  "isExitCode err code =
     (case err of None \<Rightarrow> code = 0 | Some (ExitError c) \<Rightarrow> c = code | Some (OtherError _) \<Rightarrow> False)"

fun parseJSONStream :: "('e + test_event) list \<Rightarrow> test_event list \<times> 'e option" where
  "parseJSONStream [] = ([], None)"
| "parseJSONStream (Inl err # ds) = ([], Some err)"
| "parseJSONStream (Inr e # ds) = (case parseJSONStream ds of (events, err) \<Rightarrow> (e # events, err))"

text \<open>\<^verbatim>\<open>strings.Index(line, ": ")\<close>, and what comes after it.\<close>

fun after_colon :: "string \<Rightarrow> string option" where
  "after_colon (x # y # xs) = (if x = CHR '':'' \<and> y = CHR '' '' then Some xs else after_colon (y # xs))"
| "after_colon _ = None"

definition extractSkipMessage :: "string \<Rightarrow> string" where
  "extractSkipMessage line = TrimSpace (case after_colon line of Some rest \<Rightarrow> rest | None \<Rightarrow> line)"

fun unique_reason :: "string set \<Rightarrow> string list \<Rightarrow> string" where
  "unique_reason seen [] = ''skipped''"
| "unique_reason seen (m # ms) = (if m \<noteq> [] \<and> m \<notin> seen then m else unique_reason seen ms)"

definition firstUniqueSkipReason :: "string list \<Rightarrow> string" where
  "firstUniqueSkipReason msgs = unique_reason {} msgs"

fun first_nonempty :: "string list \<Rightarrow> string" where
  "first_nonempty [] = []"
| "first_nonempty (l # ls) = (let line = TrimSpace l in if line \<noteq> [] then line else first_nonempty ls)"

definition firstLine :: "string \<Rightarrow> string" where
  "firstLine s = first_nonempty (scan_lines s)"

definition tailLines :: "string \<Rightarrow> nat \<Rightarrow> string" where
  "tailLines s n =
     (let ls = strings_Split s (CHR 0x0A) in
      if length ls \<le> n then s else strings_Join (drop (length ls - n) ls) [CHR 0x0A])"

subsection \<open>The verdict\<close>

text \<open>
  The variables of \<^verbatim>\<open>classify\<close>: the counts, the messages of skipped tests, the names of failed ones, and
  the last line each test has printed that is not the frame of \<^verbatim>\<open>go test\<close>.
\<close>

record tail_scan =
  testPassCount :: nat
  testFailCount :: nat
  skipMessages :: "string list"
  failNames :: "string list"
  lastOutputForTest :: "string \<rightharpoonup> string"

definition tail_scan_init :: tail_scan where
  "tail_scan_init =
     \<lparr>testPassCount = 0, testFailCount = 0, skipMessages = [], failNames = [], lastOutputForTest = Map.empty\<rparr>"

definition boilerplate :: "string \<Rightarrow> bool" where
  "boilerplate l =
     (prefix ''=== RUN'' l \<or> prefix ''--- SKIP'' l \<or> prefix ''--- PASS'' l \<or> prefix ''--- FAIL'' l)"

definition classify_event :: "test_event \<Rightarrow> tail_scan \<Rightarrow> tail_scan" where
  "classify_event e v =
     (if Action e = ''pass'' then
        (if Test e \<noteq> [] then v\<lparr>testPassCount := testPassCount v + 1\<rparr> else v)
      else if Action e = ''fail'' then
        (if Test e \<noteq> []
         then v\<lparr>testFailCount := testFailCount v + 1, failNames := failNames v @ [Test e]\<rparr>
         else v\<lparr>testFailCount := testFailCount v + 1\<rparr>)
      else if Action e = ''skip'' then
        (if Test e \<noteq> []
         then v\<lparr>skipMessages := skipMessages v @
                [extractSkipMessage (case lastOutputForTest v (Test e) of Some l \<Rightarrow> l | None \<Rightarrow> [])]\<rparr>
         else v)
      else if Action e = ''output'' then
        (if Test e \<noteq> []
         then (let trimmed = TrimSpace (trim_right (\<lambda>c. c = CHR 0x0A) (Printed e)) in
               if trimmed \<noteq> [] \<and> \<not> boilerplate trimmed
               then v\<lparr>lastOutputForTest := (lastOutputForTest v)(Test e \<mapsto> trimmed)\<rparr> else v)
         else v)
      else v)"

definition classify :: "test_event list \<Rightarrow> exit_error option \<Rightarrow> string \<Rightarrow> tail_status \<times> string" where
  "classify events exitErr stderr =
     (let v = fold classify_event events tail_scan_init in
      if testFailCount v > 0 \<or> (exitErr \<noteq> None \<and> \<not> isExitCode exitErr 0) then
        (StatusFail,
         if failNames v \<noteq> [] then hd (failNames v) else if stderr \<noteq> [] then firstLine stderr else [])
      else if testPassCount v = 0 \<and> skipMessages v \<noteq> [] then
        (StatusSkip, firstUniqueSkipReason (skipMessages v))
      else if testPassCount v = 0 \<and> skipMessages v = [] \<and> exitErr = None then (StatusPass, ''no tests'')
      else (StatusPass, []))"

subsection \<open>One connector\<close>

record tail_result =
  Tail :: string
  Status :: tail_status
  Reason :: string
  Elapsed :: int
  Attached :: string

text \<open>What \<^verbatim>\<open>go test\<close> has done: its two streams, the decoded first one, its exit and the time it took.\<close>

record 'e test_run =
  tr_stdout :: string
  tr_stderr :: string
  tr_events :: "('e + test_event) list"
  tr_exit :: "exit_error option"
  tr_elapsed :: int

definition runTail :: "string \<Rightarrow> 'e test_run \<Rightarrow> tail_result" where
  "runTail tail r =
     (case parseJSONStream (tr_events r) of (events, parseErr) \<Rightarrow>
        if parseErr \<noteq> None \<and> events = [] then
          \<lparr>Tail = tail, Status = StatusFail,
           Reason =
             (if firstLine (tr_stderr r) \<noteq> [] then ''build error: '' @ firstLine (tr_stderr r)
              else if firstLine (tr_stdout r) \<noteq> [] then ''build error: '' @ firstLine (tr_stdout r)
              else ''build error''),
           Elapsed = tr_elapsed r, Attached = tr_stdout r @ tr_stderr r\<rparr>
        else
          (case classify events (tr_exit r) (tr_stderr r) of (st, reason) \<Rightarrow>
             \<lparr>Tail = tail, Status = st, Reason = reason, Elapsed = tr_elapsed r,
              Attached = (if st = StatusFail then tailLines (tr_stdout r @ tr_stderr r) 100 else [])\<rparr>))"

subsection \<open>The whole matrix\<close>

text \<open>A list of names on the command line, and the directories under \<^verbatim>\<open>tails\<close> that have a \<^verbatim>\<open>go.mod\<close>.\<close>

definition parse_names :: "string \<Rightarrow> string list" where
  "parse_names arg = filter (\<lambda>t. t \<noteq> []) (map TrimSpace (strings_Split arg (CHR '','')))"

record dir_entry =
  EntryName :: string
  IsDir :: bool
  HasGoMod :: bool

definition discoverTails :: "'e + dir_entry list \<Rightarrow> 'e + string list" where
  "discoverTails entries =
     (case entries of
        Inl err \<Rightarrow> Inl err
      | Inr es \<Rightarrow> Inr (sort (map EntryName (filter (\<lambda>e. IsDir e \<and> HasGoMod e) es))))"

text \<open>A required connector that was skipped counts as failed.\<close>

definition promote :: "string list \<Rightarrow> tail_result \<Rightarrow> tail_result" where
  "promote required r =
     (if Status r = StatusSkip \<and> Tail r \<in> set required
      then r\<lparr>Status := StatusFail,
             Reason := (if Reason r = [] then ''required tail skipped''
                        else ''required tail skipped: '' @ Reason r)\<rparr>
      else r)"

text \<open>
  The results, in the order of the names (two of the same name, when one is asked for twice, may come in
  any order; here in that of their runs), and the exit code.
\<close>

definition matrix_results :: "(string \<Rightarrow> 'e test_run) \<Rightarrow> string list \<Rightarrow> string list \<Rightarrow> tail_result list" where
  "matrix_results run_of required tails =
     sort_key Tail (map (\<lambda>t. promote required (runTail t (run_of t))) tails)"

definition matrix_exit :: "tail_result list \<Rightarrow> int" where
  "matrix_exit results = (if list_ex (\<lambda>r. Status r = StatusFail) results then 1 else 0)"

definition tailmatrix_main ::
  "string option \<Rightarrow> string \<Rightarrow> string \<Rightarrow> 'd + dir_entry list \<Rightarrow> (string \<Rightarrow> 'e test_run) \<Rightarrow>
     int \<times> tail_result list" where
  "tailmatrix_main bad_root tailsFlag requireFlag entries run_of =
     (if bad_root \<noteq> None then (2, [])
      else case (if tailsFlag \<noteq> [] then Inr (parse_names tailsFlag) else discoverTails entries) of
        Inl err \<Rightarrow> (2, [])
      | Inr tails \<Rightarrow>
          (let results = matrix_results run_of (if requireFlag \<noteq> [] then parse_names requireFlag else []) tails
           in (matrix_exit results, results)))"

text \<open>The summary below the table and in the JSON output: the counts and the total time.\<close>

record tail_summary =
  sum_pass :: nat
  sum_fail :: nat
  sum_skip :: nat
  sum_total :: int

definition count_result :: "tail_result \<Rightarrow> tail_summary \<Rightarrow> tail_summary" where
  "count_result r s =
     (let s' = (case Status r of
                  StatusPass \<Rightarrow> s\<lparr>sum_pass := sum_pass s + 1\<rparr>
                | StatusFail \<Rightarrow> s\<lparr>sum_fail := sum_fail s + 1\<rparr>
                | StatusSkip \<Rightarrow> s\<lparr>sum_skip := sum_skip s + 1\<rparr>)
      in s'\<lparr>sum_total := sum_total s' + Elapsed r\<rparr>)"

definition summarise :: "tail_result list \<Rightarrow> tail_summary" where
  "summarise results = fold count_result results \<lparr>sum_pass = 0, sum_fail = 0, sum_skip = 0, sum_total = 0\<rparr>"

section \<open>The check of benchmarks\<close>

subsection \<open>Sections and their headers\<close>

text \<open>Lines up to the next blank one make a section; several blank lines make no empty section.\<close>

fun split_sections :: "string list \<Rightarrow> string list \<Rightarrow> string list list" where
  "split_sections cur [] = (if cur \<noteq> [] then [cur] else [])"
| "split_sections cur (l # ls) =
     (if l = [] then (if cur \<noteq> [] then cur # split_sections [] ls else split_sections cur ls)
      else split_sections (cur @ [l]) ls)"

text \<open>The second line that starts with a comma; the first one when there is no second.\<close>

fun unit_header_from :: "nat option \<Rightarrow> nat \<Rightarrow> string list \<Rightarrow> nat option" where
  "unit_header_from found i [] = found"
| "unit_header_from found i (l # ls) =
     (if prefix '','' l
      then (case found of None \<Rightarrow> unit_header_from (Some i) (Suc i) ls | Some _ \<Rightarrow> Some i)
      else unit_header_from found (Suc i) ls)"

subsection \<open>Rows\<close>

text \<open>\<^verbatim>\<open>strconv.ParseFloat\<close> is an argument, into any ordered type.\<close>

definition parsePercent :: "(string \<Rightarrow> 'e + 'f::{zero, linorder}) \<Rightarrow> string \<Rightarrow> 'e + 'f" where
  "parsePercent ParseFloat s =
     (let t = TrimSpace (TrimSuffix (TrimSpace s) ''%'') in if t = [] then Inr 0 else ParseFloat t)"

datatype 'e bench_note =
    Regression string string
  | Removed string
  | AddedBenchmark string
  | Unparsed string string 'e

definition colNote :: nat where "colNote = 6"

definition bench_row ::
  "(string \<Rightarrow> 'c + string list) \<Rightarrow> (string \<Rightarrow> 'e + 'f::{zero, linorder}) \<Rightarrow> 'f \<Rightarrow> string \<Rightarrow> 'e bench_note option" where
  "bench_row parseLine ParseFloat threshold line =
     (if CHR '','' \<notin> set line then None
      else case parseLine line of
        Inl err \<Rightarrow> None
      | Inr rec \<Rightarrow>
          if length rec \<le> colNote then None
          else
            (let name = TrimSpace (rec ! 0); aVal = TrimSpace (rec ! 1); bVal = TrimSpace (rec ! 3);
                 delta = TrimSpace (rec ! 5)
             in if name = ''geomean'' then None
                else if aVal = [] \<or> bVal = [] then Some (if bVal = [] then Removed name else AddedBenchmark name)
                else if delta = ''~'' then None
                else (case parsePercent ParseFloat delta of
                    Inl err \<Rightarrow> Some (Unparsed delta name err)
                  | Inr pct \<Rightarrow> if pct > threshold then Some (Regression name delta) else None)))"

definition parseSection ::
  "(string \<Rightarrow> 'c + string list) \<Rightarrow> (string \<Rightarrow> 'e + 'f::{zero, linorder}) \<Rightarrow> string \<Rightarrow> 'f \<Rightarrow> string list \<Rightarrow>
     'e bench_note list" where
  "parseSection parseLine ParseFloat gatedMetric threshold ls =
     (case unit_header_from None 0 ls of
        None \<Rightarrow> []
      | Some i \<Rightarrow>
          (case parseLine (ls ! i) of
             Inl err \<Rightarrow> []
           | Inr header \<Rightarrow>
               if length header < 2 \<or> TrimSpace (header ! 1) \<noteq> gatedMetric then []
               else List.map_filter (bench_row parseLine ParseFloat threshold) (drop (i + 1) ls)))"

definition parseSections ::
  "(string \<Rightarrow> 'c + string list) \<Rightarrow> (string \<Rightarrow> 'e + 'f::{zero, linorder}) \<Rightarrow> string \<Rightarrow> 'f \<Rightarrow> string \<Rightarrow>
     'e bench_note list" where
  "parseSections parseLine ParseFloat gatedMetric threshold out =
     concat (map (parseSection parseLine ParseFloat gatedMetric threshold) (split_sections [] (scan_lines out)))"

fun is_regression :: "'e bench_note \<Rightarrow> bool" where
  "is_regression (Regression name delta) = True"
| "is_regression _ = False"

text \<open>The two files exist or not, and \<^verbatim>\<open>benchstat\<close> prints something or fails.\<close>

definition benchcheck_main ::
  "(string \<Rightarrow> 'c + string list) \<Rightarrow> (string \<Rightarrow> 'e + 'f::{zero, linorder}) \<Rightarrow> string \<Rightarrow> 'f \<Rightarrow> string list \<Rightarrow>
     (string \<Rightarrow> bool) \<Rightarrow> (string \<Rightarrow> string \<Rightarrow> 'b + string) \<Rightarrow> int \<times> 'e bench_note list" where
  "benchcheck_main parseLine ParseFloat metric threshold args readable runBenchstat =
     (case args of
        [baseline, current] \<Rightarrow>
          if \<not> readable baseline \<or> \<not> readable current then (2, [])
          else (case runBenchstat baseline current of
              Inl err \<Rightarrow> (2, [])
            | Inr out \<Rightarrow>
                (let notes = parseSections parseLine ParseFloat metric threshold out in
                 (if filter is_regression notes = [] then 0 else 1, notes)))
      | _ \<Rightarrow> (2, []))"

section \<open>The verdict on a connector\<close>

lemma classify_event_simps [simp]:
  "testFailCount (classify_event e v) = testFailCount v + (if Action e = ''fail'' then 1 else 0)"
  "testPassCount (classify_event e v) = testPassCount v + (if Action e = ''pass'' \<and> Test e \<noteq> [] then 1 else 0)"
  "length (skipMessages (classify_event e v)) =
     length (skipMessages v) + (if Action e = ''skip'' \<and> Test e \<noteq> [] then 1 else 0)"
  by (simp_all add: classify_event_def Let_def)

lemma fold_classify_counts:
  "testFailCount (fold classify_event es v) = testFailCount v + length (filter (\<lambda>e. Action e = ''fail'') es)"
  "testPassCount (fold classify_event es v) =
     testPassCount v + length (filter (\<lambda>e. Action e = ''pass'' \<and> Test e \<noteq> []) es)"
  "length (skipMessages (fold classify_event es v)) =
     length (skipMessages v) + length (filter (\<lambda>e. Action e = ''skip'' \<and> Test e \<noteq> []) es)"
  by (induction es arbitrary: v) simp_all

lemma length_eq_Nil: "length xs = length ys \<Longrightarrow> xs = [] \<longleftrightarrow> ys = []"
  by (cases xs; cases ys) simp_all

lemma skip_messages_Nil:
  "skipMessages (fold classify_event es tail_scan_init) = [] \<longleftrightarrow> \<not> list_ex (\<lambda>e. Action e = ''skip'' \<and> Test e \<noteq> []) es"
proof -
  have "length (skipMessages (fold classify_event es tail_scan_init)) =
      length (filter (\<lambda>e. Action e = ''skip'' \<and> Test e \<noteq> []) es)"
    using fold_classify_counts(3) [of es tail_scan_init] unfolding tail_scan_init_def tail_scan.simps by simp
  then have "skipMessages (fold classify_event es tail_scan_init) = [] \<longleftrightarrow>
      filter (\<lambda>e. Action e = ''skip'' \<and> Test e \<noteq> []) es = []"
    by (rule length_eq_Nil)
  then show ?thesis unfolding filter_empty_conv list_ex_iff by blast
qed

text \<open>
  The status of a connector depends on which events there are, not on their order or their number: it has
  failed when a test or the package has, or the process has; otherwise it is skipped when a test was
  skipped and none passed; otherwise it has passed.
\<close>

theorem classify_status:
  "fst (classify events exitErr stderr) =
     (if list_ex (\<lambda>e. Action e = ''fail'') events \<or> (exitErr \<noteq> None \<and> \<not> isExitCode exitErr 0) then StatusFail
      else if list_ex (\<lambda>e. Action e = ''skip'' \<and> Test e \<noteq> []) events
           \<and> \<not> list_ex (\<lambda>e. Action e = ''pass'' \<and> Test e \<noteq> []) events then StatusSkip
      else StatusPass)"
proof -
  have fails: "testFailCount (fold classify_event events tail_scan_init) > 0 \<longleftrightarrow> list_ex (\<lambda>e. Action e = ''fail'') events"
    by (simp add: fold_classify_counts tail_scan_init_def filter_empty_conv list_ex_iff)
  have passes: "testPassCount (fold classify_event events tail_scan_init) = 0 \<longleftrightarrow>
      \<not> list_ex (\<lambda>e. Action e = ''pass'' \<and> Test e \<noteq> []) events"
    by (auto simp: fold_classify_counts tail_scan_init_def filter_empty_conv list_ex_iff)
  show ?thesis
    unfolding classify_def Let_def fails passes skip_messages_Nil by simp
qed

section \<open>The exit of the matrix\<close>

lemma promote_simps [simp]:
  "Tail (promote required r) = Tail r" "Elapsed (promote required r) = Elapsed r"
  "Status (promote required r) =
     (if Status r = StatusSkip \<and> Tail r \<in> set required then StatusFail else Status r)"
  by (simp_all add: promote_def)

lemma runTail_Tail [simp]: "Tail (runTail t r) = t"
  by (simp add: runTail_def split: prod.splits)

lemma matrix_exit_iff:
  "matrix_exit (matrix_results run_of required tails) =
     (if list_ex (\<lambda>t. Status (runTail t (run_of t)) = StatusFail
                 \<or> Status (runTail t (run_of t)) = StatusSkip \<and> t \<in> set required) tails then 1 else 0)"
  by (auto simp: matrix_exit_def matrix_results_def list_ex_iff split: if_splits)

text \<open>When the matrix exits with 0, every required connector that was run has passed.\<close>

theorem matrix_zero_required_pass:
  assumes "matrix_exit (matrix_results run_of required tails) = 0" and "t \<in> set required" and "t \<in> set tails"
  shows "Status (runTail t (run_of t)) = StatusPass"
  using assms by (cases "Status (runTail t (run_of t))") (auto simp: matrix_exit_iff list_ex_iff split: if_splits)

theorem matrix_zero_required_pass_witness:
  "Status (runTail ''kredis''
     \<lparr>tr_stdout = [], tr_stderr = [], tr_events = [Inr \<lparr>Action = ''pass'', Test = ''TestStore'', Printed = []\<rparr>] :: (unit + test_event) list,
      tr_exit = None, tr_elapsed = 5\<rparr>) = StatusPass"
  (is "Status (runTail _ ?r) = _")
proof (rule matrix_zero_required_pass [where run_of = "\<lambda>_. ?r" and required = "[''kredis'']" and tails = "[''kredis'']"])
  show "matrix_exit (matrix_results (\<lambda>_. ?r) [''kredis''] [''kredis'']) = 0"
    by (simp add: matrix_exit_iff runTail_def classify_def classify_event_def tail_scan_init_def)
qed simp_all

text \<open>
  A required name that is not among the connectors run makes no difference: a misspelt \<^verbatim>\<open>-require\<close>, or one
  left out of \<^verbatim>\<open>-tails\<close>, passes.
\<close>

theorem required_not_run_ignored:
  assumes "t \<notin> set tails"
  shows "matrix_results run_of (t # required) tails = matrix_results run_of required tails"
proof -
  have "promote (t # required) (runTail u (run_of u)) = promote required (runTail u (run_of u))" if "u \<in> set tails" for u
    using assms that by (auto simp: promote_def)
  then show ?thesis
    unfolding matrix_results_def by (metis (no_types, lifting) map_eq_conv)
qed

theorem required_not_run_ignored_witness:
  "matrix_results (\<lambda>_. \<lparr>tr_stdout = [], tr_stderr = [], tr_events = [] :: (unit + test_event) list, tr_exit = None, tr_elapsed = 5\<rparr>)
       [''kredsi''] [''kredis'']
   = matrix_results (\<lambda>_. \<lparr>tr_stdout = [], tr_stderr = [], tr_events = [] :: (unit + test_event) list, tr_exit = None, tr_elapsed = 5\<rparr>) [] [''kredis'']"
  by (rule required_not_run_ignored) simp

text \<open>Every result is counted once in the summary.\<close>

lemma fold_count_result:
  "sum_pass (fold count_result rs s) + sum_fail (fold count_result rs s) + sum_skip (fold count_result rs s) =
     sum_pass s + sum_fail s + sum_skip s + length rs"
  "sum_total (fold count_result rs s) = sum_total s + sum_list (map Elapsed rs)"
  "sum_fail (fold count_result rs s) = sum_fail s + length (filter (\<lambda>r. Status r = StatusFail) rs)"
  by (induction rs arbitrary: s) (simp_all add: count_result_def Let_def split: tail_status.splits)

theorem summary_accounts:
  "sum_pass (summarise rs) + sum_fail (summarise rs) + sum_skip (summarise rs) = length rs
   \<and> sum_total (summarise rs) = sum_list (map Elapsed rs) \<and> (matrix_exit rs = 1 \<longleftrightarrow> sum_fail (summarise rs) > 0)"
  using fold_count_result [of rs "\<lparr>sum_pass = 0, sum_fail = 0, sum_skip = 0, sum_total = 0\<rparr>"]
  by (auto simp: summarise_def matrix_exit_def filter_empty_conv list_ex_iff)

text \<open>\<^verbatim>\<open>tailLines\<close> keeps the last lines, at most as many as asked for.\<close>

theorem tail_lines_kept:
  assumes "0 < n"
  shows "strings_Split (tailLines s n) (CHR 0x0A) =
     drop (length (strings_Split s (CHR 0x0A)) - n) (strings_Split s (CHR 0x0A))"
proof (cases "length (strings_Split s (CHR 0x0A)) \<le> n")
  case False
  then show ?thesis using assms
    by (auto simp: tailLines_def Let_def list_all_iff intro!: Split_Join dest!: in_set_dropD Split_parts)
qed (simp add: tailLines_def)

theorem tail_lines_kept_witness:
  "strings_Split (tailLines (CHR ''a'' # CHR 0x0A # ''b'') 1) (CHR 0x0A) = [''b'']"
  using tail_lines_kept [of 1 "CHR ''a'' # CHR 0x0A # ''b''"] by simp

section \<open>What the benchmark check sees\<close>

lemma split_sections_lines: "concat (split_sections cur ls) = cur @ filter (\<lambda>l. l \<noteq> []) ls"
  by (induction ls arbitrary: cur) auto

lemma split_sections_nonempty: "[] \<notin> set (split_sections cur ls)"
  by (induction ls arbitrary: cur) auto

lemma split_sections_blank: "split_sections cur (ls @ [] # rest) = split_sections cur ls @ split_sections [] rest"
  by (induction ls arbitrary: cur) auto

lemma split_sections_one: "[] \<notin> set sec \<Longrightarrow> cur @ sec \<noteq> [] \<Longrightarrow> split_sections cur sec = [cur @ sec]"
  by (induction sec arbitrary: cur) auto

text \<open>No line of the output is lost or seen twice: the sections put together are the lines that are not blank.\<close>

theorem sections_keep_lines:
  "concat (split_sections [] ls) = filter (\<lambda>l. l \<noteq> []) ls \<and> [] \<notin> set (split_sections [] ls)"
  by (simp add: split_sections_lines split_sections_nonempty)

text \<open>A section of another metric never changes the verdict, wherever it stands in the output.\<close>

theorem other_metric_ignored:
  assumes "parseSection parseLine ParseFloat m th sec = []" and "[] \<notin> set sec"
    and "scan_lines out = before @ [] # sec @ [] # behind" and "scan_lines out' = before @ [] # behind"
  shows "parseSections parseLine ParseFloat m th out = parseSections parseLine ParseFloat m th out'"
proof (cases "sec = []")
  case False
  then show ?thesis
    using assms by (simp add: parseSections_def split_sections_blank split_sections_one)
qed (use assms in \<open>simp add: parseSections_def split_sections_blank\<close>)

lemma map_filter_member: "x \<in> set (List.map_filter f xs) \<longleftrightarrow> (\<exists>y\<in>set xs. f y = Some x)"
  by (force simp: List.map_filter_def)

text \<open>
  The check of a section whose header names the metric: a regression is reported exactly for the rows
  behind the header that have both values and a change above the threshold.
\<close>

theorem regressions_exact:
  assumes "unit_header_from None 0 ls = Some i" and "parseLine (ls ! i) = Inr header" and "2 \<le> length header"
    and "TrimSpace (header ! 1) = m"
  shows "Regression name delta \<in> set (parseSection parseLine ParseFloat m th ls) \<longleftrightarrow>
     (\<exists>line fields pct. line \<in> set (drop (i + 1) ls) \<and> CHR '','' \<in> set line \<and> parseLine line = Inr fields
        \<and> colNote < length fields \<and> TrimSpace (fields ! 0) = name \<and> name \<noteq> ''geomean''
        \<and> TrimSpace (fields ! 1) \<noteq> [] \<and> TrimSpace (fields ! 3) \<noteq> [] \<and> TrimSpace (fields ! 5) = delta \<and> delta \<noteq> ''~''
        \<and> parsePercent ParseFloat delta = Inr pct \<and> th < pct)"
proof -
  have row: "bench_row parseLine ParseFloat th line = Some (Regression name delta) \<longleftrightarrow>
      (\<exists>fields pct. CHR '','' \<in> set line \<and> parseLine line = Inr fields
        \<and> colNote < length fields \<and> TrimSpace (fields ! 0) = name \<and> name \<noteq> ''geomean''
        \<and> TrimSpace (fields ! 1) \<noteq> [] \<and> TrimSpace (fields ! 3) \<noteq> [] \<and> TrimSpace (fields ! 5) = delta \<and> delta \<noteq> ''~''
        \<and> parsePercent ParseFloat delta = Inr pct \<and> th < pct)" for line
    by (auto simp: bench_row_def Let_def split: sum.splits if_splits)
  have "Regression name delta \<in> set (parseSection parseLine ParseFloat m th ls) \<longleftrightarrow>
      (\<exists>line\<in>set (drop (i + 1) ls). bench_row parseLine ParseFloat th line = Some (Regression name delta))"
    using assms by (auto simp: parseSection_def map_filter_member)
  then show ?thesis unfolding row by blast
qed

end
