(* ===== verification/Spec2Isabelle.thy ===== *)
theory Spec2Isabelle
  imports Prelude Stage_Kernel Handlers Supervision Outbox Stores Key_Sets Breaker Retry_Pipeline
    Run_Context Runner Operator Network Aggregate Take_Ops Transform_Ops Batch_Ops Map_Ops
    Concurrent_Map Fan_Ops Concurrent_Ops Misc_Ops Flat_Ops Switch_Ops Expand_Map Effects
    State_Ref State_Ops Worker_Pools Ordered_Pools Collect_Ops Time_Ops Source_Ops Amb_Op
    Compose_Ops Share_Op Object_Pool Metrics Run_Control Segment_Ops Iter_Op Rate_Limit Test_Clock
    Hook_Ops Inspector Stage_Builders Connector_Sources Pubsub_Source Connector_Sinks Redis_Backends
    Metric_Hooks Test_Kit Go_Strings Repo_Tools
begin

text \<open>
  A model of kitsune, a Go library for typed streaming pipelines, and the theorems that make it
  correct.

  \<^bold>\<open>The program.\<close> A pipeline is a graph of stages. Every operator function of the library (\<^verbatim>\<open>Map\<close>,
  \<^verbatim>\<open>Batch\<close>, \<^verbatim>\<open>Zip\<close>, ...) returns a \<^verbatim>\<open>Pipeline\<close> whose \<^verbatim>\<open>build\<close> closure, called once per run, builds its
  inputs, creates its output channel, registers a drain entry and adds a stage function to the
  run context (\<^verbatim>\<open>pipeline.go\<close>). \<^verbatim>\<open>Runner.Run\<close> (\<^verbatim>\<open>kitsune.go\<close>) builds the graph and runs every
  stage in a goroutine of one errgroup (\<^verbatim>\<open>internal/runner.go\<close>). Stages talk through bounded
  channels written by an outbox (\<^verbatim>\<open>internal/outbox.go\<close>); errors of user functions go through an
  error handler (\<^verbatim>\<open>internal/process.go\<close>, \<^verbatim>\<open>config.go\<close>) and a supervisor; a stage that stops early
  tells its producer through the drain entry.

  \<^bold>\<open>How a stage is modelled.\<close> Nearly every stage is \<^verbatim>\<open>for { select { ... } }\<close> over its inputs, the
  context and a drain channel. \<^verbatim>\<open>Stage_Kernel\<close> has the record \<^verbatim>\<open>loop\<close> (initial variables, the check
  at the loop's head, which events it listens for, the body as a function from variables and
  event to the items sent and what comes next, and which select arms it has) and two semantics:
  \<^verbatim>\<open>exec\<close>, which runs the body on a list of events, and \<^verbatim>\<open>step\<close>/\<^verbatim>\<open>run\<close>, which interleaves receives,
  single sends, cancellation and drain signals. The lemmas \<^verbatim>\<open>run_sent_prefix\<close>, \<^verbatim>\<open>run_complete\<close> and
  \<^verbatim>\<open>run_schedule\<close> say that they agree, so an operator is proved once on \<^verbatim>\<open>exec\<close>. The locale
  \<^verbatim>\<open>stream_stage\<close> is what a consumer relies on; \<^verbatim>\<open>transducer\<close>, \<^verbatim>\<open>fallible\<close> (\<^verbatim>\<open>Operator\<close>) and \<^verbatim>\<open>chunker\<close>
  (\<^verbatim>\<open>Batch_Ops\<close>) are the shapes of bodies that give it. Every operator interprets one of them.

  \<^bold>\<open>Theories.\<close>
  \<^item> \<^verbatim>\<open>Prelude\<close>: error values and shared lemmas on lists and maps.
  \<^item> \<^verbatim>\<open>Stage_Kernel\<close>, \<^verbatim>\<open>Operator\<close>, \<^verbatim>\<open>Network\<close>: the stage loop; the frame every operator shares
    (metadata, buffer, deferred calls); two stages joined by a bounded channel with the drain
    protocol, where the composition of two stages is proved to compute the composition of their
    functions, and where a blocked sender is shown to hang when its consumer leaves cooperatively.
  \<^item> \<^verbatim>\<open>Handlers\<close>: \<^verbatim>\<open>internal/process.go\<close>, \<^verbatim>\<open>internal/carrier.go\<close> and the handlers of \<^verbatim>\<open>config.go\<close>.
  \<^item> \<^verbatim>\<open>Supervision\<close>: \<^verbatim>\<open>Supervise\<close> of \<^verbatim>\<open>internal/process.go\<close> and the policies.
  \<^item> \<^verbatim>\<open>Outbox\<close>: \<^verbatim>\<open>internal/outbox.go\<close>, sequentially and as concurrent senders with mutexes, where taking an
    item out, counting it and calling the hook are separate steps.
  \<^item> \<^verbatim>\<open>Stores\<close>, \<^verbatim>\<open>Key_Sets\<close>: the stores, caches and deduplication sets of \<^verbatim>\<open>internal/hooks.go\<close>,
    \<^verbatim>\<open>internal/ttldedup.go\<close> and \<^verbatim>\<open>internal/bloom.go\<close>, with the interfaces \<^verbatim>\<open>Store\<close>, \<^verbatim>\<open>Cache\<close> and
    \<^verbatim>\<open>DedupSet\<close> as the locales \<^verbatim>\<open>kv_store\<close>, \<^verbatim>\<open>cache\<close>, \<^verbatim>\<open>dedup_set\<close> and \<^verbatim>\<open>exact_dedup_set\<close>.
  \<^item> \<^verbatim>\<open>Breaker\<close>, \<^verbatim>\<open>Retry_Pipeline\<close>: \<^verbatim>\<open>CircuitBreaker\<close> of \<^verbatim>\<open>middleware.go\<close>; \<^verbatim>\<open>operator_retry.go\<close>.
  \<^item> \<^verbatim>\<open>Run_Context\<close>, \<^verbatim>\<open>Runner\<close>: options, \<^verbatim>\<open>runCtx\<close>, drain entries, the gate and the memoised build;
    the sinks of \<^verbatim>\<open>ForEach\<close>, which own no channel and build their upstream or, fused, what the chain reads
    from (\<^verbatim>\<open>terminal.go\<close>); \<^verbatim>\<open>Run\<close>, \<^verbatim>\<open>MergeRunners\<close>, finalizers and the outcome (\<^verbatim>\<open>kitsune.go\<close>, \<^verbatim>\<open>runsummary.go\<close>).
  \<^item> \<^verbatim>\<open>Aggregate\<close>, \<^verbatim>\<open>Take_Ops\<close>, \<^verbatim>\<open>Transform_Ops\<close>, \<^verbatim>\<open>Batch_Ops\<close>, \<^verbatim>\<open>Map_Ops\<close>, \<^verbatim>\<open>Fan_Ops\<close>, \<^verbatim>\<open>Misc_Ops\<close>: the
    operators of \<^verbatim>\<open>aggregate.go\<close>, \<^verbatim>\<open>operator_take.go\<close>, \<^verbatim>\<open>operator_transform.go\<close>, \<^verbatim>\<open>batch.go\<close>,
    \<^verbatim>\<open>operator_map.go\<close>, \<^verbatim>\<open>operator_filter.go\<close>, \<^verbatim>\<open>terminal.go\<close>, \<^verbatim>\<open>fan_combine.go\<close>, \<^verbatim>\<open>fan_out.go\<close>,
    \<^verbatim>\<open>misc.go\<close> and \<^verbatim>\<open>source.go\<close> that are one loop. The paths of \<^verbatim>\<open>Map\<close> and \<^verbatim>\<open>ForEach\<close> are given the context of
    the stage and the one an item may carry, since the fused path calls the functions with the former.
  \<^item> \<^verbatim>\<open>Concurrent_Map\<close>, \<^verbatim>\<open>Concurrent_Ops\<close>: the operators with several goroutines as step relations with
    inductive invariants. One relation for the loop with a semaphore and one for the ordered loop,
    with the answer to an item as a parameter; \<^verbatim>\<open>Map\<close>, \<^verbatim>\<open>FlatMap\<close> and \<^verbatim>\<open>ForEach\<close> are instances of both.
    \<^verbatim>\<open>Merge\<close> and \<^verbatim>\<open>CombineLatest\<close> have their own.
  \<^item> \<^verbatim>\<open>Flat_Ops\<close>, \<^verbatim>\<open>Switch_Ops\<close>, \<^verbatim>\<open>Expand_Map\<close>: \<^verbatim>\<open>operator_flatmap.go\<close> and \<^verbatim>\<open>advanced.go\<close>; \<^verbatim>\<open>ExpandMap\<close> of
    \<^verbatim>\<open>operator_filter.go\<close>.
  \<^item> \<^verbatim>\<open>Effects\<close>: \<^verbatim>\<open>effect.go\<close> and \<^verbatim>\<open>idempotency.go\<close>, the interface \<^verbatim>\<open>IdempotencyStore\<close> as a locale.
  \<^item> \<^verbatim>\<open>State_Ref\<close>, \<^verbatim>\<open>State_Ops\<close>: the refs of \<^verbatim>\<open>state_ref.go\<close> over their three backings, the registry of
    \<^verbatim>\<open>pipeline.go\<close>, the keyed map with expiry, and the serial stateful stages.
  \<^item> \<^verbatim>\<open>Worker_Pools\<close>, \<^verbatim>\<open>Ordered_Pools\<close>: the stateful stages with persistent workers (\<^verbatim>\<open>state_with.go\<close>,
    \<^verbatim>\<open>state_withkey.go\<close>): workers on the shared input, workers with a channel each, and the ordered
    stages with slots. The reference is the serial stage.
  \<^item> \<^verbatim>\<open>Collect_Ops\<close>, \<^verbatim>\<open>Time_Ops\<close>: the terminals of \<^verbatim>\<open>collect.go\<close>; \<^verbatim>\<open>Throttle\<close>, \<^verbatim>\<open>Sample\<close> and \<^verbatim>\<open>Debounce\<close> of
    \<^verbatim>\<open>time_op.go\<close>.
  \<^item> \<^verbatim>\<open>Source_Ops\<close>, \<^verbatim>\<open>Amb_Op\<close>: \<^verbatim>\<open>Generate\<close> and everything built on it, in \<^verbatim>\<open>source.go\<close>, \<^verbatim>\<open>operator_filter.go\<close>,
    \<^verbatim>\<open>misc.go\<close> and \<^verbatim>\<open>notification.go\<close>, with the locale \<^verbatim>\<open>relay\<close> for those that pass a pipeline on; \<^verbatim>\<open>Amb\<close>
    as a step relation.
  \<^item> \<^verbatim>\<open>Compose_Ops\<close>, \<^verbatim>\<open>Share_Op\<close>: operators put together from others (\<^verbatim>\<open>MapBatch\<close>, \<^verbatim>\<open>Within\<close>, \<^verbatim>\<open>enrich.go\<close>,
    \<^verbatim>\<open>stage.go\<close>, small functions of \<^verbatim>\<open>misc.go\<close>); \<^verbatim>\<open>Share\<close> of \<^verbatim>\<open>fan_out.go\<close>.
  \<^item> \<^verbatim>\<open>Object_Pool\<close>, \<^verbatim>\<open>Metrics\<close>, \<^verbatim>\<open>Run_Control\<close>: \<^verbatim>\<open>pool.go\<close>; the counters of \<^verbatim>\<open>metrics.go\<close>, with its
    compare-and-swap loops as a step relation; \<^verbatim>\<open>RunAsync\<close> and its handle, the exported graph, and the
    report of \<^verbatim>\<open>optimized.go\<close> against what \<^verbatim>\<open>Map\<close> and \<^verbatim>\<open>Filter\<close> do.
  \<^item> \<^verbatim>\<open>Segment_Ops\<close>: \<^verbatim>\<open>segment.go\<close>, \<^verbatim>\<open>devstore.go\<close>, \<^verbatim>\<open>checkpoint.go\<close>; the interface \<^verbatim>\<open>DevStore\<close> as a locale,
    interpreted on the store in files.
  \<^item> \<^verbatim>\<open>Iter_Op\<close>, \<^verbatim>\<open>Rate_Limit\<close>: \<^verbatim>\<open>Iter\<close> as a step relation of its goroutines; \<^verbatim>\<open>RateLimit\<close> with the token
    bucket's answers as an argument.
  \<^item> \<^verbatim>\<open>Hook_Ops\<close>, \<^verbatim>\<open>Inspector\<close>, \<^verbatim>\<open>Test_Clock\<close>: hooks, \<^verbatim>\<open>MultiHook\<close> and \<^verbatim>\<open>RecordingHook\<close>, the options of a run;
    the state behind the dashboard, with the interface \<^verbatim>\<open>InspectorStore\<close> as a locale; the virtual clock
    of \<^verbatim>\<open>testkit/clock.go\<close>.
  \<^item> \<^verbatim>\<open>Stage_Builders\<close>: what constructors and builds choose: the loop of \<^verbatim>\<open>ForEach\<close> and its runners, blueprints
    of stages, the cache of a stage, the keyed maps of \<^verbatim>\<open>FlatMapWithKey\<close>.
  \<^item> \<^verbatim>\<open>Connector_Sources\<close>, \<^verbatim>\<open>Pubsub_Source\<close>: the sources under \<^verbatim>\<open>tails/\<close>. A run is the log of its calls of
    \<^verbatim>\<open>yield\<close> and of its requests to the broker; \<^verbatim>\<open>poll_loop\<close> with a \<^verbatim>\<open>settlement\<close> is the loop most of them share,
    and the locale \<^verbatim>\<open>at_least_once\<close> is what SQS, Service Bus and Kafka keep and the others do not.
    Google Pub/Sub calls back and is a step relation.
  \<^item> \<^verbatim>\<open>Connector_Sinks\<close>: the sinks under \<^verbatim>\<open>tails/\<close>, single items and batches in chunks.
  \<^item> \<^verbatim>\<open>Redis_Backends\<close>: \<^verbatim>\<open>tails/kredis\<close>, which interprets the locales of \<^verbatim>\<open>Stores\<close> and \<^verbatim>\<open>Key_Sets\<close>.
  \<^item> \<^verbatim>\<open>Metric_Hooks\<close>: \<^verbatim>\<open>tails/kprometheus\<close>, \<^verbatim>\<open>tails/kdatadog\<close> and \<^verbatim>\<open>tails/kotel\<close> against \<^verbatim>\<open>MetricsHook\<close>.
  \<^item> \<^verbatim>\<open>Test_Kit\<close>: the runners, assertions and failing functions of \<^verbatim>\<open>testkit/\<close>.
  \<^item> \<^verbatim>\<open>Go_Strings\<close>, \<^verbatim>\<open>Repo_Tools\<close>: string functions of the standard library; \<^verbatim>\<open>internal/tools\<close>.

  \<^bold>\<open>What the theorems show.\<close> Each property is numbered in the text above it. C1 composes stages;
  C2 and C3 are the concurrent loops, C4 and C5 their stateful forms against the serial stage; C6 to
  C8 the variants of \<^verbatim>\<open>Map\<close> and \<^verbatim>\<open>FlatMap\<close>; C9 and C10 effects; C11 to C20 batching, error handling,
  Kafka's commits, breaker, outboxes, metrics, drain, build and supervision; C21 to C24 \<^verbatim>\<open>SwitchMap\<close> and \<^verbatim>\<open>ExpandMap\<close>; C25 to C27
  refs and keyed maps; C28 to C35 \<^verbatim>\<open>Iter\<close>, \<^verbatim>\<open>Merge\<close>, segments, \<^verbatim>\<open>Amb\<close>, sets, caches and batches written to DynamoDB. C36 to C39 state
  behaviour that differs from what comments or documentation say: stages that hang, a drain that
  fails the run, a panic of \<^verbatim>\<open>CombineLatest\<close>. C40 compares the exported metrics with the library's own. Theorems without a number are
  further facts about the same definitions. C4 and C5 are about runs that returned nil and were neither cancelled
  nor drained, with refs in memory and no time to live: expiry depends on when each item is looked up, which
  workers and the serial stage do at different times. C26 compares keyed maps with the history of their uses.
  The theorems \<^verbatim>\<open>fusion_names_unnamed_map\<close>, \<^verbatim>\<open>fusion_drops_item_context\<close>, \<^verbatim>\<open>fusion_replaces_drain_entry\<close> and
  \<^verbatim>\<open>skip_text_is_not_skip\<close> state where two paths of the code that should agree do not.

  \<^bold>\<open>Bounds.\<close> Loops of the source that may not end take fuel: \<^verbatim>\<open>process_loop\<close>, \<^verbatim>\<open>sup_loop\<close>,
  \<^verbatim>\<open>effect_attempts\<close> and \<^verbatim>\<open>retry_loop\<close> spend one unit per attempt, \<^verbatim>\<open>expand_loop\<close> one per pipeline;
  \<^verbatim>\<open>None\<close> means not finished. C13, C20, C23, C24 and \<^verbatim>\<open>retry_bounded\<close> and \<^verbatim>\<open>effect_attempts_bounded\<close> prove how
  much is enough, \<^verbatim>\<open>retry_then_never_gives_up\<close> and \<^verbatim>\<open>zero_strategy_retries_forever\<close> that no amount is in the stated
  cases. The paginated reads (\<^verbatim>\<open>scan_loop\<close>, \<^verbatim>\<open>http_GetPages\<close>, \<^verbatim>\<open>s3_list_loop\<close>, \<^verbatim>\<open>kinesis_loop\<close>, \<^verbatim>\<open>es_loop\<close>) spend one unit
  per page, for which the number of pages is enough, and \<^verbatim>\<open>batch_write_loop\<close> one per request, 25 being enough
  for a batch by C35. All
  other loops are structural. Go's \<^verbatim>\<open>int\<close> counters that cannot reach their width in a run are \<^verbatim>\<open>int\<close> or
  \<^verbatim>\<open>nat\<close>, and so are the measures of \<^verbatim>\<open>BatchMeasure\<close>, whose sums are taken not to overflow; hashes and the Bloom filter are words of their width. Durations and times are integers of
  nanoseconds.

  \<^bold>\<open>Parameters.\<close> Clocks, cancellations and other decisions of the environment are arguments
  (functions of the attempt or round) or events. User functions are arguments; those of stateful
  stages transform the ref and the part of the store they act on. The hash functions of
  \<^verbatim>\<open>hash/maphash\<close>, the sorting routine and codecs are arguments.

  \<^bold>\<open>Not modelled.\<close> HTTP handlers, JSON output, log and table formatting; floating-point rates of metrics,
  inspector and test kit, and \<^verbatim>\<open>ExponentialBackoff\<close>, whose value is an argument; the clients of other systems,
  which are arguments; \<^verbatim>\<open>WriteLines\<close> and \<^verbatim>\<open>WriteJSON\<close> of \<^verbatim>\<open>tails/kfile\<close>, which only print; the real clock; the wrappers
  of \<^verbatim>\<open>methods.go\<close>, which only call other functions; examples.
\<close>

end
